(* ===== verification/Prelude.thy ===== *)
theory Prelude
  imports Main "HOL-Library.Word" "HOL-Library.Monad_Syntax"
begin

text \<open>
  Shared base of the development: names for the C types, the fact collections the component
  proofs use, chains of \<open>next\<close> pointers (the singly linked lists of the C code), and the
  few facts about lists and words that several components need.
\<close>

unbundle bit_operations_syntax

section \<open>Types of the C code\<close>

type_synonym u8 = "8 word"
type_synonym u16 = "16 word"
type_synonym u32 = "32 word"
type_synonym u64 = "64 word"
type_synonym bytes = "8 word list"

text \<open>
  Conventions. A result of type \<open>'a option\<close> is \<open>None\<close> where the C code would fail an
  \<open>assert\<close>, touch memory outside an object or never return; every theorem that such a
  function is safe proves that the result is \<open>Some\<close>. Errors the code reports to its caller
  are values: \<open>-1\<close>, \<open>NULL\<close> (an inner \<open>None\<close>) or \<open>Inl\<close> of a sum type for
  \<open>luaL_error\<close>.
\<close>

named_theorems chain_simps \<open>chains of next pointers under pointer updates\<close>
named_theorems ring_simps \<open>circular buffers read as lists\<close>
named_theorems byte_simps \<open>bytes cut out of machine words and put together again\<close>

text \<open>Message types and flags of \<^verbatim>\<open>skynet.h\<close>.\<close>

definition PTYPE_TEXT :: int where "PTYPE_TEXT = 0"
definition PTYPE_CLIENT :: int where "PTYPE_CLIENT = 3"
definition PTYPE_SOCKET :: int where "PTYPE_SOCKET = 6"
definition PTYPE_ERROR :: int where "PTYPE_ERROR = 7"
definition PTYPE_TAG_DONTCOPY :: int where "PTYPE_TAG_DONTCOPY = 0x10000"
definition PTYPE_TAG_ALLOCSESSION :: int where "PTYPE_TAG_ALLOCSESSION = 0x20000"

section \<open>C integer conversions\<close>

text \<open>The value of a 32-bit pattern as a C \<open>int\<close>, and the conversion of an arbitrary
  integer to \<open>int\<close> (gcc: modulo \<open>2 ^ 32\<close>).\<close>

definition to_i32 :: "int \<Rightarrow> int" where
  "to_i32 x = (x + 2 ^ 31) mod 2 ^ 32 - 2 ^ 31"

definition is_i32 :: "int \<Rightarrow> bool" where
  "is_i32 x \<longleftrightarrow> - (2 ^ 31) \<le> x \<and> x < 2 ^ 31"

lemma is_i32_to_i32 [simp]: "is_i32 (to_i32 x)"
proof -
  have "0 \<le> (x + 2 ^ 31) mod 2 ^ 32" and "(x + 2 ^ 31) mod 2 ^ 32 < (2 ^ 32 :: int)"
    by simp_all
  then show ?thesis unfolding is_i32_def to_i32_def by simp
qed

lemma to_i32_id: "is_i32 x \<Longrightarrow> to_i32 x = x"
  unfolding is_i32_def to_i32_def by (simp add: mod_pos_pos_trivial)

section \<open>Machine words as naturals\<close>


lemma u32_less: "unat (x :: u32) < 2 ^ 32"
  by (rule less_le_trans [OF unsigned_less]) simp

lemma unat_drop_bit_div: "unat (drop_bit n x) = unat (x :: 'a::len word) div 2 ^ n"
  by (rule trans [OF unat_drop_bit_eq drop_bit_eq_div])

lemma or_mask_eq_iff: "(x OR mask n) = (y OR mask n) \<longleftrightarrow> unat (x::'a::len word) div 2 ^ n = unat y div 2 ^ n"
proof -
  have "(x OR mask n) = (y OR mask n) \<longleftrightarrow> drop_bit n x = drop_bit n y"
  proof
    assume h: "(x OR mask n) = (y OR mask n)"
    show "drop_bit n x = drop_bit n y"
    proof (rule bit_eqI)
      fix m
      show "bit (drop_bit n x) m = bit (drop_bit n y) m"
        using arg_cong [OF h, of "\<lambda>w. bit w (n + m)"] by (auto simp: bit_simps)
    qed
  next
    assume h: "drop_bit n x = drop_bit n y"
    show "(x OR mask n) = (y OR mask n)"
    proof (rule bit_word_eqI)
      fix m assume "m < LENGTH('a)"
      moreover have "bit x m = bit y m" if "n \<le> m" 
        using arg_cong [OF h, of "\<lambda>w. bit w (m - n)"] that by (auto simp: bit_simps)
      ultimately show "bit (x OR mask n) m = bit (y OR mask n) m" by (cases "n \<le> m") (auto simp: bit_simps)
    qed
  qed
  also have "\<dots> \<longleftrightarrow> unat (drop_bit n x) = unat (drop_bit n y)" by (rule word_unat_eq_iff)
  finally show ?thesis unfolding unat_drop_bit_div .
qed
lemma unat_and_mask: "unat (x AND mask n) = unat (x::'a::len word) mod 2 ^ n" 
  unfolding take_bit_eq_mask [symmetric] unsigned_take_bit_eq by (rule take_bit_eq_mod)
lemma unat_word_of_int:
  assumes "0 \<le> n" "n < 2 ^ LENGTH('a)"
  shows "unat (word_of_int n :: 'a::len word) = nat n"
proof -
  obtain k where k: "n = int k" using assms(1) nonneg_int_cases by blast
  have "int k < int (2 ^ LENGTH('a))" using assms(2) k by simp
  then have "k < 2 ^ LENGTH('a)" by (simp only: of_nat_less_iff)
  then show ?thesis unfolding k of_int_of_nat_eq unat_of_nat by simp
qed

section \<open>Chains of next pointers\<close>

text \<open>
  \<open>is_chain nxt p xs\<close>: following \<open>nxt\<close> from the pointer \<open>p\<close> visits exactly the cells
  \<open>xs\<close>, in order, and ends in \<open>NULL\<close>.
\<close>

fun is_chain :: "('p \<Rightarrow> 'p option) \<Rightarrow> 'p option \<Rightarrow> 'p list \<Rightarrow> bool" where
  "is_chain nxt p [] \<longleftrightarrow> p = None"
| "is_chain nxt p (x # xs) \<longleftrightarrow> p = Some x \<and> is_chain nxt (nxt x) xs"

lemma is_chain_None [simp]: "is_chain nxt None xs \<longleftrightarrow> xs = []"
  by (cases xs) auto

lemma is_chain_SomeD: "is_chain nxt (Some x) xs \<Longrightarrow> \<exists>ys. xs = x # ys \<and> is_chain nxt (nxt x) ys"
  by (cases xs) auto

lemma is_chain_Some_iff:
  "is_chain nxt (Some x) xs \<longleftrightarrow> (\<exists>ys. xs = x # ys \<and> is_chain nxt (nxt x) ys)"
  by (cases xs) auto

lemma is_chain_unique: "is_chain nxt p xs \<Longrightarrow> is_chain nxt p ys \<Longrightarrow> xs = ys"
proof (induction xs arbitrary: p ys)
  case Nil
  then show ?case by simp
next
  case (Cons x xs)
  then show ?case by (cases ys) auto
qed

text \<open>A chain never meets the same cell twice: the rest of the chain is determined by the cell.\<close>

lemma is_chain_suffix: "is_chain nxt p (xs @ x # ys) \<Longrightarrow> is_chain nxt (Some x) (x # ys)"
  by (induction xs arbitrary: p) auto

lemma is_chain_distinct: "is_chain nxt p xs \<Longrightarrow> distinct xs"
proof (induction xs arbitrary: p)
  case Nil
  then show ?case by simp
next
  case (Cons x xs)
  have "x \<notin> set xs"
  proof
    assume "x \<in> set xs"
    then obtain as bs where xs: "xs = as @ x # bs"
      by (meson split_list)
    from Cons.prems xs have "is_chain nxt (nxt x) (as @ x # bs)" by simp
    then have "is_chain nxt (Some x) (x # bs)" by (rule is_chain_suffix)
    with Cons.prems have "x # bs = x # xs"
      using is_chain_unique by (metis is_chain.simps(2))
    with xs show False by simp
  qed
  with Cons show ?case by auto
qed

lemma is_chain_upd_notin [chain_simps]:
  "x \<notin> set xs \<Longrightarrow> is_chain (nxt(x := v)) p xs \<longleftrightarrow> is_chain nxt p xs"
  by (induction xs arbitrary: p) auto

lemma is_chain_cong:
  "(\<And>x. x \<in> set xs \<Longrightarrow> nxt x = nxt' x) \<Longrightarrow> is_chain nxt p xs \<longleftrightarrow> is_chain nxt' p xs"
  by (induction xs arbitrary: p) auto

lemma is_chain_transfer:
  "is_chain nxt p xs \<Longrightarrow> (\<And>x. x \<in> set xs \<Longrightarrow> nxt' x = nxt x) \<Longrightarrow> is_chain nxt' p xs"
  by (induction xs arbitrary: p) auto

text \<open>Unlinking the successor \<open>b\<close> of the cell \<open>a\<close>: \<open>a->next = b->next\<close>.\<close>

lemma is_chain_unlink [chain_simps]:
  "is_chain nxt p (xs @ a # b # ys) \<Longrightarrow> is_chain (nxt(a := nxt b)) p (xs @ a # ys)"
proof (induction xs arbitrary: p)
  case Nil
  then have "is_chain nxt (nxt b) ys" by simp
  moreover have "a \<notin> set ys" using is_chain_distinct [OF Nil.prems] by simp
  ultimately have "is_chain (nxt(a := nxt b)) (nxt b) ys" by (metis is_chain_upd_notin)
  with Nil show ?case by (metis append_Nil fun_upd_same is_chain.simps(2))
next
  case (Cons x xs)
  have "x \<noteq> a" using is_chain_distinct [OF Cons.prems] by auto
  with Cons show ?case by auto
qed

text \<open>Appending the fresh cell \<open>b\<close> behind the last cell \<open>a\<close>: \<open>a->next = b; b->next = NULL\<close>.\<close>

lemma is_chain_snoc [chain_simps]:
  "is_chain nxt p (xs @ [a]) \<Longrightarrow> b \<notin> set (xs @ [a]) \<Longrightarrow>
     is_chain (nxt(a := Some b, b := None)) p (xs @ [a, b])"
proof (induction xs arbitrary: p)
  case Nil
  then show ?case by simp
next
  case (Cons x xs)
  have "x \<noteq> a" using is_chain_distinct [OF Cons.prems(1)] by auto
  with Cons show ?case by auto
qed

text \<open>Reading a chain off the memory, with a bound on its length.\<close>

fun walk :: "nat \<Rightarrow> ('p \<Rightarrow> 'p option) \<Rightarrow> 'p option \<Rightarrow> 'p list" where
  "walk 0 nxt p = []"
| "walk (Suc k) nxt p = (case p of None \<Rightarrow> [] | Some x \<Rightarrow> x # walk k nxt (nxt x))"

lemma walk_chain: "is_chain nxt p xs \<Longrightarrow> length xs \<le> k \<Longrightarrow> walk k nxt p = xs"
proof (induction xs arbitrary: p k)
  case Nil
  then show ?case by (cases k) auto
next
  case (Cons x xs)
  then show ?case by (cases k) auto
qed

lemma chain_length_le:
  fixes xs :: "nat list"
  shows "is_chain nxt p xs \<Longrightarrow> (\<forall>i\<in>set xs. i < n) \<Longrightarrow> length xs \<le> n"
  using distinct_card [of xs] is_chain_distinct [of nxt p xs] card_mono [of "{..<n}" "set xs"]
  by auto

text \<open>Splicing chains: \<open>a->next = q\<close> for the last cell \<open>a\<close>.\<close>

lemma is_chain_extend:
  "is_chain nxt p (xs @ [a]) \<Longrightarrow> is_chain nxt q ys \<Longrightarrow> set (xs @ [a]) \<inter> set ys = {} \<Longrightarrow>
     is_chain (nxt(a := q)) p (xs @ a # ys)"
proof (induction xs arbitrary: p)
  case Nil
  then have "a \<notin> set ys" by simp
  then have "is_chain (nxt(a := q)) q ys" using Nil by (metis is_chain_upd_notin)
  with Nil show ?case by (metis append_Nil fun_upd_same is_chain.simps(2))
next
  case (Cons x xs)
  have "x \<noteq> a" using is_chain_distinct [OF Cons.prems(1)] by auto
  with Cons show ?case by auto
qed

lemma is_chain_upt:
  assumes "\<And>i. m \<le> i \<Longrightarrow> i < n \<Longrightarrow> nxt i = (if Suc i = n then None else Some (Suc i))" and "m < n"
  shows "is_chain nxt (Some m) [m..<n]"
  using assms
proof (induction "n - m" arbitrary: m)
  case 0
  then show ?case by simp
next
  case (Suc k)
  show ?case
  proof (cases "Suc m = n")
    case True
    then show ?thesis using Suc.prems by (simp add: upt_rec)
  next
    case False
    then have "is_chain nxt (Some (Suc m)) [Suc m..<n]" using Suc by (intro Suc.hyps(1)) auto
    then show ?thesis using Suc.prems False by (simp add: upt_rec [of m n])
  qed
qed

section \<open>Lists\<close>

lemma nth_list_update_le: "i < length xs \<Longrightarrow> xs[j := v] ! i = (if i = j then v else xs ! i)"
  by (cases "j < length xs") (auto simp: nth_list_update list_update_beyond)

lemma distinct_subset_length: "distinct xs \<Longrightarrow> set xs \<subseteq> {..<n} \<Longrightarrow> length xs \<le> n"
  by (metis card_lessThan card_mono distinct_card finite_lessThan)

lemma find_SomeD: "List.find P xs = Some x \<Longrightarrow> x \<in> set xs \<and> P x"
  by (induction xs) (auto split: if_splits)

lemma find_NoneD: "List.find P xs = None \<Longrightarrow> x \<in> set xs \<Longrightarrow> \<not> P x"
  by (induction xs) (auto split: if_splits)

lemma find_unique:
  assumes "\<And>x y. x \<in> set xs \<Longrightarrow> y \<in> set xs \<Longrightarrow> P x \<Longrightarrow> P y \<Longrightarrow> x = y"
  shows "List.find P xs = Some x \<longleftrightarrow> x \<in> set xs \<and> P x"
  using assms find_SomeD [of P xs] find_NoneD [of P xs] by (metis option.exhaust)

lemma option_eqI: "(\<And>c. a = Some c \<longleftrightarrow> b = Some c) \<Longrightarrow> a = b"
  by (cases a; cases b) auto

section \<open>Folding an operation that can fail over a list of arguments\<close>

fun foldM :: "('s \<Rightarrow> 'a \<Rightarrow> 's option) \<Rightarrow> 's \<Rightarrow> 'a list \<Rightarrow> 's option" where
  "foldM f s [] = Some s"
| "foldM f s (x # xs) = Option.bind (f s x) (\<lambda>s'. foldM f s' xs)"

lemma foldM_append: "foldM f s (xs @ ys) = Option.bind (foldM f s xs) (\<lambda>s'. foldM f s' ys)"
  by (induction xs arbitrary: s) (auto split: Option.bind_split)

section \<open>Total correctness of code that may fault\<close>

text \<open>\<open>wp m Q\<close>: the computation does not fault and its result satisfies \<open>Q\<close>.\<close>

definition wp :: "'a option \<Rightarrow> ('a \<Rightarrow> bool) \<Rightarrow> bool" where
  "wp m Q = (case m of None \<Rightarrow> False | Some x \<Rightarrow> Q x)"

named_theorems wp_simps \<open>weakest preconditions of the option monad\<close>

lemma wp_iff: "wp m Q \<longleftrightarrow> (\<exists>x. m = Some x \<and> Q x)"
  by (auto simp: wp_def split: option.splits)

lemma wp_basic [wp_simps]:
  "wp (Some x) Q = Q x" "wp None Q = False"
  "wp (if b then m else m') Q = (if b then wp m Q else wp m' Q)"
  by (auto simp: wp_def split: option.splits)

lemma wp_bind [wp_simps]: "wp (Option.bind m f) Q = wp m (\<lambda>x. wp (f x) Q)"
  by (auto simp: wp_def split: option.splits)

lemma wp_map [wp_simps]: "wp (map_option g m) Q = wp m (\<lambda>x. Q (g x))"
  by (auto simp: wp_def split: option.splits)

lemma wp_mono: "wp m P \<Longrightarrow> (\<And>x. P x \<Longrightarrow> Q x) \<Longrightarrow> wp m Q"
  by (auto simp: wp_iff)

lemma wp_conj: "wp m P \<Longrightarrow> wp m Q \<Longrightarrow> wp m (\<lambda>x. P x \<and> Q x)"
  by (auto simp: wp_iff)

text \<open>A loop over a list of arguments keeps an invariant that may consume a budget.\<close>

lemma wp_foldM:
  assumes "\<And>s x n. x \<in> set xs \<Longrightarrow> I (Suc n) s \<Longrightarrow> wp (f s x) (I n)" and "I (n + length xs) s"
  shows "wp (foldM f s xs) (I n)"
  using assms
proof (induction xs arbitrary: s)
  case Nil
  then show ?case by (simp add: wp_simps)
next
  case (Cons x xs)
  have "wp (f s x) (I (n + length xs))" using Cons.prems by simp
  then obtain s1 where s1: "f s x = Some s1" "I (n + length xs) s1" by (auto simp: wp_iff)
  have "wp (foldM f s1 xs) (I n)" using Cons.IH Cons.prems(1) s1(2) by simp
  then show ?case using s1(1) by simp
qed

section \<open>Transition systems\<close>

inductive reachable :: "('s \<Rightarrow> bool) \<Rightarrow> ('s \<Rightarrow> 's \<Rightarrow> bool) \<Rightarrow> 's \<Rightarrow> bool"
  for init :: "'s \<Rightarrow> bool" and step :: "'s \<Rightarrow> 's \<Rightarrow> bool" where
  reachable_init: "init s \<Longrightarrow> reachable init step s"
| reachable_step: "reachable init step s \<Longrightarrow> step s s' \<Longrightarrow> reachable init step s'"

text \<open>A step relation with an inductive invariant; its clients are the safety properties.\<close>

locale invariant_system =
  fixes init :: "'s \<Rightarrow> bool" and step :: "'s \<Rightarrow> 's \<Rightarrow> bool" and inv :: "'s \<Rightarrow> bool"
  assumes inv_init: "init s \<Longrightarrow> inv s"
    and inv_step: "inv s \<Longrightarrow> step s s' \<Longrightarrow> inv s'"
begin

lemma reachable_inv: "reachable init step s \<Longrightarrow> inv s"
  by (induction rule: reachable.induct) (auto intro: inv_init inv_step)

end

end
