(* ===== verification/Fifo.thy ===== *)
theory Fifo
  imports Prelude
begin

text \<open>
  The interface of the two message queues of the program (the mailbox of a service and the packet
  queue of the netpack module): any sequence of \<open>Enq\<close> and \<open>Deq\<close> calls gives the results that the
  same calls give on a plain list. The client's lemmas are proved once from the laws of the locale
  and used through its interpretations.
\<close>

datatype 'a qop = Enq 'a | Deq

fun list_run :: "'a list \<Rightarrow> 'a qop list \<Rightarrow> 'a list \<times> 'a option list" where
  "list_run xs [] = (xs, [])"
| "list_run xs (Enq x # ops) = list_run (xs @ [x]) ops"
| "list_run xs (Deq # ops) =
     (case xs of
        [] \<Rightarrow> (let (ys, rs) = list_run [] ops in (ys, None # rs))
      | y # zs \<Rightarrow> (let (ys, rs) = list_run zs ops in (ys, Some y # rs)))"

fun queue_run ::
  "('q \<Rightarrow> 'a \<Rightarrow> 'q option) \<Rightarrow> ('q \<Rightarrow> ('q \<times> 'a option) option) \<Rightarrow> 'q \<Rightarrow> 'a qop list \<Rightarrow>
     ('q \<times> 'a option list) option" where
  "queue_run enq deq q [] = Some (q, [])"
| "queue_run enq deq q (Enq x # ops) = Option.bind (enq q x) (\<lambda>q'. queue_run enq deq q' ops)"
| "queue_run enq deq q (Deq # ops) =
     Option.bind (deq q) (\<lambda>(q', r). map_option (\<lambda>(q'', rs). (q'', r # rs)) (queue_run enq deq q' ops))"

fun enqs :: "'a qop list \<Rightarrow> nat" where
  "enqs [] = 0"
| "enqs (Enq x # ops) = Suc (enqs ops)"
| "enqs (Deq # ops) = enqs ops"

text \<open>\<open>limit\<close> bounds the number of items up to which \<open>enq\<close> must succeed.\<close>

locale fifo_queue =
  fixes ok :: "'q \<Rightarrow> bool"
    and items :: "'q \<Rightarrow> 'a list"
    and enq :: "'q \<Rightarrow> 'a \<Rightarrow> 'q option"
    and deq :: "'q \<Rightarrow> ('q \<times> 'a option) option"
    and limit :: nat
  assumes enq_law: "ok q \<Longrightarrow> length (items q) < limit \<Longrightarrow>
      \<exists>q'. enq q x = Some q' \<and> ok q' \<and> items q' = items q @ [x]"
    and deq_empty: "ok q \<Longrightarrow> items q = [] \<Longrightarrow> \<exists>q'. deq q = Some (q', None) \<and> ok q' \<and> items q' = []"
    and deq_law: "ok q \<Longrightarrow> items q = x # xs \<Longrightarrow>
      \<exists>q'. deq q = Some (q', Some x) \<and> ok q' \<and> items q' = xs"
begin

lemma run_correct:
  assumes "ok q" "length (items q) + enqs ops \<le> limit"
  shows "\<exists>q' rs. queue_run enq deq q ops = Some (q', rs) \<and> ok q' \<and> list_run (items q) ops = (items q', rs)"
  using assms
proof (induction ops arbitrary: q)
  case Nil
  then show ?case by simp
next
  case (Cons op ops)
  show ?case
  proof (cases op)
    case (Enq x)
    obtain q1 where q1: "enq q x = Some q1" "ok q1" "items q1 = items q @ [x]"
      using enq_law [of q x] Cons.prems Enq by auto
    then show ?thesis using Cons.IH [of q1] Cons.prems Enq by auto
  next
    case Deq
    show ?thesis
    proof (cases "items q")
      case Nil
      obtain q1 where q1: "deq q = Some (q1, None)" "ok q1" "items q1 = []"
        using deq_empty [OF Cons.prems(1) Nil] by auto
      then show ?thesis using Cons.IH [of q1] Cons.prems Nil Deq by (auto split: prod.splits)
    next
      case (Cons y zs)
      obtain q1 where q1: "deq q = Some (q1, Some y)" "ok q1" "items q1 = zs"
        using deq_law [OF Cons.prems(1) Cons] by auto
      then show ?thesis using Cons.IH [of q1] Cons.prems Cons Deq by (auto split: prod.splits)
    qed
  qed
qed

end

section \<open>Rings read as lists\<close>

text \<open>The \<open>n\<close> cells of a ring from index \<open>h\<close> on.\<close>

definition ring_list :: "'a list \<Rightarrow> nat \<Rightarrow> nat \<Rightarrow> 'a list" where
  "ring_list xs h n = map (\<lambda>i. xs ! ((h + i) mod length xs)) [0..<n]"

lemma length_ring_list [simp]: "length (ring_list xs h n) = n"
  by (simp add: ring_list_def)

lemma ring_list_0 [simp]: "ring_list xs h 0 = []"
  by (simp add: ring_list_def)

lemma ring_list_Suc_head:
  "ring_list xs h (Suc n) = xs ! (h mod length xs) # ring_list xs (Suc h mod length xs) n"
proof -
  have "xs ! ((h + Suc i) mod length xs) = xs ! ((Suc h mod length xs + i) mod length xs)" for i
    by (metis add_Suc_shift mod_add_left_eq)
  then show ?thesis
    unfolding ring_list_def by (simp del: upt_Suc add: upt_rec [of 0 "Suc n"] map_Suc_upt [symmetric])
qed

lemma ring_index_inj:
  assumes "i < L" "j < L" "(h + i) mod L = (h + j) mod (L :: nat)"
  shows "i = j"
proof -
  have "i = j" if "i \<le> j" "j < L" "(h + j) mod L = (h + i) mod L" for i j
    using that mod_eq_dvd_iff_nat [of "h + i" "h + j" L] nat_dvd_not_less [of "j - i" L] by (cases "i = j") auto
  then show ?thesis using assms by (metis nat_le_linear)
qed

lemma ring_list_update_out:
  assumes "n \<le> j" "j < length xs"
  shows "ring_list (xs[(h + j) mod length xs := x]) h n = ring_list xs h n"
proof -
  have "(h + j) mod length xs \<noteq> (h + i) mod length xs" if "i < n" for i
    using ring_index_inj [of j "length xs" i h] that assms by auto
  then show ?thesis unfolding ring_list_def by (auto simp: nth_list_update)
qed

lemma ring_list_snoc:
  assumes "n < length xs"
  shows "ring_list (xs[(h + n) mod length xs := x]) h (Suc n) = ring_list xs h n @ [x]"
proof -
  have "xs \<noteq> []" using assms by auto
  then have "ring_list (xs[(h + n) mod length xs := x]) h (Suc n) =
      ring_list (xs[(h + n) mod length xs := x]) h n @ [x]"
    unfolding ring_list_def by simp
  then show ?thesis using ring_list_update_out [of n n xs h x] assms by simp
qed

lemma ring_list_prefix: "n \<le> length xs \<Longrightarrow> ring_list xs 0 n = take n xs"
  by (rule nth_equalityI) (auto simp: ring_list_def)

end
