(* ===== verification/Bytes.thy ===== *)
theory Bytes
  imports Prelude
begin

text \<open>
  Byte blocks and the fixed-width integers that the serialisers write into them, and the result
  type of the functions that raise Lua errors: \<open>None\<close> is undefined behaviour of the C code (or a
  loop that was not given enough fuel), \<open>Some (Inl e)\<close> a call of \<open>luaL_error\<close>, \<open>Some (Inr x)\<close> a
  normal return.
\<close>

section \<open>Results\<close>

type_synonym ('e, 'a) run = "('e + 'a) option"

definition ret :: "'a \<Rightarrow> ('e, 'a) run" where
  "ret x = Some (Inr x)"

definition err :: "'e \<Rightarrow> ('e, 'a) run" where
  "err e = Some (Inl e)"

definition run_bind :: "('e, 'a) run \<Rightarrow> ('a \<Rightarrow> ('e, 'b) run) \<Rightarrow> ('e, 'b) run" where
  "run_bind m f = (case m of None \<Rightarrow> None | Some (Inl e) \<Rightarrow> Some (Inl e) | Some (Inr x) \<Rightarrow> f x)"

definition lift :: "'a option \<Rightarrow> ('e, 'a) run" where
  "lift m = map_option Inr m"

named_theorems run_simps \<open>evaluation of run_bind\<close>

lemma run_bind_simps [simp, run_simps]:
  "run_bind (ret x) f = f x"
  "run_bind (err e) f = err e"
  "run_bind None f = None"
  "run_bind (Some (Inr x)) f = f x"
  "run_bind (Some (Inl e)) f = Some (Inl e)"
  by (simp_all add: run_bind_def ret_def err_def)

lemma run_bind_ret_iff [run_simps]:
  "run_bind m f = Some (Inr y) \<longleftrightarrow> (\<exists>x. m = Some (Inr x) \<and> f x = Some (Inr y))"
  by (auto simp: run_bind_def split: option.splits sum.splits)

lemma run_bind_assoc: "run_bind (run_bind m f) g = run_bind m (\<lambda>x. run_bind (f x) g)"
  by (auto simp: run_bind_def split: option.splits sum.splits)

lemma run_bind_defined:
  "m \<noteq> None \<Longrightarrow> (\<And>x. m = Some (Inr x) \<Longrightarrow> f x \<noteq> None) \<Longrightarrow> run_bind m f \<noteq> None"
  by (auto simp: run_bind_def split: option.splits sum.splits)

lemma ret_inject [simp]: "ret x = Some r \<longleftrightarrow> r = Inr x" "Some r = ret x \<longleftrightarrow> r = Inr x"
  "ret x = ret y \<longleftrightarrow> x = y" "ret x \<noteq> None" "err e \<noteq> None" "err e = Some r \<longleftrightarrow> r = Inl e"
  "err e = err e' \<longleftrightarrow> e = e'" "ret x \<noteq> err e" "err e \<noteq> ret x"
  by (auto simp: ret_def err_def)

section \<open>Memory blocks\<close>

text \<open>\<open>memcpy\<close> of \<open>src\<close> to the offset \<open>off\<close> of the block \<open>dst\<close>; outside the block it faults.\<close>

definition blit :: "bytes \<Rightarrow> int \<Rightarrow> bytes \<Rightarrow> bytes option" where
  "blit dst off src =
     (if 0 \<le> off \<and> nat off + length src \<le> length dst
      then Some (take (nat off) dst @ src @ drop (nat off + length src) dst) else None)"

lemma blit_Some [simp]:
  "0 \<le> off \<Longrightarrow> nat off + length src \<le> length dst \<Longrightarrow>
     blit dst off src = Some (take (nat off) dst @ src @ drop (nat off + length src) dst)"
  by (simp add: blit_def)

text \<open>Reading \<open>n\<close> bytes, or one byte, at the offset \<open>off\<close>; outside the block it faults.\<close>

definition peek :: "bytes \<Rightarrow> int \<Rightarrow> int \<Rightarrow> bytes option" where
  "peek buf off n =
     (if 0 \<le> off \<and> 0 \<le> n \<and> off + n \<le> int (length buf) then Some (take (nat n) (drop (nat off) buf)) else None)"

definition byte_at :: "bytes \<Rightarrow> int \<Rightarrow> u8 option" where
  "byte_at buf i = (if 0 \<le> i \<and> i < int (length buf) then Some (buf ! nat i) else None)"

section \<open>Little and big endian integers\<close>

primrec le_bytes :: "nat \<Rightarrow> int \<Rightarrow> bytes" where
  "le_bytes 0 x = []"
| "le_bytes (Suc n) x = word_of_int x # le_bytes n (x div 256)"

primrec le_val :: "bytes \<Rightarrow> int" where
  "le_val [] = 0"
| "le_val (b # bs) = uint b + 256 * le_val bs"

definition be_bytes :: "nat \<Rightarrow> int \<Rightarrow> bytes" where
  "be_bytes n x = rev (le_bytes n x)"

definition be_val :: "bytes \<Rightarrow> int" where
  "be_val bs = le_val (rev bs)"

lemma length_le_bytes [simp]: "length (le_bytes n x) = n"
  by (induction n arbitrary: x) auto

lemma length_be_bytes [simp]: "length (be_bytes n x) = n"
  by (simp add: be_bytes_def)

lemma le_bytes_numeral: "le_bytes (numeral k) x = word_of_int x # le_bytes (pred_numeral k) (x div 256)"
  by (simp add: numeral_eq_Suc)

lemma uint_byte: "uint (word_of_int x :: u8) = x mod 256"
  by (simp add: uint_word_of_int)

lemma le_val_bytes [byte_simps]: "le_val (le_bytes n x) = x mod 256 ^ n"
proof (induction n arbitrary: x)
  case 0
  then show ?case by simp
next
  case (Suc n)
  have "x mod 256 + 256 * (x div 256 mod 256 ^ n) = x mod (256 * 256 ^ n)"
    using mod_mult2_eq' [of x 256 "256 ^ n"] zmod_zmult2_eq [of "256 ^ n" x 256] by simp
  then show ?case using Suc by (simp add: uint_byte)
qed

lemma le_val_range: "0 \<le> le_val bs \<and> le_val bs < 256 ^ length bs"
proof (induction bs)
  case Nil
  then show ?case by simp
next
  case (Cons b bs)
  have b: "0 \<le> uint b" "uint b < 256" using uint_lt2p [of b] by auto
  then have "uint b + 256 * le_val bs < 256 * 256 ^ length bs" using Cons by linarith
  then show ?case using b Cons by simp
qed

lemma le_bytes_val: "le_bytes (length bs) (le_val bs) = bs"
proof (induction bs)
  case Nil
  then show ?case by simp
next
  case (Cons b bs)
  have b: "0 \<le> uint b" "uint b < 256" using uint_lt2p [of b] by auto
  have d: "(uint b + 256 * le_val bs) div 256 = le_val bs" using b by simp
  have z: "(256 :: u8) = 0" by simp
  have "(word_of_int (uint b + 256 * le_val bs) :: u8) = b + 256 * word_of_int (le_val bs)" by simp
  then have "(word_of_int (uint b + 256 * le_val bs) :: u8) = b" unfolding z by simp
  then show ?case using Cons d by simp
qed

lemma be_val_bytes [byte_simps]: "be_val (be_bytes n x) = x mod 256 ^ n"
  by (simp add: be_val_def be_bytes_def le_val_bytes)

lemma be_bytes_val: "be_bytes (length bs) (be_val bs) = bs"
  using le_bytes_val [of "rev bs"] by (simp add: be_val_def be_bytes_def)

lemma be_val_range: "0 \<le> be_val bs \<and> be_val bs < 256 ^ length bs"
  using le_val_range [of "rev bs"] by (simp add: be_val_def)

text \<open>A signed integer of \<open>n\<close> bytes: the two's complement reading.\<close>

definition signed_val :: "nat \<Rightarrow> int \<Rightarrow> int" where
  "signed_val n x = (if x < 2 ^ (8 * n - 1) then x else x - 2 ^ (8 * n))"

lemma signed_val_mod:
  assumes n: "0 < n" and x: "- (2 ^ (8 * n - 1)) \<le> x" "x < 2 ^ (8 * n - 1)"
  shows "signed_val n (x mod 256 ^ n) = x"
proof -
  have e: "(256 :: int) ^ n = 2 ^ (8 * n)" by (simp add: power_mult)
  have h: "(2 :: int) ^ (8 * n) = 2 * 2 ^ (8 * n - 1)" using n by (cases "8 * n") auto
  show ?thesis
  proof (cases "0 \<le> x")
    case True
    then have "x mod 2 ^ (8 * n) = x" using x h by (intro mod_pos_pos_trivial) auto
    then show ?thesis using x e by (simp add: signed_val_def)
  next
    case False
    have "(x + 2 ^ (8 * n)) mod 2 ^ (8 * n) = x + 2 ^ (8 * n)"
      using False x h by (intro mod_pos_pos_trivial) auto
    then have "x mod 2 ^ (8 * n) = x + 2 ^ (8 * n)" by simp
    then show ?thesis using False x h e by (simp add: signed_val_def)
  qed
qed

end
