(* ===== verification/CString.thy ===== *)
theory CString
  imports Bytes
begin

text \<open>
  C strings and the functions of the C library that the services use on them: a string is the
  bytes of a block from an index up to the next NUL.
\<close>

definition str :: "string \<Rightarrow> bytes" where
  "str s = map of_char s"

text \<open>The string at index \<open>p\<close>; \<open>None\<close> when it is not terminated inside the block.\<close>

definition cstr :: "bytes \<Rightarrow> nat \<Rightarrow> bytes option" where
  "cstr buf p = (if 0 \<in> set (drop p buf) then Some (takeWhile (\<lambda>c. c \<noteq> 0) (drop p buf)) else None)"

text \<open>\<open>memcmp(cmd, lit, n) == 0\<close> with a string literal, for a C library that reads no further than the
  first difference: equal bytes up to the end of the literal and a comparison that goes on past it
  are a fault.\<close>

definition memcmp_eq :: "bytes \<Rightarrow> bytes \<Rightarrow> nat \<Rightarrow> bool option" where
  "memcmp_eq cmd lit n =
     (let l = lit @ [0] in
      if n \<le> length l then Some (take n cmd = take n l)
      else if take (length l) cmd = l then None else Some False)"

text \<open>ISO C asks for more: the first \<open>n\<close> bytes of both blocks must exist, whatever they hold. Where
  that is the case both readings agree; the gate calls \<open>memcmp\<close> where it is not.\<close>

definition memcmp_strict :: "bytes \<Rightarrow> bytes \<Rightarrow> nat \<Rightarrow> bool option" where
  "memcmp_strict cmd lit n =
     (if n \<le> length cmd \<and> n \<le> length lit + 1 then Some (take n cmd = take n (lit @ [0])) else None)"

lemma memcmp_strict_agrees: "memcmp_strict cmd lit n = Some b \<Longrightarrow> memcmp_eq cmd lit n = Some b"
  by (auto simp: memcmp_strict_def memcmp_eq_def Let_def split: if_splits)

lemma memcmp_strict_forward: "memcmp_strict (str ''forward'' @ [0]) (str ''kick'') (length (str ''forward'')) = None"
  by (simp add: memcmp_strict_def str_def)

definition isspace :: "u8 \<Rightarrow> bool" where
  "isspace c \<longleftrightarrow> c = 32 \<or> (9 \<le> uint c \<and> uint c \<le> 13)"

definition digit_val :: "int \<Rightarrow> u8 \<Rightarrow> int option" where
  "digit_val base c =
     (let x = uint c;
          v = (if 48 \<le> x \<and> x \<le> 57 then x - 48
               else if 97 \<le> x \<and> x \<le> 122 then x - 87
               else if 65 \<le> x \<and> x \<le> 90 then x - 55 else 99)
      in if v < base then Some v else None)"

fun digits_val :: "int \<Rightarrow> int \<Rightarrow> bytes \<Rightarrow> int" where
  "digits_val base acc [] = acc"
| "digits_val base acc (c # cs) =
     (case digit_val base c of None \<Rightarrow> acc | Some d \<Rightarrow> digits_val base (acc * base + d) cs)"

text \<open>Leading space, a sign and, for base 16, a prefix \<open>0x\<close> that a digit follows.\<close>

definition number_sign :: "bytes \<Rightarrow> bool \<times> bytes" where
  "number_sign s =
     (case dropWhile isspace s of
        [] \<Rightarrow> (False, [])
      | c # cs \<Rightarrow> if c = 45 then (True, cs) else if c = 43 then (False, cs) else (False, c # cs))"

definition skip_0x :: "bytes \<Rightarrow> bytes" where
  "skip_0x s =
     (case s of
        a # b # c # cs \<Rightarrow> if a = 48 \<and> (b = 120 \<or> b = 88) \<and> digit_val 16 c \<noteq> None then c # cs else s
      | _ \<Rightarrow> s)"

definition strtol10 :: "bytes \<Rightarrow> int" where
  "strtol10 s =
     (let (neg, t) = number_sign s; v = digits_val 10 0 t; x = (if neg then - v else v) in
      max (- (2 ^ 63)) (min (2 ^ 63 - 1) x))"

definition strtoul16 :: "bytes \<Rightarrow> int" where
  "strtoul16 s =
     (let (neg, t) = number_sign s; v = digits_val 16 0 (skip_0x t) in
      if v \<ge> 2 ^ 64 then 2 ^ 64 - 1 else if neg then (- v) mod 2 ^ 64 else v)"

text \<open>The conversions \<open>%d\<close> and \<open>%u\<close> of \<open>sscanf\<close>; a value that does not fit is reduced.\<close>

definition scan_int :: "bytes \<Rightarrow> (int \<times> bytes) option" where
  "scan_int s =
     (let (neg, t) = number_sign s in
      if t = [] \<or> digit_val 10 (List.hd t) = None then None
      else Some (to_i32 (strtol10 s), dropWhile (\<lambda>c. digit_val 10 c \<noteq> None) t))"

definition scan_uint :: "bytes \<Rightarrow> (u32 \<times> bytes) option" where
  "scan_uint s =
     (let (neg, t) = number_sign s; v = digits_val 10 0 t in
      if t = [] \<or> digit_val 10 (List.hd t) = None then None
      else Some (word_of_int (if v \<ge> 2 ^ 64 then 2 ^ 64 - 1 else if neg then - v else v),
                 dropWhile (\<lambda>c. digit_val 10 c \<noteq> None) t))"

text \<open>\<open>strsep(&p, " ")\<close>: the delimiter becomes NUL; the result is the new block and the rest.\<close>

definition strsep_space :: "bytes \<Rightarrow> nat \<Rightarrow> (bytes \<times> nat option) option" where
  "strsep_space buf p =
     map_option (\<lambda>s.
       let n = length (takeWhile (\<lambda>c. c \<noteq> 32) s) in
       if n < length s then (buf[p + n := 0], Some (p + n + 1)) else (buf, None)) (cstr buf p)"

text \<open>The text of a number (\<open>%d\<close>).\<close>

function dec_nat :: "nat \<Rightarrow> bytes" where
  "dec_nat n = (if n < 10 then [of_nat (48 + n)] else dec_nat (n div 10) @ [of_nat (48 + n mod 10)])"
  by pat_completeness auto
termination by (relation "measure id") auto

declare dec_nat.simps [simp del]

definition dec :: "int \<Rightarrow> bytes" where
  "dec i = (if i < 0 then 45 # dec_nat (nat (- i)) else dec_nat (nat i))"

section \<open>Printing and parsing numbers\<close>

lemma cstr_append_nul: "0 \<notin> set s \<Longrightarrow> cstr (s @ 0 # r) 0 = Some s"
proof -
  assume s: "0 \<notin> set s"
  have "takeWhile (\<lambda>c. c \<noteq> 0) (s @ 0 # r) = s @ takeWhile (\<lambda>c. c \<noteq> 0) (0 # r)"
    by (rule takeWhile_append2) (use s in auto)
  then show ?thesis by (simp add: cstr_def)
qed

lemma digit_val_dec: "n < 10 \<Longrightarrow> digit_val 10 (of_nat (48 + n)) = Some (int n)"
proof -
  assume n: "n < 10"
  have "uint (of_nat (48 + n) :: u8) = int (48 + n) mod 256"
    using uint_byte [of "int (48 + n)"] by (simp only: of_int_of_nat_eq)
  also have "\<dots> = 48 + int n" using n by simp
  finally show ?thesis using n by (simp add: digit_val_def)
qed

lemma digits_val_append:
  "\<forall>c\<in>set a. digit_val base c \<noteq> None \<Longrightarrow> digits_val base acc (a @ b) = digits_val base (digits_val base acc a) b"
  by (induction a arbitrary: acc) auto

lemma dec_nat_digits: "\<forall>c\<in>set (dec_nat n). digit_val 10 c \<noteq> None"
proof (induction n rule: dec_nat.induct)
  case (1 n)
  show ?case
  proof (cases "n < 10")
    case True
    then show ?thesis using digit_val_dec [OF True] by (subst dec_nat.simps) simp
  next
    case False
    then show ?thesis using 1 [OF False] digit_val_dec [of "n mod 10"]
      by (subst dec_nat.simps) auto
  qed
qed

lemma digits_val_dec_nat: "digits_val 10 0 (dec_nat n) = int n"
proof (induction n rule: dec_nat.induct)
  case (1 n)
  show ?case
  proof (cases "n < 10")
    case True
    then show ?thesis using digit_val_dec [OF True] by (subst dec_nat.simps) simp
  next
    case False
    have d: "digit_val 10 (of_nat (48 + n mod 10)) = Some (int (n mod 10))" by (rule digit_val_dec) simp
    have e: "dec_nat n = dec_nat (n div 10) @ [of_nat (48 + n mod 10)]"
      using False by (subst dec_nat.simps) (simp only: if_False)
    have "digits_val 10 0 (dec_nat n) = digits_val 10 (int (n div 10)) [of_nat (48 + n mod 10)]"
      unfolding e digits_val_append [OF dec_nat_digits] using 1 [OF False] by simp
    also have "\<dots> = int (n div 10) * 10 + int (n mod 10)" unfolding digits_val.simps d by simp
    also have "\<dots> = int n" by (simp add: zdiv_int zmod_int)
    finally show ?thesis .
  qed
qed

lemma digit_not_special:
  "digit_val 10 c \<noteq> None \<Longrightarrow> \<not> isspace c \<and> c \<noteq> 45 \<and> c \<noteq> 43 \<and> c \<noteq> 0 \<and> c \<noteq> 32"
  by (auto simp: digit_val_def isspace_def Let_def split: if_splits)

lemma dec_nat_ne: "dec_nat n \<noteq> []"
  by (subst dec_nat.simps) simp

lemma number_sign_dec: "number_sign (dec_nat n) = (False, dec_nat n)"
proof -
  obtain c cs where c: "dec_nat n = c # cs" using dec_nat_ne by (cases "dec_nat n") auto
  then have "\<not> isspace c \<and> c \<noteq> 45 \<and> c \<noteq> 43" using dec_nat_digits [of n] digit_not_special [of c] by simp
  then show ?thesis by (simp add: number_sign_def c)
qed

lemma strtol_dec: "- (2 ^ 63) \<le> i \<Longrightarrow> i < 2 ^ 63 \<Longrightarrow> strtol10 (dec i) = i"
proof -
  assume i: "- (2 ^ 63) \<le> i" "i < 2 ^ 63"
  have neg: "number_sign (45 # dec_nat n) = (True, dec_nat n)" for n
    by (simp add: number_sign_def isspace_def)
  show ?thesis using i
    by (auto simp: strtol10_def dec_def number_sign_dec neg digits_val_dec_nat Let_def)
qed

end
