(* ===== verification/Client.thy ===== *)
theory Client
  imports Fifo CString
begin

text \<open>
  \<open>src/common/luaclib_src/lua-client.c\<close>, the socket of the game's test client, and the queue of typed lines in
  \<open>lualib-src/lua-clientsocket.c\<close>, of which the first file is a copy without that queue. The answers of the
  system calls are arguments. A send loop that has used up its answers is still waiting. The queue is a ring of
  1024 strings that one thread fills and the Lua functions empty, each under the lock, so each is one step.
\<close>

section \<open>Sending and receiving\<close>

datatype client_error = Socket_error | Connect_failed | Invalid_mode u8 | No_mode

datatype send_answer = Sent int | Send_again | Send_failed

datatype send_outcome = Send_done | Send_raised | Send_waiting

text \<open>The bytes that the system has taken, and how the loop ended. \<open>pos\<close> is the advancing pointer.\<close>

fun block_send :: "send_answer list \<Rightarrow> bytes \<Rightarrow> int \<Rightarrow> int \<Rightarrow> bytes \<times> send_outcome" where
  "block_send [] buffer pos sz = ([], if sz > 0 then Send_waiting else Send_done)"
| "block_send (a # as) buffer pos sz =
     (if sz > 0 then
        case a of
          Send_again \<Rightarrow> block_send as buffer pos sz
        | Send_failed \<Rightarrow> ([], Send_raised)
        | Sent r \<Rightarrow>
            (let (out, e) = block_send as buffer (pos + r) (sz - r)
             in (take (nat r) (drop (nat pos) buffer) @ out, e))
      else ([], Send_done))"

definition lsend :: "send_answer list \<Rightarrow> bytes \<Rightarrow> bytes \<times> send_outcome" where
  "lsend as msg = block_send as msg 0 (to_i32 (int (length msg)))"

datatype recv_answer = Received bytes | Recv_again | Recv_failed

text \<open>The results on the Lua stack: the empty string for a closed socket, nothing when there is no data.\<close>

definition lrecv :: "recv_answer \<Rightarrow> (client_error, bytes list) run" where
  "lrecv a = (case a of
     Received bs \<Rightarrow> if bs = [] then ret [[]] else ret [bs]
   | Recv_again \<Rightarrow> ret []
   | Recv_failed \<Rightarrow> err Socket_error)"

text \<open>\<open>open\<close> are the descriptors of the process; \<open>fd\<close> and \<open>r\<close> are the answers of \<open>socket\<close> and \<open>connect\<close>.\<close>

definition lconnect :: "int \<Rightarrow> int \<Rightarrow> int list \<Rightarrow> int list \<times> (client_error, int) run" where
  "lconnect fd r open = (fd # open, if r = -1 then err Connect_failed else ret fd)"

definition lclose :: "int \<Rightarrow> int list \<Rightarrow> int list" where
  "lclose fd open = remove1 fd open"

datatype shut = SHUT_RD | SHUT_WR | SHUT_RDWR

fun mode_flags :: "bytes \<Rightarrow> bool \<times> bool \<Rightarrow> (client_error, bool \<times> bool) run" where
  "mode_flags [] v = ret v"
| "mode_flags (c # cs) (rd, wr) =
     (if c = 114 then mode_flags cs (True, wr)
      else if c = 119 then mode_flags cs (rd, True)
      else err (Invalid_mode c))"

definition lshutdown :: "bytes \<Rightarrow> (client_error, shut) run" where
  "lshutdown mode =
     run_bind (mode_flags mode (False, False)) (\<lambda>(rd, wr).
     if \<not> rd \<and> \<not> wr then err No_mode
     else ret (if rd \<and> \<not> wr then SHUT_RD else if wr \<and> \<not> rd then SHUT_WR else SHUT_RDWR))"

section \<open>The queue of typed lines\<close>

definition QUEUE_SIZE :: nat where "QUEUE_SIZE = 1024"

record line_queue =
  lq_head :: nat
  lq_tail :: nat
  lq_cells :: "bytes list"

definition new_line_queue :: line_queue where
  "new_line_queue = \<lparr>lq_head = 0, lq_tail = 0, lq_cells = replicate QUEUE_SIZE []\<rparr>"

definition wrap_index :: "nat \<Rightarrow> nat" where
  "wrap_index i = (if i + 1 \<ge> QUEUE_SIZE then 0 else i + 1)"

text \<open>
  One turn of \<open>readline_stdin\<close>, for the string \<open>tmp\<close> that \<open>fgets\<close> has read: all but its last character.
  \<open>None\<close> is \<open>exit(1)\<close>, and the copy of length -1 when the string is empty.
\<close>

definition readline_turn :: "line_queue \<Rightarrow> bytes \<Rightarrow> line_queue option" where
  "readline_turn q tmp =
     (if tmp = [] then None
      else let q = q\<lparr>lq_cells := (lq_cells q)[lq_tail q := butlast tmp], lq_tail := wrap_index (lq_tail q)\<rparr>
           in if lq_head q = lq_tail q then None else Some q)"

definition lreadstdin :: "line_queue \<Rightarrow> line_queue \<times> bytes option" where
  "lreadstdin q =
     (if lq_head q = lq_tail q then (q, None)
      else (q\<lparr>lq_head := wrap_index (lq_head q)\<rparr>, Some (lq_cells q ! lq_head q)))"

text \<open>\<open>fgets\<close> with the buffer of 1024 bytes: up to 1023 characters, not beyond a newline.\<close>

definition fgets :: "bytes \<Rightarrow> bytes \<times> bytes" where
  "fgets input =
     (let line = takeWhile (\<lambda>c. c \<noteq> 10) input;
          n = min 1023 (if length line < length input then length line + 1 else length line)
      in (take n input, drop n input))"

section \<open>The bytes of a message arrive in order\<close>

text \<open>What is known of \<open>send\<close>: it takes no more than it is given.\<close>

fun answers_ok :: "send_answer list \<Rightarrow> int \<Rightarrow> bool" where
  "answers_ok [] sz \<longleftrightarrow> True"
| "answers_ok (Sent r # as) sz \<longleftrightarrow> (0 < sz \<longrightarrow> 0 \<le> r \<and> r \<le> sz \<and> answers_ok as (sz - r))"
| "answers_ok (_ # as) sz \<longleftrightarrow> answers_ok as sz"

lemma block_send_prefix:
  "answers_ok as sz \<Longrightarrow> 0 \<le> pos \<Longrightarrow> 0 \<le> sz \<Longrightarrow> pos + sz = int (length msg) \<Longrightarrow>
     block_send as msg pos sz = (out, e) \<Longrightarrow>
     (\<exists>rest. drop (nat pos) msg = out @ rest \<and> (e = Send_done \<longleftrightarrow> rest = []))"
proof (induction as msg pos sz arbitrary: out rule: block_send.induct)
  case (1 buffer pos sz)
  then show ?case by (intro exI [of _ "drop (nat pos) buffer"]) (auto split: if_splits)
next
  case (2 a as buffer pos sz)
  show ?case
  proof (cases "sz > 0")
    case False
    then show ?thesis using 2 by auto
  next
    case pos: True
    then have ne: "drop (nat pos) buffer \<noteq> []" using 2 by auto
    show ?thesis
    proof (cases a)
      case Send_again
      then show ?thesis using 2 pos by auto
    next
      case Send_failed
      then show ?thesis using 2 pos ne by auto
    next
      case (Sent r)
      obtain out' where o: "block_send as buffer (pos + r) (sz - r) = (out', e)" "out = take (nat r) (drop (nat pos) buffer) @ out'"
        using 2(7) Sent pos by (auto split: prod.splits)
      have r: "0 \<le> r" "r \<le> sz" "answers_ok as (sz - r)" using 2(3) Sent pos by auto
      have n: "nat (pos + r) = nat pos + nat r" using r 2(4) by (simp add: nat_add_distrib)
      obtain rest where rest: "drop (nat (pos + r)) buffer = out' @ rest" "e = Send_done \<longleftrightarrow> rest = []"
        using 2(1) [OF pos Sent r(3) _ _ _ o(1)] r 2 by auto
      have "drop (nat pos) buffer = take (nat r) (drop (nat pos) buffer) @ drop (nat (pos + r)) buffer"
        unfolding n by (metis append_take_drop_id drop_drop add.commute)
      then show ?thesis using rest o(2) by (intro exI [of _ rest]) simp
    qed
  qed
qed

text \<open>C37: Whatever pieces the system takes of a message, and however often it says to try again, the bytes
  that \<open>lsend\<close> has sent are the first bytes of the message in order, none twice and none left out; and \<open>lsend\<close>
  returns to Lua if and only if these are all of them.\<close>

theorem client_send_order:
  assumes "length msg < 2 ^ 31" "answers_ok as (int (length msg))" "lsend as msg = (out, e)"
  shows "\<exists>rest. msg = out @ rest \<and> (e = Send_done \<longleftrightarrow> rest = [])"
proof -
  have "to_i32 (int (length msg)) = int (length msg)" using assms(1) by (intro to_i32_id) (simp add: is_i32_def)
  then have "block_send as msg 0 (int (length msg)) = (out, e)" using assms(3) by (simp add: lsend_def)
  from block_send_prefix [OF assms(2) _ _ _ this] show ?thesis by simp
qed

theorem client_send_order_witness:
  "\<exists>rest. [65, 66, 67] = [65, 66 :: u8] @ rest \<and> (Send_raised = Send_done \<longleftrightarrow> rest = [])"
  by (rule client_send_order [of _ "[Sent 1, Send_again, Sent 1, Send_failed]"])
    (simp_all add: lsend_def to_i32_def)

section \<open>Lines come out as they went in\<close>

definition queue_count :: "line_queue \<Rightarrow> nat" where
  "queue_count q = (lq_tail q + QUEUE_SIZE - lq_head q) mod QUEUE_SIZE"

definition queue_ok :: "line_queue \<Rightarrow> bool" where
  "queue_ok q \<longleftrightarrow> length (lq_cells q) = QUEUE_SIZE \<and> lq_head q < QUEUE_SIZE \<and> lq_tail q < QUEUE_SIZE"

definition queue_lines :: "line_queue \<Rightarrow> bytes list" where
  "queue_lines q = ring_list (lq_cells q) (lq_head q) (queue_count q)"

lemma wrap_index_mod: "i < QUEUE_SIZE \<Longrightarrow> wrap_index i = (i + 1) mod QUEUE_SIZE"
  by (cases "i = 1023") (auto simp: wrap_index_def QUEUE_SIZE_def)

lemma queue_count_cases:
  assumes "queue_ok q"
  shows "queue_count q = (if lq_head q \<le> lq_tail q then lq_tail q - lq_head q else lq_tail q + QUEUE_SIZE - lq_head q)"
  using assms by (auto simp: queue_count_def queue_ok_def QUEUE_SIZE_def mod_if)


lemma queue_empty: "queue_ok q \<Longrightarrow> queue_count q = 0 \<longleftrightarrow> lq_head q = lq_tail q"
  by (auto simp: queue_count_cases) (auto simp: queue_ok_def)

lemma queue_lines_length [simp]: "length (queue_lines q) = queue_count q"
  by (simp add: queue_lines_def)

lemma wrap_index_less: "i < QUEUE_SIZE \<Longrightarrow> wrap_index i < QUEUE_SIZE"
  by (simp add: wrap_index_def)

lemma tail_index: "queue_ok q \<Longrightarrow> (lq_head q + queue_count q) mod QUEUE_SIZE = lq_tail q"
  by (auto simp: queue_count_cases) (auto simp: queue_ok_def)

lemma readline_turn_lines:
  assumes ok: "queue_ok q" and room: "length (queue_lines q) < QUEUE_SIZE - 1"
  shows "\<exists>q'. readline_turn q (s @ [c]) = Some q' \<and> queue_ok q' \<and> queue_lines q' = queue_lines q @ [s]"
proof -
  let ?q = "q\<lparr>lq_cells := (lq_cells q)[lq_tail q := s], lq_tail := wrap_index (lq_tail q)\<rparr>"
  have ok': "queue_ok ?q" using ok by (simp add: queue_ok_def wrap_index_less)
  have l: "length (lq_cells q) = QUEUE_SIZE" and lt: "lq_tail q < QUEUE_SIZE" using ok by (simp_all add: queue_ok_def)
  have n: "queue_count ?q = Suc (queue_count q)"
  proof -
    have "queue_count ?q = (if lq_head q \<le> wrap_index (lq_tail q) then wrap_index (lq_tail q) - lq_head q
        else wrap_index (lq_tail q) + QUEUE_SIZE - lq_head q)"
      using queue_count_cases [OF ok'] by simp
    moreover have "lq_head q < QUEUE_SIZE" "queue_count q < QUEUE_SIZE - 1" using ok room by (simp_all add: queue_ok_def)
    ultimately show ?thesis using lt queue_count_cases [OF ok] by (auto simp: wrap_index_def QUEUE_SIZE_def split: if_splits)
  qed
  then have "lq_head ?q \<noteq> lq_tail ?q" using queue_empty [OF ok'] by auto
  then have "readline_turn q (s @ [c]) = Some ?q" by (simp add: readline_turn_def)
  moreover have "queue_lines ?q = queue_lines q @ [s]"
    unfolding queue_lines_def n using ring_list_snoc [of "queue_count q" "lq_cells q" "lq_head q" s] room l tail_index [OF ok]
    by simp
  ultimately show ?thesis using ok' by blast
qed

lemma lreadstdin_head:
  assumes ok: "queue_ok q" and ne: "queue_lines q = x # xs"
  shows "\<exists>q'. lreadstdin q = (q', Some x) \<and> queue_ok q' \<and> queue_lines q' = xs"
proof -
  let ?q = "q\<lparr>lq_head := wrap_index (lq_head q)\<rparr>"
  have l: "length (lq_cells q) = QUEUE_SIZE" and h: "lq_head q < QUEUE_SIZE" using ok by (simp_all add: queue_ok_def)
  have ok': "queue_ok ?q" using ok by (simp add: queue_ok_def wrap_index_less)
  have "queue_count q = length (x # xs)" using ne queue_lines_length by metis
  then have n: "queue_count q = Suc (length xs)" by simp
  then have d: "lq_head q \<noteq> lq_tail q" using queue_empty [OF ok] by auto
  have n': "queue_count ?q = length xs"
  proof -
    have "queue_count ?q = (if wrap_index (lq_head q) \<le> lq_tail q then lq_tail q - wrap_index (lq_head q)
        else lq_tail q + QUEUE_SIZE - wrap_index (lq_head q))"
      using queue_count_cases [OF ok'] by simp
    moreover have "lq_tail q < QUEUE_SIZE" using ok by (simp add: queue_ok_def)
    ultimately show ?thesis using h n d queue_count_cases [OF ok] by (auto simp: wrap_index_def QUEUE_SIZE_def split: if_splits)
  qed
  have "x # xs = lq_cells q ! (lq_head q mod QUEUE_SIZE) # ring_list (lq_cells q) (Suc (lq_head q) mod QUEUE_SIZE) (length xs)"
    using ne unfolding queue_lines_def n ring_list_Suc_head l by simp
  moreover have "queue_lines ?q = ring_list (lq_cells q) (Suc (lq_head q) mod QUEUE_SIZE) (length xs)"
    unfolding queue_lines_def n' using wrap_index_mod [OF h] by simp
  ultimately show ?thesis using d ok' h by (simp add: lreadstdin_def)
qed

text \<open>The lines as the two threads pass them, each with the newline that is dropped.\<close>

definition type_line :: "line_queue \<Rightarrow> bytes \<Rightarrow> line_queue option" where
  "type_line q s = readline_turn q (s @ [10])"

interpretation clq: fifo_queue queue_ok queue_lines type_line "\<lambda>q. Some (lreadstdin q)" "QUEUE_SIZE - 1"
proof (unfold_locales, goal_cases)
  case (1 q x)
  then show ?case using readline_turn_lines by (simp add: type_line_def)
next
  case (2 q)
  then have "queue_count q = 0" by (metis list.size(3) queue_lines_length)
  then have "lq_head q = lq_tail q" using queue_empty 2 by simp
  then show ?case using 2 by (simp add: lreadstdin_def)
next
  case (3 q x xs)
  then show ?case using lreadstdin_head [OF 3] by auto
qed

theorem client_lines_fifo:
  assumes "enqs ops < QUEUE_SIZE"
  shows "\<exists>q' rs. queue_run type_line (\<lambda>q. Some (lreadstdin q)) new_line_queue ops = Some (q', rs) \<and>
    list_run [] ops = (queue_lines q', rs)"
proof -
  have "queue_ok new_line_queue" "queue_lines new_line_queue = []"
    by (simp_all add: new_line_queue_def queue_ok_def queue_lines_def queue_count_def QUEUE_SIZE_def)
  moreover have "length (queue_lines new_line_queue) + enqs ops \<le> QUEUE_SIZE - 1"
    using assms calculation by simp
  ultimately show ?thesis using clq.run_correct [of new_line_queue ops] by auto
qed

theorem client_lines_fifo_witness:
  "\<exists>q' rs. queue_run type_line (\<lambda>q. Some (lreadstdin q)) new_line_queue [Enq [65], Enq [66], Deq, Deq, Deq] = Some (q', rs) \<and>
    list_run [] [Enq [65], Enq [66], Deq, Deq, Deq] = (queue_lines q', rs)"
  by (rule client_lines_fifo) (simp add: QUEUE_SIZE_def)

text \<open>A line of more than 1022 characters arrives in pieces, and each loses its last character.\<close>

lemma client_long_line:
  assumes "length s = 1023" "10 \<notin> set s"
  shows "fgets (s @ rest) = (s, rest) \<and> butlast (fst (fgets (s @ rest))) \<noteq> s"
proof -
  have "s \<noteq> []" using assms by auto
  moreover have "fgets (s @ rest) = (s, rest)"
    using assms by (auto simp: fgets_def Let_def takeWhile_append)
  ultimately show ?thesis by (metis fst_conv append_butlast_last_id not_Cons_self2 append_self_conv)
qed

end
