(* ===== verification/Handle.thy ===== *)
theory Handle
  imports Prelude "HOL-Library.List_Lexorder" "HOL-Library.Char_ord"
begin

text \<open>
  \<open>skynet-src/skynet_handle.c\<close>: the table of the running services. A handle is a 32-bit number with
  the harbor id in the high 8 bits; the slot of a service is given by the low bits of its handle.
  Names are kept in a sorted array that is searched by bisection.

  A service context is an address (a \<open>nat\<close>); its \<open>handle\<close> field is given by \<open>ch\<close>, the argument
  that stands for \<open>skynet_context_handle\<close>. Each operation runs under the read-write lock.
  \<open>None\<close> is a failed assert.
\<close>

definition DEFAULT_SLOT_SIZE :: nat where "DEFAULT_SLOT_SIZE = 4"
definition MAX_SLOT_SIZE :: int where "MAX_SLOT_SIZE = 0x40000000"
definition HANDLE_MASK :: u32 where "HANDLE_MASK = 0xffffff"
definition HANDLE_REMOTE_SHIFT :: nat where "HANDLE_REMOTE_SHIFT = 24"

record handle_name =
  hn_name :: string
  hn_handle :: u32

text \<open>\<open>slot_size\<close> is the length of \<open>slot\<close>, \<open>name_cap\<close> the length of \<open>name\<close>.\<close>

record handle_storage =
  h_harbor :: u32
  h_index :: u32
  h_slot :: "nat option list"
  h_name_count :: nat
  h_name :: "handle_name list"

text \<open>Uninitialised cells of a fresh name array.\<close>

definition no_name :: handle_name where "no_name = \<lparr>hn_name = [], hn_handle = 0\<rparr>"

definition skynet_handle_init :: "int \<Rightarrow> handle_storage" where
  "skynet_handle_init harbor =
     \<lparr>h_harbor = push_bit HANDLE_REMOTE_SHIFT (word_of_int harbor AND 0xff), h_index = 1,
      h_slot = replicate DEFAULT_SLOT_SIZE None, h_name_count = 0, h_name = replicate 2 no_name\<rparr>"

section \<open>Registering\<close>

definition slot_hash :: "'a list \<Rightarrow> u32 \<Rightarrow> nat" where
  "slot_hash slots h = unat (h AND (word_of_nat (length slots) - 1))"

text \<open>The inner loop: \<open>k\<close> iterations are left.\<close>

fun register_probe :: "nat option list \<Rightarrow> u32 \<Rightarrow> nat \<Rightarrow> u32 option" where
  "register_probe slots h 0 = None"
| "register_probe slots h (Suc k) =
     (let h' = (if h > HANDLE_MASK then 1 else h) in
      if slots ! slot_hash slots h' = None then Some h' else register_probe slots (h' + 1) k)"

text \<open>The loop that moves the contexts into a table of twice the size.\<close>

definition rehash_one ::
  "(nat \<Rightarrow> u32) \<Rightarrow> nat option list \<Rightarrow> nat option \<Rightarrow> nat option list option" where
  "rehash_one ch new c =
     (case c of
        None \<Rightarrow> Some new
      | Some ctx \<Rightarrow>
          let hash = slot_hash new (ch ctx) in
          if new ! hash = None then Some (new[hash := Some ctx]) else None)"

definition rehash :: "(nat \<Rightarrow> u32) \<Rightarrow> nat option list \<Rightarrow> nat option list option" where
  "rehash ch slots =
     (if int (length slots) * 2 - 1 \<le> uint HANDLE_MASK
      then foldM (rehash_one ch) (replicate (length slots * 2) None) slots
      else None)"

partial_function (option) skynet_handle_register ::
  "(nat \<Rightarrow> u32) \<Rightarrow> handle_storage \<Rightarrow> nat \<Rightarrow> (handle_storage \<times> u32) option" where
  "skynet_handle_register ch s ctx =
     (case register_probe (h_slot s) (h_index s) (length (h_slot s)) of
        Some h \<Rightarrow>
          Some (s\<lparr>h_slot := (h_slot s)[slot_hash (h_slot s) h := Some ctx], h_index := h + 1\<rparr>,
                h OR h_harbor s)
      | None \<Rightarrow>
          Option.bind (rehash ch (h_slot s)) (\<lambda>new.
            skynet_handle_register ch (s\<lparr>h_slot := new\<rparr>) ctx))"

section \<open>Retiring and looking up\<close>

text \<open>The loop that closes the gaps in the name array: \<open>i\<close> reads, \<open>j\<close> writes.\<close>

function compact_names :: "handle_name list \<Rightarrow> u32 \<Rightarrow> nat \<Rightarrow> nat \<Rightarrow> nat \<Rightarrow> handle_name list \<times> nat" where
  "compact_names names h n i j =
     (if i < n then
        if hn_handle (names ! i) = h then compact_names names h n (Suc i) j
        else compact_names (if i \<noteq> j then names[j := names ! i] else names) h n (Suc i) (Suc j)
      else (names, j))"
  by pat_completeness auto
termination by (relation "measure (\<lambda>(_, _, n, i, _). n - i)") auto

declare compact_names.simps [simp del]

text \<open>The third component is the context the caller has to release.\<close>

definition skynet_handle_retire ::
  "(nat \<Rightarrow> u32) \<Rightarrow> handle_storage \<Rightarrow> u32 \<Rightarrow> handle_storage \<times> int \<times> nat option" where
  "skynet_handle_retire ch s handle =
     (let hash = slot_hash (h_slot s) handle in
      case h_slot s ! hash of
        Some ctx \<Rightarrow>
          if ch ctx = handle then
            let (names, j) = compact_names (h_name s) handle (h_name_count s) 0 0 in
            (s\<lparr>h_slot := (h_slot s)[hash := None], h_name := names, h_name_count := j\<rparr>, 1, Some ctx)
          else (s, 0, None)
      | None \<Rightarrow> (s, 0, None))"

definition skynet_handle_grab :: "(nat \<Rightarrow> u32) \<Rightarrow> handle_storage \<Rightarrow> u32 \<Rightarrow> nat option" where
  "skynet_handle_grab ch s handle =
     (case h_slot s ! slot_hash (h_slot s) handle of
        Some ctx \<Rightarrow> if ch ctx = handle then Some ctx else None
      | None \<Rightarrow> None)"

lemma retire_slot_length: "length (h_slot (fst (skynet_handle_retire ch s h))) = length (h_slot s)"
  by (auto simp: skynet_handle_retire_def Let_def split: option.splits prod.splits)

text \<open>One pass of \<open>skynet_handle_retireall\<close> over the slots; \<open>n\<close> counts the contexts met.\<close>

function retire_pass ::
  "(nat \<Rightarrow> u32) \<Rightarrow> handle_storage \<Rightarrow> nat \<Rightarrow> nat \<Rightarrow> nat list \<Rightarrow> handle_storage \<times> nat \<times> nat list" where
  "retire_pass ch s i n out =
     (if i < length (h_slot s) then
        (case h_slot s ! i of
           None \<Rightarrow> retire_pass ch s (Suc i) n out
         | Some ctx \<Rightarrow>
             if ch ctx \<noteq> 0 then
               (let (s', _, r) = skynet_handle_retire ch s (ch ctx) in
                retire_pass ch s' (Suc i) (Suc n) (out @ (case r of None \<Rightarrow> [] | Some c \<Rightarrow> [c])))
             else retire_pass ch s (Suc i) (Suc n) out)
      else (s, n, out))"
  by pat_completeness auto
termination
proof (relation "measure (\<lambda>(_, s, i, _). length (h_slot s) - i)", goal_cases)
  case (3 ch s i n out ctx s' a b r)
  then show ?case using retire_slot_length [of ch s "ch ctx"] by (simp add: prod_eq_iff)
qed auto

declare retire_pass.simps [simp del]

partial_function (option) skynet_handle_retireall ::
  "(nat \<Rightarrow> u32) \<Rightarrow> handle_storage \<Rightarrow> nat list \<Rightarrow> (handle_storage \<times> nat list) option" where
  "skynet_handle_retireall ch s out =
     (let (s', n, out') = retire_pass ch s 0 0 out in
      if n = 0 then Some (s', out') else skynet_handle_retireall ch s' out')"

section \<open>Names\<close>

definition strcmp :: "string \<Rightarrow> string \<Rightarrow> int" where
  "strcmp a b = (if a = b then 0 else if a < b then -1 else 1)"

text \<open>
  The bisection loop of \<open>skynet_handle_findname\<close> and \<open>_insert_name\<close>: \<open>Inl\<close> the index where the
  name is, or \<open>Inr\<close> the final \<open>begin\<close>.
\<close>

function name_search :: "handle_name list \<Rightarrow> string \<Rightarrow> int \<Rightarrow> int \<Rightarrow> nat + int" where
  "name_search names nm b e =
     (if b \<le> e then
        let mid = (b + e) div 2; c = strcmp (hn_name (names ! nat mid)) nm in
        if c = 0 then Inl (nat mid)
        else if c < 0 then name_search names nm (mid + 1) e
        else name_search names nm b (mid - 1)
      else Inr b)"
  by pat_completeness auto
termination by (relation "measure (\<lambda>(_, _, b, e). nat (e + 1 - b))") auto

declare name_search.simps [simp del]

definition skynet_handle_findname :: "handle_storage \<Rightarrow> string \<Rightarrow> u32" where
  "skynet_handle_findname s nm =
     (case name_search (h_name s) nm 0 (int (h_name_count s) - 1) of
        Inl i \<Rightarrow> hn_handle (h_name s ! i)
      | Inr _ \<Rightarrow> 0)"

fun shift_names :: "handle_name list \<Rightarrow> nat \<Rightarrow> nat \<Rightarrow> handle_name list" where
  "shift_names names 0 before = names"
| "shift_names names (Suc i) before =
     (if Suc i > before then shift_names (names[Suc i := names ! i]) i before else names)"

definition insert_name_before ::
  "handle_storage \<Rightarrow> string \<Rightarrow> u32 \<Rightarrow> nat \<Rightarrow> handle_storage option" where
  "insert_name_before s nm handle before =
     (let n = h_name_count s; cap = length (h_name s) in
      Option.bind
        (if n \<ge> cap then
           (if int cap * 2 \<le> MAX_SLOT_SIZE then
              Some (map (\<lambda>i. if i < before then h_name s ! i
                             else if before < i \<and> i \<le> n then h_name s ! (i - 1) else no_name)
                     [0..<cap * 2])
            else None)
         else Some (shift_names (h_name s) n before))
        (\<lambda>names. Some (s\<lparr>h_name := names[before := \<lparr>hn_name = nm, hn_handle = handle\<rparr>],
                         h_name_count := Suc n\<rparr>)))"

text \<open>The inner \<open>None\<close> is \<open>NULL\<close>: the name is taken.\<close>

definition skynet_handle_namehandle ::
  "handle_storage \<Rightarrow> u32 \<Rightarrow> string \<Rightarrow> (handle_storage \<times> string option) option" where
  "skynet_handle_namehandle s handle nm =
     (case name_search (h_name s) nm 0 (int (h_name_count s) - 1) of
        Inl _ \<Rightarrow> Some (s, None)
      | Inr b \<Rightarrow> Option.bind (insert_name_before s nm handle (nat b)) (\<lambda>s'. Some (s', Some nm)))"

section \<open>The name table\<close>

definition names_of :: "handle_storage \<Rightarrow> handle_name list" where
  "names_of s = take (h_name_count s) (h_name s)"

definition names_inv :: "handle_storage \<Rightarrow> bool" where
  "names_inv s \<longleftrightarrow>
     h_name_count s \<le> length (h_name s) \<and> 0 < length (h_name s) \<and>
     sorted_wrt (<) (map hn_name (names_of s))"

definition name_map :: "handle_storage \<Rightarrow> string \<Rightarrow> u32 option" where
  "name_map s = map_of (map (\<lambda>x. (hn_name x, hn_handle x)) (names_of s))"

lemma name_search_correct:
  assumes sorted: "sorted_wrt (<) (map hn_name (take n names))" and n: "n \<le> length names"
    and "0 \<le> b" "b \<le> e + 1" "e < int n"
    and "\<forall>i. int i < b \<longrightarrow> hn_name (names ! i) < nm"
    and "\<forall>i<n. e < int i \<longrightarrow> nm < hn_name (names ! i)"
  shows "case name_search names nm b e of
      Inl i \<Rightarrow> i < n \<and> hn_name (names ! i) = nm
    | Inr k \<Rightarrow> 0 \<le> k \<and> k \<le> int n \<and> (\<forall>i. int i < k \<longrightarrow> hn_name (names ! i) < nm) \<and>
        (\<forall>i<n. k \<le> int i \<longrightarrow> nm < hn_name (names ! i))"
  using assms
proof (induction names nm b e rule: name_search.induct)
  case (1 names nm b e)
  note P = "1.prems"
  have srt: "hn_name (names ! i) < hn_name (names ! j)" if "i < j" "j < n" for i j
    using sorted_wrt_nth_less [OF P(1), of i j] that P(2) by simp
  show ?case
  proof (cases "b \<le> e")
    case False
    then show ?thesis using P by (subst name_search.simps) auto
  next
    case True
    define mid where "mid = (b + e) div 2"
    have mid: "b \<le> mid" "mid \<le> e" using True by (auto simp: mid_def)
    then have mn: "nat mid < n" "int (nat mid) = mid" using P by auto
    consider "hn_name (names ! nat mid) = nm" | "hn_name (names ! nat mid) < nm"
      | "nm < hn_name (names ! nat mid)" by force
    then show ?thesis
    proof cases
      case 1
      then show ?thesis using True mn
        by (subst name_search.simps) (simp add: Let_def mid_def [symmetric] strcmp_def)
    next
      case 2
      then have e: "name_search names nm b e = name_search names nm (mid + 1) e"
        using True by (subst name_search.simps) (auto simp: Let_def mid_def [symmetric] strcmp_def)
      have lo: "\<forall>i. int i < mid + 1 \<longrightarrow> hn_name (names ! i) < nm"
      proof (intro allI impI)
        fix i assume "int i < mid + 1"
        then have "i < nat mid \<or> i = nat mid" using mn by linarith
        then show "hn_name (names ! i) < nm" using srt [of i "nat mid"] mn(1) 2 by auto
      qed
      show ?thesis unfolding e
        by (rule "1.IH"(1) [OF True mid_def refl]) (use less_imp_neq [OF 2] 2 lo mid P mn in \<open>auto simp: strcmp_def\<close>)
    next
      case 3
      then have e: "name_search names nm b e = name_search names nm b (mid - 1)"
        using True by (subst name_search.simps) (auto simp: Let_def mid_def [symmetric] strcmp_def)
      have hi: "\<forall>i<n. mid - 1 < int i \<longrightarrow> nm < hn_name (names ! i)"
      proof (intro allI impI)
        fix i assume i: "i < n" "mid - 1 < int i"
        then have "nat mid < i \<or> i = nat mid" using mn by linarith
        then show "nm < hn_name (names ! i)" using srt [of "nat mid" i] i 3 by auto
      qed
      show ?thesis unfolding e
        by (rule "1.IH"(2) [OF True mid_def refl]) (use less_imp_neq [OF 3] less_not_sym [OF 3] hi mid P mn in \<open>auto simp: strcmp_def\<close>)
    qed
  qed
qed


lemma search_whole:
  assumes "names_inv s"
  shows "case name_search (h_name s) nm 0 (int (h_name_count s) - 1) of
      Inl i \<Rightarrow> i < h_name_count s \<and> hn_name (h_name s ! i) = nm
    | Inr k \<Rightarrow> \<exists>b. k = int b \<and> b \<le> h_name_count s \<and> (\<forall>i<b. hn_name (h_name s ! i) < nm) \<and>
        (\<forall>i<h_name_count s. b \<le> i \<longrightarrow> nm < hn_name (h_name s ! i))"
proof -
  have "case name_search (h_name s) nm 0 (int (h_name_count s) - 1) of
      Inl i \<Rightarrow> i < h_name_count s \<and> hn_name (h_name s ! i) = nm
    | Inr k \<Rightarrow> 0 \<le> k \<and> k \<le> int (h_name_count s) \<and> (\<forall>i. int i < k \<longrightarrow> hn_name (h_name s ! i) < nm) \<and>
        (\<forall>i<h_name_count s. k \<le> int i \<longrightarrow> nm < hn_name (h_name s ! i))"
    by (rule name_search_correct) (use assms in \<open>auto simp: names_inv_def names_of_def\<close>)
  then show ?thesis
  proof (cases "name_search (h_name s) nm 0 (int (h_name_count s) - 1)")
    case (Inr k)
    then show ?thesis
      using \<open>case name_search (h_name s) nm 0 (int (h_name_count s) - 1) of Inl i \<Rightarrow> _ i | Inr k \<Rightarrow> _ k\<close>
      by (auto intro!: exI [of _ "nat k"])
  qed simp
qed

lemma names_distinct: "names_inv s \<Longrightarrow> distinct (map hn_name (names_of s))"
  unfolding names_inv_def by (auto simp: strict_sorted_iff)

lemma name_map_nth:
  assumes "names_inv s" "i < h_name_count s"
  shows "name_map s (hn_name (h_name s ! i)) = Some (hn_handle (h_name s ! i))"
proof -
  have "h_name s ! i \<in> set (names_of s)"
    using assms by (auto simp: names_of_def names_inv_def in_set_conv_nth intro!: exI [of _ i])
  then show ?thesis
    unfolding name_map_def using names_distinct [OF assms(1)]
    by (intro map_of_is_SomeI) (auto simp: comp_def)
qed

lemma name_map_None_iff: "name_map s nm = None \<longleftrightarrow> nm \<notin> hn_name ` set (names_of s)"
  by (auto simp: name_map_def map_of_eq_None_iff image_image)

lemma name_map_none:
  assumes "b \<le> h_name_count s" "\<forall>i<b. hn_name (h_name s ! i) < nm"
    "\<forall>i<h_name_count s. b \<le> i \<longrightarrow> nm < hn_name (h_name s ! i)"
  shows "name_map s nm = None"
  unfolding name_map_None_iff
proof
  assume "nm \<in> hn_name ` set (names_of s)"
  then obtain i where i: "i < h_name_count s" "hn_name (h_name s ! i) = nm"
    by (auto simp: names_of_def in_set_conv_nth)
  then show False using assms(2,3) by (cases "i < b") auto
qed

lemma findname_map:
  assumes "names_inv s"
  shows "skynet_handle_findname s nm = (case name_map s nm of None \<Rightarrow> 0 | Some h \<Rightarrow> h)"
proof (cases "name_search (h_name s) nm 0 (int (h_name_count s) - 1)")
  case (Inl i)
  then show ?thesis
    using search_whole [OF assms, of nm] name_map_nth [OF assms, of i]
    by (auto simp: skynet_handle_findname_def)
next
  case (Inr k)
  then obtain b where "b \<le> h_name_count s" "\<forall>i<b. hn_name (h_name s ! i) < nm"
    "\<forall>i<h_name_count s. b \<le> i \<longrightarrow> nm < hn_name (h_name s ! i)"
    using search_whole [OF assms, of nm] by auto
  then have "name_map s nm = None" by (rule name_map_none)
  then show ?thesis using Inr by (simp add: skynet_handle_findname_def)
qed

lemma shift_names_nth:
  assumes "n < length names" "before \<le> n"
  shows "length (shift_names names n before) = length names \<and>
    (\<forall>i\<le>n. shift_names names n before ! i = (if before < i then names ! (i - 1) else names ! i))"
  using assms
proof (induction names n before rule: shift_names.induct)
  case (1 names before)
  then show ?case by simp
next
  case (2 names i before)
  show ?case
  proof (cases "Suc i > before")
    case False
    then show ?thesis using "2.prems" by simp
  next
    case True
    have "length (shift_names (names[Suc i := names ! i]) i before) = length names \<and>
      (\<forall>j\<le>i. shift_names (names[Suc i := names ! i]) i before ! j =
         (if before < j then names[Suc i := names ! i] ! (j - 1) else names[Suc i := names ! i] ! j))"
      using "2.IH" True "2.prems" by simp
    moreover have "shift_names xs i before ! j = xs ! j" if "i < j" for xs j
      using that by (induction xs i before rule: shift_names.induct) auto
    ultimately show ?thesis using True "2.prems"
      by (auto simp: le_Suc_eq nth_list_update)
  qed
qed

lemma insert_name_before_spec:
  assumes inv: "names_inv s" and b: "b \<le> h_name_count s" and room: "int (h_name_count s) * 2 \<le> MAX_SLOT_SIZE"
  shows "\<exists>names. insert_name_before s nm h b =
      Some (s\<lparr>h_name := names, h_name_count := Suc (h_name_count s)\<rparr>) \<and>
    Suc (h_name_count s) \<le> length names \<and>
    take (Suc (h_name_count s)) names =
      take b (names_of s) @ \<lparr>hn_name = nm, hn_handle = h\<rparr> # drop b (names_of s)"
proof -
  let ?n = "h_name_count s" and ?cap = "length (h_name s)" and ?e = "\<lparr>hn_name = nm, hn_handle = h\<rparr>"
  have n: "?n \<le> ?cap" "0 < ?cap" using inv by (auto simp: names_inv_def)
  obtain ys where ys: "insert_name_before s nm h b =
      Some (s\<lparr>h_name := ys[b := ?e], h_name_count := Suc ?n\<rparr>)" "?n < length ys"
    "\<forall>i\<le>?n. i \<noteq> b \<longrightarrow> ys ! i = (if b < i then h_name s ! (i - 1) else h_name s ! i)"
  proof (cases "?n \<ge> ?cap")
    case True
    then have "?n = ?cap" using n by simp
    then show ?thesis using that [of "map (\<lambda>i. if i < b then h_name s ! i
        else if b < i \<and> i \<le> ?n then h_name s ! (i - 1) else no_name) [0..<?cap * 2]"] True n room
      by (auto simp: insert_name_before_def Let_def nth_append)
  next
    case False
    then show ?thesis using that [of "shift_names (h_name s) ?n b"] shift_names_nth [of ?n "h_name s" b] b
      by (auto simp: insert_name_before_def Let_def)
  qed
  have len: "length (take (Suc ?n) (ys[b := ?e])) = length (take b (names_of s) @ ?e # drop b (names_of s))"
    using ys(2) n b by (simp add: names_of_def)
  have "take (Suc ?n) (ys[b := ?e]) = take b (names_of s) @ ?e # drop b (names_of s)"
  proof (rule nth_equalityI [OF len])
    fix i assume "i < length (take (Suc ?n) (ys[b := ?e]))"
    then have i: "i \<le> ?n" by simp
    show "take (Suc ?n) (ys[b := ?e]) ! i = (take b (names_of s) @ ?e # drop b (names_of s)) ! i"
      using i ys(2,3) n b
      by (auto simp: names_of_def nth_append nth_list_update min_def nth_Cons' not_less
          intro: arg_cong [of _ _ "(!) (h_name s)"])
  qed
  then show ?thesis using ys by (intro exI [of _ "ys[b := ?e]"]) simp
qed

lemma map_of_filter_names:
  "distinct (map hn_name xs) \<Longrightarrow>
     map_of (map (\<lambda>x. (hn_name x, hn_handle x)) (filter (\<lambda>x. hn_handle x \<noteq> h) xs)) nm =
     (let r = map_of (map (\<lambda>x. (hn_name x, hn_handle x)) xs) nm in if r = Some h then None else r)"
proof (induction xs)
  case Nil
  then show ?case by simp
next
  case (Cons x xs)
  have "map_of (map (\<lambda>x. (hn_name x, hn_handle x)) xs) (hn_name x) = None"
    using Cons.prems by (auto simp: map_of_eq_None_iff image_iff)
  then show ?case using Cons by (auto simp: Let_def)
qed

lemma map_of_insert:
  "nm \<notin> fst ` set xs \<Longrightarrow> map_of (xs @ (nm, h) # ys) = (map_of (xs @ ys))(nm \<mapsto> h)"
  by (induction xs) auto

lemma namehandle_spec:
  assumes inv: "names_inv s" and room: "int (h_name_count s) * 2 \<le> MAX_SLOT_SIZE"
  shows "\<exists>s' r. skynet_handle_namehandle s h nm = Some (s', r) \<and>
    h_slot s' = h_slot s \<and> h_index s' = h_index s \<and> h_harbor s' = h_harbor s \<and> names_inv s' \<and>
    (if name_map s nm = None then r = Some nm \<and> name_map s' = (name_map s)(nm \<mapsto> h)
     else r = None \<and> s' = s)"
proof (cases "name_search (h_name s) nm 0 (int (h_name_count s) - 1)")
  case (Inl i)
  then have "name_map s nm \<noteq> None"
    using search_whole [OF inv, of nm] name_map_nth [OF inv, of i] by auto
  then show ?thesis using Inl inv by (simp add: skynet_handle_namehandle_def)
next
  case (Inr k)
  then obtain b where b: "k = int b" "b \<le> h_name_count s" "\<forall>i<b. hn_name (h_name s ! i) < nm"
    "\<forall>i<h_name_count s. b \<le> i \<longrightarrow> nm < hn_name (h_name s ! i)"
    using search_whole [OF inv, of nm] by auto
  have none: "name_map s nm = None" using b(2-4) by (rule name_map_none)
  let ?e = "\<lparr>hn_name = nm, hn_handle = h\<rparr>"
  obtain names where names: "insert_name_before s nm h b =
      Some (s\<lparr>h_name := names, h_name_count := Suc (h_name_count s)\<rparr>)"
    "Suc (h_name_count s) \<le> length names"
    "take (Suc (h_name_count s)) names = take b (names_of s) @ ?e # drop b (names_of s)"
    using insert_name_before_spec [OF inv b(2) room] by blast
  let ?s' = "s\<lparr>h_name := names, h_name_count := Suc (h_name_count s)\<rparr>"
  have no: "names_of ?s' = take b (names_of s) @ ?e # drop b (names_of s)"
    using names(3) by (simp add: names_of_def)
  have lt: "x < nm" if "x \<in> set (map hn_name (take b (names_of s)))" for x
    using that b(2,3) by (auto simp: names_of_def in_set_conv_nth min_def split: if_splits)
  have gt: "nm < x" if "x \<in> set (map hn_name (drop b (names_of s)))" for x
    using that b(2,4) inv by (auto simp: names_of_def names_inv_def in_set_conv_nth)
  have "sorted_wrt (<) (map hn_name (take b (names_of s)) @ map hn_name (drop b (names_of s)))"
    using inv by (simp add: names_inv_def map_append [symmetric] del: map_append)
  then have "sorted_wrt (<) (map hn_name (names_of ?s'))"
    unfolding no sorted_wrt_append using lt gt by (auto simp: sorted_wrt_append)
  then have inv': "names_inv ?s'" using names(2) by (auto simp: names_inv_def)
  have "name_map ?s' = (name_map s)(nm \<mapsto> h)"
  proof -
    let ?f = "\<lambda>x. (hn_name x, hn_handle x)"
    have "nm \<notin> fst ` set (map ?f (take b (names_of s)))" using lt by force
    then have "map_of (map ?f (take b (names_of s)) @ (nm, h) # map ?f (drop b (names_of s))) =
        (map_of (map ?f (take b (names_of s)) @ map ?f (drop b (names_of s))))(nm \<mapsto> h)"
      by (rule map_of_insert)
    then show ?thesis unfolding name_map_def no map_append list.map
      by (simp add: map_append [symmetric] del: map_append)
  qed
  then show ?thesis using Inr b(1) names(1) none inv' by (simp add: skynet_handle_namehandle_def)
qed

text \<open>The compaction loop of \<open>skynet_handle_retire\<close> is a filter.\<close>

lemma compact_names_spec:
  assumes "j \<le> i" "i \<le> n" "n \<le> length names"
  shows "case compact_names names h n i j of (names', j') \<Rightarrow>
    length names' = length names \<and> j' \<le> n \<and>
    take j' names' = take j names @ filter (\<lambda>x. hn_handle x \<noteq> h) (take (n - i) (drop i names))"
  using assms
proof (induction names h n i j rule: compact_names.induct)
  case (1 names h n i j)
  show ?case
  proof (cases "i < n")
    case False
    then show ?thesis using "1.prems" by (subst compact_names.simps) simp
  next
    case True
    have d: "take (n - i) (drop i names) = names ! i # take (n - Suc i) (drop (Suc i) names)"
      using True "1.prems" by (simp add: Cons_nth_drop_Suc [symmetric] take_Cons' )
    show ?thesis
    proof (cases "hn_handle (names ! i) = h")
      case drop: True
      then show ?thesis using "1.IH"(1) [OF True drop] "1.prems" True
        by (subst compact_names.simps) (simp add: d)
    next
      case keep: False
      let ?names = "if i \<noteq> j then names[j := names ! i] else names"
      have "take (Suc j) ?names = take j names @ [names ! i]"
        using "1.prems" True by (auto simp: take_Suc_conv_app_nth)
      moreover have "drop (Suc i) ?names = drop (Suc i) names" using "1.prems" by simp
      moreover have "length ?names = length names" by simp
      ultimately show ?thesis using "1.IH"(2) [OF True keep] "1.prems" True keep
        by (subst compact_names.simps) (simp add: d split: prod.splits)
    qed
  qed
qed


section \<open>The slots\<close>

definition live :: "handle_storage \<Rightarrow> nat set" where
  "live s = {c. Some c \<in> set (h_slot s)}"

definition handle_ok :: "handle_storage \<Rightarrow> u32 \<Rightarrow> bool" where
  "handle_ok s h \<longleftrightarrow> (\<exists>l. 0 < l \<and> l \<le> HANDLE_MASK \<and> h = l OR h_harbor s)"

definition slots_inv :: "(nat \<Rightarrow> u32) \<Rightarrow> handle_storage \<Rightarrow> bool" where
  "slots_inv ch s \<longleftrightarrow>
     (\<exists>k. 2 \<le> k \<and> k \<le> 24 \<and> length (h_slot s) = 2 ^ k) \<and>
     1 \<le> unat (h_index s) \<and> unat (h_index s) \<le> 2 ^ 24 \<and> h_harbor s AND HANDLE_MASK = 0 \<and>
     (\<forall>i c. i < length (h_slot s) \<longrightarrow> h_slot s ! i = Some c \<longrightarrow>
        handle_ok s (ch c) \<and> slot_hash (h_slot s) (ch c) = i)"

lemma HANDLE_MASK_mask: "HANDLE_MASK = mask 24"
  by (simp add: HANDLE_MASK_def mask_eq_exp_minus_1)

lemma slot_hash_mod: "length slots = 2 ^ k \<Longrightarrow> slot_hash slots h = unat h mod length slots"
  unfolding slot_hash_def using unat_and_mask [of h k] by (simp add: mask_eq_exp_minus_1)

lemma unat_or_harbor:
  assumes "l \<le> HANDLE_MASK" "hb AND HANDLE_MASK = 0" "k \<le> 24"
  shows "unat (l OR hb) mod 2 ^ k = unat l mod 2 ^ k"
proof -
  have "(l OR hb) AND mask k = l AND mask k"
  proof (rule bit_word_eqI)
    fix n
    have "bit (hb AND HANDLE_MASK) n = False" using assms(2) by simp
    then show "bit ((l OR hb) AND mask k) n = bit (l AND mask k) n"
      using assms(3) by (auto simp: bit_simps HANDLE_MASK_mask)
  qed
  then show ?thesis by (metis unat_and_mask)
qed

lemma mask_le: "l \<le> HANDLE_MASK \<longleftrightarrow> unat l < 2 ^ 24"
  by (simp add: word_le_nat_alt HANDLE_MASK_def) linarith

lemma grab_iff:
  assumes "slots_inv ch s"
  shows "skynet_handle_grab ch s h = Some c \<longleftrightarrow> c \<in> live s \<and> ch c = h"
proof -
  obtain k where k: "length (h_slot s) = 2 ^ k" using assms by (auto simp: slots_inv_def)
  have lt: "slot_hash (h_slot s) h < length (h_slot s)" for h
    unfolding slot_hash_mod [OF k] using k by simp
  show ?thesis
  proof
    assume "skynet_handle_grab ch s h = Some c"
    then have "h_slot s ! slot_hash (h_slot s) h = Some c" "ch c = h"
      by (auto simp: skynet_handle_grab_def split: option.splits if_splits)
    then show "c \<in> live s \<and> ch c = h" using lt [of h] by (auto simp: live_def in_set_conv_nth)
  next
    assume c: "c \<in> live s \<and> ch c = h"
    then obtain i where "i < length (h_slot s)" "h_slot s ! i = Some c"
      by (auto simp: live_def in_set_conv_nth)
    then show "skynet_handle_grab ch s h = Some c"
      using assms c by (auto simp: slots_inv_def skynet_handle_grab_def)
  qed
qed

text \<open>The handles that the probe visits: \<open>1, ..., HANDLE_MASK\<close> in a cycle.\<close>

definition cyc :: "nat \<Rightarrow> nat" where
  "cyc m = (m - 1) mod (2 ^ 24 - 1) + 1"

lemma cyc_add: "0 < a \<Longrightarrow> cyc (cyc a + b) = cyc (a + b)"
proof -
  assume "0 < a"
  then have "a - 1 + b = a + b - 1" by simp
  then show ?thesis unfolding cyc_def by (simp add: mod_simps)
qed

lemma cyc_range: "1 \<le> cyc m" "cyc m < 2 ^ 24"
proof -
  have "(m - 1) mod (2 ^ 24 - 1) < (2 ^ 24 - 1 :: nat)" by (rule mod_less_divisor) simp
  then show "1 \<le> cyc m" "cyc m < 2 ^ 24" by (simp_all add: cyc_def)
qed

lemma cyc_norm:
  assumes "1 \<le> unat h" "unat h \<le> 2 ^ 24"
  shows "(if h > HANDLE_MASK then 1 else h) = word_of_nat (cyc (unat h))"
proof (cases "h > HANDLE_MASK")
  case True
  then have "unat h = 2 ^ 24" using assms(2) mask_le [of h] by (simp add: not_le [symmetric])
  then show ?thesis using True by (simp add: cyc_def)
next
  case False
  then have "unat h < 2 ^ 24" using mask_le [of h] by (simp add: not_less)
  then have "cyc (unat h) = unat h" using assms(1) by (simp add: cyc_def)
  then show ?thesis using False by simp
qed

lemma unat_cyc: "unat (word_of_nat (cyc m) :: u32) = cyc m"
  using cyc_range(2) [of m] by (simp add: unat_of_nat)

lemma register_probe_spec:
  assumes "1 \<le> unat h" "unat h \<le> 2 ^ 24" and len: "length slots = 2 ^ k"
  shows "case register_probe slots h n of
      Some h' \<Rightarrow> 0 < h' \<and> h' \<le> HANDLE_MASK \<and> slots ! slot_hash slots h' = None
    | None \<Rightarrow> \<forall>i<n. slots ! (cyc (unat h + i) mod length slots) \<noteq> None"
  using assms(1,2)
proof (induction n arbitrary: h)
  case 0
  then show ?case by simp
next
  case (Suc n)
  let ?h = "word_of_nat (cyc (unat h)) :: u32"
  have p: "register_probe slots h (Suc n) =
      (if slots ! slot_hash slots ?h = None then Some ?h else register_probe slots (?h + 1) n)"
    using cyc_norm [OF Suc.prems] by (simp add: Let_def)
  have r: "0 < ?h \<and> ?h \<le> HANDLE_MASK"
    using cyc_range [of "unat h"] by (simp add: mask_le unat_cyc word_less_nat_alt)
  show ?case
  proof (cases "slots ! slot_hash slots ?h = None")
    case True
    then show ?thesis using r unfolding p by simp
  next
    case False
    have u: "unat (?h + 1) = Suc (cyc (unat h))"
      using cyc_range(2) [of "unat h"] by (simp add: unat_word_ariths unat_cyc)
    then have "1 \<le> unat (?h + 1)" "unat (?h + 1) \<le> 2 ^ 24" using cyc_range(2) [of "unat h"] by simp_all
    note ih = Suc.IH [OF this]
    have e: "cyc (unat (?h + 1) + i) = cyc (unat h + Suc i)" for i
      unfolding u using cyc_add [of "unat h" "Suc i"] Suc.prems(1) by simp
    have z: "slots ! (cyc (unat h) mod length slots) \<noteq> None"
      using False unfolding slot_hash_mod [OF len] unat_cyc .
    show ?thesis
    proof (cases "register_probe slots (?h + 1) n")
      case None
      then have "\<forall>i<n. slots ! (cyc (unat h + Suc i) mod length slots) \<noteq> None" using ih e by simp
      then have "\<forall>i<Suc n. slots ! (cyc (unat h + i) mod length slots) \<noteq> None"
        using z by (metis (no_types) Nat.add_0_right not0_implies_Suc Suc_less_eq)
      then show ?thesis using None False unfolding p by auto
    next
      case (Some h')
      then show ?thesis using ih False unfolding p by auto
    qed
  qed
qed

text \<open>A full round meets every slot, except perhaps slot 0.\<close>

lemma cyc_covers:
  assumes k: "k \<le> 24" and st: "1 \<le> st" and j: "1 \<le> j" "j < 2 ^ k"
  shows "\<exists>i<2 ^ k. cyc (st + i) mod 2 ^ k = j"
proof -
  let ?n = "2 ^ k :: nat" and ?a = "cyc st"
  have a: "1 \<le> ?a" "?a < 2 ^ 24" by (rule cyc_range)+
  have e: "cyc (st + i) = cyc (?a + i)" for i using cyc_add [of st i] st by simp
  obtain q where q: "2 ^ 24 = q * ?n"
    using le_imp_power_dvd [OF k, of "2 :: nat"] by (auto simp: dvd_def mult.commute)
  define r where "r = ?a mod ?n"
  define b where "b = ?a div ?n"
  have ab: "?a = b * ?n + r" unfolding r_def b_def by (rule div_mult_mod_eq [symmetric])
  have rn: "r < ?n" unfolding r_def by (rule mod_less_divisor) simp
  have "b * ?n < q * ?n" using a(2) ab q by linarith
  then have bq: "b < q" by simp
  then have bq': "(b + 1) * ?n \<le> q * ?n" by (intro mult_le_mono1) simp
  have small: "cyc m = m" if "1 \<le> m" "m < 2 ^ 24" for m using that by (simp add: cyc_def)
  show ?thesis
  proof (cases "r \<le> j")
    case True
    let ?i = "j - r"
    have s: "?a + ?i = b * ?n + j" using ab True by simp
    then have "?a + ?i < 2 ^ 24" using bq' j(2) q by simp
    then have "cyc (st + ?i) = b * ?n + j" unfolding e using small [of "?a + ?i"] a(1) s by simp
    then have "cyc (st + ?i) mod ?n = j" using j(2) by simp
    moreover have "?i < ?n" using j(2) by simp
    ultimately show ?thesis by blast
  next
    case False
    show ?thesis
    proof (cases "b + 1 = q")
      case last: True
      let ?i = "?n - r + j - 1"
      have "b * ?n + ?n = 16777216" using q unfolding last [symmetric] by simp
      then have "?a + ?i = 2 ^ 24 - 1 + j" using ab False rn j(1) by simp
      then have "cyc (st + ?i) = cyc (2 ^ 24 - 1 + j)" unfolding e by simp
      also have "\<dots> = j"
      proof -
        have "j < 2 ^ 24" using j(2) power_increasing [OF k, of "2 :: nat"] by simp
        then have "j - 1 < 2 ^ 24 - 1" using j(1) by simp
        moreover have "2 ^ 24 - 1 + j - 1 = (j - 1) + (2 ^ 24 - 1 :: nat)" using j(1) by simp
        ultimately have "(2 ^ 24 - 1 + j - 1) mod (2 ^ 24 - 1) = j - 1"
          using j(1) by (simp only: mod_add_self2 mod_less)
        then show ?thesis unfolding cyc_def using j(1) by simp
      qed
      finally have "cyc (st + ?i) mod ?n = j" using j(2) by simp
      moreover have "?i < ?n" using False rn by linarith
      ultimately show ?thesis by blast
    next
      case False': False
      let ?i = "?n - r + j"
      have "(b + 2) * ?n \<le> q * ?n" using bq False' by (intro mult_le_mono1) simp
      then have lt: "(b + 1) * ?n + j < 2 ^ 24" using j(2) q by simp
      have s: "?a + ?i = (b + 1) * ?n + j" using ab rn by simp
      then have "cyc (st + ?i) = (b + 1) * ?n + j" unfolding e using small [of "?a + ?i"] a(1) lt by simp
      then have "cyc (st + ?i) mod ?n = j" using j(2) by (simp only: mod_mult_self3 mod_less)
      moreover have "?i < ?n" using False rn by linarith
      ultimately show ?thesis by blast
    qed
  qed
qed


text \<open>Rehashing: \<open>holds\<close> says that a table contains exactly the contexts \<open>C\<close>, each in its slot.\<close>

definition holds :: "(nat \<Rightarrow> u32) \<Rightarrow> nat option list \<Rightarrow> nat set \<Rightarrow> bool" where
  "holds ch new C \<longleftrightarrow>
     (\<forall>i<length new. \<forall>c. new ! i = Some c \<longleftrightarrow> c \<in> C \<and> slot_hash new (ch c) = i)"

lemma slot_hash_update [simp]: "slot_hash (xs[i := y]) h = slot_hash xs h"
  by (simp add: slot_hash_def)

lemma slot_hash_less: "length slots = 2 ^ k \<Longrightarrow> slot_hash slots h < length slots"
  by (simp add: slot_hash_mod)

lemma rehash_fold:
  assumes "length new = 2 ^ k" "holds ch new C"
    and "inj_on (\<lambda>c. unat (ch c) mod 2 ^ k) (C \<union> {c. Some c \<in> set xs})"
    and "\<forall>c. Some c \<in> set xs \<longrightarrow> c \<notin> C" "distinct (filter (\<lambda>x. x \<noteq> None) xs)"
  shows "\<exists>new'. foldM (rehash_one ch) new xs = Some new' \<and> length new' = 2 ^ k \<and>
    holds ch new' (C \<union> {c. Some c \<in> set xs})"
  using assms
proof (induction xs arbitrary: new C)
  case Nil
  then show ?case by simp
next
  case (Cons x xs)
  show ?case
  proof (cases x)
    case None
    then show ?thesis using Cons.IH [OF Cons.prems(1,2)] Cons.prems(3-) by (simp add: rehash_one_def)
  next
    case (Some c)
    let ?i = "slot_hash new (ch c)"
    have hs: "slot_hash new (ch d) = unat (ch d) mod 2 ^ k" for d
      using slot_hash_mod [OF Cons.prems(1)] Cons.prems(1) by simp
    have i: "?i < length new" by (rule slot_hash_less [OF Cons.prems(1)])
    have cC: "c \<notin> C" using Cons.prems(4) Some by simp
    have other: "slot_hash new (ch d) \<noteq> ?i" if "d \<in> C" for d
      using inj_onD [OF Cons.prems(3), of c d] that cC Some unfolding hs by auto
    have free: "new ! ?i = None"
    proof (rule ccontr)
      assume "new ! ?i \<noteq> None"
      then obtain d where "new ! ?i = Some d" by blast
      then show False using Cons.prems(2) i other unfolding holds_def by blast
    qed
    let ?new = "new[?i := Some c]"
    have h1: "holds ch ?new (insert c C)"
      unfolding holds_def
    proof (intro allI impI)
      fix j d assume j: "j < length ?new"
      show "?new ! j = Some d \<longleftrightarrow> d \<in> insert c C \<and> slot_hash ?new (ch d) = j"
      proof (cases "j = ?i")
        case True
        then show ?thesis using i other by auto
      next
        case False
        then have "?new ! j = Some d \<longleftrightarrow> d \<in> C \<and> slot_hash new (ch d) = j"
          using Cons.prems(2) j by (simp add: holds_def)
        then show ?thesis using False by auto
      qed
    qed
    have "insert c C \<union> {c. Some c \<in> set xs} = C \<union> {c. Some c \<in> set (x # xs)}" using Some by auto
    moreover have "Some c \<notin> set xs" using Cons.prems(5) Some by simp
    ultimately show ?thesis
      using Cons.IH [of ?new "insert c C"] Cons.prems h1 Some free
      by (auto simp: rehash_one_def Let_def)
  qed
qed

lemma slots_invD:
  assumes "slots_inv ch s" "c \<in> live s"
  shows "handle_ok s (ch c)" "h_slot s ! slot_hash (h_slot s) (ch c) = Some c"
  using assms by (auto simp: slots_inv_def live_def in_set_conv_nth)

lemma distinct_filter_nth:
  assumes "\<And>i j. i < length xs \<Longrightarrow> j < length xs \<Longrightarrow> xs ! i = xs ! j \<Longrightarrow> P (xs ! i) \<Longrightarrow> i = j"
  shows "distinct (filter P xs)"
  using assms
proof (induction xs)
  case Nil
  then show ?case by simp
next
  case (Cons x xs)
  have "distinct (filter P xs)"
  proof (rule Cons.IH)
    fix i j
    assume "i < length xs" "j < length xs" "xs ! i = xs ! j" "P (xs ! i)"
    then show "i = j" using Cons.prems [of "Suc i" "Suc j"] by simp
  qed
  moreover have "x \<notin> set xs" if px: "P x"
  proof
    assume "x \<in> set xs"
    then obtain i where "i < length xs" "xs ! i = x" by (auto simp: in_set_conv_nth)
    then show False using Cons.prems [of 0 "Suc i"] px by simp
  qed
  ultimately show ?case by simp
qed

lemma slots_distinct:
  assumes "slots_inv ch s"
  shows "distinct (filter (\<lambda>x. x \<noteq> None) (h_slot s))"
proof (rule distinct_filter_nth)
  fix i j
  assume i: "i < length (h_slot s)" and j: "j < length (h_slot s)" "h_slot s ! i = h_slot s ! j"
    and ne: "h_slot s ! i \<noteq> None"
  obtain c where c: "h_slot s ! i = Some c" using ne by blast
  then have "slot_hash (h_slot s) (ch c) = i" using assms i by (auto simp: slots_inv_def)
  moreover have "slot_hash (h_slot s) (ch c) = j" using assms j c by (auto simp: slots_inv_def)
  ultimately show "i = j" by simp
qed

lemma rehash_spec:
  assumes inv: "slots_inv ch s" and small: "length (h_slot s) < 2 ^ 24"
  shows "\<exists>new. rehash ch (h_slot s) = Some new \<and> length new = length (h_slot s) * 2 \<and>
    slots_inv ch (s\<lparr>h_slot := new\<rparr>) \<and> live (s\<lparr>h_slot := new\<rparr>) = live s"
proof -
  obtain k where k: "2 \<le> k" "k \<le> 24" "length (h_slot s) = 2 ^ k" using inv by (auto simp: slots_inv_def)
  have k24: "k < 24"
  proof (rule ccontr)
    assume "\<not> k < 24"
    then have "k = 24" using k by simp
    then show False using small k by simp
  qed
  let ?new = "replicate (length (h_slot s) * 2) None :: nat option list"
  have L: "length ?new = 2 ^ Suc k" using k by simp
  have ev: "unat (ch c) mod 2 ^ k = unat (ch c) mod 2 ^ Suc k mod 2 ^ k" for c
    by (simp add: mod_mod_cancel)
  have inj: "inj_on (\<lambda>c. unat (ch c) mod 2 ^ Suc k) ({} \<union> {c. Some c \<in> set (h_slot s)})"
  proof (rule inj_onI)
    fix c d
    assume cd: "c \<in> {} \<union> {c. Some c \<in> set (h_slot s)}" "d \<in> {} \<union> {c. Some c \<in> set (h_slot s)}"
      and eq: "unat (ch c) mod 2 ^ Suc k = unat (ch d) mod 2 ^ Suc k"
    have "unat (ch c) mod 2 ^ k = unat (ch d) mod 2 ^ k" unfolding ev [of c] ev [of d] by (simp only: eq)
    then have he: "slot_hash (h_slot s) (ch c) = slot_hash (h_slot s) (ch d)"
      unfolding slot_hash_mod [OF k(3)] k(3) .
    have "c \<in> live s" "d \<in> live s" using cd by (simp_all add: live_def)
    then have "h_slot s ! slot_hash (h_slot s) (ch c) = Some c" "h_slot s ! slot_hash (h_slot s) (ch d) = Some d"
      using slots_invD(2) [OF inv] by blast+
    then show "c = d" unfolding he by simp
  qed
  have h0: "holds ch ?new {}" by (simp add: holds_def)
  obtain new where new: "foldM (rehash_one ch) ?new (h_slot s) = Some new" "length new = 2 ^ Suc k"
    "holds ch new (live s)"
    using rehash_fold [OF L h0 inj] slots_distinct [OF inv] by (auto simp: live_def)
  have "c \<in> live (s\<lparr>h_slot := new\<rparr>) \<longleftrightarrow> c \<in> live s" for c
  proof -
    have "c \<in> live (s\<lparr>h_slot := new\<rparr>) \<longleftrightarrow> (\<exists>i<length new. new ! i = Some c)"
      by (auto simp: live_def in_set_conv_nth)
    then show ?thesis using new(3) slot_hash_less [OF new(2), of "ch c"] unfolding holds_def by blast
  qed
  then have lv: "live (s\<lparr>h_slot := new\<rparr>) = live s" by blast
  have "\<exists>k. 2 \<le> k \<and> k \<le> 24 \<and> length new = 2 ^ k" using new(2) k k24 by (intro exI [of _ "Suc k"]) simp
  moreover have "handle_ok s (ch c) \<and> slot_hash new (ch c) = i" if "i < length new" "new ! i = Some c" for i c
    using new(3) that slots_invD(1) [OF inv, of c] by (auto simp: holds_def)
  ultimately have "slots_inv ch (s\<lparr>h_slot := new\<rparr>)"
    using inv by (auto simp: slots_inv_def handle_ok_def)
  moreover have "(2 :: int) ^ k \<le> 2 ^ 23" by (rule power_increasing) (use k24 in simp_all)
  then have "int (length (h_slot s)) * 2 - 1 \<le> uint HANDLE_MASK"
    unfolding k(3) by (simp add: HANDLE_MASK_def)
  ultimately show ?thesis using new lv k by (auto simp: rehash_def)
qed


text \<open>A table with a free slot, other than slot 0, has room for one more.\<close>

lemma probe_finds:
  assumes inv: "slots_inv ch s" and j: "0 < j" "j < length (h_slot s)" "h_slot s ! j = None"
  shows "\<exists>h. register_probe (h_slot s) (h_index s) (length (h_slot s)) = Some h \<and> 0 < h \<and>
    h \<le> HANDLE_MASK \<and> h_slot s ! slot_hash (h_slot s) h = None"
proof -
  obtain k where k: "k \<le> 24" "length (h_slot s) = 2 ^ k" using inv by (auto simp: slots_inv_def)
  have x: "1 \<le> unat (h_index s)" "unat (h_index s) \<le> 2 ^ 24" using inv by (auto simp: slots_inv_def)
  note p = register_probe_spec [OF x k(2), of "length (h_slot s)"]
  show ?thesis
  proof (cases "register_probe (h_slot s) (h_index s) (length (h_slot s))")
    case None
    obtain i where "i < 2 ^ k" "cyc (unat (h_index s) + i) mod 2 ^ k = j"
      using cyc_covers [OF k(1) x(1), of j] j(1,2) k(2) by auto
    then show ?thesis using p None j(3) k(2) by fastforce
  next
    case (Some h)
    then show ?thesis using p by simp
  qed
qed

lemma register_step:
  assumes inv: "slots_inv ch s" and fresh: "ctx \<notin> live s"
    and h: "0 < h" "h \<le> HANDLE_MASK" "h_slot s ! slot_hash (h_slot s) h = None"
  defines "h' \<equiv> h OR h_harbor s"
    and "s' \<equiv> s\<lparr>h_slot := (h_slot s)[slot_hash (h_slot s) h := Some ctx], h_index := h + 1\<rparr>"
  shows "slots_inv (ch(ctx := h')) s'" "live s' = insert ctx (live s)" "handle_ok s h'"
    "skynet_handle_grab ch s h' = None"
proof -
  obtain k where k: "2 \<le> k" "k \<le> 24" "length (h_slot s) = 2 ^ k" using inv by (auto simp: slots_inv_def)
  let ?i = "slot_hash (h_slot s) h"
  have i: "?i < length (h_slot s)" by (rule slot_hash_less [OF k(3)])
  have hb: "h_harbor s AND HANDLE_MASK = 0" using inv by (simp add: slots_inv_def)
  have hi: "slot_hash (h_slot s) h' = ?i"
    unfolding slot_hash_mod [OF k(3)] k(3) h'_def by (rule unat_or_harbor [OF h(2) hb k(2)])
  show ok: "handle_ok s h'" using h by (auto simp: handle_ok_def h'_def)
  have u: "unat (h + 1) = Suc (unat h)" using mask_le [of h] h(2) by (simp add: unat_word_ariths)
  have ne: "ctx \<noteq> c" if "h_slot s ! j = Some c" "j < length (h_slot s)" for j c
    using fresh that by (auto simp: live_def in_set_conv_nth)
  show "slots_inv (ch(ctx := h')) s'"
    using inv k ok hi i ne u mask_le [of h] h(2)
    unfolding slots_inv_def s'_def
    by (auto simp: nth_list_update handle_ok_def)
  show "live s' = insert ctx (live s)"
    using i h(3) by (auto simp: live_def s'_def in_set_conv_nth nth_list_update) force+
  show "skynet_handle_grab ch s h' = None"
    unfolding skynet_handle_grab_def hi h(3) by simp
qed

lemma register_spec:
  assumes inv: "slots_inv ch s" and fresh: "ctx \<notin> live s"
    and room: "length (h_slot s) < 2 ^ 24 \<or> (\<exists>j<length (h_slot s). 0 < j \<and> h_slot s ! j = None)"
  shows "\<exists>s' h. skynet_handle_register ch s ctx = Some (s', h) \<and> slots_inv (ch(ctx := h)) s' \<and>
    live s' = insert ctx (live s) \<and> handle_ok s h \<and> skynet_handle_grab ch s h = None \<and>
    h_harbor s' = h_harbor s \<and> h_name s' = h_name s \<and> h_name_count s' = h_name_count s"
proof -
  have found: ?thesis
    if "register_probe (h_slot s) (h_index s) (length (h_slot s)) = Some h" "0 < h" "h \<le> HANDLE_MASK"
      "h_slot s ! slot_hash (h_slot s) h = None" for h
    using register_step [OF inv fresh that(2-4)] that(1)
    by (subst skynet_handle_register.simps) simp
  show ?thesis
  proof (cases "register_probe (h_slot s) (h_index s) (length (h_slot s))")
    case (Some h)
    have x: "1 \<le> unat (h_index s)" "unat (h_index s) \<le> 2 ^ 24" using inv by (auto simp: slots_inv_def)
    obtain k where k: "length (h_slot s) = 2 ^ k" using inv by (auto simp: slots_inv_def)
    show ?thesis
      using found [OF Some] register_probe_spec [OF x k, of "length (h_slot s)"] Some by simp
  next
    case None
    have full: "\<forall>j<length (h_slot s). 0 < j \<longrightarrow> h_slot s ! j \<noteq> None"
    proof (intro allI impI notI)
      fix j assume j: "j < length (h_slot s)" "0 < j" "h_slot s ! j = None"
      show False using probe_finds [OF inv j(2,1,3)] None by simp
    qed
    then have small: "length (h_slot s) < 2 ^ 24" using room by blast
    obtain new where new: "rehash ch (h_slot s) = Some new" "length new = length (h_slot s) * 2"
      "slots_inv ch (s\<lparr>h_slot := new\<rparr>)" "live (s\<lparr>h_slot := new\<rparr>) = live s"
      using rehash_spec [OF inv small] by blast
    let ?s1 = "s\<lparr>h_slot := new\<rparr>"
    have gr: "skynet_handle_grab ch ?s1 h = skynet_handle_grab ch s h" for h
      by (rule option_eqI) (simp only: grab_iff [OF new(3)] grab_iff [OF inv] new(4))
    have "\<exists>j<length new. 0 < j \<and> new ! j = None"
    proof (rule ccontr)
      assume no: "\<not> (\<exists>j<length new. 0 < j \<and> new ! j = None)"
      then have all: "\<forall>j<length new. 0 < j \<longrightarrow> new ! j \<noteq> None" by auto
      have "{0<..<length new} \<subseteq> (\<lambda>c. slot_hash new (ch c)) ` live s"
      proof
        fix j assume "j \<in> {0<..<length new}"
        then obtain c where c: "j < length new" "new ! j = Some c" using all by auto
        then have "slot_hash new (ch c) = j" using new(3) by (auto simp: slots_inv_def)
        moreover have "c \<in> live ?s1" using c by (auto simp: live_def in_set_conv_nth)
        ultimately show "j \<in> (\<lambda>c. slot_hash new (ch c)) ` live s" using new(4) by auto
      qed
      moreover have fin: "finite (live s)" "card (live s) \<le> length (h_slot s)"
      proof -
        have "live s = the ` (set (h_slot s) - {None})" by (force simp: live_def)
        moreover have "card (set (h_slot s) - {None}) \<le> length (h_slot s)"
          by (metis List.finite_set card_Diff1_le card_length le_trans)
        ultimately show "finite (live s)" "card (live s) \<le> length (h_slot s)"
          using card_image_le [of "set (h_slot s) - {None}" the] by auto
      qed
      ultimately have "card {0<..<length new} \<le> length (h_slot s)"
        using surj_card_le [of "live s" "{0<..<length new}" "\<lambda>c. slot_hash new (ch c)"] by simp
      moreover have "length (h_slot s) \<ge> 2 ^ 2"
      proof -
        obtain k where "2 \<le> k" "length (h_slot s) = 2 ^ k" using inv by (auto simp: slots_inv_def)
        then show ?thesis using power_increasing [of 2 k "2 :: nat"] by simp
      qed
      ultimately show False using new(2) by simp
    qed
    then obtain h where h: "register_probe new (h_index s) (length new) = Some h" "0 < h"
      "h \<le> HANDLE_MASK" "new ! slot_hash new h = None"
      using probe_finds [OF new(3)] by auto
    have fresh1: "ctx \<notin> live ?s1" unfolding new(4) by (rule fresh)
    have "skynet_handle_register ch ?s1 ctx =
        Some (?s1\<lparr>h_slot := new[slot_hash new h := Some ctx], h_index := h + 1\<rparr>, h OR h_harbor s)"
      using h(1) by (subst skynet_handle_register.simps) simp
    then have "skynet_handle_register ch s ctx =
        Some (?s1\<lparr>h_slot := new[slot_hash new h := Some ctx], h_index := h + 1\<rparr>, h OR h_harbor s)"
      using None new(1) by (subst skynet_handle_register.simps) simp
    then show ?thesis
      using register_step [OF new(3) fresh1, of h] h(2-4) gr new(4) by (simp add: handle_ok_def)
  qed
qed


text \<open>The three ways through the loop.\<close>

lemma register_found:
  "register_probe (h_slot s) (h_index s) (length (h_slot s)) = Some h \<Longrightarrow>
     skynet_handle_register ch s ctx =
       Some (s\<lparr>h_slot := (h_slot s)[slot_hash (h_slot s) h := Some ctx], h_index := h + 1\<rparr>, h OR h_harbor s)"
  by (subst skynet_handle_register.simps) simp

lemma register_rehash:
  "register_probe (h_slot s) (h_index s) (length (h_slot s)) = None \<Longrightarrow>
     rehash ch (h_slot s) = Some new \<Longrightarrow>
     skynet_handle_register ch s ctx = skynet_handle_register ch (s\<lparr>h_slot := new\<rparr>) ctx"
  by (subst skynet_handle_register.simps) simp

lemma register_assert:
  "register_probe (h_slot s) (h_index s) (length (h_slot s)) = None \<Longrightarrow>
     rehash ch (h_slot s) = None \<Longrightarrow> skynet_handle_register ch s ctx = None"
  by (subst skynet_handle_register.simps) simp

section \<open>Retiring\<close>

lemma retire_miss:
  "skynet_handle_grab ch s h = None \<Longrightarrow> skynet_handle_retire ch s h = (s, 0, None)"
  by (auto simp: skynet_handle_grab_def skynet_handle_retire_def Let_def split: option.splits if_splits)

lemma retire_hit:
  assumes inv: "slots_inv ch s" "names_inv s" and g: "skynet_handle_grab ch s h = Some c"
  shows "\<exists>s'. skynet_handle_retire ch s h = (s', 1, Some c) \<and> slots_inv ch s' \<and> names_inv s' \<and>
    h_slot s' = (h_slot s)[slot_hash (h_slot s) h := None] \<and>
    skynet_handle_grab ch s' = (skynet_handle_grab ch s)(h := None) \<and>
    names_of s' = filter (\<lambda>x. hn_handle x \<noteq> h) (names_of s)"
proof -
  let ?i = "slot_hash (h_slot s) h"
  obtain k where "length (h_slot s) = 2 ^ k" using inv(1) by (auto simp: slots_inv_def)
  then have il: "?i < length (h_slot s)" by (rule slot_hash_less)
  have c: "h_slot s ! ?i = Some c" "ch c = h"
    using g by (auto simp: skynet_handle_grab_def split: option.splits if_splits)
  obtain names j where nj: "compact_names (h_name s) h (h_name_count s) 0 0 = (names, j)"
    by (cases "compact_names (h_name s) h (h_name_count s) 0 0")
  have cs: "length names = length (h_name s)" "j \<le> h_name_count s"
    "take j names = filter (\<lambda>x. hn_handle x \<noteq> h) (names_of s)"
    using compact_names_spec [of 0 0 "h_name_count s" "h_name s" h] inv(2) nj
    by (auto simp: names_inv_def names_of_def)
  let ?s' = "s\<lparr>h_slot := (h_slot s)[?i := None], h_name := names, h_name_count := j\<rparr>"
  have r: "skynet_handle_retire ch s h = (?s', 1, Some c)"
    using c nj by (simp add: skynet_handle_retire_def Let_def)
  have n': "names_of ?s' = filter (\<lambda>x. hn_handle x \<noteq> h) (names_of s)" using cs by (simp add: names_of_def)
  have "sorted_wrt (<) (map hn_name (filter (\<lambda>x. hn_handle x \<noteq> h) (names_of s)))"
    using inv(2) unfolding names_inv_def sorted_wrt_map by (auto intro: sorted_wrt_filter)
  then have ni: "names_inv ?s'" using inv(2) cs n' by (auto simp: names_inv_def)
  have lv: "d \<in> live ?s' \<longleftrightarrow> d \<in> live s \<and> d \<noteq> c" for d
  proof -
    have "d \<in> live ?s' \<longleftrightarrow> (\<exists>j<length (h_slot s). j \<noteq> ?i \<and> h_slot s ! j = Some d)"
      using il by (auto simp: live_def in_set_conv_nth nth_list_update) (metis (no_types))
    also have "\<dots> \<longleftrightarrow> d \<in> live s \<and> d \<noteq> c"
      using inv(1) c by (auto simp: live_def in_set_conv_nth slots_inv_def)
    finally show ?thesis .
  qed
  have "handle_ok ?s' x = handle_ok s x" for x by (simp add: handle_ok_def)
  then have si: "slots_inv ch ?s'" using inv(1) il by (auto simp: slots_inv_def nth_list_update)
  have "skynet_handle_grab ch ?s' x = ((skynet_handle_grab ch s)(h := None)) x" for x
  proof (rule option_eqI)
    fix d
    have eq: "d \<in> live s \<and> ch d = h \<longleftrightarrow> d = c" using grab_iff [OF inv(1), of h d] g by auto
    show "skynet_handle_grab ch ?s' x = Some d \<longleftrightarrow> ((skynet_handle_grab ch s)(h := None)) x = Some d"
    proof (cases "x = h")
      case True
      then show ?thesis using grab_iff [OF si, of h d] lv [of d] eq by simp blast
    next
      case False
      then show ?thesis using grab_iff [OF si, of x d] grab_iff [OF inv(1), of x d] lv [of d] c(2) by auto
    qed
  qed
  then show ?thesis using r si ni n' by (intro exI [of _ ?s']) auto
qed

lemma handle_ok_nonzero: "handle_ok s h \<Longrightarrow> h \<noteq> 0"
  by (auto simp: handle_ok_def or_eq_0_iff)

lemma retire_pass_spec:
  assumes "slots_inv ch s" "names_inv s" "i \<le> length (h_slot s)" "\<forall>j<i. h_slot s ! j = None"
  shows "\<exists>s' cs. retire_pass ch s i n out = (s', n + length cs, out @ cs) \<and>
    cs = map the (filter (\<lambda>x. x \<noteq> None) (drop i (h_slot s))) \<and>
    slots_inv ch s' \<and> names_inv s' \<and> live s' = {}"
  using assms
proof (induction "length (h_slot s) - i" arbitrary: s i n out)
  case 0
  then have "set (h_slot s) \<subseteq> {None}" by (auto simp: in_set_conv_nth)
  then have "live s = {}" by (auto simp: live_def)
  then show ?case using 0 by (subst retire_pass.simps) auto
next
  case (Suc d)
  have i: "i < length (h_slot s)" using Suc.hyps(2) by simp
  have dr: "drop i (h_slot s) = h_slot s ! i # drop (Suc i) (h_slot s)" using i by (simp add: Cons_nth_drop_Suc)
  show ?case
  proof (cases "h_slot s ! i")
    case None
    have "\<forall>j<Suc i. h_slot s ! j = None" using None Suc.prems(4) by (auto simp: less_Suc_eq)
    then show ?thesis
      using Suc.hyps(1) [of s "Suc i" n out] Suc.hyps(2) Suc.prems None i
      by (subst retire_pass.simps) (simp add: dr)
  next
    case (Some ctx)
    have lv: "ctx \<in> live s" using Some i nth_mem by (force simp: live_def)
    have nz: "ch ctx \<noteq> 0" using slots_invD(1) [OF Suc.prems(1) lv] by (rule handle_ok_nonzero)
    have h: "slot_hash (h_slot s) (ch ctx) = i" using Suc.prems(1) Some i by (auto simp: slots_inv_def)
    have g: "skynet_handle_grab ch s (ch ctx) = Some ctx" using grab_iff [OF Suc.prems(1)] lv by simp
    obtain s1 where s1: "skynet_handle_retire ch s (ch ctx) = (s1, 1, Some ctx)" "slots_inv ch s1"
      "names_inv s1" "h_slot s1 = (h_slot s)[i := None]"
      using retire_hit [OF Suc.prems(1,2) g] h by auto
    have "\<forall>j<Suc i. h_slot s1 ! j = None" using s1(4) Suc.prems(4) i by (auto simp: less_Suc_eq)
    moreover have "drop (Suc i) (h_slot s1) = drop (Suc i) (h_slot s)" using s1(4) by simp
    ultimately show ?thesis
      using Suc.hyps(1) [of s1 "Suc i" "Suc n" "out @ [ctx]"] Suc.hyps(2) Suc.prems Some i s1 nz
      by (subst retire_pass.simps) (auto simp: dr)
  qed
qed

lemma retireall_spec:
  assumes inv: "slots_inv ch s" "names_inv s"
  shows "\<exists>s'. skynet_handle_retireall ch s out =
      Some (s', out @ map the (filter (\<lambda>x. x \<noteq> None) (h_slot s))) \<and> live s' = {}"
proof -
  have last: "skynet_handle_retireall ch s1 out = Some (fst (retire_pass ch s1 0 0 out), out) \<and>
      live (fst (retire_pass ch s1 0 0 out)) = {}"
    if i1: "slots_inv ch s1" "names_inv s1" and l1: "live s1 = {}" for s1 out
  proof -
    have "filter (\<lambda>x. x \<noteq> None) (h_slot s1) = []" using l1 by (auto simp: live_def filter_empty_conv) (metis not_None_eq)
    then obtain s' where "retire_pass ch s1 0 0 out = (s', 0, out)" "live s' = {}"
      using retire_pass_spec [OF i1, of 0 0 out] by auto
    then show ?thesis by (subst skynet_handle_retireall.simps) simp
  qed
  obtain s1 cs where p: "retire_pass ch s 0 0 out = (s1, length cs, out @ cs)"
    "cs = map the (filter (\<lambda>x. x \<noteq> None) (h_slot s))" "slots_inv ch s1" "names_inv s1" "live s1 = {}"
    using retire_pass_spec [OF inv, of 0 0 out] by auto
  show ?thesis
  proof (cases "cs = []")
    case True
    then show ?thesis using p by (subst skynet_handle_retireall.simps) simp
  next
    case False
    then have "skynet_handle_retireall ch s out = skynet_handle_retireall ch s1 (out @ cs)"
      using p(1) by (subst skynet_handle_retireall.simps) simp
    then show ?thesis using last [OF p(3-5), of "out @ cs"] p(2) by auto
  qed
qed

lemma handle_init_inv:
  "slots_inv ch (skynet_handle_init hb)" "names_inv (skynet_handle_init hb)" "live (skynet_handle_init hb) = {}"
proof -
  have "push_bit 24 (x AND 0xff) AND HANDLE_MASK = 0" for x :: u32
    by (rule bit_word_eqI) (auto simp: HANDLE_MASK_mask bit_simps)
  moreover have "\<exists>k. 2 \<le> k \<and> k \<le> 24 \<and> (4 :: nat) = 2 ^ k" by (rule exI [of _ 2]) simp
  ultimately show "slots_inv ch (skynet_handle_init hb)"
    by (simp add: slots_inv_def skynet_handle_init_def DEFAULT_SLOT_SIZE_def HANDLE_REMOTE_SHIFT_def)
  show "names_inv (skynet_handle_init hb)" by (simp add: names_inv_def names_of_def skynet_handle_init_def)
  show "live (skynet_handle_init hb) = {}" by (simp add: live_def skynet_handle_init_def)
qed

section \<open>Properties\<close>

text \<open>C14: registering a service. Unless all \<open>2 ^ 24 - 1\<close> handles are taken, \<open>register\<close> fails no
  assert, also when it has to rehash; it returns a handle of this harbor, different from 0, that no
  running service has. Once the caller has stored it in the context, looking it up finds the new
  service and every other handle finds what it found before.\<close>

theorem handle_register_grab:
  assumes "slots_inv ch s" and "ctx \<notin> live s"
    and "length (h_slot s) < 2 ^ 24 \<or> (\<exists>j<length (h_slot s). 0 < j \<and> h_slot s ! j = None)"
  shows "\<exists>s' h. skynet_handle_register ch s ctx = Some (s', h) \<and> slots_inv (ch(ctx := h)) s' \<and>
    h \<noteq> 0 \<and> h AND NOT HANDLE_MASK = h_harbor s \<and> skynet_handle_grab ch s h = None \<and>
    skynet_handle_grab (ch(ctx := h)) s' = (skynet_handle_grab ch s)(h \<mapsto> ctx)"
proof -
  obtain s' h where r: "skynet_handle_register ch s ctx = Some (s', h)" "slots_inv (ch(ctx := h)) s'"
    "live s' = insert ctx (live s)" "handle_ok s h" "skynet_handle_grab ch s h = None"
    using register_spec [OF assms] by blast
  have "skynet_handle_grab (ch(ctx := h)) s' x = ((skynet_handle_grab ch s)(h \<mapsto> ctx)) x" for x
  proof (rule option_eqI)
    fix d
    have "\<not> (d \<in> live s \<and> ch d = h)" using r(5) grab_iff [OF assms(1), of h d] by simp
    then show "skynet_handle_grab (ch(ctx := h)) s' x = Some d \<longleftrightarrow>
        ((skynet_handle_grab ch s)(h \<mapsto> ctx)) x = Some d"
      using grab_iff [OF r(2), of x d] grab_iff [OF assms(1), of x d] r(3) assms(2)
      by (cases "d = ctx") auto
  qed
  moreover have "h AND NOT HANDLE_MASK = h_harbor s"
  proof -
    obtain l where l: "l \<le> HANDLE_MASK" "h = l OR h_harbor s" using r(4) by (auto simp: handle_ok_def)
    have "unat (l AND mask 24) = unat l" using l(1) mask_le [of l] by (simp add: unat_and_mask)
    then have lm: "l AND mask 24 = l" by (simp add: word_unat_eq_iff)
    have hm: "h_harbor s AND mask 24 = 0" using assms(1) by (simp add: slots_inv_def HANDLE_MASK_mask)
    show ?thesis unfolding l(2) HANDLE_MASK_mask
    proof (rule bit_word_eqI)
      fix n assume "n < LENGTH(32)"
      then show "bit ((l OR h_harbor s) AND NOT (mask 24)) n = bit (h_harbor s) n"
        using arg_cong [OF lm, of "\<lambda>w. bit w n"] arg_cong [OF hm, of "\<lambda>w. bit w n"]
        by (auto simp: bit_simps)
    qed
  qed
  ultimately show ?thesis using r handle_ok_nonzero [OF r(4)] by (intro exI conjI) (auto simp: fun_eq_iff)
qed

definition demo_handles :: handle_storage where
  "demo_handles = skynet_handle_init 5"

lemma handle_register_grab_witness:
  "\<exists>s' h. skynet_handle_register (\<lambda>_. 0) demo_handles 9 = Some (s', h) \<and>
     skynet_handle_grab ((\<lambda>_. 0)(9 := h)) s' h = Some 9"
proof -
  have "length (h_slot demo_handles) < 2 ^ 24"
    by (simp add: demo_handles_def skynet_handle_init_def DEFAULT_SLOT_SIZE_def)
  then show ?thesis
    using handle_register_grab [of "\<lambda>_. 0" demo_handles 9] handle_init_inv(1) [of "\<lambda>_. 0" 5] handle_init_inv(2,3) [of 5]
    by (auto simp: demo_handles_def)
qed

text \<open>retiring a handle. \<open>retire\<close> of a running service gives its context back for release,
  afterwards the handle finds nothing, every other handle finds what it found before, and exactly
  the names of the handle are gone; retiring an unknown handle changes nothing.\<close>

theorem handle_retire_grab:
  assumes "slots_inv ch s" and "names_inv s"
  shows "\<exists>s' r. skynet_handle_retire ch s h = (s', r, skynet_handle_grab ch s h) \<and>
    slots_inv ch s' \<and> names_inv s' \<and>
    skynet_handle_grab ch s' = (skynet_handle_grab ch s)(h := None) \<and>
    (skynet_handle_grab ch s h \<noteq> None \<longrightarrow>
       r = 1 \<and> (\<forall>nm. name_map s' nm = (if name_map s nm = Some h then None else name_map s nm))) \<and>
    (skynet_handle_grab ch s h = None \<longrightarrow> r = 0 \<and> s' = s)"
proof (cases "skynet_handle_grab ch s h")
  case None
  then show ?thesis using assms retire_miss [OF None] by (simp add: fun_upd_idem)
next
  case (Some c)
  obtain s' where s': "skynet_handle_retire ch s h = (s', 1, Some c)" "slots_inv ch s'" "names_inv s'"
    "skynet_handle_grab ch s' = (skynet_handle_grab ch s)(h := None)"
    "names_of s' = filter (\<lambda>x. hn_handle x \<noteq> h) (names_of s)"
    using retire_hit [OF assms Some] by blast
  have "name_map s' nm = (if name_map s nm = Some h then None else name_map s nm)" for nm
    unfolding name_map_def s'(5) using map_of_filter_names [OF names_distinct [OF assms(2)], of h nm] by (simp add: Let_def)
  then show ?thesis using s' Some by simp
qed

lemma handle_retire_grab_witness:
  "\<exists>r. skynet_handle_retire (\<lambda>_. 0) demo_handles 3 = (demo_handles, r, skynet_handle_grab (\<lambda>_. 0) demo_handles 3)"
proof -
  have "skynet_handle_grab (\<lambda>_. 0) demo_handles 3 = None"
    using grab_iff [OF handle_init_inv(1), of "\<lambda>_. 0" 5 3] handle_init_inv(3) [of 5]
    by (auto simp: demo_handles_def intro: option_eqI)
  then show ?thesis
    using handle_retire_grab [of "\<lambda>_. 0" demo_handles 3] handle_init_inv(1) [of "\<lambda>_. 0" 5] handle_init_inv(2,3) [of 5]
    by (auto simp: demo_handles_def)
qed

text \<open>C34: the sorted name array implements a map. Searching by bisection finds exactly the handle
  bound to the name (0 when there is none); naming a handle binds a free name, keeps the array
  sorted, and refuses a name that is taken without changing anything.\<close>

theorem handle_names:
  assumes "names_inv s" and "int (h_name_count s) * 2 \<le> MAX_SLOT_SIZE"
  shows "skynet_handle_findname s nm' = (case name_map s nm' of None \<Rightarrow> 0 | Some h' \<Rightarrow> h') \<and>
    (\<exists>s' r. skynet_handle_namehandle s h nm = Some (s', r) \<and> names_inv s' \<and>
      (if name_map s nm = None then r = Some nm \<and> name_map s' = (name_map s)(nm \<mapsto> h)
       else r = None \<and> s' = s))"
  using findname_map [OF assms(1)] namehandle_spec [OF assms] by blast

lemma handle_names_witness:
  "\<exists>s'. skynet_handle_namehandle demo_handles 7 ''db'' = Some (s', Some ''db'') \<and>
     name_map s' ''db'' = Some 7"
proof -
  have "name_map demo_handles = Map.empty" "h_name_count demo_handles = 0"
    by (simp_all add: name_map_def names_of_def demo_handles_def skynet_handle_init_def)
  then show ?thesis
    using handle_names [of demo_handles "''db''" 7 "''db''"] handle_init_inv(2) [of 5]
    by (auto simp: demo_handles_def MAX_SLOT_SIZE_def)
qed

text \<open>\<open>skynet_handle_retireall\<close> ends and retires every service once: it gives back exactly the
  contexts that were running, each once, in slot order, and leaves an empty table.\<close>

theorem handle_retireall:
  assumes "slots_inv ch s" and "names_inv s"
  shows "\<exists>s' cs. skynet_handle_retireall ch s [] = Some (s', cs) \<and> live s' = {} \<and>
    distinct cs \<and> set cs = live s"
proof -
  let ?cs = "map the (filter (\<lambda>x. x \<noteq> None) (h_slot s))"
  have "distinct ?cs" unfolding distinct_map
    using slots_distinct [OF assms(1)] by (auto intro!: inj_onI)
  moreover have "set ?cs = live s" by (force simp: live_def)
  ultimately show ?thesis using retireall_spec [OF assms, of "[]"] by auto
qed

lemma handle_retireall_witness:
  "\<exists>s'. skynet_handle_retireall (\<lambda>_. 0) demo_handles [] = Some (s', [])"
  using handle_retireall [of "\<lambda>_. 0" demo_handles] handle_init_inv(1) [of "\<lambda>_. 0" 5] handle_init_inv(2,3) [of 5]
  by (auto simp: demo_handles_def)

text \<open>Registration is not atomic with the store of the handle. \<open>skynet_context_new\<close> stores the
  result of \<open>register\<close> in the context only after the table has been unlocked. Five services are
  registered in the table as it starts; the third still has handle 0 when the fifth comes. That
  registration rehashes it into slot 0, and after its handle 3 has been stored it cannot be found;
  when two of them still have handle 0 the registration fails the assert.\<close>

lemma handle_register_race:
  defines "ch \<equiv> \<lambda>c. if c = 3 then 0 else word_of_nat c"
  shows "\<exists>s1 s2 s3 s4 s5. skynet_handle_register ch (skynet_handle_init 0) 1 = Some (s1, 1) \<and>
     skynet_handle_register ch s1 2 = Some (s2, 2) \<and> skynet_handle_register ch s2 3 = Some (s3, 3) \<and>
     skynet_handle_register ch s3 4 = Some (s4, 4) \<and> skynet_handle_register ch s4 5 = Some (s5, 5) \<and>
     skynet_handle_grab word_of_nat s5 3 = None \<and>
     skynet_handle_register (\<lambda>c. if c = 2 \<or> c = 3 then 0 else word_of_nat c) s4 5 = None"
proof -
  let ?t = "\<lambda>i slots. \<lparr>h_harbor = 0, h_index = i, h_slot = slots, h_name_count = 0, h_name = replicate 2 no_name\<rparr>"
  let ?s1 = "?t 2 [None, Some 1, None, None]" and ?s2 = "?t 3 [None, Some 1, Some 2, None]"
    and ?s3 = "?t 4 [None, Some 1, Some 2, Some 3]" and ?s4 = "?t 5 [Some 4, Some 1, Some 2, Some 3]"
    and ?s4' = "?t 5 [Some 3, Some 1, Some 2, None, Some 4, None, None, None]"
    and ?s5 = "?t 6 [Some 3, Some 1, Some 2, None, Some 4, Some 5, None, None]"
  let ?ch2 = "\<lambda>c. if c = 2 \<or> c = 3 then 0 else word_of_nat c"
  have p: "register_probe (h_slot (skynet_handle_init 0)) (h_index (skynet_handle_init 0)) (length (h_slot (skynet_handle_init 0))) = Some 1"
    "register_probe (h_slot ?s1) (h_index ?s1) (length (h_slot ?s1)) = Some 2"
    "register_probe (h_slot ?s2) (h_index ?s2) (length (h_slot ?s2)) = Some 3"
    "register_probe (h_slot ?s3) (h_index ?s3) (length (h_slot ?s3)) = Some 4" by code_simp+
  have 1: "skynet_handle_register ch (skynet_handle_init 0) 1 = Some (?s1, 1)"
    by (rule trans, rule register_found [OF p(1)]) code_simp
  have 2: "skynet_handle_register ch ?s1 2 = Some (?s2, 2)" by (rule trans, rule register_found [OF p(2)]) code_simp
  have 3: "skynet_handle_register ch ?s2 3 = Some (?s3, 3)" by (rule trans, rule register_found [OF p(3)]) code_simp
  have 4: "skynet_handle_register ch ?s3 4 = Some (?s4, 4)" by (rule trans, rule register_found [OF p(4)]) code_simp
  have full: "register_probe (h_slot ?s4) (h_index ?s4) (length (h_slot ?s4)) = None" by code_simp
  have "rehash ch (h_slot ?s4) = Some (h_slot ?s4')" unfolding ch_def by code_simp
  from register_rehash [OF full this, of 5]
  have "skynet_handle_register ch ?s4 5 = skynet_handle_register ch ?s4' 5" by simp
  also have "register_probe (h_slot ?s4') (h_index ?s4') (length (h_slot ?s4')) = Some 5" by code_simp
  from register_found [OF this, of ch 5]
  have "skynet_handle_register ch ?s4' 5 = Some (?s5, 5)" by (rule trans) code_simp
  finally have 5: "skynet_handle_register ch ?s4 5 = Some (?s5, 5)" .
  have 6: "skynet_handle_grab word_of_nat ?s5 3 = None" by code_simp
  have "rehash ?ch2 (h_slot ?s4) = None" by code_simp
  from register_assert [OF full this] have 7: "skynet_handle_register ?ch2 ?s4 5 = None" .
  from 1 2 3 4 5 6 7 show ?thesis by blast
qed

end
