(* ===== verification/Mq.thy ===== *)
theory Mq
  imports Fifo
begin

text \<open>
  \<open>skynet-src/skynet_mq.c\<close>: the mailbox of a service (a ring buffer that doubles when it is full)
  and the global queue of mailboxes that have work (a linked list through \<open>next\<close>). The first part
  models the operations; the second proves that a mailbox is a FIFO queue; the third is the
  scheduling protocol: who may hold a mailbox, and that no message is left in a mailbox nobody
  will look at.

  Each operation runs under the lock of the mailbox (and of the global queue), so it is one atomic
  step. Mailboxes are objects in a heap; an address is an index, \<open>None\<close> in the heap is a freed
  object. An operation is \<open>None\<close> where the code would fail an assert or touch a freed object.
\<close>

section \<open>State\<close>

definition DEFAULT_QUEUE_SIZE :: int where "DEFAULT_QUEUE_SIZE = 64"
definition MQ_IN_GLOBAL :: int where "MQ_IN_GLOBAL = 1"
definition MQ_OVERLOAD :: int where "MQ_OVERLOAD = 1024"

text \<open>\<open>data\<close> is an address (0 is \<open>NULL\<close>); the type is in the high 8 bits of \<open>sz\<close>.\<close>

record skynet_message =
  m_source :: u32
  m_session :: int
  m_data :: u64
  m_sz :: u64

definition MESSAGE_TYPE_MASK :: u64 where "MESSAGE_TYPE_MASK = drop_bit 8 (-1)"
definition MESSAGE_TYPE_SHIFT :: nat where "MESSAGE_TYPE_SHIFT = (8 - 1) * 8"

record message_queue =
  q_handle :: u32
  q_cap :: int
  q_head :: int
  q_tail :: int
  q_release :: int
  q_in_global :: int
  q_overload :: int
  q_threshold :: int
  q_queue :: "skynet_message list"
  q_next :: "nat option"

record global_queue =
  g_head :: "nat option"
  g_tail :: "nat option"

record mqstate =
  mq_heap :: "message_queue option list"
  gq :: global_queue

definition mq_at :: "mqstate \<Rightarrow> nat \<Rightarrow> message_queue option" where
  "mq_at s p = (if p < length (mq_heap s) then mq_heap s ! p else None)"

definition set_mq :: "mqstate \<Rightarrow> nat \<Rightarrow> message_queue \<Rightarrow> mqstate" where
  "set_mq s p q = s\<lparr>mq_heap := (mq_heap s)[p := Some q]\<rparr>"

section \<open>The global queue\<close>

definition globalmq_push :: "mqstate \<Rightarrow> nat \<Rightarrow> mqstate option" where
  "globalmq_push s p =
     Option.bind (mq_at s p) (\<lambda>q.
       if q_next q \<noteq> None then None
       else case g_tail (gq s) of
         Some t \<Rightarrow>
           Option.bind (mq_at s t) (\<lambda>tq.
             Some ((set_mq s t (tq\<lparr>q_next := Some p\<rparr>))\<lparr>gq := (gq s)\<lparr>g_tail := Some p\<rparr>\<rparr>))
       | None \<Rightarrow> Some (s\<lparr>gq := \<lparr>g_head = Some p, g_tail = Some p\<rparr>\<rparr>))"

definition globalmq_pop :: "mqstate \<Rightarrow> (mqstate \<times> nat option) option" where
  "globalmq_pop s =
     (case g_head (gq s) of
        None \<Rightarrow> Some (s, None)
      | Some p \<Rightarrow>
          Option.bind (mq_at s p) (\<lambda>q.
            let s1 = (set_mq s p (q\<lparr>q_next := None\<rparr>))\<lparr>gq := (gq s)\<lparr>g_head := q_next q\<rparr>\<rparr> in
            if q_next q = None then
              if g_tail (gq s) = Some p
              then Some (s1\<lparr>gq := (gq s1)\<lparr>g_tail := None\<rparr>\<rparr>, Some p)
              else None
            else Some (s1, Some p)))"

definition mq_init :: mqstate where
  "mq_init = \<lparr>mq_heap = [], gq = \<lparr>g_head = None, g_tail = None\<rparr>\<rparr>"

section \<open>One mailbox\<close>

text \<open>The cells that \<open>malloc\<close> returns are uninitialised; no operation reads one before it has
  been written, and any content would do here.\<close>

definition null_message :: skynet_message where
  "null_message = \<lparr>m_source = 0, m_session = 0, m_data = 0, m_sz = 0\<rparr>"

definition mq_create :: "u32 \<Rightarrow> message_queue" where
  "mq_create handle =
     \<lparr>q_handle = handle, q_cap = DEFAULT_QUEUE_SIZE, q_head = 0, q_tail = 0, q_release = 0,
      q_in_global = MQ_IN_GLOBAL, q_overload = 0, q_threshold = MQ_OVERLOAD,
      q_queue = replicate (nat DEFAULT_QUEUE_SIZE) null_message, q_next = None\<rparr>"

definition mq_length :: "message_queue \<Rightarrow> int" where
  "mq_length q =
     (if q_head q \<le> q_tail q then q_tail q - q_head q else q_tail q + q_cap q - q_head q)"

definition mq_overload :: "message_queue \<Rightarrow> message_queue \<times> int" where
  "mq_overload q = (if q_overload q \<noteq> 0 then (q\<lparr>q_overload := 0\<rparr>, q_overload q) else (q, 0))"

partial_function (option) overload_loop :: "int \<Rightarrow> int \<Rightarrow> int \<Rightarrow> (int \<times> int) option" where
  "overload_loop len ov th = (if len > th then overload_loop len len (th * 2) else Some (ov, th))"

definition mq_pop :: "message_queue \<Rightarrow> (message_queue \<times> skynet_message option) option" where
  "mq_pop q =
     (if q_head q \<noteq> q_tail q then
        if 0 \<le> q_head q \<and> nat (q_head q) < length (q_queue q) then
          let m = q_queue q ! nat (q_head q);
              head = (if q_head q + 1 \<ge> q_cap q then 0 else q_head q + 1);
              len = (if q_tail q - head < 0 then q_tail q - head + q_cap q else q_tail q - head)
          in Option.bind (overload_loop len (q_overload q) (q_threshold q)) (\<lambda>(ov, th).
               Some (q\<lparr>q_head := head, q_overload := ov, q_threshold := th\<rparr>, Some m))
        else None
      else Some (q\<lparr>q_threshold := MQ_OVERLOAD, q_in_global := 0\<rparr>, None))"

text \<open>Doubling \<open>cap\<close> beyond \<open>INT_MAX\<close> is undefined behaviour.\<close>

definition expand_queue :: "message_queue \<Rightarrow> message_queue option" where
  "expand_queue q =
     (if is_i32 (q_cap q * 2) then
        Some (q\<lparr>q_head := 0, q_tail := q_cap q, q_cap := q_cap q * 2,
                q_queue := map (\<lambda>i. q_queue q ! nat ((q_head q + int i) mod q_cap q)) [0..<nat (q_cap q)]
                           @ replicate (nat (q_cap q)) null_message\<rparr>)
      else None)"

definition mq_push_ring :: "message_queue \<Rightarrow> skynet_message \<Rightarrow> message_queue option" where
  "mq_push_ring q m =
     (if 0 \<le> q_tail q \<and> nat (q_tail q) < length (q_queue q) then
        let q1 = q\<lparr>q_queue := (q_queue q)[nat (q_tail q) := m],
                   q_tail := (if q_tail q + 1 \<ge> q_cap q then 0 else q_tail q + 1)\<rparr>
        in if q_head q1 = q_tail q1 then expand_queue q1 else Some q1
      else None)"

section \<open>Operations on the heap of mailboxes\<close>

definition skynet_mq_create :: "mqstate \<Rightarrow> u32 \<Rightarrow> mqstate \<times> nat" where
  "skynet_mq_create s handle =
     (s\<lparr>mq_heap := mq_heap s @ [Some (mq_create handle)]\<rparr>, length (mq_heap s))"

definition skynet_mq_pop :: "mqstate \<Rightarrow> nat \<Rightarrow> (mqstate \<times> skynet_message option) option" where
  "skynet_mq_pop s p =
     Option.bind (mq_at s p) (\<lambda>q. Option.bind (mq_pop q) (\<lambda>(q', m). Some (set_mq s p q', m)))"

definition skynet_mq_push :: "mqstate \<Rightarrow> nat \<Rightarrow> skynet_message \<Rightarrow> mqstate option" where
  "skynet_mq_push s p m =
     Option.bind (mq_at s p) (\<lambda>q. Option.bind (mq_push_ring q m) (\<lambda>q1.
       if q_in_global q1 = 0
       then globalmq_push (set_mq s p (q1\<lparr>q_in_global := MQ_IN_GLOBAL\<rparr>)) p
       else Some (set_mq s p q1)))"

definition skynet_mq_mark_release :: "mqstate \<Rightarrow> nat \<Rightarrow> mqstate option" where
  "skynet_mq_mark_release s p =
     Option.bind (mq_at s p) (\<lambda>q.
       if q_release q \<noteq> 0 then None
       else let s1 = set_mq s p (q\<lparr>q_release := 1\<rparr>) in
         if q_in_global q \<noteq> MQ_IN_GLOBAL then globalmq_push s1 p else Some s1)"

definition mq_free :: "mqstate \<Rightarrow> nat \<Rightarrow> mqstate option" where
  "mq_free s p =
     Option.bind (mq_at s p) (\<lambda>q.
       if q_next q \<noteq> None then None else Some (s\<lparr>mq_heap := (mq_heap s)[p := None]\<rparr>))"

text \<open>\<open>_drop_queue\<close>; the result also has the messages given to \<open>drop_func\<close>, in order.\<close>

partial_function (option) drop_queue ::
  "mqstate \<Rightarrow> nat \<Rightarrow> skynet_message list \<Rightarrow> (mqstate \<times> skynet_message list) option" where
  "drop_queue s p dropped =
     Option.bind (skynet_mq_pop s p) (\<lambda>(s', m).
       case m of
         Some msg \<Rightarrow> drop_queue s' p (dropped @ [msg])
       | None \<Rightarrow> Option.bind (mq_free s' p) (\<lambda>s''. Some (s'', dropped)))"

definition skynet_mq_release :: "mqstate \<Rightarrow> nat \<Rightarrow> (mqstate \<times> skynet_message list) option" where
  "skynet_mq_release s p =
     Option.bind (mq_at s p) (\<lambda>q.
       if q_release q \<noteq> 0 then drop_queue s p []
       else Option.bind (globalmq_push s p) (\<lambda>s'. Some (s', [])))"

section \<open>A mailbox is a FIFO queue\<close>

definition mq_items :: "message_queue \<Rightarrow> skynet_message list" where
  "mq_items q = ring_list (q_queue q) (nat (q_head q)) (nat ((q_tail q - q_head q) mod q_cap q))"

definition mq_wf :: "message_queue \<Rightarrow> bool" where
  "mq_wf q \<longleftrightarrow>
     (\<exists>k\<le>30. q_cap q = 2 ^ k) \<and> int (length (q_queue q)) = q_cap q \<and>
     0 \<le> q_head q \<and> q_head q < q_cap q \<and> 0 \<le> q_tail q \<and> q_tail q < q_cap q \<and> 0 < q_threshold q"

definition mq_limit :: nat where "mq_limit = 2 ^ 30 - 1"

lemma mq_create_wf: "mq_wf (mq_create h)" "mq_items (mq_create h) = []"
proof -
  have "\<exists>k\<le>30. (64::int) = 2 ^ k" by (rule exI [of _ 6]) simp
  then show "mq_wf (mq_create h)"
    by (simp add: mq_wf_def mq_create_def DEFAULT_QUEUE_SIZE_def MQ_OVERLOAD_def)
  show "mq_items (mq_create h) = []" by (simp add: mq_items_def mq_create_def)
qed

lemma mod_minus_cases:
  assumes "0 \<le> h" "h < c" "0 \<le> t" "t < (c :: int)"
  shows "(t - h) mod c = (if h \<le> t then t - h else t - h + c)"
proof (cases "h \<le> t")
  case True
  then show ?thesis using assms by (simp add: mod_pos_pos_trivial)
next
  case False
  then have "(t - h) mod c = (t - h + c) mod c" by simp
  also have "\<dots> = t - h + c" using False assms by (intro mod_pos_pos_trivial) auto
  finally show ?thesis using False by simp
qed

lemma mq_length_items: "mq_wf q \<Longrightarrow> mq_length q = int (length (mq_items q))"
  by (simp add: mq_wf_def mq_length_def mq_items_def mod_minus_cases)

lemma mq_items_Nil_iff: "mq_wf q \<Longrightarrow> mq_items q = [] \<longleftrightarrow> q_head q = q_tail q"
  using mq_length_items [of q] by (auto simp: mq_wf_def mq_length_def split: if_splits)

lemma overload_loop_total:
  assumes "0 < th"
  shows "\<exists>ov' th'. overload_loop len ov th = Some (ov', th') \<and> 0 < th' \<and> len \<le> th'"
  using assms
proof (induction "nat (len - th)" arbitrary: ov th rule: less_induct)
  case less
  show ?case
  proof (cases "len > th")
    case True
    have "nat (len - th * 2) < nat (len - th)" using True less.prems by simp
    from less.hyps [OF this, of len] less.prems show ?thesis
      using True by (subst overload_loop.simps) simp
  next
    case False
    then show ?thesis using less.prems by (subst overload_loop.simps) simp
  qed
qed

lemma mq_pop_empty:
  assumes "mq_wf q" "mq_items q = []"
  shows "mq_pop q = Some (q\<lparr>q_threshold := MQ_OVERLOAD, q_in_global := 0\<rparr>, None)"
  using assms by (simp add: mq_items_Nil_iff mq_pop_def)

lemma mq_pop_Cons:
  assumes wf: "mq_wf q" and i: "mq_items q = m # ms"
  shows "\<exists>h ov th. mq_pop q = Some (q\<lparr>q_head := h, q_overload := ov, q_threshold := th\<rparr>, Some m) \<and>
           mq_wf (q\<lparr>q_head := h, q_overload := ov, q_threshold := th\<rparr>) \<and>
           mq_items (q\<lparr>q_head := h, q_overload := ov, q_threshold := th\<rparr>) = ms"
proof -
  have ne: "q_head q \<noteq> q_tail q" using mq_items_Nil_iff [OF wf] i by simp
  let ?h = "if q_head q + 1 \<ge> q_cap q then 0 else q_head q + 1"
  let ?len = "if q_tail q - ?h < 0 then q_tail q - ?h + q_cap q else q_tail q - ?h"
  have b: "0 \<le> q_head q" "q_head q < q_cap q" "0 \<le> q_tail q" "q_tail q < q_cap q"
    "length (q_queue q) = nat (q_cap q)" "0 < q_threshold q"
    using wf by (auto simp: mq_wf_def)
  obtain n where n: "nat ((q_tail q - q_head q) mod q_cap q) = Suc n"
    using i by (metis length_Suc_conv length_ring_list mq_items_def)
  have n': "nat ((q_tail q - ?h) mod q_cap q) = n"
    using n b ne by (auto simp: mod_minus_cases split: if_splits)
  have h': "Suc (nat (q_head q)) mod length (q_queue q) = nat ?h"
    using b by (auto simp: nat_eq_iff Suc_nat_eq_nat_zadd1 mod_if nat_less_iff)
  have "m # ms = q_queue q ! nat (q_head q) # ring_list (q_queue q) (nat ?h) n"
    using i b unfolding mq_items_def n ring_list_Suc_head h' by simp
  then have mm: "m = q_queue q ! nat (q_head q)" "ms = ring_list (q_queue q) (nat ?h) n" by auto
  obtain ov th where l: "overload_loop ?len (q_overload q) (q_threshold q) = Some (ov, th)" "0 < th"
    using overload_loop_total [OF b(6)] by blast
  let ?q = "q\<lparr>q_head := ?h, q_overload := ov, q_threshold := th\<rparr>"
  have "mq_pop q = Some (?q, Some m)"
    using ne b l(1) unfolding mq_pop_def Let_def mm(1) by simp
  moreover have "mq_wf ?q" using wf l(2) b by (auto simp: mq_wf_def)
  moreover have "mq_items ?q = ms" unfolding mq_items_def mm(2) using n' by simp
  ultimately show ?thesis by blast
qed

lemma mq_push_ring_items:
  assumes wf: "mq_wf q" and room: "length (mq_items q) < mq_limit"
  shows "\<exists>q'. mq_push_ring q m = Some q' \<and> mq_wf q' \<and> mq_items q' = mq_items q @ [m] \<and>
           q_next q' = q_next q \<and> q_release q' = q_release q \<and> q_in_global q' = q_in_global q \<and>
           q_handle q' = q_handle q"
proof -
  have b: "0 \<le> q_head q" "q_head q < q_cap q" "0 \<le> q_tail q" "q_tail q < q_cap q"
    "length (q_queue q) = nat (q_cap q)" "0 < q_threshold q"
    using wf by (auto simp: mq_wf_def)
  obtain k where k: "k \<le> 30" "q_cap q = 2 ^ k" using wf by (auto simp: mq_wf_def)
  let ?t = "if q_tail q + 1 \<ge> q_cap q then 0 else q_tail q + 1"
  let ?xs = "(q_queue q)[nat (q_tail q) := m]"
  let ?q1 = "q\<lparr>q_queue := ?xs, q_tail := ?t\<rparr>"
  define n where "n = length (mq_items q)"
  have n: "n = nat ((q_tail q - q_head q) mod q_cap q)" by (simp add: n_def mq_items_def)
  have nc: "n < length (q_queue q)" using b by (simp add: n nat_less_iff)
  have ti: "nat (q_tail q) = (nat (q_head q) + n) mod length (q_queue q)"
  proof -
    have "nat (q_head q) + n = nat (q_tail q) \<or> nat (q_head q) + n = nat (q_tail q) + length (q_queue q)"
      unfolding n using b by (auto simp: mod_minus_cases)
    moreover have "nat (q_tail q) < length (q_queue q)" using b by simp
    ultimately show ?thesis by auto
  qed
  have snoc: "ring_list ?xs (nat (q_head q)) (Suc n) = mq_items q @ [m]"
    using ring_list_snoc [OF nc, of "nat (q_head q)" m] unfolding ti [symmetric]
    by (simp add: mq_items_def n)
  have push: "mq_push_ring q m = (if q_head q = ?t then expand_queue ?q1 else Some ?q1)"
    using b by (simp add: mq_push_ring_def Let_def)
  show ?thesis
  proof (cases "q_head q = ?t")
    case False
    have "nat ((?t - q_head q) mod q_cap q) = Suc n"
      unfolding n using b False by (auto simp: mod_minus_cases split: if_splits)
    then have "mq_items ?q1 = mq_items q @ [m]" using snoc by (simp add: mq_items_def)
    moreover have "mq_wf ?q1" using wf b by (auto simp: mq_wf_def)
    ultimately show ?thesis using push False by (intro exI [of _ ?q1]) simp
  next
    case True
    have full: "Suc n = nat (q_cap q)" unfolding n using b True by (auto simp: mod_minus_cases split: if_splits)
    have "k < 30"
    proof (rule ccontr)
      assume "\<not> k < 30"
      then have "nat (q_cap q) = 2 ^ 30" using k by simp
      then show False using full room by (simp add: mq_limit_def n_def)
    qed
    then have k': "Suc k \<le> 30" "q_cap q * 2 = 2 ^ Suc k" using k by auto
    have "(2 :: int) ^ Suc k \<le> 2 ^ 30" using k'(1) by (rule power_increasing) simp
    moreover have "- (2 ^ 31) \<le> (2 :: int) ^ Suc k" by (rule order_trans [of _ 0]) simp_all
    ultimately have i32: "is_i32 (q_cap q * 2)"
      unfolding k'(2) is_i32_def by (simp add: order_le_less_trans)
    let ?ys = "map (\<lambda>i. ?xs ! nat ((q_head q + int i) mod q_cap q)) [0..<nat (q_cap q)]"
    let ?q2 = "?q1\<lparr>q_head := 0, q_tail := q_cap q, q_cap := q_cap q * 2,
                q_queue := ?ys @ replicate (nat (q_cap q)) null_message\<rparr>"
    have e: "expand_queue ?q1 = Some ?q2" using i32 by (simp add: expand_queue_def)
    have "nat ((q_head q + int i) mod q_cap q) = (nat (q_head q) + i) mod length ?xs" for i
      using b by (simp add: nat_mod_distrib nat_add_distrib)
    then have ys: "?ys = mq_items q @ [m]"
      using snoc unfolding full by (simp add: ring_list_def)
    have "mq_items ?q2 = take (nat (q_cap q)) (?ys @ replicate (nat (q_cap q)) null_message)"
      using b by (simp add: mq_items_def mod_pos_pos_trivial ring_list_prefix)
    also have "\<dots> = ?ys" by simp
    also have "\<dots> = mq_items q @ [m]" by (rule ys)
    finally have items: "mq_items ?q2 = mq_items q @ [m]" .
    have "\<exists>j\<le>30. q_cap q * 2 = 2 ^ j" using k' by blast
    then have "mq_wf ?q2" unfolding mq_wf_def using b by auto
    then show ?thesis using push True e items by (intro exI [of _ ?q2]) simp
  qed
qed

text \<open>The only push that can fail is the one that would make the ring larger than \<open>INT_MAX\<close> allows.\<close>

lemma mq_push_ring_room:
  assumes wf: "mq_wf q" and r: "mq_push_ring q m = Some q'"
  shows "length (mq_items q) < mq_limit"
proof (rule ccontr)
  assume full: "\<not> length (mq_items q) < mq_limit"
  obtain k where k: "k \<le> 30" "q_cap q = 2 ^ k" using wf by (auto simp: mq_wf_def)
  have b: "0 \<le> q_head q" "q_head q < q_cap q" "0 \<le> q_tail q" "q_tail q < q_cap q"
    using wf by (auto simp: mq_wf_def)
  have "(2 :: int) ^ k \<le> 2 ^ 30" using k(1) by (rule power_increasing) simp
  then have c: "q_cap q \<le> 2 ^ 30" using k by simp
  have m: "2 ^ 30 - 1 \<le> (q_tail q - q_head q) mod q_cap q"
    using full by (simp add: mq_items_def mq_limit_def)
  moreover have "(q_tail q - q_head q) mod q_cap q < q_cap q" using b by (simp add: pos_mod_bound)
  ultimately have cap: "q_cap q = 2 ^ 30" using c by linarith
  then have "q_head q = (if q_tail q + 1 \<ge> q_cap q then 0 else q_tail q + 1)"
    using m b by (auto simp: mod_minus_cases split: if_splits)
  then show False
    using r cap by (auto simp: mq_push_ring_def expand_queue_def is_i32_def Let_def split: if_splits)
qed

interpretation mqf: fifo_queue mq_wf mq_items mq_push_ring mq_pop mq_limit
proof (unfold_locales, goal_cases)
  case (1 q x)
  then show ?case using mq_push_ring_items [of q x] by blast
next
  case (2 q)
  then show ?case
    by (auto simp: mq_pop_empty mq_wf_def mq_items_def MQ_OVERLOAD_def)
next
  case (3 q x xs)
  then show ?case using mq_pop_Cons [of q x xs] by blast
qed

section \<open>The scheduling protocol\<close>

text \<open>
  A system state is the heap with the global queue and the set \<open>H\<close> of mailboxes that some thread
  holds: a worker that took one off the global queue (\<open>skynet_context_message_dispatch\<close>), or the
  creator of a service before the first \<open>skynet_globalmq_push\<close>. The conditions on \<open>release\<close> are the
  callers': messages are pushed and dispatched only while a reference to the context is held, and
  \<open>skynet_mq_mark_release\<close> is called once, when the last reference is gone.
\<close>

type_synonym mq_sys = "mqstate \<times> nat set"

definition unreleased :: "mqstate \<Rightarrow> nat \<Rightarrow> bool" where
  "unreleased s p \<longleftrightarrow> (case mq_at s p of None \<Rightarrow> False | Some q \<Rightarrow> q_release q = 0)"

inductive mq_step :: "mq_sys \<Rightarrow> mq_sys \<Rightarrow> bool" where
  do_create: "skynet_mq_create s h = (s', p) \<Longrightarrow> mq_step (s, H) (s', insert p H)"
| do_put: "p \<in> H \<Longrightarrow> globalmq_push s p = Some s' \<Longrightarrow> mq_step (s, H) (s', H - {p})"
| do_take: "globalmq_pop s = Some (s', Some p) \<Longrightarrow> mq_step (s, H) (s', insert p H)"
| do_pop: "p \<in> H \<Longrightarrow> unreleased s p \<Longrightarrow> skynet_mq_pop s p = Some (s', Some m) \<Longrightarrow> mq_step (s, H) (s', H)"
| do_idle: "p \<in> H \<Longrightarrow> unreleased s p \<Longrightarrow> skynet_mq_pop s p = Some (s', None) \<Longrightarrow>
    mq_step (s, H) (s', H - {p})"
| do_push: "unreleased s p \<Longrightarrow> skynet_mq_push s p m = Some s' \<Longrightarrow> mq_step (s, H) (s', H)"
| do_mark: "unreleased s p \<Longrightarrow> skynet_mq_mark_release s p = Some s' \<Longrightarrow> mq_step (s, H) (s', H)"
| do_release: "p \<in> H \<Longrightarrow> skynet_mq_release s p = Some (s', ds) \<Longrightarrow> mq_step (s, H) (s', H - {p})"

text \<open>\<open>body\<close> is the heap without the \<open>next\<close> links; \<open>glist s L\<close>: the global queue is the list \<open>L\<close>.\<close>

definition mq_next :: "mqstate \<Rightarrow> nat \<Rightarrow> nat option" where
  "mq_next s p = Option.bind (mq_at s p) q_next"

definition body :: "mqstate \<Rightarrow> nat \<Rightarrow> message_queue option" where
  "body s p = map_option (\<lambda>q. q\<lparr>q_next := None\<rparr>) (mq_at s p)"

definition glist :: "mqstate \<Rightarrow> nat list \<Rightarrow> bool" where
  "glist s L \<longleftrightarrow>
     is_chain (mq_next s) (g_head (gq s)) L \<and>
     g_tail (gq s) = (if L = [] then None else Some (last L)) \<and>
     (\<forall>p\<in>set L. mq_at s p \<noteq> None) \<and> (\<forall>p. p \<notin> set L \<longrightarrow> mq_next s p = None)"

text \<open>Where a mailbox may be, by its flags: active ones are on the global queue or held.\<close>

definition loc_ok :: "bool \<Rightarrow> message_queue \<Rightarrow> bool" where
  "loc_ok active q \<longleftrightarrow>
     (if active then q_in_global q = 1 \<or> q_release q \<noteq> 0
      else q_in_global q = 0 \<and> q_release q = 0 \<and> mq_items q = [])"

definition sys_inv_for :: "nat list \<Rightarrow> mq_sys \<Rightarrow> bool" where
  "sys_inv_for L sys \<longleftrightarrow>
     (case sys of (s, H) \<Rightarrow>
        glist s L \<and> H \<inter> set L = {} \<and> (\<forall>p\<in>H. body s p \<noteq> None) \<and>
        (\<forall>p q. body s p = Some q \<longrightarrow> mq_wf q \<and> loc_ok (p \<in> set L \<union> H) q))"

definition sys_inv :: "mq_sys \<Rightarrow> bool" where
  "sys_inv sys \<longleftrightarrow> (\<exists>L. sys_inv_for L sys)"

lemma mq_at_set: "mq_at s p \<noteq> None \<Longrightarrow> mq_at (set_mq s p q) = (mq_at s)(p \<mapsto> q)"
  by (auto simp: mq_at_def set_mq_def fun_eq_iff nth_list_update split: if_splits)

lemma gq_set_mq [simp]: "gq (set_mq s p q) = gq s"
  by (simp add: set_mq_def)

lemma mq_at_gq [simp]: "mq_at (s\<lparr>gq := g\<rparr>) = mq_at s"
  by (simp add: mq_at_def fun_eq_iff)

lemma body_gq [simp]: "body (s\<lparr>gq := g\<rparr>) = body s"
  by (simp add: body_def fun_eq_iff)

lemma mq_next_gq [simp]: "mq_next (s\<lparr>gq := g\<rparr>) = mq_next s"
  by (simp add: mq_next_def fun_eq_iff)

lemma body_None_iff: "body s p = None \<longleftrightarrow> mq_at s p = None"
  by (simp add: body_def)

lemma body_set:
  "mq_at s p \<noteq> None \<Longrightarrow> body (set_mq s p q) = (body s)(p \<mapsto> q\<lparr>q_next := None\<rparr>)"
  by (simp add: body_def mq_at_set fun_eq_iff)

lemma mq_next_set: "mq_at s p \<noteq> None \<Longrightarrow> mq_next (set_mq s p q) = (mq_next s)(p := q_next q)"
  by (simp add: mq_next_def mq_at_set fun_eq_iff)

lemma mq_wf_next [simp]: "mq_wf (q\<lparr>q_next := n\<rparr>) = mq_wf q"
  by (simp add: mq_wf_def)

lemma mq_items_next [simp]: "mq_items (q\<lparr>q_next := n\<rparr>) = mq_items q"
  by (simp add: mq_items_def)

lemma loc_ok_next [simp]: "loc_ok a (q\<lparr>q_next := n\<rparr>) = loc_ok a q"
  by (simp add: loc_ok_def)

lemma body_cases:
  assumes "mq_at s p = Some q"
  shows "body s p = Some (q\<lparr>q_next := None\<rparr>)"
  using assms by (simp add: body_def)

lemma glist_set:
  assumes "glist s L" "mq_at s p = Some q" "q_next q' = q_next q"
  shows "glist (set_mq s p q') L"
proof -
  have "mq_next (set_mq s p q') = mq_next s"
    using assms(2,3) mq_next_set [of s p q'] by (auto simp: mq_next_def fun_eq_iff)
  then show ?thesis using assms by (auto simp: glist_def mq_at_set)
qed

lemma globalmq_push_glist:
  assumes g: "glist s L" and p: "p \<notin> set L" "mq_at s p \<noteq> None"
  shows "\<exists>s'. globalmq_push s p = Some s' \<and> glist s' (L @ [p]) \<and> body s' = body s"
proof -
  obtain q where q: "mq_at s p = Some q" "q_next q = None"
    using p g by (auto simp: glist_def mq_next_def)
  show ?thesis
  proof (cases L rule: rev_cases)
    case Nil
    then have "glist (s\<lparr>gq := \<lparr>g_head = Some p, g_tail = Some p\<rparr>\<rparr>) [p]"
      using g q by (auto simp: glist_def mq_next_def)
    then show ?thesis using g q Nil by (simp add: globalmq_push_def glist_def)
  next
    case (snoc L' t)
    obtain tq where t: "mq_at s t = Some tq" using g snoc by (auto simp: glist_def)
    let ?s1 = "set_mq s t (tq\<lparr>q_next := Some p\<rparr>)"
    let ?s' = "?s1\<lparr>gq := (gq s)\<lparr>g_tail := Some p\<rparr>\<rparr>"
    have tp: "t \<noteq> p" using p snoc by auto
    have pn: "mq_next s p = None" using q by (simp add: mq_next_def)
    have nx: "mq_next ?s1 = (mq_next s)(t := Some p, p := None)"
      using mq_next_set [of s t "tq\<lparr>q_next := Some p\<rparr>"] t tp pn by (auto simp: fun_eq_iff)
    have ch: "is_chain (mq_next s) (g_head (gq s)) (L' @ [t])" using g snoc by (simp add: glist_def)
    have "is_chain (mq_next ?s1) (g_head (gq s)) (L' @ [t, p])"
      unfolding nx by (rule is_chain_snoc [OF ch]) (use p snoc in simp)
    then have "glist ?s' (L @ [p])"
      unfolding glist_def using g snoc p t nx by (auto simp: glist_def mq_at_set)
    moreover have "body ?s' = body s" using t by (auto simp: body_set body_def fun_eq_iff)
    moreover have "globalmq_push s p = Some ?s'" using q t g snoc by (simp add: globalmq_push_def glist_def)
    ultimately show ?thesis by blast
  qed
qed

lemma globalmq_pop_glist:
  assumes g: "glist s L"
  shows "case L of [] \<Rightarrow> globalmq_pop s = Some (s, None)
    | p # L' \<Rightarrow> \<exists>s'. globalmq_pop s = Some (s', Some p) \<and> glist s' L' \<and> body s' = body s"
proof (cases L)
  case Nil
  then show ?thesis using g by (simp add: glist_def globalmq_pop_def)
next
  case (Cons p L')
  obtain q where q: "mq_at s p = Some q" using g Cons by (auto simp: glist_def)
  have h: "g_head (gq s) = Some p" using g Cons by (simp add: glist_def)
  have ch: "is_chain (mq_next s) (q_next q) L'" using g Cons q by (simp add: glist_def mq_next_def)
  have d: "p \<notin> set L'" using g Cons is_chain_distinct [of "mq_next s" _ L] by (auto simp: glist_def)
  let ?s1 = "(set_mq s p (q\<lparr>q_next := None\<rparr>))\<lparr>gq := (gq s)\<lparr>g_head := q_next q\<rparr>\<rparr>"
  have nx: "mq_next (set_mq s p (q\<lparr>q_next := None\<rparr>)) = (mq_next s)(p := None)"
    using mq_next_set [of s p "q\<lparr>q_next := None\<rparr>"] q by simp
  have b: "body (set_mq s p (q\<lparr>q_next := None\<rparr>)) = body s"
    using q by (auto simp: body_set body_def fun_eq_iff)
  have ch': "is_chain ((mq_next s)(p := None)) (q_next q) L'"
    using is_chain_upd_notin [OF d] ch by blast
  have tl: "q_next q = None \<longleftrightarrow> L' = []" using ch by (cases L') auto
  have "glist (if q_next q = None then ?s1\<lparr>gq := (gq ?s1)\<lparr>g_tail := None\<rparr>\<rparr> else ?s1) L'"
    using g Cons ch' nx tl q by (auto simp: glist_def mq_at_set)
  moreover have "globalmq_pop s =
      Some (if q_next q = None then ?s1\<lparr>gq := (gq ?s1)\<lparr>g_tail := None\<rparr>\<rparr> else ?s1, Some p)"
    using h q tl g Cons by (auto simp: globalmq_pop_def glist_def Let_def)
  ultimately show ?thesis using Cons b by simp
qed

lemma sys_inv_forD:
  assumes inv: "sys_inv_for L (s, H)"
  shows "glist s L" "H \<inter> set L = {}" "p \<in> H \<Longrightarrow> mq_at s p \<noteq> None" "p \<in> H \<Longrightarrow> body s p \<noteq> None"
    "mq_at s p = Some q \<Longrightarrow> mq_wf q \<and> loc_ok (p \<in> set L \<union> H) q"
    "body s p = Some q \<Longrightarrow> mq_wf q \<and> loc_ok (p \<in> set L \<union> H) q"
proof -
  show "glist s L" "H \<inter> set L = {}" using inv by (simp_all add: sys_inv_for_def)
  show 1: "body s p \<noteq> None" if "p \<in> H" using inv that unfolding sys_inv_for_def by blast
  then show "mq_at s p \<noteq> None" if "p \<in> H" using that by (simp only: body_None_iff) simp
  show 2: "mq_wf q \<and> loc_ok (p \<in> set L \<union> H) q" if "body s p = Some q" for q
    using inv that unfolding sys_inv_for_def by blast
  show "mq_wf q \<and> loc_ok (p \<in> set L \<union> H) q" if "mq_at s p = Some q"
    using 2 [OF body_cases [OF that]] by simp
qed

lemma sys_inv_forI:
  assumes "glist s L" "H \<inter> set L = {}" "\<And>p. p \<in> H \<Longrightarrow> body s p \<noteq> None"
    "\<And>p q. body s p = Some q \<Longrightarrow> mq_wf q \<and> loc_ok (p \<in> set L \<union> H) q"
  shows "sys_inv_for L (s, H)"
  using assms unfolding sys_inv_for_def by simp

text \<open>Overwriting one mailbox, the links unchanged.\<close>

lemma sys_inv_set:
  assumes inv: "sys_inv_for L (s, H)" and q: "mq_at s p = Some q" "q_next q' = q_next q"
    and ok: "mq_wf q'" "loc_ok (p \<in> set L \<union> H) q'"
  shows "sys_inv_for L (set_mq s p q', H)"
proof (rule sys_inv_forI)
  have b: "body (set_mq s p q') = (body s)(p \<mapsto> q'\<lparr>q_next := None\<rparr>)" using q(1) by (simp add: body_set)
  show "glist (set_mq s p q') L" by (rule glist_set [OF sys_inv_forD(1) [OF inv] q])
  show "H \<inter> set L = {}" by (rule sys_inv_forD(2) [OF inv])
  show "body (set_mq s p q') r \<noteq> None" if "r \<in> H" for r
    using sys_inv_forD(4) [OF inv that] unfolding b by simp
  show "mq_wf x \<and> loc_ok (r \<in> set L \<union> H) x" if "body (set_mq s p q') r = Some x" for r x
    using that ok sys_inv_forD(6) [OF inv, of r x] unfolding b by (cases "r = p") auto
qed

text \<open>Overwriting an inactive mailbox and appending it to the global queue.\<close>

lemma sys_set_list:
  assumes inv: "sys_inv_for L (s, H)" and q: "mq_at s p = Some q" "q_next q' = q_next q"
    and p: "p \<notin> set L" "p \<notin> H" and ok: "mq_wf q'" "loc_ok True q'"
  shows "\<exists>s'. globalmq_push (set_mq s p q') p = Some s' \<and> sys_inv_for (L @ [p]) (s', H) \<and>
    body s' p = Some (q'\<lparr>q_next := None\<rparr>)"
proof -
  have b: "body (set_mq s p q') = (body s)(p \<mapsto> q'\<lparr>q_next := None\<rparr>)" using q(1) by (simp add: body_set)
  obtain s' where s': "globalmq_push (set_mq s p q') p = Some s'" "glist s' (L @ [p])"
    "body s' = body (set_mq s p q')"
    using globalmq_push_glist [OF glist_set [OF sys_inv_forD(1) [OF inv] q] p(1)] q(1)
    by (auto simp: mq_at_set)
  have "sys_inv_for (L @ [p]) (s', H)"
  proof (rule sys_inv_forI)
    show "glist s' (L @ [p])" by (rule s')
    show "H \<inter> set (L @ [p]) = {}" using sys_inv_forD(2) [OF inv] p by auto
    show "body s' r \<noteq> None" if "r \<in> H" for r
      using sys_inv_forD(4) [OF inv that] unfolding s'(3) b by simp
    show "mq_wf x \<and> loc_ok (r \<in> set (L @ [p]) \<union> H) x" if "body s' r = Some x" for r x
      using that ok sys_inv_forD(6) [OF inv, of r x] unfolding s'(3) b by (cases "r = p") auto
  qed
  then show ?thesis using s' b by auto
qed

lemma sys_put:
  assumes inv: "sys_inv_for L (s, H)" and p: "p \<in> H"
  shows "\<exists>s'. globalmq_push s p = Some s' \<and> sys_inv_for (L @ [p]) (s', H - {p})"
proof -
  have pL: "p \<notin> set L" using sys_inv_forD(2) [OF inv] p by blast
  obtain s' where s': "globalmq_push s p = Some s'" "glist s' (L @ [p])" "body s' = body s"
    using globalmq_push_glist [OF sys_inv_forD(1) [OF inv] pL sys_inv_forD(3) [OF inv p]] by blast
  have "sys_inv_for (L @ [p]) (s', H - {p})"
  proof (rule sys_inv_forI)
    show "glist s' (L @ [p])" by (rule s')
    show "(H - {p}) \<inter> set (L @ [p]) = {}" using sys_inv_forD(2) [OF inv] by auto
    show "body s' r \<noteq> None" if "r \<in> H - {p}" for r
      using sys_inv_forD(4) [OF inv] that unfolding s'(3) by blast
    have "r \<in> set (L @ [p]) \<union> (H - {p}) \<longleftrightarrow> r \<in> set L \<union> H" for r using p by auto
    then show "mq_wf x \<and> loc_ok (r \<in> set (L @ [p]) \<union> (H - {p})) x" if "body s' r = Some x" for r x
      using that sys_inv_forD(6) [OF inv, of r x] unfolding s'(3) by simp
  qed
  then show ?thesis using s'(1) by blast
qed

lemma sys_take:
  assumes inv: "sys_inv_for L (s, H)"
  shows "(L = [] \<and> globalmq_pop s = Some (s, None)) \<or>
    (\<exists>p L' s'. L = p # L' \<and> globalmq_pop s = Some (s', Some p) \<and> sys_inv_for L' (s', insert p H))"
proof (cases L)
  case Nil
  then show ?thesis using globalmq_pop_glist [of s L] inv by (simp add: sys_inv_for_def)
next
  case (Cons p L')
  obtain s' where s': "globalmq_pop s = Some (s', Some p)" "glist s' L'" "body s' = body s"
    using globalmq_pop_glist [of s L] inv Cons by (auto simp: sys_inv_for_def)
  have "distinct L" using inv is_chain_distinct by (auto simp: sys_inv_for_def glist_def)
  then have 1: "insert p H \<inter> set L' = {}" using inv Cons by (auto simp: sys_inv_for_def)
  have act: "r \<in> set L' \<union> insert p H \<longleftrightarrow> r \<in> set L \<union> H" for r using Cons by auto
  have "body s p \<noteq> None" using inv Cons by (auto simp: sys_inv_for_def glist_def body_None_iff)
  then have "sys_inv_for L' (s', insert p H)"
    using inv s'(2) 1 unfolding sys_inv_for_def prod.case s'(3) act by blast
  then show ?thesis using s'(1) Cons by blast
qed

lemma sys_create:
  assumes inv: "sys_inv_for L (s, H)" and c: "skynet_mq_create s h = (s', p)"
  shows "sys_inv_for L (s', insert p H)"
proof -
  have s': "s' = s\<lparr>mq_heap := mq_heap s @ [Some (mq_create h)]\<rparr>" "p = length (mq_heap s)"
    using c by (auto simp: skynet_mq_create_def)
  have pN: "mq_at s p = None" by (simp add: s' mq_at_def)
  have at: "mq_at s' = (mq_at s)(p \<mapsto> mq_create h)"
    by (auto simp: s' mq_at_def fun_eq_iff nth_append)
  have nx: "mq_next s' = mq_next s"
    using pN by (auto simp: mq_next_def at fun_eq_iff mq_create_def)
  have bd: "body s' = (body s)(p \<mapsto> mq_create h)"
    by (auto simp: body_def at fun_eq_iff) (simp_all add: mq_create_def)
  have pL: "p \<notin> set L" "p \<notin> H"
    using sys_inv_forD(1) [OF inv] sys_inv_forD(3) [OF inv, of p] pN by (auto simp: glist_def)
  show ?thesis
  proof (rule sys_inv_forI)
    show "glist s' L" using sys_inv_forD(1) [OF inv] nx at by (auto simp: glist_def s'(1))
    show "insert p H \<inter> set L = {}" using sys_inv_forD(2) [OF inv] pL by auto
    show "body s' r \<noteq> None" if "r \<in> insert p H" for r
      using sys_inv_forD(4) [OF inv, of r] that unfolding bd by (cases "r = p") auto
    have "loc_ok True (mq_create h)" by (simp add: loc_ok_def mq_create_def MQ_IN_GLOBAL_def)
    then show "mq_wf x \<and> loc_ok (r \<in> set L \<union> insert p H) x" if "body s' r = Some x" for r x
      using that sys_inv_forD(6) [OF inv, of r x] mq_create_wf(1) [of h] unfolding bd
      by (cases "r = p") auto
  qed
qed

lemma sys_pop:
  assumes inv: "sys_inv_for L (s, H)" and p: "p \<in> H" and u: "unreleased s p"
  shows "\<exists>q s' m. mq_at s p = Some q \<and> skynet_mq_pop s p = Some (s', m) \<and>
    ((mq_items q = [] \<and> m = None \<and> sys_inv_for L (s', H - {p})) \<or>
     (\<exists>x xs. mq_items q = x # xs \<and> m = Some x \<and> sys_inv_for L (s', H)))"
proof -
  obtain q where q: "mq_at s p = Some q" "q_release q = 0"
    using u by (auto simp: unreleased_def split: option.splits)
  have ok: "mq_wf q" "loc_ok True q" using sys_inv_forD(5) [OF inv q(1)] p by auto
  have pL: "p \<notin> set L" using inv p by (auto simp: sys_inv_for_def)
  show ?thesis
  proof (cases "mq_items q")
    case Nil
    let ?q = "q\<lparr>q_threshold := MQ_OVERLOAD, q_in_global := 0\<rparr>"
    have w: "mq_wf ?q" "mq_items ?q = []"
      using ok(1) Nil by (auto simp: mq_wf_def mq_items_def MQ_OVERLOAD_def)
    have l: "loc_ok False ?q" using w q(2) by (simp add: loc_ok_def)
    have b: "body (set_mq s p ?q) = (body s)(p \<mapsto> ?q\<lparr>q_next := None\<rparr>)" using q(1) by (simp add: body_set)
    have "sys_inv_for L (set_mq s p ?q, H - {p})"
    proof (rule sys_inv_forI)
      show "glist (set_mq s p ?q) L" by (rule glist_set [OF sys_inv_forD(1) [OF inv] q(1)]) simp
      show "(H - {p}) \<inter> set L = {}" using sys_inv_forD(2) [OF inv] by auto
      show "body (set_mq s p ?q) r \<noteq> None" if "r \<in> H - {p}" for r
        using sys_inv_forD(4) [OF inv, of r] that unfolding b by simp
      show "mq_wf x \<and> loc_ok (r \<in> set L \<union> (H - {p})) x" if "body (set_mq s p ?q) r = Some x" for r x
        using that w(1) l pL sys_inv_forD(6) [OF inv, of r x] unfolding b by (cases "r = p") auto
    qed
    then show ?thesis
      using q Nil mq_pop_empty [OF ok(1) Nil] by (simp add: skynet_mq_pop_def)
  next
    case (Cons x xs)
    obtain h ov th where r: "mq_pop q = Some (q\<lparr>q_head := h, q_overload := ov, q_threshold := th\<rparr>, Some x)"
      "mq_wf (q\<lparr>q_head := h, q_overload := ov, q_threshold := th\<rparr>)"
      using mq_pop_Cons [OF ok(1) Cons] by blast
    have "sys_inv_for L (set_mq s p (q\<lparr>q_head := h, q_overload := ov, q_threshold := th\<rparr>), H)"
      by (rule sys_inv_set [OF inv q(1) _ r(2)]) (use ok(2) p in \<open>auto simp: loc_ok_def\<close>)
    then show ?thesis using q r(1) Cons by (simp add: skynet_mq_pop_def)
  qed
qed

lemma sys_push:
  assumes inv: "sys_inv_for L (s, H)" and u: "mq_at s p = Some q" "q_release q = 0"
    and room: "length (mq_items q) < mq_limit"
  shows "\<exists>s' L'. skynet_mq_push s p m = Some s' \<and> sys_inv_for L' (s', H) \<and>
    (\<exists>q'. body s' p = Some q' \<and> mq_items q' = mq_items q @ [m] \<and> p \<in> set L' \<union> H)"
proof -
  have ok: "mq_wf q" "loc_ok (p \<in> set L \<union> H) q" using sys_inv_forD(5) [OF inv u(1)] by auto
  obtain q1 where q1: "mq_push_ring q m = Some q1" "mq_wf q1" "mq_items q1 = mq_items q @ [m]"
    "q_next q1 = q_next q" "q_release q1 = q_release q" "q_in_global q1 = q_in_global q"
    using mq_push_ring_items [OF ok(1) room, of m] by blast
  show ?thesis
  proof (cases "p \<in> set L \<union> H")
    case True
    then have g: "q_in_global q = 1" using ok(2) u(2) by (simp add: loc_ok_def)
    have "sys_inv_for L (set_mq s p q1, H)"
      by (rule sys_inv_set [OF inv u(1) q1(4,2)]) (use True g q1 in \<open>simp add: loc_ok_def\<close>)
    then show ?thesis
      using u q1 g True by (auto simp: skynet_mq_push_def body_set intro!: exI [of _ L])
  next
    case False
    then have g: "q_in_global q = 0" using ok(2) by (simp add: loc_ok_def)
    let ?q2 = "q1\<lparr>q_in_global := MQ_IN_GLOBAL\<rparr>"
    have w2: "mq_wf ?q2" "mq_items ?q2 = mq_items q1" using q1(2) by (auto simp: mq_wf_def mq_items_def)
    have lo: "loc_ok True ?q2" by (simp add: loc_ok_def MQ_IN_GLOBAL_def)
    obtain s' where s': "globalmq_push (set_mq s p ?q2) p = Some s'" "sys_inv_for (L @ [p]) (s', H)"
      "body s' p = Some (?q2\<lparr>q_next := None\<rparr>)"
      using sys_set_list [OF inv u(1) _ _ _ w2(1) lo] q1 False by auto
    then show ?thesis
      using u q1 g w2(2) by (auto simp: skynet_mq_push_def intro!: exI [of _ "L @ [p]"])
  qed
qed

lemma sys_mark:
  assumes inv: "sys_inv_for L (s, H)" and u: "unreleased s p"
  shows "\<exists>s' L'. skynet_mq_mark_release s p = Some s' \<and> sys_inv_for L' (s', H) \<and> p \<in> set L' \<union> H"
proof -
  obtain q where q: "mq_at s p = Some q" "q_release q = 0"
    using u by (auto simp: unreleased_def split: option.splits)
  have ok: "mq_wf q" "loc_ok (p \<in> set L \<union> H) q" using sys_inv_forD(5) [OF inv q(1)] by auto
  let ?q1 = "q\<lparr>q_release := 1\<rparr>"
  let ?s1 = "set_mq s p ?q1"
  have w1: "mq_wf ?q1" "loc_ok True ?q1" using ok(1) by (auto simp: mq_wf_def loc_ok_def)
  show ?thesis
  proof (cases "p \<in> set L \<union> H")
    case True
    then have g: "q_in_global q = MQ_IN_GLOBAL" using ok(2) q(2) by (simp add: loc_ok_def MQ_IN_GLOBAL_def)
    have "sys_inv_for L (?s1, H)" using sys_inv_set [OF inv q(1) _ w1(1)] w1(2) True by simp
    then show ?thesis using q g True by (auto simp: skynet_mq_mark_release_def Let_def)
  next
    case False
    then have g: "q_in_global q \<noteq> MQ_IN_GLOBAL" using ok(2) by (simp add: loc_ok_def MQ_IN_GLOBAL_def)
    obtain s' where s': "globalmq_push ?s1 p = Some s'" "sys_inv_for (L @ [p]) (s', H)"
      using sys_set_list [OF inv q(1) _ _ _ w1] False by auto
    then show ?thesis
      using q g by (auto simp: skynet_mq_mark_release_def Let_def intro!: exI [of _ "L @ [p]"])
  qed
qed

lemma drop_queue_sys:
  assumes "sys_inv_for L (s, H)" "p \<in> H" "mq_at s p = Some q" "q_release q \<noteq> 0"
  shows "\<exists>s'. drop_queue s p ds = Some (s', ds @ mq_items q) \<and> sys_inv_for L (s', H - {p}) \<and>
    mq_at s' p = None"
  using assms
proof (induction "mq_items q" arbitrary: s q ds)
  case Nil
  note inv = Nil.prems(1) and q = Nil.prems(3)
  have ok: "mq_wf q" using sys_inv_forD(5) [OF inv q] by simp
  have pL: "p \<notin> set L" using sys_inv_forD(2) [OF inv] Nil.prems(2) by blast
  let ?q = "q\<lparr>q_threshold := MQ_OVERLOAD, q_in_global := 0\<rparr>"
  let ?s1 = "set_mq s p ?q"
  let ?s2 = "?s1\<lparr>mq_heap := (mq_heap ?s1)[p := None]\<rparr>"
  have nx: "q_next q = None"
    using sys_inv_forD(1) [OF inv] pL q by (auto simp: glist_def mq_next_def)
  have "p < length (mq_heap s)" using q by (auto simp: mq_at_def split: if_splits)
  then have at2: "mq_at ?s2 = (mq_at s)(p := None)"
    by (auto simp: mq_at_def set_mq_def fun_eq_iff nth_list_update)
  have nx2: "mq_next ?s2 = mq_next s" using nx q by (auto simp: mq_next_def at2 fun_eq_iff)
  have b2: "body ?s2 = (body s)(p := None)" by (auto simp: body_def at2 fun_eq_iff)
  have "sys_inv_for L (?s2, H - {p})"
  proof (rule sys_inv_forI)
    have "gq ?s2 = gq s" by simp
    then show "glist ?s2 L"
      using sys_inv_forD(1) [OF inv] pL unfolding glist_def nx2 at2 by auto
    show "(H - {p}) \<inter> set L = {}" using sys_inv_forD(2) [OF inv] by auto
    show "body ?s2 r \<noteq> None" if "r \<in> H - {p}" for r
      using sys_inv_forD(4) [OF inv, of r] that unfolding b2 by simp
    show "mq_wf x \<and> loc_ok (r \<in> set L \<union> (H - {p})) x" if "body ?s2 r = Some x" for r x
      using that sys_inv_forD(6) [OF inv, of r x] unfolding b2 by (cases "r = p") auto
  qed
  moreover have "drop_queue s p ds = Some (?s2, ds)"
    using q nx mq_pop_empty [OF ok Nil.hyps [symmetric]]
    by (subst drop_queue.simps) (simp add: skynet_mq_pop_def mq_free_def mq_at_set)
  ultimately show ?case using Nil.hyps at2 by auto
next
  case (Cons x xs)
  note inv = Cons.prems(1) and q = Cons.prems(3)
  have ok: "mq_wf q" using sys_inv_forD(5) [OF inv q] by simp
  obtain h ov th where r: "mq_pop q = Some (q\<lparr>q_head := h, q_overload := ov, q_threshold := th\<rparr>, Some x)"
    "mq_wf (q\<lparr>q_head := h, q_overload := ov, q_threshold := th\<rparr>)"
    "mq_items (q\<lparr>q_head := h, q_overload := ov, q_threshold := th\<rparr>) = xs"
    using mq_pop_Cons [OF ok Cons.hyps(2) [symmetric]] by blast
  let ?q = "q\<lparr>q_head := h, q_overload := ov, q_threshold := th\<rparr>"
  have "sys_inv_for L (set_mq s p ?q, H)"
    by (rule sys_inv_set [OF inv q _ r(2)]) (use Cons.prems in \<open>auto simp: loc_ok_def\<close>)
  then obtain s' where s': "drop_queue (set_mq s p ?q) p (ds @ [x]) = Some (s', (ds @ [x]) @ xs)"
    "sys_inv_for L (s', H - {p})" "mq_at s' p = None"
    using Cons.hyps(1) [of ?q "set_mq s p ?q" "ds @ [x]"] Cons.prems r(3) q by (auto simp: mq_at_set)
  have "drop_queue s p ds = Some (s', ds @ mq_items q)"
    using q r(1) s'(1) Cons.hyps(2) [symmetric] by (subst drop_queue.simps) (simp add: skynet_mq_pop_def)
  then show ?case using s' by blast
qed

lemma sys_release:
  assumes inv: "sys_inv_for L (s, H)" and p: "p \<in> H"
  shows "\<exists>q s' ds L'. mq_at s p = Some q \<and> skynet_mq_release s p = Some (s', ds) \<and>
    sys_inv_for L' (s', H - {p}) \<and>
    (if q_release q = 0 then ds = [] \<and> p \<in> set L' else ds = mq_items q \<and> mq_at s' p = None)"
proof -
  obtain q where q: "mq_at s p = Some q" using sys_inv_forD(3) [OF inv p] by blast
  show ?thesis
  proof (cases "q_release q = 0")
    case True
    then show ?thesis using sys_put [OF inv p] q by (fastforce simp: skynet_mq_release_def)
  next
    case False
    then show ?thesis
      using drop_queue_sys [OF inv p q False, of "[]"] q by (fastforce simp: skynet_mq_release_def)
  qed
qed

definition mq_sys_init :: "mq_sys \<Rightarrow> bool" where
  "mq_sys_init sys \<longleftrightarrow> sys = (mq_init, {})"

text \<open>The bound that the ring's doubling needs: no mailbox holds \<open>mq_limit\<close> messages.\<close>

definition roomy :: "mqstate \<Rightarrow> bool" where
  "roomy s \<longleftrightarrow> (\<forall>p q. mq_at s p = Some q \<longrightarrow> length (mq_items q) < mq_limit)"

lemma sys_inv_step:
  assumes "sys_inv sys" "mq_step sys sys'"
  shows "sys_inv sys'"
proof -
  obtain L where inv: "sys_inv_for L sys" using assms(1) by (auto simp: sys_inv_def)
  show ?thesis using assms(2) inv
  proof cases
    case (do_create s h s' p H)
    then show ?thesis using sys_create inv unfolding sys_inv_def by blast
  next
    case (do_put p H s s')
    then show ?thesis using sys_put [of L s H p] inv unfolding sys_inv_def by auto
  next
    case (do_take s s' p H)
    then show ?thesis using sys_take [of L s H] inv unfolding sys_inv_def by auto
  next
    case (do_pop p H s s' m)
    then show ?thesis using sys_pop [of L s H p] inv unfolding sys_inv_def by fastforce
  next
    case (do_idle p H s s')
    then show ?thesis using sys_pop [of L s H p] inv unfolding sys_inv_def by fastforce
  next
    case (do_push s p m s' H)
    then obtain q q1 where q: "mq_at s p = Some q" "q_release q = 0" "mq_push_ring q m = Some q1"
      by (auto simp: unreleased_def skynet_mq_push_def split: option.splits bind_splits)
    then have "length (mq_items q) < mq_limit"
      using mq_push_ring_room [of q m q1] sys_inv_forD(5) [of L s H p q] inv do_push(1) by blast
    then show ?thesis using sys_push [of L s H p q m] inv q do_push unfolding sys_inv_def by auto
  next
    case (do_mark s p s' H)
    then show ?thesis using sys_mark [of L s H p] inv unfolding sys_inv_def by auto
  next
    case (do_release p H s s' ds)
    then show ?thesis using sys_release [of L s H p] inv unfolding sys_inv_def by auto
  qed
qed

interpretation mqs: invariant_system mq_sys_init mq_step sys_inv
proof
  fix sys assume "mq_sys_init sys"
  then have "sys = (mq_init, {})" by (simp add: mq_sys_init_def)
  moreover have "sys_inv_for [] (mq_init, {})"
    by (rule sys_inv_forI) (auto simp: glist_def mq_init_def mq_next_def mq_at_def body_def)
  ultimately show "sys_inv sys" unfolding sys_inv_def by blast
qed (rule sys_inv_step)

definition global_list :: "mqstate \<Rightarrow> nat list" where
  "global_list s = walk (length (mq_heap s)) (mq_next s) (g_head (gq s))"

lemma global_list_eq: "glist s L \<Longrightarrow> global_list s = L"
  unfolding global_list_def glist_def
  by (rule walk_chain) (auto intro!: chain_length_le simp: mq_at_def split: if_splits)

lemma reachable_sys:
  assumes "reachable mq_sys_init mq_step (s, H)"
  shows "sys_inv_for (global_list s) (s, H)"
proof -
  obtain L where L: "sys_inv_for L (s, H)" using mqs.reachable_inv [OF assms] by (auto simp: sys_inv_def)
  then show ?thesis using global_list_eq [OF sys_inv_forD(1) [OF L]] by simp
qed

section \<open>Properties\<close>

text \<open>C36: a mailbox is a FIFO queue of unbounded size (up to the \<open>int\<close> limit of its ring): any
  sequence of pushes and pops on a new mailbox returns what the same operations return on a list,
  and the reported length is the number of messages inside.\<close>

theorem mailbox_fifo:
  assumes "enqs ops \<le> mq_limit"
  shows "\<exists>q. queue_run mq_push_ring mq_pop (mq_create h) ops = Some (q, snd (list_run [] ops)) \<and>
    mq_items q = fst (list_run [] ops) \<and> mq_length q = int (length (fst (list_run [] ops)))"
  using mqf.run_correct [of "mq_create h" ops] assms mq_create_wf [of h] mq_length_items by auto

lemma mailbox_fifo_witness:
  "\<exists>q. queue_run mq_push_ring mq_pop (mq_create 5) [Enq null_message, Deq, Deq] =
     Some (q, [Some null_message, None]) \<and> mq_length q = 0"
  using mailbox_fifo [of "[Enq null_message, Deq, Deq]" 5] by (auto simp: mq_limit_def)

text \<open>C9: no assert of the mailbox module can fail. In every state that any interleaving of services
  being created, messages being pushed, workers dispatching and contexts being released can reach,
  every operation a thread may call next succeeds, pushes as long as the ring may still grow.\<close>

theorem mq_asserts_hold:
  assumes "reachable mq_sys_init mq_step (s, H)"
  shows "globalmq_pop s \<noteq> None \<and>
    (\<forall>p\<in>H. globalmq_push s p \<noteq> None \<and> skynet_mq_release s p \<noteq> None \<and>
       (unreleased s p \<longrightarrow> skynet_mq_pop s p \<noteq> None)) \<and>
    (\<forall>p. unreleased s p \<longrightarrow> skynet_mq_mark_release s p \<noteq> None \<and>
       (\<forall>m. roomy s \<longrightarrow> skynet_mq_push s p m \<noteq> None))"
proof -
  note inv = reachable_sys [OF assms]
  have "globalmq_pop s \<noteq> None" using sys_take [OF inv] by auto
  moreover have "globalmq_push s p \<noteq> None" "skynet_mq_release s p \<noteq> None" if "p \<in> H" for p
    using sys_put [OF inv that] sys_release [OF inv that] by auto
  moreover have "skynet_mq_pop s p \<noteq> None" if "p \<in> H" "unreleased s p" for p
    using sys_pop [OF inv that] by auto
  moreover have "skynet_mq_mark_release s p \<noteq> None" if "unreleased s p" for p
    using sys_mark [OF inv that] by auto
  moreover have "skynet_mq_push s p m \<noteq> None" if "unreleased s p" "roomy s" for p m
    using sys_push [OF inv, of p _ m] that
    by (fastforce simp: unreleased_def roomy_def split: option.splits)
  ultimately show ?thesis by blast
qed

text \<open>C8: no lost wakeup and no double dispatch. In every reachable state a mailbox with messages is
  on the global queue or held by a worker, it is on the queue at most once, and a held mailbox is
  not on the queue, so at most one worker runs a service at a time.\<close>

theorem mq_scheduled:
  assumes "reachable mq_sys_init mq_step (s, H)"
    and "mq_at s p = Some q" and "mq_items q \<noteq> []"
  shows "(p \<in> set (global_list s) \<or> p \<in> H) \<and> distinct (global_list s) \<and> H \<inter> set (global_list s) = {}"
proof -
  note inv = reachable_sys [OF assms(1)]
  have "p \<in> set (global_list s) \<or> p \<in> H"
    using sys_inv_forD(5) [OF inv assms(2)] assms(3) by (auto simp: loc_ok_def split: if_splits)
  moreover have "distinct (global_list s)"
    using sys_inv_forD(1) [OF inv] is_chain_distinct by (auto simp: glist_def)
  ultimately show ?thesis using sys_inv_forD(2) [OF inv] by simp
qed

text \<open>A state with one service that is on the global queue with one message.\<close>

definition demo_mq1 :: mqstate where
  "demo_mq1 = fst (skynet_mq_create mq_init 7)"

definition demo_mq2 :: mqstate where
  "demo_mq2 = the (globalmq_push demo_mq1 0)"

definition demo_mq3 :: mqstate where
  "demo_mq3 = the (skynet_mq_push demo_mq2 0 null_message)"

lemma demo_mq_values:
  "globalmq_push demo_mq1 0 = Some demo_mq2"
  "skynet_mq_push demo_mq2 0 null_message = Some demo_mq3"
  "map_option mq_items (mq_at demo_mq3 0) = Some [null_message]"
  "unreleased demo_mq2 0"
proof -
  have 1: "demo_mq1 = \<lparr>mq_heap = [Some (mq_create 7)], gq = \<lparr>g_head = None, g_tail = None\<rparr>\<rparr>"
    by (simp add: demo_mq1_def skynet_mq_create_def mq_init_def)
  show p: "globalmq_push demo_mq1 0 = Some demo_mq2"
    by (simp add: demo_mq2_def 1 globalmq_push_def mq_at_def mq_create_def)
  have 2: "demo_mq2 = \<lparr>mq_heap = [Some (mq_create 7)], gq = \<lparr>g_head = Some 0, g_tail = Some 0\<rparr>\<rparr>"
    using p by (simp add: 1 globalmq_push_def mq_at_def mq_create_def)
  show "unreleased demo_mq2 0" by (simp add: 2 unreleased_def mq_at_def mq_create_def)
  obtain q where q: "mq_push_ring (mq_create 7) null_message = Some q"
    "mq_items q = [null_message]" "q_in_global q = 1"
    using mq_push_ring_items [OF mq_create_wf(1), of 7 null_message] mq_create_wf(2) [of 7]
    by (auto simp: mq_limit_def mq_create_def MQ_IN_GLOBAL_def)
  then have "skynet_mq_push demo_mq2 0 null_message = Some (set_mq demo_mq2 0 q)"
    by (simp add: skynet_mq_push_def 2 mq_at_def)
  then show "skynet_mq_push demo_mq2 0 null_message = Some demo_mq3"
    "map_option mq_items (mq_at demo_mq3 0) = Some [null_message]"
    using q by (auto simp: demo_mq3_def mq_at_set 2 mq_at_def set_mq_def)
qed

lemma demo_mq_reachable: "reachable mq_sys_init mq_step (demo_mq3, {})"
proof -
  have "reachable mq_sys_init mq_step (mq_init, {})" by (rule reachable_init) (simp add: mq_sys_init_def)
  moreover have "skynet_mq_create mq_init 7 = (demo_mq1, 0)"
    by (simp add: demo_mq1_def skynet_mq_create_def mq_init_def)
  ultimately have "reachable mq_sys_init mq_step (demo_mq1, {0})"
    using do_create reachable_step by fastforce
  moreover have "mq_step (demo_mq1, {0}) (demo_mq2, {0} - {0})"
    by (rule do_put) (simp_all add: demo_mq_values)
  ultimately have "reachable mq_sys_init mq_step (demo_mq2, {})"
    using reachable_step by fastforce
  moreover have "mq_step (demo_mq2, {}) (demo_mq3, {})"
    by (rule do_push [OF demo_mq_values(4,2)])
  ultimately show ?thesis by (rule reachable_step)
qed

lemma mq_asserts_hold_witness: "globalmq_pop demo_mq3 \<noteq> None"
  using mq_asserts_hold [OF demo_mq_reachable] by blast

lemma mq_scheduled_witness: "0 \<in> set (global_list demo_mq3)"
  using mq_scheduled [OF demo_mq_reachable, of 0] demo_mq_values(3) by auto

end
