(* ===== verification/Mailbox.thy ===== *)
theory Mailbox
  imports Mq
begin

text \<open>
  The mailboxes as the contexts use them: an interface in terms of the messages inside each mailbox.
  \<open>view\<close> gives a mailbox's handle, whether it has been marked for release, and its messages; the laws
  say what each operation of \<open>skynet_mq.c\<close> does to the view. The interpretation discharges them for the
  model of \<open>Mq\<close>, with its heap, ring buffers and global list.
\<close>

type_synonym mview = "nat \<Rightarrow> (u32 \<times> bool \<times> skynet_message list) option"

locale mailboxes =
  fixes inv :: "'s \<Rightarrow> nat set \<Rightarrow> bool"
    and view :: "'s \<Rightarrow> mview"
    and limit :: nat
    and create :: "'s \<Rightarrow> u32 \<Rightarrow> 's \<times> nat"
    and push :: "'s \<Rightarrow> nat \<Rightarrow> skynet_message \<Rightarrow> 's option"
    and pop :: "'s \<Rightarrow> nat \<Rightarrow> ('s \<times> skynet_message option) option"
    and mark :: "'s \<Rightarrow> nat \<Rightarrow> 's option"
    and release :: "'s \<Rightarrow> nat \<Rightarrow> ('s \<times> skynet_message list) option"
    and put :: "'s \<Rightarrow> nat \<Rightarrow> 's option"
    and take :: "'s \<Rightarrow> ('s \<times> nat option) option"
  assumes held: "inv s H \<Longrightarrow> p \<in> H \<Longrightarrow> view s p \<noteq> None"
    and create_law: "inv s H \<Longrightarrow> create s h = (s', p) \<Longrightarrow>
      inv s' (insert p H) \<and> view s p = None \<and> view s' = (view s)(p \<mapsto> (h, False, []))"
    and push_law: "inv s H \<Longrightarrow> view s p = Some (h, False, xs) \<Longrightarrow> length xs < limit \<Longrightarrow>
      \<exists>s'. push s p m = Some s' \<and> inv s' H \<and> view s' = (view s)(p \<mapsto> (h, False, xs @ [m]))"
    and pop_law: "inv s H \<Longrightarrow> p \<in> H \<Longrightarrow> view s p = Some (h, False, xs) \<Longrightarrow>
      \<exists>s'. pop s p = Some (s', if xs = [] then None else Some (hd xs)) \<and>
        inv s' (if xs = [] then H - {p} else H) \<and> view s' = (view s)(p \<mapsto> (h, False, tl xs))"
    and mark_law: "inv s H \<Longrightarrow> view s p = Some (h, False, xs) \<Longrightarrow>
      \<exists>s'. mark s p = Some s' \<and> inv s' H \<and> view s' = (view s)(p \<mapsto> (h, True, xs))"
    and release_law: "inv s H \<Longrightarrow> p \<in> H \<Longrightarrow> view s p = Some (h, r, xs) \<Longrightarrow>
      \<exists>s'. release s p = Some (s', if r then xs else []) \<and> inv s' (H - {p}) \<and>
        view s' = (if r then (view s)(p := None) else view s)"
    and put_law: "inv s H \<Longrightarrow> p \<in> H \<Longrightarrow> \<exists>s'. put s p = Some s' \<and> inv s' (H - {p}) \<and> view s' = view s"
    and take_law: "inv s H \<Longrightarrow> \<exists>s' r. take s = Some (s', r) \<and> view s' = view s \<and>
      (case r of None \<Rightarrow> inv s' H | Some p \<Rightarrow> p \<notin> H \<and> inv s' (insert p H))"
begin

text \<open>A batch of messages arrives in order.\<close>

lemma push_many:
  "inv s H \<Longrightarrow> view s p = Some (h, False, xs) \<Longrightarrow> length xs + length ms \<le> limit \<Longrightarrow>
     \<exists>s'. foldM (\<lambda>s. push s p) s ms = Some s' \<and> inv s' H \<and> view s' = (view s)(p \<mapsto> (h, False, xs @ ms))"
proof (induction ms arbitrary: s xs)
  case Nil
  then show ?case by (simp add: fun_upd_idem)
next
  case (Cons m ms)
  from push_law [OF Cons.prems(1,2)] Cons.prems(3) obtain s1 where
    s1: "push s p m = Some s1" "inv s1 H" "view s1 = (view s)(p \<mapsto> (h, False, xs @ [m]))" by fastforce
  have v1: "view s1 p = Some (h, False, xs @ [m])" by (simp add: s1(3))
  have l1: "length (xs @ [m]) + length ms \<le> limit" using Cons.prems(3) by simp
  from Cons.IH [OF s1(2) v1 l1] obtain s2 where
    s2: "foldM (\<lambda>s. push s p) s1 ms = Some s2" "inv s2 H" "view s2 = (view s1)(p \<mapsto> (h, False, (xs @ [m]) @ ms))"
    by blast
  then have "view s2 = (view s)(p \<mapsto> (h, False, xs @ m # ms))" by (simp add: s1(3))
  then show ?case using s1(1) s2(1,2) by (intro exI [of _ s2] conjI) simp_all
qed

text \<open>Messages that wait in a mailbox when it is released are handed back, in the order of their arrival.\<close>

lemma mark_release:
  assumes "inv s H" "p \<in> H" "view s p = Some (h, False, xs)"
  shows "\<exists>s1 s2. mark s p = Some s1 \<and> release s1 p = Some (s2, xs) \<and> inv s2 (H - {p}) \<and>
    view s2 = (view s)(p := None)"
proof -
  from mark_law [OF assms(1,3)] obtain s1 where
    s1: "mark s p = Some s1" "inv s1 H" "view s1 = (view s)(p \<mapsto> (h, True, xs))" by blast
  have "view s1 p = Some (h, True, xs)" by (simp add: s1(3))
  from release_law [OF s1(2) assms(2) this] show ?thesis using s1 by auto
qed

end

section \<open>The model of the mailboxes\<close>

definition mq_view :: "mqstate \<Rightarrow> mview" where
  "mq_view s p = map_option (\<lambda>q. (q_handle q, q_release q \<noteq> 0, mq_items q)) (mq_at s p)"

lemma mq_view_set:
  "mq_at s p \<noteq> None \<Longrightarrow> mq_view (set_mq s p q) = (mq_view s)(p \<mapsto> (q_handle q, q_release q \<noteq> 0, mq_items q))"
  by (auto simp: mq_view_def mq_at_set fun_eq_iff)

lemma mq_view_gq [simp]: "mq_view (s\<lparr>gq := g\<rparr>) = mq_view s"
  by (simp add: mq_view_def fun_eq_iff)

lemma mq_view_next: "mq_at s p = Some q \<Longrightarrow> mq_view (set_mq s p (q\<lparr>q_next := n\<rparr>)) = mq_view s"
  by (rule ext) (simp add: mq_view_def mq_at_set)

lemma globalmq_push_view: "globalmq_push s p = Some s' \<Longrightarrow> mq_view s' = mq_view s"
  by (auto simp: globalmq_push_def mq_view_next split: option.splits if_splits Option.bind_splits)

lemma globalmq_pop_view: "globalmq_pop s = Some (s', r) \<Longrightarrow> mq_view s' = mq_view s"
  by (auto simp: globalmq_pop_def Let_def mq_view_next split: option.splits if_splits Option.bind_splits)

lemma mq_view_SomeD:
  "mq_view s p = Some (h, r, xs) \<Longrightarrow> \<exists>q. mq_at s p = Some q \<and> q_handle q = h \<and> (q_release q \<noteq> 0) = r \<and> mq_items q = xs"
  by (auto simp: mq_view_def)

lemma mq_push_ring_handle: "mq_push_ring q m = Some q1 \<Longrightarrow> q_handle q1 = q_handle q"
  by (auto simp: mq_push_ring_def expand_queue_def Let_def split: if_splits)

lemma mq_pop_handle: "mq_pop q = Some (q1, m) \<Longrightarrow> q_handle q1 = q_handle q \<and> q_release q1 = q_release q"
  by (auto simp: mq_pop_def Let_def split: if_splits Option.bind_splits)

lemma skynet_mq_push_view:
  assumes q: "mq_at s p = Some q" and ok: "mq_wf q" "length (mq_items q) < mq_limit"
    and p: "skynet_mq_push s p m = Some s'"
  shows "mq_view s' = (mq_view s)(p \<mapsto> (q_handle q, q_release q \<noteq> 0, mq_items q @ [m]))"
proof -
  obtain q1 where q1: "mq_push_ring q m = Some q1" "mq_items q1 = mq_items q @ [m]" "q_release q1 = q_release q"
    using mq_push_ring_items [OF ok, of m] by blast
  have h: "q_handle q1 = q_handle q" by (rule mq_push_ring_handle [OF q1(1)])
  have i: "mq_items (q1\<lparr>q_in_global := g\<rparr>) = mq_items q1" for g by (simp add: mq_items_def)
  show ?thesis
  proof (cases "q_in_global q1 = 0")
    case True
    then have "globalmq_push (set_mq s p (q1\<lparr>q_in_global := MQ_IN_GLOBAL\<rparr>)) p = Some s'"
      using p q q1(1) by (simp add: skynet_mq_push_def)
    from globalmq_push_view [OF this] show ?thesis using q q1 h by (simp add: mq_view_set i)
  next
    case False
    then have "s' = set_mq s p q1" using p q q1(1) by (simp add: skynet_mq_push_def)
    then show ?thesis using q q1 h by (simp add: mq_view_set)
  qed
qed

lemma mq_pop_items:
  assumes "mq_wf q" "mq_pop q = Some (q1, m)"
  shows "mq_items q1 = tl (mq_items q) \<and> m = (if mq_items q = [] then None else Some (hd (mq_items q)))"
proof (cases "mq_items q")
  case Nil
  then show ?thesis using mq_pop_empty [OF assms(1) Nil] assms(2) by (auto simp: mq_items_def)
next
  case (Cons x xs)
  then show ?thesis using mq_pop_Cons [OF assms(1) Cons] assms(2) by auto
qed

lemma drop_queue_others:
  assumes "drop_queue s p ds = Some (s', out)"
  shows "\<forall>r. r \<noteq> p \<longrightarrow> mq_at s' r = mq_at s r"
proof -
  have "\<forall>r. r \<noteq> p \<longrightarrow> mq_at (fst (s', out)) r = mq_at s r"
    using assms
  proof (rule drop_queue.raw_induct [where P = "\<lambda>s p ds y. \<forall>r. r \<noteq> p \<longrightarrow> mq_at (fst y) r = mq_at s r", rotated])
    fix dq s p ds y
    assume ih: "\<And>s p ds y. dq s p ds = Some y \<Longrightarrow> \<forall>r. r \<noteq> p \<longrightarrow> mq_at (fst y) r = mq_at s r"
      and e: "Option.bind (skynet_mq_pop s p) (\<lambda>(s', m). case m of None \<Rightarrow> Option.bind (mq_free s' p) (\<lambda>s''. Some (s'', ds))
        | Some msg \<Rightarrow> dq s' p (ds @ [msg])) = Some y"
    obtain q q1 m where q: "mq_at s p = Some q" "mq_pop q = Some (q1, m)"
      and c: "(case m of None \<Rightarrow> Option.bind (mq_free (set_mq s p q1) p) (\<lambda>s''. Some (s'', ds))
        | Some msg \<Rightarrow> dq (set_mq s p q1) p (ds @ [msg])) = Some y"
      using e by (auto simp: skynet_mq_pop_def split: Option.bind_splits)
    have s1: "mq_at (set_mq s p q1) r = mq_at s r" if "r \<noteq> p" for r using q(1) that by (simp add: mq_at_set)
    show "\<forall>r. r \<noteq> p \<longrightarrow> mq_at (fst y) r = mq_at s r"
    proof (cases m)
      case None
      then obtain s'' where "mq_free (set_mq s p q1) p = Some s''" "y = (s'', ds)"
        using c by (auto split: Option.bind_splits)
      moreover from this have "mq_at s'' r = mq_at (set_mq s p q1) r" if "r \<noteq> p" for r
        using that by (auto simp: mq_free_def mq_at_def nth_list_update split: Option.bind_splits if_splits)
      ultimately show ?thesis using s1 by simp
    next
      case (Some msg)
      then have "dq (set_mq s p q1) p (ds @ [msg]) = Some y" using c by simp
      from ih [OF this] show ?thesis using s1 by simp
    qed
  qed
  then show ?thesis by simp
qed

definition mq_held :: "mqstate \<Rightarrow> nat set \<Rightarrow> bool" where
  "mq_held s H = sys_inv (s, H)"

interpretation mb: mailboxes mq_held mq_view mq_limit skynet_mq_create skynet_mq_push skynet_mq_pop
  skynet_mq_mark_release skynet_mq_release globalmq_push globalmq_pop
proof
  fix s H p
  assume "mq_held s H" "p \<in> H"
  then show "mq_view s p \<noteq> None"
    using sys_inv_forD(3) by (auto simp: mq_held_def sys_inv_def mq_view_def)
next
  fix s H h s' p
  assume inv: "mq_held s H" and c: "skynet_mq_create s h = (s', p)"
  have "mq_at s' = (mq_at s)(p \<mapsto> mq_create h)" "mq_at s p = None"
    using c by (auto simp: skynet_mq_create_def mq_at_def fun_eq_iff nth_append)
  moreover have "q_handle (mq_create h) = h" "q_release (mq_create h) = 0" by (simp_all add: mq_create_def)
  ultimately show "mq_held s' (insert p H) \<and> mq_view s p = None \<and> mq_view s' = (mq_view s)(p \<mapsto> (h, False, []))"
    using sys_create [OF _ c] inv mq_create_wf(2) [of h]
    by (auto simp: mq_held_def sys_inv_def mq_view_def fun_eq_iff)
next
  fix s H p h xs m
  assume inv: "mq_held s H" and v: "mq_view s p = Some (h, False, xs)" and l: "length xs < mq_limit"
  obtain L where L: "sys_inv_for L (s, H)" using inv by (auto simp: mq_held_def sys_inv_def)
  obtain q where q: "mq_at s p = Some q" "q_handle q = h" "q_release q = 0" "mq_items q = xs"
    using mq_view_SomeD [OF v] by auto
  have wf: "mq_wf q" using sys_inv_forD(5) [OF L q(1)] by simp
  have len: "length (mq_items q) < mq_limit" using l q(4) by simp
  from sys_push [OF L q(1,3) len, of m] obtain s' L' where
    s': "skynet_mq_push s p m = Some s'" "sys_inv_for L' (s', H)" by blast
  then show "\<exists>s'. skynet_mq_push s p m = Some s' \<and> mq_held s' H \<and> mq_view s' = (mq_view s)(p \<mapsto> (h, False, xs @ [m]))"
    using skynet_mq_push_view [OF q(1) wf len s'(1)] q by (auto simp: mq_held_def sys_inv_def)
next
  fix s H p h xs
  assume inv: "mq_held s H" and p: "p \<in> H" and v: "mq_view s p = Some (h, False, xs)"
  obtain L where L: "sys_inv_for L (s, H)" using inv by (auto simp: mq_held_def sys_inv_def)
  obtain q where q: "mq_at s p = Some q" "q_handle q = h" "q_release q = 0" "mq_items q = xs"
    using mq_view_SomeD [OF v] by auto
  have wf: "mq_wf q" using sys_inv_forD(5) [OF L q(1)] by simp
  have "unreleased s p" using q by (simp add: unreleased_def)
  from sys_pop [OF L p this] q(1) obtain s' m where s': "skynet_mq_pop s p = Some (s', m)"
    "(xs = [] \<and> m = None \<and> sys_inv_for L (s', H - {p})) \<or> (xs \<noteq> [] \<and> sys_inv_for L (s', H))"
    using q(4) by auto
  obtain q1 where q1: "mq_pop q = Some (q1, m)" "s' = set_mq s p q1"
    using s'(1) q(1) by (auto simp: skynet_mq_pop_def split: Option.bind_splits)
  have vw: "mq_view s' = (mq_view s)(p \<mapsto> (h, False, tl xs))" "m = (if xs = [] then None else Some (hd xs))"
    using mq_pop_items [OF wf q1(1)] mq_pop_handle [OF q1(1)] q q1(2) by (auto simp: mq_view_set)
  show "\<exists>s'. skynet_mq_pop s p = Some (s', if xs = [] then None else Some (hd xs)) \<and>
      mq_held s' (if xs = [] then H - {p} else H) \<and> mq_view s' = (mq_view s)(p \<mapsto> (h, False, tl xs))"
    using s' vw by (auto simp: mq_held_def sys_inv_def)
next
  fix s H p h xs
  assume inv: "mq_held s H" and v: "mq_view s p = Some (h, False, xs)"
  obtain L where L: "sys_inv_for L (s, H)" using inv by (auto simp: mq_held_def sys_inv_def)
  obtain q where q: "mq_at s p = Some q" "q_handle q = h" "q_release q = 0" "mq_items q = xs"
    using mq_view_SomeD [OF v] by auto
  have "unreleased s p" using q by (simp add: unreleased_def)
  from sys_mark [OF L this] obtain s' L' where s': "skynet_mq_mark_release s p = Some s'" "sys_inv_for L' (s', H)"
    by blast
  have i: "mq_items (q\<lparr>q_release := 1\<rparr>) = mq_items q" by (simp add: mq_items_def)
  have "mq_view s' = mq_view (set_mq s p (q\<lparr>q_release := 1\<rparr>))"
    using s'(1) q by (auto simp: skynet_mq_mark_release_def Let_def globalmq_push_view split: if_splits)
  then show "\<exists>s'. skynet_mq_mark_release s p = Some s' \<and> mq_held s' H \<and> mq_view s' = (mq_view s)(p \<mapsto> (h, True, xs))"
    using s' q i by (auto simp: mq_view_set mq_held_def sys_inv_def)
next
  fix s H p h r xs
  assume inv: "mq_held s H" and p: "p \<in> H" and v: "mq_view s p = Some (h, r, xs)"
  obtain L where L: "sys_inv_for L (s, H)" using inv by (auto simp: mq_held_def sys_inv_def)
  obtain q where q: "mq_at s p = Some q" "q_handle q = h" "(q_release q \<noteq> 0) = r" "mq_items q = xs"
    using mq_view_SomeD [OF v] by auto
  from sys_release [OF L p] q(1) obtain s' ds L' where s': "skynet_mq_release s p = Some (s', ds)"
    "sys_inv_for L' (s', H - {p})"
    and c: "if q_release q = 0 then ds = [] \<and> p \<in> set L' else ds = mq_items q \<and> mq_at s' p = None" by auto
  have ds: "ds = (if r then xs else [])" using c q(3,4) by (auto split: if_splits)
  have "mq_view s' = (if r then (mq_view s)(p := None) else mq_view s)"
  proof (cases r)
    case True
    then have "drop_queue s p [] = Some (s', ds)" "mq_at s' p = None"
      using s'(1) c q(1,3) by (auto simp: skynet_mq_release_def)
    then show ?thesis using drop_queue_others [of s p "[]" s' ds] True by (auto simp: mq_view_def fun_eq_iff)
  next
    case False
    then show ?thesis using s'(1) q(1,3) by (auto simp: skynet_mq_release_def globalmq_push_view split: Option.bind_splits)
  qed
  then show "\<exists>s'. skynet_mq_release s p = Some (s', if r then xs else []) \<and> mq_held s' (H - {p}) \<and>
      mq_view s' = (if r then (mq_view s)(p := None) else mq_view s)"
    using s' ds by (auto simp: mq_held_def sys_inv_def)
next
  fix s H p
  assume inv: "mq_held s H" and p: "p \<in> H"
  obtain L where L: "sys_inv_for L (s, H)" using inv by (auto simp: mq_held_def sys_inv_def)
  from sys_put [OF L p] show "\<exists>s'. globalmq_push s p = Some s' \<and> mq_held s' (H - {p}) \<and> mq_view s' = mq_view s"
    using globalmq_push_view by (auto simp: mq_held_def sys_inv_def)
next
  fix s H
  assume inv: "mq_held s H"
  obtain L where L: "sys_inv_for L (s, H)" using inv by (auto simp: mq_held_def sys_inv_def)
  show "\<exists>s' r. globalmq_pop s = Some (s', r) \<and> mq_view s' = mq_view s \<and>
      (case r of None \<Rightarrow> mq_held s' H | Some p \<Rightarrow> p \<notin> H \<and> mq_held s' (insert p H))"
    using sys_take [OF L] globalmq_pop_view sys_inv_forD(2) [OF L] inv
    by (fastforce simp: mq_held_def sys_inv_def)
qed

end
