(* ===== verification/Timer.thy ===== *)
theory Timer
  imports Mq
begin

text \<open>
  \<open>skynet-src/skynet_timer.c\<close>: the hierarchical timing wheel. 256 near lists hold the timers of the
  current block of 256 ticks, four levels of 64 lists hold the later ones in blocks that are 64
  times as long from level to level; when the clock enters a new block its list is spread over the
  finer levels. Times are \<open>uint32_t\<close> and wrap around.

  A \<open>link_list\<close> is the list of its nodes (its \<open>tail\<close> pointer only makes the append constant-time).
  \<open>timer_execute\<close> gives up the lock while it dispatches, so other threads may add timers at that
  moment: \<open>ws\<close> lists, window by window, the timers they add. All other code runs under the lock.
\<close>

section \<open>State\<close>

definition TIME_NEAR_SHIFT :: nat where "TIME_NEAR_SHIFT = 8"
definition TIME_NEAR :: int where "TIME_NEAR = 2 ^ TIME_NEAR_SHIFT"
definition TIME_LEVEL_SHIFT :: nat where "TIME_LEVEL_SHIFT = 6"
definition TIME_LEVEL :: int where "TIME_LEVEL = 2 ^ TIME_LEVEL_SHIFT"
definition TIME_NEAR_MASK :: u32 where "TIME_NEAR_MASK = word_of_int (TIME_NEAR - 1)"
definition TIME_LEVEL_MASK :: u32 where "TIME_LEVEL_MASK = word_of_int (TIME_LEVEL - 1)"

lemmas time_consts = TIME_NEAR_SHIFT_def TIME_NEAR_def TIME_LEVEL_SHIFT_def TIME_LEVEL_def
  TIME_NEAR_MASK_def TIME_LEVEL_MASK_def

record timer_event =
  ev_handle :: u32
  ev_session :: int

record timer_node =
  expire :: u32
  event :: timer_event

record timer =
  near :: "timer_node list list"
  tlev :: "timer_node list list list"
  time :: u32
  starttime :: u32
  current :: u64
  current_point :: u64

definition timer_create_timer :: timer where
  "timer_create_timer =
     \<lparr>near = replicate (nat TIME_NEAR) [], tlev = replicate 4 (replicate (nat TIME_LEVEL) []),
      time = 0, starttime = 0, current = 0, current_point = 0\<rparr>"

section \<open>Adding and moving nodes\<close>

text \<open>The loop of \<open>add_node\<close> that finds the level.\<close>

function add_level :: "u32 \<Rightarrow> u32 \<Rightarrow> u32 \<Rightarrow> nat \<Rightarrow> nat" where
  "add_level tm ct msk i =
     (if i < 3 then
        if tm OR (msk - 1) = ct OR (msk - 1) then i
        else add_level tm ct (push_bit TIME_LEVEL_SHIFT msk) (Suc i)
      else i)"
  by pat_completeness auto
termination by (relation "measure (\<lambda>(_, _, _, i). 3 - i)") auto

declare add_level.simps [simp del]

definition add_node :: "timer \<Rightarrow> timer_node \<Rightarrow> timer" where
  "add_node T node =
     (let tm = expire node; ct = time T in
      if tm OR TIME_NEAR_MASK = ct OR TIME_NEAR_MASK then
        let j = unat (tm AND TIME_NEAR_MASK) in T\<lparr>near := (near T)[j := near T ! j @ [node]]\<rparr>
      else
        let i = add_level tm ct (push_bit TIME_LEVEL_SHIFT (word_of_int TIME_NEAR)) 0;
            j = unat (drop_bit (TIME_NEAR_SHIFT + i * TIME_LEVEL_SHIFT) tm AND TIME_LEVEL_MASK)
        in T\<lparr>tlev := (tlev T)[i := (tlev T ! i)[j := tlev T ! i ! j @ [node]]]\<rparr>)"

definition timer_add :: "timer \<Rightarrow> timer_event \<Rightarrow> int \<Rightarrow> timer" where
  "timer_add T ev tm = add_node T \<lparr>expire = word_of_int tm + time T, event = ev\<rparr>"

definition move_list :: "timer \<Rightarrow> nat \<Rightarrow> nat \<Rightarrow> timer" where
  "move_list T level idx =
     foldl add_node (T\<lparr>tlev := (tlev T)[level := (tlev T ! level)[idx := []]]\<rparr>) (tlev T ! level ! idx)"

section \<open>One tick\<close>

text \<open>
  The loop of \<open>timer_shift\<close>: the list to move, if any. \<open>mask\<close> is an \<open>int\<close>: shifting it beyond
  \<open>INT_MAX\<close> would be undefined.
\<close>

partial_function (option) shift_loop :: "u32 \<Rightarrow> int \<Rightarrow> u32 \<Rightarrow> nat \<Rightarrow> (nat \<times> nat) option option" where
  "shift_loop ct msk tm i =
     (if ct AND word_of_int (msk - 1) = 0 then
        let idx = unat (tm AND TIME_LEVEL_MASK) in
        if idx \<noteq> 0 then Some (Some (i, idx))
        else if is_i32 (msk * TIME_LEVEL)
        then shift_loop ct (msk * TIME_LEVEL) (drop_bit TIME_LEVEL_SHIFT tm) (Suc i)
        else None
      else Some None)"

definition timer_shift :: "timer \<Rightarrow> timer option" where
  "timer_shift T =
     (let ct = time T + 1; T1 = T\<lparr>time := ct\<rparr> in
      if ct = 0 then Some (move_list T1 3 0)
      else Option.bind (shift_loop ct TIME_NEAR (drop_bit TIME_NEAR_SHIFT ct) 0) (\<lambda>r.
             case r of
               None \<Rightarrow> Some T1
             | Some (i, idx) \<Rightarrow> if i < 4 then Some (move_list T1 i idx) else None))"

text \<open>\<open>PTYPE_RESPONSE\<close> of \<open>skynet.h\<close>; the message a timer sends.\<close>

definition PTYPE_RESPONSE :: u64 where "PTYPE_RESPONSE = 1"

definition timer_message :: "int \<Rightarrow> skynet_message" where
  "timer_message session =
     \<lparr>m_source = 0, m_session = session, m_data = 0, m_sz = push_bit MESSAGE_TYPE_SHIFT PTYPE_RESPONSE\<rparr>"

text \<open>The calls of \<open>skynet_context_push\<close>, in order.\<close>

definition dispatch_list :: "timer_node list \<Rightarrow> (u32 \<times> skynet_message) list" where
  "dispatch_list ns = map (\<lambda>n. (ev_handle (event n), timer_message (ev_session (event n)))) ns"

type_synonym window = "(timer_event \<times> int) list"

definition add_all :: "timer \<Rightarrow> window \<Rightarrow> timer" where
  "add_all T w = foldl (\<lambda>T (ev, n). timer_add T ev n) T w"

fun next_window :: "window list \<Rightarrow> window \<times> window list" where
  "next_window [] = ([], [])"
| "next_window (w # ws) = (w, ws)"

partial_function (option) timer_execute ::
  "timer \<Rightarrow> window list \<Rightarrow> (timer \<times> (u32 \<times> skynet_message) list \<times> window list) option" where
  "timer_execute T ws =
     (let idx = unat (time T AND TIME_NEAR_MASK) in
      if near T ! idx = [] then Some (T, [], ws)
      else
        let cur = near T ! idx;
            T1 = T\<lparr>near := (near T)[idx := []]\<rparr>;
            (w, ws') = next_window ws
        in Option.bind (timer_execute (add_all T1 w) ws') (\<lambda>(T2, out, ws'').
             Some (T2, dispatch_list cur @ out, ws'')))"

definition timer_update :: "timer \<Rightarrow> window list \<Rightarrow> (timer \<times> (u32 \<times> skynet_message) list) option" where
  "timer_update T ws =
     Option.bind (timer_execute T ws) (\<lambda>(T1, out1, ws1).
     Option.bind (timer_shift T1) (\<lambda>T2.
     Option.bind (timer_execute T2 ws1) (\<lambda>(T3, out2, _).
       Some (T3, out1 @ out2))))"

section \<open>The interface\<close>

text \<open>\<open>push_fails\<close> stands for a nonzero result of \<open>skynet_context_push\<close>.\<close>

definition skynet_timeout ::
  "(u32 \<Rightarrow> bool) \<Rightarrow> timer \<Rightarrow> u32 \<Rightarrow> int \<Rightarrow> int \<Rightarrow> timer \<times> (u32 \<times> skynet_message) list \<times> int" where
  "skynet_timeout push_fails T handle tm session =
     (if tm \<le> 0 then
        (T, [(handle, timer_message session)], if push_fails handle then -1 else session)
      else (timer_add T \<lparr>ev_handle = handle, ev_session = session\<rparr> tm, [], session))"

fun update_ticks ::
  "nat \<Rightarrow> timer \<Rightarrow> window list list \<Rightarrow> (timer \<times> (u32 \<times> skynet_message) list list) option" where
  "update_ticks 0 T wss = Some (T, [])"
| "update_ticks (Suc n) T wss =
     Option.bind (timer_update T (case wss of [] \<Rightarrow> [] | ws # _ \<Rightarrow> ws)) (\<lambda>(T', out).
     Option.bind (update_ticks n T' (case wss of [] \<Rightarrow> [] | _ # r \<Rightarrow> r)) (\<lambda>(T'', outs).
       Some (T'', out # outs)))"

text \<open>\<open>cp\<close> is the monotonic clock read by \<open>gettime\<close>, in centiseconds.\<close>

definition skynet_updatetime ::
  "u64 \<Rightarrow> timer \<Rightarrow> window list list \<Rightarrow> (timer \<times> (u32 \<times> skynet_message) list list) option" where
  "skynet_updatetime cp T wss =
     (if cp < current_point T then Some (T\<lparr>current_point := cp\<rparr>, [])
      else if cp \<noteq> current_point T then
        let diff = (ucast (cp - current_point T) :: u32);
            T1 = T\<lparr>current_point := cp, current := current T + ucast diff\<rparr>
        in update_ticks (unat diff) T1 wss
      else Some (T, []))"

definition skynet_starttime :: "timer \<Rightarrow> u32" where "skynet_starttime T = starttime T"

definition skynet_now :: "timer \<Rightarrow> u64" where "skynet_now T = current T"

text \<open>The clocks, from the \<open>tv_sec\<close> and \<open>tv_nsec\<close> that \<open>clock_gettime\<close> fills in.\<close>

definition systime :: "int \<Rightarrow> int \<Rightarrow> u32 \<times> u32" where
  "systime sec nsec = (word_of_int sec, word_of_int (nsec div 10000000))"

definition gettime :: "int \<Rightarrow> int \<Rightarrow> u64" where
  "gettime sec nsec = word_of_int sec * 100 + word_of_int (nsec div 10000000)"

definition skynet_thread_time :: "int \<Rightarrow> int \<Rightarrow> u64" where
  "skynet_thread_time sec nsec =
     word_of_int sec * 1000000 + word_of_int nsec div (1000000000 div 1000000)"

text \<open>\<open>sec\<close> and \<open>cs\<close> are what \<open>systime\<close> reads, \<open>cp\<close> what \<open>gettime\<close> reads.\<close>

definition skynet_timer_init :: "u32 \<Rightarrow> u32 \<Rightarrow> u64 \<Rightarrow> timer" where
  "skynet_timer_init sec cs cp =
     timer_create_timer\<lparr>starttime := sec, current := ucast cs, current_point := cp\<rparr>"

section \<open>Places in the wheel\<close>

lemma near_mask: "TIME_NEAR_MASK = mask 8" "TIME_LEVEL_MASK = mask 6"
  by (simp_all add: time_consts mask_eq_exp_minus_1)

definition blk :: "nat \<Rightarrow> u32 \<Rightarrow> nat" where
  "blk k x = unat x div 2 ^ (8 + 6 * k)"

definition level_of :: "u32 \<Rightarrow> u32 \<Rightarrow> nat" where
  "level_of c E =
     (if blk 1 c = blk 1 E then 0 else if blk 2 c = blk 2 E then 1
      else if blk 3 c = blk 3 E then 2 else 3)"

lemma add_level_eq: "add_level E c (push_bit TIME_LEVEL_SHIFT (word_of_int TIME_NEAR)) 0 = level_of c E"
proof -
  have m: "push_bit TIME_LEVEL_SHIFT (word_of_int TIME_NEAR) = (2 ^ 14 :: u32)"
     "push_bit TIME_LEVEL_SHIFT (2 ^ 14) = (2 ^ 20 :: u32)" "push_bit TIME_LEVEL_SHIFT (2 ^ 20) = (2 ^ 26 :: u32)"
    by (simp_all add: time_consts push_bit_eq_mult)
  have e: "(E OR (2 ^ n - 1)) = (c OR (2 ^ n - 1)) \<longleftrightarrow> unat c div 2 ^ n = unat E div 2 ^ n" for n
    using or_mask_eq_iff [of E n c] by (auto simp: mask_eq_exp_minus_1)
  show ?thesis unfolding m
    apply (subst add_level.simps, simp only: e)
    apply (subst add_level.simps, simp only: m e)
    apply (subst add_level.simps, simp only: m e)
    by (simp add: level_of_def blk_def add_level.simps [of _ _ _ "Suc (Suc (Suc 0))"])
qed


datatype slot = Near nat | Level nat nat

definition place :: "u32 \<Rightarrow> u32 \<Rightarrow> slot" where
  "place c E =
     (if blk 0 c = blk 0 E then Near (unat E mod 256)
      else Level (level_of c E) (blk (level_of c E) E mod 64))"

fun slot_list :: "timer \<Rightarrow> slot \<Rightarrow> timer_node list" where
  "slot_list T (Near j) = near T ! j"
| "slot_list T (Level i j) = tlev T ! i ! j"

fun set_slot :: "timer \<Rightarrow> slot \<Rightarrow> timer_node list \<Rightarrow> timer" where
  "set_slot T (Near j) ns = T\<lparr>near := (near T)[j := ns]\<rparr>"
| "set_slot T (Level i j) ns = T\<lparr>tlev := (tlev T)[i := (tlev T ! i)[j := ns]]\<rparr>"

fun valid_slot :: "slot \<Rightarrow> bool" where
  "valid_slot (Near j) \<longleftrightarrow> j < 256"
| "valid_slot (Level i j) \<longleftrightarrow> i < 4 \<and> j < 64"

definition shape :: "timer \<Rightarrow> bool" where
  "shape T \<longleftrightarrow> length (near T) = 256 \<and> length (tlev T) = 4 \<and> (\<forall>i<4. length (tlev T ! i) = 64)"

lemma level_of_less: "level_of c E < 4"
  by (simp add: level_of_def)

lemma valid_place [simp]: "valid_slot (place c E)"
  by (simp add: place_def level_of_less)

lemma add_node_place:
  "add_node T n = set_slot T (place (time T) (expire n)) (slot_list T (place (time T) (expire n)) @ [n])"
proof -
  have near: "expire n OR TIME_NEAR_MASK = time T OR TIME_NEAR_MASK \<longleftrightarrow> blk 0 (time T) = blk 0 (expire n)"
    unfolding near_mask or_mask_eq_iff by (auto simp: blk_def)
  have nj: "unat (expire n AND TIME_NEAR_MASK) = unat (expire n) mod 256"
    unfolding near_mask unat_and_mask by simp
  have lj: "unat (drop_bit (TIME_NEAR_SHIFT + i * TIME_LEVEL_SHIFT) (expire n) AND TIME_LEVEL_MASK) =
      blk i (expire n) mod 64" for i
    unfolding near_mask unat_and_mask unat_drop_bit_div
    by (simp add: blk_def time_consts mult.commute)
  show ?thesis
    unfolding add_node_def Let_def near nj add_level_eq lj by (simp add: place_def)
qed

lemma shape_set [simp]:
  assumes "shape T"
  shows "shape (set_slot T s ns)"
proof (cases s)
  case (Near j)
  then show ?thesis using assms by (simp add: shape_def)
next
  case (Level i j)
  then show ?thesis
    using assms by (cases "i < 4") (auto simp: shape_def nth_list_update list_update_beyond)
qed

lemma slot_list_set:
  "shape T \<Longrightarrow> valid_slot s \<Longrightarrow> slot_list (set_slot T s ns) s' = (if s' = s then ns else slot_list T s')"
  by (cases s; cases s') (auto simp: shape_def nth_list_update)

lemma time_set [simp]: "time (set_slot T s ns) = time T"
  by (cases s) auto

lemma slot_list_time [simp]: "slot_list (T\<lparr>time := c\<rparr>) s = slot_list T s"
  by (cases s) auto

declare slot_list.simps [simp del] set_slot.simps [simp del]

lemma add_node_simps:
  assumes "shape T"
  shows "shape (add_node T n)" "time (add_node T n) = time T"
    "slot_list (add_node T n) s =
       (if s = place (time T) (expire n) then slot_list T s @ [n] else slot_list T s)"
  using assms by (simp_all add: add_node_place slot_list_set)

lemma foldl_add_node:
  "shape T \<Longrightarrow> shape (foldl add_node T ns) \<and> time (foldl add_node T ns) = time T \<and>
   slot_list (foldl add_node T ns) s =
     slot_list T s @ filter (\<lambda>n. place (time T) (expire n) = s) ns"
  by (induction ns arbitrary: T) (auto simp: add_node_simps)

lemma move_list_slot:
  assumes "shape T" "i < 4" "j < 64"
  shows "shape (move_list T i j)" "time (move_list T i j) = time T"
    "slot_list (move_list T i j) s = (if s = Level i j then [] else slot_list T s) @
       filter (\<lambda>n. place (time T) (expire n) = s) (slot_list T (Level i j))"
  using foldl_add_node [of "set_slot T (Level i j) []" "slot_list T (Level i j)" s] assms
  unfolding move_list_def slot_list.simps [symmetric] set_slot.simps [symmetric]
  by (simp_all add: slot_list_set)


section \<open>Where the clock is\<close>

text \<open>The list that the tick to the time \<open>c\<close> spreads.\<close>

definition moved :: "u32 \<Rightarrow> slot option" where
  "moved c =
     (if c = 0 then Some (Level 3 0)
      else if unat c mod 256 \<noteq> 0 then None
      else if blk 0 c mod 64 \<noteq> 0 then Some (Level 0 (blk 0 c mod 64))
      else if blk 1 c mod 64 \<noteq> 0 then Some (Level 1 (blk 1 c mod 64))
      else if blk 2 c mod 64 \<noteq> 0 then Some (Level 2 (blk 2 c mod 64))
      else Some (Level 3 (blk 3 c mod 64)))"

lemma blk_Suc: "blk (Suc k) x = blk k x div 64"
  by (simp add: blk_def div_mult2_eq [symmetric] power_add algebra_simps)

lemma blk_numeral: "blk 1 x = blk 0 x div 64" "blk 2 x = blk 0 x div 64 div 64"
  "blk 3 x = blk 0 x div 64 div 64 div 64"
  unfolding numeral_2_eq_2 numeral_3_eq_3 One_nat_def blk_Suc by (rule refl)+

text \<open>A time \<open>E\<close> in the near future of \<open>c\<close>, in naturals.\<close>

lemma future_cases:
  fixes c E :: u32
  assumes "E \<noteq> c" "unat (E - c) < 2 ^ 31"
  shows "unat c < unat E \<or> unat E + 2 ^ 31 < unat c"
proof -
  have "unat (E - c) = (if unat c \<le> unat E then unat E - unat c else unat E + 2 ^ 32 - unat c)"
    by (simp add: unat_sub_if_size word_size)
  moreover have "unat E \<noteq> unat c" using assms(1) by (simp add: word_unat_eq_iff)
  ultimately show ?thesis using assms(2) by (auto split: if_splits)
qed

lemma unat_Suc_cases:
  fixes c :: u32
  shows "(c + 1 = 0 \<and> unat c = 2 ^ 32 - 1) \<or> (c + 1 \<noteq> 0 \<and> unat (c + 1) = Suc (unat c))"
proof (cases "c + 1 = 0")
  case True
  then have "c = -1" by (simp add: eq_neg_iff_add_eq_0)
  then show ?thesis using True by (simp add: unsigned_minus_1_eq_mask mask_eq_exp_minus_1)
next
  case False
  then show ?thesis using unatSuc [of c] by (simp add: add.commute)
qed

text \<open>\<open>starts k c\<close>: the time \<open>c\<close> starts a block of level \<open>k\<close>.\<close>

definition starts :: "nat \<Rightarrow> u32 \<Rightarrow> bool" where
  "starts k c \<longleftrightarrow> unat c mod 2 ^ (8 + 6 * k) = 0"

lemma starts_Suc: "starts (Suc k) c \<longleftrightarrow> starts k c \<and> blk k c mod 64 = 0"
proof -
  have "(2 :: nat) ^ (8 + 6 * Suc k) = 2 ^ (8 + 6 * k) * 64" by (simp add: power_add)
  then show ?thesis unfolding starts_def blk_def by (simp only: mod_mult2_eq) auto
qed

lemma starts_mono: "starts k c \<Longrightarrow> j \<le> k \<Longrightarrow> starts j c"
  by (induction k) (auto simp: starts_Suc le_Suc_eq)

lemma blk_next: "\<not> starts k (c + 1) \<Longrightarrow> blk k (c + 1) = blk k c"
  using unat_Suc_cases [of c] by (auto simp: starts_def blk_def div_Suc)

lemma blk_mono_eq: "blk k x = blk k y \<Longrightarrow> k \<le> l \<Longrightarrow> blk l x = blk l y"
  by (induction l) (auto simp: blk_Suc le_Suc_eq)

lemma blk_future:
  assumes E: "E \<noteq> c" "unat (E - c) < 2 ^ 31" and st: "starts k (c + 1)" and k: "k \<le> 3"
  shows "blk k E \<noteq> blk k c"
proof
  let ?n = "2 ^ (8 + 6 * k) :: nat"
  assume eq: "blk k E = blk k c"
  have "?n \<le> 2 ^ 26" by (rule power_increasing) (use k in simp_all)
  then have n: "?n \<le> 67108864" by simp
  have d: "unat x = blk k x * ?n + unat x mod ?n" "unat x mod ?n < ?n" for x
    unfolding blk_def by (simp_all only: div_mult_mod_eq) simp
  from future_cases [OF E] show False
  proof
    assume lt: "unat c < unat E"
    have b: "unat (c + 1) = Suc (unat c)" using unat_Suc_cases [of c] lt u32_less [of E] by auto
    then have "Suc (unat c) mod ?n = 0" using st by (simp add: starts_def)
    then have "Suc (unat c) div ?n = Suc (unat c div ?n)" by (simp add: div_Suc)
    moreover have "Suc (unat c) div ?n \<le> unat E div ?n" using lt by (intro div_le_mono) simp
    ultimately show False using eq by (simp add: blk_def)
  next
    assume "unat E + 2 ^ 31 < unat c"
    moreover have "unat c < unat E + ?n" using d [of c] d [of E] unfolding eq by linarith
    ultimately show False using n by simp
  qed
qed

lemma starts_4: "starts (Suc 3) c \<longleftrightarrow> c = 0"
proof -
  have "unat c mod 2 ^ 32 = unat c" by (rule mod_less [OF u32_less])
  then show ?thesis by (simp add: starts_def unat_eq_zero)
qed

lemma moved_cases:
  "(\<not> starts 0 c \<and> moved c = None) \<or>
   (\<exists>i\<le>3. starts i c \<and> (i < 3 \<longrightarrow> \<not> starts (Suc i) c) \<and> moved c = Some (Level i (blk i c mod 64)))"
proof -
  have z: "c = 0 \<longleftrightarrow> starts 3 c \<and> blk 3 c mod 64 = 0" using starts_4 [of c] by (simp only: starts_Suc)
  have s: "starts 1 c \<longleftrightarrow> starts 0 c \<and> blk 0 c mod 64 = 0"
    "starts 2 c \<longleftrightarrow> starts 1 c \<and> blk 1 c mod 64 = 0"
    "starts 3 c \<longleftrightarrow> starts 2 c \<and> blk 2 c mod 64 = 0"
    unfolding numeral_2_eq_2 numeral_3_eq_3 One_nat_def by (rule starts_Suc)+
  have st0: "unat c mod 256 \<noteq> 0 \<longleftrightarrow> \<not> starts 0 c" by (simp add: starts_def)
  consider "\<not> starts 0 c" | "starts 0 c" "\<not> starts 1 c" | "starts 1 c" "\<not> starts 2 c"
    | "starts 2 c" "\<not> starts 3 c" | "starts 3 c" by blast
  then show ?thesis
  proof cases
    case 1
    then have "c \<noteq> 0" using z s by auto
    moreover have "unat c mod 256 \<noteq> 0" using 1 st0 by blast
    ultimately show ?thesis using 1 by (simp add: moved_def)
  next
    case 2
    then have "c \<noteq> 0" using z s by auto
    then show ?thesis using 2 s st0 by (intro disjI2 exI [of _ 0]) (simp add: moved_def)
  next
    case 3
    then have "c \<noteq> 0" using z s by auto
    then show ?thesis
      using 3 s st0 by (intro disjI2 exI [of _ 1]) (simp add: moved_def numeral_2_eq_2)
  next
    case 4
    then have "c \<noteq> 0" using z by auto
    then show ?thesis
      using 4 s st0 by (intro disjI2 exI [of _ 2]) (simp add: moved_def numeral_3_eq_3)
  next
    case 5
    then show ?thesis using s st0 z by (intro disjI2 exI [of _ 3]) (auto simp: moved_def)
  qed
qed

lemma place_cong:
  assumes "\<And>k. k \<le> 3 \<Longrightarrow> blk k c' = blk k E \<longleftrightarrow> blk k c = blk k E"
  shows "place c' E = place c E"
  using assms [of 0] assms [of 1] assms [of 2] assms [of 3] by (simp add: place_def level_of_def)

lemma place_levelI:
  assumes "i \<le> 3" "\<And>k. k \<le> i \<Longrightarrow> blk k c \<noteq> blk k E" "i < 3 \<Longrightarrow> blk (i + 1) c = blk (i + 1) E"
  shows "place c E = Level i (blk i E mod 64)"
proof -
  have "blk 0 c \<noteq> blk 0 E" using assms(2) by simp
  moreover have "i = 0 \<or> i = 1 \<or> i = 2 \<or> i = 3" using assms(1) by auto
  then have "level_of c E = i"
  proof (elim disjE)
    assume "i = 0" then show ?thesis using assms(3) by (simp add: level_of_def)
  next
    assume i: "i = 1"
    then have "blk 2 c = blk 2 E" using assms(3) by (simp add: numeral_2_eq_2)
    then show ?thesis using assms(2) [of 1] i by (simp add: level_of_def)
  next
    assume i: "i = 2"
    then have "blk 3 c = blk 3 E" using assms(3) by simp
    then show ?thesis using assms(2) [of 1] assms(2) [of 2] i by (simp add: level_of_def)
  next
    assume i: "i = 3"
    then show ?thesis using assms(2) [of 1] assms(2) [of 2] assms(2) [of 3] by (simp add: level_of_def)
  qed
  ultimately show ?thesis by (simp add: place_def)
qed

lemma place_shift:
  assumes E: "E \<noteq> c" "unat (E - c) < 2 ^ 31" and m: "Some (place c E) \<noteq> moved (c + 1)"
  shows "place (c + 1) E = place c E"
  using moved_cases [of "c + 1"]
proof (elim disjE exE conjE)
  assume "\<not> starts 0 (c + 1)"
  then have "blk k (c + 1) = blk k c" for k using blk_next starts_mono by blast
  then show ?thesis by (intro place_cong) simp
next
  fix i
  assume i: "i \<le> 3" "starts i (c + 1)" "i < 3 \<longrightarrow> \<not> starts (Suc i) (c + 1)"
    and mv: "moved (c + 1) = Some (Level i (blk i (c + 1) mod 64))"
  have hi: "blk k (c + 1) = blk k c" if "i < k" "k \<le> 3" for k
    using blk_next [of k c] starts_mono [of k "c + 1" "Suc i"] i that by auto
  have lo: "blk k E \<noteq> blk k c" if "k \<le> i" for k
    using blk_future [OF E] starts_mono [OF i(2) that] i(1) that by simp
  have "blk k (c + 1) \<noteq> blk k E" if "k \<le> i" for k
  proof
    assume eq: "blk k (c + 1) = blk k E"
    have "blk i (c + 1) = blk i E" using blk_mono_eq [OF eq that] .
    moreover have "i < 3 \<Longrightarrow> blk (i + 1) c = blk (i + 1) E"
      using hi [of "i + 1"] blk_mono_eq [OF eq, of "i + 1"] that by simp
    ultimately have "place c E = Level i (blk i (c + 1) mod 64)"
      using place_levelI [of i c E] i(1) lo by (metis (no_types))
    then show False using m mv by simp
  qed
  then show ?thesis using hi lo by (intro place_cong) (metis linorder_not_le)
qed

lemma shift_loop_moved:
  assumes "c \<noteq> 0"
  shows "shift_loop c TIME_NEAR (drop_bit TIME_NEAR_SHIFT c) 0 =
    Some (case moved c of Some (Level i j) \<Rightarrow> Some (i, j) | _ \<Rightarrow> None)"
proof -
  have m: "word_of_int (2 ^ n - 1) = (mask n :: u32)" for n by (simp add: mask_eq_exp_minus_1)
  have z: "c AND mask n = 0 \<longleftrightarrow> unat c mod 2 ^ n = 0" for n
    using unat_and_mask [of c n] by (metis unat_0_iff)
  have lo: "shift_loop c (2 ^ (8 + 6 * k)) (drop_bit (8 + 6 * k) c) k =
      (if starts k c then
         if blk k c mod 64 \<noteq> 0 then Some (Some (k, blk k c mod 64))
         else if k < 3 then shift_loop c (2 ^ (8 + 6 * Suc k)) (drop_bit (8 + 6 * Suc k) c) (Suc k) else None
       else Some None)" if "k \<le> 3" for k
  proof -
    have i: "is_i32 (2 ^ (8 + 6 * Suc k)) \<longleftrightarrow> k < 3"
    proof -
      have "k = 0 \<or> k = 1 \<or> k = 2 \<or> k = 3" using that by auto
      then show ?thesis by (auto simp: is_i32_def time_consts)
    qed
    have e: "2 ^ (8 + 6 * k) * TIME_LEVEL = 2 ^ (8 + 6 * Suc k)"
      "drop_bit TIME_LEVEL_SHIFT (drop_bit (8 + 6 * k) c) = drop_bit (8 + 6 * Suc k) c"
      by (simp_all add: time_consts power_add drop_bit_drop_bit)
    have b: "unat (drop_bit (8 + 6 * k) c AND TIME_LEVEL_MASK) = blk k c mod 64"
      unfolding near_mask unat_and_mask unat_drop_bit_div blk_def by simp
    show ?thesis
      unfolding shift_loop.simps [of c "2 ^ (8 + 6 * k)" "drop_bit (8 + 6 * k) c" k] m z b e i Let_def starts_def
      by auto
  qed
  show ?thesis
    using moved_cases [of c]
  proof (elim disjE exE conjE)
    assume "\<not> starts 0 c" "moved c = None"
    then show ?thesis using lo [of 0] by (simp add: time_consts)
  next
    fix i
    assume i: "i \<le> 3" "starts i c" "i < 3 \<longrightarrow> \<not> starts (Suc i) c"
      and mv: "moved c = Some (Level i (blk i c mod 64))"
    have nz: "blk i c mod 64 \<noteq> 0"
    proof
      assume "blk i c mod 64 = 0"
      then have s: "starts (Suc i) c" unfolding starts_Suc using i(2) by simp
      then have "i = 3" using i(1,3) by linarith
      then show False using s assms starts_4 by blast
    qed
    have step: "shift_loop c (2 ^ (8 + 6 * k)) (drop_bit (8 + 6 * k) c) k = Some (Some (i, blk i c mod 64))"
      if "k \<le> i" for k
      using that
    proof (induction "i - k" arbitrary: k)
      case 0
      then show ?case using lo [of i] nz i by simp
    next
      case (Suc d)
      then have "starts (Suc k) c" using starts_mono [OF i(2)] by simp
      then have "starts k c" "blk k c mod 64 = 0" unfolding starts_Suc by simp_all
      moreover have k: "k \<le> 3" "k < 3" using Suc.hyps(2) i(1) by simp_all
      ultimately have "shift_loop c (2 ^ (8 + 6 * k)) (drop_bit (8 + 6 * k) c) k =
          shift_loop c (2 ^ (8 + 6 * Suc k)) (drop_bit (8 + 6 * Suc k) c) (Suc k)"
        using lo [OF k(1)] by (simp only: if_True) simp
      also have "\<dots> = Some (Some (i, blk i c mod 64))" by (rule Suc.hyps(1)) (use Suc in simp_all)
      finally show ?case .
    qed
    show ?thesis using step [of 0] mv by (simp add: time_consts)
  qed
qed

lemma timer_shift_eq:
  "timer_shift T = Some (case moved (time T + 1) of
      Some (Level i j) \<Rightarrow> move_list (T\<lparr>time := time T + 1\<rparr>) i j | _ \<Rightarrow> T\<lparr>time := time T + 1\<rparr>)"
proof (cases "time T + 1 = 0")
  case True
  then show ?thesis by (simp add: timer_shift_def moved_def)
next
  case False
  show ?thesis
    using moved_cases [of "time T + 1"] False
    by (auto simp: timer_shift_def shift_loop_moved Let_def)
qed

section \<open>Pending timers\<close>

text \<open>\<open>pend T E\<close>: the events due at the time \<open>E\<close>, in the order in which they will be sent.\<close>

definition pend :: "timer \<Rightarrow> u32 \<Rightarrow> timer_event list" where
  "pend T E = map event (filter (\<lambda>n. expire n = E) (slot_list T (place (time T) E)))"

definition node_ok :: "u32 \<Rightarrow> slot \<Rightarrow> timer_node \<Rightarrow> bool" where
  "node_ok c s n \<longleftrightarrow> place c (expire n) = s \<and> unat (expire n - c) < 2 ^ 31"

definition timer_inv :: "timer \<Rightarrow> bool" where
  "timer_inv T \<longleftrightarrow> shape T \<and> (\<forall>s n. valid_slot s \<longrightarrow> n \<in> set (slot_list T s) \<longrightarrow> node_ok (time T) s n)"

definition drained :: "timer \<Rightarrow> bool" where
  "drained T \<longleftrightarrow> pend T (time T) = []"

lemma timer_invD:
  "timer_inv T \<Longrightarrow> shape T"
  "timer_inv T \<Longrightarrow> valid_slot s \<Longrightarrow> n \<in> set (slot_list T s) \<Longrightarrow> place (time T) (expire n) = s"
  "timer_inv T \<Longrightarrow> valid_slot s \<Longrightarrow> n \<in> set (slot_list T s) \<Longrightarrow> unat (expire n - time T) < 2 ^ 31"
  by (auto simp: timer_inv_def node_ok_def)

text \<open>Events due at \<open>E\<close> are only in the list where \<open>E\<close> belongs.\<close>

lemma filter_elsewhere:
  assumes "timer_inv T" "valid_slot s" "s \<noteq> place (time T) E"
  shows "filter (\<lambda>n. expire n = E) (slot_list T s) = []"
  using assms timer_invD(2) by (fastforce simp: filter_empty_conv)

lemma place_now: "place c E = place c c \<longleftrightarrow> E = c"
proof
  assume "place c E = place c c"
  then have "blk 0 c = blk 0 E" "unat E mod 256 = unat c mod 256"
    by (auto simp: place_def split: if_splits)
  then have "unat E div 256 = unat c div 256" "unat E mod 256 = unat c mod 256" by (simp_all add: blk_def)
  then have "unat E = unat c" by (metis div_mult_mod_eq)
  then show "E = c" by (simp add: word_unat_eq_iff)
qed simp

lemma now_slot:
  assumes "timer_inv T"
  shows "pend T (time T) = map event (slot_list T (place (time T) (time T)))"
proof -
  have "expire n = time T" if "n \<in> set (slot_list T (place (time T) (time T)))" for n
    using timer_invD(2) [OF assms valid_place that] by (simp add: place_now)
  then have "filter (\<lambda>n. expire n = time T) (slot_list T (place (time T) (time T))) =
      slot_list T (place (time T) (time T))" by simp
  then show ?thesis unfolding pend_def by simp
qed

lemma drained_iff:
  assumes "timer_inv T"
  shows "drained T \<longleftrightarrow> slot_list T (place (time T) (time T)) = []"
  using now_slot [OF assms] by (simp add: drained_def)

lemma unat_ticks: "0 < n \<Longrightarrow> n < 2 ^ 31 \<Longrightarrow> unat (word_of_int n :: u32) = nat n"
  by (rule unat_word_of_int) simp_all

text \<open>Adding a timer.\<close>

lemma timer_add_spec:
  assumes inv: "timer_inv T" and n: "0 < n" "n < 2 ^ 31"
  shows "timer_inv (timer_add T ev n)" "time (timer_add T ev n) = time T"
    "pend (timer_add T ev n) = (pend T)(time T + word_of_int n := pend T (time T + word_of_int n) @ [ev])"
proof -
  let ?nd = "\<lparr>expire = word_of_int n + time T, event = ev\<rparr>"
  have T': "timer_add T ev n = add_node T ?nd" by (simp add: timer_add_def)
  note a = add_node_simps [OF timer_invD(1) [OF inv], of ?nd]
  have "unat (expire ?nd - time T) = nat n" using unat_ticks [OF n] by simp
  moreover have "nat n < 2 ^ 31" using n by (simp add: nat_less_iff)
  ultimately have u: "unat (expire ?nd - time T) < 2 ^ 31" by (rule ord_eq_less_trans)
  have "node_ok (time T) s m" if "valid_slot s" "m \<in> set (slot_list (add_node T ?nd) s)" for s m
  proof (cases "m = ?nd \<and> s = place (time T) (expire ?nd)")
    case True
    then show ?thesis using u by (simp add: node_ok_def)
  next
    case False
    then have "m \<in> set (slot_list T s)" using that(2) unfolding a(3) by (auto split: if_splits)
    then show ?thesis using inv that(1) by (simp add: timer_inv_def)
  qed
  then show "timer_inv (timer_add T ev n)" unfolding T' timer_inv_def a(2) using a(1) by blast
  show "time (timer_add T ev n) = time T" unfolding T' by (rule a)
  show "pend (timer_add T ev n) = (pend T)(time T + word_of_int n := pend T (time T + word_of_int n) @ [ev])"
    unfolding T' pend_def a(2,3) by (auto simp: fun_eq_iff add.commute)
qed

text \<open>The clock advances: what is due when does not change.\<close>

lemma timer_shift_spec:
  assumes inv: "timer_inv T" and dr: "drained T"
  shows "\<exists>T'. timer_shift T = Some T' \<and> timer_inv T' \<and> time T' = time T + 1 \<and> pend T' = pend T"
proof -
  let ?c = "time T" and ?c' = "time T + 1"
  define T1 where "T1 = T\<lparr>time := ?c'\<rparr>"
  obtain T' where sh: "timer_shift T = Some T'"
    and T': "T' = (case moved ?c' of Some (Level i j) \<Rightarrow> move_list T1 i j | _ \<Rightarrow> T1)"
    unfolding timer_shift_eq T1_def by blast
  have sh1: "shape T1" using timer_invD(1) [OF inv] by (simp add: T1_def shape_def)
  define mv where "mv = (case moved ?c' of Some s \<Rightarrow> slot_list T s | None \<Rightarrow> [])"
  have mvs: "moved ?c' = None \<or> (\<exists>i j. moved ?c' = Some (Level i j) \<and> i < 4 \<and> j < 64)"
    using moved_cases [of ?c'] by (auto simp: less_Suc_eq_le)
  have t': "time T' = ?c'" and shp: "shape T'" and sl: "slot_list T' s =
      (if Some s = moved ?c' then [] else slot_list T s) @ filter (\<lambda>n. place ?c' (expire n) = s) mv" for s
    using mvs move_list_slot [OF sh1] sh1 unfolding T' mv_def
    by (auto simp: T1_def)
  have vm: "valid_slot s" if "moved ?c' = Some s" for s using mvs that by auto
  have fut: "expire n \<noteq> ?c" "unat (expire n - ?c) < 2 ^ 31"
    if "valid_slot s" "n \<in> set (slot_list T s)" for s n
    using drained_iff [OF inv] dr timer_invD(2,3) [OF inv that] that by force+
  have fut': "unat (expire n - ?c') < 2 ^ 31" if "valid_slot s" "n \<in> set (slot_list T s)" for s n
  proof -
    have "expire n - ?c \<noteq> 0" using fut(1) [OF that] by simp
    then have "unat (expire n - ?c - 1) = unat (expire n - ?c) - 1" by (simp add: unat_minus_one)
    then show ?thesis using fut(2) [OF that] by (simp add: algebra_simps)
  qed
  have inmv: "\<exists>s. moved ?c' = Some s \<and> n \<in> set (slot_list T s)" if "n \<in> set mv" for n
    using that unfolding mv_def by (cases "moved ?c'") auto
  have "node_ok ?c' s n" if "valid_slot s" "n \<in> set (slot_list T' s)" for s n
  proof (cases "n \<in> set mv \<and> place ?c' (expire n) = s")
    case True
    then show ?thesis using inmv [of n] vm fut' by (auto simp: node_ok_def)
  next
    case False
    then have n: "n \<in> set (slot_list T s)" "Some s \<noteq> moved ?c'"
      using that(2) unfolding sl by (auto split: if_splits)
    have "place ?c (expire n) = s" using timer_invD(2) [OF inv that(1) n(1)] .
    then have "place ?c' (expire n) = s"
      using place_shift [OF fut [OF that(1) n(1)]] n(2) by simp
    then show ?thesis using fut' [OF that(1) n(1)] by (simp add: node_ok_def)
  qed
  then have inv': "timer_inv T'" unfolding timer_inv_def t' using shp by blast
  have "pend T' E = pend T E" for E
  proof (cases "pend T E = []")
    case True
    then have none: "filter (\<lambda>n. expire n = E) (slot_list T s) = []" if "valid_slot s" for s
      using filter_elsewhere [OF inv that, of E] by (cases "s = place ?c E") (auto simp: pend_def)
    have "filter (\<lambda>n. expire n = E) mv = []"
      using none vm by (auto simp: mv_def split: option.splits)
    then have "filter (\<lambda>n. expire n = E) (slot_list T' s) = []" if "valid_slot s" for s
      using none [OF that] unfolding sl by (auto simp: filter_empty_conv)
    then show ?thesis using True by (simp add: pend_def)
  next
    case False
    then obtain n where n: "n \<in> set (slot_list T (place ?c E))" "expire n = E"
      by (auto simp: pend_def filter_empty_conv)
    note f = fut [OF valid_place n(1), unfolded n(2)]
    show ?thesis
    proof (cases "Some (place ?c E) = moved ?c'")
      case True
      then have "mv = slot_list T (place ?c E)" by (metis mv_def option.simps(5))
      moreover have "filter (\<lambda>n. expire n = E) (if Some (place ?c' E) = moved ?c' then [] else slot_list T (place ?c' E)) = []"
        using filter_elsewhere [OF inv valid_place, of ?c' E E] True by (cases "place ?c' E = place ?c E") auto
      ultimately show ?thesis unfolding pend_def t' sl
        by (simp del: filter_filter add: filter_filter conj_commute cong: filter_cong conj_cong)
    next
      case ne: False
      have p: "place ?c' E = place ?c E" by (rule place_shift [OF f ne])
      have "filter (\<lambda>n. expire n = E) mv = []"
        using ne filter_elsewhere [OF inv vm, of _ E] by (auto simp: mv_def split: option.splits)
      then show ?thesis unfolding pend_def t' sl p using ne by (auto simp: filter_empty_conv)
    qed
  qed
  then show ?thesis using sh inv' t' by blast
qed

section \<open>The specification\<close>

text \<open>
  The abstract timer is the time and, for each time, the list of the events due then. A tick sends
  the events due at the new time; the first window of adds happens while they are sent, when there
  are any.
\<close>

type_synonym spec_timer = "u32 \<times> (u32 \<Rightarrow> timer_event list)"

definition send :: "timer_event \<Rightarrow> u32 \<times> skynet_message" where
  "send ev = (ev_handle ev, timer_message (ev_session ev))"

definition spec_add :: "spec_timer \<Rightarrow> timer_event \<Rightarrow> int \<Rightarrow> spec_timer" where
  "spec_add st ev n =
     (case st of (c, p) \<Rightarrow> (c, p(c + word_of_int n := p (c + word_of_int n) @ [ev])))"

definition spec_adds :: "spec_timer \<Rightarrow> window \<Rightarrow> spec_timer" where
  "spec_adds st w = foldl (\<lambda>st (ev, n). spec_add st ev n) st w"

definition spec_tick :: "spec_timer \<Rightarrow> window list \<Rightarrow> spec_timer \<times> (u32 \<times> skynet_message) list" where
  "spec_tick st ws =
     (case st of (c, p) \<Rightarrow>
        (spec_adds (c + 1, p(c + 1 := [])) (if p (c + 1) = [] then [] else fst (next_window ws)),
         map send (p (c + 1))))"

datatype timer_op = Add timer_event int | Tick "window list"

fun timer_run :: "timer \<Rightarrow> timer_op list \<Rightarrow> (timer \<times> (u32 \<times> skynet_message) list list) option" where
  "timer_run T [] = Some (T, [])"
| "timer_run T (Add ev n # ops) = timer_run (timer_add T ev n) ops"
| "timer_run T (Tick ws # ops) =
     Option.bind (timer_update T ws) (\<lambda>(T', out).
     Option.bind (timer_run T' ops) (\<lambda>(T'', outs). Some (T'', out # outs)))"

fun spec_run :: "spec_timer \<Rightarrow> timer_op list \<Rightarrow> spec_timer \<times> (u32 \<times> skynet_message) list list" where
  "spec_run st [] = (st, [])"
| "spec_run st (Add ev n # ops) = spec_run (spec_add st ev n) ops"
| "spec_run st (Tick ws # ops) =
     (let (st', out) = spec_tick st ws; (st'', outs) = spec_run st' ops in (st'', out # outs))"

definition window_ok :: "window \<Rightarrow> bool" where
  "window_ok w \<longleftrightarrow> (\<forall>(ev, n)\<in>set w. 0 < n \<and> n < 2 ^ 31)"

fun op_ok :: "timer_op \<Rightarrow> bool" where
  "op_ok (Add ev n) \<longleftrightarrow> 0 < n \<and> n < 2 ^ 31"
| "op_ok (Tick ws) \<longleftrightarrow> (\<forall>w\<in>set ws. window_ok w)"

definition timer_abs :: "timer \<Rightarrow> spec_timer" where
  "timer_abs T = (time T, pend T)"

definition timer_ready :: "timer \<Rightarrow> bool" where
  "timer_ready T \<longleftrightarrow> timer_inv T \<and> drained T"

lemma timer_add_abs:
  assumes "timer_inv T" "0 < n" "n < 2 ^ 31"
  shows "timer_inv (timer_add T ev n)" "timer_abs (timer_add T ev n) = spec_add (timer_abs T) ev n"
    "drained T \<Longrightarrow> drained (timer_add T ev n)"
proof -
  note a = timer_add_spec [OF assms, of ev]
  show "timer_inv (timer_add T ev n)" by (rule a)
  show "timer_abs (timer_add T ev n) = spec_add (timer_abs T) ev n"
    by (simp add: timer_abs_def spec_add_def a)
  have "unat (word_of_int n :: u32) \<noteq> 0" using unat_ticks [OF assms(2,3)] assms(2) by simp
  then have "time T \<noteq> time T + word_of_int n" by (metis add_cancel_right_right unat_0)
  then show "drained (timer_add T ev n)" if "drained T"
    using that by (simp add: drained_def a)
qed

lemma add_all_abs:
  assumes "window_ok w" "timer_inv T"
  shows "timer_inv (add_all T w) \<and> timer_abs (add_all T w) = spec_adds (timer_abs T) w \<and>
    (drained T \<longrightarrow> drained (add_all T w))"
  using assms
proof (induction w arbitrary: T)
  case Nil
  then show ?case by (simp add: add_all_def spec_adds_def)
next
  case (Cons x w)
  obtain ev n where x: "x = (ev, n)" by (cases x)
  have n: "0 < n" "n < 2 ^ 31" "window_ok w" using Cons.prems(1) by (auto simp: window_ok_def x)
  note a = timer_add_abs [OF Cons.prems(2) n(1,2), of ev]
  show ?case using Cons.IH [OF n(3) a(1)] a(2,3) by (simp add: add_all_def spec_adds_def x)
qed

lemma next_window_ok:
  "(\<forall>w\<in>set ws. window_ok w) \<Longrightarrow>
     window_ok (fst (next_window ws)) \<and> (\<forall>w\<in>set (snd (next_window ws)). window_ok w)"
  by (cases ws) (auto simp: window_ok_def)

lemma near_now: "near T ! unat (time T AND TIME_NEAR_MASK) = slot_list T (place (time T) (time T))"
  unfolding near_mask unat_and_mask by (simp add: place_def slot_list.simps)

lemma timer_execute_drained:
  "timer_inv T \<Longrightarrow> drained T \<Longrightarrow> timer_execute T ws = Some (T, [], ws)"
  by (subst timer_execute.simps) (simp add: near_now drained_iff)

lemma timer_execute_spec:
  assumes inv: "timer_inv T" and ws: "\<forall>w\<in>set ws. window_ok w" and ne: "pend T (time T) \<noteq> []"
  shows "\<exists>T'. timer_execute T ws = Some (T', map send (pend T (time T)), snd (next_window ws)) \<and>
    timer_ready T' \<and>
    timer_abs T' = spec_adds (time T, (pend T)(time T := [])) (fst (next_window ws))"
proof -
  let ?s = "place (time T) (time T)"
  define T1 where "T1 = set_slot T ?s []"
  note sh = timer_invD(1) [OF inv]
  have t1: "time T1 = time T" by (simp add: T1_def)
  have sl: "slot_list T1 s = (if s = ?s then [] else slot_list T s)" for s
    unfolding T1_def by (rule slot_list_set [OF sh valid_place])
  have inv1: "timer_inv T1"
    using inv sh unfolding timer_inv_def t1 sl by (auto simp: T1_def)
  have p1: "pend T1 = (pend T)(time T := [])"
    by (auto simp: fun_eq_iff pend_def t1 sl place_now)
  have d1: "drained T1" by (simp add: drained_def p1 t1)
  have nw: "window_ok (fst (next_window ws))" using next_window_ok [OF ws] by blast
  let ?T2 = "add_all T1 (fst (next_window ws))"
  note a = add_all_abs [OF nw inv1]
  have e2: "timer_execute ?T2 ws' = Some (?T2, [], ws')" for ws'
    by (rule timer_execute_drained) (use a d1 in auto)
  have T1': "T1 = T\<lparr>near := (near T)[unat (time T AND TIME_NEAR_MASK) := []]\<rparr>"
    unfolding T1_def near_mask unat_and_mask by (simp add: place_def set_slot.simps)
  have "timer_execute T ws = Some (?T2, map send (pend T (time T)), snd (next_window ws))"
    using ne unfolding now_slot [OF inv]
    by (subst timer_execute.simps)
      (simp add: near_now Let_def split_beta T1' [symmetric] e2 dispatch_list_def send_def)
  moreover have "timer_ready ?T2" using a d1 by (simp add: timer_ready_def)
  moreover have "timer_abs ?T2 = spec_adds (time T, (pend T)(time T := [])) (fst (next_window ws))"
    using a by (simp add: timer_abs_def t1 p1)
  ultimately show ?thesis by blast
qed

lemma timer_update_abs:
  assumes "timer_ready T" "\<forall>w\<in>set ws. window_ok w"
  shows "\<exists>T'. timer_update T ws = Some (T', snd (spec_tick (timer_abs T) ws)) \<and> timer_ready T' \<and>
    timer_abs T' = fst (spec_tick (timer_abs T) ws)"
proof -
  have inv: "timer_inv T" "drained T" using assms(1) by (auto simp: timer_ready_def)
  obtain T2 where T2: "timer_shift T = Some T2" "timer_inv T2" "time T2 = time T + 1" "pend T2 = pend T"
    using timer_shift_spec [OF inv] by blast
  have u: "timer_update T ws = Option.bind (timer_execute T2 ws) (\<lambda>(T3, out2, _). Some (T3, out2))"
    unfolding timer_update_def timer_execute_drained [OF inv] by (simp add: T2(1))
  show ?thesis
  proof (cases "pend T2 (time T2) = []")
    case True
    then have d: "drained T2" by (simp add: drained_def)
    have "(pend T)(time T + 1 := []) = pend T" using True T2 by auto
    then show ?thesis unfolding u timer_execute_drained [OF T2(2) d]
      using True T2 d by (simp add: timer_ready_def timer_abs_def spec_tick_def spec_adds_def)
  next
    case False
    show ?thesis unfolding u
      using timer_execute_spec [OF T2(2) assms(2) False] T2 False
      by (auto simp: timer_abs_def spec_tick_def)
  qed
qed

lemma timer_run_abs:
  assumes "timer_ready T" "\<forall>op\<in>set ops. op_ok op"
  shows "\<exists>T'. timer_run T ops = Some (T', snd (spec_run (timer_abs T) ops)) \<and> timer_ready T' \<and>
    timer_abs T' = fst (spec_run (timer_abs T) ops)"
  using assms
proof (induction ops arbitrary: T)
  case Nil
  then show ?case by simp
next
  case (Cons op ops)
  have ops: "\<forall>op\<in>set ops. op_ok op" using Cons.prems(2) by simp
  show ?case
  proof (cases op)
    case (Add ev n)
    have "timer_ready (timer_add T ev n)" "timer_abs (timer_add T ev n) = spec_add (timer_abs T) ev n"
      using timer_add_abs [of T n ev] Cons.prems Add by (auto simp: timer_ready_def)
    then show ?thesis using Cons.IH [OF _ ops, of "timer_add T ev n"] Add by simp
  next
    case (Tick ws)
    obtain T1 where T1: "timer_update T ws = Some (T1, snd (spec_tick (timer_abs T) ws))" "timer_ready T1"
      "timer_abs T1 = fst (spec_tick (timer_abs T) ws)"
      using timer_update_abs [of T ws] Cons.prems Tick by auto
    show ?thesis using Cons.IH [OF T1(2) ops] T1 Tick by (auto simp: Let_def split_beta)
  qed
qed


section \<open>When a timeout fires\<close>

fun op_events :: "timer_op \<Rightarrow> timer_event list" where
  "op_events (Add ev n) = [ev]"
| "op_events (Tick ws) = map fst (concat ws)"

fun ticks :: "timer_op list \<Rightarrow> nat" where
  "ticks [] = 0"
| "ticks (Add ev n # ops) = ticks ops"
| "ticks (Tick ws # ops) = Suc (ticks ops)"

text \<open>\<open>due ev st m\<close>: the event is due exactly in \<open>m\<close> ticks, or, for \<open>m = 0\<close>, not pending.\<close>

definition due :: "timer_event \<Rightarrow> spec_timer \<Rightarrow> nat \<Rightarrow> bool" where
  "due ev st m \<longleftrightarrow> (case st of (c, p) \<Rightarrow>
     m < 2 ^ 32 \<and> (\<forall>E. ev \<in> set (p E) \<longleftrightarrow> 0 < m \<and> E = c + word_of_nat m))"

lemma send_inj: "send a = send b \<longleftrightarrow> a = b"
  by (cases a; cases b) (auto simp: send_def timer_message_def)

lemma due_add: "ev' \<noteq> ev \<Longrightarrow> due ev st m \<Longrightarrow> due ev (spec_add st ev' n) m"
  by (cases st) (auto simp: due_def spec_add_def)

lemma due_adds: "ev \<notin> fst ` set w \<Longrightarrow> due ev st m \<Longrightarrow> due ev (spec_adds st w) m"
proof (induction w arbitrary: st)
  case Nil
  then show ?case by (simp add: spec_adds_def)
next
  case (Cons x w)
  obtain e n where x: "x = (e, n)" by (cases x)
  have "due ev (spec_add st e n) m" using Cons.prems by (intro due_add) (auto simp: x)
  then show ?case using Cons.IH [of "spec_add st e n"] Cons.prems(1) by (simp add: spec_adds_def x)
qed

lemma due_tick:
  assumes "ev \<notin> set (op_events (Tick ws))" "due ev st m"
  shows "due ev (fst (spec_tick st ws)) (m - 1)" "send ev \<in> set (snd (spec_tick st ws)) \<longleftrightarrow> m = 1"
proof -
  obtain c p where st: "st = (c, p)" by (cases st)
  have m: "m < 2 ^ 32" and p: "\<And>E. ev \<in> set (p E) \<longleftrightarrow> 0 < m \<and> E = c + word_of_nat m"
    using assms(2) by (auto simp: due_def st)
  have one: "c + 1 = c + word_of_nat m \<longleftrightarrow> m = 1"
  proof
    assume "c + 1 = c + word_of_nat m"
    then have "unat (word_of_nat m :: u32) = 1" by (metis add_left_cancel unat_1)
    then show "m = 1" using m by (simp add: unat_of_nat)
  qed simp
  have "ev \<in> set (p (c + 1)) \<longleftrightarrow> m = 1" using p [of "c + 1"] one by auto
  then show "send ev \<in> set (snd (spec_tick st ws)) \<longleftrightarrow> m = 1"
    by (auto simp: st spec_tick_def send_inj image_iff)
  have nx: "word_of_nat m = 1 + (word_of_nat (m - 1) :: u32)" if "0 < m"
    using that by (cases m) simp_all
  have "due ev (c + 1, p(c + 1 := [])) (m - 1)"
    unfolding due_def prod.case
  proof (intro conjI allI)
    show "m - 1 < 2 ^ 32" using m by simp
    fix E
    show "ev \<in> set ((p(c + 1 := [])) E) \<longleftrightarrow> 0 < m - 1 \<and> E = c + 1 + word_of_nat (m - 1)"
    proof (cases "E = c + 1")
      case True
      have "m - 1 = 0" if "c + 1 = c + 1 + (word_of_nat (m - 1) :: u32)"
      proof (cases "0 < m")
        case True
        have "c + 1 = c + word_of_nat m" unfolding nx [OF True] using that by (simp only: add.assoc)
        then have "m = 1" using one by blast
        then show ?thesis by simp
      qed simp
      then show ?thesis using True by auto
    next
      case False
      show ?thesis
      proof (cases "0 < m")
        case True
        have "ev \<in> set (p E) \<longleftrightarrow> E = c + 1 + word_of_nat (m - 1)"
          unfolding p [of E] nx [OF True] using True by (simp only: add.assoc simp_thms)
        moreover have "0 < m - 1" if "E = c + 1 + word_of_nat (m - 1)"
          using False that by (cases "m - 1") auto
        ultimately show ?thesis using False by auto
      next
        case False
        then show ?thesis using p [of E] \<open>E \<noteq> c + 1\<close> by simp
      qed
    qed
  qed
  moreover have "ev \<notin> fst ` set (if p (c + 1) = [] then [] else fst (next_window ws))"
    using assms(1) by (cases ws) auto
  ultimately show "due ev (fst (spec_tick st ws)) (m - 1)"
    unfolding st spec_tick_def prod.case fst_conv by (intro due_adds)
qed

lemma due_run:
  assumes "ev \<notin> set (concat (map op_events ops))" "due ev st m"
  shows "length (snd (spec_run st ops)) = ticks ops \<and>
    (\<forall>k<ticks ops. send ev \<in> set (snd (spec_run st ops) ! k) \<longleftrightarrow> Suc k = m)"
  using assms
proof (induction ops arbitrary: st m)
  case Nil
  then show ?case by simp
next
  case (Cons op ops)
  have nin: "ev \<notin> set (op_events op)" "ev \<notin> set (concat (map op_events ops))" using Cons.prems(1) by auto
  show ?case
  proof (cases op)
    case (Add e n)
    then have "due ev (spec_add st e n) m" using due_add Cons.prems(2) nin(1) by simp
    then show ?thesis using Cons.IH [OF nin(2)] Add by simp
  next
    case (Tick ws)
    note d = due_tick [OF nin(1)[unfolded Tick] Cons.prems(2)]
    have "due ev (fst (spec_tick st ws)) (m - 1)" by (rule d)
    note ih = Cons.IH [OF nin(2) this]
    have "send ev \<in> set ((snd (spec_tick st ws) # snd (spec_run (fst (spec_tick st ws)) ops)) ! k) \<longleftrightarrow> Suc k = m"
      if "k < Suc (ticks ops)" for k
      using that ih d(2) by (cases k) auto
    then show ?thesis using ih Tick by (simp add: Let_def split_beta)
  qed
qed

lemma due_run_end:
  "ev \<notin> set (concat (map op_events ops)) \<Longrightarrow> due ev st m \<Longrightarrow>
     due ev (fst (spec_run st ops)) (m - ticks ops)"
proof (induction ops arbitrary: st m)
  case Nil
  then show ?case by simp
next
  case (Cons op ops)
  have nin: "ev \<notin> set (op_events op)" "ev \<notin> set (concat (map op_events ops))" using Cons.prems(1) by auto
  show ?case
  proof (cases op)
    case (Add e n)
    then have "due ev (spec_add st e n) m" using due_add Cons.prems(2) nin(1) by simp
    then show ?thesis using Cons.IH [OF nin(2)] Add by simp
  next
    case (Tick ws)
    have "due ev (fst (spec_tick st ws)) (m - 1)"
      by (rule due_tick(1) [OF nin(1)[unfolded Tick] Cons.prems(2)])
    then show ?thesis using Cons.IH [OF nin(2)] Tick by (fastforce simp: Let_def split_beta)
  qed
qed

lemma spec_run_length: "length (snd (spec_run st ops)) = ticks ops"
proof (induction ops arbitrary: st)
  case Nil
  then show ?case by simp
next
  case (Cons op ops)
  then show ?case by (cases op) (simp_all add: Let_def split_beta)
qed

section \<open>Starting up and reading the clock\<close>

lemma timer_create_ready: "timer_ready timer_create_timer" "timer_abs timer_create_timer = (0, \<lambda>_. [])"
proof -
  have s: "slot_list timer_create_timer s = []" if "valid_slot s" for s
    using that by (cases s) (simp_all add: timer_create_timer_def slot_list.simps time_consts)
  have "shape timer_create_timer" by (simp add: shape_def timer_create_timer_def time_consts)
  then have i: "timer_inv timer_create_timer" using s by (simp add: timer_inv_def)
  have t: "time timer_create_timer = 0" by (simp add: timer_create_timer_def)
  have p: "pend timer_create_timer = (\<lambda>_. [])" by (simp add: fun_eq_iff pend_def s)
  show "timer_ready timer_create_timer" using i by (simp add: timer_ready_def drained_def p)
  show "timer_abs timer_create_timer = (0, \<lambda>_. [])" by (simp add: timer_abs_def t p)
qed

lemma timer_ready_clock:
  "timer_ready (T\<lparr>current_point := cp, current := cur\<rparr>) = timer_ready T"
  "timer_abs (T\<lparr>current_point := cp, current := cur\<rparr>) = timer_abs T"
proof -
  have s: "slot_list (T\<lparr>current_point := cp, current := cur\<rparr>) x = slot_list T x" for x
    by (cases x) (simp_all add: slot_list.simps)
  then have p: "pend (T\<lparr>current_point := cp, current := cur\<rparr>) = pend T" by (simp add: pend_def fun_eq_iff)
  show "timer_ready (T\<lparr>current_point := cp, current := cur\<rparr>) = timer_ready T"
    by (simp add: timer_ready_def timer_inv_def drained_def shape_def s p)
  show "timer_abs (T\<lparr>current_point := cp, current := cur\<rparr>) = timer_abs T"
    by (simp add: timer_abs_def p)
qed

definition tick_ops :: "nat \<Rightarrow> window list list \<Rightarrow> timer_op list" where
  "tick_ops n wss = map (\<lambda>i. Tick (if i < length wss then wss ! i else [])) [0..<n]"

lemma tick_ops_Suc:
  "tick_ops (Suc n) wss = Tick (case wss of [] \<Rightarrow> [] | ws # _ \<Rightarrow> ws) #
     tick_ops n (case wss of [] \<Rightarrow> [] | _ # r \<Rightarrow> r)"
  by (cases wss) (simp_all add: tick_ops_def upt_conv_Cons map_Suc_upt [symmetric] del: upt_Suc)

lemma update_ticks_run: "update_ticks n T wss = timer_run T (tick_ops n wss)"
proof (induction n arbitrary: T wss)
  case 0
  then show ?case by (simp add: tick_ops_def)
next
  case (Suc n)
  then show ?case by (simp add: tick_ops_Suc)
qed

lemma ticks_tick_ops [simp]: "ticks (tick_ops n wss) = n"
  by (induction n arbitrary: wss) (simp_all add: tick_ops_Suc tick_ops_def [of 0])

section \<open>Properties\<close>

text \<open>C1: the timing wheel implements the plain timer. Started empty, it takes any sequence of adds
  (of 1 to \<open>2 ^ 31 - 1\<close> ticks) and ticks without a fault or an endless loop, and each tick sends
  exactly the events that are due at the new time, in the order in which they were added, across
  the cascades between the levels and the wrap-around of the 32-bit clock.\<close>

theorem timer_refines:
  assumes "\<forall>op\<in>set ops. op_ok op"
  shows "\<exists>T. timer_run timer_create_timer ops = Some (T, snd (spec_run (0, \<lambda>_. []) ops)) \<and>
    (time T, pend T) = fst (spec_run (0, \<lambda>_. []) ops)"
  using timer_run_abs [OF timer_create_ready(1) assms] timer_create_ready(2) by (auto simp: timer_abs_def)

lemma timer_refines_witness:
  "\<exists>T. timer_run timer_create_timer [Add \<lparr>ev_handle = 1, ev_session = 7\<rparr> 2, Tick [], Tick []] =
     Some (T, [[], [(1, timer_message 7)]])"
  using timer_refines [of "[Add \<lparr>ev_handle = 1, ev_session = 7\<rparr> 2, Tick [], Tick []]"]
  by (auto simp: spec_add_def spec_tick_def spec_adds_def send_def)

text \<open>C3: a timeout fires once and at the right tick. After \<open>skynet_timeout\<close> with \<open>n\<close> ticks, at any
  moment of any run, with a session that is not otherwise in use, the message is sent by the
  \<open>n\<close>-th tick that follows and by no other, whatever else is added meanwhile.\<close>

theorem timeout_fires_exactly:
  assumes "\<forall>op\<in>set (before @ after). op_ok op" and "0 < n" "n < 2 ^ 31"
    and "\<lparr>ev_handle = h, ev_session = s\<rparr> \<notin> set (concat (map op_events (before @ after)))"
  shows "\<exists>T outs T' outs'. timer_run timer_create_timer before = Some (T, outs) \<and>
    timer_run (fst (skynet_timeout f T h n s)) after = Some (T', outs') \<and> length outs' = ticks after \<and>
    (\<forall>k<ticks after. (h, timer_message s) \<in> set (outs' ! k) \<longleftrightarrow> int (Suc k) = n)"
proof -
  let ?ev = "\<lparr>ev_handle = h, ev_session = s\<rparr>"
  obtain T where T: "timer_run timer_create_timer before = Some (T, snd (spec_run (0, \<lambda>_. []) before))"
    "timer_ready T" "timer_abs T = fst (spec_run (0, \<lambda>_. []) before)"
    using timer_run_abs [OF timer_create_ready(1), of before] assms(1) timer_create_ready(2) by auto
  have "due ?ev (timer_abs T) (0 - ticks before)"
    unfolding T(3) by (rule due_run_end) (use assms(4) in \<open>simp_all add: due_def\<close>)
  then have none: "due ?ev (timer_abs T) 0" by simp
  let ?T1 = "timer_add T ?ev n"
  have T1: "fst (skynet_timeout f T h n s) = ?T1" using assms(2) by (simp add: skynet_timeout_def)
  note add = timer_add_abs [OF _ assms(2,3), of T ?ev]
  have r1: "timer_ready ?T1" using T(2) add(1,3) by (simp add: timer_ready_def)
  have "nat n < 2 ^ 32" "0 < nat n" "word_of_nat (nat n) = (word_of_int n :: u32)"
    using assms(2,3) by (simp_all add: nat_less_iff)
  moreover have "timer_abs ?T1 = spec_add (time T, pend T) ?ev n"
    using add(2) T(2) by (simp add: timer_ready_def timer_abs_def)
  ultimately have due: "due ?ev (timer_abs ?T1) (nat n)"
    using none by (auto simp: due_def spec_add_def timer_abs_def)
  obtain T' where T': "timer_run ?T1 after = Some (T', snd (spec_run (timer_abs ?T1) after))"
    using timer_run_abs [OF r1] assms(1) by auto
  have "length (snd (spec_run (timer_abs ?T1) after)) = ticks after \<and>
    (\<forall>k<ticks after. send ?ev \<in> set (snd (spec_run (timer_abs ?T1) after) ! k) \<longleftrightarrow> Suc k = nat n)"
    by (rule due_run [OF _ due]) (use assms(4) in simp)
  then show ?thesis using T(1) T' T1 assms(2) by (auto simp: send_def)
qed

lemma timeout_fires_exactly_witness:
  "\<exists>T' outs'. timer_run (fst (skynet_timeout (\<lambda>_. False) timer_create_timer 1 3 7)) [Tick [], Tick [], Tick []] =
     Some (T', outs') \<and> (1, timer_message 7) \<in> set (outs' ! 2) \<and> (1, timer_message 7) \<notin> set (outs' ! 1)"
  using timeout_fires_exactly [of "[]" "[Tick [], Tick [], Tick []]" 3 1 7 "\<lambda>_. False"]
  by fastforce

text \<open>reading the clock runs the wheel once per elapsed centisecond. When the monotonic clock went
  from \<open>current_point\<close> to \<open>cp\<close>, less than \<open>2 ^ 32\<close> later, exactly that many ticks run and
  \<open>skynet_now\<close> advances by as much; when it went backwards nothing fires.\<close>

theorem updatetime_ticks:
  assumes "timer_ready T" and "\<forall>ws\<in>set wss. \<forall>w\<in>set ws. window_ok w"
    and "unat cp < unat (current_point T) + 2 ^ 32"
  shows "\<exists>T' outs. skynet_updatetime cp T wss = Some (T', outs) \<and> timer_ready T' \<and>
    length outs = unat cp - unat (current_point T) \<and>
    outs = snd (spec_run (time T, pend T) (tick_ops (unat cp - unat (current_point T)) wss))"
proof -
  let ?d = "unat cp - unat (current_point T)"
  have ok: "\<forall>op\<in>set (tick_ops n wss). op_ok op" for n
    using assms(2) by (auto simp: tick_ops_def)
  show ?thesis
  proof (cases "cp \<le> current_point T")
    case True
    then have d: "?d = 0" by (simp add: word_le_nat_alt)
    show ?thesis
    proof (cases "cp = current_point T")
      case True
      then show ?thesis using assms(1) by (simp add: skynet_updatetime_def tick_ops_def)
    next
      case False
      then have "cp < current_point T" using True by simp
      moreover have "timer_ready (T\<lparr>current_point := cp\<rparr>)"
        using assms(1) timer_ready_clock(1) [where T = T and cp = cp and cur = "current T"] by simp
      ultimately show ?thesis using d by (simp add: skynet_updatetime_def tick_ops_def)
    qed
  next
    case False
    then have lt: "unat (current_point T) < unat cp" by (simp add: word_le_nat_alt)
    then have "unat (cp - current_point T) = ?d" by (simp add: unat_sub_if_size)
    then have d: "unat (ucast (cp - current_point T) :: u32) = ?d"
      using assms(3) lt by (simp add: unsigned_ucast_eq take_bit_nat_eq_self)
    let ?T1 = "T\<lparr>current_point := cp, current := current T + ucast (ucast (cp - current_point T) :: u32)\<rparr>"
    have u: "skynet_updatetime cp T wss = timer_run ?T1 (tick_ops ?d wss)"
      using False by (auto simp: skynet_updatetime_def Let_def update_ticks_run d)
    have r: "timer_ready ?T1" "timer_abs ?T1 = (time T, pend T)"
      using assms(1) timer_ready_clock [where T = T] by (simp_all add: timer_abs_def)
    show ?thesis unfolding u using timer_run_abs [OF r(1) ok] r(2) spec_run_length by fastforce
  qed
qed

lemma updatetime_ticks_witness:
  "\<exists>T' outs. skynet_updatetime 3 timer_create_timer [] = Some (T', outs) \<and> length outs = 3"
  using updatetime_ticks [of timer_create_timer "[]" 3] timer_create_ready(1)
  by (auto simp: timer_create_timer_def)

end
