(* ===== verification/Server.thy ===== *)
theory Server
  imports Handle Mailbox Timer CString
begin

text \<open>
  \<open>skynet-src/skynet_server.c\<close>, with \<open>skynet_error.c\<close>, \<open>skynet_harbor.c\<close>, \<open>skynet_env.c\<close> and
  \<open>skynet_monitor.c\<close>: the contexts of the services, sending, dispatching and the commands. It composes
  the handle table, the mailboxes and the timer. A context is a cell of a heap, freed cells are
  \<open>None\<close>; touching one is a fault. Blocks of memory are addresses in \<open>sv_mem\<close>; \<open>skynet_free\<close> records
  the address. What a service does in its callbacks, and the clock, are the parameter \<open>host\<close>; a
  callback is a transition of the whole state. A function runs as one step: the interleaving of
  threads inside a function is not modelled here (see \<open>Locks\<close>, \<open>Mq\<close> and the race in \<open>Handle\<close>).
\<close>

section \<open>State\<close>

definition PTYPE_SYSTEM :: u64 where "PTYPE_SYSTEM = 4"
definition PTYPE_HARBOR :: u64 where "PTYPE_HARBOR = 5"
definition GLOBALNAME_LENGTH :: nat where "GLOBALNAME_LENGTH = 16"

record skynet_context =
  c_instance :: nat
  c_mod :: nat
  c_cb_ud :: nat
  c_cb :: "nat option"
  c_queue :: nat
  c_logfile :: "nat option"
  c_cpu_cost :: u64
  c_cpu_start :: u64
  c_result :: bytes
  c_handle :: u32
  c_session_id :: int
  c_ref :: int
  c_message_count :: u64
  c_init :: bool
  c_endless :: bool
  c_profile :: bool

text \<open>
  The source leaves the name of a remote message uninitialised when its destination is a handle; the
  model stores the empty name there, which no reader of such a message looks at.
\<close>

record remote_message =
  rm_name :: bytes
  rm_handle :: u32
  rm_message :: u64
  rm_sz :: u64
  rm_type :: u64

datatype block = Raw bytes | Remote remote_message

datatype sv_event =
    Log_output nat u32 int int u64 u64  \<comment> \<open>file, source, type, session, data, size\<close>
  | File_write nat bytes
  | File_close nat
  | Endless u32 u32 int

record server =
  sv_ctx :: "skynet_context option list"
  sv_total :: int
  sv_ginit :: bool
  sv_monitor_exit :: u32
  sv_key :: u32  \<comment> \<open>the handle of the running thread\<close>
  sv_profile :: bool
  sv_handles :: handle_storage
  sv_mq :: mqstate
  sv_timer :: timer
  sv_env :: "bytes \<Rightarrow> bytes option"
  sv_harbor :: u32
  sv_remote :: "nat option"
  sv_logger :: u32
  sv_mem :: "u64 \<Rightarrow> block option"
  sv_brk :: u64
  sv_freed :: "u64 list"
  sv_events :: "sv_event list"
  sv_reads :: nat  \<comment> \<open>how often the thread clock has been read\<close>

record host =
  ho_query :: "bytes \<Rightarrow> nat option"
  ho_create :: "nat \<Rightarrow> nat option"
  ho_init :: "nat \<Rightarrow> nat \<Rightarrow> nat \<Rightarrow> bytes option \<Rightarrow> server \<Rightarrow> (server \<times> int) option"
  ho_release :: "nat \<Rightarrow> nat \<Rightarrow> server \<Rightarrow> server option"
  ho_signal :: "nat \<Rightarrow> nat \<Rightarrow> int \<Rightarrow> server \<Rightarrow> server option"
  ho_cb :: "nat \<Rightarrow> nat \<Rightarrow> nat \<Rightarrow> int \<Rightarrow> int \<Rightarrow> u32 \<Rightarrow> u64 \<Rightarrow> u64 \<Rightarrow> server \<Rightarrow> (server \<times> int) option"
  ho_clock :: "nat \<Rightarrow> u64"
  ho_fopen :: "bytes \<Rightarrow> nat option"
  ho_ctime :: "u64 \<Rightarrow> bytes"

definition ctx_at :: "server \<Rightarrow> nat \<Rightarrow> skynet_context option" where
  "ctx_at s c = (if c < length (sv_ctx s) then sv_ctx s ! c else None)"

definition upd_ctx :: "server \<Rightarrow> nat \<Rightarrow> (skynet_context \<Rightarrow> skynet_context) \<Rightarrow> server option" where
  "upd_ctx s c f = map_option (\<lambda>x. s\<lparr>sv_ctx := (sv_ctx s)[c := Some (f x)]\<rparr>) (ctx_at s c)"

text \<open>The handles stored in the contexts, as the handle table reads them.\<close>

definition handle_of :: "server \<Rightarrow> nat \<Rightarrow> u32" where
  "handle_of s c = (case ctx_at s c of None \<Rightarrow> 0 | Some x \<Rightarrow> c_handle x)"

definition skynet_malloc :: "server \<Rightarrow> block \<Rightarrow> server \<times> u64" where
  "skynet_malloc s b = (s\<lparr>sv_mem := (sv_mem s)(sv_brk s \<mapsto> b), sv_brk := sv_brk s + 1\<rparr>, sv_brk s)"

definition skynet_free :: "server \<Rightarrow> u64 \<Rightarrow> server" where
  "skynet_free s a = (if a = 0 then s else s\<lparr>sv_freed := sv_freed s @ [a]\<rparr>)"

definition emit :: "server \<Rightarrow> sv_event \<Rightarrow> server" where
  "emit s e = s\<lparr>sv_events := sv_events s @ [e]\<rparr>"

definition name_of :: "bytes \<Rightarrow> string" where
  "name_of b = map (\<lambda>c. char_of (unat c)) b"

section \<open>Contexts\<close>

definition skynet_context_total :: "server \<Rightarrow> int" where
  "skynet_context_total s = sv_total s"

definition context_inc :: "server \<Rightarrow> server" where "context_inc s = s\<lparr>sv_total := sv_total s + 1\<rparr>"
definition context_dec :: "server \<Rightarrow> server" where "context_dec s = s\<lparr>sv_total := sv_total s - 1\<rparr>"

definition THREAD_MAIN :: int where "THREAD_MAIN = 1"

definition skynet_current_handle :: "server \<Rightarrow> u32" where
  "skynet_current_handle s = (if sv_ginit s then sv_key s else word_of_int (- THREAD_MAIN))"

definition skynet_initthread :: "server \<Rightarrow> int \<Rightarrow> server" where
  "skynet_initthread s m = s\<lparr>sv_key := word_of_int (- m)\<rparr>"

definition skynet_globalinit :: "server \<Rightarrow> server" where
  "skynet_globalinit s = skynet_initthread (s\<lparr>sv_total := 0, sv_monitor_exit := 0, sv_ginit := True\<rparr>) THREAD_MAIN"

definition skynet_profile_enable :: "server \<Rightarrow> int \<Rightarrow> server" where
  "skynet_profile_enable s enable = s\<lparr>sv_profile := (enable \<noteq> 0)\<rparr>"

definition skynet_context_newsession :: "server \<Rightarrow> nat \<Rightarrow> (server \<times> int) option" where
  "skynet_context_newsession s c =
     Option.bind (ctx_at s c) (\<lambda>x.
       let session = to_i32 (c_session_id x + 1);
           session = (if session \<le> 0 then 1 else session) in
       map_option (\<lambda>s'. (s', session)) (upd_ctx s c (\<lambda>x. x\<lparr>c_session_id := session\<rparr>)))"

definition skynet_context_grab :: "server \<Rightarrow> nat \<Rightarrow> server option" where
  "skynet_context_grab s c = upd_ctx s c (\<lambda>x. x\<lparr>c_ref := c_ref x + 1\<rparr>)"

definition skynet_context_reserve :: "server \<Rightarrow> nat \<Rightarrow> server option" where
  "skynet_context_reserve s c = map_option context_dec (skynet_context_grab s c)"

definition delete_context :: "host \<Rightarrow> server \<Rightarrow> nat \<Rightarrow> server option" where
  "delete_context ho s c =
     Option.bind (ctx_at s c) (\<lambda>x.
     let s1 = (case c_logfile x of None \<Rightarrow> s | Some f \<Rightarrow> emit s (File_close f)) in
     Option.bind (ho_release ho (c_mod x) (c_instance x) s1) (\<lambda>s2.
     Option.bind (skynet_mq_mark_release (sv_mq s2) (c_queue x)) (\<lambda>mq.
     Some (context_dec (s2\<lparr>sv_mq := mq, sv_ctx := (sv_ctx s2)[c := None]\<rparr>)))))"

text \<open>The result's second part is whether the context still exists.\<close>

definition skynet_context_release :: "host \<Rightarrow> server \<Rightarrow> nat \<Rightarrow> (server \<times> bool) option" where
  "skynet_context_release ho s c =
     Option.bind (ctx_at s c) (\<lambda>x.
     Option.bind (upd_ctx s c (\<lambda>x. x\<lparr>c_ref := c_ref x - 1\<rparr>)) (\<lambda>s1.
       if c_ref x = 1 then map_option (\<lambda>s2. (s2, False)) (delete_context ho s1 c)
       else Some (s1, True)))"

text \<open>\<open>skynet_handle_grab\<close> of the table, with the reference it takes.\<close>

definition handle_grab :: "server \<Rightarrow> u32 \<Rightarrow> (server \<times> nat option) option" where
  "handle_grab s h =
     (case skynet_handle_grab (handle_of s) (sv_handles s) h of
        None \<Rightarrow> Some (s, None)
      | Some c \<Rightarrow> map_option (\<lambda>s'. (s', Some c)) (skynet_context_grab s c))"

text \<open>\<open>skynet_handle_retire\<close>, which releases the context after it has left the table.\<close>

definition handle_retire :: "host \<Rightarrow> server \<Rightarrow> u32 \<Rightarrow> (server \<times> int) option" where
  "handle_retire ho s h =
     (let (hs, r, c) = skynet_handle_retire (handle_of s) (sv_handles s) h; s1 = s\<lparr>sv_handles := hs\<rparr> in
      case c of
        None \<Rightarrow> Some (s1, r)
      | Some c \<Rightarrow> map_option (\<lambda>(s2, _). (s2, r)) (skynet_context_release ho s1 c))"

definition skynet_context_push :: "host \<Rightarrow> server \<Rightarrow> u32 \<Rightarrow> skynet_message \<Rightarrow> (server \<times> int) option" where
  "skynet_context_push ho s h m =
     Option.bind (handle_grab s h) (\<lambda>(s1, c).
       case c of
         None \<Rightarrow> Some (s1, -1)
       | Some c \<Rightarrow>
           Option.bind (ctx_at s1 c) (\<lambda>x.
           Option.bind (skynet_mq_push (sv_mq s1) (c_queue x) m) (\<lambda>mq.
           map_option (\<lambda>(s2, _). (s2, 0)) (skynet_context_release ho (s1\<lparr>sv_mq := mq\<rparr>) c))))"

definition skynet_context_endless :: "host \<Rightarrow> server \<Rightarrow> u32 \<Rightarrow> server option" where
  "skynet_context_endless ho s h =
     Option.bind (handle_grab s h) (\<lambda>(s1, c).
       case c of
         None \<Rightarrow> Some s1
       | Some c \<Rightarrow>
           Option.bind (upd_ctx s1 c (\<lambda>x. x\<lparr>c_endless := True\<rparr>)) (\<lambda>s2.
           map_option fst (skynet_context_release ho s2 c)))"

text \<open>\<open>skynet_error\<close>: \<open>text\<close> is the formatted line, which is sent to the logger.\<close>

definition context_handle :: "server \<Rightarrow> nat option \<Rightarrow> u32 option" where
  "context_handle s ctx =
     (case ctx of None \<Rightarrow> Some 0 | Some c \<Rightarrow> map_option c_handle (ctx_at s c))"

definition skynet_error :: "host \<Rightarrow> server \<Rightarrow> nat option \<Rightarrow> bytes \<Rightarrow> server option" where
  "skynet_error ho s ctx txt =
     (let logger = (if sv_logger s = 0 then skynet_handle_findname (sv_handles s) ''logger'' else sv_logger s);
          s1 = s\<lparr>sv_logger := logger\<rparr> in
      if logger = 0 then Some s1
      else
        let (s2, data) = skynet_malloc s1 (Raw (txt @ [0])) in
        Option.bind (context_handle s2 ctx) (\<lambda>source.
        map_option fst (skynet_context_push ho s2 logger
          \<lparr>m_source = source, m_session = 0, m_data = data, m_sz = word_of_nat (length txt)\<rparr>)))"

section \<open>Harbor\<close>

text \<open>Sending to a context that the caller knows to be alive.\<close>

definition skynet_context_send :: "server \<Rightarrow> nat \<Rightarrow> u64 \<Rightarrow> u64 \<Rightarrow> u32 \<Rightarrow> u64 \<Rightarrow> int \<Rightarrow> server option" where
  "skynet_context_send s c msg sz source ty session =
     Option.bind (ctx_at s c) (\<lambda>x.
     map_option (\<lambda>mq. s\<lparr>sv_mq := mq\<rparr>)
       (skynet_mq_push (sv_mq s) (c_queue x)
         \<lparr>m_source = source, m_session = session, m_data = msg, m_sz = sz OR push_bit MESSAGE_TYPE_SHIFT ty\<rparr>))"

definition REMOTE_MESSAGE_SIZE :: u64 where "REMOTE_MESSAGE_SIZE = 48"

definition invalid_type :: "u64 \<Rightarrow> bool" where
  "invalid_type ty \<longleftrightarrow> ty \<noteq> PTYPE_SYSTEM \<and> ty \<noteq> PTYPE_HARBOR"

definition skynet_harbor_send :: "server \<Rightarrow> remote_message \<Rightarrow> u32 \<Rightarrow> int \<Rightarrow> server option" where
  "skynet_harbor_send s rmsg source session =
     (let (s1, a) = skynet_malloc s (Remote rmsg) in
      case sv_remote s1 of
        None \<Rightarrow> None
      | Some c \<Rightarrow>
          if invalid_type (rm_type rmsg)
          then skynet_context_send s1 c a REMOTE_MESSAGE_SIZE source PTYPE_SYSTEM session
          else None)"

text \<open>\<open>HARBOR\<close> is \<open>~0\<close> before it is set.\<close>

definition skynet_harbor_message_isremote :: "server \<Rightarrow> u32 \<Rightarrow> bool option" where
  "skynet_harbor_message_isremote s h =
     (if sv_harbor s = NOT 0 then None
      else let hb = h AND NOT HANDLE_MASK in Some (hb \<noteq> sv_harbor s \<and> hb \<noteq> 0))"

definition skynet_harbor_init :: "server \<Rightarrow> int \<Rightarrow> server" where
  "skynet_harbor_init s harbor = s\<lparr>sv_harbor := push_bit HANDLE_REMOTE_SHIFT (word_of_int harbor)\<rparr>"

definition skynet_harbor_start :: "server \<Rightarrow> nat \<Rightarrow> server option" where
  "skynet_harbor_start s c = map_option (\<lambda>s'. s'\<lparr>sv_remote := Some c\<rparr>) (skynet_context_reserve s c)"

definition skynet_harbor_exit :: "host \<Rightarrow> server \<Rightarrow> server option" where
  "skynet_harbor_exit ho s =
     (case sv_remote s of
        None \<Rightarrow> Some s
      | Some c \<Rightarrow> map_option fst (skynet_context_release ho (s\<lparr>sv_remote := None\<rparr>) c))"

definition skynet_isremote :: "server \<Rightarrow> u32 \<Rightarrow> (bool \<times> int) option" where
  "skynet_isremote s h =
     map_option (\<lambda>r. (r, uint (drop_bit HANDLE_REMOTE_SHIFT h))) (skynet_harbor_message_isremote s h)"

section \<open>Text\<close>

definition hex_digit :: "bool \<Rightarrow> nat \<Rightarrow> u8" where
  "hex_digit up d = of_nat (if d < 10 then 48 + d else (if up then 55 else 87) + d)"

definition id_to_hex :: "u32 \<Rightarrow> bytes" where
  "id_to_hex h = 58 # map (\<lambda>i. hex_digit True (unat (drop_bit ((7 - i) * 4) h AND 0xf))) [0..<8]"

text \<open>The conversions \<open>%x\<close> and \<open>%08x\<close>.\<close>

function hex_nat :: "nat \<Rightarrow> bytes" where
  "hex_nat n = (if n < 16 then [hex_digit False n] else hex_nat (n div 16) @ [hex_digit False (n mod 16)])"
  by pat_completeness auto
termination by (relation "measure id") auto

declare hex_nat.simps [simp del]

definition hex32 :: "u32 \<Rightarrow> bytes" where "hex32 h = hex_nat (unat h)"

definition hex08 :: "u32 \<Rightarrow> bytes" where
  "hex08 h = replicate (8 - length (hex32 h)) 48 @ hex32 h"

definition copy_name :: "bytes \<Rightarrow> bytes" where
  "copy_name addr =
     take GLOBALNAME_LENGTH (takeWhile (\<lambda>c. c \<noteq> 0) addr) @
     replicate (GLOBALNAME_LENGTH - length (takeWhile (\<lambda>c. c \<noteq> 0) addr)) 0"

text \<open>The first character of a C string.\<close>

definition char0 :: "bytes \<Rightarrow> u8" where "char0 s = (case s of [] \<Rightarrow> 0 | c # _ \<Rightarrow> c)"

definition handle_text :: "bytes \<Rightarrow> u32" where
  "handle_text s = word_of_int (strtoul16 (drop 1 s))"

section \<open>Sending\<close>

text \<open>\<open>_filter_args\<close>: the state, the session, the data and the size with the type in its high bits.
  Copying reads the \<open>sz\<close> bytes at \<open>data\<close>.\<close>

definition read_block :: "server \<Rightarrow> u64 \<Rightarrow> u64 \<Rightarrow> bytes option" where
  "read_block s a sz =
     (case sv_mem s a of
        Some (Raw bs) \<Rightarrow> if unat sz \<le> length bs then Some (take (unat sz) bs) else None
      | _ \<Rightarrow> None)"

definition tag :: "int \<Rightarrow> int \<Rightarrow> bool" where
  "tag ty t \<longleftrightarrow> ty AND t \<noteq> 0"

definition filter_session :: "server \<Rightarrow> nat option \<Rightarrow> int \<Rightarrow> int \<Rightarrow> (server \<times> int) option" where
  "filter_session s ctx ty session =
     (if tag ty PTYPE_TAG_ALLOCSESSION then
        (if session = 0 then Option.bind ctx (skynet_context_newsession s) else None)
      else Some (s, session))"

definition filter_payload :: "server \<Rightarrow> int \<Rightarrow> u64 \<Rightarrow> u64 \<Rightarrow> (server \<times> u64) option" where
  "filter_payload s ty data sz =
     (if \<not> tag ty PTYPE_TAG_DONTCOPY \<and> data \<noteq> 0
      then map_option (\<lambda>bs. skynet_malloc s (Raw (bs @ [0]))) (read_block s data sz)
      else Some (s, data))"

definition filter_args ::
  "server \<Rightarrow> nat option \<Rightarrow> int \<Rightarrow> int \<Rightarrow> u64 \<Rightarrow> u64 \<Rightarrow> (server \<times> int \<times> u64 \<times> u64) option" where
  "filter_args s ctx ty session data sz =
     Option.bind (filter_session s ctx ty session) (\<lambda>(s1, session).
     Option.bind (filter_payload s1 ty data sz) (\<lambda>(s2, data).
       Some (s2, session, data, sz OR push_bit MESSAGE_TYPE_SHIFT (word_of_int (ty AND 0xff)))))"

definition free_dontcopy :: "server \<Rightarrow> int \<Rightarrow> u64 \<Rightarrow> server" where
  "free_dontcopy s ty data = (if tag ty PTYPE_TAG_DONTCOPY then skynet_free s data else s)"

definition sz_mask :: "u64 \<Rightarrow> u64" where "sz_mask sz = sz AND MESSAGE_TYPE_MASK"
definition sz_type :: "u64 \<Rightarrow> u64" where "sz_type sz = drop_bit MESSAGE_TYPE_SHIFT sz"

text \<open>The source is the context itself when it is given as 0.\<close>

definition send_source :: "server \<Rightarrow> nat option \<Rightarrow> u32 \<Rightarrow> u32 option" where
  "send_source s ctx source =
     (if source = 0 then Option.bind ctx (\<lambda>c. map_option c_handle (ctx_at s c)) else Some source)"

definition skynet_send ::
  "host \<Rightarrow> server \<Rightarrow> nat option \<Rightarrow> u32 \<Rightarrow> u32 \<Rightarrow> int \<Rightarrow> int \<Rightarrow> u64 \<Rightarrow> u64 \<Rightarrow> (server \<times> int) option" where
  "skynet_send ho s ctx source destination ty session data sz =
     (if sz_mask sz \<noteq> sz then
        Option.bind (skynet_error ho s ctx (str ''The message to '' @ hex32 destination @ str '' is too large'')) (\<lambda>s1.
        Some (free_dontcopy s1 ty data, -2))
      else
        Option.bind (filter_args s ctx ty session data sz) (\<lambda>(s1, session, data, sz).
        Option.bind (send_source s1 ctx source) (\<lambda>source.
        if destination = 0 then
          (if data \<noteq> 0 then
             map_option (\<lambda>s2. (skynet_free s2 data, -1))
               (skynet_error ho s1 ctx (str ''Destination address can't be 0''))
           else Some (s1, session))
        else
          Option.bind (skynet_harbor_message_isremote s1 destination) (\<lambda>remote.
          if remote then
            map_option (\<lambda>s2. (s2, session))
              (skynet_harbor_send s1 \<lparr>rm_name = [], rm_handle = destination, rm_message = data,
                 rm_sz = sz_mask sz, rm_type = sz_type sz\<rparr> source session)
          else
            Option.bind (skynet_context_push ho s1 destination
              \<lparr>m_source = source, m_session = session, m_data = data, m_sz = sz\<rparr>) (\<lambda>(s2, r).
            Some (if r \<noteq> 0 then (skynet_free s2 data, -1) else (s2, session)))))))"

definition skynet_sendname ::
  "host \<Rightarrow> server \<Rightarrow> nat option \<Rightarrow> u32 \<Rightarrow> bytes \<Rightarrow> int \<Rightarrow> int \<Rightarrow> u64 \<Rightarrow> u64 \<Rightarrow> (server \<times> int) option" where
  "skynet_sendname ho s ctx source addr ty session data sz =
     Option.bind (send_source s ctx source) (\<lambda>source.
     if char0 addr = 58 then skynet_send ho s ctx source (handle_text addr) ty session data sz
     else if char0 addr = 46 then
       (let des = skynet_handle_findname (sv_handles s) (name_of (drop 1 addr)) in
        if des = 0 then Some (free_dontcopy s ty data, -1)
        else skynet_send ho s ctx source des ty session data sz)
     else if sz_mask sz \<noteq> sz then
       Option.bind (skynet_error ho s ctx (str ''The message to '' @ addr @ str '' is too large'')) (\<lambda>s1.
       Some (free_dontcopy s1 ty data, -2))
     else
       Option.bind (filter_args s ctx ty session data sz) (\<lambda>(s1, session, data, sz).
       map_option (\<lambda>s2. (s2, session))
         (skynet_harbor_send s1 \<lparr>rm_name = copy_name addr, rm_handle = 0, rm_message = data,
            rm_sz = sz_mask sz, rm_type = sz_type sz\<rparr> source session)))"

text \<open>A message that is dropped is answered with an error to its source.\<close>

definition drop_message :: "host \<Rightarrow> u32 \<Rightarrow> server \<Rightarrow> skynet_message \<Rightarrow> server option" where
  "drop_message ho handle s m =
     (if handle = 0 then None
      else map_option fst (skynet_send ho (skynet_free s (m_data m)) None handle (m_source m) PTYPE_ERROR (m_session m) 0 0))"

text \<open>\<open>skynet_mq_release(queue, drop_message, &d)\<close>. The sends of \<open>drop_message\<close> never reach the queue
  that is dropped, because its handle has been retired, so they follow the pops here.\<close>

definition mq_release :: "host \<Rightarrow> server \<Rightarrow> nat \<Rightarrow> u32 \<Rightarrow> server option" where
  "mq_release ho s q handle =
     Option.bind (skynet_mq_release (sv_mq s) q) (\<lambda>(mq, ds).
       foldM (drop_message ho handle) (s\<lparr>sv_mq := mq\<rparr>) ds)"

section \<open>Launching\<close>

definition new_context :: "server \<Rightarrow> nat \<Rightarrow> nat \<Rightarrow> skynet_context" where
  "new_context s md inst =
     \<lparr>c_instance = inst, c_mod = md, c_cb_ud = 0, c_cb = None, c_queue = 0, c_logfile = None, c_cpu_cost = 0,
      c_cpu_start = 0, c_result = replicate 32 0, c_handle = 0, c_session_id = 0, c_ref = 2,
      c_message_count = 0, c_init = False, c_endless = False, c_profile = sv_profile s\<rparr>"

text \<open>The new context with its handle and queue.\<close>

definition register_context :: "server \<Rightarrow> nat \<Rightarrow> nat \<Rightarrow> (server \<times> nat \<times> nat) option" where
  "register_context s md inst =
     (let c = length (sv_ctx s); s1 = s\<lparr>sv_ctx := sv_ctx s @ [Some (new_context s md inst)]\<rparr> in
      Option.bind (skynet_handle_register (handle_of s1) (sv_handles s1) c) (\<lambda>(hs, handle).
      let (mq, q) = skynet_mq_create (sv_mq s1) handle in
      map_option (\<lambda>s2. (context_inc s2, c, q))
        (upd_ctx (s1\<lparr>sv_handles := hs, sv_mq := mq\<rparr>) c (\<lambda>x. x\<lparr>c_handle := handle, c_queue := q\<rparr>))))"

definition launch_ok ::
  "host \<Rightarrow> server \<Rightarrow> nat \<Rightarrow> nat \<Rightarrow> bytes \<Rightarrow> bytes option \<Rightarrow> (server \<times> nat option) option" where
  "launch_ok ho s c q nm param =
     Option.bind (skynet_context_release ho s c) (\<lambda>(s1, ret).
     Option.bind (if ret then upd_ctx s1 c (\<lambda>x. x\<lparr>c_init := True\<rparr>) else Some s1) (\<lambda>s2.
     Option.bind (globalmq_push (sv_mq s2) q) (\<lambda>mq.
     let s3 = s2\<lparr>sv_mq := mq\<rparr> in
     if ret then
       map_option (\<lambda>s4. (s4, Some c))
         (skynet_error ho s3 (Some c) (str ''LAUNCH '' @ nm @ str '' '' @ (case param of None \<Rightarrow> [] | Some p \<Rightarrow> p)))
     else Some (s3, None))))"

definition launch_failed :: "host \<Rightarrow> server \<Rightarrow> nat \<Rightarrow> nat \<Rightarrow> bytes \<Rightarrow> (server \<times> nat option) option" where
  "launch_failed ho s c q nm =
     Option.bind (skynet_error ho s (Some c) (str ''FAILED launch '' @ nm)) (\<lambda>s1.
     Option.bind (ctx_at s1 c) (\<lambda>x.
     let handle = c_handle x in
     Option.bind (skynet_context_release ho s1 c) (\<lambda>(s2, _).
     Option.bind (handle_retire ho s2 handle) (\<lambda>(s3, _).
     map_option (\<lambda>s4. (s4, None)) (mq_release ho s3 q handle)))))"

definition skynet_context_new ::
  "host \<Rightarrow> server \<Rightarrow> bytes \<Rightarrow> bytes option \<Rightarrow> (server \<times> nat option) option" where
  "skynet_context_new ho s nm param =
     (case ho_query ho nm of
        None \<Rightarrow> Some (s, None)
      | Some md \<Rightarrow>
          (case ho_create ho md of
             None \<Rightarrow> Some (s, None)
           | Some inst \<Rightarrow>
               Option.bind (register_context s md inst) (\<lambda>(s1, c, q).
               Option.bind (ho_init ho md inst c param s1) (\<lambda>(s2, r).
                 if r = 0 then launch_ok ho s2 c q nm param else launch_failed ho s2 c q nm))))"

definition skynet_callback :: "server \<Rightarrow> nat \<Rightarrow> nat \<Rightarrow> nat option \<Rightarrow> server option" where
  "skynet_callback s c ud cb = upd_ctx s c (\<lambda>x. x\<lparr>c_cb := cb, c_cb_ud := ud\<rparr>)"

section \<open>Environment and log files\<close>

definition skynet_getenv :: "server \<Rightarrow> bytes \<Rightarrow> bytes option" where
  "skynet_getenv s key = sv_env s key"

text \<open>Setting a key again fails the \<open>assert\<close>.\<close>

definition skynet_setenv :: "server \<Rightarrow> bytes \<Rightarrow> bytes \<Rightarrow> server option" where
  "skynet_setenv s key val =
     (if sv_env s key \<noteq> None then None else Some (s\<lparr>sv_env := (sv_env s)(key \<mapsto> val)\<rparr>))"

definition sv_now :: "server \<Rightarrow> u64" where "sv_now s = skynet_now (sv_timer s)"

definition dec_u64 :: "u64 \<Rightarrow> bytes" where "dec_u64 x = dec_nat (unat x)"
definition dec_u32 :: "u32 \<Rightarrow> bytes" where "dec_u32 x = dec_nat (unat x)"

definition skynet_log_open :: "host \<Rightarrow> server \<Rightarrow> nat \<Rightarrow> u32 \<Rightarrow> (server \<times> nat option) option" where
  "skynet_log_open ho s ctx handle =
     (case skynet_getenv s (str ''logpath'') of
        None \<Rightarrow> Some (s, None)
      | Some path \<Rightarrow>
          let tmp = path @ str ''/'' @ hex08 handle @ str ''.log'' in
          (case ho_fopen ho tmp of
             Some f \<Rightarrow>
               (let ti = ucast (skynet_starttime (sv_timer s)) + sv_now s div 100 in
                map_option (\<lambda>s1. (emit s1 (File_write f (str ''open time: '' @ dec_u32 (ucast (sv_now s)) @ str '' '' @ ho_ctime ho ti)), Some f))
                  (skynet_error ho s (Some ctx) (str ''Open log file '' @ tmp)))
           | None \<Rightarrow>
               map_option (\<lambda>s1. (s1, None)) (skynet_error ho s (Some ctx) (str ''Open log file '' @ tmp @ str '' fail''))))"

definition skynet_log_close :: "host \<Rightarrow> server \<Rightarrow> nat \<Rightarrow> nat \<Rightarrow> u32 \<Rightarrow> server option" where
  "skynet_log_close ho s ctx f handle =
     map_option (\<lambda>s1. emit (emit s1 (File_write f (str ''close time: '' @ dec_u32 (ucast (sv_now s1)) @ [10]))) (File_close f))
       (skynet_error ho s (Some ctx) (str ''Close log file :'' @ hex08 handle))"

section \<open>Dispatching\<close>

definition thread_time :: "host \<Rightarrow> server \<Rightarrow> server \<times> u64" where
  "thread_time ho s = (s\<lparr>sv_reads := sv_reads s + 1\<rparr>, ho_clock ho (sv_reads s))"

text \<open>Calling the callback of a context, with its running time added up when it is profiled.\<close>

definition call_cb :: "host \<Rightarrow> server \<Rightarrow> nat \<Rightarrow> skynet_message \<Rightarrow> (server \<times> int) option" where
  "call_cb ho s c m =
     Option.bind (ctx_at s c) (\<lambda>x.
     Option.bind (c_cb x) (\<lambda>cb.
       ho_cb ho cb c (c_cb_ud x) (uint (sz_type (m_sz m))) (m_session m) (m_source m) (m_data m) (sz_mask (m_sz m)) s))"

definition profiled_cb :: "host \<Rightarrow> server \<Rightarrow> nat \<Rightarrow> skynet_message \<Rightarrow> (server \<times> int) option" where
  "profiled_cb ho s c m =
     (let (s1, start) = thread_time ho s in
      Option.bind (upd_ctx s1 c (\<lambda>x. x\<lparr>c_cpu_start := start\<rparr>)) (\<lambda>s2.
      Option.bind (call_cb ho s2 c m) (\<lambda>(s3, r).
      let (s4, now) = thread_time ho s3 in
      map_option (\<lambda>s5. (s5, r)) (upd_ctx s4 c (\<lambda>x. x\<lparr>c_cpu_cost := c_cpu_cost x + (now - c_cpu_start x)\<rparr>)))))"

definition ctx_dispatch_message :: "host \<Rightarrow> server \<Rightarrow> nat \<Rightarrow> skynet_message \<Rightarrow> server option" where
  "ctx_dispatch_message ho s c m =
     Option.bind (ctx_at s c) (\<lambda>x.
       if \<not> c_init x then None
       else
         let s1 = s\<lparr>sv_key := c_handle x\<rparr>;
             s2 = (case c_logfile x of
                     None \<Rightarrow> s1
                   | Some f \<Rightarrow> emit s1 (Log_output f (m_source m) (uint (sz_type (m_sz m))) (m_session m) (m_data m) (sz_mask (m_sz m)))) in
         Option.bind (upd_ctx s2 c (\<lambda>x. x\<lparr>c_message_count := c_message_count x + 1\<rparr>)) (\<lambda>s3.
         Option.bind (if c_profile x then profiled_cb ho s3 c m else call_cb ho s3 c m) (\<lambda>(s4, reserve_msg).
           Some (if reserve_msg = 0 then skynet_free s4 (m_data m) else s4))))"

partial_function (option) skynet_context_dispatchall :: "host \<Rightarrow> server \<Rightarrow> nat \<Rightarrow> server option" where
  "skynet_context_dispatchall ho s c =
     Option.bind (ctx_at s c) (\<lambda>x.
     Option.bind (skynet_mq_pop (sv_mq s) (c_queue x)) (\<lambda>(mq, m).
       let s1 = s\<lparr>sv_mq := mq\<rparr> in
       case m of
         None \<Rightarrow> Some s1
       | Some m \<Rightarrow> Option.bind (ctx_dispatch_message ho s1 c m) (\<lambda>s2. skynet_context_dispatchall ho s2 c)))"

record skynet_monitor =
  mon_version :: int
  mon_check :: int
  mon_source :: u32
  mon_destination :: u32

definition skynet_monitor_new :: skynet_monitor where
  "skynet_monitor_new = \<lparr>mon_version = 0, mon_check = 0, mon_source = 0, mon_destination = 0\<rparr>"

definition skynet_monitor_trigger :: "skynet_monitor \<Rightarrow> u32 \<Rightarrow> u32 \<Rightarrow> skynet_monitor" where
  "skynet_monitor_trigger sm source destination =
     sm\<lparr>mon_source := source, mon_destination := destination, mon_version := to_i32 (mon_version sm + 1)\<rparr>"

definition skynet_monitor_check :: "host \<Rightarrow> server \<Rightarrow> skynet_monitor \<Rightarrow> (server \<times> skynet_monitor) option" where
  "skynet_monitor_check ho s sm =
     (if mon_version sm = mon_check sm then
        (if mon_destination sm \<noteq> 0 then
           Option.bind (skynet_context_endless ho s (mon_destination sm)) (\<lambda>s1.
           map_option (\<lambda>s2. (s2, sm))
             (skynet_error ho s1 None (str ''A message from [ :'' @ hex08 (mon_source sm) @ str '' ] to [ :'' @
                hex08 (mon_destination sm) @ str '' ] maybe in an endless loop (version = '' @ dec (mon_version sm) @ str '')'')))
         else Some (s, sm))
      else Some (s, sm\<lparr>mon_check := mon_version sm\<rparr>))"

text \<open>One message of a worker: overload report, monitor, dispatch. A context without callback drops it.\<close>

definition dispatch_one ::
  "host \<Rightarrow> server \<Rightarrow> skynet_monitor \<Rightarrow> nat \<Rightarrow> nat \<Rightarrow> u32 \<Rightarrow> skynet_message \<Rightarrow> (server \<times> skynet_monitor) option" where
  "dispatch_one ho s sm q c handle m =
     Option.bind (mq_at (sv_mq s) q) (\<lambda>mq.
     let (mq', overload) = mq_overload mq; s1 = s\<lparr>sv_mq := set_mq (sv_mq s) q mq'\<rparr> in
     Option.bind (if overload \<noteq> 0
                  then skynet_error ho s1 (Some c) (str ''May overload, message queue length = '' @ dec overload)
                  else Some s1) (\<lambda>s2.
     let sm1 = skynet_monitor_trigger sm (m_source m) handle in
     Option.bind (ctx_at s2 c) (\<lambda>x.
     Option.bind (if c_cb x = None then Some (skynet_free s2 (m_data m)) else ctx_dispatch_message ho s2 c m) (\<lambda>s3.
       Some (s3, skynet_monitor_trigger sm1 0 0)))))"

text \<open>The number of further messages after the first one: \<open>n >>= weight\<close>.\<close>

definition batch :: "mqstate \<Rightarrow> nat \<Rightarrow> int \<Rightarrow> int option" where
  "batch s q weight =
     map_option (\<lambda>mq. if weight \<ge> 0 then drop_bit (nat weight) (mq_length mq) else 1) (mq_at s q)"

text \<open>The loop: \<open>i\<close> messages have been taken, \<open>n\<close> is the bound. The result says whether the queue ran
  empty.\<close>

function dispatch_batch ::
  "host \<Rightarrow> server \<Rightarrow> skynet_monitor \<Rightarrow> nat \<Rightarrow> nat \<Rightarrow> u32 \<Rightarrow> int \<Rightarrow> int \<Rightarrow> int \<Rightarrow> (server \<times> skynet_monitor \<times> bool) option" where
  "dispatch_batch ho s sm q c handle weight i n =
     (if i < n then
        Option.bind (skynet_mq_pop (sv_mq s) q) (\<lambda>(mq, m).
          let s1 = s\<lparr>sv_mq := mq\<rparr> in
          case m of
            None \<Rightarrow> Some (s1, sm, True)
          | Some m \<Rightarrow>
              (case (if i = 0 then batch (sv_mq s1) q weight else Some n) of
                 None \<Rightarrow> None
               | Some n \<Rightarrow>
                   (case dispatch_one ho s1 sm q c handle m of
                      None \<Rightarrow> None
                    | Some (s2, sm2) \<Rightarrow> dispatch_batch ho s2 sm2 q c handle weight (i + 1) n)))
      else Some (s, sm, False))"
  by pat_completeness auto
termination by (relation "measures [\<lambda>(_, _, _, _, _, _, _, i, _). nat (1 - i), \<lambda>(_, _, _, _, _, _, _, i, n). nat (n - i)]") auto

definition pop_global :: "server \<Rightarrow> (server \<times> nat option) option" where
  "pop_global s = map_option (\<lambda>(mq, q). (s\<lparr>sv_mq := mq\<rparr>, q)) (globalmq_pop (sv_mq s))"

text \<open>After a batch that did not empty the queue: it goes to the end of the global queue if another one waits.\<close>

definition next_queue :: "server \<Rightarrow> nat \<Rightarrow> (server \<times> nat) option" where
  "next_queue s q =
     Option.bind (pop_global s) (\<lambda>(s1, nq).
       case nq of
         None \<Rightarrow> Some (s1, q)
       | Some nq \<Rightarrow> map_option (\<lambda>mq. (s1\<lparr>sv_mq := mq\<rparr>, nq)) (globalmq_push (sv_mq s1) q))"

definition dispatch_queue ::
  "host \<Rightarrow> server \<Rightarrow> skynet_monitor \<Rightarrow> nat \<Rightarrow> int \<Rightarrow> (server \<times> skynet_monitor \<times> nat option) option" where
  "dispatch_queue ho s sm q weight =
     Option.bind (mq_at (sv_mq s) q) (\<lambda>mq.
     let handle = q_handle mq in
     Option.bind (handle_grab s handle) (\<lambda>(s1, ctx).
       case ctx of
         None \<Rightarrow>
           Option.bind (mq_release ho s1 q handle) (\<lambda>s2.
           map_option (\<lambda>(s3, nq). (s3, sm, nq)) (pop_global s2))
       | Some c \<Rightarrow>
           Option.bind (dispatch_batch ho s1 sm q c handle weight 0 1) (\<lambda>(s2, sm2, empty).
             if empty then
               Option.bind (skynet_context_release ho s2 c) (\<lambda>(s3, _).
               map_option (\<lambda>(s4, nq). (s4, sm2, nq)) (pop_global s3))
             else
               Option.bind (ctx_at s2 c) (\<lambda>x.
               if c_queue x \<noteq> q then None
               else
                 Option.bind (next_queue s2 q) (\<lambda>(s3, nq).
                 map_option (\<lambda>(s4, _). (s4, sm2, Some nq)) (skynet_context_release ho s3 c))))))"

definition skynet_context_message_dispatch ::
  "host \<Rightarrow> server \<Rightarrow> skynet_monitor \<Rightarrow> nat option \<Rightarrow> int \<Rightarrow> (server \<times> skynet_monitor \<times> nat option) option" where
  "skynet_context_message_dispatch ho s sm q weight =
     (case q of
        Some q \<Rightarrow> dispatch_queue ho s sm q weight
      | None \<Rightarrow>
          Option.bind (pop_global s) (\<lambda>(s1, nq).
            case nq of
              None \<Rightarrow> Some (s1, sm, None)
            | Some q \<Rightarrow> dispatch_queue ho s1 sm q weight))"

section \<open>Commands\<close>

definition skynet_queryname :: "host \<Rightarrow> server \<Rightarrow> nat \<Rightarrow> bytes \<Rightarrow> (server \<times> u32) option" where
  "skynet_queryname ho s c nm =
     (if char0 nm = 58 then Some (s, handle_text nm)
      else if char0 nm = 46 then Some (s, skynet_handle_findname (sv_handles s) (name_of (drop 1 nm)))
      else map_option (\<lambda>s1. (s1, 0)) (skynet_error ho s (Some c) (str ''Don't support query global name '' @ nm)))"

definition handle_exit :: "host \<Rightarrow> server \<Rightarrow> nat \<Rightarrow> u32 \<Rightarrow> server option" where
  "handle_exit ho s c handle =
     Option.bind (ctx_at s c) (\<lambda>x.
     let h = (if handle = 0 then c_handle x else handle) in
     Option.bind (skynet_error ho s (Some c)
       (if handle = 0 then str ''KILL self'' else str ''KILL :'' @ hex32 handle)) (\<lambda>s1.
     Option.bind (if sv_monitor_exit s1 \<noteq> 0
                  then map_option fst (skynet_send ho s1 (Some c) h (sv_monitor_exit s1) PTYPE_CLIENT 0 0 0)
                  else Some s1) (\<lambda>s2.
     map_option fst (handle_retire ho s2 h))))"

type_synonym cmd_result = "(server \<times> bytes option) option"

text \<open>A command's result is stored in the context; \<open>set_result\<close> also returns it.\<close>

definition set_result :: "server \<Rightarrow> nat \<Rightarrow> bytes \<Rightarrow> cmd_result" where
  "set_result s c txt =
     (if length txt < 32 then map_option (\<lambda>s1. (s1, Some txt)) (upd_ctx s c (\<lambda>x. x\<lparr>c_result := txt\<rparr>)) else None)"

definition push_all :: "host \<Rightarrow> server \<Rightarrow> (u32 \<times> skynet_message) list \<Rightarrow> server option" where
  "push_all ho = foldM (\<lambda>s (h, m). map_option fst (skynet_context_push ho s h m))"

definition cmd_timeout :: "host \<Rightarrow> server \<Rightarrow> nat \<Rightarrow> bytes option \<Rightarrow> cmd_result" where
  "cmd_timeout ho s c param =
     Option.bind param (\<lambda>p.
     let ti = to_i32 (strtol10 p) in
     Option.bind (skynet_context_newsession s c) (\<lambda>(s1, session).
     let (T, out, _) = skynet_timeout (\<lambda>_. False) (sv_timer s1) (handle_of s1 c) ti session in
     Option.bind (push_all ho (s1\<lparr>sv_timer := T\<rparr>) out) (\<lambda>s2. set_result s2 c (dec session))))"

definition namehandle :: "server \<Rightarrow> u32 \<Rightarrow> bytes \<Rightarrow> cmd_result" where
  "namehandle s h nm =
     map_option (\<lambda>(hs, r). (s\<lparr>sv_handles := hs\<rparr>, map_option (\<lambda>_. nm) r))
       (skynet_handle_namehandle (sv_handles s) h (name_of nm))"

definition no_result :: "server option \<Rightarrow> cmd_result" where
  "no_result = map_option (\<lambda>s. (s, None))"

definition cmd_reg :: "host \<Rightarrow> server \<Rightarrow> nat \<Rightarrow> bytes option \<Rightarrow> cmd_result" where
  "cmd_reg ho s c param =
     (let p = (case param of None \<Rightarrow> [] | Some p \<Rightarrow> p) in
      if p = [] then set_result s c (58 # hex32 (handle_of s c))
      else if char0 p = 46 then namehandle s (handle_of s c) (drop 1 p)
      else no_result (skynet_error ho s (Some c) (str ''Can't register global name '' @ p @ str '' in C'')))"

definition cmd_query :: "server \<Rightarrow> nat \<Rightarrow> bytes option \<Rightarrow> cmd_result" where
  "cmd_query s c param =
     Option.bind param (\<lambda>p.
       if char0 p = 46 then
         (let h = skynet_handle_findname (sv_handles s) (name_of (drop 1 p)) in
          if h \<noteq> 0 then set_result s c (58 # hex32 h) else Some (s, None))
       else Some (s, None))"

text \<open>\<open>sscanf("%s %s")\<close>: a word that is missing leaves its buffer uninitialised.\<close>

definition next_word :: "bytes \<Rightarrow> bytes \<times> bytes" where
  "next_word s = (let t = dropWhile isspace s in (takeWhile (\<lambda>c. \<not> isspace c) t, dropWhile (\<lambda>c. \<not> isspace c) t))"

definition cmd_name :: "host \<Rightarrow> server \<Rightarrow> nat \<Rightarrow> bytes option \<Rightarrow> cmd_result" where
  "cmd_name ho s c param =
     Option.bind param (\<lambda>p.
     let (nm, r) = next_word p; (handle, _) = next_word r in
     if handle = [] then None
     else if char0 handle \<noteq> 58 then Some (s, None)
     else if handle_text handle = 0 then Some (s, None)
     else if char0 nm = 46 then namehandle s (handle_text handle) (drop 1 nm)
     else no_result (skynet_error ho s (Some c) (str ''Can't set global name '' @ nm @ str '' in C'')))"

definition cmd_exit :: "host \<Rightarrow> server \<Rightarrow> nat \<Rightarrow> bytes option \<Rightarrow> cmd_result" where
  "cmd_exit ho s c param = no_result (handle_exit ho s c 0)"

definition tohandle :: "host \<Rightarrow> server \<Rightarrow> nat \<Rightarrow> bytes \<Rightarrow> (server \<times> u32) option" where
  "tohandle ho s c p =
     (if char0 p = 58 then Some (s, handle_text p)
      else if char0 p = 46 then Some (s, skynet_handle_findname (sv_handles s) (name_of (drop 1 p)))
      else map_option (\<lambda>s1. (s1, 0)) (skynet_error ho s (Some c) (str ''Can't convert '' @ p @ str '' to handle'')))"

definition cmd_kill :: "host \<Rightarrow> server \<Rightarrow> nat \<Rightarrow> bytes option \<Rightarrow> cmd_result" where
  "cmd_kill ho s c param =
     Option.bind param (\<lambda>p.
     Option.bind (tohandle ho s c p) (\<lambda>(s1, h).
       if h \<noteq> 0 then no_result (handle_exit ho s1 c h) else Some (s1, None)))"

text \<open>\<open>strsep\<close> on the parameter: the word before the first delimiter and what follows it.\<close>

definition split_at :: "u8 list \<Rightarrow> bytes \<Rightarrow> bytes \<times> bytes option" where
  "split_at ds s =
     (let w = takeWhile (\<lambda>c. c \<notin> set ds) s in
      (w, if length w < length s then Some (drop (length w + 1) s) else None))"

definition cmd_launch :: "host \<Rightarrow> server \<Rightarrow> nat \<Rightarrow> bytes option \<Rightarrow> cmd_result" where
  "cmd_launch ho s c param =
     Option.bind param (\<lambda>p.
     let (md, rest) = split_at [32, 9, 13, 10] p; args = map_option (\<lambda>r. fst (split_at [13, 10] r)) rest in
     Option.bind (skynet_context_new ho s md args) (\<lambda>(s1, inst).
       case inst of
         None \<Rightarrow> Some (s1, None)
       | Some i \<Rightarrow> set_result s1 c (id_to_hex (handle_of s1 i))))"

definition cmd_getenv :: "server \<Rightarrow> nat \<Rightarrow> bytes option \<Rightarrow> cmd_result" where
  "cmd_getenv s c param = map_option (\<lambda>p. (s, skynet_getenv s p)) param"

definition cmd_setenv :: "server \<Rightarrow> nat \<Rightarrow> bytes option \<Rightarrow> cmd_result" where
  "cmd_setenv s c param =
     Option.bind param (\<lambda>p.
       case split_at [32] p of
         (_, None) \<Rightarrow> Some (s, None)
       | (key, Some val) \<Rightarrow> no_result (skynet_setenv s key val))"

definition cmd_starttime :: "server \<Rightarrow> nat \<Rightarrow> bytes option \<Rightarrow> cmd_result" where
  "cmd_starttime s c param = set_result s c (dec_u32 (skynet_starttime (sv_timer s)))"

text \<open>
  \<open>skynet_handle_retireall\<close>: a pass over the slots retires every service and releases its context; it is
  repeated until a pass finds none. It may not end when a service starts another one as it is released.
\<close>

partial_function (option) retireall_pass :: "host \<Rightarrow> server \<Rightarrow> nat \<Rightarrow> nat \<Rightarrow> (server \<times> nat) option" where
  "retireall_pass ho s i n =
     (if i < length (h_slot (sv_handles s)) then
        (case h_slot (sv_handles s) ! i of
           None \<Rightarrow> retireall_pass ho s (i + 1) n
         | Some c \<Rightarrow>
             Option.bind (if handle_of s c \<noteq> 0 then map_option fst (handle_retire ho s (handle_of s c)) else Some s)
               (\<lambda>s1. retireall_pass ho s1 (i + 1) (n + 1)))
      else Some (s, n))"

partial_function (option) handle_retireall :: "host \<Rightarrow> server \<Rightarrow> server option" where
  "handle_retireall ho s =
     Option.bind (retireall_pass ho s 0 0) (\<lambda>(s1, n). if n = 0 then Some s1 else handle_retireall ho s1)"

definition cmd_abort :: "host \<Rightarrow> server \<Rightarrow> nat \<Rightarrow> bytes option \<Rightarrow> cmd_result" where
  "cmd_abort ho s c param = no_result (handle_retireall ho s)"

definition cmd_monitor :: "host \<Rightarrow> server \<Rightarrow> nat \<Rightarrow> bytes option \<Rightarrow> cmd_result" where
  "cmd_monitor ho s c param =
     (let p = (case param of None \<Rightarrow> [] | Some p \<Rightarrow> p) in
      if p = [] then
        (if sv_monitor_exit s \<noteq> 0 then set_result s c (58 # hex32 (sv_monitor_exit s)) else Some (s, None))
      else Option.bind (tohandle ho s c p) (\<lambda>(s1, h). Some (s1\<lparr>sv_monitor_exit := h\<rparr>, None)))"

text \<open>Microseconds printed as seconds by \<open>%lf\<close>; a \<open>double\<close> holds them exactly below \<open>2 ^ 53\<close>.\<close>

definition seconds_text :: "u64 \<Rightarrow> bytes" where
  "seconds_text t =
     (let f = dec_nat (unat t mod 1000000) in
      dec_nat (unat t div 1000000) @ [46] @ replicate (6 - length f) 48 @ f)"

definition cmd_stat :: "host \<Rightarrow> server \<Rightarrow> nat \<Rightarrow> bytes option \<Rightarrow> cmd_result" where
  "cmd_stat ho s c param =
     Option.bind param (\<lambda>p.
     Option.bind (ctx_at s c) (\<lambda>x.
       if p = str ''mqlen'' then Option.bind (mq_at (sv_mq s) (c_queue x)) (\<lambda>q. set_result s c (dec (mq_length q)))
       else if p = str ''endless'' then
         (if c_endless x
          then Option.bind (upd_ctx s c (\<lambda>x. x\<lparr>c_endless := False\<rparr>)) (\<lambda>s1. set_result s1 c (str ''1''))
          else set_result s c (str ''0''))
       else if p = str ''cpu'' then set_result s c (seconds_text (c_cpu_cost x))
       else if p = str ''time'' then
         (if c_profile x then
            let (s1, now) = thread_time ho s in set_result s1 c (seconds_text (now - c_cpu_start x))
          else set_result s c (str ''0''))
       else if p = str ''message'' then set_result s c (dec_u64 (c_message_count x))
       else set_result s c []))"

text \<open>Running \<open>f\<close> on the service a handle names, with a reference to it; nothing when there is none.\<close>

definition with_service ::
  "host \<Rightarrow> server \<Rightarrow> nat \<Rightarrow> bytes option \<Rightarrow> (server \<Rightarrow> nat \<Rightarrow> u32 \<Rightarrow> bytes \<Rightarrow> server option) \<Rightarrow> cmd_result" where
  "with_service ho s c param f =
     Option.bind param (\<lambda>p.
     Option.bind (tohandle ho s c p) (\<lambda>(s1, h).
       if h = 0 then Some (s1, None)
       else
         Option.bind (handle_grab s1 h) (\<lambda>(s2, ctx).
           case ctx of
             None \<Rightarrow> Some (s2, None)
           | Some d \<Rightarrow>
               Option.bind (f s2 d h p) (\<lambda>s3. no_result (map_option fst (skynet_context_release ho s3 d))))))"

definition cmd_logon :: "host \<Rightarrow> server \<Rightarrow> nat \<Rightarrow> bytes option \<Rightarrow> cmd_result" where
  "cmd_logon ho s c param =
     with_service ho s c param (\<lambda>s d h _.
       Option.bind (ctx_at s d) (\<lambda>x.
         if c_logfile x = None then
           Option.bind (skynet_log_open ho s c h) (\<lambda>(s1, f).
             case f of None \<Rightarrow> Some s1 | Some f \<Rightarrow> upd_ctx s1 d (\<lambda>x. x\<lparr>c_logfile := Some f\<rparr>))
         else Some s))"

definition cmd_logoff :: "host \<Rightarrow> server \<Rightarrow> nat \<Rightarrow> bytes option \<Rightarrow> cmd_result" where
  "cmd_logoff ho s c param =
     with_service ho s c param (\<lambda>s d h _.
       Option.bind (ctx_at s d) (\<lambda>x.
         case c_logfile x of
           None \<Rightarrow> Some s
         | Some f \<Rightarrow> Option.bind (upd_ctx s d (\<lambda>x. x\<lparr>c_logfile := None\<rparr>)) (\<lambda>s1. skynet_log_close ho s1 c f h)))"

text \<open>\<open>strtol(param, NULL, 0)\<close>: octal after a leading \<open>0\<close>, hexadecimal after \<open>0x\<close>.\<close>

definition strtol_auto :: "bytes \<Rightarrow> int" where
  "strtol_auto s =
     (let (neg, t) = number_sign s; h = skip_0x t;
          v = (if h \<noteq> t then digits_val 16 0 h else if char0 t = 48 then digits_val 8 0 t else digits_val 10 0 t);
          x = (if neg then - v else v)
      in max (- (2 ^ 63)) (min (2 ^ 63 - 1) x))"

definition cmd_signal :: "host \<Rightarrow> server \<Rightarrow> nat \<Rightarrow> bytes option \<Rightarrow> cmd_result" where
  "cmd_signal ho s c param =
     with_service ho s c param (\<lambda>s d h p.
       Option.bind (ctx_at s d) (\<lambda>x.
         let sg = (if 32 \<in> set p then to_i32 (strtol_auto (dropWhile (\<lambda>c. c \<noteq> 32) p)) else 0) in
         ho_signal ho (c_mod x) (c_instance x) sg s))"

definition cmd_funcs :: "(string \<times> (host \<Rightarrow> server \<Rightarrow> nat \<Rightarrow> bytes option \<Rightarrow> cmd_result)) list" where
  "cmd_funcs =
     [(''TIMEOUT'', cmd_timeout), (''REG'', cmd_reg), (''QUERY'', \<lambda>_. cmd_query), (''NAME'', cmd_name),
      (''EXIT'', cmd_exit), (''KILL'', cmd_kill), (''LAUNCH'', cmd_launch), (''GETENV'', \<lambda>_. cmd_getenv),
      (''SETENV'', \<lambda>_. cmd_setenv), (''STARTTIME'', \<lambda>_. cmd_starttime), (''ABORT'', cmd_abort),
      (''MONITOR'', cmd_monitor), (''STAT'', cmd_stat), (''LOGON'', cmd_logon), (''LOGOFF'', cmd_logoff),
      (''SIGNAL'', cmd_signal)]"

definition skynet_command :: "host \<Rightarrow> server \<Rightarrow> nat \<Rightarrow> string \<Rightarrow> bytes option \<Rightarrow> cmd_result" where
  "skynet_command ho s c cmd param =
     (case map_of cmd_funcs cmd of None \<Rightarrow> Some (s, None) | Some f \<Rightarrow> f ho s c param)"

end
