(* ===== verification/Framing.thy ===== *)
theory Framing
  imports Prelude
begin

text \<open>
  Length-prefixed framing, the specification shared by the gate and the netpack module: a header of
  \<open>h\<close> bytes gives, through \<open>v\<close>, the length of the packet that follows it. \<open>frames h v bs\<close> is the
  list of the complete packets at the front of a byte stream and the bytes that are left over.
\<close>

function frames :: "nat \<Rightarrow> (bytes \<Rightarrow> nat) \<Rightarrow> bytes \<Rightarrow> bytes list \<times> bytes" where
  "frames h v bs =
     (if h = 0 \<or> length bs < h \<or> length bs < h + v (take h bs) then ([], bs)
      else
        let n = v (take h bs); (ps, rest) = frames h v (drop (h + n) bs)
        in (take n (drop h bs) # ps, rest))"
  by pat_completeness auto
termination by (relation "measure (\<lambda>(_, _, bs). length bs)") auto

declare frames.simps [simp del]

lemma frames_short: "length bs < h \<Longrightarrow> frames h v bs = ([], bs)"
  by (subst frames.simps) simp

lemma frames_wait: "h \<le> length bs \<Longrightarrow> length bs < h + v (take h bs) \<Longrightarrow> frames h v bs = ([], bs)"
  by (subst frames.simps) simp

lemma frames_packet:
  assumes "0 < h" "length hdr = h" "length p = v hdr"
  shows "frames h v (hdr @ p @ bs) = (p # fst (frames h v bs), snd (frames h v bs))"
  using assms by (subst frames.simps) (simp add: Let_def split_beta)

lemma frames_empty [simp]: "0 < h \<Longrightarrow> frames h v [] = ([], [])"
  by (rule frames_short) simp

text \<open>The frames of a stream do not depend on how it is cut.\<close>

lemma frames_append:
  "0 < h \<Longrightarrow> frames h v (a @ b) =
     (fst (frames h v a) @ fst (frames h v (snd (frames h v a) @ b)),
      snd (frames h v (snd (frames h v a) @ b)))"
proof (induction h v a rule: frames.induct)
  case (1 h v a)
  show ?case
  proof (cases "length a < h \<or> length a < h + v (take h a)")
    case True
    then have "frames h v a = ([], a)" by (subst frames.simps) auto
    then show ?thesis by simp
  next
    case False
    let ?n = "v (take h a)"
    have a: "a = take h a @ take ?n (drop h a) @ drop (h + ?n) a"
      by (metis append_take_drop_id drop_drop add.commute)
    have l: "length (take h a) = h" "length (take ?n (drop h a)) = ?n" using False by auto
    have e: "frames h v (take h a @ take ?n (drop h a) @ r) =
        (take ?n (drop h a) # fst (frames h v r), snd (frames h v r))" for r
      using frames_packet [OF "1.prems" l(1), of "take ?n (drop h a)" v r] l by simp
    have ih: "frames h v (drop (h + ?n) a @ b) =
        (fst (frames h v (drop (h + ?n) a)) @ fst (frames h v (snd (frames h v (drop (h + ?n) a)) @ b)),
         snd (frames h v (snd (frames h v (drop (h + ?n) a)) @ b)))"
      using "1.IH" [OF _ refl "1.prems"] False "1.prems" by simp
    have fa: "frames h v a = (take ?n (drop h a) # fst (frames h v (drop (h + ?n) a)),
        snd (frames h v (drop (h + ?n) a)))"
      using e [of "drop (h + ?n) a"] a by metis
    have "a @ b = take h a @ take ?n (drop h a) @ drop (h + ?n) a @ b"
      using a by (metis append_assoc)
    then have fab: "frames h v (a @ b) = (take ?n (drop h a) # fst (frames h v (drop (h + ?n) a @ b)),
        snd (frames h v (drop (h + ?n) a @ b)))"
      using e [of "drop (h + ?n) a @ b"] by metis
    show ?thesis unfolding fa fab ih by simp
  qed
qed

text \<open>What is left over contains no complete packet.\<close>

lemma frames_rest: "0 < h \<Longrightarrow> frames h v (snd (frames h v a)) = ([], snd (frames h v a))"
proof (induction h v a rule: frames.induct)
  case (1 h v a)
  show ?case
  proof (cases "length a < h \<or> length a < h + v (take h a)")
    case True
    then have "frames h v a = ([], a)" by (subst frames.simps) auto
    then show ?thesis by simp
  next
    case False
    then have "snd (frames h v a) = snd (frames h v (drop (h + v (take h a)) a))"
      using "1.prems" by (subst frames.simps) (simp add: Let_def split_beta)
    then show ?thesis using "1.IH" [OF _ refl "1.prems"] False "1.prems" by simp
  qed
qed

lemma frames_nonempty: "bs \<noteq> [] \<Longrightarrow> fst (frames h v bs) \<noteq> [] \<or> snd (frames h v bs) \<noteq> []"
proof (cases "h = 0 \<or> length bs < h \<or> length bs < h + v (take h bs)")
  case True
  then have "frames h v bs = ([], bs)" by (subst frames.simps) simp
  then show "bs \<noteq> [] \<Longrightarrow> ?thesis" by simp
next
  case False
  then have "fst (frames h v bs) \<noteq> []" by (subst frames.simps) (simp add: Let_def split_beta)
  then show ?thesis ..
qed

text \<open>Feeding a stream in chunks, keeping the left-over bytes between the chunks.\<close>

fun feed :: "nat \<Rightarrow> (bytes \<Rightarrow> nat) \<Rightarrow> bytes \<Rightarrow> bytes list \<Rightarrow> bytes list \<times> bytes" where
  "feed h v rest [] = ([], rest)"
| "feed h v rest (c # cs) =
     (let (ps, r) = frames h v (rest @ c); (qs, r') = feed h v r cs in (ps @ qs, r'))"

lemma feed_frames:
  "0 < h \<Longrightarrow> frames h v rest = ([], rest) \<Longrightarrow> feed h v rest cs = frames h v (rest @ concat cs)"
proof (induction cs arbitrary: rest)
  case Nil
  then show ?case by simp
next
  case (Cons c cs)
  let ?r = "snd (frames h v (rest @ c))"
  have "frames h v ?r = ([], ?r)" using Cons.prems(1) by (rule frames_rest)
  then have "feed h v ?r cs = frames h v (?r @ concat cs)" using Cons.IH Cons.prems(1) by blast
  then show ?case
    using frames_append [OF Cons.prems(1), of v "rest @ c" "concat cs"]
    by (simp add: Let_def split_beta)
qed

text \<open>Packets written with their headers are read back.\<close>

lemma frames_encoded:
  assumes "0 < h" "\<And>p. p \<in> set ps \<Longrightarrow> length (enc p) = h \<and> v (enc p) = length p"
  shows "frames h v (concat (map (\<lambda>p. enc p @ p) ps)) = (ps, [])"
  using assms(2)
proof (induction ps)
  case Nil
  then show ?case using assms(1) by simp
next
  case (Cons p ps)
  then show ?case using frames_packet [OF assms(1), of "enc p" p v] by simp
qed

end
