(* ===== verification/Words.thy ===== *)
theory Words
  imports Bytes
begin

text \<open>
  Words of four bytes, in both byte orders, as \<open>lua-crypt.c\<close> and \<open>lsha1.c\<close> read and write them: the macros
  \<open>GET_UINT32\<close> and \<open>PUT_UINT32\<close>, the little-endian words of \<open>read64\<close> and \<open>pushqword\<close>, and what they do to
  single bits.
\<close>

unbundle bit_operations_syntax

section \<open>Big endian\<close>

definition GET_UINT32 :: "bytes \<Rightarrow> nat \<Rightarrow> u32" where
  "GET_UINT32 b i = push_bit 24 (ucast (b ! i)) OR push_bit 16 (ucast (b ! (i + 1)))
     OR push_bit 8 (ucast (b ! (i + 2))) OR ucast (b ! (i + 3))"

definition PUT_UINT32 :: "u32 \<Rightarrow> bytes" where
  "PUT_UINT32 n = [ucast (drop_bit 24 n), ucast (drop_bit 16 n), ucast (drop_bit 8 n), ucast n]"

lemma length_PUT [simp]: "length (PUT_UINT32 n) = 4"
  by (simp add: PUT_UINT32_def)

lemma GET_PUT: "GET_UINT32 (PUT_UINT32 n @ bs) 0 = n" "GET_UINT32 (PUT_UINT32 m @ PUT_UINT32 n) 4 = n"
proof -
  have g: "push_bit 24 (ucast (ucast (drop_bit 24 n) :: u8)) OR push_bit 16 (ucast (ucast (drop_bit 16 n) :: u8)) OR
      push_bit 8 (ucast (ucast (drop_bit 8 n) :: u8)) OR ucast (ucast n :: u8) = n" for n :: u32
  proof (rule bit_word_eqI)
    fix i assume i: "i < LENGTH(32)"
    consider "i < 8" | "8 \<le> i" "i < 16" | "16 \<le> i" "i < 24" | "24 \<le> i" by linarith
    then show "bit (push_bit 24 (ucast (ucast (drop_bit 24 n) :: u8)) OR push_bit 16 (ucast (ucast (drop_bit 16 n) :: u8)) OR
        push_bit 8 (ucast (ucast (drop_bit 8 n) :: u8)) OR ucast (ucast n :: u8) :: u32) i = bit n i"
      using i by cases (auto simp: bit_simps)
  qed
  show "GET_UINT32 (PUT_UINT32 n @ bs) 0 = n" "GET_UINT32 (PUT_UINT32 m @ PUT_UINT32 n) 4 = n"
    by (simp_all add: GET_UINT32_def PUT_UINT32_def g)
qed

lemma PUT_GET:
  assumes "i + 4 \<le> length b"
  shows "PUT_UINT32 (GET_UINT32 b i) = take 4 (drop i b)"
proof -
  have u: "ucast (drop_bit 24 (push_bit 24 (ucast p) OR push_bit 16 (ucast q) OR push_bit 8 (ucast r) OR ucast s :: u32)) = p"
    "ucast (drop_bit 16 (push_bit 24 (ucast p) OR push_bit 16 (ucast q) OR push_bit 8 (ucast r) OR ucast s :: u32)) = q"
    "ucast (drop_bit 8 (push_bit 24 (ucast p) OR push_bit 16 (ucast q) OR push_bit 8 (ucast r) OR ucast s :: u32)) = r"
    "ucast (push_bit 24 (ucast p) OR push_bit 16 (ucast q) OR push_bit 8 (ucast r) OR ucast s :: u32) = s"
    for p q r s :: u8
    by (rule bit_word_eqI; auto simp: bit_simps dest: bit_imp_le_length)+
  have "take 4 (drop i b) = [b ! i, b ! (i + 1), b ! (i + 2), b ! (i + 3)]"
    using assms by (auto simp: list_eq_iff_nth_eq less_Suc_eq numeral_eq_Suc)
  then show ?thesis unfolding PUT_UINT32_def GET_UINT32_def u by simp
qed

section \<open>Little endian\<close>

definition read32 :: "bytes \<Rightarrow> nat \<Rightarrow> u32" where
  "read32 x i = ucast (x ! i) OR push_bit 8 (ucast (x ! (i + 1)))
     OR push_bit 16 (ucast (x ! (i + 2))) OR push_bit 24 (ucast (x ! (i + 3)))"

definition write32 :: "u32 \<Rightarrow> bytes" where
  "write32 w = [ucast (w AND 0xff), ucast (drop_bit 8 w AND 0xff), ucast (drop_bit 16 w AND 0xff), ucast (drop_bit 24 w AND 0xff)]"

section \<open>Bits\<close>

lemma bit_read32: "bit (read32 x i) n \<longleftrightarrow> n < 32 \<and> bit (x ! (i + n div 8)) (n mod 8)"
proof -
  obtain k m where n: "n = 8 * k + m" "m < 8" by (metis div_mult_mod_eq mod_less_divisor mult.commute zero_less_numeral)
  have d: "n div 8 = k" "n mod 8 = m" using n by simp_all
  consider "k = 0" | "k = 1" | "k = 2" | "k = 3" | "4 \<le> k" by linarith
  then show ?thesis unfolding read32_def d using n
    by cases (auto simp: bit_simps dest: bit_imp_le_length)
qed

lemma bit_GET_UINT32: "bit (GET_UINT32 x i) n \<longleftrightarrow> n < 32 \<and> bit (x ! (i + (3 - n div 8))) (n mod 8)"
proof -
  obtain k m where n: "n = 8 * k + m" "m < 8" by (metis div_mult_mod_eq mod_less_divisor mult.commute zero_less_numeral)
  have d: "n div 8 = k" "n mod 8 = m" using n by simp_all
  consider "k = 0" | "k = 1" | "k = 2" | "k = 3" | "4 \<le> k" by linarith
  then show ?thesis unfolding GET_UINT32_def d using n
    by cases (auto simp: bit_simps dest: bit_imp_le_length)
qed

lemma length_write32 [simp]: "length (write32 w) = 4"
  by (simp add: write32_def)

lemma bit_write32: "k < 4 \<Longrightarrow> m < 8 \<Longrightarrow> bit (write32 w ! k) m = bit w (8 * k + m)"
proof -
  assume k: "k < 4" and m: "m < 8"
  have f: "(0xff :: u32) = mask 8" by (simp add: mask_eq_exp_minus_1)
  consider "k = 0" | "k = 1" | "k = 2" | "k = 3" using k by linarith
  then show ?thesis unfolding write32_def f using m by cases (simp_all add: bit_simps)
qed

lemma read32_write32 [simp]: "read32 (write32 w) 0 = w"
  by (rule bit_word_eqI) (simp add: bit_read32 bit_write32 less_mult_imp_div_less)

lemma write32_read32: "i + 4 \<le> length b \<Longrightarrow> write32 (read32 b i) = take 4 (drop i b)"
proof (rule nth_equalityI)
  fix k assume l: "i + 4 \<le> length b" and "k < length (write32 (read32 b i))"
  then have k: "k < 4" by simp
  show "write32 (read32 b i) ! k = take 4 (drop i b) ! k"
  proof (rule bit_word_eqI)
    fix m assume "m < LENGTH(8)"
    then show "bit (write32 (read32 b i) ! k) m = bit (take 4 (drop i b) ! k) m"
      using k l by (simp add: bit_write32 bit_read32)
  qed
qed simp

end
