(* ===== verification/Harbor.thy ===== *)
theory Harbor
  imports Server Framing Fifo Words
begin

text \<open>
  \<open>service-src/service_harbor.c\<close>: the service that carries messages between the nodes of a cluster. It holds
  one slave record per node, whose status runs from \<open>STATUS_WAIT\<close> over the handshake to the alternation of
  headers and contents, and a table of global names. A message for a node that is not connected yet, or for
  a name that is not known yet, waits in a ring buffer. What the service does to the outside is a list of
  events. A message block is the list of its bytes; when the service frees one, it is an event. \<open>None\<close> is a
  failed assert, an access outside a block, or an overflow of a queue's size.
\<close>

section \<open>Data\<close>

definition HASH_SIZE :: nat where "HASH_SIZE = 4096"
definition HARBOR_QUEUE_SIZE :: nat where "HARBOR_QUEUE_SIZE = 1024"
definition HEADER_COOKIE_LENGTH :: nat where "HEADER_COOKIE_LENGTH = 12"
definition REMOTE_MAX :: nat where "REMOTE_MAX = 256"

record remote_message_header =
  hd_source :: u32
  hd_destination :: u32
  hd_session :: u32

record harbor_msg =
  hm_header :: remote_message_header
  hm_buffer :: bytes

record harbor_msg_queue =
  hq_size :: nat
  hq_head :: nat
  hq_tail :: nat
  hq_data :: "harbor_msg list"

record keyvalue =
  kv_key :: bytes
  kv_hash :: u32
  kv_value :: u32
  kv_queue :: "harbor_msg_queue option"

datatype status = STATUS_WAIT | STATUS_HANDSHAKE | STATUS_HEADER | STATUS_CONTENT | STATUS_DOWN

record slave =
  sl_fd :: int
  sl_queue :: "harbor_msg_queue option"
  sl_status :: status
  sl_length :: nat
  sl_read :: nat
  sl_size :: bytes
  sl_recv_buffer :: bytes

text \<open>A chain of the hash table is the list of its nodes.\<close>

record harbor =
  hb_id :: int
  hb_slave :: u32
  hb_map :: "keyvalue list list"
  hb_s :: "slave list"

datatype harbor_log =
    L_unknown_destination u32 u32 int
  | L_too_large u32 u32
  | L_drop_name bytes int
  | L_drop_message int u32 u32 int nat
  | L_invalid_fd int
  | L_invalid_handshake int int u8
  | L_too_long int
  | L_invalid_name bytes
  | L_invalid_command u8 bytes
  | L_already_exists int
  | L_bad_command bytes
  | L_unknown_fd int
  | L_not_sent int int
  | L_bad_socket_type int
  | L_bad_message u32 int

datatype harbor_event =
    Hb_send u32 u32 int int bytes  \<comment> \<open>source, destination, type, session, data\<close>
  | Hb_socket_send int bytes
  | Hb_close int
  | Hb_start int
  | Hb_free bytes
  | Hb_log harbor_log
  | Hb_callback
  | Hb_harbor_start

type_synonym harbor_result = "(harbor \<times> harbor_event list) option"

text \<open>One action after another; the events are appended.\<close>

definition after :: "harbor_result \<Rightarrow> (harbor \<Rightarrow> harbor_result) \<Rightarrow> harbor_result" where
  "after m f = Option.bind m (\<lambda>(h, ev). map_option (\<lambda>(h', ev'). (h', ev @ ev')) (f h))"

section \<open>Message queues\<close>

definition zero_msg :: harbor_msg where
  "zero_msg = \<lparr>hm_header = \<lparr>hd_source = 0, hd_destination = 0, hd_session = 0\<rparr>, hm_buffer = []\<rparr>"

definition grow_queue :: "harbor_msg_queue \<Rightarrow> harbor_msg_queue option" where
  "grow_queue q =
     (if (hq_tail q + 1) mod hq_size q = hq_head q then
        if 2 * hq_size q < 2 ^ 31 then
          Some \<lparr>hq_size = 2 * hq_size q, hq_head = 0, hq_tail = hq_size q - 1,
                hq_data = map (\<lambda>i. hq_data q ! ((i + hq_head q) mod hq_size q)) [0..<hq_size q - 1] @
                  replicate (hq_size q + 1) zero_msg\<rparr>
        else None
      else Some q)"

definition push_queue_msg :: "harbor_msg_queue \<Rightarrow> harbor_msg \<Rightarrow> harbor_msg_queue option" where
  "push_queue_msg q m =
     map_option (\<lambda>q. q\<lparr>hq_data := (hq_data q)[hq_tail q := m], hq_tail := (hq_tail q + 1) mod hq_size q\<rparr>)
       (grow_queue q)"

definition push_queue :: "harbor_msg_queue \<Rightarrow> bytes \<Rightarrow> remote_message_header \<Rightarrow> harbor_msg_queue option" where
  "push_queue q buffer header = push_queue_msg q \<lparr>hm_header = header, hm_buffer = buffer\<rparr>"

definition pop_queue :: "harbor_msg_queue \<Rightarrow> harbor_msg_queue \<times> harbor_msg option" where
  "pop_queue q =
     (if hq_head q = hq_tail q then (q, None)
      else (q\<lparr>hq_head := (hq_head q + 1) mod hq_size q\<rparr>, Some (hq_data q ! hq_head q)))"

definition new_harbor_queue :: harbor_msg_queue where
  "new_harbor_queue = \<lparr>hq_size = HARBOR_QUEUE_SIZE, hq_head = 0, hq_tail = 0,
     hq_data = replicate HARBOR_QUEUE_SIZE zero_msg\<rparr>"

text \<open>The loop \<open>while ((m = pop_queue(queue)) != NULL)\<close> with its body \<open>f\<close>.\<close>

partial_function (option) pop_loop ::
  "('s \<Rightarrow> harbor_msg \<Rightarrow> 's option) \<Rightarrow> 's \<Rightarrow> harbor_msg_queue \<Rightarrow> ('s \<times> harbor_msg_queue) option" where
  "pop_loop f s q =
     (case pop_queue q of
        (q, None) \<Rightarrow> Some (s, q)
      | (q, Some m) \<Rightarrow> Option.bind (f s m) (\<lambda>s. pop_loop f s q))"

definition release_queue :: "harbor_msg_queue option \<Rightarrow> harbor_event list option" where
  "release_queue q =
     (case q of
        None \<Rightarrow> Some []
      | Some q \<Rightarrow> map_option fst (pop_loop (\<lambda>ev m. Some (ev @ [Hb_free (hm_buffer m)])) [] q))"

section \<open>The table of names\<close>

text \<open>\<open>strncmp(a, b, n) == 0\<close> on arrays of at least \<open>n\<close> characters.\<close>

definition strncmp_eq :: "bytes \<Rightarrow> bytes \<Rightarrow> nat \<Rightarrow> bool" where
  "strncmp_eq a b n \<longleftrightarrow> takeWhile (\<lambda>c. c \<noteq> 0) (take n a) = takeWhile (\<lambda>c. c \<noteq> 0) (take n b)"

definition name_hash :: "bytes \<Rightarrow> u32" where
  "name_hash name = read32 name 0 XOR read32 name 4 XOR read32 name 8 XOR read32 name 12"

definition name_bucket :: "u32 \<Rightarrow> nat" where "name_bucket h = unat h mod HASH_SIZE"

fun search_chain :: "u32 \<Rightarrow> bytes \<Rightarrow> keyvalue list \<Rightarrow> nat option" where
  "search_chain h name [] = None"
| "search_chain h name (node # ns) =
     (if kv_hash node = h \<and> strncmp_eq (kv_key node) name GLOBALNAME_LENGTH then Some 0
      else map_option Suc (search_chain h name ns))"

text \<open>A pointer to a node is the chain and its place there.\<close>

definition hash_search :: "keyvalue list list \<Rightarrow> bytes \<Rightarrow> (nat \<times> nat) option" where
  "hash_search hash name =
     (let h = name_hash name in map_option (Pair (name_bucket h)) (search_chain h name (hash ! name_bucket h)))"

definition hash_insert :: "keyvalue list list \<Rightarrow> bytes \<Rightarrow> keyvalue list list \<times> (nat \<times> nat)" where
  "hash_insert hash name =
     (let h = name_hash name; b = name_bucket h;
          node = \<lparr>kv_key = take GLOBALNAME_LENGTH name, kv_hash = h, kv_value = 0, kv_queue = None\<rparr>
      in (hash[b := node # hash ! b], (b, 0)))"

definition hash_new :: "keyvalue list list" where "hash_new = replicate HASH_SIZE []"

definition node_at :: "harbor \<Rightarrow> nat \<times> nat \<Rightarrow> keyvalue" where
  "node_at h p = hb_map h ! fst p ! snd p"

definition set_node :: "nat \<times> nat \<Rightarrow> keyvalue \<Rightarrow> harbor \<Rightarrow> harbor" where
  "set_node p kv h = h\<lparr>hb_map := (hb_map h)[fst p := (hb_map h ! fst p)[snd p := kv]]\<rparr>"

definition find_node :: "harbor \<Rightarrow> bytes \<Rightarrow> harbor \<times> (nat \<times> nat)" where
  "find_node h name =
     (case hash_search (hb_map h) name of
        Some p \<Rightarrow> (h, p)
      | None \<Rightarrow> (let (m, p) = hash_insert (hb_map h) name in (h\<lparr>hb_map := m\<rparr>, p)))"

definition hash_delete :: "keyvalue list list \<Rightarrow> harbor_event list option" where
  "hash_delete hash =
     foldM (\<lambda>ev node. map_option (\<lambda>ev'. ev @ ev') (release_queue (kv_queue node))) [] (concat hash)"

section \<open>Slaves\<close>

definition slave_at :: "harbor \<Rightarrow> nat \<Rightarrow> slave" where "slave_at h i = hb_s h ! i"

definition set_slave :: "nat \<Rightarrow> slave \<Rightarrow> harbor \<Rightarrow> harbor" where
  "set_slave i s h = h\<lparr>hb_s := (hb_s h)[i := s]\<rparr>"

definition close_harbor :: "harbor \<Rightarrow> nat \<Rightarrow> harbor_result" where
  "close_harbor h hid =
     (let s = slave_at h hid in
      map_option (\<lambda>ev.
        (set_slave hid (s\<lparr>sl_status := STATUS_DOWN, sl_fd := 0, sl_queue := None\<rparr>) h,
         (if sl_fd s \<noteq> 0 then [Hb_close (sl_fd s)] else []) @ ev))
        (release_queue (sl_queue s)))"

definition report_harbor_down :: "harbor \<Rightarrow> nat \<Rightarrow> harbor_event list" where
  "report_harbor_down h hid = [Hb_send 0 (hb_slave h) PTYPE_TEXT 0 (str ''D '' @ dec (int hid))]"

definition zero_slave :: slave where
  "zero_slave = \<lparr>sl_fd = 0, sl_queue = None, sl_status = STATUS_WAIT, sl_length = 0, sl_read = 0,
     sl_size = replicate 4 0, sl_recv_buffer = []\<rparr>"

definition harbor_create :: harbor where
  "harbor_create = \<lparr>hb_id = 0, hb_slave = 0, hb_map = hash_new, hb_s = replicate REMOTE_MAX zero_slave\<rparr>"

definition close_all_remotes :: "harbor \<Rightarrow> harbor_result" where
  "close_all_remotes h = foldl (\<lambda>m i. after m (\<lambda>h. close_harbor h i)) (Some (h, [])) [1..<REMOTE_MAX]"

definition harbor_release :: "harbor \<Rightarrow> harbor_event list option" where
  "harbor_release h =
     Option.bind (close_all_remotes h) (\<lambda>(h, ev). map_option (\<lambda>ev'. ev @ ev') (hash_delete (hb_map h)))"

section \<open>Headers\<close>

definition to_bigendian :: "u32 \<Rightarrow> bytes" where
  "to_bigendian n = [ucast (drop_bit 24 n AND 0xff), ucast (drop_bit 16 n AND 0xff), ucast (drop_bit 8 n AND 0xff), ucast (n AND 0xff)]"

definition header_to_message :: "remote_message_header \<Rightarrow> bytes" where
  "header_to_message header =
     to_bigendian (hd_source header) @ to_bigendian (hd_destination header) @ to_bigendian (hd_session header)"

text \<open>The bytes of the word \<open>n\<close> in memory, on a little-endian machine, are \<open>write32 n\<close>.\<close>

definition from_bigendian :: "u32 \<Rightarrow> u32" where
  "from_bigendian n =
     (let b = write32 n in
      push_bit 24 (ucast (b ! 0)) OR push_bit 16 (ucast (b ! 1)) OR push_bit 8 (ucast (b ! 2)) OR ucast (b ! 3))"

definition message_to_header :: "bytes \<Rightarrow> remote_message_header" where
  "message_to_header message =
     \<lparr>hd_source = from_bigendian (read32 message 0), hd_destination = from_bigendian (read32 message 4),
      hd_session = from_bigendian (read32 message 8)\<rparr>"

section \<open>Messages from and to other nodes\<close>

text \<open>\<open>alive\<close> tells for which handles \<open>skynet_send\<close> finds a service.\<close>

definition forward_local_messsage :: "(u32 \<Rightarrow> bool) \<Rightarrow> harbor \<Rightarrow> bytes \<Rightarrow> nat \<Rightarrow> harbor_event list option" where
  "forward_local_messsage alive h msg sz =
     Option.bind (peek msg (int sz - int HEADER_COOKIE_LENGTH) (int HEADER_COOKIE_LENGTH)) (\<lambda>cookie.
       let header = message_to_header cookie;
           type = uint (drop_bit HANDLE_REMOTE_SHIFT (hd_destination header));
           destination = (hd_destination header AND HANDLE_MASK) OR push_bit HANDLE_REMOTE_SHIFT (word_of_int (hb_id h));
           session = to_i32 (uint (hd_session header))
       in Some
         (Hb_send (hd_source header) destination (type OR PTYPE_TAG_DONTCOPY) session (take (sz - HEADER_COOKIE_LENGTH) msg) #
          (if alive destination then []
           else (if type \<noteq> PTYPE_ERROR then [Hb_send destination (hd_source header) PTYPE_ERROR session []] else []) @
             [Hb_log (L_unknown_destination destination (hd_source header) type)])))"

definition send_remote :: "int \<Rightarrow> bytes \<Rightarrow> remote_message_header \<Rightarrow> harbor_event list" where
  "send_remote fd buffer cookie =
     (let sz_header = length buffer + 12 in
      if sz_header > 2 ^ 32 - 1 then [Hb_log (L_too_large (hd_source cookie) (hd_destination cookie))]
      else [Hb_socket_send fd (to_bigendian (of_nat sz_header) @ buffer @ header_to_message cookie)])"

text \<open>The bodies of the loops that hand the messages of a queue to a local service, to a socket, and to a socket
  for a name that has become known.\<close>

definition local_body :: "u32 \<Rightarrow> harbor_event list \<Rightarrow> harbor_msg \<Rightarrow> harbor_event list option" where
  "local_body handle ev m =
     (let type = uint (drop_bit HANDLE_REMOTE_SHIFT (hd_destination (hm_header m))) in
      Some (ev @ [Hb_send (hd_source (hm_header m)) handle (type OR PTYPE_TAG_DONTCOPY)
        (to_i32 (uint (hd_session (hm_header m)))) (hm_buffer m)]))"

definition remote_body :: "int \<Rightarrow> harbor_event list \<Rightarrow> harbor_msg \<Rightarrow> harbor_event list option" where
  "remote_body fd ev m = Some (ev @ send_remote fd (hm_buffer m) (hm_header m) @ [Hb_free (hm_buffer m)])"

definition name_body :: "int \<Rightarrow> u32 \<Rightarrow> harbor_event list \<Rightarrow> harbor_msg \<Rightarrow> harbor_event list option" where
  "name_body fd handle ev m =
     remote_body fd ev
       (m\<lparr>hm_header := (hm_header m)\<lparr>hd_destination := hd_destination (hm_header m) OR (handle AND HANDLE_MASK)\<rparr>\<rparr>)"

definition dispatch_name_queue :: "harbor \<Rightarrow> nat \<times> nat \<Rightarrow> harbor_result" where
  "dispatch_name_queue h p =
     (let node = node_at h p; handle = kv_value node;
          harbor_id = unat (drop_bit HANDLE_REMOTE_SHIFT handle); s = slave_at h harbor_id
      in Option.bind (kv_queue node) (\<lambda>queue.
         if sl_fd s = 0 then
           if sl_status s = STATUS_DOWN then
             Some (h, [Hb_log (L_drop_name (takeWhile (\<lambda>c. c \<noteq> 0) (kv_key node)) (int harbor_id))])
           else
             Option.bind
               (case sl_queue s of
                  None \<Rightarrow> Some (queue, None)
                | Some sq \<Rightarrow> map_option (\<lambda>(sq, queue). (sq, Some queue)) (pop_loop push_queue_msg sq queue))
               (\<lambda>(sq, nq).
                 let h1 = set_node p (node\<lparr>kv_queue := nq\<rparr>) h in
                 if harbor_id = unat (drop_bit HANDLE_REMOTE_SHIFT (hb_slave h))
                 then Option.bind (pop_loop (local_body handle) [] sq) (\<lambda>(ev, sq).
                   map_option (\<lambda>ev'. (set_slave harbor_id (s\<lparr>sl_queue := None\<rparr>) h1, ev @ ev')) (release_queue (Some sq)))
                 else Some (set_slave harbor_id (s\<lparr>sl_queue := Some sq\<rparr>) h1, []))
         else
           map_option (\<lambda>(ev, queue). (set_node p (node\<lparr>kv_queue := Some queue\<rparr>) h, ev))
             (pop_loop (name_body (sl_fd s) handle) [] queue)))"

definition dispatch_slave_queue :: "harbor \<Rightarrow> nat \<Rightarrow> harbor_result" where
  "dispatch_slave_queue h hid =
     (let s = slave_at h hid in
      if sl_fd s = 0 then None
      else
        case sl_queue s of
          None \<Rightarrow> Some (h, [])
        | Some queue \<Rightarrow>
            Option.bind (pop_loop (remote_body (sl_fd s)) [] queue) (\<lambda>(ev, queue).
              map_option (\<lambda>ev'. (set_slave hid (s\<lparr>sl_queue := None\<rparr>) h, ev @ ev')) (release_queue (Some queue))))"

section \<open>Data from a socket\<close>

text \<open>The slave with a socket, 0 if there is none.\<close>

definition harbor_id :: "harbor \<Rightarrow> int \<Rightarrow> nat" where
  "harbor_id h fd = (case List.find (\<lambda>i. sl_fd (slave_at h i) = fd) [1..<REMOTE_MAX] of Some i \<Rightarrow> i | None \<Rightarrow> 0)"

text \<open>
  The cases of the switch in the order in which they fall through. Each gives the rest of the data when the loop
  goes on, and \<open>None\<close> when the function returns.
\<close>

type_synonym data_result = "(harbor \<times> harbor_event list \<times> bytes option) option"

definition on_content :: "(u32 \<Rightarrow> bool) \<Rightarrow> nat \<Rightarrow> harbor \<Rightarrow> bytes \<Rightarrow> data_result" where
  "on_content alive hid h buffer =
     (let s = slave_at h hid; need = int (sl_length s) - int (sl_read s) in
      if int (length buffer) < need then
        map_option (\<lambda>rb. (set_slave hid (s\<lparr>sl_recv_buffer := rb, sl_read := sl_read s + length buffer\<rparr>) h, [], None))
          (blit (sl_recv_buffer s) (int (sl_read s)) buffer)
      else
        Option.bind (peek buffer 0 need) (\<lambda>part.
        Option.bind (blit (sl_recv_buffer s) (int (sl_read s)) part) (\<lambda>rb.
        map_option (\<lambda>ev.
          (set_slave hid (s\<lparr>sl_length := 0, sl_read := 0, sl_recv_buffer := [], sl_status := STATUS_HEADER\<rparr>) h, ev,
           if int (length buffer) = need then None else Some (drop (nat need) buffer)))
          (forward_local_messsage alive h rb (sl_length s)))))"

definition on_header :: "(u32 \<Rightarrow> bool) \<Rightarrow> nat \<Rightarrow> harbor \<Rightarrow> bytes \<Rightarrow> data_result" where
  "on_header alive hid h buffer =
     (let s = slave_at h hid; need = 4 - int (sl_read s) in
      if int (length buffer) < need then
        map_option (\<lambda>sz. (set_slave hid (s\<lparr>sl_size := sz, sl_read := sl_read s + length buffer\<rparr>) h, [], None))
          (blit (sl_size s) (int (sl_read s)) buffer)
      else
        Option.bind (peek buffer 0 need) (\<lambda>part.
        Option.bind (blit (sl_size s) (int (sl_read s)) part) (\<lambda>sz.
          let rest = drop (nat need) buffer; s1 = s\<lparr>sl_size := sz\<rparr> in
          if sz ! 0 \<noteq> 0 then
            map_option (\<lambda>(h, ev). (h, Hb_log (L_too_long (int hid)) # ev, None)) (close_harbor (set_slave hid s1 h) hid)
          else
            let n = nat (uint (sz ! 1) * 2 ^ 16 + uint (sz ! 2) * 2 ^ 8 + uint (sz ! 3));
                h1 = set_slave hid (s1\<lparr>sl_length := n, sl_read := 0, sl_recv_buffer := replicate n 0,
                       sl_status := STATUS_CONTENT\<rparr>) h
            in if rest = [] then Some (h1, [], None) else on_content alive hid h1 rest)))"

definition on_handshake :: "(u32 \<Rightarrow> bool) \<Rightarrow> nat \<Rightarrow> int \<Rightarrow> harbor \<Rightarrow> bytes \<Rightarrow> data_result" where
  "on_handshake alive hid fd h buffer =
     (case buffer of
        [] \<Rightarrow> None
      | remote_id # rest \<Rightarrow>
          if uint remote_id \<noteq> int hid then
            map_option (\<lambda>(h, ev). (h, Hb_log (L_invalid_handshake (int hid) fd remote_id) # ev, None)) (close_harbor h hid)
          else
            Option.bind (dispatch_slave_queue (set_slave hid ((slave_at h hid)\<lparr>sl_status := STATUS_HEADER\<rparr>) h) hid) (\<lambda>(h, ev).
              if rest = [] then Some (h, ev, Some [])
              else map_option (\<lambda>(h, ev', r). (h, ev @ ev', r)) (on_header alive hid h rest)))"

definition on_data :: "(u32 \<Rightarrow> bool) \<Rightarrow> nat \<Rightarrow> int \<Rightarrow> harbor \<Rightarrow> bytes \<Rightarrow> data_result" where
  "on_data alive hid fd h buffer =
     (case sl_status (slave_at h hid) of
        STATUS_HANDSHAKE \<Rightarrow> on_handshake alive hid fd h buffer
      | STATUS_HEADER \<Rightarrow> on_header alive hid h buffer
      | STATUS_CONTENT \<Rightarrow> on_content alive hid h buffer
      | _ \<Rightarrow> Some (h, [], None))"

partial_function (option) data_loop ::
  "(u32 \<Rightarrow> bool) \<Rightarrow> nat \<Rightarrow> int \<Rightarrow> harbor \<Rightarrow> bytes \<Rightarrow> harbor_result" where
  "data_loop alive hid fd h buffer =
     Option.bind (on_data alive hid fd h buffer) (\<lambda>(h, ev, r).
       case r of
         None \<Rightarrow> Some (h, ev)
       | Some rest \<Rightarrow> Option.bind (data_loop alive hid fd h rest) (\<lambda>(h, ev'). Some (h, ev @ ev')))"

definition push_socket_data :: "(u32 \<Rightarrow> bool) \<Rightarrow> harbor \<Rightarrow> int \<Rightarrow> bytes \<Rightarrow> harbor_result" where
  "push_socket_data alive h fd buffer =
     (let hid = harbor_id h fd in
      if hid = 0 then Some (h, [Hb_log (L_invalid_fd fd)]) else data_loop alive hid fd h buffer)"

section \<open>Messages to names and handles\<close>

definition update_name :: "harbor \<Rightarrow> bytes \<Rightarrow> u32 \<Rightarrow> harbor_result" where
  "update_name h name handle =
     (let (h1, p) = find_node h name;
          h2 = set_node p ((node_at h1 p)\<lparr>kv_value := handle\<rparr>) h1
      in if kv_queue (node_at h2 p) = None then Some (h2, [])
         else after (dispatch_name_queue h2 p) (\<lambda>h3.
           map_option (\<lambda>ev. (set_node p ((node_at h3 p)\<lparr>kv_queue := None\<rparr>) h3, ev)) (release_queue (kv_queue (node_at h3 p)))))"

definition get_harbor_queue :: "harbor_msg_queue option \<Rightarrow> harbor_msg_queue" where
  "get_harbor_queue q = (case q of None \<Rightarrow> new_harbor_queue | Some q \<Rightarrow> q)"

text \<open>The boolean tells that the message has been taken over.\<close>

definition remote_send_handle ::
  "harbor \<Rightarrow> u32 \<Rightarrow> u32 \<Rightarrow> int \<Rightarrow> int \<Rightarrow> bytes \<Rightarrow> (harbor \<times> harbor_event list \<times> bool) option" where
  "remote_send_handle h source destination type session msg =
     (let hid = unat (drop_bit HANDLE_REMOTE_SHIFT destination) in
      if int hid = hb_id h
      then Some (h, [Hb_send source destination (type OR PTYPE_TAG_DONTCOPY) session msg], True)
      else
        let s = slave_at h hid;
            cookie = \<lparr>hd_source = source,
                      hd_destination = push_bit HANDLE_REMOTE_SHIFT (word_of_int type) OR (destination AND HANDLE_MASK),
                      hd_session = word_of_int session\<rparr>
        in if sl_fd s = 0 \<or> sl_status s = STATUS_HANDSHAKE then
             if sl_status s = STATUS_DOWN then
               Some (h, [Hb_send destination source PTYPE_ERROR session [],
                         Hb_log (L_drop_message (int hid) source destination session (length msg))], False)
             else
               map_option (\<lambda>q. (set_slave hid (s\<lparr>sl_queue := Some q\<rparr>) h, [], True))
                 (push_queue (get_harbor_queue (sl_queue s)) msg cookie)
           else Some (h, send_remote (sl_fd s) msg cookie, False))"

definition remote_send_name ::
  "harbor \<Rightarrow> u32 \<Rightarrow> bytes \<Rightarrow> int \<Rightarrow> int \<Rightarrow> bytes \<Rightarrow> (harbor \<times> harbor_event list \<times> bool) option" where
  "remote_send_name h source name type session msg =
     (let (h1, p) = find_node h name; node = node_at h1 p in
      if kv_value node = 0 then
        map_option (\<lambda>q.
          (set_node p (node\<lparr>kv_queue := Some q\<rparr>) h1,
           [Hb_send 0 (hb_slave h) PTYPE_TEXT 0 (str ''Q '' @ takeWhile (\<lambda>c. c \<noteq> 0) (take GLOBALNAME_LENGTH name))], True))
          (push_queue (get_harbor_queue (kv_queue node)) msg
            \<lparr>hd_source = source, hd_destination = push_bit HANDLE_REMOTE_SHIFT (word_of_int type), hd_session = word_of_int session\<rparr>)
      else remote_send_handle h1 source (kv_value node) type session msg)"

section \<open>Commands\<close>

definition handshake :: "harbor \<Rightarrow> nat \<Rightarrow> harbor_event list" where
  "handshake h hid = [Hb_socket_send (sl_fd (slave_at h hid)) [word_of_int (hb_id h)]]"

text \<open>\<open>sscanf(buffer, "%d %d", &fd, &id)\<close> with both variables 0 before.\<close>

definition scan_pair :: "bytes \<Rightarrow> int \<times> int" where
  "scan_pair s =
     (case scan_int s of
        None \<Rightarrow> (0, 0)
      | Some (fd, r) \<Rightarrow> (fd, case scan_int r of None \<Rightarrow> 0 | Some (hid, _) \<Rightarrow> hid))"

text \<open>The text of a message is followed by a NUL.\<close>

definition harbor_command :: "harbor \<Rightarrow> bytes \<Rightarrow> u32 \<Rightarrow> harbor_result" where
  "harbor_command h msg source =
     (let s = int (length msg) - 2; name = drop 2 msg; c = char0 msg in
      if c = 78 then
        if s \<le> 0 \<or> s \<ge> int GLOBALNAME_LENGTH
        then map_option (\<lambda>n. (h, [Hb_log (L_invalid_name n)])) (cstr (msg @ [0]) 2)
        else update_name h (name @ replicate (GLOBALNAME_LENGTH - length name) 0) source
      else if c = 83 \<or> c = 65 then
        if s < 0 then None
        else
          let buffer = takeWhile (\<lambda>c. c \<noteq> 0) name; (fd, hid) = scan_pair buffer in
          if fd = 0 \<or> hid \<le> 0 \<or> hid \<ge> int REMOTE_MAX then Some (h, [Hb_log (L_invalid_command c buffer)])
          else
            let i = nat hid in
            if sl_fd (slave_at h i) \<noteq> 0 then Some (h, [Hb_log (L_already_exists hid)])
            else
              let h1 = set_slave i ((slave_at h i)\<lparr>sl_fd := fd\<rparr>) h;
                  h2 = set_slave i ((slave_at h1 i)\<lparr>sl_status := (if c = 83 then STATUS_HANDSHAKE else STATUS_HEADER)\<rparr>) h1;
                  ev = Hb_start fd # handshake h1 i
              in if c = 83 then Some (h2, ev) else map_option (\<lambda>(h, ev'). (h, ev @ ev')) (dispatch_slave_queue h2 i)
      else map_option (\<lambda>n. (h, [Hb_log (L_bad_command n)])) (cstr (msg @ [0]) 0))"

section \<open>The service\<close>

definition SKYNET_SOCKET_TYPE_DATA :: int where "SKYNET_SOCKET_TYPE_DATA = 1"
definition SKYNET_SOCKET_TYPE_CONNECT :: int where "SKYNET_SOCKET_TYPE_CONNECT = 2"
definition SKYNET_SOCKET_TYPE_CLOSE :: int where "SKYNET_SOCKET_TYPE_CLOSE = 3"
definition SKYNET_SOCKET_TYPE_ERROR :: int where "SKYNET_SOCKET_TYPE_ERROR = 5"
definition SKYNET_SOCKET_TYPE_WARNING :: int where "SKYNET_SOCKET_TYPE_WARNING = 7"

datatype harbor_input =
    In_socket_msg int int int bytes  \<comment> \<open>type, id, ud, buffer\<close>
  | In_harbor bytes u32  \<comment> \<open>text, source\<close>
  | In_remote bytes u32 bytes int int u32  \<comment> \<open>name, handle, message, type, session, source\<close>
  | In_wrong int int u32  \<comment> \<open>type, session, source\<close>

definition harbor_socket :: "(u32 \<Rightarrow> bool) \<Rightarrow> harbor \<Rightarrow> int \<Rightarrow> int \<Rightarrow> int \<Rightarrow> bytes \<Rightarrow> harbor_result" where
  "harbor_socket alive h type sid ud buffer =
     (if type = SKYNET_SOCKET_TYPE_DATA then
        map_option (\<lambda>(h, ev). (h, ev @ [Hb_free buffer])) (push_socket_data alive h sid (take (nat ud) buffer))
      else if type = SKYNET_SOCKET_TYPE_ERROR \<or> type = SKYNET_SOCKET_TYPE_CLOSE then
        let hid = harbor_id h sid
        in Some (h, if hid \<noteq> 0 then report_harbor_down h hid else [Hb_log (L_unknown_fd sid)])
      else if type = SKYNET_SOCKET_TYPE_CONNECT then Some (h, [])
      else if type = SKYNET_SOCKET_TYPE_WARNING then
        let hid = harbor_id h sid in Some (h, if hid \<noteq> 0 then [Hb_log (L_not_sent (int hid) ud)] else [])
      else Some (h, [Hb_log (L_bad_socket_type PTYPE_SOCKET)]))"

definition harbor_mainloop :: "(u32 \<Rightarrow> bool) \<Rightarrow> harbor \<Rightarrow> harbor_input \<Rightarrow> harbor_result" where
  "harbor_mainloop alive h m =
     (case m of
        In_socket_msg type sid ud buffer \<Rightarrow> harbor_socket alive h type sid ud buffer
      | In_harbor msg source \<Rightarrow> harbor_command h msg source
      | In_remote name handle msg type session source \<Rightarrow>
          map_option (\<lambda>(h, ev, taken). (h, if taken then ev else ev @ [Hb_free msg]))
            (if handle = 0 then remote_send_name h source name type session msg
             else remote_send_handle h source handle type session msg)
      | In_wrong type session source \<Rightarrow>
          Some (h, Hb_log (L_bad_message source type) #
            (if session \<noteq> 0 \<and> type \<noteq> PTYPE_ERROR then [Hb_send 0 source PTYPE_ERROR session []] else [])))"

definition harbor_init :: "harbor \<Rightarrow> bytes \<Rightarrow> (harbor \<times> harbor_event list \<times> int) option" where
  "harbor_init h args =
     (let (hid, sl) = (case scan_int args of None \<Rightarrow> (0, 0)
                       | Some (i, r) \<Rightarrow> (i, case scan_uint r of None \<Rightarrow> 0 | Some (u, _) \<Rightarrow> u))
      in if sl = 0 then Some (h, [], 1)
         else
           let h1 = h\<lparr>hb_id := hid, hb_slave := sl\<rparr> in
           map_option (\<lambda>(h2, ev). (h2, ev @ [Hb_callback, Hb_harbor_start], 0))
             (if hid = 0 then close_all_remotes h1 else Some (h1, [])))"

section \<open>The queues are lists\<close>

definition hq_count :: "harbor_msg_queue \<Rightarrow> nat" where
  "hq_count q = (if hq_head q \<le> hq_tail q then hq_tail q - hq_head q else hq_tail q + hq_size q - hq_head q)"

definition hq_items :: "harbor_msg_queue \<Rightarrow> harbor_msg list" where
  "hq_items q = ring_list (hq_data q) (hq_head q) (hq_count q)"

definition hq_ok :: "harbor_msg_queue \<Rightarrow> bool" where
  "hq_ok q \<longleftrightarrow> length (hq_data q) = hq_size q \<and> hq_head q < hq_size q \<and> hq_tail q < hq_size q \<and> 2 \<le> hq_size q \<and>
     (\<exists>k. hq_size q = 2 ^ k)"

text \<open>The most messages in a queue before the doubling of its size overflows an \<open>int\<close>.\<close>

definition hq_limit :: nat where "hq_limit = 2 ^ 30 - 1"

lemma length_hq_items [simp]: "length (hq_items q) = hq_count q"
  by (simp add: hq_items_def)

lemma hq_count_less: "hq_ok q \<Longrightarrow> hq_count q < hq_size q"
  by (auto simp: hq_count_def hq_ok_def)

lemma hq_tail_index: "hq_ok q \<Longrightarrow> (hq_head q + hq_count q) mod hq_size q = hq_tail q"
  by (auto simp: hq_count_def hq_ok_def)

lemma hq_full: "hq_ok q \<Longrightarrow> (hq_tail q + 1) mod hq_size q = hq_head q \<longleftrightarrow> hq_count q = hq_size q - 1"
proof -
  assume ok: "hq_ok q"
  then show ?thesis
    by (cases "hq_tail q + 1 = hq_size q") (auto simp: hq_count_def hq_ok_def)
qed

lemma grow_queue_ok:
  assumes ok: "hq_ok q" and room: "hq_count q < hq_limit"
  shows "\<exists>q'. grow_queue q = Some q' \<and> hq_ok q' \<and> hq_items q' = hq_items q \<and> hq_count q' < hq_size q' - 1"
proof (cases "(hq_tail q + 1) mod hq_size q = hq_head q")
  case False
  then show ?thesis using ok hq_full [OF ok] hq_count_less [OF ok] by (auto simp: grow_queue_def)
next
  case True
  obtain k where k: "hq_size q = 2 ^ k" using ok by (auto simp: hq_ok_def)
  have c: "hq_count q = hq_size q - 1" using True hq_full [OF ok] by simp
  have "hq_size q < 2 ^ 30" using room c by (simp add: hq_limit_def)
  then have s: "2 * hq_size q < 2 ^ 31" by simp
  let ?q = "\<lparr>hq_size = 2 * hq_size q, hq_head = 0, hq_tail = hq_size q - 1,
    hq_data = map (\<lambda>i. hq_data q ! ((i + hq_head q) mod hq_size q)) [0..<hq_size q - 1] @
      replicate (hq_size q + 1) zero_msg\<rparr>"
  have "grow_queue q = Some ?q" using True s by (simp add: grow_queue_def)
  moreover have ok': "hq_ok ?q"
    using ok k by (auto simp: hq_ok_def intro: exI [of _ "Suc k"])
  moreover have c': "hq_count ?q = hq_size q - 1" by (simp add: hq_count_def)
  moreover have "hq_items ?q = hq_items q"
  proof -
    have "hq_items ?q = take (hq_size q - 1) (hq_data ?q)"
      unfolding hq_items_def c' by (subst harbor_msg_queue.select_convs) (rule ring_list_prefix, simp)
    also have "\<dots> = hq_items q"
      using ok unfolding hq_items_def c ring_list_def by (simp add: hq_ok_def add.commute)
    finally show ?thesis .
  qed
  moreover have "hq_count ?q < hq_size ?q - 1"
  proof -
    have "2 \<le> hq_size q" using ok by (simp add: hq_ok_def)
    then show ?thesis unfolding c' by simp
  qed
  ultimately show ?thesis by blast
qed

lemma push_queue_msg_items:
  assumes ok: "hq_ok q" and room: "length (hq_items q) < hq_limit"
  shows "\<exists>q'. push_queue_msg q m = Some q' \<and> hq_ok q' \<and> hq_items q' = hq_items q @ [m]"
proof -
  obtain g where g: "grow_queue q = Some g" "hq_ok g" "hq_items g = hq_items q" "hq_count g < hq_size g - 1"
    using grow_queue_ok [OF ok] room by auto
  let ?q = "g\<lparr>hq_data := (hq_data g)[hq_tail g := m], hq_tail := (hq_tail g + 1) mod hq_size g\<rparr>"
  have l: "length (hq_data g) = hq_size g" using g(2) by (simp add: hq_ok_def)
  have ok': "hq_ok ?q" using g(2) by (auto simp: hq_ok_def)
  have c: "hq_count ?q = Suc (hq_count g)"
    using g(2,4) by (cases "hq_tail g + 1 = hq_size g") (auto simp: hq_count_def hq_ok_def split: if_splits)
  have "hq_items ?q = hq_items g @ [m]"
    unfolding hq_items_def c
    using ring_list_snoc [of "hq_count g" "hq_data g" "hq_head g" m] g(4) l hq_tail_index [OF g(2)] by simp
  then show ?thesis using ok' g by (simp add: push_queue_msg_def)
qed

lemma pop_queue_items:
  assumes ok: "hq_ok q"
  shows "hq_items q = [] \<Longrightarrow> pop_queue q = (q, None)"
    and "hq_items q = m # ms \<Longrightarrow> \<exists>q'. pop_queue q = (q', Some m) \<and> hq_ok q' \<and> hq_items q' = ms"
proof -
  assume "hq_items q = []"
  then have "hq_count q = 0" by (metis length_hq_items list.size(3))
  then have "hq_head q = hq_tail q" using ok by (auto simp: hq_count_def hq_ok_def split: if_splits)
  then show "pop_queue q = (q, None)" by (simp add: pop_queue_def)
next
  assume i: "hq_items q = m # ms"
  then have "hq_count q = length (m # ms)" by (metis length_hq_items)
  then have n: "hq_count q = Suc (length ms)" by simp
  let ?q = "q\<lparr>hq_head := (hq_head q + 1) mod hq_size q\<rparr>"
  have ok': "hq_ok ?q" using ok by (auto simp: hq_ok_def)
  have d: "hq_head q \<noteq> hq_tail q" using n by (auto simp: hq_count_def)
  have c: "hq_count ?q = length ms"
    using ok n d by (cases "hq_head q + 1 = hq_size q") (auto simp: hq_count_def hq_ok_def split: if_splits)
  have l: "length (hq_data q) = hq_size q" "hq_head q < hq_size q" using ok by (simp_all add: hq_ok_def)
  have "m # ms = hq_data q ! hq_head q # ring_list (hq_data q) (Suc (hq_head q) mod hq_size q) (length ms)"
    using i unfolding hq_items_def n ring_list_Suc_head by (simp add: l)
  then show "\<exists>q'. pop_queue q = (q', Some m) \<and> hq_ok q' \<and> hq_items q' = ms"
    using d ok' c by (simp add: pop_queue_def hq_items_def)
qed

interpretation hqf: fifo_queue hq_ok hq_items push_queue_msg "\<lambda>q. Some (pop_queue q)" hq_limit
proof (unfold_locales, goal_cases)
  case (1 q x)
  then show ?case using push_queue_msg_items by simp
next
  case (2 q)
  then show ?case using pop_queue_items(1) by simp
next
  case (3 q x xs)
  then show ?case using pop_queue_items(2) [OF 3] by auto
qed

lemma new_harbor_queue_ok: "hq_ok new_harbor_queue" "hq_items new_harbor_queue = []"
  by (simp_all add: new_harbor_queue_def hq_ok_def hq_items_def hq_count_def HARBOR_QUEUE_SIZE_def exI [of _ 10])

text \<open>A loop over a queue is a fold over its items, and leaves it empty.\<close>

text \<open>A loop over a queue is a fold over its items, and leaves it empty.\<close>

lemma pop_loop_fold:
  assumes "hq_ok q" "foldM f s (hq_items q) = Some s'"
  shows "\<exists>q'. pop_loop f s q = Some (s', q') \<and> hq_ok q' \<and> hq_items q' = []"
  using assms
proof (induction "hq_items q" arbitrary: q s)
  case Nil
  then show ?case using pop_queue_items(1) [of q] by (subst pop_loop.simps) simp
next
  case (Cons m ms)
  obtain q1 where q1: "pop_queue q = (q1, Some m)" "hq_ok q1" "hq_items q1 = ms"
    using pop_queue_items(2) [OF Cons.prems(1) Cons.hyps(2) [symmetric]] by blast
  obtain s1 where s1: "f s m = Some s1" "foldM f s1 ms = Some s'"
    using Cons.prems(2) unfolding Cons.hyps(2) [symmetric] by (auto split: Option.bind_splits)
  then show ?case using Cons.hyps(1) [of q1 s1] q1 by (subst pop_loop.simps) simp
qed

lemma foldM_collect:
  "(\<And>ev m. f ev m = Some (ev @ g m)) \<Longrightarrow> foldM f ev ms = Some (ev @ concat (map g ms))"
  by (induction ms arbitrary: ev) auto

lemmas pop_loop_collect = pop_loop_fold [OF _ foldM_collect]

definition frees :: "harbor_msg list \<Rightarrow> harbor_event list" where
  "frees ms = map (\<lambda>m. Hb_free (hm_buffer m)) ms"

lemma frees_Nil [simp]: "frees [] = []" by (simp add: frees_def)

definition q_ok :: "harbor_msg_queue option \<Rightarrow> bool" where
  "q_ok q = (case q of None \<Rightarrow> True | Some q \<Rightarrow> hq_ok q)"

definition q_items :: "harbor_msg_queue option \<Rightarrow> harbor_msg list" where
  "q_items q = (case q of None \<Rightarrow> [] | Some q \<Rightarrow> hq_items q)"

lemma q_simps [simp]: "q_ok None" "q_ok (Some q) = hq_ok q" "q_items None = []" "q_items (Some q) = hq_items q"
  by (simp_all add: q_ok_def q_items_def)

lemma release_queue_frees [simp]: "q_ok q \<Longrightarrow> release_queue q = Some (frees (q_items q))"
proof (cases q)
  case (Some r)
  assume "q_ok q"
  then have "hq_ok r" using Some by simp
  then show ?thesis
    using pop_loop_collect [of r "\<lambda>ev m. Some (ev @ [Hb_free (hm_buffer m)])" "\<lambda>m. [Hb_free (hm_buffer m)]" "[]"] Some
    by (auto simp: release_queue_def frees_def)
qed (simp add: release_queue_def)

lemma get_harbor_queue_ok [simp]: "q_ok q \<Longrightarrow> hq_ok (get_harbor_queue q)" "hq_items (get_harbor_queue q) = q_items q"
  by (cases q; simp add: get_harbor_queue_def new_harbor_queue_ok)+

text \<open>The same for moving one queue behind another.\<close>

lemma move_queue:
  assumes "hq_ok sq" "length (hq_items sq) + length ms \<le> hq_limit"
  shows "\<exists>sq'. foldM push_queue_msg sq ms = Some sq' \<and> hq_ok sq' \<and> hq_items sq' = hq_items sq @ ms"
  using assms
proof (induction ms arbitrary: sq)
  case (Cons m ms)
  obtain s1 where s1: "push_queue_msg sq m = Some s1" "hq_ok s1" "hq_items s1 = hq_items sq @ [m]"
    using push_queue_msg_items [of sq m] Cons.prems by auto
  have "length (hq_items s1) + length ms \<le> hq_limit" unfolding s1(3) using Cons.prems(2) by simp
  from Cons.IH [OF s1(2) this] show ?case using s1 by auto
qed simp

section \<open>Headers are read as they were written\<close>

lemma to_bigendian_PUT: "to_bigendian n = PUT_UINT32 n"
proof -
  have f: "(0xff :: u32) = mask 8" by (simp add: mask_eq_exp_minus_1)
  have "ucast (w AND 0xff) = (ucast w :: u8)" for w :: u32
    unfolding f by (rule bit_word_eqI) (auto simp: bit_simps)
  then show ?thesis by (simp add: to_bigendian_def PUT_UINT32_def)
qed

lemma from_bigendian_GET: "from_bigendian n = GET_UINT32 (write32 n) 0"
  by (simp add: from_bigendian_def GET_UINT32_def Let_def numeral_2_eq_2)

lemma message_field:
  assumes "length a = i" "length b = 4"
  shows "from_bigendian (read32 (a @ b @ c) i) = GET_UINT32 b 0"
proof -
  have "write32 (read32 (a @ b @ c) i) = b" using write32_read32 [of i "a @ b @ c"] assms by simp
  then show ?thesis by (simp add: from_bigendian_GET)
qed

lemma length_to_bigendian [simp]: "length (to_bigendian n) = 4"
  by (simp add: to_bigendian_def)

lemma length_header [simp]: "length (header_to_message c) = 12"
  by (simp add: header_to_message_def)

lemma header_roundtrip [simp]: "message_to_header (header_to_message c) = c"
proof -
  have g: "GET_UINT32 (to_bigendian n) 0 = n" for n using GET_PUT(1) [of n "[]"] by (simp add: to_bigendian_PUT)
  have m: "from_bigendian (read32 (to_bigendian (hd_source c) @ to_bigendian (hd_destination c) @ to_bigendian (hd_session c)) 0) = hd_source c"
    "from_bigendian (read32 (to_bigendian (hd_source c) @ to_bigendian (hd_destination c) @ to_bigendian (hd_session c)) 4) = hd_destination c"
    "from_bigendian (read32 (to_bigendian (hd_source c) @ to_bigendian (hd_destination c) @ to_bigendian (hd_session c)) 8) = hd_session c"
    using message_field [of "[]" 0 "to_bigendian (hd_source c)"] message_field [of "to_bigendian (hd_source c)" 4 "to_bigendian (hd_destination c)"]
      message_field [of "to_bigendian (hd_source c) @ to_bigendian (hd_destination c)" 8 "to_bigendian (hd_session c)" "[]"]
    by (simp_all add: g)
  show ?thesis unfolding message_to_header_def header_to_message_def m by simp
qed

end
