(* ===== verification/HarborProps.thy ===== *)
theory HarborProps
  imports Harbor "HOL-Library.Multiset"
begin

text \<open>
  The properties of the harbor service: the bytes of a socket are cut into messages as \<open>Framing\<close> says, whatever
  the chunks in which they arrive; what one node sends another one delivers; messages that wait for a
  connection or for a name are sent in order; and the steps on queues conserve the message blocks (\<open>HarborBlocks\<close> has all steps).
\<close>

section \<open>Receiving\<close>

definition be_len :: "bytes \<Rightarrow> nat" where
  "be_len b = nat (uint (b ! 0) * 2 ^ 24 + uint (b ! 1) * 2 ^ 16 + uint (b ! 2) * 2 ^ 8 + uint (b ! 3))"

abbreviation rx_frames :: "bytes \<Rightarrow> bytes list \<times> bytes" where
  "rx_frames r \<equiv> frames 4 be_len r"

text \<open>What a slave has received of a message that is not complete.\<close>

definition rx_pending :: "slave \<Rightarrow> bytes" where
  "rx_pending s =
     (if sl_status s = STATUS_CONTENT then sl_size s @ take (sl_read s) (sl_recv_buffer s)
      else take (sl_read s) (sl_size s))"

definition rx_ok :: "slave \<Rightarrow> bool" where
  "rx_ok s \<longleftrightarrow> length (sl_size s) = 4 \<and>
     (sl_status s = STATUS_HEADER \<and> sl_read s < 4 \<or>
      sl_status s = STATUS_CONTENT \<and> sl_size s ! 0 = 0 \<and> sl_length s = be_len (sl_size s) \<and>
        length (sl_recv_buffer s) = sl_length s \<and> sl_read s < sl_length s)"

text \<open>A stream whose messages have a cookie and less than 16 MB.\<close>

definition fair_len :: "nat \<Rightarrow> bool" where "fair_len n \<longleftrightarrow> 12 \<le> n \<and> n < 2 ^ 24"

definition fair :: "bytes \<Rightarrow> bool" where
  "fair r \<longleftrightarrow> (\<forall>p\<in>set (fst (rx_frames r)). fair_len (length p)) \<and>
     (4 \<le> length (snd (rx_frames r)) \<longrightarrow> fair_len (be_len (take 4 (snd (rx_frames r)))))"

definition deliver :: "(u32 \<Rightarrow> bool) \<Rightarrow> harbor \<Rightarrow> bytes \<Rightarrow> harbor_event list" where
  "deliver alive h p = (case forward_local_messsage alive h p (length p) of None \<Rightarrow> [] | Some ev \<Rightarrow> ev)"

lemma forward_deliver: "12 \<le> length p \<Longrightarrow> forward_local_messsage alive h p (length p) = Some (deliver alive h p)"
  by (simp add: deliver_def forward_local_messsage_def peek_def HEADER_COOKIE_LENGTH_def Let_def)

lemma slave_simps [simp]:
  "hb_id (set_slave i s h) = hb_id h" "hb_map (set_slave i s h) = hb_map h" "hb_slave (set_slave i s h) = hb_slave h"
  "set_slave i s (set_slave i t h) = set_slave i s h"
  "i < length (hb_s h) \<Longrightarrow> slave_at (set_slave i s h) i = s"
  "length (hb_s (set_slave i s h)) = length (hb_s h)"
  by (simp_all add: set_slave_def slave_at_def)

lemma deliver_set_slave [simp]: "deliver alive (set_slave i s h) p = deliver alive h p"
  by (simp add: deliver_def forward_local_messsage_def)

lemma be_len_fair:
  assumes "be_len b < 2 ^ 24"
  shows "b ! 0 = 0" "be_len b = nat (uint (b ! 1) * 2 ^ 16 + uint (b ! 2) * 2 ^ 8 + uint (b ! 3))"
proof -
  have "uint (b ! 0) * 2 ^ 24 + uint (b ! 1) * 2 ^ 16 + uint (b ! 2) * 2 ^ 8 + uint (b ! 3) < 2 ^ 24"
    using assms unfolding be_len_def by (simp add: nat_less_iff)
  then have "uint (b ! 0) * 16777216 + uint (b ! 1) * 65536 + uint (b ! 2) * 256 + uint (b ! 3) < 16777216" by simp
  then have z: "uint (b ! 0) = 0"
    using uint_ge_0 [of "b ! 0"] uint_ge_0 [of "b ! 1"] uint_ge_0 [of "b ! 2"] uint_ge_0 [of "b ! 3"] by linarith
  then show "b ! 0 = 0" by (simp add: uint_0_iff)
  show "be_len b = nat (uint (b ! 1) * 2 ^ 16 + uint (b ! 2) * 2 ^ 8 + uint (b ! 3))" unfolding be_len_def z by simp
qed

lemma fair_packet:
  assumes "fair (hdr @ p @ rest)" "length hdr = 4" "length p = be_len hdr"
  shows "fair_len (be_len hdr)" "fair rest" "rx_frames (hdr @ p @ rest) = (p # fst (rx_frames rest), snd (rx_frames rest))"
  using assms frames_packet [of 4 hdr p be_len rest] by (auto simp: fair_def)

lemma fair_wait:
  assumes "fair (hdr @ p)" "length hdr = 4" "length p < be_len hdr"
  shows "fair_len (be_len hdr)" "rx_frames (hdr @ p) = ([], hdr @ p)"
proof -
  show "rx_frames (hdr @ p) = ([], hdr @ p)" using frames_wait [of 4 "hdr @ p" be_len] assms by simp
  then show "fair_len (be_len hdr)" using assms(1,2) by (simp add: fair_def)
qed

lemma fair_header:
  assumes "fair r" "4 \<le> length r"
  shows "fair_len (be_len (take 4 r))"
proof (cases "be_len (take 4 r) \<le> length (drop 4 r)")
  case True
  have "r = take 4 r @ take (be_len (take 4 r)) (drop 4 r) @ drop (be_len (take 4 r)) (drop 4 r)"
    by (metis append_take_drop_id)
  then show ?thesis
    using fair_packet(1) [of "take 4 r" "take (be_len (take 4 r)) (drop 4 r)" "drop (be_len (take 4 r)) (drop 4 r)"] assms True
    by simp
next
  case False
  then show ?thesis using fair_wait(1) [of "take 4 r" "drop 4 r"] assms by simp
qed

text \<open>What one turn of the loop does to the stream \<open>r\<close> of the pending and the new bytes.\<close>

definition turn_ok :: "(u32 \<Rightarrow> bool) \<Rightarrow> nat \<Rightarrow> harbor \<Rightarrow> bytes \<Rightarrow> nat \<Rightarrow> data_result \<Rightarrow> bool" where
  "turn_ok alive i h r n res \<longleftrightarrow>
     (\<exists>s' ev rest. res = Some (set_slave i s' h, ev, rest) \<and> rx_ok s' \<and>
        sl_fd s' = sl_fd (slave_at h i) \<and> sl_queue s' = sl_queue (slave_at h i) \<and>
        (case rest of
           None \<Rightarrow> ev = concat (map (deliver alive h) (fst (rx_frames r))) \<and> rx_pending s' = snd (rx_frames r)
         | Some b \<Rightarrow> length b < n \<and> sl_status s' = STATUS_HEADER \<and> rx_pending s' = [] \<and> fair b \<and>
             (\<exists>p. ev = deliver alive h p \<and> rx_frames r = (p # fst (rx_frames b), snd (rx_frames b)))))"

lemma turn_ok_done:
  "res = Some (set_slave i s' h, ev, None) \<Longrightarrow> rx_ok s' \<Longrightarrow> sl_fd s' = sl_fd (slave_at h i) \<Longrightarrow>
     sl_queue s' = sl_queue (slave_at h i) \<Longrightarrow> ev = concat (map (deliver alive h) (fst (rx_frames r))) \<Longrightarrow>
     rx_pending s' = snd (rx_frames r) \<Longrightarrow> turn_ok alive i h r n res"
  unfolding turn_ok_def by (intro exI [of _ s'] exI [of _ ev] exI [of _ None]) simp

lemma turn_ok_more:
  "res = Some (set_slave i s' h, deliver alive h p, Some b) \<Longrightarrow> rx_ok s' \<Longrightarrow> sl_fd s' = sl_fd (slave_at h i) \<Longrightarrow>
     sl_queue s' = sl_queue (slave_at h i) \<Longrightarrow> length b < n \<Longrightarrow> sl_status s' = STATUS_HEADER \<Longrightarrow> rx_pending s' = [] \<Longrightarrow>
     fair b \<Longrightarrow> rx_frames r = (p # fst (rx_frames b), snd (rx_frames b)) \<Longrightarrow> turn_ok alive i h r n res"
  unfolding turn_ok_def
  by (intro exI [of _ s'] exI [of _ "deliver alive h p"] exI [of _ "Some b"]) auto

lemma turn_ok_mono: "turn_ok alive i h r n res \<Longrightarrow> n \<le> n' \<Longrightarrow> turn_ok alive i h r n' res"
  unfolding turn_ok_def by (fastforce split: option.splits)

lemma on_content_turn:
  assumes i: "i < length (hb_s h)" and ok: "rx_ok (slave_at h i)" and st: "sl_status (slave_at h i) = STATUS_CONTENT"
    and fair: "fair (rx_pending (slave_at h i) @ buffer)"
  shows "turn_ok alive i h (rx_pending (slave_at h i) @ buffer) (length buffer) (on_content alive i h buffer)"
proof -
  define s where "s = slave_at h i"
  define n where "n = sl_length s - sl_read s"
  have s: "length (sl_size s) = 4" "sl_size s ! 0 = 0" "sl_length s = be_len (sl_size s)"
      "length (sl_recv_buffer s) = sl_length s" "sl_read s < sl_length s"
    using ok st by (auto simp: rx_ok_def s_def)
  have r: "rx_pending s @ buffer = sl_size s @ take (sl_read s) (sl_recv_buffer s) @ buffer"
    using st by (simp add: rx_pending_def s_def)
  have need: "int (sl_length s) - int (sl_read s) = int n" "0 < n" using s(5) by (simp_all add: n_def)
  show ?thesis
  proof (cases "length buffer < n")
    case True
    define rb where "rb = take (sl_read s) (sl_recv_buffer s) @ buffer @ drop (sl_read s + length buffer) (sl_recv_buffer s)"
    let ?s = "s\<lparr>sl_recv_buffer := rb, sl_read := sl_read s + length buffer\<rparr>"
    have "blit (sl_recv_buffer s) (int (sl_read s)) buffer = Some rb"
      using True s by (simp add: blit_def n_def rb_def)
    then have "on_content alive i h buffer = Some (set_slave i ?s h, [], None)"
      using True need by (simp add: on_content_def s_def [symmetric] Let_def)
    moreover have "rx_ok ?s" using s True st by (simp add: rx_ok_def n_def rb_def s_def)
    moreover have p: "rx_pending ?s = rx_pending s @ buffer"
      using s True st unfolding r by (simp add: rx_pending_def s_def [symmetric] rb_def n_def)
    moreover have "rx_frames (rx_pending s @ buffer) = ([], rx_pending s @ buffer)"
      unfolding r using frames_wait [of 4 "sl_size s @ take (sl_read s) (sl_recv_buffer s) @ buffer" be_len] s True
      by (simp add: n_def)
    ultimately show ?thesis unfolding s_def [symmetric] by (intro turn_ok_done [where s' = ?s]) (auto simp: s_def)
  next
    case False
    define p where "p = take (sl_read s) (sl_recv_buffer s) @ take n buffer"
    have p: "length p = be_len (sl_size s)" using s False by (simp add: p_def n_def)
    have r': "rx_pending s @ buffer = sl_size s @ p @ drop n buffer" unfolding r p_def by simp
    note f = fair_packet [OF fair [folded s_def, unfolded r'] s(1) p]
    let ?s = "s\<lparr>sl_length := 0, sl_read := 0, sl_recv_buffer := [], sl_status := STATUS_HEADER\<rparr>"
    have b: "blit (sl_recv_buffer s) (int (sl_read s)) (take n buffer) = Some p"
      using False s by (simp add: blit_def n_def p_def)
    have fw: "forward_local_messsage alive h p (sl_length s) = Some (deliver alive h p)"
      using forward_deliver [of p alive h] f(1) p s(3) by (simp add: fair_len_def)
    have eq: "on_content alive i h buffer = Some (set_slave i ?s h, deliver alive h p,
        if length buffer = n then None else Some (drop n buffer))"
      using False need b fw by (simp add: on_content_def s_def [symmetric] Let_def peek_def)
    have ok': "rx_ok ?s" "rx_pending ?s = []" using s(1) by (simp_all add: rx_ok_def rx_pending_def)
    show ?thesis
    proof (cases "length buffer = n")
      case True
      then have "rx_frames (rx_pending s @ buffer) = ([p], [])" using f(3) unfolding r' by simp
      then show ?thesis unfolding s_def [symmetric] eq using True ok'
        by (intro turn_ok_done [where s' = ?s]) (auto simp: s_def)
    next
      case ne: False
      then have "length (drop n buffer) < length buffer" using need False by simp
      then show ?thesis unfolding s_def [symmetric] eq using ne ok' f(2,3) unfolding r'
        by (intro turn_ok_more [where s' = ?s and p = p and b = "drop n buffer"]) (auto simp: s_def)
    qed
  qed
qed

lemma turn_ok_same:
  assumes "turn_ok alive i (set_slave i s h) r n res" "i < length (hb_s h)"
    "sl_fd s = sl_fd (slave_at h i)" "sl_queue s = sl_queue (slave_at h i)"
  shows "turn_ok alive i h r n res"
proof -
  have e: "deliver alive (set_slave i s h) = deliver alive h" by (rule ext) simp
  show ?thesis using assms unfolding turn_ok_def e by simp
qed

lemma on_header_turn:
  assumes i: "i < length (hb_s h)" and ok: "rx_ok (slave_at h i)" and st: "sl_status (slave_at h i) = STATUS_HEADER"
    and fair: "fair (rx_pending (slave_at h i) @ buffer)"
  shows "turn_ok alive i h (rx_pending (slave_at h i) @ buffer) (length buffer) (on_header alive i h buffer)"
proof -
  define s where "s = slave_at h i"
  define n where "n = 4 - sl_read s"
  have s: "length (sl_size s) = 4" "sl_read s < 4" using ok st by (auto simp: rx_ok_def s_def)
  have r: "rx_pending s @ buffer = take (sl_read s) (sl_size s) @ buffer" using st by (simp add: rx_pending_def s_def)
  have need: "4 - int (sl_read s) = int n" "0 < n" using s(2) by (simp_all add: n_def)
  show ?thesis
  proof (cases "length buffer < n")
    case True
    define sz where "sz = take (sl_read s) (sl_size s) @ buffer @ drop (sl_read s + length buffer) (sl_size s)"
    let ?s = "s\<lparr>sl_size := sz, sl_read := sl_read s + length buffer\<rparr>"
    have "blit (sl_size s) (int (sl_read s)) buffer = Some sz" using True s by (simp add: blit_def n_def sz_def)
    then have "on_header alive i h buffer = Some (set_slave i ?s h, [], None)"
      using True need by (simp add: on_header_def s_def [symmetric] Let_def)
    moreover have "rx_ok ?s" using s True st by (auto simp: rx_ok_def n_def sz_def s_def)
    moreover have "rx_pending ?s = rx_pending s @ buffer"
      using s True st unfolding r by (simp add: rx_pending_def s_def [symmetric] sz_def n_def)
    moreover have "rx_frames (rx_pending s @ buffer) = ([], rx_pending s @ buffer)"
      unfolding r by (rule frames_short) (use s True in \<open>simp add: n_def\<close>)
    ultimately show ?thesis unfolding s_def [symmetric] by (intro turn_ok_done [where s' = ?s]) (auto simp: s_def)
  next
    case False
    define hdr where "hdr = take (sl_read s) (sl_size s) @ take n buffer"
    have l: "length hdr = 4" using s False by (simp add: hdr_def n_def)
    have r': "rx_pending s @ buffer = hdr @ drop n buffer" unfolding r hdr_def by simp
    have "fair_len (be_len hdr)" using fair_header [OF fair [folded s_def, unfolded r']] l by simp
    then have v: "12 \<le> be_len hdr" "be_len hdr < 2 ^ 24" by (simp_all add: fair_len_def)
    let ?s = "s\<lparr>sl_size := hdr, sl_length := be_len hdr, sl_read := 0, sl_recv_buffer := replicate (be_len hdr) 0,
      sl_status := STATUS_CONTENT\<rparr>"
    have b: "blit (sl_size s) (int (sl_read s)) (take n buffer) = Some hdr"
      using False s by (simp add: blit_def n_def hdr_def)
    have len: "nat (uint (hdr ! 1) * 2 ^ 16 + uint (hdr ! 2) * 2 ^ 8 + uint (hdr ! 3)) = be_len hdr"
      using be_len_fair(2) [OF v(2)] by simp
    have eq: "on_header alive i h buffer =
        (if drop n buffer = [] then Some (set_slave i ?s h, [], None) else on_content alive i (set_slave i ?s h) (drop n buffer))"
      unfolding on_header_def Let_def s_def [symmetric] need(1) peek_def len [symmetric]
      using False b be_len_fair(1) [OF v(2)] by simp
    have ok': "rx_ok ?s" "rx_pending ?s = hdr" using l v be_len_fair(1) [OF v(2)] by (simp_all add: rx_ok_def rx_pending_def)
    show ?thesis
    proof (cases "drop n buffer = []")
      case True
      then have "rx_frames (rx_pending s @ buffer) = ([], hdr)"
        unfolding r' using frames_wait [of 4 hdr be_len] l v by simp
      then show ?thesis unfolding s_def [symmetric] eq using True ok'
        by (intro turn_ok_done [where s' = ?s]) (auto simp: s_def)
    next
      case ne: False
      have "turn_ok alive i (set_slave i ?s h) (hdr @ drop n buffer) (length (drop n buffer))
          (on_content alive i (set_slave i ?s h) (drop n buffer))"
        using on_content_turn [of i "set_slave i ?s h" "drop n buffer" alive] i ok' fair [folded s_def, unfolded r'] by simp
      then have "turn_ok alive i h (hdr @ drop n buffer) (length (drop n buffer))
          (on_content alive i (set_slave i ?s h) (drop n buffer))"
        by (rule turn_ok_same) (simp_all add: i s_def)
      then show ?thesis unfolding s_def [symmetric] r' eq using ne turn_ok_mono by simp
    qed
  qed
qed

lemma on_data_turn:
  assumes "i < length (hb_s h)" "rx_ok (slave_at h i)" "fair (rx_pending (slave_at h i) @ buffer)"
  shows "turn_ok alive i h (rx_pending (slave_at h i) @ buffer) (length buffer) (on_data alive i fd h buffer)"
  using on_content_turn [OF assms(1,2) _ assms(3)] on_header_turn [OF assms(1,2) _ assms(3)] assms(2)
  by (auto simp: on_data_def rx_ok_def)

lemma data_loop_frames:
  assumes "i < length (hb_s h)" "rx_ok (slave_at h i)" "fair (rx_pending (slave_at h i) @ buffer)"
  shows "\<exists>s'. data_loop alive i fd h buffer =
      Some (set_slave i s' h, concat (map (deliver alive h) (fst (rx_frames (rx_pending (slave_at h i) @ buffer))))) \<and>
    rx_ok s' \<and> sl_fd s' = sl_fd (slave_at h i) \<and> sl_queue s' = sl_queue (slave_at h i) \<and>
    rx_pending s' = snd (rx_frames (rx_pending (slave_at h i) @ buffer))"
  using assms
proof (induction "length buffer" arbitrary: buffer h rule: less_induct)
  case less
  obtain s1 ev rest where t: "on_data alive i fd h buffer = Some (set_slave i s1 h, ev, rest)" "rx_ok s1"
      "sl_fd s1 = sl_fd (slave_at h i)" "sl_queue s1 = sl_queue (slave_at h i)"
      "case rest of
           None \<Rightarrow> ev = concat (map (deliver alive h) (fst (rx_frames (rx_pending (slave_at h i) @ buffer)))) \<and>
             rx_pending s1 = snd (rx_frames (rx_pending (slave_at h i) @ buffer))
         | Some b \<Rightarrow> length b < length buffer \<and> sl_status s1 = STATUS_HEADER \<and> rx_pending s1 = [] \<and> fair b \<and>
             (\<exists>p. ev = deliver alive h p \<and>
               rx_frames (rx_pending (slave_at h i) @ buffer) = (p # fst (rx_frames b), snd (rx_frames b)))"
    using on_data_turn [OF less.prems, of alive fd] unfolding turn_ok_def by blast
  show ?case
  proof (cases rest)
    case None
    then show ?thesis using t by (subst data_loop.simps) auto
  next
    case (Some b)
    have e: "deliver alive (set_slave i s1 h) = deliver alive h" by (rule ext) simp
    obtain p where p: "length b < length buffer" "rx_pending s1 = []" "fair b" "ev = deliver alive h p"
        "rx_frames (rx_pending (slave_at h i) @ buffer) = (p # fst (rx_frames b), snd (rx_frames b))"
      using t(5) Some by auto
    obtain s' where "data_loop alive i fd (set_slave i s1 h) b =
        Some (set_slave i s' h, concat (map (deliver alive h) (fst (rx_frames b))))"
        "rx_ok s'" "sl_fd s' = sl_fd s1" "sl_queue s' = sl_queue s1" "rx_pending s' = snd (rx_frames b)"
      using less.hyps [of b "set_slave i s1 h"] p(1-3) t(2) less.prems(1) by (auto simp: e)
    then show ?thesis using t(1,3,4) Some p(4,5) by (subst data_loop.simps) auto
  qed
qed

lemma fair_prefix:
  assumes "fair (a @ b)"
  shows "fair a"
proof -
  let ?l = "snd (rx_frames a)"
  have f: "rx_frames (a @ b) = (fst (rx_frames a) @ fst (rx_frames (?l @ b)), snd (rx_frames (?l @ b)))"
    by (rule frames_append) simp
  then have "fair (?l @ b)" and p: "\<forall>p\<in>set (fst (rx_frames a)). fair_len (length p)"
    using assms by (auto simp: fair_def)
  then have "4 \<le> length ?l \<Longrightarrow> fair_len (be_len (take 4 ?l))" using fair_header [of "?l @ b"] by simp
  then show ?thesis using p by (simp add: fair_def)
qed

lemma slave_at_same [simp]: "set_slave i (slave_at h i) h = h"
  by (simp add: set_slave_def slave_at_def)

lemma harbor_id_set_slave:
  assumes "i < length (hb_s h)" "sl_fd s' = sl_fd (slave_at h i)"
  shows "harbor_id (set_slave i s' h) = harbor_id h"
proof -
  have "sl_fd (slave_at (set_slave i s' h) j) = sl_fd (slave_at h j)" for j
    using assms by (cases "j = i") (auto simp: set_slave_def slave_at_def)
  then show ?thesis by (simp add: harbor_id_def fun_eq_iff)
qed

lemma harbor_id_less: "harbor_id h fd < REMOTE_MAX"
proof (cases "List.find (\<lambda>i. sl_fd (slave_at h i) = fd) [1..<REMOTE_MAX]")
  case None
  then show ?thesis by (simp add: harbor_id_def REMOTE_MAX_def)
next
  case (Some i)
  then have "i \<in> set [1..<REMOTE_MAX]" by (auto simp: find_Some_iff)
  then show ?thesis using Some by (simp add: harbor_id_def)
qed

section \<open>Runs of the service\<close>

fun harbor_run :: "(u32 \<Rightarrow> bool) \<Rightarrow> harbor \<Rightarrow> harbor_input list \<Rightarrow> harbor_result" where
  "harbor_run alive h [] = Some (h, [])"
| "harbor_run alive h (x # xs) = after (harbor_mainloop alive h x) (\<lambda>h. harbor_run alive h xs)"

lemma after_Some [simp]: "after (Some (h, ev)) f = map_option (\<lambda>(h', ev'). (h', ev @ ev')) (f h)"
  by (simp add: after_def)

lemma after_assoc: "after (after m f) g = after m (\<lambda>h. after (f h) g)"
  by (auto simp: after_def option.map_comp o_def case_prod_unfold split: Option.bind_splits)

lemma harbor_run_append: "harbor_run alive h (xs @ ys) = after (harbor_run alive h xs) (\<lambda>h. harbor_run alive h ys)"
  by (induction xs arbitrary: h) (simp_all add: after_assoc, simp add: map_option_case split: option.split)

definition data_input :: "int \<Rightarrow> bytes \<Rightarrow> harbor_input" where
  "data_input fd c = In_socket_msg SKYNET_SOCKET_TYPE_DATA fd (int (length c)) c"

text \<open>The events without the freeing of blocks, and the bytes written to a socket.\<close>

definition visible :: "harbor_event list \<Rightarrow> harbor_event list" where
  "visible ev = filter (\<lambda>e. case e of Hb_free _ \<Rightarrow> False | _ \<Rightarrow> True) ev"

definition socket_out :: "int \<Rightarrow> harbor_event list \<Rightarrow> bytes" where
  "socket_out fd ev = concat (map (\<lambda>e. case e of Hb_socket_send f bs \<Rightarrow> if f = fd then bs else [] | _ \<Rightarrow> []) ev)"

lemma visible_simps [simp]: "visible [] = []" "visible (a @ b) = visible a @ visible b"
  "visible (Hb_free x # ev) = visible ev" "visible (Hb_send s d t n m # ev) = Hb_send s d t n m # visible ev"
  by (simp_all add: visible_def)

lemma socket_out_simps [simp]: "socket_out fd [] = []" "socket_out fd (a @ b) = socket_out fd a @ socket_out fd b"
  "socket_out fd (Hb_free m # ev) = socket_out fd ev" "socket_out fd (Hb_send s d t n m # ev) = socket_out fd ev"
  "socket_out fd (Hb_socket_send f m # ev) = (if f = fd then m else []) @ socket_out fd ev"
  "socket_out fd (Hb_start f # ev) = socket_out fd ev" "socket_out fd (Hb_log l # ev) = socket_out fd ev"
  by (simp_all add: socket_out_def)

lemma visible_deliver [simp]: "visible (deliver alive h p) = deliver alive h p"
  by (auto simp: deliver_def forward_local_messsage_def Let_def visible_def split: option.splits Option.bind_splits if_splits)

lemma visible_delivers [simp]: "visible (concat (map (deliver alive h) ps)) = concat (map (deliver alive h) ps)"
  by (induction ps) simp_all

lemma receive_chunks:
  assumes "length (hb_s h) = REMOTE_MAX" "harbor_id h fd = i" "i \<noteq> 0" "rx_ok (slave_at h i)"
    "fair (rx_pending (slave_at h i) @ concat cs)"
  shows "\<exists>s' ev. harbor_run alive h (map (data_input fd) cs) = Some (set_slave i s' h, ev) \<and>
    visible ev = concat (map (deliver alive h) (fst (rx_frames (rx_pending (slave_at h i) @ concat cs)))) \<and>
    rx_ok s' \<and> rx_pending s' = snd (rx_frames (rx_pending (slave_at h i) @ concat cs))"
  using assms
proof (induction cs arbitrary: h)
  case Nil
  have "rx_frames (rx_pending (slave_at h i)) = ([], rx_pending (slave_at h i))"
    using Nil.prems(4) frames_wait [of 4 "rx_pending (slave_at h i)" be_len] frames_short [of "rx_pending (slave_at h i)" 4 be_len]
    by (auto simp: rx_ok_def rx_pending_def)
  then show ?case using Nil.prems(4) by (intro exI [of _ "slave_at h i"]) simp
next
  case (Cons c cs)
  let ?r = "rx_pending (slave_at h i)"
  have i: "i < length (hb_s h)" using Cons.prems(1,2) harbor_id_less by metis
  have f: "fair (?r @ c)" using Cons.prems(5) fair_prefix [of "?r @ c" "concat cs"] by simp
  obtain s1 where s1: "data_loop alive i fd h c = Some (set_slave i s1 h, concat (map (deliver alive h) (fst (rx_frames (?r @ c)))))"
      "rx_ok s1" "sl_fd s1 = sl_fd (slave_at h i)" "rx_pending s1 = snd (rx_frames (?r @ c))"
    using data_loop_frames [OF i Cons.prems(4) f] by blast
  have step: "harbor_mainloop alive h (data_input fd c) =
      Some (set_slave i s1 h, concat (map (deliver alive h) (fst (rx_frames (?r @ c)))) @ [Hb_free c])"
    using s1(1) Cons.prems(2,3) by (simp add: harbor_mainloop_def data_input_def harbor_socket_def push_socket_data_def)
  have fr: "rx_frames (?r @ c @ concat cs) =
      (fst (rx_frames (?r @ c)) @ fst (rx_frames (rx_pending s1 @ concat cs)), snd (rx_frames (rx_pending s1 @ concat cs)))"
    using frames_append [of 4 be_len "?r @ c" "concat cs"] s1(4) by simp
  have "fair (rx_pending s1 @ concat cs)"
    using Cons.prems(5) fr by (auto simp: fair_def)
  then obtain s' ev where "harbor_run alive (set_slave i s1 h) (map (data_input fd) cs) = Some (set_slave i s' h, ev)"
      "visible ev = concat (map (deliver alive h) (fst (rx_frames (rx_pending s1 @ concat cs))))"
      "rx_ok s'" "rx_pending s' = snd (rx_frames (rx_pending s1 @ concat cs))"
    using Cons.IH [of "set_slave i s1 h"] Cons.prems(1-3) i s1(2,3) harbor_id_set_slave [OF i s1(3)]
    by (auto simp: fun_eq_iff)
  then show ?case using step fr by (intro exI [of _ s']) auto
qed

section \<open>From node to node\<close>

record outmsg =
  om_source :: u32
  om_dest :: u32
  om_type :: int
  om_session :: int
  om_data :: bytes

definition send_input :: "outmsg \<Rightarrow> harbor_input" where
  "send_input m = In_remote [] (om_dest m) (om_data m) (om_type m) (om_session m) (om_source m)"

text \<open>A message for a service of node \<open>b\<close>, of less than 16 MB.\<close>

definition out_ok :: "nat \<Rightarrow> outmsg \<Rightarrow> bool" where
  "out_ok b m \<longleftrightarrow> unat (drop_bit 24 (om_dest m)) = b \<and> om_dest m \<noteq> 0 \<and> 0 \<le> om_type m \<and> om_type m < 256 \<and>
     is_i32 (om_session m) \<and> length (om_data m) + 12 < 2 ^ 24"

definition cookie_of :: "outmsg \<Rightarrow> remote_message_header" where
  "cookie_of m = \<lparr>hd_source = om_source m,
     hd_destination = push_bit HANDLE_REMOTE_SHIFT (word_of_int (om_type m)) OR (om_dest m AND HANDLE_MASK),
     hd_session = word_of_int (om_session m)\<rparr>"

definition packet_of :: "outmsg \<Rightarrow> bytes" where
  "packet_of m = om_data m @ header_to_message (cookie_of m)"

definition wire :: "outmsg \<Rightarrow> bytes" where
  "wire m = to_bigendian (of_nat (length (om_data m) + 12)) @ packet_of m"

definition arrival :: "outmsg \<Rightarrow> harbor_event" where
  "arrival m = Hb_send (om_source m) (om_dest m) (om_type m OR PTYPE_TAG_DONTCOPY) (om_session m) (om_data m)"

unbundle bit_operations_syntax

lemma length_packet [simp]: "length (packet_of m) = length (om_data m) + 12"
  by (simp add: packet_of_def)

lemma type_field:
  assumes "0 \<le> t" "t < 256"
  shows "uint (drop_bit 24 (push_bit 24 (word_of_int t) OR (d AND mask 24) :: u32)) = t"
    "(push_bit 24 (word_of_int t) OR (d AND mask 24)) AND mask 24 = (d AND mask 24 :: u32)"
proof -
  define c :: u8 where "c = word_of_int t"
  have c: "uint c = t" using assms by (simp add: c_def uint_word_of_int)
  then have w: "word_of_int t = (ucast c :: u32)" by (metis ucast_eq)
  have "drop_bit 24 (push_bit 24 (ucast c) OR (d AND mask 24) :: u32) = ucast c"
    by (rule bit_word_eqI) (auto simp: bit_simps dest: bit_imp_le_length)
  moreover have "take_bit 32 t = t" using assms by (intro take_bit_int_eq_self) simp_all
  ultimately show "uint (drop_bit 24 (push_bit 24 (word_of_int t) OR (d AND mask 24) :: u32)) = t"
    unfolding w by (simp only: unsigned_ucast_eq c) simp
  show "(push_bit 24 (word_of_int t) OR (d AND mask 24)) AND mask 24 = (d AND mask 24 :: u32)"
    by (rule bit_word_eqI) (auto simp: bit_simps)
qed

lemma node_field:
  assumes "unat (drop_bit 24 d) = b"
  shows "(d AND mask 24) OR push_bit 24 (word_of_int (int b)) = (d :: u32)"
proof -
  have b: "word_of_int (int b) = drop_bit 24 d" unfolding assms [symmetric] by simp
  show ?thesis unfolding b
  proof (rule bit_word_eqI)
    fix n show "bit ((d AND mask 24) OR push_bit 24 (drop_bit 24 d)) n = bit d n" if "n < LENGTH(32)"
      using that by (cases "n < 24") (auto simp: bit_simps)
  qed
qed

lemma session_field: "is_i32 n \<Longrightarrow> to_i32 (uint (word_of_int n :: u32)) = n"
proof -
  assume n: "is_i32 n"
  have "to_i32 (n mod 2 ^ 32) = to_i32 n" unfolding to_i32_def by (simp only: mod_add_left_eq)
  then show ?thesis using to_i32_id [OF n] by (simp add: uint_word_of_int)
qed

lemma deliver_packet:
  assumes "hb_id h = int b" "out_ok b m" "alive (om_dest m)"
  shows "deliver alive h (packet_of m) = [arrival m]"
proof -
  have p: "peek (packet_of m) (int (length (packet_of m)) - int HEADER_COOKIE_LENGTH) (int HEADER_COOKIE_LENGTH) =
      Some (header_to_message (cookie_of m))"
    by (simp add: peek_def HEADER_COOKIE_LENGTH_def packet_of_def)
  have t: "uint (drop_bit 24 (push_bit 24 (word_of_int (om_type m)) OR (om_dest m AND mask 24) :: u32)) = om_type m"
    "(push_bit 24 (word_of_int (om_type m)) OR (om_dest m AND mask 24)) AND mask 24 = om_dest m AND mask 24"
    using type_field assms(2) by (simp_all add: out_ok_def)
  have d: "(om_dest m AND mask 24) OR push_bit 24 (word_of_nat b) = om_dest m"
    using node_field [of "om_dest m" b] assms(2) by (simp add: out_ok_def)
  have n: "to_i32 (uint (word_of_int (om_session m) :: u32)) = om_session m"
    using assms(2) by (simp add: out_ok_def session_field)
  have "take (length (packet_of m) - HEADER_COOKIE_LENGTH) (packet_of m) = om_data m"
    by (simp add: packet_of_def HEADER_COOKIE_LENGTH_def)
  then show ?thesis
    unfolding deliver_def forward_local_messsage_def p
    by (simp add: cookie_of_def HANDLE_MASK_mask HANDLE_REMOTE_SHIFT_def t t(1) [simplified] assms(1) d n assms(3) arrival_def)
qed

lemma four_bytes:
  fixes x :: int
  assumes "0 \<le> x" "x < 4294967296"
  shows "x div 16777216 mod 256 * 16777216 + x div 65536 mod 256 * 65536 + x div 256 mod 256 * 256 + x mod 256 = x"
proof -
  define a where "a = x div 256"
  define b where "b = a div 256"
  define c where "c = b div 256"
  have d: "x div 65536 = b" "x div 16777216 = c" unfolding a_def b_def c_def by (simp_all add: zdiv_zmult2_eq [symmetric])
  have "c mod 256 = c" using assms unfolding d(2) [symmetric] by (intro mod_pos_pos_trivial) auto
  then show ?thesis
    unfolding d a_def [symmetric]
    using div_mult_mod_eq [of x 256] div_mult_mod_eq [of a 256] div_mult_mod_eq [of b 256] a_def b_def c_def by linarith
qed

lemma be_len_to_bigendian: "n < 2 ^ 32 \<Longrightarrow> be_len (to_bigendian (of_nat n)) = n"
proof -
  assume n: "n < 2 ^ 32"
  define w :: u32 where "w = of_nat n"
  have "unat w = n" using n by (simp add: w_def unat_of_nat take_bit_nat_eq_self)
  have l: "uint w < 2 ^ 32" using uint_lt2p [of w] by simp
  then have "uint w mod 4294967296 = uint w" by simp
  then have b: "uint (ucast (drop_bit k w) :: u8) = uint w div 2 ^ k mod 256" for k
    by (simp only: unsigned_ucast_eq unsigned_drop_bit_eq take_bit_eq_mod) (simp add: drop_bit_eq_div)
  have d: "uint w div 16777216 mod 256 * 16777216 + uint w div 65536 mod 256 * 65536 + uint w div 256 mod 256 * 256 +
      uint w mod 256 = uint w" using l by (intro four_bytes) simp_all
  have e: "PUT_UINT32 w ! 0 = ucast (drop_bit 24 w)" "PUT_UINT32 w ! 1 = ucast (drop_bit 16 w)"
    "PUT_UINT32 w ! 2 = ucast (drop_bit 8 w)" "PUT_UINT32 w ! 3 = ucast (drop_bit 0 w)"
    by (simp_all add: PUT_UINT32_def)
  have p: "(2 :: int) ^ 24 = 16777216" "(2 :: int) ^ 16 = 65536" "(2 :: int) ^ 8 = 256" "(2 :: int) ^ 0 = 1" by simp_all
  have "be_len (PUT_UINT32 w) = n"
    unfolding be_len_def e b p div_by_1 d using \<open>unat w = n\<close> by simp
  then show ?thesis by (simp add: to_bigendian_PUT w_def)
qed

lemma wires_frames:
  assumes "\<forall>m\<in>set ms. out_ok b m"
  shows "rx_frames (concat (map wire ms)) = (map packet_of ms, [])" "fair (concat (map wire ms))"
proof -
  show f: "rx_frames (concat (map wire ms)) = (map packet_of ms, [])"
    using assms
  proof (induction ms)
    case (Cons m ms)
    then have "be_len (to_bigendian (of_nat (length (om_data m) + 12))) = length (packet_of m)"
      using be_len_to_bigendian [of "length (om_data m) + 12"] by (simp add: out_ok_def)
    then show ?case using frames_packet [of 4 _ "packet_of m" be_len] Cons by (simp add: wire_def)
  qed simp
  show "fair (concat (map wire ms))" using assms unfolding fair_def f by (auto simp: out_ok_def fair_len_def)
qed

lemma send_connected:
  assumes "hb_id h \<noteq> int b" "sl_fd (slave_at h b) = fd" "fd \<noteq> 0" "sl_status (slave_at h b) \<noteq> STATUS_HANDSHAKE" "out_ok b m"
  shows "harbor_mainloop alive h (send_input m) = Some (h, [Hb_socket_send fd (wire m), Hb_free (om_data m)])"
  using assms unfolding harbor_mainloop_def send_input_def
  by (simp add: remote_send_handle_def HANDLE_REMOTE_SHIFT_def out_ok_def Let_def send_remote_def wire_def packet_of_def cookie_of_def)

lemma send_all_connected:
  assumes "hb_id h \<noteq> int b" "sl_fd (slave_at h b) = fd" "fd \<noteq> 0" "sl_status (slave_at h b) \<noteq> STATUS_HANDSHAKE"
    "\<forall>m\<in>set ms. out_ok b m"
  shows "\<exists>ev. harbor_run alive h (map send_input ms) = Some (h, ev) \<and> socket_out fd ev = concat (map wire ms)"
  using assms(5) by (induction ms) (auto simp: send_connected [OF assms(1-4)])

text \<open>C12: What one node sends, another delivers. Node \<open>a\<close> has a connection to node \<open>b\<close> and sends it any list of messages of less
  than 16 MB each; the bytes that it writes may arrive at \<open>b\<close> in any pieces; then \<open>b\<close> passes to its services exactly these
  messages, in order, with source, destination, type, session and data as they were sent.\<close>

theorem harbor_transit:
  assumes sender: "hb_id a \<noteq> int b" "sl_fd (slave_at a b) = fd" "fd \<noteq> 0" "sl_status (slave_at a b) \<noteq> STATUS_HANDSHAKE"
    and receiver: "hb_id h = int b" "length (hb_s h) = REMOTE_MAX" "harbor_id h fd' = i" "i \<noteq> 0"
      "rx_ok (slave_at h i)" "rx_pending (slave_at h i) = []"
    and ms: "\<forall>m\<in>set ms. out_ok b m \<and> alive' (om_dest m)"
  shows "\<exists>ev. harbor_run alive a (map send_input ms) = Some (a, ev) \<and>
    (\<forall>cs. concat cs = socket_out fd ev \<longrightarrow>
      (\<exists>h' ev'. harbor_run alive' h (map (data_input fd') cs) = Some (h', ev') \<and> visible ev' = map arrival ms))"
proof -
  have ok: "\<forall>m\<in>set ms. out_ok b m" using ms by blast
  obtain ev where ev: "harbor_run alive a (map send_input ms) = Some (a, ev)" "socket_out fd ev = concat (map wire ms)"
    using send_all_connected [OF sender ok] by blast
  have d: "concat (map (deliver alive' h) (map packet_of ms)) = map arrival ms"
    using ms deliver_packet [OF receiver(1)] by (induction ms) simp_all
  show ?thesis
  proof (rule exI [of _ ev], intro conjI allI impI)
    show "harbor_run alive a (map send_input ms) = Some (a, ev)" by (rule ev)
    fix cs assume "concat cs = socket_out fd ev"
    then have c: "rx_pending (slave_at h i) @ concat cs = concat (map wire ms)" using ev(2) receiver(6) by simp
    show "\<exists>h' ev'. harbor_run alive' h (map (data_input fd') cs) = Some (h', ev') \<and> visible ev' = map arrival ms"
      using receive_chunks [OF receiver(2-5), of cs alive'] wires_frames [OF ok] d unfolding c by auto
  qed
qed

section \<open>Messages that wait for a connection\<close>

definition queued :: "outmsg \<Rightarrow> harbor_msg" where
  "queued m = \<lparr>hm_header = cookie_of m, hm_buffer = om_data m\<rparr>"

lemma send_waiting:
  assumes "b < length (hb_s h)" "hb_id h \<noteq> int b" "sl_fd (slave_at h b) = 0 \<or> sl_status (slave_at h b) = STATUS_HANDSHAKE"
    "sl_status (slave_at h b) \<noteq> STATUS_DOWN" "out_ok b m" "q_ok (sl_queue (slave_at h b))"
    "length (q_items (sl_queue (slave_at h b))) < hq_limit"
  shows "\<exists>q. harbor_mainloop alive h (send_input m) = Some (set_slave b ((slave_at h b)\<lparr>sl_queue := q\<rparr>) h, []) \<and>
    q_ok q \<and> q_items q = q_items (sl_queue (slave_at h b)) @ [queued m]"
proof -
  obtain q where q: "push_queue_msg (get_harbor_queue (sl_queue (slave_at h b))) (queued m) = Some q" "hq_ok q"
      "hq_items q = q_items (sl_queue (slave_at h b)) @ [queued m]"
    using push_queue_msg_items [of "get_harbor_queue (sl_queue (slave_at h b))" "queued m"] assms(6,7) by auto
  have "harbor_mainloop alive h (send_input m) = Some (set_slave b ((slave_at h b)\<lparr>sl_queue := Some q\<rparr>) h, [])"
    using assms(1-5) q(1) unfolding harbor_mainloop_def send_input_def
    by (auto simp add: remote_send_handle_def HANDLE_REMOTE_SHIFT_def out_ok_def Let_def push_queue_def queued_def cookie_of_def)
  then show ?thesis using q by (intro exI [of _ "Some q"]) simp
qed

lemma send_all_waiting:
  assumes "b < length (hb_s h)" "hb_id h \<noteq> int b" "sl_fd (slave_at h b) = 0 \<or> sl_status (slave_at h b) = STATUS_HANDSHAKE"
    "sl_status (slave_at h b) \<noteq> STATUS_DOWN" "\<forall>m\<in>set ms. out_ok b m" "q_ok (sl_queue (slave_at h b))"
    "length (q_items (sl_queue (slave_at h b))) + length ms \<le> hq_limit"
  shows "\<exists>q. harbor_run alive h (map send_input ms) = Some (set_slave b ((slave_at h b)\<lparr>sl_queue := q\<rparr>) h, []) \<and>
    q_ok q \<and> q_items q = q_items (sl_queue (slave_at h b)) @ map queued ms"
  using assms
proof (induction ms arbitrary: h)
  case Nil
  then show ?case by (intro exI [of _ "sl_queue (slave_at h b)"]) simp
next
  case (Cons m ms)
  obtain q where q: "harbor_mainloop alive h (send_input m) = Some (set_slave b ((slave_at h b)\<lparr>sl_queue := q\<rparr>) h, [])"
      "q_ok q" "q_items q = q_items (sl_queue (slave_at h b)) @ [queued m]"
    using send_waiting [of b h m alive] Cons.prems by auto
  have "length (q_items q) + length ms \<le> hq_limit" using Cons.prems(7) unfolding q(3) by simp
  then obtain q' where "harbor_run alive (set_slave b ((slave_at h b)\<lparr>sl_queue := q\<rparr>) h) (map send_input ms) =
      Some (set_slave b ((slave_at h b)\<lparr>sl_queue := q'\<rparr>) h, [])" "q_ok q'" "q_items q' = q_items q @ map queued ms"
    using Cons.IH [of "set_slave b ((slave_at h b)\<lparr>sl_queue := q\<rparr>) h"] Cons.prems q(2) by auto
  then show ?case using q by auto
qed

definition flushed :: "int \<Rightarrow> harbor_msg \<Rightarrow> harbor_event list" where
  "flushed fd m = send_remote fd (hm_buffer m) (hm_header m) @ [Hb_free (hm_buffer m)]"

lemma flush_queue:
  assumes "sl_fd (slave_at h b) \<noteq> 0" "q_ok (sl_queue (slave_at h b))"
  shows "dispatch_slave_queue h b = Some (set_slave b ((slave_at h b)\<lparr>sl_queue := None\<rparr>) h,
    concat (map (flushed (sl_fd (slave_at h b))) (q_items (sl_queue (slave_at h b)))))"
proof (cases "sl_queue (slave_at h b)")
  case None
  then have "slave_at h b = (slave_at h b)\<lparr>sl_queue := None\<rparr>" by simp
  then have "set_slave b ((slave_at h b)\<lparr>sl_queue := None\<rparr>) h = h" using slave_at_same by metis
  then show ?thesis using assms None by (simp add: dispatch_slave_queue_def)
next
  case (Some q)
  then obtain q' where "pop_loop (remote_body (sl_fd (slave_at h b))) [] q =
      Some ([] @ concat (map (flushed (sl_fd (slave_at h b))) (hq_items q)), q')" "hq_ok q'" "hq_items q' = []"
    using pop_loop_collect [of q "remote_body (sl_fd (slave_at h b))" "flushed (sl_fd (slave_at h b))" "[]"] assms(2)
    by (auto simp: remote_body_def flushed_def)
  then show ?thesis using assms Some by (simp add: dispatch_slave_queue_def Let_def)
qed

lemma flushed_wire: "out_ok b m \<Longrightarrow> socket_out fd (flushed fd (queued m)) = wire m"
  by (simp add: flushed_def queued_def send_remote_def Let_def out_ok_def wire_def packet_of_def)

lemma flushed_wires: "\<forall>m\<in>set ms. out_ok b m \<Longrightarrow> socket_out fd (concat (map (flushed fd) (map queued ms))) = concat (map wire ms)"
  by (induction ms) (auto simp: flushed_wire)

text \<open>The command of the slave service, and what the harbor reads in it.\<close>

definition connect_text :: "u8 \<Rightarrow> nat \<Rightarrow> nat \<Rightarrow> bytes" where
  "connect_text c fd b = c # 32 # dec_nat fd @ 32 # dec_nat b"

lemma scan_int_dec:
  assumes "int n < 2 ^ 31" "r = [] \<or> digit_val 10 (List.hd r) = None"
  shows "scan_int (dec_nat n @ r) = Some (int n, r)" "scan_int (32 # dec_nat n @ r) = Some (int n, r)"
proof -
  obtain c cs where c: "dec_nat n = c # cs" using dec_nat_ne by (cases "dec_nat n") auto
  have dg: "digit_val 10 c \<noteq> None" using dec_nat_digits [of n] c by simp
  then have ns: "number_sign (dec_nat n @ r) = (False, dec_nat n @ r)"
    using digit_not_special [OF dg] by (simp add: number_sign_def c)
  have ns32: "number_sign (32 # dec_nat n @ r) = number_sign (dec_nat n @ r)"
    by (simp add: number_sign_def isspace_def)
  have "digits_val 10 (int n) r = int n" using assms(2) by (cases r) auto
  then have dv: "digits_val 10 0 (dec_nat n @ r) = int n"
    by (simp add: digits_val_append dec_nat_digits digits_val_dec_nat)
  have st: "strtol10 (dec_nat n @ r) = int n" using assms(1) by (simp add: strtol10_def ns dv)
  have "dropWhile (\<lambda>c. digit_val 10 c \<noteq> None) (dec_nat n @ r) = dropWhile (\<lambda>c. digit_val 10 c \<noteq> None) r"
    using dec_nat_digits by (simp add: dropWhile_append2)
  also have "\<dots> = r" using assms(2) by (cases r) auto
  finally have dw: "dropWhile (\<lambda>c. digit_val 10 c \<noteq> None) (dec_nat n @ r) = r" .
  have i: "to_i32 (int n) = int n" using assms(1) by (intro to_i32_id) (simp add: is_i32_def)
  show 1: "scan_int (dec_nat n @ r) = Some (int n, r)"
    unfolding scan_int_def ns st i using dg dw by (simp add: c)
  have st32: "strtol10 (32 # dec_nat n @ r) = strtol10 (dec_nat n @ r)" by (simp add: strtol10_def ns32)
  show "scan_int (32 # dec_nat n @ r) = Some (int n, r)" using 1 unfolding scan_int_def ns32 st32 .
qed

lemma scan_connect:
  assumes "int fd < 2 ^ 31" "int b < 2 ^ 31"
  shows "scan_pair (takeWhile (\<lambda>c. c \<noteq> 0) (drop 2 (connect_text c fd b))) = (int fd, int b)"
proof -
  have z: "\<forall>x\<in>set (dec_nat n). x \<noteq> 0" for n using dec_nat_digits [of n] digit_not_special by auto
  have "takeWhile (\<lambda>c. c \<noteq> 0) (drop 2 (connect_text c fd b)) = dec_nat fd @ 32 # dec_nat b"
    using z by (simp add: connect_text_def takeWhile_append2 takeWhile_eq_all_conv [THEN iffD2])
  moreover have "digit_val 10 32 = None" by (simp add: digit_val_def)
  ultimately show ?thesis
    using scan_int_dec(1) [OF assms(1), of "32 # dec_nat b"] scan_int_dec(2) [OF assms(2), of "[]"] by (simp add: scan_pair_def)
qed

lemma connect_command:
  assumes "0 < b" "b < REMOTE_MAX" "length (hb_s h) = REMOTE_MAX" "0 < fd" "int fd < 2 ^ 31" "sl_fd (slave_at h b) = 0"
  shows "harbor_mainloop alive h (In_harbor (connect_text 83 fd b) src) =
    Some (set_slave b ((slave_at h b)\<lparr>sl_fd := int fd, sl_status := STATUS_HANDSHAKE\<rparr>) h,
          [Hb_start (int fd), Hb_socket_send (int fd) [word_of_int (hb_id h)]])"
proof -
  have b: "int b < 2 ^ 31" using assms(2) by (simp add: REMOTE_MAX_def)
  have l: "2 \<le> length (connect_text 83 fd b)" by (simp add: connect_text_def)
  have c: "char0 (connect_text 83 fd b) = 83" by (simp add: connect_text_def char0_def)
  show ?thesis
    unfolding harbor_mainloop_def harbor_input.case harbor_command_def Let_def c scan_connect [OF assms(5) b] prod.case
    using assms l by (simp add: handshake_def)
qed

lemma harbor_id_unique:
  assumes "length (hb_s h) = REMOTE_MAX" "0 < b" "b < REMOTE_MAX" "sl_fd (slave_at h b) = fd"
    "\<forall>j. 0 < j \<and> j < REMOTE_MAX \<and> j \<noteq> b \<longrightarrow> sl_fd (slave_at h j) \<noteq> fd"
  shows "harbor_id h fd = b"
proof -
  have "List.find (\<lambda>i. sl_fd (slave_at h i) = fd) [1..<REMOTE_MAX] = Some b"
    unfolding find_Some_iff
  proof (intro exI [of _ "b - 1"] conjI allI impI)
    fix j assume j: "j < b - 1"
    then have "Suc j < REMOTE_MAX \<and> Suc j \<noteq> b" using assms(3) by auto
    then show "\<not> sl_fd (slave_at h ([1..<REMOTE_MAX] ! j)) = fd"
      using assms(3) assms(5) [rule_format, of "Suc j"] by simp
  qed (use assms in auto)
  then show ?thesis by (simp add: harbor_id_def)
qed

text \<open>The first byte from the other node ends the handshake.\<close>

lemma handshake_byte:
  assumes "b < 256" "b < length (hb_s h)" "sl_status (slave_at h b) = STATUS_HANDSHAKE" "fd \<noteq> 0" "sl_fd (slave_at h b) = fd"
    "q_ok (sl_queue (slave_at h b))" "sl_read (slave_at h b) = 0" "length (sl_size (slave_at h b)) = 4"
  shows "data_loop alive b fd h [of_nat b] =
    Some (set_slave b ((slave_at h b)\<lparr>sl_status := STATUS_HEADER, sl_queue := None\<rparr>) h,
      concat (map (flushed fd) (q_items (sl_queue (slave_at h b)))))"
proof -
  define h1 where "h1 = set_slave b ((slave_at h b)\<lparr>sl_status := STATUS_HEADER\<rparr>) h"
  define h2 where "h2 = set_slave b ((slave_at h b)\<lparr>sl_status := STATUS_HEADER, sl_queue := None\<rparr>) h"
  define ev where "ev = concat (map (flushed fd) (q_items (sl_queue (slave_at h b))))"
  have u: "uint (of_nat b :: u8) = int b" using assms(1) by (simp add: unsigned_of_nat take_bit_nat_eq_self)
  have f: "dispatch_slave_queue h1 b = Some (h2, ev)"
    using flush_queue [of h1 b] assms by (simp add: h1_def h2_def ev_def)
  have s2: "slave_at h2 b = (slave_at h b)\<lparr>sl_status := STATUS_HEADER, sl_queue := None\<rparr>"
    using assms(2) by (simp add: h2_def)
  have l2: "b < length (hb_s h2)" using assms(2) by (simp add: h2_def)
  have r: "sl_read (slave_at h2 b) = 0" "length (sl_size (slave_at h2 b)) = 4" using assms(7,8) by (simp_all add: s2)
  have "(slave_at h2 b)\<lparr>sl_read := 0\<rparr> = slave_at h2 b" using r(1) by simp
  then have "set_slave b ((slave_at h2 b)\<lparr>sl_read := 0\<rparr>) h2 = h2" using slave_at_same by metis
  then have "on_header alive b h2 [] = Some (h2, [], None)"
    using r by (simp add: on_header_def blit_def)
  then have e: "data_loop alive b fd h2 [] = Some (h2, [])"
    by (subst data_loop.simps) (simp add: on_data_def s2)
  have "on_data alive b fd h [of_nat b] = Some (h2, ev, Some [])"
    using assms(3) f u by (simp add: on_data_def on_handshake_def h1_def)
  then show ?thesis using e by (subst data_loop.simps) (simp add: h2_def ev_def)
qed

text \<open>C22: Messages for a node that is not connected wait. Whatever is sent before the connection, during the handshake, and
  after it, is written to the socket in the order of the sends, after the one byte of the handshake.\<close>

theorem harbor_connects:
  assumes h: "length (hb_s h) = REMOTE_MAX" "hb_id h \<noteq> int b" "0 < b" "b < REMOTE_MAX"
    and s: "sl_fd (slave_at h b) = 0" "sl_status (slave_at h b) = STATUS_WAIT" "sl_queue (slave_at h b) = None"
      "sl_read (slave_at h b) = 0" "length (sl_size (slave_at h b)) = 4"
    and fd: "0 < fd" "int fd < 2 ^ 31" "\<forall>j. 0 < j \<and> j < REMOTE_MAX \<longrightarrow> sl_fd (slave_at h j) \<noteq> int fd"
    and ms: "\<forall>m\<in>set (ms1 @ ms2 @ ms3). out_ok b m" "length ms1 + length ms2 \<le> hq_limit"
  shows "\<exists>h' ev. harbor_run alive h
      (map send_input ms1 @ In_harbor (connect_text 83 fd b) src # map send_input ms2 @
       data_input (int fd) [of_nat b] # map send_input ms3) = Some (h', ev) \<and>
    socket_out (int fd) ev = word_of_int (hb_id h) # concat (map wire (ms1 @ ms2 @ ms3)) \<and>
    sl_status (slave_at h' b) = STATUS_HEADER \<and> sl_queue (slave_at h' b) = None"
proof -
  have b: "b < length (hb_s h)" "b < 256" using h by (simp_all add: REMOTE_MAX_def)
  obtain q1 where q1: "harbor_run alive h (map send_input ms1) = Some (set_slave b ((slave_at h b)\<lparr>sl_queue := q1\<rparr>) h, [])"
      "q_ok q1" "q_items q1 = map queued ms1"
    using send_all_waiting [OF b(1) h(2), of ms1 alive] s ms by auto
  define h1 where "h1 = set_slave b ((slave_at h b)\<lparr>sl_queue := q1\<rparr>) h"
  define h2 where "h2 = set_slave b ((slave_at h1 b)\<lparr>sl_fd := int fd, sl_status := STATUS_HANDSHAKE\<rparr>) h1"
  have s1: "slave_at h1 b = (slave_at h b)\<lparr>sl_queue := q1\<rparr>" "length (hb_s h1) = REMOTE_MAX" "hb_id h1 = hb_id h"
    using b h(1) by (simp_all add: h1_def)
  have s2: "slave_at h2 b = (slave_at h b)\<lparr>sl_queue := q1, sl_fd := int fd, sl_status := STATUS_HANDSHAKE\<rparr>"
      "length (hb_s h2) = REMOTE_MAX" "hb_id h2 = hb_id h" "b < length (hb_s h2)"
    using b h(1) s1 by (simp_all add: h2_def)
  have c: "harbor_mainloop alive h1 (In_harbor (connect_text 83 fd b) src) =
      Some (h2, [Hb_start (int fd), Hb_socket_send (int fd) [word_of_int (hb_id h)]])"
    using connect_command [OF h(3,4) s1(2) fd(1,2), of alive src] s(1) s1 by (simp add: h2_def)
  obtain q2 where q2: "harbor_run alive h2 (map send_input ms2) = Some (set_slave b ((slave_at h2 b)\<lparr>sl_queue := q2\<rparr>) h2, [])"
      "q_ok q2" "q_items q2 = map queued (ms1 @ ms2)"
    using send_all_waiting [OF s2(4), of ms2 alive] h(2) ms q1(2,3) s2(1,3) by auto
  define h3 where "h3 = set_slave b ((slave_at h2 b)\<lparr>sl_queue := q2\<rparr>) h2"
  define h4 where "h4 = set_slave b ((slave_at h3 b)\<lparr>sl_status := STATUS_HEADER, sl_queue := None\<rparr>) h3"
  have s3: "slave_at h3 b = (slave_at h b)\<lparr>sl_queue := q2, sl_fd := int fd, sl_status := STATUS_HANDSHAKE\<rparr>"
      "length (hb_s h3) = REMOTE_MAX" "b < length (hb_s h3)"
    using s2 by (simp_all add: h3_def)
  have o: "slave_at h3 j = slave_at h j" if "j \<noteq> b" for j
    using that by (simp add: h3_def h2_def h1_def slave_at_def set_slave_def)
  have id: "harbor_id h3 (int fd) = b"
    by (rule harbor_id_unique) (use h s3 fd(3) o in auto)
  have "data_loop alive b (int fd) h3 [of_nat b] = Some (h4, concat (map (flushed (int fd)) (map queued (ms1 @ ms2))))"
    using handshake_byte [of b h3 "int fd" alive] b s3 s fd(1) q2(2,3) by (simp add: h4_def)
  then have d: "harbor_mainloop alive h3 (data_input (int fd) [of_nat b]) =
      Some (h4, concat (map (flushed (int fd)) (map queued (ms1 @ ms2))) @ [Hb_free [of_nat b]])"
    using id h(3) by (simp add: harbor_mainloop_def data_input_def harbor_socket_def push_socket_data_def)
  have s4: "slave_at h4 b = (slave_at h b)\<lparr>sl_queue := None, sl_fd := int fd, sl_status := STATUS_HEADER\<rparr>" "hb_id h4 = hb_id h"
    using s3 by (simp_all add: h4_def h3_def h2_def h1_def)
  obtain ev where ev: "harbor_run alive h4 (map send_input ms3) = Some (h4, ev)"
      "socket_out (int fd) ev = concat (map wire ms3)"
    using send_all_connected [of h4 b "int fd" ms3 alive] s4 h(2) fd(1) ms(1) by auto
  have w: "socket_out (int fd) (concat (map (flushed (int fd)) (map queued (ms1 @ ms2)))) = concat (map wire (ms1 @ ms2))"
    by (rule flushed_wires) (use ms(1) in auto)
  show ?thesis
    using q1(1) c q2(1) d ev w s4 unfolding h1_def [symmetric] h3_def [symmetric]
    by (simp add: harbor_run_append)
qed

section \<open>Ownership of the message blocks\<close>

definition blk :: "harbor_msg_queue option \<Rightarrow> bytes multiset" where
  "blk q = image_mset hm_buffer (mset (q_items q))"

lemma blk_None [simp]: "blk None = {#}" by (simp add: blk_def)

text \<open>The blocks in the queues of all slaves and names.\<close>

definition owned :: "harbor \<Rightarrow> bytes multiset" where
  "owned h = sum_list (map (\<lambda>s. blk (sl_queue s)) (hb_s h)) +
     sum_list (map (\<lambda>c. sum_list (map (\<lambda>n. blk (kv_queue n)) c)) (hb_map h))"

text \<open>The blocks that events free or hand over to a local service.\<close>

fun gives :: "harbor_event \<Rightarrow> bytes multiset" where
  "gives (Hb_free b) = {#b#}"
| "gives (Hb_send _ _ t _ b) = (if t AND PTYPE_TAG_DONTCOPY = 0 then {#} else {#b#})"
| "gives _ = {#}"

definition given :: "harbor_event list \<Rightarrow> bytes multiset" where
  "given ev = sum_list (map gives ev)"

lemma given_simps [simp]: "given [] = {#}" "given (e # ev) = gives e + given ev" "given (a @ b) = given a + given b"
  by (simp_all add: given_def)

definition harbor_ok :: "harbor \<Rightarrow> bool" where
  "harbor_ok h \<longleftrightarrow> length (hb_s h) = REMOTE_MAX \<and> length (hb_map h) = HASH_SIZE \<and>
     (\<forall>s\<in>set (hb_s h). q_ok (sl_queue s)) \<and> (\<forall>c\<in>set (hb_map h). \<forall>n\<in>set c. q_ok (kv_queue n))"

definition node_ok :: "harbor \<Rightarrow> nat \<times> nat \<Rightarrow> bool" where
  "node_ok h p \<longleftrightarrow> fst p < length (hb_map h) \<and> snd p < length (hb_map h ! fst p)"

lemma sum_list_swap:
  fixes f :: "'a \<Rightarrow> 'b multiset"
  shows "i < length xs \<Longrightarrow> sum_list (map f (xs[i := x])) + f (xs ! i) = sum_list (map f xs) + f x"
proof (induction xs arbitrary: i)
  case (Cons a xs)
  then show ?case by (cases i) (auto simp: ac_simps)
qed simp

lemma sum_chain: "a + n = c + k \<Longrightarrow> m' + c = m + a \<Longrightarrow> m' + n = m + (k :: 'b multiset)"
  by (metis (no_types, lifting) add.assoc add.commute add_left_imp_eq)

lemma sum_cancel: "a + n = c + (n + k) \<Longrightarrow> a = c + (k :: 'b multiset)"
proof -
  assume "a + n = c + (n + k)"
  then have "a + n = (c + k) + n" by (simp add: ac_simps)
  then show "a = c + k" by simp
qed

lemma owned_set_slave:
  "i < length (hb_s h) \<Longrightarrow> owned (set_slave i s h) + blk (sl_queue (slave_at h i)) = owned h + blk (sl_queue s)"
  using sum_list_swap [of i "hb_s h" "\<lambda>s. blk (sl_queue s)" s] by (simp add: owned_def set_slave_def slave_at_def ac_simps)

lemma owned_set_node:
  assumes "node_ok h p"
  shows "owned (set_node p kv h) + blk (kv_queue (node_at h p)) = owned h + blk (kv_queue kv)"
proof -
  let ?c = "hb_map h ! fst p"
  have i: "sum_list (map (\<lambda>n. blk (kv_queue n)) (?c[snd p := kv])) + blk (kv_queue (node_at h p)) =
      sum_list (map (\<lambda>n. blk (kv_queue n)) ?c) + blk (kv_queue kv)"
    using sum_list_swap [of "snd p" ?c "\<lambda>n. blk (kv_queue n)" kv] assms by (simp add: node_ok_def node_at_def)
  have o: "sum_list (map (\<lambda>c. sum_list (map (\<lambda>n. blk (kv_queue n)) c)) ((hb_map h)[fst p := ?c[snd p := kv]])) +
      sum_list (map (\<lambda>n. blk (kv_queue n)) ?c) =
      sum_list (map (\<lambda>c. sum_list (map (\<lambda>n. blk (kv_queue n)) c)) (hb_map h)) + sum_list (map (\<lambda>n. blk (kv_queue n)) (?c[snd p := kv]))"
    using sum_list_swap [of "fst p" "hb_map h" "\<lambda>c. sum_list (map (\<lambda>n. blk (kv_queue n)) c)" "?c[snd p := kv]"] assms
    by (simp add: node_ok_def)
  show ?thesis using sum_chain [OF i o] by (simp add: owned_def set_node_def ac_simps)
qed

lemma harbor_ok_set_slave: "harbor_ok h \<Longrightarrow> q_ok (sl_queue s) \<Longrightarrow> harbor_ok (set_slave i s h)"
  unfolding harbor_ok_def set_slave_def using set_update_subset_insert [of "hb_s h" i s] by auto

lemma harbor_ok_chain: "harbor_ok h \<Longrightarrow> node_ok h p \<Longrightarrow> n \<in> set (hb_map h ! fst p) \<Longrightarrow> q_ok (kv_queue n)"
  using nth_mem [of "fst p" "hb_map h"] by (auto simp: harbor_ok_def node_ok_def)

lemma harbor_ok_set_node:
  assumes "harbor_ok h" "node_ok h p" "q_ok (kv_queue kv)"
  shows "harbor_ok (set_node p kv h)"
proof -
  let ?c = "(hb_map h ! fst p)[snd p := kv]"
  have "q_ok (kv_queue n)" if "c \<in> set ((hb_map h)[fst p := ?c])" "n \<in> set c" for c n
  proof (cases "c = ?c")
    case True
    then have "n \<in> insert kv (set (hb_map h ! fst p))" using that(2) set_update_subset_insert by fastforce
    then show ?thesis using assms harbor_ok_chain by blast
  next
    case False
    then have "c \<in> set (hb_map h)" using that(1) set_update_subset_insert by fastforce
    then show ?thesis using that(2) assms(1) by (simp add: harbor_ok_def)
  qed
  then show ?thesis using assms(1) by (simp add: harbor_ok_def set_node_def)
qed

lemma harbor_ok_slave: "harbor_ok h \<Longrightarrow> i < REMOTE_MAX \<Longrightarrow> q_ok (sl_queue (slave_at h i)) \<and> i < length (hb_s h)"
  by (simp add: harbor_ok_def slave_at_def)

lemma harbor_ok_node: "harbor_ok h \<Longrightarrow> node_ok h p \<Longrightarrow> q_ok (kv_queue (node_at h p))"
  using harbor_ok_chain [of h p "node_at h p"] by (simp add: node_ok_def node_at_def)

lemma node_simps [simp]:
  "node_ok (set_slave i s h) p = node_ok h p" "node_at (set_slave i s h) p = node_at h p"
  "node_ok (set_node p kv h) p = node_ok h p" "node_ok h p \<Longrightarrow> node_at (set_node p kv h) p = kv"
  "slave_at (set_node p kv h) i = slave_at h i" "hb_s (set_node p kv h) = hb_s h"
  "hb_id (set_node p kv h) = hb_id h" "hb_slave (set_node p kv h) = hb_slave h"
  "node_ok h p \<Longrightarrow> set_node p kv (set_node p kv' h) = set_node p kv h"
  by (auto simp: node_ok_def node_at_def set_slave_def set_node_def slave_at_def)

lemma size_slave: "harbor_ok h \<Longrightarrow> i < REMOTE_MAX \<Longrightarrow> length (q_items (sl_queue (slave_at h i))) \<le> size (owned h)"
proof -
  assume "harbor_ok h" "i < REMOTE_MAX"
  then have "i < length (hb_s h)" by (simp add: harbor_ok_def)
  then have "owned (set_slave i ((slave_at h i)\<lparr>sl_queue := None\<rparr>) h) + blk (sl_queue (slave_at h i)) = owned h"
    using owned_set_slave [of i h "(slave_at h i)\<lparr>sl_queue := None\<rparr>"] by simp
  then have "size (blk (sl_queue (slave_at h i))) \<le> size (owned h)" by (metis size_union le_add2)
  then show ?thesis by (simp add: blk_def)
qed

lemma size_node_slave:
  assumes "harbor_ok h" "i < REMOTE_MAX" "node_ok h p"
  shows "length (q_items (sl_queue (slave_at h i))) + length (q_items (kv_queue (node_at h p))) \<le> size (owned h)"
proof -
  define h1 where "h1 = set_node p ((node_at h p)\<lparr>kv_queue := None\<rparr>) h"
  have "owned h1 + blk (kv_queue (node_at h p)) = owned h"
    using owned_set_node [OF assms(3), of "(node_at h p)\<lparr>kv_queue := None\<rparr>"] by (simp add: h1_def)
  then have "size (owned h1) + length (q_items (kv_queue (node_at h p))) = size (owned h)"
    by (metis blk_def size_image_mset size_mset size_union)
  moreover have "length (q_items (sl_queue (slave_at h1 i))) \<le> size (owned h1)"
    by (rule size_slave) (use assms in \<open>auto simp: h1_def intro: harbor_ok_set_node\<close>)
  ultimately show ?thesis by (simp add: h1_def)
qed

text \<open>A step that conserves the blocks.\<close>

definition keeps :: "bytes multiset \<Rightarrow> harbor \<Rightarrow> harbor_result \<Rightarrow> bool" where
  "keeps inc h res \<longleftrightarrow> (\<exists>h' ev. res = Some (h', ev) \<and> harbor_ok h' \<and> owned h' + given ev = owned h + inc)"

lemma keepsI: "res = Some (h', ev) \<Longrightarrow> harbor_ok h' \<Longrightarrow> owned h' + given ev = owned h + inc \<Longrightarrow> keeps inc h res"
  by (auto simp: keeps_def)

lemma tag_dontcopy [simp]: "(t OR PTYPE_TAG_DONTCOPY) AND PTYPE_TAG_DONTCOPY \<noteq> 0"
proof -
  have "(t OR PTYPE_TAG_DONTCOPY) AND PTYPE_TAG_DONTCOPY = PTYPE_TAG_DONTCOPY"
    by (rule bit_eqI) (auto simp: bit_simps)
  then show ?thesis by (simp add: PTYPE_TAG_DONTCOPY_def)
qed

lemma given_send_remote [simp]: "given (send_remote fd b c) = {#}"
  by (simp add: send_remote_def Let_def)

lemma given_flushed: "given (concat (map (flushed fd) ms)) = image_mset hm_buffer (mset ms)"
  by (induction ms) (simp_all add: flushed_def)

lemma given_frees: "given (frees ms) = image_mset hm_buffer (mset ms)"
  by (induction ms) (simp_all add: frees_def)

lemma blk_Some: "blk (Some q) = image_mset hm_buffer (mset (hq_items q))"
  by (simp add: blk_def)

lemma search_chain_less: "search_chain h name c = Some i \<Longrightarrow> i < length c"
  by (induction c arbitrary: i) (auto split: if_splits)

lemma name_bucket_less: "name_bucket h < HASH_SIZE"
  by (simp add: name_bucket_def HASH_SIZE_def)

lemma find_node_ok:
  assumes "harbor_ok h" "find_node h name = (h1, p)"
  shows "harbor_ok h1" "node_ok h1 p" "owned h1 = owned h"
proof -
  let ?b = "name_bucket (name_hash name)"
  have b: "?b < length (hb_map h)" using assms(1) name_bucket_less by (simp add: harbor_ok_def)
  show "harbor_ok h1" "node_ok h1 p" "owned h1 = owned h"
  proof (atomize (full), cases "hash_search (hb_map h) name")
    case (Some q)
    then obtain z where "search_chain (name_hash name) name (hb_map h ! ?b) = Some z" "q = (?b, z)"
      by (auto simp: hash_search_def Let_def)
    then show "harbor_ok h1 \<and> node_ok h1 p \<and> owned h1 = owned h"
      using assms b Some search_chain_less by (auto simp: find_node_def node_ok_def)
  next
    case None
    define n where "n = \<lparr>kv_key = take GLOBALNAME_LENGTH name, kv_hash = name_hash name, kv_value = 0, kv_queue = None\<rparr>"
    have h1: "h1 = h\<lparr>hb_map := (hb_map h)[?b := n # hb_map h ! ?b]\<rparr>" "p = (?b, 0)"
      using None assms(2) by (auto simp: find_node_def hash_insert_def Let_def n_def)
    have "\<forall>c\<in>set ((hb_map h)[?b := n # hb_map h ! ?b]). \<forall>n\<in>set c. q_ok (kv_queue n)"
    proof
      fix c assume "c \<in> set ((hb_map h)[?b := n # hb_map h ! ?b])"
      then have "c \<in> insert (n # hb_map h ! ?b) (set (hb_map h))" using set_update_subset_insert by fast
      moreover have "hb_map h ! ?b \<in> set (hb_map h)" using b by simp
      ultimately show "\<forall>n\<in>set c. q_ok (kv_queue n)" using assms(1) by (auto simp: harbor_ok_def n_def)
    qed
    then have "harbor_ok h1" using assms(1) by (simp add: h1 harbor_ok_def)
    moreover have "owned h1 = owned h"
      using sum_list_swap [OF b, of "\<lambda>c. sum_list (map (\<lambda>n. blk (kv_queue n)) c)" "n # hb_map h ! ?b"]
      by (simp add: h1 owned_def n_def ac_simps)
    ultimately show "harbor_ok h1 \<and> node_ok h1 p \<and> owned h1 = owned h" using b by (simp add: h1 node_ok_def)
  qed
qed

lemma node_index: "unat (drop_bit 24 (d :: u32)) < REMOTE_MAX"
proof -
  have "unat (drop_bit 24 d) = unat d div 2 ^ 24" using unat_div [of d "2 ^ 24"] by (simp add: drop_bit_eq_div)
  moreover have "unat d < 2 ^ 32" using unsigned_less [where ?'a = nat and w = d] by simp
  ultimately show ?thesis by (simp add: REMOTE_MAX_def less_mult_imp_div_less)
qed

lemma keeps_send_handle:
  assumes ok: "harbor_ok h" and room: "size (owned h) < hq_limit"
  shows "keeps {#msg#} h (map_option (\<lambda>(h, ev, taken). (h, if taken then ev else ev @ [Hb_free msg]))
    (remote_send_handle h source dest type session msg))"
proof -
  define i where "i = unat (drop_bit HANDLE_REMOTE_SHIFT dest)"
  define s where "s = slave_at h i"
  define cookie where "cookie = \<lparr>hd_source = source,
    hd_destination = push_bit HANDLE_REMOTE_SHIFT (word_of_int type) OR (dest AND HANDLE_MASK), hd_session = word_of_int session :: u32\<rparr>"
  have i: "i < REMOTE_MAX" unfolding i_def HANDLE_REMOTE_SHIFT_def by (rule node_index)
  have s: "q_ok (sl_queue s)" "i < length (hb_s h)" using harbor_ok_slave [OF ok i] by (simp_all add: s_def)
  consider "int i = hb_id h"
    | "int i \<noteq> hb_id h" "sl_fd s = 0 \<or> sl_status s = STATUS_HANDSHAKE" "sl_status s = STATUS_DOWN"
    | "int i \<noteq> hb_id h" "sl_fd s = 0 \<or> sl_status s = STATUS_HANDSHAKE" "sl_status s \<noteq> STATUS_DOWN"
    | "int i \<noteq> hb_id h" "\<not> (sl_fd s = 0 \<or> sl_status s = STATUS_HANDSHAKE)" by blast
  then show ?thesis
  proof cases
    case 1
    then show ?thesis by (simp add: remote_send_handle_def i_def [symmetric] keeps_def ok)
  next
    case 2
    then show ?thesis
      by (simp add: remote_send_handle_def i_def [symmetric] s_def [symmetric] keeps_def ok PTYPE_ERROR_def PTYPE_TAG_DONTCOPY_def)
  next
    case 3
    have "length (q_items (sl_queue s)) < hq_limit" using size_slave [OF ok i] room by (simp add: s_def)
    then obtain q where q: "push_queue (get_harbor_queue (sl_queue s)) msg cookie = Some q" "hq_ok q"
        "hq_items q = q_items (sl_queue s) @ [\<lparr>hm_header = cookie, hm_buffer = msg\<rparr>]"
      using push_queue_msg_items [of "get_harbor_queue (sl_queue s)" "\<lparr>hm_header = cookie, hm_buffer = msg\<rparr>"] s(1)
      by (auto simp: push_queue_def)
    let ?s = "s\<lparr>sl_queue := Some q\<rparr>"
    have r: "remote_send_handle h source dest type session msg = Some (set_slave i ?s h, [], True)"
      using 3 q(1) by (simp add: remote_send_handle_def i_def [symmetric] s_def [symmetric] cookie_def [symmetric] Let_def)
    have "owned (set_slave i ?s h) + blk (sl_queue s) = owned h + (blk (sl_queue s) + {#msg#})"
      using owned_set_slave [OF s(2), of ?s] by (simp add: s_def [symmetric] blk_Some q(3)) (simp add: blk_def)
    then have "owned (set_slave i ?s h) = owned h + {#msg#}"
      by (rule sum_cancel)
    then show ?thesis unfolding r using harbor_ok_set_slave [OF ok, of ?s i] q(2) by (simp add: keeps_def)
  next
    case 4
    then show ?thesis
      by (simp add: remote_send_handle_def i_def [symmetric] s_def [symmetric] keeps_def ok Let_def)
  qed
qed

lemma keeps_send_name:
  assumes ok: "harbor_ok h" and room: "size (owned h) < hq_limit"
  shows "keeps {#msg#} h (map_option (\<lambda>(h, ev, taken). (h, if taken then ev else ev @ [Hb_free msg]))
    (remote_send_name h source name type session msg))"
proof -
  obtain h1 p where hp: "find_node h name = (h1, p)" by (cases "find_node h name") auto
  note f = find_node_ok [OF ok hp]
  define n where "n = node_at h1 p"
  show ?thesis
  proof (cases "kv_value n = 0")
    case False
    then have "remote_send_name h source name type session msg = remote_send_handle h1 source (kv_value n) type session msg"
      by (simp add: remote_send_name_def hp n_def)
    then show ?thesis using keeps_send_handle [OF f(1), of msg source "kv_value n" type session] room f(3)
      by (simp add: keeps_def)
  next
    case True
    define cookie where "cookie = \<lparr>hd_source = source, hd_destination = push_bit HANDLE_REMOTE_SHIFT (word_of_int type),
      hd_session = word_of_int session :: u32\<rparr>"
    have qn: "q_ok (kv_queue n)" using harbor_ok_node [OF f(1,2)] by (simp add: n_def)
    have "length (q_items (kv_queue n)) \<le> size (owned h1)"
      using size_node_slave [OF f(1) _ f(2), of 0] by (simp add: n_def REMOTE_MAX_def)
    then obtain q where q: "push_queue (get_harbor_queue (kv_queue n)) msg cookie = Some q" "hq_ok q"
        "hq_items q = q_items (kv_queue n) @ [\<lparr>hm_header = cookie, hm_buffer = msg\<rparr>]"
      using push_queue_msg_items [of "get_harbor_queue (kv_queue n)" "\<lparr>hm_header = cookie, hm_buffer = msg\<rparr>"] qn room f(3)
      by (auto simp: push_queue_def)
    let ?n = "n\<lparr>kv_queue := Some q\<rparr>"
    have r: "remote_send_name h source name type session msg = Some (set_node p ?n h1,
        [Hb_send 0 (hb_slave h) PTYPE_TEXT 0 (str ''Q '' @ takeWhile (\<lambda>c. c \<noteq> 0) (take GLOBALNAME_LENGTH name))], True)"
      using True q(1) by (simp add: remote_send_name_def hp n_def [symmetric] cookie_def [symmetric])
    have "owned (set_node p ?n h1) + blk (kv_queue n) = owned h1 + (blk (kv_queue n) + {#msg#})"
      using owned_set_node [OF f(2), of ?n] by (simp add: n_def [symmetric] blk_Some q(3)) (simp add: blk_def)
    then have "owned (set_node p ?n h1) = owned h + {#msg#}"
      unfolding f(3) by (rule sum_cancel)
    then show ?thesis unfolding r using harbor_ok_set_node [OF f(1,2), of ?n] q(2)
      by (simp add: keeps_def PTYPE_TEXT_def)
  qed
qed

definition named :: "u32 \<Rightarrow> harbor_msg \<Rightarrow> harbor_msg" where
  "named handle m = m\<lparr>hm_header := (hm_header m)\<lparr>hd_destination := hd_destination (hm_header m) OR (handle AND HANDLE_MASK)\<rparr>\<rparr>"

definition handed :: "u32 \<Rightarrow> harbor_msg \<Rightarrow> harbor_event list" where
  "handed handle m = [Hb_send (hd_source (hm_header m)) handle
     (uint (drop_bit HANDLE_REMOTE_SHIFT (hd_destination (hm_header m))) OR PTYPE_TAG_DONTCOPY)
     (to_i32 (uint (hd_session (hm_header m)))) (hm_buffer m)]"

lemma name_loop:
  assumes "hq_ok q"
  shows "\<exists>q'. pop_loop (name_body fd handle) [] q = Some (concat (map (\<lambda>m. flushed fd (named handle m)) (hq_items q)), q') \<and>
    hq_ok q' \<and> hq_items q' = []"
  using pop_loop_collect [OF assms, of "name_body fd handle" "\<lambda>m. flushed fd (named handle m)" "[]"]
  by (simp add: name_body_def remote_body_def flushed_def named_def)

lemma local_loop:
  assumes "hq_ok q"
  shows "\<exists>q'. pop_loop (local_body handle) [] q = Some (concat (map (handed handle) (hq_items q)), q') \<and>
    hq_ok q' \<and> hq_items q' = []"
  using pop_loop_collect [OF assms, of "local_body handle" "handed handle" "[]"] by (simp add: local_body_def handed_def Let_def)

lemma given_named: "given (concat (map (\<lambda>m. flushed fd (named handle m)) ms)) = image_mset hm_buffer (mset ms)"
  by (induction ms) (simp_all add: flushed_def named_def)

lemma given_handed: "given (concat (map (handed handle) ms)) = image_mset hm_buffer (mset ms)"
  by (induction ms) (simp_all add: handed_def)

text \<open>The queue of a name goes to the slave: as it is, or behind the queue that is there.\<close>

lemma move_to_slave:
  assumes "hq_ok q" "q_ok sl" "length (q_items sl) + length (hq_items q) \<le> hq_limit"
  shows "\<exists>sq nq. (case sl of None \<Rightarrow> Some (q, None)
      | Some sq \<Rightarrow> map_option (\<lambda>(sq, queue). (sq, Some queue)) (pop_loop push_queue_msg sq q)) = Some (sq, nq) \<and>
    hq_ok sq \<and> hq_items sq = q_items sl @ hq_items q \<and> q_ok nq \<and> q_items nq = []"
proof (cases sl)
  case None
  then show ?thesis using assms by simp
next
  case (Some r)
  then obtain sq where sq: "foldM push_queue_msg r (hq_items q) = Some sq" "hq_ok sq" "hq_items sq = hq_items r @ hq_items q"
    using move_queue [of r "hq_items q"] assms by auto
  then show ?thesis using pop_loop_fold [OF assms(1) sq(1)] Some by auto
qed

lemma keeps_dispatch_name:
  assumes ok: "harbor_ok h" and p: "node_ok h p" and q: "kv_queue (node_at h p) = Some q" and room: "size (owned h) \<le> hq_limit"
  shows "\<exists>h' ev. dispatch_name_queue h p = Some (h', ev) \<and> harbor_ok h' \<and> node_ok h' p \<and> owned h' + given ev = owned h"
proof -
  define n where "n = node_at h p"
  define i where "i = unat (drop_bit HANDLE_REMOTE_SHIFT (kv_value n))"
  define s where "s = slave_at h i"
  have i: "i < REMOTE_MAX" unfolding i_def HANDLE_REMOTE_SHIFT_def by (rule node_index)
  have s: "q_ok (sl_queue s)" "i < length (hb_s h)" using harbor_ok_slave [OF ok i] by (simp_all add: s_def)
  have hq: "hq_ok q" "kv_queue n = Some q" using harbor_ok_node [OF ok p] q by (simp_all add: n_def)
  note defs = dispatch_name_queue_def n_def [symmetric] i_def [symmetric] s_def [symmetric] Let_def hq(2) bind.bind_lunit
  consider (down) "sl_fd s = 0" "sl_status s = STATUS_DOWN" | (wait) "sl_fd s = 0" "sl_status s \<noteq> STATUS_DOWN" | (up) "sl_fd s \<noteq> 0"
    by blast
  then show ?thesis
  proof cases
    case down
    then show ?thesis unfolding defs using ok p by simp
  next
    case up
    obtain q' where l: "pop_loop (name_body (sl_fd s) (kv_value n)) [] q =
        Some (concat (map (\<lambda>m. flushed (sl_fd s) (named (kv_value n) m)) (hq_items q)), q')" "hq_ok q'" "hq_items q' = []"
      using name_loop [OF hq(1)] by blast
    let ?n = "n\<lparr>kv_queue := Some q'\<rparr>"
    have "owned (set_node p ?n h) + blk (Some q) = owned h"
      using owned_set_node [OF p, of ?n] l(3) by (simp add: n_def [symmetric] hq(2)) (simp add: blk_Some)
    then show ?thesis unfolding defs using up l harbor_ok_set_node [OF ok p, of ?n] p by (simp add: given_named blk_Some)
  next
    case wait
    have "length (q_items (sl_queue s)) + length (hq_items q) \<le> hq_limit"
      using size_node_slave [OF ok i p] room by (simp add: s_def [symmetric] n_def [symmetric] hq(2))
    then obtain sq nq where m: "(case sl_queue s of None \<Rightarrow> Some (q, None)
          | Some sq \<Rightarrow> map_option (\<lambda>(sq, queue). (sq, Some queue)) (pop_loop push_queue_msg sq q)) = Some (sq, nq)"
        "hq_ok sq" "hq_items sq = q_items (sl_queue s) @ hq_items q" "q_ok nq" "q_items nq = []"
      using move_to_slave [OF hq(1) s(1)] by blast
    define h1 where "h1 = set_node p (n\<lparr>kv_queue := nq\<rparr>) h"
    have ok1: "harbor_ok h1" "node_ok h1 p" "slave_at h1 i = s" "i < length (hb_s h1)"
      using harbor_ok_set_node [OF ok p, of "n\<lparr>kv_queue := nq\<rparr>"] m(4) p s(2) by (simp_all add: h1_def s_def)
    have o1: "owned h1 + blk (Some q) = owned h"
      using owned_set_node [OF p, of "n\<lparr>kv_queue := nq\<rparr>"] m(5)
      by (simp add: h1_def n_def [symmetric] hq(2)) (simp add: blk_def)
    show ?thesis
    proof (cases "i = unat (drop_bit HANDLE_REMOTE_SHIFT (hb_slave h))")
      case False
      let ?s = "s\<lparr>sl_queue := Some sq\<rparr>"
      have "owned (set_slave i ?s h1) + blk (sl_queue s) = owned h1 + (blk (sl_queue s) + blk (Some q))"
        using owned_set_slave [OF ok1(4), of ?s] m(3) by (simp add: ok1(3)) (simp add: blk_def)
      then have "owned (set_slave i ?s h1) = owned h" unfolding o1 [symmetric] by (rule sum_cancel)
      then show ?thesis unfolding defs m(1) prod.case h1_def [symmetric]
        using wait False ok1 harbor_ok_set_slave [OF ok1(1), of ?s i] m(2) by simp
    next
      case True
      let ?s = "s\<lparr>sl_queue := None\<rparr>"
      obtain q' where l: "pop_loop (local_body (kv_value n)) [] sq = Some (concat (map (handed (kv_value n)) (hq_items sq)), q')"
          "hq_ok q'" "hq_items q' = []"
        using local_loop [OF m(2)] by blast
      have "owned (set_slave i ?s h1) + blk (sl_queue s) = owned h1"
        using owned_set_slave [OF ok1(4), of ?s] by (simp add: ok1(3))
      then have "owned (set_slave i ?s h1) + image_mset hm_buffer (mset (hq_items sq)) = owned h"
        unfolding o1 [symmetric] m(3) by (simp add: blk_def ac_simps)
      then show ?thesis unfolding defs m(1) prod.case h1_def [symmetric]
        using wait True ok1 harbor_ok_set_slave [OF ok1(1), of ?s i] l by (simp add: given_handed)
    qed
  qed
qed

lemma keeps_update_name:
  assumes ok: "harbor_ok h" and room: "size (owned h) \<le> hq_limit"
  shows "keeps {#} h (update_name h name handle)"
proof -
  obtain h1 p where hp: "find_node h name = (h1, p)" by (cases "find_node h name") auto
  note f = find_node_ok [OF ok hp]
  define h2 where "h2 = set_node p ((node_at h1 p)\<lparr>kv_value := handle\<rparr>) h1"
  have f2: "harbor_ok h2" "node_ok h2 p" "owned h2 = owned h"
    using harbor_ok_set_node [OF f(1,2)] harbor_ok_node [OF f(1,2)] f(2,3) owned_set_node [OF f(2), of "(node_at h1 p)\<lparr>kv_value := handle\<rparr>"]
    by (simp_all add: h2_def)
  show ?thesis
  proof (cases "kv_queue (node_at h2 p)")
    case None
    then show ?thesis using f2 by (simp add: update_name_def hp h2_def [symmetric] keeps_def)
  next
    case (Some q)
    obtain h3 ev where d: "dispatch_name_queue h2 p = Some (h3, ev)" "harbor_ok h3" "node_ok h3 p" "owned h3 + given ev = owned h2"
      using keeps_dispatch_name [OF f2(1,2) Some] room f2(3) by auto
    let ?n = "(node_at h3 p)\<lparr>kv_queue := None\<rparr>"
    have o: "owned (set_node p ?n h3) + blk (kv_queue (node_at h3 p)) = owned h3" using owned_set_node [OF d(3), of ?n] by simp
    have "owned (set_node p ?n h3) + given ev + blk (kv_queue (node_at h3 p)) = owned h"
      unfolding f2(3) [symmetric] d(4) [symmetric] o [symmetric] by (simp only: ac_simps)
    then have "owned (set_node p ?n h3) + given (ev @ frees (q_items (kv_queue (node_at h3 p)))) = owned h + {#}"
      by (simp add: given_frees blk_def add.assoc)
    moreover have "update_name h name handle = Some (set_node p ?n h3, ev @ frees (q_items (kv_queue (node_at h3 p))))"
      unfolding update_name_def hp Let_def prod.case h2_def [symmetric]
      using Some d(1) harbor_ok_node [OF d(2,3)] by simp
    moreover have "harbor_ok (set_node p ?n h3)" using harbor_ok_set_node [OF d(2,3), of ?n] by simp
    ultimately show ?thesis using keepsI by blast
  qed
qed

lemma keeps_command:
  assumes ok: "harbor_ok h" and room: "size (owned h) \<le> hq_limit" and l: "2 \<le> length msg"
  shows "keeps {#} h (harbor_command h msg source)"
proof -
  have c: "cstr (msg @ [0]) k \<noteq> None" if "k \<le> 2" for k using that l by (simp add: cstr_def)
  consider "char0 msg = 78" | "char0 msg = 83 \<or> char0 msg = 65" | "char0 msg \<noteq> 78" "\<not> (char0 msg = 83 \<or> char0 msg = 65)" by blast
  then show ?thesis
  proof cases
    case 1
    then show ?thesis using keeps_update_name [OF ok room] c [of 2] ok by (auto simp: harbor_command_def Let_def keeps_def)
  next
    case 3
    then show ?thesis using c [of 0] ok by (auto simp: harbor_command_def Let_def keeps_def)
  next
    case 2
    define b where "b = takeWhile (\<lambda>c. c \<noteq> 0) (drop 2 msg)"
    obtain fd j where fj: "scan_pair b = (fd, j)" by (cases "scan_pair b") auto
    have e: "char0 msg \<noteq> 78" "\<not> int (length msg) - 2 < 0" using 2 l by auto
    note defs = harbor_command_def Let_def b_def [symmetric] fj prod.case if_not_P [OF e(1)] if_not_P [OF e(2)] if_P [OF 2]
    show ?thesis
    proof (cases "(fd = 0 \<or> j \<le> 0 \<or> j \<ge> int REMOTE_MAX) \<or> sl_fd (slave_at h (nat j)) \<noteq> 0")
      case True
      then show ?thesis unfolding defs using ok by (auto simp: keeps_def)
    next
      case False
      define st where "st = (if char0 msg = 83 then STATUS_HANDSHAKE else STATUS_HEADER)"
      define s where "s = (slave_at h (nat j))\<lparr>sl_fd := fd, sl_status := st\<rparr>"
      define h2 where "h2 = set_slave (nat j) s h"
      have j: "nat j < REMOTE_MAX" using False by (auto simp: nat_less_iff)
      have s: "q_ok (sl_queue s)" "nat j < length (hb_s h)" "sl_fd s \<noteq> 0"
        using harbor_ok_slave [OF ok j] False by (simp_all add: s_def)
      have o2: "owned h2 = owned h" "harbor_ok h2" "slave_at h2 (nat j) = s" "nat j < length (hb_s h2)"
        using owned_set_slave [OF s(2), of s] harbor_ok_set_slave [OF ok s(1)] s(2) by (simp_all add: h2_def s_def)
      have h2: "set_slave (nat j) ((slave_at (set_slave (nat j) ((slave_at h (nat j))\<lparr>sl_fd := fd\<rparr>) h) (nat j))\<lparr>sl_status := st\<rparr>)
          (set_slave (nat j) ((slave_at h (nat j))\<lparr>sl_fd := fd\<rparr>) h) = h2"
        using s(2) by (simp add: h2_def s_def)
      have "owned (set_slave (nat j) (s\<lparr>sl_queue := None\<rparr>) h2) + blk (sl_queue s) = owned h"
        using owned_set_slave [OF o2(4), of "s\<lparr>sl_queue := None\<rparr>"] o2(1,3) by simp
      moreover have "dispatch_slave_queue h2 (nat j) = Some (set_slave (nat j) (s\<lparr>sl_queue := None\<rparr>) h2,
          concat (map (flushed fd) (q_items (sl_queue s))))"
        using flush_queue [of h2 "nat j"] s(1,3) o2(3) by (simp add: s_def)
      moreover have "harbor_ok (set_slave (nat j) (s\<lparr>sl_queue := None\<rparr>) h2)" using harbor_ok_set_slave [OF o2(2)] by simp
      ultimately show ?thesis unfolding defs st_def [symmetric] h2 using False o2(1,2)
        by (auto simp: keeps_def given_flushed blk_def handshake_def)
    qed
  qed
qed

section \<open>What goes wrong\<close>

lemma strncmp_refl: "n \<le> length name \<Longrightarrow> strncmp_eq (take n name) name n"
  by (simp add: strncmp_eq_def)

lemma find_node_new:
  assumes ok: "harbor_ok h" and new: "hash_search (hb_map h) name = None" and l: "GLOBALNAME_LENGTH \<le> length name"
  defines "b \<equiv> name_bucket (name_hash name)"
  defines "h1 \<equiv> fst (find_node h name)"
  shows "find_node h name = (h1, (b, 0))" "harbor_ok h1" "node_ok h1 (b, 0)"
    "node_at h1 (b, 0) = \<lparr>kv_key = take GLOBALNAME_LENGTH name, kv_hash = name_hash name, kv_value = 0, kv_queue = None\<rparr>"
    "hb_s h1 = hb_s h" "hb_slave h1 = hb_slave h" "hb_id h1 = hb_id h"
    "kv_key n = take GLOBALNAME_LENGTH name \<Longrightarrow> kv_hash n = name_hash name \<Longrightarrow>
       find_node (set_node (b, 0) n h1) name = (set_node (b, 0) n h1, (b, 0))"
proof -
  have bl: "b < length (hb_map h)" using ok name_bucket_less by (simp add: harbor_ok_def b_def)
  have h1: "h1 = h\<lparr>hb_map := (hb_map h)[b := \<lparr>kv_key = take GLOBALNAME_LENGTH name, kv_hash = name_hash name, kv_value = 0,
      kv_queue = None\<rparr> # hb_map h ! b]\<rparr>"
    unfolding h1_def using new by (simp add: find_node_def hash_insert_def Let_def b_def)
  show f: "find_node h name = (h1, (b, 0))"
    unfolding h1_def using new by (simp add: find_node_def hash_insert_def Let_def b_def)
  show "harbor_ok h1" "node_ok h1 (b, 0)" using find_node_ok [OF ok f] by simp_all
  show "node_at h1 (b, 0) = \<lparr>kv_key = take GLOBALNAME_LENGTH name, kv_hash = name_hash name, kv_value = 0, kv_queue = None\<rparr>"
    "hb_s h1 = hb_s h" "hb_slave h1 = hb_slave h" "hb_id h1 = hb_id h"
    using bl by (simp_all add: h1 node_at_def)
  show "find_node (set_node (b, 0) n h1) name = (set_node (b, 0) n h1, (b, 0))"
    if "kv_key n = take GLOBALNAME_LENGTH name" "kv_hash n = name_hash name"
    using bl that strncmp_refl [OF l]
    by (simp add: find_node_def hash_search_def Let_def b_def [symmetric] h1 set_node_def)
qed

text \<open>C38: A message for an unknown name waits. When the name becomes known for a service of a node that is not connected,
  the message moves to the queue of that node as it is: the low 24 bits of its destination stay zero, and the handle is lost.\<close>

theorem harbor_name_loses_handle:
  assumes h: "harbor_ok h" and nm: "nm \<noteq> []" "length nm < GLOBALNAME_LENGTH"
    and new: "hash_search (hb_map h) (nm @ replicate (GLOBALNAME_LENGTH - length nm) 0) = None"
    and c: "unat (drop_bit 24 handle) = c" "c \<noteq> unat (drop_bit 24 (hb_slave h))"
      "sl_fd (slave_at h c) = 0" "sl_status (slave_at h c) = STATUS_WAIT" "sl_queue (slave_at h c) = None"
  shows "\<exists>h' ev. harbor_run alive h
      [In_remote (nm @ replicate (GLOBALNAME_LENGTH - length nm) 0) 0 msg type session src, In_harbor (78 # 32 # nm) handle] = Some (h', ev) \<and>
    q_items (sl_queue (slave_at h' c)) =
      [\<lparr>hm_header = \<lparr>hd_source = src, hd_destination = push_bit 24 (word_of_int type), hd_session = word_of_int session\<rparr>,
        hm_buffer = msg\<rparr>]"
proof -
  define name where "name = nm @ replicate (GLOBALNAME_LENGTH - length nm) 0"
  have l: "GLOBALNAME_LENGTH \<le> length name" using nm by (simp add: name_def)
  define b where "b = name_bucket (name_hash name)"
  define h1 where "h1 = fst (find_node h name)"
  note f = find_node_new [OF h new [folded name_def] l, folded b_def h1_def]
  define n where "n = \<lparr>kv_key = take GLOBALNAME_LENGTH name, kv_hash = name_hash name, kv_value = 0, kv_queue = None\<rparr>"
  define m where "m = \<lparr>hm_header = \<lparr>hd_source = src, hd_destination = push_bit 24 (word_of_int type), hd_session = word_of_int session\<rparr>,
    hm_buffer = msg\<rparr>"
  obtain q where q: "push_queue_msg new_harbor_queue m = Some q" "hq_ok q" "hq_items q = [m]"
    using push_queue_msg_items [of new_harbor_queue m] new_harbor_queue_ok by (auto simp: hq_limit_def)
  define n2 where "n2 = n\<lparr>kv_queue := Some q\<rparr>"
  define h2 where "h2 = set_node (b, 0) n2 h1"
  have r1: "remote_send_name h src name type session msg =
      Some (h2, [Hb_send 0 (hb_slave h) PTYPE_TEXT 0 (str ''Q '' @ takeWhile (\<lambda>c. c \<noteq> 0) (take GLOBALNAME_LENGTH name))], True)"
    using q(1) by (simp add: remote_send_name_def f(1,4) n_def [symmetric] n2_def h2_def push_queue_def m_def HANDLE_REMOTE_SHIFT_def
        get_harbor_queue_def Let_def) (simp add: n_def)
  have f2: "find_node h2 name = (h2, (b, 0))" unfolding h2_def by (rule f(8)) (simp_all add: n2_def n_def)
  define n3 where "n3 = n2\<lparr>kv_value := handle\<rparr>"
  define h3 where "h3 = set_node (b, 0) n3 h2"
  have h3: "node_ok h3 (b, 0)" "node_at h3 (b, 0) = n3" "node_at h2 (b, 0) = n2" "slave_at h3 c = slave_at h c" "hb_slave h3 = hb_slave h"
    using f(3,5,6) by (simp_all add: h3_def h2_def slave_at_def)
  have cl: "c < length (hb_s h)" using c(1) node_index [of handle] h by (simp add: harbor_ok_def)
  let ?s = "(slave_at h c)\<lparr>sl_queue := Some q\<rparr>" and ?n = "n3\<lparr>kv_queue := None\<rparr>"
  have d: "dispatch_name_queue h3 (b, 0) = Some (set_slave c ?s (set_node (b, 0) ?n h3), [])"
    using c by (simp add: dispatch_name_queue_def h3 n3_def n2_def HANDLE_REMOTE_SHIFT_def)
  have u: "update_name h2 name handle = Some (set_slave c ?s (set_node (b, 0) ?n h3), [])"
  proof -
    have k: "(kv_queue (node_at h3 (b, 0)) = None) = False" by (simp add: h3(2) n3_def n2_def)
    let ?h = "set_slave c ?s (set_node (b, 0) ?n h3)"
    have "node_at ?h (b, 0) = ?n" using h3(1) by simp
    moreover have "set_node (b, 0) ?n ?h = ?h" using h3(1) by (simp add: set_node_def set_slave_def node_ok_def)
    ultimately show ?thesis
      unfolding update_name_def f2 Let_def prod.case h3(3) n3_def [symmetric] h3_def [symmetric] k if_False d by simp
  qed
  have e: "harbor_command h2 (78 # 32 # nm) handle = update_name h2 name handle"
    using nm by (simp add: harbor_command_def char0_def name_def Let_def)
  have "slave_at (set_slave c ?s (set_node (b, 0) ?n h3)) c = ?s"
    using cl f(5) by (simp add: h3_def h2_def)
  then show ?thesis
    using r1 u e q(3) unfolding name_def [symmetric] m_def [symmetric] by (simp add: harbor_mainloop_def)
qed

text \<open>A packet without room for a cookie: its header is read in front of the block.\<close>

lemma harbor_short_packet:
  assumes "i < length (hb_s h)" "rx_ok (slave_at h i)" "sl_status (slave_at h i) = STATUS_CONTENT" "sl_length (slave_at h i) < 12"
    "length buffer = sl_length (slave_at h i) - sl_read (slave_at h i)"
  shows "data_loop alive i fd h buffer = None"
proof -
  have "on_content alive i h buffer = None"
    using assms by (simp add: on_content_def Let_def forward_local_messsage_def peek_def HEADER_COOKIE_LENGTH_def rx_ok_def split: Option.bind_splits)
  then show ?thesis using assms(3) by (subst data_loop.simps) (simp add: on_data_def)
qed

text \<open>
  A connection that is closed for a message of 16 MB or more, whose length came in two pieces, leaves \<open>read\<close> as it was. The next
  connection of the same node starts with these bytes in its header.
\<close>

lemma harbor_stale_header:
  assumes "i < length (hb_s h)" "sl_status (slave_at h i) = STATUS_HEADER" "sl_read (slave_at h i) = 2" "length (sl_size (slave_at h i)) = 4"
    "sl_size (slave_at h i) ! 0 \<noteq> 0" "length buffer = 2" "q_ok (sl_queue (slave_at h i))"
  shows "\<exists>h' ev. data_loop alive i fd h buffer = Some (h', ev) \<and> sl_fd (slave_at h' i) = 0 \<and> sl_read (slave_at h' i) = 2"
proof -
  define s where "s = slave_at h i"
  obtain x y z w where s: "sl_size s = [x, y, z, w]" "x \<noteq> 0"
    using assms(4,5) by (auto simp: s_def length_Suc_conv numeral_eq_Suc)
  obtain u v where b: "buffer = [u, v]" using assms(6) by (auto simp: length_Suc_conv numeral_eq_Suc)
  have "on_header alive i h buffer = map_option (\<lambda>(h, ev). (h, Hb_log (L_too_long (int i)) # ev, None))
      (close_harbor (set_slave i (s\<lparr>sl_size := [x, y, u, v]\<rparr>) h) i)"
    using assms(3) s(2) by (simp add: on_header_def s_def [symmetric] peek_def blit_def s(1) b Let_def)
  moreover have "close_harbor (set_slave i (s\<lparr>sl_size := [x, y, u, v]\<rparr>) h) i \<noteq> None"
    using assms(1,7) by (simp add: close_harbor_def s_def Let_def)
  ultimately show ?thesis using assms(1-3,7)
    by (subst data_loop.simps) (auto simp: on_data_def close_harbor_def s_def Let_def)
qed

section \<open>Examples\<close>

definition demo_harbor :: "nat \<Rightarrow> harbor" where
  "demo_harbor k = harbor_create\<lparr>hb_id := int k, hb_slave := push_bit 24 (of_nat k) OR 1\<rparr>"

definition demo_connected :: "int \<Rightarrow> slave" where
  "demo_connected fd = zero_slave\<lparr>sl_fd := fd, sl_status := STATUS_HEADER\<rparr>"

definition demo_out :: outmsg where
  "demo_out = \<lparr>om_source = 0x1000005, om_dest = 0x2000003, om_type = 10, om_session = 7, om_data = [65, 66]\<rparr>"

lemma demo_harbor_simps [simp]:
  "hb_id (demo_harbor k) = int k" "length (hb_s (demo_harbor k)) = REMOTE_MAX" "length (hb_map (demo_harbor k)) = HASH_SIZE"
  "i < REMOTE_MAX \<Longrightarrow> slave_at (demo_harbor k) i = zero_slave"
  "b < HASH_SIZE \<Longrightarrow> hb_map (demo_harbor k) ! b = []"
  by (simp_all add: demo_harbor_def harbor_create_def slave_at_def hash_new_def)

lemma sum_list_replicate_empty [simp]: "sum_list (replicate n {#}) = {#}"
  by (induction n) simp_all

lemma demo_harbor_ok: "harbor_ok (demo_harbor k)" "owned (demo_harbor k) = {#}"
  by (simp_all add: harbor_ok_def demo_harbor_def harbor_create_def zero_slave_def hash_new_def owned_def)

lemma demo_out_ok: "out_ok 2 demo_out"
  by (simp add: out_ok_def demo_out_def is_i32_def)

theorem harbor_transit_witness:
  "\<exists>ev. harbor_run (\<lambda>_. True) (set_slave 2 (demo_connected 7) (demo_harbor 1)) (map send_input [demo_out, demo_out]) =
      Some (set_slave 2 (demo_connected 7) (demo_harbor 1), ev) \<and>
    (\<forall>cs. concat cs = socket_out 7 ev \<longrightarrow>
      (\<exists>h' ev'. harbor_run (\<lambda>_. True) (set_slave 1 (demo_connected 9) (demo_harbor 2)) (map (data_input 9) cs) = Some (h', ev') \<and>
        visible ev' = map arrival [demo_out, demo_out]))"
proof (rule harbor_transit [of _ 2 7 _ _ 1])
  show "harbor_id (set_slave 1 (demo_connected 9) (demo_harbor 2)) 9 = 1"
    by (rule harbor_id_unique) (simp_all add: REMOTE_MAX_def demo_connected_def set_slave_def slave_at_def demo_harbor_def
        harbor_create_def zero_slave_def)
qed (use demo_out_ok in \<open>simp_all add: REMOTE_MAX_def demo_connected_def zero_slave_def rx_ok_def rx_pending_def\<close>)

theorem harbor_connects_witness:
  "\<exists>h' ev. harbor_run (\<lambda>_. True) (demo_harbor 1)
      (map send_input [demo_out] @ In_harbor (connect_text 83 7 2) 5 # map send_input [demo_out] @
       data_input (int 7) [of_nat 2] # map send_input []) = Some (h', ev) \<and>
    socket_out (int 7) ev = word_of_int (hb_id (demo_harbor 1)) # concat (map wire ([demo_out] @ [demo_out] @ [])) \<and>
    sl_status (slave_at h' 2) = STATUS_HEADER \<and> sl_queue (slave_at h' 2) = None"
  by (rule harbor_connects) (use demo_out_ok in \<open>simp_all add: REMOTE_MAX_def zero_slave_def hq_limit_def\<close>)

theorem harbor_name_loses_handle_witness:
  "\<exists>h' ev. harbor_run (\<lambda>_. True) (demo_harbor 1)
      [In_remote ([68, 66] @ replicate (GLOBALNAME_LENGTH - length [68, 66 :: u8]) 0) 0 [1] 10 7 0x1000005,
       In_harbor (78 # 32 # [68, 66]) 0x2000003] = Some (h', ev) \<and>
    q_items (sl_queue (slave_at h' 2)) =
      [\<lparr>hm_header = \<lparr>hd_source = 0x1000005, hd_destination = push_bit 24 (word_of_int 10), hd_session = word_of_int 7\<rparr>,
        hm_buffer = [1]\<rparr>]"
proof (rule harbor_name_loses_handle)
  have "hb_map (demo_harbor 1) ! name_bucket h = []" for h using name_bucket_less by simp
  then show "hash_search (hb_map (demo_harbor 1)) ([68, 66] @ replicate (GLOBALNAME_LENGTH - length [68, 66 :: u8]) 0) = None"
    by (simp add: hash_search_def Let_def)
  show "unat (drop_bit 24 (0x2000003 :: u32)) = 2" by code_simp
  show "2 \<noteq> unat (drop_bit 24 (hb_slave (demo_harbor 1)))" by code_simp
qed (simp_all add: demo_harbor_ok GLOBALNAME_LENGTH_def REMOTE_MAX_def zero_slave_def)

end
