(* ===== verification/Encode.thy ===== *)
theory Encode
  imports Bytes CString
begin

text \<open>
  The text encodings of \<open>lualib-src/lua-crypt.c\<close>: \<open>hexencode\<close> and \<open>hexdecode\<close>, \<open>base64encode\<close> and
  \<open>base64decode\<close>, and \<open>xor_str\<close>. The output goes to a buffer of the size that the code computes; writing outside
  it is \<open>None\<close>. An index that runs over the input, byte by byte, is recursion over the input. Inputs are
  shorter than 2 GB, so that these indices do not overflow an \<open>int\<close>.

  Decoding returns what was encoded. \<open>base64decode\<close> takes any input: it skips characters outside the alphabet and
  accepts a text whose final \<open>=\<close> are missing, and it writes nothing outside its buffer.
\<close>

unbundle bit_operations_syntax

section \<open>Output buffers\<close>

definition SMALL_CHUNK :: int where "SMALL_CHUNK = 256"

text \<open>The number of bytes in the buffer: the array \<open>tmp\<close>, or a block of \<open>need\<close> bytes above \<open>limit\<close>.\<close>

definition capacity :: "int \<Rightarrow> bool \<Rightarrow> int" where
  "capacity need large = (if large then need else SMALL_CHUNK)"

text \<open>What has been written is \<open>out\<close>; \<open>bs\<close> comes after it, if the buffer has room for it.\<close>

definition emit :: "int \<Rightarrow> bytes \<Rightarrow> bytes \<Rightarrow> bytes option" where
  "emit cap out bs = (if int (length out + length bs) \<le> cap then Some (out @ bs) else None)"

lemma emit_Some [simp]: "int (length out + length bs) \<le> cap \<Longrightarrow> emit cap out bs = Some (out @ bs)"
  by (simp add: emit_def)

datatype encode_error =
    Invalid_hex_text_size int
  | Invalid_hex_text
  | Invalid_base64_text
  | Empty_xor

section \<open>Hexadecimal\<close>

definition hex_digits :: bytes where
  "hex_digits = str ''0123456789abcdef''"

fun tohex_loop :: "int \<Rightarrow> bytes \<Rightarrow> bytes \<Rightarrow> bytes option" where
  "tohex_loop cap [] out = Some out"
| "tohex_loop cap (b # bs) out =
     Option.bind (emit cap out [hex_digits ! unat (drop_bit 4 b), hex_digits ! unat (b AND 0xf)]) (tohex_loop cap bs)"

definition ltohex :: "bytes \<Rightarrow> (encode_error, bytes) run" where
  "ltohex text =
     (let sz = int (length text)
      in lift (tohex_loop (capacity (sz * 2) (sz > SMALL_CHUNK div 2)) text []))"

text \<open>The macro \<open>HEX\<close>: the character is a \<open>char\<close>, which is signed, and the result is stored in a \<open>uint8_t\<close>.\<close>

definition HEX :: "u8 \<Rightarrow> u8" where
  "HEX c = (if 48 \<le> sint c \<and> sint c \<le> 57 then c - 48 else c - 97 + 10)"

fun fromhex_loop :: "int \<Rightarrow> bytes \<Rightarrow> bytes \<Rightarrow> (encode_error, bytes) run" where
  "fromhex_loop cap (x # y # text) out =
     (let hi = HEX x; low = HEX y
      in if hi > 16 \<or> low > 16 then err Invalid_hex_text
         else run_bind (lift (emit cap out [push_bit 4 hi OR low])) (fromhex_loop cap text))"
| "fromhex_loop cap _ out = ret out"

definition lfromhex :: "bytes \<Rightarrow> (encode_error, bytes) run" where
  "lfromhex text =
     (let sz = int (length text)
      in if sz mod 2 = 1 then err (Invalid_hex_text_size (to_i32 sz))
         else fromhex_loop (capacity (sz div 2) (sz > SMALL_CHUNK * 2)) text [])"

section \<open>Base 64\<close>

definition encoding :: bytes where
  "encoding = str ''ABCDEFGHIJKLMNOPQRSTUVWXYZabcdefghijklmnopqrstuvwxyz0123456789+/''"

abbreviation enc64 :: "u32 \<Rightarrow> u8" where
  "enc64 v \<equiv> encoding ! unat v"

fun b64encode_loop :: "int \<Rightarrow> bytes \<Rightarrow> bytes \<Rightarrow> bytes option" where
  "b64encode_loop cap (a # b # c # text) out =
     (let v = push_bit 16 (ucast a) OR push_bit 8 (ucast b) OR ucast c
      in Option.bind (emit cap out
           [enc64 (drop_bit 18 v), enc64 (drop_bit 12 v AND 0x3f), enc64 (drop_bit 6 v AND 0x3f), enc64 (v AND 0x3f)])
         (b64encode_loop cap text))"
| "b64encode_loop cap [a, b] out =
     (let v = push_bit 8 (ucast a) OR ucast b
      in emit cap out [enc64 (drop_bit 10 v), enc64 (drop_bit 4 v AND 0x3f), enc64 (push_bit 2 (v AND 0xf)), 61])"
| "b64encode_loop cap [a] out =
     (let v = ucast a
      in emit cap out [enc64 (drop_bit 2 v), enc64 (push_bit 4 (v AND 3)), 61, 61])"
| "b64encode_loop cap [] out = Some out"

definition lb64encode :: "bytes \<Rightarrow> (encode_error, bytes) run" where
  "lb64encode text =
     (let encode_sz = (int (length text) + 2) div 3 * 4
      in run_bind (lift (b64encode_loop (capacity encode_sz (encode_sz > SMALL_CHUNK)) text [])) (\<lambda>buffer.
         lift (peek buffer 0 encode_sz)))"

definition decoding :: "int list" where
  "decoding = [62, -1, -1, -1, 63, 52, 53, 54, 55, 56, 57, 58, 59, 60, 61, -1, -1, -1, -2, -1, -1, -1,
     0, 1, 2, 3, 4, 5, 6, 7, 8, 9, 10, 11, 12, 13, 14, 15, 16, 17, 18, 19, 20, 21, 22, 23, 24, 25,
     -1, -1, -1, -1, -1, -1,
     26, 27, 28, 29, 30, 31, 32, 33, 34, 35, 36, 37, 38, 39, 40, 41, 42, 43, 44, 45, 46, 47, 48, 49, 50, 51]"

definition b64index :: "u8 \<Rightarrow> int" where
  "b64index c =
     (if c < 43 then -1
      else let c = c - 43 in if int (unat c) \<ge> int (length decoding) then -1 else decoding ! unat c)"

text \<open>The inner loop: the next \<open>n\<close> values, and the text that is left. At its end, \<open>=\<close> is read.\<close>

fun b64_group :: "nat \<Rightarrow> bytes \<Rightarrow> int list \<times> bytes" where
  "b64_group 0 text = ([], text)"
| "b64_group (Suc n) [] = (let (c, text) = b64_group n [] in (-2 # c, text))"
| "b64_group (Suc n) (x # text) =
     (if b64index x = -1 then b64_group (Suc n) text
      else let (c, text) = b64_group n text in (b64index x # c, text))"

definition shifted :: "nat \<Rightarrow> int \<Rightarrow> u32" where
  "shifted n c = push_bit n (word_of_int c)"

text \<open>The bytes of one group of four values.\<close>

definition b64_bytes :: "int list \<Rightarrow> (encode_error, bytes) run" where
  "b64_bytes c =
     (let padding = length (List.filter (\<lambda>x. x = -2) c)
      in if padding = 0 then
           (let v = shifted 18 (c ! 0) OR shifted 12 (c ! 1) OR shifted 6 (c ! 2) OR shifted 0 (c ! 3)
            in ret [ucast (drop_bit 16 v), ucast (drop_bit 8 v AND 0xff), ucast (v AND 0xff)])
         else if padding = 1 then
           (if c ! 3 \<noteq> -2 \<or> (c ! 2) mod 4 \<noteq> 0 then err Invalid_base64_text
            else let v = shifted 10 (c ! 0) OR shifted 4 (c ! 1) OR shifted 0 (c ! 2 div 4)
                 in ret [ucast (drop_bit 8 v), ucast (v AND 0xff)])
         else if padding = 2 then
           (if c ! 3 \<noteq> -2 \<or> c ! 2 \<noteq> -2 \<or> (c ! 1) mod 16 \<noteq> 0 then err Invalid_base64_text
            else let v = shifted 2 (c ! 0) OR shifted 0 (c ! 1 div 16) in ret [ucast v])
         else err Invalid_base64_text)"

lemma b64_group_shorter: "length (snd (b64_group n text)) \<le> length text"
  by (induction n "text" rule: b64_group.induct) (auto split: prod.splits)

lemma b64_group_consumes: "text \<noteq> [] \<Longrightarrow> 0 < n \<Longrightarrow> length (snd (b64_group n text)) < length text"
proof (induction n "text" rule: b64_group.induct)
  case (3 n x txs)
  then show ?case using b64_group_shorter [of n txs] b64_group_shorter [of "Suc n" txs]
    by (auto split: prod.splits)
qed auto

function b64decode_loop :: "int \<Rightarrow> bytes \<Rightarrow> bytes \<Rightarrow> (encode_error, bytes) run" where
  "b64decode_loop cap text out =
     (if text = [] then ret out
      else run_bind (b64_bytes (fst (b64_group 4 text))) (\<lambda>bs.
           run_bind (lift (emit cap out bs)) (\<lambda>out.
           b64decode_loop cap (snd (b64_group 4 text)) out)))"
  by auto
termination
  by (relation "measure (\<lambda>(cap, text, out). length text)") (auto simp: b64_group_consumes)

definition lb64decode :: "bytes \<Rightarrow> (encode_error, bytes) run" where
  "lb64decode text =
     (let decode_sz = (int (length text) + 3) div 4 * 3
      in b64decode_loop (capacity decode_sz (decode_sz > SMALL_CHUNK)) text [])"

section \<open>Exclusive or\<close>

definition lxor_str :: "bytes \<Rightarrow> bytes \<Rightarrow> (encode_error, bytes) run" where
  "lxor_str s1 s2 =
     (if length s2 = 0 then err Empty_xor
      else ret (map (\<lambda>i. s1 ! i XOR s2 ! (i mod length s2)) [0..<length s1]))"


section \<open>Hexadecimal: round trip and accepted texts\<close>

lemma hex_digit_value:
  assumes "n < 16"
  shows "HEX (hex_digits ! n) = of_nat n"
proof -
  have "list_all (\<lambda>n. HEX (hex_digits ! n) = of_nat n) [0..<16]" by code_simp
  then show ?thesis using assms by (simp add: list_all_iff)
qed

lemma nibble_less: "unat (drop_bit 4 b) < 16" "unat (b AND 0xf) < 16" for b :: u8
proof -
  show "unat (drop_bit 4 b) < 16" using unsigned_less [where ?'a = nat and w = b] by (simp add: unat_drop_bit_div)
  have "b AND 0xf = take_bit 4 b" by (simp add: take_bit_eq_mask mask_eq_exp_minus_1)
  then show "unat (b AND 0xf) < 16" 
    using take_bit_nat_less_exp [of 4 "unat b"] by (simp only: unsigned_take_bit_eq) simp
qed

lemma nibbles_join: "(push_bit 4 (drop_bit 4 b) OR (b AND 0xf)) = b" for b :: u8
proof -
  have "b AND 0xf = take_bit 4 b" by (simp add: take_bit_eq_mask mask_eq_exp_minus_1)
  then show ?thesis by (intro bit_word_eqI) (auto simp: bit_simps)
qed

lemma tohex_loop_spec:
  "int (length out + 2 * length bs) \<le> cap \<Longrightarrow>
     tohex_loop cap bs out = Some (out @ concat (map (\<lambda>b. [hex_digits ! unat (drop_bit 4 b), hex_digits ! unat (b AND 0xf)]) bs))"
  by (induction cap bs out rule: tohex_loop.induct) auto

lemma fromhex_loop_tohex:
  "int (length out + length bs) \<le> cap \<Longrightarrow>
     fromhex_loop cap (concat (map (\<lambda>b. [hex_digits ! unat (drop_bit 4 b), hex_digits ! unat (b AND 0xf)]) bs)) out = ret (out @ bs)"
proof (induction bs arbitrary: out)
  case (Cons b bs)
  have v: "HEX (hex_digits ! unat (drop_bit 4 b)) = drop_bit 4 b" "HEX (hex_digits ! unat (b AND 0xf)) = b AND 0xf"
    using nibble_less [of b] by (simp_all add: hex_digit_value)
  have "drop_bit 4 b \<le> 16" "b AND 0xf \<le> 16" using nibble_less [of b] by (simp_all add: word_le_nat_alt)
  then have "\<not> (16 < drop_bit 4 b)" "\<not> (16 < (b AND 0xf))" by auto
  moreover have "emit cap out [b] = Some (out @ [b])" using Cons.prems by simp
  ultimately show ?case using Cons by (simp add: v nibbles_join lift_def Let_def)
qed simp

theorem hex_roundtrip:
  "\<exists>h. ltohex bs = ret h \<and> length h = 2 * length bs \<and> lfromhex h = ret bs"
proof -
  define h where "h = concat (map (\<lambda>b. [hex_digits ! unat (drop_bit 4 b), hex_digits ! unat (b AND 0xf)]) bs)"
  have l: "length h = 2 * length bs" unfolding h_def by (induction bs) auto
  have "ltohex bs = ret h"
    using tohex_loop_spec [of "[]" bs "capacity (int (length bs) * 2) (SMALL_CHUNK div 2 < int (length bs))"]
    by (simp add: ltohex_def Let_def lift_def ret_def h_def capacity_def SMALL_CHUNK_def)
  moreover have "lfromhex h = ret bs"
    using fromhex_loop_tohex [of "[]" bs "capacity (int (length h) div 2) (SMALL_CHUNK * 2 < int (length h))"] l
    by (simp add: lfromhex_def Let_def h_def [symmetric] capacity_def SMALL_CHUNK_def)
  ultimately show ?thesis using l by blast
qed

text \<open>The characters that \<open>hexdecode\<close> takes for digits: \<open>0\<close> to \<open>9\<close>, and everything from \<open>W\<close> to \<open>g\<close>.\<close>

definition taken_as_hex :: "u8 \<Rightarrow> bool" where
  "taken_as_hex c \<longleftrightarrow> (48 \<le> c \<and> c \<le> 57) \<or> (87 \<le> c \<and> c \<le> 103)"

lemma mod_256: "0 \<le> x \<Longrightarrow> x < 256 \<Longrightarrow> x mod 256 = x" "x < 0 \<Longrightarrow> -256 \<le> x \<Longrightarrow> x mod 256 = x + 256"
   "256 \<le> x \<Longrightarrow> x < 512 \<Longrightarrow> x mod 256 = x - 256" for x :: int
  using mod_pos_pos_trivial [of "x + 256" 256] mod_pos_pos_trivial [of "x - 256" 256] by simp_all

lemma sint_u8: "sint (c::u8) = (if uint c < 128 then uint c else uint c - 256)"
proof -
  have "sint c = (uint c + 128) mod 256 - 128" unfolding sint_uint by (simp add: signed_take_bit_eq_take_bit_shift take_bit_eq_mod)
  moreover have "0 \<le> uint c" "uint c < 256" using uint_lt2p [of c] by simp_all
  ultimately show ?thesis using mod_256 [of "uint c + 128"] by auto
qed

lemma HEX_accepts: "HEX c \<le> 16 \<longleftrightarrow> taken_as_hex c"
proof -
  have u: "0 \<le> uint c" "uint c < 256" using uint_lt2p [of c] by simp_all
  have a: "uint (c - 48) = (uint c - 48) mod 256" by (simp add: uint_word_ariths)
  have b: "uint (c - 87) = (uint c - 87) mod 256" by (simp add: uint_word_ariths)
  have e: "c - 97 + 10 = c - 87" by simp
  have d: "48 \<le> sint c \<and> sint c \<le> 57 \<longleftrightarrow> 48 \<le> uint c \<and> uint c \<le> 57" using u by (auto simp: sint_u8)
  show ?thesis
  proof (cases "48 \<le> uint c \<and> uint c \<le> 57")
    case True
    then show ?thesis by (simp add: HEX_def taken_as_hex_def d word_le_def a mod_256)
  next
    case False
    have r: "HEX c \<le> 16 \<longleftrightarrow> (uint c - 87) mod 256 \<le> 16"
      unfolding HEX_def d if_not_P [OF False] e word_le_def b by simp
    have t: "taken_as_hex c \<longleftrightarrow> 87 \<le> uint c \<and> uint c \<le> 103" using False by (auto simp: taken_as_hex_def word_le_def)
    show ?thesis
    proof (cases "uint c < 87")
      case True
      then have "(uint c - 87) mod 256 = uint c + 169" using u mod_256 [of "uint c - 87"] by simp
      then have "\<not> (uint c - 87) mod 256 \<le> 16" using u by linarith
      then show ?thesis using r t True by linarith
    next
      case False
      then have "(uint c - 87) mod 256 = uint c - 87" using u mod_256 [of "uint c - 87"] by simp
      then show ?thesis using r t False by auto
    qed
  qed
qed

lemma fromhex_loop_accepts:
  "even (length txs) \<Longrightarrow> int (length out + length txs div 2) \<le> cap \<Longrightarrow>
     (if list_all taken_as_hex txs then \<exists>bs. fromhex_loop cap txs out = ret bs
      else fromhex_loop cap txs out = err Invalid_hex_text)"
proof (induction cap txs out rule: fromhex_loop.induct)
  case (1 cap x y txs out)
  show ?case
  proof (cases "HEX x > 16 \<or> HEX y > 16")
    case True
    then show ?thesis using HEX_accepts [of x] HEX_accepts [of y] by auto
  next
    case False
    let ?b = "push_bit 4 (HEX x) OR HEX y"
    have "taken_as_hex x \<and> taken_as_hex y" using False HEX_accepts [of x] HEX_accepts [of y] by (simp add: not_less)
    moreover have "emit cap out [?b] = Some (out @ [?b])" using 1(3) by simp
    moreover have "if list_all taken_as_hex txs then \<exists>bs. fromhex_loop cap txs (out @ [?b]) = ret bs
        else fromhex_loop cap txs (out @ [?b]) = err Invalid_hex_text"
      using 1 False by simp
    ultimately show ?thesis using False by (simp add: lift_def Let_def)
  qed
qed auto

theorem hex_accepts:
  "(\<exists>bs. lfromhex txs = ret bs) \<longleftrightarrow> even (length txs) \<and> list_all taken_as_hex txs"
proof (cases "even (length txs)")
  case False
  then have "int (length txs) mod 2 = 1" by presburger
  then show ?thesis using False by (simp add: lfromhex_def Let_def)
next
  case True
  then have "int (length txs) mod 2 \<noteq> 1" by presburger
  moreover have "if list_all taken_as_hex txs
    then \<exists>bs. fromhex_loop (capacity (int (length txs) div 2) (SMALL_CHUNK * 2 < int (length txs))) txs [] = ret bs
    else fromhex_loop (capacity (int (length txs) div 2) (SMALL_CHUNK * 2 < int (length txs))) txs [] = err Invalid_hex_text"
    by (rule fromhex_loop_accepts [OF True]) (auto simp: capacity_def SMALL_CHUNK_def)
  ultimately show ?thesis using True by (auto simp: lfromhex_def Let_def split: if_splits)
qed

section \<open>Base 64: round trip\<close>

text \<open>The text that encoding gives, group by group.\<close>

fun b64_text :: "bytes \<Rightarrow> bytes" where
  "b64_text (a # b # c # txs) =
     (let v = push_bit 16 (ucast a) OR push_bit 8 (ucast b) OR ucast c :: u32
      in [enc64 (drop_bit 18 v), enc64 (drop_bit 12 v AND 0x3f), enc64 (drop_bit 6 v AND 0x3f), enc64 (v AND 0x3f)] @ b64_text txs)"
| "b64_text [a, b] =
     (let v = push_bit 8 (ucast a) OR ucast b :: u32
      in [enc64 (drop_bit 10 v), enc64 (drop_bit 4 v AND 0x3f), enc64 (push_bit 2 (v AND 0xf)), 61])"
| "b64_text [a] = (let v = ucast a :: u32 in [enc64 (drop_bit 2 v), enc64 (push_bit 4 (v AND 3)), 61, 61])"
| "b64_text [] = []"

lemma triples: "(5 + x) div 3 = (x + 2) div 3 + (1 :: int)"
  by presburger

lemma quads: "(7 + x) div 4 = (x + 3) div 4 + (1 :: int)"
  by presburger

lemma b64_text_length: "int (length (b64_text bs)) = (int (length bs) + 2) div 3 * 4"
  by (induction bs rule: b64_text.induct) (simp_all add: Let_def triples)

lemma b64encode_loop_spec:
  "int (length out + length (b64_text bs)) \<le> cap \<Longrightarrow> b64encode_loop cap bs out = Some (out @ b64_text bs)"
  by (induction cap bs out rule: b64encode_loop.induct) (simp_all add: Let_def)

lemma b64index_encoding:
  assumes "n < 64"
  shows "b64index (encoding ! n) = int n"
proof -
  have "list_all (\<lambda>n. b64index (encoding ! n) = int n) [0..<64]" by code_simp
  then show ?thesis using assms by (simp add: list_all_iff)
qed

lemma b64index_pad: "b64index 61 = -2"
  by code_simp

lemma masks: "(0x3f :: u32) = mask 6" "(0xf :: u32) = mask 4" "(3 :: u32) = mask 2" "(0xff :: u32) = mask 8"
  by (simp_all add: mask_eq_exp_minus_1)

lemma unat_mask_less: "unat (v AND mask n :: u32) < 2 ^ n"
  using take_bit_nat_less_exp [of n "unat v"] by (simp only: take_bit_eq_mask [symmetric] unsigned_take_bit_eq)


text \<open>The values of a group, and the bytes they are joined to.\<close>

lemma b64_group_values:
  assumes "unat v < 64"
  shows "b64_group (Suc n) (enc64 v # txs) = (let (c, t) = b64_group n txs in (int (unat v) # c, t))"
    and "b64_group (Suc n) (61 # txs) = (let (c, t) = b64_group n txs in (-2 # c, t))"
proof -
  have "0 \<le> uint v" by simp
  then have "uint v \<noteq> - 1" by linarith
  then show "b64_group (Suc n) (enc64 v # txs) = (let (c, t) = b64_group n txs in (int (unat v) # c, t))"
    using assms by (simp add: b64index_encoding)
  show "b64_group (Suc n) (61 # txs) = (let (c, t) = b64_group n txs in (-2 # c, t))" by (simp add: b64index_pad)
qed

lemma shifted_unat: "shifted n (int (unat v)) = push_bit n v"
  by (simp add: shifted_def)

lemma join_three:
  fixes a b c :: u8
  defines "v \<equiv> push_bit 16 (ucast a) OR push_bit 8 (ucast b) OR ucast c :: u32"
  shows "push_bit 18 (drop_bit 18 v) OR push_bit 12 (drop_bit 12 v AND mask 6) OR push_bit 6 (drop_bit 6 v AND mask 6)
      OR (v AND mask 6) = v"
    and "ucast (drop_bit 16 v) = a" "ucast (drop_bit 8 v AND mask 8) = b" "ucast (v AND mask 8) = c"
    and "unat (drop_bit 18 v) < 64"
proof -
  have bv: "bit v i \<longleftrightarrow> i < 8 \<and> bit c i \<or> 8 \<le> i \<and> i < 16 \<and> bit b (i - 8) \<or> 16 \<le> i \<and> i < 24 \<and> bit a (i - 16)" for i
    unfolding v_def by (auto simp: bit_simps dest: bit_imp_le_length)
  show "push_bit 18 (drop_bit 18 v) OR push_bit 12 (drop_bit 12 v AND mask 6) OR push_bit 6 (drop_bit 6 v AND mask 6)
      OR (v AND mask 6) = v"
  proof (rule bit_word_eqI)
    fix i assume i: "i < LENGTH(32)"
    consider "i < 6" | "6 \<le> i" "i < 12" | "12 \<le> i" "i < 18" | "18 \<le> i" by linarith
    then show "bit (push_bit 18 (drop_bit 18 v) OR push_bit 12 (drop_bit 12 v AND mask 6) OR push_bit 6 (drop_bit 6 v AND mask 6)
      OR (v AND mask 6)) i = bit v i"
      using i by cases (auto simp: bit_simps)
  qed
  show "ucast (drop_bit 16 v) = a" "ucast (drop_bit 8 v AND mask 8) = b" "ucast (v AND mask 8) = c"
    by (rule bit_word_eqI; auto simp: bit_simps bv dest: bit_imp_le_length)+
  have "drop_bit 18 v = drop_bit 18 v AND mask 6"
    by (rule bit_word_eqI) (auto simp: bit_simps bv)
  then show "unat (drop_bit 18 v) < 64" using unat_mask_less [of "drop_bit 18 v" 6] by simp
qed

lemma uint_nonneg [simp]: "uint (v :: u32) \<noteq> - 1" "uint v \<noteq> - 2"
proof -
  have "0 \<le> uint v" by simp
  then show "uint v \<noteq> - 1" "uint v \<noteq> - 2" by linarith+
qed

lemma shifted_uint: "shifted n (uint v) = push_bit n v"
  using shifted_unat [of n v] by simp

lemma b64_bytes_join:
  fixes w x y z :: u32
  shows "b64_bytes [uint w, uint x, uint y, uint z] =
     (let v = push_bit 18 w OR push_bit 12 x OR push_bit 6 y OR z
      in ret [ucast (drop_bit 16 v), ucast (drop_bit 8 v AND 0xff), ucast (v AND 0xff)])"
  "uint y mod 4 = 0 \<Longrightarrow> b64_bytes [uint w, uint x, uint y, -2] =
     (let v = push_bit 10 w OR push_bit 4 x OR word_of_int (uint y div 4)
      in ret [ucast (drop_bit 8 v), ucast (v AND 0xff)])"
  "uint x mod 16 = 0 \<Longrightarrow> b64_bytes [uint w, uint x, -2, -2] =
     (let v = push_bit 2 w OR word_of_int (uint x div 16) in ret [ucast v])"
  by (simp_all add: b64_bytes_def shifted_uint, simp_all add: shifted_def)

lemma uint_and_mask: "uint (v AND mask k :: u32) < 2 ^ k"
proof -
  have "int (unat (v AND mask k)) < int (2 ^ k)" using unat_mask_less [of v k] by (simp only: of_nat_less_iff)
  then show ?thesis by simp
qed

lemma uint_push_mask:
  assumes "n + k < 32"
  shows "uint (push_bit n (v AND mask k :: u32)) = uint (v AND mask k) * 2 ^ n"
proof -
  have "uint (v AND mask k) < 2 ^ k" by (rule uint_and_mask)
  then have "uint (v AND mask k) * 2 ^ n < 2 ^ (k + n)" by (simp add: power_add)
  also have "\<dots> \<le> (2 :: int) ^ 32" using assms by (intro power_increasing) auto
  finally show ?thesis
    by (subst unsigned_push_bit_eq) (simp add: push_bit_eq_mult take_bit_eq_mod mod_pos_pos_trivial)
qed

lemma join_two:
  fixes a b :: u8
  defines "v \<equiv> push_bit 8 (ucast a) OR ucast b :: u32"
  shows "push_bit 10 (drop_bit 10 v) OR push_bit 4 (drop_bit 4 v AND mask 6) OR (v AND mask 4) = v"
    and "ucast (drop_bit 8 v) = a" "ucast (v AND mask 8) = b" "unat (drop_bit 10 v) < 64"
proof -
  have bv: "bit v i \<longleftrightarrow> i < 8 \<and> bit b i \<or> 8 \<le> i \<and> i < 16 \<and> bit a (i - 8)" for i
    unfolding v_def by (auto simp: bit_simps dest: bit_imp_le_length)
  show "push_bit 10 (drop_bit 10 v) OR push_bit 4 (drop_bit 4 v AND mask 6) OR (v AND mask 4) = v"
  proof (rule bit_word_eqI)
    fix i assume i: "i < LENGTH(32)"
    consider "i < 4" | "4 \<le> i" "i < 10" | "10 \<le> i" by linarith
    then show "bit (push_bit 10 (drop_bit 10 v) OR push_bit 4 (drop_bit 4 v AND mask 6) OR (v AND mask 4)) i = bit v i"
      using i by cases (auto simp: bit_simps)
  qed
  show "ucast (drop_bit 8 v) = a" "ucast (v AND mask 8) = b"
    by (rule bit_word_eqI; auto simp: bit_simps bv dest: bit_imp_le_length)+
  have "drop_bit 10 v = drop_bit 10 v AND mask 6" by (rule bit_word_eqI) (auto simp: bit_simps bv)
  then show "unat (drop_bit 10 v) < 64" using unat_mask_less [of "drop_bit 10 v" 6] by simp
qed

lemma two_back: "2 \<le> i \<Longrightarrow> Suc (Suc (i - 2)) = i"
  by simp

lemma join_one:
  fixes a :: u8
  defines "v \<equiv> ucast a :: u32"
  shows "push_bit 2 (drop_bit 2 v) OR (v AND mask 2) = v" "ucast v = a" "unat (drop_bit 2 v) < 64"
proof -
  have bv: "bit v i \<longleftrightarrow> i < 8 \<and> bit a i" for i
    unfolding v_def by (auto simp: bit_simps dest: bit_imp_le_length)
  show "push_bit 2 (drop_bit 2 v) OR (v AND mask 2) = v"
  proof (rule bit_word_eqI)
    fix i assume i: "i < LENGTH(32)"
    consider "i < 2" | "2 \<le> i" by linarith
    then show "bit (push_bit 2 (drop_bit 2 v) OR (v AND mask 2)) i = bit v i"
      using i by cases (auto simp: bit_simps two_back)
  qed
  show "ucast v = a" by (rule bit_word_eqI) (auto simp: bit_simps bv dest: bit_imp_le_length)
  have "drop_bit 2 v = drop_bit 2 v AND mask 6" by (rule bit_word_eqI) (auto simp: bit_simps bv)
  then show "unat (drop_bit 2 v) < 64" using unat_mask_less [of "drop_bit 2 v" 6] by simp
qed

section \<open>Base 64: the decoder on every text\<close>

declare b64decode_loop.simps [simp del]

lemma b64_group_rest:
  "length (fst (b64_group n txs)) = n \<and>
     (snd (b64_group n txs) = [] \<or> length (snd (b64_group n txs)) + n \<le> length txs)"
  by (induction n txs rule: b64_group.induct) (auto split: prod.splits)

lemma b64_bytes_few: "\<exists>r. b64_bytes c = Some r \<and> (\<forall>bs. r = Inr bs \<longrightarrow> length bs \<le> 3)"
  by (auto simp: b64_bytes_def ret_def err_def Let_def)

lemma b64decode_loop_safe:
  "int (length out) + (int (length txs) + 3) div 4 * 3 \<le> cap \<Longrightarrow> \<exists>r. b64decode_loop cap txs out = Some r"
proof (induction cap txs out rule: b64decode_loop.induct)
  case (1 cap txs out)
  show ?case
  proof (cases "txs = []")
    case True
    then show ?thesis by (simp add: b64decode_loop.simps ret_def)
  next
    case False
    let ?g = "b64_group 4 txs"
    obtain r where r: "b64_bytes (fst ?g) = Some r" "\<forall>bs. r = Inr bs \<longrightarrow> length bs \<le> 3"
      using b64_bytes_few by blast
    show ?thesis
    proof (cases r)
      case (Inl e)
      then show ?thesis using r False by (simp add: b64decode_loop.simps)
    next
      case (Inr bs)
      have "length (snd ?g) = 0 \<or> length (snd ?g) + 4 \<le> length txs" using b64_group_rest [of 4 txs] by auto
      moreover have "1 \<le> length txs" using False by (cases txs) auto
      ultimately have room: "(int (length (snd ?g)) + 3) div 4 + 1 \<le> (int (length txs) + 3) div 4" by auto
      have few: "length bs \<le> 3" using r Inr by simp
      have "int (length out + length bs) \<le> cap" using 1(2) room few by linarith
      moreover have "\<exists>r. b64decode_loop cap (snd ?g) (out @ bs) = Some r"
        by (rule 1(1) [OF False]) (use 1(2) room few in \<open>auto\<close>)
      ultimately show ?thesis using r(1) Inr False by (subst b64decode_loop.simps) (simp add: lift_def)
    qed
  qed
qed


text \<open>Decoding one group of an encoded text: the bytes come back, and the rest of the text is next.\<close>

lemma b64decode_step:
  "b64_group 4 txs = (c, rest) \<Longrightarrow> txs \<noteq> [] \<Longrightarrow> b64_bytes c = ret bs \<Longrightarrow> int (length out + length bs) \<le> cap \<Longrightarrow>
     b64decode_loop cap txs out = b64decode_loop cap rest (out @ bs)"
  by (subst b64decode_loop.simps) (simp add: lift_def)

lemma mask_6_less: "unat (w AND mask 6 :: u32) < 64"
  using unat_mask_less [of w 6] by simp

lemma decode_three:
  fixes a b c :: u8
  defines "v \<equiv> push_bit 16 (ucast a) OR push_bit 8 (ucast b) OR ucast c :: u32"
  assumes "int (length out) + 3 \<le> cap"
  shows "b64decode_loop cap (enc64 (drop_bit 18 v) # enc64 (drop_bit 12 v AND mask 6) # enc64 (drop_bit 6 v AND mask 6) #
    enc64 (v AND mask 6) # txs) out = b64decode_loop cap txs (out @ [a, b, c])"
proof (rule b64decode_step)
  note j = join_three [of a b c, folded v_def]
  show "b64_group 4 (enc64 (drop_bit 18 v) # enc64 (drop_bit 12 v AND mask 6) # enc64 (drop_bit 6 v AND mask 6) #
      enc64 (v AND mask 6) # txs) =
    ([uint (drop_bit 18 v), uint (drop_bit 12 v AND mask 6), uint (drop_bit 6 v AND mask 6), uint (v AND mask 6)], txs)"
    using b64_group_values(1) [OF j(5)] b64_group_values(1) [OF mask_6_less] by (simp add: numeral_eq_Suc del: b64_group.simps) simp
  show "b64_bytes [uint (drop_bit 18 v), uint (drop_bit 12 v AND mask 6), uint (drop_bit 6 v AND mask 6), uint (v AND mask 6)] =
      ret [a, b, c]"
    by (simp only: b64_bytes_join Let_def masks j)
qed (use assms(2) in auto)

lemma decode_two:
  fixes a b :: u8
  defines "v \<equiv> push_bit 8 (ucast a) OR ucast b :: u32"
  assumes "int (length out) + 2 \<le> cap" "ps = [] \<or> ps = [61]"
  shows "b64decode_loop cap (enc64 (drop_bit 10 v) # enc64 (drop_bit 4 v AND mask 6) # enc64 (push_bit 2 (v AND mask 4)) # ps) out =
    b64decode_loop cap [] (out @ [a, b])"
proof (rule b64decode_step)
  note j = join_two [of a b, folded v_def]
  have u: "uint (push_bit 2 (v AND mask 4)) = uint (v AND mask 4) * 4" using uint_push_mask [of 2 4 v] by simp
  have m: "uint (push_bit 2 (v AND mask 4)) mod 4 = 0" unfolding u by simp
  have d: "word_of_int (uint (push_bit 2 (v AND mask 4)) div 4) = v AND mask 4" unfolding u by simp
  have "uint (push_bit 2 (v AND mask 4)) < 64" using u uint_and_mask [of v 4] by simp
  then have l: "unat (push_bit 2 (v AND mask 4)) < 64" unfolding unat_eq_nat_uint by linarith
  show "b64_group 4 (enc64 (drop_bit 10 v) # enc64 (drop_bit 4 v AND mask 6) # enc64 (push_bit 2 (v AND mask 4)) # ps) =
    ([uint (drop_bit 10 v), uint (drop_bit 4 v AND mask 6), uint (push_bit 2 (v AND mask 4)), -2], [])"
    using b64_group_values(1) [OF j(4)] b64_group_values(1) [OF mask_6_less] b64_group_values(1) [OF l] assms(3)
    by (auto simp add: numeral_eq_Suc b64index_pad simp del: b64_group.simps(3)) (auto simp: b64index_pad)
  show "b64_bytes [uint (drop_bit 10 v), uint (drop_bit 4 v AND mask 6), uint (push_bit 2 (v AND mask 4)), -2] = ret [a, b]"
    unfolding b64_bytes_join(2) [OF m] Let_def d masks j ..
qed (use assms(2) in auto)


lemma decode_one:
  fixes a :: u8
  defines "v \<equiv> ucast a :: u32"
  assumes "int (length out) + 1 \<le> cap" "ps = [] \<or> ps = [61, 61]"
  shows "b64decode_loop cap (enc64 (drop_bit 2 v) # enc64 (push_bit 4 (v AND mask 2)) # ps) out =
    b64decode_loop cap [] (out @ [a])"
proof (rule b64decode_step)
  note j = join_one [of a, folded v_def]
  have u: "uint (push_bit 4 (v AND mask 2)) = uint (v AND mask 2) * 16" using uint_push_mask [of 4 2 v] by simp
  have m: "uint (push_bit 4 (v AND mask 2)) mod 16 = 0" unfolding u by simp
  have d: "word_of_int (uint (push_bit 4 (v AND mask 2)) div 16) = v AND mask 2" unfolding u by simp
  have "uint (push_bit 4 (v AND mask 2)) < 64" using u uint_and_mask [of v 2] by simp
  then have l: "unat (push_bit 4 (v AND mask 2)) < 64" unfolding unat_eq_nat_uint by linarith
  show "b64_group 4 (enc64 (drop_bit 2 v) # enc64 (push_bit 4 (v AND mask 2)) # ps) =
    ([uint (drop_bit 2 v), uint (push_bit 4 (v AND mask 2)), -2, -2], [])"
    using b64_group_values(1) [OF j(3)] b64_group_values(1) [OF l] assms(3)
    by (auto simp add: numeral_eq_Suc b64index_pad simp del: b64_group.simps(3)) (auto simp: b64index_pad)
  show "b64_bytes [uint (drop_bit 2 v), uint (push_bit 4 (v AND mask 2)), -2, -2] = ret [a]"
    unfolding b64_bytes_join(3) [OF m] Let_def d masks j ..
qed (use assms(2) in auto)

text \<open>The text without its final \<open>=\<close>.\<close>

definition unpadded :: "bytes \<Rightarrow> bytes" where
  "unpadded e = List.filter (\<lambda>c. c \<noteq> 61) e"

lemma encoding_not_pad: "n < 64 \<Longrightarrow> encoding ! n \<noteq> 61"
  using b64index_encoding [of n] b64index_pad by auto

lemma decode_text:
  "int (length out + length bs) \<le> cap \<Longrightarrow> e = b64_text bs \<or> e = unpadded (b64_text bs) \<Longrightarrow>
     b64decode_loop cap e out = ret (out @ bs)"
proof (induction bs arbitrary: out e rule: b64_text.induct)
  case (1 a b c txs)
  define v :: u32 where "v = push_bit 16 (ucast a) OR push_bit 8 (ucast b) OR ucast c"
  have j: "unat (drop_bit 18 v) < 64" unfolding v_def by (rule join_three)
  define e' where "e' = (if e = b64_text (a # b # c # txs) then b64_text txs else unpadded (b64_text txs))"
  have "e = enc64 (drop_bit 18 v) # enc64 (drop_bit 12 v AND mask 6) # enc64 (drop_bit 6 v AND mask 6) # enc64 (v AND mask 6) # e'"
    using 1(3) encoding_not_pad [OF j] encoding_not_pad [OF mask_6_less]
    by (auto simp: e'_def Let_def masks unpadded_def v_def [symmetric])
  moreover have "b64decode_loop cap e' (out @ [a, b, c]) = ret ((out @ [a, b, c]) @ txs)"
    by (rule 1(1)) (use 1(2) in \<open>auto simp: e'_def\<close>)
  ultimately show ?case using 1(2) decode_three [of out cap a b c e', folded v_def] by simp
next
  case (2 a b)
  define v :: u32 where "v = push_bit 8 (ucast a) OR ucast b"
  have j: "unat (drop_bit 10 v) < 64" unfolding v_def by (rule join_two)
  have "uint (push_bit 2 (v AND mask 4)) < 64" using uint_push_mask [of 2 4 v] uint_and_mask [of v 4] by simp
  then have l: "unat (push_bit 2 (v AND mask 4)) < 64" unfolding unat_eq_nat_uint by linarith
  obtain ps where "e = enc64 (drop_bit 10 v) # enc64 (drop_bit 4 v AND mask 6) # enc64 (push_bit 2 (v AND mask 4)) # ps"
      "ps = [] \<or> ps = [61]"
    using 2(2) encoding_not_pad [OF j] encoding_not_pad [OF mask_6_less] encoding_not_pad [OF l]
    by (auto simp: Let_def masks unpadded_def v_def [symmetric])
  then show ?case using 2(1) decode_two [of out cap ps a b, folded v_def] by (simp add: b64decode_loop.simps)
next
  case (3 a)
  define v :: u32 where "v = ucast a"
  have j: "unat (drop_bit 2 v) < 64" unfolding v_def by (rule join_one)
  have "uint (push_bit 4 (v AND mask 2)) < 64" using uint_push_mask [of 4 2 v] uint_and_mask [of v 2] by simp
  then have l: "unat (push_bit 4 (v AND mask 2)) < 64" unfolding unat_eq_nat_uint by linarith
  obtain ps where "e = enc64 (drop_bit 2 v) # enc64 (push_bit 4 (v AND mask 2)) # ps" "ps = [] \<or> ps = [61, 61]"
    using 3(2) encoding_not_pad [OF j] encoding_not_pad [OF l]
    by (auto simp: Let_def masks unpadded_def v_def [symmetric])
  then show ?case using 3(1) decode_one [of out cap ps a, folded v_def] by (simp add: b64decode_loop.simps)
next
  case 4
  then show ?case by (simp add: b64decode_loop.simps unpadded_def)
qed

lemma unpadded_text_length:
  "int (length bs) \<le> (int (length (unpadded (b64_text bs))) + 3) div 4 * 3"
proof (induction bs rule: b64_text.induct)
  case (1 a b c txs)
  define v :: u32 where "v = push_bit 16 (ucast a) OR push_bit 8 (ucast b) OR ucast c"
  have j: "unat (drop_bit 18 v) < 64" unfolding v_def by (rule join_three)
  let ?n = "int (length (unpadded (b64_text txs)))"
  have l: "int (length (unpadded (b64_text (a # b # c # txs)))) = 4 + ?n"
    using encoding_not_pad [OF j] encoding_not_pad [OF mask_6_less]
    by (simp add: Let_def masks unpadded_def v_def [symmetric])
  have "(4 + ?n + 3) div 4 * 3 = 3 + (?n + 3) div 4 * 3" using quads [of ?n] by (simp add: add.commute)
  moreover have "int (length (a # b # c # txs)) = 3 + int (length txs)" by simp
  ultimately show ?case using 1 [OF refl] unfolding l by linarith
next
  case (2 a b)
  define v :: u32 where "v = push_bit 8 (ucast a) OR ucast b"
  have j: "unat (drop_bit 10 v) < 64" unfolding v_def by (rule join_two)
  show ?case using encoding_not_pad [OF j] encoding_not_pad [OF mask_6_less]
    by (simp add: Let_def masks unpadded_def v_def [symmetric])
next
  case (3 a)
  define v :: u32 where "v = ucast a"
  have j: "unat (drop_bit 2 v) < 64" unfolding v_def by (rule join_one)
  show ?case using encoding_not_pad [OF j] by (simp add: Let_def masks unpadded_def v_def [symmetric])
qed (simp add: unpadded_def)

text \<open>Base 64: encoding succeeds with four characters for each three bytes, rounded up, and decoding gives the
  bytes back, from the whole text and from the text without its final \<open>=\<close>.\<close>

theorem base64_roundtrip:
  "\<exists>e. lb64encode bs = ret e \<and> int (length e) = (int (length bs) + 2) div 3 * 4 \<and>
     lb64decode e = ret bs \<and> lb64decode (unpadded e) = ret bs"
proof -
  let ?e = "b64_text bs"
  have len: "int (length ?e) = (int (length bs) + 2) div 3 * 4" by (rule b64_text_length)
  have fits: "n \<le> capacity n (n > SMALL_CHUNK)" for n by (simp add: capacity_def)
  have "b64encode_loop (capacity (int (length ?e)) (int (length ?e) > SMALL_CHUNK)) bs [] = Some ?e"
    using b64encode_loop_spec [of "[]" bs] fits by simp
  then have "lb64encode bs = ret ?e" by (simp add: lb64encode_def Let_def len [symmetric] lift_def peek_def ret_def)
  moreover have "lb64decode e = ret bs" if "e = ?e \<or> e = unpadded ?e" for e
  proof -
    have h: "int (length bs) \<le> (int (length e) + 3) div 4 * 3"
      using that unpadded_text_length [of bs] len by auto
    then have "int (length []) + int (length bs) \<le> capacity ((int (length e) + 3) div 4 * 3) ((int (length e) + 3) div 4 * 3 > SMALL_CHUNK)"
      using order_trans [OF h fits] by simp
    then show ?thesis unfolding lb64decode_def Let_def using decode_text [of "[]" bs _ e] that by simp
  qed
  ultimately show ?thesis using len by blast
qed

text \<open>Decoding writes nothing outside its buffer and returns, whatever the text.\<close>

theorem base64_decode_safe: "lb64decode txs \<noteq> None"
  using b64decode_loop_safe [of "[]" txs]
  by (auto simp: lb64decode_def Let_def capacity_def)

text \<open>A newline, or other characters that are not in the alphabet, after the last group make the text invalid,
  though anywhere else they are skipped.\<close>

lemma b64_group_junk: "\<forall>c \<in> set junk. b64index c = -1 \<Longrightarrow> b64_group n junk = (replicate n (-2), if n = 0 then junk else [])"
  by (induction n junk rule: b64_group.induct) auto

lemma b64_trailing_junk:
  assumes "\<forall>c \<in> set junk. b64index c = -1" "junk \<noteq> []"
  shows "lb64decode junk = err Invalid_base64_text"
proof -
  have "b64_bytes (replicate 4 (-2)) = err Invalid_base64_text" by (simp add: b64_bytes_def numeral_eq_Suc)
  then show ?thesis using assms by (simp add: lb64decode_def Let_def b64decode_loop.simps b64_group_junk)
qed

section \<open>Exclusive or undoes itself\<close>

theorem xor_str_involution: "lxor_str s1 s2 = ret r \<Longrightarrow> length r = length s1 \<and> lxor_str r s2 = ret s1"
  by (auto simp: lxor_str_def ac_simps split: if_splits intro!: nth_equalityI)

end
