(* ===== verification/Des.thy ===== *)
theory Des
  imports Encode Words
begin

text \<open>
  The DES functions of \<open>lualib-src/lua-crypt.c\<close>: key schedule, block function, the two padding modes, and
  \<open>desencode\<close> and \<open>desdecode\<close>. A value of the C code's \<open>uint32_t\<close> is a \<open>u32\<close>; the macros are functions on
  the variables they update. Buffers are byte blocks, and an access outside one is \<open>None\<close>.

  The block function is a Feistel network between two permutations, so it is undone by the same
  function with the subkeys in reverse order; decoding therefore returns what was encoded, for every key, text
  and padding mode. A padding mode is an interface: \<open>padding_scheme\<close> states what an encoder and a decoder need
  of it, and both modes of the code are instances.
\<close>

unbundle bit_operations_syntax

section \<open>Tables\<close>

definition SB1 :: "u32 list" where
  "SB1 =
    [0x01010400, 0x00000000, 0x00010000, 0x01010404, 0x01010004, 0x00010404, 0x00000004, 0x00010000,
     0x00000400, 0x01010400, 0x01010404, 0x00000400, 0x01000404, 0x01010004, 0x01000000, 0x00000004,
     0x00000404, 0x01000400, 0x01000400, 0x00010400, 0x00010400, 0x01010000, 0x01010000, 0x01000404,
     0x00010004, 0x01000004, 0x01000004, 0x00010004, 0x00000000, 0x00000404, 0x00010404, 0x01000000,
     0x00010000, 0x01010404, 0x00000004, 0x01010000, 0x01010400, 0x01000000, 0x01000000, 0x00000400,
     0x01010004, 0x00010000, 0x00010400, 0x01000004, 0x00000400, 0x00000004, 0x01000404, 0x00010404,
     0x01010404, 0x00010004, 0x01010000, 0x01000404, 0x01000004, 0x00000404, 0x00010404, 0x01010400,
     0x00000404, 0x01000400, 0x01000400, 0x00000000, 0x00010004, 0x00010400, 0x00000000, 0x01010004]"

definition SB2 :: "u32 list" where
  "SB2 =
    [0x80108020, 0x80008000, 0x00008000, 0x00108020, 0x00100000, 0x00000020, 0x80100020, 0x80008020,
     0x80000020, 0x80108020, 0x80108000, 0x80000000, 0x80008000, 0x00100000, 0x00000020, 0x80100020,
     0x00108000, 0x00100020, 0x80008020, 0x00000000, 0x80000000, 0x00008000, 0x00108020, 0x80100000,
     0x00100020, 0x80000020, 0x00000000, 0x00108000, 0x00008020, 0x80108000, 0x80100000, 0x00008020,
     0x00000000, 0x00108020, 0x80100020, 0x00100000, 0x80008020, 0x80100000, 0x80108000, 0x00008000,
     0x80100000, 0x80008000, 0x00000020, 0x80108020, 0x00108020, 0x00000020, 0x00008000, 0x80000000,
     0x00008020, 0x80108000, 0x00100000, 0x80000020, 0x00100020, 0x80008020, 0x80000020, 0x00100020,
     0x00108000, 0x00000000, 0x80008000, 0x00008020, 0x80000000, 0x80100020, 0x80108020, 0x00108000]"

definition SB3 :: "u32 list" where
  "SB3 =
    [0x00000208, 0x08020200, 0x00000000, 0x08020008, 0x08000200, 0x00000000, 0x00020208, 0x08000200,
     0x00020008, 0x08000008, 0x08000008, 0x00020000, 0x08020208, 0x00020008, 0x08020000, 0x00000208,
     0x08000000, 0x00000008, 0x08020200, 0x00000200, 0x00020200, 0x08020000, 0x08020008, 0x00020208,
     0x08000208, 0x00020200, 0x00020000, 0x08000208, 0x00000008, 0x08020208, 0x00000200, 0x08000000,
     0x08020200, 0x08000000, 0x00020008, 0x00000208, 0x00020000, 0x08020200, 0x08000200, 0x00000000,
     0x00000200, 0x00020008, 0x08020208, 0x08000200, 0x08000008, 0x00000200, 0x00000000, 0x08020008,
     0x08000208, 0x00020000, 0x08000000, 0x08020208, 0x00000008, 0x00020208, 0x00020200, 0x08000008,
     0x08020000, 0x08000208, 0x00000208, 0x08020000, 0x00020208, 0x00000008, 0x08020008, 0x00020200]"

definition SB4 :: "u32 list" where
  "SB4 =
    [0x00802001, 0x00002081, 0x00002081, 0x00000080, 0x00802080, 0x00800081, 0x00800001, 0x00002001,
     0x00000000, 0x00802000, 0x00802000, 0x00802081, 0x00000081, 0x00000000, 0x00800080, 0x00800001,
     0x00000001, 0x00002000, 0x00800000, 0x00802001, 0x00000080, 0x00800000, 0x00002001, 0x00002080,
     0x00800081, 0x00000001, 0x00002080, 0x00800080, 0x00002000, 0x00802080, 0x00802081, 0x00000081,
     0x00800080, 0x00800001, 0x00802000, 0x00802081, 0x00000081, 0x00000000, 0x00000000, 0x00802000,
     0x00002080, 0x00800080, 0x00800081, 0x00000001, 0x00802001, 0x00002081, 0x00002081, 0x00000080,
     0x00802081, 0x00000081, 0x00000001, 0x00002000, 0x00800001, 0x00002001, 0x00802080, 0x00800081,
     0x00002001, 0x00002080, 0x00800000, 0x00802001, 0x00000080, 0x00800000, 0x00002000, 0x00802080]"

definition SB5 :: "u32 list" where
  "SB5 =
    [0x00000100, 0x02080100, 0x02080000, 0x42000100, 0x00080000, 0x00000100, 0x40000000, 0x02080000,
     0x40080100, 0x00080000, 0x02000100, 0x40080100, 0x42000100, 0x42080000, 0x00080100, 0x40000000,
     0x02000000, 0x40080000, 0x40080000, 0x00000000, 0x40000100, 0x42080100, 0x42080100, 0x02000100,
     0x42080000, 0x40000100, 0x00000000, 0x42000000, 0x02080100, 0x02000000, 0x42000000, 0x00080100,
     0x00080000, 0x42000100, 0x00000100, 0x02000000, 0x40000000, 0x02080000, 0x42000100, 0x40080100,
     0x02000100, 0x40000000, 0x42080000, 0x02080100, 0x40080100, 0x00000100, 0x02000000, 0x42080000,
     0x42080100, 0x00080100, 0x42000000, 0x42080100, 0x02080000, 0x00000000, 0x40080000, 0x42000000,
     0x00080100, 0x02000100, 0x40000100, 0x00080000, 0x00000000, 0x40080000, 0x02080100, 0x40000100]"

definition SB6 :: "u32 list" where
  "SB6 =
    [0x20000010, 0x20400000, 0x00004000, 0x20404010, 0x20400000, 0x00000010, 0x20404010, 0x00400000,
     0x20004000, 0x00404010, 0x00400000, 0x20000010, 0x00400010, 0x20004000, 0x20000000, 0x00004010,
     0x00000000, 0x00400010, 0x20004010, 0x00004000, 0x00404000, 0x20004010, 0x00000010, 0x20400010,
     0x20400010, 0x00000000, 0x00404010, 0x20404000, 0x00004010, 0x00404000, 0x20404000, 0x20000000,
     0x20004000, 0x00000010, 0x20400010, 0x00404000, 0x20404010, 0x00400000, 0x00004010, 0x20000010,
     0x00400000, 0x20004000, 0x20000000, 0x00004010, 0x20000010, 0x20404010, 0x00404000, 0x20400000,
     0x00404010, 0x20404000, 0x00000000, 0x20400010, 0x00000010, 0x00004000, 0x20400000, 0x00404010,
     0x00004000, 0x00400010, 0x20004010, 0x00000000, 0x20404000, 0x20000000, 0x00400010, 0x20004010]"

definition SB7 :: "u32 list" where
  "SB7 =
    [0x00200000, 0x04200002, 0x04000802, 0x00000000, 0x00000800, 0x04000802, 0x00200802, 0x04200800,
     0x04200802, 0x00200000, 0x00000000, 0x04000002, 0x00000002, 0x04000000, 0x04200002, 0x00000802,
     0x04000800, 0x00200802, 0x00200002, 0x04000800, 0x04000002, 0x04200000, 0x04200800, 0x00200002,
     0x04200000, 0x00000800, 0x00000802, 0x04200802, 0x00200800, 0x00000002, 0x04000000, 0x00200800,
     0x04000000, 0x00200800, 0x00200000, 0x04000802, 0x04000802, 0x04200002, 0x04200002, 0x00000002,
     0x00200002, 0x04000000, 0x04000800, 0x00200000, 0x04200800, 0x00000802, 0x00200802, 0x04200800,
     0x00000802, 0x04000002, 0x04200802, 0x04200000, 0x00200800, 0x00000000, 0x00000002, 0x04200802,
     0x00000000, 0x00200802, 0x04200000, 0x00000800, 0x04000002, 0x04000800, 0x00000800, 0x00200002]"

definition SB8 :: "u32 list" where
  "SB8 =
    [0x10001040, 0x00001000, 0x00040000, 0x10041040, 0x10000000, 0x10001040, 0x00000040, 0x10000000,
     0x00040040, 0x10040000, 0x10041040, 0x00041000, 0x10041000, 0x00041040, 0x00001000, 0x00000040,
     0x10040000, 0x10000040, 0x10001000, 0x00001040, 0x00041000, 0x00040040, 0x10040040, 0x10041000,
     0x00001040, 0x00000000, 0x00000000, 0x10040040, 0x10000040, 0x10001000, 0x00041040, 0x00040000,
     0x00041040, 0x00040000, 0x10041000, 0x00001000, 0x00000040, 0x10040040, 0x00001000, 0x00041040,
     0x10001000, 0x00000040, 0x10000040, 0x10040000, 0x10040040, 0x10000000, 0x00040000, 0x10001040,
     0x00000000, 0x10041040, 0x00040040, 0x10000040, 0x10040000, 0x10001000, 0x10001040, 0x00000000,
     0x10041040, 0x00041000, 0x00041000, 0x00001040, 0x00001040, 0x00040040, 0x10000000, 0x10041000]"

definition LHs :: "u32 list" where
  "LHs =
    [0x00000000, 0x00000001, 0x00000100, 0x00000101, 0x00010000, 0x00010001, 0x00010100, 0x00010101,
     0x01000000, 0x01000001, 0x01000100, 0x01000101, 0x01010000, 0x01010001, 0x01010100, 0x01010101]"

definition RHs :: "u32 list" where
  "RHs =
    [0x00000000, 0x01000000, 0x00010000, 0x01010000, 0x00000100, 0x01000100, 0x00010100, 0x01010100,
     0x00000001, 0x01000001, 0x00010001, 0x01010001, 0x00000101, 0x01000101, 0x00010101, 0x01010101]"

section \<open>Permutations\<close>

text \<open>
  The line that the permutation macros repeat, \<open>T = ((X >> n) ^ Y) & m; Y ^= T; X ^= (T << n)\<close>, and
  their line without a shift, \<open>T = (X ^ Y) & 0xAAAAAAAA; Y ^= T; X ^= T\<close>.
\<close>

definition swap_bits :: "nat \<Rightarrow> u32 \<Rightarrow> u32 \<times> u32 \<Rightarrow> u32 \<times> u32" where
  "swap_bits n m = (\<lambda>(X, Y). let T = (drop_bit n X XOR Y) AND m in (X XOR push_bit n T, Y XOR T))"

definition swap_odd :: "u32 \<times> u32 \<Rightarrow> u32 \<times> u32" where
  "swap_odd = (\<lambda>(X, Y). let T = (X XOR Y) AND 0xAAAAAAAA in (X XOR T, Y XOR T))"

definition rotate_left_1 :: "u32 \<Rightarrow> u32" where
  "rotate_left_1 X = (push_bit 1 X OR drop_bit 31 X) AND 0xFFFFFFFF"

definition rotate_right_1 :: "u32 \<Rightarrow> u32" where
  "rotate_right_1 X = (push_bit 31 X OR drop_bit 1 X) AND 0xFFFFFFFF"

definition DES_IP :: "u32 \<times> u32 \<Rightarrow> u32 \<times> u32" where
  "DES_IP = (\<lambda>(X, Y).
     let (X, Y) = swap_bits 4 0x0F0F0F0F (X, Y);
         (X, Y) = swap_bits 16 0x0000FFFF (X, Y);
         (Y, X) = swap_bits 2 0x33333333 (Y, X);
         (Y, X) = swap_bits 8 0x00FF00FF (Y, X);
         Y = rotate_left_1 Y;
         (X, Y) = swap_odd (X, Y);
         X = rotate_left_1 X
     in (X, Y))"

definition DES_FP :: "u32 \<times> u32 \<Rightarrow> u32 \<times> u32" where
  "DES_FP = (\<lambda>(X, Y).
     let X = rotate_right_1 X;
         (X, Y) = swap_odd (X, Y);
         Y = rotate_right_1 Y;
         (Y, X) = swap_bits 8 0x00FF00FF (Y, X);
         (Y, X) = swap_bits 2 0x33333333 (Y, X);
         (X, Y) = swap_bits 16 0x0000FFFF (X, Y);
         (X, Y) = swap_bits 4 0x0F0F0F0F (X, Y)
     in (X, Y))"

section \<open>Key schedule and rounds\<close>

abbreviation six :: "u32 list \<Rightarrow> u32 \<Rightarrow> u32" where
  "six SB T \<equiv> SB ! unat (T AND 0x3F)"

abbreviation four :: "u32 list \<Rightarrow> u32 \<Rightarrow> u32" where
  "four HS T \<equiv> HS ! unat (T AND 0xF)"

definition DES_ROUND :: "u32 \<Rightarrow> u32 \<Rightarrow> u32 \<Rightarrow> u32 \<Rightarrow> u32" where
  "DES_ROUND k k' X Y =
     (let T = k XOR X;
          Y = Y XOR (six SB8 T XOR six SB6 (drop_bit 8 T) XOR six SB4 (drop_bit 16 T) XOR six SB2 (drop_bit 24 T));
          T = k' XOR (push_bit 28 X OR drop_bit 4 X)
      in Y XOR (six SB7 T XOR six SB5 (drop_bit 8 T) XOR six SB3 (drop_bit 16 T) XOR six SB1 (drop_bit 24 T)))"

definition permuted_choice_1 :: "bytes \<Rightarrow> u32 \<times> u32" where
  "permuted_choice_1 key =
     (let X = GET_UINT32 key 0;
          Y = GET_UINT32 key 4;
          T = (drop_bit 4 Y XOR X) AND 0x0F0F0F0F; X = X XOR T; Y = Y XOR push_bit 4 T;
          T = (Y XOR X) AND 0x10101010; X = X XOR T; Y = Y XOR T;
          X = push_bit 3 (four LHs X) OR push_bit 2 (four LHs (drop_bit 8 X))
            OR push_bit 1 (four LHs (drop_bit 16 X)) OR four LHs (drop_bit 24 X)
            OR push_bit 7 (four LHs (drop_bit 5 X)) OR push_bit 6 (four LHs (drop_bit 13 X))
            OR push_bit 5 (four LHs (drop_bit 21 X)) OR push_bit 4 (four LHs (drop_bit 29 X));
          Y = push_bit 3 (four RHs (drop_bit 1 Y)) OR push_bit 2 (four RHs (drop_bit 9 Y))
            OR push_bit 1 (four RHs (drop_bit 17 Y)) OR four RHs (drop_bit 25 Y)
            OR push_bit 7 (four RHs (drop_bit 4 Y)) OR push_bit 6 (four RHs (drop_bit 12 Y))
            OR push_bit 5 (four RHs (drop_bit 20 Y)) OR push_bit 4 (four RHs (drop_bit 28 Y))
      in (X AND 0x0FFFFFFF, Y AND 0x0FFFFFFF))"

definition rotate_28 :: "nat \<Rightarrow> u32 \<Rightarrow> u32" where
  "rotate_28 i X =
     (if i < 2 \<or> i = 8 \<or> i = 15 then (push_bit 1 X OR drop_bit 27 X) AND 0x0FFFFFFF
      else (push_bit 2 X OR drop_bit 26 X) AND 0x0FFFFFFF)"

definition subkey_even :: "u32 \<Rightarrow> u32 \<Rightarrow> u32" where
  "subkey_even X Y =
     (push_bit 4 X AND 0x24000000) OR (push_bit 28 X AND 0x10000000) OR
     (push_bit 14 X AND 0x08000000) OR (push_bit 18 X AND 0x02080000) OR
     (push_bit 6 X AND 0x01000000) OR (push_bit 9 X AND 0x00200000) OR
     (drop_bit 1 X AND 0x00100000) OR (push_bit 10 X AND 0x00040000) OR
     (push_bit 2 X AND 0x00020000) OR (drop_bit 10 X AND 0x00010000) OR
     (drop_bit 13 Y AND 0x00002000) OR (drop_bit 4 Y AND 0x00001000) OR
     (push_bit 6 Y AND 0x00000800) OR (drop_bit 1 Y AND 0x00000400) OR
     (drop_bit 14 Y AND 0x00000200) OR (Y AND 0x00000100) OR
     (drop_bit 5 Y AND 0x00000020) OR (drop_bit 10 Y AND 0x00000010) OR
     (drop_bit 3 Y AND 0x00000008) OR (drop_bit 18 Y AND 0x00000004) OR
     (drop_bit 26 Y AND 0x00000002) OR (drop_bit 24 Y AND 0x00000001)"

definition subkey_odd :: "u32 \<Rightarrow> u32 \<Rightarrow> u32" where
  "subkey_odd X Y =
     (push_bit 15 X AND 0x20000000) OR (push_bit 17 X AND 0x10000000) OR
     (push_bit 10 X AND 0x08000000) OR (push_bit 22 X AND 0x04000000) OR
     (drop_bit 2 X AND 0x02000000) OR (push_bit 1 X AND 0x01000000) OR
     (push_bit 16 X AND 0x00200000) OR (push_bit 11 X AND 0x00100000) OR
     (push_bit 3 X AND 0x00080000) OR (drop_bit 6 X AND 0x00040000) OR
     (push_bit 15 X AND 0x00020000) OR (drop_bit 4 X AND 0x00010000) OR
     (drop_bit 2 Y AND 0x00002000) OR (push_bit 8 Y AND 0x00001000) OR
     (drop_bit 14 Y AND 0x00000808) OR (drop_bit 9 Y AND 0x00000400) OR
     (Y AND 0x00000200) OR (push_bit 7 Y AND 0x00000100) OR
     (drop_bit 7 Y AND 0x00000020) OR (drop_bit 3 Y AND 0x00000011) OR
     (push_bit 2 Y AND 0x00000004) OR (drop_bit 21 Y AND 0x00000002)"

fun subkeys :: "nat list \<Rightarrow> u32 \<times> u32 \<Rightarrow> u32 list" where
  "subkeys [] (X, Y) = []"
| "subkeys (i # is) (X, Y) =
     (let X = rotate_28 i X; Y = rotate_28 i Y
      in subkey_even X Y # subkey_odd X Y # subkeys is (X, Y))"

definition des_main_ks :: "bytes \<Rightarrow> u32 list" where
  "des_main_ks key = subkeys [0..<16] (permuted_choice_1 key)"

text \<open>The rounds take their subkeys in order: \<open>SK\<close> is advanced past each one.\<close>

fun des_rounds :: "u32 list \<Rightarrow> u32 \<times> u32 \<Rightarrow> u32 \<times> u32" where
  "des_rounds (a # b # c # d # SK) (X, Y) =
     (let X = DES_ROUND a b Y X; Y = DES_ROUND c d X Y in des_rounds SK (X, Y))"
| "des_rounds SK (X, Y) = (X, Y)"

definition des_crypt :: "u32 list \<Rightarrow> bytes \<Rightarrow> bytes" where
  "des_crypt SK input =
     (let (X, Y) = DES_IP (GET_UINT32 input 0, GET_UINT32 input 4);
          (X, Y) = des_rounds SK (X, Y);
          (Y, X) = DES_FP (Y, X)
      in PUT_UINT32 Y @ PUT_UINT32 X)"

section \<open>Padding\<close>

datatype des_error =
    Invalid_padding_mode int
  | Invalid_padding
  | Invalid_key_size int
  | Invalid_text_length int
  | Invalid_text

definition PADDING_MODE_ISO7816_4 :: int where "PADDING_MODE_ISO7816_4 = 0"
definition PADDING_MODE_PKCS7 :: int where "PADDING_MODE_PKCS7 = 1"
definition PADDING_MODE_COUNT :: int where "PADDING_MODE_COUNT = 2"

definition padding_add_iso7816_4 :: "bytes \<Rightarrow> nat \<Rightarrow> bytes" where
  "padding_add_iso7816_4 buf offset = take offset buf @ [0x80] @ replicate (7 - offset) 0"

text \<open>The loop counts \<open>i\<close> up to 8; \<open>n\<close> is the number of turns that are left.\<close>

fun iso_loop :: "nat \<Rightarrow> bytes \<Rightarrow> int \<Rightarrow> int \<Rightarrow> int option" where
  "iso_loop 0 buf pos padding = Some 0"
| "iso_loop (Suc n) buf pos padding =
     Option.bind (byte_at buf pos) (\<lambda>b.
     if b = 0 then iso_loop n buf (pos - 1) (padding + 1)
     else if b = 0x80 then Some padding
     else Some 0)"

definition padding_remove_iso7816_4 :: "bytes \<Rightarrow> int \<Rightarrow> int option" where
  "padding_remove_iso7816_4 buf pos = iso_loop 8 buf pos 1"

definition padding_add_pkcs7 :: "bytes \<Rightarrow> nat \<Rightarrow> bytes" where
  "padding_add_pkcs7 buf offset = take offset buf @ replicate (8 - offset) (of_nat (8 - offset))"

fun pkcs7_loop :: "nat \<Rightarrow> bytes \<Rightarrow> int \<Rightarrow> u8 \<Rightarrow> int option" where
  "pkcs7_loop 0 buf pos padding = Some (uint padding)"
| "pkcs7_loop (Suc n) buf pos padding =
     Option.bind (byte_at buf (pos - 1)) (\<lambda>b.
     if b \<noteq> padding then Some 0 else pkcs7_loop n buf (pos - 1) padding)"

definition padding_remove_pkcs7 :: "bytes \<Rightarrow> int \<Rightarrow> int option" where
  "padding_remove_pkcs7 buf pos =
     Option.bind (byte_at buf pos) (\<lambda>padding. pkcs7_loop (unat padding - 1) buf pos padding)"

definition padding_add_func :: "int \<Rightarrow> bytes \<Rightarrow> nat \<Rightarrow> bytes" where
  "padding_add_func mode = (if mode = 0 then padding_add_iso7816_4 else padding_add_pkcs7)"

definition padding_remove_func :: "int \<Rightarrow> bytes \<Rightarrow> int \<Rightarrow> int option" where
  "padding_remove_func mode = (if mode = 0 then padding_remove_iso7816_4 else padding_remove_pkcs7)"

definition check_padding_mode :: "int \<Rightarrow> (des_error, unit) run" where
  "check_padding_mode mode =
     (if mode < 0 \<or> mode \<ge> PADDING_MODE_COUNT then err (Invalid_padding_mode mode) else ret ())"

text \<open>\<open>src\<close> points into \<open>text\<close>, at the index \<open>i\<close>; the eight bytes of \<open>buf\<close> start uninitialised.\<close>

definition add_padding :: "bytes \<Rightarrow> int \<Rightarrow> int \<Rightarrow> int \<Rightarrow> (des_error, bytes) run" where
  "add_padding text i offset mode =
     run_bind (check_padding_mode mode) (\<lambda>_.
     if offset \<ge> 8 then err Invalid_padding
     else run_bind (lift (peek text i offset)) (\<lambda>src.
     run_bind (lift (blit (replicate 8 0) 0 src)) (\<lambda>buf.
     ret (padding_add_func mode buf (nat offset)))))"

definition remove_padding :: "bytes \<Rightarrow> int \<Rightarrow> int \<Rightarrow> (des_error, int) run" where
  "remove_padding buf pos mode =
     run_bind (check_padding_mode mode) (\<lambda>_. lift (padding_remove_func mode buf pos))"

section \<open>The Lua functions\<close>

definition des_key :: "bytes \<Rightarrow> (des_error, u32 list) run" where
  "des_key key =
     (if length key \<noteq> 8 then err (Invalid_key_size (to_i32 (int (length key))))
      else ret (des_main_ks key))"

text \<open>The argument for the padding mode, which defaults to the first, as an \<open>int\<close>.\<close>

definition opt_mode :: "int option \<Rightarrow> int" where
  "opt_mode mode = (case mode of None \<Rightarrow> PADDING_MODE_ISO7816_4 | Some m \<Rightarrow> to_i32 m)"

text \<open>A buffer of \<open>sz\<close> bytes: the array \<open>tmp\<close>, or a block of its own when that is too small.\<close>

definition chunk_buffer :: "int \<Rightarrow> bytes" where
  "chunk_buffer sz = (if sz > SMALL_CHUNK then replicate (nat sz) 0 else replicate (nat SMALL_CHUNK) 0)"

text \<open>The loop over the blocks, with its counter \<open>i\<close>, an \<open>int\<close> that must not overflow.\<close>

function des_blocks :: "u32 list \<Rightarrow> bytes \<Rightarrow> int \<Rightarrow> int \<Rightarrow> bytes \<Rightarrow> (bytes \<times> int) option" where
  "des_blocks SK text limit i buf =
     (if i < limit then
        Option.bind (peek text i 8) (\<lambda>block.
        Option.bind (blit buf i (des_crypt SK block)) (\<lambda>buf.
        if is_i32 (i + 8) then des_blocks SK text limit (i + 8) buf else None))
      else Some (buf, i))"
  by auto
termination by (relation "measure (\<lambda>(SK, text, limit, i, buf). nat (limit - i))") auto

definition ldesencode :: "bytes \<Rightarrow> bytes \<Rightarrow> int option \<Rightarrow> (des_error, bytes) run" where
  "ldesencode key text mode =
     run_bind (des_key key) (\<lambda>SK.
     let textsz = int (length text);
         chunksz = (textsz + 8) div 8 * 8;
         padding_mode = opt_mode mode
     in run_bind (lift (des_blocks SK text (to_i32 textsz - 7) 0 (chunk_buffer chunksz))) (\<lambda>(buffer, i).
        run_bind (add_padding text i (to_i32 (textsz - i)) padding_mode) (\<lambda>tail.
        run_bind (lift (blit buffer i (des_crypt SK tail))) (\<lambda>buffer.
        lift (peek buffer 0 chunksz)))))"

definition decode_keys :: "u32 list \<Rightarrow> u32 list" where
  "decode_keys ESK = concat (map (\<lambda>j. [ESK ! (30 - 2 * j), ESK ! (31 - 2 * j)]) [0..<16])"

definition ldesdecode :: "bytes \<Rightarrow> bytes \<Rightarrow> int option \<Rightarrow> (des_error, bytes) run" where
  "ldesdecode key text mode =
     run_bind (des_key key) (\<lambda>ESK.
     let SK = decode_keys ESK;
         textsz = int (length text)
     in if textsz mod 8 \<noteq> 0 \<or> textsz = 0 then err (Invalid_text_length (to_i32 textsz))
        else let padding_mode = opt_mode mode
        in run_bind (lift (des_blocks SK text textsz 0 (chunk_buffer textsz))) (\<lambda>(buffer, i).
           run_bind (remove_padding buffer (textsz - 1) padding_mode) (\<lambda>padding.
           if padding \<le> 0 \<or> padding > 8 then err Invalid_text
           else lift (peek buffer 0 (textsz - padding)))))"

section \<open>The permutations are inverse\<close>

lemma swap_bits_swap_bits:
  assumes "(m AND drop_bit n (push_bit n m)) = m"
  shows "swap_bits n m (swap_bits n m XY) = XY"
proof (cases XY)
  case (Pair X Y)
  define T where "T = (drop_bit n X XOR Y) AND m"
  have k: "bit m i \<Longrightarrow> bit (drop_bit n (push_bit n m)) i" for i
    using assms by (metis bit_and_iff)
  have b: "drop_bit n (push_bit n T) = T"
  proof (rule bit_word_eqI)
    fix i assume "i < LENGTH(32)"
    show "bit (drop_bit n (push_bit n T)) i \<longleftrightarrow> bit T i"
      using k [of i] by (auto simp: T_def bit_simps)
  qed
  have e: "drop_bit n (X XOR push_bit n T) = drop_bit n X XOR T"
    using b by (simp add: drop_bit_xor)
  have "(drop_bit n (X XOR push_bit n T) XOR (Y XOR T)) = (drop_bit n X XOR Y)"
    unfolding e by (simp add: ac_simps)
  then have "((drop_bit n (X XOR push_bit n T) XOR (Y XOR T)) AND m) = T"
    by (simp only: T_def)
  then have "swap_bits n m (X XOR push_bit n T, Y XOR T) = (X, Y)"
    by (simp only: swap_bits_def prod.case Let_def) (simp add: xor.assoc)
  moreover have "swap_bits n m (X, Y) = (X XOR push_bit n T, Y XOR T)"
    by (simp only: swap_bits_def prod.case Let_def T_def)
  ultimately show ?thesis by (simp only: Pair)
qed

lemma swap_bits_involutions [simp]:
  "swap_bits 4 0x0F0F0F0F (swap_bits 4 0x0F0F0F0F XY) = XY"
  "swap_bits 16 0x0000FFFF (swap_bits 16 0x0000FFFF XY) = XY"
  "swap_bits 2 0x33333333 (swap_bits 2 0x33333333 XY) = XY"
  "swap_bits 8 0x00FF00FF (swap_bits 8 0x00FF00FF XY) = XY"
  by (rule swap_bits_swap_bits, code_simp)+

lemma swap_odd_swap_odd [simp]: "swap_odd (swap_odd XY) = XY"
proof (cases XY)
  case (Pair X Y)
  have "((X XOR T) XOR (Y XOR T)) = (X XOR Y)" for T by (simp add: ac_simps)
  then show ?thesis by (simp add: Pair swap_odd_def Let_def xor.assoc)
qed

lemma and_all_ones [simp]: "x AND 0xFFFFFFFF = (x :: u32)"
proof -
  have "(0xFFFFFFFF :: u32) = - 1" by code_simp
  then show ?thesis by (simp only: bit.conj_one_right and.right_neutral)
qed

lemma bit_rotate_left_1: "bit (rotate_left_1 X) i \<longleftrightarrow> i < 32 \<and> bit X (if i = 0 then 31 else i - 1)"
  unfolding rotate_left_1_def and_all_ones bit_or_iff bit_push_bit_iff bit_drop_bit_eq comp_def
  using bit_imp_le_length [of X] by (cases i) (auto dest: bit_imp_le_length)

lemma bit_rotate_right_1: "bit (rotate_right_1 X) i \<longleftrightarrow> i < 32 \<and> bit X (if i = 31 then 0 else i + 1)"
  unfolding rotate_right_1_def and_all_ones bit_or_iff bit_push_bit_iff bit_drop_bit_eq comp_def
  by (auto dest: bit_imp_le_length)

lemma rotate_inverse [simp]: "rotate_right_1 (rotate_left_1 X) = X" "rotate_left_1 (rotate_right_1 X) = X"
  by (rule bit_word_eqI; auto simp: bit_rotate_left_1 bit_rotate_right_1)+

lemma DES_FP_IP [simp]: "DES_FP (DES_IP XY) = XY"
  by (cases XY) (simp add: DES_FP_def DES_IP_def split_beta Let_def)

lemma DES_IP_FP [simp]: "DES_IP (DES_FP XY) = XY"
  by (cases XY) (simp add: DES_FP_def DES_IP_def split_beta Let_def)

section \<open>The rounds in reverse\<close>

lemma DES_ROUND_twice: "DES_ROUND k k' X (DES_ROUND k k' X Y) = Y"
  by (simp add: DES_ROUND_def Let_def ac_simps)

text \<open>The subkeys in the order of decoding: the pairs are reversed, each pair keeps its order.\<close>

fun reverse_pairs :: "u32 list \<Rightarrow> u32 list" where
  "reverse_pairs (a # b # ks) = reverse_pairs ks @ [a, b]"
| "reverse_pairs ks = ks"

lemma length_reverse_pairs [simp]: "length (reverse_pairs ks) = length ks"
  by (induction ks rule: reverse_pairs.induct) auto

lemma des_rounds_append:
  "length xs mod 4 = 0 \<Longrightarrow> des_rounds (xs @ ys) XY = des_rounds ys (des_rounds xs XY)"
proof (induction xs XY rule: des_rounds.induct)
  case (1 a b c d SK X Y)
  then show ?case by (simp add: Let_def)
qed auto

lemma des_rounds_reverse:
  assumes "length SK mod 4 = 0" "des_rounds SK (X, Y) = (X', Y')"
  shows "des_rounds (reverse_pairs SK) (Y', X') = (Y, X)"
  using assms
proof (induction SK "(X, Y)" arbitrary: X Y rule: des_rounds.induct)
  case (1 a b c d SK X Y)
  let ?X = "DES_ROUND a b Y X" let ?Y = "DES_ROUND c d ?X Y"
  have l: "length SK mod 4 = 0" using 1(2) by simp
  have "des_rounds (reverse_pairs SK) (Y', X') = (?Y, ?X)"
    using 1(1) [OF refl refl l] 1(3) by (simp add: Let_def)
  then show ?case using l by (simp add: des_rounds_append DES_ROUND_twice)
qed auto

lemma length_subkeys: "length (subkeys is XY) = 2 * length is"
  by (induction "is" XY rule: subkeys.induct) (auto simp: Let_def)

lemma length_des_main_ks [simp]: "length (des_main_ks key) = 32"
  by (simp add: des_main_ks_def length_subkeys)

lemma reverse_pairs_nth:
  "length ks = 2 * n \<Longrightarrow> reverse_pairs ks = concat (map (\<lambda>j. [ks ! (2 * n - 2 - 2 * j), ks ! (2 * n - 1 - 2 * j)]) [0..<n])"
proof (induction ks arbitrary: n rule: reverse_pairs.induct)
  case (1 a b ks)
  then obtain m where n: "n = Suc m" "length ks = 2 * m" by (cases n) auto
  have e: "map (\<lambda>j. [ks ! (2 * m - 2 - 2 * j), ks ! (2 * m - 1 - 2 * j)]) [0..<m] =
      map (\<lambda>j. [(a # b # ks) ! (2 * n - 2 - 2 * j), (a # b # ks) ! (2 * n - 1 - 2 * j)]) [0..<m]"
  proof (rule map_cong [OF refl])
    fix j assume "j \<in> set [0..<m]"
    then have i: "2 * n - 2 - 2 * j = Suc (Suc (2 * m - 2 - 2 * j))" "2 * n - 1 - 2 * j = Suc (Suc (2 * m - 1 - 2 * j))"
      by (auto simp: n)
    show "[ks ! (2 * m - 2 - 2 * j), ks ! (2 * m - 1 - 2 * j)] =
        [(a # b # ks) ! (2 * n - 2 - 2 * j), (a # b # ks) ! (2 * n - 1 - 2 * j)]"
      unfolding i by simp
  qed
  show ?case unfolding reverse_pairs.simps 1(1) [OF n(2)] by (subst e) (simp add: n(1))
qed auto

lemma decode_keys_reverse: "length ks = 32 \<Longrightarrow> decode_keys ks = reverse_pairs ks"
  using reverse_pairs_nth [of ks 16] by (simp add: decode_keys_def)

section \<open>The block function\<close>

lemma length_des_crypt [simp]: "length (des_crypt SK b) = 8"
  by (simp add: des_crypt_def split_beta Let_def)

lemma des_crypt_decode:
  assumes "length SK = 32" "length b = 8"
  shows "des_crypt (decode_keys SK) (des_crypt SK b) = b"
proof -
  obtain X Y where ip: "DES_IP (GET_UINT32 b 0, GET_UINT32 b 4) = (X, Y)" by fastforce
  obtain X' Y' where r: "des_rounds SK (X, Y) = (X', Y')" by fastforce
  obtain V W where fp: "DES_FP (Y', X') = (V, W)" by fastforce
  have c: "des_crypt SK b = PUT_UINT32 V @ PUT_UINT32 W" by (simp add: des_crypt_def ip r fp Let_def)
  have ip2: "DES_IP (V, W) = (Y', X')" using DES_IP_FP [of "(Y', X')"] fp by simp
  have "des_rounds (decode_keys SK) (Y', X') = (Y, X)"
    using des_rounds_reverse [OF _ r] assms(1) by (simp add: decode_keys_reverse)
  moreover have "DES_FP (X, Y) = (GET_UINT32 b 0, GET_UINT32 b 4)" using DES_FP_IP ip by metis
  ultimately have "des_crypt (decode_keys SK) (PUT_UINT32 V @ PUT_UINT32 W) =
      PUT_UINT32 (GET_UINT32 b 0) @ PUT_UINT32 (GET_UINT32 b 4)"
    by (simp add: des_crypt_def GET_PUT ip2 Let_def)
  also have "\<dots> = b" using assms(2) PUT_GET [of 0 b] PUT_GET [of 4 b]
    by simp
  finally show ?thesis by (simp add: c)
qed

section \<open>The interface of a padding mode\<close>

text \<open>
  What the encoder and the decoder need of a padding mode: it keeps the text in front of the offset, and
  whatever stands around the padded block, the padding is found again from its last byte.
\<close>

locale padding_scheme =
  fixes add :: "bytes \<Rightarrow> nat \<Rightarrow> bytes" and remove :: "bytes \<Rightarrow> int \<Rightarrow> int option"
  assumes keeps: "length buf = 8 \<Longrightarrow> off < 8 \<Longrightarrow> take off (add buf off) = take off buf"
    and size: "length buf = 8 \<Longrightarrow> off < 8 \<Longrightarrow> length (add buf off) = 8"
    and found: "length buf = 8 \<Longrightarrow> off < 8 \<Longrightarrow>
      remove (pre @ add buf off @ post) (int (length pre) + 7) = Some (8 - int off)"
begin

lemma strip:
  assumes "length rest < 8"
  defines "b \<equiv> add (rest @ replicate (8 - length rest) 0) (length rest)"
  shows "length b = 8"
    and "\<exists>n. remove (pre @ b @ post) (int (length pre) + 7) = Some n \<and> 0 < n \<and> n \<le> 8 \<and>
      int (length pre) + 8 - n = int (length (pre @ rest)) \<and>
      take (length (pre @ rest)) (pre @ b @ post) = pre @ rest"
proof -
  let ?buf = "rest @ replicate (8 - length rest) 0"
  have l: "length ?buf = 8" using assms(1) by simp
  show len: "length b = 8" unfolding b_def by (rule size [OF l assms(1)])
  have t: "take (length rest) b = rest" unfolding b_def using keeps [OF l assms(1)] by simp
  have "remove (pre @ b @ post) (int (length pre) + 7) = Some (8 - int (length rest))"
    unfolding b_def by (rule found [OF l assms(1)])
  then show "\<exists>n. remove (pre @ b @ post) (int (length pre) + 7) = Some n \<and> 0 < n \<and> n \<le> 8 \<and>
      int (length pre) + 8 - n = int (length (pre @ rest)) \<and>
      take (length (pre @ rest)) (pre @ b @ post) = pre @ rest"
    using assms(1) len t by simp
qed

end

lemma byte_at_app: "byte_at (xs @ y # ys) (int (length xs)) = Some y"
  by (simp add: byte_at_def nth_append)

lemma iso_loop_zeros:
  "iso_loop (n + k) (xs @ replicate n 0 @ ys) (int (length xs + n) - 1) p = iso_loop k (xs @ replicate n 0 @ ys) (int (length xs) - 1) (p + int n)"
proof (induction n arbitrary: ys p)
  case (Suc n)
  have e: "xs @ replicate (Suc n) 0 @ ys = (xs @ replicate n 0) @ 0 # ys"
    by (simp add: replicate_append_same [symmetric] del: replicate_append_same)
  have "byte_at ((xs @ replicate n 0) @ 0 # ys) (int (length xs + Suc n) - 1) = Some 0"
    using byte_at_app [of "xs @ replicate n 0" 0 ys] by simp
  then have "iso_loop (Suc n + k) (xs @ replicate (Suc n) 0 @ ys) (int (length xs + Suc n) - 1) p =
      iso_loop (n + k) (xs @ replicate n 0 @ (0 # ys)) (int (length xs + n) - 1) (p + 1)"
    unfolding e by simp
  also have "\<dots> = iso_loop k (xs @ replicate (Suc n) 0 @ ys) (int (length xs) - 1) (p + int (Suc n))"
    unfolding Suc.IH e by (simp add: add.assoc)
  finally show ?case .
qed simp

interpretation iso: padding_scheme padding_add_iso7816_4 padding_remove_iso7816_4
proof unfold_locales
  fix buf pre post :: bytes and off :: nat
  assume l: "length buf = 8" "off < 8"
  show "take off (padding_add_iso7816_4 buf off) = take off buf" "length (padding_add_iso7816_4 buf off) = 8"
    using l by (simp_all add: padding_add_iso7816_4_def)
  let ?xs = "pre @ take off buf @ [0x80]"
  let ?all = "?xs @ replicate (7 - off) 0 @ post"
  have "iso_loop (7 - off + Suc off) ?all (int (length ?xs + (7 - off)) - 1) 1 =
      iso_loop (Suc off) ?all (int (length ?xs) - 1) (1 + int (7 - off))"
    by (rule iso_loop_zeros)
  moreover have "byte_at ?all (int (length ?xs) - 1) = Some 0x80"
    using byte_at_app [of "pre @ take off buf" "0x80" "replicate (7 - off) 0 @ post"] by simp
  moreover have "(0x80 :: u8) \<noteq> 0" by code_simp
  ultimately show "padding_remove_iso7816_4 (pre @ padding_add_iso7816_4 buf off @ post) (int (length pre) + 7) = Some (8 - int off)"
    using l by (simp add: padding_remove_iso7816_4_def padding_add_iso7816_4_def of_nat_diff add.commute)
qed

lemma pkcs7_loop_same:
  "k \<le> n \<Longrightarrow> pkcs7_loop k (xs @ replicate (Suc n) p @ ys) (int (length xs + n)) p = Some (uint p)"
proof (induction k arbitrary: n ys)
  case (Suc k)
  then obtain m where n: "n = Suc m" by (cases n) auto
  have e: "xs @ replicate (Suc n) p @ ys = xs @ replicate (Suc m) p @ (p # ys)"
    by (simp add: n replicate_app_Cons_same)
  have "byte_at ((xs @ replicate m p) @ p # p # ys) (int (length (xs @ replicate m p))) = Some p"
    by (rule byte_at_app)
  then have b: "byte_at (xs @ replicate (Suc n) p @ ys) (int (length xs + n) - 1) = Some p"
    unfolding e by (simp add: n replicate_app_Cons_same)
  have "pkcs7_loop k (xs @ replicate (Suc m) p @ (p # ys)) (int (length xs + m)) p = Some (uint p)"
    using Suc n by simp
  moreover have "int (length xs + n) - 1 = int (length xs + m)" by (simp add: n)
  ultimately have "pkcs7_loop k (xs @ replicate (Suc n) p @ ys) (int (length xs + n) - 1) p = Some (uint p)"
    unfolding e by (simp only:)
  then show ?case using b by (simp only: pkcs7_loop.simps Option.bind.bind_lunit) simp
qed simp

interpretation pkcs7: padding_scheme padding_add_pkcs7 padding_remove_pkcs7
proof unfold_locales
  fix buf pre post :: bytes and off :: nat
  assume l: "length buf = 8" "off < 8"
  show "take off (padding_add_pkcs7 buf off) = take off buf" "length (padding_add_pkcs7 buf off) = 8"
    using l by (simp_all add: padding_add_pkcs7_def)
  define n where "n = 7 - off"
  have n: "8 - off = Suc n" "n < 8" using l by (simp_all add: n_def)
  define p :: u8 where "p = of_nat (Suc n)"
  have u: "unat p = Suc n" unfolding p_def using n by (simp add: unat_of_nat del: of_nat_Suc)
  let ?xs = "pre @ take off buf"
  let ?all = "?xs @ replicate (Suc n) p @ post"
  have "byte_at ((?xs @ replicate n p) @ p # post) (int (length (?xs @ replicate n p))) = Some p"
    by (rule byte_at_app)
  moreover have "int (length (?xs @ replicate n p)) = int (length pre) + 7" using l n by simp
  ultimately have "byte_at ?all (int (length pre) + 7) = Some p" by (simp add: replicate_app_Cons_same)
  moreover have e: "int (length ?xs + n) = int (length pre) + 7" using l n by simp
  have "pkcs7_loop n ?all (int (length ?xs + n)) p = Some (uint p)" by (rule pkcs7_loop_same) simp
  then have "pkcs7_loop n ?all (int (length pre) + 7) p = Some (uint p)" unfolding e .
  moreover have "uint p = 8 - int off" using u n l by (simp add: uint_nat)
  ultimately show "padding_remove_pkcs7 (pre @ padding_add_pkcs7 buf off @ post) (int (length pre) + 7) = Some (8 - int off)"
    using u n by (simp add: padding_remove_pkcs7_def padding_add_pkcs7_def p_def [symmetric] del: of_nat_Suc)
qed

section \<open>Encoding and decoding\<close>

lemma des_blocks_end: "limit \<le> i \<Longrightarrow> des_blocks SK text limit i buf = Some (buf, i)"
  by simp

declare des_blocks.simps [simp del]

lemma des_blocks_concat:
  assumes "\<forall>b \<in> set bs. length b = 8" "length mid = 8 * length bs" "length p = length q"
    "limit \<le> int (length p + 8 * length bs)" "bs \<noteq> [] \<longrightarrow> int (length p + 8 * length bs) - 8 < limit"
    "int (length p + 8 * length bs) < 2 ^ 31"
  shows "des_blocks SK (p @ concat bs @ post) limit (int (length p)) (q @ mid @ r) =
    Some (q @ concat (map (des_crypt SK) bs) @ r, int (length p + 8 * length bs))"
  using assms
proof (induction bs arbitrary: p q mid)
  case Nil
  then show ?case by (simp add: des_blocks_end)
next
  case (Cons b bs)
  define m1 where "m1 = take 8 mid"
  define m2 where "m2 = drop 8 mid"
  have m: "mid = m1 @ m2" "length m1 = 8" "length m2 = 8 * length bs" using Cons.prems by (simp_all add: m1_def m2_def)
  have b: "length b = 8" using Cons.prems by simp
  have lt: "int (length p) < limit" using Cons.prems by simp
  have rd: "peek (p @ concat (b # bs) @ post) (int (length p)) 8 = Some b" using b by (simp add: peek_def)
  have wr: "blit (q @ mid @ r) (int (length p)) (des_crypt SK b) = Some ((q @ des_crypt SK b) @ m2 @ r)"
    using m Cons.prems(3) by (simp add: blit_def)
  have i32: "is_i32 (int (length p) + 8)" using Cons.prems by (simp add: is_i32_def)
  have "des_blocks SK ((p @ b) @ concat bs @ post) limit (int (length (p @ b))) ((q @ des_crypt SK b) @ m2 @ r) =
      Some ((q @ des_crypt SK b) @ concat (map (des_crypt SK) bs) @ r, int (length (p @ b) + 8 * length bs))"
    by (rule Cons.IH) (use Cons.prems m b in \<open>auto\<close>)
  moreover have "int (length (p @ b)) = int (length p) + 8" using b by simp
  ultimately have step: "des_blocks SK (p @ concat (b # bs) @ post) limit (int (length p) + 8) ((q @ des_crypt SK b) @ m2 @ r) =
      Some (q @ concat (map (des_crypt SK) (b # bs)) @ r, int (length p + 8 * length (b # bs)))"
    using b by (simp add: add.commute)
  show ?case
    by (subst des_blocks.simps) (use lt rd wr i32 step in \<open>simp only: if_True Option.bind.bind_lunit\<close>)
qed

lemma split_blocks:
  obtains bs rest where "xs = concat bs @ rest" "\<forall>b \<in> set bs. length b = 8" "length rest < (8 :: nat)"
proof -
  have "\<exists>bs rest. xs = concat bs @ rest \<and> (\<forall>b \<in> set bs. length b = 8) \<and> length rest < (8 :: nat)"
  proof (induction "length xs" arbitrary: xs rule: less_induct)
    case less
    show ?case
    proof (cases "length xs < 8")
      case True
      then show ?thesis by (intro exI [of _ "[]"] exI [of _ xs]) simp
    next
      case False
      then have "length (drop 8 xs) < length xs" by simp
      then obtain bs rest where "drop 8 xs = concat bs @ rest" "\<forall>b \<in> set bs. length b = 8" "length rest < 8"
        using less by blast
      then show ?thesis using False
        by (intro exI [of _ "take 8 xs # bs"] exI [of _ rest])
          (auto, metis append_take_drop_id append_assoc)
    qed
  qed
  then show ?thesis using that by blast
qed

lemma length_concat_8: "\<forall>b \<in> set bs. length b = 8 \<Longrightarrow> length (concat bs) = 8 * length bs"
  by (induction bs) auto

text \<open>The modes that the code knows, and what it pads the rest of a text to.\<close>

definition mode_ok :: "int option \<Rightarrow> bool" where
  "mode_ok mode \<longleftrightarrow> 0 \<le> opt_mode mode \<and> opt_mode mode < PADDING_MODE_COUNT"

definition padded :: "int option \<Rightarrow> bytes \<Rightarrow> bytes" where
  "padded mode rest = padding_add_func (opt_mode mode) (rest @ replicate (8 - length rest) 0) (length rest)"

lemma padded_length: "length rest < 8 \<Longrightarrow> length (padded mode rest) = 8"
  using iso.strip(1) pkcs7.strip(1) by (simp add: padded_def padding_add_func_def)

lemma padded_strip:
  assumes "length rest < 8" "mode_ok mode" "i = int (length pre) + 7"
  shows "\<exists>n. remove_padding (pre @ padded mode rest @ post) i (opt_mode mode) = ret n \<and> 0 < n \<and> n \<le> 8 \<and>
      int (length pre) + 8 - n = int (length (pre @ rest)) \<and>
      take (length (pre @ rest)) (pre @ padded mode rest @ post) = pre @ rest"
proof (cases "opt_mode mode = 0")
  case True
  have m: "check_padding_mode 0 = ret ()" by (simp add: check_padding_mode_def PADDING_MODE_COUNT_def)
  have f: "padding_remove_func 0 = padding_remove_iso7816_4" "padding_add_func 0 = padding_add_iso7816_4"
    by (simp_all add: padding_remove_func_def padding_add_func_def)
  show ?thesis unfolding padded_def remove_padding_def True m f run_bind_simps lift_def ret_def assms(3)
    using iso.strip(2) [OF assms(1), of pre post] by auto
next
  case False
  then have n: "opt_mode mode = 1" using assms(2) by (simp add: mode_ok_def PADDING_MODE_COUNT_def)
  have m: "check_padding_mode 1 = ret ()" by (simp add: check_padding_mode_def PADDING_MODE_COUNT_def)
  have f: "padding_remove_func 1 = padding_remove_pkcs7" "padding_add_func 1 = padding_add_pkcs7"
    by (simp_all add: padding_remove_func_def padding_add_func_def)
  show ?thesis unfolding padded_def remove_padding_def n m f run_bind_simps lift_def ret_def assms(3)
    using pkcs7.strip(2) [OF assms(1), of pre post] by auto
qed

lemma add_padding_rest:
  assumes "length rest < 8" "mode_ok mode" "i = int (length pre)" "n = int (length rest)"
  shows "add_padding (pre @ rest) i n (opt_mode mode) = ret (padded mode rest)"
proof -
  have c: "check_padding_mode (opt_mode mode) = ret ()" using assms(2) by (simp add: mode_ok_def check_padding_mode_def)
  have r: "peek (pre @ rest) i (int (length rest)) = Some rest" using assms by (simp add: peek_def)
  have w: "blit (replicate 8 0) 0 rest = Some (rest @ replicate (8 - length rest) 0)" using assms by (simp add: blit_def)
  show ?thesis using assms(1,4) by (simp add: add_padding_def c r w lift_def padded_def)
qed

lemma ldesencode_blocks:
  assumes key: "length key = 8" and tx: "text = concat bs @ rest" "\<forall>b \<in> set bs. length b = 8" "length rest < 8"
    and mode: "mode_ok mode" and small: "length text < 2 ^ 31"
  shows "ldesencode key text mode =
    ret (concat (map (des_crypt (des_main_ks key)) bs) @ des_crypt (des_main_ks key) (padded mode rest))"
proof -
  let ?SK = "des_main_ks key" let ?n = "int (length text)"
  define chunk where "chunk = (?n + 8) div 8 * 8"
  have len: "length text = 8 * length bs + length rest" using tx by (simp add: length_concat_8)
  have ch: "chunk = 8 * int (length bs) + 8"
  proof -
    have "(?n + 8) div 8 = int (length bs) + 1" using len tx(3) by (intro div_pos_geq [THEN trans] | simp)+
    then show ?thesis by (simp add: chunk_def)
  qed
  define buf where "buf = chunk_buffer chunk"
  have lb: "8 * length bs + 8 \<le> length buf" using ch by (auto simp: buf_def chunk_buffer_def SMALL_CHUNK_def)
  have i32: "to_i32 ?n = ?n" using small by (intro to_i32_id) (simp add: is_i32_def)
  have loop: "des_blocks ?SK text (?n - 7) 0 buf =
      Some (concat (map (des_crypt ?SK) bs) @ drop (8 * length bs) buf, 8 * int (length bs))"
    using des_blocks_concat [of bs "take (8 * length bs) buf" "[]" "[]" "?n - 7" ?SK rest "drop (8 * length bs) buf"]
      tx len lb small by (simp add: min_def) 
  have pad: "add_padding text (8 * int (length bs)) (to_i32 (?n - 8 * int (length bs))) (opt_mode mode) = ret (padded mode rest)"
    unfolding tx(1)
    by (rule add_padding_rest) (use tx mode len in \<open>auto simp: length_concat_8 is_i32_def intro!: to_i32_id\<close>)
  let ?c = "concat (map (des_crypt ?SK) bs)"
  have lc: "length ?c = 8 * length bs" using length_concat_8 [of "map (des_crypt ?SK) bs"] by simp
  have wr: "blit (?c @ drop (8 * length bs) buf) (8 * int (length bs)) (des_crypt ?SK (padded mode rest)) =
      Some (?c @ des_crypt ?SK (padded mode rest) @ drop (8 * length bs + 8) buf)"
    using lb lc by (simp add: blit_def nat_mult_distrib add.commute)
  have rd: "peek (?c @ des_crypt ?SK (padded mode rest) @ drop (8 * length bs + 8) buf) 0 chunk =
      Some (?c @ des_crypt ?SK (padded mode rest))"
    using lb lc by (simp add: peek_def ch nat_add_distrib)
  have k: "des_key key = ret ?SK" using key by (simp add: des_key_def)
  show ?thesis
    unfolding ldesencode_def k Let_def run_bind_simps chunk_def [symmetric] buf_def [symmetric] i32 loop
    by (simp add: lift_def pad wr rd)
qed

lemma ldesdecode_blocks:
  assumes key: "length key = 8" and bs: "\<forall>b \<in> set bs. length b = 8" "bs \<noteq> []"
    and small: "8 * length bs < 2 ^ 31"
  defines "ds \<equiv> concat (map (des_crypt (decode_keys (des_main_ks key))) bs)"
  shows "\<exists>buf. ldesdecode key (concat bs) mode =
    run_bind (remove_padding (ds @ buf) (8 * int (length bs) - 1) (opt_mode mode)) (\<lambda>padding.
      if padding \<le> 0 \<or> padding > 8 then err Invalid_text
      else lift (peek (ds @ buf) 0 (8 * int (length bs) - padding)))"
proof -
  let ?SK = "decode_keys (des_main_ks key)"
  have len: "length (concat bs) = 8 * length bs" using bs by (simp add: length_concat_8)
  define buf where "buf = chunk_buffer (8 * int (length bs))"
  have lb: "8 * length bs \<le> length buf" by (auto simp: buf_def chunk_buffer_def SMALL_CHUNK_def)
  have loop: "des_blocks ?SK (concat bs) (8 * int (length bs)) 0 buf =
      Some (ds @ drop (8 * length bs) buf, 8 * int (length bs))"
    using des_blocks_concat [of bs "take (8 * length bs) buf" "[]" "[]" "8 * int (length bs)" ?SK "[]" "drop (8 * length bs) buf"]
      bs len lb small by (simp add: min_def ds_def)
  have k: "des_key key = ret (des_main_ks key)" using key by (simp add: des_key_def)
  show ?thesis
    unfolding ldesdecode_def k Let_def len of_nat_mult of_nat_numeral using bs(2)
    by (intro exI [of _ "drop (8 * length bs) buf"]) (simp add: buf_def [symmetric] loop lift_def)
qed

text \<open>C19: \<open>desencode\<close> and \<open>desdecode\<close> are inverse: for every key of eight bytes, every text (shorter than 2 GB)
  and both padding modes, encoding succeeds and decoding its result with the same key and mode gives the text.\<close>

theorem des_roundtrip:
  assumes "length key = 8" "length text + 8 < 2 ^ 31" "mode_ok mode"
  shows "\<exists>c. ldesencode key text mode = ret c \<and> ldesdecode key c mode = ret text"
proof -
  let ?SK = "des_main_ks key"
  obtain bs rest where tx: "text = concat bs @ rest" "\<forall>b \<in> set bs. length b = 8" "length rest < 8"
    by (rule split_blocks)
  define cs where "cs = map (des_crypt ?SK) (bs @ [padded mode rest])"
  have len: "length text = 8 * length bs + length rest" using tx by (simp add: length_concat_8)
  have enc: "ldesencode key text mode = ret (concat cs)"
    using ldesencode_blocks [OF assms(1) tx assms(3)] assms(2) by (simp add: cs_def)
  have all8: "\<forall>b \<in> set (bs @ [padded mode rest]). length b = 8" using tx by (simp add: padded_length)
  then have "map (des_crypt (decode_keys ?SK)) cs = bs @ [padded mode rest]"
    unfolding cs_def map_map by (intro map_idI) (auto simp: des_crypt_decode)
  then have ds: "concat (map (des_crypt (decode_keys ?SK)) cs) = concat bs @ padded mode rest" by simp
  have cs: "\<forall>b \<in> set cs. length b = 8" "cs \<noteq> []" "8 * length cs < 2 ^ 31"
    using assms(2) len by (auto simp: cs_def)
  have lcs: "8 * int (length cs) = int (length (concat bs)) + 8" using tx by (simp add: cs_def length_concat_8)
  obtain buf where dec: "ldesdecode key (concat cs) mode =
    run_bind (remove_padding (concat bs @ padded mode rest @ buf) (int (length (concat bs)) + 8 - 1) (opt_mode mode)) (\<lambda>padding.
      if padding \<le> 0 \<or> padding > 8 then err Invalid_text
      else lift (peek (concat bs @ padded mode rest @ buf) 0 (int (length (concat bs)) + 8 - padding)))"
    using ldesdecode_blocks [OF assms(1) cs, of mode] unfolding ds lcs append_assoc by blast
  obtain n where n: "remove_padding (concat bs @ padded mode rest @ buf) (int (length (concat bs)) + 8 - 1) (opt_mode mode) = ret n"
      "0 < n" "n \<le> 8" "int (length (concat bs)) + 8 - n = int (length text)"
      "take (length text) (concat bs @ padded mode rest @ buf) = text"
    using padded_strip [OF tx(3) assms(3), of "int (length (concat bs)) + 8 - 1" "concat bs" buf]
    unfolding tx(1) [symmetric] by auto
  have "peek (concat bs @ padded mode rest @ buf) 0 (int (length text)) = Some text"
    using n(5) tx by (simp add: peek_def padded_length nat_add_distrib)
  then have "ldesdecode key (concat cs) mode = ret text" unfolding dec n(1) using n(2-4) by (simp add: lift_def ret_def)
  then show ?thesis using enc by blast
qed

theorem des_roundtrip_witness:
  "\<exists>c. ldesencode [1, 2, 3, 4, 5, 6, 7, 8] [65, 66, 67] (Some 1) = ret c \<and>
     ldesdecode [1, 2, 3, 4, 5, 6, 7, 8] c (Some 1) = ret [65, 66, 67]"
  by (rule des_roundtrip) (simp_all add: mode_ok_def opt_mode_def PADDING_MODE_COUNT_def to_i32_def)

lemma pkcs7_loop_out: "i < int n \<Longrightarrow> i < int k \<Longrightarrow> 0 \<le> i \<Longrightarrow> pkcs7_loop n (replicate k p @ buf) i p = None"
proof (induction n arbitrary: i)
  case (Suc n)
  show ?case
  proof (cases "i = 0")
    case True
    then show ?thesis by (simp add: byte_at_def)
  next
    case False
    then have "byte_at (replicate k p @ buf) (i - 1) = Some p" using Suc.prems by (simp add: byte_at_def nth_append nat_less_iff)
    moreover have "pkcs7_loop n (replicate k p @ buf) (i - 1) p = None" using Suc False by simp
    ultimately show ?thesis by simp
  qed
qed simp

text \<open>C33: Removing the PKCS#7 padding checks the length byte only afterwards: for every key there is a block
  that \<open>desdecode\<close> decrypts to nine times eight, and then reads the byte in front of its buffer.\<close>

theorem desdecode_overread:
  assumes "length key = 8"
  shows "\<exists>block. length block = 8 \<and> ldesdecode key block (Some PADDING_MODE_PKCS7) = None"
proof -
  define b where "b = des_crypt (des_main_ks key) (replicate 8 9)"
  have d: "des_crypt (decode_keys (des_main_ks key)) b = replicate 8 9" unfolding b_def by (rule des_crypt_decode) simp_all
  have l: "length b = 8" by (simp add: b_def)
  have one: "8 * int (length [b]) - 1 = 7" "8 * int (length [b]) = 8" "concat [b] = b"
    "concat (map (des_crypt (decode_keys (des_main_ks key))) [b]) = replicate 8 9"
    using d by simp_all
  obtain buf where dec: "ldesdecode key b (Some 1) =
    run_bind (remove_padding (replicate 8 9 @ buf) 7 (opt_mode (Some 1))) (\<lambda>padding.
      if padding \<le> 0 \<or> padding > 8 then err Invalid_text
      else lift (peek (replicate 8 9 @ buf) 0 (8 - padding)))"
    using ldesdecode_blocks [OF assms, of "[b]" "Some 1"] l unfolding one by auto
  have m: "opt_mode (Some 1) = 1" by (simp add: opt_mode_def to_i32_def)
  have u: "unat (9 :: u8) - 1 = 8" by simp
  have "byte_at (replicate 8 9 @ buf) 7 = Some 9" by (simp add: byte_at_def nth_append)
  moreover have "pkcs7_loop 8 (replicate 8 9 @ buf) 7 9 = None" by (rule pkcs7_loop_out) simp_all
  ultimately have "padding_remove_pkcs7 (replicate 8 9 @ buf) 7 = None"
    unfolding padding_remove_pkcs7_def by (simp only: Option.bind.bind_lunit u)
  then have "remove_padding (replicate 8 9 @ buf) 7 1 = None"
    by (simp add: remove_padding_def check_padding_mode_def PADDING_MODE_COUNT_def padding_remove_func_def lift_def)
  then show ?thesis using dec l by (intro exI [of _ b]) (simp add: m PADDING_MODE_PKCS7_def)
qed

theorem desdecode_overread_witness:
  "\<exists>block. length block = 8 \<and> ldesdecode [1, 2, 3, 4, 5, 6, 7, 8] block (Some PADDING_MODE_PKCS7) = None"
  by (rule desdecode_overread) simp

end
