(* ===== verification/Sha1.thy ===== *)
theory Sha1
  imports Words
begin

text \<open>
  \<open>lualib-src/lsha1.c\<close>: SHA-1 of a text fed in pieces, and the HMAC on it. The context is a record, its
  arrays are lists; \<open>None\<close> is an access outside an array. The unrolled rounds of the transform rename the five
  variables instead of moving them; here the tuple of the variables turns by one place after each round, so
  after 80 rounds each is in its own place. Words are loaded in the byte order of the machine, little-endian.

  The specification is the standard's: the text with its padding, cut into blocks of 64 bytes, and the
  compression function over the message schedule of 80 words. The context after any number of updates stands
  for the text so far, whatever the pieces were, so the digest is the standard's for texts below 512 MB.
\<close>

unbundle bit_operations_syntax

section \<open>Model\<close>

record SHA1_CTX =
  ctx_state :: "u32 list"
  ctx_count0 :: u32
  ctx_count1 :: u32
  ctx_buffer :: bytes

definition rol :: "u32 \<Rightarrow> nat \<Rightarrow> u32" where
  "rol x n = push_bit n x OR drop_bit (32 - n) x"

text \<open>\<open>blk0\<close> swaps the bytes of a loaded word in its place, \<open>blk\<close> extends the schedule in the array of 16 words.\<close>

definition blk0 :: "u32 list \<Rightarrow> nat \<Rightarrow> u32 \<times> u32 list" where
  "blk0 l i =
     (let w = (rol (l ! i) 24 AND 0xFF00FF00) OR (rol (l ! i) 8 AND 0x00FF00FF) in (w, l[i := w]))"

definition blk :: "u32 list \<Rightarrow> nat \<Rightarrow> u32 \<times> u32 list" where
  "blk l i =
     (let w = rol (l ! ((i + 13) mod 16) XOR l ! ((i + 8) mod 16) XOR l ! ((i + 2) mod 16) XOR l ! (i mod 16)) 1
      in (w, l[i mod 16 := w]))"

type_synonym vars5 = "u32 \<times> u32 \<times> u32 \<times> u32 \<times> u32"

text \<open>The macros \<open>R0\<close> to \<open>R4\<close> on the variables \<open>v, w, x, y, z\<close>; they change \<open>z\<close> and \<open>w\<close>.\<close>

definition sha_round :: "nat \<Rightarrow> vars5 \<times> u32 list \<Rightarrow> vars5 \<times> u32 list" where
  "sha_round i = (\<lambda>((v, w, x, y, z), l).
     let (b, l) = (if i < 16 then blk0 l i else blk l i);
         z = (if i < 20 then z + (((w AND (x XOR y)) XOR y) + b + 0x5A827999 + rol v 5)
              else if i < 40 then z + ((w XOR x XOR y) + b + 0x6ED9EBA1 + rol v 5)
              else if i < 60 then z + ((((w OR x) AND y) OR (w AND x)) + b + 0x8F1BBCDC + rol v 5)
              else z + ((w XOR x XOR y) + b + 0xCA62C1D6 + rol v 5));
         w = rol w 30
     in ((z, v, w, x, y), l))"

definition SHA1_Transform :: "u32 list \<Rightarrow> bytes \<Rightarrow> u32 list" where
  "SHA1_Transform state buffer =
     (let block = map (\<lambda>i. read32 buffer (4 * i)) [0..<16];
          ((a, b, c, d, e), block) =
            fold sha_round [0..<80] ((state ! 0, state ! 1, state ! 2, state ! 3, state ! 4), block)
      in [state ! 0 + a, state ! 1 + b, state ! 2 + c, state ! 3 + d, state ! 4 + e])"

text \<open>The buffer of a new context is uninitialised.\<close>

definition sat_SHA1_Init :: SHA1_CTX where
  "sat_SHA1_Init = \<lparr>ctx_state = [0x67452301, 0xEFCDAB89, 0x98BADCFE, 0x10325476, 0xC3D2E1F0],
     ctx_count0 = 0, ctx_count1 = 0, ctx_buffer = replicate 64 0\<rparr>"

function transform_loop :: "u32 list \<Rightarrow> bytes \<Rightarrow> int \<Rightarrow> (u32 list \<times> int) option" where
  "transform_loop state data i =
     (if i + 63 < int (length data) then
        Option.bind (peek data i 64) (\<lambda>b. transform_loop (SHA1_Transform state b) data (i + 64))
      else Some (state, i))"
  by auto
termination by (relation "measure (\<lambda>(state, data, i). nat (int (length data) - i))") auto

text \<open>
  \<open>len << 3\<close> is computed in 64 bits, its sum with \<open>count[0]\<close> is stored in 32, and that is compared with
  the 64-bit value.
\<close>

definition add_count :: "SHA1_CTX \<Rightarrow> int \<Rightarrow> SHA1_CTX" where
  "add_count ctx len =
     (let len3 = len * 8 mod 2 ^ 64;
          count0 = ctx_count0 ctx + word_of_int len3;
          count1 = (if uint count0 < len3 then ctx_count1 ctx + 1 else ctx_count1 ctx)
      in ctx \<lparr>ctx_count0 := count0, ctx_count1 := count1 + word_of_int (len div 2 ^ 29)\<rparr>)"

definition sat_SHA1_Update :: "SHA1_CTX \<Rightarrow> bytes \<Rightarrow> SHA1_CTX option" where
  "sat_SHA1_Update ctx data =
     (let len = int (length data);
          j = int (unat (drop_bit 3 (ctx_count0 ctx) AND 63));
          ctx = add_count ctx len
      in if j + len > 63 then
           Option.bind (peek data 0 (64 - j)) (\<lambda>d.
           Option.bind (blit (ctx_buffer ctx) j d) (\<lambda>buffer.
           Option.bind (transform_loop (SHA1_Transform (ctx_state ctx) buffer) data (64 - j)) (\<lambda>(state, i).
           Option.bind (peek data i (len - i)) (\<lambda>d.
           Option.bind (blit buffer 0 d) (\<lambda>buffer.
           Some (ctx \<lparr>ctx_state := state, ctx_buffer := buffer\<rparr>))))))
         else
           Option.bind (blit (ctx_buffer ctx) j data) (\<lambda>buffer.
           Some (ctx \<lparr>ctx_buffer := buffer\<rparr>)))"

partial_function (option) pad_loop :: "SHA1_CTX \<Rightarrow> SHA1_CTX option" where
  "pad_loop ctx =
     (if ctx_count0 ctx AND 504 \<noteq> 448 then Option.bind (sat_SHA1_Update ctx [0]) pad_loop else Some ctx)"

declare pad_loop.simps [code]

definition finalcount :: "SHA1_CTX \<Rightarrow> bytes" where
  "finalcount ctx =
     map (\<lambda>i. ucast (drop_bit ((3 - i mod 4) * 8) (if i \<ge> 4 then ctx_count0 ctx else ctx_count1 ctx) AND 255)) [0..<8]"

definition sat_SHA1_Final :: "SHA1_CTX \<Rightarrow> bytes option" where
  "sat_SHA1_Final ctx =
     (let count = finalcount ctx
      in Option.bind (sat_SHA1_Update ctx [128]) (\<lambda>ctx.
         Option.bind (pad_loop ctx) (\<lambda>ctx.
         Option.bind (sat_SHA1_Update ctx count) (\<lambda>ctx.
         Some (map (\<lambda>i. ucast (drop_bit ((3 - i mod 4) * 8) (ctx_state ctx ! (i div 4)) AND 255)) [0..<20])))))"

definition lsha1 :: "bytes \<Rightarrow> bytes option" where
  "lsha1 text = Option.bind (sat_SHA1_Update sat_SHA1_Init text) sat_SHA1_Final"

text \<open>\<open>xor_key\<close> works on the key as 16 words of the machine.\<close>

definition xor_key :: "bytes \<Rightarrow> u32 \<Rightarrow> bytes" where
  "xor_key key x = concat (map (\<lambda>i. write32 (read32 key (4 * i) XOR x)) [0..<16])"

definition BLOCKSIZE :: int where "BLOCKSIZE = 64"

definition lhmac_sha1 :: "bytes \<Rightarrow> bytes \<Rightarrow> bytes option" where
  "lhmac_sha1 key text =
     (let rkey = replicate 64 0
      in Option.bind (if int (length key) > BLOCKSIZE
                      then Option.bind (Option.bind (sat_SHA1_Update sat_SHA1_Init key) sat_SHA1_Final) (blit rkey 0)
                      else blit rkey 0 key) (\<lambda>rkey.
         let rkey = xor_key rkey 0x5c5c5c5c
         in Option.bind (sat_SHA1_Update sat_SHA1_Init rkey) (\<lambda>ctx1.
            let rkey = xor_key rkey (0x5c5c5c5c XOR 0x36363636)
            in Option.bind (sat_SHA1_Update sat_SHA1_Init rkey) (\<lambda>ctx2.
               Option.bind (sat_SHA1_Update ctx2 text) (\<lambda>ctx2.
               Option.bind (sat_SHA1_Final ctx2) (\<lambda>digest2.
               Option.bind (sat_SHA1_Update ctx1 digest2) sat_SHA1_Final))))))"


section \<open>The standard\<close>

function sha_W :: "bytes \<Rightarrow> nat \<Rightarrow> u32" where
  "sha_W b t =
     (if t < 16 then GET_UINT32 b (4 * t)
      else rol (sha_W b (t - 3) XOR sha_W b (t - 8) XOR sha_W b (t - 14) XOR sha_W b (t - 16)) 1)"
  by auto
termination by (relation "measure snd") auto

declare sha_W.simps [simp del]

definition sha_f :: "nat \<Rightarrow> u32 \<Rightarrow> u32 \<Rightarrow> u32 \<Rightarrow> u32" where
  "sha_f t x y z =
     (if t < 20 then (x AND y) XOR (NOT x AND z)
      else if t < 40 then x XOR y XOR z
      else if t < 60 then (x AND y) XOR (x AND z) XOR (y AND z)
      else x XOR y XOR z)"

definition sha_K :: "nat \<Rightarrow> u32" where
  "sha_K t = (if t < 20 then 0x5A827999 else if t < 40 then 0x6ED9EBA1 else if t < 60 then 0x8F1BBCDC else 0xCA62C1D6)"

definition sha_step :: "bytes \<Rightarrow> nat \<Rightarrow> vars5 \<Rightarrow> vars5" where
  "sha_step m t = (\<lambda>(a, b, c, d, e). (rol a 5 + sha_f t b c d + e + sha_K t + sha_W m t, a, rol b 30, c, d))"

definition sha_compress :: "u32 list \<Rightarrow> bytes \<Rightarrow> u32 list" where
  "sha_compress H m =
     (let (a, b, c, d, e) = fold (sha_step m) [0..<80] (H ! 0, H ! 1, H ! 2, H ! 3, H ! 4)
      in [H ! 0 + a, H ! 1 + b, H ! 2 + c, H ! 3 + d, H ! 4 + e])"

text \<open>Compressing the whole blocks of a text; what is left is shorter than a block.\<close>

function sha_blocks :: "u32 list \<Rightarrow> bytes \<Rightarrow> u32 list \<times> bytes" where
  "sha_blocks H m =
     (if length m < 64 then (H, m) else sha_blocks (sha_compress H (take 64 m)) (drop 64 m))"
  by auto
termination by (relation "measure (\<lambda>(H, m). length m)") auto

declare sha_blocks.simps [simp del]

definition sha_H0 :: "u32 list" where
  "sha_H0 = [0x67452301, 0xEFCDAB89, 0x98BADCFE, 0x10325476, 0xC3D2E1F0]"

definition sha_pad :: "bytes \<Rightarrow> bytes" where
  "sha_pad m = m @ [0x80] @ replicate ((119 - length m mod 64) mod 64) 0 @ be_bytes 8 (8 * int (length m))"

definition sha1_spec :: "bytes \<Rightarrow> bytes" where
  "sha1_spec m = concat (map PUT_UINT32 (fst (sha_blocks sha_H0 (sha_pad m))))"

section \<open>The transform is the compression function\<close>

lemma bit_rol: "n < 32 \<Longrightarrow> bit (rol x n) i \<longleftrightarrow> i < 32 \<and> bit x (if i < n then 32 + i - n else i - n)"
  unfolding rol_def by (auto simp: bit_simps dest: bit_imp_le_length)

lemma sha_mask: "bit (0xFF00FF00 :: u32) n \<longleftrightarrow> 24 \<le> n \<and> n < 32 \<or> 8 \<le> n \<and> n < 16"
  "bit (0x00FF00FF :: u32) n \<longleftrightarrow> 16 \<le> n \<and> n < 24 \<or> n < 8"
proof -
  have m: "(0xFF00FF00 :: u32) = push_bit 24 (mask 8) OR push_bit 8 (mask 8)" "(0x00FF00FF :: u32) = push_bit 16 (mask 8) OR mask 8"
    by code_simp+
  show "bit (0xFF00FF00 :: u32) n \<longleftrightarrow> 24 \<le> n \<and> n < 32 \<or> 8 \<le> n \<and> n < 16"
    "bit (0x00FF00FF :: u32) n \<longleftrightarrow> 16 \<le> n \<and> n < 24 \<or> n < 8"
    unfolding m by (auto simp: bit_simps)
qed

lemma eights: "m < 8 \<Longrightarrow> (8 + m) div 8 = 1" "m < 8 \<Longrightarrow> (16 + m) div 8 = 2" "m < 8 \<Longrightarrow> (24 + m) div 8 = 3"
  "m < 8 \<Longrightarrow> (8 + m) mod 8 = m" "m < 8 \<Longrightarrow> (16 + m) mod 8 = m" "m < 8 \<Longrightarrow> (24 + m) mod 8 = m" for m :: nat
  by presburger+

lemma blk0_word: "(rol (read32 b i) 24 AND 0xFF00FF00) OR (rol (read32 b i) 8 AND 0x00FF00FF) = GET_UINT32 b i"
proof (rule bit_word_eqI)
  fix n assume n: "n < LENGTH(32)"
  obtain k m where km: "n = 8 * k + m" "m < 8" by (metis div_mult_mod_eq mod_less_divisor mult.commute zero_less_numeral)
  have "k = 0 \<or> k = 1 \<or> k = 2 \<or> k = 3" using n km by auto
  then show "bit ((rol (read32 b i) 24 AND 0xFF00FF00) OR (rol (read32 b i) 8 AND 0x00FF00FF)) n = bit (GET_UINT32 b i) n"
    using km unfolding bit_or_iff bit_and_iff sha_mask
    by (elim disjE) (simp_all add: bit_rol bit_read32 bit_GET_UINT32 eights)
qed

lemma sha_choose: "((w AND (x XOR y)) XOR y) = ((w AND x) XOR (NOT w AND y))" for w :: u32
  by (rule bit_word_eqI) (auto simp: bit_simps)

lemma sha_majority: "(((w OR x) AND y) OR (w AND x)) = ((w AND x) XOR (w AND y) XOR (x AND y))" for w :: u32
  by (rule bit_word_eqI) (auto simp: bit_simps)


text \<open>
  The array of 16 words before round \<open>n\<close>: the last words of the schedule, each at its index modulo 16, and
  behind them the words that have not been swapped yet.
\<close>

definition sched_ok :: "bytes \<Rightarrow> nat \<Rightarrow> u32 list \<Rightarrow> bool" where
  "sched_ok m n l \<longleftrightarrow> length l = 16 \<and> (\<forall>t < n. n \<le> t + 16 \<longrightarrow> l ! (t mod 16) = sha_W m t) \<and>
     (\<forall>j < 16. n \<le> j \<longrightarrow> l ! j = read32 m (4 * j))"

lemma sixteens: "(29 + d) mod 16 = (13 + d) mod 16" "(24 + d) mod 16 = (8 + d) mod 16" "(18 + d) mod 16 = (2 + d) mod 16"
  "(16 + d) mod 16 = d mod 16" for d :: nat
  using mod_add_self1 [of 16 "13 + d"] mod_add_self1 [of 16 "8 + d"] mod_add_self1 [of 16 "2 + d"] mod_add_self1 [of 16 d]
  by (simp_all add: add.assoc [symmetric] del: mod_add_self1 mod_add_self2)

lemma mod_16_distinct: "t < n \<Longrightarrow> n < t + 16 \<Longrightarrow> t mod 16 \<noteq> n mod 16" for n t :: nat
proof
  assume a: "t < n" "n < t + 16" "t mod 16 = n mod 16"
  then have "16 dvd n - t" using mod_eq_dvd_iff_nat [of t n 16] by simp
  then show False using a nat_dvd_not_less [of "n - t" 16] by simp
qed

lemma sched_step:
  assumes "sched_ok m n l"
  shows "fst (if n < 16 then blk0 l n else blk l n) = sha_W m n"
    and "sched_ok m (Suc n) (snd (if n < 16 then blk0 l n else blk l n))"
proof -
  let ?b = "if n < 16 then blk0 l n else blk l n"
  have w: "fst ?b = sha_W m n"
  proof (cases "n < 16")
    case True
    then show ?thesis using assms by (simp add: blk0_def sched_ok_def Let_def blk0_word sha_W.simps [of m n])
  next
    case False
    then obtain d where d: "n = d + 16" by (metis le_Suc_ex add.commute not_less)
    have e: "(n + 13) mod 16 = (n - 3) mod 16" "(n + 8) mod 16 = (n - 8) mod 16" "(n + 2) mod 16 = (n - 14) mod 16"
        "n mod 16 = (n - 16) mod 16"
      unfolding d using sixteens [of d] by (simp_all add: add.commute)
    have "l ! ((n - 3) mod 16) = sha_W m (n - 3)" "l ! ((n - 8) mod 16) = sha_W m (n - 8)"
      "l ! ((n - 14) mod 16) = sha_W m (n - 14)" "l ! ((n - 16) mod 16) = sha_W m (n - 16)"
      using assms False by (auto simp: sched_ok_def)
    then show ?thesis unfolding if_not_P [OF False] blk_def Let_def fst_conv e using False by (simp add: sha_W.simps [of m n])
  qed
  show "fst ?b = sha_W m n" by (rule w)
  have s: "snd ?b = l[n mod 16 := sha_W m n]"
    using w by (auto simp: blk0_def blk_def Let_def split: if_splits)
  have l: "length l = 16" using assms by (simp add: sched_ok_def)
  show "sched_ok m (Suc n) (snd ?b)"
    unfolding sched_ok_def s
  proof (intro conjI allI impI)
    fix t assume t: "t < Suc n" "Suc n \<le> t + 16"
    show "l[n mod 16 := sha_W m n] ! (t mod 16) = sha_W m t"
    proof (cases "t = n")
      case True
      then show ?thesis using l by simp
    next
      case False
      then have "t mod 16 \<noteq> n mod 16" using t by (intro mod_16_distinct) auto
      then show ?thesis using assms t False by (simp add: sched_ok_def)
    qed
  next
    fix j assume "j < (16 :: nat)" "Suc n \<le> j"
    then show "l[n mod 16 := sha_W m n] ! j = read32 m (4 * j)" using assms by (simp add: sched_ok_def)
  qed (simp add: l)
qed

lemma sha_round_step:
  assumes "sched_ok m n l"
  shows "fst (sha_round n (vs, l)) = sha_step m n vs" "sched_ok m (Suc n) (snd (sha_round n (vs, l)))"
proof -
  obtain v w x y z where vs: "vs = (v, w, x, y, z)" by (metis prod_cases5)
  obtain b l' where b: "(if n < 16 then blk0 l n else blk l n) = (b, l')" by fastforce
  have w: "b = sha_W m n" "sched_ok m (Suc n) l'" using sched_step [OF assms] b by simp_all
  show "fst (sha_round n (vs, l)) = sha_step m n vs"
    unfolding vs sha_round_def prod.case Let_def b sha_choose sha_majority
    by (simp add: sha_step_def sha_f_def sha_K_def w(1) add.commute add.left_commute add.assoc)
  show "sched_ok m (Suc n) (snd (sha_round n (vs, l)))"
    unfolding vs sha_round_def prod.case Let_def b using w(2) by simp
qed

lemma sha_rounds:
  "sched_ok m 0 l \<Longrightarrow>
     fst (fold sha_round [0..<n] (vs, l)) = fold (sha_step m) [0..<n] vs \<and>
     sched_ok m n (snd (fold sha_round [0..<n] (vs, l)))"
proof (induction n)
  case (Suc n)
  let ?s = "fold sha_round [0..<n] (vs, l)"
  have i: "fst ?s = fold (sha_step m) [0..<n] vs" "sched_ok m n (snd ?s)" using Suc by simp_all
  have "fold sha_round [0..<Suc n] (vs, l) = sha_round n (fst ?s, snd ?s)" by simp
  then show ?case using sha_round_step [OF i(2), of "fst ?s"] i(1) by simp
qed simp

lemma SHA1_Transform_compress: "SHA1_Transform H m = sha_compress H m"
proof -
  let ?l = "map (\<lambda>i. read32 m (4 * i)) [0..<16]"
  have "sched_ok m 0 ?l" by (simp add: sched_ok_def)
  then have "fst (fold sha_round [0..<80] ((H ! 0, H ! 1, H ! 2, H ! 3, H ! 4), ?l)) =
      fold (sha_step m) [0..<80] (H ! 0, H ! 1, H ! 2, H ! 3, H ! 4)"
    using sha_rounds by blast
  then show ?thesis unfolding SHA1_Transform_def sha_compress_def Let_def
    by (metis (no_types, lifting) case_prod_beta)
qed


section \<open>Updates\<close>

lemma sha_blocks_append:
  "sha_blocks H (xs @ ys) = (let (H', r) = sha_blocks H xs in sha_blocks H' (r @ ys))"
proof (induction H xs rule: sha_blocks.induct)
  case (1 H m)
  show ?case
  proof (cases "length m < 64")
    case True
    then show ?thesis by (simp add: sha_blocks.simps [of H m])
  next
    case False
    then have "sha_blocks H (m @ ys) = sha_blocks (sha_compress H (take 64 m)) (drop 64 m @ ys)"
      by (subst sha_blocks.simps) simp
    also have "\<dots> = (let (H', r) = sha_blocks (sha_compress H (take 64 m)) (drop 64 m) in sha_blocks H' (r @ ys))"
      by (rule 1 [OF False])
    finally show ?thesis using False by (simp add: sha_blocks.simps [of H m])
  qed
qed

lemma sha_blocks_rest: "length (snd (sha_blocks H m)) = length m mod 64"
proof (induction H m rule: sha_blocks.induct)
  case (1 H m)
  show ?case
  proof (cases "length m < 64")
    case True
    then show ?thesis by (simp add: sha_blocks.simps [of H m])
  next
    case False
    then show ?thesis using 1 by (simp add: sha_blocks.simps [of H m] le_mod_geq)
  qed
qed

text \<open>A context that stands for the text \<open>m\<close>.\<close>

definition ctx_ok :: "SHA1_CTX \<Rightarrow> bytes \<Rightarrow> bool" where
  "ctx_ok ctx m \<longleftrightarrow>
     ctx_state ctx = fst (sha_blocks sha_H0 m) \<and> length (ctx_buffer ctx) = 64 \<and>
     take (length m mod 64) (ctx_buffer ctx) = snd (sha_blocks sha_H0 m) \<and>
     ctx_count0 ctx = word_of_int (8 * int (length m)) \<and>
     ctx_count1 ctx = word_of_int (8 * int (length m) div 2 ^ 32)"

lemma ctx_ok_init: "ctx_ok sat_SHA1_Init []"
  by (simp add: ctx_ok_def sat_SHA1_Init_def sha_blocks.simps [of _ "[]"] sha_H0_def)

declare transform_loop.simps [simp del]

lemma transform_loop_blocks:
  "0 \<le> i \<Longrightarrow> i \<le> int (length data) \<Longrightarrow>
     \<exists>j. transform_loop H data i = Some (fst (sha_blocks H (drop (nat i) data)), j) \<and> i \<le> j \<and> j \<le> int (length data) \<and>
       drop (nat j) data = snd (sha_blocks H (drop (nat i) data))"
proof (induction H data i rule: transform_loop.induct)
  case (1 H data i)
  show ?case
  proof (cases "i + 63 < int (length data)")
    case False
    then have "length (drop (nat i) data) < 64" using 1(2,3) by auto
    then show ?thesis using False 1(2,3) by (simp add: transform_loop.simps [of H data i] sha_blocks.simps [of H "drop (nat i) data"])
  next
    case True
    let ?b = "take 64 (drop (nat i) data)"
    have p: "peek data i 64 = Some ?b"
    proof -
      have "0 \<le> i \<and> 0 \<le> (64 :: int) \<and> i + 64 \<le> int (length data)" using True 1(2) by auto
      then show ?thesis by (simp only: peek_def if_True) simp
    qed
    have d: "drop 64 (drop (nat i) data) = drop (nat (i + 64)) data" using 1(2) by (simp add: nat_add_distrib add.commute)
    have "\<not> length (drop (nat i) data) < 64" using True 1(2) by auto
    then have s: "sha_blocks H (drop (nat i) data) = sha_blocks (SHA1_Transform H ?b) (drop (nat (i + 64)) data)"
      by (simp only: sha_blocks.simps [of H "drop (nat i) data"] if_False SHA1_Transform_compress d)
    have "\<exists>j. transform_loop (SHA1_Transform H ?b) data (i + 64) =
        Some (fst (sha_blocks (SHA1_Transform H ?b) (drop (nat (i + 64)) data)), j) \<and> i + 64 \<le> j \<and> j \<le> int (length data) \<and>
        drop (nat j) data = snd (sha_blocks (SHA1_Transform H ?b) (drop (nat (i + 64)) data))"
      by (rule 1(1) [OF True p]) (use True 1(2) in auto)
    then show ?thesis unfolding s using True p by (subst transform_loop.simps) auto
  qed
qed

lemma count_index: "ctx_count0 ctx = word_of_int (8 * int n) \<Longrightarrow> int (unat (drop_bit 3 (ctx_count0 ctx) AND 63)) = int (n mod 64)"
proof -
  assume c: "ctx_count0 ctx = word_of_int (8 * int n)"
  have m: "(63 :: u32) = mask 6" by (simp add: mask_eq_exp_minus_1)
  have "unat (drop_bit 3 (ctx_count0 ctx) AND 63) = unat (drop_bit 3 (ctx_count0 ctx)) mod 64"
    unfolding m take_bit_eq_mask [symmetric] unsigned_take_bit_eq by (simp add: take_bit_eq_mod)
  also have "\<dots> = unat (ctx_count0 ctx) div 8 mod 64" using unat_drop_bit_div [of 3 "ctx_count0 ctx"] by simp
  also have "unat (ctx_count0 ctx) = 8 * n mod 2 ^ 32"
  proof -
    have "ctx_count0 ctx = of_nat (8 * n)" using c by simp
    then show ?thesis by (simp only: unat_of_nat) simp
  qed
  also have "(8 * n mod 2 ^ 32) div 8 mod 64 = n mod 64"
  proof -
    have "8 * n mod 2 ^ 32 = 8 * (n mod 2 ^ 29)" using mult_mod_right [of 8 n "2 ^ 29"] by simp
    then show ?thesis by (simp only: nonzero_mult_div_cancel_left) (simp add: mod_mod_cancel)
  qed
  finally show ?thesis by simp
qed


lemma carry_32:
  fixes x y :: int
  assumes "0 \<le> x" "0 \<le> y" "y < 2 ^ 32"
  shows "(x + y) div 2 ^ 32 = x div 2 ^ 32 + (if (x + y) mod 2 ^ 32 < y then 1 else 0)"
proof -
  define q where "q = x div 2 ^ 32"
  define r where "r = x mod 2 ^ 32"
  have x: "x = q * 2 ^ 32 + r" "0 \<le> r" "r < 2 ^ 32" by (simp_all add: q_def r_def)
  have s: "(x + y) mod 2 ^ 32 = (r + y) mod 2 ^ 32" "(x + y) div 2 ^ 32 = q + (r + y) div 2 ^ 32"
    unfolding x(1) add.assoc by simp_all
  show ?thesis
  proof (cases "r + y < 2 ^ 32")
    case True
    then have "(r + y) mod 2 ^ 32 = r + y" "(r + y) div 2 ^ 32 = 0" using x assms by auto
    then have "(x + y) mod 2 ^ 32 = r + y" "(x + y) div 2 ^ 32 = q" unfolding s by simp_all
    then show ?thesis using x(2) by (simp only: q_def [symmetric]) simp
  next
    case False
    define z where "z = r + y - 2 ^ 32"
    have z: "r + y = z + 1 * 2 ^ 32" "0 \<le> z" "z < y" "z < 2 ^ 32" using False x assms by (auto simp: z_def)
    have "(r + y) mod 2 ^ 32 = z" "(r + y) div 2 ^ 32 = 1" unfolding z(1) using z by (simp_all del: mult_1)
    then have "(x + y) mod 2 ^ 32 = z" "(x + y) div 2 ^ 32 = q + 1" unfolding s by simp_all
    then show ?thesis using z(3) by (simp only: q_def [symmetric]) simp
  qed
qed

lemma add_count_fields [simp]:
  "ctx_state (add_count ctx n) = ctx_state ctx" "ctx_buffer (add_count ctx n) = ctx_buffer ctx"
  by (simp_all add: add_count_def Let_def)

lemma add_count_ok:
  assumes c: "ctx_count0 ctx = word_of_int (8 * int l)" "ctx_count1 ctx = word_of_int (8 * int l div 2 ^ 32)"
    and n: "n < 2 ^ 29"
  shows "ctx_count0 (add_count ctx (int n)) = word_of_int (8 * int (l + n))"
    and "ctx_count1 (add_count ctx (int n)) = word_of_int (8 * int (l + n) div 2 ^ 32)"
proof -
  define k where "k = ctx_count0 ctx + word_of_int (int n * 8 mod 2 ^ 64)"
  have small: "int n * 8 mod 2 ^ 64 = 8 * int n" "int n div 2 ^ 29 = 0" using n by simp_all
  have k': "k = ctx_count0 ctx + word_of_int (8 * int n)" unfolding k_def small ..
  have k: "k = word_of_int (8 * int (l + n))" unfolding k_def small c by (simp add: algebra_simps)
  have f: "ctx_count0 (add_count ctx (int n)) = k"
    "ctx_count1 (add_count ctx (int n)) = (if uint k < 8 * int n then ctx_count1 ctx + 1 else ctx_count1 ctx)"
    unfolding add_count_def Let_def small k' [symmetric] by simp_all
  show "ctx_count0 (add_count ctx (int n)) = word_of_int (8 * int (l + n))" using f(1) k by simp
  have e: "8 * int (l + n) = 8 * int l + 8 * int n" by simp
  have "uint k = (8 * int l + 8 * int n) mod 2 ^ 32" unfolding k e by (simp only: uint_word_of_int) simp
  then show "ctx_count1 (add_count ctx (int n)) = word_of_int (8 * int (l + n) div 2 ^ 32)"
    using carry_32 [of "8 * int l" "8 * int n"] n unfolding f(2) e c(2) by simp
qed

lemma sha_blocks_full: "length b = 64 \<Longrightarrow> sha_blocks H (b @ e) = sha_blocks (SHA1_Transform H b) e"
  unfolding SHA1_Transform_compress by (subst sha_blocks.simps) simp

lemma sha_blocks_short: "length m < 64 \<Longrightarrow> sha_blocks H m = (H, m)"
  by (subst sha_blocks.simps) simp

lemma sha_update:
  assumes ok: "ctx_ok ctx m" and n: "length data < 2 ^ 29"
  shows "\<exists>ctx'. sat_SHA1_Update ctx data = Some ctx' \<and> ctx_ok ctx' (m @ data)"
proof -
  let ?n = "int (length data)" let ?j = "length m mod 64"
  obtain H r where hr: "sha_blocks sha_H0 m = (H, r)" by fastforce
  have c: "ctx_state ctx = H" "length (ctx_buffer ctx) = 64" "take ?j (ctx_buffer ctx) = r"
    "ctx_count0 ctx = word_of_int (8 * int (length m))" "ctx_count1 ctx = word_of_int (8 * int (length m) div 2 ^ 32)"
    using ok by (simp_all add: ctx_ok_def hr)
  have lr: "length r = ?j" using sha_blocks_rest [of sha_H0 m] by (simp add: hr)
  have j: "?j < 64" by simp
  have cnt: "ctx_count0 (add_count ctx ?n) = word_of_int (8 * int (length (m @ data)))"
    "ctx_count1 (add_count ctx ?n) = word_of_int (8 * int (length (m @ data)) div 2 ^ 32)"
    using add_count_ok [OF c(4,5) n] by simp_all
  have idx: "int (unat (drop_bit 3 (ctx_count0 ctx) AND 63)) = int ?j" by (rule count_index [OF c(4)])
  have app: "sha_blocks sha_H0 (m @ data) = sha_blocks H (r @ data)" by (subst sha_blocks_append) (simp add: hr)
  have rest: "length (snd (sha_blocks sha_H0 (m @ data))) = length (m @ data) mod 64" by (rule sha_blocks_rest)
  show ?thesis
  proof (cases "int ?j + ?n > 63")
    case False
    have w: "blit (ctx_buffer ctx) (int ?j) data = Some (r @ data @ drop (?j + length data) (ctx_buffer ctx))"
      unfolding blit_def using c(2,3) False by auto
    have s: "sha_blocks sha_H0 (m @ data) = (H, r @ data)"
      unfolding app by (rule sha_blocks_short) (use False lr in auto)
    have md: "length (m @ data) mod 64 = length (r @ data)" using rest unfolding s by simp
    define ctx' where "ctx' = (add_count ctx ?n) \<lparr>ctx_buffer := r @ data @ drop (?j + length data) (ctx_buffer ctx)\<rparr>"
    have "sat_SHA1_Update ctx data = Some ctx'"
      unfolding sat_SHA1_Update_def Let_def idx using False by (simp add: w ctx'_def)
    moreover have "length (ctx_buffer ctx') = 64" using c(2) False lr by (simp add: ctx'_def)
    then have "ctx_ok ctx' (m @ data)"
      unfolding ctx_ok_def s md using c(1) cnt by (simp add: ctx'_def)
    ultimately show ?thesis by blast
  next
    case True
    define d where "d = take (64 - ?j) data"
    define e where "e = drop (64 - ?j) data"
    have de: "data = d @ e" "length d = 64 - ?j" using True j by (auto simp: d_def e_def)
    have p: "peek data 0 (64 - int ?j) = Some d" using True j by (simp add: peek_def d_def nat_diff_distrib)
    have w: "blit (ctx_buffer ctx) (int ?j) d = Some (r @ d)" using c(2,3) de j by (simp add: blit_def)
    have lb: "length (r @ d) = 64" using lr de j by simp
    have i: "nat (64 - int ?j) = 64 - ?j" using j by simp
    obtain H' r' where e': "sha_blocks (SHA1_Transform H (r @ d)) e = (H', r')" by fastforce
    obtain k where k: "transform_loop (SHA1_Transform H (r @ d)) data (64 - int ?j) = Some (H', k)"
        "64 - int ?j \<le> k" "k \<le> ?n" "drop (nat k) data = r'"
      using transform_loop_blocks [of "64 - int ?j" data "SHA1_Transform H (r @ d)"] True j e' unfolding i e_def by auto
    have s: "sha_blocks sha_H0 (m @ data) = (H', r')"
      unfolding app using sha_blocks_full [OF lb, of H e] e' de(1) by simp
    have lr': "length (m @ data) mod 64 = length r'" using rest unfolding s by simp
    have short: "length r' < 64" unfolding lr' [symmetric] by simp
    have ln: "length r' = nat (?n - k)" using k(2-4) j by auto
    have pk: "peek data k (?n - k) = Some r'" using k(2-4) j ln by (simp add: peek_def)
    have wr: "blit (r @ d) 0 r' = Some (r' @ drop (length r') (r @ d))" using lb short by (simp add: blit_def)
    define ctx' where "ctx' = (add_count ctx ?n) \<lparr>ctx_state := H', ctx_buffer := r' @ drop (length r') (r @ d)\<rparr>"
    have "sat_SHA1_Update ctx data = Some ctx'"
      unfolding sat_SHA1_Update_def Let_def idx using True by (simp add: p w k(1) pk wr c(1) ctx'_def)
    moreover have "ctx_ok ctx' (m @ data)"
      unfolding ctx_ok_def s lr' using lb short cnt by (simp add: ctx'_def)
    ultimately show ?thesis by blast
  qed
qed

section \<open>The digest\<close>

lemma digest_words:
  assumes "length H = 5"
  shows "map (\<lambda>i. ucast (drop_bit ((3 - i mod 4) * 8) (H ! (i div 4)) AND 255)) [0..<20] = concat (map PUT_UINT32 H)"
proof -
  obtain a b c d e where H: "H = [a, b, c, d, e]" using assms by (auto simp: length_Suc_conv numeral_eq_Suc)
  have m: "(255 :: u32) = mask 8" by (simp add: mask_eq_exp_minus_1)
  have u: "ucast (w AND mask 8) = (ucast w :: u8)" for w :: u32
    by (rule bit_word_eqI) (auto simp: bit_simps)
  show ?thesis unfolding H m u by (simp add: upt_rec PUT_UINT32_def)
qed

lemma length_compress [simp]: "length (sha_compress H m) = 5"
  by (simp add: sha_compress_def split_beta Let_def)

lemma length_sha_blocks: "length H = 5 \<Longrightarrow> length (fst (sha_blocks H m)) = 5"
proof (induction H m rule: sha_blocks.induct)
  case (1 H m)
  then show ?case by (cases "length m < 64") (simp_all add: sha_blocks.simps [of H m])
qed

lemma byte_of_count:
  assumes "k \<le> 24"
  shows "ucast (drop_bit k (word_of_int x :: u32) AND 255) = (word_of_int (x div 2 ^ k) :: u8)"
proof -
  have m: "(255 :: u32) = mask 8" by (simp add: mask_eq_exp_minus_1)
  show ?thesis unfolding m drop_bit_eq_div [symmetric]
    by (rule bit_word_eqI) (use assms in \<open>auto simp: bit_simps\<close>)
qed

lemma finalcount_bytes:
  assumes "ctx_ok ctx m"
  shows "finalcount ctx = be_bytes 8 (8 * int (length m))"
proof -
  let ?x = "8 * int (length m)"
  have c: "ctx_count0 ctx = word_of_int ?x" "ctx_count1 ctx = word_of_int (?x div 2 ^ 32)"
    using assms by (simp_all add: ctx_ok_def)
  have "finalcount ctx = [ucast (drop_bit 24 (ctx_count1 ctx) AND 255), ucast (drop_bit 16 (ctx_count1 ctx) AND 255),
      ucast (drop_bit 8 (ctx_count1 ctx) AND 255), ucast (drop_bit 0 (ctx_count1 ctx) AND 255),
      ucast (drop_bit 24 (ctx_count0 ctx) AND 255), ucast (drop_bit 16 (ctx_count0 ctx) AND 255),
      ucast (drop_bit 8 (ctx_count0 ctx) AND 255), ucast (drop_bit 0 (ctx_count0 ctx) AND 255)]"
    by (simp add: finalcount_def upt_rec)
  also have "\<dots> = be_bytes 8 ?x"
    unfolding c by (subst (1 2 3 4 5 6 7 8) byte_of_count)
      (simp_all add: be_bytes_def le_bytes_numeral zdiv_zmult2_eq [symmetric])
  finally show ?thesis .
qed

lemma pad_done: "ctx_ok ctx m \<Longrightarrow> ctx_count0 ctx AND 504 = 448 \<longleftrightarrow> length m mod 64 = 56"
proof -
  assume "ctx_ok ctx m"
  then have i: "int (unat (drop_bit 3 (ctx_count0 ctx) AND 63)) = int (length m mod 64)"
    by (intro count_index) (simp add: ctx_ok_def)
  define v where "v = drop_bit 3 (ctx_count0 ctx) AND 63"
  have u: "unat v = length m mod 64" using i unfolding v_def [symmetric] by linarith
  have m: "(504 :: u32) = push_bit 3 (mask 6)" "(63 :: u32) = mask 6" by code_simp+
  have "ctx_count0 ctx AND 504 = push_bit 3 v"
    unfolding m v_def by (rule bit_word_eqI) (auto simp: bit_simps)
  also have "\<dots> = of_nat (8 * (length m mod 64))"
    unfolding push_bit_eq_mult by (subst u [symmetric]) simp
  finally have e: "ctx_count0 ctx AND 504 = of_nat (8 * (length m mod 64))" .
  have "unat (of_nat (8 * (length m mod 64)) :: u32) = 8 * (length m mod 64)"
    by (subst unat_of_nat) simp
  moreover have "unat (448 :: u32) = 448" by simp
  ultimately show ?thesis unfolding e word_unat_eq_iff by linarith
qed

lemma pad_loop_spec:
  "ctx_ok ctx m \<Longrightarrow> (length m + n) mod 64 = 56 \<Longrightarrow> n < 64 \<Longrightarrow>
     \<exists>ctx'. pad_loop ctx = Some ctx' \<and> ctx_ok ctx' (m @ replicate n 0)"
proof (induction n arbitrary: ctx m)
  case 0
  then show ?case using pad_done [OF 0(1)] by (subst pad_loop.simps) auto
next
  case (Suc n)
  have ne: "length m mod 64 \<noteq> 56"
  proof
    assume "length m mod 64 = 56"
    then have "64 dvd Suc n" using mod_eq_dvd_iff_nat [of "length m" "length m + Suc n" 64] Suc.prems(2) by simp
    then show False using Suc.prems(3) nat_dvd_not_less [of "Suc n" 64] by simp
  qed
  obtain ctx1 where c: "sat_SHA1_Update ctx [0] = Some ctx1" "ctx_ok ctx1 (m @ [0])"
    using sha_update [OF Suc.prems(1), of "[0]"] by auto
  have "\<exists>ctx'. pad_loop ctx1 = Some ctx' \<and> ctx_ok ctx' ((m @ [0]) @ replicate n 0)"
    by (rule Suc.IH [OF c(2)]) (use Suc.prems in auto)
  then show ?case using c(1) ne pad_done [OF Suc.prems(1)]
    by (subst pad_loop.simps) (auto simp: replicate_app_Cons_same)
qed

lemma pad_zeros: "(Suc l + (119 - l mod 64) mod 64) mod 64 = 56" "(119 - l mod 64) mod 64 < (64 :: nat)"
proof -
  define r where "r = l mod 64"
  have r: "r < 64" by (simp add: r_def)
  have "(Suc l + (119 - r) mod 64) mod 64 = (Suc r + (119 - r)) mod 64"
    unfolding r_def by (metis (no_types, lifting) mod_add_eq mod_Suc_eq mod_mod_trivial)
  also have "\<dots> = 56" using r by simp
  finally show "(Suc l + (119 - l mod 64) mod 64) mod 64 = 56" by (simp only: r_def)
qed simp

lemma sha_final:
  assumes "ctx_ok ctx m"
  shows "sat_SHA1_Final ctx = Some (sha1_spec m)"
proof -
  let ?k = "(119 - length m mod 64) mod 64"
  obtain c1 where c1: "sat_SHA1_Update ctx [128] = Some c1" "ctx_ok c1 (m @ [128])"
    using sha_update [OF assms, of "[128]"] by auto
  obtain c2 where c2: "pad_loop c1 = Some c2" "ctx_ok c2 ((m @ [128]) @ replicate ?k 0)"
    using pad_loop_spec [OF c1(2), of ?k] pad_zeros [of "length m"] by auto
  have "length (finalcount ctx) < 2 ^ 29" by (simp add: finalcount_def)
  then obtain c3 where c3: "sat_SHA1_Update c2 (finalcount ctx) = Some c3" "ctx_ok c3 (((m @ [128]) @ replicate ?k 0) @ finalcount ctx)"
    using sha_update [OF c2(2)] by blast
  have p: "((m @ [128]) @ replicate ?k 0) @ finalcount ctx = sha_pad m"
    by (simp add: sha_pad_def finalcount_bytes [OF assms])
  have st: "ctx_state c3 = fst (sha_blocks sha_H0 (sha_pad m))" using c3(2) unfolding p by (simp add: ctx_ok_def)
  have "length (ctx_state c3) = 5" unfolding st by (rule length_sha_blocks) (simp add: sha_H0_def)
  then show ?thesis
    unfolding sat_SHA1_Final_def Let_def c1(1) c2(1) c3(1) Option.bind.bind_lunit
    by (simp only: digest_words sha1_spec_def st)
qed

text \<open>C20: SHA-1 of a text of less than 512 MB is the standard's: the padded text, block after block, through the
  compression function on the schedule of 80 words.\<close>

theorem sha1_correct:
  assumes "length txs < 2 ^ 29"
  shows "lsha1 txs = Some (sha1_spec txs)"
proof -
  obtain ctx where "sat_SHA1_Update sat_SHA1_Init txs = Some ctx" "ctx_ok ctx ([] @ txs)"
    using sha_update [OF ctx_ok_init assms] by blast
  then show ?thesis using sha_final by (simp add: lsha1_def)
qed

theorem sha1_correct_witness: "lsha1 [97, 98, 99] = Some (sha1_spec [97, 98, 99])"
  by (rule sha1_correct) simp

text \<open>From 512 MB on the carry into the high word of the bit count is wrong: the low word is compared with the
  64-bit length, so it always looks as if it had wrapped. After 2^29 bytes, which are 2^32 bits, the count is
  twice that.\<close>

theorem sha1_count_overflow:
  assumes "ctx_count0 ctx = 0" "ctx_count1 ctx = 0"
  shows "ctx_count0 (add_count ctx (2 ^ 29)) = 0" "ctx_count1 (add_count ctx (2 ^ 29)) = 2"
proof -
  have s: "(2 :: int) ^ 29 * 8 mod 2 ^ 64 = 2 ^ 32" "(2 :: int) ^ 29 div 2 ^ 29 = 1" by simp_all
  have w: "(word_of_int (2 ^ 32) :: u32) = 0" by (simp add: word_of_int_eq_0_iff) 
  show "ctx_count0 (add_count ctx (2 ^ 29)) = 0" "ctx_count1 (add_count ctx (2 ^ 29)) = 2"
    unfolding add_count_def Let_def s w by (simp_all add: assms)
qed

section \<open>HMAC\<close>

lemma length_sha1_spec [simp]: "length (sha1_spec m) = 20"
proof -
  have "length (concat (map PUT_UINT32 H)) = 4 * length H" for H by (induction H) auto
  then show ?thesis by (simp add: sha1_spec_def length_sha_blocks sha_H0_def)
qed

text \<open>The standard: the key, hashed if it is longer than a block and filled up with zeros, in two guises.\<close>

definition hmac_key :: "bytes \<Rightarrow> bytes" where
  "hmac_key key = (let k = (if length key > 64 then sha1_spec key else key) in k @ replicate (64 - length k) 0)"

definition hmac_sha1_spec :: "bytes \<Rightarrow> bytes \<Rightarrow> bytes" where
  "hmac_sha1_spec key m =
     sha1_spec (map (\<lambda>b. b XOR 0x5c) (hmac_key key) @ sha1_spec (map (\<lambda>b. b XOR 0x36) (hmac_key key) @ m))"

lemma bit_mod_8:
  "bit (0x5c5c5c5c :: u32) n \<longleftrightarrow> n < 32 \<and> bit (0x5c :: u8) (n mod 8)"
  "bit (0x6a6a6a6a :: u32) n \<longleftrightarrow> n < 32 \<and> bit (0x6a :: u8) (n mod 8)"
proof -
  have "\<forall>n \<in> set [0..<32]. bit (0x5c5c5c5c :: u32) n = bit (0x5c :: u8) (n mod 8)"
    "\<forall>n \<in> set [0..<32]. bit (0x6a6a6a6a :: u32) n = bit (0x6a :: u8) (n mod 8)" by code_simp+
  then show "bit (0x5c5c5c5c :: u32) n \<longleftrightarrow> n < 32 \<and> bit (0x5c :: u8) (n mod 8)"
    "bit (0x6a6a6a6a :: u32) n \<longleftrightarrow> n < 32 \<and> bit (0x6a :: u8) (n mod 8)"
    by (auto dest: bit_imp_le_length)
qed

lemma write_xor_word:
  assumes b: "\<And>n. bit x n \<longleftrightarrow> n < 32 \<and> bit y (n mod 8)" and l: "i + 4 \<le> length key"
  shows "write32 (read32 key i XOR x) = map (\<lambda>b. b XOR y) (take 4 (drop i key))"
proof (rule nth_equalityI)
  fix k assume "k < length (write32 (read32 key i XOR x))"
  then have k: "k < 4" by simp
  show "write32 (read32 key i XOR x) ! k = map (\<lambda>b. b XOR y) (take 4 (drop i key)) ! k"
    by (rule bit_word_eqI) (use k l in \<open>simp add: bit_write32 bit_read32 bit_simps b\<close>)
qed (use l in simp)

lemma concat_words: "length key = 4 * n \<Longrightarrow> concat (map (\<lambda>i. map f (take 4 (drop (4 * i) key))) [0..<n]) = map f key"
proof (induction n arbitrary: key)
  case (Suc n)
  have s: "length (take (4 * n) key) = 4 * n" using Suc.prems by simp
  have "concat (map (\<lambda>i. map f (take 4 (drop (4 * i) key))) [0..<n]) =
      concat (map (\<lambda>i. map f (take 4 (drop (4 * i) (take (4 * n) key)))) [0..<n])"
    by (intro arg_cong [where f = concat] map_cong refl arg_cong [where f = "map f"]) (auto simp: drop_take min_def)
  also have "\<dots> = map f (take (4 * n) key)" by (rule Suc.IH [OF s])
  finally have e: "concat (map (\<lambda>i. map f (take 4 (drop (4 * i) key))) [0..<n]) = map f (take (4 * n) key)" .
  have "take 4 (drop (4 * n) key) = drop (4 * n) key" using Suc.prems by simp
  then have "concat (map (\<lambda>i. map f (take 4 (drop (4 * i) key))) [0..<Suc n]) = map f (take (4 * n) key) @ map f (drop (4 * n) key)"
    using e by simp
  then show ?case by (simp only: map_append [symmetric] append_take_drop_id)
qed simp

lemma xor_key_bytes:
  assumes "length key = 64"
  shows "xor_key key 0x5c5c5c5c = map (\<lambda>b. b XOR 0x5c) key"
    "xor_key key (0x5c5c5c5c XOR 0x36363636) = map (\<lambda>b. b XOR 0x6a) key"
proof -
  have x: "xor_key key x = map (\<lambda>b. b XOR y) key" if "\<And>n. bit x n \<longleftrightarrow> n < 32 \<and> bit y (n mod 8)" for x y
  proof -
    have "map (\<lambda>i. write32 (read32 key (4 * i) XOR x)) [0..<16] = map (\<lambda>i. map (\<lambda>b. b XOR y) (take 4 (drop (4 * i) key))) [0..<16]"
      by (intro map_cong refl write_xor_word that) (use assms in auto)
    then show ?thesis using concat_words [of key 16] assms by (simp only: xor_key_def) simp
  qed
  have e: "(0x5c5c5c5c XOR 0x36363636 :: u32) = 0x6a6a6a6a" by code_simp
  show "xor_key key 0x5c5c5c5c = map (\<lambda>b. b XOR 0x5c) key" by (rule x) (rule bit_mod_8)
  show "xor_key key (0x5c5c5c5c XOR 0x36363636) = map (\<lambda>b. b XOR 0x6a) key" unfolding e by (rule x) (rule bit_mod_8)
qed

text \<open>\<open>hmac_sha1\<close> is the HMAC of the standard, for keys and texts of less than 512 MB.\<close>

theorem hmac_sha1_correct:
  assumes "length key < 2 ^ 29" "length txs < 2 ^ 29"
  shows "lhmac_sha1 key txs = Some (hmac_sha1_spec key txs)"
proof -
  define k where "k = hmac_key key"
  have lk: "length k = 64" by (simp add: k_def hmac_key_def Let_def)
  have start: "(if int (length key) > BLOCKSIZE
      then Option.bind (Option.bind (sat_SHA1_Update sat_SHA1_Init key) sat_SHA1_Final) (blit (replicate 64 0) 0)
      else blit (replicate 64 0) 0 key) = Some k"
    using sha1_correct [OF assms(1)] by (auto simp: lsha1_def BLOCKSIZE_def k_def hmac_key_def Let_def)
  define o1 where "o1 = map (\<lambda>b. b XOR 0x5c) k"
  have lo: "length o1 = 64" using lk by (simp add: o1_def)
  have c: "(0x5c XOR 0x6a) = (0x36 :: u8)" by code_simp
  have i1: "map (\<lambda>b. b XOR 0x6a) o1 = map (\<lambda>b. b XOR 0x36) k" by (simp add: o1_def xor.assoc c)
  obtain c1 where c1: "sat_SHA1_Update sat_SHA1_Init o1 = Some c1" "ctx_ok c1 o1"
    using sha_update [OF ctx_ok_init, of o1] lo by auto
  obtain c2 where c2: "sat_SHA1_Update sat_SHA1_Init (map (\<lambda>b. b XOR 0x36) k) = Some c2" "ctx_ok c2 (map (\<lambda>b. b XOR 0x36) k)"
    using sha_update [OF ctx_ok_init, of "map (\<lambda>b. b XOR 0x36) k"] lk by auto
  obtain c3 where c3: "sat_SHA1_Update c2 txs = Some c3" "ctx_ok c3 (map (\<lambda>b. b XOR 0x36) k @ txs)"
    using sha_update [OF c2(2) assms(2)] by blast
  let ?d = "sha1_spec (map (\<lambda>b. b XOR 0x36) k @ txs)"
  obtain c4 where c4: "sat_SHA1_Update c1 ?d = Some c4" "ctx_ok c4 (o1 @ ?d)"
    using sha_update [OF c1(2), of ?d] by auto
  show ?thesis
    unfolding lhmac_sha1_def Let_def start Option.bind.bind_lunit xor_key_bytes(1) [OF lk] o1_def [symmetric] c1(1)
      xor_key_bytes(2) [OF lo] i1 c2(1) c3(1) sha_final [OF c3(2)] c4(1) sha_final [OF c4(2)]
    by (simp add: hmac_sha1_spec_def o1_def k_def)
qed

theorem hmac_sha1_correct_witness: "lhmac_sha1 [75] [97, 98, 99] = Some (hmac_sha1_spec [75] [97, 98, 99])"
  by (rule hmac_sha1_correct) simp_all

end
