(* ===== verification/Dh.thy ===== *)
theory Dh
  imports Words
begin

text \<open>
  The key exchange of \<open>lualib-src/lua-crypt.c\<close>: \<open>dhexchange\<close> and \<open>dhsecret\<close>, powers modulo the largest
  64-bit prime. The multiplication adds and doubles in 64 bits and never overflows: sums that would reach
  the modulus are taken as differences from it. So the result is the product modulo the modulus, and two
  parties who exchange their keys compute the same secret.
\<close>

unbundle bit_operations_syntax

section \<open>Model\<close>

text \<open>The macro \<open>P\<close>, the biggest 64-bit prime.\<close>

definition DH_P :: u64 where "DH_P = 0xffffffffffffffc5"

definition DH_G :: u64 where "DH_G = 5"

datatype dh_error = Invalid_uint64_x | Invalid_uint64_y | Invalid_uint64_key | Invalid_dh_uint64_key | Cant_be_0

function mul_loop :: "u64 \<Rightarrow> u64 \<Rightarrow> u64 \<Rightarrow> u64" where
  "mul_loop a b m =
     (if b = 0 then m
      else let m = (if b AND 1 \<noteq> 0 then (let t = DH_P - a in if m \<ge> t then m - t else m + a) else m);
               a = (if a \<ge> DH_P - a then a * 2 - DH_P else a * 2)
           in mul_loop a (drop_bit 1 b) m)"
  by auto
termination
proof (relation "measure (\<lambda>(a, b, m). unat b)", simp)
  fix a b m x y :: u64
  assume "b \<noteq> 0"
  then have "0 < unat b" by (simp add: unat_gt_0)
  moreover have "unat (drop_bit 1 b) = unat b div 2" using unat_drop_bit_div [of 1 b] by simp
  ultimately show "((y, drop_bit 1 b, x), a, b, m) \<in> measure (\<lambda>(a, b, m). unat b)" by simp
qed

definition mul_mod_p :: "u64 \<Rightarrow> u64 \<Rightarrow> u64" where
  "mul_mod_p a b = mul_loop a b 0"

text \<open>The recursion halves \<open>b\<close> down to 1, and would not end for 0, which is \<open>None\<close>.\<close>

partial_function (option) pow_mod_p :: "u64 \<Rightarrow> u64 \<Rightarrow> u64 option" where
  "pow_mod_p a b =
     (if b = 1 then Some a
      else Option.bind (pow_mod_p a (drop_bit 1 b)) (\<lambda>t.
           let t = mul_mod_p t t in Some (if b mod 2 \<noteq> 0 then mul_mod_p t a else t)))"

declare pow_mod_p.simps [code]

definition powmodp :: "u64 \<Rightarrow> u64 \<Rightarrow> u64 option" where
  "powmodp a b = pow_mod_p (if a > DH_P then a mod DH_P else a) b"

text \<open>\<open>read64\<close> reads 8 bytes as two little-endian words; the callers join them.\<close>

definition read64 :: "bytes \<Rightarrow> bytes \<Rightarrow> (dh_error, (u32 \<times> u32) \<times> (u32 \<times> u32)) run" where
  "read64 x y =
     (if length x \<noteq> 8 then err Invalid_uint64_x
      else if length y \<noteq> 8 then err Invalid_uint64_y
      else ret ((read32 x 0, read32 x 4), (read32 y 0, read32 y 4)))"

definition join64 :: "u32 \<times> u32 \<Rightarrow> u64" where
  "join64 = (\<lambda>(lo, hi). ucast lo OR push_bit 32 (ucast hi))"

definition push64 :: "u64 \<Rightarrow> bytes" where
  "push64 r = [ucast (r AND 0xff), ucast (drop_bit 8 r AND 0xff), ucast (drop_bit 16 r AND 0xff), ucast (drop_bit 24 r AND 0xff),
     ucast (drop_bit 32 r AND 0xff), ucast (drop_bit 40 r AND 0xff), ucast (drop_bit 48 r AND 0xff), ucast (drop_bit 56 r AND 0xff)]"

definition ldhsecret :: "bytes \<Rightarrow> bytes \<Rightarrow> (dh_error, bytes) run" where
  "ldhsecret x y =
     run_bind (read64 x y) (\<lambda>(x, y).
     let xx = join64 x; yy = join64 y
     in if xx = 0 \<or> yy = 0 then err Cant_be_0
        else lift (map_option push64 (powmodp xx yy)))"

definition ldhexchange :: "bytes \<Rightarrow> (dh_error, bytes) run" where
  "ldhexchange x =
     (if length x \<noteq> 8 then err Invalid_dh_uint64_key
      else let x64 = join64 (read32 x 0, read32 x 4)
      in if x64 = 0 then err Cant_be_0
         else lift (map_option push64 (powmodp DH_G x64)))"

section \<open>Multiplication modulo the prime\<close>

definition p_int :: int where "p_int = 0xffffffffffffffc5"

lemma uint_DH_P: "uint DH_P = p_int"
  by (simp add: DH_P_def p_int_def)

lemma uint_u64: "0 \<le> uint (x :: u64)" "uint (x :: u64) < 2 ^ 64"
  using uint_lt2p [of x] by simp_all

lemma uint_sub_u64: "y \<le> x \<Longrightarrow> uint (x - y) = uint x - uint y" for x y :: u64
  by (simp add: uint_sub_if' word_le_def)

text \<open>One addition and one doubling, on values up to the modulus.\<close>

lemma add_mod_p:
  fixes a m :: u64
  assumes a: "uint a \<le> p_int" and m: "uint m < p_int"
  defines "r \<equiv> (if m \<ge> DH_P - a then m - (DH_P - a) else m + a)"
  shows "uint r < p_int" "uint r mod p_int = (uint m + uint a) mod p_int"
proof -
  have "a \<le> DH_P" using a by (simp add: word_le_def uint_DH_P)
  then have t: "uint (DH_P - a) = p_int - uint a" by (simp add: uint_sub_u64 uint_DH_P)
  have "uint r < p_int \<and> uint r mod p_int = (uint m + uint a) mod p_int"
  proof (cases "DH_P - a \<le> m")
    case True
    then have "uint r = uint m + uint a - p_int" by (simp add: r_def uint_sub_u64 t)
    then show ?thesis using a m mod_add_self2 [of "uint m + uint a - p_int" p_int] by simp
  next
    case False
    then have lt: "uint m + uint a < p_int" using t by (simp add: word_le_def)
    then have "uint m + uint a < 2 ^ 64" by (simp add: p_int_def)
    then have "(uint m + uint a) mod 2 ^ 64 = uint m + uint a" using uint_u64 [of m] uint_u64 [of a]
      by (intro mod_pos_pos_trivial) auto
    then have "uint r = uint m + uint a" using False by (simp add: r_def uint_word_ariths)
    then show ?thesis using lt by simp
  qed
  then show "uint r < p_int" "uint r mod p_int = (uint m + uint a) mod p_int" by simp_all
qed

lemma double_mod_p:
  fixes a :: u64
  assumes a: "uint a \<le> p_int"
  defines "r \<equiv> (if a \<ge> DH_P - a then a * 2 - DH_P else a * 2)"
  shows "uint r \<le> p_int" "uint r mod p_int = (2 * uint a) mod p_int"
proof -
  have "a \<le> DH_P" using a by (simp add: word_le_def uint_DH_P)
  then have t: "uint (DH_P - a) = p_int - uint a" by (simp add: uint_sub_u64 uint_DH_P)
  have d: "uint (a * 2) = (2 * uint a) mod 2 ^ 64" by (simp add: uint_word_ariths mult.commute)
  have "uint r \<le> p_int \<and> uint r mod p_int = (2 * uint a) mod p_int"
  proof (cases "DH_P - a \<le> a")
    case True
    then have g: "p_int \<le> 2 * uint a" using t by (simp add: word_le_def)
    have "uint (a * 2 - DH_P) = (2 * uint a - p_int) mod 2 ^ 64"
      by (simp add: uint_word_ariths uint_DH_P mod_simps mult.commute)
    also have "\<dots> = 2 * uint a - p_int" using a g by (intro mod_pos_pos_trivial) (auto simp: p_int_def)
    finally have "uint r = 2 * uint a - p_int" using True by (simp add: r_def)
    then show ?thesis using a mod_add_self2 [of "2 * uint a - p_int" p_int] by simp
  next
    case False
    then have lt: "2 * uint a < p_int" using t by (simp add: word_le_def)
    then have "uint r = 2 * uint a" using False d uint_u64 [of a] by (simp add: r_def p_int_def)
    then show ?thesis using lt by simp
  qed
  then show "uint r \<le> p_int" "uint r mod p_int = (2 * uint a) mod p_int" by simp_all
qed


lemma odd_u64: "b AND 1 \<noteq> 0 \<longleftrightarrow> odd (uint b)" "b mod 2 \<noteq> 0 \<longleftrightarrow> odd (unat b)" for b :: u64
proof -
  show a: "b AND 1 \<noteq> 0 \<longleftrightarrow> odd (uint b)" by (simp add: and_one_eq word_uint_eq_iff uint_mod odd_iff_mod_2_eq_one)
  have "even (int (unat b)) \<longleftrightarrow> even (unat b)" by (rule even_of_nat)
  then have "odd (uint b) \<longleftrightarrow> odd (unat b)" by simp
  then show "b mod 2 \<noteq> 0 \<longleftrightarrow> odd (unat b)" using a by (simp add: and_one_eq)
qed

lemma uint_halves: "uint b = 2 * uint (drop_bit 1 b) + (if b AND 1 \<noteq> 0 then 1 else 0)" for b :: u64
proof -
  have "uint (drop_bit 1 b) = uint b div 2" by (simp add: drop_bit_eq_div uint_div)
  then show ?thesis unfolding odd_u64 by auto
qed

declare mul_loop.simps [simp del]

lemma mul_loop_spec:
  "uint a \<le> p_int \<Longrightarrow> uint m < p_int \<Longrightarrow>
     uint (mul_loop a b m) < p_int \<and> uint (mul_loop a b m) = (uint m + uint a * uint b) mod p_int"
proof (induction a b m rule: mul_loop.induct)
  case (1 a b m)
  show ?case
  proof (cases "b = 0")
    case True
    then show ?thesis using 1(3) by (simp add: mul_loop.simps)
  next
    case False
    define m' where "m' = (if b AND 1 \<noteq> 0 then (let t = DH_P - a in if m \<ge> t then m - t else m + a) else m)"
    define a' where "a' = (if a \<ge> DH_P - a then a * 2 - DH_P else a * 2)"
    have step: "mul_loop a b m = mul_loop a' (drop_bit 1 b) m'"
      using False by (subst mul_loop.simps) (simp add: Let_def m'_def a'_def)
    have m: "uint m' < p_int" "uint m' mod p_int = (uint m + (if b AND 1 \<noteq> 0 then uint a else 0)) mod p_int"
      using add_mod_p [OF 1(2,3)] 1(3) by (simp_all add: m'_def Let_def)
    have a: "uint a' \<le> p_int" "uint a' mod p_int = (2 * uint a) mod p_int"
      using double_mod_p [OF 1(2)] by (simp_all add: a'_def)
    have ih: "uint (mul_loop a' (drop_bit 1 b) m') < p_int \<and>
        uint (mul_loop a' (drop_bit 1 b) m') = (uint m' + uint a' * uint (drop_bit 1 b)) mod p_int"
      by (rule 1(1) [OF False m'_def a'_def a(1) m(1)])
    have "(uint m' + uint a' * uint (drop_bit 1 b)) mod p_int =
        (uint m + (if b AND 1 \<noteq> 0 then uint a else 0) + 2 * uint a * uint (drop_bit 1 b)) mod p_int"
      by (rule mod_add_cong [OF m(2) mod_mult_cong [OF a(2) refl]])
    also have "uint m + (if b AND 1 \<noteq> 0 then uint a else 0) + 2 * uint a * uint (drop_bit 1 b) = uint m + uint a * uint b"
      by (subst (3) uint_halves) (simp add: algebra_simps)
    finally show ?thesis using ih unfolding step by simp
  qed
qed

lemma mul_mod_p_spec:
  assumes "uint a \<le> p_int"
  shows "uint (mul_mod_p a b) < p_int" "uint (mul_mod_p a b) = (uint a * uint b) mod p_int"
  using mul_loop_spec [of a 0 b] assms by (simp_all add: mul_mod_p_def p_int_def)

section \<open>Powers\<close>

lemma pow_mod_p_spec:
  assumes "uint a \<le> p_int" "b \<noteq> 0"
  shows "\<exists>r. pow_mod_p a b = Some r \<and> uint r \<le> p_int \<and> uint r mod p_int = (uint a ^ unat b) mod p_int"
  using assms(2)
proof (induction "unat b" arbitrary: b rule: less_induct)
  case less
  show ?case
  proof (cases "b = 1")
    case True
    then show ?thesis using assms(1) by (simp add: pow_mod_p.simps)
  next
    case False
    let ?h = "drop_bit 1 b"
    have h: "unat ?h = unat b div 2" using unat_drop_bit_div [of 1 b] by simp
    have two: "2 \<le> unat b"
    proof -
      have "unat b \<noteq> 0" using less.prems by (simp add: unat_eq_zero)
      moreover have "unat b \<noteq> 1"
      proof
        assume "unat b = 1"
        then have "of_nat (unat b) = (of_nat 1 :: u64)" by (rule arg_cong)
        then show False using False by simp
      qed
      ultimately show ?thesis by linarith
    qed
    then have "?h \<noteq> 0" "unat ?h < unat b" using h by (auto simp: unat_eq_zero [symmetric])
    then obtain t where t: "pow_mod_p a ?h = Some t" "uint t \<le> p_int" "uint t mod p_int = (uint a ^ unat ?h) mod p_int"
      using less.hyps by blast
    define s where "s = mul_mod_p t t"
    have "uint s mod p_int = (uint t * uint t) mod p_int" unfolding s_def mul_mod_p_spec(2) [OF t(2)] by simp
    also have "\<dots> = (uint a ^ (2 * unat ?h)) mod p_int" using mod_mult_cong [OF t(3) t(3)] by (simp only: mult_2 power_add)
    finally have s2: "uint s mod p_int = (uint a ^ (2 * unat ?h)) mod p_int" .
    have "uint s < p_int" unfolding s_def by (rule mul_mod_p_spec(1) [OF t(2)])
    note s = this s2
    have o: "b mod 2 \<noteq> 0 \<longleftrightarrow> odd (unat b)" by (rule odd_u64)
    show ?thesis
    proof (cases "odd (unat b)")
      case True
      have "uint (mul_mod_p s a) = (uint s * uint a) mod p_int" using mul_mod_p_spec [of s a] s(1) by simp
      also have "\<dots> = (uint a ^ (2 * unat ?h) * uint a) mod p_int" by (rule mod_mult_cong [OF s(2) refl])
      also have "uint a ^ (2 * unat ?h) * uint a = uint a ^ unat b"
        using True h by (metis odd_two_times_div_two_succ power_add power_one_right)
      finally have "uint (mul_mod_p s a) mod p_int = uint a ^ unat b mod p_int" by simp
      moreover have "uint (mul_mod_p s a) \<le> p_int" using mul_mod_p_spec [of s a] s(1) by simp
      ultimately show ?thesis using True o t(1) False by (subst pow_mod_p.simps) (simp add: s_def Let_def)
    next
      case False
      then have "2 * unat ?h = unat b" using h by auto
      then show ?thesis using False o t(1) \<open>b \<noteq> 1\<close> s by (subst pow_mod_p.simps) (simp add: s_def Let_def)
    qed
  qed
qed

section \<open>Keys as bytes\<close>

lemma bit_push64: "k < 8 \<Longrightarrow> m < 8 \<Longrightarrow> bit (push64 r ! k) m = bit r (8 * k + m)"
proof -
  assume k: "k < 8" and m: "m < 8"
  have f: "(0xff :: u64) = mask 8" by (simp add: mask_eq_exp_minus_1)
  consider "k = 0" | "k = 1" | "k = 2" | "k = 3" | "k = 4" | "k = 5" | "k = 6" | "k = 7" using k by linarith
  then show ?thesis unfolding push64_def f using m by cases (simp_all add: bit_simps)
qed

lemma join64_push64: "join64 (read32 (push64 r) 0, read32 (push64 r) 4) = r"
proof (rule bit_word_eqI)
  fix i assume i: "i < LENGTH(64)"
  have j: "bit (join64 (lo, hi)) i = (if i < 32 then bit lo i else bit hi (i - 32))" for lo hi :: u32
    using i unfolding join64_def by (auto simp: bit_simps dest: bit_imp_le_length)
  show "bit (join64 (read32 (push64 r) 0, read32 (push64 r) 4)) i = bit r i"
  proof (cases "i < 32")
    case True
    then show ?thesis by (simp add: j bit_read32 bit_push64)
  next
    case False
    then have "4 + (i - 32) div 8 < 8" "8 * (4 + (i - 32) div 8) + (i - 32) mod 8 = i" "i - 32 < 32" using i by auto
    then show ?thesis using False i by (simp add: j bit_read32 bit_push64)
  qed
qed

section \<open>Agreement\<close>

lemma key_words: "length x = 8 \<Longrightarrow> length y = 8 \<Longrightarrow>
    read64 x y = ret ((read32 x 0, read32 x 4), (read32 y 0, read32 y 4))"
  by (simp add: read64_def)

lemma length_push64 [simp]: "length (push64 r) = 8"
  by (simp add: push64_def)

text \<open>The number in a key of eight bytes.\<close>

definition key_value :: "bytes \<Rightarrow> u64" where
  "key_value x = join64 (read32 x 0, read32 x 4)"

lemma powers_of_5: "(5 :: int) ^ n mod p_int \<noteq> 0"
proof
  assume "(5 :: int) ^ n mod p_int = 0"
  then have dvd: "p_int dvd 5 ^ n" by (simp add: mod_eq_0_iff_dvd)
  have unit: "is_unit d" if "d dvd p_int" "d dvd 5" for d
  proof -
    have "d dvd p_int - 5 * 3689348814741910311" using that dvd_mult2 [OF that(2)] by (intro dvd_diff)
    then have "d dvd 2" by (simp add: p_int_def)
    then have "d dvd 5 - 2 * 2" using that(2) dvd_mult2 [of d 2 2] by (intro dvd_diff)
    then show ?thesis by simp
  qed
  have "coprime p_int 5" by (rule coprimeI) (rule unit)
  then have "coprime p_int (5 ^ n)" by simp
  then have "is_unit p_int" using dvd coprime_absorb_left by blast
  then show False by (simp add: p_int_def)
qed

text \<open>The value of \<open>powmodp\<close> on reduced bases, with no doubt about the representative of 0.\<close>

lemma powmodp_value:
  assumes "uint a < p_int" "b \<noteq> 0"
  shows "\<exists>r. powmodp a b = Some r \<and> uint r mod p_int = uint a ^ unat b mod p_int \<and> uint r \<le> p_int"
proof -
  have "\<not> DH_P < a" using assms(1) by (simp add: word_less_def uint_DH_P)
  then show ?thesis using pow_mod_p_spec [of a b] assms by (auto simp: powmodp_def)
qed

lemma dhexchange_value:
  assumes "length x = 8" "key_value x \<noteq> 0"
  shows "\<exists>r. ldhexchange x = ret (push64 r) \<and> uint r = 5 ^ unat (key_value x) mod p_int"
proof -
  have g: "uint DH_G < p_int" "uint DH_G = 5" by (simp_all add: DH_G_def p_int_def)
  obtain r where r: "powmodp DH_G (key_value x) = Some r" "uint r mod p_int = 5 ^ unat (key_value x) mod p_int" "uint r \<le> p_int"
    using powmodp_value [OF g(1) assms(2)] g(2) by auto
  have "uint r \<noteq> p_int" using r(2) powers_of_5 [of "unat (key_value x)"] by auto
  then have "uint r mod p_int = uint r" using r(3) by simp
  then show ?thesis using r assms by (intro exI [of _ r]) (simp add: ldhexchange_def key_value_def Let_def lift_def ret_def)
qed

lemma dhsecret_value:
  assumes "length y = 8" "key_value y \<noteq> 0" "uint X = 5 ^ n mod p_int"
  shows "\<exists>s. ldhsecret (push64 X) y = ret (push64 s) \<and> uint s = 5 ^ (n * unat (key_value y)) mod p_int"
proof -
  have x: "uint X < p_int" "uint X \<noteq> 0" using assms(3) powers_of_5 by (simp_all add: p_int_def)
  then have ne: "X \<noteq> 0" by auto
  obtain s where s: "powmodp X (key_value y) = Some s" "uint s mod p_int = uint X ^ unat (key_value y) mod p_int" "uint s \<le> p_int"
    using powmodp_value [OF x(1) assms(2)] by blast
  have v: "uint s mod p_int = 5 ^ (n * unat (key_value y)) mod p_int"
    using s(2) unfolding assms(3) by (simp add: power_mod power_mult)
  then have "uint s \<noteq> p_int" using powers_of_5 [of "n * unat (key_value y)"] by auto
  then have "uint s mod p_int = uint s" using s(3) by simp
  then show ?thesis using s v assms ne
    by (intro exI [of _ s]) (simp add: ldhsecret_def key_words join64_push64 key_value_def Let_def lift_def ret_def)
qed

text \<open>C25: Two parties agree: for any two private keys that are not zero, both exchanges succeed, and the
  secret that each computes from the other's public key is the same, 5 to the product of the keys modulo
  the prime.\<close>

theorem dh_agreement:
  assumes "length x = 8" "length y = 8" "key_value x \<noteq> 0" "key_value y \<noteq> 0"
  shows "\<exists>X Y s. ldhexchange x = ret X \<and> ldhexchange y = ret Y \<and> ldhsecret X y = ret s \<and> ldhsecret Y x = ret s \<and>
    uint (key_value s) = 5 ^ (unat (key_value x) * unat (key_value y)) mod p_int"
proof -
  obtain X where X: "ldhexchange x = ret (push64 X)" "uint X = 5 ^ unat (key_value x) mod p_int"
    using dhexchange_value [OF assms(1,3)] by blast
  obtain Y where Y: "ldhexchange y = ret (push64 Y)" "uint Y = 5 ^ unat (key_value y) mod p_int"
    using dhexchange_value [OF assms(2,4)] by blast
  obtain s where s: "ldhsecret (push64 X) y = ret (push64 s)" "uint s = 5 ^ (unat (key_value x) * unat (key_value y)) mod p_int"
    using dhsecret_value [OF assms(2,4) X(2)] by blast
  obtain t where t: "ldhsecret (push64 Y) x = ret (push64 t)" "uint t = 5 ^ (unat (key_value y) * unat (key_value x)) mod p_int"
    using dhsecret_value [OF assms(1,3) Y(2)] by blast
  have "t = s" using s(2) t(2) by (simp add: word_uint_eq_iff mult.commute)
  moreover have "key_value (push64 s) = s" by (simp add: key_value_def join64_push64)
  ultimately show ?thesis using X(1) Y(1) s t(1) by auto
qed

theorem dh_agreement_witness:
  "\<exists>X Y s. ldhexchange [3, 0, 0, 0, 0, 0, 0, 0] = ret X \<and> ldhexchange [0, 1, 0, 0, 0, 0, 0, 128] = ret Y \<and>
     ldhsecret X [0, 1, 0, 0, 0, 0, 0, 128] = ret s \<and> ldhsecret Y [3, 0, 0, 0, 0, 0, 0, 0] = ret s \<and>
     uint (key_value s) = 5 ^ (unat (key_value [3, 0, 0, 0, 0, 0, 0, 0]) * unat (key_value [0, 1, 0, 0, 0, 0, 0, 128])) mod p_int"
proof (rule dh_agreement)
  show "key_value [3, 0, 0, 0, 0, 0, 0, 0] \<noteq> 0" "key_value [0, 1, 0, 0, 0, 0, 0, 128] \<noteq> 0" by code_simp+
qed simp_all

text \<open>The base is reduced only above the modulus: the modulus itself, a multiple of itself, keeps its value
  under the power 1, where the remainder would be 0.\<close>

lemma powmodp_modulus: "powmodp DH_P 1 = Some DH_P"
  by (simp add: powmodp_def pow_mod_p.simps)

end
