(* ===== verification/Digest.thy ===== *)
theory Digest
  imports Encode Words Dh
begin

text \<open>
  The short digests of \<open>lualib-src/lua-crypt.c\<close>: \<open>hashkey\<close>, \<open>hmac64\<close>, \<open>hmac64_md5\<close> and \<open>hmac_hash\<close>. The
  round of MD5 is the code's; the specification of \<open>hmac64_md5\<close> is the one of its comment: the two halves of
  the MD5 sum of the two arguments, three times repeated, xor-ed.
\<close>

unbundle bit_operations_syntax

section \<open>Model\<close>

fun hash_loop :: "bytes \<Rightarrow> u32 \<Rightarrow> u32 \<Rightarrow> u32 \<times> u32" where
  "hash_loop [] djb js = (djb, js)"
| "hash_loop (c # txs) djb js =
     hash_loop txs (djb + (push_bit 5 djb + ucast c)) (js XOR (push_bit 5 js + ucast c + drop_bit 2 js))"

definition Hash :: "bytes \<Rightarrow> bytes" where
  "Hash txs = (let (djb, js) = hash_loop txs 5381 1315423911 in write32 djb @ write32 js)"

definition lhashkey :: "bytes \<Rightarrow> bytes" where
  "lhashkey key = Hash key"

definition md5_k :: "u32 list" where
  "md5_k = [
     0xd76aa478, 0xe8c7b756, 0x242070db, 0xc1bdceee, 0xf57c0faf, 0x4787c62a, 0xa8304613, 0xfd469501,
     0x698098d8, 0x8b44f7af, 0xffff5bb1, 0x895cd7be, 0x6b901122, 0xfd987193, 0xa679438e, 0x49b40821,
     0xf61e2562, 0xc040b340, 0x265e5a51, 0xe9b6c7aa, 0xd62f105d, 0x02441453, 0xd8a1e681, 0xe7d3fbc8,
     0x21e1cde6, 0xc33707d6, 0xf4d50d87, 0x455a14ed, 0xa9e3e905, 0xfcefa3f8, 0x676f02d9, 0x8d2a4c8a,
     0xfffa3942, 0x8771f681, 0x6d9d6122, 0xfde5380c, 0xa4beea44, 0x4bdecfa9, 0xf6bb4b60, 0xbebfbc70,
     0x289b7ec6, 0xeaa127fa, 0xd4ef3085, 0x04881d05, 0xd9d4d039, 0xe6db99e5, 0x1fa27cf8, 0xc4ac5665,
     0xf4292244, 0x432aff97, 0xab9423a7, 0xfc93a039, 0x655b59c3, 0x8f0ccc92, 0xffeff47d, 0x85845dd1,
     0x6fa87e4f, 0xfe2ce6e0, 0xa3014314, 0x4e0811a1, 0xf7537e82, 0xbd3af235, 0x2ad7d2bb, 0xeb86d391]"

definition md5_r :: "nat list" where
  "md5_r = [7, 12, 17, 22, 7, 12, 17, 22, 7, 12, 17, 22, 7, 12, 17, 22,
     5, 9, 14, 20, 5, 9, 14, 20, 5, 9, 14, 20, 5, 9, 14, 20,
     4, 11, 16, 23, 4, 11, 16, 23, 4, 11, 16, 23, 4, 11, 16, 23,
     6, 10, 15, 21, 6, 10, 15, 21, 6, 10, 15, 21, 6, 10, 15, 21]"

definition LEFTROTATE :: "u32 \<Rightarrow> nat \<Rightarrow> u32" where
  "LEFTROTATE x c = push_bit c x OR drop_bit (32 - c) x"

definition md5_round :: "u32 list \<Rightarrow> nat \<Rightarrow> u32 \<times> u32 \<times> u32 \<times> u32 \<Rightarrow> u32 \<times> u32 \<times> u32 \<times> u32" where
  "md5_round w i = (\<lambda>(a, b, c, d).
     let (f, g) =
           (if i < 16 then ((b AND c) OR (NOT b AND d), i)
            else if i < 32 then ((d AND b) OR (NOT d AND c), (5 * i + 1) mod 16)
            else if i < 48 then (b XOR c XOR d, (3 * i + 5) mod 16)
            else (c XOR (b OR NOT d), (7 * i) mod 16))
     in (d, b + LEFTROTATE (a + f + md5_k ! i + w ! g) (md5_r ! i), b, c))"

definition digest_md5 :: "u32 list \<Rightarrow> u32 list" where
  "digest_md5 w =
     (let (a, b, c, d) = fold (md5_round w) [0..<64] (0x67452301, 0xefcdab89, 0x98badcfe, 0x10325476)
      in [a, b, c, d])"

type_synonym pair32 = "u32 \<times> u32"

definition hmac :: "pair32 \<Rightarrow> pair32 \<Rightarrow> pair32" where
  "hmac x y =
     (let w = concat (replicate 4 [snd x, fst x, snd y, fst y]);
          r = digest_md5 w
      in (r ! 2 XOR r ! 3, r ! 0 XOR r ! 1))"

definition hmac_md5 :: "pair32 \<Rightarrow> pair32 \<Rightarrow> pair32" where
  "hmac_md5 x y =
     (let w = concat (replicate 3 [fst x, snd x, fst y, snd y]) @ [0x80, 0, 384, 0];
          r = digest_md5 w
      in ((r ! 0 + 0x67452301) XOR (r ! 2 + 0x98badcfe), (r ! 1 + 0xefcdab89) XOR (r ! 3 + 0x10325476)))"

definition pushqword :: "pair32 \<Rightarrow> bytes" where
  "pushqword result = write32 (fst result) @ write32 (snd result)"

definition lhmac64 :: "bytes \<Rightarrow> bytes \<Rightarrow> (dh_error, bytes) run" where
  "lhmac64 x y = run_bind (read64 x y) (\<lambda>(x, y). ret (pushqword (hmac x y)))"

definition lhmac64_md5 :: "bytes \<Rightarrow> bytes \<Rightarrow> (dh_error, bytes) run" where
  "lhmac64_md5 x y = run_bind (read64 x y) (\<lambda>(x, y). ret (pushqword (hmac_md5 x y)))"

definition lhmac_hash :: "bytes \<Rightarrow> bytes \<Rightarrow> (dh_error, bytes) run" where
  "lhmac_hash key txs =
     (if length key \<noteq> 8 then err Invalid_uint64_key
      else let k = (read32 key 0, read32 key 4);
               h = Hash txs;
               htext = (read32 h 0, read32 h 4)
           in ret (pushqword (hmac htext k)))"

text \<open>\<open>randomkey\<close>, with the eight results of \<open>random\<close> that it asks for.\<close>

definition lrandomkey :: "int list \<Rightarrow> bytes" where
  "lrandomkey rnd =
     (let tmp = map (\<lambda>i. word_of_int (rnd ! i) AND 0xff) [0..<8];
          x = fold (\<lambda>t x. x XOR t) tmp 0
      in if x = 0 then tmp[0 := tmp ! 0 OR 1] else tmp)"

section \<open>The MD5 sum\<close>

text \<open>The standard: the text with its padding, block by block; a block is 16 little-endian words.\<close>

definition md5_compress :: "u32 list \<Rightarrow> bytes \<Rightarrow> u32 list" where
  "md5_compress H b =
     (let w = map (\<lambda>i. read32 b (4 * i)) [0..<16];
          (p, q, r, s) = fold (md5_round w) [0..<64] (H ! 0, H ! 1, H ! 2, H ! 3)
      in [H ! 0 + p, H ! 1 + q, H ! 2 + r, H ! 3 + s])"

function md5_blocks :: "u32 list \<Rightarrow> bytes \<Rightarrow> u32 list" where
  "md5_blocks H m = (if length m < 64 then H else md5_blocks (md5_compress H (take 64 m)) (drop 64 m))"
  by auto
termination by (relation "measure (\<lambda>(H, m). length m)") auto

declare md5_blocks.simps [simp del]

definition md5_sum :: "bytes \<Rightarrow> bytes" where
  "md5_sum m =
     concat (map write32 (md5_blocks [0x67452301, 0xefcdab89, 0x98badcfe, 0x10325476]
       (m @ [0x80] @ replicate ((119 - length m mod 64) mod 64) 0 @ le_bytes 8 (8 * int (length m)))))"

lemma write32_xor: "map (\<lambda>i. write32 u ! i XOR write32 v ! i) [0..<4] = write32 (u XOR v)"
proof (rule nth_equalityI)
  fix k assume "k < length (map (\<lambda>i. write32 u ! i XOR write32 v ! i) [0..<4])"
  then have k: "k < 4" by simp
  show "map (\<lambda>i. write32 u ! i XOR write32 v ! i) [0..<4] ! k = write32 (u XOR v) ! k"
    by (rule bit_word_eqI) (use k in \<open>simp add: bit_write32 bit_xor_iff\<close>)
qed simp

lemma xor_halves:
  "lxor_str (write32 a @ write32 b) (write32 c @ write32 d) = ret (write32 (a XOR c) @ write32 (b XOR d))"
proof -
  let ?f = "\<lambda>i. (write32 a @ write32 b) ! i XOR (write32 c @ write32 d) ! (i mod 8)"
  have u: "[0..<8] = [0..<4] @ map (\<lambda>i. i + 4) [0..<4]" by code_simp
  have "map ?f [0..<8] = map ?f [0..<4] @ map (\<lambda>i. ?f (i + 4)) [0..<4]"
    unfolding u map_append map_map comp_def ..
  also have "map ?f [0..<4] = map (\<lambda>i. write32 a ! i XOR write32 c ! i) [0..<4]" by (simp add: nth_append)
  also have "map (\<lambda>i. ?f (i + 4)) [0..<4] = map (\<lambda>i. write32 b ! i XOR write32 d ! i) [0..<4]" by (simp add: nth_append)
  finally show ?thesis by (simp add: lxor_str_def write32_xor)
qed

lemma read32_words: "i < length ws \<Longrightarrow> read32 (concat (map write32 ws) @ bs) (4 * i) = ws ! i"
proof (induction ws arbitrary: i)
  case (Cons w ws)
  show ?case
  proof (cases i)
    case 0
    have "read32 (write32 w @ xs) 0 = read32 (write32 w) 0" for xs by (simp add: read32_def nth_append)
    then show ?thesis using 0 by simp
  next
    case (Suc k)
    have "read32 (write32 w @ xs) (4 + 4 * k) = read32 xs (4 * k)" for xs by (simp add: read32_def nth_append add.commute)
    then show ?thesis using Suc Cons by simp
  qed
qed simp

lemma words_of_bytes: "map (\<lambda>i. read32 (concat (map write32 ws)) (4 * i)) [0..<length ws] = ws"
  using read32_words [of _ ws "[]"] by (intro nth_equalityI) simp_all

lemma length_write_words: "length (concat (map write32 ws)) = 4 * length ws"
  by (induction ws) auto

lemma md5_one_block:
  assumes "length ws = 16"
  shows "md5_blocks H (concat (map write32 ws)) =
    (let (p, q, r, s) = fold (md5_round ws) [0..<64] (H ! 0, H ! 1, H ! 2, H ! 3) in [H ! 0 + p, H ! 1 + q, H ! 2 + r, H ! 3 + s])"
proof -
  have l: "length (concat (map write32 ws)) = 64" using assms by (simp add: length_write_words)
  have "map (\<lambda>i. read32 (concat (map write32 ws)) (4 * i)) [0..<16] = ws" using words_of_bytes [of ws] assms by simp
  moreover have "md5_blocks H (concat (map write32 ws)) = md5_compress H (concat (map write32 ws))"
    using l by (subst md5_blocks.simps) (simp add: md5_blocks.simps [of _ "[]"])
  ultimately show ?thesis by (simp add: md5_compress_def)
qed

lemma two_words: "length x = 8 \<Longrightarrow> write32 (read32 x 0) @ write32 (read32 x 4) = x"
  using write32_read32 [of 0 x] write32_read32 [of 4 x] by simp

text \<open>\<open>hmac64_md5\<close> is what its comment says: the MD5 sum of the two arguments, written three times after each
  other, with its two halves xor-ed.\<close>

theorem hmac64_md5_correct:
  assumes "length x = 8" "length y = 8"
  shows "\<exists>h. lhmac64_md5 x y = ret h \<and>
    lxor_str (take 8 (md5_sum (concat (replicate 3 (x @ y))))) (drop 8 (md5_sum (concat (replicate 3 (x @ y))))) = ret h"
proof -
  let ?t = "concat (replicate 3 (x @ y))"
  define ws where "ws = concat (replicate 3 [read32 x 0, read32 x 4, read32 y 0, read32 y 4]) @ [0x80, 0, 384, 0]"
  have lw: "length ws = 16" by (simp add: ws_def numeral_eq_Suc)
  note x = two_words [OF assms(1)] and y = two_words [OF assms(2)]
  have "concat (map write32 (concat (replicate 3 [read32 x 0, read32 x 4, read32 y 0, read32 y 4]))) =
      concat (replicate 3 ((write32 (read32 x 0) @ write32 (read32 x 4)) @ write32 (read32 y 0) @ write32 (read32 y 4)))"
    by (simp add: numeral_eq_Suc)
  then have t: "concat (map write32 (concat (replicate 3 [read32 x 0, read32 x 4, read32 y 0, read32 y 4]))) = ?t"
    unfolding x y .
  have lt: "length ?t = 48" using assms by (simp add: numeral_eq_Suc)
  have z: "[0x80] @ replicate 7 0 @ le_bytes 8 384 = concat (map write32 [0x80, 0, 384, 0])" by code_simp
  have p: "?t @ [0x80] @ replicate ((119 - length ?t mod 64) mod 64) 0 @ le_bytes 8 (8 * int (length ?t)) = concat (map write32 ws)"
    unfolding lt using z t by (simp add: ws_def)
  obtain a b c d where r: "fold (md5_round ws) [0..<64] (0x67452301, 0xefcdab89, 0x98badcfe, 0x10325476) = (a, b, c, d)"
    by (metis prod_cases4)
  have sum: "md5_sum ?t = write32 (a + 0x67452301) @ write32 (b + 0xefcdab89) @ write32 (c + 0x98badcfe) @ write32 (d + 0x10325476)"
    unfolding md5_sum_def p md5_one_block [OF lw] by (simp add: r add.commute)
  have dg: "digest_md5 ws = [a, b, c, d]" by (simp add: digest_md5_def r)
  have "lhmac64_md5 x y = ret (write32 ((a + 0x67452301) XOR (c + 0x98badcfe)) @ write32 ((b + 0xefcdab89) XOR (d + 0x10325476)))"
    using assms by (simp add: lhmac64_md5_def read64_def hmac_md5_def Let_def ws_def [symmetric] dg pushqword_def)
  moreover have "take 8 (md5_sum ?t) = write32 (a + 0x67452301) @ write32 (b + 0xefcdab89)"
    "drop 8 (md5_sum ?t) = write32 (c + 0x98badcfe) @ write32 (d + 0x10325476)" by (simp_all add: sum)
  ultimately show ?thesis by (simp add: xor_halves)
qed

theorem hmac64_md5_correct_witness:
  "\<exists>h. lhmac64_md5 [1, 2, 3, 4, 5, 6, 7, 8] [11, 12, 13, 14, 15, 16, 17, 18] = ret h \<and>
    lxor_str (take 8 (md5_sum (concat (replicate 3 ([1, 2, 3, 4, 5, 6, 7, 8] @ [11, 12, 13, 14, 15, 16, 17, 18])))))
      (drop 8 (md5_sum (concat (replicate 3 ([1, 2, 3, 4, 5, 6, 7, 8] @ [11, 12, 13, 14, 15, 16, 17, 18]))))) = ret h"
  by (rule hmac64_md5_correct) simp_all

text \<open>\<open>hmac_hash\<close> is \<open>hmac64\<close> with the \<open>hashkey\<close> of the text.\<close>

theorem hmac_hash_correct: "length key = 8 \<Longrightarrow> lhmac_hash key txs = lhmac64 (lhashkey txs) key"
  by (simp add: lhmac_hash_def lhmac64_def read64_def lhashkey_def Hash_def split_beta Let_def)

section \<open>Random keys\<close>

lemma fold_xor_zeros: "\<forall>t \<in> set ts. t = 0 \<Longrightarrow> fold (\<lambda>t x. x XOR t) ts x = (x :: u8)"
  by (induction ts arbitrary: x) auto

theorem randomkey_nonzero: "length (lrandomkey rnd) = 8 \<and> (\<exists>b \<in> set (lrandomkey rnd). b \<noteq> 0)"
proof -
  define tmp :: bytes where "tmp = map (\<lambda>i. word_of_int (rnd ! i) AND 0xff) [0..<8]"
  have l: "length tmp = 8" by (simp add: tmp_def)
  have r: "lrandomkey rnd = (if fold (\<lambda>t x. x XOR t) tmp 0 = 0 then tmp[0 := tmp ! 0 OR 1] else tmp)"
    by (simp only: lrandomkey_def tmp_def [symmetric] Let_def)
  show ?thesis
  proof (cases "fold (\<lambda>t x. x XOR t) tmp 0 = 0")
    case True
    have "tmp ! 0 OR 1 \<noteq> 0"
    proof
      assume "tmp ! 0 OR 1 = 0"
      then have "bit (tmp ! 0 OR 1) 0 = bit (0 :: u8) 0" by simp
      then show False by (simp add: bit_or_iff bit_1_iff)
    qed
    moreover have "tmp ! 0 OR 1 \<in> set (tmp[0 := tmp ! 0 OR 1])" using l by (intro set_update_memI) simp
    ultimately show ?thesis using True l unfolding r by auto
  next
    case False
    then have "\<exists>b \<in> set tmp. b \<noteq> 0" using fold_xor_zeros [of tmp 0] by auto
    then show ?thesis using False l unfolding r by simp
  qed
qed

end
