(* ===== verification/HashId.thy ===== *)
theory HashId
  imports Prelude "HOL-Library.Signed_Division"
begin

text \<open>
  \<^verbatim>\<open>service-src/hashid.h\<close>: the table that maps socket ids to the slots of the gate's
  connection array. The nodes live in one array; every hash bucket is a chain of nodes through
  their \<open>next\<close> pointers, which are modelled as indices into that array. The lemmas show that
  the three operations implement a finite map from ids to slots.
\<close>

section \<open>State\<close>

record hashid_node =
  nid :: int
  nnext :: "nat option"

record hashid =
  hi_hashmod :: int
  hi_cap :: int
  hi_count :: int
  hi_id :: "hashid_node list"
  hi_hash :: "nat option list"

text \<open>Reading and writing a node through a pointer; a pointer outside the array is a fault.\<close>

definition hnode :: "hashid \<Rightarrow> nat \<Rightarrow> hashid_node option" where
  "hnode hi i = (if i < length (hi_id hi) then Some (hi_id hi ! i) else None)"

definition set_hnode :: "hashid \<Rightarrow> nat \<Rightarrow> hashid_node \<Rightarrow> hashid" where
  "set_hnode hi i n = hi\<lparr>hi_id := (hi_id hi)[i := n]\<rparr>"

definition bucket :: "hashid \<Rightarrow> int \<Rightarrow> nat" where
  "bucket hi uid = nat (uid AND hi_hashmod hi)"

section \<open>Operations\<close>

partial_function (option) hashcap_from :: "int \<Rightarrow> int \<Rightarrow> int option" where
  "hashcap_from c mx =
     (if c < mx then (if is_i32 (c * 2) then hashcap_from (c * 2) mx else None) else Some c)"

definition hashid_init :: "int \<Rightarrow> hashid option" where
  "hashid_init mx = do {
     hashcap \<leftarrow> hashcap_from 16 mx;
     Some \<lparr>hi_hashmod = hashcap - 1, hi_cap = mx, hi_count = 0,
           hi_id = replicate (nat mx) \<lparr>nid = -1, nnext = None\<rparr>,
           hi_hash = replicate (nat hashcap) None\<rparr>
   }"

definition hashid_clear :: "hashid \<Rightarrow> hashid" where
  "hashid_clear hi =
     hi\<lparr>hi_id := [], hi_hash := [], hi_hashmod := 1, hi_cap := 0, hi_count := 0\<rparr>"

definition hash_head :: "hashid \<Rightarrow> int \<Rightarrow> nat option option" where
  "hash_head hi uid =
     (if bucket hi uid < length (hi_hash hi) then Some (hi_hash hi ! bucket hi uid) else None)"

partial_function (option) lookup_loop :: "hashid \<Rightarrow> int \<Rightarrow> nat option \<Rightarrow> int option" where
  "lookup_loop hi uid c =
     (case c of
        None \<Rightarrow> Some (-1)
      | Some i \<Rightarrow>
          Option.bind (hnode hi i)
            (\<lambda>n. if nid n = uid then Some (int i) else lookup_loop hi uid (nnext n)))"

definition hashid_lookup :: "hashid \<Rightarrow> int \<Rightarrow> int option" where
  "hashid_lookup hi uid = do { c \<leftarrow> hash_head hi uid; lookup_loop hi uid c }"

text \<open>The label \<open>_clear\<close> of \<open>hashid_remove\<close>: free the node and return its index.\<close>

definition clear_node :: "hashid \<Rightarrow> nat \<Rightarrow> hashid \<times> int" where
  "clear_node hi c =
     ((set_hnode hi c \<lparr>nid = -1, nnext = None\<rparr>)\<lparr>hi_count := hi_count hi - 1\<rparr>, int c)"

partial_function (option) remove_loop :: "hashid \<Rightarrow> int \<Rightarrow> nat \<Rightarrow> (hashid \<times> int) option" where
  "remove_loop hi uid c =
     Option.bind (hnode hi c) (\<lambda>n.
       case nnext n of
         None \<Rightarrow> Some (hi, -1)
       | Some d \<Rightarrow>
           Option.bind (hnode hi d) (\<lambda>m.
             if nid m = uid then Some (clear_node (set_hnode hi c (n\<lparr>nnext := nnext m\<rparr>)) d)
             else remove_loop hi uid d))"

definition hashid_remove :: "hashid \<Rightarrow> int \<Rightarrow> (hashid \<times> int) option" where
  "hashid_remove hi uid = do {
     hd \<leftarrow> hash_head hi uid;
     case hd of
       None \<Rightarrow> Some (hi, -1)
     | Some c \<Rightarrow> do {
         n \<leftarrow> hnode hi c;
         if nid n = uid
         then Some (clear_node (hi\<lparr>hi_hash := (hi_hash hi)[bucket hi uid := nnext n]\<rparr>) c)
         else remove_loop hi uid c
       }
   }"

text \<open>The probing loop of \<open>hashid_insert\<close>; the last argument counts the iterations left.
  \<open>None\<close> covers the failed \<open>assert(c)\<close>, a negative index and the overflow of \<open>i+uid\<close>.\<close>

fun insert_probe :: "hashid \<Rightarrow> int \<Rightarrow> int \<Rightarrow> nat \<Rightarrow> nat option" where
  "insert_probe hi uid i 0 = None"
| "insert_probe hi uid i (Suc k) =
     (let index = (i + uid) smod hi_cap hi in
      if \<not> is_i32 (i + uid) \<or> index < 0 then None
      else Option.bind (hnode hi (nat index))
        (\<lambda>n. if nid n = -1 then Some (nat index) else insert_probe hi uid (i + 1) k))"

definition hashid_insert :: "hashid \<Rightarrow> int \<Rightarrow> (hashid \<times> int) option" where
  "hashid_insert hi uid = do {
     c \<leftarrow> insert_probe hi uid 0 (nat (hi_cap hi));
     n \<leftarrow> hnode hi c;
     h \<leftarrow> hash_head hi uid;
     if nnext n \<noteq> None then None
     else
       let n' = n\<lparr>nid := uid\<rparr>;
           n'' = (if h \<noteq> None then n'\<lparr>nnext := h\<rparr> else n')
       in Some ((set_hnode hi c n'')
                  \<lparr>hi_count := hi_count hi + 1,
                   hi_hash := (hi_hash hi)[bucket hi uid := Some c]\<rparr>, int c)
   }"

definition hashid_full :: "hashid \<Rightarrow> bool" where
  "hashid_full hi \<longleftrightarrow> hi_count hi = hi_cap hi"

section \<open>Invariant and abstraction\<close>

definition node_next :: "hashid \<Rightarrow> nat \<Rightarrow> nat option" where
  "node_next hi i = (if i < length (hi_id hi) then nnext (hi_id hi ! i) else None)"

text \<open>\<open>hashid_wf hi bk\<close>: \<open>bk h\<close> is the chain of bucket \<open>h\<close>; it holds exactly the used
  nodes whose uid hashes to \<open>h\<close>, and no uid is stored twice.\<close>

definition hashid_wf :: "hashid \<Rightarrow> (nat \<Rightarrow> nat list) \<Rightarrow> bool" where
  "hashid_wf hi bk \<longleftrightarrow>
     0 \<le> hi_cap hi \<and> length (hi_id hi) = nat (hi_cap hi) \<and>
     0 \<le> hi_hashmod hi \<and> length (hi_hash hi) = nat (hi_hashmod hi + 1) \<and>
     (\<forall>h < length (hi_hash hi). is_chain (node_next hi) (hi_hash hi ! h) (bk h)) \<and>
     (\<forall>h < length (hi_hash hi). \<forall>i. i \<in> set (bk h) \<longleftrightarrow>
        i < length (hi_id hi) \<and> nid (hi_id hi ! i) \<noteq> -1 \<and> bucket hi (nid (hi_id hi ! i)) = h) \<and>
     (\<forall>i < length (hi_id hi). \<forall>j < length (hi_id hi).
        nid (hi_id hi ! i) = nid (hi_id hi ! j) \<longrightarrow> nid (hi_id hi ! i) \<noteq> -1 \<longrightarrow> i = j) \<and>
     (\<forall>i < length (hi_id hi). nid (hi_id hi ! i) = -1 \<longrightarrow> nnext (hi_id hi ! i) = None) \<and>
     hi_count hi = int (card {i. i < length (hi_id hi) \<and> nid (hi_id hi ! i) \<noteq> -1})"

definition hashid_inv :: "hashid \<Rightarrow> bool" where
  "hashid_inv hi \<longleftrightarrow> (\<exists>bk. hashid_wf hi bk)"

definition hashid_map :: "hashid \<Rightarrow> int \<Rightarrow> nat option" where
  "hashid_map hi k =
     (if k = -1 then None
      else List.find (\<lambda>i. nid (hi_id hi ! i) = k) [0..<length (hi_id hi)])"


section \<open>Lookup\<close>

lemma bucket_lt:
  "hashid_wf hi bk \<Longrightarrow> bucket hi uid < length (hi_hash hi)"
  unfolding hashid_wf_def bucket_def
  by (metis AND_upper2 nat_less_eq_zless and_nonnegative_int_iff zle_iff_zadd zless_add1_eq
      order_le_less)

lemma hashid_map_Some_iff:
  assumes "hashid_wf hi bk"
  shows "hashid_map hi k = Some i \<longleftrightarrow> k \<noteq> -1 \<and> i < length (hi_id hi) \<and> nid (hi_id hi ! i) = k"
proof (cases "k = -1")
  case False
  have "List.find (\<lambda>i. nid (hi_id hi ! i) = k) [0..<length (hi_id hi)] = Some i \<longleftrightarrow>
      i \<in> set [0..<length (hi_id hi)] \<and> nid (hi_id hi ! i) = k"
    by (rule find_unique) (use assms False in \<open>auto simp: hashid_wf_def\<close>)
  with False show ?thesis by (simp add: hashid_map_def)
qed (simp add: hashid_map_def)

lemma hashid_map_eqI:
  assumes "hashid_wf hi bk" "hashid_wf hi' bk'"
    and "\<And>k i. k \<noteq> -1 \<Longrightarrow> (i < length (hi_id hi') \<and> nid (hi_id hi' ! i) = k) \<longleftrightarrow> m k = Some i"
    and "m (-1) = None"
  shows "hashid_map hi' = m"
proof
  fix k
  show "hashid_map hi' k = m k"
  proof (cases "k = -1")
    case True
    then show ?thesis using assms(4) by (simp add: hashid_map_def)
  next
    case False
    then show ?thesis
      using assms(3) hashid_map_Some_iff [OF assms(2), of k]
      by (metis option.exhaust option.distinct(1))
  qed
qed

lemma lookup_loop_chain:
  assumes "is_chain (node_next hi) c xs" and "\<forall>i\<in>set xs. i < length (hi_id hi)"
  shows "lookup_loop hi uid c =
    Some (case List.find (\<lambda>i. nid (hi_id hi ! i) = uid) xs of None \<Rightarrow> -1 | Some i \<Rightarrow> int i)"
  using assms
proof (induction xs arbitrary: c)
  case Nil
  then show ?case by (subst lookup_loop.simps) simp
next
  case (Cons x xs)
  then have c: "c = Some x" and x: "hnode hi x = Some (hi_id hi ! x)"
    and n: "node_next hi x = nnext (hi_id hi ! x)"
    by (auto simp: hnode_def node_next_def)
  from Cons have "lookup_loop hi uid (nnext (hi_id hi ! x)) =
    Some (case List.find (\<lambda>i. nid (hi_id hi ! i) = uid) xs of None \<Rightarrow> -1 | Some i \<Rightarrow> int i)"
    by (simp add: n)
  with c x show ?case by (subst lookup_loop.simps) simp
qed

lemma find_bucket:
  assumes wf: "hashid_wf hi bk"
  shows "List.find (\<lambda>i. nid (hi_id hi ! i) = uid) (bk (bucket hi uid)) = hashid_map hi uid"
proof -
  let ?xs = "bk (bucket hi uid)"
  have mem: "i \<in> set ?xs \<longleftrightarrow> i < length (hi_id hi) \<and> nid (hi_id hi ! i) \<noteq> -1 \<and>
      bucket hi (nid (hi_id hi ! i)) = bucket hi uid" for i
    using wf bucket_lt [OF wf, of uid] unfolding hashid_wf_def by metis
  have "List.find (\<lambda>i. nid (hi_id hi ! i) = uid) ?xs = Some i \<longleftrightarrow>
      i \<in> set ?xs \<and> nid (hi_id hi ! i) = uid" for i
    by (rule find_unique) (use wf mem in \<open>auto simp: hashid_wf_def\<close>)
  then have "List.find (\<lambda>i. nid (hi_id hi ! i) = uid) ?xs = Some i \<longleftrightarrow> hashid_map hi uid = Some i" for i
    by (auto simp: mem hashid_map_Some_iff [OF wf])
  then show ?thesis by (metis option.exhaust)
qed

lemma hashid_lookup_map:
  assumes "hashid_inv hi"
  shows "hashid_lookup hi uid =
    Some (case hashid_map hi uid of None \<Rightarrow> -1 | Some i \<Rightarrow> int i)"
proof -
  from assms obtain bk where wf: "hashid_wf hi bk" by (auto simp: hashid_inv_def)
  note lt = bucket_lt [OF wf, of uid]
  have "is_chain (node_next hi) (hi_hash hi ! bucket hi uid) (bk (bucket hi uid))"
    and "\<forall>i\<in>set (bk (bucket hi uid)). i < length (hi_id hi)"
    using wf lt unfolding hashid_wf_def by auto
  from lookup_loop_chain [OF this] lt show ?thesis
    by (simp add: hashid_lookup_def hash_head_def find_bucket [OF wf])
qed

section \<open>Removal\<close>

lemma wf_parts:
  assumes "hashid_wf hi bk" and "h < length (hi_hash hi)"
  shows "is_chain (node_next hi) (hi_hash hi ! h) (bk h)"
    and "distinct (bk h)"
    and "i \<in> set (bk h) \<longleftrightarrow>
      i < length (hi_id hi) \<and> nid (hi_id hi ! i) \<noteq> -1 \<and> bucket hi (nid (hi_id hi ! i)) = h"
proof -
  show c: "is_chain (node_next hi) (hi_hash hi ! h) (bk h)"
    using assms unfolding hashid_wf_def by blast
  show "distinct (bk h)" by (rule is_chain_distinct [OF c])
  show "i \<in> set (bk h) \<longleftrightarrow>
      i < length (hi_id hi) \<and> nid (hi_id hi ! i) \<noteq> -1 \<and> bucket hi (nid (hi_id hi ! i)) = h"
    using assms unfolding hashid_wf_def by blast
qed

text \<open>What any correct way of freeing node \<open>d\<close> establishes: the two removal paths of the code
  (bucket head, inner node) are instances.\<close>

lemma wf_free:
  assumes wf: "hashid_wf hi bk" and h: "h < length (hi_hash hi)" and d: "d \<in> set (bk h)"
    and same: "hi_hashmod hi' = hi_hashmod hi" "hi_cap hi' = hi_cap hi"
      "hi_count hi' = hi_count hi - 1" "length (hi_id hi') = length (hi_id hi)"
      "length (hi_hash hi') = length (hi_hash hi)"
    and ids: "\<And>i. i < length (hi_id hi) \<Longrightarrow>
      nid (hi_id hi' ! i) = (if i = d then -1 else nid (hi_id hi ! i))"
    and heads: "\<And>j. j \<noteq> h \<Longrightarrow> hi_hash hi' ! j = hi_hash hi ! j"
    and nexts: "\<And>i. i \<notin> set (bk h) \<Longrightarrow> node_next hi' i = node_next hi i"
    and dn: "node_next hi' d = None"
    and chain: "is_chain (node_next hi') (hi_hash hi' ! h) (remove1 d (bk h))"
  shows "hashid_wf hi' (bk(h := remove1 d (bk h)))"
    and "hashid_map hi' = (hashid_map hi)(nid (hi_id hi ! d) := None)"
proof -
  have bucket': "bucket hi' = bucket hi" by (auto simp: bucket_def same)
  have dlen: "d < length (hi_id hi)" and dused: "nid (hi_id hi ! d) \<noteq> -1"
    and dh: "bucket hi (nid (hi_id hi ! d)) = h"
    using d wf_parts(3) [OF wf h] by auto
  have card: "int (card {i. i < length (hi_id hi') \<and> nid (hi_id hi' ! i) \<noteq> -1}) = hi_count hi - 1"
  proof -
    let ?S = "{i. i < length (hi_id hi) \<and> nid (hi_id hi ! i) \<noteq> -1}"
    have "{i. i < length (hi_id hi') \<and> nid (hi_id hi' ! i) \<noteq> -1} = ?S - {d}"
      using ids same(4) by (auto split: if_splits)
    moreover have "d \<in> ?S" "finite ?S" using dlen dused by auto
    moreover have "hi_count hi = int (card ?S)" using wf unfolding hashid_wf_def by blast
    moreover have "0 < card ?S" using \<open>d \<in> ?S\<close> \<open>finite ?S\<close> by (metis card_gt_0_iff empty_iff)
    ultimately show ?thesis by (simp add: card_Diff_singleton)
  qed
  have chains: "is_chain (node_next hi') (hi_hash hi' ! j) ((bk(h := remove1 d (bk h))) j)"
    if "j < length (hi_hash hi)" for j
  proof (cases "j = h")
    case True
    then show ?thesis using chain by simp
  next
    case False
    have "i \<notin> set (bk h)" if "i \<in> set (bk j)" for i
      using that False wf_parts(3) [OF wf \<open>j < _\<close>, of i] wf_parts(3) [OF wf h, of i] by simp
    then have "is_chain (node_next hi') (hi_hash hi ! j) (bk j)"
      using wf_parts(1) [OF wf that] nexts by (metis is_chain_transfer)
    with False heads show ?thesis by simp
  qed
  have mem: "i \<in> set ((bk(h := remove1 d (bk h))) j) \<longleftrightarrow> i < length (hi_id hi') \<and>
      nid (hi_id hi' ! i) \<noteq> -1 \<and> bucket hi' (nid (hi_id hi' ! i)) = j"
    if "j < length (hi_hash hi)" for i j
  proof (cases "i < length (hi_id hi)")
    case True
    show ?thesis
      using that wf_parts(2,3) [OF wf that] wf_parts(2,3) [OF wf h] ids [OF True] dh
      by (auto simp: bucket' same set_remove1_eq split: if_splits)
  next
    case False
    then show ?thesis
      using wf_parts(2,3) [OF wf that] by (auto simp: same dest: notin_set_remove1)
  qed
  have uniq: "i = j" if "i < length (hi_id hi')" "j < length (hi_id hi')"
      "nid (hi_id hi' ! i) = nid (hi_id hi' ! j)" "nid (hi_id hi' ! i) \<noteq> -1" for i j
    using wf that ids unfolding hashid_wf_def same by (metis (no_types, lifting))
  have free: "nnext (hi_id hi' ! i) = None" if i: "i < length (hi_id hi')" "nid (hi_id hi' ! i) = -1" for i
  proof (cases "i = d")
    case True
    then show ?thesis using dn i by (simp add: node_next_def)
  next
    case False
    then have u: "nid (hi_id hi ! i) = -1" using i ids same by simp
    then have "i \<notin> set (bk h)" using wf_parts(3) [OF wf h] by auto
    from nexts [OF this] have "nnext (hi_id hi' ! i) = nnext (hi_id hi ! i)"
      using i same by (simp add: node_next_def)
    also have "\<dots> = None" using wf u i same unfolding hashid_wf_def by simp
    finally show ?thesis .
  qed
  show wf': "hashid_wf hi' (bk(h := remove1 d (bk h)))"
    unfolding hashid_wf_def
    using wf chains mem uniq free card same unfolding hashid_wf_def
    by (intro conjI allI impI) simp_all
  show "hashid_map hi' = (hashid_map hi)(nid (hi_id hi ! d) := None)"
  proof (rule hashid_map_eqI [OF wf wf'])
    fix k :: int and i :: nat
    assume "k \<noteq> - 1"
    then show "(i < length (hi_id hi') \<and> nid (hi_id hi' ! i) = k) \<longleftrightarrow>
        ((hashid_map hi)(nid (hi_id hi ! d) := None)) k = Some i"
    proof (cases "i < length (hi_id hi) \<and> nid (hi_id hi ! i) = k \<and> k \<noteq> -1")
      case True
      then have k: "hashid_map hi k = Some i" using hashid_map_Some_iff [OF wf, of k i] by (simp only: simp_thms)
      have "hashid_map hi (nid (hi_id hi ! d)) = Some d"
        using hashid_map_Some_iff [OF wf, of "nid (hi_id hi ! d)" d] dlen dused by (simp only: simp_thms)
      with k True have id: "(i = d) = (k = nid (hi_id hi ! d))" by (metis option.inject)
      show ?thesis
      proof (cases "i = d")
        case True
        then show ?thesis using id ids [of i] dlen \<open>k \<noteq> -1\<close> by simp
      next
        case False
        then show ?thesis using id k True ids [of i] same(4) by simp
      qed
    next
      case False
      then have "hashid_map hi k \<noteq> Some i" using hashid_map_Some_iff [OF wf, of k i] by metis
      with False \<open>k \<noteq> -1\<close> ids [of i] same(4) show ?thesis by (auto split: if_splits)
    qed
  qed (simp add: hashid_map_def)
qed

lemma remove_loop_chain:
  assumes "is_chain (node_next hi) (Some c) (c # ys)" and "\<forall>i\<in>set (c # ys). i < length (hi_id hi)"
    and "List.find (\<lambda>i. nid (hi_id hi ! i) = uid) ys = fd"
  shows "case fd of
      None \<Rightarrow> remove_loop hi uid c = Some (hi, -1)
    | Some d \<Rightarrow> \<exists>as a bs. c # ys = as @ a # d # bs \<and>
        remove_loop hi uid c =
          Some (clear_node (set_hnode hi a ((hi_id hi ! a)\<lparr>nnext := nnext (hi_id hi ! d)\<rparr>)) d)"
  using assms
proof (induction ys arbitrary: c)
  case Nil
  then show ?case by (subst remove_loop.simps) (auto simp: hnode_def node_next_def)
next
  case (Cons y ys)
  have c: "hnode hi c = Some (hi_id hi ! c)" and n: "nnext (hi_id hi ! c) = Some y"
    and y: "hnode hi y = Some (hi_id hi ! y)"
    using Cons.prems by (auto simp: hnode_def node_next_def)
  show ?case
  proof (cases "nid (hi_id hi ! y) = uid")
    case True
    then have "remove_loop hi uid c =
        Some (clear_node (set_hnode hi c ((hi_id hi ! c)\<lparr>nnext := nnext (hi_id hi ! y)\<rparr>)) y)"
      using c n y by (subst remove_loop.simps) simp
    moreover have "fd = Some y" using True Cons.prems(3) by simp
    ultimately show ?thesis by (auto intro!: exI [of _ "[]"])
  next
    case False
    then have r: "remove_loop hi uid c = remove_loop hi uid y"
      using c n y by (subst remove_loop.simps) simp
    have ch: "is_chain (node_next hi) (Some y) (y # ys)" and "\<forall>i\<in>set (y # ys). i < length (hi_id hi)"
      using Cons.prems by auto
    moreover have "List.find (\<lambda>i. nid (hi_id hi ! i) = uid) ys = fd" using Cons.prems(3) False by simp
    ultimately have IH: "case fd of
      None \<Rightarrow> remove_loop hi uid y = Some (hi, -1)
    | Some d \<Rightarrow> \<exists>as a bs. y # ys = as @ a # d # bs \<and>
        remove_loop hi uid y =
          Some (clear_node (set_hnode hi a ((hi_id hi ! a)\<lparr>nnext := nnext (hi_id hi ! d)\<rparr>)) d)"
      by (rule Cons.IH)
    show ?thesis
    proof (cases fd)
      case None
      then show ?thesis using IH r by simp
    next
      case (Some d)
      then obtain as a bs where "c # y # ys = (c # as) @ a # d # bs" "remove_loop hi uid y =
          Some (clear_node (set_hnode hi a ((hi_id hi ! a)\<lparr>nnext := nnext (hi_id hi ! d)\<rparr>)) d)"
        using IH by auto
      then have "c # y # ys = (c # as) @ a # d # bs \<and> remove_loop hi uid c =
          Some (clear_node (set_hnode hi a ((hi_id hi ! a)\<lparr>nnext := nnext (hi_id hi ! d)\<rparr>)) d)"
        using r by simp
      then show ?thesis unfolding Some option.case by blast
    qed
  qed
qed

lemma hashid_remove_absent:
  assumes wf: "hashid_wf hi bk" and none: "hashid_map hi uid = None"
  shows "hashid_remove hi uid = Some (hi, -1)"
proof -
  let ?h = "bucket hi uid"
  note h = bucket_lt [OF wf, of uid]
  have ch: "is_chain (node_next hi) (hi_hash hi ! ?h) (bk ?h)" and r: "\<forall>i\<in>set (bk ?h). i < length (hi_id hi)"
    using wf_parts [OF wf h] by auto
  have f: "List.find (\<lambda>i. nid (hi_id hi ! i) = uid) (bk ?h) = None"
    using find_bucket [OF wf] none by simp
  show ?thesis
  proof (cases "bk ?h")
    case Nil
    then show ?thesis using ch h by (simp add: hashid_remove_def hash_head_def)
  next
    case (Cons c ys)
    then have "remove_loop hi uid c = Some (hi, -1)"
      using remove_loop_chain [of hi c ys uid None] ch r f by (auto split: if_splits)
    moreover have "nid (hi_id hi ! c) \<noteq> uid" using f Cons by (auto split: if_splits)
    ultimately show ?thesis using Cons ch r h
      by (simp add: hashid_remove_def hash_head_def hnode_def)
  qed
qed

lemma node_next_set [simp]:
  "c < length (hi_id hi) \<Longrightarrow> node_next (set_hnode hi c n) = (node_next hi)(c := nnext n)"
  by (auto simp: node_next_def set_hnode_def fun_eq_iff)

lemma node_next_count [simp]: "node_next (hi\<lparr>hi_count := k\<rparr>) = node_next hi"
  and node_next_hash [simp]: "node_next (hi\<lparr>hi_hash := hs\<rparr>) = node_next hi"
  by (auto simp: node_next_def fun_eq_iff)

lemma set_hnode_sel [simp]:
  "hi_hashmod (set_hnode hi c n) = hi_hashmod hi" "hi_cap (set_hnode hi c n) = hi_cap hi"
  "hi_count (set_hnode hi c n) = hi_count hi" "hi_hash (set_hnode hi c n) = hi_hash hi"
  "hi_id (set_hnode hi c n) = (hi_id hi)[c := n]"
  by (simp_all add: set_hnode_def)

lemma hashid_remove_present:
  assumes wf: "hashid_wf hi bk" and some: "hashid_map hi uid = Some d"
  shows "\<exists>hi'. hashid_remove hi uid = Some (hi', int d) \<and> hashid_inv hi' \<and>
    hashid_map hi' = (hashid_map hi)(uid := None) \<and> hi_cap hi' = hi_cap hi \<and>
    hi_count hi' = hi_count hi - 1"
proof -
  let ?h = "bucket hi uid"
  note h = bucket_lt [OF wf, of uid]
  have ch: "is_chain (node_next hi) (hi_hash hi ! ?h) (bk ?h)"
    and r: "\<forall>i\<in>set (bk ?h). i < length (hi_id hi)" and dist: "distinct (bk ?h)"
    using wf_parts [OF wf h] by auto
  have f: "List.find (\<lambda>i. nid (hi_id hi ! i) = uid) (bk ?h) = Some d"
    using find_bucket [OF wf] some by simp
  then have d: "d \<in> set (bk ?h)" "nid (hi_id hi ! d) = uid" by (auto dest: find_SomeD)
  with r have dl: "d < length (hi_id hi)" by auto
  obtain c ys where cys: "bk ?h = c # ys" using d by (cases "bk ?h") auto
  define hi1 where "hi1 = (if c = d then hi\<lparr>hi_hash := (hi_hash hi)[?h := nnext (hi_id hi ! d)]\<rparr>
     else fst (the (hashid_remove hi uid)))"
  show ?thesis
  proof (cases "c = d")
    case True
    let ?hi0 = "hi\<lparr>hi_hash := (hi_hash hi)[?h := nnext (hi_id hi ! d)]\<rparr>"
    let ?hi' = "fst (clear_node ?hi0 d)"
    have res: "hashid_remove hi uid = Some (?hi', int d)"
      using True cys ch h dl d by (simp add: hashid_remove_def hash_head_def hnode_def clear_node_def)
    have rest: "remove1 d (bk ?h) = ys" using True cys by simp
    have chain': "is_chain (node_next ?hi') (hi_hash ?hi' ! ?h) (remove1 d (bk ?h))"
      using ch dist dl h True unfolding rest cys
      by (simp add: clear_node_def is_chain_upd_notin) (simp add: node_next_def)
    have "hashid_wf ?hi' (bk(?h := remove1 d (bk ?h)))"
      and "hashid_map ?hi' = (hashid_map hi)(nid (hi_id hi ! d) := None)"
      by (rule wf_free [OF wf h d(1) _ _ _ _ _ _ _ _ _ chain'];
          use dl d(1) in \<open>auto simp: clear_node_def nth_list_update_le\<close>)+
    then show ?thesis using res d by (auto simp: hashid_inv_def clear_node_def)
  next
    case False
    have f': "List.find (\<lambda>i. nid (hi_id hi ! i) = uid) ys = Some d" and nc: "nid (hi_id hi ! c) \<noteq> uid"
      using f False cys by (auto split: if_splits)
    have ch': "is_chain (node_next hi) (Some c) (c # ys)" and r': "\<forall>i\<in>set (c # ys). i < length (hi_id hi)"
      using ch r cys by auto
    from remove_loop_chain [OF this f'] obtain as a bs where
      sp: "c # ys = as @ a # d # bs" and rl: "remove_loop hi uid c =
        Some (clear_node (set_hnode hi a ((hi_id hi ! a)\<lparr>nnext := nnext (hi_id hi ! d)\<rparr>)) d)"
      by auto
    have ad: "a < length (hi_id hi)" "a \<noteq> d" "a \<in> set (bk ?h)"
      using r' sp cys dist by auto
    let ?hi0 = "set_hnode hi a ((hi_id hi ! a)\<lparr>nnext := nnext (hi_id hi ! d)\<rparr>)"
    let ?hi' = "fst (clear_node ?hi0 d)"
    have res: "hashid_remove hi uid = Some (?hi', int d)"
      using nc cys ch h r' rl by (simp add: hashid_remove_def hash_head_def hnode_def clear_node_def)
    have rest: "remove1 d (bk ?h) = as @ a # bs"
      using sp cys dist by (auto simp: remove1_append)
    have nx: "node_next ?hi' = (node_next hi)(a := node_next hi d, d := None)"
      using ad dl by (simp add: clear_node_def) (simp add: node_next_def)
    have "is_chain ((node_next hi)(a := node_next hi d)) (hi_hash hi ! ?h) (as @ a # bs)"
      using is_chain_unlink ch cys sp by metis
    moreover have "d \<notin> set (as @ a # bs)" using sp cys dist by auto
    ultimately have "is_chain ((node_next hi)(a := node_next hi d, d := None)) (hi_hash hi ! ?h) (as @ a # bs)"
      by (metis is_chain_upd_notin)
    then have chain': "is_chain (node_next ?hi') (hi_hash ?hi' ! ?h) (remove1 d (bk ?h))"
      unfolding rest nx by (simp add: clear_node_def)
    have "hashid_wf ?hi' (bk(?h := remove1 d (bk ?h)))"
      and "hashid_map ?hi' = (hashid_map hi)(nid (hi_id hi ! d) := None)"
      by (rule wf_free [OF wf h d(1) _ _ _ _ _ _ _ _ _ chain'];
          use dl d(1) ad in \<open>auto simp: clear_node_def nth_list_update_le\<close>)+
    then show ?thesis using res d by (auto simp: hashid_inv_def clear_node_def)
  qed
qed

section \<open>Insertion\<close>

text \<open>Linking the free node \<open>c\<close> in front of its bucket.\<close>

lemma wf_add:
  assumes wf: "hashid_wf hi bk" and c: "c < length (hi_id hi)" "nid (hi_id hi ! c) = -1"
    and uid: "uid \<noteq> -1" "hashid_map hi uid = None"
    and hi': "hi' = (set_hnode hi c \<lparr>nid = uid, nnext = hi_hash hi ! bucket hi uid\<rparr>)
      \<lparr>hi_count := hi_count hi + 1, hi_hash := (hi_hash hi)[bucket hi uid := Some c]\<rparr>"
  shows "hashid_wf hi' (bk(bucket hi uid := c # bk (bucket hi uid)))"
    and "hashid_map hi' = (hashid_map hi)(uid \<mapsto> c)"
proof -
  let ?h = "bucket hi uid"
  note h = bucket_lt [OF wf, of uid]
  have same: "hi_hashmod hi' = hi_hashmod hi" "hi_cap hi' = hi_cap hi"
      "hi_count hi' = hi_count hi + 1" "length (hi_id hi') = length (hi_id hi)"
      "length (hi_hash hi') = length (hi_hash hi)"
    by (simp_all add: hi')
  have bucket': "bucket hi' = bucket hi" by (auto simp: bucket_def same)
  have ids: "nid (hi_id hi' ! i) = (if i = c then uid else nid (hi_id hi ! i))"
    if "i < length (hi_id hi)" for i using that by (simp add: hi' nth_list_update_le)
  have nx: "node_next hi' = (node_next hi)(c := hi_hash hi ! ?h)" using c by (simp add: hi')
  have fresh: "c \<notin> set (bk j)" if "j < length (hi_hash hi)" for j
    using wf_parts(3) [OF wf that, of c] c by simp
  have absent: "nid (hi_id hi ! i) \<noteq> uid" if "i < length (hi_id hi)" for i
    using hashid_map_Some_iff [OF wf, of uid i] that uid by simp
  have card: "int (card {i. i < length (hi_id hi') \<and> nid (hi_id hi' ! i) \<noteq> -1}) = hi_count hi + 1"
  proof -
    let ?S = "{i. i < length (hi_id hi) \<and> nid (hi_id hi ! i) \<noteq> -1}"
    have "{i. i < length (hi_id hi') \<and> nid (hi_id hi' ! i) \<noteq> -1} = insert c ?S"
      using ids c uid same(4) by (auto split: if_splits)
    moreover have "c \<notin> ?S" "finite ?S" using c by auto
    moreover have "hi_count hi = int (card ?S)" using wf unfolding hashid_wf_def by blast
    ultimately show ?thesis by simp
  qed
  have chains: "is_chain (node_next hi') (hi_hash hi' ! j) ((bk(?h := c # bk ?h)) j)"
    if "j < length (hi_hash hi)" for j
    unfolding nx using wf_parts(1) [OF wf that] fresh [OF that] that
    by (auto simp: hi' is_chain_upd_notin nth_list_update_le)
  have mem: "i \<in> set ((bk(?h := c # bk ?h)) j) \<longleftrightarrow> i < length (hi_id hi') \<and>
      nid (hi_id hi' ! i) \<noteq> -1 \<and> bucket hi' (nid (hi_id hi' ! i)) = j"
    if "j < length (hi_hash hi)" for i j
  proof (cases "i = c")
    case True
    then show ?thesis using fresh [OF that] ids [OF c(1)] c uid by (auto simp: bucket' same)
  next
    case False
    then show ?thesis using wf_parts(3) [OF wf that, of i] ids [of i]
      by (auto simp: bucket' same)
  qed
  have uniq: "i = j" if "i < length (hi_id hi')" "j < length (hi_id hi')"
      "nid (hi_id hi' ! i) = nid (hi_id hi' ! j)" "nid (hi_id hi' ! i) \<noteq> -1" for i j
  proof (cases "i = c \<or> j = c")
    case True
    then show ?thesis using that ids absent same(4) by (metis (no_types, lifting))
  next
    case False
    then have "nid (hi_id hi ! i) = nid (hi_id hi ! j)" "nid (hi_id hi ! i) \<noteq> -1"
      using that ids same(4) by auto
    then show ?thesis using wf that same(4) unfolding hashid_wf_def by auto
  qed
  have free: "nnext (hi_id hi' ! i) = None" if i: "i < length (hi_id hi')" "nid (hi_id hi' ! i) = -1" for i
    using wf i uid same(4) unfolding hashid_wf_def by (auto simp: hi' nth_list_update_le split: if_splits)
  show wf': "hashid_wf hi' (bk(?h := c # bk ?h))"
    unfolding hashid_wf_def
    using wf chains mem uniq free card same unfolding hashid_wf_def
    by (intro conjI allI impI) simp_all
  show "hashid_map hi' = (hashid_map hi)(uid \<mapsto> c)"
  proof (rule hashid_map_eqI [OF wf wf'])
    fix k :: int and i :: nat
    assume k: "k \<noteq> - 1"
    show "(i < length (hi_id hi') \<and> nid (hi_id hi' ! i) = k) \<longleftrightarrow> ((hashid_map hi)(uid \<mapsto> c)) k = Some i"
    proof (cases "i < length (hi_id hi)")
      case True
      then show ?thesis
        using k ids [OF True] absent [OF True] hashid_map_Some_iff [OF wf, of k i] c same(4) by auto
    next
      case False
      then show ?thesis using hashid_map_Some_iff [OF wf, of k i] c same(4) by auto
    qed
  qed (use uid in \<open>simp add: hashid_map_def\<close>)
qed

text \<open>The probe finds a free slot whenever the table is not full: the indices
  \<open>(i + id) % cap\<close> for \<open>i < cap\<close> visit every slot.\<close>

lemma insert_probe_steps:
  assumes "0 \<le> i" "0 \<le> uid" "i + uid + int k \<le> 2 ^ 31" "0 < hi_cap hi"
    and "length (hi_id hi) = nat (hi_cap hi)"
  shows "insert_probe hi uid i k =
    List.find (\<lambda>j. nid (hi_id hi ! j) = -1) (map (\<lambda>d. nat ((i + int d + uid) mod hi_cap hi)) [0..<k])"
  using assms
proof (induction k arbitrary: i)
  case 0
  then show ?case by simp
next
  case (Suc k)
  let ?j = "(i + uid) smod hi_cap hi"
  have j: "?j = (i + uid) mod hi_cap hi"
    using Suc.prems by (auto simp: signed_modulo_int_def sgn_if)
  have b: "0 \<le> ?j" "?j < hi_cap hi" unfolding j using Suc.prems by simp_all
  have ok: "is_i32 (i + uid)" using Suc.prems by (simp add: is_i32_def)
  have hn: "hnode hi (nat ?j) = Some (hi_id hi ! nat ?j)" using b Suc.prems by (simp add: hnode_def)
  have shift: "map (\<lambda>d. nat ((i + int d + uid) mod hi_cap hi)) [0..<Suc k] =
      nat ?j # map (\<lambda>d. nat ((i + 1 + int d + uid) mod hi_cap hi)) [0..<k]"
    by (simp add: upt_conv_Cons map_Suc_upt [symmetric] j algebra_simps del: upt_Suc map_Suc_upt)
  have IH: "insert_probe hi uid (i + 1) k = List.find (\<lambda>j. nid (hi_id hi ! j) = -1)
      (map (\<lambda>d. nat ((i + 1 + int d + uid) mod hi_cap hi)) [0..<k])"
    by (rule Suc.IH) (use Suc.prems in auto)
  show ?case unfolding shift using b ok hn IH by simp
qed

lemma hashid_not_full_free:
  assumes wf: "hashid_wf hi bk" and "\<not> hashid_full hi"
  shows "\<exists>s < length (hi_id hi). nid (hi_id hi ! s) = -1"
proof (rule ccontr)
  assume "\<not> ?thesis"
  then have "{i. i < length (hi_id hi) \<and> nid (hi_id hi ! i) \<noteq> -1} = {..<length (hi_id hi)}" by auto
  then have "hi_count hi = hi_cap hi" using wf unfolding hashid_wf_def by simp
  with assms(2) show False by (simp add: hashid_full_def)
qed

lemma insert_probe_free:
  assumes wf: "hashid_wf hi bk" and nf: "\<not> hashid_full hi"
    and uid: "0 \<le> uid" "uid + hi_cap hi \<le> 2 ^ 31"
  shows "\<exists>c. insert_probe hi uid 0 (nat (hi_cap hi)) = Some c \<and> c < length (hi_id hi) \<and>
    nid (hi_id hi ! c) = -1"
proof -
  from hashid_not_full_free [OF wf nf] obtain s where
    s: "s < length (hi_id hi)" "nid (hi_id hi ! s) = -1" by blast
  have cap: "length (hi_id hi) = nat (hi_cap hi)" "0 < hi_cap hi"
    using wf s unfolding hashid_wf_def by auto
  let ?js = "map (\<lambda>d. nat ((0 + int d + uid) mod hi_cap hi)) [0..<nat (hi_cap hi)]"
  define d where "d = nat ((int s - uid) mod hi_cap hi)"
  have d: "d < nat (hi_cap hi)" using cap by (simp add: d_def)
  have "(int d + uid) mod hi_cap hi = int s"
    using cap s by (simp add: d_def mod_simps)
  then have "s \<in> set ?js" using d by (auto intro!: image_eqI [of _ _ d])
  then have "List.find (\<lambda>j. nid (hi_id hi ! j) = -1) ?js \<noteq> None"
    using find_NoneD [of "\<lambda>j. nid (hi_id hi ! j) = -1" ?js s] s(2) by blast
  then obtain c where c: "List.find (\<lambda>j. nid (hi_id hi ! j) = -1) ?js = Some c" by auto
  then have "c \<in> set ?js" "nid (hi_id hi ! c) = -1" by (auto dest: find_SomeD)
  moreover from this have "c < length (hi_id hi)" using cap by auto
  ultimately show ?thesis
    using c insert_probe_steps [of 0 uid "nat (hi_cap hi)" hi] uid cap by auto
qed

lemma hashid_insert_fresh:
  assumes "hashid_inv hi" and "\<not> hashid_full hi" and "hashid_map hi uid = None"
    and "0 \<le> uid" "uid + hi_cap hi \<le> 2 ^ 31"
  shows "\<exists>hi' c. hashid_insert hi uid = Some (hi', int c) \<and> hashid_inv hi' \<and>
    hashid_map hi' = (hashid_map hi)(uid \<mapsto> c) \<and> c < nat (hi_cap hi) \<and>
    c \<notin> ran (hashid_map hi) \<and> hi_cap hi' = hi_cap hi \<and> hi_count hi' = hi_count hi + 1"
proof -
  from assms(1) obtain bk where wf: "hashid_wf hi bk" by (auto simp: hashid_inv_def)
  from insert_probe_free [OF wf assms(2,4,5)] obtain c where
    probe: "insert_probe hi uid 0 (nat (hi_cap hi)) = Some c" and
    c: "c < length (hi_id hi)" "nid (hi_id hi ! c) = -1" by blast
  have nn: "nnext (hi_id hi ! c) = None" using wf c unfolding hashid_wf_def by blast
  let ?h = "bucket hi uid"
  note h = bucket_lt [OF wf, of uid]
  define hi' where "hi' = (set_hnode hi c \<lparr>nid = uid, nnext = hi_hash hi ! bucket hi uid\<rparr>)
      \<lparr>hi_count := hi_count hi + 1, hi_hash := (hi_hash hi)[bucket hi uid := Some c]\<rparr>"
  have node: "hi_id hi ! c = \<lparr>nid = -1, nnext = None\<rparr>"
    using c nn by (cases "hi_id hi ! c") auto
  have res: "hashid_insert hi uid = Some (hi', int c)"
    using probe c h by (cases "hi_hash hi ! ?h")
      (simp_all add: hashid_insert_def hnode_def hash_head_def hi'_def node)
  have "uid \<noteq> -1" using assms(4) by simp
  note add = wf_add [OF wf c this assms(3) hi'_def]
  have "c \<notin> ran (hashid_map hi)"
    using hashid_map_Some_iff [OF wf] c by (auto simp: ran_def)
  moreover have "c < nat (hi_cap hi)" using wf c unfolding hashid_wf_def by simp
  ultimately show ?thesis
    using res add by (auto simp: hashid_inv_def) (simp_all add: hi'_def)
qed

section \<open>Initialisation\<close>

lemma hashcap_from_pow:
  assumes "mx \<le> 2 ^ 30" "k \<le> 30"
  shows "\<exists>j\<ge>k. j \<le> 30 \<and> hashcap_from (2 ^ k) mx = Some (2 ^ j) \<and> (mx \<le> 2 ^ j)"
  using assms(2)
proof (induction "30 - k" arbitrary: k)
  case 0
  then have "k = 30" by simp
  then show ?case using assms(1) by (subst hashcap_from.simps) auto
next
  case (Suc n)
  show ?case
  proof (cases "2 ^ k < mx")
    case True
    have "(2::int) ^ Suc k \<le> 2 ^ 30" using Suc by (intro power_increasing) auto
    moreover have "- (2 ^ 31) \<le> (2::int) ^ k * 2" by (rule order_trans [of _ 0]) auto
    ultimately have "is_i32 (2 ^ k * 2)" unfolding is_i32_def by (intro conjI) auto
    then have "hashcap_from (2 ^ k) mx = hashcap_from (2 ^ Suc k) mx"
      using True by (subst hashcap_from.simps) (simp add: mult.commute)
    moreover from Suc have "\<exists>j\<ge>Suc k. j \<le> 30 \<and> hashcap_from (2 ^ Suc k) mx = Some (2 ^ j) \<and> mx \<le> 2 ^ j"
      by (intro Suc.hyps) auto
    ultimately show ?thesis by (metis Suc_leD)
  next
    case False
    then show ?thesis using Suc by (subst hashcap_from.simps) auto
  qed
qed

lemma hashid_init_inv:
  assumes "0 \<le> mx" "mx \<le> 2 ^ 30"
  shows "\<exists>hi. hashid_init mx = Some hi \<and> hashid_inv hi \<and> hashid_map hi = Map.empty \<and>
    hi_cap hi = mx \<and> hi_count hi = 0"
proof -
  from hashcap_from_pow [OF assms(2), of 4] obtain j where
    j: "hashcap_from 16 mx = Some (2 ^ j)" by auto
  let ?hi = "\<lparr>hi_hashmod = 2 ^ j - 1, hi_cap = mx, hi_count = 0,
           hi_id = replicate (nat mx) \<lparr>nid = -1, nnext = None\<rparr>, hi_hash = replicate (nat (2 ^ j)) None\<rparr>"
  have e: "{i. i < nat mx \<and> nid (replicate (nat mx) \<lparr>nid = - 1, nnext = None\<rparr> ! i) \<noteq> - 1} = {}"
    by auto
  have "hashid_wf ?hi (\<lambda>_. [])"
    unfolding hashid_wf_def by (auto simp: assms e)
  moreover have "hashid_map ?hi = Map.empty"
    by (auto simp: fun_eq_iff hashid_map_def find_None_iff)
  ultimately show ?thesis using j by (auto simp: hashid_init_def hashid_inv_def)
qed

lemma hashid_remove_spec:
  assumes "hashid_inv hi"
  shows "\<exists>hi'. hashid_remove hi uid = Some (hi', case hashid_map hi uid of None \<Rightarrow> -1 | Some i \<Rightarrow> int i) \<and>
    hashid_inv hi' \<and> hashid_map hi' = (hashid_map hi)(uid := None) \<and> hi_cap hi' = hi_cap hi"
proof -
  from assms obtain bk where wf: "hashid_wf hi bk" by (auto simp: hashid_inv_def)
  show ?thesis
  proof (cases "hashid_map hi uid")
    case None
    then show ?thesis using hashid_remove_absent [OF wf None] assms by (simp add: fun_upd_idem)
  next
    case (Some d)
    then show ?thesis using hashid_remove_present [OF wf Some] by auto
  qed
qed

section \<open>The interface the gate relies on\<close>

text \<open>
  A table of socket ids as its client sees it: \<open>tab\<close> is the partial map it stands for,
  \<open>legal\<close> the ids that may be inserted. The laws are what \<^verbatim>\<open>service_gate.c\<close> needs.
\<close>

locale id_table =
  fixes inv :: "'t \<Rightarrow> bool"
    and tab :: "'t \<Rightarrow> int \<Rightarrow> nat option"
    and cap :: "'t \<Rightarrow> nat"
    and full :: "'t \<Rightarrow> bool"
    and legal :: "'t \<Rightarrow> int \<Rightarrow> bool"
    and lookup :: "'t \<Rightarrow> int \<Rightarrow> int option"
    and insert :: "'t \<Rightarrow> int \<Rightarrow> ('t \<times> int) option"
    and remove :: "'t \<Rightarrow> int \<Rightarrow> ('t \<times> int) option"
  assumes lookup_law: "inv t \<Longrightarrow> lookup t k = Some (case tab t k of None \<Rightarrow> -1 | Some i \<Rightarrow> int i)"
    and insert_law: "inv t \<Longrightarrow> \<not> full t \<Longrightarrow> tab t k = None \<Longrightarrow> legal t k \<Longrightarrow>
      \<exists>t' c. insert t k = Some (t', int c) \<and> inv t' \<and> tab t' = (tab t)(k \<mapsto> c) \<and>
        c < cap t \<and> c \<notin> ran (tab t) \<and> cap t' = cap t"
    and remove_law: "inv t \<Longrightarrow>
      \<exists>t'. remove t k = Some (t', case tab t k of None \<Rightarrow> -1 | Some i \<Rightarrow> int i) \<and> inv t' \<and>
        tab t' = (tab t)(k := None) \<and> cap t' = cap t"
begin

lemma absent_iff: "inv t \<Longrightarrow> lookup t k = Some (-1) \<longleftrightarrow> tab t k = None"
  by (simp add: lookup_law split: option.split)

lemma insert_lookup:
  assumes "inv t" "\<not> full t" "lookup t k = Some (-1)" "legal t k"
  shows "\<exists>t' c. insert t k = Some (t', c) \<and> inv t' \<and> 0 \<le> c \<and> c < int (cap t) \<and>
    lookup t' k = Some c \<and> (\<forall>j. j \<noteq> k \<longrightarrow> lookup t' j = lookup t j) \<and> (\<forall>j. lookup t j \<noteq> Some c)"
proof -
  from assms have "tab t k = None" by (simp add: absent_iff)
  from insert_law [OF assms(1,2) this assms(4)] obtain t' c where
    t': "insert t k = Some (t', int c)" "inv t'" "tab t' = (tab t)(k \<mapsto> c)" "c < cap t"
      "c \<notin> ran (tab t)" by blast
  then have "lookup t j \<noteq> Some (int c)" for j
    using assms(1) by (auto simp: lookup_law ran_def split: option.splits)
  then show ?thesis using t' assms(1) by (auto simp: lookup_law)
qed

lemma remove_lookup:
  assumes "inv t" "lookup t k = Some c"
  shows "\<exists>t'. remove t k = Some (t', c) \<and> inv t' \<and> lookup t' k = Some (-1) \<and>
    (\<forall>j. j \<noteq> k \<longrightarrow> lookup t' j = lookup t j)"
proof -
  from remove_law [OF assms(1), of k] obtain t' where
    t': "remove t k = Some (t', case tab t k of None \<Rightarrow> -1 | Some i \<Rightarrow> int i)" "inv t'"
      "tab t' = (tab t)(k := None)" by blast
  then show ?thesis using assms by (auto simp: lookup_law)
qed

end

definition hashid_legal :: "hashid \<Rightarrow> int \<Rightarrow> bool" where
  "hashid_legal hi uid \<longleftrightarrow> 0 \<le> uid \<and> uid + hi_cap hi \<le> 2 ^ 31"

interpretation hid: id_table hashid_inv hashid_map "\<lambda>hi. nat (hi_cap hi)" hashid_full hashid_legal
  hashid_lookup hashid_insert hashid_remove
proof
  fix t k
  assume "hashid_inv t"
  then show "hashid_lookup t k = Some (case hashid_map t k of None \<Rightarrow> -1 | Some i \<Rightarrow> int i)"
    by (rule hashid_lookup_map)
next
  fix t k
  assume "hashid_inv t" "\<not> hashid_full t" "hashid_map t k = None" "hashid_legal t k"
  then show "\<exists>t' c. hashid_insert t k = Some (t', int c) \<and> hashid_inv t' \<and>
      hashid_map t' = (hashid_map t)(k \<mapsto> c) \<and> c < nat (hi_cap t) \<and> c \<notin> ran (hashid_map t) \<and>
      nat (hi_cap t') = nat (hi_cap t)"
    using hashid_insert_fresh [of t k] by (auto simp: hashid_legal_def)
next
  fix t k
  assume "hashid_inv t"
  then show "\<exists>t'. hashid_remove t k = Some (t', case hashid_map t k of None \<Rightarrow> -1 | Some i \<Rightarrow> int i) \<and>
      hashid_inv t' \<and> hashid_map t' = (hashid_map t)(k := None) \<and> nat (hi_cap t') = nat (hi_cap t)"
    using hashid_remove_spec [of t k] by metis
qed

section \<open>Properties\<close>

text \<open>inserting an id that is not in a table that is not full neither faults nor fails the
  \<open>assert\<close>: it returns a slot inside the table that no other id holds; afterwards the id is
  found in that slot and every other id is found where it was.\<close>

theorem hashid_insert_lookup:
  assumes "hashid_inv hi" "\<not> hashid_full hi" "hashid_lookup hi uid = Some (-1)" "hashid_legal hi uid"
  shows "\<exists>hi' c. hashid_insert hi uid = Some (hi', c) \<and> hashid_inv hi' \<and>
    0 \<le> c \<and> c < int (nat (hi_cap hi)) \<and> hashid_lookup hi' uid = Some c \<and>
    (\<forall>j. j \<noteq> uid \<longrightarrow> hashid_lookup hi' j = hashid_lookup hi j) \<and> (\<forall>j. hashid_lookup hi j \<noteq> Some c)"
  using assms by (rule hid.insert_lookup)

text \<open>removing an id returns the slot lookup would return (\<open>-1\<close> when it is absent); afterwards
  the id is absent and every other id is found where it was.\<close>

theorem hashid_remove_lookup:
  assumes "hashid_inv hi" "hashid_lookup hi uid = Some c"
  shows "\<exists>hi'. hashid_remove hi uid = Some (hi', c) \<and> hashid_inv hi' \<and>
    hashid_lookup hi' uid = Some (-1) \<and> (\<forall>j. j \<noteq> uid \<longrightarrow> hashid_lookup hi' j = hashid_lookup hi j)"
  using assms by (rule hid.remove_lookup)

definition demo_hashid :: hashid where
  "demo_hashid = the (hashid_init 2)"

lemma hashcap_from_demo: "hashcap_from 16 2 = Some 16"
  by (subst hashcap_from.simps) simp

lemma demo_hashid_facts:
  "hashid_inv demo_hashid" "hashid_map demo_hashid = Map.empty" "hi_cap demo_hashid = 2"
  "hi_count demo_hashid = 0"
  using hashid_init_inv [of 2] by (auto simp: demo_hashid_def)

lemma hashid_insert_lookup_witness:
  "\<exists>hi' c. hashid_insert demo_hashid 7 = Some (hi', c) \<and> hashid_lookup hi' 7 = Some c"
  using hashid_insert_lookup [of demo_hashid 7] demo_hashid_facts
  by (auto simp: hashid_full_def hashid_legal_def hashid_lookup_map)

lemma hashid_remove_lookup_witness:
  "\<exists>hi1 hi2 c. hashid_insert demo_hashid 7 = Some (hi1, c) \<and> hashid_remove hi1 7 = Some (hi2, c) \<and>
    hashid_lookup hi2 7 = Some (-1)"
proof -
  obtain hi1 c where "hashid_insert demo_hashid 7 = Some (hi1, c)" "hashid_inv hi1"
    "hashid_lookup hi1 7 = Some c"
    using hid.insert_lookup [of demo_hashid 7] demo_hashid_facts
    by (auto simp: hashid_full_def hashid_legal_def hashid_lookup_map)
  then show ?thesis using hashid_remove_lookup [of hi1 7 c] by auto
qed

end
