(* ===== verification/DataBuffer.thy ===== *)
theory DataBuffer
  imports Prelude
begin

text \<open>
  \<^verbatim>\<open>service-src/databuffer.h\<close>: the input buffer of a connection, a chain of message cells
  drawn from a pool that all connections of the gate share. The memory of the pool is a list of
  cells, an address is an index into it; free cells are chained from \<open>freelist\<close>. The lemmas show
  that a buffer is a queue of bytes, that cells are never lost or shared, and that an operation
  on one buffer leaves the cells of every other buffer alone.
\<close>

section \<open>State\<close>

definition MESSAGEPOOL :: nat where "MESSAGEPOOL = 1023"

record msg_cell =
  mbuffer :: bytes
  msize :: int
  mnext :: "nat option"

record messagepool =
  mp_mem :: "msg_cell list"
  mp_pool :: nat  \<comment> \<open>number of chunks allocated so far\<close>
  mp_freelist :: "nat option"

record databuffer =
  db_header :: int
  db_offset :: int
  db_size :: int
  db_head :: "nat option"
  db_tail :: "nat option"

type_synonym dbstate = "messagepool \<times> databuffer"

definition cell :: "messagepool \<Rightarrow> nat \<Rightarrow> msg_cell option" where
  "cell mp a = (if a < length (mp_mem mp) then Some (mp_mem mp ! a) else None)"

definition set_cell :: "messagepool \<Rightarrow> nat \<Rightarrow> msg_cell \<Rightarrow> messagepool" where
  "set_cell mp a m = mp\<lparr>mp_mem := (mp_mem mp)[a := m]\<rparr>"

definition empty_pool :: messagepool where
  "empty_pool = \<lparr>mp_mem = [], mp_pool = 0, mp_freelist = None\<rparr>"

definition empty_db :: databuffer where
  "empty_db = \<lparr>db_header = 0, db_offset = 0, db_size = 0, db_head = None, db_tail = None\<rparr>"

section \<open>Operations\<close>

definition messagepool_free :: "messagepool \<Rightarrow> messagepool" where
  "messagepool_free mp = mp\<lparr>mp_mem := [], mp_pool := 0, mp_freelist := None\<rparr>"

definition return_message :: "dbstate \<Rightarrow> dbstate option" where
  "return_message s = (case s of (mp, db) \<Rightarrow>
     case db_head db of
       None \<Rightarrow> None
     | Some m \<Rightarrow> do {
         c \<leftarrow> cell mp m;
         db' \<leftarrow> (if mnext c = None
                then (if db_tail db = Some m then Some (db\<lparr>db_head := None, db_tail := None\<rparr>) else None)
                else Some (db\<lparr>db_head := mnext c\<rparr>));
         Some ((set_cell mp m \<lparr>mbuffer = [], msize = 0, mnext = mp_freelist mp\<rparr>)
                 \<lparr>mp_freelist := Some m\<rparr>, db')
       })"

text \<open>The loop of \<open>databuffer_read\<close>; \<open>out\<close> holds the bytes copied so far.\<close>

partial_function (option) read_loop :: "dbstate \<Rightarrow> int \<Rightarrow> bytes \<Rightarrow> (dbstate \<times> bytes) option" where
  "read_loop s sz out =
     (case db_head (snd s) of
        None \<Rightarrow> None
      | Some cur \<Rightarrow>
        Option.bind (cell (fst s) cur) (\<lambda>c.
          let off = db_offset (snd s); bsz = msize c - off in
          if bsz > sz then
            (if sz < 0 then None
             else Some ((fst s, (snd s)\<lparr>db_offset := off + sz\<rparr>),
                        out @ take (nat sz) (drop (nat off) (mbuffer c))))
          else if bsz = sz then
            Option.bind (return_message (fst s, (snd s)\<lparr>db_offset := 0\<rparr>)) (\<lambda>s'.
              Some (s', out @ take (nat sz) (drop (nat off) (mbuffer c))))
          else
            Option.bind (return_message s) (\<lambda>s'.
              read_loop (fst s', (snd s')\<lparr>db_offset := 0\<rparr>) (sz - bsz)
                (out @ take (nat bsz) (drop (nat off) (mbuffer c))))))"

definition databuffer_read :: "dbstate \<Rightarrow> int \<Rightarrow> (dbstate \<times> bytes) option" where
  "databuffer_read s sz =
     (if db_size (snd s) < sz then None
      else read_loop (fst s, (snd s)\<lparr>db_size := db_size (snd s) - sz\<rparr>) sz [])"

text \<open>A fresh chunk: cell 0 is handed out, cells 1 to 1022 are chained.\<close>

definition fresh_chunk :: "nat \<Rightarrow> msg_cell list" where
  "fresh_chunk base = map (\<lambda>i. \<lparr>mbuffer = [], msize = 0,
       mnext = (if i = 0 \<or> i = MESSAGEPOOL - 1 then None else Some (base + i + 1))\<rparr>)
     [0..<MESSAGEPOOL]"

definition alloc_cell :: "messagepool \<Rightarrow> (messagepool \<times> nat) option" where
  "alloc_cell mp =
     (case mp_freelist mp of
        Some m \<Rightarrow> do { c \<leftarrow> cell mp m; Some (mp\<lparr>mp_freelist := mnext c\<rparr>, m) }
      | None \<Rightarrow>
          (let base = length (mp_mem mp) in
           Some (mp\<lparr>mp_mem := mp_mem mp @ fresh_chunk base, mp_pool := mp_pool mp + 1,
                    mp_freelist := Some (base + 1)\<rparr>, base)))"

definition databuffer_push :: "dbstate \<Rightarrow> bytes \<Rightarrow> dbstate option" where
  "databuffer_push s data = (case s of (mp, db) \<Rightarrow> do {
     (mp1, m) \<leftarrow> alloc_cell mp;
     let mp2 = set_cell mp1 m \<lparr>mbuffer = data, msize = int (length data), mnext = None\<rparr>;
         db1 = db\<lparr>db_size := db_size db + int (length data)\<rparr> in
     case db_head db1 of
       None \<Rightarrow> (if db_tail db1 = None then Some (mp2, db1\<lparr>db_head := Some m, db_tail := Some m\<rparr>)
               else None)
     | Some _ \<Rightarrow>
         (case db_tail db1 of
            None \<Rightarrow> None
          | Some t \<Rightarrow> do {
              c \<leftarrow> cell mp2 t;
              Some (set_cell mp2 t (c\<lparr>mnext := Some m\<rparr>), db1\<lparr>db_tail := Some m\<rparr>)
            })
   })"

definition header_value :: "bytes \<Rightarrow> int" where
  "header_value p =
     (if length p = 2 then uint (p ! 0) * 2 ^ 8 + uint (p ! 1)
      else to_i32 (uint (p ! 0) * 2 ^ 24 + uint (p ! 1) * 2 ^ 16 + uint (p ! 2) * 2 ^ 8 + uint (p ! 3)))"

definition databuffer_readheader :: "dbstate \<Rightarrow> int \<Rightarrow> (dbstate \<times> int) option" where
  "databuffer_readheader s hsz =
     (if db_header (snd s) = 0 \<and> db_size (snd s) < hsz then Some (s, -1)
      else do {
        s1 \<leftarrow> (if db_header (snd s) = 0
               then do {
                 ((mp, db), plen) \<leftarrow> databuffer_read s hsz;
                 Some (mp, db\<lparr>db_header := header_value plen\<rparr>)
               }
               else Some s);
        Some (s1, if db_size (snd s1) < db_header (snd s1) then -1 else db_header (snd s1))
      })"

definition databuffer_reset :: "dbstate \<Rightarrow> dbstate" where
  "databuffer_reset s = (fst s, (snd s)\<lparr>db_header := 0\<rparr>)"

partial_function (option) clear_loop :: "dbstate \<Rightarrow> dbstate option" where
  "clear_loop s =
     (if db_head (snd s) = None then Some s else Option.bind (return_message s) clear_loop)"

definition databuffer_clear :: "dbstate \<Rightarrow> dbstate option" where
  "databuffer_clear s = do { s' \<leftarrow> clear_loop s; Some (fst s', empty_db) }"

section \<open>Invariant and abstraction\<close>

definition next_of :: "messagepool \<Rightarrow> nat \<Rightarrow> nat option" where
  "next_of mp a = (if a < length (mp_mem mp) then mnext (mp_mem mp ! a) else None)"

definition cells_of :: "messagepool \<Rightarrow> nat option \<Rightarrow> nat list" where
  "cells_of mp p = walk (length (mp_mem mp)) (next_of mp) p"

definition db_cells :: "dbstate \<Rightarrow> nat list" where
  "db_cells s = cells_of (fst s) (db_head (snd s))"

definition free_cells :: "messagepool \<Rightarrow> nat list" where
  "free_cells mp = cells_of mp (mp_freelist mp)"

definition bufs :: "messagepool \<Rightarrow> nat list \<Rightarrow> bytes" where
  "bufs mp xs = concat (map (\<lambda>a. mbuffer (mp_mem mp ! a)) xs)"

lemma bufs_simps [simp]:
  "bufs mp [] = []" "bufs mp (x # xs) = mbuffer (mp_mem mp ! x) @ bufs mp xs"
  "bufs mp (xs @ ys) = bufs mp xs @ bufs mp ys"
  by (simp_all add: bufs_def)

lemma bufs_cong: "\<forall>a \<in> set xs. mbuffer (mp_mem mp' ! a) = mbuffer (mp_mem mp ! a) \<Longrightarrow> bufs mp' xs = bufs mp xs"
  unfolding bufs_def by (rule arg_cong [of _ _ concat]) simp

definition db_content :: "dbstate \<Rightarrow> bytes" where
  "db_content s = drop (nat (db_offset (snd s))) (bufs (fst s) (db_cells s))"

text \<open>\<open>db_wf s xs fs\<close>: the buffer owns the chain \<open>xs\<close>, the pool the free chain \<open>fs\<close>.\<close>

definition db_wf :: "dbstate \<Rightarrow> nat list \<Rightarrow> nat list \<Rightarrow> bool" where
  "db_wf s xs fs \<longleftrightarrow> (case s of (mp, db) \<Rightarrow>
     is_chain (next_of mp) (db_head db) xs \<and>
     db_tail db = (if xs = [] then None else Some (last xs)) \<and>
     is_chain (next_of mp) (mp_freelist mp) fs \<and> set xs \<inter> set fs = {} \<and>
     (\<forall>a \<in> set xs \<union> set fs. a < length (mp_mem mp)) \<and>
     (\<forall>a \<in> set xs. msize (mp_mem mp ! a) = int (length (mbuffer (mp_mem mp ! a)))) \<and>
     0 \<le> db_offset db \<and>
     db_offset db \<le> (if xs = [] then 0 else msize (mp_mem mp ! hd xs)) \<and>
     db_size db + db_offset db = int (length (bufs mp xs)))"

definition db_inv :: "dbstate \<Rightarrow> bool" where
  "db_inv s \<longleftrightarrow> db_wf s (db_cells s) (free_cells (fst s))"

lemma db_wf_cells: "db_wf s xs fs \<Longrightarrow> db_cells s = xs \<and> free_cells (fst s) = fs"
  unfolding db_wf_def db_cells_def free_cells_def cells_of_def
  by (cases s) (auto intro!: walk_chain dest: chain_length_le)

lemma db_inv_iff: "db_inv s \<longleftrightarrow> (\<exists>xs fs. db_wf s xs fs)"
  unfolding db_inv_def using db_wf_cells by metis

lemma db_inv_empty: "db_inv (empty_pool, empty_db)"
  by (auto simp: db_inv_iff db_wf_def empty_pool_def empty_db_def)

section \<open>Cells\<close>

lemma next_of_set [simp]:
  "a < length (mp_mem mp) \<Longrightarrow> next_of (set_cell mp a c) = (next_of mp)(a := mnext c)"
  by (auto simp: next_of_def set_cell_def fun_eq_iff)

lemma next_of_free [simp]: "next_of (mp\<lparr>mp_freelist := f\<rparr>) = next_of mp"
  by (auto simp: next_of_def fun_eq_iff)

lemma set_cell_sel [simp]:
  "mp_mem (set_cell mp a c) = (mp_mem mp)[a := c]" "mp_freelist (set_cell mp a c) = mp_freelist mp"
  by (simp_all add: set_cell_def)

lemma cell_Some [simp]: "a < length (mp_mem mp) \<Longrightarrow> cell mp a = Some (mp_mem mp ! a)"
  by (simp add: cell_def)

text \<open>\<open>frame mp mp' own\<close>: going from \<open>mp\<close> to \<open>mp'\<close> changes none of the cells allocated in
  \<open>mp\<close> but those in \<open>own\<close>.\<close>

definition frame :: "messagepool \<Rightarrow> messagepool \<Rightarrow> nat set \<Rightarrow> bool" where
  "frame mp mp' own \<longleftrightarrow> length (mp_mem mp) \<le> length (mp_mem mp') \<and>
     (\<forall>a < length (mp_mem mp). a \<notin> own \<longrightarrow> mp_mem mp' ! a = mp_mem mp ! a)"

lemma frame_trans: "frame a b own \<Longrightarrow> frame b c own' \<Longrightarrow> own' \<subseteq> own \<union> {length (mp_mem a)..} \<Longrightarrow> frame a c own"
  unfolding frame_def
proof (intro conjI allI impI)
  fix i
  assume h: "length (mp_mem a) \<le> length (mp_mem b) \<and>
      (\<forall>aa<length (mp_mem a). aa \<notin> own \<longrightarrow> mp_mem b ! aa = mp_mem a ! aa)"
    "length (mp_mem b) \<le> length (mp_mem c) \<and>
      (\<forall>a<length (mp_mem b). a \<notin> own' \<longrightarrow> mp_mem c ! a = mp_mem b ! a)"
    "own' \<subseteq> own \<union> {length (mp_mem a)..}" "i < length (mp_mem a)" "i \<notin> own"
  then have "i \<notin> own'" by auto
  with h show "mp_mem c ! i = mp_mem a ! i" by simp
qed auto

lemma frame_refl [simp]: "frame mp mp own"
  by (simp add: frame_def)

lemma frame_set:
  "frame mp mp1 own \<Longrightarrow> m \<in> own \<or> length (mp_mem mp) \<le> m \<Longrightarrow> frame mp (set_cell mp1 m c) own"
  unfolding frame_def by (auto simp: nth_list_update_neq) (metis nth_list_update_neq not_le)+

lemma frame_mono: "frame mp mp1 own \<Longrightarrow> own \<subseteq> own' \<Longrightarrow> frame mp mp1 own'"
  unfolding frame_def by blast

lemma fresh_chunk_chain:
  assumes "\<And>i. i < MESSAGEPOOL \<Longrightarrow> nxt (base + i) = mnext (fresh_chunk base ! i)"
  shows "is_chain nxt (Some (base + 1)) [base + 1..<base + MESSAGEPOOL]"
proof (rule is_chain_upt)
  fix i
  assume i: "base + 1 \<le> i" "i < base + MESSAGEPOOL"
  then have "nxt i = mnext (fresh_chunk base ! (i - base))"
    using assms [of "i - base"] by simp
  also have "\<dots> = (if Suc i = base + MESSAGEPOOL then None else Some (Suc i))"
    using i by (auto simp: fresh_chunk_def MESSAGEPOOL_def)
  finally show "nxt i = (if Suc i = base + MESSAGEPOOL then None else Some (Suc i))" .
qed (simp add: MESSAGEPOOL_def)

lemma alloc_cell_spec:
  assumes "is_chain (next_of mp) (mp_freelist mp) fs" and "\<forall>a \<in> set fs. a < length (mp_mem mp)"
  shows "\<exists>mp' m fs'. alloc_cell mp = Some (mp', m) \<and> frame mp mp' {} \<and>
    is_chain (next_of mp') (mp_freelist mp') fs' \<and> m \<notin> set fs' \<and>
    (\<forall>a \<in> set fs'. a < length (mp_mem mp')) \<and> m < length (mp_mem mp') \<and>
    insert m (set fs') \<subseteq> set fs \<union> {length (mp_mem mp)..}"
proof (cases "mp_freelist mp")
  case None
  let ?base = "length (mp_mem mp)"
  let ?mp = "mp\<lparr>mp_mem := mp_mem mp @ fresh_chunk ?base, mp_pool := mp_pool mp + 1,
    mp_freelist := Some (?base + 1)\<rparr>"
  have len: "length (fresh_chunk ?base) = MESSAGEPOOL" by (simp add: fresh_chunk_def)
  have "is_chain (next_of ?mp) (Some (?base + 1)) [?base + 1..<?base + MESSAGEPOOL]"
    by (rule fresh_chunk_chain) (simp add: next_of_def len nth_append)
  then show ?thesis
    using None len by (intro exI [of _ ?mp] exI [of _ ?base] exI [of _ "[?base + 1..<?base + MESSAGEPOOL]"])
      (auto simp: alloc_cell_def Let_def frame_def nth_append MESSAGEPOOL_def)
next
  case (Some m)
  then obtain fs' where fs: "fs = m # fs'" "is_chain (next_of mp) (next_of mp m) fs'"
    using assms(1) by (auto simp: is_chain_Some_iff)
  have m: "m < length (mp_mem mp)" using assms(2) fs by simp
  have d: "m \<notin> set fs'" using is_chain_distinct [OF assms(1)] fs by simp
  have nx: "mnext (mp_mem mp ! m) = next_of mp m" using m by (simp add: next_of_def)
  show ?thesis
    using Some m d fs assms(2)
    by (intro exI [of _ "mp\<lparr>mp_freelist := mnext (mp_mem mp ! m)\<rparr>"] exI [of _ m] exI [of _ fs'])
      (auto simp: alloc_cell_def frame_def nx)
qed

section \<open>Push\<close>

lemma db_wf_lt: "db_wf (mp, db) xs fs \<Longrightarrow> a \<in> set xs \<union> set fs \<Longrightarrow> a < length (mp_mem mp)"
  unfolding db_wf_def by blast

lemma db_wf_content:
  "db_wf (mp, db) xs fs \<Longrightarrow>
    db_content (mp, db) = drop (nat (db_offset db)) (bufs mp xs)"
  using db_wf_cells by (fastforce simp: db_content_def)

lemma db_wf_offset: "db_wf (mp, db) xs fs \<Longrightarrow> nat (db_offset db) \<le> length (bufs mp xs)"
  by (cases xs) (auto simp: db_wf_def)

lemma db_wf_disj: "db_wf (mp, db) xs fs \<Longrightarrow> set xs \<inter> set fs = {}"
  unfolding db_wf_def by blast

text \<open>A well-formed buffer, its cells and the bytes in them, seen from a pool that agrees with the
  old one on these cells.\<close>

lemma db_wf_frame:
  assumes "db_wf (mp, db) xs fs" and "\<forall>a \<in> set xs. a < length (mp_mem mp') \<and> mp_mem mp' ! a = mp_mem mp ! a"
    and "is_chain (next_of mp') (mp_freelist mp') fs'" "set xs \<inter> set fs' = {}"
    and "\<forall>a \<in> set fs'. a < length (mp_mem mp')"
  shows "db_wf (mp', db) xs fs'"
proof -
  have "is_chain (next_of mp') (db_head db) xs"
    by (rule is_chain_transfer [of "next_of mp"]) (use assms in \<open>auto simp: db_wf_def next_of_def\<close>)
  moreover have "bufs mp' xs = bufs mp xs"
    using assms(2) by (intro bufs_cong) simp
  moreover have "xs \<noteq> [] \<Longrightarrow> msize (mp_mem mp' ! hd xs) = msize (mp_mem mp ! hd xs)"
    using assms(2) by simp
  ultimately show ?thesis using assms unfolding db_wf_def by auto
qed

lemma push_spec:
  assumes wf: "db_wf (mp, db) xs fs"
  shows "\<exists>mp' db' m fs'. databuffer_push (mp, db) data = Some (mp', db') \<and> db_wf (mp', db') (xs @ [m]) fs' \<and>
    db_content (mp', db') = db_content (mp, db) @ data \<and> db_header db' = db_header db \<and>
    frame mp mp' (set xs \<union> set fs) \<and>
    insert m (set fs') \<subseteq> set fs \<union> {length (mp_mem mp)..}"
proof -
  from wf have fs: "is_chain (next_of mp) (mp_freelist mp) fs" "\<forall>a \<in> set fs. a < length (mp_mem mp)"
    by (auto simp: db_wf_def)
  from alloc_cell_spec [OF this] obtain mp1 m fs' where
    al: "alloc_cell mp = Some (mp1, m)" and fr: "frame mp mp1 {}"
    and ch: "is_chain (next_of mp1) (mp_freelist mp1) fs'" "m \<notin> set fs'"
      "\<forall>a \<in> set fs'. a < length (mp_mem mp1)" and m: "m < length (mp_mem mp1)"
    and sub: "insert m (set fs') \<subseteq> set fs \<union> {length (mp_mem mp)..}" by blast
  have "a \<notin> set xs" if "a \<in> insert m (set fs')" for a
    using db_wf_lt [OF wf, of a] subsetD [OF sub that] db_wf_disj [OF wf] by auto
  then have mxs: "m \<notin> set xs" and disj: "set xs \<inter> set fs' = {}" by auto
  have wf1: "db_wf (mp1, db) xs fs'"
    by (rule db_wf_frame [OF wf]) (use fr db_wf_lt [OF wf] ch disj in \<open>fastforce simp: frame_def\<close>)+
  let ?c = "\<lparr>mbuffer = data, msize = int (length data), mnext = None\<rparr>"
  let ?mp2 = "set_cell mp1 m ?c"
  show ?thesis
  proof (cases "xs = []")
    case True
    then have "databuffer_push (mp, db) data = Some (?mp2, db\<lparr>db_size := db_size db + int (length data),
        db_head := Some m, db_tail := Some m\<rparr>)" (is "_ = Some (_, ?db)")
      using al wf1 by (simp add: databuffer_push_def Let_def db_wf_def)
    moreover have w: "db_wf (?mp2, ?db) [m] fs'"
      using wf1 True ch m by (auto simp: db_wf_def is_chain_upd_notin)
    moreover have "db_content (?mp2, ?db) = db_content (mp, db) @ data"
      using db_wf_cells [OF w] db_wf_cells [OF wf] wf True m by (auto simp: db_content_def db_wf_def)
    moreover have "frame mp ?mp2 (set xs \<union> set fs)" using fr sub by (intro frame_set frame_mono [OF fr]) auto
    ultimately show ?thesis using sub True by auto
  next
    case False
    then obtain ys t where xs: "xs = ys @ [t]" by (metis append_butlast_last_id)
    have t: "t < length (mp_mem mp1)" "t \<noteq> m" "t \<notin> set fs'" using wf1 xs mxs by (auto simp: db_wf_def)
    have tn: "db_tail db = Some t" "db_head db \<noteq> None" using wf1 xs by (auto simp: db_wf_def)
    let ?mp3 = "set_cell ?mp2 t ((mp_mem mp1 ! t)\<lparr>mnext := Some m\<rparr>)"
    let ?db = "db\<lparr>db_size := db_size db + int (length data), db_tail := Some m\<rparr>"
    have push: "databuffer_push (mp, db) data = Some (?mp3, ?db)"
      using al tn t m by (auto simp: databuffer_push_def Let_def)
    have nx: "next_of ?mp3 = (next_of mp1)(m := None, t := Some m)" using t m by simp
    have "is_chain ((next_of mp1)(t := Some m, m := None)) (db_head db) (ys @ [t, m])"
      by (rule is_chain_snoc) (use wf1 xs mxs in \<open>auto simp: db_wf_def\<close>)
    then have c: "is_chain (next_of ?mp3) (db_head ?db) (xs @ [m])"
      using t xs by (simp add: nx fun_upd_twist)
    have f: "is_chain (next_of ?mp3) (mp_freelist ?mp3) fs'"
      unfolding nx using ch t by (simp add: is_chain_upd_notin)
    have mb: "mbuffer (mp_mem ?mp3 ! m) = data" "msize (mp_mem ?mp3 ! m) = int (length data)"
      using t m by (auto simp: nth_list_update_le)
    have sz: "msize (mp_mem ?mp3 ! a) = msize (mp_mem mp1 ! a) \<and> mbuffer (mp_mem ?mp3 ! a) = mbuffer (mp_mem mp1 ! a)"
      if "a \<in> set xs" for a
      using that wf1 mxs by (auto simp: db_wf_def nth_list_update_le)
    have bufs: "bufs ?mp3 xs = bufs mp1 xs" using sz by (intro bufs_cong) blast
    have w: "db_wf (?mp3, ?db) (xs @ [m]) fs'"
      unfolding db_wf_def prod.case
    proof (intro conjI)
      show "is_chain (next_of ?mp3) (db_head ?db) (xs @ [m])" by (rule c)
      show "is_chain (next_of ?mp3) (mp_freelist ?mp3) fs'" by (rule f)
      show "set (xs @ [m]) \<inter> set fs' = {}" using disj ch by auto
      show "\<forall>a \<in> set (xs @ [m]) \<union> set fs'. a < length (mp_mem ?mp3)"
        using wf1 m by (auto simp: db_wf_def)
      show "\<forall>a \<in> set (xs @ [m]). msize (mp_mem ?mp3 ! a) = int (length (mbuffer (mp_mem ?mp3 ! a)))"
        using sz mb wf1 by (auto simp: db_wf_def simp del: set_cell_sel)
      show "db_offset ?db \<le> (if xs @ [m] = [] then 0 else msize (mp_mem ?mp3 ! hd (xs @ [m])))"
      proof -
        have "msize (mp_mem ?mp3 ! hd xs) = msize (mp_mem mp1 ! hd xs)" using sz False by (metis hd_in_set)
        moreover have "db_offset db \<le> msize (mp_mem mp1 ! hd xs)"
          using wf1 False unfolding db_wf_def prod.case by metis
        ultimately show ?thesis using False by (simp del: set_cell_sel)
      qed
      show "db_size ?db + db_offset ?db =
          int (length (bufs ?mp3 (xs @ [m])))"
        using wf1 mb by (simp add: db_wf_def bufs del: set_cell_sel)
    qed (use wf1 in \<open>auto simp: db_wf_def\<close>)
    have "db_content (?mp3, ?db) = db_content (mp1, db) @ data"
      using db_wf_content [OF w] db_wf_content [OF wf1] db_wf_offset [OF wf1] mb
      by (simp add: bufs del: set_cell_sel)
    moreover have "db_content (mp1, db) = db_content (mp, db)"
    proof -
      have "bufs mp1 xs = bufs mp xs"
        using fr wf by (intro bufs_cong) (auto simp: frame_def db_wf_def)
      then show ?thesis using db_wf_cells [OF wf] db_wf_cells [OF wf1] by (simp add: db_content_def)
    qed
    moreover have "frame mp ?mp3 (set xs \<union> set fs)"
      using fr sub xs by (intro frame_set frame_mono [OF fr]) auto
    ultimately show ?thesis using push w sub by auto
  qed
qed

section \<open>Read\<close>

lemma return_message_raw:
  assumes wf: "db_wf (mp, db) (x # xs) fs"
  shows "\<exists>mp' p t. return_message (mp, db) = Some (mp', db\<lparr>db_head := p, db_tail := t\<rparr>) \<and>
    db_wf (mp', db\<lparr>db_head := p, db_tail := t, db_offset := 0,
      db_size := int (length (bufs mp xs))\<rparr>) xs (x # fs) \<and>
    (\<forall>a \<in> set xs. mp_mem mp' ! a = mp_mem mp ! a) \<and> frame mp mp' {x} \<and>
    length (mp_mem mp') = length (mp_mem mp)"
proof -
  have x: "x < length (mp_mem mp)" "x \<notin> set xs" "x \<notin> set fs"
    using wf is_chain_distinct [of "next_of mp" "db_head db" "x # xs"] by (auto simp: db_wf_def)
  have h: "db_head db = Some x" using wf by (simp add: db_wf_def)
  have chx: "is_chain (next_of mp) (next_of mp x) xs" using wf by (simp add: db_wf_def)
  have nx: "mnext (mp_mem mp ! x) = next_of mp x" using x by (simp add: next_of_def)
  let ?c = "\<lparr>mbuffer = [], msize = 0, mnext = mp_freelist mp\<rparr>"
  let ?mp' = "(set_cell mp x ?c)\<lparr>mp_freelist := Some x\<rparr>"
  let ?t = "if xs = [] then None else Some (last xs)"
  have ret: "return_message (mp, db) = Some (?mp', db\<lparr>db_head := next_of mp x, db_tail := ?t\<rparr>)"
  proof (cases "xs = []")
    case True
    then show ?thesis using h x nx chx wf by (simp add: return_message_def db_wf_def)
  next
    case False
    then obtain y where "next_of mp x = Some y" using chx by (cases xs) auto
    then show ?thesis using False h x nx wf by (simp add: return_message_def db_wf_def)
  qed
  have nx': "next_of ?mp' = (next_of mp)(x := mp_freelist mp)" using x by simp
  have c1: "is_chain (next_of ?mp') (next_of mp x) xs"
    unfolding nx' using chx x by (simp add: is_chain_upd_notin)
  have c2: "is_chain (next_of ?mp') (Some x) (x # fs)"
    unfolding nx' using wf x by (simp add: db_wf_def is_chain_upd_notin)
  have same: "mp_mem ?mp' ! a = mp_mem mp ! a" if "a \<in> set xs" for a
    using that x by (auto simp: nth_list_update)
  have maps: "bufs ?mp' xs = bufs mp xs"
    using same by (intro bufs_cong) simp
  have "db_wf (?mp', db\<lparr>db_head := next_of mp x, db_tail := ?t, db_offset := 0,
      db_size := int (length (bufs mp xs))\<rparr>) xs (x # fs)"
    unfolding db_wf_def prod.case
  proof (intro conjI)
    show "\<forall>a \<in> set xs. msize (mp_mem ?mp' ! a) = int (length (mbuffer (mp_mem ?mp' ! a)))"
      using same wf by (simp add: db_wf_def)
  qed (use c1 c2 wf x same maps in \<open>auto simp: db_wf_def\<close>)
  moreover have "frame mp ?mp' {x}" by (auto simp: frame_def nth_list_update)
  ultimately show ?thesis using ret same
    by (intro exI [of _ ?mp'] exI [of _ "next_of mp x"] exI [of _ ?t]) auto
qed

lemma content_size [simp]: "db_content (mp, db\<lparr>db_size := n\<rparr>) = db_content (mp, db)"
  and content_header [simp]: "db_content (mp, db\<lparr>db_header := n\<rparr>) = db_content (mp, db)"
  by (simp_all add: db_content_def db_cells_def)

lemma db_wf_header [simp]: "db_wf (mp, db\<lparr>db_header := n\<rparr>) xs fs \<longleftrightarrow> db_wf (mp, db) xs fs"
  by (simp add: db_wf_def)

lemma db_wf_size: "db_wf (mp, db) xs fs \<Longrightarrow> db_size db = int (length (db_content (mp, db)))"
  using db_wf_content [of mp db xs fs] by (cases xs) (auto simp: db_wf_def)

lemma return_message_offset:
  "return_message (mp, db\<lparr>db_offset := n\<rparr>) =
    map_option (\<lambda>(mp', db'). (mp', db'\<lparr>db_offset := n\<rparr>)) (return_message (mp, db))"
  by (auto simp: return_message_def bind_eq_None_conv split: option.splits Option.bind_splits)

lemma return_message_size:
  "return_message (mp, db\<lparr>db_size := n\<rparr>) =
    map_option (\<lambda>(mp', db'). (mp', db'\<lparr>db_size := n\<rparr>)) (return_message (mp, db))"
  by (auto simp: return_message_def bind_eq_None_conv split: option.splits Option.bind_splits)

lemma return_message_shape:
  "return_message (mp, db) = Some (mp', db') \<Longrightarrow> \<exists>p t. db' = db\<lparr>db_head := p, db_tail := t\<rparr>"
  by (cases db) (auto simp: return_message_def split: option.splits Option.bind_splits if_splits)

lemma return_message_spec:
  assumes "db_wf (mp, db\<lparr>db_size := S\<rparr>) (x # xs) fs"
  shows "\<exists>mp' p t. return_message (mp, db) = Some (mp', db\<lparr>db_head := p, db_tail := t\<rparr>) \<and>
    db_wf (mp', db\<lparr>db_head := p, db_tail := t, db_offset := 0, db_size := int (length (bufs mp xs))\<rparr>)
      xs (x # fs) \<and>
    (\<forall>a \<in> set xs. mp_mem mp' ! a = mp_mem mp ! a) \<and> frame mp mp' {x} \<and>
    length (mp_mem mp') = length (mp_mem mp)"
proof -
  from return_message_raw [OF assms] obtain mp' p t where
    r: "return_message (mp, db\<lparr>db_size := S\<rparr>) = Some (mp', db\<lparr>db_size := S, db_head := p, db_tail := t\<rparr>)"
    and w: "db_wf (mp', db\<lparr>db_size := S, db_head := p, db_tail := t, db_offset := 0,
        db_size := int (length (bufs mp xs))\<rparr>) xs (x # fs)"
    and rest: "\<forall>a \<in> set xs. mp_mem mp' ! a = mp_mem mp ! a" "frame mp mp' {x}"
      "length (mp_mem mp') = length (mp_mem mp)" by auto
  obtain mp2 db2 where r2: "return_message (mp, db) = Some (mp2, db2)"
    using r return_message_size [where mp = mp and db = db and n = S] by (cases "return_message (mp, db)") auto
  with r return_message_size [where mp = mp and db = db and n = S] have eq: "mp2 = mp'" "db2\<lparr>db_size := S\<rparr> = db\<lparr>db_size := S, db_head := p, db_tail := t\<rparr>"
    by auto
  from return_message_shape [OF r2] eq(2) have "db2 = db\<lparr>db_head := p, db_tail := t\<rparr>"
    by (cases db) auto
  with r2 eq w rest show ?thesis by auto
qed

lemma db_upd_comm:
  "db\<lparr>db_head := p, db_tail := t, db_offset := n, db_size := k\<rparr> =
     db\<lparr>db_offset := n, db_head := p, db_tail := t, db_size := k\<rparr>"
  by simp

lemma read_loop_spec:
  assumes "db_wf (mp, db\<lparr>db_size := S\<rparr>) xs fs" "0 < sz" "sz \<le> S"
  shows "\<exists>mp' db' xs' fs'. read_loop (mp, db) sz out =
      Some ((mp', db'), out @ take (nat sz) (db_content (mp, db))) \<and>
    db_wf (mp', db'\<lparr>db_size := S - sz\<rparr>) xs' fs' \<and> db_size db' = db_size db \<and>
    db_header db' = db_header db \<and> db_content (mp', db') = drop (nat sz) (db_content (mp, db)) \<and>
    frame mp mp' (set xs) \<and> set xs' \<union> set fs' \<subseteq> set xs \<union> set fs"
  using assms
proof (induction xs arbitrary: mp db S fs sz out)
  case Nil
  then have "S = 0" by (auto simp: db_wf_def)
  with Nil show ?case by simp
next
  case (Cons x xs)
  note wf = Cons.prems(1)
  have x: "x < length (mp_mem mp)" "db_head db = Some x" using wf by (auto simp: db_wf_def)
  let ?b = "mbuffer (mp_mem mp ! x)" and ?off = "db_offset db"
  let ?r = "bufs mp xs"
  have b: "msize (mp_mem mp ! x) = int (length ?b)" "0 \<le> ?off" "?off \<le> int (length ?b)"
    using wf by (auto simp: db_wf_def)
  have cont: "db_content (mp, db) = drop (nat ?off) (?b @ ?r)"
    using db_wf_content [OF wf] by simp
  have S: "S + ?off = int (length ?b) + int (length ?r)" using wf by (simp add: db_wf_def)
  let ?bsz = "int (length ?b) - ?off"
  consider (less) "?bsz > sz" | (eq) "?bsz = sz" | (gt) "?bsz < sz" by linarith
  then show ?case
  proof cases
    case less
    let ?db' = "db\<lparr>db_offset := ?off + sz\<rparr>"
    have res: "read_loop (mp, db) sz out = Some ((mp, ?db'), out @ take (nat sz) (drop (nat ?off) ?b))"
      using x b less Cons.prems by (subst read_loop.simps) (simp add: Let_def)
    have w: "db_wf (mp, ?db'\<lparr>db_size := S - sz\<rparr>) (x # xs) fs"
      using wf less Cons.prems b by (auto simp: db_wf_def)
    have "db_content (mp, ?db') = drop (nat sz) (db_content (mp, db))"
      using db_wf_content [OF w] Cons.prems b unfolding cont
      by (simp add: nat_add_distrib add.commute)
    moreover have "take (nat sz) (db_content (mp, db)) = take (nat sz) (drop (nat ?off) ?b)"
      unfolding cont using less b by simp
    ultimately show ?thesis using res w by fastforce
  next
    case eq
    obtain mp' p t where rm: "return_message (mp, db) = Some (mp', db\<lparr>db_head := p, db_tail := t\<rparr>)"
      and w: "db_wf (mp', db\<lparr>db_head := p, db_tail := t, db_offset := 0, db_size := int (length (bufs mp xs))\<rparr>) xs (x # fs)"
      and same: "\<forall>a \<in> set xs. mp_mem mp' ! a = mp_mem mp ! a" and fr: "frame mp mp' {x}"
      using return_message_spec [OF wf] by blast
    let ?db' = "db\<lparr>db_offset := 0, db_head := p, db_tail := t\<rparr>"
    have S': "int (length (bufs mp xs)) = S - sz" using S eq by simp
    have res: "read_loop (mp, db) sz out = Some ((mp', ?db'), out @ take (nat sz) (drop (nat ?off) ?b))"
      using x b eq rm by (subst read_loop.simps) (simp add: Let_def return_message_offset)
    have w': "db_wf (mp', ?db'\<lparr>db_size := S - sz\<rparr>) xs (x # fs)"
      using w unfolding S' db_upd_comm by simp
    have "db_content (mp', ?db') = bufs mp xs"
      using db_wf_content [OF w'] same bufs_cong [of xs mp' mp] by simp
    moreover have "drop (nat sz) (db_content (mp, db)) = bufs mp xs"
      unfolding cont using eq b by (simp add: nat_diff_distrib)
    moreover have "take (nat sz) (db_content (mp, db)) = take (nat sz) (drop (nat ?off) ?b)"
      unfolding cont using eq b by (simp add: nat_diff_distrib)
    moreover have "frame mp mp' (set (x # xs))" by (rule frame_mono [OF fr]) simp
    ultimately show ?thesis using res w' by fastforce
  next
    case gt
    obtain mp' p t where rm: "return_message (mp, db) = Some (mp', db\<lparr>db_head := p, db_tail := t\<rparr>)"
      and w: "db_wf (mp', db\<lparr>db_head := p, db_tail := t, db_offset := 0, db_size := int (length (bufs mp xs))\<rparr>) xs (x # fs)"
      and same: "\<forall>a \<in> set xs. mp_mem mp' ! a = mp_mem mp ! a" and fr: "frame mp mp' {x}"
      and len: "length (mp_mem mp') = length (mp_mem mp)"
      using return_message_spec [OF wf] by blast
    let ?db1 = "db\<lparr>db_head := p, db_tail := t, db_offset := 0\<rparr>"
    let ?out = "out @ take (nat ?bsz) (drop (nat ?off) ?b)"
    have step: "read_loop (mp, db) sz out = read_loop (mp', ?db1) (sz - ?bsz) ?out"
      using x b gt rm by (subst read_loop.simps) (simp add: Let_def)
    have "db_wf (mp', ?db1\<lparr>db_size := S - ?bsz\<rparr>) xs (x # fs)"
    proof -
      have "int (length (bufs mp xs)) = S - ?bsz" using S by simp
      then show ?thesis using w by simp
    qed
    from Cons.IH [OF this, of "sz - ?bsz" ?out] gt Cons.prems obtain mp'' db'' xs'' fs'' where
      r: "read_loop (mp', ?db1) (sz - ?bsz) ?out =
        Some ((mp'', db''), ?out @ take (nat (sz - ?bsz)) (db_content (mp', ?db1)))"
      and w'': "db_wf (mp'', db''\<lparr>db_size := S - ?bsz - (sz - ?bsz)\<rparr>) xs'' fs''"
      and db'': "db_size db'' = db_size ?db1" "db_header db'' = db_header ?db1"
      and c'': "db_content (mp'', db'') = drop (nat (sz - ?bsz)) (db_content (mp', ?db1))"
      and fr'': "frame mp' mp'' (set xs)" and sub: "set xs'' \<union> set fs'' \<subseteq> set xs \<union> set (x # fs)"
      by auto
    have c1: "db_content (mp', ?db1) = bufs mp xs"
      using db_wf_content [OF w] same bufs_cong [of xs mp' mp] by (simp add: db_content_def db_cells_def)
    have n: "nat sz = nat ?bsz + nat (sz - ?bsz)" "nat ?bsz = length ?b - nat ?off"
      using gt b by (auto simp: nat_diff_distrib)
    have "drop (nat sz) (db_content (mp, db)) = db_content (mp'', db'')"
      unfolding cont c'' c1 n(1) using n(2) b by simp
    moreover have "out @ take (nat sz) (db_content (mp, db)) = ?out @ take (nat (sz - ?bsz)) (bufs mp xs)"
      unfolding cont n(1) using n(2) b by (simp add: take_add)
    moreover have "frame mp mp'' (set (x # xs))"
      by (rule frame_trans [OF frame_mono [OF fr, of "set (x # xs)"] fr'']) auto
    ultimately show ?thesis using step r w'' db'' sub c1
      by (intro exI [of _ mp''] exI [of _ db''] exI [of _ xs''] exI [of _ fs'']) auto
  qed
qed

text \<open>The three operations in terms of the owned cells: the buffer's own, the free ones and fresh ones.\<close>

definition own_step :: "dbstate \<Rightarrow> dbstate \<Rightarrow> bool" where
  "own_step s s' \<longleftrightarrow>
     frame (fst s) (fst s') (set (db_cells s) \<union> set (free_cells (fst s))) \<and>
     set (db_cells s') \<union> set (free_cells (fst s')) \<subseteq>
       set (db_cells s) \<union> set (free_cells (fst s)) \<union> {length (mp_mem (fst s))..}"

lemma own_step_refl [simp]: "own_step s s"
  by (auto simp: own_step_def)

lemma own_step_header [simp]:
  "own_step s (mp, db\<lparr>db_header := h\<rparr>) \<longleftrightarrow> own_step s (mp, db)"
  by (simp add: own_step_def db_cells_def)

lemma own_step_trans: "own_step s s1 \<Longrightarrow> own_step s1 s2 \<Longrightarrow> own_step s s2"
proof -
  assume a: "own_step s s1" "own_step s1 s2"
  have len: "length (mp_mem (fst s)) \<le> length (mp_mem (fst s1))"
    using a by (auto simp: own_step_def frame_def)
  have "frame (fst s) (fst s2) (set (db_cells s) \<union> set (free_cells (fst s)))"
    by (rule frame_trans [of _ "fst s1" _ _ "set (db_cells s1) \<union> set (free_cells (fst s1))"])
      (use a in \<open>auto simp: own_step_def\<close>)
  moreover have "set (db_cells s2) \<union> set (free_cells (fst s2)) \<subseteq>
      set (db_cells s) \<union> set (free_cells (fst s)) \<union> {length (mp_mem (fst s))..}"
    using a len unfolding own_step_def by fastforce
  ultimately show ?thesis by (simp add: own_step_def)
qed

lemma databuffer_push_spec:
  assumes "db_inv s"
  shows "\<exists>s'. databuffer_push s data = Some s' \<and> db_inv s' \<and> db_content s' = db_content s @ data \<and>
    db_header (snd s') = db_header (snd s) \<and> own_step s s'"
proof -
  obtain mp db where s: "s = (mp, db)" by (cases s)
  from assms obtain xs fs where wf: "db_wf (mp, db) xs fs" by (auto simp: db_inv_iff s)
  from push_spec [OF wf, of data] obtain mp' db' m fs' where
    r: "databuffer_push (mp, db) data = Some (mp', db')" "db_content (mp', db') = db_content (mp, db) @ data"
      "db_header db' = db_header db"
    and w: "db_wf (mp', db') (xs @ [m]) fs'" and fr: "frame mp mp' (set xs \<union> set fs)"
    and sub: "insert m (set fs') \<subseteq> set fs \<union> {length (mp_mem mp)..}" by blast
  have "own_step (mp, db) (mp', db')"
    using fr sub db_wf_cells [OF wf] db_wf_cells [OF w] by (auto simp: own_step_def)
  then show ?thesis using r w by (auto simp: s db_inv_iff)
qed

lemma databuffer_read_spec:
  assumes "db_inv s" "0 < sz" "sz \<le> int (length (db_content s))"
  shows "\<exists>s'. databuffer_read s sz = Some (s', take (nat sz) (db_content s)) \<and> db_inv s' \<and>
    db_content s' = drop (nat sz) (db_content s) \<and> db_header (snd s') = db_header (snd s) \<and> own_step s s'"
proof -
  obtain mp db where s: "s = (mp, db)" by (cases s)
  from assms obtain xs fs where wf: "db_wf (mp, db) xs fs" by (auto simp: db_inv_iff s)
  let ?db = "db\<lparr>db_size := db_size db - sz\<rparr>"
  have sz: "sz \<le> db_size db" using assms(3) db_wf_size [OF wf] by (simp add: s)
  have "db_wf (mp, ?db\<lparr>db_size := db_size db\<rparr>) xs fs" using wf by simp
  from read_loop_spec [OF this assms(2) sz, of "[]"] obtain mp' db' xs' fs' where
    r: "read_loop (mp, ?db) sz [] = Some ((mp', db'), [] @ take (nat sz) (db_content (mp, ?db)))"
    and w: "db_wf (mp', db'\<lparr>db_size := db_size db - sz\<rparr>) xs' fs'"
    and h: "db_size db' = db_size ?db" "db_header db' = db_header ?db"
    and c: "db_content (mp', db') = drop (nat sz) (db_content (mp, ?db))"
    and fr: "frame mp mp' (set xs)" and sub: "set xs' \<union> set fs' \<subseteq> set xs \<union> set fs" by blast
  have "db'\<lparr>db_size := db_size db - sz\<rparr> = db'" using h by simp
  with w have w': "db_wf (mp', db') xs' fs'" by simp
  have "own_step (mp, db) (mp', db')"
    using sub db_wf_cells [OF wf] db_wf_cells [OF w'] frame_mono [OF fr, of "set xs \<union> set fs"]
    by (auto simp: own_step_def)
  then show ?thesis using r w' h c sz by (auto simp: s db_inv_iff databuffer_read_def)
qed

lemma return_message_any:
  "return_message (mp, db\<lparr>db_offset := k, db_size := n\<rparr>) =
     Some (mp', db\<lparr>db_offset := k, db_size := n, db_head := p, db_tail := t\<rparr>) \<Longrightarrow>
   return_message (mp, db) = Some (mp', db\<lparr>db_head := p, db_tail := t\<rparr>)"
  by (cases db) (auto simp: return_message_def split: option.splits Option.bind_splits if_splits)

lemma clear_loop_spec:
  assumes "db_wf (mp, db\<lparr>db_offset := k, db_size := n\<rparr>) xs fs"
  shows "\<exists>mp' db'. clear_loop (mp, db) = Some (mp', db') \<and>
    db_wf (mp', empty_db) [] (rev xs @ fs) \<and> frame mp mp' (set xs) \<and>
    length (mp_mem mp') = length (mp_mem mp)"
  using assms
proof (induction xs arbitrary: mp db fs k n)
  case Nil
  then show ?case by (subst clear_loop.simps) (auto simp: db_wf_def empty_db_def)
next
  case (Cons x xs)
  obtain mp' p t where rm: "return_message (mp, db) = Some (mp', db\<lparr>db_head := p, db_tail := t\<rparr>)"
    and w: "db_wf (mp', (db\<lparr>db_head := p, db_tail := t\<rparr>)\<lparr>db_offset := 0,
      db_size := int (length (bufs mp xs))\<rparr>) xs (x # fs)"
    and fr: "frame mp mp' {x}" and len: "length (mp_mem mp') = length (mp_mem mp)"
    using return_message_raw [OF Cons.prems] by (auto dest!: return_message_any)
  from Cons.IH [OF w] obtain mp'' db'' where
    c: "clear_loop (mp', db\<lparr>db_head := p, db_tail := t\<rparr>) = Some (mp'', db'')"
    "db_wf (mp'', empty_db) [] (rev xs @ x # fs)" "frame mp' mp'' (set xs)"
    "length (mp_mem mp'') = length (mp_mem mp')" by blast
  have "clear_loop (mp, db) = Some (mp'', db'')"
    using rm c Cons.prems by (subst clear_loop.simps) (simp add: db_wf_def)
  moreover have "frame mp mp'' (set (x # xs))"
    by (rule frame_trans [OF frame_mono [OF fr, of "set (x # xs)"] c(3)]) auto
  ultimately show ?case using c len by auto
qed

lemma databuffer_clear_spec:
  assumes "db_inv s"
  shows "\<exists>mp'. databuffer_clear s = Some (mp', empty_db) \<and> db_inv (mp', empty_db) \<and>
    db_content (mp', empty_db) = [] \<and> own_step s (mp', empty_db) \<and>
    length (mp_mem mp') = length (mp_mem (fst s)) \<and>
    set (free_cells mp') = set (db_cells s) \<union> set (free_cells (fst s))"
proof -
  obtain mp db where s: "s = (mp, db)" by (cases s)
  from assms obtain xs fs where wf: "db_wf (mp, db) xs fs" by (auto simp: db_inv_iff s)
  have "db_wf (mp, db\<lparr>db_offset := db_offset db, db_size := db_size db\<rparr>) xs fs" using wf by simp
  from clear_loop_spec [OF this] obtain mp' db' where
    c: "clear_loop (mp, db) = Some (mp', db')" and w: "db_wf (mp', empty_db) [] (rev xs @ fs)"
    and fr: "frame mp mp' (set xs)" "length (mp_mem mp') = length (mp_mem mp)" by blast
  note cells = db_wf_cells [OF wf] db_wf_cells [OF w]
  have "own_step (mp, db) (mp', empty_db)"
    using cells frame_mono [OF fr(1), of "set xs \<union> set fs"] by (auto simp: own_step_def)
  moreover have "db_content (mp', empty_db) = []" using db_wf_content [OF w] by simp
  ultimately show ?thesis using c w fr cells by (auto simp: s databuffer_clear_def db_inv_iff)
qed

section \<open>The interface the gate relies on\<close>

text \<open>A queue of bytes filled by chunks and drained by counted reads.\<close>

locale byte_queue =
  fixes inv :: "'s \<Rightarrow> bool"
    and content :: "'s \<Rightarrow> bytes"
    and push :: "'s \<Rightarrow> bytes \<Rightarrow> 's option"
    and read :: "'s \<Rightarrow> int \<Rightarrow> ('s \<times> bytes) option"
  assumes push_law: "inv s \<Longrightarrow> \<exists>s'. push s d = Some s' \<and> inv s' \<and> content s' = content s @ d"
    and read_law: "inv s \<Longrightarrow> 0 < n \<Longrightarrow> n \<le> int (length (content s)) \<Longrightarrow>
      \<exists>s'. read s n = Some (s', take (nat n) (content s)) \<and> inv s' \<and>
        content s' = drop (nat n) (content s)"
begin

lemma push_all:
  "inv s \<Longrightarrow> \<exists>s'. foldM push s cs = Some s' \<and> inv s' \<and> content s' = content s @ concat cs"
proof (induction cs arbitrary: s)
  case Nil
  then show ?case by simp
next
  case (Cons c cs)
  from push_law [OF Cons.prems, of c] obtain s1 where
    s1: "push s c = Some s1" "inv s1" "content s1 = content s @ c" by blast
  with Cons.IH [OF s1(2)] show ?case by auto
qed

text \<open>What a read returns depends on the bytes pushed, not on how they were cut into chunks.\<close>

lemma read_after_pushes:
  assumes "inv s" "0 < n" "n \<le> int (length (content s @ concat cs))"
  shows "\<exists>s1 s2. foldM push s cs = Some s1 \<and>
    read s1 n = Some (s2, take (nat n) (content s @ concat cs)) \<and> inv s2 \<and>
    content s2 = drop (nat n) (content s @ concat cs)"
  using push_all [OF assms(1), of cs] read_law [OF _ assms(2)] assms(3) by metis

end

interpretation dbq: byte_queue db_inv db_content databuffer_push databuffer_read
proof
  fix s d
  assume "db_inv s"
  then show "\<exists>s'. databuffer_push s d = Some s' \<and> db_inv s' \<and> db_content s' = db_content s @ d"
    using databuffer_push_spec by blast
next
  fix s n
  assume "db_inv s" "0 < n" "n \<le> int (length (db_content s))"
  then show "\<exists>s'. databuffer_read s n = Some (s', take (nat n) (db_content s)) \<and> db_inv s' \<and>
      db_content s' = drop (nat n) (db_content s)"
    using databuffer_read_spec by blast
qed

section \<open>Reading a header\<close>

lemma db_inv_header [simp]: "db_inv (mp, db\<lparr>db_header := h\<rparr>) \<longleftrightarrow> db_inv (mp, db)"
  by (simp add: db_inv_iff)

lemma db_inv_size: "db_inv s \<Longrightarrow> db_size (snd s) = int (length (db_content s))"
  by (cases s) (auto simp: db_inv_iff db_wf_size)

lemma readheader_set:
  assumes "db_header (snd s) \<noteq> 0" "db_inv s"
  shows "databuffer_readheader s hsz =
    Some (s, if int (length (db_content s)) < db_header (snd s) then -1 else db_header (snd s))"
  using assms by (simp add: databuffer_readheader_def db_inv_size)

lemma readheader_short:
  assumes "db_header (snd s) = 0" "db_inv s" "int (length (db_content s)) < hsz"
  shows "databuffer_readheader s hsz = Some (s, -1)"
  using assms by (simp add: databuffer_readheader_def db_inv_size)

lemma readheader_parse:
  assumes "db_header (snd s) = 0" "db_inv s" "0 < hsz" "hsz \<le> int (length (db_content s))"
  defines "h \<equiv> header_value (take (nat hsz) (db_content s))"
  shows "\<exists>s'. databuffer_readheader s hsz =
      Some (s', if int (length (db_content s')) < h then -1 else h) \<and> db_inv s' \<and>
    db_header (snd s') = h \<and> db_content s' = drop (nat hsz) (db_content s) \<and> own_step s s'"
proof -
  from databuffer_read_spec [OF assms(2-4)] obtain mp db where
    r: "databuffer_read s hsz = Some ((mp, db), take (nat hsz) (db_content s))" "db_inv (mp, db)"
      "db_content (mp, db) = drop (nat hsz) (db_content s)" "own_step s (mp, db)"
    by (metis surj_pair)
  let ?s' = "(mp, db\<lparr>db_header := h\<rparr>)"
  have "db_inv ?s'" using r by simp
  from db_inv_size [OF this] have "db_size db = int (length (db_content ?s'))" by simp
  then show ?thesis using r assms db_inv_size [OF assms(2)]
    by (intro exI [of _ ?s']) (simp add: databuffer_readheader_def h_def)
qed

section \<open>Many buffers over one pool\<close>

definition pool_inv :: "messagepool \<Rightarrow> databuffer list \<Rightarrow> bool" where
  "pool_inv mp dbs \<longleftrightarrow>
     (\<forall>i < length dbs. db_inv (mp, dbs ! i)) \<and>
     (\<forall>i < length dbs. \<forall>j < length dbs. i \<noteq> j \<longrightarrow>
        set (db_cells (mp, dbs ! i)) \<inter> set (db_cells (mp, dbs ! j)) = {})"

text \<open>An operation on one buffer keeps every other buffer and its bytes, although their cells
  come from the same pool.\<close>

lemma pool_step:
  assumes inv: "pool_inv mp dbs" and i: "i < length dbs"
    and step: "own_step (mp, dbs ! i) (mp', db')" and inv': "db_inv (mp', db')"
  shows "pool_inv mp' (dbs[i := db'])"
    and "\<And>j. j < length dbs \<Longrightarrow> j \<noteq> i \<Longrightarrow> db_content (mp', dbs ! j) = db_content (mp, dbs ! j)"
proof -
  let ?own = "set (db_cells (mp, dbs ! i)) \<union> set (free_cells mp)"
  obtain xs' fs' where w': "db_wf (mp', db') xs' fs'" using inv' by (auto simp: db_inv_iff)
  have fr: "frame mp mp' ?own" and sub: "set xs' \<union> set fs' \<subseteq> ?own \<union> {length (mp_mem mp)..}"
    using step db_wf_cells [OF w'] by (auto simp: own_step_def)
  have other: "db_wf (mp', dbs ! j) (db_cells (mp, dbs ! j)) fs' \<and>
      db_content (mp', dbs ! j) = db_content (mp, dbs ! j) \<and>
      set (db_cells (mp, dbs ! j)) \<inter> set xs' = {}"
    if j: "j < length dbs" "j \<noteq> i" for j
  proof -
    let ?ys = "db_cells (mp, dbs ! j)"
    have w: "db_wf (mp, dbs ! j) ?ys (free_cells mp)"
      using inv j by (auto simp: pool_inv_def db_inv_def)
    have d: "set ?ys \<inter> ?own = {}"
      using inv i j db_wf_disj [OF w] unfolding pool_inv_def by blast
    have lt: "a < length (mp_mem mp)" if "a \<in> set ?ys" for a using db_wf_lt [OF w] that by blast
    have same: "a < length (mp_mem mp') \<and> mp_mem mp' ! a = mp_mem mp ! a" if "a \<in> set ?ys" for a
      using fr lt [OF that] d that by (auto simp: frame_def)
    have dj: "a \<notin> set xs' \<union> set fs'" if "a \<in> set ?ys" for a
      using sub lt [OF that] d that by fastforce
    have wj: "db_wf (mp', dbs ! j) ?ys fs'"
      by (rule db_wf_frame [OF w]) (use same dj w' in \<open>auto simp: db_wf_def\<close>)
    have "bufs mp' ?ys = bufs mp ?ys" using same by (intro bufs_cong) simp
    then have "db_content (mp', dbs ! j) = db_content (mp, dbs ! j)"
      using db_wf_content [OF w] db_wf_content [OF wj] by simp
    with wj dj show ?thesis by auto
  qed
  show "db_content (mp', dbs ! j) = db_content (mp, dbs ! j)" if "j < length dbs" "j \<noteq> i" for j
    using other that by blast
  have cells: "db_cells (mp', dbs ! j) = db_cells (mp, dbs ! j)" if "j < length dbs" "j \<noteq> i" for j
    using other [OF that] db_wf_cells by metis
  have cells_i: "db_cells (mp', db') = xs'" using db_wf_cells [OF w'] by simp
  show "pool_inv mp' (dbs[i := db'])"
    unfolding pool_inv_def
  proof (intro conjI allI impI)
    fix j
    assume "j < length (dbs[i := db'])"
    then show "db_inv (mp', dbs[i := db'] ! j)"
      using other [of j] inv' i by (cases "j = i") (auto simp: db_inv_iff)
  next
    fix j k
    assume jk: "j < length (dbs[i := db'])" "k < length (dbs[i := db'])" "j \<noteq> k"
    consider "j = i" "k \<noteq> i" | "k = i" "j \<noteq> i" | "j \<noteq> i" "k \<noteq> i" using jk by blast
    then show "set (db_cells (mp', dbs[i := db'] ! j)) \<inter> set (db_cells (mp', dbs[i := db'] ! k)) = {}"
    proof cases
      case 1
      then show ?thesis using other [of k] jk i by (auto simp: cells cells_i)
    next
      case 2
      then show ?thesis using other [of j] jk i by (auto simp: cells cells_i)
    next
      case 3
      then show ?thesis using jk inv by (simp add: cells pool_inv_def)
    qed
  qed
qed

section \<open>Properties\<close>

text \<open>a buffer is a byte queue. After pushing any chunks, a read of \<open>n\<close> available bytes neither
  faults nor fails an \<open>assert\<close>; it returns the first \<open>n\<close> bytes of what was buffered followed by the
  chunks, however the bytes were cut, and leaves the rest.\<close>

theorem databuffer_fifo:
  assumes "db_inv s" "0 < n" "n \<le> int (length (db_content s @ concat cs))"
  shows "\<exists>s1 s2. foldM databuffer_push s cs = Some s1 \<and>
    databuffer_read s1 n = Some (s2, take (nat n) (db_content s @ concat cs)) \<and> db_inv s2 \<and>
    db_content s2 = drop (nat n) (db_content s @ concat cs)"
  using assms by (rule dbq.read_after_pushes)

lemma databuffer_fifo_witness:
  "\<exists>s1 s2. foldM databuffer_push (empty_pool, empty_db) [[1], [2, 3]] = Some s1 \<and>
    databuffer_read s1 2 = Some (s2, [1, 2]) \<and> db_content s2 = [3]"
proof -
  have "db_content (empty_pool, empty_db) = []" by (simp add: db_content_def db_cells_def cells_of_def empty_pool_def)
  then show ?thesis
    using databuffer_fifo [of "(empty_pool, empty_db)" 2 "[[1], [2, 3]]"] db_inv_empty
    by (auto simp: numeral_2_eq_2)
qed

end
