(* ===== verification/Locks.thy ===== *)
theory Locks
  imports Prelude
begin

text \<open>
  \<^verbatim>\<open>skynet-src/rwlock.h\<close> and \<^verbatim>\<open>skynet-src/spinlock.h\<close>: the locks as programs of atomic
  steps. A thread is at a program point of one of the lock functions; one step is one atomic
  access (\<^verbatim>\<open>atomic.h\<close>: sequentially consistent loads, stores, increments and compare-and-swap,
  which may fail spuriously, a step that changes nothing). Any number of threads interleave.
\<close>

section \<open>The read-write lock\<close>

text \<open>
  Program points: \<open>R_spin\<close> \<open>while(ATOM_LOAD(write)) {}\<close>, \<open>R_inc\<close> \<open>ATOM_FINC(read)\<close>,
  \<open>R_check\<close> \<open>if (ATOM_LOAD(write))\<close>, \<open>R_undo\<close> \<open>ATOM_FDEC(read)\<close>, \<open>R_in\<close> after
  \<open>rwlock_rlock\<close> returned; \<open>W_cas\<close>, \<open>W_wait\<close> the two loops of \<open>rwlock_wlock\<close>, \<open>W_in\<close>
  after it returned; \<open>Out\<close> outside.
\<close>

datatype rw_pc = Out | R_spin | R_inc | R_check | R_undo | R_in | W_cas | W_wait | W_in

record rwlock =
  rw_write :: int
  rw_read :: int
  rw_pc :: "nat \<Rightarrow> rw_pc"

definition rwlock_init :: "rwlock \<Rightarrow> bool" where
  "rwlock_init s \<longleftrightarrow> rw_write s = 0 \<and> rw_read s = 0 \<and> rw_pc s = (\<lambda>_. Out)"

text \<open>One atomic access of thread \<open>t\<close> inside \<open>rwlock_rlock\<close>.\<close>

definition rlock_step :: "rwlock \<Rightarrow> nat \<Rightarrow> rwlock" where
  "rlock_step s t =
     (case rw_pc s t of
        R_spin \<Rightarrow> if rw_write s \<noteq> 0 then s else s\<lparr>rw_pc := (rw_pc s)(t := R_inc)\<rparr>
      | R_inc \<Rightarrow> s\<lparr>rw_read := rw_read s + 1, rw_pc := (rw_pc s)(t := R_check)\<rparr>
      | R_check \<Rightarrow>
          if rw_write s \<noteq> 0 then s\<lparr>rw_pc := (rw_pc s)(t := R_undo)\<rparr>
          else s\<lparr>rw_pc := (rw_pc s)(t := R_in)\<rparr>
      | R_undo \<Rightarrow> s\<lparr>rw_read := rw_read s - 1, rw_pc := (rw_pc s)(t := R_spin)\<rparr>
      | _ \<Rightarrow> s)"

definition wlock_step :: "rwlock \<Rightarrow> nat \<Rightarrow> rwlock" where
  "wlock_step s t =
     (case rw_pc s t of
        W_cas \<Rightarrow>
          if rw_write s = 0 then s\<lparr>rw_write := 1, rw_pc := (rw_pc s)(t := W_wait)\<rparr> else s
      | W_wait \<Rightarrow> if rw_read s \<noteq> 0 then s else s\<lparr>rw_pc := (rw_pc s)(t := W_in)\<rparr>
      | _ \<Rightarrow> s)"

definition runlock :: "rwlock \<Rightarrow> nat \<Rightarrow> rwlock" where
  "runlock s t = s\<lparr>rw_read := rw_read s - 1, rw_pc := (rw_pc s)(t := Out)\<rparr>"

definition wunlock :: "rwlock \<Rightarrow> nat \<Rightarrow> rwlock" where
  "wunlock s t = s\<lparr>rw_write := 0, rw_pc := (rw_pc s)(t := Out)\<rparr>"

inductive rw_step :: "rwlock \<Rightarrow> rwlock \<Rightarrow> bool" where
  call_rlock: "rw_pc s t = Out \<Longrightarrow> rw_step s (s\<lparr>rw_pc := (rw_pc s)(t := R_spin)\<rparr>)"
| call_wlock: "rw_pc s t = Out \<Longrightarrow> rw_step s (s\<lparr>rw_pc := (rw_pc s)(t := W_cas)\<rparr>)"
| in_rlock: "rw_pc s t \<in> {R_spin, R_inc, R_check, R_undo} \<Longrightarrow> rw_step s (rlock_step s t)"
| in_wlock: "rw_pc s t \<in> {W_cas, W_wait} \<Longrightarrow> rw_step s (wlock_step s t)"
| cas_spurious: "rw_pc s t = W_cas \<Longrightarrow> rw_step s s"
| do_runlock: "rw_pc s t = R_in \<Longrightarrow> rw_step s (runlock s t)"
| do_wunlock: "rw_pc s t = W_in \<Longrightarrow> rw_step s (wunlock s t)"

inductive_simps rw_step_iff: "rw_step s s'"

text \<open>\<open>counted\<close>: the points at which a reader has incremented \<open>read\<close>; \<open>owning\<close>: the points at
  which a writer has set \<open>write\<close>.\<close>

definition counted :: "rw_pc \<Rightarrow> bool" where
  "counted p \<longleftrightarrow> p \<in> {R_check, R_undo, R_in}"

definition owning :: "rw_pc \<Rightarrow> bool" where
  "owning p \<longleftrightarrow> p \<in> {W_wait, W_in}"

definition rw_inv :: "rwlock \<Rightarrow> bool" where
  "rw_inv s \<longleftrightarrow>
     finite {t. counted (rw_pc s t)} \<and> rw_read s = int (card {t. counted (rw_pc s t)}) \<and>
     (if rw_write s = 0 then \<forall>t. \<not> owning (rw_pc s t)
      else rw_write s = 1 \<and> (\<exists>!t. owning (rw_pc s t))) \<and>
     (\<forall>t u. rw_pc s t = W_in \<longrightarrow> rw_pc s u \<noteq> R_in)"

lemma counted_upd:
  "{u. counted ((f(t := p)) u)} =
     (if counted p then insert t {u. counted (f u)} else {u. counted (f u)} - {t})"
  by auto

lemma rw_inv_init: "rwlock_init s \<Longrightarrow> rw_inv s"
  by (auto simp: rw_inv_def rwlock_init_def counted_def owning_def)

lemma card_counted_pos: "finite {u. counted (f u)} \<Longrightarrow> counted (f t) \<Longrightarrow> 0 < card {u. counted (f u)}"
  by (auto simp: card_gt_0_iff)

text \<open>The reader steps: a thread moves from \<open>p\<close> to \<open>q\<close>, \<open>read\<close> follows the count.\<close>

lemma rw_inv_reader:
  assumes inv: "rw_inv s" and p: "\<not> owning (rw_pc s t)" "\<not> owning q"
    and r: "r = rw_read s + (if counted q then 1 else 0) - (if counted (rw_pc s t) then 1 else 0)"
    and i: "q = R_in \<Longrightarrow> rw_write s = 0"
  shows "rw_inv (s\<lparr>rw_read := r, rw_pc := (rw_pc s)(t := q)\<rparr>)"
proof -
  let ?C = "{u. counted (rw_pc s u)}"
  have fin: "finite ?C" and card: "rw_read s = int (card ?C)" using inv by (auto simp: rw_inv_def)
  have "0 < card ?C" if "counted (rw_pc s t)" using card_counted_pos [OF fin that] .
  then have c: "r = int (card {u. counted (((rw_pc s)(t := q)) u)})"
    unfolding counted_upd using r card fin
    by (cases "counted q"; cases "counted (rw_pc s t)")
      (simp_all add: insert_absorb card_Diff_singleton)
  have f: "finite {u. counted (((rw_pc s)(t := q)) u)}" unfolding counted_upd using fin by simp
  have o: "owning (((rw_pc s)(t := q)) u) = owning (rw_pc s u)" for u using p by auto
  have w: "\<forall>t' u. ((rw_pc s)(t := q)) t' = W_in \<longrightarrow> ((rw_pc s)(t := q)) u \<noteq> R_in"
  proof (intro allI impI notI)
    fix t' u
    assume h: "((rw_pc s)(t := q)) t' = W_in" "((rw_pc s)(t := q)) u = R_in"
    then have "rw_pc s t' = W_in" using p by (auto simp: owning_def split: if_splits)
    moreover from this have "rw_write s \<noteq> 0" using inv by (auto simp: rw_inv_def owning_def)
    ultimately show False using h i inv by (auto simp: rw_inv_def split: if_splits)
  qed
  show ?thesis unfolding rw_inv_def using inv f c o w by (auto simp: rw_inv_def)
qed

lemma rw_inv_pc:
  assumes "rw_inv s" "\<not> owning (rw_pc s t)" "\<not> owning q" "counted q = counted (rw_pc s t)"
    and "q = R_in \<Longrightarrow> rw_write s = 0"
  shows "rw_inv (s\<lparr>rw_pc := (rw_pc s)(t := q)\<rparr>)"
  using rw_inv_reader [OF assms(1-3) _ assms(5), of "rw_read s"] assms(4) by simp

lemma rw_inv_rlock: "rw_inv s \<Longrightarrow> rw_pc s t \<in> {R_spin, R_inc, R_check, R_undo} \<Longrightarrow> rw_inv (rlock_step s t)"
  by (auto simp: rlock_step_def intro!: rw_inv_pc rw_inv_reader) (auto simp: owning_def counted_def)

lemma rw_inv_acquire:
  assumes "rw_inv s" "rw_pc s t = W_cas" "rw_write s = 0"
  shows "rw_inv (s\<lparr>rw_write := 1, rw_pc := (rw_pc s)(t := W_wait)\<rparr>)"
proof -
  have e: "{u. counted (((rw_pc s)(t := W_wait)) u)} = {u. counted (rw_pc s u)}"
    using assms by (auto simp: counted_def)
  show ?thesis using assms e by (auto simp: rw_inv_def owning_def)
qed

lemma rw_inv_enter:
  assumes "rw_inv s" "rw_pc s t = W_wait" "rw_read s = 0"
  shows "rw_inv (s\<lparr>rw_pc := (rw_pc s)(t := W_in)\<rparr>)"
proof -
  have e: "{u. counted (((rw_pc s)(t := W_in)) u)} = {u. counted (rw_pc s u)}"
    using assms by (auto simp: counted_def)
  have "finite {u. counted (rw_pc s u)}" "card {u. counted (rw_pc s u)} = 0"
    using assms by (auto simp: rw_inv_def)
  then have n: "{u. counted (rw_pc s u)} = {}" using card_0_eq by blast
  have "rw_pc s u \<noteq> R_in" for u
  proof
    assume "rw_pc s u = R_in"
    then have "u \<in> {u. counted (rw_pc s u)}" by (simp add: counted_def)
    with n show False by blast
  qed
  then have "\<forall>u. rw_pc s u \<noteq> R_in" by blast
  moreover have "owning (((rw_pc s)(t := W_in)) u) = owning (rw_pc s u)" for u
    using assms by (auto simp: owning_def)
  ultimately show ?thesis using assms e by (auto simp: rw_inv_def)
qed

lemma rw_inv_release:
  assumes "rw_inv s" "rw_pc s t = W_in"
  shows "rw_inv (wunlock s t)"
proof -
  have e: "{u. counted (((rw_pc s)(t := Out)) u)} = {u. counted (rw_pc s u)}"
    using assms by (auto simp: counted_def)
  have "owning (rw_pc s t)" using assms by (simp add: owning_def)
  then have "\<forall>u. u \<noteq> t \<longrightarrow> \<not> owning (rw_pc s u)" using assms by (auto simp: rw_inv_def split: if_splits)
  then show ?thesis using assms e by (auto simp: rw_inv_def wunlock_def owning_def)
qed

lemma rw_inv_wlock: "rw_inv s \<Longrightarrow> rw_pc s t \<in> {W_cas, W_wait} \<Longrightarrow> rw_inv (wlock_step s t)"
  by (auto simp: wlock_step_def intro: rw_inv_acquire rw_inv_enter)

lemma rw_inv_runlock: "rw_inv s \<Longrightarrow> rw_pc s t = R_in \<Longrightarrow> rw_inv (runlock s t)"
  unfolding runlock_def by (rule rw_inv_reader) (auto simp: owning_def counted_def)

lemma rw_inv_call:
  "rw_inv s \<Longrightarrow> rw_pc s t = Out \<Longrightarrow> q = R_spin \<or> q = W_cas \<Longrightarrow> rw_inv (s\<lparr>rw_pc := (rw_pc s)(t := q)\<rparr>)"
  by (rule rw_inv_pc) (auto simp: owning_def counted_def)

lemma rw_inv_step: "rw_inv s \<Longrightarrow> rw_step s s' \<Longrightarrow> rw_inv s'"
  by (erule rw_step.cases)
    (blast intro: rw_inv_call rw_inv_rlock rw_inv_wlock rw_inv_runlock rw_inv_release)+

interpretation rwl: invariant_system rwlock_init rw_step rw_inv
  by unfold_locales (auto intro: rw_inv_init rw_inv_step)

text \<open>A thread inside the lock functions can move, or the one it waits for can.\<close>

definition rw_moves :: "rwlock \<Rightarrow> nat \<Rightarrow> bool" where
  "rw_moves s t \<longleftrightarrow> rw_pc s t \<noteq> Out \<and>
     (rw_pc (rlock_step s t) t \<noteq> rw_pc s t \<or> rw_pc (wlock_step s t) t \<noteq> rw_pc s t \<or>
      rw_pc s t = R_in \<or> rw_pc s t = W_in)"

lemma rw_some_move:
  assumes inv: "rw_inv s" and t: "rw_pc s t \<noteq> Out"
  shows "\<exists>u. rw_moves s u"
proof (rule ccontr)
  assume "\<not> ?thesis"
  then have stuck: "\<not> rw_moves s u" for u by blast
  have notc: "\<not> counted (rw_pc s u)" for u
    using stuck [of u] by (auto simp: rw_moves_def rlock_step_def counted_def split: if_splits)
  then have r0: "rw_read s = 0" using inv by (simp add: rw_inv_def)
  then have "\<not> owning (rw_pc s u)" for u
    using stuck [of u] by (auto simp: rw_moves_def wlock_step_def owning_def split: if_splits)
  then have "rw_write s = 0" using inv by (auto simp: rw_inv_def split: if_splits)
  then show False using stuck [of t] t r0
    by (cases "rw_pc s t") (auto simp: rw_moves_def rlock_step_def wlock_step_def split: if_splits)
qed

section \<open>The spin lock\<close>

text \<open>
  \<open>S_xchg\<close>: the \<open>atomic_test_and_set_\<close> of \<open>spinlock_lock\<close>; \<open>S_poll\<close>: its loop of relaxed
  loads; \<open>S_try\<close>, \<open>S_tryx\<close>: the two accesses of \<open>spinlock_trylock\<close>; \<open>S_in\<close>: holding the lock.
\<close>

datatype spin_pc = S_out | S_xchg | S_poll | S_try | S_tryx | S_in

record spinlock =
  sp_lock :: int
  sp_pc :: "nat \<Rightarrow> spin_pc"

definition spinlock_init :: "spinlock \<Rightarrow> bool" where
  "spinlock_init s \<longleftrightarrow> sp_lock s = 0 \<and> sp_pc s = (\<lambda>_. S_out)"

definition spinlock_lock :: "spinlock \<Rightarrow> nat \<Rightarrow> spinlock" where
  "spinlock_lock s t =
     (case sp_pc s t of
        S_xchg \<Rightarrow> s\<lparr>sp_lock := 1, sp_pc := (sp_pc s)(t := (if sp_lock s = 0 then S_in else S_poll))\<rparr>
      | S_poll \<Rightarrow> if sp_lock s \<noteq> 0 then s else s\<lparr>sp_pc := (sp_pc s)(t := S_xchg)\<rparr>
      | _ \<Rightarrow> s)"

definition spinlock_trylock :: "spinlock \<Rightarrow> nat \<Rightarrow> spinlock" where
  "spinlock_trylock s t =
     (case sp_pc s t of
        S_try \<Rightarrow> s\<lparr>sp_pc := (sp_pc s)(t := (if sp_lock s = 0 then S_tryx else S_out))\<rparr>
      | S_tryx \<Rightarrow> s\<lparr>sp_lock := 1, sp_pc := (sp_pc s)(t := (if sp_lock s = 0 then S_in else S_out))\<rparr>
      | _ \<Rightarrow> s)"

definition spinlock_unlock :: "spinlock \<Rightarrow> nat \<Rightarrow> spinlock" where
  "spinlock_unlock s t = s\<lparr>sp_lock := 0, sp_pc := (sp_pc s)(t := S_out)\<rparr>"

inductive spin_step :: "spinlock \<Rightarrow> spinlock \<Rightarrow> bool" where
  call_lock: "sp_pc s t = S_out \<Longrightarrow> spin_step s (s\<lparr>sp_pc := (sp_pc s)(t := S_xchg)\<rparr>)"
| call_trylock: "sp_pc s t = S_out \<Longrightarrow> spin_step s (s\<lparr>sp_pc := (sp_pc s)(t := S_try)\<rparr>)"
| in_lock: "sp_pc s t \<in> {S_xchg, S_poll} \<Longrightarrow> spin_step s (spinlock_lock s t)"
| in_trylock: "sp_pc s t \<in> {S_try, S_tryx} \<Longrightarrow> spin_step s (spinlock_trylock s t)"
| do_unlock: "sp_pc s t = S_in \<Longrightarrow> spin_step s (spinlock_unlock s t)"

definition spin_inv :: "spinlock \<Rightarrow> bool" where
  "spin_inv s \<longleftrightarrow>
     (if sp_lock s = 0 then \<forall>t. sp_pc s t \<noteq> S_in else sp_lock s = 1 \<and> (\<exists>!t. sp_pc s t = S_in))"

lemma spin_inv_init: "spinlock_init s \<Longrightarrow> spin_inv s"
  by (simp add: spin_inv_def spinlock_init_def)

lemma spin_inv_step: "spin_inv s \<Longrightarrow> spin_step s s' \<Longrightarrow> spin_inv s'"
  by (erule spin_step.cases)
    (auto simp: spin_inv_def spinlock_lock_def spinlock_trylock_def spinlock_unlock_def split: if_splits;
     metis spin_pc.distinct)+

interpretation spl: invariant_system spinlock_init spin_step spin_inv
  by unfold_locales (auto intro: spin_inv_init spin_inv_step)

section \<open>Properties\<close>

text \<open>C29: the read-write lock excludes: in every state that any interleaving of any number of
  threads can reach, a thread that holds the write lock is the only one that holds the lock at all.\<close>

theorem rwlock_mutual_exclusion:
  assumes "reachable rwlock_init rw_step s" and "rw_pc s t = W_in" and "rw_pc s u \<in> {W_in, R_in}"
  shows "u = t"
proof -
  have inv: "rw_inv s" using assms(1) by (rule rwl.reachable_inv)
  then have "rw_pc s u = W_in" using assms(2,3) by (auto simp: rw_inv_def)
  then show ?thesis using inv assms(2) by (auto simp: rw_inv_def owning_def split: if_splits)
qed

text \<open>C31: the read-write lock never deadlocks: whenever some thread is inside the lock code, some
  thread can leave its program point.\<close>

theorem rwlock_no_deadlock:
  assumes "reachable rwlock_init rw_step s" and "rw_pc s t \<noteq> Out"
  shows "\<exists>u. rw_moves s u"
  using rw_some_move [OF rwl.reachable_inv [OF assms(1)] assms(2)] .

text \<open>the spin lock excludes: at most one thread holds it, whether by \<open>lock\<close> or \<open>trylock\<close>,
  and the lock word tells whether one does.\<close>

theorem spinlock_mutual_exclusion:
  assumes "reachable spinlock_init spin_step s" and "sp_pc s t = S_in"
  shows "sp_lock s = 1 \<and> (\<forall>u. sp_pc s u = S_in \<longrightarrow> u = t)"
proof -
  have "spin_inv s" using assms(1) by (rule spl.reachable_inv)
  then show ?thesis using assms(2) by (auto simp: spin_inv_def split: if_splits)
qed

definition demo_rwlock :: rwlock where
  "demo_rwlock = \<lparr>rw_write = 0, rw_read = 0, rw_pc = (\<lambda>_. Out)\<rparr>"

definition demo_rwlock_held :: rwlock where
  "demo_rwlock_held = \<lparr>rw_write = 1, rw_read = 0, rw_pc = (\<lambda>_. Out)(0 := W_in)\<rparr>"

lemma demo_rwlock_reachable: "reachable rwlock_init rw_step demo_rwlock_held"
proof -
  let ?s0 = demo_rwlock
  let ?s1 = "\<lparr>rw_write = 0, rw_read = 0, rw_pc = (\<lambda>_. Out)(0 := W_cas)\<rparr>"
  let ?s2 = "\<lparr>rw_write = 1, rw_read = 0, rw_pc = (\<lambda>_. Out)(0 := W_wait)\<rparr>"
  have 0: "reachable rwlock_init rw_step ?s0"
    by (rule reachable_init) (simp add: rwlock_init_def demo_rwlock_def)
  have "rw_step ?s0 ?s1" using call_wlock [of ?s0 0] by (simp add: demo_rwlock_def)
  with 0 have 1: "reachable rwlock_init rw_step ?s1" by (rule reachable_step)
  have "rw_step ?s1 ?s2" using in_wlock [of ?s1 0] by (simp add: wlock_step_def)
  with 1 have 2: "reachable rwlock_init rw_step ?s2" by (rule reachable_step)
  have "rw_step ?s2 demo_rwlock_held" using in_wlock [of ?s2 0] by (simp add: wlock_step_def demo_rwlock_held_def)
  with 2 show ?thesis by (rule reachable_step)
qed

lemma demo_rwlock_held_pc: "rw_pc demo_rwlock_held 0 = W_in"
  by (simp add: demo_rwlock_held_def)

lemma rwlock_mutual_exclusion_witness: "{u. rw_pc demo_rwlock_held u \<in> {W_in, R_in}} = {0}"
  using rwlock_mutual_exclusion [OF demo_rwlock_reachable demo_rwlock_held_pc] demo_rwlock_held_pc
  by blast

lemma rwlock_no_deadlock_witness: "\<exists>u. rw_moves demo_rwlock_held u"
proof (rule rwlock_no_deadlock [OF demo_rwlock_reachable])
  show "rw_pc demo_rwlock_held 0 \<noteq> Out" unfolding demo_rwlock_held_pc by simp
qed

definition demo_spinlock_held :: spinlock where
  "demo_spinlock_held = \<lparr>sp_lock = 1, sp_pc = (\<lambda>t. if t = 0 then S_in else S_out)\<rparr>"

lemma demo_spinlock_reachable: "reachable spinlock_init spin_step demo_spinlock_held"
proof -
  let ?s0 = "\<lparr>sp_lock = 0, sp_pc = (\<lambda>_. S_out)\<rparr>"
  let ?s1 = "\<lparr>sp_lock = 0, sp_pc = (\<lambda>_. S_out)(0 := S_xchg)\<rparr>"
  have "reachable spinlock_init spin_step ?s0" by (rule reachable_init) (simp add: spinlock_init_def)
  moreover have "spin_step ?s0 ?s1" using call_lock [of ?s0 0] by simp
  ultimately have 1: "reachable spinlock_init spin_step ?s1" by (rule reachable_step)
  have "spinlock_lock ?s1 0 = demo_spinlock_held"
    by (simp add: spinlock_lock_def demo_spinlock_held_def fun_eq_iff)
  then have "spin_step ?s1 demo_spinlock_held" using in_lock [of ?s1 0] by simp
  with 1 show ?thesis by (rule reachable_step)
qed

lemma demo_spinlock_held_pc: "sp_pc demo_spinlock_held 0 = S_in"
  by (simp add: demo_spinlock_held_def)

lemma spinlock_mutual_exclusion_witness:
  "sp_lock demo_spinlock_held = 1 \<and> {u. sp_pc demo_spinlock_held u = S_in} = {0}"
  using spinlock_mutual_exclusion [OF demo_spinlock_reachable demo_spinlock_held_pc]
    demo_spinlock_held_pc by blast

end
