(* ===== verification/Netpack.thy ===== *)
theory Netpack
  imports Framing Fifo
begin

text \<open>
  \<open>lualib-src/lua-netpack.c\<close>: splits the byte streams of many sockets into packets with a 2-byte
  big-endian length. Complete packets wait in a ring buffer; per socket at most one incomplete
  packet waits in a hash table of 4096 linked lists (a chain is modelled as the list of its
  \<open>uncomplete\<close> records). The Lua stack slot 1 holds the queue userdata or \<open>nil\<close>: an argument of
  type \<open>nqueue option\<close>, returned updated.

  A data block is the list of its bytes; \<open>memcpy\<close> into one is checked against its length. \<open>None\<close>
  is a failed assert or an access outside a block.
\<close>

section \<open>State\<close>

definition QUEUESIZE :: nat where "QUEUESIZE = 1024"
definition HASHSIZE :: nat where "HASHSIZE = 4096"

record netpack =
  np_id :: int
  np_size :: int
  np_buffer :: bytes

record uncomplete =
  uc_pack :: netpack
  uc_read :: int
  uc_header :: int

record nqueue =
  nq_cap :: nat
  nq_head :: nat
  nq_tail :: nat
  nq_hash :: "uncomplete list list"
  nq_queue :: "netpack list"

definition no_pack :: netpack where "no_pack = \<lparr>np_id = 0, np_size = 0, np_buffer = []\<rparr>"

definition new_queue :: nqueue where
  "new_queue = \<lparr>nq_cap = QUEUESIZE, nq_head = 0, nq_tail = 0, nq_hash = replicate HASHSIZE [],
                nq_queue = replicate QUEUESIZE no_pack\<rparr>"

definition get_queue :: "nqueue option \<Rightarrow> nqueue" where
  "get_queue L1 = (case L1 of None \<Rightarrow> new_queue | Some q \<Rightarrow> q)"

definition memcpy :: "bytes \<Rightarrow> int \<Rightarrow> bytes \<Rightarrow> bytes option" where
  "memcpy dst off src =
     (if 0 \<le> off \<and> nat off + length src \<le> length dst
      then Some (take (nat off) dst @ src @ drop (nat off + length src) dst) else None)"

definition malloc :: "int \<Rightarrow> bytes" where
  "malloc n = replicate (nat n) 0"

section \<open>Incomplete packets\<close>

definition hash_fd :: "int \<Rightarrow> nat" where
  "hash_fd fd = nat (((fd div 2 ^ 24 + fd div 2 ^ 12 + fd) mod 2 ^ 32) mod int HASHSIZE)"

text \<open>Unlinking the first record of the socket from a chain.\<close>

fun unlink_fd :: "int \<Rightarrow> uncomplete list \<Rightarrow> (uncomplete \<times> uncomplete list) option" where
  "unlink_fd fd [] = None"
| "unlink_fd fd (uc # ucs) =
     (if np_id (uc_pack uc) = fd then Some (uc, ucs)
      else map_option (\<lambda>(u, r). (u, uc # r)) (unlink_fd fd ucs))"

definition find_uncomplete :: "nqueue option \<Rightarrow> int \<Rightarrow> nqueue option \<times> uncomplete option" where
  "find_uncomplete L1 fd =
     (case L1 of
        None \<Rightarrow> (None, None)
      | Some q \<Rightarrow>
          (case unlink_fd fd (nq_hash q ! hash_fd fd) of
             None \<Rightarrow> (L1, None)
           | Some (uc, ucs) \<Rightarrow> (Some (q\<lparr>nq_hash := (nq_hash q)[hash_fd fd := ucs]\<rparr>), Some uc)))"

definition link_uncomplete :: "nqueue \<Rightarrow> uncomplete \<Rightarrow> nqueue" where
  "link_uncomplete q uc =
     (let h = hash_fd (np_id (uc_pack uc)) in q\<lparr>nq_hash := (nq_hash q)[h := uc # nq_hash q ! h]\<rparr>)"

text \<open>\<open>save_uncomplete\<close> links a zeroed record for the socket; here the caller gives its contents.\<close>

definition save_uncomplete :: "nqueue option \<Rightarrow> int \<Rightarrow> uncomplete \<Rightarrow> nqueue" where
  "save_uncomplete L1 fd uc = link_uncomplete (get_queue L1) (uc\<lparr>uc_pack := (uc_pack uc)\<lparr>np_id := fd\<rparr>\<rparr>)"

definition zero_uc :: uncomplete where
  "zero_uc = \<lparr>uc_pack = no_pack, uc_read = 0, uc_header = 0\<rparr>"

section \<open>The queue of complete packets\<close>

definition expand_nqueue :: "nqueue \<Rightarrow> nqueue" where
  "expand_nqueue q =
     \<lparr>nq_cap = nq_cap q + QUEUESIZE, nq_head = 0, nq_tail = nq_cap q, nq_hash = nq_hash q,
      nq_queue = map (\<lambda>i. nq_queue q ! ((nq_head q + i) mod nq_cap q)) [0..<nq_cap q] @
                 replicate QUEUESIZE no_pack\<rparr>"

definition push_pack :: "nqueue \<Rightarrow> netpack \<Rightarrow> nqueue option" where
  "push_pack q np =
     (if nq_tail q < length (nq_queue q) then
        let t = Suc (nq_tail q);
            q1 = q\<lparr>nq_queue := (nq_queue q)[nq_tail q := np],
                   nq_tail := (if t \<ge> nq_cap q then t - nq_cap q else t)\<rparr>
        in Some (if nq_head q1 = nq_tail q1 then expand_nqueue q1 else q1)
      else None)"

text \<open>\<open>clone\<close> copies the first \<open>size\<close> bytes of the buffer into a new block.\<close>

definition push_data :: "nqueue option \<Rightarrow> int \<Rightarrow> bytes \<Rightarrow> int \<Rightarrow> bool \<Rightarrow> nqueue option" where
  "push_data L1 fd buf sz clone =
     Option.bind (if clone then memcpy (malloc sz) 0 (take (nat sz) buf) else Some buf) (\<lambda>b.
       push_pack (get_queue L1) \<lparr>np_id = fd, np_size = sz, np_buffer = b\<rparr>)"

definition pop_pack :: "nqueue \<Rightarrow> (nqueue \<times> netpack option) option" where
  "pop_pack q =
     (if nq_head q = nq_tail q then Some (q, None)
      else if nq_head q < length (nq_queue q) then
        Some (q\<lparr>nq_head := (if Suc (nq_head q) \<ge> nq_cap q then 0 else Suc (nq_head q))\<rparr>,
              Some (nq_queue q ! nq_head q))
      else None)"

definition lpop :: "nqueue option \<Rightarrow> (nqueue option \<times> netpack option) option" where
  "lpop L1 =
     (case L1 of
        None \<Rightarrow> Some (None, None)
      | Some q \<Rightarrow> map_option (\<lambda>(q', r). (Some q', r)) (pop_pack q))"

text \<open>The result also has the blocks that are freed, in order.\<close>

definition lclear :: "nqueue option \<Rightarrow> nqueue option \<times> bytes list" where
  "lclear L1 =
     (case L1 of
        None \<Rightarrow> (None, [])
      | Some q \<Rightarrow>
          let tail = (if nq_head q > nq_tail q then nq_tail q + nq_cap q else nq_tail q) in
          (Some (q\<lparr>nq_hash := replicate HASHSIZE [], nq_head := 0, nq_tail := 0\<rparr>),
           map (np_buffer \<circ> uc_pack) (concat (nq_hash q)) @
           map (\<lambda>i. np_buffer (nq_queue q ! (i mod nq_cap q))) [nq_head q..<tail]))"

section \<open>Splitting a stream\<close>

definition read_size :: "bytes \<Rightarrow> int" where
  "read_size buf = uint (buf ! 0) * 2 ^ 8 + uint (buf ! 1)"

text \<open>What a fresh incomplete packet holds: the first half of the header, or a part of the data.\<close>

definition half_header :: "bytes \<Rightarrow> uncomplete" where
  "half_header buf = zero_uc\<lparr>uc_read := -1, uc_header := uint (buf ! 0)\<rparr>"

definition partial_pack :: "bytes \<Rightarrow> int \<Rightarrow> uncomplete option" where
  "partial_pack buf pack_size =
     map_option (\<lambda>b. zero_uc\<lparr>uc_read := int (length buf), uc_pack := no_pack\<lparr>np_size := pack_size, np_buffer := b\<rparr>\<rparr>)
       (memcpy (malloc pack_size) 0 buf)"

function push_more :: "nqueue option \<Rightarrow> int \<Rightarrow> bytes \<Rightarrow> nqueue option" where
  "push_more L1 fd buf =
     (if length buf = 0 then None
      else if length buf = 1 then Some (save_uncomplete L1 fd (half_header buf))
      else
        let pack_size = read_size buf; buf' = drop 2 buf in
        if int (length buf') < pack_size then
          map_option (save_uncomplete L1 fd) (partial_pack buf' pack_size)
        else
          Option.bind (push_data L1 fd buf' pack_size True) (\<lambda>q.
            let rest = drop (nat pack_size) buf' in
            if length rest > 0 then push_more (Some q) fd rest else Some q))"
  by pat_completeness auto
termination by (relation "measure (\<lambda>(_, _, buf). length buf)") auto

declare push_more.simps [simp del]

definition close_uncomplete :: "nqueue option \<Rightarrow> int \<Rightarrow> nqueue option" where
  "close_uncomplete L1 fd = fst (find_uncomplete L1 fd)"

text \<open>The values left on the Lua stack (the queue is always slot 1).\<close>

datatype filter_result =
    R_none
  | R_data int bytes int
  | R_more
  | R_error int bytes
  | R_open int bytes
  | R_close int
  | R_warning int int
  | R_init int bytes int

text \<open>The branch of \<open>filter_data_\<close> that continues an incomplete packet.\<close>

definition fill_uncomplete ::
  "nqueue option \<Rightarrow> int \<Rightarrow> uncomplete \<Rightarrow> bytes \<Rightarrow> (nqueue option \<times> filter_result) option" where
  "fill_uncomplete L1 fd uc0 buf0 =
     Option.bind
       (if uc_read uc0 < 0 then
          (if uc_read uc0 = -1 \<and> buf0 \<noteq> [] then
             let pack_size = (uint (buf0 ! 0) OR push_bit 8 (uc_header uc0)) in
             Some (uc0\<lparr>uc_pack := (uc_pack uc0)\<lparr>np_size := pack_size, np_buffer := malloc pack_size\<rparr>, uc_read := 0\<rparr>,
                   drop 1 buf0)
           else None)
        else Some (uc0, buf0)) (\<lambda>(uc, buf).
     let need = np_size (uc_pack uc) - uc_read uc in
     if int (length buf) < need then
       Option.bind (memcpy (np_buffer (uc_pack uc)) (uc_read uc) buf) (\<lambda>b.
         Some (Some (link_uncomplete (get_queue L1)
                  (uc\<lparr>uc_pack := (uc_pack uc)\<lparr>np_buffer := b\<rparr>, uc_read := uc_read uc + int (length buf)\<rparr>)),
               R_none))
     else
       Option.bind (memcpy (np_buffer (uc_pack uc)) (uc_read uc) (take (nat need) buf)) (\<lambda>b.
         let rest = drop (nat need) buf in
         if rest = [] then Some (L1, R_data fd b (np_size (uc_pack uc)))
         else
           Option.bind (push_data L1 fd b (np_size (uc_pack uc)) False) (\<lambda>q.
           Option.bind (push_more (Some q) fd rest) (\<lambda>q'. Some (Some q', R_more)))))"

definition filter_data ::
  "nqueue option \<Rightarrow> int \<Rightarrow> bytes \<Rightarrow> (nqueue option \<times> filter_result) option" where
  "filter_data L1 fd buf =
     (case find_uncomplete L1 fd of
        (L1', Some uc) \<Rightarrow> fill_uncomplete L1' fd uc buf
      | (L1', None) \<Rightarrow>
          if length buf = 0 then None
          else if length buf = 1 then Some (Some (save_uncomplete L1' fd (half_header buf)), R_none)
          else
            let pack_size = read_size buf; buf' = drop 2 buf in
            if int (length buf') < pack_size then
              map_option (\<lambda>uc. (Some (save_uncomplete L1' fd uc), R_none)) (partial_pack buf' pack_size)
            else if int (length buf') = pack_size then
              map_option (\<lambda>b. (L1', R_data fd b (int (length buf')))) (memcpy (malloc pack_size) 0 buf')
            else
              Option.bind (push_data L1' fd buf' pack_size True) (\<lambda>q.
              Option.bind (push_more (Some q) fd (drop (nat pack_size) buf')) (\<lambda>q'.
                Some (Some q', R_more))))"

section \<open>The filter function and the packer\<close>

text \<open>\<open>sm_buffer = None\<close> is a \<open>NULL\<close> buffer: the string \<open>sm_pad\<close> follows the message itself. With
  another buffer the string would be taken with the length \<open>-1\<close>.\<close>

record socket_message =
  sm_type :: int
  sm_id :: int
  sm_ud :: int
  sm_buffer :: "bytes option"
  sm_pad :: bytes

definition lfilter :: "nqueue option \<Rightarrow> socket_message \<Rightarrow> (nqueue option \<times> filter_result) option" where
  "lfilter L1 m =
     (let str = (case sm_buffer m of None \<Rightarrow> Some (sm_pad m) | Some b \<Rightarrow> None) in
      if sm_type m = 1 then
        (case sm_buffer m of
           None \<Rightarrow> None
         | Some b \<Rightarrow> filter_data L1 (sm_id m) (take (nat (sm_ud m)) b))
      else if sm_type m = 2 then map_option (\<lambda>t. (L1, R_init (sm_id m) t (sm_ud m))) str
      else if sm_type m = 3 then Some (close_uncomplete L1 (sm_id m), R_close (sm_id m))
      else if sm_type m = 4 then map_option (\<lambda>t. (L1, R_open (sm_ud m) t)) str
      else if sm_type m = 5 then map_option (\<lambda>t. (close_uncomplete L1 (sm_id m), R_error (sm_id m) t)) str
      else if sm_type m = 7 then Some (L1, R_warning (sm_id m) (sm_ud m))
      else Some (L1, R_none))"

definition write_size :: "int \<Rightarrow> bytes" where
  "write_size len = [word_of_int (len div 2 ^ 8) AND 0xff, word_of_int len AND 0xff]"

definition lpack :: "bytes \<Rightarrow> string + bytes" where
  "lpack msg =
     (if int (length msg) \<ge> 0x10000 then Inl ''Invalid size (too long) of data''
      else Inr (write_size (int (length msg)) @ msg))"

definition ltostring :: "bytes option \<Rightarrow> int \<Rightarrow> bytes" where
  "ltostring ptr sz = (case ptr of None \<Rightarrow> [] | Some b \<Rightarrow> take (nat sz) b)"

section \<open>The ring of complete packets\<close>

definition ring_wf :: "nqueue \<Rightarrow> bool" where
  "ring_wf q \<longleftrightarrow> length (nq_queue q) = nq_cap q \<and> nq_head q < nq_cap q \<and> nq_tail q < nq_cap q"

definition packs :: "nqueue \<Rightarrow> netpack list" where
  "packs q = ring_list (nq_queue q) (nq_head q)
     (if nq_head q \<le> nq_tail q then nq_tail q - nq_head q else nq_tail q + nq_cap q - nq_head q)"

lemma push_pack_packs:
  assumes wf: "ring_wf q"
  shows "\<exists>q'. push_pack q np = Some q' \<and> ring_wf q' \<and> packs q' = packs q @ [np] \<and> nq_hash q' = nq_hash q"
proof -
  have b: "length (nq_queue q) = nq_cap q" "nq_head q < nq_cap q" "nq_tail q < nq_cap q"
    using wf by (auto simp: ring_wf_def)
  let ?n = "if nq_head q \<le> nq_tail q then nq_tail q - nq_head q else nq_tail q + nq_cap q - nq_head q"
  let ?t = "if Suc (nq_tail q) \<ge> nq_cap q then Suc (nq_tail q) - nq_cap q else Suc (nq_tail q)"
  let ?xs = "(nq_queue q)[nq_tail q := np]"
  let ?q1 = "q\<lparr>nq_queue := ?xs, nq_tail := ?t\<rparr>"
  have n: "?n < length (nq_queue q)" using b by auto
  have ti: "(nq_head q + ?n) mod length (nq_queue q) = nq_tail q" using b by (auto simp: mod_if)
  have snoc: "ring_list ?xs (nq_head q) (Suc ?n) = packs q @ [np]"
    using ring_list_snoc [OF n, of "nq_head q" np] unfolding ti packs_def .
  show ?thesis
  proof (cases "nq_head q = ?t")
    case False
    have "packs ?q1 = ring_list ?xs (nq_head q) (Suc ?n)"
      unfolding packs_def using b False by (auto intro!: arg_cong [of _ _ "ring_list _ _"])
    moreover have "ring_wf ?q1" using b by (auto simp: ring_wf_def)
    ultimately show ?thesis using b False snoc by (intro exI [of _ ?q1]) (simp add: push_pack_def Let_def)
  next
    case True
    have full: "Suc ?n = nq_cap q" using b True by (auto split: if_splits)
    let ?q2 = "expand_nqueue ?q1"
    have ys: "map (\<lambda>i. ?xs ! ((nq_head q + i) mod nq_cap q)) [0..<nq_cap q] = packs q @ [np]"
      using snoc unfolding full by (simp add: ring_list_def b)
    have q2: "nq_queue ?q2 = (packs q @ [np]) @ replicate QUEUESIZE no_pack"
      using ys by (simp add: expand_nqueue_def)
    have len: "length (packs q @ [np]) = nq_cap q" by (subst ys [symmetric]) simp
    have "packs ?q2 = ring_list (nq_queue ?q2) 0 (nq_cap q)"
      by (simp add: packs_def expand_nqueue_def)
    also have "\<dots> = take (nq_cap q) (nq_queue ?q2)"
      by (rule ring_list_prefix) (unfold q2, use len in simp)
    also have "\<dots> = packs q @ [np]" unfolding q2 using len by (metis append_eq_conv_conj)
    finally have "packs ?q2 = packs q @ [np]" .
    moreover have "ring_wf ?q2" using b by (simp add: ring_wf_def expand_nqueue_def QUEUESIZE_def)
    moreover have "nq_hash ?q2 = nq_hash q" by (simp add: expand_nqueue_def)
    ultimately show ?thesis using b True by (intro exI [of _ ?q2]) (simp add: push_pack_def Let_def)
  qed
qed

lemma pop_pack_packs:
  assumes wf: "ring_wf q"
  shows "case packs q of
      [] \<Rightarrow> pop_pack q = Some (q, None)
    | p # ps \<Rightarrow> \<exists>q'. pop_pack q = Some (q', Some p) \<and> ring_wf q' \<and> packs q' = ps \<and> nq_hash q' = nq_hash q"
proof -
  have b: "length (nq_queue q) = nq_cap q" "nq_head q < nq_cap q" "nq_tail q < nq_cap q"
    using wf by (auto simp: ring_wf_def)
  show ?thesis
  proof (cases "nq_head q = nq_tail q")
    case True
    then show ?thesis by (simp add: packs_def pop_pack_def)
  next
    case False
    let ?h = "if Suc (nq_head q) \<ge> nq_cap q then 0 else Suc (nq_head q)"
    let ?q' = "q\<lparr>nq_head := ?h\<rparr>"
    define n where "n = (if nq_head q \<le> nq_tail q then nq_tail q - nq_head q else nq_tail q + nq_cap q - nq_head q) - 1"
    have n: "(if nq_head q \<le> nq_tail q then nq_tail q - nq_head q else nq_tail q + nq_cap q - nq_head q) = Suc n"
      using b False by (auto simp: n_def)
    have n': "(if ?h \<le> nq_tail q then nq_tail q - ?h else nq_tail q + nq_cap q - ?h) = n"
      using b False by (auto simp: n_def split: if_splits)
    have h': "Suc (nq_head q) mod length (nq_queue q) = ?h" using b by (auto simp: mod_if)
    have "packs ?q' = ring_list (nq_queue q) ?h n"
      using arg_cong [OF n', of "ring_list (nq_queue q) ?h"] by (cases q) (simp only: packs_def nqueue.simps)
    moreover have "nq_head q mod length (nq_queue q) = nq_head q" using b by simp
    ultimately have "packs q = nq_queue q ! nq_head q # packs ?q'"
      unfolding packs_def [of q] n ring_list_Suc_head h' by simp
    moreover have "ring_wf ?q'" using b by (auto simp: ring_wf_def)
    ultimately show ?thesis using b False by (simp add: pop_pack_def)
  qed
qed

interpretation npf: fifo_queue ring_wf packs push_pack pop_pack L for L
proof (unfold_locales, goal_cases)
  case (1 q x)
  then show ?case using push_pack_packs [of q x] by blast
next
  case (2 q)
  then show ?case using pop_pack_packs [of q] by simp
next
  case (3 q x xs)
  then show ?case using pop_pack_packs [of q] by auto
qed

section \<open>The table of incomplete packets\<close>

definition uc_ok :: "uncomplete \<Rightarrow> bool" where
  "uc_ok uc \<longleftrightarrow>
     (uc_read uc = -1 \<and> 0 \<le> uc_header uc \<and> uc_header uc < 2 ^ 8) \<or>
     (0 \<le> uc_read uc \<and> uc_read uc < np_size (uc_pack uc) \<and> np_size (uc_pack uc) < 2 ^ 16 \<and>
      int (length (np_buffer (uc_pack uc))) = np_size (uc_pack uc))"

definition hash_wf :: "nqueue \<Rightarrow> bool" where
  "hash_wf q \<longleftrightarrow> length (nq_hash q) = HASHSIZE \<and>
     (\<forall>h<HASHSIZE. distinct (map (np_id \<circ> uc_pack) (nq_hash q ! h)) \<and> (\<forall>uc\<in>set (nq_hash q ! h). uc_ok uc))"

definition part :: "nqueue \<Rightarrow> int \<Rightarrow> uncomplete option" where
  "part q fd = map_option fst (unlink_fd fd (nq_hash q ! hash_fd fd))"

lemma hash_fd_less: "hash_fd fd < HASHSIZE"
  by (simp add: hash_fd_def HASHSIZE_def nat_less_iff)

lemma unlink_fd_None: "unlink_fd fd ucs = None \<longleftrightarrow> fd \<notin> set (map (np_id \<circ> uc_pack) ucs)"
  by (induction ucs) auto

lemma map_option_fst_keep: "map_option fst (map_option (\<lambda>(a, b). (a, f b)) z) = map_option fst z"
  by (cases z) auto

lemma unlink_fd_Some:
  "unlink_fd fd ucs = Some (uc, r) \<Longrightarrow> distinct (map (np_id \<circ> uc_pack) ucs) \<Longrightarrow>
     np_id (uc_pack uc) = fd \<and> uc \<in> set ucs \<and> set r \<subseteq> set ucs \<and> distinct (map (np_id \<circ> uc_pack) r) \<and>
     unlink_fd fd r = None \<and> (\<forall>fd'. fd' \<noteq> fd \<longrightarrow> map_option fst (unlink_fd fd' r) = map_option fst (unlink_fd fd' ucs))"
proof (induction ucs arbitrary: r)
  case Nil
  then show ?case by simp
next
  case (Cons u ucs)
  show ?case
  proof (cases "np_id (uc_pack u) = fd")
    case True
    then show ?thesis using Cons.prems by (auto simp: unlink_fd_None option.map_comp comp_def split_beta)
  next
    case False
    then obtain r' where r': "unlink_fd fd ucs = Some (uc, r')" "r = u # r'"
      using Cons.prems(1) by (auto split: option.splits)
    then have ih: "np_id (uc_pack uc) = fd \<and> uc \<in> set ucs \<and> set r' \<subseteq> set ucs \<and>
        distinct (map (np_id \<circ> uc_pack) r') \<and> unlink_fd fd r' = None \<and>
        (\<forall>fd'. fd' \<noteq> fd \<longrightarrow> map_option fst (unlink_fd fd' r') = map_option fst (unlink_fd fd' ucs))"
      using Cons.IH [of r'] Cons.prems(2) by (metis distinct.simps(2) list.simps(9))
    moreover have "np_id (uc_pack u) \<notin> set (map (np_id \<circ> uc_pack) r')"
      using Cons.prems(2) ih by auto
    moreover have "unlink_fd fd r = None" using ih False r'(2) by simp
    moreover have "map_option fst (unlink_fd fd' r) = map_option fst (unlink_fd fd' (u # ucs))"
      if "fd' \<noteq> fd" for fd'
      using ih r'(2) that by (simp add: map_option_fst_keep)
    ultimately show ?thesis using r'(2) by (auto simp: comp_def)
  qed
qed

lemma part_Some:
  assumes "hash_wf q" "part q fd = Some uc"
  shows "np_id (uc_pack uc) = fd" "uc_ok uc"
  using assms hash_fd_less [of fd] unlink_fd_Some [of fd "nq_hash q ! hash_fd fd" uc]
  by (auto simp: part_def hash_wf_def)

lemma find_uncomplete_part:
  assumes wf: "hash_wf q"
  shows "\<exists>q'. find_uncomplete (Some q) fd = (Some q', part q fd) \<and> hash_wf q' \<and>
    part q' = (part q)(fd := None) \<and> ring_wf q' = ring_wf q \<and> packs q' = packs q"
proof (cases "unlink_fd fd (nq_hash q ! hash_fd fd)")
  case None
  then show ?thesis using wf by (auto simp: find_uncomplete_def part_def fun_eq_iff)
next
  case (Some r)
  obtain uc ucs where r: "r = (uc, ucs)" by (cases r)
  have d: "distinct (map (np_id \<circ> uc_pack) (nq_hash q ! hash_fd fd))"
    using wf hash_fd_less by (simp add: hash_wf_def)
  note u = unlink_fd_Some [OF Some [unfolded r] d]
  let ?q' = "q\<lparr>nq_hash := (nq_hash q)[hash_fd fd := ucs]\<rparr>"
  have len: "hash_fd fd < length (nq_hash q)" using wf hash_fd_less by (simp add: hash_wf_def)
  have "hash_wf ?q'" using wf u len by (auto simp: hash_wf_def nth_list_update)
  moreover have "part ?q' fd' = ((part q)(fd := None)) fd'" for fd'
    using u len by (auto simp: part_def nth_list_update)
  ultimately show ?thesis using Some r
    by (intro exI [of _ ?q']) (auto simp: find_uncomplete_def part_def fun_eq_iff ring_wf_def packs_def)
qed

lemma link_uncomplete_part:
  assumes wf: "hash_wf q" and uc: "uc_ok uc" and none: "part q (np_id (uc_pack uc)) = None"
  shows "hash_wf (link_uncomplete q uc)" "part (link_uncomplete q uc) = (part q)(np_id (uc_pack uc) \<mapsto> uc)"
    "ring_wf (link_uncomplete q uc) = ring_wf q" "packs (link_uncomplete q uc) = packs q"
proof -
  let ?h = "hash_fd (np_id (uc_pack uc))"
  have len: "?h < length (nq_hash q)" "length (nq_hash q) = HASHSIZE"
    using wf hash_fd_less by (simp_all add: hash_wf_def)
  have n: "np_id (uc_pack uc) \<notin> set (map (np_id \<circ> uc_pack) (nq_hash q ! ?h))"
    using none unfolding part_def by (simp add: unlink_fd_None)
  show "hash_wf (link_uncomplete q uc)"
    using wf uc n len by (auto simp: hash_wf_def link_uncomplete_def Let_def nth_list_update)
  show "part (link_uncomplete q uc) = (part q)(np_id (uc_pack uc) \<mapsto> uc)"
    using len by (auto simp: part_def link_uncomplete_def Let_def nth_list_update fun_eq_iff
        option.map_comp comp_def split_beta)
  show "ring_wf (link_uncomplete q uc) = ring_wf q" "packs (link_uncomplete q uc) = packs q"
    by (simp_all add: link_uncomplete_def Let_def ring_wf_def packs_def)
qed

section \<open>The header\<close>

definition pk_len :: "bytes \<Rightarrow> nat" where
  "pk_len hdr = nat (read_size hdr)"

lemma length_write_size [simp]: "length (write_size n) = 2"
  by (simp add: write_size_def)

lemma header_or: "0 \<le> h \<Longrightarrow> uint (c :: 8 word) OR push_bit 8 h = h * 2 ^ 8 + uint c" for h :: int
proof -
  have "\<not> bit (uint c) n \<or> \<not> bit (push_bit 8 h) n" for n
    by (cases "n < 8") (auto simp: bit_push_bit_iff bit_uint_iff)
  then have "uint c OR push_bit 8 h = uint c + push_bit 8 h" by (metis disjunctive_add)
  then show ?thesis by (simp add: push_bit_eq_mult)
qed

lemma read_size_bounds: "0 \<le> read_size buf" "read_size buf < 2 ^ 16"
  using uint_lt2p [of "buf ! 0"] uint_lt2p [of "buf ! 1"] by (auto simp: read_size_def)

lemma byte_mask: "(word_of_int n :: 8 word) AND 0xff = word_of_int n"
proof -
  have "(0xff :: 8 word) = -1" by simp
  then show ?thesis by (simp only: and.right_neutral)
qed

lemma write_size_read:
  "0 \<le> h \<Longrightarrow> h < 2 ^ 8 \<Longrightarrow> write_size (h * 2 ^ 8 + uint (c :: 8 word)) = [word_of_int h, c]"
proof -
  assume h: "0 \<le> h" "h < 2 ^ 8"
  have c: "0 \<le> uint c" "uint c < 2 ^ 8" using uint_lt2p [of c] by auto
  have d: "(h * 2 ^ 8 + uint c) div 2 ^ 8 = h" using c by (simp add: div_mult_self3)
  have z: "(256 :: 8 word) = 0" by simp
  have "(word_of_int (h * 2 ^ 8 + uint c) :: 8 word) = word_of_int h * 256 + c" by simp
  then have "(word_of_int (h * 2 ^ 8 + uint c) :: 8 word) = c" unfolding z by simp
  then show ?thesis unfolding write_size_def byte_mask d by simp
qed

lemma read_size_write:
  assumes "0 \<le> n" "n < 2 ^ 16"
  shows "read_size (write_size n @ bs) = n"
proof -
  have "n div 2 ^ 8 mod 2 ^ 8 = n div 2 ^ 8" using assms by (intro mod_pos_pos_trivial) auto
  then show ?thesis unfolding read_size_def write_size_def byte_mask
    by (simp add: uint_word_of_int take_bit_eq_mod)
qed

lemma pk_len_write: "0 \<le> n \<Longrightarrow> n < 2 ^ 16 \<Longrightarrow> pk_len (write_size n) = nat n"
  using read_size_write [of n "[]"] by (simp add: pk_len_def)

lemma header_split:
  "2 \<le> length buf \<Longrightarrow> buf = write_size (read_size buf) @ drop 2 buf"
proof -
  assume "2 \<le> length buf"
  then obtain a b r where b: "buf = a # b # r"
    by (metis Suc_le_length_iff numeral_2_eq_2)
  show ?thesis using write_size_read [of "uint a" b] uint_lt2p [of a] unfolding b
    by (simp add: read_size_def)
qed


section \<open>What waits for a socket\<close>

definition uc_bytes :: "uncomplete \<Rightarrow> bytes" where
  "uc_bytes uc =
     (if uc_read uc < 0 then [word_of_int (uc_header uc)]
      else write_size (np_size (uc_pack uc)) @ take (nat (uc_read uc)) (np_buffer (uc_pack uc)))"

definition pending :: "nqueue option \<Rightarrow> int \<Rightarrow> bytes" where
  "pending L fd = (case part (get_queue L) fd of None \<Rightarrow> [] | Some uc \<Rightarrow> uc_bytes uc)"

definition waiting :: "nqueue option \<Rightarrow> netpack list" where
  "waiting L = packs (get_queue L)"

definition queue_ok :: "nqueue option \<Rightarrow> bool" where
  "queue_ok L \<longleftrightarrow> ring_wf (get_queue L) \<and> hash_wf (get_queue L)"

definition pk :: "int \<Rightarrow> bytes \<Rightarrow> netpack" where
  "pk fd p = \<lparr>np_id = fd, np_size = int (length p), np_buffer = p\<rparr>"

lemma get_queue_Some [simp]: "get_queue (Some q) = q"
  by (simp add: get_queue_def)

lemma pending_Some_cong: "part q = part (get_queue L) \<Longrightarrow> pending (Some q) = pending L"
  by (simp add: pending_def fun_eq_iff)

lemma memcpy_malloc: "length b = nat n \<Longrightarrow> memcpy (malloc n) 0 b = Some b"
  by (simp add: memcpy_def malloc_def)

lemma memcpy_prefix:
  "length b \<le> nat n \<Longrightarrow> memcpy (malloc n) 0 b = Some (b @ replicate (nat n - length b) 0)"
  by (simp add: memcpy_def malloc_def)

text \<open>Storing an incomplete packet for a socket that has none.\<close>

lemma save_uncomplete_spec:
  assumes ok: "queue_ok L" and none: "part (get_queue L) fd = None"
    and uc: "uc_ok (uc\<lparr>uc_pack := (uc_pack uc)\<lparr>np_id := fd\<rparr>\<rparr>)"
  shows "queue_ok (Some (save_uncomplete L fd uc))"
    "pending (Some (save_uncomplete L fd uc)) = (pending L)(fd := uc_bytes uc)"
    "waiting (Some (save_uncomplete L fd uc)) = waiting L"
proof -
  let ?uc = "uc\<lparr>uc_pack := (uc_pack uc)\<lparr>np_id := fd\<rparr>\<rparr>"
  have n: "part (get_queue L) (np_id (uc_pack ?uc)) = None" using none by simp
  have h: "hash_wf (get_queue L)" using ok by (simp add: queue_ok_def)
  note l = link_uncomplete_part [OF h uc n]
  show "queue_ok (Some (save_uncomplete L fd uc))"
    using l ok by (simp add: queue_ok_def save_uncomplete_def)
  show "waiting (Some (save_uncomplete L fd uc)) = waiting L"
    using l by (simp add: waiting_def save_uncomplete_def)
  have b: "uc_bytes ?uc = uc_bytes uc" by (simp add: uc_bytes_def)
  have "part (save_uncomplete L fd uc) = (part (get_queue L))(fd \<mapsto> ?uc)"
    using l(2) by (simp add: save_uncomplete_def)
  then show "pending (Some (save_uncomplete L fd uc)) = (pending L)(fd := uc_bytes uc)"
    using b by (simp add: pending_def fun_eq_iff)
qed

lemma half_header_spec:
  assumes "length buf = 1"
  shows "uc_ok ((half_header buf)\<lparr>uc_pack := (uc_pack (half_header buf))\<lparr>np_id := fd\<rparr>\<rparr>)"
    "uc_bytes (half_header buf) = buf"
  using assms uint_lt2p [of "buf ! 0"]
  by (auto simp: half_header_def zero_uc_def uc_ok_def uc_bytes_def length_Suc_conv)

lemma partial_pack_spec:
  assumes "int (length buf) < sz" "sz < 2 ^ 16"
  shows "\<exists>uc. partial_pack buf sz = Some uc \<and> uc_ok (uc\<lparr>uc_pack := (uc_pack uc)\<lparr>np_id := fd\<rparr>\<rparr>) \<and>
    uc_bytes uc = write_size sz @ buf"
  using assms
  by (simp add: partial_pack_def memcpy_prefix uc_ok_def uc_bytes_def no_pack_def zero_uc_def)

lemma push_data_spec:
  assumes ok: "queue_ok L" and b: "int (length p) = sz" "clone \<Longrightarrow> take (nat sz) buf = p" "\<not> clone \<Longrightarrow> buf = p"
  shows "\<exists>q'. push_data L fd buf sz clone = Some q' \<and> queue_ok (Some q') \<and> part q' = part (get_queue L) \<and>
    waiting (Some q') = waiting L @ [pk fd p]"
proof -
  have c: "(if clone then memcpy (malloc sz) 0 (take (nat sz) buf) else Some buf) = Some p"
    using b by (auto simp: memcpy_malloc)
  obtain q' where q': "push_pack (get_queue L) (pk fd p) = Some q'" "ring_wf q'"
      "packs q' = packs (get_queue L) @ [pk fd p]" "nq_hash q' = nq_hash (get_queue L)"
    using push_pack_packs [of "get_queue L" "pk fd p"] ok by (auto simp: queue_ok_def)
  have "\<lparr>np_id = fd, np_size = sz, np_buffer = p\<rparr> = pk fd p" using b(1) by (simp add: pk_def)
  then have "push_data L fd buf sz clone = Some q'" unfolding push_data_def c using q'(1) by simp
  moreover have "hash_wf q'" using q'(4) ok by (simp add: hash_wf_def queue_ok_def)
  ultimately show ?thesis using q' by (auto simp: queue_ok_def waiting_def part_def fun_eq_iff)
qed

lemma push_data_clone:
  assumes "queue_ok L" "int (length (take (nat sz) buf)) = sz"
  shows "\<exists>q'. push_data L fd buf sz True = Some q' \<and> queue_ok (Some q') \<and> part q' = part (get_queue L) \<and>
    waiting (Some q') = waiting L @ [pk fd (take (nat sz) buf)]"
  by (rule push_data_spec) (use assms in auto)

lemma push_data_keep:
  assumes "queue_ok L" "int (length buf) = sz"
  shows "\<exists>q'. push_data L fd buf sz False = Some q' \<and> queue_ok (Some q') \<and> part q' = part (get_queue L) \<and>
    waiting (Some q') = waiting L @ [pk fd buf]"
  by (rule push_data_spec) (use assms in auto)

section \<open>Splitting follows the framing\<close>

lemma frames_none:
  assumes "2 \<le> length buf" "int (length (drop 2 buf)) < read_size buf"
  shows "frames 2 pk_len buf = ([], buf)"
  using assms by (intro frames_wait) (auto simp: pk_len_def read_size_def)

lemma frames_one:
  assumes "2 \<le> length buf" "read_size buf \<le> int (length (drop 2 buf))"
  shows "frames 2 pk_len buf =
    (take (nat (read_size buf)) (drop 2 buf) # fst (frames 2 pk_len (drop (nat (read_size buf)) (drop 2 buf))),
     snd (frames 2 pk_len (drop (nat (read_size buf)) (drop 2 buf))))"
proof -
  have "read_size (take 2 buf) = read_size buf" by (simp add: read_size_def)
  then show ?thesis using assms
    by (subst frames.simps) (auto simp: Let_def split_beta pk_len_def add.commute)
qed

lemma push_more_spec:
  "queue_ok L \<Longrightarrow> part (get_queue L) fd = None \<Longrightarrow> buf \<noteq> [] \<Longrightarrow>
     \<exists>q'. push_more L fd buf = Some q' \<and> queue_ok (Some q') \<and>
       waiting (Some q') = waiting L @ map (pk fd) (fst (frames 2 pk_len buf)) \<and>
       pending (Some q') = (pending L)(fd := snd (frames 2 pk_len buf))"
proof (induction L fd buf rule: push_more.induct)
  case (1 L fd buf)
  consider (half) "length buf = 1" | (partial) "2 \<le> length buf" "int (length (drop 2 buf)) < read_size buf"
    | (full) "2 \<le> length buf" "read_size buf \<le> int (length (drop 2 buf))"
  proof -
    have "length buf = 1 \<or> 2 \<le> length buf"
      using "1.prems"(3) by (metis One_nat_def Suc_1 Suc_leI length_greater_0_conv less_one not_less_eq linorder_neqE_nat)
    then show ?thesis using half partial full by (meson not_less)
  qed
  then show ?case
  proof cases
    case half
    then have "push_more L fd buf = Some (save_uncomplete L fd (half_header buf))"
      by (subst push_more.simps) simp
    moreover have "frames 2 pk_len buf = ([], buf)" using half by (intro frames_short) simp
    ultimately show ?thesis
      using save_uncomplete_spec [OF "1.prems"(1,2) half_header_spec(1) [OF half]] half_header_spec(2) [OF half]
      by (simp add: fun_eq_iff)
  next
    case partial
    obtain uc where uc: "partial_pack (drop 2 buf) (read_size buf) = Some uc"
        "uc_ok (uc\<lparr>uc_pack := (uc_pack uc)\<lparr>np_id := fd\<rparr>\<rparr>)" "uc_bytes uc = write_size (read_size buf) @ drop 2 buf"
      using partial_pack_spec [OF partial(2) read_size_bounds(2)] by blast
    then have "push_more L fd buf = Some (save_uncomplete L fd uc)"
      using partial by (subst push_more.simps) (auto simp: Let_def)
    moreover have "uc_bytes uc = buf" using uc(3) header_split [OF partial(1)] by simp
    ultimately show ?thesis
      using save_uncomplete_spec [OF "1.prems"(1,2) uc(2)] frames_none [OF partial]
      by (simp add: fun_eq_iff)
  next
    case full
    let ?sz = "read_size buf" and ?b = "drop 2 buf"
    let ?rest = "drop (nat ?sz) ?b"
    have p: "int (length (take (nat ?sz) ?b)) = ?sz" using full read_size_bounds(1) [of buf] by auto
    obtain q1 where q1: "push_data L fd ?b ?sz True = Some q1" "queue_ok (Some q1)" "part q1 = part (get_queue L)"
        "waiting (Some q1) = waiting L @ [pk fd (take (nat ?sz) ?b)]"
      using push_data_clone [OF "1.prems"(1) p, of fd] by blast
    have step: "push_more L fd buf = (if length ?rest > 0 then push_more (Some q1) fd ?rest else Some q1)"
      using full q1(1) by (subst push_more.simps) (auto simp: Let_def)
    have pend: "pending (Some q1) = pending L" using q1(3) by (rule pending_Some_cong)
    show ?thesis
    proof (cases "?rest = []")
      case True
      then have "pending L fd = []" using "1.prems"(2) by (simp add: pending_def)
      then have "(pending L)(fd := []) = pending L" by (simp add: fun_eq_iff)
      then show ?thesis using step q1 pend frames_one [OF full] True by simp
    next
      case False
      have "\<exists>q'. push_more (Some q1) fd ?rest = Some q' \<and> queue_ok (Some q') \<and>
         waiting (Some q') = waiting (Some q1) @ map (pk fd) (fst (frames 2 pk_len ?rest)) \<and>
         pending (Some q') = (pending (Some q1))(fd := snd (frames 2 pk_len ?rest))"
        by (rule "1.IH") (use full False q1 "1.prems" in auto)
      then obtain q' where "push_more (Some q1) fd ?rest = Some q'" "queue_ok (Some q')"
         "waiting (Some q') = waiting (Some q1) @ map (pk fd) (fst (frames 2 pk_len ?rest))"
         "pending (Some q') = (pending (Some q1))(fd := snd (frames 2 pk_len ?rest))" by blast
      then show ?thesis using step q1 pend frames_one [OF full] False
        by (intro exI [of _ q']) (simp add: fun_eq_iff)
    qed
  qed
qed

definition result_of :: "int \<Rightarrow> bytes list \<Rightarrow> bytes \<Rightarrow> filter_result" where
  "result_of fd ps rest =
     (if ps = [] then R_none
      else if tl ps = [] \<and> rest = [] then R_data fd (List.hd ps) (int (length (List.hd ps)))
      else R_more)"

text \<open>What a call that delivers \<open>r\<close> does, when the socket's stream so far, less what was delivered,
  is \<open>bs\<close>.\<close>

definition splits_as :: "nqueue option \<Rightarrow> int \<Rightarrow> bytes \<Rightarrow> (nqueue option \<times> filter_result) option \<Rightarrow> bool" where
  "splits_as L fd bs out \<longleftrightarrow>
     (\<exists>L' r. out = Some (L', r) \<and> queue_ok L' \<and> r = result_of fd (fst (frames 2 pk_len bs)) (snd (frames 2 pk_len bs)) \<and>
        pending L' = (pending L)(fd := snd (frames 2 pk_len bs)) \<and>
        waiting L' = waiting L @ (if r = R_more then map (pk fd) (fst (frames 2 pk_len bs)) else []))"

definition uc_data :: "int \<Rightarrow> uncomplete \<Rightarrow> bool" where
  "uc_data fd uc \<longleftrightarrow> np_id (uc_pack uc) = fd \<and> 0 \<le> uc_read uc \<and> uc_read uc \<le> np_size (uc_pack uc) \<and>
     np_size (uc_pack uc) < 2 ^ 16 \<and> int (length (np_buffer (uc_pack uc))) = np_size (uc_pack uc)"

lemma link_spec:
  assumes ok: "queue_ok L" and none: "part (get_queue L) fd = None" and uc: "uc_ok uc" "np_id (uc_pack uc) = fd"
  shows "queue_ok (Some (link_uncomplete (get_queue L) uc))"
    "pending (Some (link_uncomplete (get_queue L) uc)) = (pending L)(fd := uc_bytes uc)"
    "waiting (Some (link_uncomplete (get_queue L) uc)) = waiting L"
proof -
  have e: "uc\<lparr>uc_pack := (uc_pack uc)\<lparr>np_id := fd\<rparr>\<rparr> = uc" using uc(2) by simp
  have s: "link_uncomplete (get_queue L) uc = save_uncomplete L fd uc"
    unfolding save_uncomplete_def e ..
  show "queue_ok (Some (link_uncomplete (get_queue L) uc))"
    "pending (Some (link_uncomplete (get_queue L) uc)) = (pending L)(fd := uc_bytes uc)"
    "waiting (Some (link_uncomplete (get_queue L) uc)) = waiting L"
    using save_uncomplete_spec [OF ok none, of uc] uc(1) unfolding s e by auto
qed

lemma frames_sized:
  assumes "0 \<le> sz" "sz < 2 ^ 16"
  shows "int (length d) < sz \<Longrightarrow> frames 2 pk_len (write_size sz @ d) = ([], write_size sz @ d)"
    "int (length p) = sz \<Longrightarrow> frames 2 pk_len (write_size sz @ p @ r) =
       (p # fst (frames 2 pk_len r), snd (frames 2 pk_len r))"
  using assms pk_len_write [OF assms]
  by (auto intro!: frames_wait frames_packet)

lemma fill_data_spec:
  assumes ok: "queue_ok L" and none: "part (get_queue L) fd = None" and uc: "uc_data fd uc"
  shows "splits_as L fd (uc_bytes uc @ buf) (fill_uncomplete L fd uc buf)"
proof -
  let ?sz = "np_size (uc_pack uc)" and ?b = "np_buffer (uc_pack uc)" and ?rd = "uc_read uc"
  let ?need = "?sz - ?rd"
  have u: "np_id (uc_pack uc) = fd" "0 \<le> ?rd" "?rd \<le> ?sz" "0 \<le> ?sz" "?sz < 2 ^ 16" "int (length ?b) = ?sz"
    using uc by (auto simp: uc_data_def)
  have bs: "uc_bytes uc @ buf = write_size ?sz @ take (nat ?rd) ?b @ buf" using u by (simp add: uc_bytes_def)
  have lt: "length (take (nat ?rd) ?b) = nat ?rd" using u by auto
  have pend0: "pending L fd = []" using none by (simp add: pending_def)
  show ?thesis
  proof (cases "int (length buf) < ?need")
    case True
    let ?b' = "take (nat ?rd) ?b @ buf @ drop (nat ?rd + length buf) ?b"
    have m: "memcpy ?b ?rd buf = Some ?b'" using u True by (auto simp: memcpy_def)
    let ?uc = "uc\<lparr>uc_pack := (uc_pack uc)\<lparr>np_buffer := ?b'\<rparr>, uc_read := ?rd + int (length buf)\<rparr>"
    have c: "fill_uncomplete L fd uc buf = Some (Some (link_uncomplete (get_queue L) ?uc), R_none)"
      unfolding fill_uncomplete_def using u True m by (simp add: Let_def)
    have okuc: "uc_ok ?uc" using u True lt by (auto simp: uc_ok_def)
    have nat_add: "nat (?rd + int (length buf)) = nat ?rd + length buf" using u by simp
    have ub: "uc_bytes ?uc = uc_bytes uc @ buf"
      unfolding bs using u lt by (simp add: uc_bytes_def nat_add)
    have fr: "frames 2 pk_len (uc_bytes uc @ buf) = ([], uc_bytes uc @ buf)"
      unfolding bs by (rule frames_sized) (use u lt True in auto)
    have "np_id (uc_pack ?uc) = fd" using u by simp
    note l = link_spec [OF ok none okuc this]
    show ?thesis unfolding splits_as_def c fr using l ub by (simp add: result_of_def)
  next
    case False
    let ?p = "take (nat ?rd) ?b @ take (nat ?need) buf" and ?rest = "drop (nat ?need) buf"
    have m: "memcpy ?b ?rd (take (nat ?need) buf) = Some ?p" using u False by (auto simp: memcpy_def)
    have lp: "int (length ?p) = ?sz" using u False lt by auto
    have fr: "frames 2 pk_len (uc_bytes uc @ buf) = (?p # fst (frames 2 pk_len ?rest), snd (frames 2 pk_len ?rest))"
    proof -
      have "write_size ?sz @ take (nat ?rd) ?b @ buf = write_size ?sz @ ?p @ ?rest" by simp
      then show ?thesis unfolding bs using frames_sized(2) [OF u(4,5) lp, of ?rest] by metis
    qed
    show ?thesis
    proof (cases "?rest = []")
      case True
      then have c: "fill_uncomplete L fd uc buf = Some (L, R_data fd ?p ?sz)"
        unfolding fill_uncomplete_def using u False m by (simp add: Let_def)
      show ?thesis unfolding splits_as_def c fr True
        using ok lp pend0 by (simp add: result_of_def fun_eq_iff)
    next
      case rest: False
      obtain q1 where q1: "push_data L fd ?p ?sz False = Some q1" "queue_ok (Some q1)" "part q1 = part (get_queue L)"
          "waiting (Some q1) = waiting L @ [pk fd ?p]"
        using push_data_keep [OF ok lp, of fd] by blast
      have n1: "part (get_queue (Some q1)) fd = None" using q1(3) none by simp
      obtain q2 where q2: "push_more (Some q1) fd ?rest = Some q2" "queue_ok (Some q2)"
          "waiting (Some q2) = waiting (Some q1) @ map (pk fd) (fst (frames 2 pk_len ?rest))"
          "pending (Some q2) = (pending (Some q1))(fd := snd (frames 2 pk_len ?rest))"
        using push_more_spec [OF q1(2) n1 rest] by blast
      have c: "fill_uncomplete L fd uc buf = Some (Some q2, R_more)"
        unfolding fill_uncomplete_def using u False m rest q1(1) q2(1) by (simp add: Let_def)
      have "fst (frames 2 pk_len ?rest) \<noteq> [] \<or> snd (frames 2 pk_len ?rest) \<noteq> []"
        using frames_nonempty [OF rest] .
      then show ?thesis unfolding splits_as_def c fr
        using q1 q2 pending_Some_cong [OF q1(3)] by (simp add: result_of_def)
    qed
  qed
qed

lemma fill_uncomplete_spec:
  assumes ok: "queue_ok L" and none: "part (get_queue L) fd = None" and uc: "uc_ok uc" "np_id (uc_pack uc) = fd"
    and buf: "buf \<noteq> []"
  shows "splits_as L fd (uc_bytes uc @ buf) (fill_uncomplete L fd uc buf)"
proof (cases "uc_read uc < 0")
  case False
  then have "uc_data fd uc" using uc by (auto simp: uc_ok_def uc_data_def)
  then show ?thesis by (rule fill_data_spec [OF ok none])
next
  case True
  obtain c r where b: "buf = c # r" using buf by (cases buf) auto
  have h: "uc_read uc = -1" "0 \<le> uc_header uc" "uc_header uc < 2 ^ 8" using uc True by (auto simp: uc_ok_def)
  let ?sz = "uc_header uc * 2 ^ 8 + uint c"
  let ?uc = "uc\<lparr>uc_pack := (uc_pack uc)\<lparr>np_size := ?sz, np_buffer := malloc ?sz\<rparr>, uc_read := 0\<rparr>"
  have sz: "0 \<le> ?sz" "?sz < 2 ^ 16" using h uint_lt2p [of c] by auto
  have "fill_uncomplete L fd uc buf = fill_uncomplete L fd ?uc r"
    unfolding fill_uncomplete_def using h by (simp add: b header_or Let_def)
  moreover have "uc_bytes uc @ buf = uc_bytes ?uc @ r"
    using h write_size_read [OF h(2,3), of c] by (simp add: uc_bytes_def b)
  moreover have "uc_data fd ?uc" using sz uc(2) by (simp add: uc_data_def malloc_def)
  ultimately show ?thesis using fill_data_spec [OF ok none] by metis
qed

lemma find_none: "queue_ok L \<Longrightarrow> part (get_queue L) fd = None \<Longrightarrow> find_uncomplete L fd = (L, None)"
  by (cases L) (auto simp: find_uncomplete_def part_def split: option.splits)

lemma filter_data_spec:
  assumes ok: "queue_ok L" and buf: "buf \<noteq> []"
  shows "splits_as L fd (pending L fd @ buf) (filter_data L fd buf)"
proof (cases "part (get_queue L) fd")
  case (Some uc)
  then obtain q where q: "L = Some q"
    by (cases L) (auto simp: get_queue_def new_queue_def part_def hash_fd_less)
  have h: "hash_wf q" using ok q by (simp add: queue_ok_def)
  have sp: "part q fd = Some uc" using Some q by simp
  obtain q' where q': "find_uncomplete (Some q) fd = (Some q', Some uc)" "hash_wf q'"
      "part q' = (part q)(fd := None)" "ring_wf q' = ring_wf q" "packs q' = packs q"
    using find_uncomplete_part [OF h, of fd] sp by auto
  have ok': "queue_ok (Some q')" using q' ok q by (simp add: queue_ok_def)
  have none': "part (get_queue (Some q')) fd = None" using q' by simp
  note f = fill_uncomplete_spec [OF ok' none' part_Some(2,1) [OF h sp] buf]
  have pd: "pending L fd = uc_bytes uc" using sp q by (simp add: pending_def)
  have "pending (Some q') = (pending L)(fd := [])" using q' q by (auto simp: pending_def fun_eq_iff)
  moreover have "waiting (Some q') = waiting L" using q' q by (simp add: waiting_def)
  moreover have "filter_data L fd buf = fill_uncomplete (Some q') fd uc buf"
    unfolding filter_data_def q q'(1) by simp
  ultimately show ?thesis using f unfolding splits_as_def pd by simp
next
  case None
  note find = find_none [OF ok None, of]
  have pd: "pending L fd = []" using None by (simp add: pending_def)
  consider (half) "length buf = 1" | (partial) "2 \<le> length buf" "int (length (drop 2 buf)) < read_size buf"
    | (one) "2 \<le> length buf" "read_size buf = int (length (drop 2 buf))"
    | (many) "2 \<le> length buf" "read_size buf < int (length (drop 2 buf))"
  proof -
    have "length buf = 1 \<or> 2 \<le> length buf"
      using buf by (metis One_nat_def Suc_1 Suc_leI length_greater_0_conv less_one not_less_eq linorder_neqE_nat)
    then show ?thesis using half partial one many by (meson linorder_neqE_linordered_idom)
  qed
  then show ?thesis
  proof cases
    case half
    then have c: "filter_data L fd buf = Some (Some (save_uncomplete L fd (half_header buf)), R_none)"
      unfolding filter_data_def find by simp
    have fr: "frames 2 pk_len buf = ([], buf)" using half by (intro frames_short) simp
    show ?thesis unfolding splits_as_def c pd append_Nil fr
      using save_uncomplete_spec [OF ok None half_header_spec(1) [OF half]] half_header_spec(2) [OF half]
      by (simp add: result_of_def)
  next
    case partial
    obtain uc where uc: "partial_pack (drop 2 buf) (read_size buf) = Some uc"
        "uc_ok (uc\<lparr>uc_pack := (uc_pack uc)\<lparr>np_id := fd\<rparr>\<rparr>)" "uc_bytes uc = write_size (read_size buf) @ drop 2 buf"
      using partial_pack_spec [OF partial(2) read_size_bounds(2)] by blast
    then have c: "filter_data L fd buf = Some (Some (save_uncomplete L fd uc), R_none)"
      unfolding filter_data_def find using partial by (auto simp: Let_def)
    have "uc_bytes uc = buf" using uc(3) header_split [OF partial(1)] by simp
    then show ?thesis unfolding splits_as_def c pd append_Nil frames_none [OF partial]
      using save_uncomplete_spec [OF ok None uc(2)] by (simp add: result_of_def)
  next
    case one
    then have c: "filter_data L fd buf = Some (L, R_data fd (drop 2 buf) (int (length (drop 2 buf))))"
      unfolding filter_data_def find by (auto simp: Let_def memcpy_malloc)
    have fr: "frames 2 pk_len buf = ([drop 2 buf], [])"
      using frames_one [OF one(1)] one(2) by simp
    show ?thesis unfolding splits_as_def c pd append_Nil fr
      using ok pd by (simp add: result_of_def fun_eq_iff)
  next
    case many
    let ?sz = "read_size buf" and ?b = "drop 2 buf"
    let ?rest = "drop (nat ?sz) ?b"
    have p: "int (length (take (nat ?sz) ?b)) = ?sz" using many read_size_bounds(1) [of buf] by auto
    obtain q1 where q1: "push_data L fd ?b ?sz True = Some q1" "queue_ok (Some q1)" "part q1 = part (get_queue L)"
        "waiting (Some q1) = waiting L @ [pk fd (take (nat ?sz) ?b)]"
      using push_data_clone [OF ok p, of fd] by blast
    have n1: "part (get_queue (Some q1)) fd = None" using q1(3) None by simp
    have rest: "?rest \<noteq> []" using many read_size_bounds(1) [of buf] by auto
    obtain q2 where q2: "push_more (Some q1) fd ?rest = Some q2" "queue_ok (Some q2)"
        "waiting (Some q2) = waiting (Some q1) @ map (pk fd) (fst (frames 2 pk_len ?rest))"
        "pending (Some q2) = (pending (Some q1))(fd := snd (frames 2 pk_len ?rest))"
      using push_more_spec [OF q1(2) n1 rest] by blast
    have c: "filter_data L fd buf = Some (Some q2, R_more)"
      unfolding filter_data_def find using many q1(1) q2(1) by (auto simp: Let_def)
    have ne: "fst (frames 2 pk_len ?rest) \<noteq> [] \<or> snd (frames 2 pk_len ?rest) \<noteq> []"
      using frames_nonempty [OF rest] .
    have fr: "frames 2 pk_len buf = (take (nat ?sz) ?b # fst (frames 2 pk_len ?rest), snd (frames 2 pk_len ?rest))"
      using frames_one many by simp
    show ?thesis unfolding splits_as_def c pd append_Nil fr
      using ne q1 q2 pending_Some_cong [OF q1(3)] by (simp add: result_of_def)
  qed
qed

section \<open>Delivering the streams of many sockets\<close>

text \<open>The consumer: a chunk is filtered; a single packet is taken from the result, and after \<open>more\<close>
  the queue is popped until it is empty.\<close>

partial_function (option) drain :: "nqueue option \<Rightarrow> (nqueue option \<times> netpack list) option" where
  "drain L = Option.bind (lpop L) (\<lambda>(L', r).
     case r of
       None \<Rightarrow> Some (L', [])
     | Some p \<Rightarrow> Option.bind (drain L') (\<lambda>(L'', ps). Some (L'', p # ps)))"

definition take_chunk :: "nqueue option \<Rightarrow> int \<Rightarrow> bytes \<Rightarrow> (nqueue option \<times> netpack list) option" where
  "take_chunk L fd bs = Option.bind (filter_data L fd bs) (\<lambda>(L', r).
     case r of
       R_data i b n \<Rightarrow> Some (L', [\<lparr>np_id = i, np_size = n, np_buffer = b\<rparr>])
     | R_more \<Rightarrow> drain L'
     | _ \<Rightarrow> Some (L', []))"

fun take_chunks :: "nqueue option \<Rightarrow> (int \<times> bytes) list \<Rightarrow> (nqueue option \<times> netpack list) option" where
  "take_chunks L [] = Some (L, [])"
| "take_chunks L ((fd, bs) # cs) = Option.bind (take_chunk L fd bs) (\<lambda>(L', ps).
     map_option (\<lambda>(L'', qs). (L'', ps @ qs)) (take_chunks L' cs))"

definition stream_of :: "int \<Rightarrow> (int \<times> bytes) list \<Rightarrow> bytes" where
  "stream_of fd cs = concat (map snd (filter (\<lambda>c. fst c = fd) cs))"

definition packets_of :: "int \<Rightarrow> netpack list \<Rightarrow> bytes list" where
  "packets_of fd ps = map np_buffer (filter (\<lambda>p. np_id p = fd) ps)"

lemma lpop_spec:
  assumes "queue_ok L"
  shows "waiting L = [] \<Longrightarrow> lpop L = Some (L, None)"
    "waiting L = p # ps \<Longrightarrow> \<exists>L'. lpop L = Some (L', Some p) \<and> queue_ok L' \<and> waiting L' = ps \<and> pending L' = pending L"
proof -
  have w: "waiting None = []" by (simp add: waiting_def get_queue_def packs_def new_queue_def)
  show "waiting L = [] \<Longrightarrow> lpop L = Some (L, None)"
    using assms pop_pack_packs [of "get_queue L"] by (cases L) (auto simp: lpop_def queue_ok_def waiting_def)
  assume p: "waiting L = p # ps"
  then obtain q where q: "L = Some q" using w by (cases L) auto
  obtain q' where q': "pop_pack q = Some (q', Some p)" "ring_wf q'" "packs q' = ps" "nq_hash q' = nq_hash q"
    using assms p pop_pack_packs [of q] q by (auto simp: queue_ok_def waiting_def)
  have "pending (Some q') = pending L" using q' q by (simp add: pending_def part_def fun_eq_iff)
  then show "\<exists>L'. lpop L = Some (L', Some p) \<and> queue_ok L' \<and> waiting L' = ps \<and> pending L' = pending L"
    using q q' assms by (intro exI [of _ "Some q'"]) (auto simp: lpop_def queue_ok_def waiting_def hash_wf_def)
qed

lemma drain_spec:
  "queue_ok L \<Longrightarrow> \<exists>L'. drain L = Some (L', waiting L) \<and> queue_ok L' \<and> waiting L' = [] \<and> pending L' = pending L"
proof (induction "waiting L" arbitrary: L)
  case Nil
  then show ?case using lpop_spec(1) [OF Nil(2)] by (subst drain.simps) simp
next
  case (Cons p ps)
  obtain L' where L': "lpop L = Some (L', Some p)" "queue_ok L'" "waiting L' = ps" "pending L' = pending L"
    using lpop_spec(2) [OF Cons.prems, of p ps] Cons.hyps(2) by auto
  then obtain L'' where "drain L' = Some (L'', ps)" "queue_ok L''" "waiting L'' = []" "pending L'' = pending L"
    using Cons.hyps(1) [of L'] by auto
  then show ?case using L' Cons.hyps(2) by (subst drain.simps) auto
qed

lemma take_chunk_spec:
  assumes ok: "queue_ok L" "waiting L = []" and bs: "bs \<noteq> []"
  shows "\<exists>L'. take_chunk L fd bs = Some (L', map (pk fd) (fst (frames 2 pk_len (pending L fd @ bs)))) \<and>
    queue_ok L' \<and> waiting L' = [] \<and> pending L' = (pending L)(fd := snd (frames 2 pk_len (pending L fd @ bs)))"
proof -
  let ?ps = "fst (frames 2 pk_len (pending L fd @ bs))" and ?rest = "snd (frames 2 pk_len (pending L fd @ bs))"
  obtain L' r where f: "filter_data L fd bs = Some (L', r)" "queue_ok L'" "r = result_of fd ?ps ?rest"
      "pending L' = (pending L)(fd := ?rest)" "waiting L' = (if r = R_more then map (pk fd) ?ps else [])"
    using filter_data_spec [OF ok(1) bs, of fd] ok(2) unfolding splits_as_def by auto
  show ?thesis
  proof (cases "r = R_more")
    case True
    then have "take_chunk L fd bs = drain L'" using f(1) by (simp add: take_chunk_def)
    then show ?thesis using drain_spec [OF f(2)] f True by auto
  next
    case False
    then consider "?ps = []" "r = R_none" | p where "?ps = [p]" "r = R_data fd p (int (length p))"
      using f(3) by (cases ?ps) (auto simp: result_of_def split: if_splits)
    then show ?thesis using f(1,2,4,5) False by cases (simp_all add: take_chunk_def pk_def)
  qed
qed

lemma take_chunks_spec:
  "queue_ok L \<Longrightarrow> waiting L = [] \<Longrightarrow> (\<And>fd. frames 2 pk_len (pending L fd) = ([], pending L fd)) \<Longrightarrow>
   \<forall>c\<in>set cs. snd c \<noteq> [] \<Longrightarrow>
   \<exists>L' out. take_chunks L cs = Some (L', out) \<and> queue_ok L' \<and> waiting L' = [] \<and>
     (\<forall>fd. (packets_of fd out, pending L' fd) = frames 2 pk_len (pending L fd @ stream_of fd cs))"
proof (induction cs arbitrary: L)
  case Nil
  then show ?case by (simp add: packets_of_def stream_of_def)
next
  case (Cons c cs)
  obtain fd bs where c: "c = (fd, bs)" by (cases c)
  let ?ps = "fst (frames 2 pk_len (pending L fd @ bs))" and ?rest = "snd (frames 2 pk_len (pending L fd @ bs))"
  obtain L1 where L1: "take_chunk L fd bs = Some (L1, map (pk fd) ?ps)" "queue_ok L1" "waiting L1 = []"
      "pending L1 = (pending L)(fd := ?rest)"
    using take_chunk_spec [OF Cons.prems(1,2), of bs fd] Cons.prems(4) c by auto
  have rest: "frames 2 pk_len ?rest = ([], ?rest)" by (rule frames_rest) simp
  have "frames 2 pk_len (pending L1 fd') = ([], pending L1 fd')" for fd'
    using rest Cons.prems(3) L1(4) by simp
  then obtain L2 out where o2: "take_chunks L1 cs = Some (L2, out)" "queue_ok L2" "waiting L2 = []"
      "\<And>fd. (packets_of fd out, pending L2 fd) = frames 2 pk_len (pending L1 fd @ stream_of fd cs)"
    using Cons.IH [OF L1(2,3)] Cons.prems(4) by auto
  have "(packets_of fd' (map (pk fd) ?ps @ out), pending L2 fd') =
      frames 2 pk_len (pending L fd' @ stream_of fd' (c # cs))" for fd'
  proof (cases "fd' = fd")
    case True
    have "packets_of fd (map (pk fd) ?ps) = ?ps"
      by (simp add: packets_of_def comp_def pk_def)
    then have pa: "packets_of fd (map (pk fd) ?ps @ out) = ?ps @ packets_of fd out"
      by (simp add: packets_of_def)
    show ?thesis
      using frames_append [of 2 pk_len "pending L fd @ bs" "stream_of fd cs"] o2(4) [of fd] True L1(4) pa c
      by (auto simp: stream_of_def prod_eq_iff)
  next
    case False
    have "packets_of fd' (map (pk fd) ?ps) = []"
      using False by (simp add: packets_of_def pk_def filter_empty_conv)
    then have "packets_of fd' (map (pk fd) ?ps @ out) = packets_of fd' out" by (simp add: packets_of_def)
    then show ?thesis using o2(4) [of fd'] False L1(4) c by (simp add: stream_of_def)
  qed
  then show ?case using L1(1) o2 c by simp
qed

lemma new_queue_ok: "queue_ok None" "waiting None = []" "pending None fd = []"
proof -
  show "queue_ok None"
    by (simp add: queue_ok_def get_queue_def new_queue_def ring_wf_def hash_wf_def QUEUESIZE_def)
  show "waiting None = []" by (simp add: waiting_def get_queue_def packs_def new_queue_def)
  show "pending None fd = []"
    using hash_fd_less [of fd] by (simp add: pending_def get_queue_def part_def new_queue_def)
qed

text \<open>C17: The packets that \<open>filter\<close> and \<open>pop\<close> deliver for each socket are the frames of the bytes
  that arrived on it, however the streams are cut and interleaved; the rest waits in the table.\<close>

theorem netpack_streams:
  assumes "\<forall>c\<in>set cs. snd c \<noteq> []"
  shows "\<exists>L out. take_chunks None cs = Some (L, out) \<and> waiting L = [] \<and>
    (\<forall>fd. (packets_of fd out, pending L fd) = frames 2 pk_len (stream_of fd cs))"
  using take_chunks_spec [OF new_queue_ok(1,2) _ assms] by (simp add: new_queue_ok(3)) blast

definition packed :: "bytes list \<Rightarrow> bytes" where
  "packed ms = concat (map (\<lambda>m. case lpack m of Inl _ \<Rightarrow> [] | Inr b \<Rightarrow> b) ms)"

text \<open>C21: Messages packed by \<open>pack\<close>, sent in any chunks interleaved with other sockets, are
  delivered unchanged and in order, and nothing is left over.\<close>

theorem netpack_roundtrip:
  assumes "\<forall>c\<in>set cs. snd c \<noteq> []" "stream_of fd cs = packed ms" "\<forall>m\<in>set ms. length m < 0x10000"
  shows "\<exists>L out. take_chunks None cs = Some (L, out) \<and> packets_of fd out = ms \<and> pending L fd = []"
proof -
  have "map (\<lambda>m. case lpack m of Inl _ \<Rightarrow> [] | Inr b \<Rightarrow> b) ms = map (\<lambda>m. write_size (int (length m)) @ m) ms"
    using assms(3) by (auto simp: lpack_def)
  then have "frames 2 pk_len (packed ms) = (ms, [])"
    unfolding packed_def using assms(3)
    by (simp only:) (intro frames_encoded, auto simp: pk_len_write)
  then show ?thesis
    using take_chunks_spec [OF new_queue_ok(1,2) _ assms(1)] assms(2) by (simp add: new_queue_ok(3)) (metis Pair_inject)
qed


definition demo_chunks :: "(int \<times> bytes) list" where
  "demo_chunks = [(7, [0, 2, 65]), (9, [0]), (7, [66, 0]), (9, [1, 90, 0, 0]), (7, [0])]"

lemma demo_chunks_nonempty: "\<forall>c\<in>set demo_chunks. snd c \<noteq> []"
  by (simp add: demo_chunks_def)

theorem netpack_streams_witness:
  "\<exists>L out. take_chunks None demo_chunks = Some (L, out) \<and> waiting L = [] \<and>
     packets_of 7 out = [[65, 66], []] \<and> packets_of 9 out = [[90], []] \<and> pending L 7 = []"
proof -
  have s: "stream_of 7 demo_chunks = [0, 2, 65, 66, 0, 0]" "stream_of 9 demo_chunks = [0, 1, 90, 0, 0]"
    by (simp_all add: stream_of_def demo_chunks_def)
  have f: "frames 2 pk_len [0, 2, 65, 66, 0, 0] = ([[65, 66], []], [])"
    "frames 2 pk_len [0, 1, 90, 0, 0] = ([[90], []], [])"
    by code_simp+
  show ?thesis using netpack_streams [OF demo_chunks_nonempty] s f by (metis Pair_inject)
qed

theorem netpack_roundtrip_witness:
  "\<exists>L out. take_chunks None demo_chunks = Some (L, out) \<and> packets_of 7 out = [[65, 66], []] \<and> pending L 7 = []"
proof (rule netpack_roundtrip [OF demo_chunks_nonempty])
  show "stream_of 7 demo_chunks = packed [[65, 66], []]"
    by (simp add: stream_of_def demo_chunks_def packed_def lpack_def write_size_def)
qed simp

text \<open>The ring of complete packets, with its expansion, is a FIFO queue: any sequence of pushes
  and pops gives what a list gives, and no push fails.\<close>

theorem netpack_fifo:
  "\<exists>q rs. queue_run push_pack pop_pack new_queue ops = Some (q, rs) \<and> list_run [] ops = (packs q, rs)"
proof -
  have "ring_wf new_queue" "packs new_queue = []"
    using new_queue_ok by (simp_all add: queue_ok_def get_queue_def waiting_def)
  then show ?thesis using npf.run_correct [of new_queue ops "enqs ops"] by auto
qed

text \<open>Closing a socket drops the bytes that wait for it, and nothing of another socket nor any
  complete packet.\<close>

theorem netpack_close:
  assumes "queue_ok L"
  shows "queue_ok (close_uncomplete L fd) \<and> pending (close_uncomplete L fd) = (pending L)(fd := []) \<and>
    waiting (close_uncomplete L fd) = waiting L"
proof (cases L)
  case None
  then show ?thesis
    by (simp add: close_uncomplete_def find_uncomplete_def new_queue_ok fun_eq_iff)
next
  case (Some q)
  obtain q' where q': "find_uncomplete (Some q) fd = (Some q', part q fd)" "hash_wf q'"
      "part q' = (part q)(fd := None)" "ring_wf q' = ring_wf q" "packs q' = packs q"
    using find_uncomplete_part [of q fd] assms Some by (auto simp: queue_ok_def)
  then have "pending (Some q') = (pending (Some q))(fd := [])" by (auto simp: pending_def fun_eq_iff)
  then show ?thesis using q' assms Some by (simp add: close_uncomplete_def queue_ok_def waiting_def)
qed

theorem netpack_close_witness:
  "pending (close_uncomplete (Some (save_uncomplete None 5 (half_header [1]))) 5) 5 = []"
proof -
  have "queue_ok (Some (save_uncomplete None 5 (half_header [1])))"
    using save_uncomplete_spec(1) [OF new_queue_ok(1), of 5 "half_header [1]"] half_header_spec(1) [of "[1]" 5]
    by (simp add: get_queue_def part_def new_queue_def hash_fd_less)
  from netpack_close [OF this, of 5] show ?thesis by simp
qed

text \<open>Clearing the queue frees the buffer of every incomplete and of every complete packet
  once, and leaves nothing behind.\<close>

theorem netpack_clear:
  assumes "queue_ok L"
  shows "\<exists>L'. lclear L = (L', map (np_buffer \<circ> uc_pack) (concat (nq_hash (get_queue L))) @ map np_buffer (waiting L)) \<and>
    queue_ok L' \<and> waiting L' = [] \<and> pending L' = (\<lambda>_. [])"
proof (cases L)
  case None
  then show ?thesis
    by (simp add: lclear_def new_queue_ok get_queue_def fun_eq_iff new_queue_def)
next
  case (Some q)
  let ?q' = "q\<lparr>nq_hash := replicate HASHSIZE [], nq_head := 0, nq_tail := 0\<rparr>"
  have b: "length (nq_queue q) = nq_cap q" "nq_head q < nq_cap q" "nq_tail q < nq_cap q"
    using assms Some by (auto simp: queue_ok_def ring_wf_def)
  let ?tail = "if nq_head q > nq_tail q then nq_tail q + nq_cap q else nq_tail q"
  have "map (\<lambda>i. np_buffer (nq_queue q ! (i mod nq_cap q))) [nq_head q..<?tail] = map np_buffer (packs q)"
    by (rule nth_equalityI) (auto simp: packs_def ring_list_def b add.commute)
  then have "snd (lclear L) = map (np_buffer \<circ> uc_pack) (concat (nq_hash q)) @ map np_buffer (packs q)"
    by (simp add: lclear_def Some)
  moreover have "queue_ok (Some ?q')" using b by (auto simp: queue_ok_def ring_wf_def hash_wf_def)
  moreover have "waiting (Some ?q') = []" by (simp add: waiting_def packs_def)
  moreover have "pending (Some ?q') = (\<lambda>_. [])" by (simp add: fun_eq_iff pending_def part_def hash_fd_less)
  moreover have "fst (lclear L) = Some ?q'" by (simp add: lclear_def Some)
  ultimately show ?thesis using Some by (intro exI [of _ "Some ?q'"]) (simp add: prod_eq_iff waiting_def)
qed

theorem netpack_clear_witness:
  "lclear (Some (save_uncomplete None 5 (half_header [1]))) =
     (fst (lclear (Some (save_uncomplete None 5 (half_header [1])))),
      map (np_buffer \<circ> uc_pack) (concat (nq_hash (save_uncomplete None 5 (half_header [1])))) @ [])"
proof -
  have "queue_ok (Some (save_uncomplete None 5 (half_header [1])))"
    "waiting (Some (save_uncomplete None 5 (half_header [1]))) = []"
    using save_uncomplete_spec [OF new_queue_ok(1), of 5 "half_header [1]"] half_header_spec(1) [of "[1]" 5] new_queue_ok(2)
    by (simp_all add: get_queue_def part_def new_queue_def hash_fd_less)
  with netpack_clear [OF this(1)] show ?thesis by auto
qed

end
