(* ===== verification/Seri.thy ===== *)
theory Seri
  imports Bytes
begin

text \<open>
  \<open>lualib-src/lua-seri.c\<close>: the serialiser of message arguments. A value is written as one byte
  that combines a type (3 bits) and a cookie (5 bits), followed by its data in the byte order of
  the machine (little endian here, pointers and \<open>double\<close>s of 8 bytes). The writer collects the
  stream in a chain of blocks of 128 bytes; the reader walks over one buffer.
\<close>

section \<open>Lua values, as the serialiser sees them\<close>

text \<open>
  \<open>LTab xs ps\<close> is a table without a \<open>__pairs\<close> metamethod: \<open>xs\<close> are the values at the indices
  1 to \<open>lua_rawlen\<close> and \<open>ps\<close> the pairs that \<open>lua_next\<close> returns, in its order. As the result of the
  reader, \<open>xs\<close> are the values set by \<open>lua_rawseti\<close> and \<open>ps\<close> the pairs set by \<open>lua_rawset\<close>, in order.
  \<open>LPairs ps ok\<close> is a table with a \<open>__pairs\<close> metamethod whose iteration gives \<open>ps\<close> and then ends, or
  fails if \<open>ok\<close> is false. \<open>LReal\<close> holds the 8 bytes of a \<open>double\<close> and \<open>LOther\<close> the type name of any
  other value (functions, threads, full userdata).
\<close>

datatype lval =
    LNil
  | LBool bool
  | LInt "64 word"
  | LReal u64
  | LStr bytes
  | LPtr u64
  | LTab "lval list" "(lval \<times> lval) list"
  | LPairs "(lval \<times> lval) list" bool
  | LOther string

datatype seri_error =
    Too_deep
  | Unsupport string
  | Pairs_error
  | Invalid_stream int
  | Key_error
  | Too_big
  | Null_pointer

definition TYPE_NIL :: int where "TYPE_NIL = 0"
definition TYPE_BOOLEAN :: int where "TYPE_BOOLEAN = 1"
definition TYPE_NUMBER :: int where "TYPE_NUMBER = 2"
definition TYPE_NUMBER_ZERO :: int where "TYPE_NUMBER_ZERO = 0"
definition TYPE_NUMBER_BYTE :: int where "TYPE_NUMBER_BYTE = 1"
definition TYPE_NUMBER_WORD :: int where "TYPE_NUMBER_WORD = 2"
definition TYPE_NUMBER_DWORD :: int where "TYPE_NUMBER_DWORD = 4"
definition TYPE_NUMBER_QWORD :: int where "TYPE_NUMBER_QWORD = 6"
definition TYPE_NUMBER_REAL :: int where "TYPE_NUMBER_REAL = 8"
definition TYPE_USERDATA :: int where "TYPE_USERDATA = 3"
definition TYPE_SHORT_STRING :: int where "TYPE_SHORT_STRING = 4"
definition TYPE_LONG_STRING :: int where "TYPE_LONG_STRING = 5"
definition TYPE_TABLE :: int where "TYPE_TABLE = 6"
definition MAX_COOKIE :: int where "MAX_COOKIE = 32"
definition BLOCK_SIZE :: nat where "BLOCK_SIZE = 128"
definition MAX_DEPTH :: nat where "MAX_DEPTH = 32"

lemmas type_defs = TYPE_NIL_def TYPE_BOOLEAN_def TYPE_NUMBER_def TYPE_NUMBER_ZERO_def
  TYPE_NUMBER_BYTE_def TYPE_NUMBER_WORD_def TYPE_NUMBER_DWORD_def TYPE_NUMBER_QWORD_def
  TYPE_NUMBER_REAL_def TYPE_USERDATA_def TYPE_SHORT_STRING_def TYPE_LONG_STRING_def TYPE_TABLE_def

text \<open>\<open>COMBINE_TYPE\<close>, stored in a \<open>uint8_t\<close>.\<close>

definition combine_type :: "int \<Rightarrow> int \<Rightarrow> u8" where
  "combine_type t v = word_of_int (t OR push_bit 3 v)"

section \<open>The block writer\<close>

text \<open>The chain from \<open>head\<close> on; \<open>current\<close> is its last block. The bytes of a new block are
  indeterminate in C and 0 here. \<open>wb_len\<close> is a C \<open>int\<close>: the model describes streams below 2 GB.\<close>

record write_block =
  wb_blocks :: "bytes list"
  wb_len :: int
  wb_ptr :: nat

definition blk_alloc :: bytes where
  "blk_alloc = replicate BLOCK_SIZE 0"

definition wb_init :: "bytes \<Rightarrow> write_block" where
  "wb_init b = \<lparr>wb_blocks = [b], wb_len = 0, wb_ptr = 0\<rparr>"

definition wb_grow :: "write_block \<Rightarrow> write_block" where
  "wb_grow b = b\<lparr>wb_blocks := wb_blocks b @ [blk_alloc], wb_ptr := 0\<rparr>"

text \<open>\<open>memcpy(b->current->buffer + b->ptr, buffer, sz)\<close>\<close>

definition wb_store :: "write_block \<Rightarrow> bytes \<Rightarrow> write_block option" where
  "wb_store b buf =
     (if wb_blocks b = [] then None
      else map_option (\<lambda>blk. b\<lparr>wb_blocks := butlast (wb_blocks b) @ [blk]\<rparr>)
             (blit (last (wb_blocks b)) (int (wb_ptr b)) buf))"

text \<open>The part of \<open>wb_push\<close> after the first test; \<open>goto _again\<close> is the recursive call.\<close>

function wb_fill :: "write_block \<Rightarrow> bytes \<Rightarrow> write_block option" where
  "wb_fill b buf =
     (if int (wb_ptr b) \<le> int BLOCK_SIZE - int (length buf) then
        map_option (\<lambda>b'. b'\<lparr>wb_ptr := wb_ptr b + length buf, wb_len := wb_len b + int (length buf)\<rparr>)
          (wb_store b buf)
      else if wb_ptr b > BLOCK_SIZE then None
      else
        let copy = BLOCK_SIZE - wb_ptr b in
        Option.bind (wb_store b (take copy buf)) (\<lambda>b'.
          wb_fill (wb_grow (b'\<lparr>wb_len := wb_len b + int copy\<rparr>)) (drop copy buf)))"
  by pat_completeness auto
termination
  by (relation "measure (\<lambda>(b, buf). 2 * length buf + wb_ptr b)")
    (auto simp: wb_grow_def BLOCK_SIZE_def)

declare wb_fill.simps [simp del]

definition wb_push :: "write_block \<Rightarrow> bytes \<Rightarrow> write_block option" where
  "wb_push b buf = (if wb_ptr b = BLOCK_SIZE then wb_fill (wb_grow b) buf else wb_fill b buf)"

text \<open>All blocks but the first, which is on the stack, are freed.\<close>

definition wb_free :: "write_block \<Rightarrow> write_block" where
  "wb_free b = \<lparr>wb_blocks = [], wb_len = 0, wb_ptr = 0\<rparr>"

section \<open>Writing values\<close>

definition wb_byte :: "write_block \<Rightarrow> int \<Rightarrow> int \<Rightarrow> write_block option" where
  "wb_byte b t v = wb_push b [combine_type t v]"

definition wb_nil :: "write_block \<Rightarrow> write_block option" where
  "wb_nil b = wb_push b [word_of_int TYPE_NIL]"

definition wb_boolean :: "write_block \<Rightarrow> bool \<Rightarrow> write_block option" where
  "wb_boolean b v = wb_byte b TYPE_BOOLEAN (if v then 1 else 0)"

definition wb_integer :: "write_block \<Rightarrow> int \<Rightarrow> write_block option" where
  "wb_integer b v =
     (if v = 0 then wb_byte b TYPE_NUMBER TYPE_NUMBER_ZERO
      else if v \<noteq> to_i32 v then
        Option.bind (wb_byte b TYPE_NUMBER TYPE_NUMBER_QWORD) (\<lambda>b. wb_push b (le_bytes 8 v))
      else if v < 0 then
        Option.bind (wb_byte b TYPE_NUMBER TYPE_NUMBER_DWORD) (\<lambda>b. wb_push b (le_bytes 4 v))
      else if v < 0x100 then
        Option.bind (wb_byte b TYPE_NUMBER TYPE_NUMBER_BYTE) (\<lambda>b. wb_push b (le_bytes 1 v))
      else if v < 0x10000 then
        Option.bind (wb_byte b TYPE_NUMBER TYPE_NUMBER_WORD) (\<lambda>b. wb_push b (le_bytes 2 v))
      else
        Option.bind (wb_byte b TYPE_NUMBER TYPE_NUMBER_DWORD) (\<lambda>b. wb_push b (le_bytes 4 v)))"

definition wb_real :: "write_block \<Rightarrow> u64 \<Rightarrow> write_block option" where
  "wb_real b v =
     Option.bind (wb_byte b TYPE_NUMBER TYPE_NUMBER_REAL) (\<lambda>b. wb_push b (le_bytes 8 (uint v)))"

definition wb_pointer :: "write_block \<Rightarrow> u64 \<Rightarrow> write_block option" where
  "wb_pointer b v =
     Option.bind (wb_push b [word_of_int TYPE_USERDATA]) (\<lambda>b. wb_push b (le_bytes 8 (uint v)))"

text \<open>The length is the C \<open>int\<close> that the caller converts from \<open>size_t\<close>.\<close>

definition wb_string :: "write_block \<Rightarrow> bytes \<Rightarrow> int \<Rightarrow> write_block option" where
  "wb_string b str len =
     (if len < MAX_COOKIE then
        Option.bind (wb_byte b TYPE_SHORT_STRING len) (\<lambda>b.
          if len > 0 then wb_push b (take (nat len) str) else Some b)
      else
        Option.bind
          (if len < 0x10000 then
             Option.bind (wb_byte b TYPE_LONG_STRING 2) (\<lambda>b. wb_push b (le_bytes 2 len))
           else
             Option.bind (wb_byte b TYPE_LONG_STRING 4) (\<lambda>b. wb_push b (le_bytes 4 len)))
          (\<lambda>b. wb_push b (take (nat len) str)))"

text \<open>The header of a table with \<open>n\<close> array elements (\<open>wb_table_array\<close>).\<close>

definition wb_array_size :: "write_block \<Rightarrow> int \<Rightarrow> write_block option" where
  "wb_array_size b n =
     (if n \<ge> MAX_COOKIE - 1 then
        Option.bind (wb_byte b TYPE_TABLE (MAX_COOKIE - 1)) (\<lambda>b. wb_integer b n)
      else wb_byte b TYPE_TABLE n)"

text \<open>The keys that \<open>wb_table_hash\<close> skips, because the array part has them.\<close>

definition in_array :: "int \<Rightarrow> lval \<Rightarrow> bool" where
  "in_array n k = (case k of LInt x \<Rightarrow> 0 < sint x \<and> sint x \<le> n | _ \<Rightarrow> False)"

definition wok :: "write_block option \<Rightarrow> (seri_error \<times> write_block, write_block) run" where
  "wok m = map_option Inr m"

definition werr :: "write_block \<Rightarrow> seri_error \<Rightarrow> (seri_error \<times> write_block, write_block) run" where
  "werr b e = err (e, wb_free b)"

text \<open>Before an error is raised, \<open>wb_free\<close> is called: the error comes with the writer it leaves.
  \<open>pack_array\<close>, \<open>pack_hash\<close> and \<open>pack_metapairs\<close> are the loops of \<open>wb_table_array\<close>,
  \<open>wb_table_hash\<close> and \<open>wb_table_metapairs\<close>.\<close>

function (sequential) pack_one :: "nat \<Rightarrow> lval \<Rightarrow> write_block \<Rightarrow> (seri_error \<times> write_block, write_block) run"
  and pack_array :: "nat \<Rightarrow> lval list \<Rightarrow> write_block \<Rightarrow> (seri_error \<times> write_block, write_block) run"
  and pack_hash :: "nat \<Rightarrow> int \<Rightarrow> (lval \<times> lval) list \<Rightarrow> write_block \<Rightarrow> (seri_error \<times> write_block, write_block) run"
  and pack_metapairs :: "nat \<Rightarrow> (lval \<times> lval) list \<Rightarrow> bool \<Rightarrow> write_block \<Rightarrow> (seri_error \<times> write_block, write_block) run"
where
  "pack_one d v b =
     (if d > MAX_DEPTH then werr b Too_deep
      else
        (case v of
           LNil \<Rightarrow> wok (wb_nil b)
         | LInt x \<Rightarrow> wok (wb_integer b (sint x))
         | LReal x \<Rightarrow> wok (wb_real b x)
         | LBool x \<Rightarrow> wok (wb_boolean b x)
         | LStr s \<Rightarrow> wok (wb_string b s (to_i32 (int (length s))))
         | LPtr p \<Rightarrow> wok (wb_pointer b p)
         | LTab xs ps \<Rightarrow>
             run_bind (wok (wb_array_size b (to_i32 (int (length xs))))) (\<lambda>b.
             run_bind (pack_array (Suc d) xs b) (\<lambda>b.
             run_bind (pack_hash (Suc d) (to_i32 (int (length xs))) ps b) (\<lambda>b.
             wok (wb_nil b))))
         | LPairs ps ok \<Rightarrow>
             run_bind (wok (wb_byte b TYPE_TABLE 0)) (\<lambda>b.
             run_bind (pack_metapairs (Suc d) ps ok b) (\<lambda>b.
             wok (wb_nil b)))
         | LOther t \<Rightarrow> werr b (Unsupport t)))"
| "pack_array d [] b = ret b"
| "pack_array d (x # xs) b = run_bind (pack_one d x b) (\<lambda>b. pack_array d xs b)"
| "pack_hash d n [] b = ret b"
| "pack_hash d n (kv # ps) b =
     (if in_array n (fst kv) then pack_hash d n ps b
      else
        run_bind (pack_one d (fst kv) b) (\<lambda>b.
        run_bind (pack_one d (snd kv) b) (\<lambda>b. pack_hash d n ps b)))"
| "pack_metapairs d [] ok b = (if ok then ret b else werr b Pairs_error)"
| "pack_metapairs d (kv # ps) ok b =
     run_bind (pack_one d (fst kv) b) (\<lambda>b.
     run_bind (pack_one d (snd kv) b) (\<lambda>b. pack_metapairs d ps ok b))"
  by pat_completeness auto
termination
  by (relation "measure (\<lambda>x. case x of
      Inl (Inl (d, v, b)) \<Rightarrow> size v
    | Inl (Inr (d, xs, b)) \<Rightarrow> size_list size xs
    | Inr (Inl (d, n, ps, b)) \<Rightarrow> size_list (size_prod size size) ps
    | Inr (Inr (d, ps, ok, b)) \<Rightarrow> size_list (size_prod size size) ps)") auto

declare pack_one.simps [simp del]

text \<open>The arguments are packed in order at depth 0.\<close>

definition pack_from :: "lval list \<Rightarrow> write_block \<Rightarrow> (seri_error \<times> write_block, write_block) run" where
  "pack_from vs b = pack_array 0 vs b"

fun seri :: "bytes list \<Rightarrow> int \<Rightarrow> bytes option" where
  "seri [] len = (if len > 0 then None else Some [])"
| "seri (b # bs) len =
     (if len > 0 then
        if len \<ge> int BLOCK_SIZE then map_option (\<lambda>r. take BLOCK_SIZE b @ r) (seri bs (len - int BLOCK_SIZE))
        else Some (take (nat len) b)
      else Some [])"

text \<open>The result is the new buffer and its size.\<close>

definition luaseri_pack :: "lval list \<Rightarrow> (seri_error, bytes \<times> int) run" where
  "luaseri_pack vs =
     (case pack_from vs (wb_init blk_alloc) of
        None \<Rightarrow> None
      | Some (Inl (e, _)) \<Rightarrow> err e
      | Some (Inr wb) \<Rightarrow>
          (case seri (wb_blocks wb) (wb_len wb) of
             None \<Rightarrow> None
           | Some buf \<Rightarrow> ret (buf, wb_len wb)))"

section \<open>Reading values\<close>

record read_block =
  rb_buffer :: bytes
  rb_len :: int
  rb_ptr :: int

definition rball_init :: "bytes \<Rightarrow> int \<Rightarrow> read_block" where
  "rball_init buf sz = \<lparr>rb_buffer = buf, rb_len = sz, rb_ptr = 0\<rparr>"

text \<open>The result is the pointer, as the bytes it points to; \<open>None\<close> is \<open>NULL\<close>.\<close>

definition rb_read :: "read_block \<Rightarrow> int \<Rightarrow> bytes option \<times> read_block" where
  "rb_read rb sz =
     (if rb_len rb < sz then (None, rb)
      else (Some (drop (nat (rb_ptr rb)) (rb_buffer rb)), rb\<lparr>rb_ptr := rb_ptr rb + sz, rb_len := rb_len rb - sz\<rparr>))"

type_synonym 'a rresult = "(seri_error, 'a \<times> read_block) run"

definition invalid_stream :: "read_block \<Rightarrow> (seri_error, 'a) run" where
  "invalid_stream rb = err (Invalid_stream (rb_len rb))"

text \<open>Reading an object of \<open>n\<close> bytes: \<open>rb_read\<close>, the test for \<open>NULL\<close> and \<open>memcpy\<close>.\<close>

definition read_bytes :: "read_block \<Rightarrow> nat \<Rightarrow> bytes rresult" where
  "read_bytes rb n =
     (case rb_read rb (int n) of
        (None, rb') \<Rightarrow> invalid_stream rb'
      | (Some p, rb') \<Rightarrow> if n \<le> length p then ret (take n p, rb') else None)"

definition get_integer :: "read_block \<Rightarrow> int \<Rightarrow> int rresult" where
  "get_integer rb cookie =
     (if cookie = TYPE_NUMBER_ZERO then ret (0, rb)
      else if cookie = TYPE_NUMBER_BYTE then
        run_bind (read_bytes rb 1) (\<lambda>(p, rb). ret (le_val p, rb))
      else if cookie = TYPE_NUMBER_WORD then
        run_bind (read_bytes rb 2) (\<lambda>(p, rb). ret (le_val p, rb))
      else if cookie = TYPE_NUMBER_DWORD then
        run_bind (read_bytes rb 4) (\<lambda>(p, rb). ret (signed_val 4 (le_val p), rb))
      else if cookie = TYPE_NUMBER_QWORD then
        run_bind (read_bytes rb 8) (\<lambda>(p, rb). ret (signed_val 8 (le_val p), rb))
      else invalid_stream rb)"

definition get_real :: "read_block \<Rightarrow> u64 rresult" where
  "get_real rb = run_bind (read_bytes rb 8) (\<lambda>(p, rb). ret (word_of_int (le_val p), rb))"

definition get_pointer :: "read_block \<Rightarrow> u64 rresult" where
  "get_pointer rb = run_bind (read_bytes rb 8) (\<lambda>(p, rb). ret (word_of_int (le_val p), rb))"

text \<open>A negative length passes \<open>rb_read\<close>; \<open>lua_pushlstring\<close> takes it as a huge \<open>size_t\<close> and fails.\<close>

definition get_buffer :: "read_block \<Rightarrow> int \<Rightarrow> bytes rresult" where
  "get_buffer rb len =
     (case rb_read rb len of
        (None, rb') \<Rightarrow> invalid_stream rb'
      | (Some p, rb') \<Rightarrow>
          if len < 0 then err Too_big
          else if nat len \<le> length p then ret (take (nat len) p, rb') else None)"

text \<open>\<open>lua_rawset\<close> refuses a NaN as a key (a nil key ends the table before).\<close>

definition nan_bits :: "u64 \<Rightarrow> bool" where
  "nan_bits x \<longleftrightarrow> uint x div 2 ^ 52 mod 2 ^ 11 = 2047 \<and> uint x mod 2 ^ 52 \<noteq> 0"

definition key_nan :: "lval \<Rightarrow> bool" where
  "key_nan k = (case k of LReal x \<Rightarrow> nan_bits x | _ \<Rightarrow> False)"

text \<open>The header of a table: the cookie, or an integer that follows.\<close>

definition read_array_size :: "read_block \<Rightarrow> int \<Rightarrow> int rresult" where
  "read_array_size rb array_size =
     (if array_size = MAX_COOKIE - 1 then
        run_bind (read_bytes rb 1) (\<lambda>(p, rb).
          let t = p ! 0; cookie = uint (drop_bit 3 t) in
          if uint (t AND 7) \<noteq> TYPE_NUMBER \<or> cookie = TYPE_NUMBER_REAL then invalid_stream rb
          else run_bind (get_integer rb cookie) (\<lambda>(n, rb). ret (to_i32 n, rb)))
      else ret (array_size, rb))"

text \<open>Strings and the other values without parts (\<open>push_value\<close> without \<open>TYPE_TABLE\<close>).\<close>

definition push_scalar :: "read_block \<Rightarrow> int \<Rightarrow> int \<Rightarrow> lval rresult" where
  "push_scalar rb type cookie =
     (if type = TYPE_NIL then ret (LNil, rb)
      else if type = TYPE_BOOLEAN then ret (LBool (cookie \<noteq> 0), rb)
      else if type = TYPE_NUMBER then
        (if cookie = TYPE_NUMBER_REAL then run_bind (get_real rb) (\<lambda>(x, rb). ret (LReal x, rb))
         else run_bind (get_integer rb cookie) (\<lambda>(x, rb). ret (LInt (word_of_int x), rb)))
      else if type = TYPE_USERDATA then run_bind (get_pointer rb) (\<lambda>(x, rb). ret (LPtr x, rb))
      else if type = TYPE_SHORT_STRING then run_bind (get_buffer rb cookie) (\<lambda>(s, rb). ret (LStr s, rb))
      else if type = TYPE_LONG_STRING then
        (if cookie = 2 then
           run_bind (read_bytes rb 2) (\<lambda>(p, rb).
           run_bind (get_buffer rb (le_val p)) (\<lambda>(s, rb). ret (LStr s, rb)))
         else if cookie \<noteq> 4 then invalid_stream rb
         else
           run_bind (read_bytes rb 4) (\<lambda>(p, rb).
           run_bind (get_buffer rb (to_i32 (le_val p))) (\<lambda>(s, rb). ret (LStr s, rb))))
      else invalid_stream rb)"

text \<open>The first argument is fuel: three times the bytes that are left, and 3 more, is enough
  (\<open>unpack_defined\<close>). \<open>unpack_array\<close> and \<open>unpack_hash\<close> are the two loops of \<open>unpack_table\<close>.\<close>

fun push_value :: "nat \<Rightarrow> read_block \<Rightarrow> int \<Rightarrow> int \<Rightarrow> lval rresult"
  and unpack_one :: "nat \<Rightarrow> read_block \<Rightarrow> lval rresult"
  and unpack_array :: "nat \<Rightarrow> nat \<Rightarrow> read_block \<Rightarrow> lval list rresult"
  and unpack_hash :: "nat \<Rightarrow> read_block \<Rightarrow> (lval \<times> lval) list rresult"
where
  "push_value 0 rb type cookie = None"
| "push_value (Suc k) rb type cookie =
     (if type = TYPE_TABLE then
        run_bind (read_array_size rb cookie) (\<lambda>(n, rb).
        run_bind (unpack_array k (nat n) rb) (\<lambda>(xs, rb).
        run_bind (unpack_hash k rb) (\<lambda>(ps, rb). ret (LTab xs ps, rb))))
      else push_scalar rb type cookie)"
| "unpack_one 0 rb = None"
| "unpack_one (Suc k) rb =
     run_bind (read_bytes rb 1) (\<lambda>(p, rb).
       push_value k rb (uint (p ! 0 AND 7)) (uint (drop_bit 3 (p ! 0))))"
| "unpack_array 0 n rb = None"
| "unpack_array (Suc k) n rb =
     (if n = 0 then ret ([], rb)
      else
        run_bind (unpack_one k rb) (\<lambda>(x, rb).
        run_bind (unpack_array k (n - 1) rb) (\<lambda>(xs, rb). ret (x # xs, rb))))"
| "unpack_hash 0 rb = None"
| "unpack_hash (Suc k) rb =
     run_bind (unpack_one k rb) (\<lambda>(key, rb).
       if key = LNil then ret ([], rb)
       else
         run_bind (unpack_one k rb) (\<lambda>(v, rb).
         if key_nan key then err Key_error
         else run_bind (unpack_hash k rb) (\<lambda>(ps, rb). ret ((key, v) # ps, rb))))"

declare push_value.simps(2) [simp del] unpack_one.simps(2) [simp del]
  unpack_array.simps(2) [simp del] unpack_hash.simps(2) [simp del]

text \<open>The loop of \<open>luaseri_unpack\<close>.\<close>

fun unpack_all :: "nat \<Rightarrow> read_block \<Rightarrow> (seri_error, lval list) run" where
  "unpack_all 0 rb = None"
| "unpack_all (Suc k) rb =
     (case rb_read rb 1 of
        (None, rb') \<Rightarrow> ret []
      | (Some p, rb') \<Rightarrow>
          if p = [] then None
          else
            run_bind (push_value (3 * length (rb_buffer rb) + 3) rb' (uint (p ! 0 AND 7)) (uint (drop_bit 3 (p ! 0)))) (\<lambda>(v, rb).
            run_bind (unpack_all k rb) (\<lambda>vs. ret (v # vs))))"

text \<open>The arguments of \<open>luaseri_unpack\<close>: nothing, a string, or a pointer and a size.\<close>

datatype unpack_arg = U_none | U_string bytes | U_block "bytes option" int

definition unpack_buffer :: "bytes \<Rightarrow> int \<Rightarrow> (seri_error, lval list) run" where
  "unpack_buffer buf len =
     (if len > int (length buf) then None else unpack_all (length buf + 1) (rball_init buf len))"

definition luaseri_unpack :: "unpack_arg \<Rightarrow> (seri_error, lval list) run" where
  "luaseri_unpack arg =
     (case arg of
        U_none \<Rightarrow> ret []
      | U_string s \<Rightarrow>
          (let len = to_i32 (int (length s)) in if len = 0 then ret [] else unpack_buffer s len)
      | U_block b len \<Rightarrow>
          (let len = to_i32 len in
           if len = 0 then ret []
           else (case b of None \<Rightarrow> err Null_pointer | Some buf \<Rightarrow> unpack_buffer buf len)))"

section \<open>What the writer does\<close>

definition wb_ok :: "write_block \<Rightarrow> bool" where
  "wb_ok b \<longleftrightarrow> wb_blocks b \<noteq> [] \<and> (\<forall>x\<in>set (wb_blocks b). length x = BLOCK_SIZE) \<and> wb_ptr b \<le> BLOCK_SIZE \<and>
     wb_len b + int BLOCK_SIZE = int (BLOCK_SIZE * length (wb_blocks b) + wb_ptr b)"

definition wb_bytes :: "write_block \<Rightarrow> bytes" where
  "wb_bytes b = concat (butlast (wb_blocks b)) @ take (wb_ptr b) (last (wb_blocks b))"

definition writes :: "write_block option \<Rightarrow> write_block \<Rightarrow> bytes \<Rightarrow> bool" where
  "writes m b bs \<longleftrightarrow> (\<exists>b'. m = Some b' \<and> wb_ok b' \<and> wb_bytes b' = wb_bytes b @ bs)"

lemma wb_grow_spec:
  assumes "wb_ok b" "wb_ptr b = BLOCK_SIZE"
  shows "wb_ok (wb_grow b)" "wb_bytes (wb_grow b) = wb_bytes b" "wb_ptr (wb_grow b) = 0"
proof -
  have ne: "wb_blocks b \<noteq> []" and l: "length (last (wb_blocks b)) = BLOCK_SIZE"
    using assms by (auto simp: wb_ok_def)
  have c: "concat (wb_blocks b) = concat (butlast (wb_blocks b)) @ last (wb_blocks b)"
    using ne by (metis append_butlast_last_id concat.simps concat_append append_Nil2)
  show "wb_ok (wb_grow b)" using assms by (auto simp: wb_ok_def wb_grow_def blk_alloc_def BLOCK_SIZE_def)
  show "wb_bytes (wb_grow b) = wb_bytes b" using assms l c by (simp add: wb_bytes_def wb_grow_def)
  show "wb_ptr (wb_grow b) = 0" by (simp add: wb_grow_def)
qed

lemma wb_store_spec:
  assumes ok: "wb_ok b" and len: "wb_ptr b + length buf \<le> BLOCK_SIZE"
  defines "b' \<equiv> b\<lparr>wb_blocks := butlast (wb_blocks b) @
      [take (wb_ptr b) (last (wb_blocks b)) @ buf @ drop (wb_ptr b + length buf) (last (wb_blocks b))]\<rparr>"
  shows "wb_store b buf = Some b'"
    "wb_ok (b'\<lparr>wb_ptr := wb_ptr b + length buf, wb_len := wb_len b + int (length buf)\<rparr>)"
    "wb_bytes (b'\<lparr>wb_ptr := wb_ptr b + length buf, wb_len := wb_len b + int (length buf)\<rparr>) = wb_bytes b @ buf"
proof -
  have l: "length (last (wb_blocks b)) = BLOCK_SIZE" "wb_blocks b \<noteq> []" "0 < length (wb_blocks b)"
    using ok by (auto simp: wb_ok_def)
  then show "wb_store b buf = Some b'" using len by (simp add: wb_store_def b'_def)
  have "\<forall>x\<in>set (butlast (wb_blocks b)). length x = BLOCK_SIZE"
    using ok by (auto simp: wb_ok_def dest: in_set_butlastD)
  then show "wb_ok (b'\<lparr>wb_ptr := wb_ptr b + length buf, wb_len := wb_len b + int (length buf)\<rparr>)"
    using ok len l by (auto simp: wb_ok_def b'_def)
  show "wb_bytes (b'\<lparr>wb_ptr := wb_ptr b + length buf, wb_len := wb_len b + int (length buf)\<rparr>) = wb_bytes b @ buf"
    using len l by (simp add: wb_bytes_def b'_def)
qed

lemma wb_fill_spec: "wb_ok b \<Longrightarrow> writes (wb_fill b buf) b buf"
proof (induction b buf rule: wb_fill.induct)
  case (1 b buf)
  show ?case
  proof (cases "wb_ptr b + length buf \<le> BLOCK_SIZE")
    case True
    then have "int (wb_ptr b) \<le> int BLOCK_SIZE - int (length buf)" by linarith
    then show ?thesis using wb_store_spec [OF 1(2) True]
      by (subst wb_fill.simps) (simp add: writes_def)
  next
    case False
    then have nle: "\<not> int (wb_ptr b) \<le> int BLOCK_SIZE - int (length buf)" by linarith
    have le: "\<not> wb_ptr b > BLOCK_SIZE" using 1(2) by (auto simp: wb_ok_def)
    let ?c = "BLOCK_SIZE - wb_ptr b"
    let ?t = "take ?c buf"
    have t: "length ?t = ?c" "wb_ptr b + length ?t = BLOCK_SIZE" using False le by auto
    define b1 where "b1 = b\<lparr>wb_blocks := butlast (wb_blocks b) @
      [take (wb_ptr b) (last (wb_blocks b)) @ ?t @ drop (wb_ptr b + length ?t) (last (wb_blocks b))]\<rparr>"
    let ?b2 = "b1\<lparr>wb_ptr := wb_ptr b + length ?t, wb_len := wb_len b + int (length ?t)\<rparr>"
    have s: "wb_store b ?t = Some b1" "wb_ok ?b2" "wb_bytes ?b2 = wb_bytes b @ ?t"
      using wb_store_spec [OF 1(2), of ?t] t unfolding b1_def by auto
    have g2: "wb_grow ?b2 = wb_grow (b1\<lparr>wb_len := wb_len b + int ?c\<rparr>)"
      using t by (simp add: wb_grow_def b1_def)
    have p2: "wb_ptr ?b2 = BLOCK_SIZE" using t by simp
    note g = wb_grow_spec [OF s(2) p2]
    have "writes (wb_fill (wb_grow (b1\<lparr>wb_len := wb_len b + int ?c\<rparr>)) (drop ?c buf))
        (wb_grow (b1\<lparr>wb_len := wb_len b + int ?c\<rparr>)) (drop ?c buf)"
      by (rule 1(1) [OF nle le refl s(1)]) (use g(1) in \<open>unfold g2\<close>)
    moreover have "wb_fill b buf = wb_fill (wb_grow (b1\<lparr>wb_len := wb_len b + int ?c\<rparr>)) (drop ?c buf)"
      using nle le s(1) by (subst wb_fill.simps) (simp add: Let_def b1_def)
    moreover have "wb_bytes (wb_grow (b1\<lparr>wb_len := wb_len b + int ?c\<rparr>)) @ drop ?c buf = wb_bytes b @ buf"
      using g(2) s(3) unfolding g2 by simp
    ultimately show ?thesis by (simp add: writes_def)
  qed
qed

lemma wb_push_writes: "wb_ok b \<Longrightarrow> writes (wb_push b buf) b buf"
proof (cases "wb_ptr b = BLOCK_SIZE")
  case True
  assume "wb_ok b"
  then show ?thesis using wb_fill_spec [OF wb_grow_spec(1)] wb_grow_spec(2) True
    by (simp add: wb_push_def writes_def)
next
  case False
  assume "wb_ok b"
  then show ?thesis using wb_fill_spec False by (simp add: wb_push_def)
qed

lemma writes_bind:
  assumes "writes m b bs" "\<And>b'. wb_ok b' \<Longrightarrow> writes (f b') b' cs"
  shows "writes (Option.bind m f) b (bs @ cs)"
proof -
  obtain b1 where b1: "m = Some b1" "wb_ok b1" "wb_bytes b1 = wb_bytes b @ bs"
    using assms(1) by (auto simp: writes_def)
  then show ?thesis using assms(2) [OF b1(2)] by (auto simp: writes_def)
qed

lemma writes_byte: "wb_ok b \<Longrightarrow> writes (wb_byte b t v) b [combine_type t v]"
  unfolding wb_byte_def by (rule wb_push_writes)

lemma writes_pair:
  "wb_ok b \<Longrightarrow> writes (Option.bind (wb_byte b t v) (\<lambda>b. wb_push b bs)) b (combine_type t v # bs)"
  using writes_bind [OF writes_byte, of b "\<lambda>b. wb_push b bs" bs t v] wb_push_writes by simp

section \<open>The stream of a value\<close>

definition int_stream :: "int \<Rightarrow> bytes" where
  "int_stream v =
     (if v = 0 then [combine_type 2 0]
      else if v \<noteq> to_i32 v then combine_type 2 6 # le_bytes 8 v
      else if v < 0 then combine_type 2 4 # le_bytes 4 v
      else if v < 2 ^ 8 then combine_type 2 1 # le_bytes 1 v
      else if v < 2 ^ 16 then combine_type 2 2 # le_bytes 2 v
      else combine_type 2 4 # le_bytes 4 v)"

definition str_stream :: "bytes \<Rightarrow> int \<Rightarrow> bytes" where
  "str_stream s n =
     (if n < 32 then combine_type 4 n # take (nat n) s
      else if n < 2 ^ 16 then combine_type 5 2 # le_bytes 2 n @ take (nat n) s
      else combine_type 5 4 # le_bytes 4 n @ take (nat n) s)"

definition size_stream :: "int \<Rightarrow> bytes" where
  "size_stream n = (if n < 31 then [combine_type 6 n] else combine_type 6 31 # int_stream n)"

function (sequential) stream :: "lval \<Rightarrow> bytes"
  and streams :: "lval list \<Rightarrow> bytes"
  and pair_streams :: "(lval \<Rightarrow> bool) \<Rightarrow> (lval \<times> lval) list \<Rightarrow> bytes"
where
  "stream LNil = [0]"
| "stream (LBool x) = [combine_type 1 (if x then 1 else 0)]"
| "stream (LInt x) = int_stream (sint x)"
| "stream (LReal x) = combine_type 2 8 # le_bytes 8 (uint x)"
| "stream (LStr s) = str_stream s (to_i32 (int (length s)))"
| "stream (LPtr x) = 3 # le_bytes 8 (uint x)"
| "stream (LTab xs ps) =
     size_stream (to_i32 (int (length xs))) @ streams xs @
     pair_streams (in_array (to_i32 (int (length xs)))) ps @ [0]"
| "stream (LPairs ps ok) = combine_type 6 0 # pair_streams (\<lambda>_. False) ps @ [0]"
| "stream (LOther t) = []"
| "streams [] = []"
| "streams (x # xs) = stream x @ streams xs"
| "pair_streams skip [] = []"
| "pair_streams skip (kv # ps) =
     (if skip (fst kv) then pair_streams skip ps
      else stream (fst kv) @ stream (snd kv) @ pair_streams skip ps)"
  by pat_completeness auto
termination
  by (relation "measure (\<lambda>x. case x of
      Inl v \<Rightarrow> size v
    | Inr (Inl xs) \<Rightarrow> size_list size xs
    | Inr (Inr (skip, ps)) \<Rightarrow> size_list (size_prod size size) ps)") auto

lemma wb_integer_writes: "wb_ok b \<Longrightarrow> writes (wb_integer b v) b (int_stream v)"
  by (simp add: wb_integer_def int_stream_def writes_byte writes_pair type_defs)

lemma wb_string_writes:
  assumes "wb_ok b"
  shows "writes (wb_string b s n) b (str_stream s n)"
proof -
  have big: "writes (Option.bind (Option.bind (wb_byte b 5 c) (\<lambda>b. wb_push b bs)) (\<lambda>b. wb_push b s')) b
      (combine_type 5 c # bs @ s')" for c bs s'
    using writes_bind [OF writes_pair [OF assms, of 5 c bs], of "\<lambda>b. wb_push b s'" s'] wb_push_writes by simp
  have small: "writes (Option.bind (wb_byte b 4 n) (\<lambda>b. if n > 0 then wb_push b (take (nat n) s) else Some b)) b
      ([combine_type 4 n] @ take (nat n) s)"
    by (rule writes_bind [OF writes_byte [OF assms]]) (auto simp: wb_push_writes, simp add: writes_def)
  show ?thesis
    unfolding wb_string_def str_stream_def type_defs MAX_COOKIE_def using big small by simp
qed

lemma wb_array_size_writes: "wb_ok b \<Longrightarrow> writes (wb_array_size b n) b (size_stream n)"
  using writes_bind [OF writes_byte, of b "\<lambda>b. wb_integer b n" "int_stream n" 6 31] wb_integer_writes
  by (simp add: wb_array_size_def size_stream_def MAX_COOKIE_def type_defs writes_byte)

lemma wb_pointer_writes: "wb_ok b \<Longrightarrow> writes (wb_pointer b v) b (3 # le_bytes 8 (uint v))"
  using writes_bind [OF wb_push_writes, of b "\<lambda>b. wb_push b (le_bytes 8 (uint v))" "le_bytes 8 (uint v)" "[3]"]
  by (simp add: wb_pointer_def type_defs wb_push_writes)

section \<open>The first error of a value\<close>

definition first_error :: "'e option \<Rightarrow> 'e option \<Rightarrow> 'e option" where
  "first_error a b = (case a of None \<Rightarrow> b | Some e \<Rightarrow> Some e)"

function (sequential) pack_error :: "nat \<Rightarrow> lval \<Rightarrow> seri_error option"
  and array_error :: "nat \<Rightarrow> lval list \<Rightarrow> seri_error option"
  and pairs_error :: "nat \<Rightarrow> (lval \<Rightarrow> bool) \<Rightarrow> (lval \<times> lval) list \<Rightarrow> seri_error option"
where
  "pack_error d (LTab xs ps) =
     (if d > MAX_DEPTH then Some Too_deep
      else first_error (array_error (Suc d) xs) (pairs_error (Suc d) (in_array (to_i32 (int (length xs)))) ps))"
| "pack_error d (LPairs ps ok) =
     (if d > MAX_DEPTH then Some Too_deep
      else first_error (pairs_error (Suc d) (\<lambda>_. False) ps) (if ok then None else Some Pairs_error))"
| "pack_error d (LOther t) = Some (if d > MAX_DEPTH then Too_deep else Unsupport t)"
| "pack_error d _ = (if d > MAX_DEPTH then Some Too_deep else None)"
| "array_error d [] = None"
| "array_error d (x # xs) = first_error (pack_error d x) (array_error d xs)"
| "pairs_error d skip [] = None"
| "pairs_error d skip (kv # ps) =
     (if skip (fst kv) then pairs_error d skip ps
      else first_error (pack_error d (fst kv)) (first_error (pack_error d (snd kv)) (pairs_error d skip ps)))"
  by pat_completeness auto
termination
  by (relation "measure (\<lambda>x. case x of
      Inl (d, v) \<Rightarrow> size v
    | Inr (Inl (d, xs)) \<Rightarrow> size_list size xs
    | Inr (Inr (d, skip, ps)) \<Rightarrow> size_list (size_prod size size) ps)") auto

definition packs :: "(seri_error \<times> write_block, write_block) run \<Rightarrow> write_block \<Rightarrow> seri_error option \<Rightarrow> bytes \<Rightarrow> bool" where
  "packs m b e bs \<longleftrightarrow>
     (case e of
        None \<Rightarrow> \<exists>b'. m = ret b' \<and> wb_ok b' \<and> wb_bytes b' = wb_bytes b @ bs
      | Some e \<Rightarrow> m = err (e, \<lparr>wb_blocks = [], wb_len = 0, wb_ptr = 0\<rparr>))"

lemma packs_wok: "packs (wok m) b None bs \<longleftrightarrow> writes m b bs"
  by (cases m) (auto simp: packs_def wok_def writes_def ret_def)

lemma packs_werr: "packs (werr b e) b (Some e) bs"
  by (simp add: packs_def werr_def wb_free_def)

lemma packs_ret: "wb_ok b \<Longrightarrow> packs (ret b) b None []"
  by (simp add: packs_def)

lemma packs_bind:
  assumes "packs m b e bs" "\<And>b'. e = None \<Longrightarrow> wb_ok b' \<Longrightarrow> packs (f b') b' e' cs"
  shows "packs (run_bind m f) b (first_error e e') (bs @ cs)"
proof (cases e)
  case None
  then obtain b1 where b1: "m = ret b1" "wb_ok b1" "wb_bytes b1 = wb_bytes b @ bs"
    using assms(1) by (auto simp: packs_def)
  then show ?thesis using assms(2) [OF None b1(2)] None
    by (auto simp: packs_def first_error_def split: option.splits)
next
  case (Some e0)
  then show ?thesis using assms(1) by (simp add: packs_def first_error_def)
qed

lemma first_error_None [simp]: "first_error a None = a" "first_error None a = a"
  by (simp_all add: first_error_def split: option.splits)

lemma pack_spec:
  "wb_ok b \<Longrightarrow> packs (pack_one d v b) b (pack_error d v) (stream v)"
  "wb_ok b \<Longrightarrow> packs (pack_array d xs b) b (array_error d xs) (streams xs)"
  "wb_ok b \<Longrightarrow> packs (pack_hash d n ps b) b (pairs_error d (in_array n) ps) (pair_streams (in_array n) ps)"
  "wb_ok b \<Longrightarrow> packs (pack_metapairs d ps ok b) b
     (first_error (pairs_error d (\<lambda>_. False) ps) (if ok then None else Some Pairs_error)) (pair_streams (\<lambda>_. False) ps)"
proof (induction d v b and d xs b and d n ps b and d ps ok b rule: pack_one_pack_array_pack_hash_pack_metapairs.induct)
  case (1 d v b)
  show ?case
  proof (cases "d > MAX_DEPTH")
    case True
    then have "pack_error d v = Some Too_deep" by (cases v) auto
    then show ?thesis using True by (subst pack_one.simps) (simp add: packs_werr)
  next
    case False
    have nil: "packs (wok (wb_nil b')) b' None [0]" if "wb_ok b'" for b'
      using that by (simp add: packs_wok wb_nil_def type_defs wb_push_writes)
    show ?thesis
    proof (cases v)
      case (LTab xs ps)
      let ?n = "to_i32 (int (length xs))"
      have "packs (run_bind (wok (wb_array_size b ?n)) (\<lambda>b.
             run_bind (pack_array (Suc d) xs b) (\<lambda>b.
             run_bind (pack_hash (Suc d) ?n ps b) (\<lambda>b. wok (wb_nil b))))) b
           (first_error None (first_error (array_error (Suc d) xs)
             (first_error (pairs_error (Suc d) (in_array ?n) ps) None)))
           (size_stream ?n @ streams xs @ pair_streams (in_array ?n) ps @ [0])"
        by (intro packs_bind 1(1) [OF False LTab] 1(2) [OF False LTab] nil) (simp_all add: packs_wok wb_array_size_writes "1.prems")
      then show ?thesis using False LTab by (subst pack_one.simps) simp
    next
      case (LPairs ps ok)
      have "packs (run_bind (wok (wb_byte b TYPE_TABLE 0)) (\<lambda>b.
             run_bind (pack_metapairs (Suc d) ps ok b) (\<lambda>b. wok (wb_nil b)))) b
           (first_error None (first_error (first_error (pairs_error (Suc d) (\<lambda>_. False) ps) (if ok then None else Some Pairs_error)) None))
           ([combine_type 6 0] @ pair_streams (\<lambda>_. False) ps @ [0])"
        by (intro packs_bind 1(3) [OF False LPairs] nil) (simp_all add: packs_wok writes_byte type_defs "1.prems")
      then show ?thesis using False LPairs by (subst pack_one.simps) simp
    next
      case (LOther t)
      then show ?thesis using False by (subst pack_one.simps) (simp add: packs_werr)
    qed (use False 1(4) in \<open>(subst pack_one.simps, simp add: packs_wok wb_nil_def wb_boolean_def wb_real_def type_defs wb_push_writes writes_byte writes_pair wb_integer_writes wb_string_writes wb_pointer_writes)+\<close>)
  qed
next
  case (2 d b)
  then show ?case by (simp add: packs_ret)
next
  case (3 d x xs b)
  then show ?case by (simp add: packs_bind)
next
  case (4 d n b)
  then show ?case by (simp add: packs_ret)
next
  case (5 d n kv ps b)
  then show ?case by (simp add: packs_bind)
next
  case (6 d ok b)
  then show ?case by (simp add: packs_ret packs_werr)
next
  case (7 d kv ps ok b)
  have assoc: "first_error (first_error x (first_error y z)) w = first_error x (first_error y (first_error z w))" for x y z w :: "seri_error option"
    by (simp add: first_error_def split: option.splits)
  show ?case using 7 by (simp add: packs_bind assoc)
qed


lemma seri_blocks:
  "\<forall>x\<in>set xs. length x = BLOCK_SIZE \<Longrightarrow> xs \<noteq> [] \<Longrightarrow> p \<le> BLOCK_SIZE \<Longrightarrow>
     seri xs (int (BLOCK_SIZE * (length xs - 1) + p)) = Some (concat (butlast xs) @ take p (last xs))"
proof (induction xs)
  case Nil
  then show ?case by simp
next
  case (Cons b bs)
  have P: "0 < BLOCK_SIZE" by (simp add: BLOCK_SIZE_def)
  show ?case
  proof (cases bs)
    case Nil
    then show ?thesis using Cons.prems by (cases "p = BLOCK_SIZE") auto
  next
    case (Cons c cs)
    let ?n = "int (BLOCK_SIZE * (length (b # bs) - 1) + p)"
    have n: "?n = int BLOCK_SIZE + int (BLOCK_SIZE * (length bs - 1) + p)" using Cons by simp
    have "seri bs (?n - int BLOCK_SIZE) = Some (concat (butlast bs) @ take p (last bs))"
      using Cons.IH Cons.prems Cons unfolding n by simp
    moreover have "?n > 0" "?n \<ge> int BLOCK_SIZE" using P unfolding n by linarith+
    ultimately have "seri (b # bs) ?n = Some (take BLOCK_SIZE b @ concat (butlast bs) @ take p (last bs))"
      by (simp only: seri.simps if_True option.map simp_thms)
    moreover have "take BLOCK_SIZE b = b" "butlast (b # bs) = b # butlast bs" "last (b # bs) = last bs"
      using Cons.prems(1) Cons by auto
    ultimately show ?thesis by simp
  qed
qed

lemma seri_spec: "wb_ok b \<Longrightarrow> seri (wb_blocks b) (wb_len b) = Some (wb_bytes b) \<and> wb_len b = int (length (wb_bytes b))"
proof
  assume ok: "wb_ok b"
  then have b: "wb_blocks b \<noteq> []" "\<forall>x\<in>set (wb_blocks b). length x = BLOCK_SIZE" "wb_ptr b \<le> BLOCK_SIZE"
    by (auto simp: wb_ok_def)
  have n: "length (wb_blocks b) = Suc (length (wb_blocks b) - 1)" using b(1) by (cases "wb_blocks b") auto
  have l: "wb_len b = int (BLOCK_SIZE * (length (wb_blocks b) - 1) + wb_ptr b)"
  proof -
    have "int (BLOCK_SIZE * length (wb_blocks b)) = int BLOCK_SIZE + int (BLOCK_SIZE * (length (wb_blocks b) - 1))"
      by (subst n) simp
    then show ?thesis using ok by (simp add: wb_ok_def)
  qed
  show "seri (wb_blocks b) (wb_len b) = Some (wb_bytes b)"
    unfolding l wb_bytes_def by (rule seri_blocks [OF b(2,1,3)])
  have "length (concat xs) = BLOCK_SIZE * length xs" if "\<forall>x\<in>set xs. length x = BLOCK_SIZE" for xs :: "bytes list"
    using that by (induction xs) auto
  then have "length (concat (butlast (wb_blocks b))) = BLOCK_SIZE * (length (wb_blocks b) - 1)"
    using b(2) by (simp add: in_set_butlastD)
  moreover have "length (last (wb_blocks b)) = BLOCK_SIZE" using b by simp
  ultimately show "wb_len b = int (length (wb_bytes b))" unfolding l wb_bytes_def using b(3) by simp
qed

text \<open>C24: \<open>pack\<close> returns exactly the concatenated streams of its arguments and their length, or the
  first error on the way, with any number of blocks and without writing outside one.\<close>

theorem seri_pack_streams:
  "luaseri_pack vs =
     (case array_error 0 vs of
        Some e \<Rightarrow> err e
      | None \<Rightarrow> ret (streams vs, int (length (streams vs))))"
proof -
  have ok: "wb_ok (wb_init blk_alloc)" "wb_bytes (wb_init blk_alloc) = []"
    by (simp_all add: wb_ok_def wb_init_def blk_alloc_def wb_bytes_def)
  have p: "packs (pack_array 0 vs (wb_init blk_alloc)) (wb_init blk_alloc) (array_error 0 vs) (streams vs)"
    by (rule pack_spec(2) [OF ok(1)])
  show ?thesis
  proof (cases "array_error 0 vs")
    case None
    then obtain b' where "pack_array 0 vs (wb_init blk_alloc) = ret b'" "wb_ok b'" "wb_bytes b' = streams vs"
      using p ok(2) by (auto simp: packs_def)
    then show ?thesis using None seri_spec [of b'] by (auto simp: luaseri_pack_def pack_from_def ret_def)
  next
    case (Some e)
    then show ?thesis using p by (simp add: packs_def luaseri_pack_def pack_from_def err_def)
  qed
qed

section \<open>What the reader does\<close>

lemma combine_type_parts:
  assumes "0 \<le> t" "t < 8" "0 \<le> v" "v < 32"
  shows "uint (combine_type t v AND 7) = t" "uint (drop_bit 3 (combine_type t v)) = v"
proof -
  have t: "take_bit 3 t = t" using assms by (simp add: take_bit_eq_mod)
  have "\<not> bit t n \<or> \<not> bit (push_bit 3 v) n" for n
  proof (cases "n < 3")
    case False
    then have "\<not> bit (take_bit 3 t) n" by (simp add: bit_take_bit_iff)
    then show ?thesis using t by simp
  qed (simp add: bit_push_bit_iff)
  then have "t OR push_bit 3 v = t + push_bit 3 v" by (metis disjunctive_add)
  then have c: "uint (combine_type t v) = t + 8 * v"
  proof -
    assume e: "t OR push_bit 3 v = t + push_bit 3 v"
    have "uint (combine_type t v) = (t + push_bit 3 v) mod 256"
      unfolding combine_type_def e by (rule uint_byte)
    also have "\<dots> = t + 8 * v" using assms by (simp add: push_bit_eq_mult mod_pos_pos_trivial)
    finally show ?thesis .
  qed
  have "combine_type t v AND 7 = take_bit 3 (combine_type t v)"
    by (simp add: take_bit_eq_mask mask_eq_exp_minus_1)
  then have "uint (combine_type t v AND 7) = take_bit 3 (uint (combine_type t v))"
    by (simp only: unsigned_take_bit_eq)
  then have "uint (combine_type t v AND 7) = uint (combine_type t v) mod 8"
    by (simp add: take_bit_eq_mod)
  then show "uint (combine_type t v AND 7) = t" using c assms by simp
  have "uint (drop_bit 3 (combine_type t v)) = uint (combine_type t v) div 8"
    by (simp add: drop_bit_eq_div uint_div_distrib)
  then show "uint (drop_bit 3 (combine_type t v)) = v" using c assms by simp
qed

definition rb_at :: "bytes \<Rightarrow> bytes \<Rightarrow> read_block \<Rightarrow> bool" where
  "rb_at buf bs rb \<longleftrightarrow> rb_buffer rb = buf \<and> 0 \<le> rb_ptr rb \<and> drop (nat (rb_ptr rb)) buf = bs \<and> rb_len rb = int (length bs)"

definition reads :: "bytes \<Rightarrow> 'a rresult \<Rightarrow> 'a \<Rightarrow> bytes \<Rightarrow> bool" where
  "reads buf m x bs \<longleftrightarrow> (\<exists>rb'. m = ret (x, rb') \<and> rb_at buf bs rb')"

lemma reads_ret: "rb_at buf bs rb \<Longrightarrow> reads buf (ret (x, rb)) x bs"
  by (simp add: reads_def)

lemma reads_bind:
  "reads buf m x bs \<Longrightarrow> (\<And>rb. rb_at buf bs rb \<Longrightarrow> reads buf (f (x, rb)) y cs) \<Longrightarrow> reads buf (run_bind m f) y cs"
  by (auto simp: reads_def)

lemma rb_read_at:
  assumes "rb_at buf (bs @ rest) rb"
  shows "\<exists>rb'. rb_read rb (int (length bs)) = (Some (bs @ rest), rb') \<and> rb_at buf rest rb'"
proof -
  let ?rb = "rb\<lparr>rb_ptr := rb_ptr rb + int (length bs), rb_len := rb_len rb - int (length bs)\<rparr>"
  have p: "0 \<le> rb_ptr rb" "drop (nat (rb_ptr rb)) buf = bs @ rest" using assms by (auto simp: rb_at_def)
  have "nat (rb_ptr rb + int (length bs)) = length bs + nat (rb_ptr rb)" using p(1) by simp
  then have "drop (nat (rb_ptr rb + int (length bs))) buf = drop (length bs) (drop (nat (rb_ptr rb)) buf)"
    by (simp only: drop_drop)
  also have "\<dots> = rest" unfolding p(2) by simp
  finally have "rb_at buf rest ?rb" using assms by (simp add: rb_at_def)
  then show ?thesis using assms by (intro exI [of _ ?rb]) (auto simp: rb_read_def rb_at_def)
qed

lemma reads_bytes: "rb_at buf (bs @ rest) rb \<Longrightarrow> length bs = n \<Longrightarrow> reads buf (read_bytes rb n) bs rest"
  using rb_read_at [of buf bs rest rb] by (auto simp: read_bytes_def reads_def)

lemma reads_buffer: "rb_at buf (bs @ rest) rb \<Longrightarrow> int (length bs) = n \<Longrightarrow> reads buf (get_buffer rb n) bs rest"
  using rb_read_at [of buf bs rest rb] by (auto simp: get_buffer_def reads_def)

lemma reads_le:
  assumes "rb_at buf (le_bytes n v @ rest) rb" "f (v mod 256 ^ n) = y"
  shows "reads buf (run_bind (read_bytes rb n) (\<lambda>(p, rb). ret (f (le_val p), rb))) y rest"
  by (rule reads_bind [OF reads_bytes [OF assms(1)]]) (use assms(2) in \<open>auto simp: le_val_bytes intro: reads_ret\<close>)

definition is_i64 :: "int \<Rightarrow> bool" where
  "is_i64 v \<longleftrightarrow> - (2 ^ 63) \<le> v \<and> v < 2 ^ 63"

lemma int_stream_reads:
  assumes "is_i64 v"
  shows "\<exists>c bs. int_stream v = combine_type 2 c # bs \<and> 0 \<le> c \<and> c < 32 \<and> c \<noteq> 8 \<and>
    (\<forall>buf rb rest. rb_at buf (bs @ rest) rb \<longrightarrow> reads buf (get_integer rb c) v rest)"
proof -
  consider "v = 0" | "v \<noteq> to_i32 v" | "v = to_i32 v" "v < 0" | "v = to_i32 v" "0 < v" "v < 2 ^ 8"
    | "v = to_i32 v" "2 ^ 8 \<le> v" "v < 2 ^ 16" | "v = to_i32 v" "2 ^ 16 \<le> v"
    by fastforce
  then show ?thesis
  proof cases
    case 1
    then show ?thesis by (intro exI [of _ 0] exI [of _ "[]"]) (auto simp: int_stream_def get_integer_def type_defs intro: reads_ret)
  next
    case 2
    have "signed_val 8 (v mod 256 ^ 8) = v" by (rule signed_val_mod) (use assms in \<open>auto simp: is_i64_def\<close>)
    moreover have "v \<noteq> 0" using 2 by (auto simp: to_i32_def)
    ultimately show ?thesis using 2
      by (intro exI [of _ 6] exI [of _ "le_bytes 8 v"]) (auto simp: int_stream_def get_integer_def type_defs intro!: reads_le)
  next
    case 3
    have "signed_val 4 (v mod 256 ^ 4) = v"
      by (rule signed_val_mod) (use 3 is_i32_to_i32 [of v] in \<open>auto simp: is_i32_def\<close>)
    then show ?thesis using 3
      by (intro exI [of _ 4] exI [of _ "le_bytes 4 v"]) (auto simp: int_stream_def get_integer_def type_defs intro!: reads_le)
  next
    case 4
    then show ?thesis
      by (intro exI [of _ 1] exI [of _ "le_bytes 1 v"])
        (auto simp: int_stream_def get_integer_def type_defs mod_pos_pos_trivial intro!: reads_le [where f = "\<lambda>x. x"])
  next
    case 5
    then show ?thesis
      by (intro exI [of _ 2] exI [of _ "le_bytes 2 v"])
        (auto simp: int_stream_def get_integer_def type_defs mod_pos_pos_trivial intro!: reads_le [where f = "\<lambda>x. x"])
  next
    case 6
    have "signed_val 4 (v mod 256 ^ 4) = v"
      by (rule signed_val_mod) (use 6 is_i32_to_i32 [of v] in \<open>auto simp: is_i32_def\<close>)
    then show ?thesis using 6
      by (intro exI [of _ 4] exI [of _ "le_bytes 4 v"]) (auto simp: int_stream_def get_integer_def type_defs intro!: reads_le)
  qed
qed

lemma i32_i64: "is_i32 v \<Longrightarrow> is_i64 v"
  by (auto simp: is_i32_def is_i64_def)

lemma sint_i64: "is_i64 (sint (x :: 64 word))"
  using sint_range_size [of x] by (auto simp: is_i64_def word_size)

lemma size_stream_reads:
  assumes "0 \<le> n" "n < 2 ^ 31"
  shows "\<exists>c bs. size_stream n = combine_type 6 c # bs \<and> 0 \<le> c \<and> c < 32 \<and>
    (\<forall>buf rb rest. rb_at buf (bs @ rest) rb \<longrightarrow> reads buf (read_array_size rb c) n rest)"
proof (cases "n < 31")
  case True
  then show ?thesis using assms
    by (intro exI [of _ n] exI [of _ "[]"]) (auto simp: size_stream_def read_array_size_def MAX_COOKIE_def intro: reads_ret)
next
  case False
  have i: "is_i32 n" using assms by (simp add: is_i32_def)
  obtain c bs where c: "int_stream n = combine_type 2 c # bs" "0 \<le> c" "c < 32" "c \<noteq> 8"
      "\<And>buf rb rest. rb_at buf (bs @ rest) rb \<Longrightarrow> reads buf (get_integer rb c) n rest"
    using int_stream_reads [OF i32_i64 [OF i]] by blast
  have t: "uint (combine_type 2 c AND 7) = 2" "uint (drop_bit 3 (combine_type 2 c)) = c"
    using combine_type_parts [of 2 c] c(2,3) by auto
  have "reads buf (read_array_size rb 31) n rest" if "rb_at buf (int_stream n @ rest) rb" for buf rb rest
  proof -
    have "reads buf (run_bind (get_integer rb c) (\<lambda>(n, rb). ret (to_i32 n, rb))) n rest" if "rb_at buf (bs @ rest) rb" for rb
      by (rule reads_bind [OF c(5) [OF that]]) (use i in \<open>auto simp: to_i32_id intro: reads_ret\<close>)
    note step = this
    have "reads buf (read_bytes rb 1) [combine_type 2 c] (bs @ rest)"
      by (rule reads_bytes) (use that c(1) in auto)
    moreover have "read_array_size rb 31 = run_bind (read_bytes rb 1) (\<lambda>(p, rb).
          let t = p ! 0; cookie = uint (drop_bit 3 t) in
          if uint (t AND 7) \<noteq> TYPE_NUMBER \<or> cookie = TYPE_NUMBER_REAL then invalid_stream rb
          else run_bind (get_integer rb cookie) (\<lambda>(n, rb). ret (to_i32 n, rb)))"
      by (simp add: read_array_size_def MAX_COOKIE_def)
    ultimately show ?thesis
      by (simp only:) (erule reads_bind, use t c(4) step in \<open>simp add: type_defs Let_def\<close>)
  qed
  then show ?thesis using False by (intro exI [of _ 31] exI [of _ "int_stream n"]) (auto simp: size_stream_def)
qed

lemma str_stream_reads:
  assumes "length s < 2 ^ 31"
  shows "\<exists>t c bs. str_stream s (int (length s)) = combine_type t c # bs \<and> 0 \<le> t \<and> t < 8 \<and> t \<noteq> 6 \<and> 0 \<le> c \<and> c < 32 \<and>
    (\<forall>buf rb rest. rb_at buf (bs @ rest) rb \<longrightarrow> reads buf (push_scalar rb t c) (LStr s) rest)"
proof -
  consider "length s < 32" | "32 \<le> length s" "length s < 2 ^ 16" | "2 ^ 16 \<le> length s" by linarith
  then show ?thesis
  proof cases
    case 1
    have "reads buf (push_scalar rb 4 (int (length s))) (LStr s) rest" if "rb_at buf (s @ rest) rb" for buf rb rest
      unfolding push_scalar_def
      by (simp add: type_defs) (rule reads_bind [OF reads_buffer [OF that refl]], auto intro: reads_ret)
    then show ?thesis using 1
      by (intro exI [of _ 4] exI [of _ "int (length s)"] exI [of _ s]) (simp add: str_stream_def)
  next
    case 2
    have "reads buf (push_scalar rb 5 2) (LStr s) rest" if "rb_at buf (le_bytes 2 (int (length s)) @ s @ rest) rb" for buf rb rest
      unfolding push_scalar_def using 2
      by (simp add: type_defs) (rule reads_bind [OF reads_bytes [OF that]],
        auto simp: le_val_bytes mod_pos_pos_trivial intro!: reads_bind [OF reads_buffer] reads_ret)
    then show ?thesis using 2
      by (intro exI [of _ 5] exI [of _ 2] exI [of _ "le_bytes 2 (int (length s)) @ s"]) (simp add: str_stream_def)
  next
    case 3
    have i: "to_i32 (int (length s)) = int (length s)" using assms by (intro to_i32_id) (simp add: is_i32_def)
    have "reads buf (push_scalar rb 5 4) (LStr s) rest" if "rb_at buf (le_bytes 4 (int (length s)) @ s @ rest) rb" for buf rb rest
      unfolding push_scalar_def using 3 assms i
      by (simp add: type_defs) (rule reads_bind [OF reads_bytes [OF that]],
        auto simp: le_val_bytes mod_pos_pos_trivial intro!: reads_bind [OF reads_buffer] reads_ret)
    then show ?thesis using 3
      by (intro exI [of _ 5] exI [of _ 4] exI [of _ "le_bytes 4 (int (length s)) @ s"]) (simp add: str_stream_def)
  qed
qed

section \<open>What arrives\<close>

text \<open>The value that the reader builds: a table has its array elements and then the pairs that are
  not in the array part.\<close>

function (sequential) received :: "lval \<Rightarrow> lval"
  and received_list :: "lval list \<Rightarrow> lval list"
  and received_pairs :: "(lval \<Rightarrow> bool) \<Rightarrow> (lval \<times> lval) list \<Rightarrow> (lval \<times> lval) list"
where
  "received (LTab xs ps) = LTab (received_list xs) (received_pairs (in_array (int (length xs))) ps)"
| "received (LPairs ps ok) = LTab [] (received_pairs (\<lambda>_. False) ps)"
| "received v = v"
| "received_list [] = []"
| "received_list (x # xs) = received x # received_list xs"
| "received_pairs skip [] = []"
| "received_pairs skip (kv # ps) =
     (if skip (fst kv) then received_pairs skip ps
      else (received (fst kv), received (snd kv)) # received_pairs skip ps)"
  by pat_completeness auto
termination
  by (relation "measure (\<lambda>x. case x of
      Inl v \<Rightarrow> size v
    | Inr (Inl xs) \<Rightarrow> size_list size xs
    | Inr (Inr (skip, ps)) \<Rightarrow> size_list (size_prod size size) ps)") auto

text \<open>The values Lua can hold in memory below 2 GB, without unsupported types, and with keys that are
  neither nil nor NaN (\<open>lua_next\<close> never gives such keys).\<close>

function (sequential) sendable :: "lval \<Rightarrow> bool"
  and sendable_list :: "lval list \<Rightarrow> bool"
  and sendable_pairs :: "(lval \<Rightarrow> bool) \<Rightarrow> (lval \<times> lval) list \<Rightarrow> bool"
where
  "sendable (LTab xs ps) \<longleftrightarrow>
     length xs < 2 ^ 31 \<and> sendable_list xs \<and> sendable_pairs (in_array (int (length xs))) ps"
| "sendable (LPairs ps ok) \<longleftrightarrow> sendable_pairs (\<lambda>_. False) ps"
| "sendable (LStr s) \<longleftrightarrow> length s < 2 ^ 31"
| "sendable (LOther t) \<longleftrightarrow> False"
| "sendable v \<longleftrightarrow> True"
| "sendable_list [] \<longleftrightarrow> True"
| "sendable_list (x # xs) \<longleftrightarrow> sendable x \<and> sendable_list xs"
| "sendable_pairs skip [] \<longleftrightarrow> True"
| "sendable_pairs skip (kv # ps) \<longleftrightarrow>
     (if skip (fst kv) then sendable_pairs skip ps
      else fst kv \<noteq> LNil \<and> \<not> key_nan (fst kv) \<and> sendable (fst kv) \<and> sendable (snd kv) \<and> sendable_pairs skip ps)"
  by pat_completeness auto
termination
  by (relation "measure (\<lambda>x. case x of
      Inl v \<Rightarrow> size v
    | Inr (Inl xs) \<Rightarrow> size_list size xs
    | Inr (Inr (skip, ps)) \<Rightarrow> size_list (size_prod size size) ps)") auto

definition decodes :: "bytes \<Rightarrow> lval \<Rightarrow> bool" where
  "decodes bs v \<longleftrightarrow>
     (\<exists>t c bs'. bs = combine_type t c # bs' \<and> 0 \<le> t \<and> t < 8 \<and> 0 \<le> c \<and> c < 32 \<and>
        (\<forall>buf rb rest k. rb_at buf (bs' @ rest) rb \<longrightarrow> 3 * length (bs' @ rest) + 3 \<le> k \<longrightarrow>
           reads buf (push_value k rb t c) v rest))"

lemma push_scalar_value: "t \<noteq> 6 \<Longrightarrow> 0 < k \<Longrightarrow> push_value k rb t c = push_scalar rb t c"
  by (cases k) (simp_all add: push_value.simps(2) type_defs)

lemma decodes_scalar:
  assumes "bs = combine_type t c # bs'" "0 \<le> t" "t < 8" "t \<noteq> 6" "0 \<le> c" "c < 32"
    "\<And>buf rb rest. rb_at buf (bs' @ rest) rb \<Longrightarrow> reads buf (push_scalar rb t c) v rest"
  shows "decodes bs v"
  unfolding decodes_def using assms
  by (intro exI [of _ t] exI [of _ c] exI [of _ bs']) (simp add: push_scalar_value)

lemma unpack_one_decodes:
  assumes d: "decodes bs v" and rb: "rb_at buf (bs @ rest) rb" and k: "3 * length (bs @ rest) + 1 \<le> k"
  shows "reads buf (unpack_one k rb) v rest" "bs \<noteq> []"
proof -
  obtain t c bs' where bs: "bs = combine_type t c # bs'" "0 \<le> t" "t < 8" "0 \<le> c" "c < 32"
      "\<And>buf rb rest k. rb_at buf (bs' @ rest) rb \<Longrightarrow> 3 * length (bs' @ rest) + 3 \<le> k \<Longrightarrow>
           reads buf (push_value k rb t c) v rest"
    using d unfolding decodes_def by blast
  obtain k' where k': "k = Suc k'" "3 * length (bs' @ rest) + 3 \<le> k'" using k bs(1) by (cases k) auto
  have "reads buf (read_bytes rb 1) [combine_type t c] (bs' @ rest)"
    by (rule reads_bytes) (use rb bs(1) in auto)
  then show "reads buf (unpack_one k rb) v rest"
    unfolding k'(1) unpack_one.simps
    by (rule reads_bind) (use bs k'(2) combine_type_parts [OF bs(2-5)] in auto)
  show "bs \<noteq> []" using bs(1) by simp
qed

lemma received_key: "received v = LNil \<longleftrightarrow> v = LNil" "key_nan (received v) = key_nan v"
  by (cases v; simp add: key_nan_def)+

lemma decodes_int: "decodes (int_stream (sint x)) (LInt x)"
proof -
  obtain c bs where c: "int_stream (sint x) = combine_type 2 c # bs" "0 \<le> c" "c < 32" "c \<noteq> 8"
      "\<And>buf rb rest. rb_at buf (bs @ rest) rb \<Longrightarrow> reads buf (get_integer rb c) (sint x) rest"
    using int_stream_reads [OF sint_i64, of x] by blast
  have "reads buf (run_bind (get_integer rb c) (\<lambda>(x, rb). ret (LInt (word_of_int x), rb))) (LInt x) rest"
    if "rb_at buf (bs @ rest) rb" for buf rb rest
    by (rule reads_bind [OF c(5) [OF that]]) (auto intro: reads_ret)
  then show ?thesis using c
    by (intro decodes_scalar [of _ 2 c bs]) (auto simp: push_scalar_def type_defs)
qed

lemma decodes_word:
  "decodes (combine_type 2 8 # le_bytes 8 (uint x)) (LReal x)"
  "decodes (3 # le_bytes 8 (uint x)) (LPtr x)"
proof -
  have u: "uint x mod 256 ^ 8 = uint x" using uint_lt2p [of x] by (intro mod_pos_pos_trivial) auto
  have three: "(3 :: u8) = combine_type 3 0" by (simp add: combine_type_def)
  have g: "reads buf (get_real rb) x rest" "reads buf (get_pointer rb) x rest"
    if "rb_at buf (le_bytes 8 (uint x) @ rest) rb" for buf rb rest
    unfolding get_real_def get_pointer_def by (rule reads_le [OF that], use u in simp)+
  show "decodes (combine_type 2 8 # le_bytes 8 (uint x)) (LReal x)"
    by (rule decodes_scalar [OF refl]) (auto simp: push_scalar_def type_defs intro!: reads_bind [OF g(1)] reads_ret)
  show "decodes (3 # le_bytes 8 (uint x)) (LPtr x)"
    unfolding three
    by (rule decodes_scalar [OF refl]) (auto simp: push_scalar_def type_defs intro!: reads_bind [OF g(2)] reads_ret)
qed

lemma decodes_table:
  assumes size: "0 \<le> n" "n < 2 ^ 31"
    and xs: "\<And>buf rb rest k. rb_at buf (sx @ rest) rb \<Longrightarrow> 3 * length (sx @ rest) + 2 \<le> k \<Longrightarrow>
      reads buf (unpack_array k (nat n) rb) xs rest"
    and ps: "\<And>buf rb rest k. rb_at buf (sp @ rest) rb \<Longrightarrow> 3 * length (sp @ rest) + 2 \<le> k \<Longrightarrow>
      reads buf (unpack_hash k rb) ps rest"
  shows "decodes (size_stream n @ sx @ sp) (LTab xs ps)"
proof -
  obtain c bs where c: "size_stream n = combine_type 6 c # bs" "0 \<le> c" "c < 32"
      "\<And>buf rb rest. rb_at buf (bs @ rest) rb \<Longrightarrow> reads buf (read_array_size rb c) n rest"
    using size_stream_reads [OF size] by blast
  have "reads buf (push_value k rb 6 c) (LTab xs ps) rest"
    if rb: "rb_at buf ((bs @ sx @ sp) @ rest) rb" and k: "3 * length ((bs @ sx @ sp) @ rest) + 3 \<le> k" for buf rb rest k
  proof -
    obtain k' where k': "k = Suc k'" "3 * length (sx @ sp @ rest) + 2 \<le> k'" using k by (cases k) auto
    have rb': "rb_at buf (bs @ sx @ sp @ rest) rb" using rb by simp
    have "reads buf (run_bind (read_array_size rb c) (\<lambda>(n, rb).
        run_bind (unpack_array k' (nat n) rb) (\<lambda>(xs, rb).
        run_bind (unpack_hash k' rb) (\<lambda>(ps, rb). ret (LTab xs ps, rb))))) (LTab xs ps) rest"
      by (rule reads_bind [OF c(4) [OF rb']], simp, rule reads_bind [OF xs], assumption, use k' in simp, simp,
          rule reads_bind [OF ps], assumption, use k' in simp, simp add: reads_ret)
    then show ?thesis unfolding k'(1) by (simp add: push_value.simps(2) type_defs)
  qed
  then show ?thesis unfolding decodes_def using c by (intro exI [of _ 6] exI [of _ c] exI [of _ "bs @ sx @ sp"]) auto
qed

lemma received_length: "length (received_list xs) = length xs"
  by (induction xs) auto

lemma stream_decodes:
  "sendable v \<Longrightarrow> decodes (stream v) (received v)"
  "sendable_list xs \<Longrightarrow> rb_at buf (streams xs @ rest) rb \<Longrightarrow> 3 * length (streams xs @ rest) + 2 \<le> k \<Longrightarrow>
     reads buf (unpack_array k (length xs) rb) (received_list xs) rest"
  "sendable_pairs skip ps \<Longrightarrow> rb_at buf ((pair_streams skip ps @ [0]) @ rest) rb \<Longrightarrow>
     3 * length ((pair_streams skip ps @ [0]) @ rest) + 2 \<le> k \<Longrightarrow>
     reads buf (unpack_hash k rb) (received_pairs skip ps) rest"
proof (induction v and xs and skip ps arbitrary: and buf rb rest k and buf rb rest k rule: stream_streams_pair_streams.induct)
  case 1
  have "decodes [combine_type 0 0] LNil"
    by (rule decodes_scalar [OF refl]) (auto simp: push_scalar_def type_defs intro: reads_ret)
  then show ?case by (simp add: combine_type_def)
next
  case (2 x)
  have "decodes [combine_type 1 (if x then 1 else 0)] (LBool x)"
    by (rule decodes_scalar [OF refl]) (auto simp: push_scalar_def type_defs intro: reads_ret)
  then show ?case by simp
next
  case (3 x)
  then show ?case by (simp add: decodes_int)
next
  case (4 x)
  then show ?case by (simp add: decodes_word)
next
  case (5 s)
  then have s: "length s < 2 ^ 31" by simp
  then have "to_i32 (int (length s)) = int (length s)" by (intro to_i32_id) (simp add: is_i32_def)
  then show ?case using str_stream_reads [OF s] by (auto intro: decodes_scalar)
next
  case (6 x)
  then show ?case by (simp add: decodes_word)
next
  case (7 xs ps)
  have n: "to_i32 (int (length xs)) = int (length xs)" using "7.prems" by (intro to_i32_id) (simp add: is_i32_def)
  have "decodes (size_stream (int (length xs)) @ streams xs @ pair_streams (in_array (int (length xs))) ps @ [0])
      (LTab (received_list xs) (received_pairs (in_array (int (length xs))) ps))"
    by (rule decodes_table) (use 7 n in \<open>auto simp: \<close>)
  then show ?case by (simp add: n)
next
  case (8 ps ok)
  have "decodes (size_stream 0 @ [] @ pair_streams (\<lambda>_. False) ps @ [0]) (LTab [] (received_pairs (\<lambda>_. False) ps))"
  proof (rule decodes_table)
    show "reads buf (unpack_array k (nat 0) rb) [] rest" if "rb_at buf ([] @ rest) rb" "3 * length ([] @ rest) + 2 \<le> k" for buf rb rest k
      using that by (cases k) (auto simp: unpack_array.simps(2) intro: reads_ret)
  qed (use 8 in auto)
  then show ?case by (simp add: size_stream_def)
next
  case (9 t)
  then show ?case by simp
next
  case 10
  then show ?case by (cases k) (auto simp: unpack_array.simps(2) intro: reads_ret)
next
  case (11 x xs)
  have d: "decodes (stream x) (received x)" using 11 by simp
  have rb: "rb_at buf (stream x @ streams xs @ rest) rb" using "11.prems" by simp
  obtain k' where k': "k = Suc k'" "3 * length (stream x @ streams xs @ rest) + 1 \<le> k'"
    using "11.prems"(3) by (cases k) auto
  note u = unpack_one_decodes [OF d rb k'(2)]
  have k'': "3 * length (streams xs @ rest) + 2 \<le> k'" using k'(2) u(2) by (cases "stream x") auto
  show ?case unfolding k'(1)
    by (simp add: unpack_array.simps(2), rule reads_bind [OF u(1)], simp, rule reads_bind [OF 11(2)])
      (use "11.prems"(1) k'' in \<open>auto intro: reads_ret\<close>)
next
  case (12 skip)
  have d: "decodes [combine_type 0 0] LNil"
    by (rule decodes_scalar [OF refl]) (auto simp: push_scalar_def type_defs intro: reads_ret)
  then have d: "decodes [0] LNil" by (simp add: combine_type_def)
  obtain k' where k': "k = Suc k'" "3 * length ([0] @ rest) + 1 \<le> k'" using 12(3) by (cases k) auto
  have rb: "rb_at buf ([0] @ rest) rb" using 12 by simp
  show ?case unfolding k'(1)
    by (simp add: unpack_hash.simps(2), rule reads_bind [OF unpack_one_decodes(1) [OF d rb k'(2)]]) (simp add: reads_ret)
next
  case (13 skip kv ps)
  show ?case
  proof (cases "skip (fst kv)")
    case True
    then show ?thesis using 13 by simp
  next
    case False
    have s: "fst kv \<noteq> LNil" "\<not> key_nan (fst kv)" "sendable (fst kv)" "sendable (snd kv)" "sendable_pairs skip ps"
      using "13.prems"(1) False by auto
    note d1 = 13(2) [OF False s(3)] and d2 = 13(3) [OF False s(4)]
    let ?r = "(pair_streams skip ps @ [0]) @ rest"
    have rb: "rb_at buf (stream (fst kv) @ stream (snd kv) @ ?r) rb" using "13.prems"(2) False by simp
    obtain k' where k': "k = Suc k'" "3 * length (stream (fst kv) @ stream (snd kv) @ ?r) + 1 \<le> k'"
      using "13.prems"(3) False by (cases k) auto
    note u1 = unpack_one_decodes [OF d1 rb k'(2)]
    have k2: "3 * length (stream (snd kv) @ ?r) + 1 \<le> k'" "3 * length ?r + 2 \<le> k'"
      using k'(2) u1(2) by (cases "stream (fst kv)"; auto)+
    have h: "reads buf (unpack_hash k' rb') (received_pairs skip ps) rest" if "rb_at buf ?r rb'" for rb'
      using 13(4) [OF False s(5) that] k2(2) by blast
    have u2: "reads buf (unpack_one k' rb') (received (snd kv)) ?r" if "rb_at buf (stream (snd kv) @ ?r) rb'" for rb'
      by (rule unpack_one_decodes(1) [OF d2 that k2(1)])
    have "reads buf (unpack_hash (Suc k') rb) ((received (fst kv), received (snd kv)) # received_pairs skip ps) rest"
      by (simp add: unpack_hash.simps(2), rule reads_bind [OF u1(1)])
        (use s in \<open>auto simp: received_key intro!: reads_bind [OF u2] reads_bind [OF h] reads_ret\<close>)
    then show ?thesis unfolding k'(1) using False by simp
  qed
qed

section \<open>The reader on arbitrary bytes\<close>

definition rb_wf :: "read_block \<Rightarrow> bool" where
  "rb_wf rb \<longleftrightarrow> 0 \<le> rb_ptr rb \<and> 0 \<le> rb_len rb \<and> rb_ptr rb + rb_len rb \<le> int (length (rb_buffer rb))"

text \<open>The call is defined, stays inside the buffer and consumes at least \<open>n\<close> bytes.\<close>

definition sound :: "read_block \<Rightarrow> nat \<Rightarrow> 'a rresult \<Rightarrow> bool" where
  "sound rb n m \<longleftrightarrow> m \<noteq> None \<and>
     (\<forall>x rb'. m = Some (Inr (x, rb')) \<longrightarrow>
        rb_wf rb' \<and> rb_buffer rb' = rb_buffer rb \<and> rb_len rb' + int n \<le> rb_len rb)"

lemma sound_ret: "rb_wf rb \<Longrightarrow> sound rb 0 (ret (x, rb))"
  by (simp add: sound_def ret_def)

lemma sound_err [simp]: "sound rb n (err e)" "sound rb n (invalid_stream rb')"
  by (simp_all add: sound_def err_def invalid_stream_def)

lemma sound_mono:
  assumes s: "sound rb' k m" and b: "rb_buffer rb' = rb_buffer rb" and l: "rb_len rb' + int n \<le> rb_len rb" and j: "j \<le> n + k"
  shows "sound rb j m"
  unfolding sound_def
proof (intro conjI allI impI)
  show "m \<noteq> None" using s by (simp add: sound_def)
  fix x r assume "m = Some (Inr (x, r))"
  then have "rb_wf r \<and> rb_buffer r = rb_buffer rb' \<and> rb_len r + int k \<le> rb_len rb'"
    using s unfolding sound_def by blast
  then show "rb_wf r" "rb_buffer r = rb_buffer rb" "rb_len r + int j \<le> rb_len rb"
    using b l j by auto
qed

lemma sound_bind:
  assumes "sound rb n m"
    "\<And>x rb'. rb_wf rb' \<Longrightarrow> rb_buffer rb' = rb_buffer rb \<Longrightarrow> rb_len rb' + int n \<le> rb_len rb \<Longrightarrow>
       m = Some (Inr (x, rb')) \<Longrightarrow> sound rb' k (f (x, rb'))"
  shows "sound rb (n + k) (run_bind m f)"
proof -
  have m: "m \<noteq> None" using assms(1) by (simp add: sound_def)
  show ?thesis
  proof (cases "\<exists>e. m = Some (Inl e)")
    case True
    then show ?thesis by (auto simp: sound_def)
  next
    case False
    then obtain x rb' where x: "m = Some (Inr (x, rb'))" using m by (metis obj_sumE option.exhaust surj_pair)
    then have r: "rb_wf rb'" "rb_buffer rb' = rb_buffer rb" "rb_len rb' + int n \<le> rb_len rb"
      using assms(1) by (auto simp: sound_def)
    show ?thesis using sound_mono [OF assms(2) [OF r x] r(2,3)] unfolding x by simp
  qed
qed

lemma sound_weaken: "sound rb n m \<Longrightarrow> k \<le> n \<Longrightarrow> sound rb k m"
  by (rule sound_mono [where n = 0]) auto

lemma sound_bind0: "sound rb n m \<Longrightarrow> (\<And>x rb'. rb_wf rb' \<Longrightarrow> sound rb' 0 (f (x, rb'))) \<Longrightarrow> sound rb 0 (run_bind m f)"
  using sound_bind [of rb n m 0 f] sound_weaken [of rb n _ 0] by simp

lemma sound_bytes:
  assumes "rb_wf rb"
  shows "sound rb n (read_bytes rb n)"
proof (cases "rb_len rb < int n")
  case True
  then show ?thesis by (simp add: read_bytes_def rb_read_def)
next
  case False
  then have "n \<le> length (drop (nat (rb_ptr rb)) (rb_buffer rb))" using assms by (auto simp: rb_wf_def)
  then show ?thesis using False assms by (auto simp: read_bytes_def rb_read_def sound_def ret_def rb_wf_def)
qed

lemma sound_buffer:
  assumes "rb_wf rb"
  shows "sound rb 0 (get_buffer rb n)"
proof (cases "rb_len rb < n \<or> n < 0")
  case True
  then show ?thesis by (auto simp: get_buffer_def rb_read_def)
next
  case False
  then have "nat n \<le> length (drop (nat (rb_ptr rb)) (rb_buffer rb))" using assms by (auto simp: rb_wf_def)
  then show ?thesis using False assms by (auto simp: get_buffer_def rb_read_def sound_def ret_def rb_wf_def)
qed

lemma sound_integer: "rb_wf rb \<Longrightarrow> sound rb 0 (get_integer rb c)"
  by (auto simp: get_integer_def intro!: sound_ret sound_bind0 [OF sound_bytes])

lemma sound_scalar: "rb_wf rb \<Longrightarrow> sound rb 0 (push_scalar rb t c)"
  by (auto simp: push_scalar_def get_real_def get_pointer_def
      intro!: sound_ret sound_bind0 [OF sound_bind0 [OF sound_bytes]] sound_bind0 [OF sound_bytes]
        sound_bind0 [OF sound_buffer] sound_bind0 [OF sound_integer])

lemma sound_array_size: "rb_wf rb \<Longrightarrow> sound rb 0 (read_array_size rb c)"
  by (auto simp: read_array_size_def Let_def
      intro!: sound_ret sound_bind0 [OF sound_bytes] sound_bind0 [OF sound_integer])

lemma unpack_sound:
  "rb_wf rb \<Longrightarrow> 3 * nat (rb_len rb) + 3 \<le> k \<Longrightarrow> sound rb 0 (push_value k rb t c)"
  "rb_wf rb \<Longrightarrow> 3 * nat (rb_len rb) + 1 \<le> k \<Longrightarrow> sound rb 1 (unpack_one k rb)"
  "rb_wf rb \<Longrightarrow> 3 * nat (rb_len rb) + 2 \<le> k \<Longrightarrow> sound rb 0 (unpack_array k n rb)"
  "rb_wf rb \<Longrightarrow> 3 * nat (rb_len rb) + 2 \<le> k \<Longrightarrow> sound rb 0 (unpack_hash k rb)"
proof (induction k arbitrary: rb t c n)
  case 0
  {
    case 1 then show ?case by simp
  next
    case 2 then show ?case by simp
  next
    case 3 then show ?case by simp
  next
    case 4 then show ?case by simp
  }
next
  case (Suc k)
  {
    case 1
    have le: "3 * nat (rb_len rb') + 2 \<le> k" if "rb_wf rb'" "rb_len rb' + int 0 \<le> rb_len rb" for rb'
      using that 1 by (simp add: rb_wf_def)
    have h: "sound rb1 0 (run_bind (unpack_hash k rb1) (\<lambda>(ps, rb). ret (LTab xs ps, rb)))"
      if "rb_wf rb1" "3 * nat (rb_len rb1) + 2 \<le> k" for rb1 xs
      by (rule sound_bind0 [OF Suc.IH(4) [OF that]]) (simp add: sound_ret)
    have a: "sound rb1 0 (run_bind (unpack_array k n rb1) (\<lambda>(xs, rb).
        run_bind (unpack_hash k rb) (\<lambda>(ps, rb). ret (LTab xs ps, rb))))"
      if w: "rb_wf rb1" "3 * nat (rb_len rb1) + 2 \<le> k" for rb1 n
    proof -
      have "sound rb1 (0 + 0) (run_bind (unpack_array k n rb1) (\<lambda>(xs, rb).
          run_bind (unpack_hash k rb) (\<lambda>(ps, rb). ret (LTab xs ps, rb))))"
        by (rule sound_bind [OF Suc.IH(3) [OF w]]) (use w in \<open>auto intro!: h simp: rb_wf_def\<close>)
      then show ?thesis by simp
    qed
    have "sound rb (0 + 0) (run_bind (read_array_size rb c) (\<lambda>(n, rb).
        run_bind (unpack_array k (nat n) rb) (\<lambda>(xs, rb).
        run_bind (unpack_hash k rb) (\<lambda>(ps, rb). ret (LTab xs ps, rb)))))"
      by (rule sound_bind [OF sound_array_size [OF 1(1)]]) (use le in \<open>auto intro!: a\<close>)
    then show ?case using sound_scalar [OF 1(1)] by (simp add: push_value.simps(2))
  next
    case 2
    have "sound rb (1 + 0) (run_bind (read_bytes rb 1) (\<lambda>(p, rb).
       push_value k rb (uint (p ! 0 AND 7)) (uint (drop_bit 3 (p ! 0)))))"
      by (rule sound_bind [OF sound_bytes [OF 2(1)]]) (use 2 in \<open>auto intro!: Suc.IH(1) simp: rb_wf_def\<close>)
    then show ?case by (simp add: unpack_one.simps(2))
  next
    case 3
    have k: "3 * nat (rb_len rb) + 1 \<le> k" using 3 by simp
    have "sound rb (1 + 0) (run_bind (unpack_one k rb) (\<lambda>(x, rb).
        run_bind (unpack_array k (n - 1) rb) (\<lambda>(xs, rb). ret (x # xs, rb))))"
      by (rule sound_bind [OF Suc.IH(2) [OF 3(1) k]])
        (use k in \<open>auto intro!: sound_bind0 [OF Suc.IH(3)] sound_ret simp: rb_wf_def\<close>)
    then have "sound rb 0 (run_bind (unpack_one k rb) (\<lambda>(x, rb).
        run_bind (unpack_array k (n - 1) rb) (\<lambda>(xs, rb). ret (x # xs, rb))))" by (rule sound_weaken) simp
    then show ?case using 3(1) by (simp add: unpack_array.simps(2) sound_ret)
  next
    case 4
    have k: "3 * nat (rb_len rb) + 1 \<le> k" using 4 by simp
    have v: "sound rb1 0 (run_bind (unpack_one k rb1) (\<lambda>(v, rb).
         if key_nan key then err Key_error
         else run_bind (unpack_hash k rb) (\<lambda>(ps, rb). ret ((key, v) # ps, rb))))"
      if w: "rb_wf rb1" "rb_len rb1 + int 1 \<le> rb_len rb" for rb1 key
    proof -
      have k1: "3 * nat (rb_len rb1) + 1 \<le> k" using k w by (simp add: rb_wf_def)
      have "sound rb1 (1 + 0) (run_bind (unpack_one k rb1) (\<lambda>(v, rb).
         if key_nan key then err Key_error
         else run_bind (unpack_hash k rb) (\<lambda>(ps, rb). ret ((key, v) # ps, rb))))"
        by (rule sound_bind [OF Suc.IH(2) [OF w(1) k1]])
          (use k1 in \<open>auto intro!: sound_bind0 [OF Suc.IH(4)] sound_ret simp: rb_wf_def\<close>)
      then show ?thesis by (rule sound_weaken) simp
    qed
    have "sound rb (1 + 0) (run_bind (unpack_one k rb) (\<lambda>(key, rb).
       if key = LNil then ret ([], rb)
       else
         run_bind (unpack_one k rb) (\<lambda>(v, rb).
         if key_nan key then err Key_error
         else run_bind (unpack_hash k rb) (\<lambda>(ps, rb). ret ((key, v) # ps, rb)))))"
      by (rule sound_bind [OF Suc.IH(2) [OF 4(1) k]]) (auto intro!: v sound_ret)
    then have "sound rb 0 (unpack_hash (Suc k) rb)" unfolding unpack_hash.simps(2) by (rule sound_weaken) simp
    then show ?case .
  }
qed

lemma unpack_all_defined:
  "rb_wf rb \<Longrightarrow> nat (rb_len rb) < k \<Longrightarrow> unpack_all k rb \<noteq> None"
proof (induction k arbitrary: rb)
  case 0
  then show ?case by simp
next
  case (Suc k)
  show ?case
  proof (cases "rb_len rb < 1")
    case True
    then show ?thesis by (simp add: rb_read_def)
  next
    case False
    let ?rb = "rb\<lparr>rb_ptr := rb_ptr rb + 1, rb_len := rb_len rb - 1\<rparr>"
    let ?p = "drop (nat (rb_ptr rb)) (rb_buffer rb)"
    have r: "rb_read rb 1 = (Some ?p, ?rb)" using False by (simp add: rb_read_def)
    have ne: "?p \<noteq> []" using False Suc.prems by (auto simp: rb_wf_def)
    have w: "rb_wf ?rb" using False Suc.prems by (simp add: rb_wf_def)
    have f: "3 * nat (rb_len ?rb) + 3 \<le> 3 * length (rb_buffer rb) + 3"
      using Suc.prems(1) unfolding rb_wf_def by (simp; linarith)
    note s = unpack_sound(1) [OF w f]
    have all: "unpack_all k rb' \<noteq> None" if "rb_wf rb'" "rb_len rb' \<le> rb_len rb - 1" for rb'
      using that Suc.prems False by (intro Suc.IH) (auto simp: rb_wf_def)
    have "run_bind (push_value (3 * length (rb_buffer rb) + 3) ?rb t c)
        (\<lambda>(v, rb). run_bind (unpack_all k rb) (\<lambda>vs. ret (v # vs))) \<noteq> None" for t c

    proof (rule run_bind_defined)
      show "push_value (3 * length (rb_buffer rb) + 3) ?rb t c \<noteq> None" using s [of t c] by (simp add: sound_def)
      fix y assume y: "push_value (3 * length (rb_buffer rb) + 3) ?rb t c = Some (Inr y)"
      obtain v rb' where v: "y = (v, rb')" by (cases y)
      have "rb_wf rb'" "rb_len rb' \<le> rb_len rb - 1"
        using s [of t c] y v unfolding sound_def by auto
      then have "unpack_all k rb' \<noteq> None" by (rule all)
      then show "(case y of (v, rb) \<Rightarrow> run_bind (unpack_all k rb) (\<lambda>vs. ret (v # vs))) \<noteq> None"
        unfolding v by (simp only: prod.case) (rule run_bind_defined, auto)
    qed
    then show ?thesis using r ne by simp
  qed
qed

lemma unpack_buffer_defined: "len \<le> int (length buf) \<Longrightarrow> unpack_buffer buf len \<noteq> None"
proof (cases "0 \<le> len")
  case True
  assume "len \<le> int (length buf)"
  moreover from this True have "unpack_all (length buf + 1) (rball_init buf len) \<noteq> None"
    by (intro unpack_all_defined) (auto simp: rball_init_def rb_wf_def)
  ultimately show ?thesis by (simp add: unpack_buffer_def del: unpack_all.simps)
next
  case False
  then show ?thesis by (simp add: unpack_buffer_def rball_init_def rb_read_def)
qed

text \<open>With a C stack without end the reader returns values or raises an error on every string. \<open>SeriStack\<close>
  has the reader with a bounded stack.\<close>

lemma unpack_total:
  "(\<exists>vs. luaseri_unpack (U_string s) = ret vs) \<or> (\<exists>e. luaseri_unpack (U_string s) = err e)"
proof -
  have "to_i32 (int (length s)) \<le> int (length s)"
  proof -
    have "(int (length s) + 2 ^ 31) mod 2 ^ 32 \<le> int (length s) + 2 ^ 31" by (rule zmod_le_nonneg_dividend) simp
    then show ?thesis by (simp add: to_i32_def)
  qed
  then have "luaseri_unpack (U_string s) \<noteq> None"
    using unpack_buffer_defined by (simp add: luaseri_unpack_def Let_def)
  then obtain r where r: "luaseri_unpack (U_string s) = Some r" by auto
  then show ?thesis by (cases r) (auto simp: ret_def err_def)
qed


section \<open>Sending arguments\<close>

lemma unpack_all_stream:
  "sendable_list vs \<Longrightarrow> rb_at buf (streams vs) rb \<Longrightarrow> length (streams vs) < k \<Longrightarrow>
     unpack_all k rb = ret (received_list vs)"
proof (induction vs arbitrary: k rb)
  case Nil
  then show ?case by (cases k) (auto simp: rb_read_def rb_at_def)
next
  case (Cons v vs)
  obtain k' where k': "k = Suc k'" using Cons.prems(3) by (cases k) auto
  have "decodes (stream v) (received v)" using Cons.prems(1) stream_decodes(1) by simp
  then obtain t c bs where d: "stream v = combine_type t c # bs" "0 \<le> t" "t < 8" "0 \<le> c" "c < 32"
      "\<And>buf rb rest k. rb_at buf (bs @ rest) rb \<Longrightarrow> 3 * length (bs @ rest) + 3 \<le> k \<Longrightarrow>
           reads buf (push_value k rb t c) (received v) rest"
    unfolding decodes_def by blast
  have "rb_at buf ([combine_type t c] @ bs @ streams vs) rb" using Cons.prems(2) d(1) by simp
  then obtain rb1 where r1: "rb_read rb 1 = (Some ([combine_type t c] @ bs @ streams vs), rb1)"
      "rb_at buf (bs @ streams vs) rb1"
    using rb_read_at [of buf "[combine_type t c]" "bs @ streams vs" rb] by auto
  have "length (bs @ streams vs) \<le> length (rb_buffer rb)"
    using r1(2) Cons.prems(2) by (auto simp: rb_at_def) (metis diff_le_self length_append length_drop)
  then have "reads buf (push_value (3 * length (rb_buffer rb) + 3) rb1 t c) (received v) (streams vs)"
    by (intro d(6) [OF r1(2)]) simp
  then obtain rb2 where r2: "push_value (3 * length (rb_buffer rb) + 3) rb1 t c = ret (received v, rb2)"
      "rb_at buf (streams vs) rb2"
    by (auto simp: reads_def)
  have "unpack_all k' rb2 = ret (received_list vs)"
    using Cons.IH [OF _ r2(2), of k'] Cons.prems k' d(1) by simp
  then show ?case unfolding k' using r1(1) r2(1) combine_type_parts [OF d(2-5)] by simp
qed

lemma unpack_stream:
  assumes "sendable_list vs" "length (streams vs) < 2 ^ 31"
  shows "luaseri_unpack (U_string (streams vs)) = ret (received_list vs)"
    "luaseri_unpack (U_block (Some (streams vs)) (int (length (streams vs)))) = ret (received_list vs)"
proof -
  have at: "rb_at (streams vs) (streams vs) (rball_init (streams vs) (int (length (streams vs))))"
    by (simp add: rb_at_def rball_init_def)
  have i: "to_i32 (int (length (streams vs))) = int (length (streams vs))"
    using assms(2) by (intro to_i32_id) (simp add: is_i32_def)
  have u: "unpack_buffer (streams vs) (int (length (streams vs))) = ret (received_list vs)"
    using unpack_all_stream [OF assms(1) at, of "length (streams vs) + 1"] by (simp add: unpack_buffer_def del: unpack_all.simps)
  have z: "received_list vs = []" if "streams vs = []"
  proof (cases vs)
    case (Cons v ws)
    then have "decodes (stream v) (received v)" using assms(1) stream_decodes(1) by simp
    then show ?thesis using that Cons by (auto simp: decodes_def)
  qed simp
  show "luaseri_unpack (U_string (streams vs)) = ret (received_list vs)"
    using u z i by (simp add: luaseri_unpack_def Let_def)
  show "luaseri_unpack (U_block (Some (streams vs)) (int (length (streams vs)))) = ret (received_list vs)"
    using u z i by (simp add: luaseri_unpack_def Let_def)
qed

text \<open>C10: Arguments that \<open>pack\<close> accepts are received by \<open>unpack\<close>, as a string or as a block, with
  equal values: numbers of every width, strings, nested tables with their array and hash parts.\<close>

theorem seri_roundtrip:
  assumes "luaseri_pack vs = ret (buf, n)" "sendable_list vs" "n < 2 ^ 31"
  shows "n = int (length buf) \<and> luaseri_unpack (U_block (Some buf) n) = ret (received_list vs) \<and>
    luaseri_unpack (U_string buf) = ret (received_list vs)"
proof -
  have "buf = streams vs" "n = int (length (streams vs))"
    using assms(1) unfolding seri_pack_streams by (auto split: option.splits simp: ret_def err_def)
  then show ?thesis using unpack_stream [OF assms(2)] assms(3) by auto
qed

definition demo_args :: "lval list" where
  "demo_args =
     [LInt 7, LInt (-1), LInt 0x123456789, LBool True, LNil, LStr [104, 105], LPtr 5, LReal 0x3ff8000000000000,
      LTab [LInt 0, LNil, LTab [] []] [(LInt 1, LInt 0), (LStr [107], LInt 300), (LInt 3, LTab [] [])]]"

lemma demo_args_streams:
  "luaseri_pack demo_args =
     ret ([10, 7, 34, 255, 255, 255, 255, 50, 137, 103, 69, 35, 1, 0, 0, 0, 9, 0, 20, 104, 105,
           3, 5, 0, 0, 0, 0, 0, 0, 0, 66, 0, 0, 0, 0, 0, 0, 248, 63,
           30, 2, 0, 6, 0, 12, 107, 18, 44, 1, 0], 50)"
  by code_simp

theorem seri_roundtrip_witness:
  "luaseri_unpack (U_string [10, 7, 34, 255, 255, 255, 255, 50, 137, 103, 69, 35, 1, 0, 0, 0, 9, 0, 20, 104, 105,
           3, 5, 0, 0, 0, 0, 0, 0, 0, 66, 0, 0, 0, 0, 0, 0, 248, 63,
           30, 2, 0, 6, 0, 12, 107, 18, 44, 1, 0]) =
     ret [LInt 7, LInt (-1), LInt 0x123456789, LBool True, LNil, LStr [104, 105], LPtr 5, LReal 0x3ff8000000000000,
      LTab [LInt 0, LNil, LTab [] []] [(LStr [107], LInt 300)]]"
proof -
  have s: "sendable_list demo_args" by (simp add: demo_args_def in_array_def key_nan_def)
  have r: "received_list demo_args =
      [LInt 7, LInt (-1), LInt 0x123456789, LBool True, LNil, LStr [104, 105], LPtr 5, LReal 0x3ff8000000000000,
      LTab [LInt 0, LNil, LTab [] []] [(LStr [107], LInt 300)]]" by (simp add: demo_args_def in_array_def)
  show ?thesis using seri_roundtrip [OF demo_args_streams s] r by simp
qed

fun nested :: "nat \<Rightarrow> lval" where
  "nested 0 = LNil"
| "nested (Suc n) = LTab [nested n] []"

lemma nested_facts:
  "stream (nested n) = replicate n 14 @ replicate (Suc n) 0" "sendable (nested n)" "received (nested n) = nested n"
  "pack_error d (nested n) = (if d + n > MAX_DEPTH then Some Too_deep else None)"
proof -
  have b: "size_stream (to_i32 1) = [14]" by code_simp
  show "stream (nested n) = replicate n 14 @ replicate (Suc n) 0"
    by (induction n) (auto simp: b replicate_append_same)
  show "sendable (nested n)" "received (nested n) = nested n" by (induction n) auto
  show "pack_error d (nested n) = (if d + n > MAX_DEPTH then Some Too_deep else None)"
    by (induction n arbitrary: d) auto
qed

text \<open>Packing refuses tables nested deeper than 32, but unpacking has no such limit: it follows
  a stream to any depth (by C recursion).\<close>

theorem seri_depth:
  assumes "2 * n + 1 < 2 ^ 31"
  shows "luaseri_unpack (U_string (replicate n 14 @ replicate (Suc n) 0)) = ret [nested n] \<and>
    (\<exists>r. luaseri_pack [nested n] = (if 32 < n then err Too_deep else ret r))"
proof -
  have s: "streams [nested n] = replicate n 14 @ replicate (Suc n) 0" by (simp add: nested_facts)
  have "luaseri_unpack (U_string (streams [nested n])) = ret [nested n]"
    using unpack_stream(1) [of "[nested n]"] assms by (simp add: nested_facts)
  moreover have "array_error 0 [nested n] = (if 32 < n then Some Too_deep else None)"
    by (simp add: nested_facts MAX_DEPTH_def)
  ultimately show ?thesis unfolding seri_pack_streams s by auto
qed

theorem seri_depth_witness:
  "luaseri_unpack (U_string (replicate 100000 14 @ replicate (Suc 100000) 0)) = ret [nested 100000]"
  using seri_depth [of 100000] by simp

text \<open>A string of 2 GB is packed as the empty string: its length becomes a negative \<open>int\<close>.\<close>

theorem seri_long_string:
  "luaseri_pack [LStr (replicate (2 ^ 31) b)] = ret ([4], 1) \<and> luaseri_unpack (U_string [4]) = ret [LStr []]"
proof -
  have i: "to_i32 (2 ^ 31) = - (2 ^ 31)" by code_simp
  have "str_stream (replicate (2 ^ 31) b) (- (2 ^ 31)) = [combine_type 4 (- (2 ^ 31))]"
    by (simp add: str_stream_def)
  also have "combine_type 4 (- (2 ^ 31)) = 4" by code_simp
  finally have "streams [LStr (replicate (2 ^ 31) b)] = [4]" using i by simp
  then have "luaseri_pack [LStr (replicate (2 ^ 31) b)] = ret ([4], 1)"
    unfolding seri_pack_streams by (simp add: MAX_DEPTH_def)
  moreover have "luaseri_unpack (U_string [4]) = ret [LStr []]" by code_simp
  ultimately show ?thesis ..
qed

end
