(* ===== verification/SeriStack.thy ===== *)
theory SeriStack
  imports Seri
begin

text \<open>
  The reader of \<open>lualib-src/lua-seri.c\<close> with the stack of C. \<open>unpack_table\<close> calls itself for a table in a table, through
  \<open>unpack_one\<close> and \<open>push_value\<close>, without a limit of its own. Here it has room for \<open>d\<close> of these calls, one inside the other,
  and running out of it is a fault; otherwise the definitions are those of \<open>Seri\<close>, whose reader has room without end.
\<close>

section \<open>The reader with a bounded stack\<close>

fun push_value_on :: "nat \<Rightarrow> nat \<Rightarrow> read_block \<Rightarrow> int \<Rightarrow> int \<Rightarrow> lval rresult"
  and unpack_one_on :: "nat \<Rightarrow> nat \<Rightarrow> read_block \<Rightarrow> lval rresult"
  and unpack_array_on :: "nat \<Rightarrow> nat \<Rightarrow> nat \<Rightarrow> read_block \<Rightarrow> lval list rresult"
  and unpack_hash_on :: "nat \<Rightarrow> nat \<Rightarrow> read_block \<Rightarrow> (lval \<times> lval) list rresult"
where
  "push_value_on d 0 rb type cookie = None"
| "push_value_on d (Suc k) rb type cookie =
     (if type = TYPE_TABLE then
        (case d of
           0 \<Rightarrow> None
         | Suc d \<Rightarrow>
             run_bind (read_array_size rb cookie) (\<lambda>(n, rb).
             run_bind (unpack_array_on d k (nat n) rb) (\<lambda>(xs, rb).
             run_bind (unpack_hash_on d k rb) (\<lambda>(ps, rb). ret (LTab xs ps, rb)))))
      else push_scalar rb type cookie)"
| "unpack_one_on d 0 rb = None"
| "unpack_one_on d (Suc k) rb =
     run_bind (read_bytes rb 1) (\<lambda>(p, rb).
       push_value_on d k rb (uint (p ! 0 AND 7)) (uint (drop_bit 3 (p ! 0))))"
| "unpack_array_on d 0 n rb = None"
| "unpack_array_on d (Suc k) n rb =
     (if n = 0 then ret ([], rb)
      else
        run_bind (unpack_one_on d k rb) (\<lambda>(x, rb).
        run_bind (unpack_array_on d k (n - 1) rb) (\<lambda>(xs, rb). ret (x # xs, rb))))"
| "unpack_hash_on d 0 rb = None"
| "unpack_hash_on d (Suc k) rb =
     run_bind (unpack_one_on d k rb) (\<lambda>(key, rb).
       if key = LNil then ret ([], rb)
       else
         run_bind (unpack_one_on d k rb) (\<lambda>(v, rb).
         if key_nan key then err Key_error
         else run_bind (unpack_hash_on d k rb) (\<lambda>(ps, rb). ret ((key, v) # ps, rb))))"

declare push_value_on.simps(2) [simp del] unpack_one_on.simps(2) [simp del]
  unpack_array_on.simps(2) [simp del] unpack_hash_on.simps(2) [simp del]

fun unpack_all_on :: "nat \<Rightarrow> nat \<Rightarrow> read_block \<Rightarrow> (seri_error, lval list) run" where
  "unpack_all_on d 0 rb = None"
| "unpack_all_on d (Suc k) rb =
     (case rb_read rb 1 of
        (None, rb') \<Rightarrow> ret []
      | (Some p, rb') \<Rightarrow>
          if p = [] then None
          else
            run_bind (push_value_on d (3 * length (rb_buffer rb) + 3) rb' (uint (p ! 0 AND 7)) (uint (drop_bit 3 (p ! 0)))) (\<lambda>(v, rb).
            run_bind (unpack_all_on d k rb) (\<lambda>vs. ret (v # vs))))"

definition unpack_buffer_on :: "nat \<Rightarrow> bytes \<Rightarrow> int \<Rightarrow> (seri_error, lval list) run" where
  "unpack_buffer_on d buf len =
     (if len > int (length buf) then None else unpack_all_on d (length buf + 1) (rball_init buf len))"

definition luaseri_unpack_on :: "nat \<Rightarrow> unpack_arg \<Rightarrow> (seri_error, lval list) run" where
  "luaseri_unpack_on d arg =
     (case arg of
        U_none \<Rightarrow> ret []
      | U_string s \<Rightarrow>
          (let len = to_i32 (int (length s)) in if len = 0 then ret [] else unpack_buffer_on d s len)
      | U_block b len \<Rightarrow>
          (let len = to_i32 len in
           if len = 0 then ret []
           else (case b of None \<Rightarrow> err Null_pointer | Some buf \<Rightarrow> unpack_buffer_on d buf len)))"

section \<open>What is left to read\<close>

text \<open>A read leaves an end of what was to be read.\<close>

definition rest_of :: "read_block \<Rightarrow> read_block \<Rightarrow> bool" where
  "rest_of rb rb' \<longleftrightarrow> rb_wf rb' \<and> rb_buffer rb' = rb_buffer rb \<and> rb_ptr rb' + rb_len rb' = rb_ptr rb + rb_len rb \<and> rb_ptr rb \<le> rb_ptr rb'"

definition leaves_rest :: "read_block \<Rightarrow> 'a rresult \<Rightarrow> bool" where
  "leaves_rest rb m \<longleftrightarrow> (\<forall>x rb'. m = Some (Inr (x, rb')) \<longrightarrow> rest_of rb rb')"

lemma rest_of_refl: "rb_wf rb \<Longrightarrow> rest_of rb rb" by (simp add: rest_of_def)

lemma rest_of_trans: "rest_of a b \<Longrightarrow> rest_of b c \<Longrightarrow> rest_of a c" by (simp add: rest_of_def)

lemma rest_of_wf: "rest_of rb rb' \<Longrightarrow> rb_wf rb'" by (simp add: rest_of_def)

lemma leaves_rest_ret: "rest_of rb rb' \<Longrightarrow> leaves_rest rb (ret (x, rb'))" by (simp add: leaves_rest_def ret_def)

lemma leaves_rest_none [simp]: "leaves_rest rb None" "leaves_rest rb (err e)" "leaves_rest rb (invalid_stream rb')"
  by (simp_all add: leaves_rest_def err_def invalid_stream_def)

lemma leaves_rest_bind:
  assumes "leaves_rest rb m" "\<And>x rb'. m = Some (Inr (x, rb')) \<Longrightarrow> rest_of rb rb' \<Longrightarrow> leaves_rest rb (f (x, rb'))"
  shows "leaves_rest rb (run_bind m f)"
proof (cases "\<exists>y. m = Some (Inr y)")
  case True
  then obtain x rb' where m: "m = Some (Inr (x, rb'))" by (metis surj_pair)
  then have "rest_of rb rb'" using assms(1) by (simp add: leaves_rest_def)
  then show ?thesis using assms(2) [OF m] by (simp add: m)
next
  case False
  then have "m = None \<or> (\<exists>e. m = Some (Inl e))" by (metis obj_sumE option.exhaust)
  then show ?thesis by (auto simp: leaves_rest_def)
qed

lemma leaves_rest_from: "rest_of rb rb' \<Longrightarrow> leaves_rest rb' m \<Longrightarrow> leaves_rest rb m"
  unfolding leaves_rest_def using rest_of_trans by blast

lemma leaves_rest_bytes: "rb_wf rb \<Longrightarrow> leaves_rest rb (read_bytes rb n)"
  by (auto simp: read_bytes_def rb_read_def rest_of_def rb_wf_def leaves_rest_def ret_def invalid_stream_def err_def split: if_splits)

lemma leaves_rest_buffer: "rb_wf rb \<Longrightarrow> leaves_rest rb (get_buffer rb n)"
  by (auto simp: get_buffer_def rb_read_def rest_of_def rb_wf_def leaves_rest_def ret_def invalid_stream_def err_def split: if_splits)

lemma leaves_rest_integer: "rb_wf rb \<Longrightarrow> leaves_rest rb (get_integer rb c)"
  by (auto simp: get_integer_def intro!: leaves_rest_ret rest_of_refl leaves_rest_bind [OF leaves_rest_bytes])

lemma leaves_rest_scalar: "rb_wf rb \<Longrightarrow> leaves_rest rb (push_scalar rb t c)"
  by (auto simp: push_scalar_def get_real_def get_pointer_def
      intro!: leaves_rest_ret rest_of_refl leaves_rest_bind [OF leaves_rest_bind [OF leaves_rest_bytes]] leaves_rest_bind [OF leaves_rest_bytes]
        leaves_rest_bind [OF leaves_rest_buffer] leaves_rest_bind [OF leaves_rest_integer] leaves_rest_bind [OF leaves_rest_from [OF _ leaves_rest_buffer]]
      intro: rest_of_wf)

lemma leaves_rest_array_size: "rb_wf rb \<Longrightarrow> leaves_rest rb (read_array_size rb c)"
  by (auto simp: read_array_size_def Let_def
      intro!: leaves_rest_ret rest_of_refl leaves_rest_bind [OF leaves_rest_bytes] leaves_rest_bind [OF leaves_rest_from [OF _ leaves_rest_integer]]
      intro: rest_of_wf)

lemma unpack_leaves:
  "rb_wf rb \<Longrightarrow> leaves_rest rb (push_value k rb t c)"
  "rb_wf rb \<Longrightarrow> leaves_rest rb (unpack_one k rb)"
  "rb_wf rb \<Longrightarrow> leaves_rest rb (unpack_array k n rb)"
  "rb_wf rb \<Longrightarrow> leaves_rest rb (unpack_hash k rb)"
proof (induction k arbitrary: rb t c n)
  case (Suc k)
  note from_rest = leaves_rest_from [OF _ Suc.IH(1)] leaves_rest_from [OF _ Suc.IH(2)] leaves_rest_from [OF _ Suc.IH(3)]
    leaves_rest_from [OF _ Suc.IH(4)]
  {
    case 1
    then show ?case
      by (auto simp: push_value.simps(2) leaves_rest_scalar rest_of_wf
          intro!: leaves_rest_bind [OF leaves_rest_array_size] leaves_rest_bind [OF from_rest(3)] leaves_rest_bind [OF from_rest(4)] leaves_rest_ret)
  next
    case 2
    then show ?case by (auto simp: unpack_one.simps(2) rest_of_wf intro!: leaves_rest_bind [OF leaves_rest_bytes] from_rest(1))
  next
    case 3
    then show ?case
      by (auto simp: unpack_array.simps(2) rest_of_wf rest_of_refl
          intro!: leaves_rest_ret leaves_rest_bind [OF Suc.IH(2)] leaves_rest_bind [OF from_rest(3)])
  next
    case 4
    then show ?case
      by (auto simp: unpack_hash.simps(2) rest_of_wf
          intro!: leaves_rest_ret leaves_rest_bind [OF Suc.IH(2)] leaves_rest_bind [OF from_rest(2)] leaves_rest_bind [OF from_rest(4)])
  }
qed simp_all

section \<open>Enough room\<close>

text \<open>The bytes that are left, and those among them that could open a table.\<close>

definition left :: "read_block \<Rightarrow> bytes" where
  "left rb = take (nat (rb_len rb)) (drop (nat (rb_ptr rb)) (rb_buffer rb))"

definition opens_table :: "u8 \<Rightarrow> bool" where
  "opens_table b \<longleftrightarrow> b AND 7 = 6"

definition openers :: "bytes \<Rightarrow> nat" where
  "openers s = length (filter opens_table s)"

lemma openers_simps [simp]:
  "openers [] = 0" "openers (b # s) = (if opens_table b then 1 else 0) + openers s" "openers (s @ t) = openers s + openers t"
  by (simp_all add: openers_def)

lemma opens_table_uint: "opens_table b \<longleftrightarrow> uint (b AND 7) = TYPE_TABLE"
proof -
  have "uint (6 :: u8) = TYPE_TABLE" by (simp add: TYPE_TABLE_def)
  then show ?thesis unfolding opens_table_def by (metis word_uint_eq_iff)
qed

lemma left_rest:
  assumes "rest_of rb rb'" "rb_wf rb"
  shows "left rb' = drop (nat (rb_ptr rb' - rb_ptr rb)) (left rb)"
proof -
  have "nat (rb_ptr rb' - rb_ptr rb) + nat (rb_ptr rb) = nat (rb_ptr rb')"
    "nat (rb_len rb) - nat (rb_ptr rb' - rb_ptr rb) = nat (rb_len rb')" "rb_buffer rb' = rb_buffer rb"
    using assms by (auto simp: rest_of_def rb_wf_def)
  then show ?thesis by (simp add: left_def drop_take)
qed

lemma openers_rest: "rest_of rb rb' \<Longrightarrow> rb_wf rb \<Longrightarrow> openers (left rb') \<le> openers (left rb)"
  using left_rest [of rb rb'] append_take_drop_id [of "nat (rb_ptr rb' - rb_ptr rb)" "left rb"]
  by (metis le_add2 openers_simps(3))

lemma read_byte:
  assumes "rb_wf rb" "read_bytes rb 1 = Some (Inr (p, rb'))"
  shows "left rb = p ! 0 # left rb'"
proof -
  have l: "1 \<le> rb_len rb" "p = take 1 (drop (nat (rb_ptr rb)) (rb_buffer rb))"
      "rb' = rb\<lparr>rb_ptr := rb_ptr rb + 1, rb_len := rb_len rb - 1\<rparr>"
    using assms(2) by (auto simp: read_bytes_def rb_read_def ret_def invalid_stream_def err_def split: if_splits)
  obtain b s where s: "drop (nat (rb_ptr rb)) (rb_buffer rb) = b # s"
    using l(1) assms(1) by (cases "drop (nat (rb_ptr rb)) (rb_buffer rb)") (auto simp: rb_wf_def)
  have "drop (nat (rb_ptr rb + 1)) (rb_buffer rb) = s"
    using s assms(1) by (metis Suc_eq_plus1 drop_Suc list.sel(3) nat_add_distrib nat_one_as_int rb_wf_def tl_drop zero_le_one nat_1)
  moreover have "nat (rb_len rb) = Suc (nat (rb_len rb - 1))" using l(1) by simp
  ultimately show ?thesis using l s by (simp add: left_def)
qed

lemma run_bind_cong:
  assumes "m = m'" "\<And>x rb. m = Some (Inr (x, rb)) \<Longrightarrow> f (x, rb) = g (x, rb)"
  shows "run_bind m f = run_bind m' g"
proof (cases "\<exists>y. m = Some (Inr y)")
  case True
  then show ?thesis using assms by (metis (no_types, lifting) run_bind_simps surj_pair)
next
  case False
  then have "m = None \<or> (\<exists>e. m = Some (Inl e))" by (metis obj_sumE option.exhaust)
  then show ?thesis using assms(1) by auto
qed

text \<open>With room for as many calls as there are such bytes, the reader is the one without limit.\<close>

lemma enough_room:
  "rb_wf rb \<Longrightarrow> openers (left rb) + (if t = TYPE_TABLE then 1 else 0) \<le> d \<Longrightarrow> push_value_on d k rb t c = push_value k rb t c"
  "rb_wf rb \<Longrightarrow> openers (left rb) \<le> d \<Longrightarrow> unpack_one_on d k rb = unpack_one k rb"
  "rb_wf rb \<Longrightarrow> openers (left rb) \<le> d \<Longrightarrow> unpack_array_on d k n rb = unpack_array k n rb"
  "rb_wf rb \<Longrightarrow> openers (left rb) \<le> d \<Longrightarrow> unpack_hash_on d k rb = unpack_hash k rb"
proof (induction k arbitrary: rb t c n d)
  case (Suc k)
  have rest: "rb_wf rb'" "openers (left rb') \<le> e" "rest_of a rb'"
    if "leaves_rest a m" "m = Some (Inr (x, rb'))" "rb_wf a" "openers (left a) \<le> e" for a rb' m x e
    using that openers_rest [of a rb'] by (auto simp: leaves_rest_def rest_of_wf)
  {
    case 1
    show ?case
    proof (cases "t = TYPE_TABLE")
      case True
      then obtain e where d: "d = Suc e" "openers (left rb) \<le> e" using 1 by (cases d) auto
      let ?h = "\<lambda>xs. \<lambda>(ps, rb). ret (LTab xs ps, rb)"
      have a: "run_bind (unpack_array_on e k n rb1) (\<lambda>(xs, rb). run_bind (unpack_hash_on e k rb) (?h xs)) =
          run_bind (unpack_array k n rb1) (\<lambda>(xs, rb). run_bind (unpack_hash k rb) (?h xs))" if w: "rb_wf rb1" "openers (left rb1) \<le> e" for n rb1
      proof (rule run_bind_cong [OF Suc.IH(3) [OF w]])
        fix xs rb2 assume "unpack_array_on e k n rb1 = Some (Inr (xs, rb2))"
        then have "unpack_array k n rb1 = Some (Inr (xs, rb2))" by (simp add: Suc.IH(3) [OF w])
        from Suc.IH(4) [OF rest(1,2) [OF unpack_leaves(3) [OF w(1)] this w]]
        show "(case (xs, rb2) of (xs, rb) \<Rightarrow> run_bind (unpack_hash_on e k rb) (?h xs)) =
            (case (xs, rb2) of (xs, rb) \<Rightarrow> run_bind (unpack_hash k rb) (?h xs))" by simp
      qed
      have "run_bind (read_array_size rb c) (\<lambda>(n, rb). run_bind (unpack_array_on e k (nat n) rb) (\<lambda>(xs, rb). run_bind (unpack_hash_on e k rb) (?h xs))) =
          run_bind (read_array_size rb c) (\<lambda>(n, rb). run_bind (unpack_array k (nat n) rb) (\<lambda>(xs, rb). run_bind (unpack_hash k rb) (?h xs)))"
      proof (rule run_bind_cong [OF refl])
        fix n rb1 assume "read_array_size rb c = Some (Inr (n, rb1))"
        from a [OF rest(1,2) [OF leaves_rest_array_size [OF 1(1)] this 1(1) d(2)]]
        show "(case (n, rb1) of (n, rb) \<Rightarrow> run_bind (unpack_array_on e k (nat n) rb) (\<lambda>(xs, rb). run_bind (unpack_hash_on e k rb) (?h xs))) =
            (case (n, rb1) of (n, rb) \<Rightarrow> run_bind (unpack_array k (nat n) rb) (\<lambda>(xs, rb). run_bind (unpack_hash k rb) (?h xs)))" by simp
      qed
      then show ?thesis using True by (simp add: d(1) push_value.simps(2) push_value_on.simps(2))
    next
      case False
      then show ?thesis by (simp add: push_value.simps(2) push_value_on.simps(2))
    qed
  next
    case 2
    have "push_value_on d k rb' (uint (p ! 0 AND 7)) c = push_value k rb' (uint (p ! 0 AND 7)) c"
      if r: "read_bytes rb 1 = Some (Inr (p, rb'))" for p rb' c
    proof (rule Suc.IH(1))
      show "rb_wf rb'" using rest(1) [OF leaves_rest_bytes [OF 2(1)] r 2] .
      show "openers (left rb') + (if uint (p ! 0 AND 7) = TYPE_TABLE then 1 else 0) \<le> d"
        using 2 read_byte [OF 2(1) r] by (simp add: opens_table_uint)
    qed
    then show ?case by (auto simp: unpack_one.simps(2) unpack_one_on.simps(2) intro!: run_bind_cong)
  next
    case 3
    have "run_bind (unpack_one k rb) (\<lambda>(x, rb). run_bind (unpack_array_on d k (n - 1) rb) (\<lambda>(xs, rb). ret (x # xs, rb))) =
        run_bind (unpack_one k rb) (\<lambda>(x, rb). run_bind (unpack_array k (n - 1) rb) (\<lambda>(xs, rb). ret (x # xs, rb)))"
    proof (rule run_bind_cong [OF refl])
      fix x rb1 assume "unpack_one k rb = Some (Inr (x, rb1))"
      from Suc.IH(3) [OF rest(1,2) [OF unpack_leaves(2) [OF 3(1)] this 3]]
      show "(case (x, rb1) of (x, rb) \<Rightarrow> run_bind (unpack_array_on d k (n - 1) rb) (\<lambda>(xs, rb). ret (x # xs, rb))) =
          (case (x, rb1) of (x, rb) \<Rightarrow> run_bind (unpack_array k (n - 1) rb) (\<lambda>(xs, rb). ret (x # xs, rb)))" by simp
    qed
    then show ?case by (simp add: unpack_array.simps(2) unpack_array_on.simps(2) Suc.IH(2) [OF 3])
  next
    case (4 rb d)
    let ?p = "\<lambda>h key v. \<lambda>rb. if key_nan key then err Key_error else run_bind (h rb) (\<lambda>(ps, rb). ret ((key, v) # ps, rb))"
    have v: "run_bind (unpack_one_on d k rb1) (\<lambda>(v, rb). ?p (unpack_hash_on d k) key v rb) =
        run_bind (unpack_one k rb1) (\<lambda>(v, rb). ?p (unpack_hash k) key v rb)" if w: "rb_wf rb1" "openers (left rb1) \<le> d" for key rb1
    proof (rule run_bind_cong [OF Suc.IH(2) [OF w]])
      fix v rb2 assume "unpack_one_on d k rb1 = Some (Inr (v, rb2))"
      then have "unpack_one k rb1 = Some (Inr (v, rb2))" by (simp add: Suc.IH(2) [OF w])
      from Suc.IH(4) [OF rest(1,2) [OF unpack_leaves(2) [OF w(1)] this w]]
      show "(case (v, rb2) of (v, rb) \<Rightarrow> ?p (unpack_hash_on d k) key v rb) = (case (v, rb2) of (v, rb) \<Rightarrow> ?p (unpack_hash k) key v rb)" by simp
    qed
    have "run_bind (unpack_one k rb) (\<lambda>(key, rb). if key = LNil then ret ([], rb)
          else run_bind (unpack_one_on d k rb) (\<lambda>(v, rb). ?p (unpack_hash_on d k) key v rb)) =
        run_bind (unpack_one k rb) (\<lambda>(key, rb). if key = LNil then ret ([], rb)
          else run_bind (unpack_one k rb) (\<lambda>(v, rb). ?p (unpack_hash k) key v rb))"
    proof (rule run_bind_cong [OF refl])
      fix key rb1 assume "unpack_one k rb = Some (Inr (key, rb1))"
      from v [OF rest(1,2) [OF unpack_leaves(2) [OF 4(1)] this 4]]
      show "(case (key, rb1) of (key, rb) \<Rightarrow> if key = LNil then ret ([], rb)
            else run_bind (unpack_one_on d k rb) (\<lambda>(v, rb). ?p (unpack_hash_on d k) key v rb)) =
          (case (key, rb1) of (key, rb) \<Rightarrow> if key = LNil then ret ([], rb)
            else run_bind (unpack_one k rb) (\<lambda>(v, rb). ?p (unpack_hash k) key v rb))" by simp
    qed
    then show ?case by (simp add: unpack_hash.simps(2) unpack_hash_on.simps(2) Suc.IH(2) [OF 4])
  }
qed simp_all

lemma all_enough_room:
  "rb_wf rb \<Longrightarrow> openers (left rb) \<le> d \<Longrightarrow> unpack_all_on d k rb = unpack_all k rb"
proof (induction k arbitrary: rb)
  case (Suc k)
  show ?case
  proof (cases "rb_len rb < 1")
    case True
    then show ?thesis by (simp add: rb_read_def)
  next
    case False
    let ?rb = "rb\<lparr>rb_ptr := rb_ptr rb + 1, rb_len := rb_len rb - 1\<rparr>"
    let ?p = "drop (nat (rb_ptr rb)) (rb_buffer rb)" and ?f = "3 * length (rb_buffer rb) + 3"
    have ne: "?p \<noteq> []" using False Suc.prems(1) by (auto simp: rb_wf_def)
    then have b: "read_bytes rb 1 = Some (Inr (take 1 ?p, ?rb))"
      using False by (cases ?p) (simp_all add: read_bytes_def rb_read_def ret_def)
    have w: "rb_wf ?rb" using False Suc.prems(1) by (simp add: rb_wf_def)
    have o: "openers (left ?rb) + (if uint (?p ! 0 AND 7) = TYPE_TABLE then 1 else 0) \<le> d" "openers (left ?rb) \<le> d"
      using Suc.prems(2) read_byte [OF Suc.prems(1) b] ne by (auto simp: opens_table_uint)
    note e = enough_room(1) [OF w o(1)]
    have "run_bind (push_value_on d ?f ?rb (uint (?p ! 0 AND 7)) c) (\<lambda>(v, rb). run_bind (unpack_all_on d k rb) (\<lambda>vs. ret (v # vs))) =
        run_bind (push_value ?f ?rb (uint (?p ! 0 AND 7)) c) (\<lambda>(v, rb). run_bind (unpack_all k rb) (\<lambda>vs. ret (v # vs)))" for c
    proof (rule run_bind_cong [OF e])
      fix v rb1 assume "push_value_on d ?f ?rb (uint (?p ! 0 AND 7)) c = Some (Inr (v, rb1))"
      then have "rest_of ?rb rb1" using unpack_leaves(1) [OF w] by (simp add: e leaves_rest_def)
      then have "rb_wf rb1" "openers (left rb1) \<le> d" using openers_rest [OF _ w] o(2) by (auto simp: rest_of_wf intro: le_trans)
      from Suc.IH [OF this]
      show "(case (v, rb1) of (v, rb) \<Rightarrow> run_bind (unpack_all_on d k rb) (\<lambda>vs. ret (v # vs))) =
          (case (v, rb1) of (v, rb) \<Rightarrow> run_bind (unpack_all k rb) (\<lambda>vs. ret (v # vs)))" by simp
    qed
    then show ?thesis using False ne by (simp add: rb_read_def)
  qed
qed simp

text \<open>How deep the tables of a value are nested; what a table holds twice counts too.\<close>

fun nesting :: "lval \<Rightarrow> nat" where
  "nesting (LTab xs ps) = Suc (max (foldr (\<lambda>x n. max (nesting x) n) xs 0) (foldr (\<lambda>p n. max (max (nesting (fst p)) (nesting (snd p))) n) ps 0))"
| "nesting v = 0"

definition nesting_list :: "lval list \<Rightarrow> nat" where "nesting_list xs = foldr (\<lambda>x n. max (nesting x) n) xs 0"

definition nesting_pairs :: "(lval \<times> lval) list \<Rightarrow> nat" where
  "nesting_pairs ps = foldr (\<lambda>p n. max (max (nesting (fst p)) (nesting (snd p))) n) ps 0"

lemma nesting_simps [simp]:
  "nesting_list [] = 0" "nesting_list (x # xs) = max (nesting x) (nesting_list xs)"
  "nesting_pairs [] = 0" "nesting_pairs ((a, b) # ps) = max (max (nesting a) (nesting b)) (nesting_pairs ps)"
  by (simp_all add: nesting_list_def nesting_pairs_def)

lemma nesting_tab: "nesting (LTab xs ps) = Suc (max (nesting_list xs) (nesting_pairs ps))"
  by (simp add: nesting_list_def nesting_pairs_def)

lemma nesting_list_le: "nesting_list xs \<le> d \<longleftrightarrow> list_all (\<lambda>v. nesting v \<le> d) xs"
  by (induction xs) auto

text \<open>Values that are nested no deeper than there is room are read.\<close>

lemma values_enough_room:
  "push_value k rb t c = Some (Inr (v, rb')) \<Longrightarrow> nesting v \<le> d \<Longrightarrow> push_value_on d k rb t c = Some (Inr (v, rb'))"
  "unpack_one k rb = Some (Inr (v, rb')) \<Longrightarrow> nesting v \<le> d \<Longrightarrow> unpack_one_on d k rb = Some (Inr (v, rb'))"
  "unpack_array k n rb = Some (Inr (xs, rb')) \<Longrightarrow> nesting_list xs \<le> d \<Longrightarrow> unpack_array_on d k n rb = Some (Inr (xs, rb'))"
  "unpack_hash k rb = Some (Inr (ps, rb')) \<Longrightarrow> nesting_pairs ps \<le> d \<Longrightarrow> unpack_hash_on d k rb = Some (Inr (ps, rb'))"
proof (induction k arbitrary: rb t c v n xs ps d rb')
  case (Suc k)
  {
    case 1
    show ?case
    proof (cases "t = TYPE_TABLE")
      case True
      obtain n rb1 xs rb2 ps where s: "read_array_size rb c = Some (Inr (n, rb1))" "unpack_array k (nat n) rb1 = Some (Inr (xs, rb2))"
        "unpack_hash k rb2 = Some (Inr (ps, rb'))" "v = LTab xs ps"
        using 1(1) True by (auto simp: push_value.simps(2) run_bind_ret_iff)
      obtain e where e: "d = Suc e" "nesting_list xs \<le> e" "nesting_pairs ps \<le> e" using 1(2) s(4) by (cases d) (auto simp: nesting_tab simp del: nesting.simps)
      show ?thesis using True s Suc.IH(3) [OF s(2) e(2)] Suc.IH(4) [OF s(3) e(3)] by (simp add: push_value_on.simps(2) e(1))
    next
      case False
      then show ?thesis using 1 by (simp add: push_value.simps(2) push_value_on.simps(2))
    qed
  next
    case 2
    then show ?case using Suc.IH(1) by (auto simp: unpack_one.simps(2) unpack_one_on.simps(2) run_bind_ret_iff)
  next
    case 3
    then show ?case using Suc.IH(2,3) by (auto simp: unpack_array.simps(2) unpack_array_on.simps(2) run_bind_ret_iff split: if_splits)
  next
    case 4
    then show ?case using Suc.IH(2,4) by (auto simp: unpack_hash.simps(2) unpack_hash_on.simps(2) run_bind_ret_iff split: if_splits)
  }
qed simp_all

lemma all_values_enough_room:
  "unpack_all k rb = Some (Inr vs) \<Longrightarrow> list_all (\<lambda>v. nesting v \<le> d) vs \<Longrightarrow> unpack_all_on d k rb = Some (Inr vs)"
proof (induction k arbitrary: rb vs)
  case (Suc k)
  then show ?case using values_enough_room(1)
    by (auto simp: run_bind_ret_iff split: option.splits prod.splits if_splits) 
qed simp

lemma string_length: "to_i32 (int (length s)) \<le> int (length s)"
proof -
  have "(int (length s) + 2 ^ 31) mod 2 ^ 32 \<le> int (length s) + 2 ^ 31" by (rule zmod_le_nonneg_dividend) simp
  then show ?thesis by (simp add: to_i32_def)
qed

lemma string_enough_room:
  assumes "openers s \<le> d"
  shows "luaseri_unpack_on d (U_string s) = luaseri_unpack (U_string s)"
proof -
  let ?n = "to_i32 (int (length s))" and ?rb = "rball_init s (to_i32 (int (length s)))"
  have "unpack_all_on d (length s + 1) ?rb = unpack_all (length s + 1) ?rb"
  proof (cases "0 \<le> ?n")
    case True
    have "openers (left ?rb) \<le> openers (take (nat ?n) s) + openers (drop (nat ?n) s)" by (simp add: left_def rball_init_def)
    also have "\<dots> = openers s" by (metis append_take_drop_id openers_simps(3))
    finally show ?thesis using assms True string_length [of s]
      by (intro all_enough_room) (auto simp: rb_wf_def rball_init_def)
  next
    case False
    then show ?thesis by (simp add: rball_init_def rb_read_def)
  qed
  then show ?thesis by (simp only: luaseri_unpack_on_def luaseri_unpack_def unpack_buffer_on_def unpack_buffer_def unpack_arg.case Let_def)
qed

lemma string_values_enough_room:
  assumes "luaseri_unpack (U_string s) = ret vs" "list_all (\<lambda>v. nesting v \<le> d) vs"
  shows "luaseri_unpack_on d (U_string s) = ret vs"
proof -
  have "unpack_all_on d (length s + 1) rb = Some (Inr vs)" if "unpack_all (length s + 1) rb = Some (Inr vs)" for rb
    using all_values_enough_room [OF that assms(2)] .
  then show ?thesis using assms(1)
    by (auto simp: luaseri_unpack_on_def luaseri_unpack_def unpack_buffer_on_def unpack_buffer_def Let_def ret_def
        simp del: unpack_all.simps unpack_all_on.simps split: if_splits)
qed

section \<open>Properties\<close>

text \<open>C26: The reader is safe on every string whatever it holds, as long as the C stack has room for one call of
  \<open>unpack_table\<close> for each byte of the string that could open a table, or for as many calls as the values in it are nested:
  it returns values or raises an error, the same as with a stack without end, reads nothing outside the string, and ends.\<close>

theorem seri_unpack_safe:
  assumes "openers s \<le> d \<or> (\<exists>vs. luaseri_unpack (U_string s) = ret vs \<and> list_all (\<lambda>v. nesting v \<le> d) vs)"
  shows "luaseri_unpack_on d (U_string s) = luaseri_unpack (U_string s) \<and>
    ((\<exists>vs. luaseri_unpack_on d (U_string s) = ret vs) \<or> (\<exists>e. luaseri_unpack_on d (U_string s) = err e))"
proof -
  have "luaseri_unpack_on d (U_string s) = luaseri_unpack (U_string s)"
    using assms string_enough_room string_values_enough_room by metis
  then show ?thesis using unpack_total [of s] by simp
qed

lemma nesting_nested: "nesting (nested n) = n"
  by (induction n) simp_all

theorem seri_unpack_safe_witness:
  "luaseri_unpack_on 1 (U_string [14, 31, 0]) = luaseri_unpack (U_string [14, 31, 0]) \<and>
    luaseri_unpack_on 3 (U_string (replicate 3 14 @ replicate (Suc 3) 0)) = ret [nested 3]"
proof
  have "openers [14, 31, 0] \<le> 1" by code_simp
  then show "luaseri_unpack_on 1 (U_string [14, 31, 0]) = luaseri_unpack (U_string [14, 31, 0])"
    using seri_unpack_safe [of "[14, 31, 0]" 1] by blast
  have u: "luaseri_unpack (U_string (replicate 3 14 @ replicate (Suc 3) 0)) = ret [nested 3]"
    by (rule conjunct1 [OF seri_depth]) simp
  moreover have "list_all (\<lambda>v. nesting v \<le> 3) [nested 3]" by (simp add: nesting_nested)
  ultimately show "luaseri_unpack_on 3 (U_string (replicate 3 14 @ replicate (Suc 3) 0)) = ret [nested 3]"
    using seri_unpack_safe [of "replicate 3 14 @ replicate (Suc 3) 0" 3] by metis
qed

text \<open>What \<open>pack\<close> accepts is read with room for 33 calls.\<close>

lemma packed_nesting:
  "pack_error d v = None \<Longrightarrow> sendable v \<Longrightarrow> nesting (received v) + d \<le> 33"
  "array_error d xs = None \<Longrightarrow> sendable_list xs \<Longrightarrow> d \<le> 33 \<Longrightarrow> nesting_list (received_list xs) + d \<le> 33"
  "pairs_error d skip ps = None \<Longrightarrow> sendable_pairs skip ps \<Longrightarrow> d \<le> 33 \<Longrightarrow> nesting_pairs (received_pairs skip ps) + d \<le> 33"
proof (induction v and xs and skip ps arbitrary: d and d and d rule: sendable_sendable_list_sendable_pairs.induct)
  case (1 xs ps)
  have i: "to_i32 (int (length xs)) = int (length xs)" using 1(4) by (intro to_i32_id) (simp add: is_i32_def)
  have e: "d \<le> 32" "array_error (Suc d) xs = None" "pairs_error (Suc d) (in_array (int (length xs))) ps = None"
    using 1(3) i by (auto simp: first_error_def MAX_DEPTH_def split: if_splits option.splits)
  show ?case using 1(1) [OF e(2)] 1(2) [OF e(3)] 1(4) e(1) by (simp add: nesting_tab del: nesting.simps)
next
  case (2 ps ok)
  then have e: "d \<le> 32" "pairs_error (Suc d) (\<lambda>_. False) ps = None"
    by (auto simp: first_error_def MAX_DEPTH_def split: if_splits option.splits)
  show ?case using 2(1) [OF e(2)] 2(3) e(1) by (simp add: nesting_tab del: nesting.simps)
qed (auto simp: first_error_def MAX_DEPTH_def max_def split: if_splits option.splits)

lemma packed_room:
  assumes "luaseri_pack vs = ret (buf, n)" "sendable_list vs" "n < 2 ^ 31"
  shows "luaseri_unpack_on 33 (U_string buf) = ret (received_list vs)"
proof (rule string_values_enough_room)
  show "luaseri_unpack (U_string buf) = ret (received_list vs)"
    using assms unpack_stream [OF assms(2)] by (auto simp: seri_pack_streams split: option.splits)
  have "array_error 0 vs = None" using assms(1) by (auto simp: seri_pack_streams split: option.splits)
  then show "list_all (\<lambda>v. nesting v \<le> 33) (received_list vs)"
    using packed_nesting(2) [of 0 vs] assms(2) by (simp add: nesting_list_le [symmetric])
qed

text \<open>More bytes \<open>0x0e\<close> than there is room for exhaust the stack; with enough room they are an invalid stream.\<close>

lemma nested_exhausts:
  "rb_wf rb \<Longrightarrow> left rb = replicate m 14 \<Longrightarrow> d \<le> m \<Longrightarrow> push_value_on d k rb TYPE_TABLE 1 = None"
proof (induction d arbitrary: m k rb)
  case 0
  then show ?case by (cases k) (simp_all add: push_value_on.simps(2))
next
  case (Suc d)
  have b: "push_value_on d k' rb' (uint (p ! 0 AND 7)) (uint (drop_bit 3 (p ! 0))) = None"
    if r: "read_bytes rb 1 = Some (Inr (p, rb'))" for p rb' k'
  proof -
    have l: "p ! 0 = 14" "left rb' = replicate (m - 1) 14" using read_byte [OF Suc.prems(1) r] Suc.prems(2,3) by (cases m; simp)+
    have w: "rb_wf rb'" using leaves_rest_bytes [OF Suc.prems(1), of 1] r by (simp add: leaves_rest_def rest_of_wf)
    have c: "uint (14 AND 7 :: u8) = TYPE_TABLE" "uint (drop_bit 3 (14 :: u8)) = 1" by code_simp+
    have "d \<le> m - 1" using Suc.prems(3) by simp
    from Suc.IH [OF w l(2) this, of k'] show ?thesis unfolding l(1) c .
  qed
  have "left rb \<noteq> []" using Suc.prems(2,3) by (cases m) simp_all
  then have len: "1 \<le> rb_len rb" "drop (nat (rb_ptr rb)) (rb_buffer rb) \<noteq> []" by (auto simp: left_def)
  then obtain y where y: "read_bytes rb 1 = Some (Inr y)"
    by (cases "drop (nat (rb_ptr rb)) (rb_buffer rb)") (auto simp: read_bytes_def rb_read_def ret_def)
  have one: "unpack_one_on d k' rb = None" for k'
    using y b by (cases k'; cases y) (simp_all add: unpack_one_on.simps(2))
  have "read_array_size rb 1 = ret (1, rb)" by (simp add: read_array_size_def MAX_COOKIE_def)
  then show ?case using one by (cases k; cases "k - 1") (simp_all add: push_value_on.simps(2) unpack_array_on.simps(2))
qed

lemma seri_unpack_exhausts:
  assumes "d < n" "n < 2 ^ 31"
  shows "luaseri_unpack_on d (U_string (replicate n 14)) = None"
    "(\<exists>vs. luaseri_unpack_on n (U_string (replicate n 14)) = ret vs) \<or> (\<exists>e. luaseri_unpack_on n (U_string (replicate n 14)) = err e)"
proof -
  let ?s = "replicate n (14 :: u8)" and ?rb = "rball_init (replicate n (14 :: u8)) (int n)"
  let ?rb1 = "?rb\<lparr>rb_ptr := rb_ptr ?rb + 1, rb_len := rb_len ?rb - 1\<rparr>"
  have i: "to_i32 (int n) = int n" using assms(2) by (intro to_i32_id) (simp add: is_i32_def)
  have r: "rb_read ?rb 1 = (Some ?s, ?rb1)" using assms(1) by (simp add: rb_read_def rball_init_def)
  have w: "rb_wf ?rb1" using assms(1) by (simp add: rb_wf_def rball_init_def)
  have l: "left ?rb1 = replicate (n - 1) 14" using assms(1) nat_int [of "n - 1"] by (simp add: left_def rball_init_def of_nat_diff)
  have c: "uint (14 AND 7 :: u8) = TYPE_TABLE" "uint (drop_bit 3 (14 :: u8)) = 1" by code_simp+
  have h: "?s ! 0 = 14" using assms(1) by simp
  have le: "d \<le> n - 1" using assms(1) by simp
  have "push_value_on d k ?rb1 (uint (?s ! 0 AND 7)) (uint (drop_bit 3 (?s ! 0))) = None" for k
    using nested_exhausts [OF w l le, of k] unfolding h c .
  then have "unpack_all_on d (Suc n) ?rb = None" using r assms(1) by (cases n) auto
  then show "luaseri_unpack_on d (U_string ?s) = None"
    using assms(1) i by (simp add: luaseri_unpack_on_def unpack_buffer_on_def Let_def del: unpack_all_on.simps)
  have "openers ?s \<le> n" using length_filter_le [of opens_table ?s] by (simp add: openers_def)
  then have "luaseri_unpack_on n (U_string ?s) = luaseri_unpack (U_string ?s)" by (rule string_enough_room)
  then show "(\<exists>vs. luaseri_unpack_on n (U_string ?s) = ret vs) \<or> (\<exists>e. luaseri_unpack_on n (U_string ?s) = err e)"
    using unpack_total [of ?s] by auto
qed

end
