(* ===== verification/Cluster.thy ===== *)
theory Cluster
  imports Bytes Framing Netpack
begin

text \<open>
  \<open>lualib-src/lua-cluster.c\<close>: the packages that the nodes of a cluster exchange. A package has a
  2-byte big-endian size (so the netpack module can split the stream), a type and little-endian
  fields; a message of 32 KB or more travels in several parts, which \<open>append\<close> and \<open>concat\<close> put
  together again. The buffer \<open>buf\<close> on the C stack is a list of \<open>TEMP_LENGTH\<close> bytes: writing past
  its end, or reading past the end of a message, is \<open>None\<close>.
\<close>

definition TEMP_LENGTH :: nat where "TEMP_LENGTH = 0x8200"
definition MULTI_PART :: int where "MULTI_PART = 0x8000"

text \<open>The first argument of \<open>packrequest\<close>: a number, a string, or anything else.\<close>

datatype cl_addr = A_num int | A_name bytes | A_other

datatype cl_error =
    E_message
  | E_session int
  | E_name_type
  | E_name_length bytes
  | E_size int
  | E_mreq_size int
  | E_part
  | E_empty
  | E_type int
  | E_trace_long int
  | E_need_block

text \<open>The values returned on the Lua stack; a block is a pointer to new memory.\<close>

datatype cl_val = CV_nil | CV_bool bool | CV_int int | CV_str bytes | CV_block bytes

section \<open>Writing and reading fields\<close>

definition temp_buf :: bytes where
  "temp_buf = replicate TEMP_LENGTH 0"

definition fill_uint32 :: "bytes \<Rightarrow> int \<Rightarrow> int \<Rightarrow> bytes option" where
  "fill_uint32 buf off n = blit buf off (le_bytes 4 n)"

definition fill_header :: "bytes \<Rightarrow> int \<Rightarrow> bytes option" where
  "fill_header buf sz = (if sz < 0x10000 then blit buf 0 (be_bytes 2 sz) else None)"

definition set_byte :: "bytes \<Rightarrow> int \<Rightarrow> u8 \<Rightarrow> bytes option" where
  "set_byte buf i b = blit buf i [b]"

text \<open>\<open>memcpy(buf + off, msg, sz)\<close> reads \<open>sz\<close> bytes of the message.\<close>

definition copy_msg :: "bytes \<Rightarrow> int \<Rightarrow> bytes \<Rightarrow> int \<Rightarrow> bytes option" where
  "copy_msg buf off msg sz = Option.bind (peek msg 0 sz) (blit buf off)"

definition unpack_uint32 :: "bytes \<Rightarrow> int \<Rightarrow> int option" where
  "unpack_uint32 buf off = map_option le_val (peek buf off 4)"

section \<open>Requests\<close>

definition part_count :: "int \<Rightarrow> int" where
  "part_count sz = ((sz - 1) mod 2 ^ 32) div MULTI_PART + 1"

text \<open>The result is the package and the number of parts that follow (0: it has the message).\<close>

definition packreq_number :: "int \<Rightarrow> int \<Rightarrow> bytes \<Rightarrow> int \<Rightarrow> bool \<Rightarrow> (bytes \<times> int) option" where
  "packreq_number addr session msg sz is_push =
     (if sz < MULTI_PART then
        Option.bind (fill_header temp_buf (sz + 9)) (\<lambda>buf.
        Option.bind (set_byte buf 2 0) (\<lambda>buf.
        Option.bind (fill_uint32 buf 3 addr) (\<lambda>buf.
        Option.bind (fill_uint32 buf 7 (if is_push then 0 else session)) (\<lambda>buf.
        Option.bind (copy_msg buf 11 msg sz) (\<lambda>buf.
        Option.bind (peek buf 0 (sz + 11)) (\<lambda>s. Some (s, 0)))))))
      else
        Option.bind (fill_header temp_buf 13) (\<lambda>buf.
        Option.bind (set_byte buf 2 (if is_push then 0x41 else 1)) (\<lambda>buf.
        Option.bind (fill_uint32 buf 3 addr) (\<lambda>buf.
        Option.bind (fill_uint32 buf 7 session) (\<lambda>buf.
        Option.bind (fill_uint32 buf 11 sz) (\<lambda>buf.
        Option.bind (peek buf 0 15) (\<lambda>s. Some (s, part_count sz))))))))"

definition packreq_string :: "bytes option \<Rightarrow> int \<Rightarrow> bytes \<Rightarrow> int \<Rightarrow> bool \<Rightarrow> (cl_error, bytes \<times> int) run" where
  "packreq_string name0 session msg sz is_push =
     (case name0 of
        None \<Rightarrow> err E_name_type
      | Some name \<Rightarrow>
          let namelen = int (length name) in
          if namelen < 1 \<or> namelen > 255 then err (E_name_length name)
          else if sz < MULTI_PART then
            lift (Option.bind (fill_header temp_buf (sz + 6 + namelen)) (\<lambda>buf.
              Option.bind (set_byte buf 2 0x80) (\<lambda>buf.
              Option.bind (set_byte buf 3 (word_of_int namelen)) (\<lambda>buf.
              Option.bind (blit buf 4 name) (\<lambda>buf.
              Option.bind (fill_uint32 buf (4 + namelen) (if is_push then 0 else session)) (\<lambda>buf.
              Option.bind (copy_msg buf (8 + namelen) msg sz) (\<lambda>buf.
              Option.bind (peek buf 0 (sz + 8 + namelen)) (\<lambda>s. Some (s, 0)))))))))
          else
            lift (Option.bind (fill_header temp_buf (10 + namelen)) (\<lambda>buf.
              Option.bind (set_byte buf 2 (if is_push then 0xc1 else 0x81)) (\<lambda>buf.
              Option.bind (set_byte buf 3 (word_of_int namelen)) (\<lambda>buf.
              Option.bind (blit buf 4 name) (\<lambda>buf.
              Option.bind (fill_uint32 buf (4 + namelen) session) (\<lambda>buf.
              Option.bind (fill_uint32 buf (8 + namelen) sz) (\<lambda>buf.
              Option.bind (peek buf 0 (12 + namelen)) (\<lambda>s. Some (s, part_count sz))))))))))"

text \<open>The loop of \<open>packreq_multi\<close>: \<open>n\<close> is \<open>part\<close>, the number of iterations, the buffer is reused.\<close>

fun packreq_multi :: "nat \<Rightarrow> bytes \<Rightarrow> int \<Rightarrow> bytes \<Rightarrow> int \<Rightarrow> bytes list option" where
  "packreq_multi 0 buf session ptr sz = Some []"
| "packreq_multi (Suc n) buf session ptr sz =
     (let s = (if sz > MULTI_PART then MULTI_PART else sz) in
      Option.bind (set_byte buf 2 (if sz > MULTI_PART then 2 else 3)) (\<lambda>buf.
      Option.bind (fill_header buf (s + 5)) (\<lambda>buf.
      Option.bind (fill_uint32 buf 3 session) (\<lambda>buf.
      Option.bind (copy_msg buf 7 ptr s) (\<lambda>buf.
      Option.bind (peek buf 0 (s + 7)) (\<lambda>p.
      map_option (Cons p) (packreq_multi n buf session (drop (nat s) ptr) (sz - s))))))))"

definition next_session :: "int \<Rightarrow> int" where
  "next_session session =
     (let new_session = (session + 1) mod 2 ^ 32 in if new_session > 2 ^ 31 - 1 then 1 else new_session)"

text \<open>\<open>sz0\<close> and \<open>session0\<close> are the Lua integers before the conversion to \<open>uint32_t\<close> and \<open>int\<close>.
  The result is the package, the next session and the parts, if any.\<close>

definition packrequest ::
  "cl_addr \<Rightarrow> int \<Rightarrow> bytes option \<Rightarrow> int \<Rightarrow> bool \<Rightarrow> (cl_error, bytes \<times> int \<times> bytes list option) run" where
  "packrequest addr session0 msg0 sz0 is_push =
     (case msg0 of
        None \<Rightarrow> err E_message
      | Some msg \<Rightarrow>
          let sz = sz0 mod 2 ^ 32; session = to_i32 session0 in
          if session \<le> 0 then err (E_session session)
          else
            run_bind
              (case addr of
                 A_num a \<Rightarrow> lift (packreq_number a session msg sz is_push)
               | A_name n \<Rightarrow> packreq_string (Some n) session msg sz is_push
               | A_other \<Rightarrow> packreq_string None session msg sz is_push) (\<lambda>(s, multipak).
            if multipak \<noteq> 0 then
              run_bind (lift (packreq_multi (nat (part_count sz)) temp_buf session msg sz)) (\<lambda>ps.
                ret (s, next_session session, Some ps))
            else ret (s, next_session session, None)))"

definition lpackrequest :: "cl_addr \<Rightarrow> int \<Rightarrow> bytes option \<Rightarrow> int \<Rightarrow> (cl_error, bytes \<times> int \<times> bytes list option) run" where
  "lpackrequest addr session msg sz = packrequest addr session msg sz False"

definition lpackpush :: "cl_addr \<Rightarrow> int \<Rightarrow> bytes option \<Rightarrow> int \<Rightarrow> (cl_error, bytes \<times> int \<times> bytes list option) run" where
  "lpackpush addr session msg sz = packrequest addr session msg sz True"

definition lpacktrace :: "bytes \<Rightarrow> (cl_error, bytes) run" where
  "lpacktrace tag =
     (let sz = int (length tag) in
      if sz > 0x8000 then err (E_trace_long sz)
      else
        lift (Option.bind (set_byte temp_buf 2 4) (\<lambda>buf.
          Option.bind (fill_header buf (sz + 1)) (\<lambda>buf.
          Option.bind (blit buf 3 tag) (\<lambda>buf. peek buf 0 (sz + 3))))))"

definition return_buffer :: "bytes \<Rightarrow> int \<Rightarrow> int \<Rightarrow> (cl_val list) option" where
  "return_buffer buf off sz = map_option (\<lambda>b. [CV_block b, CV_int sz]) (peek buf off sz)"

definition unpackreq_number :: "bytes \<Rightarrow> int \<Rightarrow> (cl_error, cl_val list) run" where
  "unpackreq_number buf sz =
     (if sz < 9 then err (E_size sz)
      else
        lift (Option.bind (unpack_uint32 buf 1) (\<lambda>address.
          Option.bind (unpack_uint32 buf 5) (\<lambda>session.
          Option.bind (return_buffer buf 9 (sz - 9)) (\<lambda>b.
          Some ([CV_int address, CV_int session] @ b @ (if session = 0 then [CV_nil, CV_bool True] else [])))))))"

definition unpackmreq_number :: "bytes \<Rightarrow> int \<Rightarrow> bool \<Rightarrow> (cl_error, cl_val list) run" where
  "unpackmreq_number buf sz is_push =
     (if sz \<noteq> 13 then err (E_mreq_size sz)
      else
        lift (Option.bind (unpack_uint32 buf 1) (\<lambda>address.
          Option.bind (unpack_uint32 buf 5) (\<lambda>session.
          Option.bind (unpack_uint32 buf 9) (\<lambda>n.
          Some [CV_int address, CV_int session, CV_nil, CV_int n, CV_bool True, CV_bool is_push])))))"

definition unpackmreq_part :: "bytes \<Rightarrow> int \<Rightarrow> (cl_error, cl_val list) run" where
  "unpackmreq_part buf sz =
     (if sz < 5 then err E_part
      else
        lift (Option.bind (unpack_uint32 buf 1) (\<lambda>session.
          Option.bind (return_buffer buf 5 (sz - 5)) (\<lambda>b.
          Some ([CV_bool False, CV_int session] @ b @ [CV_bool (buf ! 0 = 2)])))))"

definition unpacktrace :: "bytes \<Rightarrow> int \<Rightarrow> (cl_error, cl_val list) run" where
  "unpacktrace buf sz = lift (map_option (\<lambda>s. [CV_str s]) (peek buf 1 (sz - 1)))"

definition unpackreq_string :: "bytes \<Rightarrow> int \<Rightarrow> (cl_error, cl_val list) run" where
  "unpackreq_string buf sz =
     (if sz < 2 then err (E_size sz)
      else
        let namesz = uint (buf ! 1) in
        if sz < namesz + 6 then err (E_size sz)
        else
          lift (Option.bind (peek buf 2 namesz) (\<lambda>name.
            Option.bind (unpack_uint32 buf (namesz + 2)) (\<lambda>session.
            Option.bind (return_buffer buf (2 + namesz + 4) (sz - namesz - 6)) (\<lambda>b.
            Some ([CV_str name, CV_int session] @ b @ (if session = 0 then [CV_nil, CV_bool True] else [])))))))"

definition unpackmreq_string :: "bytes \<Rightarrow> int \<Rightarrow> bool \<Rightarrow> (cl_error, cl_val list) run" where
  "unpackmreq_string buf sz is_push =
     (if sz < 2 then err (E_size sz)
      else
        let namesz = uint (buf ! 1) in
        if sz < namesz + 10 then err (E_size sz)
        else
          lift (Option.bind (peek buf 2 namesz) (\<lambda>name.
            Option.bind (unpack_uint32 buf (namesz + 2)) (\<lambda>session.
            Option.bind (unpack_uint32 buf (namesz + 6)) (\<lambda>n.
            Some [CV_str name, CV_int session, CV_nil, CV_int n, CV_bool True, CV_bool is_push])))))"

text \<open>\<open>sz\<close> bytes at \<open>msg\<close>; the caller's block has that size.\<close>

definition lunpackrequest :: "bytes \<Rightarrow> int \<Rightarrow> (cl_error, cl_val list) run" where
  "lunpackrequest msg sz =
     (if sz = 0 then err E_empty
      else
        (case msg of
           [] \<Rightarrow> None
         | t # _ \<Rightarrow>
             if t = 0 then unpackreq_number msg sz
             else if t = 1 then unpackmreq_number msg sz False
             else if t = 0x41 then unpackmreq_number msg sz True
             else if t = 2 \<or> t = 3 then unpackmreq_part msg sz
             else if t = 4 then unpacktrace msg sz
             else if t = 0x80 then unpackreq_string msg sz
             else if t = 0x81 then unpackmreq_string msg sz False
             else if t = 0xc1 then unpackmreq_string msg sz True
             else err (E_type (sint t))))"

section \<open>Responses\<close>

fun response_parts :: "nat \<Rightarrow> bytes \<Rightarrow> int \<Rightarrow> bytes \<Rightarrow> int \<Rightarrow> bytes list option" where
  "response_parts 0 buf session ptr sz = Some []"
| "response_parts (Suc n) buf session ptr sz =
     (let s = (if sz > MULTI_PART then MULTI_PART else sz) in
      Option.bind (set_byte buf 6 (if sz > MULTI_PART then 3 else 4)) (\<lambda>buf.
      Option.bind (fill_header buf (s + 5)) (\<lambda>buf.
      Option.bind (fill_uint32 buf 2 session) (\<lambda>buf.
      Option.bind (copy_msg buf 7 ptr s) (\<lambda>buf.
      Option.bind (peek buf 0 (s + 7)) (\<lambda>p.
      map_option (Cons p) (response_parts n buf session (drop (nat s) ptr) (sz - s))))))))"

text \<open>One string, or the table of the parts. The size is below \<open>2 ^ 63\<close>.\<close>

definition lpackresponse :: "int \<Rightarrow> bool \<Rightarrow> bytes \<Rightarrow> int \<Rightarrow> (bytes + bytes list) option" where
  "lpackresponse session ok msg sz0 =
     (if ok \<and> sz0 > MULTI_PART then
        (let parts = (sz0 - 1) div MULTI_PART + 1 in
         Option.bind (fill_header temp_buf 9) (\<lambda>buf.
         Option.bind (fill_uint32 buf 2 session) (\<lambda>buf.
         Option.bind (set_byte buf 6 2) (\<lambda>buf.
         Option.bind (fill_uint32 buf 7 sz0) (\<lambda>buf.
         Option.bind (peek buf 0 11) (\<lambda>h.
         map_option (\<lambda>ps. Inr (h # ps)) (response_parts (nat parts) buf session msg sz0)))))))
      else
        (let sz = (if \<not> ok \<and> sz0 > MULTI_PART then MULTI_PART else sz0) in
         Option.bind (fill_header temp_buf (sz + 5)) (\<lambda>buf.
         Option.bind (fill_uint32 buf 2 session) (\<lambda>buf.
         Option.bind (set_byte buf 6 (if ok then 1 else 0)) (\<lambda>buf.
         Option.bind (copy_msg buf 7 msg sz) (\<lambda>buf.
         map_option Inl (peek buf 0 (sz + 7))))))))"

definition lunpackresponse :: "bytes \<Rightarrow> cl_val list option" where
  "lunpackresponse buf =
     (let sz = int (length buf) in
      if sz < 5 then Some []
      else
        Option.bind (unpack_uint32 buf 0) (\<lambda>session.
          let t = buf ! 4 in
          if t = 0 then
            map_option (\<lambda>s. [CV_int session, CV_bool False, CV_str s]) (peek buf 5 (sz - 5))
          else if t = 1 \<or> t = 4 then
            map_option (\<lambda>s. [CV_int session, CV_bool True, CV_str s]) (peek buf 5 (sz - 5))
          else if t = 2 then
            (if sz \<noteq> 9 then Some []
             else map_option (\<lambda>n. [CV_int session, CV_bool True, CV_int n, CV_bool True]) (unpack_uint32 buf 5))
          else if t = 3 then
            map_option (\<lambda>s. [CV_int session, CV_bool True, CV_str s, CV_bool True]) (peek buf 5 (sz - 5))
          else Some []))"

section \<open>Putting parts together\<close>

text \<open>The table is a sequence. \<open>append\<close> stores the third argument when the second is nil, and
  else the bytes of the block (which it frees).\<close>

definition lappend :: "cl_val list \<Rightarrow> cl_val \<Rightarrow> cl_val \<Rightarrow> (cl_error, cl_val list) run" where
  "lappend t v n =
     (case v of
        CV_nil \<Rightarrow> ret (t @ [n])
      | CV_block b \<Rightarrow>
          (case n of
             CV_int sz \<Rightarrow> lift (map_option (\<lambda>s. t @ [CV_str s]) (peek b 0 (to_i32 sz)))
           | _ \<Rightarrow> err E_need_block)
      | _ \<Rightarrow> err E_need_block)"

fun concat_loop :: "cl_val list \<Rightarrow> bytes \<Rightarrow> int \<Rightarrow> int \<Rightarrow> (bytes \<times> int) option option" where
  "concat_loop (CV_str s # t) buff offset sz =
     (if int (length s) + offset > sz then Some None
      else Option.bind (blit buff offset s) (\<lambda>buff. concat_loop t buff (offset + int (length s)) sz))"
| "concat_loop t buff offset sz = Some (if offset \<noteq> sz then None else Some (buff, sz))"

text \<open>\<open>malloc\<close> of a negative size (a huge \<open>size_t\<close>) aborts the process.\<close>

definition lconcat :: "cl_val list \<Rightarrow> (bytes \<times> int) option option" where
  "lconcat t =
     (case t of
        CV_int n # t' \<Rightarrow>
          let sz = to_i32 n in
          if sz < 0 then None else concat_loop t' (replicate (nat sz) 0) 0 sz
      | _ \<Rightarrow> Some None)"

definition lisname :: "bytes option \<Rightarrow> bool" where
  "lisname name = (case name of Some (c # _) \<Rightarrow> c = 0x40 | _ \<Rightarrow> False)"

section \<open>Filling the buffer\<close>

definition filled :: "bytes \<Rightarrow> bytes \<Rightarrow> bool" where
  "filled buf pre \<longleftrightarrow> length buf = TEMP_LENGTH \<and> take (length pre) buf = pre"

lemma filled_temp: "filled temp_buf []"
  by (simp add: filled_def temp_buf_def)

lemma filled_le: "filled buf pre \<Longrightarrow> length pre \<le> TEMP_LENGTH"
  unfolding filled_def by (metis length_take min.cobounded1 min.commute)

lemma blit_length: "blit buf off src = Some buf' \<Longrightarrow> length buf' = length buf"
  by (auto simp: blit_def split: if_splits)

lemma blit_other:
  "blit buf off src = Some buf' \<Longrightarrow> i < nat off \<or> nat off + length src \<le> i \<Longrightarrow> i < length buf \<Longrightarrow> buf' ! i = buf ! i"
  by (auto simp: blit_def nth_append split: if_splits)

lemma blit_filled:
  assumes "filled buf pre" "off = int (length pre)" "length pre + length src \<le> TEMP_LENGTH"
  shows "\<exists>buf'. blit buf off src = Some buf' \<and> filled buf' (pre @ src)"
proof -
  have "length (take (length pre) buf) = length pre" using assms by (simp add: filled_def)
  then show ?thesis using assms by (simp add: filled_def)
qed

text \<open>Reasoning forwards over a sequence of writes.\<close>

lemma bind_blit:
  assumes "filled buf pre" "off = int (length pre)" "length pre + length src \<le> TEMP_LENGTH"
    "\<And>buf'. filled buf' (pre @ src) \<Longrightarrow> f buf' = r"
  shows "Option.bind (blit buf off src) f = r"
  using blit_filled [OF assms(1-3)] assms(4) by auto

lemma bind_header:
  "length buf = TEMP_LENGTH \<Longrightarrow> sz < 0x10000 \<Longrightarrow> (\<And>buf'. filled buf' (be_bytes 2 sz) \<Longrightarrow> f buf' = r) \<Longrightarrow>
     Option.bind (fill_header buf sz) f = r"
  unfolding fill_header_def
  using bind_blit [of buf "[]" 0 "be_bytes 2 sz" f r] by (simp add: filled_def TEMP_LENGTH_def)

lemma bind_uint32:
  "filled buf pre \<Longrightarrow> off = int (length pre) \<Longrightarrow> length pre + 4 \<le> TEMP_LENGTH \<Longrightarrow>
     (\<And>buf'. filled buf' (pre @ le_bytes 4 n) \<Longrightarrow> f buf' = r) \<Longrightarrow> Option.bind (fill_uint32 buf off n) f = r"
  unfolding fill_uint32_def by (rule bind_blit) auto

lemma bind_byte:
  "filled buf pre \<Longrightarrow> off = int (length pre) \<Longrightarrow> length pre + 1 \<le> TEMP_LENGTH \<Longrightarrow>
     (\<And>buf'. filled buf' (pre @ [b]) \<Longrightarrow> f buf' = r) \<Longrightarrow> Option.bind (set_byte buf off b) f = r"
  unfolding set_byte_def by (rule bind_blit) auto

lemma bind_msg:
  assumes "filled buf pre" "off = int (length pre)" "n = int (length src)" "length pre + length src \<le> TEMP_LENGTH"
    "\<And>buf'. filled buf' (pre @ src) \<Longrightarrow> f buf' = r"
  shows "Option.bind (copy_msg buf off (src @ rest) n) f = r"
proof -
  have "peek (src @ rest) 0 n = Some src" using assms(3) by (simp add: peek_def)
  then show ?thesis unfolding copy_msg_def by simp (rule bind_blit [OF assms(1,2,4)], rule assms(5))
qed

lemma peek_filled: "filled buf pre \<Longrightarrow> n = int (length pre) \<Longrightarrow> peek buf 0 n = Some pre"
  using filled_le [of buf pre] by (simp add: peek_def filled_def)

text \<open>A byte that was written ahead of the fields before it.\<close>

lemma filled_ahead:
  assumes "filled buf pre" "buf ! length pre = b" "length pre < TEMP_LENGTH"
  shows "filled buf (pre @ [b])"
  using assms by (simp add: filled_def take_Suc_conv_app_nth)

lemma set_byte_ahead:
  assumes "length buf = TEMP_LENGTH" "nat i < TEMP_LENGTH" "0 \<le> i"
  shows "\<exists>buf'. set_byte buf i b = Some buf' \<and> length buf' = TEMP_LENGTH \<and> buf' ! nat i = b"
  using assms by (simp add: set_byte_def nth_append)

section \<open>The packages\<close>

definition framed :: "bytes \<Rightarrow> bytes" where
  "framed body = be_bytes 2 (int (length body)) @ body"

function chunks :: "nat \<Rightarrow> 'a list \<Rightarrow> 'a list list" where
  "chunks k xs = (if length xs \<le> k \<or> k = 0 then [xs] else take k xs # chunks k (drop k xs))"
  by pat_completeness auto
termination by (relation "measure (\<lambda>(k, xs). length xs)") auto

declare chunks.simps [simp del]

lemma chunks_props: "concat (chunks k xs) = xs" "chunks k xs \<noteq> []"
  "0 < k \<Longrightarrow> \<forall>c\<in>set (chunks k xs). length c \<le> k"
  by (induction k xs rule: chunks.induct; subst chunks.simps; simp)+

text \<open>Numbering the parts: \<open>f\<close> writes a part, told whether more parts follow.\<close>

fun parts_with :: "(bool \<Rightarrow> 'a \<Rightarrow> 'b) \<Rightarrow> 'a list \<Rightarrow> 'b list" where
  "parts_with f [] = []"
| "parts_with f [c] = [f False c]"
| "parts_with f (c # d # cs) = f True c # parts_with f (d # cs)"

definition request_body :: "cl_addr \<Rightarrow> int \<Rightarrow> bytes \<Rightarrow> bool \<Rightarrow> bytes" where
  "request_body addr session msg is_push =
     (let single = length msg < 0x8000; n = int (length msg) in
      case addr of
        A_num a \<Rightarrow>
          if single then [0] @ le_bytes 4 a @ le_bytes 4 (if is_push then 0 else session) @ msg
          else [if is_push then 0x41 else 1] @ le_bytes 4 a @ le_bytes 4 session @ le_bytes 4 n
      | A_name name \<Rightarrow>
          if single then
            [0x80, word_of_int (int (length name))] @ name @ le_bytes 4 (if is_push then 0 else session) @ msg
          else
            [if is_push then 0xc1 else 0x81, word_of_int (int (length name))] @ name @ le_bytes 4 session @ le_bytes 4 n
      | A_other \<Rightarrow> [])"

definition part_body :: "int \<Rightarrow> bool \<Rightarrow> bytes \<Rightarrow> bytes" where
  "part_body session m c = [if m then 2 else 3] @ le_bytes 4 session @ c"

definition response_body :: "int \<Rightarrow> u8 \<Rightarrow> bytes \<Rightarrow> bytes" where
  "response_body session t c = le_bytes 4 session @ [t] @ c"

lemma part_count_step:
  "0x8000 < n \<Longrightarrow> n < 2 ^ 32 \<Longrightarrow> nat (part_count n) = Suc (nat (part_count (n - 0x8000)))"
  "0 < n \<Longrightarrow> n \<le> 0x8000 \<Longrightarrow> nat (part_count n) = 1"
proof -
  assume n: "0x8000 < n" "n < 2 ^ 32"
  have "(n - 1) mod 2 ^ 32 = n - 1" "(n - 0x8000 - 1) mod 2 ^ 32 = n - 0x8000 - 1" using n by auto
  moreover have "(n - 1) div 0x8000 = (n - 0x8000 - 1) div 0x8000 + 1" by linarith
  ultimately show "nat (part_count n) = Suc (nat (part_count (n - 0x8000)))"
    using n unfolding part_count_def MULTI_PART_def by simp
next
  assume n: "0 < n" "n \<le> 0x8000"
  have "(n - 1) mod 2 ^ 32 = n - 1" using n by auto
  then show "nat (part_count n) = 1" using n unfolding part_count_def MULTI_PART_def by simp
qed



lemma fill_header_ahead:
  assumes buf: "length buf = TEMP_LENGTH" and sz: "sz < 0x10000" and i: "2 \<le> i" "i < TEMP_LENGTH" "buf ! i = b"
  shows "\<exists>buf'. fill_header buf sz = Some buf' \<and> filled buf' (be_bytes 2 sz) \<and> buf' ! i = b"
proof -
  have "filled buf []" using buf by (simp add: filled_def)
  then obtain buf' where "blit buf 0 (be_bytes 2 sz) = Some buf'" "filled buf' (be_bytes 2 sz)"
    using blit_filled [of buf "[]" 0 "be_bytes 2 sz"] by (auto simp: TEMP_LENGTH_def)
  moreover from this(1) have "buf' ! i = b" using blit_other [of buf 0 "be_bytes 2 sz" buf' i] buf i by simp
  ultimately show ?thesis using sz by (simp add: fill_header_def)
qed

lemma bind_part:
  assumes buf: "length buf = TEMP_LENGTH" and c: "length c \<le> 0x8000" "s = int (length c)" and t: "t = (if m then 2 else 3)"
    and F: "\<And>buf'. length buf' = TEMP_LENGTH \<Longrightarrow> F buf' (framed (part_body session m c)) = r"
  shows "Option.bind (set_byte buf 2 t) (\<lambda>buf.
      Option.bind (fill_header buf (s + 5)) (\<lambda>buf.
      Option.bind (fill_uint32 buf 3 session) (\<lambda>buf.
      Option.bind (copy_msg buf 7 (c @ rest) s) (\<lambda>buf.
      Option.bind (peek buf 0 (s + 7)) (\<lambda>p. F buf p))))) = r"
proof -
  obtain b1 where b1: "set_byte buf 2 t = Some b1" "length b1 = TEMP_LENGTH" "b1 ! 2 = t"
    using set_byte_ahead [of buf 2 t] buf by (auto simp: TEMP_LENGTH_def)
  obtain b2 where b2: "fill_header b1 (s + 5) = Some b2" "filled b2 (be_bytes 2 (s + 5))" "b2 ! 2 = t"
    using fill_header_ahead [of b1 "s + 5" 2 t] b1 c by (auto simp: TEMP_LENGTH_def)
  have b3: "filled b2 (be_bytes 2 (s + 5) @ [t])"
    by (rule filled_ahead [OF b2(2)]) (use b2(3) in \<open>auto simp: TEMP_LENGTH_def\<close>)
  have fr: "framed (part_body session m c) = ((be_bytes 2 (s + 5) @ [t]) @ le_bytes 4 session) @ c"
    using c t by (simp add: framed_def part_body_def add.commute)
  have "Option.bind (fill_uint32 b2 3 session) (\<lambda>buf.
      Option.bind (copy_msg buf 7 (c @ rest) s) (\<lambda>buf.
      Option.bind (peek buf 0 (s + 7)) (\<lambda>p. F buf p))) = r"
  proof (rule bind_uint32 [OF b3], simp, simp add: TEMP_LENGTH_def, rule bind_msg, assumption, simp, rule c(2), use c(1) in \<open>simp add: TEMP_LENGTH_def\<close>)
    fix buf' assume f: "filled buf' (((be_bytes 2 (s + 5) @ [t]) @ le_bytes 4 session) @ c)"
    have "peek buf' 0 (s + 7) = Some (framed (part_body session m c))"
      unfolding fr by (rule peek_filled [OF f]) (simp add: c(2))
    moreover have "length buf' = TEMP_LENGTH" using f by (simp add: filled_def)
    ultimately show "Option.bind (peek buf' 0 (s + 7)) (\<lambda>p. F buf' p) = r" using F by simp
  qed
  then show ?thesis using b1(1) b2(1) by simp
qed

lemma packreq_multi_parts:
  "length buf = TEMP_LENGTH \<Longrightarrow> 0 < length msg \<Longrightarrow> int (length msg) < 2 ^ 32 \<Longrightarrow>
     packreq_multi (nat (part_count (int (length msg)))) buf session msg (int (length msg)) =
       Some (map framed (parts_with (part_body session) (chunks 0x8000 msg)))"
proof (induction "length msg" arbitrary: msg buf rule: less_induct)
  case less
  show ?case
  proof (cases "length msg \<le> 0x8000")
    case True
    have n: "nat (part_count (int (length msg))) = Suc 0"
      using part_count_step(2) [of "int (length msg)"] True less.prems by simp
    have ch: "chunks 0x8000 msg = [msg]" using True by (subst chunks.simps) simp
    have "Option.bind (set_byte buf 2 3) (\<lambda>buf.
      Option.bind (fill_header buf (int (length msg) + 5)) (\<lambda>buf.
      Option.bind (fill_uint32 buf 3 session) (\<lambda>buf.
      Option.bind (copy_msg buf 7 (msg @ []) (int (length msg))) (\<lambda>buf.
      Option.bind (peek buf 0 (int (length msg) + 7)) (\<lambda>p. Some [p]))))) =
      Some [framed (part_body session False msg)]"
      by (rule bind_part [OF less.prems(1) True refl, where m = False]) simp_all
    then show ?thesis unfolding n ch using True by (simp add: MULTI_PART_def)
  next
    case False
    have n: "nat (part_count (int (length msg))) = Suc (nat (part_count (int (length (drop 0x8000 msg)))))"
      using part_count_step(1) [of "int (length msg)"] False less.prems by simp
    have ch: "chunks 0x8000 msg = take 0x8000 msg # chunks 0x8000 (drop 0x8000 msg)"
      using False by (subst chunks.simps) simp
    obtain d ds where d: "chunks 0x8000 (drop 0x8000 msg) = d # ds"
      using chunks_props(2) [where k = "0x8000" and xs = "drop 0x8000 msg"] by (cases "chunks 0x8000 (drop 0x8000 msg)") auto
    have len: "length (take 0x8000 msg) \<le> 0x8000" "0x8000 = int (length (take 0x8000 msg))" using False by auto
    have sz: "int (length msg) - 0x8000 = int (length (drop 0x8000 msg))" using False by simp
    have ih: "packreq_multi (nat (part_count (int (length (drop 0x8000 msg))))) b session (drop 0x8000 msg)
        (int (length (drop 0x8000 msg))) = Some (map framed (parts_with (part_body session) (d # ds)))"
      if "length b = TEMP_LENGTH" for b
      using less.hyps [of "drop 0x8000 msg" b] that False less.prems d by simp
    have "Option.bind (set_byte buf 2 2) (\<lambda>buf.
      Option.bind (fill_header buf (0x8000 + 5)) (\<lambda>buf.
      Option.bind (fill_uint32 buf 3 session) (\<lambda>buf.
      Option.bind (copy_msg buf 7 (take 0x8000 msg @ drop 0x8000 msg) 0x8000) (\<lambda>buf.
      Option.bind (peek buf 0 (0x8000 + 7)) (\<lambda>p.
      map_option (Cons p) (packreq_multi (nat (part_count (int (length (drop 0x8000 msg))))) buf session (drop 0x8000 msg)
        (int (length (drop 0x8000 msg))))))))) =
      Some (framed (part_body session True (take 0x8000 msg)) # map framed (parts_with (part_body session) (d # ds)))"
      by (rule bind_part [OF less.prems(1) len, where m = True]) (simp, simp only: ih option.map)
    moreover have "int (length msg) > MULTI_PART" using False by (simp add: MULTI_PART_def)
    moreover have "nat 0x8000 = (0x8000 :: nat)" by simp
    ultimately show ?thesis unfolding n ch d packreq_multi.simps Let_def
      by (simp only: if_True MULTI_PART_def append_take_drop_id sz parts_with.simps list.map)
  qed
qed


text \<open>Whatever the arguments, within the limits of the types, the package is the framed body.\<close>

lemma TEMP_unfold: "TEMP_LENGTH = 33280"
  by (simp add: TEMP_LENGTH_def)

lemma packreq_number_body:
  assumes len: "int (length msg) < 2 ^ 32"
  shows "packreq_number a session msg (int (length msg)) p =
    Some (framed (request_body (A_num a) session msg p),
      if length msg < 0x8000 then 0 else part_count (int (length msg)))"
proof (cases "length msg < 0x8000")
  case True
  let ?n = "int (length msg)"
  let ?s = "if p then 0 else session"
  let ?pkt = "((((be_bytes 2 (?n + 9) @ [0]) @ le_bytes 4 a) @ le_bytes 4 ?s) @ msg)"
  have fr: "framed (request_body (A_num a) session msg p) = ?pkt"
    using True by (simp add: framed_def request_body_def add.commute)
  have "Option.bind (fill_header temp_buf (?n + 9)) (\<lambda>buf.
        Option.bind (set_byte buf 2 0) (\<lambda>buf.
        Option.bind (fill_uint32 buf 3 a) (\<lambda>buf.
        Option.bind (fill_uint32 buf 7 ?s) (\<lambda>buf.
        Option.bind (copy_msg buf 11 (msg @ []) ?n) (\<lambda>buf.
        Option.bind (peek buf 0 (?n + 11)) (\<lambda>s. Some (s, 0 :: int))))))) = Some (?pkt, 0)"
    by (rule bind_header, simp add: temp_buf_def, use True in simp, rule bind_byte, assumption, simp, simp add: TEMP_unfold,
      rule bind_uint32, assumption, simp, simp add: TEMP_unfold, rule bind_uint32, assumption, simp, simp add: TEMP_unfold,
      rule bind_msg, assumption, simp, simp, use True in \<open>simp add: TEMP_unfold\<close>)
      (subst peek_filled, assumption, simp_all)
  then show ?thesis unfolding fr using True by (simp add: packreq_number_def MULTI_PART_def)
next
  case False
  let ?n = "int (length msg)"
  let ?pkt = "((((be_bytes 2 13 @ [if p then 0x41 else 1]) @ le_bytes 4 a) @ le_bytes 4 session) @ le_bytes 4 ?n)"
  have fr: "framed (request_body (A_num a) session msg p) = ?pkt"
    using False by (simp add: framed_def request_body_def)
  have "Option.bind (fill_header temp_buf 13) (\<lambda>buf.
        Option.bind (set_byte buf 2 (if p then 0x41 else 1)) (\<lambda>buf.
        Option.bind (fill_uint32 buf 3 a) (\<lambda>buf.
        Option.bind (fill_uint32 buf 7 session) (\<lambda>buf.
        Option.bind (fill_uint32 buf 11 ?n) (\<lambda>buf.
        Option.bind (peek buf 0 15) (\<lambda>s. Some (s, part_count ?n))))))) = Some (?pkt, part_count ?n)"
    by (rule bind_header, simp add: temp_buf_def, simp, rule bind_byte, assumption, simp, simp add: TEMP_unfold,
      rule bind_uint32, assumption, simp, simp add: TEMP_unfold, rule bind_uint32, assumption, simp, simp add: TEMP_unfold,
      rule bind_uint32, assumption, simp, simp add: TEMP_unfold)
      (subst peek_filled, assumption, simp_all)
  then show ?thesis unfolding fr using False by (simp add: packreq_number_def MULTI_PART_def)
qed

lemma bind_bytes:
  "filled buf pre \<Longrightarrow> off = int (length pre) \<Longrightarrow> length pre + length src \<le> TEMP_LENGTH \<Longrightarrow>
    (\<And>buf'. filled buf' (pre @ src) \<Longrightarrow> f buf' = r) \<Longrightarrow> Option.bind (blit buf off src) f = r"
  by (rule bind_blit)

lemma packreq_string_body:
  assumes len: "int (length msg) < 2 ^ 32" and name: "name \<noteq> []" "length name \<le> 255"
  shows "packreq_string (Some name) session msg (int (length msg)) p =
    ret (framed (request_body (A_name name) session msg p),
      if length msg < 0x8000 then 0 else part_count (int (length msg)))"
proof (cases "length msg < 0x8000")
  case True
  let ?n = "int (length msg)" and ?l = "int (length name)"
  let ?s = "if p then 0 else session"
  let ?pkt = "(((((be_bytes 2 (?n + 6 + ?l) @ [0x80]) @ [word_of_int ?l]) @ name) @ le_bytes 4 ?s) @ msg)"
  have fr: "framed (request_body (A_name name) session msg p) = ?pkt"
    using True by (simp add: framed_def request_body_def add.commute add.left_commute)
  have "Option.bind (fill_header temp_buf (?n + 6 + ?l)) (\<lambda>buf.
              Option.bind (set_byte buf 2 0x80) (\<lambda>buf.
              Option.bind (set_byte buf 3 (word_of_int ?l)) (\<lambda>buf.
              Option.bind (blit buf 4 name) (\<lambda>buf.
              Option.bind (fill_uint32 buf (4 + ?l) ?s) (\<lambda>buf.
              Option.bind (copy_msg buf (8 + ?l) (msg @ []) ?n) (\<lambda>buf.
              Option.bind (peek buf 0 (?n + 8 + ?l)) (\<lambda>s. Some (s, 0 :: int)))))))) = Some (?pkt, 0)"
    by (rule bind_header, simp add: temp_buf_def, use True name in simp, rule bind_byte, assumption, simp, simp add: TEMP_unfold,
      rule bind_byte, assumption, simp, simp add: TEMP_unfold,
      rule bind_bytes, assumption, simp, use name in \<open>simp add: TEMP_unfold\<close>,
      rule bind_uint32, assumption, simp, use name in \<open>simp add: TEMP_unfold\<close>,
      rule bind_msg, assumption, simp, simp, use True name in \<open>simp add: TEMP_unfold\<close>)
      (subst peek_filled, assumption, simp_all)
  then show ?thesis unfolding fr packreq_string_def option.case Let_def using True name by (simp add: MULTI_PART_def lift_def ret_def)
next
  case False
  let ?n = "int (length msg)" and ?l = "int (length name)"
  let ?pkt = "(((((be_bytes 2 (10 + ?l) @ [if p then 0xc1 else 0x81]) @ [word_of_int ?l]) @ name) @ le_bytes 4 session) @ le_bytes 4 ?n)"
  have fr: "framed (request_body (A_name name) session msg p) = ?pkt"
    using False by (simp add: framed_def request_body_def add.commute)
  have "Option.bind (fill_header temp_buf (10 + ?l)) (\<lambda>buf.
              Option.bind (set_byte buf 2 (if p then 0xc1 else 0x81)) (\<lambda>buf.
              Option.bind (set_byte buf 3 (word_of_int ?l)) (\<lambda>buf.
              Option.bind (blit buf 4 name) (\<lambda>buf.
              Option.bind (fill_uint32 buf (4 + ?l) session) (\<lambda>buf.
              Option.bind (fill_uint32 buf (8 + ?l) ?n) (\<lambda>buf.
              Option.bind (peek buf 0 (12 + ?l)) (\<lambda>s. Some (s, part_count ?n)))))))) = Some (?pkt, part_count ?n)"
    by (rule bind_header, simp add: temp_buf_def, use name in simp, rule bind_byte, assumption, simp, simp add: TEMP_unfold,
      rule bind_byte, assumption, simp, simp add: TEMP_unfold,
      rule bind_bytes, assumption, simp, use name in \<open>simp add: TEMP_unfold\<close>,
      rule bind_uint32, assumption, simp, use name in \<open>simp add: TEMP_unfold\<close>,
      rule bind_uint32, assumption, simp, use name in \<open>simp add: TEMP_unfold\<close>)
      (subst peek_filled, assumption, simp_all)
  then show ?thesis unfolding fr packreq_string_def option.case Let_def using False name by (simp add: MULTI_PART_def lift_def ret_def)
qed

definition addr_ok :: "cl_addr \<Rightarrow> bool" where
  "addr_ok addr \<longleftrightarrow>
     (case addr of A_num a \<Rightarrow> 0 \<le> a \<and> a < 2 ^ 32 | A_name n \<Rightarrow> n \<noteq> [] \<and> length n \<le> 255 | A_other \<Rightarrow> False)"

lemma packrequest_body:
  assumes "int (length msg) < 2 ^ 32" "addr_ok addr" "0 < session" "session < 2 ^ 31"
  shows "packrequest addr session (Some msg) (int (length msg)) p =
    ret (framed (request_body addr session msg p), (if session = 2 ^ 31 - 1 then 1 else session + 1),
      if length msg < 0x8000 then None
      else Some (map framed (parts_with (part_body session) (chunks 0x8000 msg))))"
proof -
  have z: "int (length msg) mod 2 ^ 32 = int (length msg)" using assms(1) by simp
  have i: "to_i32 session = session" using assms(3,4) by (intro to_i32_id) (simp add: is_i32_def)
  have ns: "next_session session = (if session = 2 ^ 31 - 1 then 1 else session + 1)"
    using assms(3,4) by (auto simp: next_session_def)
  have pk: "(case addr of
       A_num a \<Rightarrow> lift (packreq_number a session msg (int (length msg)) p)
     | A_name n \<Rightarrow> packreq_string (Some n) session msg (int (length msg)) p
     | A_other \<Rightarrow> packreq_string None session msg (int (length msg)) p) =
     ret (framed (request_body addr session msg p), if length msg < 0x8000 then 0 else part_count (int (length msg)))"
    using assms(1,2)
    by (cases addr) (auto simp: addr_ok_def packreq_number_body packreq_string_body lift_def ret_def)
  have multi: "packreq_multi (nat (part_count (int (length msg)))) temp_buf session msg (int (length msg)) =
       Some (map framed (parts_with (part_body session) (chunks 0x8000 msg)))" if "\<not> length msg < 0x8000"
    by (rule packreq_multi_parts) (use that assms(1) in \<open>auto simp: temp_buf_def\<close>)
  have "part_count (int (length msg)) \<noteq> 0" if "\<not> length msg < 0x8000"
    using that by (simp add: part_count_def MULTI_PART_def)
  then show ?thesis
    unfolding packrequest_def option.case z i pk Let_def ns
    using assms(3) multi by (simp add: lift_def ret_def)
qed


section \<open>Reading packages\<close>

lemma chunks_length: "c \<in> set (chunks 0x8000 xs) \<Longrightarrow> length c \<le> 0x8000"
  using chunks_props(3) [where k = "0x8000" and xs = xs] by simp

lemma peek_append:
  "off = int (length pre) \<Longrightarrow> n = int (length x) \<Longrightarrow> peek (pre @ x @ post) off n = Some x"
  by (simp add: peek_def)

lemma unpack_uint32_append:
  "off = int (length pre) \<Longrightarrow> unpack_uint32 (pre @ le_bytes 4 n @ post) off = Some (n mod 2 ^ 32)"
  using peek_append [of off pre 4 "le_bytes 4 n" post] by (simp add: unpack_uint32_def le_val_bytes)

definition addr_val :: "cl_addr \<Rightarrow> cl_val" where
  "addr_val addr = (case addr of A_num a \<Rightarrow> CV_int a | A_name n \<Rightarrow> CV_str n | A_other \<Rightarrow> CV_nil)"

text \<open>What the receiver gets for the first package of a request.\<close>

definition request_values :: "cl_addr \<Rightarrow> int \<Rightarrow> bytes \<Rightarrow> bool \<Rightarrow> cl_val list" where
  "request_values addr session msg is_push =
     (let n = CV_int (int (length msg)) in
      if length msg < 0x8000 then
        (if is_push then [addr_val addr, CV_int 0, CV_block msg, n, CV_nil, CV_bool True]
         else [addr_val addr, CV_int session, CV_block msg, n])
      else [addr_val addr, CV_int session, CV_nil, n, CV_bool True, CV_bool is_push])"

lemma unpack_request_body:
  assumes "int (length msg) < 2 ^ 32" "addr_ok addr" "0 < session" "session < 2 ^ 31"
  shows "lunpackrequest (request_body addr session msg p) (int (length (request_body addr session msg p))) =
    ret (request_values addr session msg p)"
proof -
  have s: "session mod 2 ^ 32 = session" "session \<noteq> 0" using assms(3,4) by auto
  have n: "int (length msg) mod 2 ^ 32 = int (length msg)" using assms(1) by simp
  let ?s = "if p then 0 else session"
  have s': "?s mod 2 ^ 32 = ?s" using s by simp
  show ?thesis
  proof (cases addr)
    case (A_num a)
    have a: "a mod 2 ^ 32 = a" using assms(2) A_num by (simp add: addr_ok_def)
    show ?thesis
    proof (cases "length msg < 0x8000")
      case True
      let ?b = "[0 :: u8] @ le_bytes 4 a @ le_bytes 4 ?s @ msg"
      have b: "request_body addr session msg p = ?b" using True A_num by (simp add: request_body_def)
      have "unpack_uint32 ?b 1 = Some a" using unpack_uint32_append [of 1 "[0 :: u8]" a "le_bytes 4 ?s @ msg"] a by simp
      moreover have "unpack_uint32 ?b 5 = Some ?s"
        using unpack_uint32_append [of 5 "[0 :: u8] @ le_bytes 4 a" ?s msg] s' by simp
      moreover have "peek ?b 9 (int (length msg)) = Some msg"
        using peek_append [of 9 "[0 :: u8] @ le_bytes 4 a @ le_bytes 4 ?s" "int (length msg)" msg "[]"] by simp
      ultimately show ?thesis unfolding b using s(2) True A_num
        by (cases p) (simp_all add: lunpackrequest_def unpackreq_number_def return_buffer_def lift_def ret_def request_values_def addr_val_def)
    next
      case False
      let ?t = "if p then 0x41 else 1 :: u8" and ?n = "int (length msg)"
      let ?b = "[?t] @ le_bytes 4 a @ le_bytes 4 session @ le_bytes 4 ?n"
      have b: "request_body addr session msg p = ?b" using False A_num by (simp add: request_body_def)
      have "unpack_uint32 ?b 1 = Some a" using unpack_uint32_append [of 1 "[?t]" a "le_bytes 4 session @ le_bytes 4 ?n"] a by simp
      moreover have "unpack_uint32 ?b 5 = Some session"
        using unpack_uint32_append [of 5 "[?t] @ le_bytes 4 a" session "le_bytes 4 ?n"] s by simp
      moreover have "unpack_uint32 ?b 9 = Some ?n"
        using unpack_uint32_append [of 9 "[?t] @ le_bytes 4 a @ le_bytes 4 session" ?n "[]"] n by simp
      ultimately show ?thesis unfolding b using False A_num
        by (cases p) (simp_all add: lunpackrequest_def unpackmreq_number_def lift_def ret_def request_values_def addr_val_def)
    qed
  next
    case (A_name name)
    have nm: "name \<noteq> []" "length name \<le> 255" using assms(2) A_name by (auto simp: addr_ok_def)
    let ?l = "word_of_int (int (length name)) :: u8"
    have l: "uint ?l = int (length name)" using nm by (simp add: uint_word_of_int del: of_int_of_nat_eq)
    show ?thesis
    proof (cases "length msg < 0x8000")
      case True
      let ?b = "[0x80, ?l] @ name @ le_bytes 4 ?s @ msg"
      have b: "request_body addr session msg p = ?b" using True A_name by (simp add: request_body_def)
      have "peek ?b 2 (int (length name)) = Some name"
        using peek_append [of 2 "[0x80, ?l]" "int (length name)" name "le_bytes 4 ?s @ msg"] by simp
      moreover have "unpack_uint32 ?b (int (length name) + 2) = Some ?s"
        using unpack_uint32_append [of "int (length name) + 2" "[0x80, ?l] @ name" ?s msg] s' by simp
      moreover have "peek ?b (2 + int (length name) + 4) (int (length msg)) = Some msg"
        using peek_append [of "2 + int (length name) + 4" "[0x80, ?l] @ name @ le_bytes 4 ?s" "int (length msg)" msg "[]"] by simp
      ultimately show ?thesis unfolding b using s(2) True A_name l
        by (cases p) (simp_all add: lunpackrequest_def unpackreq_string_def Let_def return_buffer_def lift_def ret_def request_values_def addr_val_def)
    next
      case False
      let ?t = "if p then 0xc1 else 0x81 :: u8" and ?n = "int (length msg)"
      let ?b = "[?t, ?l] @ name @ le_bytes 4 session @ le_bytes 4 ?n"
      have b: "request_body addr session msg p = ?b" using False A_name by (simp add: request_body_def)
      have "peek ?b 2 (int (length name)) = Some name"
        using peek_append [of 2 "[?t, ?l]" "int (length name)" name "le_bytes 4 session @ le_bytes 4 ?n"] by simp
      moreover have "unpack_uint32 ?b (int (length name) + 2) = Some session"
        using unpack_uint32_append [of "int (length name) + 2" "[?t, ?l] @ name" session "le_bytes 4 ?n"] s by simp
      moreover have "unpack_uint32 ?b (int (length name) + 6) = Some ?n"
        using unpack_uint32_append [of "int (length name) + 6" "[?t, ?l] @ name @ le_bytes 4 session" ?n "[]"] n by simp
      ultimately show ?thesis unfolding b using False A_name l
        by (cases p) (simp_all add: lunpackrequest_def unpackmreq_string_def Let_def lift_def ret_def request_values_def addr_val_def)
    qed
  next
    case A_other
    then show ?thesis using assms(2) by (simp add: addr_ok_def)
  qed
qed

lemma unpack_part_body:
  assumes "0 < session" "session < 2 ^ 31"
  shows "lunpackrequest (part_body session m c) (int (length (part_body session m c))) =
    ret [CV_bool False, CV_int session, CV_block c, CV_int (int (length c)), CV_bool m]"
proof -
  let ?t = "if m then 2 else 3 :: u8"
  let ?b = "[?t] @ le_bytes 4 session @ c"
  have s: "session mod 2 ^ 32 = session" using assms by auto
  have b: "part_body session m c = ?b" by (simp add: part_body_def)
  have "unpack_uint32 ?b 1 = Some session" using unpack_uint32_append [of 1 "[?t]" session c] s by simp
  moreover have "peek ?b 5 (int (length c)) = Some c"
    using peek_append [of 5 "[?t] @ le_bytes 4 session" "int (length c)" c "[]"] by simp
  ultimately show ?thesis unfolding b
    by (cases m) (simp_all add: lunpackrequest_def unpackmreq_part_def return_buffer_def lift_def ret_def)
qed

section \<open>Putting a message together\<close>

text \<open>The receiver of a message in parts: it appends the announced size and then every part, and
  concatenates at the end. \<open>vs\<close> are the values unpacked from the parts.\<close>

fun append_parts :: "cl_val list \<Rightarrow> (cl_val \<times> cl_val) list \<Rightarrow> (cl_error, cl_val list) run" where
  "append_parts t [] = ret t"
| "append_parts t ((v, n) # vs) = run_bind (lappend t v n) (\<lambda>t. append_parts t vs)"

lemma append_parts_blocks:
  "\<forall>c\<in>set cs. length c < 2 ^ 31 \<Longrightarrow>
     append_parts t (map (\<lambda>c. (CV_block c, CV_int (int (length c)))) cs) = ret (t @ map CV_str cs)"
proof (induction cs arbitrary: t)
  case Nil
  then show ?case by simp
next
  case (Cons c cs)
  have "to_i32 (int (length c)) = int (length c)" using Cons.prems by (intro to_i32_id) (simp add: is_i32_def)
  then have "lappend t (CV_block c) (CV_int (int (length c))) = ret (t @ [CV_str c])"
    by (simp add: lappend_def lift_def ret_def peek_def)
  then show ?case using Cons by simp
qed

lemma concat_loop_strings:
  "length pre + length (concat cs) = nat sz \<Longrightarrow> 0 \<le> sz \<Longrightarrow> length buff = nat sz \<Longrightarrow> take (length pre) buff = pre \<Longrightarrow>
     concat_loop (map CV_str cs) buff (int (length pre)) sz = Some (Some (pre @ concat cs, sz))"
proof (induction cs arbitrary: pre buff)
  case Nil
  then show ?case by auto
next
  case (Cons c cs)
  let ?buff = "take (length pre) buff @ c @ drop (length pre + length c) buff"
  have b: "blit buff (int (length pre)) c = Some ?buff" using Cons.prems by simp
  have lp: "length (take (length pre) buff) = length pre" using Cons.prems by simp
  have "take (length (pre @ c)) ?buff = pre @ c" using Cons.prems(4) lp by simp
  moreover have "length ?buff = nat sz" using Cons.prems by simp
  moreover have "length (pre @ c) + length (concat cs) = nat sz" using Cons.prems(1) by simp
  ultimately have ih: "concat_loop (map CV_str cs) ?buff (int (length (pre @ c))) sz = Some (Some ((pre @ c) @ concat cs, sz))"
    using Cons.IH [of "pre @ c" ?buff] Cons.prems(2) by blast
  have "\<not> int (length c) + int (length pre) > sz" using Cons.prems(1,2) by auto
  then show ?case using b ih by simp
qed

lemma lconcat_chunks:
  assumes "int (length msg) < 2 ^ 31" "concat cs = msg"
  shows "lconcat (CV_int (int (length msg)) # map CV_str cs) = Some (Some (msg, int (length msg)))"
proof -
  have "to_i32 (int (length msg)) = int (length msg)" using assms by (intro to_i32_id) (simp add: is_i32_def)
  then show ?thesis
    using concat_loop_strings [of "[]" cs "int (length msg)" "replicate (length msg) 0"] assms(2)
    by (simp add: lconcat_def Let_def)
qed

lemma parts_with_length: "length (parts_with f cs) = length cs"
  by (induction f cs rule: parts_with.induct) auto

lemma parts_with_map: "map g (parts_with f cs) = parts_with (\<lambda>m c. g (f m c)) cs"
  by (induction f cs rule: parts_with.induct) auto

lemma parts_with_const: "parts_with (\<lambda>m c. h c) cs = map h cs"
  by (induction "\<lambda>(m :: bool) c. h c" cs rule: parts_with.induct) auto

lemma parts_with_cong: "(\<And>m c. c \<in> set cs \<Longrightarrow> f m c = g m c) \<Longrightarrow> parts_with f cs = parts_with g cs"
  by (induction f cs rule: parts_with.induct) auto

lemma parts_with_in: "x \<in> set (parts_with f cs) \<Longrightarrow> \<exists>m c. c \<in> set cs \<and> x = f m c"
  by (induction f cs rule: parts_with.induct) auto

text \<open>Packages sent over a socket are split by the netpack module.\<close>

lemma be_write_size: "0 \<le> n \<Longrightarrow> n < 2 ^ 16 \<Longrightarrow> be_bytes 2 n = write_size n"
  by (simp add: be_bytes_def write_size_def byte_mask numeral_2_eq_2)

lemma framed_stream:
  assumes "\<forall>b\<in>set bs. length b < 2 ^ 16"
  shows "frames 2 pk_len (concat (map framed bs)) = (bs, [])"
proof -
  have "frames 2 pk_len (concat (map (\<lambda>b. be_bytes 2 (int (length b)) @ b) bs)) = (bs, [])"
    by (rule frames_encoded) (use assms in \<open>auto simp: be_write_size pk_len_write\<close>)
  then show ?thesis by (simp add: framed_def [abs_def])
qed


text \<open>C28: A request of any size, to a service given by number or by name, sent over the stream that
  the netpack module splits, is received with its address, session and kind; the receiver that
  appends the parts of a large one and concatenates them gets the message.\<close>

theorem cluster_request_roundtrip:
  assumes "int (length msg) < 2 ^ 31" "addr_ok addr" "0 < session" "session < 2 ^ 31"
  shows "\<exists>req nxt parts bodies.
    packrequest addr session (Some msg) (int (length msg)) p = ret (req, nxt, parts) \<and> 0 < nxt \<and> nxt < 2 ^ 31 \<and>
    frames 2 pk_len (req @ concat (case parts of None \<Rightarrow> [] | Some ps \<Rightarrow> ps)) =
      (request_body addr session msg p # bodies, []) \<and>
    lunpackrequest (request_body addr session msg p) (int (length (request_body addr session msg p))) =
      ret (request_values addr session msg p) \<and>
    (parts = None \<longleftrightarrow> length msg < 0x8000) \<and>
    (case parts of
       None \<Rightarrow> bodies = []
     | Some ps \<Rightarrow>
         \<exists>cs. map (\<lambda>b. lunpackrequest b (int (length b))) bodies =
           parts_with (\<lambda>m c. ret [CV_bool False, CV_int session, CV_block c, CV_int (int (length c)), CV_bool m]) cs \<and>
         run_bind (append_parts [CV_int (int (length msg))] (map (\<lambda>c. (CV_block c, CV_int (int (length c)))) cs))
           (\<lambda>t. ret (lconcat t)) = ret (Some (Some (msg, int (length msg)))))"
proof -
  let ?body = "request_body addr session msg p"
  let ?cs = "chunks 0x8000 msg"
  let ?bodies = "if length msg < 0x8000 then [] else parts_with (part_body session) ?cs"
  have len: "int (length msg) < 2 ^ 32" using assms(1) by simp
  have bl: "length ?body < 2 ^ 16"
    using assms(2) by (cases addr) (auto simp: request_body_def addr_ok_def)
  have "length b < 2 ^ 16" if "b \<in> set (parts_with (part_body session) ?cs)" for b
    using parts_with_in [OF that] chunks_length [of _ msg] by (force simp: part_body_def)
  then have "frames 2 pk_len (concat (map framed (?body # ?bodies))) = (?body # ?bodies, [])"
    using bl by (intro framed_stream) auto
  moreover have "map (\<lambda>b. lunpackrequest b (int (length b))) (parts_with (part_body session) ?cs) =
      parts_with (\<lambda>m c. ret [CV_bool False, CV_int session, CV_block c, CV_int (int (length c)), CV_bool m]) ?cs"
    unfolding parts_with_map by (rule parts_with_cong) (rule unpack_part_body [OF assms(3,4)])
  moreover have "append_parts [CV_int (int (length msg))] (map (\<lambda>c. (CV_block c, CV_int (int (length c)))) ?cs) =
      ret ([CV_int (int (length msg))] @ map CV_str ?cs)"
    by (rule append_parts_blocks) (use chunks_length [of _ msg] in force)
  moreover have "lconcat (CV_int (int (length msg)) # map CV_str ?cs) = Some (Some (msg, int (length msg)))"
    by (rule lconcat_chunks [OF assms(1) chunks_props(1)])
  ultimately show ?thesis
    unfolding packrequest_body [OF len assms(2-4)]
    using unpack_request_body [OF len assms(2-4), of p] assms(3,4)
    by (cases "length msg < 0x8000") auto
qed

definition demo_msg :: bytes where
  "demo_msg = replicate 0x8001 7"

theorem cluster_request_roundtrip_witness:
  "\<exists>req nxt ps bodies.
    packrequest (A_name [64]) 5 (Some demo_msg) 0x8001 True = ret (req, nxt, Some ps) \<and>
    frames 2 pk_len (req @ concat ps) = (request_body (A_name [64]) 5 demo_msg True # bodies, [])"
proof -
  have l: "int (length demo_msg) = 0x8001" by (simp add: demo_msg_def)
  have a: "int (length demo_msg) < 2 ^ 31" "addr_ok (A_name [64])" "(0 :: int) < 5" "(5 :: int) < 2 ^ 31"
    by (simp_all add: l addr_ok_def)
  obtain req nxt parts bodies where r:
    "packrequest (A_name [64]) 5 (Some demo_msg) (int (length demo_msg)) True = ret (req, nxt, parts)"
    "frames 2 pk_len (req @ concat (case parts of None \<Rightarrow> [] | Some ps \<Rightarrow> ps)) =
      (request_body (A_name [64]) 5 demo_msg True # bodies, [])"
    "parts = None \<longleftrightarrow> length demo_msg < 0x8000"
    using cluster_request_roundtrip [OF a, of True] by blast
  have "length demo_msg = 0x8001" by (simp add: demo_msg_def)
  then obtain ps where "parts = Some ps" using r(3) by (cases parts) auto
  then show ?thesis using r l by auto
qed

section \<open>Responses\<close>

lemma bind_response_part:
  assumes buf: "length buf = TEMP_LENGTH" and c: "length c \<le> 0x8000" "s = int (length c)"
    and F: "\<And>buf'. length buf' = TEMP_LENGTH \<Longrightarrow> F buf' (framed (response_body session t c)) = r"
  shows "Option.bind (set_byte buf 6 t) (\<lambda>buf.
      Option.bind (fill_header buf (s + 5)) (\<lambda>buf.
      Option.bind (fill_uint32 buf 2 session) (\<lambda>buf.
      Option.bind (copy_msg buf 7 (c @ rest) s) (\<lambda>buf.
      Option.bind (peek buf 0 (s + 7)) (\<lambda>p. F buf p))))) = r"
proof -
  obtain b1 where b1: "set_byte buf 6 t = Some b1" "length b1 = TEMP_LENGTH" "b1 ! 6 = t"
    using set_byte_ahead [of buf 6 t] buf by (auto simp: TEMP_LENGTH_def)
  obtain b2 where b2: "fill_header b1 (s + 5) = Some b2" "filled b2 (be_bytes 2 (s + 5))" "b2 ! 6 = t"
    using fill_header_ahead [of b1 "s + 5" 6 t] b1 c by (auto simp: TEMP_LENGTH_def)
  obtain b3 where b3: "blit b2 2 (le_bytes 4 session) = Some b3" "filled b3 (be_bytes 2 (s + 5) @ le_bytes 4 session)"
    using blit_filled [OF b2(2), of 2 "le_bytes 4 session"] by (auto simp: TEMP_LENGTH_def)
  have "b3 ! 6 = t" using blit_other [OF b3(1), of 6] b2 by (simp add: filled_def TEMP_LENGTH_def)
  then have b4: "filled b3 ((be_bytes 2 (s + 5) @ le_bytes 4 session) @ [t])"
    by (intro filled_ahead [OF b3(2)]) (auto simp: TEMP_LENGTH_def)
  have fr: "framed (response_body session t c) = ((be_bytes 2 (s + 5) @ le_bytes 4 session) @ [t]) @ c"
    using c by (simp add: framed_def response_body_def add.commute)
  have "Option.bind (copy_msg b3 7 (c @ rest) s) (\<lambda>buf.
      Option.bind (peek buf 0 (s + 7)) (\<lambda>p. F buf p)) = r"
  proof (rule bind_msg [OF b4], simp, rule c(2), use c(1) in \<open>simp add: TEMP_LENGTH_def\<close>)
    fix buf' assume f: "filled buf' (((be_bytes 2 (s + 5) @ le_bytes 4 session) @ [t]) @ c)"
    have "peek buf' 0 (s + 7) = Some (framed (response_body session t c))"
      unfolding fr by (rule peek_filled [OF f]) (simp add: c(2))
    moreover have "length buf' = TEMP_LENGTH" using f by (simp add: filled_def)
    ultimately show "Option.bind (peek buf' 0 (s + 7)) (\<lambda>p. F buf' p) = r" using F by simp
  qed
  then show ?thesis using b1(1) b2(1) b3(1) by (simp add: fill_uint32_def)
qed

definition resp_part :: "int \<Rightarrow> bool \<Rightarrow> bytes \<Rightarrow> bytes" where
  "resp_part session m c = response_body session (if m then 3 else 4) c"

lemma response_parts_bodies:
  "length buf = TEMP_LENGTH \<Longrightarrow> 0 < length msg \<Longrightarrow>
     response_parts (nat ((int (length msg) - 1) div MULTI_PART + 1)) buf session msg (int (length msg)) =
       Some (map framed (parts_with (resp_part session) (chunks 0x8000 msg)))"
proof (induction "length msg" arbitrary: msg buf rule: less_induct)
  case less
  show ?case
  proof (cases "length msg \<le> 0x8000")
    case True
    have "(int (length msg) - 1) div 0x8000 = 0" using True less.prems by simp
    then have n: "nat ((int (length msg) - 1) div MULTI_PART + 1) = Suc 0" by (simp add: MULTI_PART_def)
    have ch: "chunks 0x8000 msg = [msg]" using True by (subst chunks.simps) simp
    have "Option.bind (set_byte buf 6 4) (\<lambda>buf.
      Option.bind (fill_header buf (int (length msg) + 5)) (\<lambda>buf.
      Option.bind (fill_uint32 buf 2 session) (\<lambda>buf.
      Option.bind (copy_msg buf 7 (msg @ []) (int (length msg))) (\<lambda>buf.
      Option.bind (peek buf 0 (int (length msg) + 7)) (\<lambda>p. Some [p]))))) =
      Some [framed (response_body session 4 msg)]"
      by (rule bind_response_part [OF less.prems(1) True refl]) simp
    then show ?thesis unfolding n ch using True by (simp add: MULTI_PART_def resp_part_def)
  next
    case False
    have "(int (length msg) - 1) div 0x8000 = (int (length (drop 0x8000 msg)) - 1) div 0x8000 + 1"
      using False by simp
    then have n: "nat ((int (length msg) - 1) div MULTI_PART + 1) =
        Suc (nat ((int (length (drop 0x8000 msg)) - 1) div MULTI_PART + 1))"
      using False by (simp add: MULTI_PART_def nat_add_distrib)
    have ch: "chunks 0x8000 msg = take 0x8000 msg # chunks 0x8000 (drop 0x8000 msg)"
      using False by (subst chunks.simps) simp
    obtain d ds where d: "chunks 0x8000 (drop 0x8000 msg) = d # ds"
      using chunks_props(2) [where k = "0x8000" and xs = "drop 0x8000 msg"] by (cases "chunks 0x8000 (drop 0x8000 msg)") auto
    have len: "length (take 0x8000 msg) \<le> 0x8000" "0x8000 = int (length (take 0x8000 msg))" using False by auto
    have sz: "int (length msg) - 0x8000 = int (length (drop 0x8000 msg))" using False by simp
    have ih: "response_parts (nat ((int (length (drop 0x8000 msg)) - 1) div MULTI_PART + 1)) b session (drop 0x8000 msg)
        (int (length (drop 0x8000 msg))) = Some (map framed (parts_with (resp_part session) (d # ds)))"
      if "length b = TEMP_LENGTH" for b
      using less.hyps [of "drop 0x8000 msg" b] that False less.prems d by simp
    have "Option.bind (set_byte buf 6 3) (\<lambda>buf.
      Option.bind (fill_header buf (0x8000 + 5)) (\<lambda>buf.
      Option.bind (fill_uint32 buf 2 session) (\<lambda>buf.
      Option.bind (copy_msg buf 7 (take 0x8000 msg @ drop 0x8000 msg) 0x8000) (\<lambda>buf.
      Option.bind (peek buf 0 (0x8000 + 7)) (\<lambda>p.
      map_option (Cons p) (response_parts (nat ((int (length (drop 0x8000 msg)) - 1) div MULTI_PART + 1)) buf session
        (drop 0x8000 msg) (int (length (drop 0x8000 msg))))))))) =
      Some (framed (response_body session 3 (take 0x8000 msg)) # map framed (parts_with (resp_part session) (d # ds)))"
      by (rule bind_response_part [OF less.prems(1) len]) (simp only: ih option.map)
    moreover have "int (length msg) > MULTI_PART" using False by (simp add: MULTI_PART_def)
    moreover have "nat 0x8000 = (0x8000 :: nat)" by simp
    ultimately show ?thesis unfolding n ch d response_parts.simps Let_def
      by (simp only: if_True MULTI_PART_def append_take_drop_id sz parts_with.simps list.map resp_part_def)
  qed
qed

lemma packresponse_bodies:
  "lpackresponse session ok msg (int (length msg)) =
     Some (if ok \<and> 0x8000 < length msg
           then Inr (framed (response_body session 2 (le_bytes 4 (int (length msg)))) #
                     map framed (parts_with (resp_part session) (chunks 0x8000 msg)))
           else Inl (framed (response_body session (if ok then 1 else 0) (if ok then msg else take 0x8000 msg))))"
proof (cases "ok \<and> 0x8000 < length msg")
  case True
  let ?n = "int (length msg)"
  let ?pkt = "(((be_bytes 2 9 @ le_bytes 4 session) @ [2]) @ le_bytes 4 ?n)"
  have fr: "framed (response_body session 2 (le_bytes 4 ?n)) = ?pkt" by (simp add: framed_def response_body_def)
  have r: "response_parts (nat ((?n - 1) div MULTI_PART + 1)) b session msg ?n =
      Some (map framed (parts_with (resp_part session) (chunks 0x8000 msg)))" if "length b = TEMP_LENGTH" for b
    by (rule response_parts_bodies [OF that]) (use True in auto)
  have "Option.bind (fill_header temp_buf 9) (\<lambda>buf.
         Option.bind (fill_uint32 buf 2 session) (\<lambda>buf.
         Option.bind (set_byte buf 6 2) (\<lambda>buf.
         Option.bind (fill_uint32 buf 7 ?n) (\<lambda>buf.
         Option.bind (peek buf 0 11) (\<lambda>h.
         map_option (\<lambda>ps. Inr (h # ps)) (response_parts (nat ((?n - 1) div MULTI_PART + 1)) buf session msg ?n)))))) =
      Some (Inr (?pkt # map framed (parts_with (resp_part session) (chunks 0x8000 msg))) :: bytes + bytes list)"
    by (rule bind_header, simp add: temp_buf_def, simp,
      rule bind_uint32, assumption, simp, simp add: TEMP_unfold, rule bind_byte, assumption, simp, simp add: TEMP_unfold,
      rule bind_uint32, assumption, simp, simp add: TEMP_unfold)
      (subst peek_filled, assumption, simp, subst r, simp add: filled_def, simp)
  then show ?thesis using True unfolding lpackresponse_def Let_def by (simp add: fr MULTI_PART_def)
next
  case False
  let ?m = "if ok then msg else take 0x8000 msg"
  let ?n = "int (length ?m)"
  let ?pkt = "(((be_bytes 2 (?n + 5) @ le_bytes 4 session) @ [if ok then 1 else 0]) @ ?m)"
  have l: "length ?m \<le> 0x8000" using False by auto
  have fr: "framed (response_body session (if ok then 1 else 0) ?m) = ?pkt"
    by (simp add: framed_def response_body_def add.commute)
  have "Option.bind (fill_header temp_buf (?n + 5)) (\<lambda>buf.
         Option.bind (fill_uint32 buf 2 session) (\<lambda>buf.
         Option.bind (set_byte buf 6 (if ok then 1 else 0)) (\<lambda>buf.
         Option.bind (copy_msg buf 7 (?m @ (if ok then [] else drop 0x8000 msg)) ?n) (\<lambda>buf.
         map_option Inl (peek buf 0 (?n + 7)))))) =
      Some (Inl ?pkt :: bytes + bytes list)"
    by (rule bind_header, simp add: temp_buf_def, use l in simp,
      rule bind_uint32, assumption, simp, simp add: TEMP_unfold, rule bind_byte, assumption, simp, simp add: TEMP_unfold,
      rule bind_msg, assumption, simp, simp, use l in \<open>simp add: TEMP_unfold\<close>)
      (subst peek_filled, assumption, simp_all)
  moreover have "?m @ (if ok then [] else drop 0x8000 msg) = msg" by simp
  moreover have "(if \<not> ok \<and> int (length msg) > MULTI_PART then MULTI_PART else int (length msg)) = ?n"
    using False by (auto simp: MULTI_PART_def)
  moreover have "\<not> (ok \<and> int (length msg) > MULTI_PART)" using False by (auto simp: MULTI_PART_def)
  ultimately show ?thesis using False unfolding lpackresponse_def Let_def fr
    by (simp only: if_False)
qed


text \<open>The stream of a response: the framed package, or all of the parts.\<close>

definition response_stream :: "bytes + bytes list \<Rightarrow> bytes" where
  "response_stream r = (case r of Inl b \<Rightarrow> b | Inr bs \<Rightarrow> concat bs)"

text \<open>What the receiver gets: for a message above 32 KB its size and then the parts.\<close>

definition response_values :: "int \<Rightarrow> bool \<Rightarrow> bytes \<Rightarrow> cl_val list list" where
  "response_values session ok msg =
     (if ok \<and> 0x8000 < length msg then
        [CV_int session, CV_bool True, CV_int (int (length msg)), CV_bool True] #
        parts_with (\<lambda>m c. [CV_int session, CV_bool True, CV_str c] @ (if m then [CV_bool True] else [])) (chunks 0x8000 msg)
      else [[CV_int session, CV_bool ok, CV_str (if ok then msg else take 0x8000 msg)]])"

lemma unpack_response_body:
  assumes "0 \<le> session" "session < 2 ^ 32"
  shows "t = 0 \<or> t = 1 \<Longrightarrow> lunpackresponse (response_body session t c) = Some [CV_int session, CV_bool (t = 1), CV_str c]"
    "lunpackresponse (resp_part session m c) =
       Some ([CV_int session, CV_bool True, CV_str c] @ (if m then [CV_bool True] else []))"
    "0 \<le> n \<Longrightarrow> n < 2 ^ 32 \<Longrightarrow> lunpackresponse (response_body session 2 (le_bytes 4 n)) =
       Some [CV_int session, CV_bool True, CV_int n, CV_bool True]"
proof -
  have s: "session mod 2 ^ 32 = session" using assms by auto
  have u: "unpack_uint32 (le_bytes 4 session @ t # c) 0 = Some session" for t c
    using unpack_uint32_append [of 0 "[]" session "t # c"] s by simp
  have p: "peek (le_bytes 4 session @ t # c) 5 (int (length c)) = Some c" for t :: u8 and c
    using peek_append [of 5 "le_bytes 4 session @ [t]" "int (length c)" c "[]"] by simp
  have q: "unpack_uint32 (le_bytes 4 session @ t # le_bytes 4 n) 5 = Some (n mod 2 ^ 32)" for t :: u8 and n
    using unpack_uint32_append [of 5 "le_bytes 4 session @ [t]" n "[]"] by simp
  have t: "(le_bytes 4 session @ t # c) ! 4 = t" for t :: u8 and c by (simp add: nth_append)
  show "t = 0 \<or> t = 1 \<Longrightarrow> lunpackresponse (response_body session t c) = Some [CV_int session, CV_bool (t = 1), CV_str c]"
    using u p t by (auto simp: lunpackresponse_def response_body_def Let_def)
  show "lunpackresponse (resp_part session m c) =
       Some ([CV_int session, CV_bool True, CV_str c] @ (if m then [CV_bool True] else []))"
    using u p t by (cases m) (auto simp: lunpackresponse_def resp_part_def response_body_def Let_def)
  show "0 \<le> n \<Longrightarrow> n < 2 ^ 32 \<Longrightarrow> lunpackresponse (response_body session 2 (le_bytes 4 n)) =
       Some [CV_int session, CV_bool True, CV_int n, CV_bool True]"
    using u q [of 2 n] t by (auto simp: lunpackresponse_def response_body_def Let_def)
qed

text \<open>A response of any size arrives with its session and status: in one package, or announced by
  its size and then in parts whose concatenation is the message. An error message is cut at 32 KB.\<close>

theorem cluster_response_roundtrip:
  assumes "int (length msg) < 2 ^ 31" "0 \<le> session" "session < 2 ^ 32"
  shows "\<exists>r bodies. lpackresponse session ok msg (int (length msg)) = Some r \<and>
    frames 2 pk_len (response_stream r) = (bodies, []) \<and>
    map lunpackresponse bodies = map Some (response_values session ok msg) \<and>
    lconcat (CV_int (int (length msg)) # map CV_str (chunks 0x8000 msg)) = Some (Some (msg, int (length msg)))"
proof -
  note u = unpack_response_body [OF assms(2,3)]
  have cat: "lconcat (CV_int (int (length msg)) # map CV_str (chunks 0x8000 msg)) = Some (Some (msg, int (length msg)))"
    by (rule lconcat_chunks [OF assms(1) chunks_props(1)])
  show ?thesis
  proof (cases "ok \<and> 0x8000 < length msg")
    case True
    let ?bodies = "response_body session 2 (le_bytes 4 (int (length msg))) # parts_with (resp_part session) (chunks 0x8000 msg)"
    have "length b < 2 ^ 16" if "b \<in> set (parts_with (resp_part session) (chunks 0x8000 msg))" for b
      using parts_with_in [OF that] chunks_length [of _ msg] by (force simp: resp_part_def response_body_def)
    then have "frames 2 pk_len (concat (map framed ?bodies)) = (?bodies, [])"
      by (intro framed_stream) (auto simp: response_body_def)
    moreover have "map lunpackresponse ?bodies = map Some (response_values session ok msg)"
      using True u(2) u(3) [of "int (length msg)"] assms(1) by (simp add: response_values_def parts_with_map)
    ultimately show ?thesis unfolding packresponse_bodies using True cat by (auto simp: response_stream_def)
  next
    case False
    let ?m = "if ok then msg else take 0x8000 msg"
    let ?body = "response_body session (if ok then 1 else 0) ?m"
    have "length ?body < 2 ^ 16" using False by (auto simp: response_body_def)
    then have "frames 2 pk_len (concat (map framed [?body])) = ([?body], [])" by (intro framed_stream) simp
    moreover have "map lunpackresponse [?body] = map Some (response_values session ok msg)"
      using False u(1) [of "if ok then 1 else 0" ?m] by (auto simp: response_values_def)
    ultimately show ?thesis unfolding packresponse_bodies using False cat by (auto simp: response_stream_def)
  qed
qed

theorem cluster_response_roundtrip_witness:
  "\<exists>r bodies. lpackresponse 9 True demo_msg 0x8001 = Some r \<and> frames 2 pk_len (response_stream r) = (bodies, []) \<and>
    map lunpackresponse bodies = map Some (response_values 9 True demo_msg)"
proof -
  have l: "int (length demo_msg) = 0x8001" by (simp add: demo_msg_def)
  then have a: "int (length demo_msg) < 2 ^ 31" by simp
  show ?thesis using cluster_response_roundtrip [OF a, of 9 True] unfolding l by auto
qed

section \<open>Hostile packages and limits\<close>

lemma peek_defined: "0 \<le> off \<Longrightarrow> 0 \<le> n \<Longrightarrow> off + n \<le> int (length buf) \<Longrightarrow> \<exists>x. peek buf off n = Some x"
  by (simp add: peek_def)

lemma unpack_uint32_defined: "0 \<le> off \<Longrightarrow> off + 4 \<le> int (length buf) \<Longrightarrow> \<exists>x. unpack_uint32 buf off = Some x"
  by (simp add: unpack_uint32_def peek_def)

text \<open>Unpacking reads nothing outside the package, whatever its bytes: every request or response
  is unpacked or refused.\<close>

theorem cluster_unpack_safe:
  "lunpackrequest buf (int (length buf)) \<noteq> None \<and> lunpackresponse buf \<noteq> None"
proof
  let ?n = "int (length buf)"
  have l: "lift m \<noteq> (None :: (cl_error, 'a) run) \<longleftrightarrow> m \<noteq> None" for m :: "'a option"
    by (simp add: lift_def)
  have nm: "0 \<le> uint (buf ! 1)" by simp
  have a: "unpackreq_number buf ?n \<noteq> None" "unpackmreq_number buf ?n p \<noteq> None" "unpackmreq_part buf ?n \<noteq> None" for p
    unfolding unpackreq_number_def unpackmreq_number_def unpackmreq_part_def return_buffer_def
    using unpack_uint32_defined [of 1 buf] unpack_uint32_defined [of 5 buf] unpack_uint32_defined [of 9 buf]
      peek_defined [of 9 "?n - 9" buf] peek_defined [of 5 "?n - 5" buf] by (auto simp: lift_def)
  have b: "buf \<noteq> [] \<Longrightarrow> unpacktrace buf ?n \<noteq> None"
    unfolding unpacktrace_def using peek_defined [of 1 "?n - 1" buf] by (cases buf) (auto simp: lift_def)
  have c: "unpackreq_string buf ?n \<noteq> None"
  proof (cases "?n < uint (buf ! 1) + 6")
    case False
    then show ?thesis unfolding unpackreq_string_def return_buffer_def Let_def
      using peek_defined [of 2 "uint (buf ! 1)" buf] unpack_uint32_defined [of "uint (buf ! 1) + 2" buf] nm
        peek_defined [of "2 + uint (buf ! 1) + 4" "?n - uint (buf ! 1) - 6" buf] by (auto simp: lift_def)
  qed (simp add: unpackreq_string_def Let_def)
  have d: "unpackmreq_string buf ?n p \<noteq> None" for p
  proof (cases "?n < uint (buf ! 1) + 10")
    case False
    then show ?thesis unfolding unpackmreq_string_def Let_def
      using peek_defined [of 2 "uint (buf ! 1)" buf] unpack_uint32_defined [of "uint (buf ! 1) + 2" buf] nm
        unpack_uint32_defined [of "uint (buf ! 1) + 6" buf] by (auto simp: lift_def)
  qed (simp add: unpackmreq_string_def Let_def)
  show "lunpackrequest buf ?n \<noteq> None"
  proof (cases buf)
    case Nil
    then show ?thesis by (simp add: lunpackrequest_def)
  next
    case (Cons t ts)
    then have "buf \<noteq> []" by simp
    then show ?thesis using a b c d Cons unfolding lunpackrequest_def by (simp split: if_splits) (auto simp: Cons)
  qed
  show "lunpackresponse buf \<noteq> None"
    unfolding lunpackresponse_def Let_def
    using unpack_uint32_defined [of 0 buf] unpack_uint32_defined [of 5 buf] peek_defined [of 5 "?n - 5" buf]
    by auto
qed

text \<open>A request of exactly 32 KB is sent as a multi-part request with one part (the comment in the
  source, and the responses, send it in one package).\<close>

theorem cluster_boundary:
  assumes "length msg = 0x8000" "0 \<le> a" "a < 2 ^ 32" "0 < session" "session < 2 ^ 31"
  shows "(\<exists>req nxt. packrequest (A_num a) session (Some msg) 0x8000 p =
      ret (req, nxt, Some [framed (part_body session False msg)])) \<and>
    lpackresponse session True msg 0x8000 = Some (Inl (framed (response_body session 1 msg)))"
proof -
  have n: "int (length msg) = 0x8000" using assms(1) by simp
  have c: "chunks 0x8000 msg = [msg]" using assms(1) by (subst chunks.simps) simp
  have l: "int (length msg) < 2 ^ 32" "addr_ok (A_num a)" using n assms(2,3) by (simp_all add: addr_ok_def)
  show ?thesis
    using packrequest_body [OF l assms(4,5), where p = p] packresponse_bodies [where session = session and ok = True and msg = msg] c
    unfolding n using assms(1) by simp
qed

theorem cluster_boundary_witness:
  "lpackresponse 9 True (replicate 0x8000 0) 0x8000 = Some (Inl (framed (response_body 9 1 (replicate 0x8000 0))))"
  using cluster_boundary [of "replicate 0x8000 0" 1 9] by simp

text \<open>The size announced by a multi-part package is not checked: for 2 GB and more \<open>concat\<close> calls
  \<open>malloc\<close> with a negative size.\<close>

theorem cluster_concat_abort:
  "lunpackresponse (le_bytes 4 1 @ [2, 0, 0, 0, 0x80]) = Some [CV_int 1, CV_bool True, CV_int 0x80000000, CV_bool True] \<and>
   lappend [] CV_nil (CV_int 0x80000000) = ret [CV_int 0x80000000] \<and> lconcat [CV_int 0x80000000] = None"
proof -
  have b: "[0, 0, 0, 0x80] = le_bytes 4 0x80000000" by (simp add: le_bytes_numeral)
  have "le_bytes 4 1 @ [2, 0, 0, 0, 0x80] = response_body 1 2 (le_bytes 4 0x80000000)"
    unfolding response_body_def b [symmetric] by simp
  then show ?thesis using unpack_response_body(3) [where session = 1 and n = "0x80000000"] by (simp add: lappend_def lconcat_def to_i32_def)
qed

end
