(* ===== verification/Gate.thy ===== *)
theory Gate
  imports HashId DataBuffer Framing CString
begin

text \<open>
  \<open>service-src/service_gate.c\<close>: the gate service. It accepts connections, cuts the bytes of each
  into packets by a header of 2 or 4 bytes and forwards the packets to the broker, to the agent of
  the connection or to the watchdog; text commands control it. The state is the \<open>struct gate\<close>;
  the calls into the socket layer and the messages it sends are the events of the result.
  Looking up a service name (\<open>skynet_queryname\<close>) and opening the listening socket are parameters.
\<close>

section \<open>State\<close>

definition BACKLOG :: int where "BACKLOG = 128"

record connection =
  cn_id :: int
  cn_agent :: int
  cn_client :: int
  cn_remote :: bytes
  cn_buffer :: databuffer

record gate =
  g_listen :: int
  g_watchdog :: int
  g_broker :: int
  g_client_tag :: int
  g_header_size :: int
  g_max :: int
  g_hash :: hashid
  g_conn :: "connection list"
  g_mp :: messagepool

text \<open>The log lines of \<open>skynet_error\<close>.\<close>

datatype gate_log =
    L_unknown_command bytes
  | L_too_big
  | L_drop int
  | L_unknown_connection int
  | L_open int
  | L_warning int int
  | L_bad_client int
  | L_bad_id int int
  | L_bad_address bytes
  | L_bad_parm bytes
  | L_need_max
  | L_bad_header
  | L_bad_watchdog bytes

datatype gate_event =
    Ev_close int
  | Ev_start int
  | Ev_send_socket int bytes
  | Ev_listen bytes int int
  | Ev_send int int int int bytes  \<comment> \<open>source, destination, type, session, data\<close>
  | Ev_log gate_log
  | Ev_callback

definition gate_create :: gate where
  "gate_create = \<lparr>g_listen = -1, g_watchdog = 0, g_broker = 0, g_client_tag = 0, g_header_size = 0, g_max = 0,
     g_hash = \<lparr>hi_hashmod = 0, hi_cap = 0, hi_count = 0, hi_id = [], hi_hash = []\<rparr>, g_conn = [], g_mp = empty_pool\<rparr>"

text \<open>The sockets that \<open>gate_release\<close> closes before the memory is freed.\<close>

definition gate_release :: "gate \<Rightarrow> gate_event list \<times> messagepool \<times> hashid" where
  "gate_release g =
     (map (\<lambda>c. Ev_close (cn_id c)) (filter (\<lambda>c. cn_id c \<ge> 0) (take (nat (g_max g)) (g_conn g))) @
      (if g_listen g \<ge> 0 then [Ev_close (g_listen g)] else []),
      messagepool_free (g_mp g), hashid_clear (g_hash g))"

section \<open>Commands\<close>

text \<open>\<open>_parm\<close> moves the parameter to the front of the block.\<close>

definition parm :: "bytes \<Rightarrow> nat \<Rightarrow> nat \<Rightarrow> bytes" where
  "parm msg sz command_sz =
     (let k = command_sz + length (takeWhile (\<lambda>c. c = 32) (drop command_sz (take sz msg)));
          p = drop k (take sz msg)
      in p @ [0] @ drop (length p + 1) msg)"

definition upd_conn :: "gate \<Rightarrow> int \<Rightarrow> (connection \<Rightarrow> connection) \<Rightarrow> gate option" where
  "upd_conn g i f =
     (if nat i < length (g_conn g) then Some (g\<lparr>g_conn := (g_conn g)[nat i := f (g_conn g ! nat i)]\<rparr>) else None)"

definition forward_agent :: "gate \<Rightarrow> int \<Rightarrow> int \<Rightarrow> int \<Rightarrow> gate option" where
  "forward_agent g fd agentaddr clientaddr =
     Option.bind (hashid_lookup (g_hash g) fd) (\<lambda>id.
       if id \<ge> 0 then upd_conn g id (\<lambda>c. c\<lparr>cn_agent := agentaddr, cn_client := clientaddr\<rparr>) else Some g)"

type_synonym gate_result = "(gate \<times> gate_event list) option"

definition ctrl_kick :: "gate \<Rightarrow> bytes \<Rightarrow> gate_result" where
  "ctrl_kick g tmp =
     Option.bind (cstr tmp 0) (\<lambda>command.
       let uid = to_i32 (strtol10 command) in
       Option.bind (hashid_lookup (g_hash g) uid) (\<lambda>id.
         Some (g, if id \<ge> 0 then [Ev_close uid] else [])))"

definition ctrl_forward :: "gate \<Rightarrow> bytes \<Rightarrow> gate_result" where
  "ctrl_forward g tmp =
     Option.bind (strsep_space tmp 0) (\<lambda>(tmp, client).
       case client of
         None \<Rightarrow> Some (g, [])
       | Some p \<Rightarrow>
           Option.bind (cstr tmp 0) (\<lambda>idstr.
           let id = to_i32 (strtol10 idstr) in
           Option.bind (strsep_space tmp p) (\<lambda>(tmp, client).
             case client of
               None \<Rightarrow> Some (g, [])
             | Some q \<Rightarrow>
                 Option.bind (cstr tmp (p + 1)) (\<lambda>agent.
                 Option.bind (cstr tmp (q + 1)) (\<lambda>client.
                 map_option (\<lambda>g. (g, []))
                   (forward_agent g id (strtoul16 agent mod 2 ^ 32) (strtoul16 client mod 2 ^ 32)))))))"

definition ctrl_start :: "gate \<Rightarrow> bytes \<Rightarrow> gate_result" where
  "ctrl_start g tmp =
     Option.bind (cstr tmp 0) (\<lambda>command.
       let uid = to_i32 (strtol10 command) in
       Option.bind (hashid_lookup (g_hash g) uid) (\<lambda>id.
         Some (g, if id \<ge> 0 then [Ev_start uid] else [])))"

definition ctrl :: "(bytes \<Rightarrow> int) \<Rightarrow> gate \<Rightarrow> bytes \<Rightarrow> gate_result" where
  "ctrl queryname g msg =
     (let sz = length msg; tmp = msg @ [0]; i = length (takeWhile (\<lambda>c. c \<noteq> 32) msg) in
      if sz = 0 then Some (g, [])
      else
        Option.bind (memcmp_eq tmp (str ''kick'') i) (\<lambda>b.
        if b then ctrl_kick g (parm tmp sz i)
        else
        Option.bind (memcmp_eq tmp (str ''forward'') i) (\<lambda>b.
        if b then ctrl_forward g (parm tmp sz i)
        else
        Option.bind (memcmp_eq tmp (str ''broker'') i) (\<lambda>b.
        if b then
          Option.bind (cstr (parm tmp sz i) 0) (\<lambda>command. Some (g\<lparr>g_broker := queryname command\<rparr>, []))
        else
        Option.bind (memcmp_eq tmp (str ''start'') i) (\<lambda>b.
        if b then ctrl_start g (parm tmp sz i)
        else
        Option.bind (memcmp_eq tmp (str ''close'') i) (\<lambda>b.
        if b then
          Some (if g_listen g \<ge> 0 then (g\<lparr>g_listen := -1\<rparr>, [Ev_close (g_listen g)]) else (g, []))
        else
        Option.bind (cstr tmp 0) (\<lambda>command. Some (g, [Ev_log (L_unknown_command command)]))))))))"

section \<open>Forwarding\<close>

text \<open>The text is shorter than the buffer of 1024 bytes.\<close>

definition report :: "gate \<Rightarrow> bytes \<Rightarrow> gate_event list" where
  "report g txt = (if g_watchdog g = 0 then [] else [Ev_send 0 (g_watchdog g) PTYPE_TEXT 0 txt])"

text \<open>The connection's buffer and the pool are the state \<open>s\<close>; \<open>c\<close> gives the other fields.\<close>

definition forward :: "gate \<Rightarrow> connection \<Rightarrow> dbstate \<Rightarrow> int \<Rightarrow> (dbstate \<times> gate_event list) option" where
  "forward g c s n =
     (let fd = cn_id c in
      if fd \<le> 0 then Some (s, [])
      else if g_broker g \<noteq> 0 then
        Option.bind (databuffer_read s n) (\<lambda>(s, temp).
          Some (s, [Ev_send 0 (g_broker g) (g_client_tag g OR PTYPE_TAG_DONTCOPY) fd temp]))
      else if cn_agent c \<noteq> 0 then
        Option.bind (databuffer_read s n) (\<lambda>(s, temp).
          Some (s, [Ev_send (cn_client c) (cn_agent c) (g_client_tag g OR PTYPE_TAG_DONTCOPY) fd temp]))
      else if g_watchdog g \<noteq> 0 then
        Option.bind (databuffer_read s n) (\<lambda>(s, temp).
          Some (s, [Ev_send 0 (g_watchdog g) (PTYPE_TEXT OR PTYPE_TAG_DONTCOPY) fd (dec fd @ str '' data '' @ temp)]))
      else Some (s, []))"

text \<open>The loop of \<open>dispatch_message\<close>.\<close>

partial_function (option) dispatch_loop ::
  "gate \<Rightarrow> connection \<Rightarrow> int \<Rightarrow> dbstate \<Rightarrow> gate_event list \<Rightarrow> (dbstate \<times> gate_event list) option" where
  "dispatch_loop g c sid s out =
     Option.bind (databuffer_readheader s (g_header_size g)) (\<lambda>(s, n).
       if n < 0 then Some (s, out)
       else if n > 0 then
         (if n \<ge> 0x1000000 then
            Option.bind (databuffer_clear s) (\<lambda>s. Some (s, out @ [Ev_close sid, Ev_log L_too_big]))
          else
            Option.bind (forward g c s n) (\<lambda>(s, ev).
              dispatch_loop g c sid (databuffer_reset s) (out @ ev)))
       else dispatch_loop g c sid s out)"

definition dispatch_message :: "gate \<Rightarrow> int \<Rightarrow> int \<Rightarrow> bytes \<Rightarrow> gate_result" where
  "dispatch_message g i sid data =
     (if nat i < length (g_conn g) then
        let c = g_conn g ! nat i in
        Option.bind (databuffer_push (g_mp g, cn_buffer c) data) (\<lambda>s.
        Option.bind (dispatch_loop g c sid s []) (\<lambda>((mp, db), out).
          Some (g\<lparr>g_mp := mp, g_conn := (g_conn g)[nat i := c\<lparr>cn_buffer := db\<rparr>]\<rparr>, out)))
      else None)"

section \<open>Messages of the socket layer\<close>

text \<open>\<open>gm_pad\<close> is what follows the structure in the message.\<close>

record gate_message =
  gm_type :: int
  gm_id :: int
  gm_ud :: int
  gm_buffer :: bytes
  gm_pad :: bytes

definition socket_data :: "gate \<Rightarrow> gate_message \<Rightarrow> gate_result" where
  "socket_data g m =
     Option.bind (hashid_lookup (g_hash g) (gm_id m)) (\<lambda>id.
       if id \<ge> 0 then dispatch_message g id (gm_id m) (take (nat (gm_ud m)) (gm_buffer m))
       else Some (g, [Ev_log (L_drop (gm_id m)), Ev_close (gm_id m)]))"

definition socket_connect :: "gate \<Rightarrow> gate_message \<Rightarrow> gate_result" where
  "socket_connect g m =
     (if gm_id m = g_listen g then Some (g, [])
      else
        Option.bind (hashid_lookup (g_hash g) (gm_id m)) (\<lambda>id.
          Some (g, if id < 0 then [Ev_log (L_unknown_connection (gm_id m)), Ev_close (gm_id m)] else [])))"

definition zero_connection :: connection where
  "zero_connection = \<lparr>cn_id = 0, cn_agent = 0, cn_client = 0, cn_remote = replicate 32 0, cn_buffer = empty_db\<rparr>"

definition socket_close :: "gate \<Rightarrow> gate_message \<Rightarrow> gate_result" where
  "socket_close g m =
     Option.bind (hashid_remove (g_hash g) (gm_id m)) (\<lambda>(hash, id).
       let g1 = g\<lparr>g_hash := hash\<rparr> in
       if id \<ge> 0 then
         (if nat id < length (g_conn g) then
            Option.bind (databuffer_clear (g_mp g, cn_buffer (g_conn g ! nat id))) (\<lambda>(mp, db).
            Option.bind (upd_conn (g1\<lparr>g_mp := mp\<rparr>) id (\<lambda>_. zero_connection\<lparr>cn_id := -1\<rparr>)) (\<lambda>g2.
              Some (g2, report g2 (dec (gm_id m) @ str '' close''))))
          else None)
       else Some (g1, []))"

definition socket_accept :: "gate \<Rightarrow> gate_message \<Rightarrow> gate_result" where
  "socket_accept g m =
     (if g_listen g \<noteq> gm_id m then None
      else if hashid_full (g_hash g) then Some (g, [Ev_close (gm_ud m)])
      else
        Option.bind (hashid_insert (g_hash g) (gm_ud m)) (\<lambda>(hash, i).
          let sz = (if length (gm_pad m) \<ge> 32 then 31 else length (gm_pad m));
              f = (\<lambda>c. c\<lparr>cn_id := gm_ud m, cn_remote := take sz (gm_pad m) @ [0] @ drop (sz + 1) (cn_remote c)\<rparr>) in
          Option.bind (upd_conn (g\<lparr>g_hash := hash\<rparr>) i f) (\<lambda>g2.
          Option.bind (cstr (take sz (gm_pad m) @ [0]) 0) (\<lambda>name.
            Some (g2, report g2 (dec (gm_ud m) @ str '' open '' @ dec (gm_ud m) @ str '' '' @ name @ str '':0'') @
                      [Ev_log (L_open (gm_ud m))])))))"

definition dispatch_socket_message :: "gate \<Rightarrow> gate_message \<Rightarrow> gate_result" where
  "dispatch_socket_message g m =
     (if gm_type m = 1 then socket_data g m
      else if gm_type m = 2 then socket_connect g m
      else if gm_type m = 3 \<or> gm_type m = 5 then socket_close g m
      else if gm_type m = 4 then socket_accept g m
      else if gm_type m = 7 then Some (g, [Ev_log (L_warning (gm_id m) (gm_ud m))])
      else Some (g, []))"

text \<open>The callback of the service. The result's last part is the return value: 1 keeps the message.\<close>

datatype gate_input = In_text bytes | In_client bytes int | In_socket gate_message | In_other

definition client_message :: "gate \<Rightarrow> bytes \<Rightarrow> int \<Rightarrow> (gate \<times> gate_event list \<times> int) option" where
  "client_message g msg source =
     (if length msg \<le> 4 then Some (g, [Ev_log (L_bad_client source)], 0)
      else
        let uid = to_i32 (le_val (drop (length msg - 4) msg)) in
        Option.bind (hashid_lookup (g_hash g) uid) (\<lambda>id.
          if id \<ge> 0 then Some (g, [Ev_send_socket uid (take (length msg - 4) msg)], 1)
          else Some (g, [Ev_log (L_bad_id uid source)], 0)))"

definition gate_cb :: "(bytes \<Rightarrow> int) \<Rightarrow> gate \<Rightarrow> gate_input \<Rightarrow> (gate \<times> gate_event list \<times> int) option" where
  "gate_cb queryname g inp =
     (case inp of
        In_text msg \<Rightarrow> map_option (\<lambda>(g, ev). (g, ev, 0)) (ctrl queryname g msg)
      | In_client msg source \<Rightarrow> client_message g msg source
      | In_socket m \<Rightarrow> map_option (\<lambda>(g, ev). (g, ev, 0)) (dispatch_socket_message g m)
      | In_other \<Rightarrow> Some (g, [], 0))"

section \<open>Start\<close>

text \<open>\<open>listen host port\<close> is the id of the listening socket. The result's last part is the return
  value: 1 is failure.\<close>

definition start_listen ::
  "(bytes \<Rightarrow> int \<Rightarrow> int) \<Rightarrow> gate \<Rightarrow> bytes \<Rightarrow> gate \<times> gate_event list \<times> int" where
  "start_listen listen g listen_addr =
     (let bad = (g, [Ev_log (L_bad_address listen_addr)], 1);
          go = (\<lambda>host port.
            let id = listen host port in
            if id < 0 then (g\<lparr>g_listen := id\<rparr>, [Ev_listen host port BACKLOG], 1)
            else (g\<lparr>g_listen := id\<rparr>, [Ev_listen host port BACKLOG, Ev_start id], 0)) in
      if 58 \<in> set listen_addr then
        let n = length (takeWhile (\<lambda>c. c \<noteq> 58) (rev listen_addr));
            port = to_i32 (strtol10 (drop (length listen_addr - n) listen_addr)) in
        if port \<le> 0 then bad else go (take (length listen_addr - n - 1) listen_addr) port
      else
        let port = to_i32 (strtol10 listen_addr) in
        if port \<le> 0 then bad else go [] port)"

text \<open>\<open>sscanf(parm, "%c %s %s %d %d", ...)\<close>: the number of conversions and their values. An
  integer outside the range of \<open>int\<close> is reduced.\<close>

definition scan_word :: "bytes \<Rightarrow> bytes \<times> bytes" where
  "scan_word s = (let t = dropWhile isspace s in (takeWhile (\<lambda>c. \<not> isspace c) t, dropWhile (\<lambda>c. \<not> isspace c) t))"

definition scan_parm :: "bytes \<Rightarrow> int \<times> u8 \<times> bytes \<times> bytes \<times> int \<times> int" where
  "scan_parm s =
     (case s of
        [] \<Rightarrow> (-1, 0, [], [], 0, 0)
      | h # s1 \<Rightarrow>
          let (w, s2) = scan_word s1; (b, s3) = scan_word s2 in
          if w = [] then (1, h, [], [], 0, 0)
          else if b = [] then (2, h, w, [], 0, 0)
          else
            (case scan_int s3 of
               None \<Rightarrow> (3, h, w, b, 0, 0)
             | Some (tag, s4) \<Rightarrow>
                 (case scan_int s4 of
                    None \<Rightarrow> (4, h, w, b, tag, 0)
                  | Some (mx, _) \<Rightarrow> (5, h, w, b, tag, mx))))"

definition gate_init ::
  "(bytes \<Rightarrow> int) \<Rightarrow> (bytes \<Rightarrow> int \<Rightarrow> int) \<Rightarrow> gate \<Rightarrow> bytes option \<Rightarrow> (gate \<times> gate_event list \<times> int) option" where
  "gate_init queryname listen g text =
     (case text of
        None \<Rightarrow> Some (g, [], 1)
      | Some p \<Rightarrow>
          let (n, header, watchdog, binding, client_tag, mx) = scan_parm p in
          if n < 4 then Some (g, [Ev_log (L_bad_parm p)], 1)
          else if mx \<le> 0 then Some (g, [Ev_log L_need_max], 1)
          else if header \<noteq> 83 \<and> header \<noteq> 76 then Some (g, [Ev_log L_bad_header], 1)
          else
            let g1 = g\<lparr>g_watchdog := (if List.hd watchdog = 33 then 0 else queryname watchdog)\<rparr> in
            if List.hd watchdog \<noteq> 33 \<and> g_watchdog g1 = 0 then Some (g1, [Ev_log (L_bad_watchdog watchdog)], 1)
            else
              Option.bind (hashid_init mx) (\<lambda>hash.
                let g2 = g1\<lparr>g_hash := hash,
                    g_conn := replicate (nat mx) (zero_connection\<lparr>cn_id := -1\<rparr>), g_max := mx,
                    g_client_tag := (if client_tag = 0 then PTYPE_CLIENT else client_tag),
                    g_header_size := (if header = 83 then 2 else 4)\<rparr>;
                    (g3, ev, r) = start_listen listen g2 binding
                in Some (g3, Ev_callback # ev, r)))"

section \<open>The loop of \<open>dispatch_message\<close>\<close>

lemma readheader_cases:
  assumes "db_inv s" "0 < hsz"
  obtains s1 n where "databuffer_readheader s hsz = Some (s1, n)" "db_inv s1" "own_step s s1"
    "0 \<le> n \<Longrightarrow> n = db_header (snd s1) \<and> n \<le> int (length (db_content s1))"
    "0 \<le> n \<Longrightarrow> db_header (snd s) \<noteq> 0 \<Longrightarrow> s1 = s"
    "0 \<le> n \<Longrightarrow> db_header (snd s) = 0 \<Longrightarrow> length (db_content s1) + nat hsz = length (db_content s)"
proof (cases "db_header (snd s) = 0")
  case False
  show thesis
    by (rule that [OF readheader_set [OF False assms(1)]]) (use assms False in auto)
next
  case True
  show thesis
  proof (cases "int (length (db_content s)) < hsz")
    case True2: True
    show thesis by (rule that [OF readheader_short [OF True assms(1) True2]]) (use assms in auto)
  next
    case False
    then have le: "hsz \<le> int (length (db_content s))" by simp
    from readheader_parse [OF True assms(1,2) le] obtain s' where
      s': "databuffer_readheader s hsz = Some (s', if int (length (db_content s')) < db_header (snd s')
          then -1 else db_header (snd s'))"
        "db_inv s'" "db_content s' = drop (nat hsz) (db_content s)" "own_step s s'" by auto
    show thesis by (rule that [OF s'(1,2,4)]) (use s'(3) True le assms(2) in \<open>auto split: if_splits\<close>)
  qed
qed

text \<open>What \<open>forward\<close> sends for a packet, when it has a destination.\<close>

definition packet_event :: "gate \<Rightarrow> connection \<Rightarrow> bytes \<Rightarrow> gate_event" where
  "packet_event g c p =
     (if g_broker g \<noteq> 0 then Ev_send 0 (g_broker g) (g_client_tag g OR PTYPE_TAG_DONTCOPY) (cn_id c) p
      else if cn_agent c \<noteq> 0 then
        Ev_send (cn_client c) (cn_agent c) (g_client_tag g OR PTYPE_TAG_DONTCOPY) (cn_id c) p
      else Ev_send 0 (g_watchdog g) (PTYPE_TEXT OR PTYPE_TAG_DONTCOPY) (cn_id c)
        (dec (cn_id c) @ str '' data '' @ p))"

definition has_target :: "gate \<Rightarrow> connection \<Rightarrow> bool" where
  "has_target g c \<longleftrightarrow> 0 < cn_id c \<and> (g_broker g \<noteq> 0 \<or> cn_agent c \<noteq> 0 \<or> g_watchdog g \<noteq> 0)"

lemma forward_spec:
  assumes "db_inv s" "0 < n" "n \<le> int (length (db_content s))"
  obtains s' ev where "forward g c s n = Some (s', ev)" "db_inv s'" "own_step s s'"
    "db_header (snd s') = db_header (snd s)"
    "has_target g c \<Longrightarrow> db_content s' = drop (nat n) (db_content s) \<and>
       ev = [packet_event g c (take (nat n) (db_content s))]"
    "\<not> has_target g c \<Longrightarrow> s' = s \<and> ev = []"
proof (cases "has_target g c")
  case True
  from databuffer_read_spec [OF assms] obtain s' where
    s': "databuffer_read s n = Some (s', take (nat n) (db_content s))" "db_inv s'"
      "db_content s' = drop (nat n) (db_content s)" "db_header (snd s') = db_header (snd s)" "own_step s s'"
    by blast
  have "forward g c s n = Some (s', [packet_event g c (take (nat n) (db_content s))])"
    using True s'(1) by (auto simp: forward_def has_target_def packet_event_def Let_def)
  from that [OF this s'(2,5,4)] s'(3) True show thesis by simp
next
  case False
  then have "forward g c s n = Some (s, [])" by (auto simp: forward_def has_target_def Let_def)
  from that [OF this assms(1)] False show thesis by simp
qed

definition loop_measure :: "dbstate \<Rightarrow> nat" where
  "loop_measure s = 2 * length (db_content s) + (if db_header (snd s) = 0 then 0 else 1)"

lemma reset_sel [simp]:
  "db_inv (databuffer_reset s) = db_inv s" "db_content (databuffer_reset s) = db_content s"
  "db_header (snd (databuffer_reset s)) = 0" "own_step t (databuffer_reset s) = own_step t s"
  by (cases s; simp add: databuffer_reset_def db_content_def db_cells_def)+

text \<open>The events of a connection: packets in its session, and the refusal of a packet that is too big.\<close>

definition conn_events :: "int \<Rightarrow> int \<Rightarrow> gate_event list \<Rightarrow> bool" where
  "conn_events fd sid ev \<longleftrightarrow>
     (\<forall>e \<in> set ev. (\<exists>a b t p. e = Ev_send a b t fd p) \<or> e = Ev_close sid \<or> e = Ev_log L_too_big)"

lemma conn_events_simps [simp]:
  "conn_events fd sid []" "conn_events fd sid (a @ b) \<longleftrightarrow> conn_events fd sid a \<and> conn_events fd sid b"
  "conn_events fd sid [Ev_close sid, Ev_log L_too_big]"
  "conn_events (cn_id c) sid [packet_event g c p]"
  by (auto simp: conn_events_def packet_event_def)

text \<open>The loop ends in every state of the buffer, without a fault.\<close>

lemma dispatch_loop_total:
  assumes "db_inv s" "0 < g_header_size g"
  shows "\<exists>s' ev. dispatch_loop g c sid s out = Some (s', out @ ev) \<and> db_inv s' \<and> own_step s s' \<and>
    conn_events (cn_id c) sid ev"
  using assms(1)
proof (induction "loop_measure s" arbitrary: s out rule: less_induct)
  case less
  obtain s1 n where r: "databuffer_readheader s (g_header_size g) = Some (s1, n)" "db_inv s1" "own_step s s1"
    "0 \<le> n \<Longrightarrow> n = db_header (snd s1) \<and> n \<le> int (length (db_content s1))"
    "0 \<le> n \<Longrightarrow> db_header (snd s) \<noteq> 0 \<Longrightarrow> s1 = s"
    "0 \<le> n \<Longrightarrow> db_header (snd s) = 0 \<Longrightarrow> length (db_content s1) + nat (g_header_size g) = length (db_content s)"
    using readheader_cases [OF less.prems assms(2)] by metis
  consider (neg) "n < 0" | (zero) "n = 0" | (big) "0 < n" "n \<ge> 0x1000000" | (pos) "0 < n" "n < 0x1000000"
    by linarith
  then show ?case
  proof cases
    case neg
    have "dispatch_loop g c sid s out = Some (s1, out @ [])"
      using neg r(1) by (subst dispatch_loop.simps) simp
    then show ?thesis using r(2,3) conn_events_simps(1) by blast
  next
    case zero
    have z: "db_header (snd s1) = 0" using r(4) zero by simp
    have "db_header (snd s) = 0" using r(5) zero z by (cases "db_header (snd s) = 0") auto
    then have "loop_measure s1 < loop_measure s" using r(6) zero assms(2) z by (simp add: loop_measure_def)
    from less.hyps [OF this r(2), of out] obtain s' ev where
      "dispatch_loop g c sid s1 out = Some (s', out @ ev)" "db_inv s'" "own_step s1 s'"
      "conn_events (cn_id c) sid ev" by blast
    moreover have "dispatch_loop g c sid s out = dispatch_loop g c sid s1 out"
      using zero r(1) by (subst dispatch_loop.simps) simp
    ultimately show ?thesis using own_step_trans [OF r(3)] by metis
  next
    case big
    from databuffer_clear_spec [OF r(2)] obtain mp where
      cl: "databuffer_clear s1 = Some (mp, empty_db)" "db_inv (mp, empty_db)" "own_step s1 (mp, empty_db)" by blast
    have "dispatch_loop g c sid s out = Some ((mp, empty_db), out @ [Ev_close sid, Ev_log L_too_big])"
      using big r(1) cl(1) by (subst dispatch_loop.simps) simp
    then show ?thesis using cl own_step_trans [OF r(3)] conn_events_simps(3) by blast
  next
    case pos
    have n: "n = db_header (snd s1)" "n \<le> int (length (db_content s1))" using r(4) pos by auto
    obtain s2 ev where f: "forward g c s1 n = Some (s2, ev)" "db_inv s2" "own_step s1 s2"
      "has_target g c \<Longrightarrow> db_content s2 = drop (nat n) (db_content s1) \<and>
         ev = [packet_event g c (take (nat n) (db_content s1))]"
      "\<not> has_target g c \<Longrightarrow> s2 = s1 \<and> ev = []"
      using forward_spec [OF r(2) pos(1) n(2)] by metis
    have le: "length (db_content s2) \<le> length (db_content s1)"
      using f(4,5) by (cases "has_target g c") auto
    have ce: "conn_events (cn_id c) sid ev" using f(4,5) by (cases "has_target g c") auto
    have "loop_measure (databuffer_reset s2) < loop_measure s"
    proof (cases "db_header (snd s) = 0")
      case True
      then show ?thesis using r(6) pos le assms(2) by (simp add: loop_measure_def)
    next
      case False
      then show ?thesis using r(5) pos le by (simp add: loop_measure_def)
    qed
    from less.hyps [OF this, of "out @ ev"] f(2) obtain s' ev' where
      rec: "dispatch_loop g c sid (databuffer_reset s2) (out @ ev) = Some (s', out @ ev @ ev')" "db_inv s'"
        "own_step (databuffer_reset s2) s'" "conn_events (cn_id c) sid ev'" by auto
    have "dispatch_loop g c sid s out = Some (s', out @ ev @ ev')"
      using pos r(1) f(1) rec(1) by (subst dispatch_loop.simps) simp
    moreover have "own_step s (databuffer_reset s2)" using own_step_trans [OF r(3) f(3)] by simp
    ultimately show ?thesis using rec ce own_step_trans conn_events_simps(2) by blast
  qed
qed

section \<open>Packets of a byte stream\<close>

text \<open>\<open>calm h bs\<close>: no header of the stream is negative or stands for 16M or more.\<close>

function calm :: "nat \<Rightarrow> bytes \<Rightarrow> bool" where
  "calm h bs =
     (if h = 0 \<or> length bs < h then True
      else
        let x = header_value (take h bs) in
        0 \<le> x \<and> x < 0x1000000 \<and> (length bs < h + nat x \<or> calm h (drop (h + nat x) bs)))"
  by pat_completeness auto
termination by (relation "measure (\<lambda>(_, bs). length bs)") auto

declare calm.simps [simp del]

abbreviation header_len :: "bytes \<Rightarrow> nat" where
  "header_len hdr \<equiv> nat (header_value hdr)"

lemma header_value_2: "length hdr = 2 \<Longrightarrow> 0 \<le> header_value hdr \<and> header_value hdr < 0x1000000"
proof -
  assume "length hdr = 2"
  moreover have "uint (hdr ! i) < 256" for i using uint_lt2p [of "hdr ! i"] by simp
  from this [of 0] this [of 1] have "uint (hdr ! 0) * 2 ^ 8 + uint (hdr ! 1) < 0x1000000" by simp
  ultimately show ?thesis by (simp add: header_value_def)
qed

lemma calm_2: "calm 2 bs"
proof (induction "length bs" arbitrary: bs rule: less_induct)
  case less
  show ?case
  proof (cases "length bs < 2")
    case True
    then show ?thesis by (subst calm.simps) simp
  next
    case False
    then have "calm 2 (drop (2 + header_len (take 2 bs)) bs)" by (intro less) simp
    then show ?thesis using header_value_2 [of "take 2 bs"] False by (subst calm.simps) (simp add: Let_def)
  qed
qed

lemma calm_header:
  assumes "calm h (hdr @ bs)" "length hdr = h" "0 < h"
  shows "0 \<le> header_value hdr \<and> header_value hdr < 0x1000000"
  using assms by (subst (asm) calm.simps) (simp add: Let_def)

lemma calm_rest:
  assumes "calm h (hdr @ bs)" "length hdr = h" "0 < h" "header_len hdr \<le> length bs"
  shows "calm h (drop (header_len hdr) bs)"
  using assms by (subst (asm) calm.simps) (simp add: Let_def)

text \<open>The bytes a connection has received and not yet forwarded: a header that has been read is
  kept as a number.\<close>

definition pending :: "nat \<Rightarrow> dbstate \<Rightarrow> bytes \<Rightarrow> bool" where
  "pending h s r \<longleftrightarrow>
     (if db_header (snd s) = 0 then r = db_content s
      else \<exists>hdr. length hdr = h \<and> header_value hdr = db_header (snd s) \<and> r = hdr @ db_content s)"

lemma readheader_pending:
  assumes "db_inv s" "pending h s r" "0 < h" "h \<le> length r"
  obtains s1 hdr where "length hdr = h" "r = hdr @ db_content s1" "db_header (snd s1) = header_value hdr"
    "db_inv s1" "own_step s s1"
    "databuffer_readheader s (int h) =
       Some (s1, if int (length (db_content s1)) < header_value hdr then -1 else header_value hdr)"
proof (cases "db_header (snd s) = 0")
  case True
  then have r: "r = db_content s" using assms(2) by (simp add: pending_def)
  from readheader_parse [OF True assms(1), of "int h"] obtain s1 where
    s1: "databuffer_readheader s (int h) = Some (s1, if int (length (db_content s1)) <
        header_value (take h r) then -1 else header_value (take h r))"
      "db_inv s1" "db_header (snd s1) = header_value (take h r)" "db_content s1 = drop h r" "own_step s s1"
    using assms(3,4) r by auto
  show thesis by (rule that [of "take h r" s1]) (use s1 assms(4) in auto)
next
  case False
  then obtain hdr where hdr: "length hdr = h" "header_value hdr = db_header (snd s)" "r = hdr @ db_content s"
    using assms(2) by (auto simp: pending_def)
  show thesis by (rule that [of hdr s]) (use hdr assms(1) readheader_set [OF False assms(1)] in simp_all)
qed

abbreviation packets :: "nat \<Rightarrow> bytes \<Rightarrow> bytes list" where
  "packets h r \<equiv> filter (\<lambda>p. p \<noteq> []) (fst (frames h header_len r))"

abbreviation leftover :: "nat \<Rightarrow> bytes \<Rightarrow> bytes" where
  "leftover h r \<equiv> snd (frames h header_len r)"

lemma dispatch_loop_packets:
  assumes "db_inv s" "pending h s r" "calm h r" "0 < h" "g_header_size g = int h" "has_target g c"
  shows "\<exists>s'. dispatch_loop g c sid s out = Some (s', out @ map (packet_event g c) (packets h r)) \<and>
    db_inv s' \<and> own_step s s' \<and> pending h s' (leftover h r)"
  using assms(1-3)
proof (induction "length r" arbitrary: r s out rule: less_induct)
  case less
  show ?case
  proof (cases "length r < h")
    case True
    have z: "db_header (snd s) = 0" "r = db_content s"
      using less.prems(2) True by (auto simp: pending_def split: if_splits)
    have "databuffer_readheader s (int h) = Some (s, -1)"
      using readheader_short [OF z(1) less.prems(1)] z(2) True by simp
    then have "dispatch_loop g c sid s out = Some (s, out)"
      by (subst dispatch_loop.simps) (simp add: assms(5))
    then show ?thesis using less.prems by (simp add: frames_short [OF True])
  next
    case False
    then have "h \<le> length r" by simp
    from readheader_pending [OF less.prems(1,2) assms(4) this] obtain s1 hdr where
      hdr: "length hdr = h" "r = hdr @ db_content s1" "db_header (snd s1) = header_value hdr"
      and s1: "db_inv s1" "own_step s s1"
      and rd: "databuffer_readheader s (int h) =
        Some (s1, if int (length (db_content s1)) < header_value hdr then -1 else header_value hdr)" by metis
    have x: "0 \<le> header_value hdr" "header_value hdr < 0x1000000"
      using calm_header [of h hdr] less.prems(3) hdr assms(4) by auto
    let ?x = "header_value hdr" and ?rest = "drop (header_len hdr) (db_content s1)"
    show ?thesis
    proof (cases "int (length (db_content s1)) < ?x")
      case True
      have "dispatch_loop g c sid s out = Some (s1, out)"
        using rd True by (subst dispatch_loop.simps) (simp add: assms(5))
      moreover have "frames h header_len r = ([], r)"
        using frames_wait [of h r header_len] True hdr by simp
      moreover have "pending h s1 r" using hdr True by (auto simp: pending_def)
      ultimately show ?thesis using s1 by simp
    next
      case le: False
      have "header_len hdr \<le> length (db_content s1)" using le by simp
      then have fr: "frames h header_len r = (take (header_len hdr) (db_content s1) # fst (frames h header_len ?rest),
          leftover h ?rest)"
        using frames_packet [OF assms(4) hdr(1), of "take (header_len hdr) (db_content s1)" header_len ?rest]
        by (simp add: hdr(2))
      have cr: "calm h ?rest" using calm_rest [of h hdr] less.prems(3) hdr assms(4) le by simp
      have lt: "length ?rest < length r" using hdr assms(4) by simp
      obtain s2 ev where step: "dispatch_loop g c sid s out = dispatch_loop g c sid s2 (out @ ev)"
        "db_inv s2" "own_step s s2" "pending h s2 ?rest"
        "ev = map (packet_event g c) (filter (\<lambda>p. p \<noteq> []) [take (header_len hdr) (db_content s1)])"
      proof (cases "?x = 0")
        case True
        show thesis
          by (rule that [of s1 "[]"], subst dispatch_loop.simps)
            (use rd True s1 hdr in \<open>auto simp: assms(5) pending_def\<close>)
      next
        case False
        then have px: "0 < ?x" using x by simp
        obtain s2 where f: "forward g c s1 ?x = Some (s2, [packet_event g c (take (header_len hdr) (db_content s1))])"
          "db_inv s2" "own_step s1 s2" "db_content s2 = ?rest"
          using forward_spec [OF s1(1) px] le assms(6) by (metis not_less)
        show thesis
        proof (rule that [of "databuffer_reset s2" "[packet_event g c (take (header_len hdr) (db_content s1))]"])
          show "dispatch_loop g c sid s out =
              dispatch_loop g c sid (databuffer_reset s2) (out @ [packet_event g c (take (header_len hdr) (db_content s1))])"
            using rd f(1) px x le by (subst dispatch_loop.simps) (simp add: assms(5))
          have "take (header_len hdr) (db_content s1) \<noteq> []" using px le by auto
          then show "[packet_event g c (take (header_len hdr) (db_content s1))] =
            map (packet_event g c) (filter (\<lambda>p. p \<noteq> []) [take (header_len hdr) (db_content s1)])" by simp
        qed (use f own_step_trans [OF s1(2) f(3)] in \<open>simp_all add: pending_def\<close>)
      qed
      from less.hyps [OF lt step(2,4) cr, of "out @ ev"] obtain s' where
        "dispatch_loop g c sid s2 (out @ ev) = Some (s', (out @ ev) @ map (packet_event g c) (packets h ?rest))"
        "db_inv s'" "own_step s2 s'" "pending h s' (leftover h ?rest)" by blast
      then show ?thesis using step(1,5) own_step_trans [OF step(3)] by (simp add: fr)
    qed
  qed
qed

section \<open>The invariant of the gate\<close>

abbreviation slot_db :: "gate \<Rightarrow> nat \<Rightarrow> dbstate" where
  "slot_db g i \<equiv> (g_mp g, cn_buffer (g_conn g ! i))"

abbreviation slot_of :: "gate \<Rightarrow> int \<Rightarrow> nat option" where
  "slot_of g fd \<equiv> hashid_map (g_hash g) fd"

definition unused :: "connection \<Rightarrow> messagepool \<Rightarrow> bool" where
  "unused c mp \<longleftrightarrow> cn_id c = -1 \<and> db_header (cn_buffer c) = 0 \<and> db_content (mp, cn_buffer c) = []"

definition gate_inv :: "gate \<Rightarrow> bool" where
  "gate_inv g \<longleftrightarrow>
     hashid_inv (g_hash g) \<and> nat (hi_cap (g_hash g)) = nat (g_max g) \<and> 0 < g_max g \<and>
     length (g_conn g) = nat (g_max g) \<and> (g_header_size g = 2 \<or> g_header_size g = 4) \<and>
     pool_inv (g_mp g) (map cn_buffer (g_conn g)) \<and>
     (\<forall>fd i. slot_of g fd = Some i \<longrightarrow> i < length (g_conn g) \<and> cn_id (g_conn g ! i) = fd) \<and>
     (\<forall>i < length (g_conn g). i \<notin> ran (hashid_map (g_hash g)) \<longrightarrow> unused (g_conn g ! i) (g_mp g))"

lemma gate_inv_hash: "gate_inv g \<Longrightarrow> hashid_inv (g_hash g)"
  by (simp add: gate_inv_def)

lemma gate_inv_slot:
  "gate_inv g \<Longrightarrow> slot_of g fd = Some i \<Longrightarrow> i < length (g_conn g) \<and> cn_id (g_conn g ! i) = fd"
  unfolding gate_inv_def by blast

lemma gate_inv_unused:
  "gate_inv g \<Longrightarrow> i < length (g_conn g) \<Longrightarrow> i \<notin> ran (hashid_map (g_hash g)) \<Longrightarrow> unused (g_conn g ! i) (g_mp g)"
  by (simp add: gate_inv_def)

lemma gate_inv_db: "gate_inv g \<Longrightarrow> i < length (g_conn g) \<Longrightarrow> db_inv (slot_db g i)"
  by (simp add: gate_inv_def pool_inv_def)

lemma gate_lookup:
  "gate_inv g \<Longrightarrow> hashid_lookup (g_hash g) fd = Some (case slot_of g fd of None \<Rightarrow> -1 | Some i \<Rightarrow> int i)"
  by (simp add: gate_inv_hash hid.lookup_law)

lemma map_cn_buffer_upd: "map cn_buffer (cs[i := c]) = (map cn_buffer cs)[i := cn_buffer c]"
  by (simp add: map_update)

text \<open>A change of one slot: its new buffer comes from a step on the pool, the table may change.\<close>

lemma gate_inv_slot_step:
  assumes inv: "gate_inv g" and i: "i < length (g_conn g)"
    and step: "own_step (slot_db g i) (mp', cn_buffer c')" "db_inv (mp', cn_buffer c')"
    and hash: "hashid_inv hash'" "nat (hi_cap hash') = nat (g_max g)"
    and tab: "\<And>fd j. hashid_map hash' fd = Some j \<Longrightarrow> j \<noteq> i \<Longrightarrow> slot_of g fd = Some j"
      "\<And>fd. hashid_map hash' fd = Some i \<Longrightarrow> cn_id c' = fd"
      "\<And>j. j \<noteq> i \<Longrightarrow> j \<in> ran (hashid_map (g_hash g)) \<Longrightarrow> j \<in> ran (hashid_map hash')"
      "i \<notin> ran (hashid_map hash') \<Longrightarrow> unused c' mp'"
  shows "gate_inv (g\<lparr>g_hash := hash', g_mp := mp', g_conn := (g_conn g)[i := c']\<rparr>)"
    and "\<And>j. j < length (g_conn g) \<Longrightarrow> j \<noteq> i \<Longrightarrow>
      db_content (mp', cn_buffer (g_conn g ! j)) = db_content (slot_db g j)"
proof -
  have pool: "pool_inv (g_mp g) (map cn_buffer (g_conn g))" using inv by (simp add: gate_inv_def)
  have st: "own_step (g_mp g, map cn_buffer (g_conn g) ! i) (mp', cn_buffer c')" using step(1) i by simp
  have il: "i < length (map cn_buffer (g_conn g))" using i by simp
  note ps = pool_step [OF pool il st step(2)]
  show oth: "db_content (mp', cn_buffer (g_conn g ! j)) = db_content (slot_db g j)"
    if "j < length (g_conn g)" "j \<noteq> i" for j
    using ps(2) [of j] that by simp
  show "gate_inv (g\<lparr>g_hash := hash', g_mp := mp', g_conn := (g_conn g)[i := c']\<rparr>)"
    unfolding gate_inv_def
  proof (intro conjI allI impI)
    show "pool_inv (g_mp (g\<lparr>g_hash := hash', g_mp := mp', g_conn := (g_conn g)[i := c']\<rparr>))
      (map cn_buffer (g_conn (g\<lparr>g_hash := hash', g_mp := mp', g_conn := (g_conn g)[i := c']\<rparr>)))"
      using ps(1) by (simp add: map_cn_buffer_upd)
  next
    fix fd j
    assume h: "slot_of (g\<lparr>g_hash := hash', g_mp := mp', g_conn := (g_conn g)[i := c']\<rparr>) fd = Some j"
    show "j < length (g_conn (g\<lparr>g_hash := hash', g_mp := mp', g_conn := (g_conn g)[i := c']\<rparr>))"
      using h i tab(1) gate_inv_slot [OF inv] by (cases "j = i") auto
    show "cn_id (g_conn (g\<lparr>g_hash := hash', g_mp := mp', g_conn := (g_conn g)[i := c']\<rparr>) ! j) = fd"
      using h i tab(1,2) gate_inv_slot [OF inv] by (cases "j = i") auto
  next
    fix j
    assume j: "j < length (g_conn (g\<lparr>g_hash := hash', g_mp := mp', g_conn := (g_conn g)[i := c']\<rparr>))"
      "j \<notin> ran (hashid_map (g_hash (g\<lparr>g_hash := hash', g_mp := mp', g_conn := (g_conn g)[i := c']\<rparr>)))"
    show "unused (g_conn (g\<lparr>g_hash := hash', g_mp := mp', g_conn := (g_conn g)[i := c']\<rparr>) ! j)
       (g_mp (g\<lparr>g_hash := hash', g_mp := mp', g_conn := (g_conn g)[i := c']\<rparr>))"
    proof (cases "j = i")
      case True
      then show ?thesis using j i tab(4) by simp
    next
      case False
      then have "unused (g_conn g ! j) (g_mp g)" using j tab(3) gate_inv_unused [OF inv, of j] by auto
      then show ?thesis using False j oth [of j] by (simp add: unused_def)
    qed
  qed (use inv hash in \<open>simp_all add: gate_inv_def\<close>)
qed

lemma gate_inv_buffer:
  assumes inv: "gate_inv g" and slot: "slot_of g fd = Some i"
    and step: "own_step (slot_db g i) (mp', db')" "db_inv (mp', db')"
  shows "gate_inv (g\<lparr>g_mp := mp', g_conn := (g_conn g)[i := (g_conn g ! i)\<lparr>cn_buffer := db'\<rparr>]\<rparr>)"
    and "\<And>j. j < length (g_conn g) \<Longrightarrow> j \<noteq> i \<Longrightarrow>
      db_content (mp', cn_buffer (g_conn g ! j)) = db_content (slot_db g j)"
proof -
  have i: "i < length (g_conn g)" "cn_id (g_conn g ! i) = fd" using gate_inv_slot [OF inv slot] by auto
  have uniq: "fd' = fd" if "slot_of g fd' = Some i" for fd' using gate_inv_slot [OF inv that] i by simp
  have ran: "i \<in> ran (hashid_map (g_hash g))" using slot by (rule ranI)
  have cap: "nat (hi_cap (g_hash g)) = nat (g_max g)" using inv by (simp add: gate_inv_def)
  note st = gate_inv_slot_step [OF inv i(1), of mp' "(g_conn g ! i)\<lparr>cn_buffer := db'\<rparr>" "g_hash g"]
  show "gate_inv (g\<lparr>g_mp := mp', g_conn := (g_conn g)[i := (g_conn g ! i)\<lparr>cn_buffer := db'\<rparr>]\<rparr>)"
    using st(1) [OF _ _ gate_inv_hash [OF inv] cap] step ran uniq i by simp
  show "db_content (mp', cn_buffer (g_conn g ! j)) = db_content (slot_db g j)"
    if "j < length (g_conn g)" "j \<noteq> i" for j
    using st(2) [OF _ _ gate_inv_hash [OF inv] cap] step ran uniq i that by simp
qed

text \<open>Changes that leave the buffers and the table alone.\<close>

lemma gate_inv_listen [simp]: "gate_inv (g\<lparr>g_listen := l\<rparr>) = gate_inv g"
  by (simp add: gate_inv_def)

lemma gate_inv_broker [simp]: "gate_inv (g\<lparr>g_broker := b\<rparr>) = gate_inv g"
  by (simp add: gate_inv_def)

lemma gate_inv_agent:
  assumes "gate_inv g" "i < length (g_conn g)"
  shows "gate_inv (g\<lparr>g_conn := (g_conn g)[i := (g_conn g ! i)\<lparr>cn_agent := a, cn_client := b\<rparr>]\<rparr>)"
proof -
  have "map cn_buffer ((g_conn g)[i := (g_conn g ! i)\<lparr>cn_agent := a, cn_client := b\<rparr>]) = map cn_buffer (g_conn g)"
    using assms(2) by (simp add: map_cn_buffer_upd list_update_same_conv)
  then show ?thesis using assms unfolding gate_inv_def
    by (auto simp: unused_def nth_list_update split: if_splits)
qed

section \<open>Data\<close>

lemma dispatch_message_total:
  assumes "gate_inv g" "slot_of g fd = Some i"
  shows "\<exists>mp db ev. dispatch_message g (int i) sid data =
      Some (g\<lparr>g_mp := mp, g_conn := (g_conn g)[i := (g_conn g ! i)\<lparr>cn_buffer := db\<rparr>]\<rparr>, ev) \<and>
    own_step (slot_db g i) (mp, db) \<and> db_inv (mp, db) \<and> conn_events fd sid ev"
proof -
  have i: "i < length (g_conn g)" "cn_id (g_conn g ! i) = fd" using gate_inv_slot [OF assms] by auto
  from databuffer_push_spec [OF gate_inv_db [OF assms(1) i(1)], of data] obtain s where
    s: "databuffer_push (slot_db g i) data = Some s" "db_inv s" "own_step (slot_db g i) s" by blast
  have "0 < g_header_size g" using assms(1) by (auto simp: gate_inv_def)
  from dispatch_loop_total [OF s(2) this, of "g_conn g ! i" sid "[]"] obtain mp db ev where
    l: "dispatch_loop g (g_conn g ! i) sid s [] = Some ((mp, db), ev)" "db_inv (mp, db)" "own_step s (mp, db)"
      "conn_events (cn_id (g_conn g ! i)) sid ev" by (metis append_Nil surj_pair)
  then show ?thesis using s i own_step_trans [OF s(3) l(3)]
    by (intro exI [of _ mp] exI [of _ db] exI [of _ ev]) (simp add: dispatch_message_def Let_def)
qed

lemma dispatch_message_packets:
  assumes "gate_inv g" "slot_of g fd = Some i" "g_header_size g = int h" "has_target g (g_conn g ! i)"
    "pending h (slot_db g i) r" "calm h (r @ data)"
  shows "\<exists>mp db. dispatch_message g (int i) sid data =
      Some (g\<lparr>g_mp := mp, g_conn := (g_conn g)[i := (g_conn g ! i)\<lparr>cn_buffer := db\<rparr>]\<rparr>,
        map (packet_event g (g_conn g ! i)) (packets h (r @ data))) \<and>
    own_step (slot_db g i) (mp, db) \<and> db_inv (mp, db) \<and> pending h (mp, db) (leftover h (r @ data))"
proof -
  have i: "i < length (g_conn g)" using gate_inv_slot [OF assms(1,2)] by auto
  from databuffer_push_spec [OF gate_inv_db [OF assms(1) i], of data] obtain s where
    s: "databuffer_push (slot_db g i) data = Some s" "db_inv s" "own_step (slot_db g i) s"
      "db_content s = db_content (slot_db g i) @ data" "db_header (snd s) = db_header (snd (slot_db g i))" by blast
  have p: "pending h s (r @ data)" using assms(5) s(4,5) by (auto simp: pending_def split: if_splits)
  have h: "0 < h" using assms(1,3) by (auto simp: gate_inv_def)
  from dispatch_loop_packets [OF s(2) p assms(6) h assms(3,4), of sid "[]"] obtain mp db where
    l: "dispatch_loop g (g_conn g ! i) sid s [] =
      Some ((mp, db), map (packet_event g (g_conn g ! i)) (packets h (r @ data)))" "db_inv (mp, db)"
      "own_step s (mp, db)" "pending h (mp, db) (leftover h (r @ data))" by (metis append_Nil surj_pair)
  then show ?thesis using s i own_step_trans [OF s(3) l(3)]
    by (intro exI [of _ mp] exI [of _ db]) (simp add: dispatch_message_def Let_def)
qed

section \<open>Text commands\<close>

definition terminated :: "bytes \<Rightarrow> bool" where
  "terminated buf \<longleftrightarrow> buf \<noteq> [] \<and> last buf = 0"

lemma terminated_cstr:
  assumes "terminated buf" "p < length buf"
  obtains s where "cstr buf p = Some s" "p + length s < length buf"
proof -
  have "last (drop p buf) = 0" "drop p buf \<noteq> []" using assms by (auto simp: terminated_def)
  then have z: "0 \<in> set (drop p buf)" by (metis last_in_set)
  let ?s = "takeWhile (\<lambda>c. c \<noteq> 0) (drop p buf)"
  have "length ?s \<noteq> length (drop p buf)"
  proof
    assume "length ?s = length (drop p buf)"
    then have "?s = drop p buf" using takeWhile_eq_take [of "\<lambda>c. c \<noteq> 0" "drop p buf"] by simp
    then show False using z by (metis (mono_tags, lifting) set_takeWhileD)
  qed
  then have "length ?s < length (drop p buf)" using length_takeWhile_le [of "\<lambda>c. c \<noteq> 0" "drop p buf"] by linarith
  then show thesis using that [of ?s] z by (auto simp: cstr_def)
qed

lemma strsep_terminated:
  assumes "terminated buf" "p < length buf"
  obtains buf' rest where "strsep_space buf p = Some (buf', rest)" "terminated buf'" "length buf' = length buf"
    "\<And>q. rest = Some q \<Longrightarrow> \<exists>s. cstr buf p = Some s \<and> p < q \<and> q \<le> p + length s"
proof -
  from terminated_cstr [OF assms] obtain s where s: "cstr buf p = Some s" "p + length s < length buf" by metis
  let ?n = "length (takeWhile (\<lambda>c. c \<noteq> 32) s)"
  have t: "terminated (buf[k := 0])" for k
    using assms(1) unfolding terminated_def by (simp add: last_list_update)
  show thesis
  proof (cases "?n < length s")
    case True
    show thesis by (rule that [of "buf[p + ?n := 0]" "Some (p + ?n + 1)"]) (use s True t in \<open>auto simp: strsep_space_def Let_def\<close>)
  next
    case False
    show thesis by (rule that [of buf None]) (use s False assms in \<open>auto simp: strsep_space_def Let_def\<close>)
  qed
qed

text \<open>The command is cut off the front: when it is not empty, what was the end of the message
  still follows the parameter in the block.\<close>

lemma parm_shape:
  assumes "i \<le> length msg"
  obtains k where "i \<le> k" "k \<le> length msg" "parm (msg @ [0]) (length msg) i = drop k msg @ [0] @ drop (length msg - k + 1) (msg @ [0])"
proof -
  let ?k = "i + length (takeWhile (\<lambda>c. c = 32) (drop i msg))"
  have "length (takeWhile (\<lambda>c. c = 32) (drop i msg)) \<le> length msg - i"
    using length_takeWhile_le [of "\<lambda>c. c = 32" "drop i msg"] by simp
  then have "?k \<le> length msg" using assms by simp
  then show thesis using that [of ?k] by (simp add: parm_def Let_def)
qed

lemma parm_facts:
  assumes "0 \<notin> set msg" "i \<le> length msg"
  obtains p where "cstr (parm (msg @ [0]) (length msg) i) 0 = Some p" "length p + i \<le> length msg"
    "terminated (parm (msg @ [0]) (length msg) i)" "length (parm (msg @ [0]) (length msg) i) = length msg + 1"
proof -
  obtain k where k: "i \<le> k" "k \<le> length msg"
    "parm (msg @ [0]) (length msg) i = drop k msg @ [0] @ drop (length msg - k + 1) (msg @ [0])"
    using parm_shape [OF assms(2)] by metis
  have "0 \<notin> set (drop k msg)" using assms(1) by (meson in_set_dropD)
  then have c: "cstr (parm (msg @ [0]) (length msg) i) 0 = Some (drop k msg)"
    using cstr_append_nul [of "drop k msg"] k(3) by simp
  have len: "length (parm (msg @ [0]) (length msg) i) = length msg + 1" using k by simp
  have "terminated (parm (msg @ [0]) (length msg) i)"
  proof (cases k)
    case 0
    then show ?thesis using k(3) by (simp add: terminated_def)
  next
    case (Suc k')
    then have "drop (length msg - k + 1) (msg @ [0]) \<noteq> []" "last (drop (length msg - k + 1) (msg @ [0])) = 0"
      using k(2) by auto
    then show ?thesis using k(3) by (simp add: terminated_def del: drop_append)
  qed
  then show thesis using that [OF c] k len by simp
qed

lemma memcmp_eq_total:
  assumes "0 \<notin> set msg" "n \<le> length msg"
  obtains b where "memcmp_eq (msg @ [0]) lit n = Some b" "n = 0 \<Longrightarrow> b"
proof (cases "n \<le> length (lit @ [0])")
  case True
  then show thesis using that [of "take n (msg @ [0]) = take n (lit @ [0])"] by (simp add: memcmp_eq_def Let_def)
next
  case False
  have "take (length (lit @ [0])) (msg @ [0]) \<noteq> lit @ [0]"
  proof
    assume a: "take (length (lit @ [0])) (msg @ [0]) = lit @ [0]"
    have "length (lit @ [0]) \<le> length msg" using False assms(2) by simp
    then have "take (length (lit @ [0])) msg = lit @ [0]" using a by simp
    moreover have "(0 :: u8) \<in> set (lit @ [0])" by simp
    ultimately have "0 \<in> set msg" by (metis in_set_takeD)
    then show False using assms(1) by simp
  qed
  then show thesis using that [of False] False by (auto simp: memcmp_eq_def Let_def)
qed

lemma forward_agent_inv:
  assumes "gate_inv g"
  shows "\<exists>g'. forward_agent g fd a b = Some g' \<and> gate_inv g'"
proof (cases "slot_of g fd")
  case None
  then show ?thesis using assms by (simp add: forward_agent_def gate_lookup)
next
  case (Some i)
  then show ?thesis using assms gate_inv_slot [OF assms Some] gate_inv_agent [OF assms]
    by (simp add: forward_agent_def gate_lookup upd_conn_def)
qed

lemma ctrl_forward_inv:
  assumes inv: "gate_inv g" and t: "terminated tmp" "cstr tmp 0 = Some p" "length p + 1 < length tmp"
  shows "\<exists>g' ev. ctrl_forward g tmp = Some (g', ev) \<and> gate_inv g'"
proof -
  have l0: "0 < length tmp" using t(3) by linarith
  obtain t1 r1 where s1: "strsep_space tmp 0 = Some (t1, r1)" "terminated t1" "length t1 = length tmp"
    "\<And>q. r1 = Some q \<Longrightarrow> \<exists>s. cstr tmp 0 = Some s \<and> 0 < q \<and> q \<le> 0 + length s"
    using strsep_terminated [OF t(1) l0] by metis
  show ?thesis
  proof (cases r1)
    case None
    then show ?thesis using inv s1(1) by (simp add: ctrl_forward_def)
  next
    case (Some k)
    have k: "0 < k" "k \<le> length p" using s1(4) [OF Some] t(2) by auto
    have kl: "k < length t1" using k t(3) s1(3) by simp
    obtain idstr where c1: "cstr t1 0 = Some idstr" using terminated_cstr [OF s1(2)] l0 s1(3) by metis
    obtain t2 r2 where s2: "strsep_space t1 k = Some (t2, r2)" "terminated t2" "length t2 = length t1"
      "\<And>q. r2 = Some q \<Longrightarrow> \<exists>s. cstr t1 k = Some s \<and> k < q \<and> q \<le> k + length s"
      using strsep_terminated [OF s1(2) kl] by metis
    show ?thesis
    proof (cases r2)
      case None
      then show ?thesis using inv s1(1) Some c1 s2(1) by (simp add: ctrl_forward_def Let_def)
    next
      case (Some q)
      from s2(4) [OF Some] obtain s where s: "cstr t1 k = Some s" "q \<le> k + length s" by blast
      have "k + length s \<le> length p"
      proof -
        have z: "tmp ! length p = 0" "length p < length tmp"
        proof -
          have e: "takeWhile (\<lambda>c. c \<noteq> 0) tmp = p" using t(2) by (simp add: cstr_def split: if_splits)
          show "tmp ! length p = 0" using nth_length_takeWhile [of "\<lambda>c. c \<noteq> 0" tmp] t(3) by (simp add: e)
          show "length p < length tmp" using t(3) by simp
        qed
        have "t1 = tmp \<or> t1 = tmp[k - 1 := 0]"
          using s1(1) t(2) \<open>r1 = Some k\<close> by (auto simp: strsep_space_def Let_def split: if_splits)
        then have "t1 ! length p = 0" using z by (auto simp: nth_list_update_le)
        then have "(drop k t1) ! (length p - k) = 0" "length p - k < length (drop k t1)"
          using k t(3) s1(3) by auto
        moreover have "s = takeWhile (\<lambda>c. c \<noteq> 0) (drop k t1)" using s(1) by (simp add: cstr_def split: if_splits)
        ultimately have "length s \<le> length p - k"
          by (metis (mono_tags, lifting) not_le_imp_less nth_mem set_takeWhileD takeWhile_nth)
        then show ?thesis using k by simp
      qed
      then have "q + 1 < length t2" "k + 1 < length t2" using s(2) t(3) s1(3) s2(3) kl k by auto
      then obtain a b where "cstr t2 (k + 1) = Some a" "cstr t2 (q + 1) = Some b"
        using terminated_cstr [OF s2(2)] by metis
      moreover obtain g' where "forward_agent g (to_i32 (strtol10 idstr)) (strtoul16 a mod 2 ^ 32)
          (strtoul16 b mod 2 ^ 32) = Some g'" "gate_inv g'"
        using forward_agent_inv [OF inv] by metis
      ultimately show ?thesis using s1(1) \<open>r1 = Some k\<close> c1 s2(1) Some by (simp add: ctrl_forward_def Let_def)
    qed
  qed
qed

lemma ctrl_inv:
  assumes inv: "gate_inv g" and msg: "0 \<notin> set msg"
  shows "\<exists>g' ev. ctrl queryname g msg = Some (g', ev) \<and> gate_inv g'"
proof (cases "msg = []")
  case True
  then show ?thesis using inv by (simp add: ctrl_def)
next
  case False
  let ?i = "length (takeWhile (\<lambda>c. c \<noteq> 32) msg)"
  have i: "?i \<le> length msg" by (rule length_takeWhile_le)
  obtain p where p: "cstr (parm (msg @ [0]) (length msg) ?i) 0 = Some p" "length p + ?i \<le> length msg"
    "terminated (parm (msg @ [0]) (length msg) ?i)" "length (parm (msg @ [0]) (length msg) ?i) = length msg + 1"
    using parm_facts [OF msg i] by metis
  note m = memcmp_eq_total [OF msg i]
  obtain b1 where b1: "memcmp_eq (msg @ [0]) (str ''kick'') ?i = Some b1" "?i = 0 \<Longrightarrow> b1" using m by metis
  obtain b2 where b2: "memcmp_eq (msg @ [0]) (str ''forward'') ?i = Some b2" using m by metis
  obtain b3 where b3: "memcmp_eq (msg @ [0]) (str ''broker'') ?i = Some b3" using m by metis
  obtain b4 where b4: "memcmp_eq (msg @ [0]) (str ''start'') ?i = Some b4" using m by metis
  obtain b5 where b5: "memcmp_eq (msg @ [0]) (str ''close'') ?i = Some b5" using m by metis
  have c0: "cstr (msg @ [0]) 0 = Some msg" using cstr_append_nul [OF msg, of "[]"] by simp
  note d = ctrl_def Let_def False b1(1) b2 b3 b4 b5
  consider b1 | "\<not> b1" b2 | "\<not> b1" "\<not> b2" b3 | "\<not> b1" "\<not> b2" "\<not> b3" b4 | "\<not> b1" "\<not> b2" "\<not> b3" "\<not> b4" by blast
  then show ?thesis
  proof cases
    case 1
    then show ?thesis using inv p by (simp add: d ctrl_kick_def gate_lookup)
  next
    case 2
    then have "0 < ?i" using b1(2) by blast
    then have "length p + 1 < length (parm (msg @ [0]) (length msg) ?i)" using p(2,4) by linarith
    from ctrl_forward_inv [OF inv p(3,1) this] 2 show ?thesis by (simp add: d)
  next
    case 3
    then show ?thesis using inv p by (simp add: d)
  next
    case 4
    then show ?thesis using inv p by (simp add: d ctrl_start_def gate_lookup)
  next
    case 5
    then show ?thesis using inv c0 by (cases b5) (simp_all add: d)
  qed
qed

section \<open>Connections open and close\<close>

lemma gate_inv_same_tab:
  assumes "gate_inv g" "hashid_inv hash'" "nat (hi_cap hash') = nat (hi_cap (g_hash g))"
    "hashid_map hash' = hashid_map (g_hash g)"
  shows "gate_inv (g\<lparr>g_hash := hash'\<rparr>)"
  using assms unfolding gate_inv_def by simp metis

lemma socket_close_unknown:
  assumes "gate_inv g" "slot_of g (gm_id m) = None"
  shows "\<exists>g'. socket_close g m = Some (g', []) \<and> gate_inv g' \<and> hashid_map (g_hash g') = hashid_map (g_hash g) \<and>
    g_conn g' = g_conn g \<and> g_mp g' = g_mp g"
proof -
  from hid.remove_law [OF gate_inv_hash [OF assms(1)], of "gm_id m"] assms(2) obtain hash' where
    h: "hashid_remove (g_hash g) (gm_id m) = Some (hash', -1)" "hashid_inv hash'"
      "hashid_map hash' = hashid_map (g_hash g)" "nat (hi_cap hash') = nat (hi_cap (g_hash g))"
    by (auto simp: fun_upd_idem)
  then show ?thesis using gate_inv_same_tab [OF assms(1) h(2,4,3)] by (simp add: socket_close_def Let_def)
qed

lemma db_clear_unused:
  "db_content (mp, empty_db) = [] \<Longrightarrow> unused (zero_connection\<lparr>cn_id := -1, cn_buffer := empty_db\<rparr>) mp"
  by (simp add: unused_def empty_db_def)

lemma zero_conn_buffer: "zero_connection\<lparr>cn_id := -1, cn_buffer := empty_db\<rparr> = zero_connection\<lparr>cn_id := -1\<rparr>"
  by (simp add: zero_connection_def)

lemma socket_close_known:
  assumes inv: "gate_inv g" and slot: "slot_of g (gm_id m) = Some i"
  shows "\<exists>g'. socket_close g m = Some (g', report g (dec (gm_id m) @ str '' close'')) \<and> gate_inv g' \<and>
    hashid_map (g_hash g') = (hashid_map (g_hash g))(gm_id m := None) \<and>
    length (g_conn g') = length (g_conn g) \<and>
    (\<forall>j. j < length (g_conn g) \<and> j \<noteq> i \<longrightarrow> g_conn g' ! j = g_conn g ! j \<and>
       db_content (slot_db g' j) = db_content (slot_db g j))"
proof -
  from hid.remove_law [OF gate_inv_hash [OF inv], of "gm_id m"] slot obtain hash' where
    h: "hashid_remove (g_hash g) (gm_id m) = Some (hash', int i)" "hashid_inv hash'"
      "hashid_map hash' = (hashid_map (g_hash g))(gm_id m := None)"
      "nat (hi_cap hash') = nat (hi_cap (g_hash g))" by auto
  have i: "i < length (g_conn g)" "cn_id (g_conn g ! i) = gm_id m" using gate_inv_slot [OF inv slot] by auto
  from databuffer_clear_spec [OF gate_inv_db [OF inv i(1)]] obtain mp where
    c: "databuffer_clear (slot_db g i) = Some (mp, empty_db)" "db_inv (mp, empty_db)"
      "db_content (mp, empty_db) = []" "own_step (slot_db g i) (mp, empty_db)" by blast
  have uniq: "fd = gm_id m" if "slot_of g fd = Some i" for fd using gate_inv_slot [OF inv that] i by simp
  have ni: "i \<notin> ran (hashid_map hash')" unfolding h(3) ran_def using uniq by auto
  let ?c = "zero_connection\<lparr>cn_id := -1\<rparr>"
  have b: "cn_buffer ?c = empty_db" by (simp add: zero_connection_def)
  have cap: "nat (hi_cap hash') = nat (g_max g)" using h(4) inv by (simp add: gate_inv_def)
  let ?g = "g\<lparr>g_hash := hash', g_mp := mp, g_conn := (g_conn g)[i := ?c]\<rparr>"
  have t1: "slot_of g fd = Some j" if "hashid_map hash' fd = Some j" "j \<noteq> i" for fd j
    using that by (auto simp: h(3) split: if_splits)
  have t2: "cn_id ?c = fd" if "hashid_map hash' fd = Some i" for fd using ni that by (metis ranI)
  have t3: "j \<in> ran (hashid_map hash')" if ji: "j \<noteq> i" and r: "j \<in> ran (hashid_map (g_hash g))" for j
  proof -
    from r obtain fd where fd: "slot_of g fd = Some j" by (auto simp: ran_def)
    then have "hashid_map hash' fd = Some j" using ji slot by (auto simp: h(3))
    then show ?thesis by (rule ranI)
  qed
  have t4: "unused ?c mp" using db_clear_unused [OF c(3)] zero_conn_buffer by metis
  have st: "own_step (slot_db g i) (mp, cn_buffer ?c)" "db_inv (mp, cn_buffer ?c)" using c b by simp_all
  note step = gate_inv_slot_step [OF inv i(1) st h(2) cap t1 t2 t3 t4]
  have "socket_close g m = Some (?g, report g (dec (gm_id m) @ str '' close''))"
    using h(1) c(1) i(1) by (simp add: socket_close_def upd_conn_def report_def Let_def)
  moreover have "gate_inv ?g" using step(1) by blast
  moreover have "db_content (slot_db ?g j) = db_content (slot_db g j)" if "j < length (g_conn g)" "j \<noteq> i" for j
    using step(2) that by simp
  ultimately show ?thesis using h(3) by (intro exI [of _ ?g]) simp
qed

lemma cstr_prefix_nul: "\<exists>name. cstr (take n s @ [0]) 0 = Some name"
  by (auto simp: cstr_def)

lemma socket_accept_full:
  "g_listen g = gm_id m \<Longrightarrow> hashid_full (g_hash g) \<Longrightarrow> socket_accept g m = Some (g, [Ev_close (gm_ud m)])"
  by (simp add: socket_accept_def)

lemma socket_accept_new:
  assumes inv: "gate_inv g" and m: "g_listen g = gm_id m" and free: "\<not> hashid_full (g_hash g)"
    and new: "slot_of g (gm_ud m) = None" "hashid_legal (g_hash g) (gm_ud m)"
  shows "\<exists>g' i name. socket_accept g m = Some (g', report g (dec (gm_ud m) @ str '' open '' @ dec (gm_ud m) @
        str '' '' @ name @ str '':0'') @ [Ev_log (L_open (gm_ud m))]) \<and>
    cstr (take 31 (gm_pad m) @ [0]) 0 = Some name \<and> gate_inv g' \<and>
    hashid_map (g_hash g') = (hashid_map (g_hash g))(gm_ud m \<mapsto> i) \<and> i \<notin> ran (hashid_map (g_hash g)) \<and>
    pending (nat (g_header_size g')) (slot_db g' i) [] \<and>
    (\<forall>j. j < length (g_conn g) \<and> j \<noteq> i \<longrightarrow> g_conn g' ! j = g_conn g ! j) \<and>
    g' = g\<lparr>g_hash := g_hash g', g_conn := g_conn g'\<rparr>"
proof -
  let ?fd = "gm_ud m"
  from hid.insert_law [OF gate_inv_hash [OF inv] free new] obtain hash' i where
    h: "hashid_insert (g_hash g) ?fd = Some (hash', int i)" "hashid_inv hash'"
      "hashid_map hash' = (hashid_map (g_hash g))(?fd \<mapsto> i)" "i < nat (hi_cap (g_hash g))"
      "i \<notin> ran (hashid_map (g_hash g))" "nat (hi_cap hash') = nat (hi_cap (g_hash g))" by blast
  have i: "i < length (g_conn g)" using h(4) inv by (simp add: gate_inv_def)
  define sz where "sz = (if length (gm_pad m) \<ge> 32 then 31 else length (gm_pad m))"
  have tk: "take sz (gm_pad m) = take 31 (gm_pad m)" by (simp add: sz_def)
  obtain name where name: "cstr (take 31 (gm_pad m) @ [0]) 0 = Some name" using cstr_prefix_nul by blast
  let ?c = "(g_conn g ! i)\<lparr>cn_id := ?fd, cn_remote := take 31 (gm_pad m) @ [0] @ drop (sz + 1) (cn_remote (g_conn g ! i))\<rparr>"
  let ?g = "g\<lparr>g_hash := hash', g_conn := (g_conn g)[i := ?c]\<rparr>"
  have cap: "nat (hi_cap hash') = nat (g_max g)" using h(6) inv by (simp add: gate_inv_def)
  have st: "own_step (slot_db g i) (g_mp g, cn_buffer ?c)" "db_inv (g_mp g, cn_buffer ?c)"
    using gate_inv_db [OF inv i] by simp_all
  have t1: "slot_of g fd = Some j" if "hashid_map hash' fd = Some j" "j \<noteq> i" for fd j
    using that by (auto simp: h(3) split: if_splits)
  have t2: "cn_id ?c = fd" if "hashid_map hash' fd = Some i" for fd
    using h(5) that by (auto simp: h(3) ran_def split: if_splits)
  have t3: "j \<in> ran (hashid_map hash')" if "j \<noteq> i" "j \<in> ran (hashid_map (g_hash g))" for j
    using that new(1) by (simp add: h(3))
  have t4: "unused ?c (g_mp g)" if "i \<notin> ran (hashid_map hash')" using that new(1) by (simp add: h(3))
  have "gate_inv (g\<lparr>g_hash := hash', g_mp := g_mp g, g_conn := (g_conn g)[i := ?c]\<rparr>)"
    using gate_inv_slot_step(1) [OF inv i st h(2) cap t1 t2 t3 t4] by blast
  moreover have "g\<lparr>g_hash := hash', g_mp := g_mp g, g_conn := (g_conn g)[i := ?c]\<rparr> = ?g" by simp
  ultimately have gi: "gate_inv ?g" by metis
  have un: "unused (g_conn g ! i) (g_mp g)" by (rule gate_inv_unused [OF inv i h(5)])
  have "socket_accept g m = Some (?g, report g (dec ?fd @ str '' open '' @ dec ?fd @ str '' '' @ name @ str '':0'') @
      [Ev_log (L_open ?fd)])"
    using m free h(1) i name tk
    unfolding socket_accept_def Let_def sz_def [symmetric] by (simp add: upd_conn_def report_def Let_def)
  then show ?thesis using gi name h(3,5) un i
    by (intro exI [of _ ?g] exI [of _ i] exI [of _ name]) (simp add: pending_def unused_def)
qed

section \<open>Every message\<close>

text \<open>What the gate relies on from its environment: a text command contains no NUL, and an accepted
  socket has an id that is not in use. An id is at most \<open>2 ^ 31\<close> less the number of connections, so
  that the probing of \<open>hashid_insert\<close> stays in range. Nothing is asked of the listening socket an
  accepted one is reported for.\<close>

definition input_ok :: "gate \<Rightarrow> gate_input \<Rightarrow> bool" where
  "input_ok g inp =
     (case inp of
        In_text msg \<Rightarrow> 0 \<notin> set msg
      | In_socket m \<Rightarrow>
          (if gm_type m = 4 then
             slot_of g (gm_ud m) = None \<and> hashid_legal (g_hash g) (gm_ud m)
           else True)
      | _ \<Rightarrow> True)"

text \<open>The one message the gate does not survive: an accepted socket that is reported for a socket the
  gate no longer listens on (the command \<open>close\<close> forgets the listening socket, whose reports may
  still be in the mailbox). The assertion of \<open>dispatch_socket_message\<close> fails.\<close>

definition stale_accept :: "gate \<Rightarrow> gate_input \<Rightarrow> bool" where
  "stale_accept g inp = (case inp of In_socket m \<Rightarrow> gm_type m = 4 \<and> gm_id m \<noteq> g_listen g | _ \<Rightarrow> False)"

lemma stale_accept_fails: "stale_accept g inp \<Longrightarrow> gate_cb queryname g inp = None"
  by (cases inp) (auto simp: stale_accept_def gate_cb_def dispatch_socket_message_def socket_accept_def)

lemma socket_data_inv:
  assumes inv: "gate_inv g"
  shows "\<exists>g' ev. socket_data g m = Some (g', ev) \<and> gate_inv g'"
proof (cases "slot_of g (gm_id m)")
  case None
  then show ?thesis using inv by (simp add: socket_data_def gate_lookup)
next
  case (Some i)
  from dispatch_message_total [OF inv Some] obtain mp db ev where
    "dispatch_message g (int i) (gm_id m) (take (nat (gm_ud m)) (gm_buffer m)) =
      Some (g\<lparr>g_mp := mp, g_conn := (g_conn g)[i := (g_conn g ! i)\<lparr>cn_buffer := db\<rparr>]\<rparr>, ev)"
    "own_step (slot_db g i) (mp, db)" "db_inv (mp, db)" by blast
  then show ?thesis using gate_inv_buffer(1) [OF inv Some] inv Some by (simp add: socket_data_def gate_lookup)
qed

lemma dispatch_socket_inv:
  assumes inv: "gate_inv g" and ok: "input_ok g (In_socket m)" "\<not> stale_accept g (In_socket m)"
  shows "\<exists>g' ev. dispatch_socket_message g m = Some (g', ev) \<and> gate_inv g'"
proof -
  consider "gm_type m = 1" | "gm_type m = 2" | "gm_type m = 3 \<or> gm_type m = 5" | "gm_type m = 4"
    | "gm_type m \<notin> {1, 2, 3, 4, 5}" by blast
  then show ?thesis
  proof cases
    case 1
    then show ?thesis using socket_data_inv [OF inv] by (simp add: dispatch_socket_message_def)
  next
    case 2
    then show ?thesis using inv by (simp add: dispatch_socket_message_def socket_connect_def gate_lookup)
  next
    case 3
    then have d: "dispatch_socket_message g m = socket_close g m" by (auto simp: dispatch_socket_message_def)
    show ?thesis
    proof (cases "slot_of g (gm_id m)")
      case None
      then show ?thesis using socket_close_unknown [OF inv None] d by metis
    next
      case (Some i)
      then show ?thesis using socket_close_known [OF inv Some] d by metis
    qed
  next
    case 4
    then have d: "dispatch_socket_message g m = socket_accept g m" by (auto simp: dispatch_socket_message_def)
    have m: "g_listen g = gm_id m" "slot_of g (gm_ud m) = None" "hashid_legal (g_hash g) (gm_ud m)"
      using ok 4 by (auto simp: input_ok_def stale_accept_def)
    show ?thesis
    proof (cases "hashid_full (g_hash g)")
      case True
      then show ?thesis using socket_accept_full [OF m(1)] inv d by simp
    next
      case False
      from socket_accept_new [OF inv m(1) False m(2,3)] show ?thesis unfolding d by blast
    qed
  next
    case 5
    then show ?thesis using inv by (simp add: dispatch_socket_message_def)
  qed
qed

lemma gate_cb_inv:
  assumes inv: "gate_inv g" and ok: "input_ok g inp" "\<not> stale_accept g inp"
  shows "\<exists>g' ev r. gate_cb queryname g inp = Some (g', ev, r) \<and> gate_inv g'"
proof (cases inp)
  case (In_text msg)
  then show ?thesis using ctrl_inv [OF inv, of msg queryname] ok by (auto simp: gate_cb_def input_ok_def)
next
  case (In_client msg source)
  then show ?thesis using inv by (simp add: gate_cb_def client_message_def gate_lookup Let_def)
next
  case (In_socket m)
  then show ?thesis using dispatch_socket_inv [OF inv, of m] ok by (auto simp: gate_cb_def)
next
  case In_other
  then show ?thesis using inv by (simp add: gate_cb_def)
qed

text \<open>The gate starts in its invariant.\<close>

lemma start_listen_shape:
  "start_listen listen g addr = (g', ev, r) \<Longrightarrow> \<exists>l. g' = g\<lparr>g_listen := l\<rparr>"
  by (cases g) (auto simp: start_listen_def Let_def split: if_splits)

lemma gate_init_inv:
  assumes init: "gate_init queryname listen gate_create (Some p) = Some (g, ev, 0)"
    and mx: "case scan_parm p of (_, _, _, _, _, mx) \<Rightarrow> mx \<le> 2 ^ 30"
  shows "gate_inv g \<and> hashid_map (g_hash g) = Map.empty"
proof -
  obtain n header watchdog binding tag m where sc: "scan_parm p = (n, header, watchdog, binding, tag, m)"
    by (metis surj_pair)
  have m: "m \<le> 2 ^ 30" using mx sc by simp
  have pos: "0 < m" using init sc by (cases "m \<le> 0") (auto simp: gate_init_def split: if_splits)
  from hashid_init_inv [of m] obtain hi where
    hi: "hashid_init m = Some hi" "hashid_inv hi" "hashid_map hi = Map.empty" "hi_cap hi = m" using pos m by auto
  let ?g = "\<lambda>w t h. gate_create\<lparr>g_watchdog := w, g_hash := hi,
      g_conn := replicate (nat m) (zero_connection\<lparr>cn_id := -1\<rparr>), g_max := m, g_client_tag := t, g_header_size := h\<rparr>"
  obtain w t ev' where s: "start_listen listen (?g w t (if header = 83 then 2 else 4)) binding = (g, ev', 0)"
    using init sc hi(1) pos by (simp add: gate_init_def Let_def split: if_splits prod.splits)
  obtain l where g: "g = (?g w t (if header = 83 then 2 else 4))\<lparr>g_listen := l\<rparr>"
    using start_listen_shape [OF s] by blast
  have e: "db_cells (empty_pool, empty_db) = []"
    by (simp add: db_cells_def cells_of_def empty_pool_def empty_db_def)
  have "pool_inv empty_pool (replicate (nat m) empty_db)"
    by (auto simp: pool_inv_def db_inv_empty e)
  then have "gate_inv (?g w t (if header = 83 then 2 else 4))"
    using hi pos by (auto simp: gate_inv_def gate_create_def unused_def zero_connection_def db_content_def e)
      (auto simp: empty_db_def)
  then show ?thesis using g hi by simp
qed

text \<open>The gate as a transition system: a gate that has been started, and the messages it receives.\<close>

definition gate_start :: "gate \<Rightarrow> bool" where
  "gate_start g \<longleftrightarrow> (\<exists>queryname listen p ev. gate_init queryname listen gate_create (Some p) = Some (g, ev, 0) \<and>
     (case scan_parm p of (_, _, _, _, _, mx) \<Rightarrow> mx \<le> 2 ^ 30))"

inductive gate_step :: "gate \<Rightarrow> gate \<Rightarrow> bool" where
  gate_message: "input_ok g inp \<Longrightarrow> gate_cb queryname g inp = Some (g', ev, r) \<Longrightarrow> gate_step g g'"

inductive_cases gate_stepE: "gate_step g g'"

interpretation gate_sys: invariant_system gate_start gate_step gate_inv
proof
  show "gate_start g \<Longrightarrow> gate_inv g" for g using gate_init_inv by (auto simp: gate_start_def)
  show "gate_inv g'" if "gate_inv g" "gate_step g g'" for g g'
    using that(2) gate_cb_inv [OF that(1)] stale_accept_fails
    by (elim gate_stepE) (metis option.inject option.distinct(1) prod.inject)
qed

section \<open>Streams\<close>

fun gate_run :: "(bytes \<Rightarrow> int) \<Rightarrow> gate \<Rightarrow> gate_input list \<Rightarrow> (gate \<times> gate_event list) option" where
  "gate_run queryname g [] = Some (g, [])"
| "gate_run queryname g (inp # rest) =
     Option.bind (gate_cb queryname g inp) (\<lambda>(g1, ev, _).
     Option.bind (gate_run queryname g1 rest) (\<lambda>(g2, ev'). Some (g2, ev @ ev')))"

definition data_msg :: "int \<times> bytes \<Rightarrow> gate_input" where
  "data_msg x = In_socket \<lparr>gm_type = 1, gm_id = fst x, gm_ud = int (length (snd x)), gm_buffer = snd x, gm_pad = []\<rparr>"

definition chunks_of :: "int \<Rightarrow> (int \<times> bytes) list \<Rightarrow> bytes" where
  "chunks_of fd ms = concat (map snd (filter (\<lambda>x. fst x = fd) ms))"

fun in_session :: "int \<Rightarrow> gate_event \<Rightarrow> bool" where
  "in_session fd (Ev_send _ _ _ s _) = (s = fd)"
| "in_session fd _ = False"

lemma chunks_of_simps [simp]:
  "chunks_of fd [] = []" "chunks_of fd (x # ms) = (if fst x = fd then snd x else []) @ chunks_of fd ms"
  by (simp_all add: chunks_of_def)

lemma in_session_packets [simp]:
  "filter (in_session fd) (map (packet_event g c) ps) = (if cn_id c = fd then map (packet_event g c) ps else [])"
  by (induction ps) (auto simp: packet_event_def)

lemma in_session_other: "conn_events fd' sid ev \<Longrightarrow> fd' \<noteq> fd \<Longrightarrow> filter (in_session fd) ev = []"
  by (auto simp: conn_events_def filter_empty_conv)

lemma packet_event_upd [simp]:
  "packet_event (g\<lparr>g_mp := mp, g_conn := cs\<rparr>) = packet_event g"
  "packet_event g (c\<lparr>cn_buffer := db\<rparr>) = packet_event g c"
  "has_target (g\<lparr>g_mp := mp, g_conn := cs\<rparr>) = has_target g"
  "has_target g (c\<lparr>cn_buffer := db\<rparr>) = has_target g c"
  by (simp_all add: packet_event_def has_target_def fun_eq_iff)

lemma pending_cong:
  "db_content s' = db_content s \<Longrightarrow> db_header (snd s') = db_header (snd s) \<Longrightarrow> pending h s' r = pending h s r"
  by (simp add: pending_def)

lemma calm_split:
  "calm h (a @ b) \<Longrightarrow> 0 < h \<Longrightarrow> calm h a \<and> calm h (leftover h a @ b)"
proof (induction h a rule: calm.induct)
  case (1 h a)
  show ?case
  proof (cases "length a < h")
    case True
    then show ?thesis using "1.prems" by (simp add: frames_short) (subst calm.simps, simp)
  next
    case False
    let ?x = "header_value (take h a)"
    have x: "0 \<le> ?x" "?x < 0x1000000"
      using "1.prems" False by (subst (asm) calm.simps, simp add: Let_def)+
    show ?thesis
    proof (cases "length a < h + nat ?x")
      case True
      then show ?thesis using "1.prems" False x
        by (simp add: frames_wait) (subst calm.simps, simp add: Let_def)
    next
      case le: False
      have "calm h (drop (h + nat ?x) a @ b)"
        using "1.prems" False le by (subst (asm) calm.simps) (simp add: Let_def)
      with "1.IH" [OF _ refl] False "1.prems"(2) x le
      have ih: "calm h (drop (h + nat ?x) a)" "calm h (leftover h (drop (h + nat ?x) a) @ b)" by auto
      have "leftover h a = leftover h (drop (h + nat ?x) a)"
        using False le "1.prems"(2) by (subst frames.simps) (simp add: Let_def split_beta)
      moreover have "calm h a" using ih(1) False le x by (subst calm.simps) (simp add: Let_def)
      ultimately show ?thesis using ih(2) by simp
    qed
  qed
qed

lemma packets_append:
  "0 < h \<Longrightarrow> packets h (a @ b) = packets h a @ packets h (leftover h a @ b)"
  "0 < h \<Longrightarrow> leftover h (a @ b) = leftover h (leftover h a @ b)"
  using frames_append [of h header_len a b] by simp_all

lemma gate_cb_data:
  "gate_cb queryname g (data_msg (f, d)) =
     Option.bind (hashid_lookup (g_hash g) f) (\<lambda>id.
       if id \<ge> 0 then map_option (\<lambda>(g, ev). (g, ev, 0)) (dispatch_message g id f d)
       else Some (g, [Ev_log (L_drop f), Ev_close f], 0))"
  by (auto simp: gate_cb_def data_msg_def dispatch_socket_message_def socket_data_def
      split: Option.bind_splits)

text \<open>A data message of another connection, or of none, leaves the connection in slot \<open>i\<close> alone.\<close>

lemma data_other:
  assumes inv: "gate_inv g" and slot: "slot_of g fd = Some i" and ne: "f \<noteq> fd"
  obtains g1 ev where "gate_cb queryname g (data_msg (f, d)) = Some (g1, ev, 0)" "gate_inv g1"
    "filter (in_session fd) ev = []" "g_hash g1 = g_hash g" "g_header_size g1 = g_header_size g"
    "packet_event g1 = packet_event g" "has_target g1 = has_target g" "g_conn g1 ! i = g_conn g ! i"
    "db_content (slot_db g1 i) = db_content (slot_db g i)"
proof (cases "slot_of g f")
  case None
  show thesis
    by (rule that [of g "[Ev_log (L_drop f), Ev_close f]"]) (use None inv in \<open>simp_all add: gate_cb_data gate_lookup\<close>)
next
  case (Some j)
  have i: "i < length (g_conn g)" "cn_id (g_conn g ! i) = fd" using gate_inv_slot [OF inv slot] by auto
  have j: "j < length (g_conn g)" "cn_id (g_conn g ! j) = f" using gate_inv_slot [OF inv Some] by auto
  have ij: "i \<noteq> j" using i j ne by auto
  from dispatch_message_total [OF inv Some, of f d] obtain mp db ev where
    dm: "dispatch_message g (int j) f d =
      Some (g\<lparr>g_mp := mp, g_conn := (g_conn g)[j := (g_conn g ! j)\<lparr>cn_buffer := db\<rparr>]\<rparr>, ev)"
    and st: "own_step (slot_db g j) (mp, db)" "db_inv (mp, db)" and ce: "conn_events f f ev" by blast
  note buf = gate_inv_buffer [OF inv Some st]
  show thesis
    by (rule that [of "g\<lparr>g_mp := mp, g_conn := (g_conn g)[j := (g_conn g ! j)\<lparr>cn_buffer := db\<rparr>]\<rparr>" ev])
      (use dm Some inv buf(1) buf(2) [OF i(1) ij] in_session_other [OF ce ne] ij in
        \<open>simp_all add: gate_cb_data gate_lookup\<close>)
qed

lemma data_own:
  assumes inv: "gate_inv g" and slot: "slot_of g fd = Some i" and h: "g_header_size g = int h"
    and tgt: "has_target g (g_conn g ! i)" and p: "pending h (slot_db g i) r" and cm: "calm h (r @ d)"
  obtains g1 where "gate_cb queryname g (data_msg (fd, d)) =
      Some (g1, map (packet_event g (g_conn g ! i)) (packets h (r @ d)), 0)" "gate_inv g1"
    "g_hash g1 = g_hash g" "g_header_size g1 = g_header_size g"
    "packet_event g1 = packet_event g" "has_target g1 = has_target g"
    "packet_event g1 (g_conn g1 ! i) = packet_event g (g_conn g ! i)"
    "has_target g1 (g_conn g1 ! i)"
    "pending h (slot_db g1 i) (leftover h (r @ d))"
proof -
  have i: "i < length (g_conn g)" using gate_inv_slot [OF inv slot] by auto
  from dispatch_message_packets [OF inv slot h tgt p cm, of fd] obtain mp db where
    dm: "dispatch_message g (int i) fd d =
      Some (g\<lparr>g_mp := mp, g_conn := (g_conn g)[i := (g_conn g ! i)\<lparr>cn_buffer := db\<rparr>]\<rparr>,
        map (packet_event g (g_conn g ! i)) (packets h (r @ d)))"
    and st: "own_step (slot_db g i) (mp, db)" "db_inv (mp, db)"
    and pd: "pending h (mp, db) (leftover h (r @ d))" by blast
  show thesis
    by (rule that [of "g\<lparr>g_mp := mp, g_conn := (g_conn g)[i := (g_conn g ! i)\<lparr>cn_buffer := db\<rparr>]\<rparr>"])
      (use dm slot inv i tgt pd gate_inv_buffer(1) [OF inv slot st] in \<open>simp_all add: gate_cb_data gate_lookup\<close>)
qed

lemma run_streams:
  assumes "gate_inv g" "slot_of g fd = Some i" "g_header_size g = int h"
    "has_target g (g_conn g ! i)" "pending h (slot_db g i) r" "calm h (r @ chunks_of fd ms)"
    "frames h header_len r = ([], r)"
  shows "\<exists>g' ev. gate_run queryname g (map data_msg ms) = Some (g', ev) \<and> gate_inv g' \<and>
    filter (in_session fd) ev = map (packet_event g (g_conn g ! i)) (packets h (r @ chunks_of fd ms)) \<and>
    slot_of g' fd = Some i \<and> pending h (slot_db g' i) (leftover h (r @ chunks_of fd ms))"
  using assms
proof (induction ms arbitrary: g r)
  case Nil
  then show ?case by simp
next
  case (Cons x ms)
  obtain f d where x: "x = (f, d)" by (cases x)
  have h: "0 < h" using Cons.prems(1,3) by (auto simp: gate_inv_def)
  show ?case
  proof (cases "f = fd")
    case False
    obtain g1 ev where g1: "gate_cb queryname g (data_msg (f, d)) = Some (g1, ev, 0)" "gate_inv g1"
      "filter (in_session fd) ev = []" "g_hash g1 = g_hash g" "g_header_size g1 = g_header_size g"
      "packet_event g1 = packet_event g" "has_target g1 = has_target g" "g_conn g1 ! i = g_conn g ! i"
      "db_content (slot_db g1 i) = db_content (slot_db g i)"
      using data_other [OF Cons.prems(1,2) False] by metis
    have p1: "pending h (slot_db g1 i) r" 
      using Cons.prems(5) pending_cong [of "slot_db g1 i" "slot_db g i"] g1(8,9) by simp
    have c1: "calm h (r @ chunks_of fd ms)" using Cons.prems(6) False by (simp add: x)
    have a1: "slot_of g1 fd = Some i" "g_header_size g1 = int h" "has_target g1 (g_conn g1 ! i)"
      using Cons.prems(2-4) g1(4,5,7,8) by simp_all
    from Cons.IH [OF g1(2) a1 p1 c1 Cons.prems(7), unfolded g1(6,8)]
    obtain g2 ev2 where "gate_run queryname g1 (map data_msg ms) = Some (g2, ev2)" "gate_inv g2"
      "filter (in_session fd) ev2 = map (packet_event g (g_conn g ! i)) (packets h (r @ chunks_of fd ms))"
      "slot_of g2 fd = Some i" "pending h (slot_db g2 i) (leftover h (r @ chunks_of fd ms))" by blast
    then show ?thesis using g1(1,3) False by (simp add: x)
  next
    case True
    have cm: "calm h (r @ d)" "calm h (leftover h (r @ d) @ chunks_of fd ms)"
      using calm_split [of h "r @ d" "chunks_of fd ms"] Cons.prems(6) True h by (simp_all add: x)
    obtain g1 where g1: "gate_cb queryname g (data_msg (fd, d)) =
        Some (g1, map (packet_event g (g_conn g ! i)) (packets h (r @ d)), 0)" "gate_inv g1"
      "g_hash g1 = g_hash g" "g_header_size g1 = g_header_size g"
      "packet_event g1 (g_conn g1 ! i) = packet_event g (g_conn g ! i)" "has_target g1 (g_conn g1 ! i)"
      "pending h (slot_db g1 i) (leftover h (r @ d))"
      by (rule data_own [OF Cons.prems(1-5) cm(1), of queryname]) blast
    have id: "cn_id (g_conn g ! i) = fd" using gate_inv_slot [OF Cons.prems(1,2)] by simp
    have fr: "frames h header_len (leftover h (r @ d)) = ([], leftover h (r @ d))" by (rule frames_rest [OF h])
    have a1: "slot_of g1 fd = Some i" "g_header_size g1 = int h" using Cons.prems(2,3) g1(3,4) by simp_all
    from Cons.IH [OF g1(2) a1 g1(6,7) cm(2) fr, unfolded g1(5)]
    obtain g2 ev2 where g2: "gate_run queryname g1 (map data_msg ms) = Some (g2, ev2)" "gate_inv g2"
      "filter (in_session fd) ev2 =
        map (packet_event g (g_conn g ! i)) (packets h (leftover h (r @ d) @ chunks_of fd ms))"
      "slot_of g2 fd = Some i" "pending h (slot_db g2 i) (leftover h (leftover h (r @ d) @ chunks_of fd ms))" by blast
    have pa: "packets h (r @ chunks_of fd (x # ms)) =
        packets h (r @ d) @ packets h (leftover h (r @ d) @ chunks_of fd ms)"
      "leftover h (r @ chunks_of fd (x # ms)) = leftover h (leftover h (r @ d) @ chunks_of fd ms)"
      using packets_append [OF h, of "r @ d" "chunks_of fd ms"] True by (simp_all add: x)
    show ?thesis unfolding pa using g1(1) g2 True id by (simp add: x)
  qed
qed

section \<open>The forward command\<close>

lemma cstr_at: "0 \<notin> set s \<Longrightarrow> cstr (pre @ s @ 0 # r) (length pre) = Some s"
  using cstr_append_nul [of s r] by (simp add: cstr_def)

lemma strsep_at:
  assumes "0 \<notin> set x" "32 \<notin> set x" "0 \<notin> set y"
  shows "strsep_space (pre @ x @ 32 # y @ 0 # r) (length pre) =
    Some (pre @ x @ 0 # y @ 0 # r, Some (length pre + length x + 1))"
proof -
  have "takeWhile (\<lambda>c. c \<noteq> 32) (x @ 32 # y) = x"
    using assms(2) by (subst takeWhile_append2) auto
  moreover have "(pre @ x @ 32 # y @ 0 # r)[length pre + length x := 0] = pre @ x @ 0 # y @ 0 # r"
    by (simp add: list_update_append)
  ultimately show ?thesis
    using cstr_at [of "x @ 32 # y" pre r] assms by (simp add: strsep_space_def Let_def)
qed

lemma parm_word:
  assumes "p = [] \<or> List.hd p \<noteq> 32"
  shows "\<exists>r. parm (w @ 32 # p @ [0]) (length w + 1 + length p) (length w) = p @ 0 # r"
proof -
  have tw: "takeWhile (\<lambda>c. c = 32) p = []" using assms by (cases p) auto
  then show ?thesis by (auto simp: parm_def Let_def)
qed

lemma dec_plain: "0 \<notin> set (dec i)" "32 \<notin> set (dec i)" "dec i \<noteq> []" "List.hd (dec i) \<noteq> 32"
proof -
  have d: "c \<noteq> 0 \<and> c \<noteq> 32" if "c \<in> set (dec_nat n)" for c n
    using dec_nat_digits [of n] digit_not_special [of c] that by blast
  show z: "0 \<notin> set (dec i)" "32 \<notin> set (dec i)" using d by (auto simp: dec_def)
  show ne: "dec i \<noteq> []" by (simp add: dec_def dec_nat_ne)
  show "List.hd (dec i) \<noteq> 32" using z(2) ne by (metis list.set_sel(1))
qed

lemma ctrl_forward_text:
  assumes "0 \<notin> set a" "32 \<notin> set a" "0 \<notin> set b"
  shows "ctrl_forward g ((dec fd @ str '' :'' @ a @ str '' :'' @ b) @ 0 # r) =
    map_option (\<lambda>g. (g, []))
      (forward_agent g (to_i32 (strtol10 (dec fd))) (strtoul16 a mod 2 ^ 32) (strtoul16 b mod 2 ^ 32))"
proof -
  let ?t1 = "dec fd @ 0 # 58 # a @ 32 # 58 # b @ 0 # r"
  let ?t2 = "dec fd @ 0 # 58 # a @ 0 # 58 # b @ 0 # r"
  have e: "(dec fd @ str '' :'' @ a @ str '' :'' @ b) @ 0 # r = [] @ dec fd @ 32 # (58 # a @ 32 # 58 # b) @ 0 # r"
    by (simp add: str_def)
  have s1: "strsep_space ((dec fd @ str '' :'' @ a @ str '' :'' @ b) @ 0 # r) 0 =
      Some (?t1, Some (length (dec fd) + 1))"
    unfolding e using strsep_at [of "dec fd" "58 # a @ 32 # 58 # b" "[]" r] dec_plain assms by simp
  have s2: "strsep_space ?t1 (length (dec fd) + 1) = Some (?t2, Some (length (dec fd) + length a + 3))"
    using strsep_at [of "58 # a" "58 # b" "dec fd @ [0]" r] assms by simp
  have c1: "cstr ?t1 0 = Some (dec fd)" using cstr_append_nul [OF dec_plain(1)] by blast
  have c2: "cstr ?t2 (length (dec fd) + 1 + 1) = Some a"
    using cstr_at [of a "dec fd @ [0, 58]" "58 # b @ 0 # r"] assms by simp
  have c3: "cstr ?t2 (length (dec fd) + length a + 3 + 1) = Some b"
    using cstr_at [of b "dec fd @ [0, 58] @ a @ [0, 58]" r] assms by (simp add: add.commute numeral_eq_Suc)
  show ?thesis unfolding ctrl_forward_def s1 Option.bind.bind_lunit prod.case option.case c1 Let_def s2 c2 c3 ..
qed

lemma ctrl_forward_command:
  assumes "0 \<notin> set p" "p = [] \<or> List.hd p \<noteq> 32"
  obtains r where "ctrl queryname g (str ''forward '' @ p) = ctrl_forward g (p @ 0 # r)"
proof -
  have w: "str ''forward '' @ p = str ''forward'' @ 32 # p" by (simp add: str_def)
  have tw: "takeWhile (\<lambda>c. c \<noteq> 32) (str ''forward'' @ 32 # p) = str ''forward''"
    by (simp add: str_def)
  have l: "length (str ''forward'') = 7" by (simp add: str_def)
  have m1: "memcmp_eq ((str ''forward'' @ 32 # p) @ [0]) (str ''kick'') 7 = Some False"
    by (simp add: memcmp_eq_def str_def)
  have m2: "memcmp_eq ((str ''forward'' @ 32 # p) @ [0]) (str ''forward'') 7 = Some True"
    by (simp add: memcmp_eq_def str_def)
  obtain r where r: "parm (str ''forward'' @ 32 # p @ [0]) (7 + 1 + length p) 7 = p @ 0 # r"
    using parm_word [OF assms(2), of "str ''forward''"] unfolding l by blast
  have sz: "length (str ''forward'' @ 32 # p) = 7 + 1 + length p" by (simp add: l)
  have "ctrl queryname g (str ''forward '' @ p) = ctrl_forward g (p @ 0 # r)"
    unfolding ctrl_def w Let_def tw l m1 m2 sz using r by simp
  then show thesis by (rule that)
qed

text \<open>The command \<open>close\<close>.\<close>

lemma ctrl_close_text:
  "ctrl queryname g (str ''close'') =
     Some (if 0 \<le> g_listen g then (g\<lparr>g_listen := -1\<rparr>, [Ev_close (g_listen g)]) else (g, []))"
proof -
  have "memcmp_eq (str ''close'' @ [0]) (str ''kick'') 5 = Some False"
    "memcmp_eq (str ''close'' @ [0]) (str ''forward'') 5 = Some False"
    "memcmp_eq (str ''close'' @ [0]) (str ''broker'') 5 = Some False"
    "memcmp_eq (str ''close'' @ [0]) (str ''start'') 5 = Some False"
    "memcmp_eq (str ''close'' @ [0]) (str ''close'') 5 = Some True"
    "length (takeWhile (\<lambda>c. c \<noteq> 32) (str ''close'')) = 5" "length (str ''close'') = 5" "str ''close'' \<noteq> []"
    by code_simp+
  then show ?thesis by (simp add: ctrl_def Let_def)
qed

section \<open>Properties\<close>

text \<open>C5: the gate cuts the bytes of each connection into packets by the headers alone. Over any
  sequence of data messages of any connections, what a connection that has a destination sends to
  it is one message per non-empty packet of that connection's bytes, in order and byte for byte,
  however the bytes were cut and interleaved; the bytes of an incomplete packet are kept. No header
  may be negative or stand for 16M or more (which a header of two bytes cannot).\<close>

theorem gate_streams:
  assumes "gate_inv g" "slot_of g fd = Some i" "g_header_size g = int h" "has_target g (g_conn g ! i)"
    "pending h (slot_db g i) r" "frames h header_len r = ([], r)" "calm h (r @ chunks_of fd ms)"
  shows "\<exists>g' ev. gate_run queryname g (map data_msg ms) = Some (g', ev) \<and> gate_inv g' \<and>
    filter (in_session fd) ev = map (packet_event g (g_conn g ! i)) (packets h (r @ chunks_of fd ms)) \<and>
    slot_of g' fd = Some i \<and> pending h (slot_db g' i) (leftover h (r @ chunks_of fd ms))"
  using run_streams [OF assms(1-5,7,6)] .

text \<open>C13: in every state a started gate can reach, it handles every message without a fault, a failed
  assertion or an endless loop and is left in a reachable state where a known socket has its own
  slot; the one exception is a socket reported as accepted for a socket the gate does not listen on
  any more, where the assertion \<open>g->listen_id == message->id\<close> fails. A text has no NUL, a new socket an
  id that is not in use. \<open>memcmp\<close> is taken to read no further than the first difference: by the letter
  of ISO C already the comparison of the word \<open>forward\<close> with \<open>"kick"\<close> reads past the literal.\<close>

theorem gate_safe:
  assumes "reachable gate_start gate_step g" "input_ok g inp"
  shows "if stale_accept g inp then gate_cb queryname g inp = None
    else \<exists>g' ev r. gate_cb queryname g inp = Some (g', ev, r) \<and> reachable gate_start gate_step g' \<and>
      (\<forall>fd i. slot_of g' fd = Some i \<longrightarrow> i < length (g_conn g') \<and> cn_id (g_conn g' ! i) = fd)"
proof (cases "stale_accept g inp")
  case True
  then show ?thesis by (simp add: stale_accept_fails)
next
  case False
  from gate_cb_inv [OF gate_sys.reachable_inv [OF assms(1)] assms(2) False] obtain g' ev r where
    r: "gate_cb queryname g inp = Some (g', ev, r)" "gate_inv g'" by metis
  have "reachable gate_start gate_step g'"
    using reachable_step [OF assms(1) gate_message [OF assms(2) r(1)]] .
  then have "\<exists>g' ev r. gate_cb queryname g inp = Some (g', ev, r) \<and> reachable gate_start gate_step g' \<and>
      (\<forall>fd i. slot_of g' fd = Some i \<longrightarrow> i < length (g_conn g') \<and> cn_id (g_conn g' ! i) = fd)"
    using r gate_inv_slot by blast
  then show ?thesis by (simp only: False if_False)
qed

text \<open>C40: the command \<open>close\<close> makes the gate abort on a connection that was accepted before it. In any
  state a listening gate can reach, a report of an accepted socket that the gate would handle now is
  still a message the socket server may deliver after \<open>close\<close>, and then the assertion on the
  listening socket fails.\<close>

theorem gate_close_accept_aborts:
  assumes "reachable gate_start gate_step g" "0 \<le> g_listen g"
    "gm_type m = 4" "gm_id m = g_listen g" "input_ok g (In_socket m)"
  shows "(\<exists>g' ev r. gate_cb queryname g (In_socket m) = Some (g', ev, r)) \<and>
    gate_cb queryname g (In_text (str ''close'')) = Some (g\<lparr>g_listen := -1\<rparr>, [Ev_close (g_listen g)], 0) \<and>
    reachable gate_start gate_step (g\<lparr>g_listen := -1\<rparr>) \<and> input_ok (g\<lparr>g_listen := -1\<rparr>) (In_socket m) \<and>
    gate_run queryname g [In_text (str ''close''), In_socket m] = None"
proof -
  let ?g = "g\<lparr>g_listen := -1\<rparr>"
  have now: "\<exists>g' ev r. gate_cb queryname g (In_socket m) = Some (g', ev, r)"
    using gate_cb_inv [OF gate_sys.reachable_inv [OF assms(1)] assms(5), of queryname] assms(3,4)
    by (auto simp: stale_accept_def)
  have cl: "gate_cb queryname g (In_text (str ''close'')) = Some (?g, [Ev_close (g_listen g)], 0)"
    using assms(2) by (simp add: gate_cb_def ctrl_close_text)
  have ok: "input_ok g (In_text (str ''close''))" by (simp add: input_ok_def str_def)
  have ok1: "input_ok ?g (In_socket m)" using assms(5) by (simp add: input_ok_def)
  have "gate_cb queryname ?g (In_socket m) = None"
    using assms(2-4) by (intro stale_accept_fails) (auto simp: stale_accept_def)
  then show ?thesis
    using now cl ok1 reachable_step [OF assms(1) gate_message [OF ok cl]] by simp
qed

text \<open>a connection that is accepted gets a slot no other connection has, with nothing pending, and
  is reported to the watchdog; when it closes it is reported again, its bytes are dropped, its slot is
  free and the table is what it was before.\<close>

theorem gate_session:
  assumes "gate_inv g" "gm_type a = 4" "gm_id a = g_listen g" "\<not> hashid_full (g_hash g)"
    "slot_of g (gm_ud a) = None" "hashid_legal (g_hash g) (gm_ud a)"
    "gm_type c = 3 \<or> gm_type c = 5" "gm_id c = gm_ud a"
  shows "\<exists>g1 g2 i name. gate_cb queryname g (In_socket a) =
      Some (g1, report g (dec (gm_ud a) @ str '' open '' @ dec (gm_ud a) @ str '' '' @ name @ str '':0'') @
        [Ev_log (L_open (gm_ud a))], 0) \<and>
    cstr (take 31 (gm_pad a) @ [0]) 0 = Some name \<and> gate_inv g1 \<and> slot_of g1 (gm_ud a) = Some i \<and> i \<notin> ran (hashid_map (g_hash g)) \<and>
    pending (nat (g_header_size g1)) (slot_db g1 i) [] \<and>
    gate_cb queryname g1 (In_socket c) = Some (g2, report g (dec (gm_ud a) @ str '' close''), 0) \<and>
    gate_inv g2 \<and> hashid_map (g_hash g2) = hashid_map (g_hash g) \<and> unused (g_conn g2 ! i) (g_mp g2)"
proof -
  from socket_accept_new [OF assms(1) _ assms(4-6)] assms(3) obtain g1 i name where
    g1: "socket_accept g a = Some (g1, report g (dec (gm_ud a) @ str '' open '' @ dec (gm_ud a) @
        str '' '' @ name @ str '':0'') @ [Ev_log (L_open (gm_ud a))])" "gate_inv g1"
      "hashid_map (g_hash g1) = (hashid_map (g_hash g))(gm_ud a \<mapsto> i)" "i \<notin> ran (hashid_map (g_hash g))"
      "pending (nat (g_header_size g1)) (slot_db g1 i) []" "g1 = g\<lparr>g_hash := g_hash g1, g_conn := g_conn g1\<rparr>"
      and nm: "cstr (take 31 (gm_pad a) @ [0]) 0 = Some name"
    by (metis (no_types, lifting))
  have s1: "slot_of g1 (gm_id c) = Some i" using g1(3) assms(8) by simp
  have rp: "report g1 t = report g t" for t
  proof -
    have "g_watchdog g1 = g_watchdog g" by (subst g1(6)) simp
    then show ?thesis by (simp add: report_def)
  qed
  from socket_close_known [OF g1(2) s1] obtain g2 where
    g2: "socket_close g1 c = Some (g2, report g (dec (gm_ud a) @ str '' close''))" "gate_inv g2"
      "hashid_map (g_hash g2) = (hashid_map (g_hash g1))(gm_ud a := None)" "length (g_conn g2) = length (g_conn g1)"
    unfolding rp assms(8) by metis
  have tab: "hashid_map (g_hash g2) = hashid_map (g_hash g)" using g2(3) g1(3) assms(5) by auto
  have "i < length (g_conn g2)" using gate_inv_slot [OF g1(2) s1] g2(4) by simp
  then have un: "unused (g_conn g2 ! i) (g_mp g2)" using gate_inv_unused [OF g2(2)] g1(4) tab by simp
  have "gate_cb queryname g1 (In_socket c) = Some (g2, report g (dec (gm_ud a) @ str '' close''), 0)"
    using g2(1) assms(7) by (auto simp: gate_cb_def dispatch_socket_message_def)
  moreover have "gate_cb queryname g (In_socket a) = Some (g1, report g (dec (gm_ud a) @ str '' open '' @
      dec (gm_ud a) @ str '' '' @ name @ str '':0'') @ [Ev_log (L_open (gm_ud a))], 0)"
    using g1(1) assms(2) by (simp add: gate_cb_def dispatch_socket_message_def)
  ultimately show ?thesis using nm g1(2-5) g2(2) tab un by auto
qed

text \<open>the text command \<open>forward <fd> :<agent> :<client>\<close> gives the connection of that socket its
  agent and client address, read as hexadecimal numbers, and changes nothing else.\<close>

theorem gate_forward_command:
  assumes "gate_inv g" "slot_of g fd = Some i" "is_i32 fd"
    "0 \<notin> set a" "32 \<notin> set a" "0 \<notin> set b" "32 \<notin> set b"
  shows "ctrl queryname g (str ''forward '' @ dec fd @ str '' :'' @ a @ str '' :'' @ b) =
    Some (g\<lparr>g_conn := (g_conn g)[i := (g_conn g ! i)
      \<lparr>cn_agent := strtoul16 a mod 2 ^ 32, cn_client := strtoul16 b mod 2 ^ 32\<rparr>]\<rparr>, [])"
proof -
  let ?p = "dec fd @ str '' :'' @ a @ str '' :'' @ b"
  have z: "0 \<notin> set ?p" using assms dec_plain by (auto simp: str_def)
  have hd: "?p = [] \<or> List.hd ?p \<noteq> 32" using dec_plain [of fd] by simp
  obtain r where "ctrl queryname g (str ''forward '' @ ?p) = ctrl_forward g (?p @ 0 # r)"
    using ctrl_forward_command [OF z hd] by metis
  moreover have "to_i32 (strtol10 (dec fd)) = fd"
    using strtol_dec [of fd] to_i32_id [OF assms(3)] assms(3) by (simp add: is_i32_def)
  ultimately show ?thesis
    using ctrl_forward_text [OF assms(4-6), of g fd r] assms(1,2) gate_inv_slot [OF assms(1,2)]
    by (simp add: forward_agent_def gate_lookup upd_conn_def)
qed

section \<open>A gate for the witnesses\<close>

definition demo_gate :: gate where
  "demo_gate = \<lparr>g_listen = 3, g_watchdog = 5, g_broker = 0, g_client_tag = 3, g_header_size = 2, g_max = 2,
     g_hash = demo_hashid, g_conn = replicate 2 (zero_connection\<lparr>cn_id := -1\<rparr>), g_mp = empty_pool\<rparr>"

lemma demo_scan: "scan_parm (str ''S wd :8888 0 2'') = (5, 83, str ''wd'', str '':8888'', 0, 2)"
  by code_simp

lemma demo_listen: "start_listen (\<lambda>_ _. 3) g (str '':8888'') = (g\<lparr>g_listen := 3\<rparr>, [Ev_listen [] 8888 BACKLOG, Ev_start 3], 0)"
proof -
  have "to_i32 (strtol10 (drop (length (str '':8888'') - length (takeWhile (\<lambda>c. c \<noteq> 58) (rev (str '':8888'')))) (str '':8888''))) = 8888"
    by code_simp
  moreover have "take (length (str '':8888'') - length (takeWhile (\<lambda>c. c \<noteq> 58) (rev (str '':8888''))) - 1) (str '':8888'') = []"
    by code_simp
  moreover have "58 \<in> set (str '':8888'')" by (simp add: str_def)
  ultimately show ?thesis unfolding start_listen_def Let_def by simp
qed

lemma demo_init:
  "gate_init (\<lambda>_. 5) (\<lambda>_ _. 3) gate_create (Some (str ''S wd :8888 0 2'')) =
     Some (demo_gate, [Ev_callback, Ev_listen [] 8888 BACKLOG, Ev_start 3], 0)"
proof -
  have h: "hashid_init 2 = Some demo_hashid"
    using hashid_init_inv [of 2] by (auto simp: demo_hashid_def)
  have w: "List.hd (str ''wd'') \<noteq> 33" by code_simp
  show ?thesis
    by (simp add: gate_init_def demo_scan w h demo_listen gate_create_def demo_gate_def PTYPE_CLIENT_def Let_def
        numeral_2_eq_2)
qed

lemma demo_gate_start: "gate_start demo_gate"
  unfolding gate_start_def using demo_init demo_scan by (intro exI conjI) (assumption, simp)

lemma demo_gate_inv: "gate_inv demo_gate"
  by (rule gate_sys.inv_init [OF demo_gate_start])

definition demo_accept :: gate_message where
  "demo_accept = \<lparr>gm_type = 4, gm_id = 3, gm_ud = 7, gm_buffer = [], gm_pad = str ''1.2.3.4''\<rparr>"

definition demo_close :: gate_message where
  "demo_close = \<lparr>gm_type = 3, gm_id = 7, gm_ud = 0, gm_buffer = [], gm_pad = []\<rparr>"

lemma demo_gate_facts:
  "hashid_map (g_hash demo_gate) = Map.empty" "\<not> hashid_full (g_hash demo_gate)"
  "hashid_legal (g_hash demo_gate) 7" "g_listen demo_gate = 3" "g_header_size demo_gate = 2"
  using demo_hashid_facts by (simp_all add: demo_gate_def hashid_full_def hashid_legal_def)

lemma demo_connected:
  obtains g i where "gate_inv g" "slot_of g 7 = Some i" "g_header_size g = 2" "has_target g (g_conn g ! i)"
    "pending 2 (slot_db g i) []"
proof -
  have l: "g_listen demo_gate = gm_id demo_accept" "slot_of demo_gate (gm_ud demo_accept) = None"
    "hashid_legal (g_hash demo_gate) (gm_ud demo_accept)"
    using demo_gate_facts by (simp_all add: demo_accept_def)
  from socket_accept_new [OF demo_gate_inv l(1) demo_gate_facts(2) l(2,3)] obtain g i where
    g: "gate_inv g" "hashid_map (g_hash g) = (hashid_map (g_hash demo_gate))(gm_ud demo_accept \<mapsto> i)"
      "pending (nat (g_header_size g)) (slot_db g i) []" "g = demo_gate\<lparr>g_hash := g_hash g, g_conn := g_conn g\<rparr>"
    by blast
  have s: "slot_of g 7 = Some i" using g(2) by (simp add: demo_accept_def)
  have f: "g_header_size g = 2" "g_watchdog g = 5"
    by (subst g(4), simp add: demo_gate_def)+
  have "cn_id (g_conn g ! i) = 7" using gate_inv_slot [OF g(1) s] by simp
  then have "has_target g (g_conn g ! i)" using f by (simp add: has_target_def)
  then show thesis using that [OF g(1) s f(1)] g(3) f by simp
qed

lemma gate_streams_witness:
  "\<exists>g i g' ev. slot_of g 7 = Some i \<and> gate_run (\<lambda>_. 0) g (map data_msg [(7, [0]), (9, [1]), (7, [1, 65, 0])]) = Some (g', ev) \<and>
     filter (in_session 7) ev = [packet_event g (g_conn g ! i) [65]] \<and> pending 2 (slot_db g' i) [0]"
proof (rule demo_connected)
  fix g i
  assume g: "gate_inv g" "slot_of g 7 = Some i" "g_header_size g = 2" "has_target g (g_conn g ! i)"
    "pending 2 (slot_db g i) []"
  let ?ms = "[(7, [0]), (9, [1]), (7, [1, 65, 0])] :: (int \<times> bytes) list"
  have c: "[] @ chunks_of 7 ?ms = [0, 1] @ [65] @ [0]" by simp
  have v: "header_len [0, 1] = 1" by (simp add: header_value_def)
  have "frames 2 header_len ([0, 1] @ [65] @ [0]) = ([65] # fst (frames 2 header_len [0]), leftover 2 [0])"
    by (rule frames_packet) (simp_all add: v)
  then have fr: "frames 2 header_len ([] @ chunks_of 7 ?ms) = ([[65]], [0])"
    unfolding c by (simp add: frames_short)
  have h2: "g_header_size g = int 2" using g(3) by simp
  from gate_streams [OF g(1,2) h2 g(4,5) _ calm_2, of "\<lambda>_. 0" ?ms]
  show ?thesis unfolding fr using g(2) by auto
qed

lemma gate_safe_witness:
  "\<exists>g' ev r. gate_cb (\<lambda>_. 0) demo_gate (In_socket demo_accept) = Some (g', ev, r) \<and> reachable gate_start gate_step g'"
proof -
  have r: "reachable gate_start gate_step demo_gate" by (rule reachable_init) (rule demo_gate_start)
  have "input_ok demo_gate (In_socket demo_accept)"
    using demo_gate_facts by (simp add: input_ok_def demo_accept_def)
  from gate_safe [OF r this, of "\<lambda>_. 0"] show ?thesis
    using demo_gate_facts by (auto simp: stale_accept_def demo_accept_def)
qed

lemma gate_close_accept_aborts_witness:
  "gate_run (\<lambda>_. 0) demo_gate [In_text (str ''close''), In_socket demo_accept] = None \<and>
   (\<exists>g' ev r. gate_cb (\<lambda>_. 0) demo_gate (In_socket demo_accept) = Some (g', ev, r))"
proof -
  have r: "reachable gate_start gate_step demo_gate" by (rule reachable_init) (rule demo_gate_start)
  have a: "0 \<le> g_listen demo_gate" "gm_type demo_accept = 4" "gm_id demo_accept = g_listen demo_gate"
    "input_ok demo_gate (In_socket demo_accept)"
    using demo_gate_facts by (simp_all add: input_ok_def demo_accept_def)
  from gate_close_accept_aborts [OF r a, of "\<lambda>_. 0"] show ?thesis by blast
qed

lemma gate_session_witness:
  "\<exists>g1 g2. gate_cb (\<lambda>_. 0) demo_gate (In_socket demo_accept) = Some (g1, [Ev_send 0 5 PTYPE_TEXT 0 (str ''7 open 7 1.2.3.4:0''),
      Ev_log (L_open 7)], 0) \<and>
    gate_cb (\<lambda>_. 0) g1 (In_socket demo_close) = Some (g2, [Ev_send 0 5 PTYPE_TEXT 0 (str ''7 close'')], 0)"
proof -
  have n: "name = str ''1.2.3.4''" if "cstr (take 31 (gm_pad demo_accept) @ [0]) 0 = Some name" for name
  proof -
    have "cstr (take 31 (gm_pad demo_accept) @ [0]) 0 = Some (str ''1.2.3.4'')" by code_simp
    then show ?thesis using that by simp
  qed
  have d: "dec 7 = str ''7''" by code_simp
  have r: "report demo_gate t = [Ev_send 0 5 PTYPE_TEXT 0 t]" for t by (simp add: report_def demo_gate_def)
  have a: "gm_type demo_accept = 4" "gm_id demo_accept = g_listen demo_gate" "gm_ud demo_accept = 7"
    "gm_type demo_close = 3" "gm_id demo_close = 7" by (simp_all add: demo_accept_def demo_close_def demo_gate_def)
  obtain g1 g2 name where "gate_cb (\<lambda>_. 0) demo_gate (In_socket demo_accept) =
      Some (g1, report demo_gate (dec 7 @ str '' open '' @ dec 7 @ str '' '' @ name @ str '':0'') @
        [Ev_log (L_open 7)], 0)" "cstr (take 31 (gm_pad demo_accept) @ [0]) 0 = Some name"
    "gate_cb (\<lambda>_. 0) g1 (In_socket demo_close) = Some (g2, report demo_gate (dec 7 @ str '' close''), 0)"
    using gate_session [OF demo_gate_inv a(1,2) demo_gate_facts(2), of demo_close "\<lambda>_. 0"] demo_gate_facts a by auto
  then show ?thesis using n r d by (auto simp: str_def)
qed

lemma gate_forward_command_witness:
  "\<exists>g i g'. slot_of g 7 = Some i \<and> ctrl (\<lambda>_. 0) g (str ''forward '' @ dec 7 @ str '' :'' @ str ''1f'' @ str '' :'' @ str ''a'') = Some (g', [])
    \<and> cn_agent (g_conn g' ! i) = 31"
proof (rule demo_connected)
  fix g i
  assume g: "gate_inv g" "slot_of g 7 = Some i"
  have x: "strtoul16 (str ''1f'') mod 2 ^ 32 = 31" by code_simp
  have p: "is_i32 7" "0 \<notin> set (str ''1f'')" "32 \<notin> set (str ''1f'')" "0 \<notin> set (str ''a'')" "32 \<notin> set (str ''a'')"
    by (simp_all add: is_i32_def str_def)
  show ?thesis
    by (intro exI conjI, rule g(2), rule gate_forward_command [OF g p])
      (use gate_inv_slot [OF g] x in simp)
qed

end
