(* ===== verification/ServerInv.thy ===== *)
theory ServerInv
  imports Server
begin

text \<open>
  The invariant of the server state and its preservation. A context exists as long as the handle
  table, the harbor or some running code holds a reference to it, and its count is the number of these
  references; its mailbox exists, unreleased, as long. \<open>R c\<close> is the number of references that running
  code holds to the context \<open>c\<close>, \<open>W\<close> the mailboxes that workers hold, \<open>N\<close> those of services being
  launched, \<open>Z\<close> the contexts being deleted.
\<close>

declare One_nat_def [simp del]

section \<open>The invariant\<close>

abbreviation mbox :: "server \<Rightarrow> mview" where "mbox s \<equiv> mq_view (sv_mq s)"

definition refs :: "server \<Rightarrow> (nat \<Rightarrow> int) \<Rightarrow> nat \<Rightarrow> int" where
  "refs s R c = of_bool (c \<in> live (sv_handles s)) + of_bool (sv_remote s = Some c) + R c"

definition ctx_ok :: "server \<Rightarrow> (nat \<Rightarrow> int) \<Rightarrow> nat set \<Rightarrow> nat set \<Rightarrow> nat \<Rightarrow> skynet_context \<Rightarrow> bool" where
  "ctx_ok s R N Z c x \<longleftrightarrow>
     c_ref x = refs s R c \<and> (c \<in> Z \<longleftrightarrow> c_ref x = 0) \<and> c_handle x \<noteq> 0 \<and>
     (\<exists>xs. mbox s (c_queue x) = Some (c_handle x, False, xs)) \<and>
     (c \<in> live (sv_handles s) \<longrightarrow> \<not> c_init x \<longrightarrow> c_queue x \<in> N)"

definition contexts :: "server \<Rightarrow> nat set" where
  "contexts s = {c. ctx_at s c \<noteq> None}"

definition server_inv :: "server \<Rightarrow> (nat \<Rightarrow> int) \<Rightarrow> nat set \<Rightarrow> nat set \<Rightarrow> nat set \<Rightarrow> bool" where
  "server_inv s R W N Z \<longleftrightarrow>
     slots_inv (handle_of s) (sv_handles s) \<and> names_inv (sv_handles s) \<and>
     mq_held (sv_mq s) (W \<union> N) \<and> W \<inter> N = {} \<and>
     (\<forall>c. 0 \<le> R c) \<and>
     (\<forall>c x. ctx_at s c = Some x \<longrightarrow> ctx_ok s R N Z c x) \<and>
     (\<forall>c. ctx_at s c = None \<longrightarrow> refs s R c = 0 \<and> c \<notin> Z) \<and>
     (\<forall>c d x y. ctx_at s c = Some x \<longrightarrow> ctx_at s d = Some y \<longrightarrow> c_queue x = c_queue y \<longrightarrow> c = d) \<and>
     (\<forall>p h r xs. mbox s p = Some (h, r, xs) \<longrightarrow> h \<noteq> 0) \<and>
     sv_total s = int (card (contexts s)) - of_bool (sv_remote s \<noteq> None) \<and>
     (\<forall>c x p r xs. c \<in> live (sv_handles s) \<longrightarrow> ctx_at s c = Some x \<longrightarrow>
        mbox s p = Some (c_handle x, r, xs) \<longrightarrow> p = c_queue x)"

lemma server_invD:
  assumes "server_inv s R W N Z"
  shows "slots_inv (handle_of s) (sv_handles s)" "names_inv (sv_handles s)" "mq_held (sv_mq s) (W \<union> N)"
    "W \<inter> N = {}" "0 \<le> R c" "ctx_at s c = Some x \<Longrightarrow> ctx_ok s R N Z c x"
    "ctx_at s c = None \<Longrightarrow> refs s R c = 0 \<and> c \<notin> Z"
    "ctx_at s c = Some x \<Longrightarrow> ctx_at s d = Some y \<Longrightarrow> c_queue x = c_queue y \<Longrightarrow> c = d"
    "mbox s p = Some (h, r, xs) \<Longrightarrow> h \<noteq> 0"
    "sv_total s = int (card (contexts s)) - of_bool (sv_remote s \<noteq> None)"
    "c \<in> live (sv_handles s) \<Longrightarrow> ctx_at s c = Some x \<Longrightarrow> mbox s p = Some (c_handle x, r, xs) \<Longrightarrow> p = c_queue x"
  using assms unfolding server_inv_def by blast+

lemma server_invI:
  assumes "slots_inv (handle_of s) (sv_handles s)" "names_inv (sv_handles s)" "mq_held (sv_mq s) (W \<union> N)"
    "W \<inter> N = {}" "\<And>c. 0 \<le> R c" "\<And>c x. ctx_at s c = Some x \<Longrightarrow> ctx_ok s R N Z c x"
    "\<And>c. ctx_at s c = None \<Longrightarrow> refs s R c = 0 \<and> c \<notin> Z"
    "\<And>c d x y. ctx_at s c = Some x \<Longrightarrow> ctx_at s d = Some y \<Longrightarrow> c_queue x = c_queue y \<Longrightarrow> c = d"
    "\<And>p h r xs. mbox s p = Some (h, r, xs) \<Longrightarrow> h \<noteq> 0"
    "sv_total s = int (card (contexts s)) - of_bool (sv_remote s \<noteq> None)"
    "\<And>c x p r xs. c \<in> live (sv_handles s) \<Longrightarrow> ctx_at s c = Some x \<Longrightarrow>
       mbox s p = Some (c_handle x, r, xs) \<Longrightarrow> p = c_queue x"
  shows "server_inv s R W N Z"
  using assms unfolding server_inv_def by blast

text \<open>A reference that is held, or an entry of the table, keeps the context.\<close>

lemma held_exists: "server_inv s R W N Z \<Longrightarrow> 0 < R c \<Longrightarrow> \<exists>x. ctx_at s c = Some x"
  using server_invD(7) [of s R W N Z c] by (cases "ctx_at s c") (auto simp: refs_def of_bool_def split: if_splits)

lemma live_exists: "server_inv s R W N Z \<Longrightarrow> c \<in> live (sv_handles s) \<Longrightarrow> \<exists>x. ctx_at s c = Some x"
  using server_invD(7) [of s R W N Z c] server_invD(5) [of s R W N Z c]
  by (cases "ctx_at s c") (auto simp: refs_def of_bool_def split: if_splits)

lemma remote_exists: "server_inv s R W N Z \<Longrightarrow> sv_remote s = Some c \<Longrightarrow> \<exists>x. ctx_at s c = Some x"
  using server_invD(7) [of s R W N Z c] server_invD(5) [of s R W N Z c]
  by (cases "ctx_at s c") (auto simp: refs_def of_bool_def split: if_splits)

section \<open>Updating a context\<close>

definition put_ctx :: "server \<Rightarrow> nat \<Rightarrow> skynet_context \<Rightarrow> server" where
  "put_ctx s c x = s\<lparr>sv_ctx := (sv_ctx s)[c := Some x]\<rparr>"

lemma upd_ctx_Some: "ctx_at s c = Some x \<Longrightarrow> upd_ctx s c f = Some (put_ctx s c (f x))"
  by (simp add: upd_ctx_def put_ctx_def)

lemma ctx_at_lt: "ctx_at s c = Some x \<Longrightarrow> c < length (sv_ctx s)"
  by (auto simp: ctx_at_def split: if_splits)

lemma ctx_at_put [simp]: "ctx_at s c = Some x \<Longrightarrow> ctx_at (put_ctx s c y) = (ctx_at s)(c \<mapsto> y)"
  by (auto simp: ctx_at_def put_ctx_def fun_eq_iff split: if_splits)

lemma put_ctx_sel [simp]:
  "sv_handles (put_ctx s c x) = sv_handles s" "sv_mq (put_ctx s c x) = sv_mq s"
  "sv_remote (put_ctx s c x) = sv_remote s" "sv_harbor (put_ctx s c x) = sv_harbor s"
  "sv_total (put_ctx s c x) = sv_total s" "sv_logger (put_ctx s c x) = sv_logger s"
  "sv_mem (put_ctx s c x) = sv_mem s" "sv_brk (put_ctx s c x) = sv_brk s" "sv_freed (put_ctx s c x) = sv_freed s"
  "sv_env (put_ctx s c x) = sv_env s" "sv_timer (put_ctx s c x) = sv_timer s"
  "sv_monitor_exit (put_ctx s c x) = sv_monitor_exit s"
  by (simp_all add: put_ctx_def)

lemma handle_of_put: "ctx_at s c = Some x \<Longrightarrow> handle_of (put_ctx s c y) = (handle_of s)(c := c_handle y)"
  by (auto simp: handle_of_def fun_eq_iff)

lemma contexts_put: "ctx_at s c = Some x \<Longrightarrow> contexts (put_ctx s c y) = contexts s"
  by (auto simp: contexts_def)

lemma contexts_finite [simp]: "finite (contexts s)"
  by (rule finite_subset [of _ "{..<length (sv_ctx s)}"]) (auto simp: contexts_def ctx_at_def split: if_splits)

lemma refs_put [simp]: "refs (put_ctx s c x) R = refs s R"
  by (simp add: refs_def fun_eq_iff)

lemma put_put [simp]: "put_ctx (put_ctx s c x) c y = put_ctx s c y"
  by (simp add: put_ctx_def)

lemma put_same: "ctx_at s c = Some x \<Longrightarrow> put_ctx s c x = s"
  by (auto simp: put_ctx_def ctx_at_def list_update_same_conv split: if_splits)

text \<open>The fields that the invariant does not mention.\<close>

definition same_core :: "skynet_context \<Rightarrow> skynet_context \<Rightarrow> bool" where
  "same_core x y \<longleftrightarrow> c_queue y = c_queue x \<and> c_handle y = c_handle x \<and> (c_init x \<longrightarrow> c_init y)"

lemma same_core_refl [simp]: "same_core x x" by (simp add: same_core_def)

lemma same_core_trans: "same_core x y \<Longrightarrow> same_core y z \<Longrightarrow> same_core x z" by (simp add: same_core_def)

text \<open>Changing the count of one context along with the references held to it.\<close>

lemma server_inv_put:
  assumes inv: "server_inv s R W N Z" and x: "ctx_at s c = Some x" and y: "same_core x y"
    and r: "c_ref y = c_ref x + d" "0 \<le> R c + d" "c \<in> Z' \<longleftrightarrow> c_ref y = 0" "Z' - {c} = Z - {c}"
  shows "server_inv (put_ctx s c y) (R(c := R c + d)) W N Z'"
proof (rule server_invI)
  have ok: "ctx_ok s R N Z c x" by (rule server_invD(6) [OF inv x])
  have h: "handle_of (put_ctx s c y) = handle_of s"
    using x y by (auto simp: handle_of_put same_core_def handle_of_def fun_eq_iff)
  show "slots_inv (handle_of (put_ctx s c y)) (sv_handles (put_ctx s c y))"
    unfolding h using server_invD(1) [OF inv] by simp
  show "ctx_ok (put_ctx s c y) (R(c := R c + d)) N Z' e z" if "ctx_at (put_ctx s c y) e = Some z" for e z
  proof (cases "e = c")
    case True
    then have "z = y" using that x by simp
    then show ?thesis using ok y r True by (auto simp: ctx_ok_def same_core_def refs_def)
  next
    case False
    then have "ctx_at s e = Some z" using that x by simp
    moreover have "e \<in> Z' \<longleftrightarrow> e \<in> Z" using r(4) False by auto
    ultimately show ?thesis using server_invD(6) [OF inv, of e z] False by (auto simp: ctx_ok_def refs_def)
  qed
  show "refs (put_ctx s c y) (R(c := R c + d)) e = 0 \<and> e \<notin> Z'" if "ctx_at (put_ctx s c y) e = None" for e
  proof -
    have "e \<noteq> c" "ctx_at s e = None" using that x by (auto split: if_splits)
    then show ?thesis using server_invD(7) [OF inv, of e] r(4) by (auto simp: refs_def)
  qed
  show "e = e'" if "ctx_at (put_ctx s c y) e = Some z" "ctx_at (put_ctx s c y) e' = Some z'" "c_queue z = c_queue z'"
    for e e' z z'
    using that x y server_invD(8) [OF inv, of e _ e'] by (auto simp: same_core_def split: if_splits)
  show "mbox (put_ctx s c y) p = Some (h, r, xs) \<Longrightarrow> h \<noteq> 0" for p h r xs
    using server_invD(9) [OF inv] by simp
  show "sv_total (put_ctx s c y) = int (card (contexts (put_ctx s c y))) - of_bool (sv_remote (put_ctx s c y) \<noteq> None)"
    using server_invD(10) [OF inv] by (simp add: contexts_put [OF x])
  show "p = c_queue z"
    if "e \<in> live (sv_handles (put_ctx s c y))" "ctx_at (put_ctx s c y) e = Some z" "mbox (put_ctx s c y) p = Some (c_handle z, r, xs)"
    for e z p r xs
    using that x y server_invD(11) [OF inv, of e _ p r xs] by (auto simp: same_core_def split: if_splits)
qed (use inv r server_invD(1-5) [OF inv] in \<open>auto\<close>)

lemma server_inv_upd:
  assumes "server_inv s R W N Z" "ctx_at s c = Some x" "same_core x y" "c_ref y = c_ref x"
  shows "server_inv (put_ctx s c y) R W N Z"
proof -
  have "c \<in> Z \<longleftrightarrow> c_ref y = 0" using server_invD(6) [OF assms(1,2)] assms(4) by (simp add: ctx_ok_def)
  then show ?thesis using server_inv_put [OF assms(1-3), of 0 Z] assms server_invD(5) [OF assms(1)] by simp
qed

text \<open>Changes outside what the invariant looks at.\<close>

definition same_frame :: "server \<Rightarrow> server \<Rightarrow> bool" where
  "same_frame s s' \<longleftrightarrow> sv_ctx s' = sv_ctx s \<and> sv_handles s' = sv_handles s \<and> sv_remote s' = sv_remote s \<and>
     sv_total s' = sv_total s \<and> sv_harbor s' = sv_harbor s"

lemma same_frame_refl [simp]: "same_frame s s" by (simp add: same_frame_def)
lemma same_frame_trans: "same_frame s s1 \<Longrightarrow> same_frame s1 s2 \<Longrightarrow> same_frame s s2" by (simp add: same_frame_def)

lemma same_frame_ctx: "same_frame s s' \<Longrightarrow> ctx_at s' = ctx_at s"
  by (simp add: same_frame_def ctx_at_def fun_eq_iff)

lemma same_frame_handle: "same_frame s s' \<Longrightarrow> handle_of s' = handle_of s"
  by (simp add: handle_of_def same_frame_ctx fun_eq_iff)

lemma same_frame_contexts: "same_frame s s' \<Longrightarrow> contexts s' = contexts s"
  by (simp add: contexts_def same_frame_ctx)

text \<open>\<open>grown v v'\<close>: the mailboxes are the same, but messages may have been added at the end.\<close>

definition grown :: "mview \<Rightarrow> mview \<Rightarrow> bool" where
  "grown v v' \<longleftrightarrow>
     (\<forall>p. v p = None \<longrightarrow> v' p = None) \<and>
     (\<forall>p h r xs. v p = Some (h, r, xs) \<longrightarrow> (\<exists>ys. v' p = Some (h, r, xs @ ys)))"

lemma grown_refl [simp]: "grown v v" by (simp add: grown_def)

lemma grown_trans: "grown a b \<Longrightarrow> grown b c \<Longrightarrow> grown a c"
proof -
  assume g: "grown a b" "grown b c"
  have "\<exists>ys. c p = Some (h, r, xs @ ys)" if v: "a p = Some (h, r, xs)" for p h r xs
  proof -
    obtain ys where "b p = Some (h, r, xs @ ys)" using g(1) v unfolding grown_def by blast
    then obtain zs where "c p = Some (h, r, (xs @ ys) @ zs)" using g(2) unfolding grown_def by blast
    then show ?thesis by auto
  qed
  then show ?thesis using g unfolding grown_def by blast
qed

text \<open>A step on the mailboxes: those of the contexts stay, others may vanish.\<close>

lemma server_inv_mq:
  assumes inv: "server_inv s R W N Z" and f: "same_frame s s'"
    and mq: "mq_held (sv_mq s') (W' \<union> N')" "W' \<inter> N' = {}"
    and keep: "\<And>c x xs. ctx_at s c = Some x \<Longrightarrow> mbox s (c_queue x) = Some (c_handle x, False, xs) \<Longrightarrow>
      \<exists>ys. mbox s' (c_queue x) = Some (c_handle x, False, ys)"
    and dom: "\<And>p h r xs. mbox s' p = Some (h, r, xs) \<Longrightarrow> \<exists>r' ys. mbox s p = Some (h, r', ys)"
    and new: "\<And>c x. ctx_at s c = Some x \<Longrightarrow> c \<in> live (sv_handles s) \<Longrightarrow> \<not> c_init x \<Longrightarrow> c_queue x \<in> N'"
  shows "server_inv s' R W' N' Z"
proof (rule server_invI)
  have r: "refs s' = refs s" and h: "sv_handles s' = sv_handles s"
    using f by (simp_all add: refs_def same_frame_def fun_eq_iff)
  note at = same_frame_ctx [OF f]
  show "ctx_ok s' R N' Z c x" if "ctx_at s' c = Some x" for c x
  proof -
    have x: "ctx_at s c = Some x" using that at by simp
    then have ok: "ctx_ok s R N Z c x" by (rule server_invD(6) [OF inv])
    then obtain xs where "mbox s (c_queue x) = Some (c_handle x, False, xs)" by (auto simp: ctx_ok_def)
    then show ?thesis using ok keep [OF x] new [OF x] unfolding ctx_ok_def r h by blast
  qed
  show "h \<noteq> 0" if "mbox s' p = Some (h, r, xs)" for p h r xs
    using dom [OF that] server_invD(9) [OF inv, of p] by blast
  show "refs s' R c = 0 \<and> c \<notin> Z" if "ctx_at s' c = None" for c
    using server_invD(7) [OF inv, of c] that by (simp add: r at)
  show "c = d" if "ctx_at s' c = Some x" "ctx_at s' d = Some y" "c_queue x = c_queue y" for c d x y
    using server_invD(8) [OF inv, of c x d y] that by (simp add: at)
  show "sv_total s' = int (card (contexts s')) - of_bool (sv_remote s' \<noteq> None)"
    using server_invD(10) [OF inv] f by (simp add: same_frame_contexts [OF f] same_frame_def)
  show "slots_inv (handle_of s') (sv_handles s')" "names_inv (sv_handles s')"
    using server_invD(1,2) [OF inv] f by (simp_all add: same_frame_handle [OF f] same_frame_def)
  show "mq_held (sv_mq s') (W' \<union> N')" "W' \<inter> N' = {}" by (rule mq)+
  show "0 \<le> R c" for c by (rule server_invD(5) [OF inv])
  show "p = c_queue x" if "c \<in> live (sv_handles s')" "ctx_at s' c = Some x" "mbox s' p = Some (c_handle x, r, xs)" for c x p r xs
    using that dom [OF that(3)] server_invD(11) [OF inv, of c x p] unfolding h at by blast
qed

lemma server_inv_frame:
  assumes inv: "server_inv s R W N Z" and f: "same_frame s s'"
    and mq: "mq_held (sv_mq s') (W' \<union> N)" "W' \<inter> N = {}"
    and v: "\<And>p h r xs. mbox s p = Some (h, r, xs) \<Longrightarrow> \<exists>ys. mbox s' p = Some (h, r, ys)"
    and dom: "\<And>p. mbox s p = None \<Longrightarrow> mbox s' p = None"
  shows "server_inv s' R W' N Z"
proof (rule server_inv_mq [OF inv f mq])
  show "\<exists>r' ys. mbox s p = Some (h, r', ys)" if "mbox s' p = Some (h, r, xs)" for p h r xs
    using that v [of p] dom [of p] by (cases "mbox s p") fastforce+
  show "c_queue x \<in> N" if "ctx_at s c = Some x" "c \<in> live (sv_handles s)" "\<not> c_init x" for c x
    using server_invD(6) [OF inv that(1)] that by (simp add: ctx_ok_def)
qed (rule v)

section \<open>What a step keeps\<close>

text \<open>
  \<open>room n s\<close>: every mailbox can take \<open>n\<close> more messages before its ring reaches the limit of \<open>int\<close>.
  \<open>grow n s s'\<close>: no mailbox has gained more than \<open>n\<close> messages.
\<close>

definition mlen :: "server \<Rightarrow> nat \<Rightarrow> nat" where
  "mlen s p = (case mbox s p of None \<Rightarrow> 0 | Some (_, _, xs) \<Rightarrow> length xs)"

definition room :: "nat \<Rightarrow> server \<Rightarrow> bool" where
  "room n s \<longleftrightarrow> (\<forall>p. mlen s p + n \<le> mq_limit)"

definition grow :: "nat \<Rightarrow> server \<Rightarrow> server \<Rightarrow> bool" where
  "grow n s s' \<longleftrightarrow> (\<forall>p. mlen s' p \<le> mlen s p + n)"

lemma mlen_eq [simp]: "mbox s p = Some (h, r, xs) \<Longrightarrow> mlen s p = length xs"
  by (simp add: mlen_def)

lemma room_D: "room n s \<Longrightarrow> mbox s p = Some (h, r, xs) \<Longrightarrow> length xs + n \<le> mq_limit"
  unfolding room_def using mlen_eq by metis

lemma room_mono: "room k s \<Longrightarrow> j \<le> k \<Longrightarrow> room j s"
  unfolding room_def by (meson add_le_mono le_refl order_trans)

lemma room_grow: "room (n + k) s \<Longrightarrow> grow n s s' \<Longrightarrow> room k s'"
  unfolding room_def grow_def by (metis add.assoc add_le_cancel_right order_trans)

lemma grow_refl [simp]: "grow n s s"
  by (simp add: grow_def)

lemma grow_mono: "grow j s s' \<Longrightarrow> j \<le> k \<Longrightarrow> grow k s s'"
  unfolding grow_def by (meson add_le_mono le_refl order_trans)

lemma grow_trans: "grow j s s1 \<Longrightarrow> grow k s1 s2 \<Longrightarrow> grow (j + k) s s2"
  unfolding grow_def by (metis add.assoc add_le_cancel_right order_trans)

lemma mlen_frame: "mbox s' = mbox s \<Longrightarrow> mlen s' = mlen s"
  by (simp add: mlen_def fun_eq_iff)

lemma room_frame: "mbox s' = mbox s \<Longrightarrow> room k s' = room k s"
  by (drule mlen_frame) (simp add: room_def)

lemma grow_frame: "mbox s' = mbox s \<Longrightarrow> grow k s s'"
  by (drule mlen_frame) (simp add: grow_def)

lemma grow_upd:
  assumes "mbox s q = Some (h, r, xs)" "mbox s' = (mbox s)(q \<mapsto> (h', r', ys))" "length ys \<le> length xs + n"
  shows "grow n s s'"
  using assms by (auto simp: grow_def mlen_def)

text \<open>The harbor has been set up and its service runs.\<close>

definition net_ok :: "server \<Rightarrow> bool" where
  "net_ok s \<longleftrightarrow> sv_harbor s \<noteq> NOT 0 \<and> sv_remote s \<noteq> None"

text \<open>
  Contexts keep their mailbox and handle; a freed context does not come back, nor does one that has left
  the handle table return to it.
\<close>

definition stable :: "server \<Rightarrow> server \<Rightarrow> bool" where
  "stable s s' \<longleftrightarrow> length (sv_ctx s) \<le> length (sv_ctx s') \<and>
     (\<forall>c<length (sv_ctx s). c \<in> live (sv_handles s') \<longrightarrow> c \<in> live (sv_handles s)) \<and>
     (\<forall>c x'. c < length (sv_ctx s) \<longrightarrow> ctx_at s' c = Some x' \<longrightarrow> (\<exists>x. ctx_at s c = Some x \<and> same_core x x'))"

lemma stable_refl [simp]: "stable s s" by (simp add: stable_def)

lemma stable_trans: "stable s s1 \<Longrightarrow> stable s1 s2 \<Longrightarrow> stable s s2"
proof -
  assume a: "stable s s1" "stable s1 s2"
  have "\<exists>x. ctx_at s c = Some x \<and> same_core x x2" if c: "c < length (sv_ctx s)" "ctx_at s2 c = Some x2" for c x2
  proof -
    have "c < length (sv_ctx s1)" using a(1) c(1) by (simp add: stable_def)
    then obtain x1 where x1: "ctx_at s1 c = Some x1" "same_core x1 x2" using a(2) c(2) unfolding stable_def by blast
    then obtain x where "ctx_at s c = Some x" "same_core x x1" using a(1) c(1) unfolding stable_def by blast
    then show ?thesis using x1(2) same_core_trans by blast
  qed
  then show ?thesis using a by (auto simp: stable_def)
qed

lemma stable_frame: "same_frame s s' \<Longrightarrow> stable s s'"
proof -
  assume f: "same_frame s s'"
  then have "length (sv_ctx s') = length (sv_ctx s)" "sv_handles s' = sv_handles s" by (simp_all add: same_frame_def)
  then show ?thesis using same_frame_ctx [OF f] by (simp add: stable_def)
qed

lemma stable_put: "ctx_at s c = Some x \<Longrightarrow> same_core x y \<Longrightarrow> stable s (put_ctx s c y)"
  by (auto simp: stable_def) (auto simp: put_ctx_def)

lemma stable_at: "stable s s' \<Longrightarrow> ctx_at s c = Some x \<Longrightarrow> ctx_at s' c = Some x' \<Longrightarrow> same_core x x'"
proof -
  assume a: "stable s s'" "ctx_at s c = Some x" "ctx_at s' c = Some x'"
  then obtain y where "ctx_at s c = Some y" "same_core y x'"
    using ctx_at_lt [OF a(2)] unfolding stable_def by blast
  then show ?thesis using a(2) by simp
qed

definition step_ok :: "nat \<Rightarrow> server \<Rightarrow> (nat \<Rightarrow> int) \<Rightarrow> nat set \<Rightarrow> nat set \<Rightarrow> nat set \<Rightarrow> server \<Rightarrow> bool" where
  "step_ok n s R W N Z s' \<longleftrightarrow> server_inv s' R W N Z \<and> net_ok s' \<and> stable s s' \<and> grow n s s'"

lemma step_ok_trans: "step_ok j s R' W' N' Z' s1 \<Longrightarrow> step_ok k s1 R W N Z s2 \<Longrightarrow> step_ok (j + k) s R W N Z s2"
  using stable_trans grow_trans unfolding step_ok_def by blast

lemma step_ok_mono: "step_ok j s R W N Z s' \<Longrightarrow> j \<le> k \<Longrightarrow> step_ok k s R W N Z s'"
  using grow_mono unfolding step_ok_def by blast

lemma step_okD:
  assumes "step_ok n s R W N Z s'"
  shows "server_inv s' R W N Z" "net_ok s'" "stable s s'" "grow n s s'" "room (n + k) s \<Longrightarrow> room k s'"
  using assms room_grow unfolding step_ok_def by blast+

text \<open>
  What is asked of the code of the services: a callback may do anything the API allows, so it keeps the
  invariant, whatever references other code holds; it sends at most \<open>b\<close> messages to one mailbox.
\<close>

definition host_ok :: "host \<Rightarrow> nat \<Rightarrow> bool" where
  "host_ok ho b \<longleftrightarrow>
     (\<forall>s R W N Z. server_inv s R W N Z \<longrightarrow> net_ok s \<longrightarrow> room b s \<longrightarrow>
        (\<forall>md inst c prm. 0 < R c \<longrightarrow> wp (ho_init ho md inst c prm s) (\<lambda>r. step_ok b s R W N Z (fst r))) \<and>
        (\<forall>md inst. wp (ho_release ho md inst s) (step_ok b s R W N Z)) \<and>
        (\<forall>md inst sg. wp (ho_signal ho md inst sg s) (step_ok b s R W N Z)) \<and>
        (\<forall>cb c ud ty session source data sz. 0 < R c \<longrightarrow>
           wp (ho_cb ho cb c ud ty session source data sz s) (\<lambda>r. step_ok b s R W N Z (fst r))))"

lemma host_okD:
  assumes "host_ok ho b" "server_inv s R W N Z" "net_ok s" "room b s"
  shows "0 < R c \<Longrightarrow> wp (ho_init ho md inst c prm s) (\<lambda>r. step_ok b s R W N Z (fst r))"
    "wp (ho_release ho md inst s) (step_ok b s R W N Z)"
    "wp (ho_signal ho md inst sg s) (step_ok b s R W N Z)"
    "0 < R c \<Longrightarrow> wp (ho_cb ho cb c ud ty session source data sz s) (\<lambda>r. step_ok b s R W N Z (fst r))"
proof -
  have a: "(\<forall>md inst c prm. 0 < R c \<longrightarrow> wp (ho_init ho md inst c prm s) (\<lambda>r. step_ok b s R W N Z (fst r))) \<and>
      (\<forall>md inst. wp (ho_release ho md inst s) (step_ok b s R W N Z)) \<and>
      (\<forall>md inst sg. wp (ho_signal ho md inst sg s) (step_ok b s R W N Z)) \<and>
      (\<forall>cb c ud ty session source data sz. 0 < R c \<longrightarrow>
         wp (ho_cb ho cb c ud ty session source data sz s) (\<lambda>r. step_ok b s R W N Z (fst r)))"
    by (rule assms(1) [unfolded host_ok_def, THEN spec, THEN spec, THEN spec, THEN spec, THEN spec,
          THEN mp, THEN mp, THEN mp, OF assms(2-4)])
  show "0 < R c \<Longrightarrow> wp (ho_init ho md inst c prm s) (\<lambda>r. step_ok b s R W N Z (fst r))" using a by blast
  show "wp (ho_release ho md inst s) (step_ok b s R W N Z)" using a by blast
  show "wp (ho_signal ho md inst sg s) (step_ok b s R W N Z)" using a by blast
  show "0 < R c \<Longrightarrow> wp (ho_cb ho cb c ud ty session source data sz s) (\<lambda>r. step_ok b s R W N Z (fst r))"
    using a by blast
qed

lemma net_ok_frame: "same_frame s s' \<Longrightarrow> net_ok s' = net_ok s"
  by (simp add: net_ok_def same_frame_def)

lemma server_inv_quiet:
  assumes "server_inv s R W N Z" "same_frame s s'" "sv_mq s' = sv_mq s"
  shows "server_inv s' R W N Z"
  by (rule server_inv_frame [OF assms(1,2)]) (use assms server_invD(3,4) [OF assms(1)] in auto)

section \<open>References\<close>

lemma grab_spec:
  assumes inv: "server_inv s R W N Z" and x: "ctx_at s c = Some x" and nz: "c \<notin> Z"
  shows "skynet_context_grab s c = Some (put_ctx s c (x\<lparr>c_ref := c_ref x + 1\<rparr>))"
    "server_inv (put_ctx s c (x\<lparr>c_ref := c_ref x + 1\<rparr>)) (R(c := R c + 1)) W N Z"
proof -
  show "skynet_context_grab s c = Some (put_ctx s c (x\<lparr>c_ref := c_ref x + 1\<rparr>))"
    using x by (simp add: skynet_context_grab_def upd_ctx_Some)
  have "0 \<le> c_ref x" using server_invD(5,6) [OF inv, of c] x by (auto simp: ctx_ok_def refs_def)
  then show "server_inv (put_ctx s c (x\<lparr>c_ref := c_ref x + 1\<rparr>)) (R(c := R c + 1)) W N Z"
    using server_invD(5) [OF inv, of c] nz
    by (intro server_inv_put [OF inv x]) (auto simp: same_core_def)
qed

text \<open>Freeing a context whose last reference is gone.\<close>

lemma server_inv_delete:
  assumes inv: "server_inv s R W N (insert c Z)" and x: "ctx_at s c = Some x" and nz: "c \<notin> Z"
  shows "\<exists>mq xs. skynet_mq_mark_release (sv_mq s) (c_queue x) = Some mq \<and>
    mbox s (c_queue x) = Some (c_handle x, False, xs) \<and>
    mq_view mq = (mbox s)(c_queue x \<mapsto> (c_handle x, True, xs)) \<and>
    server_inv (context_dec (s\<lparr>sv_mq := mq, sv_ctx := (sv_ctx s)[c := None]\<rparr>)) R W N Z"
proof -
  have ok: "ctx_ok s R N (insert c Z) c x" by (rule server_invD(6) [OF inv x])
  then have z: "refs s R c = 0" by (auto simp: ctx_ok_def)
  from ok obtain xs where xs: "mbox s (c_queue x) = Some (c_handle x, False, xs)" by (auto simp: ctx_ok_def)
  from mb.mark_law [OF server_invD(3) [OF inv] xs] obtain mq where
    mq: "skynet_mq_mark_release (sv_mq s) (c_queue x) = Some mq" "mq_held mq (W \<union> N)"
      "mq_view mq = (mbox s)(c_queue x \<mapsto> (c_handle x, True, xs))" by blast
  let ?s = "context_dec (s\<lparr>sv_mq := mq, sv_ctx := (sv_ctx s)[c := None]\<rparr>)"
  have at: "ctx_at ?s = (ctx_at s)(c := None)"
    using ctx_at_lt [OF x] by (auto simp: ctx_at_def context_dec_def fun_eq_iff nth_list_update)
  have r: "refs ?s = refs s" by (simp add: refs_def context_dec_def fun_eq_iff)
  have cl: "c \<notin> live (sv_handles s)" "sv_remote s \<noteq> Some c"
    using z server_invD(5) [OF inv, of c] by (auto simp: refs_def of_bool_def split: if_splits)
  have sl: "slots_inv (handle_of ?s) (sv_handles s)"
  proof -
    have "handle_of ?s d = handle_of s d" if "d \<in> live (sv_handles s)" for d
      using cl(1) that by (auto simp: handle_of_def at)
    moreover have "d \<in> live (sv_handles s)" if "i < length (h_slot (sv_handles s))" "h_slot (sv_handles s) ! i = Some d" for i d
      using that nth_mem by (force simp: live_def)
    ultimately show ?thesis using server_invD(1) [OF inv] unfolding slots_inv_def by metis
  qed
  have "server_inv ?s R W N Z"
  proof (rule server_invI)
    show "slots_inv (handle_of ?s) (sv_handles ?s)" using sl by (simp add: context_dec_def)
    show "names_inv (sv_handles ?s)" using server_invD(2) [OF inv] by (simp add: context_dec_def)
    show "mq_held (sv_mq ?s) (W \<union> N)" using mq(2) by (simp add: context_dec_def)
    show "W \<inter> N = {}" by (rule server_invD(4) [OF inv])
    show "0 \<le> R d" for d by (rule server_invD(5) [OF inv])
    show "ctx_ok ?s R N Z d y" if "ctx_at ?s d = Some y" for d y
    proof -
      have d: "d \<noteq> c" "ctx_at s d = Some y" using that by (auto simp: at split: if_splits)
      then have "c_queue y \<noteq> c_queue x" using server_invD(8) [OF inv d(2) x] by auto
      then show ?thesis using server_invD(6) [OF inv d(2)] d(1) mq(3)
        by (auto simp: ctx_ok_def r) (auto simp: context_dec_def)
    qed
    show "refs ?s R d = 0 \<and> d \<notin> Z" if "ctx_at ?s d = None" for d
      using that z nz server_invD(7) [OF inv, of d] by (cases "d = c") (auto simp: at r)
    show "d = e" if "ctx_at ?s d = Some y" "ctx_at ?s e = Some z" "c_queue y = c_queue z" for d e y z
      using that server_invD(8) [OF inv, of d y e z] by (auto simp: at split: if_splits)
    show "h \<noteq> 0" if "mbox ?s p = Some (h, rr, ys)" for p h rr ys
      using that server_invD(9) [OF inv, of p] server_invD(9) [OF inv xs] mq(3)
      by (auto simp: context_dec_def split: if_splits)
    have "contexts ?s = contexts s - {c}" "c \<in> contexts s" using x by (auto simp: contexts_def at)
    then have "int (card (contexts ?s)) = int (card (contexts s)) - 1"
      using card_Suc_Diff1 [of "contexts s" c] by simp
    then show "sv_total ?s = int (card (contexts ?s)) - of_bool (sv_remote ?s \<noteq> None)"
      using server_invD(10) [OF inv] by (simp add: context_dec_def)
    show "p = c_queue y" if "d \<in> live (sv_handles ?s)" "ctx_at ?s d = Some y" "mbox ?s p = Some (c_handle y, rr, ys)" for d y p rr ys
    proof -
      have d: "d \<in> live (sv_handles s)" "ctx_at s d = Some y" "mq_view mq p = Some (c_handle y, rr, ys)"
        using that by (auto simp: at split: if_splits) (simp_all add: context_dec_def)
      have "\<exists>r' zs. mbox s p = Some (c_handle y, r', zs)" using d(3) mq(3) xs by (auto split: if_splits)
      then show ?thesis using server_invD(11) [OF inv d(1,2)] by blast
    qed
  qed
  then show ?thesis using mq(1,3) xs by blast
qed

lemma emit_frame [simp]: "same_frame s (emit s' e) = same_frame s s'" "sv_mq (emit s e) = sv_mq s"
  by (simp_all add: same_frame_def emit_def)

lemma release_spec:
  assumes ho: "host_ok ho b" and inv: "server_inv s R W N Z" and n: "net_ok s" "room b s"
    and r: "0 < R c"
  shows "wp (skynet_context_release ho s c) (\<lambda>(s', alive). step_ok b s (R(c := R c - 1)) W N Z s' \<and>
    (alive \<longleftrightarrow> ctx_at s' c \<noteq> None) \<and>
    (\<not> alive \<longrightarrow> (\<forall>x. ctx_at s c = Some x \<longrightarrow> (\<exists>xs. mbox s' (c_queue x) = Some (c_handle x, True, xs)))) \<and>
    (\<forall>x. ctx_at s c = Some x \<longrightarrow> c_ref x \<noteq> 1 \<longrightarrow> alive \<and> s' = put_ctx s c (x\<lparr>c_ref := c_ref x - 1\<rparr>)))"
proof -
  obtain x where x: "ctx_at s c = Some x" using held_exists [OF inv r] by blast
  have ok: "ctx_ok s R N Z c x" by (rule server_invD(6) [OF inv x])
  have pos: "0 < c_ref x" using ok r by (auto simp: ctx_ok_def refs_def)
  then have nz: "c \<notin> Z" using ok by (auto simp: ctx_ok_def)
  let ?y = "x\<lparr>c_ref := c_ref x - 1\<rparr>"
  let ?s1 = "put_ctx s c ?y"
  let ?R = "R(c := R c - 1)"
  have u: "upd_ctx s c (\<lambda>x. x\<lparr>c_ref := c_ref x - 1\<rparr>) = Some ?s1" using x by (simp add: upd_ctx_Some)
  have core: "same_core x ?y" by (simp add: same_core_def)
  have st1: "stable s ?s1" by (rule stable_put [OF x core])
  have f1: "net_ok ?s1" "mbox ?s1 = mbox s" using n by (simp_all add: net_ok_def)
  show ?thesis
  proof (cases "c_ref x = 1")
    case False
    have "server_inv ?s1 (R(c := R c + (-1))) W N Z"
      by (rule server_inv_put [OF inv x core]) (use False pos nz r in auto)
    then have "step_ok b s ?R W N Z ?s1" using f1 grow_frame st1 by (simp add: step_ok_def)
    then show ?thesis using x u False by (simp add: skynet_context_release_def wp_simps)
  next
    case True
    have inv1: "server_inv ?s1 (R(c := R c + (-1))) W N (insert c Z)"
      by (rule server_inv_put [OF inv x core]) (use True nz r in auto)
    define s1' where "s1' = (case c_logfile x of None \<Rightarrow> ?s1 | Some f \<Rightarrow> emit ?s1 (File_close f))"
    have fr: "same_frame ?s1 s1'" "sv_mq s1' = sv_mq ?s1" by (simp_all add: s1'_def split: option.split)
    have inv2: "server_inv s1' ?R W N (insert c Z)" using server_inv_quiet [OF inv1 fr] by simp
    have n2: "net_ok s1'" "room b s1'"
      using n f1 net_ok_frame [OF fr(1)] room_frame [of s1' s] fr(2) by simp_all
    from host_okD(2) [OF ho inv2 n2, of "c_mod x" "c_instance x"] obtain s2 where
      s2: "ho_release ho (c_mod x) (c_instance x) s1' = Some s2" "step_ok b s1' ?R W N (insert c Z) s2"
      by (auto simp: wp_iff)
    have inv3: "server_inv s2 ?R W N (insert c Z)" and st2: "stable s1' s2" and r2: "grow b s1' s2" "net_ok s2"
      using s2(2) by (simp_all add: step_ok_def)
    have at1: "ctx_at s1' c = Some ?y" using x same_frame_ctx [OF fr(1)] by simp
    obtain x2 where x2: "ctx_at s2 c = Some x2" using server_invD(7) [OF inv3, of c] by blast
    have q2: "c_queue x2 = c_queue x" "c_handle x2 = c_handle x"
      using stable_at [OF st2 at1 x2] by (simp_all add: same_core_def)
    from server_inv_delete [OF inv3 x2 nz] obtain mq xs where
      mq: "skynet_mq_mark_release (sv_mq s2) (c_queue x2) = Some mq" "mbox s2 (c_queue x2) = Some (c_handle x2, False, xs)"
        "mq_view mq = (mbox s2)(c_queue x2 \<mapsto> (c_handle x2, True, xs))"
        "server_inv (context_dec (s2\<lparr>sv_mq := mq, sv_ctx := (sv_ctx s2)[c := None]\<rparr>)) ?R W N Z" by blast
    let ?s3 = "context_dec (s2\<lparr>sv_mq := mq, sv_ctx := (sv_ctx s2)[c := None]\<rparr>)"
    have "mlen s1' = mlen s" using f1(2) fr(2) by (simp add: mlen_def fun_eq_iff)
    then have "grow b s s2" using r2(1) by (simp add: grow_def)
    moreover have "mlen ?s3 = mlen s2" using mq(2,3) by (auto simp: mlen_def context_dec_def fun_eq_iff)
    ultimately have "grow b s ?s3" by (simp add: grow_def)
    moreover have "net_ok ?s3" using r2(2) by (simp add: net_ok_def context_dec_def)
    moreover have at3: "ctx_at ?s3 = (ctx_at s2)(c := None)"
      using ctx_at_lt [OF x2] by (auto simp: ctx_at_def context_dec_def fun_eq_iff nth_list_update)
    have "stable s2 ?s3" unfolding stable_def at3 by (auto simp: context_dec_def)
    then have "stable s ?s3" using st1 stable_frame [OF fr(1)] st2 stable_trans by blast
    ultimately have "step_ok b s ?R W N Z ?s3" using mq(4) by (simp add: step_ok_def)
    moreover have "skynet_context_release ho s c = Some (?s3, False)"
    proof -
      have y: "ctx_at ?s1 c = Some ?y" using x by simp
      have l: "(case c_logfile ?y of None \<Rightarrow> ?s1 | Some f \<Rightarrow> emit ?s1 (File_close f)) = s1'" by (simp add: s1'_def)
      have m: "skynet_mq_mark_release (sv_mq s2) (c_queue ?y) = Some mq" using mq(1) q2 by simp
      have i: "ho_release ho (c_mod ?y) (c_instance ?y) s1' = Some s2" using s2(1) by simp
      have "delete_context ho ?s1 c = Some ?s3"
        unfolding delete_context_def y Option.bind.bind_lunit Let_def l i m ..
      then show ?thesis unfolding skynet_context_release_def x Option.bind.bind_lunit u using True by simp
    qed
    moreover have "\<exists>xs. mbox ?s3 (c_queue x) = Some (c_handle x, True, xs)"
      using mq(3) q2 by (simp add: context_dec_def)
    ultimately show ?thesis using x True at3 by (simp add: wp_simps)
  qed
qed

lemma handle_grab_spec:
  assumes inv: "server_inv s R W N Z"
  shows "(skynet_handle_grab (handle_of s) (sv_handles s) h = None \<and> handle_grab s h = Some (s, None)) \<or>
    (\<exists>c x. skynet_handle_grab (handle_of s) (sv_handles s) h = Some c \<and> ctx_at s c = Some x \<and> c_handle x = h \<and>
       c \<in> live (sv_handles s) \<and> c \<notin> Z \<and>
       handle_grab s h = Some (put_ctx s c (x\<lparr>c_ref := c_ref x + 1\<rparr>), Some c) \<and>
       server_inv (put_ctx s c (x\<lparr>c_ref := c_ref x + 1\<rparr>)) (R(c := R c + 1)) W N Z)"
proof (cases "skynet_handle_grab (handle_of s) (sv_handles s) h")
  case None
  then show ?thesis by (simp add: handle_grab_def)
next
  case (Some c)
  then have c: "c \<in> live (sv_handles s)" "handle_of s c = h" using grab_iff [OF server_invD(1) [OF inv]] by auto
  obtain x where x: "ctx_at s c = Some x" using live_exists [OF inv c(1)] by blast
  have "c_ref x \<noteq> 0" using server_invD(6) [OF inv x] c(1) server_invD(5) [OF inv, of c]
    by (auto simp: ctx_ok_def refs_def)
  then have nz: "c \<notin> Z" using server_invD(6) [OF inv x] by (auto simp: ctx_ok_def)
  show ?thesis using Some c x nz grab_spec [OF inv x nz] by (auto simp: handle_grab_def handle_of_def)
qed

section \<open>Pushing\<close>

text \<open>The mailbox a handle names.\<close>

definition mailbox_of :: "server \<Rightarrow> u32 \<Rightarrow> nat option" where
  "mailbox_of s h =
     Option.bind (skynet_handle_grab (handle_of s) (sv_handles s) h) (\<lambda>c. map_option c_queue (ctx_at s c))"

lemma grab_frame: "same_frame s s' \<Longrightarrow>
  skynet_handle_grab (handle_of s') (sv_handles s') h = skynet_handle_grab (handle_of s) (sv_handles s) h"
  by (simp add: same_frame_handle) (simp add: same_frame_def)

lemma mailbox_of_frame: "same_frame s s' \<Longrightarrow> mailbox_of s' h = mailbox_of s h"
  unfolding mailbox_of_def by (simp add: grab_frame same_frame_ctx)

lemma push_frame [simp]: "same_frame s (s'\<lparr>sv_mq := mq\<rparr>) = same_frame s s'"
  by (simp add: same_frame_def)

definition push_result :: "server \<Rightarrow> u32 \<Rightarrow> skynet_message \<Rightarrow> server \<Rightarrow> bool" where
  "push_result s h m s' \<longleftrightarrow>
     (case mailbox_of s h of
        None \<Rightarrow> s' = s
      | Some q \<Rightarrow> \<exists>xs mq. mbox s q = Some (h, False, xs) \<and> s' = s\<lparr>sv_mq := mq\<rparr> \<and>
          mq_view mq = (mbox s)(q \<mapsto> (h, False, xs @ [m])))"

lemma push_context_spec:
  assumes inv: "server_inv s R W N Z" and rm: "room 1 s"
  shows "\<exists>s'. skynet_context_push ho s h m = Some (s', if mailbox_of s h = None then -1 else 0) \<and>
    push_result s h m s' \<and> server_inv s' R W N Z \<and> grow 1 s s' \<and> same_frame s s'"
proof -
  consider (miss) "skynet_handle_grab (handle_of s) (sv_handles s) h = None" "handle_grab s h = Some (s, None)"
    | (hit) c x where "skynet_handle_grab (handle_of s) (sv_handles s) h = Some c" "ctx_at s c = Some x" "c_handle x = h"
      "c \<in> live (sv_handles s)" "c \<notin> Z" "handle_grab s h = Some (put_ctx s c (x\<lparr>c_ref := c_ref x + 1\<rparr>), Some c)"
    using handle_grab_spec [OF inv, of h] by (elim disjE exE conjE)
  then show ?thesis
  proof cases
    case miss
    then show ?thesis using inv
      by (intro exI [of _ s]) (simp add: skynet_context_push_def mailbox_of_def push_result_def)
  next
    case hit
    have ok: "ctx_ok s R N Z c x" by (rule server_invD(6) [OF inv hit(2)])
    then obtain xs where xs: "mbox s (c_queue x) = Some (h, False, xs)" using hit(3) by (auto simp: ctx_ok_def)
    have "length xs < mq_limit" using room_D [OF rm xs] by simp
    from mb.push_law [OF server_invD(3) [OF inv] xs this, of m] obtain mq where
      mq: "skynet_mq_push (sv_mq s) (c_queue x) m = Some mq" "mq_held mq (W \<union> N)"
        "mq_view mq = (mbox s)(c_queue x \<mapsto> (h, False, xs @ [m]))" by blast
    let ?s' = "s\<lparr>sv_mq := mq\<rparr>"
    have pos: "c_ref x \<noteq> 0" using ok hit(5) by (auto simp: ctx_ok_def)
    have mo: "mailbox_of s h = Some (c_queue x)" using hit(1,2) by (simp add: mailbox_of_def)
    let ?s1 = "put_ctx s c (x\<lparr>c_ref := c_ref x + 1\<rparr>)\<lparr>sv_mq := mq\<rparr>"
    have at: "ctx_at ?s1 c = Some (x\<lparr>c_ref := c_ref x + 1\<rparr>)"
      using ctx_at_lt [OF hit(2)] by (simp add: ctx_at_def put_ctx_def)
    have "upd_ctx ?s1 c (\<lambda>x. x\<lparr>c_ref := c_ref x - 1\<rparr>) = Some ?s'"
    proof -
      have "put_ctx ?s1 c x = ?s'"
        using hit(2) ctx_at_lt [OF hit(2)] by (auto simp: put_ctx_def ctx_at_def list_update_same_conv)
      then show ?thesis using upd_ctx_Some [OF at, of "\<lambda>x. x\<lparr>c_ref := c_ref x - 1\<rparr>"] by simp
    qed
    then have "skynet_context_release ho ?s1 c = Some (?s', True)"
      using at pos by (simp add: skynet_context_release_def)
    then have "skynet_context_push ho s h m = Some (?s', 0)"
      using hit(2,6) mq(1) by (simp add: skynet_context_push_def)
    moreover have "push_result s h m ?s'" using mo xs mq(3) by (auto simp: push_result_def)
    moreover have "server_inv ?s' R W N Z"
      by (rule server_inv_frame [OF inv]) (use mq server_invD(4) [OF inv] xs in \<open>auto split: if_splits\<close>)
    moreover have "grow 1 s ?s'" by (rule grow_upd [OF xs, of _ h False "xs @ [m]"]) (simp_all add: mq(3))
    ultimately show ?thesis using mo by (intro exI [of _ ?s']) simp
  qed
qed

lemma push_result_grown: "push_result s h m s' \<Longrightarrow> grown (mbox s) (mbox s')"
  by (auto simp: push_result_def grown_def split: option.splits)

lemma malloc_frame [simp]:
  "same_frame s (fst (skynet_malloc s' bl)) = same_frame s s'" "sv_mq (fst (skynet_malloc s bl)) = sv_mq s"
  "same_frame s (s'\<lparr>sv_logger := l\<rparr>) = same_frame s s'"
  "same_frame s (skynet_free s' a) = same_frame s s'" "sv_mq (skynet_free s a) = sv_mq s"
  by (simp_all add: skynet_malloc_def same_frame_def skynet_free_def)

text \<open>A log line changes the mailbox of the logger and memory only.\<close>

definition quiet :: "nat \<Rightarrow> server \<Rightarrow> (nat \<Rightarrow> int) \<Rightarrow> nat set \<Rightarrow> nat set \<Rightarrow> nat set \<Rightarrow> server \<Rightarrow> bool" where
  "quiet k s R W N Z s' \<longleftrightarrow> server_inv s' R W N Z \<and> grow k s s' \<and> same_frame s s' \<and> grown (mbox s) (mbox s')"

lemma quiet_trans: "quiet j s R W N Z s1 \<Longrightarrow> quiet k s1 R W N Z s2 \<Longrightarrow> quiet (j + k) s R W N Z s2"
  using same_frame_trans grown_trans grow_trans unfolding quiet_def by blast

lemma quiet_step: "quiet k s R W N Z s' \<Longrightarrow> net_ok s \<Longrightarrow> step_ok k s R W N Z s'"
  using net_ok_frame stable_frame by (auto simp: quiet_def step_ok_def)

lemma error_spec:
  assumes inv: "server_inv s R W N Z" and rm: "room 1 s" and c: "\<And>c. ctx = Some c \<Longrightarrow> ctx_at s c \<noteq> None"
  shows "wp (skynet_error ho s ctx txt) (quiet 1 s R W N Z)"
proof -
  define l where "l = (if sv_logger s = 0 then skynet_handle_findname (sv_handles s) ''logger'' else sv_logger s)"
  let ?s1 = "s\<lparr>sv_logger := l\<rparr>"
  have f1: "same_frame s ?s1" by simp
  have i1: "server_inv ?s1 R W N Z" by (rule server_inv_quiet [OF inv f1]) simp
  show ?thesis
  proof (cases "l = 0")
    case True
    then show ?thesis using i1 grow_frame [of ?s1 s 1]
      unfolding skynet_error_def l_def [symmetric] Let_def by (simp add: wp_simps quiet_def)
  next
    case False
    obtain s2 data where s2: "skynet_malloc ?s1 (Raw (txt @ [0])) = (s2, data)" by fastforce
    then have f2: "same_frame s s2" "sv_mq s2 = sv_mq s"
      by (auto simp: skynet_malloc_def same_frame_def)
    have i2: "server_inv s2 R W N Z" by (rule server_inv_quiet [OF inv f2])
    have r2: "room 1 s2" using rm room_frame [of s2 s] f2(2) by simp
    obtain src where src: "context_handle s2 ctx = Some src"
      using c same_frame_ctx [OF f2(1)] by (cases ctx) (auto simp: context_handle_def)
    from push_context_spec [OF i2 r2, of ho l "\<lparr>m_source = src, m_session = 0, m_data = data, m_sz = word_of_nat (length txt)\<rparr>"]
    obtain s' r where s': "skynet_context_push ho s2 l \<lparr>m_source = src, m_session = 0, m_data = data, m_sz = word_of_nat (length txt)\<rparr> = Some (s', r)"
      "push_result s2 l \<lparr>m_source = src, m_session = 0, m_data = data, m_sz = word_of_nat (length txt)\<rparr> s'"
      "server_inv s' R W N Z" "grow 1 s2 s'" "same_frame s2 s'" by blast
    have "quiet 1 s R W N Z s'"
      using s' same_frame_trans [OF f2(1) s'(5)] push_result_grown [OF s'(2)] f2(2) mlen_frame [of s2 s]
      by (simp add: quiet_def grow_def)
    then show ?thesis using s2 src s'(1) False
      unfolding skynet_error_def l_def [symmetric] Let_def by (simp add: wp_simps)
  qed
qed

section \<open>Sending\<close>

text \<open>Like \<open>same_frame\<close>, but the other fields of a context may have changed.\<close>

definition core_frame :: "server \<Rightarrow> server \<Rightarrow> bool" where
  "core_frame s s' \<longleftrightarrow> sv_handles s' = sv_handles s \<and> sv_remote s' = sv_remote s \<and> sv_harbor s' = sv_harbor s \<and>
     length (sv_ctx s') = length (sv_ctx s) \<and> (\<forall>c. rel_option same_core (ctx_at s c) (ctx_at s' c))"

lemma core_frame_ctx: "core_frame s s' \<Longrightarrow> ctx_at s c = Some x \<Longrightarrow> \<exists>x'. ctx_at s' c = Some x' \<and> same_core x x'"
proof -
  assume a: "core_frame s s'" "ctx_at s c = Some x"
  have "rel_option same_core (ctx_at s c) (ctx_at s' c)" using a(1) by (simp add: core_frame_def)
  then show ?thesis using a(2) by (auto simp: option_rel_Some1)
qed

lemma core_frame_none: "core_frame s s' \<Longrightarrow> ctx_at s' c = None \<longleftrightarrow> ctx_at s c = None"
proof -
  assume a: "core_frame s s'"
  have "rel_option same_core (ctx_at s c) (ctx_at s' c)" using a by (simp add: core_frame_def)
  then show ?thesis by (cases "ctx_at s c"; cases "ctx_at s' c") auto
qed

lemma core_frame_same: "same_frame s s' \<Longrightarrow> core_frame s s'"
proof -
  assume f: "same_frame s s'"
  have "rel_option same_core (ctx_at s c) (ctx_at s' c)" for c
    using same_frame_ctx [OF f] by (cases "ctx_at s c") auto
  then show ?thesis using f by (simp add: core_frame_def same_frame_def)
qed

lemma core_frame_put: "ctx_at s c = Some x \<Longrightarrow> same_core x y \<Longrightarrow> core_frame s (put_ctx s c y)"
proof -
  assume a: "ctx_at s c = Some x" "same_core x y"
  have "rel_option same_core (ctx_at s d) (ctx_at (put_ctx s c y) d)" for d
    using a by (cases "d = c"; cases "ctx_at s d") auto
  then show ?thesis by (simp add: core_frame_def) (simp add: put_ctx_def)
qed

lemma core_frame_trans: "core_frame s s1 \<Longrightarrow> core_frame s1 s2 \<Longrightarrow> core_frame s s2"
proof -
  assume a: "core_frame s s1" "core_frame s1 s2"
  have "rel_option same_core (ctx_at s c) (ctx_at s2 c)" for c
    using core_frame_ctx [OF a(1), of c] core_frame_ctx [OF a(2), of c] core_frame_none [OF a(1), of c]
      core_frame_none [OF a(2), of c] same_core_trans by (cases "ctx_at s c") fastforce+
  then show ?thesis using a by (simp add: core_frame_def)
qed

lemma core_frame_handle: "core_frame s s' \<Longrightarrow> handle_of s' = handle_of s"
proof -
  assume a: "core_frame s s'"
  show ?thesis
  proof
    fix c
    show "handle_of s' c = handle_of s c"
      using core_frame_ctx [OF a, of c] core_frame_none [OF a, of c]
      by (cases "ctx_at s c") (auto simp: handle_of_def same_core_def)
  qed
qed

lemma core_frame_stable: "core_frame s s' \<Longrightarrow> stable s s'"
proof -
  assume a: "core_frame s s'"
  have "\<exists>x. ctx_at s c = Some x \<and> same_core x x'" if "ctx_at s' c = Some x'" for c x'
    using core_frame_ctx [OF a, of c] core_frame_none [OF a, of c] that by (cases "ctx_at s c") auto
  then show ?thesis using a by (simp add: stable_def core_frame_def)
qed

lemma core_frame_mailbox: "core_frame s s' \<Longrightarrow> mailbox_of s' h = mailbox_of s h"
proof -
  assume a: "core_frame s s'"
  have q: "map_option c_queue (ctx_at s' c) = map_option c_queue (ctx_at s c)" for c
    using core_frame_ctx [OF a, of c] core_frame_none [OF a, of c] by (cases "ctx_at s c") (auto simp: same_core_def)
  have "sv_handles s' = sv_handles s" using a by (simp add: core_frame_def)
  then show ?thesis by (simp add: mailbox_of_def core_frame_handle [OF a] q)
qed

lemma core_frame_net: "core_frame s s' \<Longrightarrow> net_ok s' = net_ok s"
  by (simp add: core_frame_def net_ok_def)

definition next_session :: "int \<Rightarrow> int" where
  "next_session i = (let j = to_i32 (i + 1) in if j \<le> 0 then 1 else j)"

lemma newsession_spec:
  assumes "ctx_at s c = Some x"
  shows "skynet_context_newsession s c =
    Some (put_ctx s c (x\<lparr>c_session_id := next_session (c_session_id x)\<rparr>), next_session (c_session_id x))"
  using assms by (simp add: skynet_context_newsession_def upd_ctx_Some next_session_def Let_def)

text \<open>What the caller of \<open>skynet_send\<close> has to respect.\<close>

definition send_args :: "server \<Rightarrow> nat option \<Rightarrow> u32 \<Rightarrow> int \<Rightarrow> int \<Rightarrow> u64 \<Rightarrow> u64 \<Rightarrow> bool" where
  "send_args s ctx source ty session data sz \<longleftrightarrow>
     (\<forall>c. ctx = Some c \<longrightarrow> ctx_at s c \<noteq> None) \<and>
     (source = 0 \<or> tag ty PTYPE_TAG_ALLOCSESSION \<longrightarrow> ctx \<noteq> None) \<and>
     (tag ty PTYPE_TAG_ALLOCSESSION \<longrightarrow> session = 0) \<and>
     (\<not> tag ty PTYPE_TAG_DONTCOPY \<and> data \<noteq> 0 \<and> sz_mask sz = sz \<longrightarrow> read_block s data sz \<noteq> None)"

definition sent_session :: "server \<Rightarrow> nat option \<Rightarrow> int \<Rightarrow> int \<Rightarrow> int" where
  "sent_session s ctx ty session =
     (if tag ty PTYPE_TAG_ALLOCSESSION
      then (case ctx of None \<Rightarrow> 0 | Some c \<Rightarrow> next_session (case ctx_at s c of None \<Rightarrow> 0 | Some x \<Rightarrow> c_session_id x))
      else session)"

text \<open>The data that is sent: the block itself, or a copy of it with a NUL at its end.\<close>

definition sent_data :: "server \<Rightarrow> int \<Rightarrow> u64 \<Rightarrow> u64 \<Rightarrow> u64 \<times> (u64 \<Rightarrow> block option)" where
  "sent_data s ty data sz =
     (if \<not> tag ty PTYPE_TAG_DONTCOPY \<and> data \<noteq> 0
      then (sv_brk s, (sv_mem s)(sv_brk s \<mapsto> Raw (the (read_block s data sz) @ [0])))
      else (data, sv_mem s))"

definition sent_sz :: "int \<Rightarrow> u64 \<Rightarrow> u64" where
  "sent_sz ty sz = sz OR push_bit MESSAGE_TYPE_SHIFT (word_of_int (ty AND 0xff))"

definition sent_source :: "server \<Rightarrow> nat option \<Rightarrow> u32 \<Rightarrow> u32" where
  "sent_source s ctx source = (if source = 0 then (case ctx of None \<Rightarrow> 0 | Some c \<Rightarrow> handle_of s c) else source)"

lemma filter_spec:
  assumes inv: "server_inv s R W N Z" and a: "send_args s ctx source ty session data sz" "sz_mask sz = sz"
  shows "\<exists>s1. filter_args s ctx ty session data sz =
      Some (s1, sent_session s ctx ty session, fst (sent_data s ty data sz), sent_sz ty sz) \<and>
    server_inv s1 R W N Z \<and> core_frame s s1 \<and> sv_mq s1 = sv_mq s \<and> sv_freed s1 = sv_freed s \<and>
    sv_mem s1 = snd (sent_data s ty data sz) \<and> sv_logger s1 = sv_logger s \<and> sv_harbor s1 = sv_harbor s \<and>
    send_source s1 ctx source = Some (sent_source s ctx source)"
proof -
  obtain s0 where s0: "filter_session s ctx ty session = Some (s0, sent_session s ctx ty session)"
    "server_inv s0 R W N Z" "core_frame s s0" "sv_mq s0 = sv_mq s" "sv_freed s0 = sv_freed s" "sv_mem s0 = sv_mem s"
    "sv_brk s0 = sv_brk s" "sv_logger s0 = sv_logger s"
  proof (cases "tag ty PTYPE_TAG_ALLOCSESSION")
    case False
    show thesis by (rule that [of s]) (use False inv core_frame_same in \<open>simp_all add: filter_session_def sent_session_def\<close>)
  next
    case True
    then obtain c where c0: "ctx = Some c" "session = 0" using a(1) unfolding send_args_def by blast
    then obtain x where "ctx_at s c = Some x" using a(1) unfolding send_args_def by blast
    with c0 have c: "ctx = Some c" "ctx_at s c = Some x" "session = 0" by simp_all
    let ?y = "x\<lparr>c_session_id := next_session (c_session_id x)\<rparr>"
    have core: "same_core x ?y" by (simp add: same_core_def)
    show thesis
      by (rule that [of "put_ctx s c ?y"])
        (use True c server_inv_upd [OF inv c(2) core] core_frame_put [OF c(2) core] in
          \<open>simp_all add: filter_session_def sent_session_def newsession_spec\<close>)
  qed
  have mem: "read_block s0 data sz = read_block s data sz" using s0(6) by (simp add: read_block_def)
  obtain s1 where s1: "filter_payload s0 ty data sz = Some (s1, fst (sent_data s ty data sz))"
    "same_frame s0 s1" "sv_mq s1 = sv_mq s0" "sv_freed s1 = sv_freed s0" "sv_mem s1 = snd (sent_data s ty data sz)"
    "sv_logger s1 = sv_logger s0"
  proof (cases "\<not> tag ty PTYPE_TAG_DONTCOPY \<and> data \<noteq> 0")
    case False
    show thesis by (rule that [of s0]) (use False s0(6) in \<open>auto simp: filter_payload_def sent_data_def\<close>)
  next
    case True
    then obtain bs where "read_block s data sz = Some bs" using a by (auto simp: send_args_def)
    then show thesis using True mem s0(6,7)
      by (intro that [of "s0\<lparr>sv_mem := (sv_mem s0)(sv_brk s0 \<mapsto> Raw (bs @ [0])), sv_brk := sv_brk s0 + 1\<rparr>"])
        (simp_all add: filter_payload_def sent_data_def skynet_malloc_def same_frame_def)
  qed
  have cf: "core_frame s s1" using core_frame_trans [OF s0(3) core_frame_same [OF s1(2)]] .
  have "send_source s1 ctx source = Some (sent_source s ctx source)"
  proof (cases "source = 0")
    case True
    then obtain c where c: "ctx = Some c" "ctx_at s c \<noteq> None" using a(1) by (auto simp: send_args_def)
    then obtain x y where "ctx_at s c = Some x" "ctx_at s1 c = Some y" "same_core x y"
      using core_frame_ctx [OF cf] by blast
    then show ?thesis using True c by (simp add: send_source_def sent_source_def handle_of_def same_core_def)
  qed (simp add: send_source_def sent_source_def)
  then show ?thesis
    using s0 s1 cf server_inv_quiet [OF s0(2) s1(2,3)]
    by (intro exI [of _ s1]) (simp add: filter_args_def sent_sz_def core_frame_def)
qed

text \<open>The size and the type share a word; the receiver takes them apart again.\<close>

lemma sent_sz_parts:
  assumes "sz_mask sz = sz"
  shows "sz_mask (sent_sz ty sz) = sz" "sz_type (sent_sz ty sz) = word_of_int (ty AND 0xff)"
proof -
  have m: "MESSAGE_TYPE_MASK = mask 56" "MESSAGE_TYPE_SHIFT = 56"
    by (simp_all add: MESSAGE_TYPE_MASK_def MESSAGE_TYPE_SHIFT_def mask_eq_exp_minus_1)
  have sz: "bit sz n \<Longrightarrow> n < 56" for n
    using arg_cong [OF assms, of "\<lambda>w. bit w n"] by (auto simp: sz_mask_def m bit_simps)
  have ty: "bit (word_of_int (ty AND 0xff) :: u64) n \<Longrightarrow> n < 8" for n
  proof -
    have "(0xff :: int) = mask 8" by (simp add: mask_eq_exp_minus_1)
    then show "bit (word_of_int (ty AND 0xff) :: u64) n \<Longrightarrow> n < 8" by (simp only: bit_simps)
  qed
  show "sz_mask (sent_sz ty sz) = sz"
    unfolding sz_mask_def sent_sz_def m by (rule bit_word_eqI) (auto simp: bit_simps dest: sz)
  show "sz_type (sent_sz ty sz) = word_of_int (ty AND 0xff)"
    unfolding sz_type_def sent_sz_def m
    by (rule bit_word_eqI) (auto simp: bit_drop_bit_eq bit_or_iff bit_push_bit_iff dest: sz ty)
qed

definition remote :: "server \<Rightarrow> u32 \<Rightarrow> bool" where
  "remote s h \<longleftrightarrow> h AND NOT HANDLE_MASK \<noteq> sv_harbor s \<and> h AND NOT HANDLE_MASK \<noteq> 0"

lemma isremote_eq: "sv_harbor s \<noteq> NOT 0 \<Longrightarrow> skynet_harbor_message_isremote s h = Some (remote s h)"
  by (simp add: skynet_harbor_message_isremote_def remote_def Let_def)

definition remote_type_ok :: "server \<Rightarrow> u32 \<Rightarrow> int \<Rightarrow> bool" where
  "remote_type_ok s destination ty \<longleftrightarrow> (remote s destination \<longrightarrow> invalid_type (word_of_int (ty AND 0xff)))"

lemma harbor_send_spec:
  assumes inv: "server_inv s R W N Z" and n: "net_ok s" "room 1 s" and t: "invalid_type (rm_type rmsg)"
  shows "wp (skynet_harbor_send s rmsg source session) (quiet 1 s R W N Z)"
proof -
  obtain c where c: "sv_remote s = Some c" using n(1) by (auto simp: net_ok_def)
  let ?s1 = "fst (skynet_malloc s (Remote rmsg))" and ?a = "snd (skynet_malloc s (Remote rmsg))"
  have f: "same_frame s ?s1" "sv_mq ?s1 = sv_mq s" by simp_all
  obtain x where x: "ctx_at ?s1 c = Some x"
    using remote_exists [OF inv c] same_frame_ctx [OF f(1)] by auto
  have i1: "server_inv ?s1 R W N Z" by (rule server_inv_quiet [OF inv f])
  obtain xs where xs: "mbox ?s1 (c_queue x) = Some (c_handle x, False, xs)"
    using server_invD(6) [OF i1 x] by (auto simp: ctx_ok_def)
  have r1: "room 1 ?s1" using n(2) room_frame [of ?s1 s] f(2) by simp
  have l: "length xs < mq_limit" using room_D [OF r1 xs] by simp
  let ?m = "\<lparr>m_source = source, m_session = session, m_data = ?a,
     m_sz = REMOTE_MESSAGE_SIZE OR push_bit MESSAGE_TYPE_SHIFT PTYPE_SYSTEM\<rparr>"
  from mb.push_law [OF server_invD(3) [OF i1] xs l, of ?m] obtain mq where
    mq: "skynet_mq_push (sv_mq ?s1) (c_queue x) ?m = Some mq" "mq_held mq (W \<union> N)"
      "mq_view mq = (mbox ?s1)(c_queue x \<mapsto> (c_handle x, False, xs @ [?m]))" by blast
  let ?s' = "?s1\<lparr>sv_mq := mq\<rparr>"
  have "server_inv ?s' R W N Z"
    by (rule server_inv_frame [OF i1]) (use mq server_invD(4) [OF inv] xs in \<open>auto split: if_splits\<close>)
  moreover have "grow 1 s ?s'"
    using grow_upd [of s "c_queue x" "c_handle x" False xs ?s' "c_handle x" False "xs @ [?m]" 1] xs f(2) mq(3) by simp
  moreover have "grown (mbox s) (mbox ?s')" using mq(3) xs f(2) by (auto simp: grown_def)
  moreover have "sv_remote ?s1 = Some c" using c f(1) by (simp add: same_frame_def)
  ultimately show ?thesis using mq(1) x t
    by (simp add: wp_simps quiet_def skynet_harbor_send_def skynet_context_send_def split_beta)
qed

lemma quiet_from_core:
  assumes "core_frame s s1" "sv_mq s1 = sv_mq s" "net_ok s" "quiet 1 s1 R W N Z s'"
  shows "step_ok 1 s R W N Z s'"
proof -
  have "core_frame s s'" using core_frame_trans [OF assms(1)] core_frame_same assms(4) by (auto simp: quiet_def)
  moreover have "mlen s1 = mlen s" by (rule mlen_frame) (simp add: assms(2))
  ultimately show ?thesis using core_frame_stable core_frame_net assms(3,4) by (auto simp: step_ok_def quiet_def grow_def)
qed

lemma free_dontcopy_frame [simp]:
  "same_frame s (free_dontcopy s' ty a) = same_frame s s'" "sv_mq (free_dontcopy s ty a) = sv_mq s"
  by (simp_all add: free_dontcopy_def)

lemma quiet_same: "quiet k s R W N Z s' \<Longrightarrow> same_frame s' s'' \<Longrightarrow> sv_mq s'' = sv_mq s' \<Longrightarrow> quiet k s R W N Z s''"
  using server_inv_quiet [of s' R W N Z s''] same_frame_trans [of s s' s''] mlen_frame [of s'' s']
  by (simp add: quiet_def grow_def)

lemma quiet_free:
  "quiet k s R W N Z s' \<Longrightarrow> quiet k s R W N Z (skynet_free s' a)"
  "quiet k s R W N Z s' \<Longrightarrow> quiet k s R W N Z (free_dontcopy s' ty a)"
  by (rule quiet_same, assumption, simp_all)+

lemma quiet_refl: "server_inv s R W N Z \<Longrightarrow> quiet k s R W N Z s"
  by (simp add: quiet_def)

lemma too_large_spec:
  assumes inv: "server_inv s R W N Z" and n: "net_ok s" "room 1 s"
    and a: "send_args s ctx source ty session data sz"
  shows "wp (Option.bind (skynet_error ho s ctx txt) (\<lambda>s1. Some (free_dontcopy s1 ty data, -2)))
    (\<lambda>r. step_ok 1 s R W N Z (fst r))"
proof -
  have "wp (skynet_error ho s ctx txt) (quiet 1 s R W N Z)"
    by (rule error_spec [OF inv n(2)]) (use a in \<open>simp add: send_args_def\<close>)
  then obtain s1 where s1: "skynet_error ho s ctx txt = Some s1" "quiet 1 s R W N Z s1" by (auto simp: wp_iff)
  then show ?thesis using quiet_step [OF quiet_free(2) [OF s1(2)] n(1)] by (simp add: wp_simps)
qed

lemma send_spec:
  assumes inv: "server_inv s R W N Z" and n: "net_ok s" "room 1 s"
    and a: "send_args s ctx source ty session data sz" and t: "remote_type_ok s destination ty"
  shows "wp (skynet_send ho s ctx source destination ty session data sz) (\<lambda>r. step_ok 1 s R W N Z (fst r))"
proof (cases "sz_mask sz = sz")
  case False
  then show ?thesis using too_large_spec [OF inv n a, of ho] by (simp add: skynet_send_def)
next
  case True
  from filter_spec [OF inv a True] obtain s1 where
    s1: "filter_args s ctx ty session data sz =
        Some (s1, sent_session s ctx ty session, fst (sent_data s ty data sz), sent_sz ty sz)"
      "server_inv s1 R W N Z" "core_frame s s1" "sv_mq s1 = sv_mq s"
      "send_source s1 ctx source = Some (sent_source s ctx source)" by blast
  have r1: "room 1 s1" using n(2) room_frame [of s1 s] s1(4) by simp
  have n1: "net_ok s1" using core_frame_net [OF s1(3)] n(1) by simp
  have rem: "skynet_harbor_message_isremote s1 destination = Some (remote s destination)"
    using isremote_eq [of s1 destination] n1 s1(3) by (simp add: net_ok_def remote_def core_frame_def)
  have "wp (skynet_error ho s1 ctx (str ''Destination address can't be 0'')) (quiet 1 s1 R W N Z)"
    by (rule error_spec [OF s1(2) r1]) (use a core_frame_none [OF s1(3)] in \<open>simp add: send_args_def\<close>)
  then obtain s3 where e: "skynet_error ho s1 ctx (str ''Destination address can't be 0'') = Some s3"
    "quiet 1 s1 R W N Z s3" by (auto simp: wp_iff)
  note lift = quiet_from_core [OF s1(3,4) n(1)]
  show ?thesis
  proof (cases "destination = 0")
    case True2: True
    show ?thesis
      using e s1(1,5) True True2 quiet_refl [OF s1(2)]
      by (auto simp: skynet_send_def wp_simps intro!: lift quiet_free)
  next
    case False
    show ?thesis
    proof (cases "remote s destination")
      case rt: True
      have "wp (skynet_harbor_send s1 \<lparr>rm_name = [], rm_handle = destination, rm_message = fst (sent_data s ty data sz),
          rm_sz = sz_mask (sent_sz ty sz), rm_type = sz_type (sent_sz ty sz)\<rparr> (sent_source s ctx source)
          (sent_session s ctx ty session)) (quiet 1 s1 R W N Z)"
        by (rule harbor_send_spec [OF s1(2) n1 r1]) (use t rt sent_sz_parts [OF True] in \<open>simp add: remote_type_ok_def\<close>)
      then obtain s2 where s2: "skynet_harbor_send s1 \<lparr>rm_name = [], rm_handle = destination, rm_message = fst (sent_data s ty data sz),
          rm_sz = sz_mask (sent_sz ty sz), rm_type = sz_type (sent_sz ty sz)\<rparr> (sent_source s ctx source)
          (sent_session s ctx ty session) = Some s2" "quiet 1 s1 R W N Z s2" by (auto simp: wp_iff)
      then show ?thesis using s1(1,5) True False rt rem lift [OF s2(2)] by (simp add: skynet_send_def wp_simps)
    next
      case rt: False
      from push_context_spec [OF s1(2) r1, of ho destination "\<lparr>m_source = sent_source s ctx source,
          m_session = sent_session s ctx ty session, m_data = fst (sent_data s ty data sz), m_sz = sent_sz ty sz\<rparr>"]
      obtain s2 r where s2: "skynet_context_push ho s1 destination \<lparr>m_source = sent_source s ctx source,
          m_session = sent_session s ctx ty session, m_data = fst (sent_data s ty data sz), m_sz = sent_sz ty sz\<rparr> = Some (s2, r)"
        "push_result s1 destination \<lparr>m_source = sent_source s ctx source,
          m_session = sent_session s ctx ty session, m_data = fst (sent_data s ty data sz), m_sz = sent_sz ty sz\<rparr> s2"
        "server_inv s2 R W N Z" "grow 1 s1 s2" "same_frame s1 s2" by blast
      have "quiet 1 s1 R W N Z s2" using s2(3-5) push_result_grown [OF s2(2)] by (simp add: quiet_def)
      then show ?thesis using s1(1,5) True False rt rem s2(1)
        by (auto simp: skynet_send_def wp_simps intro!: lift quiet_free)
    qed
  qed
qed

text \<open>The effect of a send to a service of this node.\<close>

lemma send_local:
  assumes inv: "server_inv s R W N Z" and n: "net_ok s" "room 1 s"
    and a: "send_args s ctx source ty session data sz" "sz_mask sz = sz"
    and d: "destination \<noteq> 0" "\<not> remote s destination"
  defines "m \<equiv> \<lparr>m_source = sent_source s ctx source, m_session = sent_session s ctx ty session,
      m_data = fst (sent_data s ty data sz), m_sz = sent_sz ty sz\<rparr>"
  shows "\<exists>s'. skynet_send ho s ctx source destination ty session data sz =
      Some (s', if mailbox_of s destination = None then -1 else m_session m) \<and>
    sv_mem s' = snd (sent_data s ty data sz) \<and>
    (case mailbox_of s destination of
       None \<Rightarrow> mbox s' = mbox s \<and> sv_freed s' = sv_freed s @ (if m_data m = 0 then [] else [m_data m])
     | Some q \<Rightarrow> \<exists>xs. mbox s q = Some (destination, False, xs) \<and>
         mbox s' = (mbox s)(q \<mapsto> (destination, False, xs @ [m])) \<and> sv_freed s' = sv_freed s)"
proof -
  from filter_spec [OF inv a] obtain s1 where
    s1: "filter_args s ctx ty session data sz = Some (s1, m_session m, m_data m, m_sz m)"
      "server_inv s1 R W N Z" "core_frame s s1" "sv_mq s1 = sv_mq s" "sv_freed s1 = sv_freed s"
      "sv_mem s1 = snd (sent_data s ty data sz)" "send_source s1 ctx source = Some (m_source m)"
    by (auto simp: m_def)
  have r1: "room 1 s1" using n(2) room_frame [of s1 s] s1(4) by simp
  have n1: "net_ok s1" using core_frame_net [OF s1(3)] n(1) by simp
  have rem: "skynet_harbor_message_isremote s1 destination = Some False"
    using isremote_eq [of s1 destination] n1 s1(3) d(2) by (simp add: net_ok_def remote_def core_frame_def)
  have mo: "mailbox_of s1 destination = mailbox_of s destination" by (rule core_frame_mailbox [OF s1(3)])
  from push_context_spec [OF s1(2) r1, of ho destination m] obtain s2 where
    s2: "skynet_context_push ho s1 destination m = Some (s2, if mailbox_of s destination = None then -1 else 0)"
      "push_result s1 destination m s2" unfolding mo by blast
  have m': "\<lparr>m_source = m_source m, m_session = m_session m, m_data = m_data m, m_sz = m_sz m\<rparr> = m" by simp
  show ?thesis
  proof (cases "mailbox_of s destination")
    case None
    then have e: "s2 = s1" using s2(2) mo by (simp add: push_result_def)
    have "skynet_send ho s ctx source destination ty session data sz = Some (skynet_free s1 (m_data m), -1)"
      using s1(1,7) a(2) d rem s2(1) None e by (simp add: skynet_send_def m')
    then show ?thesis using None s1(4-6) by (intro exI [of _ "skynet_free s1 (m_data m)"]) (simp add: skynet_free_def)
  next
    case (Some q)
    then obtain xs mq where q: "mbox s1 q = Some (destination, False, xs)" "s2 = s1\<lparr>sv_mq := mq\<rparr>"
      "mq_view mq = (mbox s1)(q \<mapsto> (destination, False, xs @ [m]))"
      using s2(2) mo by (auto simp: push_result_def)
    have "skynet_send ho s ctx source destination ty session data sz = Some (s2, m_session m)"
      using s1(1,7) a(2) d rem s2(1) Some by (simp add: skynet_send_def m')
    then show ?thesis using Some s1(4-6) q by (intro exI [of _ s2]) simp
  qed
qed

lemma sendname_spec:
  assumes inv: "server_inv s R W N Z" and n: "net_ok s" "room 1 s"
    and a: "send_args s ctx source ty session data sz" and t: "invalid_type (word_of_int (ty AND 0xff))"
  shows "wp (skynet_sendname ho s ctx source addr ty session data sz) (\<lambda>r. step_ok 1 s R W N Z (fst r))"
proof -
  have src: "send_source s ctx source = Some (sent_source s ctx source)"
    using a by (auto simp: send_source_def sent_source_def send_args_def handle_of_def split: option.splits)
  have a': "send_args s ctx (sent_source s ctx source) ty session data sz" using a by (simp add: send_args_def)
     (metis option.distinct(1) sent_source_def)
  have t': "remote_type_ok s h ty" for h using t by (simp add: remote_type_ok_def)
  note snd = send_spec [OF inv n a' t', of ho]
  consider "char0 addr = 58" | "char0 addr = 46" | (other) "char0 addr \<noteq> 58" "char0 addr \<noteq> 46" by blast
  then show ?thesis
  proof cases
    case 1
    then show ?thesis using src snd by (simp add: skynet_sendname_def)
  next
    case 2
    have "step_ok 1 s R W N Z (free_dontcopy s ty data)"
      using quiet_step [OF quiet_free(2) [OF quiet_refl [OF inv]] n(1)] by simp
    then show ?thesis using 2 src snd by (simp add: skynet_sendname_def wp_simps Let_def)
  next
    case other
    show ?thesis
    proof (cases "sz_mask sz = sz")
      case False
      then show ?thesis using too_large_spec [OF inv n a, of ho] src other by (simp add: skynet_sendname_def)
    next
      case True
      from filter_spec [OF inv a True] obtain s1 where
        s1: "filter_args s ctx ty session data sz =
            Some (s1, sent_session s ctx ty session, fst (sent_data s ty data sz), sent_sz ty sz)"
          "server_inv s1 R W N Z" "core_frame s s1" "sv_mq s1 = sv_mq s" by blast
      have r1: "room 1 s1" using n(2) room_frame [of s1 s] s1(4) by simp
      have n1: "net_ok s1" using core_frame_net [OF s1(3)] n(1) by simp
      let ?rm = "\<lparr>rm_name = copy_name addr, rm_handle = 0, rm_message = fst (sent_data s ty data sz),
          rm_sz = sz_mask (sent_sz ty sz), rm_type = sz_type (sent_sz ty sz)\<rparr>"
      have "wp (skynet_harbor_send s1 ?rm (sent_source s ctx source) (sent_session s ctx ty session)) (quiet 1 s1 R W N Z)"
        by (rule harbor_send_spec [OF s1(2) n1 r1]) (use t sent_sz_parts [OF True] in simp)
      then obtain s2 where s2: "skynet_harbor_send s1 ?rm (sent_source s ctx source) (sent_session s ctx ty session) = Some s2"
        "quiet 1 s1 R W N Z s2" by (auto simp: wp_iff)
      then show ?thesis
        using src other True s1(1) quiet_from_core [OF s1(3,4) n(1) s2(2)] by (simp add: skynet_sendname_def wp_simps)
    qed
  qed
qed

end
