(* ===== verification/Services.thy ===== *)
theory Services
  imports ServerInv
begin

text \<open>
  Retiring, launching, commanding and dispatching services keeps the invariant of \<open>ServerInv\<close>, does not
  fault, and adds a bounded number of messages to a mailbox; with the properties of \<open>Server\<close>.
\<close>

declare One_nat_def [simp del]

lemma stable_back:
  "stable s s' \<Longrightarrow> c < length (sv_ctx s) \<Longrightarrow> ctx_at s' c = Some x' \<Longrightarrow> \<exists>x. ctx_at s c = Some x \<and> same_core x x'"
  unfolding stable_def by blast

lemma stable_unlisted: "stable s s' \<Longrightarrow> c < length (sv_ctx s) \<Longrightarrow> c \<notin> live (sv_handles s) \<Longrightarrow> c \<notin> live (sv_handles s')"
  unfolding stable_def by blast

section \<open>Retiring a service\<close>

text \<open>Giving back a reference that was taken.\<close>

lemma release_back:
  assumes "host_ok ho b" "server_inv s (R(c := R c + 1)) W N Z" "net_ok s" "room b s" "0 \<le> R c"
  obtains s' alive where "skynet_context_release ho s c = Some (s', alive)" "step_ok b s R W N Z s'"
    "alive \<longleftrightarrow> ctx_at s' c \<noteq> None"
    "\<And>x. \<not> alive \<Longrightarrow> ctx_at s c = Some x \<Longrightarrow> \<exists>xs. mbox s' (c_queue x) = Some (c_handle x, True, xs)"
proof -
  have R: "(R(c := R c + 1))(c := (R(c := R c + 1)) c - 1) = R" by (simp add: fun_upd_idem)
  have "0 < (R(c := R c + 1)) c" using assms(5) by simp
  then show thesis using release_spec [OF assms(1-4), of c] that unfolding R wp_iff by auto
qed

lemma live_retired:
  assumes inv: "slots_inv ch s" and il: "i < length (h_slot s)" "h_slot s ! i = Some c"
    and s': "h_slot s' = (h_slot s)[i := None]"
  shows "live s' = live s - {c}"
proof -
  have "d \<in> live s' \<longleftrightarrow> (\<exists>j<length (h_slot s). j \<noteq> i \<and> h_slot s ! j = Some d)" for d
    using il by (auto simp: live_def in_set_conv_nth nth_list_update s')
  moreover have "(\<exists>j<length (h_slot s). j \<noteq> i \<and> h_slot s ! j = Some d) \<longleftrightarrow> d \<in> live s \<and> d \<noteq> c" for d
    using inv il by (auto simp: live_def in_set_conv_nth slots_inv_def)
  ultimately show ?thesis by blast
qed

text \<open>The reference of the table becomes one that is held by the running code.\<close>

lemma server_inv_unlist:
  assumes inv: "server_inv s R W N Z" and c: "c \<in> live (sv_handles s)"
    and hs: "slots_inv (handle_of s) hs" "names_inv hs" "live hs = live (sv_handles s) - {c}"
  shows "server_inv (s\<lparr>sv_handles := hs\<rparr>) (R(c := R c + 1)) W N Z"
proof (rule server_invI)
  let ?s = "s\<lparr>sv_handles := hs\<rparr>"
  have at: "ctx_at ?s = ctx_at s" by (simp add: ctx_at_def fun_eq_iff)
  have r: "refs ?s (R(c := R c + 1)) = refs s R" using c by (auto simp: refs_def hs(3) fun_eq_iff)
  have h: "handle_of ?s = handle_of s" by (simp add: handle_of_def at fun_eq_iff)
  have cs: "contexts ?s = contexts s" by (simp add: contexts_def at)
  show "slots_inv (handle_of ?s) (sv_handles ?s)" "names_inv (sv_handles ?s)" using hs h by simp_all
  show "mq_held (sv_mq ?s) (W \<union> N)" "W \<inter> N = {}" using server_invD(3,4) [OF inv] by simp_all
  show "0 \<le> (R(c := R c + 1)) d" for d using server_invD(5) [OF inv, of c] server_invD(5) [OF inv, of d] by simp
  show "ctx_ok ?s (R(c := R c + 1)) N Z d x" if "ctx_at ?s d = Some x" for d x
    using server_invD(6) [OF inv, of d x] that by (simp add: ctx_ok_def r at hs(3))
  show "refs ?s (R(c := R c + 1)) d = 0 \<and> d \<notin> Z" if "ctx_at ?s d = None" for d
    using server_invD(7) [OF inv, of d] that by (simp add: r at)
  show "d = e" if "ctx_at ?s d = Some x" "ctx_at ?s e = Some y" "c_queue x = c_queue y" for d e x y
    using server_invD(8) [OF inv, of d x e y] that by (simp add: at)
  show "h \<noteq> 0" if "mbox ?s p = Some (h, r, xs)" for p h r xs using server_invD(9) [OF inv, of p h r xs] that by simp
  show "sv_total ?s = int (card (contexts ?s)) - of_bool (sv_remote ?s \<noteq> None)"
    using server_invD(10) [OF inv] by (simp add: cs)
  show "p = c_queue x" if "d \<in> live (sv_handles ?s)" "ctx_at ?s d = Some x" "mbox ?s p = Some (c_handle x, r, xs)" for d x p r xs
    using server_invD(11) [OF inv, of d x p r xs] that by (simp add: at hs(3))
qed

text \<open>The services of other contexts are as before.\<close>

lemma grab_listed: "server_inv s R W N Z \<Longrightarrow>
  skynet_handle_grab (handle_of s) (sv_handles s) h = Some c \<longleftrightarrow> c \<in> live (sv_handles s) \<and> handle_of s c = h"
  using grab_iff server_invD(1) by blast

lemma retire_spec:
  assumes ho: "host_ok ho b" and inv: "server_inv s R W N Z" and n: "net_ok s" "room b s"
  obtains s' where
    "handle_retire ho s h = Some (s', of_bool (skynet_handle_grab (handle_of s) (sv_handles s) h \<noteq> None))"
    "step_ok b s R W N Z s'"
    "\<And>c x. ctx_at s c = Some x \<Longrightarrow> c_handle x = h \<Longrightarrow> c \<notin> live (sv_handles s')"
    "skynet_handle_grab (handle_of s) (sv_handles s) h = None \<Longrightarrow> s' = s"
    "\<And>c x. skynet_handle_grab (handle_of s) (sv_handles s) h = Some c \<Longrightarrow> ctx_at s' c = None \<Longrightarrow>
       ctx_at s c = Some x \<Longrightarrow> \<exists>xs. mbox s' (c_queue x) = Some (c_handle x, True, xs)"
proof (cases "skynet_handle_grab (handle_of s) (sv_handles s) h")
  case None
  have "handle_retire ho s h = Some (s, 0)"
    using retire_miss [OF None] by (simp add: handle_retire_def)
  moreover have "c \<notin> live (sv_handles s)" if "ctx_at s c = Some x" "c_handle x = h" for c x
    using grab_listed [OF inv, of h c] None that by (simp add: handle_of_def)
  ultimately show thesis using that [of s] None inv n by (simp add: step_ok_def)
next
  case (Some c)
  note g = grab_listed [OF inv, of h c]
  have c: "c \<in> live (sv_handles s)" "handle_of s c = h" using g Some by auto
  from retire_hit [OF server_invD(1,2) [OF inv] Some] obtain hs where
    hs: "skynet_handle_retire (handle_of s) (sv_handles s) h = (hs, 1, Some c)" "slots_inv (handle_of s) hs" "names_inv hs"
      "h_slot hs = (h_slot (sv_handles s))[slot_hash (h_slot (sv_handles s)) h := None]" by blast
  obtain k where k: "length (h_slot (sv_handles s)) = 2 ^ k" using server_invD(1) [OF inv] by (auto simp: slots_inv_def)
  have sl: "h_slot (sv_handles s) ! slot_hash (h_slot (sv_handles s)) h = Some c"
    using Some by (auto simp: skynet_handle_grab_def split: option.splits if_splits)
  have lv: "live hs = live (sv_handles s) - {c}"
    by (rule live_retired [OF server_invD(1) [OF inv] slot_hash_less [OF k] sl hs(4)])
  let ?s1 = "s\<lparr>sv_handles := hs\<rparr>" and ?R = "R(c := R c + 1)"
  have i1: "server_inv ?s1 ?R W N Z" by (rule server_inv_unlist [OF inv c(1) hs(2,3) lv])
  have n1: "net_ok ?s1" "room b ?s1" using n room_frame [of ?s1 s] by (simp_all add: net_ok_def)
  have st: "stable s ?s1" by (auto simp: stable_def ctx_at_def lv)
  obtain s2 al where
    s2: "skynet_context_release ho ?s1 c = Some (s2, al)" "step_ok b ?s1 R W N Z s2"
    "al \<longleftrightarrow> ctx_at s2 c \<noteq> None" "\<And>x. \<not> al \<Longrightarrow> ctx_at ?s1 c = Some x \<Longrightarrow> \<exists>xs. mbox s2 (c_queue x) = Some (c_handle x, True, xs)"
    by (rule release_back [OF ho i1 n1 server_invD(5) [OF inv]]) (erule that; blast)
  have at: "ctx_at ?s1 = ctx_at s" by (simp add: ctx_at_def fun_eq_iff)
  have "handle_retire ho s h = Some (s2, 1)" using hs(1) s2(1) by (simp add: handle_retire_def)
  moreover have "step_ok b s R W N Z s2"
  proof -
    have "grow 0 s ?s1" by (rule grow_frame) simp
    then show ?thesis using s2(2) stable_trans [OF st] grow_trans [of 0 s ?s1 b s2] by (simp add: step_ok_def)
  qed
  moreover have "d \<notin> live (sv_handles s2)" if d: "ctx_at s d = Some x" "c_handle x = h" for d x
  proof -
    have "d \<notin> live (sv_handles ?s1)"
      using grab_listed [OF inv, of h d] Some d by (auto simp: handle_of_def lv)
    moreover have "d < length (sv_ctx ?s1)" using ctx_at_lt [OF d(1)] by simp
    ultimately show ?thesis using stable_unlisted [of ?s1 s2 d] s2(2) by (simp add: step_ok_def)
  qed
  ultimately show thesis using that [of s2] Some s2(3,4) unfolding at by simp
qed

section \<open>Dropping a mailbox\<close>

text \<open>A loop whose steps each add at most one message to a mailbox.\<close>

lemma step_foldM:
  assumes "\<And>s x. x \<in> set xs \<Longrightarrow> server_inv s R W N Z \<Longrightarrow> net_ok s \<Longrightarrow> room 1 s \<Longrightarrow> wp (f s x) (step_ok 1 s R W N Z)"
    and "server_inv s R W N Z" "net_ok s" "room (length xs) s"
  shows "wp (foldM f s xs) (step_ok (length xs) s R W N Z)"
  using assms
proof (induction xs arbitrary: s)
  case Nil
  then show ?case by (simp add: wp_simps step_ok_def)
next
  case (Cons x xs)
  have "room 1 s" by (rule room_mono [OF Cons.prems(4)]) simp
  then obtain s1 where s1: "f s x = Some s1" "step_ok 1 s R W N Z s1"
    using Cons.prems(1) [of x s] Cons.prems(2,3) by (auto simp: wp_iff)
  have "room (1 + length xs) s" using Cons.prems(4) by (simp add: One_nat_def)
  then have "wp (foldM f s1 xs) (step_ok (length xs) s1 R W N Z)"
    using Cons.IH Cons.prems(1) step_okD [OF s1(2)] by simp
  then obtain s2 where "foldM f s1 xs = Some s2" "step_ok (length xs) s1 R W N Z s2" by (auto simp: wp_iff)
  then show ?case using s1(1) step_ok_trans [OF s1(2)] by (simp add: wp_simps One_nat_def)
qed

lemma type_error: "\<not> tag PTYPE_ERROR PTYPE_TAG_ALLOCSESSION" "\<not> tag PTYPE_ERROR PTYPE_TAG_DONTCOPY"
  "remote_type_ok s h PTYPE_ERROR"
  by (simp_all add: tag_def PTYPE_ERROR_def PTYPE_TAG_ALLOCSESSION_def PTYPE_TAG_DONTCOPY_def remote_type_ok_def
      invalid_type_def PTYPE_SYSTEM_def PTYPE_HARBOR_def)

lemma step_from:
  assumes "same_frame s s0" "sv_mq s0 = sv_mq s" "step_ok k s0 R W N Z s'"
  shows "step_ok k s R W N Z s'"
  using assms stable_trans [OF stable_frame [OF assms(1)]] grow_trans [of 0 s s0 k s'] grow_frame [of s0 s 0]
  by (simp add: step_ok_def)

lemma drop_message_spec:
  assumes inv: "server_inv s R W N Z" and n: "net_ok s" "room 1 s" and h: "handle \<noteq> 0"
  shows "wp (drop_message ho handle s m) (step_ok 1 s R W N Z)"
proof -
  let ?s = "skynet_free s (m_data m)"
  have f: "same_frame s ?s" "sv_mq ?s = sv_mq s" by simp_all
  have "send_args ?s None handle PTYPE_ERROR (m_session m) 0 0"
    using h type_error by (simp add: send_args_def)
  moreover have "net_ok ?s" "room 1 ?s" using n net_ok_frame [OF f(1)] room_frame [of ?s s] by simp_all
  ultimately have "wp (skynet_send ho ?s None handle (m_source m) PTYPE_ERROR (m_session m) 0 0) (\<lambda>r. step_ok 1 ?s R W N Z (fst r))"
    by (intro send_spec [OF server_inv_quiet [OF inv f]] type_error(3))
  then obtain r where "skynet_send ho ?s None handle (m_source m) PTYPE_ERROR (m_session m) 0 0 = Some r" "step_ok 1 ?s R W N Z (fst r)"
    by (auto simp: wp_iff)
  then show ?thesis using h step_from [OF f] by (simp add: drop_message_def wp_simps)
qed

lemma mq_release_spec:
  assumes inv: "server_inv s R W N Z" and n: "net_ok s" "room (mlen s q) s" and h: "handle \<noteq> 0"
    and q: "q \<in> W \<union> N" "\<And>c x. ctx_at s c = Some x \<Longrightarrow> c_queue x = q \<Longrightarrow> c \<in> live (sv_handles s) \<Longrightarrow> c_init x"
  shows "wp (mq_release ho s q handle) (step_ok (mlen s q) s R (W - {q}) (N - {q}) Z)"
proof -
  obtain i r xs where v: "mbox s q = Some (i, r, xs)"
    using mb.held [OF server_invD(3) [OF inv] q(1)] by (metis option.exhaust prod_cases3)
  from mb.release_law [OF server_invD(3) [OF inv] q(1) v] obtain mq where
    mq: "skynet_mq_release (sv_mq s) q = Some (mq, if r then xs else [])" "mq_held mq (W \<union> N - {q})"
      "mq_view mq = (if r then (mbox s)(q := None) else mbox s)" by blast
  let ?s = "s\<lparr>sv_mq := mq\<rparr>" and ?ds = "if r then xs else []"
  have f: "same_frame s ?s" by (simp add: same_frame_def)
  have i1: "server_inv ?s R (W - {q}) (N - {q}) Z"
  proof (rule server_inv_mq [OF inv f])
    have "W - {q} \<union> (N - {q}) = W \<union> N - {q}" by auto
    then show "mq_held (sv_mq ?s) (W - {q} \<union> (N - {q}))" using mq(2) by simp
    show "(W - {q}) \<inter> (N - {q}) = {}" using server_invD(4) [OF inv] by auto
    show "\<exists>ys. mbox ?s (c_queue x) = Some (c_handle x, False, ys)"
      if "mbox s (c_queue x) = Some (c_handle x, False, xs)" for c x xs
      using that v mq(3) by (auto split: if_splits)
    show "\<exists>r' ys. mbox s p = Some (h, r', ys)" if "mbox ?s p = Some (h, r', xs')" for p h r' xs'
      using that mq(3) by (auto split: if_splits)
    show "c_queue x \<in> N - {q}" if "ctx_at s c = Some x" "c \<in> live (sv_handles s)" "\<not> c_init x" for c x
      using server_invD(6) [OF inv that(1)] that q(2) by (auto simp: ctx_ok_def)
  qed
  have l: "length ?ds \<le> mlen s q" using v by simp
  have len: "mlen ?s p \<le> mlen s p" for p using mq(3) by (simp add: mlen_def)
  have g0: "grow 0 s ?s" using len by (simp add: grow_def)
  have n1: "net_ok ?s" "room (length ?ds) ?s"
    using n net_ok_frame [OF f] room_grow [OF _ g0, of "mlen s q"] room_mono [OF _ l] by simp_all
  have "wp (foldM (drop_message ho handle) ?s ?ds) (step_ok (length ?ds) ?s R (W - {q}) (N - {q}) Z)"
    by (rule step_foldM [OF _ i1 n1]) (rule drop_message_spec [OF _ _ _ h])
  then obtain s2 where s2: "foldM (drop_message ho handle) ?s ?ds = Some s2"
    "step_ok (length ?ds) ?s R (W - {q}) (N - {q}) Z s2" by (auto simp: wp_iff)
  have "step_ok (mlen s q) s R (W - {q}) (N - {q}) Z s2"
    using step_ok_mono [OF s2(2) l] stable_trans [OF stable_frame [OF f]] grow_trans [OF g0]
    by (simp add: step_ok_def)
  then show ?thesis using mq(1) s2(1) by (simp add: mq_release_def wp_simps)
qed

section \<open>Launching\<close>

text \<open>
  A service can be launched while a handle is free and no mailbox of an earlier service still has the
  handle that it will get (the handles repeat after \<open>2 ^ 24\<close> registrations).
\<close>

definition launchable :: "server \<Rightarrow> bool" where
  "launchable s \<longleftrightarrow>
     (let hs = sv_handles s in
      (length (h_slot hs) < 2 ^ 24 \<or> (\<exists>j<length (h_slot hs). 0 < j \<and> h_slot hs ! j = None)) \<and>
      (\<forall>hs' h. skynet_handle_register (handle_of s) hs (length (sv_ctx s)) = Some (hs', h) \<longrightarrow>
         (\<forall>p r xs. mbox s p \<noteq> Some (h, r, xs))))"

lemma ctx_at_new: "c = length (sv_ctx s) \<Longrightarrow> ctx_at s c = None"
  by (simp add: ctx_at_def)

lemma new_context_sel [simp]:
  "c_ref (new_context s md inst) = 2" "c_init (new_context s md inst) = False" "c_handle (new_context s md inst) = 0"
  by (simp_all add: new_context_def)

lemma register_context_spec:
  assumes inv: "server_inv s R W N Z" and l: "launchable s"
  shows "\<exists>s' q h. register_context s md inst = Some (s', length (sv_ctx s), q) \<and> q \<notin> W \<union> N \<and>
    server_inv s' (R(length (sv_ctx s) := R (length (sv_ctx s)) + 1)) W (insert q N) Z \<and> R (length (sv_ctx s)) = 0 \<and>
    ctx_at s' = (ctx_at s)(length (sv_ctx s) \<mapsto> (new_context s md inst)\<lparr>c_handle := h, c_queue := q\<rparr>) \<and>
    length (sv_ctx s') = Suc (length (sv_ctx s)) \<and>
    mbox s q = None \<and> mbox s' = (mbox s)(q \<mapsto> (h, False, [])) \<and>
    live (sv_handles s') = insert (length (sv_ctx s)) (live (sv_handles s)) \<and>
    sv_remote s' = sv_remote s \<and> sv_harbor s' = sv_harbor s \<and>
    h \<noteq> 0 \<and> skynet_handle_grab (handle_of s) (sv_handles s) h = None"
proof -
  let ?c = "length (sv_ctx s)"
  let ?s1 = "s\<lparr>sv_ctx := sv_ctx s @ [Some (new_context s md inst)]\<rparr>"
  have none: "ctx_at s ?c = None" by (rule ctx_at_new) simp
  have rz: "refs s R ?c = 0" "?c \<notin> Z" using server_invD(7) [OF inv none] by auto
  then have r0: "R ?c = 0" "?c \<notin> live (sv_handles s)" "sv_remote s \<noteq> Some ?c"
    using server_invD(5) [OF inv, of ?c] by (auto simp: refs_def of_bool_def split: if_splits)
  have at1: "ctx_at ?s1 = (ctx_at s)(?c \<mapsto> new_context s md inst)"
    by (auto simp: ctx_at_def fun_eq_iff nth_append)
  have h1: "handle_of ?s1 = handle_of s" using none by (auto simp: handle_of_def at1 fun_eq_iff)
  obtain hs h where reg: "skynet_handle_register (handle_of s) (sv_handles s) ?c = Some (hs, h)"
    "slots_inv ((handle_of s)(?c := h)) hs" "live hs = insert ?c (live (sv_handles s))"
    "skynet_handle_grab (handle_of s) (sv_handles s) h = None" "handle_ok (sv_handles s) h"
    "h_name hs = h_name (sv_handles s)" "h_name_count hs = h_name_count (sv_handles s)"
    using register_spec [OF server_invD(1) [OF inv] r0(2)] l by (auto simp: launchable_def Let_def)
  have fresh: "mbox s p \<noteq> Some (h, r, xs)" for p r xs
    using l reg(1) unfolding launchable_def Let_def by blast
  have hnz: "h \<noteq> 0" by (rule handle_ok_nonzero [OF reg(5)])
  obtain mq q where mqc: "skynet_mq_create (sv_mq s) h = (mq, q)" by fastforce
  from mb.create_law [OF server_invD(3) [OF inv] mqc]
  have mq: "mq_held mq (insert q (W \<union> N))" "mbox s q = None" "mq_view mq = (mbox s)(q \<mapsto> (h, False, []))" by blast+
  have qn: "q \<notin> W \<union> N" using mb.held [OF server_invD(3) [OF inv]] mq(2) by blast
  let ?x = "(new_context s md inst)\<lparr>c_handle := h, c_queue := q\<rparr>"
  let ?s2 = "?s1\<lparr>sv_handles := hs, sv_mq := mq\<rparr>"
  define s' where "s' = context_inc (?s2\<lparr>sv_ctx := (sv_ctx ?s2)[?c := Some ?x]\<rparr>)"
  have run: "register_context s md inst = Some (s', ?c, q)"
    using reg(1) mqc h1 by (simp add: register_context_def upd_ctx_def ctx_at_def nth_append s'_def)
  have at: "ctx_at s' = (ctx_at s)(?c \<mapsto> ?x)"
    by (auto simp: ctx_at_def context_inc_def fun_eq_iff nth_append nth_list_update s'_def)
  have sel: "sv_handles s' = hs" "sv_mq s' = mq" "sv_remote s' = sv_remote s" "sv_harbor s' = sv_harbor s"
    "sv_total s' = sv_total s + 1" by (simp_all add: context_inc_def s'_def)
  have h': "handle_of s' = (handle_of s)(?c := h)" by (rule ext) (simp add: handle_of_def at)
  have refs': "refs s' (R(?c := R ?c + 1)) d = refs s R d + (if d = ?c then 2 else 0)" for d
    using r0 by (simp add: refs_def sel reg(3))
  have q_other: "c_queue y \<noteq> q" if "ctx_at s d = Some y" for d y
    using server_invD(6) [OF inv that] mq(2) by (auto simp: ctx_ok_def)
  have "server_inv s' (R(?c := R ?c + 1)) W (insert q N) Z"
  proof (rule server_invI)
    show "slots_inv (handle_of s') (sv_handles s')" using reg(2) by (simp add: h' sel)
    show "names_inv (sv_handles s')"
      using server_invD(2) [OF inv] reg(6,7) by (simp add: sel names_inv_def names_of_def)
    show "mq_held (sv_mq s') (W \<union> insert q N)" using mq(1) by (simp add: sel)
    show "W \<inter> insert q N = {}" using server_invD(4) [OF inv] qn by auto
    show "0 \<le> (R(?c := R ?c + 1)) d" for d using server_invD(5) [OF inv, of d] r0(1) by simp
    show "ctx_ok s' (R(?c := R ?c + 1)) (insert q N) Z d y" if "ctx_at s' d = Some y" for d y
    proof (cases "d = ?c")
      case True
      then have "y = ?x" using that at by simp
      then show ?thesis using True rz hnz mq(3) by (simp add: ctx_ok_def refs' sel)
    next
      case False
      then have y: "ctx_at s d = Some y" using that at by simp
      show ?thesis using server_invD(6) [OF inv y] False q_other [OF y] mq(3)
        by (auto simp: ctx_ok_def refs' sel reg(3))
    qed
    show "refs s' (R(?c := R ?c + 1)) d = 0 \<and> d \<notin> Z" if "ctx_at s' d = None" for d
    proof -
      have "d \<noteq> ?c" "ctx_at s d = None" using that at by (auto split: if_splits)
      then show ?thesis using server_invD(7) [OF inv, of d] by (simp add: refs')
    qed
    show "d = e" if "ctx_at s' d = Some y" "ctx_at s' e = Some z" "c_queue y = c_queue z" for d e y z
      using that at server_invD(8) [OF inv, of d y e z] by (auto split: if_splits dest: q_other)
    show "i \<noteq> 0" if "mbox s' p = Some (i, r, xs)" for p i r xs
      using that mq(3) hnz server_invD(9) [OF inv, of p i r xs] by (auto simp: sel split: if_splits)
    have "contexts s' = insert ?c (contexts s)" "?c \<notin> contexts s" using none by (auto simp: contexts_def at)
    then show "sv_total s' = int (card (contexts s')) - of_bool (sv_remote s' \<noteq> None)"
      using server_invD(10) [OF inv] by (simp add: sel)
    show "p = c_queue y" if "d \<in> live (sv_handles s')" "ctx_at s' d = Some y" "mbox s' p = Some (c_handle y, r, xs)" for d y p r xs
    proof (cases "d = ?c")
      case True
      then have "y = ?x" using that(2) at by simp
      then show ?thesis using that(3) mq(3) fresh [of p] by (auto simp: sel split: if_splits)
    next
      case False
      then have y: "ctx_at s d = Some y" "d \<in> live (sv_handles s)" using that at reg(3) by (auto simp: sel)
      have "c_handle y \<noteq> h" using grab_listed [OF inv, of h d] reg(4) y by (auto simp: handle_of_def)
      then have "mbox s p = Some (c_handle y, r, xs)" using that(3) mq(3) by (auto simp: sel split: if_splits)
      then show ?thesis using server_invD(11) [OF inv y(2,1)] by blast
    qed
  qed
  moreover have "length (sv_ctx s') = Suc ?c" by (simp add: context_inc_def s'_def)
  ultimately show ?thesis using run qn r0(1) at mq(2,3) reg(3,4) hnz sel
    by (intro exI [of _ s'] exI [of _ q] exI [of _ h]) simp
qed

text \<open>The mailbox and handle of the context \<open>c\<close> while the code holds it.\<close>

lemma held_kept:
  assumes "step_ok n s R W N Z s'" "ctx_at s c = Some x" "0 < R c"
  shows "\<exists>x'. ctx_at s' c = Some x' \<and> same_core x x'"
  using held_exists [OF step_okD(1) [OF assms(1)] assms(3)] stable_at [OF step_okD(3) [OF assms(1)] assms(2)] by blast

lemma step_quiet:
  assumes "server_inv s R W N Z" "net_ok s" "wp m (quiet k s R W N Z)"
  shows "wp m (step_ok k s R W N Z)"
  using assms quiet_step by (auto simp: wp_iff)

text \<open>A context that is still there has the queue, so \<open>q\<close> belongs to nobody else.\<close>

text \<open>A mailbox that is marked for release belongs to no context.\<close>

lemma marked_free:
  assumes "server_inv s R W N Z" "mbox s q = Some (h, True, xs)"
  shows "ctx_at s c = Some x \<Longrightarrow> c_queue x \<noteq> q" "skynet_handle_grab (handle_of s) (sv_handles s) h = None"
proof -
  show A: "c_queue x \<noteq> q" if "ctx_at s c = Some x" for c x
    using server_invD(6) [OF assms(1) that] assms(2) by (auto simp: ctx_ok_def)
  have False if g: "skynet_handle_grab (handle_of s) (sv_handles s) h = Some d" for d
  proof -
    have d: "d \<in> live (sv_handles s)" "handle_of s d = h" using grab_listed [OF assms(1), of h d] g by auto
    obtain y where y: "ctx_at s d = Some y" using live_exists [OF assms(1) d(1)] by blast
    have "q = c_queue y" using server_invD(11) [OF assms(1) d(1) y] assms(2) d(2) y by (simp add: handle_of_def)
    then show False using A [OF y] by simp
  qed
  then show "skynet_handle_grab (handle_of s) (sv_handles s) h = None"
    by (cases "skynet_handle_grab (handle_of s) (sv_handles s) h") auto
qed

lemma launch_ok_spec:
  assumes ho: "host_ok ho b" and inv: "server_inv s (R(c := R c + 1)) W (insert q N) Z"
    and n: "net_ok s" "room (b + 1) s" and q: "q \<notin> W \<union> N" and R: "0 \<le> R c"
    and x: "ctx_at s c = Some x" "c_queue x = q"
  shows "wp (launch_ok ho s c q nm prm) (\<lambda>r. step_ok (b + 1) s R W N Z (fst r))"
proof -
  have rb: "room b s" by (rule room_mono [OF n(2)]) simp
  obtain s1 ret where
    s1: "skynet_context_release ho s c = Some (s1, ret)" "step_ok b s R W (insert q N) Z s1"
      "ret \<longleftrightarrow> ctx_at s1 c \<noteq> None"
      "\<And>x. \<not> ret \<Longrightarrow> ctx_at s c = Some x \<Longrightarrow> \<exists>xs. mbox s1 (c_queue x) = Some (c_handle x, True, xs)"
    by (rule release_back [OF ho inv n(1) rb R]) (erule that; blast)
  obtain s2 where s2: "(if ret then upd_ctx s1 c (\<lambda>x. x\<lparr>c_init := True\<rparr>) else Some s1) = Some s2"
    "server_inv s2 R W (insert q N) Z" "core_frame s1 s2" "sv_mq s2 = sv_mq s1"
    "\<And>y. ctx_at s2 c = Some y \<Longrightarrow> c_init y"
  proof (cases ret)
    case False
    then show thesis using that [of s1] s1(2,3) core_frame_same [of s1 s1] by (simp add: step_ok_def)
  next
    case True
    then obtain y where y: "ctx_at s1 c = Some y" using s1(3) by auto
    let ?y = "y\<lparr>c_init := True\<rparr>"
    have core: "same_core y ?y" by (simp add: same_core_def)
    show thesis
      by (rule that [of "put_ctx s1 c ?y"])
        (use True y server_inv_upd [OF step_okD(1) [OF s1(2)] y core] core_frame_put [OF y core] in \<open>simp_all add: upd_ctx_Some\<close>)
  qed
  have st2: "stable s s2" using stable_trans [OF step_okD(3) [OF s1(2)] core_frame_stable [OF s2(3)]] .
  from mb.put_law [OF server_invD(3) [OF s2(2)], of q] obtain mq where
    mq: "globalmq_push (sv_mq s2) q = Some mq" "mq_held mq (W \<union> insert q N - {q})" "mq_view mq = mbox s2" by auto
  have d: "W \<union> insert q N - {q} = W \<union> N" using q by auto
  let ?s3 = "s2\<lparr>sv_mq := mq\<rparr>"
  have f3: "same_frame s2 ?s3" by (simp add: same_frame_def)
  have i3: "server_inv ?s3 R W N Z"
  proof (rule server_inv_mq [OF s2(2) f3])
    show "mq_held (sv_mq ?s3) (W \<union> N)" using mq(2) d by simp
    show "W \<inter> N = {}" using server_invD(4) [OF s2(2)] by auto
    show "c_queue y \<in> N" if y: "ctx_at s2 e = Some y" "e \<in> live (sv_handles s2)" "\<not> c_init y" for e y
    proof -
      have "c_queue y \<noteq> q"
      proof (cases ret)
        case False
        then obtain xs where "mbox s1 q = Some (c_handle x, True, xs)" using s1(4) x by blast
        then show ?thesis using marked_free(1) [OF s2(2) _ y(1), of q "c_handle x" xs] s2(4) by simp
      next
        case True
        then obtain z where z: "ctx_at s1 c = Some z" using s1(3) by auto
        then obtain w where w: "ctx_at s2 c = Some w" "same_core z w" using core_frame_ctx [OF s2(3)] by blast
        have "c_queue w = q" using stable_at [OF step_okD(3) [OF s1(2)] x(1) z] w(2) x(2) by (simp add: same_core_def)
        moreover have "e \<noteq> c" using y(1,3) s2(5) by auto
        ultimately show ?thesis using server_invD(8) [OF s2(2) y(1) w(1)] by auto
      qed
      then show ?thesis using server_invD(6) [OF s2(2) y(1)] y by (auto simp: ctx_ok_def)
    qed
  qed (use mq(3) in auto)
  have m3: "mlen ?s3 = mlen s1" by (rule mlen_frame) (simp add: mq(3) s2(4))
  have g3: "grow b s ?s3" using step_okD(4) [OF s1(2)] by (simp add: grow_def m3)
  have st3: "stable s ?s3" using stable_trans [OF st2 stable_frame [OF f3]] .
  have n3: "net_ok ?s3" using core_frame_net [OF s2(3)] step_okD(2) [OF s1(2)] net_ok_frame [OF f3] by simp
  have k3: "step_ok b s R W N Z ?s3" using i3 n3 st3 g3 by (simp add: step_ok_def)
  show ?thesis
  proof (cases ret)
    case False
    then show ?thesis using s1(1) s2(1) mq(1) step_ok_mono [OF k3, of "b + 1"] by (simp add: launch_ok_def wp_simps)
  next
    case True
    let ?txt = "str ''LAUNCH '' @ nm @ str '' '' @ (case prm of None \<Rightarrow> [] | Some p \<Rightarrow> p)"
    have "ctx_at ?s3 c \<noteq> None" using True s1(3) core_frame_none [OF s2(3), of c] same_frame_ctx [OF f3] by simp
    then have "wp (skynet_error ho ?s3 (Some c) ?txt) (quiet 1 ?s3 R W N Z)"
      by (intro error_spec [OF i3 room_grow [OF n(2) g3]]) simp
    then obtain s4 where s4: "skynet_error ho ?s3 (Some c) ?txt = Some s4" "step_ok 1 ?s3 R W N Z s4"
      using quiet_step [OF _ n3] by (auto simp: wp_iff)
    then show ?thesis using True s1(1) s2(1) mq(1) step_ok_trans [OF k3 s4(2)] by (simp add: launch_ok_def wp_simps)
  qed
qed

lemma launch_failed_spec:
  assumes ho: "host_ok ho b" and inv: "server_inv s (R(c := R c + 1)) W (insert q N) Z"
    and n: "net_ok s" "room (mlen s q + 2 * (2 * b + 1)) s" and q: "q \<notin> W \<union> N" and R: "0 \<le> R c"
    and x: "ctx_at s c = Some x" "c_queue x = q"
  shows "wp (launch_failed ho s c q nm) (\<lambda>r. step_ok (mlen s q + 2 * (2 * b + 1)) s R W N Z (fst r))"
proof -
  have "wp (skynet_error ho s (Some c) (str ''FAILED launch '' @ nm)) (quiet 1 s (R(c := R c + 1)) W (insert q N) Z)"
    by (rule error_spec [OF inv room_mono [OF n(2)]]) (use x in simp_all)
  then obtain s1 where s1: "skynet_error ho s (Some c) (str ''FAILED launch '' @ nm) = Some s1"
    "quiet 1 s (R(c := R c + 1)) W (insert q N) Z s1" by (auto simp: wp_iff)
  have k1: "step_ok 1 s (R(c := R c + 1)) W (insert q N) Z s1" by (rule quiet_step [OF s1(2) n(1)])
  have x1: "ctx_at s1 c = Some x" using s1(2) x(1) same_frame_ctx [of s s1] by (simp add: quiet_def)
  have r1: "room (mlen s q + (4 * b + 1)) s1"
    by (rule step_okD(5) [OF k1]) (use n(2) in \<open>simp add: algebra_simps\<close>)
  have r1b: "room b s1" by (rule room_mono [OF r1]) simp
  obtain s2 al where
    s2: "skynet_context_release ho s1 c = Some (s2, al)" "step_ok b s1 R W (insert q N) Z s2"
      "al \<longleftrightarrow> ctx_at s2 c \<noteq> None"
      "\<And>x. \<not> al \<Longrightarrow> ctx_at s1 c = Some x \<Longrightarrow> \<exists>xs. mbox s2 (c_queue x) = Some (c_handle x, True, xs)"
    by (rule release_back [OF ho step_okD(1,2) [OF k1] r1b R]) (erule that; blast)
  have r2: "room (mlen s q + (3 * b + 1)) s2"
    by (rule step_okD(5) [OF s2(2)]) (use r1 in \<open>simp add: algebra_simps\<close>)
  have r2b: "room b s2" by (rule room_mono [OF r2]) simp
  let ?g = "skynet_handle_grab (handle_of s2) (sv_handles s2) (c_handle x)"
  obtain s3 where s3: "handle_retire ho s2 (c_handle x) = Some (s3, of_bool (?g \<noteq> None))"
    "step_ok b s2 R W (insert q N) Z s3"
    "\<And>c' x'. ctx_at s2 c' = Some x' \<Longrightarrow> c_handle x' = c_handle x \<Longrightarrow> c' \<notin> live (sv_handles s3)"
    "?g = None \<Longrightarrow> s3 = s2"
    "\<And>c y. ?g = Some c \<Longrightarrow> ctx_at s3 c = None \<Longrightarrow> ctx_at s2 c = Some y \<Longrightarrow> \<exists>xs. mbox s3 (c_queue y) = Some (c_handle y, True, xs)"
    by (rule retire_spec [OF ho step_okD(1,2) [OF s2(2)] r2b]) (erule that; blast)
  note i3 = step_okD(1) [OF s3(2)]
  have own: "c_init y" if y: "ctx_at s3 e = Some y" "c_queue y = q" "e \<in> live (sv_handles s3)" for e y
  proof -
    have False
    proof (cases "ctx_at s3 c")
      case (Some x3)
      have st: "stable s1 s3" using stable_trans [OF step_okD(3) [OF s2(2)] step_okD(3) [OF s3(2)]] .
      have "same_core x x3" by (rule stable_at [OF st x1 Some])
      then have "e = c" using server_invD(8) [OF i3 y(1) Some] y(2) x(2) by (simp add: same_core_def)
      moreover have "c < length (sv_ctx s2)"
        using step_okD(3) [OF s2(2)] ctx_at_lt [OF x1] unfolding stable_def by linarith
      then obtain x2 where x2: "ctx_at s2 c = Some x2" using stable_back [OF step_okD(3) [OF s3(2)] _ Some] by blast
      moreover have "c_handle x2 = c_handle x" using stable_at [OF step_okD(3) [OF s2(2)] x1 x2] by (simp add: same_core_def)
      ultimately show False using s3(3) [OF x2] y(3) by simp
    next
      case None
      have "\<exists>xs. mbox s3 q = Some (c_handle x, True, xs)"
      proof (cases al)
        case False
        then obtain xs where xs: "mbox s2 q = Some (c_handle x, True, xs)" using s2(4) x1 x(2) by blast
        then have "s3 = s2" using s3(4) marked_free(2) [OF step_okD(1) [OF s2(2)] xs] by simp
        then show ?thesis using xs by simp
      next
        case True
        then obtain x2 where x2: "ctx_at s2 c = Some x2" using s2(3) by auto
        have c2: "same_core x x2" by (rule stable_at [OF step_okD(3) [OF s2(2)] x1 x2])
        obtain d where d: "?g = Some d" using s3(4) None x2 by (cases ?g) auto
        have dl: "d \<in> live (sv_handles s2)" "handle_of s2 d = c_handle x"
          using grab_listed [OF step_okD(1) [OF s2(2)], of "c_handle x" d] d by auto
        obtain z where z: "ctx_at s2 d = Some z" using live_exists [OF step_okD(1) [OF s2(2)] dl(1)] by blast
        obtain xs where "mbox s2 q = Some (c_handle z, False, xs)"
          using server_invD(6) [OF step_okD(1) [OF s2(2)] x2] c2 dl(2) z x(2) by (auto simp: ctx_ok_def same_core_def handle_of_def)
        then have "c_queue z = q" using server_invD(11) [OF step_okD(1) [OF s2(2)] dl(1) z] by simp
        then have "d = c" using server_invD(8) [OF step_okD(1) [OF s2(2)] z x2] c2 x(2) by (simp add: same_core_def)
        then show ?thesis using s3(5) [of c x2] d None x2 c2 x(2) by (simp add: same_core_def)
      qed
      then show False using marked_free(1) [OF i3 _ y(1)] y(2) by blast
    qed
    then show ?thesis ..
  qed
  have ml: "mlen s3 q \<le> mlen s q + (2 * b + 1)"
    using step_okD(4) [OF k1] step_okD(4) [OF s2(2)] step_okD(4) [OF s3(2)] unfolding grow_def
    by (smt (verit) add.assoc add.commute mult_2 add_le_mono le_refl order_trans)
  have r3: "room (mlen s q + (2 * b + 1)) s3"
    by (rule step_okD(5) [OF s3(2)]) (use r2 in \<open>simp add: algebra_simps\<close>)
  have hz: "c_handle x \<noteq> 0" using server_invD(6) [OF inv x(1)] by (simp add: ctx_ok_def)
  have qi: "q \<in> W \<union> insert q N" by simp
  have "wp (mq_release ho s3 q (c_handle x)) (step_ok (mlen s3 q) s3 R (W - {q}) (insert q N - {q}) Z)"
    by (rule mq_release_spec [OF i3 step_okD(2) [OF s3(2)] room_mono [OF r3 ml] hz qi]) (rule own)
  then obtain s4 where
    s4: "mq_release ho s3 q (c_handle x) = Some s4" "step_ok (mlen s3 q) s3 R (W - {q}) (insert q N - {q}) Z s4"
    unfolding wp_iff by blast
  have "W - {q} = W" "insert q N - {q} = N" using q by auto
  then have k4: "step_ok (mlen s q + (2 * b + 1)) s3 R W N Z s4" using step_ok_mono [OF s4(2) ml] by simp
  have "step_ok (1 + b + b + (mlen s q + (2 * b + 1))) s R W N Z s4"
    by (rule step_ok_trans [OF step_ok_trans [OF step_ok_trans [OF k1 s2(2)] s3(2)] k4])
  then have "step_ok (mlen s q + 2 * (2 * b + 1)) s R W N Z s4" by (simp add: algebra_simps)
  then show ?thesis using s1(1) x1 s2(1) s3(1) s4(1) by (simp add: launch_failed_def wp_simps)
qed

lemma context_new_spec:
  assumes ho: "host_ok ho b" and inv: "server_inv s R W N Z" and l: "launchable s"
    and n: "net_ok s" "room (6 * b + 2) s"
  shows "wp (skynet_context_new ho s nm prm) (\<lambda>r. step_ok (6 * b + 2) s R W N Z (fst r))"
proof (cases "ho_query ho nm")
  case None
  then show ?thesis using inv n by (simp add: skynet_context_new_def wp_simps step_ok_def)
next
  case (Some md)
  note md = Some
  show ?thesis
  proof (cases "ho_create ho md")
    case None
    then show ?thesis using inv n md by (simp add: skynet_context_new_def wp_simps step_ok_def)
  next
    case (Some inst)
    let ?c = "length (sv_ctx s)"
    let ?R = "R(?c := R ?c + 1)"
    obtain s1 q h where s1: "register_context s md inst = Some (s1, ?c, q)" "q \<notin> W \<union> N"
      "server_inv s1 ?R W (insert q N) Z" "R ?c = 0"
      "ctx_at s1 = (ctx_at s)(?c \<mapsto> (new_context s md inst)\<lparr>c_handle := h, c_queue := q\<rparr>)"
      "length (sv_ctx s1) = Suc ?c" "mbox s q = None" "mbox s1 = (mbox s)(q \<mapsto> (h, False, []))"
      "live (sv_handles s1) = insert ?c (live (sv_handles s))" "sv_remote s1 = sv_remote s" "sv_harbor s1 = sv_harbor s"
      using register_context_spec [OF inv l, of md inst] by blast
    have n1: "net_ok s1" using n(1) s1(10,11) by (simp add: net_ok_def)
    have ml: "mlen s1 = mlen s" using s1(7,8) by (auto simp: mlen_def fun_eq_iff)
    have g1: "grow 0 s s1" by (simp add: grow_def ml)
    have st1: "stable s s1" using s1(5,6,9) by (auto simp: stable_def)
    have r1: "room (6 * b + 2) s1" using n(2) by (simp add: room_def ml)
    have Rc: "0 < ?R ?c" using s1(4) by simp
    have "wp (ho_init ho md inst ?c prm s1) (\<lambda>r. step_ok b s1 ?R W (insert q N) Z (fst r))"
      by (rule host_okD(1) [OF ho s1(3) n1 room_mono [OF r1] Rc]) simp
    then obtain s2 r where s2: "ho_init ho md inst ?c prm s1 = Some (s2, r)" "step_ok b s1 ?R W (insert q N) Z s2"
      unfolding wp_iff split_paired_Ex fst_conv by blast
    obtain x where x: "ctx_at s2 ?c = Some x" "c_queue x = q"
      using held_kept [OF s2(2) _ Rc] s1(5) by (auto simp: same_core_def)
    have lift: "step_ok (6 * b + 2) s R W N Z s'" if "step_ok k s2 R W N Z s'" "k \<le> 5 * b + 2" for k s'
    proof -
      have "stable s s'" using stable_trans [OF st1 stable_trans [OF step_okD(3) [OF s2(2)] step_okD(3) [OF that(1)]]] .
      moreover have "grow (0 + (b + k)) s s'" using grow_trans [OF g1 grow_trans [OF step_okD(4) [OF s2(2)] step_okD(4) [OF that(1)]]] .
      then have "grow (6 * b + 2) s s'" by (rule grow_mono) (use that(2) in simp)
      ultimately show ?thesis using that(1) by (simp add: step_ok_def)
    qed
    have r2: "room (5 * b + 2) s2" by (rule step_okD(5) [OF s2(2)]) (use r1 in \<open>simp add: algebra_simps\<close>)
    have ri: "0 \<le> R ?c" using s1(4) by simp
    show ?thesis
    proof (cases "r = 0")
      case True
      have "wp (launch_ok ho s2 ?c q nm prm) (\<lambda>r. step_ok (b + 1) s2 R W N Z (fst r))"
        by (rule launch_ok_spec [OF ho step_okD(1,2) [OF s2(2)] room_mono [OF r2] s1(2) ri x]) simp
      then obtain u where u: "launch_ok ho s2 ?c q nm prm = Some u" "step_ok (b + 1) s2 R W N Z (fst u)"
        by (auto simp: wp_iff)
      show ?thesis using md Some s1(1) s2(1) True u(1) lift [OF u(2)] by (simp add: skynet_context_new_def wp_simps)
    next
      case False
      have m2: "mlen s2 q \<le> b" using step_okD(4) [OF s2(2)] s1(7) ml
        by (auto simp: grow_def mlen_def dest: spec [of _ q])
      have "wp (launch_failed ho s2 ?c q nm) (\<lambda>r. step_ok (mlen s2 q + 2 * (2 * b + 1)) s2 R W N Z (fst r))"
        by (rule launch_failed_spec [OF ho step_okD(1,2) [OF s2(2)] room_mono [OF r2] s1(2) ri x]) (use m2 in simp)
      then obtain u where u: "launch_failed ho s2 ?c q nm = Some u" "step_ok (mlen s2 q + 2 * (2 * b + 1)) s2 R W N Z (fst u)"
        by (auto simp: wp_iff)
      show ?thesis using md Some s1(1) s2(1) False u(1) m2 lift [OF u(2)] by (simp add: skynet_context_new_def wp_simps)
    qed
  qed
qed

end
