(* ===== verification/Commands.thy ===== *)
theory Commands
  imports Services
begin

text \<open>
  The commands of \<open>skynet_command\<close> and the dispatching of messages: no fault, the invariant of
  \<open>ServerInv\<close>, and a bound on the messages that are sent.
\<close>

declare One_nat_def [simp del]

section \<open>Steps\<close>

lemma step_refl: "server_inv s R W N Z \<Longrightarrow> net_ok s \<Longrightarrow> step_ok n s R W N Z s"
  by (simp add: step_ok_def)

lemma frame_step:
  "server_inv s R W N Z \<Longrightarrow> net_ok s \<Longrightarrow> same_frame s s' \<Longrightarrow> sv_mq s' = sv_mq s \<Longrightarrow> step_ok n s R W N Z s'"
  using server_inv_quiet [of s R W N Z s'] net_ok_frame [of s s'] stable_frame [of s s'] grow_frame [of s' s n]
  by (simp add: step_ok_def)

lemma step_bind:
  assumes "wp m (\<lambda>r. step_ok j s R W N Z (f r))"
    and "\<And>r. m = Some r \<Longrightarrow> step_ok j s R W N Z (f r) \<Longrightarrow> wp (g r) (\<lambda>r'. step_ok k (f r) R W N Z (h r'))"
  shows "wp (Option.bind m g) (\<lambda>r'. step_ok (j + k) s R W N Z (h r'))"
proof -
  obtain r where r: "m = Some r" "step_ok j s R W N Z (f r)" using assms(1) by (auto simp: wp_iff)
  obtain r' where "g r = Some r'" "step_ok k (f r) R W N Z (h r')" using assms(2) [OF r] by (auto simp: wp_iff)
  then show ?thesis using r(1) step_ok_trans [OF r(2)] by (simp add: wp_simps)
qed

lemma step_weaken: "wp m (\<lambda>r. step_ok j s R W N Z (f r)) \<Longrightarrow> j \<le> k \<Longrightarrow> wp m (\<lambda>r. step_ok k s R W N Z (f r))"
  using step_ok_mono by (auto simp: wp_iff)

lemma upd_step:
  assumes "server_inv s R W N Z" "net_ok s" "ctx_at s c = Some x" "same_core x (f x)" "c_ref (f x) = c_ref x"
  shows "upd_ctx s c f = Some (put_ctx s c (f x))" "step_ok n s R W N Z (put_ctx s c (f x))"
proof -
  show "upd_ctx s c f = Some (put_ctx s c (f x))" by (rule upd_ctx_Some [OF assms(3)])
  show "step_ok n s R W N Z (put_ctx s c (f x))"
    using server_inv_upd [OF assms(1,3,4,5)] assms(2) stable_put [OF assms(3,4)] grow_frame [of "put_ctx s c (f x)" s n]
    by (simp add: step_ok_def net_ok_def)
qed

lemma error_step:
  assumes "server_inv s R W N Z" "net_ok s" "room 1 s" "\<And>c. ctx = Some c \<Longrightarrow> 0 < R c"
  shows "wp (skynet_error ho s ctx txt) (step_ok 1 s R W N Z)"
  by (rule step_quiet [OF assms(1,2) error_spec [OF assms(1,3)]]) (use assms(4) held_exists [OF assms(1)] in blast)

lemma result_step:
  assumes "server_inv s R W N Z" "net_ok s" "0 < R c" "length txt < 32"
  shows "wp (set_result s c txt) (\<lambda>r. step_ok 0 s R W N Z (fst r))"
proof -
  obtain x where x: "ctx_at s c = Some x" using held_exists [OF assms(1,3)] by blast
  show ?thesis
    using assms(4) upd_step [OF assms(1,2) x, of "\<lambda>x. x\<lparr>c_result := txt\<rparr>"]
    by (simp add: set_result_def wp_simps same_core_def)
qed

lemma grab_step:
  assumes inv: "server_inv s R W N Z" and n: "net_ok s"
  obtains (miss) "handle_grab s h = Some (s, None)"
    "skynet_handle_grab (handle_of s) (sv_handles s) h = None"
  | (hit) s' d where "handle_grab s h = Some (s', Some d)" "step_ok 0 s (R(d := R d + 1)) W N Z s'" "0 \<le> R d"
    "skynet_handle_grab (handle_of s) (sv_handles s) h = Some d" "core_frame s s'" "sv_mq s' = sv_mq s"
proof -
  consider "skynet_handle_grab (handle_of s) (sv_handles s) h = None \<and> handle_grab s h = Some (s, None)"
    | c x where "skynet_handle_grab (handle_of s) (sv_handles s) h = Some c" "ctx_at s c = Some x"
       "handle_grab s h = Some (put_ctx s c (x\<lparr>c_ref := c_ref x + 1\<rparr>), Some c)"
       "server_inv (put_ctx s c (x\<lparr>c_ref := c_ref x + 1\<rparr>)) (R(c := R c + 1)) W N Z"
    using handle_grab_spec [OF inv, of h] by (elim disjE exE conjE) blast+
  then show thesis
  proof cases
    case 1
    then show thesis using miss by simp
  next
    case 2
    let ?s' = "put_ctx s c (x\<lparr>c_ref := c_ref x + 1\<rparr>)"
    have core: "same_core x (x\<lparr>c_ref := c_ref x + 1\<rparr>)" by (simp add: same_core_def)
    have "step_ok 0 s (R(c := R c + 1)) W N Z ?s'"
      using 2(4) n stable_put [OF 2(2) core] grow_frame [of ?s' s 0] by (simp add: step_ok_def net_ok_def)
    then show thesis using hit [OF 2(3)] server_invD(5) [OF inv] 2(1) core_frame_put [OF 2(2) core] by simp
  qed
qed

section \<open>Lengths of texts\<close>

lemma dec_nat_length: "0 < k \<Longrightarrow> n < 10 ^ k \<Longrightarrow> length (dec_nat n) \<le> k"
proof (induction k arbitrary: n)
  case (Suc k)
  show ?case
  proof (cases "n < 10")
    case True
    then show ?thesis by (subst dec_nat.simps) simp
  next
    case False
    then have "0 < k" using Suc.prems by (cases k) auto
    moreover have "n div 10 < 10 ^ k" using Suc.prems(2) by (simp add: less_mult_imp_div_less mult.commute)
    ultimately have "length (dec_nat (n div 10)) \<le> k" by (rule Suc.IH)
    moreover have "dec_nat n = dec_nat (n div 10) @ [of_nat (48 + n mod 10)]"
      using False by (subst dec_nat.simps) (simp only: if_False)
    ultimately show ?thesis by simp
  qed
qed simp

lemma dec_length: "\<bar>i\<bar> < 10 ^ 20 \<Longrightarrow> length (dec i) < 32"
proof -
  assume "\<bar>i\<bar> < 10 ^ 20"
  then have "nat i < 10 ^ 20" "nat (- i) < 10 ^ 20" by (simp_all add: nat_less_iff)
  then have "length (dec_nat (nat i)) \<le> 20" "length (dec_nat (nat (- i))) \<le> 20" by (auto intro: dec_nat_length)
  then show ?thesis by (simp add: dec_def)
qed

lemma hex_nat_length: "0 < k \<Longrightarrow> n < 16 ^ k \<Longrightarrow> length (hex_nat n) \<le> k"
proof (induction k arbitrary: n)
  case (Suc k)
  show ?case
  proof (cases "n < 16")
    case True
    then show ?thesis by (subst hex_nat.simps) simp
  next
    case False
    then have "0 < k" using Suc.prems by (cases k) auto
    moreover have "n div 16 < 16 ^ k" using Suc.prems(2) by (simp add: less_mult_imp_div_less mult.commute)
    ultimately have "length (hex_nat (n div 16)) \<le> k" by (rule Suc.IH)
    moreover have "hex_nat n = hex_nat (n div 16) @ [hex_digit False (n mod 16)]"
      using False by (subst hex_nat.simps) (simp only: if_False)
    ultimately show ?thesis by simp
  qed
qed simp

lemma hex32_length: "length (hex32 h) \<le> 8"
proof -
  have "unat h < 16 ^ 8" using unsigned_less [where ?'a = nat and w = h] by simp
  then show ?thesis using hex_nat_length [of 8 "unat h"] by (simp add: hex32_def)
qed

lemma dec_u64_length: "length (dec_u64 x) \<le> 20"
proof -
  have "unat x < 10 ^ 20" using unsigned_less [where ?'a = nat and w = x] by simp
  then show ?thesis using dec_nat_length [of 20 "unat x"] by (simp add: dec_u64_def)
qed

lemma dec_u32_length: "length (dec_u32 x) \<le> 20"
proof -
  have "unat x < 10 ^ 20" using unsigned_less [where ?'a = nat and w = x] by simp
  then show ?thesis using dec_nat_length [of 20 "unat x"] by (simp add: dec_u32_def)
qed

lemma seconds_text_length: "length (seconds_text t) < 32"
proof -
  have "unat t div 1000000 < 10 ^ 20"
    using unsigned_less [where ?'a = nat and w = t] div_le_dividend [of "unat t" 1000000] by simp
  then have "length (dec_nat (unat t div 1000000)) \<le> 20" by (rule dec_nat_length [rotated]) simp
  moreover have "length (dec_nat (unat t mod 1000000)) \<le> 6" by (rule dec_nat_length) simp_all
  ultimately show ?thesis by (simp add: seconds_text_def Let_def)
qed

lemma id_to_hex_length: "length (id_to_hex h) = 9"
  by (simp add: id_to_hex_def)

lemma next_session_range: "0 < next_session i" "next_session i < 2 ^ 31"
proof -
  have "- (2 ^ 31) \<le> to_i32 (i + 1) \<and> to_i32 (i + 1) < 2 ^ 31" using is_i32_to_i32 [of "i + 1"] by (simp add: is_i32_def)
  then show "0 < next_session i" "next_session i < 2 ^ 31" by (simp_all add: next_session_def Let_def)
qed

lemma mq_length_bound:
  assumes inv: "server_inv s R W N Z" and q: "mq_at (sv_mq s) p = Some q"
  shows "\<bar>mq_length q\<bar> < 10 ^ 20"
proof -
  obtain L where "sys_inv_for L (sv_mq s, W \<union> N)" using server_invD(3) [OF inv] by (auto simp: mq_held_def sys_inv_def)
  from sys_inv_forD(5) [OF this q] have wf: "mq_wf q" by simp
  then obtain k where k: "k \<le> 30" "q_cap q = 2 ^ k" by (auto simp: mq_wf_def)
  have "(2 :: int) ^ k \<le> 2 ^ 30" by (rule power_increasing) (use k in simp_all)
  then show ?thesis using wf k(2) by (auto simp: mq_length_def mq_wf_def)
qed

section \<open>The commands\<close>

abbreviation cmd_spec :: "nat \<Rightarrow> server \<Rightarrow> (nat \<Rightarrow> int) \<Rightarrow> nat set \<Rightarrow> nat set \<Rightarrow> nat set \<Rightarrow> (server \<times> 'a) option \<Rightarrow> bool" where
  "cmd_spec n s R W N Z m \<equiv> wp m (\<lambda>r. step_ok n s R W N Z (fst r))"

lemma no_result_step: "wp m (step_ok n s R W N Z) \<Longrightarrow> cmd_spec n s R W N Z (no_result m)"
  by (auto simp: no_result_def wp_iff)

lemma newsession_step:
  assumes "server_inv s R W N Z" "net_ok s" "0 < R c"
  shows "\<exists>s1 x. ctx_at s c = Some x \<and> skynet_context_newsession s c = Some (s1, next_session (c_session_id x)) \<and>
    step_ok 0 s R W N Z s1"
proof -
  obtain x where x: "ctx_at s c = Some x" using held_exists [OF assms(1,3)] by blast
  let ?f = "\<lambda>x. x\<lparr>c_session_id := next_session (c_session_id x)\<rparr>"
  have "step_ok 0 s R W N Z (put_ctx s c (?f x))"
    by (rule upd_step(2) [OF assms(1,2) x]) (simp_all add: same_core_def)
  then show ?thesis using newsession_spec [OF x] x by blast
qed

lemma push_step:
  assumes "server_inv s R W N Z" "net_ok s" "room 1 s"
  shows "wp (skynet_context_push ho s h m) (\<lambda>r. step_ok 1 s R W N Z (fst r))"
proof -
  from push_context_spec [OF assms(1,3), of ho h m] obtain s' r where
    "skynet_context_push ho s h m = Some (s', r)" "push_result s h m s'" "server_inv s' R W N Z" "grow 1 s s'" "same_frame s s'"
    by blast
  then show ?thesis using quiet_step [of 1 s R W N Z s'] push_result_grown assms(2) by (simp add: quiet_def wp_simps)
qed

lemma push_all_step:
  assumes "server_inv s R W N Z" "net_ok s" "room (length out) s"
  shows "wp (push_all ho s out) (step_ok (length out) s R W N Z)"
  unfolding push_all_def
proof (rule step_foldM [OF _ assms])
  fix s and x :: "u32 \<times> skynet_message"
  assume a: "server_inv s R W N Z" "net_ok s" "room 1 s"
  from push_step [OF a, of ho "fst x" "snd x"]
  show "wp (case x of (h, m) \<Rightarrow> map_option fst (skynet_context_push ho s h m)) (step_ok 1 s R W N Z)"
    by (simp add: wp_simps split_beta)
qed

lemma cmd_timeout_step:
  assumes inv: "server_inv s R W N Z" and n: "net_ok s" "room 1 s" and c: "0 < R c"
  shows "cmd_spec 1 s R W N Z (cmd_timeout ho s c (Some p))"
proof -
  obtain s1 and x :: skynet_context where s1: "skynet_context_newsession s c = Some (s1, next_session (c_session_id x))"
    "step_ok 0 s R W N Z s1"
    using newsession_step [OF inv n(1) c] by blast
  let ?k = "next_session (c_session_id x)"
  obtain T out r where T: "skynet_timeout (\<lambda>_. False) (sv_timer s1) (handle_of s1 c) (to_i32 (strtol10 p)) ?k = (T, out, r)"
    by (metis prod_cases3)
  then have out: "length out \<le> 1" by (auto simp: skynet_timeout_def split: if_splits)
  let ?s2 = "s1\<lparr>sv_timer := T\<rparr>"
  have k2: "step_ok 0 s R W N Z ?s2"
    using step_ok_trans [OF s1(2) frame_step [OF step_okD(1,2) [OF s1(2)]], of ?s2 0] by (simp add: same_frame_def)
  have "room (length out) ?s2"
    by (rule step_okD(5) [OF k2]) (use room_mono [OF n(2) out] in simp)
  then obtain s3 where s3: "push_all ho ?s2 out = Some s3" "step_ok (length out) ?s2 R W N Z s3"
    using push_all_step [OF step_okD(1,2) [OF k2]] by (auto simp: wp_iff)
  have len: "length (dec ?k) < 32" by (rule dec_length) (use next_session_range [of "c_session_id x"] in simp)
  have "wp (set_result s3 c (dec ?k)) (\<lambda>r. step_ok 0 s3 R W N Z (fst r))"
    by (rule result_step [OF step_okD(1,2) [OF s3(2)] c len])
  then obtain u where u: "set_result s3 c (dec ?k) = Some u" "step_ok 0 s3 R W N Z (fst u)" by (auto simp: wp_iff)
  have "step_ok 1 s R W N Z (fst u)"
    by (rule step_ok_mono [OF step_ok_trans [OF k2 step_ok_trans [OF s3(2) u(2)]]]) (use out in simp)
  then show ?thesis using s1(1) T s3(1) u(1) by (simp add: cmd_timeout_def wp_simps Let_def)
qed

text \<open>Entering a name does not touch the slots.\<close>

definition names_room :: "server \<Rightarrow> bool" where
  "names_room s \<longleftrightarrow> int (h_name_count (sv_handles s)) * 2 \<le> MAX_SLOT_SIZE"

lemma namehandle_step:
  assumes inv: "server_inv s R W N Z" and n: "net_ok s" and rm: "names_room s"
  shows "cmd_spec 0 s R W N Z (namehandle s h nm)"
proof -
  from namehandle_spec [OF server_invD(2) [OF inv] rm [unfolded names_room_def], of h "name_of nm"] obtain hs r where
    hs: "skynet_handle_namehandle (sv_handles s) h (name_of nm) = Some (hs, r)" "h_slot hs = h_slot (sv_handles s)"
      "h_index hs = h_index (sv_handles s)" "h_harbor hs = h_harbor (sv_handles s)" "names_inv hs" by blast
  let ?s = "s\<lparr>sv_handles := hs\<rparr>"
  have at: "ctx_at ?s = ctx_at s" by (simp add: ctx_at_def fun_eq_iff)
  have lv: "live hs = live (sv_handles s)" by (simp add: live_def hs(2))
  have r: "refs ?s = refs s" by (simp add: refs_def lv fun_eq_iff)
  have h: "handle_of ?s = handle_of s" by (simp add: handle_of_def at fun_eq_iff)
  have ok: "handle_ok hs = handle_ok (sv_handles s)" by (simp add: handle_ok_def hs(4) fun_eq_iff)
  have "server_inv ?s R W N Z"
  proof (rule server_invI)
    show "slots_inv (handle_of ?s) (sv_handles ?s)"
      using server_invD(1) [OF inv] by (simp add: h slots_inv_def hs(2-4) ok)
    show "ctx_ok ?s R N Z d x" if "ctx_at ?s d = Some x" for d x
      using server_invD(6) [OF inv, of d x] that by (simp add: ctx_ok_def r at lv)
    show "refs ?s R d = 0 \<and> d \<notin> Z" if "ctx_at ?s d = None" for d
      using server_invD(7) [OF inv, of d] that by (simp add: r at)
    show "d = e" if "ctx_at ?s d = Some x" "ctx_at ?s e = Some y" "c_queue x = c_queue y" for d e x y
      using server_invD(8) [OF inv, of d x e y] that by (simp add: at)
    show "h \<noteq> 0" if "mbox ?s p = Some (h, r, xs)" for p h r xs using server_invD(9) [OF inv, of p h r xs] that by simp
    show "sv_total ?s = int (card (contexts ?s)) - of_bool (sv_remote ?s \<noteq> None)"
      using server_invD(10) [OF inv] by (simp add: contexts_def at)
    show "p = c_queue x" if "d \<in> live (sv_handles ?s)" "ctx_at ?s d = Some x" "mbox ?s p = Some (c_handle x, r, xs)" for d x p r xs
      using server_invD(11) [OF inv, of d x p r xs] that by (simp add: at lv)
  qed (use server_invD(3,4,5) [OF inv] hs(5) in simp_all)
  moreover have "stable s ?s" by (simp add: stable_def at lv)
  ultimately have "step_ok 0 s R W N Z ?s" using n grow_frame [of ?s s 0] by (simp add: step_ok_def net_ok_def)
  then show ?thesis using hs(1) by (simp add: namehandle_def wp_simps)
qed

lemma cmd_reg_step:
  assumes inv: "server_inv s R W N Z" and n: "net_ok s" "room 1 s" and c: "0 < R c" and nm: "names_room s"
  shows "cmd_spec 1 s R W N Z (cmd_reg ho s c prm)"
proof -
  define p where "p = (case prm of None \<Rightarrow> [] | Some p \<Rightarrow> p)"
  have e: "cmd_reg ho s c prm = (if p = [] then set_result s c (58 # hex32 (handle_of s c))
      else if char0 p = 46 then namehandle s (handle_of s c) (drop 1 p)
      else no_result (skynet_error ho s (Some c) (str ''Can't register global name '' @ p @ str '' in C'')))"
    by (simp add: cmd_reg_def p_def)
  have a: "cmd_spec 1 s R W N Z (set_result s c (58 # hex32 (handle_of s c)))"
    by (rule step_weaken [OF result_step [OF inv n(1) c]]) (use hex32_length [of "handle_of s c"] in simp_all)
  have b: "cmd_spec 1 s R W N Z (namehandle s (handle_of s c) (drop 1 p))"
    by (rule step_weaken [OF namehandle_step [OF inv n(1) nm]]) simp
  have d: "cmd_spec 1 s R W N Z (no_result (skynet_error ho s (Some c) (str ''Can't register global name '' @ p @ str '' in C'')))"
    by (rule no_result_step [OF error_step [OF inv n]]) (use c in simp)
  show ?thesis unfolding e using a b d by simp
qed

lemma cmd_query_step:
  assumes inv: "server_inv s R W N Z" and n: "net_ok s" and c: "0 < R c"
  shows "cmd_spec 0 s R W N Z (cmd_query s c (Some p))"
proof -
  have "cmd_spec 0 s R W N Z (set_result s c (58 # hex32 h))" for h
    by (rule result_step [OF inv n c]) (use hex32_length [of h] in simp)
  then show ?thesis using step_refl [OF inv n] by (simp add: cmd_query_def Let_def wp_simps)
qed

definition two_words :: "bytes \<Rightarrow> bool" where
  "two_words p \<longleftrightarrow> fst (next_word (snd (next_word p))) \<noteq> []"

lemma cmd_name_step:
  assumes inv: "server_inv s R W N Z" and n: "net_ok s" "room 1 s" and c: "0 < R c" and nm: "names_room s"
    and p: "two_words p"
  shows "cmd_spec 1 s R W N Z (cmd_name ho s c (Some p))"
proof -
  obtain w r h r' where w: "next_word p = (w, r)" "next_word r = (h, r')" by fastforce
  have "h \<noteq> []" using p w by (simp add: two_words_def)
  moreover have "cmd_spec 1 s R W N Z (namehandle s (handle_text h) (drop 1 w))"
    by (rule step_weaken [OF namehandle_step [OF inv n(1) nm]]) simp
  moreover have "cmd_spec 1 s R W N Z (no_result (skynet_error ho s (Some c) (str ''Can't set global name '' @ w @ str '' in C'')))"
    by (rule no_result_step [OF error_step [OF inv n]]) (use c in simp)
  ultimately show ?thesis using w step_refl [OF inv n(1)] by (simp add: cmd_name_def wp_simps)
qed

lemma handle_exit_step:
  assumes ho: "host_ok ho b" and inv: "server_inv s R W N Z" and n: "net_ok s" "room (b + 2) s" and c: "0 < R c"
  shows "wp (handle_exit ho s c handle) (step_ok (b + 2) s R W N Z)"
proof -
  obtain x where x: "ctx_at s c = Some x" using held_exists [OF inv c] by blast
  define h where "h = (if handle = 0 then c_handle x else handle)"
  define tx where "tx = (if handle = 0 then str ''KILL self'' else str ''KILL :'' @ hex32 handle)"
  have hnz: "h \<noteq> 0" using server_invD(6) [OF inv x] by (simp add: h_def ctx_ok_def)
  have r1: "room 1 s" by (rule room_mono [OF n(2)]) simp
  obtain s1 where s1: "skynet_error ho s (Some c) tx = Some s1" "step_ok 1 s R W N Z s1"
    using error_step [OF inv n(1) r1, of "Some c" ho tx] c by (auto simp: wp_iff)
  have rb1: "room (b + 1) s1" by (rule step_okD(5) [OF s1(2)]) (use n(2) in \<open>simp add: One_nat_def\<close>)
  have "wp (if sv_monitor_exit s1 \<noteq> 0 then map_option fst (skynet_send ho s1 (Some c) h (sv_monitor_exit s1) PTYPE_CLIENT 0 0 0)
      else Some s1) (step_ok 1 s1 R W N Z)"
  proof -
    have ty: "\<not> tag PTYPE_CLIENT PTYPE_TAG_ALLOCSESSION" "remote_type_ok s1 d PTYPE_CLIENT" for d
      by (simp_all add: tag_def PTYPE_CLIENT_def PTYPE_TAG_ALLOCSESSION_def remote_type_ok_def invalid_type_def
          PTYPE_SYSTEM_def PTYPE_HARBOR_def)
    have a: "send_args s1 (Some c) h PTYPE_CLIENT 0 0 0"
      using held_exists [OF step_okD(1) [OF s1(2)] c] ty by (simp add: send_args_def)
    have "wp (skynet_send ho s1 (Some c) h (sv_monitor_exit s1) PTYPE_CLIENT 0 0 0) (\<lambda>r. step_ok 1 s1 R W N Z (fst r))"
      by (rule send_spec [OF step_okD(1,2) [OF s1(2)] room_mono [OF rb1] a ty(2)]) simp
    then show ?thesis using step_refl [OF step_okD(1,2) [OF s1(2)]] by (simp add: wp_simps)
  qed
  then obtain s2 where s2: "(if sv_monitor_exit s1 \<noteq> 0 then
      map_option fst (skynet_send ho s1 (Some c) h (sv_monitor_exit s1) PTYPE_CLIENT 0 0 0) else Some s1) = Some s2"
    "step_ok 1 s1 R W N Z s2" unfolding wp_iff by blast
  have rb2: "room b s2" by (rule step_okD(5) [OF s2(2)]) (use rb1 in \<open>simp add: add.commute\<close>)
  obtain s3 r where s3: "handle_retire ho s2 h = Some (s3, r)" "step_ok b s2 R W N Z s3"
    by (rule retire_spec [OF ho step_okD(1,2) [OF s2(2)] rb2]) (erule that; blast)
  have "step_ok (1 + (1 + b)) s R W N Z s3" by (rule step_ok_trans [OF s1(2) step_ok_trans [OF s2(2) s3(2)]])
  then have "step_ok (b + 2) s R W N Z s3" by (simp add: One_nat_def)
  moreover have "handle_exit ho s c handle = Some s3"
    using x s1(1) s2(1) s3(1) unfolding handle_exit_def h_def tx_def by (simp add: Let_def)
  ultimately show ?thesis by (simp add: wp_simps)
qed

lemma tohandle_step:
  assumes inv: "server_inv s R W N Z" and n: "net_ok s" "room 1 s" and c: "0 < R c"
  shows "cmd_spec 1 s R W N Z (tohandle ho s c p)"
  using error_step [OF inv n, of "Some c" ho "str ''Can't convert '' @ p @ str '' to handle''"] c step_refl [OF inv n(1)]
  by (simp add: tohandle_def wp_simps)

lemma cmd_kill_step:
  assumes ho: "host_ok ho b" and inv: "server_inv s R W N Z" and n: "net_ok s" "room (b + 3) s" and c: "0 < R c"
  shows "cmd_spec (b + 3) s R W N Z (cmd_kill ho s c (Some p))"
proof -
  have r1: "room 1 s" by (rule room_mono [OF n(2)]) simp
  have "cmd_spec (1 + (b + 2)) s R W N Z (Option.bind (tohandle ho s c p) (\<lambda>(s1, h :: u32).
      if h \<noteq> 0 then no_result (handle_exit ho s1 c h) else Some (s1, None)))"
  proof (rule step_bind [OF tohandle_step [OF inv n(1) r1 c]])
    fix r :: "server \<times> u32"
    assume k: "step_ok 1 s R W N Z (fst r)"
    have "room (b + 2) (fst r)" by (rule step_okD(5) [OF k]) (use n(2) in \<open>simp add: eval_nat_numeral One_nat_def\<close>)
    from handle_exit_step [OF ho step_okD(1,2) [OF k] this c]
    show "cmd_spec (b + 2) (fst r) R W N Z (case r of (s1, h) \<Rightarrow> if h \<noteq> 0 then no_result (handle_exit ho s1 c h) else Some (s1, None))"
      using step_refl [OF step_okD(1,2) [OF k]] no_result_step by (simp add: wp_simps split_beta)
  qed
  then show ?thesis by (simp add: cmd_kill_def eval_nat_numeral One_nat_def)
qed

lemma cmd_launch_step:
  assumes ho: "host_ok ho b" and inv: "server_inv s R W N Z" and n: "net_ok s" "room (6 * b + 2) s" and c: "0 < R c"
    and l: "launchable s"
  shows "cmd_spec (6 * b + 2) s R W N Z (cmd_launch ho s c (Some p))"
proof -
  obtain md rest where m: "split_at [32, 9, 13, 10] p = (md, rest)" by fastforce
  let ?args = "map_option (\<lambda>r. fst (split_at [13, 10] r)) rest"
  let ?k = "\<lambda>(s1, inst). case inst of None \<Rightarrow> Some (s1, None) | Some i \<Rightarrow> set_result s1 c (id_to_hex (handle_of s1 i))"
  have "cmd_spec (6 * b + 2 + 0) s R W N Z (Option.bind (skynet_context_new ho s md ?args) ?k)"
  proof (rule step_bind [OF context_new_spec [OF ho inv l n]])
    fix r :: "server \<times> nat option"
    assume k: "step_ok (6 * b + 2) s R W N Z (fst r)"
    have "cmd_spec 0 (fst r) R W N Z (set_result (fst r) c (id_to_hex h))" for h
      by (rule result_step [OF step_okD(1,2) [OF k] c]) (simp add: id_to_hex_length)
    then show "cmd_spec 0 (fst r) R W N Z (?k r)"
      using step_refl [OF step_okD(1,2) [OF k]] by (simp add: wp_simps split_beta split: option.split)
  qed
  then show ?thesis using m by (simp add: cmd_launch_def)
qed

lemma cmd_setenv_step:
  assumes inv: "server_inv s R W N Z" and n: "net_ok s" and k: "sv_env s (fst (split_at [32] p)) = None"
  shows "cmd_spec 0 s R W N Z (cmd_setenv s c (Some p))"
proof -
  have "step_ok 0 s R W N Z (s\<lparr>sv_env := e\<rparr>)" for e by (rule frame_step [OF inv n]) (simp_all add: same_frame_def)
  then show ?thesis using k step_refl [OF inv n]
    by (simp add: cmd_setenv_def skynet_setenv_def no_result_def wp_simps split_beta split: option.split)
qed

lemma cmd_monitor_step:
  assumes inv: "server_inv s R W N Z" and n: "net_ok s" "room 1 s" and c: "0 < R c"
  shows "cmd_spec 1 s R W N Z (cmd_monitor ho s c prm)"
proof -
  define p where "p = (case prm of None \<Rightarrow> [] | Some p \<Rightarrow> p)"
  have r: "cmd_spec 1 s R W N Z (set_result s c (58 # hex32 h))" for h
    by (rule step_weaken [OF result_step [OF inv n(1) c]]) (use hex32_length [of h] in simp_all)
  have "cmd_spec (1 + 0) s R W N Z (Option.bind (tohandle ho s c p) (\<lambda>(s1, h). Some (s1\<lparr>sv_monitor_exit := h\<rparr>, None :: bytes option)))"
  proof (rule step_bind [OF tohandle_step [OF inv n c]])
    fix r :: "server \<times> u32"
    assume k: "step_ok 1 s R W N Z (fst r)"
    have "step_ok 0 (fst r) R W N Z ((fst r)\<lparr>sv_monitor_exit := h\<rparr>)" for h
      by (rule frame_step [OF step_okD(1,2) [OF k]]) (simp_all add: same_frame_def)
    then show "cmd_spec 0 (fst r) R W N Z (case r of (s1, h) \<Rightarrow> Some (s1\<lparr>sv_monitor_exit := h\<rparr>, None :: bytes option))"
      by (simp add: wp_simps split_beta)
  qed
  moreover have "cmd_monitor ho s c prm =
      (if p = [] then (if sv_monitor_exit s \<noteq> 0 then set_result s c (58 # hex32 (sv_monitor_exit s)) else Some (s, None))
       else Option.bind (tohandle ho s c p) (\<lambda>(s1, h). Some (s1\<lparr>sv_monitor_exit := h\<rparr>, None)))"
    by (simp add: cmd_monitor_def p_def)
  ultimately show ?thesis using r step_refl [OF inv n(1)] by (simp add: wp_simps)
qed

lemma cmd_stat_step:
  assumes inv: "server_inv s R W N Z" and n: "net_ok s" and c: "0 < R c"
  shows "cmd_spec 0 s R W N Z (cmd_stat ho s c (Some p))"
proof -
  obtain x where x: "ctx_at s c = Some x" using held_exists [OF inv c] by blast
  obtain h r xs where "mbox s (c_queue x) = Some (h, r, xs)" using server_invD(6) [OF inv x] by (auto simp: ctx_ok_def)
  then obtain q where q: "mq_at (sv_mq s) (c_queue x) = Some q" by (auto simp: mq_view_def)
  note res = result_step [OF inv n c]
  have len: "length (str ''1'') < 32" "length (str ''0'') < 32" by (simp_all add: str_def)
  have l0: "cmd_spec 0 s R W N Z (set_result s c (dec (mq_length q)))"
    by (rule res [OF dec_length [OF mq_length_bound [OF inv q]]])
  have l1: "cmd_spec 0 s R W N Z (Option.bind (upd_ctx s c (\<lambda>x. x\<lparr>c_endless := False\<rparr>)) (\<lambda>s1. set_result s1 c (str ''1'')))"
  proof -
    note u = upd_step [OF inv n x, of "\<lambda>x. x\<lparr>c_endless := False\<rparr>"]
    let ?s1 = "put_ctx s c (x\<lparr>c_endless := False\<rparr>)"
    have k: "step_ok 0 s R W N Z ?s1" by (rule u(2)) (simp_all add: same_core_def)
    obtain v where "set_result ?s1 c (str ''1'') = Some v" "step_ok 0 ?s1 R W N Z (fst v)"
      using result_step [OF step_okD(1,2) [OF k] c len(1)] by (auto simp: wp_iff)
    then show ?thesis using step_ok_trans [OF k] u(1) by (simp add: wp_simps same_core_def)
  qed
  have l2: "cmd_spec 0 s R W N Z (case thread_time ho s of (s1, now) \<Rightarrow> set_result s1 c (seconds_text (now - t)))" for t
  proof -
    let ?s1 = "fst (thread_time ho s)"
    have k: "step_ok 0 s R W N Z ?s1" by (rule frame_step [OF inv n]) (simp_all add: thread_time_def same_frame_def)
    obtain v where "set_result ?s1 c (seconds_text (snd (thread_time ho s) - t)) = Some v" "step_ok 0 ?s1 R W N Z (fst v)"
      using result_step [OF step_okD(1,2) [OF k] c seconds_text_length [of "snd (thread_time ho s) - t"]]
      unfolding wp_iff by blast
    then show ?thesis using step_ok_trans [OF k] by (simp add: wp_simps split_beta)
  qed
  have l3: "cmd_spec 0 s R W N Z (set_result s c (dec_u64 m))" for m
    by (rule res) (use dec_u64_length [of m] in simp)
  have l4: "cmd_spec 0 s R W N Z (set_result s c (str ''0''))" "cmd_spec 0 s R W N Z (set_result s c [])"
    "cmd_spec 0 s R W N Z (set_result s c (seconds_text t))" for t
    by (rule res, use len seconds_text_length in simp)+
  show ?thesis
    unfolding cmd_stat_def x Option.bind.bind_lunit Let_def q using l0 l1 l2 l3 l4 by simp
qed

text \<open>A command on another service: a reference to it is held while it runs.\<close>

lemma with_service_step:
  assumes ho: "host_ok ho b" and inv: "server_inv s R W N Z" and n: "net_ok s" "room (1 + (k + b)) s" and c: "0 < R c"
    and f: "\<And>s R d h. server_inv s R W N Z \<Longrightarrow> net_ok s \<Longrightarrow> room k s \<Longrightarrow> 0 < R d \<Longrightarrow> 0 < R c \<Longrightarrow>
      wp (f s d h p) (step_ok k s R W N Z)"
  shows "cmd_spec (1 + (k + b)) s R W N Z (with_service ho s c (Some p) f)"
proof -
  have r1: "room 1 s" by (rule room_mono [OF n(2)]) simp
  let ?g = "\<lambda>(s1, h). if h = 0 then Some (s1, None) else Option.bind (handle_grab s1 h) (\<lambda>(s2, ctx).
      case ctx of None \<Rightarrow> Some (s2, None)
      | Some d \<Rightarrow> Option.bind (f s2 d h p) (\<lambda>s3. no_result (map_option fst (skynet_context_release ho s3 d))))"
  have "cmd_spec (1 + (k + b)) s R W N Z (Option.bind (tohandle ho s c p) ?g)"
  proof (rule step_bind [OF tohandle_step [OF inv n(1) r1 c]])
    fix r :: "server \<times> u32"
    assume k1: "step_ok 1 s R W N Z (fst r)"
    obtain s1 h where r: "r = (s1, h)" by fastforce
    have s1: "server_inv s1 R W N Z" "net_ok s1" and rk: "room (k + b) s1"
      using step_okD(1,2) [OF k1] step_okD(5) [OF k1 n(2)] r by simp_all
    have "cmd_spec (k + b) s1 R W N Z (?g (s1, h))"
    proof (cases rule: grab_step [OF s1, of h, case_names miss hit])
      case miss
      then show ?thesis using step_refl [OF s1] by (simp add: wp_simps)
    next
      case (hit s2 d)
      let ?R = "R(d := R d + 1)"
      have r2: "room (k + b) s2" using step_okD(5) [OF hit(2), of "k + b"] rk by simp
      have "wp (f s2 d h p) (step_ok k s2 ?R W N Z)"
        by (rule f [OF step_okD(1,2) [OF hit(2)] room_mono [OF r2]]) (use hit(3) c in auto)
      then obtain s3 where s3: "f s2 d h p = Some s3" "step_ok k s2 ?R W N Z s3" by (auto simp: wp_iff)
      obtain s4 al where s4: "skynet_context_release ho s3 d = Some (s4, al)" "step_ok b s3 R W N Z s4"
        by (rule release_back [OF ho step_okD(1,2) [OF s3(2)] step_okD(5) [OF s3(2) r2] hit(3)]) (erule that; blast)
      have "step_ok (k + b) s1 R W N Z s4"
        using step_ok_trans [OF hit(2) step_ok_trans [OF s3(2) s4(2)]] by simp
      then show ?thesis using hit(1) s3(1) s4(1) step_refl [OF s1] by (simp add: wp_simps no_result_def)
    qed
    then show "cmd_spec (k + b) (fst r) R W N Z (?g r)" using r by simp
  qed
  then show ?thesis by (simp add: with_service_def)
qed

lemma log_open_step:
  assumes inv: "server_inv s R W N Z" and n: "net_ok s" "room 1 s" and c: "0 < R c"
  shows "cmd_spec 1 s R W N Z (skynet_log_open ho s c h)"
proof -
  have e: "wp (skynet_error ho s (Some c) tx) (step_ok 1 s R W N Z)" for tx
    by (rule error_step [OF inv n]) (use c in simp)
  have em: "step_ok 1 s R W N Z (emit s' ev)" if "step_ok 1 s R W N Z s'" for s' ev
    using step_ok_trans [OF that frame_step [OF step_okD(1,2) [OF that], of _ 0]] by simp
  have "wp (map_option (\<lambda>s1. (emit s1 ev, Some f)) (skynet_error ho s (Some c) tx)) (\<lambda>r. step_ok 1 s R W N Z (fst r))" for ev f tx
    using e [of tx] em by (auto simp: wp_iff)
  moreover have "wp (map_option (\<lambda>s1. (s1, None)) (skynet_error ho s (Some c) tx)) (\<lambda>r. step_ok 1 s R W N Z (fst r))" for tx
    using e [of tx] by (auto simp: wp_iff)
  ultimately show ?thesis
    using step_refl [OF inv n(1)] unfolding skynet_log_open_def Let_def by (auto simp: wp_simps split: option.split)
qed

lemma log_close_step:
  assumes inv: "server_inv s R W N Z" and n: "net_ok s" "room 1 s" and c: "0 < R c"
  shows "wp (skynet_log_close ho s c f h) (step_ok 1 s R W N Z)"
proof -
  have em: "step_ok 1 s R W N Z (emit s' ev)" if "step_ok 1 s R W N Z s'" for s' ev
    using step_ok_trans [OF that frame_step [OF step_okD(1,2) [OF that], of _ 0]] by simp
  have "wp (skynet_error ho s (Some c) tx) (step_ok 1 s R W N Z)" for tx
    by (rule error_step [OF inv n]) (use c in simp)
  then show ?thesis unfolding skynet_log_close_def wp_map by (rule wp_mono) (intro em)
qed

lemma logfile_step:
  assumes "server_inv s R W N Z" "net_ok s" "0 < R d"
  shows "wp (upd_ctx s d (\<lambda>x. x\<lparr>c_logfile := f\<rparr>)) (step_ok 0 s R W N Z)"
proof -
  obtain x where x: "ctx_at s d = Some x" using held_exists [OF assms(1,3)] by blast
  show ?thesis using upd_step [OF assms(1,2) x, of "\<lambda>x. x\<lparr>c_logfile := f\<rparr>"] by (simp add: wp_simps same_core_def)
qed

lemma cmd_logon_step:
  assumes ho: "host_ok ho b" and inv: "server_inv s R W N Z" and n: "net_ok s" "room (1 + (1 + b)) s" and c: "0 < R c"
  shows "cmd_spec (1 + (1 + b)) s R W N Z (cmd_logon ho s c (Some p))"
  unfolding cmd_logon_def
proof (rule with_service_step [OF ho inv n c])
  fix s R d h
  assume a: "server_inv s R W N Z" "net_ok s" "room 1 s" "0 < R d" "0 < R c"
  obtain x where x: "ctx_at s d = Some x" using held_exists [OF a(1,4)] by blast
  have "wp (Option.bind (skynet_log_open ho s c h) (\<lambda>(s1, f).
        case f of None \<Rightarrow> Some s1 | Some f \<Rightarrow> upd_ctx s1 d (\<lambda>x. x\<lparr>c_logfile := Some f\<rparr>))) (step_ok (1 + 0) s R W N Z)"
  proof (rule step_bind [OF log_open_step [OF a(1-3,5)], where h = "\<lambda>x. x"])
    fix r :: "server \<times> nat option"
    assume k: "step_ok 1 s R W N Z (fst r)"
    show "wp (case r of (s1, f) \<Rightarrow> case f of None \<Rightarrow> Some s1 | Some f \<Rightarrow> upd_ctx s1 d (\<lambda>x. x\<lparr>c_logfile := Some f\<rparr>))
        (step_ok 0 (fst r) R W N Z)"
      using logfile_step [OF step_okD(1,2) [OF k] a(4)] step_refl [OF step_okD(1,2) [OF k]]
      by (auto simp: wp_simps split: option.split prod.split)
  qed
  then show "wp (Option.bind (ctx_at s d) (\<lambda>x. if c_logfile x = None then Option.bind (skynet_log_open ho s c h) (\<lambda>(s1, f).
        case f of None \<Rightarrow> Some s1 | Some f \<Rightarrow> upd_ctx s1 d (\<lambda>x. x\<lparr>c_logfile := Some f\<rparr>)) else Some s)) (step_ok 1 s R W N Z)"
    unfolding x Option.bind.bind_lunit using step_refl [OF a(1,2)] by (simp add: wp_basic)
qed

lemma cmd_logoff_step:
  assumes ho: "host_ok ho b" and inv: "server_inv s R W N Z" and n: "net_ok s" "room (1 + (1 + b)) s" and c: "0 < R c"
  shows "cmd_spec (1 + (1 + b)) s R W N Z (cmd_logoff ho s c (Some p))"
  unfolding cmd_logoff_def
proof (rule with_service_step [OF ho inv n c])
  fix s R d h
  assume a: "server_inv s R W N Z" "net_ok s" "room 1 s" "0 < R d" "0 < R c"
  obtain x where x: "ctx_at s d = Some x" using held_exists [OF a(1,4)] by blast
  have "wp (Option.bind (upd_ctx s d (\<lambda>x. x\<lparr>c_logfile := None\<rparr>)) (\<lambda>s1. skynet_log_close ho s1 c f h)) (step_ok (0 + 1) s R W N Z)" for f
  proof (rule step_bind [OF logfile_step [OF a(1,2,4)], where h = "\<lambda>x. x"])
    fix r
    assume k: "step_ok 0 s R W N Z r"
    show "wp (skynet_log_close ho r c f h) (step_ok 1 r R W N Z)"
      by (rule log_close_step [OF step_okD(1,2) [OF k] _ a(5)]) (use step_okD(5) [OF k, of 1] a(3) in simp)
  qed
  then show "wp (Option.bind (ctx_at s d) (\<lambda>x. case c_logfile x of None \<Rightarrow> Some s | Some f \<Rightarrow>
        Option.bind (upd_ctx s d (\<lambda>x. x\<lparr>c_logfile := None\<rparr>)) (\<lambda>s1. skynet_log_close ho s1 c f h))) (step_ok 1 s R W N Z)"
    unfolding x Option.bind.bind_lunit using step_refl [OF a(1,2)] by (simp add: wp_basic split: option.split)
qed

lemma cmd_signal_step:
  assumes ho: "host_ok ho b" and inv: "server_inv s R W N Z" and n: "net_ok s" "room (1 + (b + b)) s" and c: "0 < R c"
  shows "cmd_spec (1 + (b + b)) s R W N Z (cmd_signal ho s c (Some p))"
  unfolding cmd_signal_def
proof (rule with_service_step [OF ho inv n c])
  fix s R d and h :: u32
  assume a: "server_inv s R W N Z" "net_ok s" "room b s" "0 < R d" "0 < R c"
  obtain x where x: "ctx_at s d = Some x" using held_exists [OF a(1,4)] by blast
  show "wp (Option.bind (ctx_at s d) (\<lambda>x. let sg = (if 32 \<in> set p then to_i32 (strtol_auto (dropWhile (\<lambda>c. c \<noteq> 32) p)) else 0) in
      ho_signal ho (c_mod x) (c_instance x) sg s)) (step_ok b s R W N Z)"
    unfolding x Option.bind.bind_lunit Let_def by (rule host_okD(3) [OF ho a(1-3)])
qed

text \<open>
  What the caller of a command must respect: the commands that read their parameter get one, NAME gets
  two words, SETENV a new key, LAUNCH a free handle, and there is room for a name. ABORT is
  treated on its own.
\<close>

definition cmd_ok :: "server \<Rightarrow> string \<Rightarrow> bytes option \<Rightarrow> bool" where
  "cmd_ok s cmd prm \<longleftrightarrow>
     (cmd \<notin> {''REG'', ''EXIT'', ''STARTTIME'', ''MONITOR''} \<longrightarrow> prm \<noteq> None) \<and>
     (cmd = ''NAME'' \<longrightarrow> two_words (the prm)) \<and>
     (cmd \<in> {''REG'', ''NAME''} \<longrightarrow> names_room s) \<and>
     (cmd = ''SETENV'' \<longrightarrow> sv_env s (fst (split_at [32] (the prm))) = None) \<and>
     (cmd = ''LAUNCH'' \<longrightarrow> launchable s) \<and> cmd \<noteq> ''ABORT''"

text \<open>The most messages that one command can add to a mailbox.\<close>

definition cmd_bound :: "nat \<Rightarrow> nat" where "cmd_bound b = 6 * b + 3"

lemma command_step:
  assumes ho: "host_ok ho b" and inv: "server_inv s R W N Z" and n: "net_ok s" "room (cmd_bound b) s"
    and c: "0 < R c" and ok: "cmd_ok s cmd prm"
  shows "cmd_spec (cmd_bound b) s R W N Z (skynet_command ho s c cmd prm)"
proof -
  have rm: "room k s" if "k \<le> cmd_bound b" for k by (rule room_mono [OF n(2) that])
  note w = step_weaken [where k = "cmd_bound b"]
  show ?thesis
  proof (cases "map_of cmd_funcs cmd")
    case None
    then show ?thesis using step_refl [OF inv n(1)] by (simp add: skynet_command_def wp_simps)
  next
    case (Some f)
    have pr: "prm = Some (the prm)" if "cmd \<notin> {''REG'', ''EXIT'', ''STARTTIME'', ''MONITOR''}"
      using ok that by (auto simp: cmd_ok_def)
    from map_of_SomeD [OF Some] consider
      "cmd = ''TIMEOUT''" "f = cmd_timeout" | "cmd = ''REG''" "f = cmd_reg" | "cmd = ''QUERY''" "f = (\<lambda>_. cmd_query)" |
      "cmd = ''NAME''" "f = cmd_name" | "cmd = ''EXIT''" "f = cmd_exit" | "cmd = ''KILL''" "f = cmd_kill" |
      "cmd = ''LAUNCH''" "f = cmd_launch" | "cmd = ''GETENV''" "f = (\<lambda>_. cmd_getenv)" |
      "cmd = ''SETENV''" "f = (\<lambda>_. cmd_setenv)" | "cmd = ''STARTTIME''" "f = (\<lambda>_. cmd_starttime)" |
      "cmd = ''ABORT''" | "cmd = ''MONITOR''" "f = cmd_monitor" | "cmd = ''STAT''" "f = cmd_stat" |
      "cmd = ''LOGON''" "f = cmd_logon" | "cmd = ''LOGOFF''" "f = cmd_logoff" | "cmd = ''SIGNAL''" "f = cmd_signal"
      unfolding cmd_funcs_def list.set insert_iff empty_iff prod.inject by (elim disjE conjE FalseE) blast+
    then have "cmd_spec (cmd_bound b) s R W N Z (f ho s c prm)"
    proof cases
      case 1
      then show ?thesis using w [OF cmd_timeout_step [OF inv n(1) rm c, where p = "the prm"]] pr by (simp add: cmd_bound_def)
    next
      case 2
      have "names_room s" using ok 2 by (simp add: cmd_ok_def)
      then show ?thesis using w [OF cmd_reg_step [OF inv n(1) rm c]] 2 by (simp add: cmd_bound_def)
    next
      case 3
      then show ?thesis using w [OF cmd_query_step [OF inv n(1) c, where p = "the prm"]] pr by (simp add: cmd_bound_def)
    next
      case 4
      have "names_room s" "two_words (the prm)" using ok 4 by (simp_all add: cmd_ok_def)
      then show ?thesis using w [OF cmd_name_step [OF inv n(1) rm c, where p = "the prm"]] pr 4 by (simp add: cmd_bound_def)
    next
      case 5
      have "wp (handle_exit ho s c 0) (step_ok (b + 2) s R W N Z)"
        by (rule handle_exit_step [OF ho inv n(1) rm c]) (simp add: cmd_bound_def)
      from w [OF no_result_step [OF this]] show ?thesis using 5 by (simp add: cmd_exit_def cmd_bound_def)
    next
      case 6
      then show ?thesis using w [OF cmd_kill_step [OF ho inv n(1) rm c, where p = "the prm"]] pr by (simp add: cmd_bound_def)
    next
      case 7
      have "launchable s" using ok 7 by (simp add: cmd_ok_def)
      then show ?thesis using w [OF cmd_launch_step [OF ho inv n(1) rm c, where p = "the prm"]] pr 7 by (simp add: cmd_bound_def)
    next
      case 8
      then show ?thesis using pr step_refl [OF inv n(1)] by (cases prm) (simp_all add: cmd_getenv_def wp_simps)
    next
      case 9
      have "sv_env s (fst (split_at [32] (the prm))) = None" using ok 9 by (simp add: cmd_ok_def)
      from w [OF cmd_setenv_step [OF inv n(1) this]] show ?thesis using pr 9 by (simp add: cmd_bound_def)
    next
      case 10
      have "length (dec_u32 (skynet_starttime (sv_timer s))) < 32" using dec_u32_length [of "skynet_starttime (sv_timer s)"] by simp
      from w [OF result_step [OF inv n(1) c this]] show ?thesis using 10 by (simp add: cmd_starttime_def cmd_bound_def)
    next
      case 11
      then show ?thesis using ok by (simp add: cmd_ok_def)
    next
      case 12
      then show ?thesis using w [OF cmd_monitor_step [OF inv n(1) rm c]] by (simp add: cmd_bound_def)
    next
      case 13
      then show ?thesis using w [OF cmd_stat_step [OF inv n(1) c, where p = "the prm"]] pr by (simp add: cmd_bound_def)
    next
      case 14
      then show ?thesis using w [OF cmd_logon_step [OF ho inv n(1) rm c, where p = "the prm"]] pr by (simp add: cmd_bound_def)
    next
      case 15
      then show ?thesis using w [OF cmd_logoff_step [OF ho inv n(1) rm c, where p = "the prm"]] pr by (simp add: cmd_bound_def)
    next
      case 16
      then show ?thesis using w [OF cmd_signal_step [OF ho inv n(1) rm c, where p = "the prm"]] pr by (simp add: cmd_bound_def)
    qed
    then show ?thesis using Some by (simp add: skynet_command_def)
  qed
qed

end
