(* ===== verification/Dispatch.thy ===== *)
theory Dispatch
  imports Commands
begin

text \<open>
  Dispatching: what a worker does with the mailbox that it took from the global queue. Whatever the
  callbacks do within their contract, no assert fails, the invariant is kept, and the worker returns the
  mailbox that it holds next.
\<close>

declare One_nat_def [simp del]

section \<open>The global queue\<close>

lemma mq_overload_held:
  assumes "mq_held m H" "mq_at m p = Some q"
  shows "mq_held (set_mq m p (fst (mq_overload q))) H" "mq_view (set_mq m p (fst (mq_overload q))) = mq_view m"
proof -
  have i: "mq_items (fst (mq_overload q)) = mq_items q" "q_next (fst (mq_overload q)) = q_next q"
    "mq_wf (fst (mq_overload q)) = mq_wf q" "loc_ok a (fst (mq_overload q)) = loc_ok a q"
    "q_handle (fst (mq_overload q)) = q_handle q" "q_release (fst (mq_overload q)) = q_release q" for a
    by (simp_all add: mq_overload_def mq_items_def mq_wf_def loc_ok_def)
  obtain L where L: "sys_inv_for L (m, H)" using assms(1) by (auto simp: mq_held_def sys_inv_def)
  have "sys_inv_for L (set_mq m p (fst (mq_overload q)), H)"
    by (rule sys_inv_set [OF L assms(2)]) (use sys_inv_forD(5) [OF L assms(2)] in \<open>simp_all add: i\<close>)
  then show "mq_held (set_mq m p (fst (mq_overload q))) H" by (auto simp: mq_held_def sys_inv_def)
  show "mq_view (set_mq m p (fst (mq_overload q))) = mq_view m"
    using assms(2) by (auto simp: mq_view_set i mq_view_def fun_eq_iff)
qed

text \<open>A step on the mailboxes that leaves their messages alone.\<close>

lemma hold_step:
  assumes inv: "server_inv s R W N Z" and n: "net_ok s" and mq: "mq_held mq (W' \<union> N)" "W' \<inter> N = {}" "mq_view mq = mbox s"
  shows "step_ok 0 s R W' N Z (s\<lparr>sv_mq := mq\<rparr>)"
proof -
  have f: "same_frame s (s\<lparr>sv_mq := mq\<rparr>)" by (simp add: same_frame_def)
  have "server_inv (s\<lparr>sv_mq := mq\<rparr>) R W' N Z" by (rule server_inv_frame [OF inv f]) (use mq in auto)
  then show ?thesis
    using n net_ok_frame [OF f] stable_frame [OF f] grow_frame [of "s\<lparr>sv_mq := mq\<rparr>" s 0] mq(3) by (simp add: step_ok_def)
qed

definition with_queue :: "nat set \<Rightarrow> nat option \<Rightarrow> nat set" where
  "with_queue W r = (case r of None \<Rightarrow> W | Some p \<Rightarrow> insert p W)"

lemma pop_global_step:
  assumes inv: "server_inv s R W N Z" and n: "net_ok s"
  shows "\<exists>s' r. pop_global s = Some (s', r) \<and> step_ok 0 s R (with_queue W r) N Z s' \<and> (\<forall>p. r = Some p \<longrightarrow> p \<notin> W \<union> N)"
proof -
  from mb.take_law [OF server_invD(3) [OF inv]] obtain mq r where
    mq: "globalmq_pop (sv_mq s) = Some (mq, r)" "mq_view mq = mbox s"
      "case r of None \<Rightarrow> mq_held mq (W \<union> N) | Some p \<Rightarrow> p \<notin> W \<union> N \<and> mq_held mq (insert p (W \<union> N))" by blast
  have "step_ok 0 s R (with_queue W r) N Z (s\<lparr>sv_mq := mq\<rparr>)"
    by (rule hold_step [OF inv n _ _ mq(2)]) (use mq(3) server_invD(4) [OF inv] in \<open>auto simp: with_queue_def split: option.splits\<close>)
  then show ?thesis using mq(1,3) by (auto simp: pop_global_def split: option.splits)
qed

lemma next_queue_step:
  assumes inv: "server_inv s R W N Z" and n: "net_ok s" and q: "q \<in> W"
  shows "\<exists>s' nq. next_queue s q = Some (s', nq) \<and> step_ok 0 s R (insert nq (W - {q})) N Z s'"
proof -
  from pop_global_step [OF inv n] obtain s1 r where
    s1: "pop_global s = Some (s1, r)" "step_ok 0 s R (with_queue W r) N Z s1" "\<forall>p. r = Some p \<longrightarrow> p \<notin> W \<union> N" by blast
  show ?thesis
  proof (cases r)
    case None
    have "insert q (W - {q}) = W" using q by auto
    then show ?thesis using None s1 by (simp add: next_queue_def with_queue_def)
  next
    case (Some p)
    then have i1: "server_inv s1 R (insert p W) N Z" using s1(2) by (simp add: step_ok_def with_queue_def)
    have pq: "p \<noteq> q" "q \<notin> N" using s1(3) Some q server_invD(4) [OF inv] by auto
    from mb.put_law [OF server_invD(3) [OF i1], of q] q obtain mq where
      mq: "globalmq_push (sv_mq s1) q = Some mq" "mq_held mq (insert p W \<union> N - {q})" "mq_view mq = mbox s1" by auto
    have "insert p W \<union> N - {q} = insert p (W - {q}) \<union> N" using pq by auto
    then have "step_ok 0 s1 R (insert p (W - {q})) N Z (s1\<lparr>sv_mq := mq\<rparr>)"
      by (intro hold_step [OF i1 step_okD(2) [OF s1(2)] _ _ mq(3)]) (use mq(2) server_invD(4) [OF i1] in auto)
    then show ?thesis using Some s1(1) mq(1) step_ok_trans [OF s1(2)] by (simp add: next_queue_def)
  qed
qed

section \<open>One message\<close>

lemma call_cb_step:
  assumes ho: "host_ok ho b" and inv: "server_inv s R W N Z" and n: "net_ok s" "room b s" and c: "0 < R c"
    and x: "ctx_at s c = Some x" "c_cb x \<noteq> None"
  shows "cmd_spec b s R W N Z (call_cb ho s c m)"
proof -
  obtain cb where "c_cb x = Some cb" using x(2) by blast
  then show ?thesis using x(1) host_okD(4) [OF ho inv n c] by (simp add: call_cb_def)
qed

lemma profiled_cb_step:
  assumes ho: "host_ok ho b" and inv: "server_inv s R W N Z" and n: "net_ok s" "room b s" and c: "0 < R c"
    and x: "ctx_at s c = Some x" "c_cb x \<noteq> None"
  shows "cmd_spec b s R W N Z (profiled_cb ho s c m)"
proof -
  obtain s1 start where s1: "thread_time ho s = (s1, start)" by fastforce
  have f1: "same_frame s s1" "sv_mq s1 = sv_mq s" using s1 by (auto simp: thread_time_def same_frame_def)
  have k1: "step_ok 0 s R W N Z s1" by (rule frame_step [OF inv n(1) f1])
  have x1: "ctx_at s1 c = Some x" using x(1) same_frame_ctx [OF f1(1)] by simp
  let ?x2 = "x\<lparr>c_cpu_start := start\<rparr>"
  let ?s2 = "put_ctx s1 c ?x2"
  have u: "upd_ctx s1 c (\<lambda>x. x\<lparr>c_cpu_start := start\<rparr>) = Some ?s2" by (rule upd_ctx_Some [OF x1])
  have k2: "step_ok 0 s1 R W N Z ?s2"
    by (rule upd_step(2) [OF step_okD(1,2) [OF k1] x1]) (simp_all add: same_core_def)
  have k12: "step_ok 0 s R W N Z ?s2" using step_ok_trans [OF k1 k2] by simp
  have "room b ?s2" using step_okD(5) [OF k12, of b] n(2) by simp
  then have "cmd_spec b ?s2 R W N Z (call_cb ho ?s2 c m)"
    using call_cb_step [OF ho step_okD(1,2) [OF k12] _ c, of ?x2] x1 x(2) by simp
  then obtain s3 r where s3: "call_cb ho ?s2 c m = Some (s3, r)" "step_ok b ?s2 R W N Z s3" by (auto simp: wp_iff)
  obtain s4 now where s4: "thread_time ho s3 = (s4, now)" by fastforce
  have k4: "step_ok 0 s3 R W N Z s4"
    by (rule frame_step [OF step_okD(1,2) [OF s3(2)]]) (use s4 in \<open>auto simp: thread_time_def same_frame_def\<close>)
  obtain x4 where x4: "ctx_at s4 c = Some x4" using held_exists [OF step_okD(1) [OF k4] c] by blast
  let ?f = "\<lambda>x. x\<lparr>c_cpu_cost := c_cpu_cost x + (now - c_cpu_start x)\<rparr>"
  have k5: "step_ok 0 s4 R W N Z (put_ctx s4 c (?f x4))"
    by (rule upd_step(2) [OF step_okD(1,2) [OF k4] x4]) (simp_all add: same_core_def)
  have "step_ok b s R W N Z (put_ctx s4 c (?f x4))"
    using step_ok_trans [OF k12 step_ok_trans [OF s3(2) step_ok_trans [OF k4 k5]]] by simp
  then show ?thesis using s1 u s3(1) s4 upd_ctx_Some [OF x4, of ?f] by (simp add: profiled_cb_def wp_simps)
qed

lemma ctx_dispatch_step:
  assumes ho: "host_ok ho b" and inv: "server_inv s R W N Z" and n: "net_ok s" "room b s" and c: "0 < R c"
    and x: "ctx_at s c = Some x" "c_cb x \<noteq> None" "c_init x"
  shows "wp (ctx_dispatch_message ho s c m) (step_ok b s R W N Z)"
proof -
  let ?s1 = "s\<lparr>sv_key := c_handle x\<rparr>"
  define s2 where "s2 = (case c_logfile x of None \<Rightarrow> ?s1
    | Some f \<Rightarrow> emit ?s1 (Log_output f (m_source m) (uint (sz_type (m_sz m))) (m_session m) (m_data m) (sz_mask (m_sz m))))"
  have f2: "same_frame s s2" "sv_mq s2 = sv_mq s"
    by (simp_all add: s2_def same_frame_def emit_def split: option.split)
  have k2: "step_ok 0 s R W N Z s2" by (rule frame_step [OF inv n(1) f2])
  have x2: "ctx_at s2 c = Some x" using x(1) same_frame_ctx [OF f2(1)] by simp
  let ?f = "\<lambda>x. x\<lparr>c_message_count := c_message_count x + 1\<rparr>"
  let ?s3 = "put_ctx s2 c (?f x)"
  have k3: "step_ok 0 s2 R W N Z ?s3"
    by (rule upd_step(2) [OF step_okD(1,2) [OF k2] x2]) (simp_all add: same_core_def)
  have k23: "step_ok 0 s R W N Z ?s3" using step_ok_trans [OF k2 k3] by simp
  have r3: "room b ?s3" using step_okD(5) [OF k23, of b] n(2) by simp
  have "cmd_spec b ?s3 R W N Z (if c_profile x then profiled_cb ho ?s3 c m else call_cb ho ?s3 c m)"
    using profiled_cb_step [OF ho step_okD(1,2) [OF k23] r3 c, of "?f x"]
      call_cb_step [OF ho step_okD(1,2) [OF k23] r3 c, of "?f x"] x2 x(2) by simp
  then obtain s4 r where s4: "(if c_profile x then profiled_cb ho ?s3 c m else call_cb ho ?s3 c m) = Some (s4, r)"
    "step_ok b ?s3 R W N Z s4" unfolding wp_iff split_paired_Ex fst_conv by blast
  have k4: "step_ok b s R W N Z s4" using step_ok_trans [OF k23 s4(2)] by simp
  have k5: "step_ok b s R W N Z (skynet_free s4 a)" for a
    using step_ok_trans [OF k4 frame_step [OF step_okD(1,2) [OF k4], of "skynet_free s4 a" 0]] by simp
  have "ctx_dispatch_message ho s c m = Some (if r = 0 then skynet_free s4 (m_data m) else s4)"
    using x(3) upd_ctx_Some [OF x2, of ?f] s4(1)
    unfolding ctx_dispatch_message_def x(1) Option.bind.bind_lunit Let_def s2_def [symmetric] by simp
  then show ?thesis using k4 k5 by (simp add: wp_simps)
qed

lemma dispatch_one_step:
  assumes ho: "host_ok ho b" and inv: "server_inv s R W N Z" and n: "net_ok s" "room (1 + b) s" and c: "0 < R c"
    and x: "ctx_at s c = Some x" "c_queue x = q" "c_init x"
  shows "wp (dispatch_one ho s sm q c h m) (\<lambda>r. step_ok (1 + b) s R W N Z (fst r))"
proof -
  obtain i t xs where "mbox s q = Some (i, t, xs)" using server_invD(6) [OF inv x(1)] x(2) by (auto simp: ctx_ok_def)
  then obtain mq where mq: "mq_at (sv_mq s) q = Some mq" by (auto simp: mq_view_def)
  obtain mq' ov where ov: "mq_overload mq = (mq', ov)" by fastforce
  let ?s1 = "s\<lparr>sv_mq := set_mq (sv_mq s) q mq'\<rparr>"
  have k1: "step_ok 0 s R W N Z ?s1"
    using hold_step [OF inv n(1) _ server_invD(4) [OF inv]] mq_overload_held [OF server_invD(3) [OF inv] mq] ov by simp
  have r1: "room (1 + b) ?s1" using step_okD(5) [OF k1, of "1 + b"] n(2) by simp
  define tx where "tx = str ''May overload, message queue length = '' @ dec ov"
  have "wp (skynet_error ho ?s1 (Some c) tx) (step_ok 1 ?s1 R W N Z)"
    by (rule error_step [OF step_okD(1,2) [OF k1] room_mono [OF r1]]) (use c in simp_all)
  then have "wp (if ov \<noteq> 0 then skynet_error ho ?s1 (Some c) tx else Some ?s1) (step_ok 1 ?s1 R W N Z)"
    using step_refl [OF step_okD(1,2) [OF k1]] by (simp add: wp_simps)
  then obtain s2 where s2: "(if ov \<noteq> 0 then skynet_error ho ?s1 (Some c) tx else Some ?s1) = Some s2"
    "step_ok 1 ?s1 R W N Z s2" unfolding wp_iff by blast
  have k2: "step_ok 1 s R W N Z s2" using step_ok_trans [OF k1 s2(2)] by simp
  have r2: "room b s2" by (rule step_okD(5) [OF k2 n(2)])
  obtain x2 where x2: "ctx_at s2 c = Some x2" "same_core x x2" using held_kept [OF k2 x(1) c] by blast
  have "wp (if c_cb x2 = None then Some (skynet_free s2 (m_data m)) else ctx_dispatch_message ho s2 c m) (step_ok b s2 R W N Z)"
  proof (cases "c_cb x2 = None")
    case True
    then show ?thesis using frame_step [OF step_okD(1,2) [OF k2], of "skynet_free s2 (m_data m)" b] by (simp add: wp_simps)
  next
    case False
    have "c_init x2" using x2(2) x(3) by (simp add: same_core_def)
    then show ?thesis unfolding if_not_P [OF False] by (rule ctx_dispatch_step [OF ho step_okD(1,2) [OF k2] r2 c x2(1) False])
  qed
  then obtain s3 where s3: "(if c_cb x2 = None then Some (skynet_free s2 (m_data m)) else ctx_dispatch_message ho s2 c m) = Some s3"
    "step_ok b s2 R W N Z s3" unfolding wp_iff by blast
  have "dispatch_one ho s sm q c h m = Some (s3, skynet_monitor_trigger (skynet_monitor_trigger sm (m_source m) h) 0 0)"
    unfolding dispatch_one_def mq Option.bind.bind_lunit Let_def ov prod.case tx_def [symmetric] s2(1) x2(1) s3(1) ..
  then show ?thesis using step_ok_trans [OF k2 s3(2)] by (simp add: wp_simps)
qed

section \<open>A batch of messages\<close>

text \<open>The context whose mailbox is dispatched: it is held, and it has been initialised.\<close>

definition running :: "server \<Rightarrow> nat \<Rightarrow> nat \<Rightarrow> bool" where
  "running s c q \<longleftrightarrow> (\<exists>x. ctx_at s c = Some x \<and> c_queue x = q \<and> c_init x)"

lemma running_kept: "running s c q \<Longrightarrow> step_ok n s R W N Z s' \<Longrightarrow> 0 < R c \<Longrightarrow> running s' c q"
  using held_kept unfolding running_def same_core_def by metis

definition batch_end :: "nat set \<Rightarrow> nat \<Rightarrow> bool \<Rightarrow> nat set" where
  "batch_end W q e = (if e then W - {q} else W)"

text \<open>Taking a message from the mailbox.\<close>

lemma pop_step:
  assumes inv: "server_inv s R W N Z" and n: "net_ok s" and q: "q \<in> W" and run: "running s c q"
  shows "\<exists>mq xs. skynet_mq_pop (sv_mq s) q = Some (mq, if xs = [] then None else Some (hd xs)) \<and>
    mlen s q = length xs \<and> mlen (s\<lparr>sv_mq := mq\<rparr>) q = length (tl xs) \<and>
    step_ok 0 s R (batch_end W q (xs = [])) N Z (s\<lparr>sv_mq := mq\<rparr>)"
proof -
  obtain x where x: "ctx_at s c = Some x" "c_queue x = q" using run by (auto simp: running_def)
  obtain h xs where xs: "mbox s q = Some (h, False, xs)" using server_invD(6) [OF inv x(1)] x(2) by (auto simp: ctx_ok_def)
  have qn: "q \<notin> N" using q server_invD(4) [OF inv] by auto
  from mb.pop_law [OF server_invD(3) [OF inv] _ xs] q obtain mq where
    mq: "skynet_mq_pop (sv_mq s) q = Some (mq, if xs = [] then None else Some (hd xs))"
      "mq_held mq (if xs = [] then W \<union> N - {q} else W \<union> N)" "mq_view mq = (mbox s)(q \<mapsto> (h, False, tl xs))" by blast
  let ?s = "s\<lparr>sv_mq := mq\<rparr>" and ?W = "batch_end W q (xs = [])"
  have f: "same_frame s ?s" by (simp add: same_frame_def)
  have d: "(if xs = [] then W \<union> N - {q} else W \<union> N) = ?W \<union> N" using qn by (auto simp: batch_end_def)
  have i: "server_inv ?s R ?W N Z"
  proof (rule server_inv_frame [OF inv f])
    show "mq_held (sv_mq ?s) (?W \<union> N)" using mq(2) unfolding d by simp
    show "?W \<inter> N = {}" using server_invD(4) [OF inv] by (auto simp: batch_end_def)
    show "\<exists>ys. mbox ?s p = Some (i, r, ys)" if "mbox s p = Some (i, r, zs)" for p i r zs
      using that xs mq(3) by (cases "p = q") auto
    show "mbox ?s p = None" if "mbox s p = None" for p using that xs mq(3) by (cases "p = q") auto
  qed
  have "grow 0 s ?s" by (rule grow_upd [OF xs, of _ h False "tl xs"]) (simp_all add: mq(3))
  then have "step_ok 0 s R ?W N Z ?s" using i n net_ok_frame [OF f] stable_frame [OF f] by (simp add: step_ok_def)
  moreover have "mlen ?s q = length (tl xs)" using mq(3) by (simp add: mlen_def)
  moreover have "mlen s q = length xs" by (rule mlen_eq [OF xs])
  ultimately show ?thesis using mq(1) by blast
qed

lemma mq_length_view:
  assumes inv: "server_inv s R W N Z" and run: "running s c q"
  shows "\<exists>mq. mq_at (sv_mq s) q = Some mq \<and> mq_length mq = int (mlen s q)"
proof -
  obtain x where x: "ctx_at s c = Some x" "c_queue x = q" using run by (auto simp: running_def)
  obtain h xs where xs: "mbox s q = Some (h, False, xs)" using server_invD(6) [OF inv x(1)] x(2) by (auto simp: ctx_ok_def)
  then obtain mq where mq: "mq_at (sv_mq s) q = Some mq" "mq_items mq = xs" by (auto simp: mq_view_def)
  obtain L where L: "sys_inv_for L (sv_mq s, W \<union> N)" using server_invD(3) [OF inv] by (auto simp: mq_held_def sys_inv_def)
  have "mq_wf mq" using sys_inv_forD(5) [OF L mq(1)] by simp
  then have "mq_length mq = int (mlen s q)" using mq_length_items [of mq] mq(2) mlen_eq [OF xs] by simp
  then show ?thesis using mq(1) by blast
qed

declare dispatch_batch.simps [simp del]

text \<open>The messages after the first one.\<close>

lemma dispatch_rest_step:
  assumes ho: "host_ok ho b" and inv: "server_inv s R W N Z" and n: "net_ok s" "room (nat (k - i) * (1 + b)) s"
    and c: "0 < R c" and q: "q \<in> W" "running s c q" and i: "0 < i"
  shows "\<exists>s' sm' e. dispatch_batch ho s sm q c h weight i k = Some (s', sm', e) \<and>
    step_ok (nat (k - i) * (1 + b)) s R (batch_end W q e) N Z s' \<and> (\<not> e \<longrightarrow> running s' c q)"
  using inv n q i
proof (induction "nat (k - i)" arbitrary: s sm i)
  case 0
  then have "dispatch_batch ho s sm q c h weight i k = Some (s, sm, False)" by (subst dispatch_batch.simps) simp
  moreover have "step_ok (nat (k - i) * (1 + b)) s R (batch_end W q False) N Z s"
    using step_refl [OF 0(2,3)] by (simp add: batch_end_def)
  ultimately show ?case using 0(6) by blast
next
  case (Suc d)
  have lt: "i < k" using Suc.hyps(2) by simp
  have d: "nat (k - (i + 1)) = d" using Suc.hyps(2) by simp
  from pop_step [OF Suc.prems(1,2,4,5)] obtain mq xs where
    mq: "skynet_mq_pop (sv_mq s) q = Some (mq, if xs = [] then None else Some (hd xs))"
      "step_ok 0 s R (batch_end W q (xs = [])) N Z (s\<lparr>sv_mq := mq\<rparr>)" by blast
  let ?s1 = "s\<lparr>sv_mq := mq\<rparr>"
  show ?case
  proof (cases "xs = []")
    case True
    then have "dispatch_batch ho s sm q c h weight i k = Some (?s1, sm, True)"
      using mq(1) lt by (subst dispatch_batch.simps) simp
    moreover have "step_ok (nat (k - i) * (1 + b)) s R (batch_end W q True) N Z ?s1"
      using step_ok_mono [OF mq(2)] True by simp
    ultimately show ?thesis by blast
  next
    case False
    then have k1: "step_ok 0 s R W N Z ?s1" using mq(2) by (simp add: batch_end_def)
    have bound: "nat (k - i) * (1 + b) = 1 + b + d * (1 + b)" using Suc.hyps(2) [symmetric] by (simp add: algebra_simps One_nat_def)
    have r1: "room (1 + b + d * (1 + b)) ?s1" using step_okD(5) [OF k1, of "1 + b + d * (1 + b)"] Suc.prems(3) bound by simp
    have run1: "running ?s1 c q" by (rule running_kept [OF Suc.prems(5) k1 c])
    then obtain x where x: "ctx_at ?s1 c = Some x" "c_queue x = q" "c_init x" by (auto simp: running_def)
    have "wp (dispatch_one ho ?s1 sm q c h (hd xs)) (\<lambda>r. step_ok (1 + b) ?s1 R W N Z (fst r))"
      by (rule dispatch_one_step [OF ho step_okD(1,2) [OF k1] room_mono [OF r1] c x]) simp
    then obtain s2 sm2 where s2: "dispatch_one ho ?s1 sm q c h (hd xs) = Some (s2, sm2)" "step_ok (1 + b) ?s1 R W N Z s2"
      by (auto simp: wp_iff)
    have k2: "step_ok (1 + b) s R W N Z s2" using step_ok_trans [OF k1 s2(2)] by simp
    have r2: "room (nat (k - (i + 1)) * (1 + b)) s2" unfolding d by (rule step_okD(5) [OF s2(2) r1])
    have run2: "running s2 c q" by (rule running_kept [OF Suc.prems(5) k2 c])
    have i1: "0 < i + 1" using Suc.prems(6) by simp
    from Suc.hyps(1) [OF d [symmetric] step_okD(1,2) [OF k2] r2 Suc.prems(4) run2 i1, of sm2] obtain s' sm' e where
      s': "dispatch_batch ho s2 sm2 q c h weight (i + 1) k = Some (s', sm', e)"
        "step_ok (nat (k - (i + 1)) * (1 + b)) s2 R (batch_end W q e) N Z s'" "\<not> e \<longrightarrow> running s' c q" by blast
    have "dispatch_batch ho s sm q c h weight i k = Some (s', sm', e)"
      using mq(1) lt False s2(1) s'(1) Suc.prems(6) by (subst dispatch_batch.simps) simp
    moreover have "step_ok (nat (k - i) * (1 + b)) s R (batch_end W q e) N Z s'"
      using step_ok_trans [OF k2 s'(2)] unfolding bound d by simp
    ultimately show ?thesis using s'(3) by blast
  qed
qed

text \<open>The whole batch: the mailbox loses at least one message, or it is empty and given up.\<close>

lemma dispatch_batch_step:
  assumes ho: "host_ok ho b" and inv: "server_inv s R W N Z" and n: "net_ok s" "room ((1 + mlen s q) * (1 + b)) s"
    and c: "0 < R c" and q: "q \<in> W" "running s c q"
  shows "\<exists>s' sm' e. dispatch_batch ho s sm q c h weight 0 1 = Some (s', sm', e) \<and>
    step_ok ((1 + mlen s q) * (1 + b)) s R (batch_end W q e) N Z s' \<and> (\<not> e \<longrightarrow> running s' c q)"
proof -
  from pop_step [OF inv n(1) q] obtain mq xs where
    mq: "skynet_mq_pop (sv_mq s) q = Some (mq, if xs = [] then None else Some (hd xs))" "mlen s q = length xs"
      "mlen (s\<lparr>sv_mq := mq\<rparr>) q = length (tl xs)" "step_ok 0 s R (batch_end W q (xs = [])) N Z (s\<lparr>sv_mq := mq\<rparr>)" by blast
  let ?s1 = "s\<lparr>sv_mq := mq\<rparr>"
  show ?thesis
  proof (cases "xs = []")
    case True
    then have "dispatch_batch ho s sm q c h weight 0 1 = Some (?s1, sm, True)"
      using mq(1) by (subst dispatch_batch.simps) simp
    moreover have "step_ok ((1 + mlen s q) * (1 + b)) s R (batch_end W q True) N Z ?s1"
      using step_ok_mono [OF mq(4)] True by simp
    ultimately show ?thesis by blast
  next
    case False
    then have k1: "step_ok 0 s R W N Z ?s1" using mq(4) by (simp add: batch_end_def)
    have run1: "running ?s1 c q" by (rule running_kept [OF q(2) k1 c])
    from mq_length_view [OF step_okD(1) [OF k1] run1] obtain m where
      m: "mq_at mq q = Some m" "mq_length m = int (length (tl xs))" using mq(3) by auto
    define k where "k = (if weight \<ge> 0 then drop_bit (nat weight) (int (length (tl xs))) else 1)"
    have bt: "batch mq q weight = Some k" using m by (simp add: batch_def k_def)
    have kl: "nat (k - 1) * (1 + b) \<le> length (tl xs) * (1 + b)"
    proof (rule mult_le_mono1)
      have "drop_bit (nat weight) (int (length (tl xs))) \<le> int (length (tl xs))"
        using zdiv_mono2 [of "int (length (tl xs))" 1 "2 ^ nat weight"] by (simp add: drop_bit_eq_div)
      then show "nat (k - 1) \<le> length (tl xs)" by (auto simp: k_def)
    qed
    have bound: "(1 + mlen s q) * (1 + b) = 1 + b + (1 + length (tl xs)) * (1 + b)"
      using False mq(2) by (cases xs) (simp_all add: One_nat_def)
    have r1: "room (1 + b + (1 + length (tl xs)) * (1 + b)) ?s1"
      using step_okD(5) [OF k1, of "(1 + mlen s q) * (1 + b)"] n(2) bound by simp
    obtain x where x: "ctx_at ?s1 c = Some x" "c_queue x = q" "c_init x" using run1 by (auto simp: running_def)
    have "wp (dispatch_one ho ?s1 sm q c h (hd xs)) (\<lambda>r. step_ok (1 + b) ?s1 R W N Z (fst r))"
      by (rule dispatch_one_step [OF ho step_okD(1,2) [OF k1] room_mono [OF r1] c x]) simp
    then obtain s2 sm2 where s2: "dispatch_one ho ?s1 sm q c h (hd xs) = Some (s2, sm2)" "step_ok (1 + b) ?s1 R W N Z s2"
      by (auto simp: wp_iff)
    have k2: "step_ok (1 + b) s R W N Z s2" using step_ok_trans [OF k1 s2(2)] by simp
    have "length (tl xs) * (1 + b) \<le> (1 + length (tl xs)) * (1 + b)" by (rule mult_le_mono1) simp
    then have kl': "nat (k - 1) * (1 + b) \<le> (1 + length (tl xs)) * (1 + b)" using kl by linarith
    have r2: "room (nat (k - 1) * (1 + b)) s2" by (rule room_mono [OF step_okD(5) [OF s2(2) r1] kl'])
    have run2: "running s2 c q" by (rule running_kept [OF q(2) k2 c])
    from dispatch_rest_step [OF ho step_okD(1,2) [OF k2] r2 c q(1) run2, of sm2 h weight] obtain s' sm' e where
      s': "dispatch_batch ho s2 sm2 q c h weight 1 k = Some (s', sm', e)"
        "step_ok (nat (k - 1) * (1 + b)) s2 R (batch_end W q e) N Z s'" "\<not> e \<longrightarrow> running s' c q" by auto
    have "dispatch_batch ho s sm q c h weight 0 1 = Some (s', sm', e)"
      using mq(1) False s2(1) s'(1) bt by (subst dispatch_batch.simps) simp
    moreover have "step_ok ((1 + mlen s q) * (1 + b)) s R (batch_end W q e) N Z s'"
      unfolding bound by (rule step_ok_trans [OF k2 step_ok_mono [OF s'(2) kl']])
    ultimately show ?thesis using s'(3) by blast
  qed
qed

section \<open>A worker's step\<close>

definition dispatch_bound :: "nat \<Rightarrow> nat \<Rightarrow> nat" where
  "dispatch_bound b len = (1 + len) * (1 + b) + b"

lemma mailbox_handle: "mbox s q = Some (h, r, xs) \<Longrightarrow> \<exists>mq. mq_at (sv_mq s) q = Some mq \<and> q_handle mq = h"
  by (auto simp: mq_view_def)

lemma dispatch_queue_step:
  assumes ho: "host_ok ho b" and inv: "server_inv s R W N Z" and n: "net_ok s" "room (dispatch_bound b (mlen s q)) s"
    and q: "q \<in> W"
  shows "\<exists>s' sm' r. dispatch_queue ho s sm q weight = Some (s', sm', r) \<and>
    step_ok (dispatch_bound b (mlen s q)) s R (with_queue (W - {q}) r) N Z s'"
proof -
  have qh: "q \<in> W \<union> N" and qn: "q \<notin> N" using q server_invD(4) [OF inv] by auto
  obtain h r xs where xs: "mbox s q = Some (h, r, xs)"
    using mb.held [OF server_invD(3) [OF inv] qh] by (metis option.exhaust prod_cases3)
  obtain mq where mq: "mq_at (sv_mq s) q = Some mq" "q_handle mq = h" using mailbox_handle [OF xs] by blast
  have hnz: "h \<noteq> 0" by (rule server_invD(9) [OF inv xs])
  let ?B = "dispatch_bound b (mlen s q)"
  have e: "dispatch_queue ho s sm q weight = Option.bind (handle_grab s h) (\<lambda>(s1, ctx).
       case ctx of
         None \<Rightarrow> Option.bind (mq_release ho s1 q h) (\<lambda>s2. map_option (\<lambda>(s3, nq). (s3, sm, nq)) (pop_global s2))
       | Some c \<Rightarrow>
           Option.bind (dispatch_batch ho s1 sm q c h weight 0 1) (\<lambda>(s2, sm2, empty).
             if empty then
               Option.bind (skynet_context_release ho s2 c) (\<lambda>(s3, _). map_option (\<lambda>(s4, nq). (s4, sm2, nq)) (pop_global s3))
             else
               Option.bind (ctx_at s2 c) (\<lambda>x. if c_queue x \<noteq> q then None
               else Option.bind (next_queue s2 q) (\<lambda>(s3, nq).
                 map_option (\<lambda>(s4, _). (s4, sm2, Some nq)) (skynet_context_release ho s3 c)))))"
    using mq by (simp add: dispatch_queue_def)
  show ?thesis
  proof (cases rule: grab_step [OF inv n(1), of h, case_names miss hit])
    case miss
    have nolive: "c_init x" if "ctx_at s c = Some x" "c_queue x = q" "c \<in> live (sv_handles s)" for c x
    proof -
      have "c_handle x = h" using server_invD(6) [OF inv that(1)] that(2) xs by (auto simp: ctx_ok_def)
      then show ?thesis using grab_listed [OF inv, of h c] miss(2) that by (simp add: handle_of_def)
    qed
    have lb: "mlen s q \<le> ?B" by (simp add: dispatch_bound_def algebra_simps)
    have rq: "room (mlen s q) s" by (rule room_mono [OF n(2) lb])
    have "wp (mq_release ho s q h) (step_ok (mlen s q) s R (W - {q}) (N - {q}) Z)"
      by (rule mq_release_spec [OF inv n(1) rq hnz qh]) (rule nolive)
    then obtain s2 where s2: "mq_release ho s q h = Some s2" "step_ok (mlen s q) s R (W - {q}) N Z s2"
      using qn by (auto simp: wp_iff)
    obtain s3 nq where s3: "pop_global s2 = Some (s3, nq)" "step_ok 0 s2 R (with_queue (W - {q}) nq) N Z s3"
      using pop_global_step [OF step_okD(1,2) [OF s2(2)]] by blast
    have "step_ok ?B s R (with_queue (W - {q}) nq) N Z s3"
      by (rule step_ok_mono [OF step_ok_trans [OF s2(2) s3(2)]]) (use lb in simp)
    moreover have "dispatch_queue ho s sm q weight = Some (s3, sm, nq)"
      unfolding e miss(1) using s2(1) s3(1) by simp
    ultimately show ?thesis by blast
  next
    case (hit s1 c)
    let ?R = "R(c := R c + 1)"
    have c: "c \<in> live (sv_handles s)" "handle_of s c = h" using grab_listed [OF inv, of h c] hit(4) by auto
    obtain x where x: "ctx_at s c = Some x" using live_exists [OF inv c(1)] by blast
    have xq: "c_queue x = q" using server_invD(11) [OF inv c(1) x] xs c(2) x by (simp add: handle_of_def)
    have xi: "c_init x" using server_invD(6) [OF inv x] c(1) xq qn by (auto simp: ctx_ok_def)
    obtain x1 where x1: "ctx_at s1 c = Some x1" "same_core x x1" using core_frame_ctx [OF hit(5) x] by blast
    have run: "running s1 c q" using x1 xq xi by (simp add: running_def same_core_def)
    have ml: "mlen s1 q = mlen s q" using mlen_frame [of s1 s] hit(6) by simp
    have rc: "0 < ?R c" using hit(3) by simp
    have r1: "room ((1 + mlen s q) * (1 + b) + b) s1"
      using step_okD(5) [OF hit(2), of ?B] n(2) by (simp add: dispatch_bound_def)
    have r1': "room ((1 + mlen s1 q) * (1 + b)) s1" unfolding ml by (rule room_mono [OF r1]) simp
    from dispatch_batch_step [OF ho step_okD(1,2) [OF hit(2)] r1' rc q run, of sm h weight] obtain s2 sm2 em where
      s2: "dispatch_batch ho s1 sm q c h weight 0 1 = Some (s2, sm2, em)"
        "step_ok ((1 + mlen s q) * (1 + b)) s1 ?R (batch_end W q em) N Z s2" "\<not> em \<longrightarrow> running s2 c q"
      unfolding ml by blast
    have rb: "room b s2" by (rule step_okD(5) [OF s2(2) r1])
    have tr: "step_ok ?B s R W' N Z s'" if "step_ok k s2 R W' N Z s'" "k \<le> b" for k W' s'
      by (rule step_ok_mono [OF step_ok_trans [OF hit(2) step_ok_trans [OF s2(2) that(1)]]])
        (use that(2) in \<open>simp add: dispatch_bound_def\<close>)
    show ?thesis
    proof (cases em)
      case True
      obtain s3 al where s3: "skynet_context_release ho s2 c = Some (s3, al)" "step_ok b s2 R (batch_end W q em) N Z s3"
        by (rule release_back [OF ho step_okD(1,2) [OF s2(2)] rb hit(3)]) (erule that; blast)
      obtain s4 nq where s4: "pop_global s3 = Some (s4, nq)" "step_ok 0 s3 R (with_queue (batch_end W q em) nq) N Z s4"
        using pop_global_step [OF step_okD(1,2) [OF s3(2)]] by blast
      have "step_ok (b + 0) s2 R (with_queue (W - {q}) nq) N Z s4"
        using step_ok_trans [OF s3(2) s4(2)] True by (simp add: batch_end_def)
      then have "step_ok ?B s R (with_queue (W - {q}) nq) N Z s4" by (rule tr) simp
      moreover have "dispatch_queue ho s sm q weight = Some (s4, sm2, nq)"
        unfolding e hit(1) using s2(1) True s3(1) s4(1) by simp
      ultimately show ?thesis by blast
    next
      case False
      then obtain x2 where x2: "ctx_at s2 c = Some x2" "c_queue x2 = q" using s2(3) by (auto simp: running_def)
      have i2: "server_inv s2 ?R W N Z" using step_okD(1) [OF s2(2)] False by (simp add: batch_end_def)
      obtain s3 nq where s3: "next_queue s2 q = Some (s3, nq)" "step_ok 0 s2 ?R (insert nq (W - {q})) N Z s3"
        using next_queue_step [OF i2 step_okD(2) [OF s2(2)] q] by blast
      have rb3: "room b s3" using step_okD(5) [OF s3(2), of b] rb by simp
      obtain s4 al where s4: "skynet_context_release ho s3 c = Some (s4, al)" "step_ok b s3 R (insert nq (W - {q})) N Z s4"
        by (rule release_back [OF ho step_okD(1,2) [OF s3(2)] rb3 hit(3)]) (erule that; blast)
      have "step_ok (0 + b) s2 R (with_queue (W - {q}) (Some nq)) N Z s4"
        using step_ok_trans [OF s3(2) s4(2)] by (simp add: with_queue_def)
      then have "step_ok ?B s R (with_queue (W - {q}) (Some nq)) N Z s4" by (rule tr) simp
      moreover have "dispatch_queue ho s sm q weight = Some (s4, sm2, Some nq)"
        unfolding e hit(1) using s2(1) False x2 s3(1) s4(1) by simp
      ultimately show ?thesis by blast
    qed
  qed
qed

end
