(* ===== verification/ServerProps.thy ===== *)
theory ServerProps
  imports Dispatch
begin

text \<open>
  The properties of the server: what a send does, that commands and workers keep every assertion of
  the code, and the texts of handles. The witnesses run on a node that has been started with one service.
\<close>

section \<open>A node with one service\<close>

definition demo_host :: host where
  "demo_host =
     \<lparr>ho_query = (\<lambda>_. Some 0), ho_create = (\<lambda>_. Some 0), ho_init = (\<lambda>_ _ _ _ s. Some (s, 0)),
      ho_release = (\<lambda>_ _. Some), ho_signal = (\<lambda>_ _ _. Some), ho_cb = (\<lambda>_ _ _ _ _ _ _ _ s. Some (s, 0)),
      ho_clock = (\<lambda>_. 0), ho_fopen = (\<lambda>_. None), ho_ctime = (\<lambda>_. [])\<rparr>"

definition demo_node :: server where
  "demo_node =
     skynet_harbor_init
       (skynet_globalinit
          \<lparr>sv_ctx = [], sv_total = 0, sv_ginit = False, sv_monitor_exit = 0, sv_key = 0, sv_profile = True,
           sv_handles = skynet_handle_init 1, sv_mq = mq_init, sv_timer = timer_create_timer, sv_env = (\<lambda>_. None),
           sv_harbor = NOT 0, sv_remote = None, sv_logger = 0, sv_mem = (\<lambda>_. None), sv_brk = 1, sv_freed = [],
           sv_events = [], sv_reads = 0\<rparr>) 1"

text \<open>The service becomes the harbor of the node while it is launched, as \<open>service_harbor\<close> does.\<close>

definition demo_boot :: "server option" where
  "demo_boot =
     Option.bind (register_context demo_node 0 0) (\<lambda>(s, c, q).
     Option.bind (skynet_harbor_start s c) (\<lambda>s1. map_option fst (launch_ok demo_host s1 c q (str ''harbor'') None)))"

definition demo_server :: server where "demo_server = the demo_boot"

lemma demo_host_ok: "host_ok demo_host 0"
proof -
  have "step_ok 0 s R W N Z s" if "server_inv s R W N Z" "net_ok s" for s R W N Z
    using that by (rule step_refl)
  then show ?thesis unfolding host_ok_def by (simp add: demo_host_def wp_simps)
qed

lemma demo_node_sel [simp]:
  "sv_ctx demo_node = []" "sv_total demo_node = 0" "sv_handles demo_node = skynet_handle_init 1"
  "sv_mq demo_node = mq_init" "sv_remote demo_node = None" "sv_harbor demo_node = 0x1000000" "sv_logger demo_node = 0"
  "sv_profile demo_node = True"
  by (simp_all add: demo_node_def skynet_harbor_init_def skynet_globalinit_def skynet_initthread_def HANDLE_REMOTE_SHIFT_def)

lemma demo_node_inv: "server_inv demo_node (\<lambda>_. 0) {} {} {}"
proof (rule server_invI)
  have at: "ctx_at demo_node c = None" for c by (simp add: ctx_at_def)
  have mv: "mbox demo_node p = None" for p by (simp add: mq_view_def mq_at_def mq_init_def)
  show "slots_inv (handle_of demo_node) (sv_handles demo_node)" "names_inv (sv_handles demo_node)"
    using handle_init_inv(1,2) by simp_all
  have "mq_sys_init (mq_init, {})" by (simp add: mq_sys_init_def)
  then show "mq_held (sv_mq demo_node) ({} \<union> {})" using mqs.inv_init [of "(mq_init, {})"] by (simp add: mq_held_def)
  show "refs demo_node (\<lambda>_. 0) c = 0 \<and> c \<notin> {}" for c by (simp add: refs_def handle_init_inv(3))
  have "contexts demo_node = {}" by (simp add: contexts_def at)
  then show "sv_total demo_node = int (card (contexts demo_node)) - of_bool (sv_remote demo_node \<noteq> None)" by simp
  show "ctx_at demo_node c = Some x \<Longrightarrow> ctx_ok demo_node (\<lambda>_. 0) {} {} c x" for c x by (simp add: at)
  show "c = d" if "ctx_at demo_node c = Some x" for c d x using that by (simp add: at)
  show "h \<noteq> 0" if "mbox demo_node p = Some (h, r, xs)" for p h r xs using that mv [of p] by (simp del: demo_node_sel)
  show "p = c_queue x" if "mbox demo_node p = Some (c_handle x, r, xs)" for p x r xs
    using that mv [of p] by (simp del: demo_node_sel)
qed simp_all

lemma demo_node_launchable: "launchable demo_node"
  by (simp add: launchable_def Let_def mq_view_def mq_at_def mq_init_def skynet_handle_init_def DEFAULT_SLOT_SIZE_def)

text \<open>Becoming the harbor: the reference that is taken replaces the count of the total.\<close>

lemma harbor_start_spec:
  assumes inv: "server_inv s R W N Z" and x: "ctx_at s c = Some x" "c \<notin> Z" and r: "sv_remote s = None"
  shows "\<exists>s'. skynet_harbor_start s c = Some s' \<and> server_inv s' R W N Z \<and> sv_remote s' = Some c \<and>
    s' = context_dec (put_ctx s c (x\<lparr>c_ref := c_ref x + 1\<rparr>))\<lparr>sv_remote := Some c\<rparr>"
proof -
  let ?s1 = "put_ctx s c (x\<lparr>c_ref := c_ref x + 1\<rparr>)" and ?R = "R(c := R c + 1)"
  let ?s = "context_dec ?s1\<lparr>sv_remote := Some c\<rparr>"
  have g: "skynet_context_grab s c = Some ?s1" and i1: "server_inv ?s1 ?R W N Z"
    using grab_spec [OF inv x] by simp_all
  have at: "ctx_at ?s = ctx_at ?s1" by (simp add: ctx_at_def context_dec_def fun_eq_iff)
  have sel: "sv_handles ?s = sv_handles ?s1" "sv_mq ?s = sv_mq ?s1" "sv_remote ?s = Some c" "sv_remote ?s1 = None"
    "sv_total ?s = sv_total ?s1 - 1" using r by (simp_all add: context_dec_def)
  have rf: "refs ?s R = refs ?s1 ?R" using sel(4) unfolding refs_def sel by (auto simp: fun_eq_iff)
  have h: "handle_of ?s = handle_of ?s1" by (simp add: handle_of_def at fun_eq_iff)
  have "server_inv ?s R W N Z"
  proof (rule server_invI)
    show "slots_inv (handle_of ?s) (sv_handles ?s)" "names_inv (sv_handles ?s)"
      using server_invD(1,2) [OF i1] unfolding h sel by simp_all
    show "mq_held (sv_mq ?s) (W \<union> N)" "W \<inter> N = {}" using server_invD(3,4) [OF i1] unfolding sel by simp_all
    show "0 \<le> R d" for d by (rule server_invD(5) [OF inv])
    show "ctx_ok ?s R N Z d y" if "ctx_at ?s d = Some y" for d y
      using server_invD(6) [OF i1, of d y] that unfolding ctx_ok_def rf sel at by simp
    show "refs ?s R d = 0 \<and> d \<notin> Z" if "ctx_at ?s d = None" for d
      using server_invD(7) [OF i1, of d] that unfolding rf at by simp
    show "d = e" if "ctx_at ?s d = Some y" "ctx_at ?s e = Some z" "c_queue y = c_queue z" for d e y z
      using server_invD(8) [OF i1, of d y e z] that unfolding at by simp
    show "i \<noteq> 0" if "mbox ?s p = Some (i, t, xs)" for p i t xs using server_invD(9) [OF i1, of p i t xs] that unfolding sel by simp
    have "contexts ?s = contexts ?s1" unfolding contexts_def at ..
    then show "sv_total ?s = int (card (contexts ?s)) - of_bool (sv_remote ?s \<noteq> None)"
      using server_invD(10) [OF i1] unfolding sel by simp
    show "p = c_queue y" if "d \<in> live (sv_handles ?s)" "ctx_at ?s d = Some y" "mbox ?s p = Some (c_handle y, t, xs)" for d y p t xs
      using server_invD(11) [OF i1, of d y p t xs] that unfolding sel at by simp
  qed
  moreover have "skynet_harbor_start s c = Some ?s" using g by (simp add: skynet_harbor_start_def skynet_context_reserve_def)
  ultimately show ?thesis by simp
qed

lemma demo_register:
  "skynet_handle_register f (skynet_handle_init 1) 0 =
     Some ((skynet_handle_init 1)\<lparr>h_slot := [None, Some 0, None, None], h_index := 2\<rparr>, 0x1000001)"
proof -
  have "register_probe (h_slot (skynet_handle_init 1)) (h_index (skynet_handle_init 1)) (length (h_slot (skynet_handle_init 1))) = Some 1"
    by code_simp
  moreover have "(h_slot (skynet_handle_init 1))[slot_hash (h_slot (skynet_handle_init 1)) 1 := Some 0] = [None, Some 0, None, None]"
    by code_simp
  moreover have "1 OR h_harbor (skynet_handle_init 1) = 0x1000001" by code_simp
  ultimately show ?thesis using register_found [of "skynet_handle_init 1" 1 f 0] by simp
qed

definition demo_ctx :: skynet_context where
  "demo_ctx = (new_context demo_node 0 0)\<lparr>c_handle := 0x1000001, c_queue := 0, c_init := True\<rparr>"

lemma demo_boot_eq:
  "demo_boot = Some (demo_node\<lparr>sv_ctx := [Some demo_ctx],
     sv_handles := (skynet_handle_init 1)\<lparr>h_slot := [None, Some 0, None, None], h_index := 2\<rparr>,
     sv_mq := \<lparr>mq_heap = [Some (mq_create 0x1000001)], gq = \<lparr>g_head = Some 0, g_tail = Some 0\<rparr>\<rparr>,
     sv_remote := Some 0\<rparr>)"
proof -
  let ?h = "(skynet_handle_init 1)\<lparr>h_slot := [None, Some 0, None, None], h_index := 2\<rparr>"
  let ?x = "(new_context demo_node 0 0)\<lparr>c_handle := 0x1000001, c_queue := 0\<rparr>"
  let ?mq = "\<lparr>mq_heap = [Some (mq_create 0x1000001)], gq = \<lparr>g_head = None, g_tail = None\<rparr>\<rparr>"
  let ?s = "demo_node\<lparr>sv_handles := ?h, sv_mq := ?mq\<rparr>"
  have a: "register_context demo_node 0 0 = Some (?s\<lparr>sv_ctx := [Some ?x], sv_total := 1\<rparr>, 0, 0)"
    by (simp add: register_context_def Let_def demo_register upd_ctx_def ctx_at_def skynet_mq_create_def mq_init_def
        context_inc_def)
  have b: "skynet_harbor_start (?s\<lparr>sv_ctx := [Some ?x], sv_total := 1\<rparr>) 0 =
      Some (?s\<lparr>sv_ctx := [Some (?x\<lparr>c_ref := 3\<rparr>)], sv_total := 0, sv_remote := Some 0\<rparr>)"
    by (simp add: skynet_harbor_start_def skynet_context_reserve_def skynet_context_grab_def upd_ctx_def ctx_at_def
        context_dec_def)
  have l: "skynet_handle_findname ?h ''logger'' = 0" by code_simp
  have nx: "q_next (mq_create h) = None" for h by (simp add: mq_create_def)
  show ?thesis
    unfolding demo_boot_def a Option.bind.bind_lunit prod.case b launch_ok_def skynet_context_release_def
    by (simp add: upd_ctx_def ctx_at_def globalmq_push_def mq_at_def skynet_error_def l demo_ctx_def new_context_def nx)
qed

lemma demo_server_sel:
  "ctx_at demo_server 0 = Some demo_ctx" "mbox demo_server = [0 \<mapsto> (0x1000001, False, [])]" "sv_remote demo_server = Some 0"
  "sv_harbor demo_server = 0x1000000" "handle_of demo_server 0 = 0x1000001"
  "sv_handles demo_server = (skynet_handle_init 1)\<lparr>h_slot := [None, Some 0, None, None], h_index := 2\<rparr>"
  "sv_brk demo_server = 1"
proof -
  have e: "q_handle (mq_create h) = h" "q_release (mq_create h) = 0" for h
    by (simp_all add: mq_create_def)
  show "ctx_at demo_server 0 = Some demo_ctx" "sv_remote demo_server = Some 0" "sv_harbor demo_server = 0x1000000"
    "sv_handles demo_server = (skynet_handle_init 1)\<lparr>h_slot := [None, Some 0, None, None], h_index := 2\<rparr>"
    by (simp_all add: demo_server_def demo_boot_eq ctx_at_def)
  show "handle_of demo_server 0 = 0x1000001"
    by (simp add: demo_server_def demo_boot_eq handle_of_def ctx_at_def demo_ctx_def)
  show "mbox demo_server = [0 \<mapsto> (0x1000001, False, [])]"
    by (rule ext) (simp add: demo_server_def demo_boot_eq mq_view_def mq_at_def e mq_create_wf(2))
  show "sv_brk demo_server = 1"
    by (simp add: demo_server_def demo_boot_eq) (simp add: demo_node_def skynet_harbor_init_def skynet_globalinit_def skynet_initthread_def)
qed

lemma demo_server_inv: "server_inv demo_server (\<lambda>_. 0) {} {} {}" "net_ok demo_server" "room 1000 demo_server"
proof -
  let ?R = "\<lambda>_. 0 :: int"
  obtain s1 q h where s1: "register_context demo_node 0 0 = Some (s1, 0, q)"
    "server_inv s1 (?R(0 := ?R 0 + 1)) {} (insert q {}) {}"
    "ctx_at s1 = (ctx_at demo_node)(0 \<mapsto> (new_context demo_node 0 0)\<lparr>c_handle := h, c_queue := q\<rparr>)"
    "mbox demo_node q = None" "mbox s1 = (mbox demo_node)(q \<mapsto> (h, False, []))"
    "sv_remote s1 = None" "sv_harbor s1 = 0x1000000"
    using register_context_spec [OF demo_node_inv demo_node_launchable, of 0 0] by auto
  have x1: "ctx_at s1 0 = Some ((new_context demo_node 0 0)\<lparr>c_handle := h, c_queue := q\<rparr>)" by (simp add: s1(3))
  from harbor_start_spec [OF s1(2) x1 _ s1(6)] obtain s2 where
    s2: "skynet_harbor_start s1 0 = Some s2" "server_inv s2 (?R(0 := ?R 0 + 1)) {} (insert q {}) {}" "sv_remote s2 = Some 0"
      "sv_mq s2 = sv_mq s1" "sv_harbor s2 = sv_harbor s1" "\<exists>y. ctx_at s2 0 = Some y \<and> c_queue y = q"
    using x1 by (auto simp: context_dec_def ctx_at_def put_ctx_def split: if_splits)
  have n2: "net_ok s2" using s2(3,5) s1(7) by (simp add: net_ok_def)
  have mz: "mlen s2 p = 0" for p
    using s1(5) s2(4) by (simp add: mlen_def mq_view_def mq_at_def mq_init_def)
  have r2: "room (0 + 1) s2" by (simp add: room_def mz mq_limit_def)
  obtain y where y: "ctx_at s2 0 = Some y" "c_queue y = q" using s2(6) by blast
  have qn: "q \<notin> {} \<union> {}" by simp
  have "wp (launch_ok demo_host s2 0 q (str ''harbor'') None) (\<lambda>r. step_ok (0 + 1) s2 ?R {} {} {} (fst r))"
    by (rule launch_ok_spec [OF demo_host_ok s2(2) n2 r2 qn _ y]) simp
  then obtain r where r: "launch_ok demo_host s2 0 q (str ''harbor'') None = Some r" "step_ok (0 + 1) s2 ?R {} {} {} (fst r)"
    by (auto simp: wp_iff)
  have "demo_server = fst r" by (simp add: demo_server_def demo_boot_def s1(1) s2(1) r(1))
  then show "server_inv demo_server ?R {} {} {}" "net_ok demo_server" using r(2) by (simp_all add: step_ok_def)
  have "mlen demo_server p \<le> 1" for p
    using step_okD(4) [OF r(2)] \<open>demo_server = fst r\<close> mz unfolding grow_def by (metis add_0)
  moreover have "x + 1000 \<le> mq_limit" if "x \<le> 1" for x using that by (simp add: mq_limit_def)
  ultimately show "room 1000 demo_server" unfolding room_def by blast
qed

text \<open>The service is running code: a reference to it is held.\<close>

definition demo_running :: server where
  "demo_running = put_ctx demo_server 0 (demo_ctx\<lparr>c_ref := c_ref demo_ctx + 1\<rparr>)"

lemma demo_running_inv:
  "skynet_context_grab demo_server 0 = Some demo_running"
  "server_inv demo_running ((\<lambda>_. 0)(0 := 1)) {} {} {}" "net_ok demo_running" "room 1000 demo_running"
proof -
  have z: "0 \<notin> ({} :: nat set)" by simp
  note g = grab_spec [OF demo_server_inv(1) demo_server_sel(1) z]
  show "skynet_context_grab demo_server 0 = Some demo_running" using g(1) by (simp add: demo_running_def)
  show "server_inv demo_running ((\<lambda>_. 0)(0 := 1)) {} {} {}" using g(2) by (simp add: demo_running_def)
  show "net_ok demo_running" using demo_server_inv(2) by (simp add: demo_running_def net_ok_def)
  show "room 1000 demo_running" using demo_server_inv(3) room_frame [of demo_running demo_server] by (simp add: demo_running_def)
qed

section \<open>Session numbers and texts of handles\<close>

fun sessions :: "nat \<Rightarrow> server \<Rightarrow> nat \<Rightarrow> (server \<times> int list) option" where
  "sessions 0 s c = Some (s, [])"
| "sessions (Suc n) s c =
     Option.bind (skynet_context_newsession s c) (\<lambda>(s1, k).
     map_option (\<lambda>(s2, ks). (s2, k # ks)) (sessions n s1 c))"

lemma next_session_mod: "0 \<le> i \<Longrightarrow> i < 2 ^ 31 \<Longrightarrow> next_session i = i mod (2 ^ 31 - 1) + 1"
proof -
  assume i: "0 \<le> i" "i < 2 ^ 31"
  show ?thesis
  proof (cases "i = 2 ^ 31 - 1")
    case True
    then show ?thesis by (simp add: next_session_def to_i32_def)
  next
    case False
    then have "to_i32 (i + 1) = i + 1" using i by (intro to_i32_id) (simp add: is_i32_def)
    then show ?thesis using i False by (simp add: next_session_def mod_pos_pos_trivial)
  qed
qed

lemma sessions_values:
  "ctx_at s c = Some x \<Longrightarrow> 0 \<le> c_session_id x \<Longrightarrow> c_session_id x < 2 ^ 31 \<Longrightarrow>
     \<exists>s'. sessions n s c = Some (s', map (\<lambda>j. (c_session_id x + int j) mod (2 ^ 31 - 1) + 1) [0..<n])"
proof (induction n arbitrary: s x)
  case (Suc n)
  let ?i = "c_session_id x" and ?m = "2 ^ 31 - 1 :: int"
  let ?y = "x\<lparr>c_session_id := next_session ?i\<rparr>"
  have k: "next_session ?i = ?i mod ?m + 1" by (rule next_session_mod [OF Suc.prems(2,3)])
  have "0 \<le> c_session_id ?y" "c_session_id ?y < 2 ^ 31" using next_session_range [of ?i] by simp_all
  moreover have "ctx_at (put_ctx s c ?y) c = Some ?y" using Suc.prems(1) by simp
  ultimately obtain s' where s':
    "sessions n (put_ctx s c ?y) c = Some (s', map (\<lambda>j. (c_session_id ?y + int j) mod ?m + 1) [0..<n])"
    using Suc.IH by blast
  have "(?i mod ?m + 1 + int j) mod ?m = (?i + int (Suc j)) mod ?m" for j
    using mod_add_left_eq [of ?i ?m "1 + int j"] by (simp add: add.assoc)
  then have "map (\<lambda>j. (c_session_id ?y + int j) mod ?m + 1) [0..<n] = map (\<lambda>j. (?i + int (Suc j)) mod ?m + 1) [0..<n]"
    by (simp add: k)
  also have "\<dots> = map (\<lambda>j. (?i + int j) mod ?m + 1) [Suc 0..<Suc n]"
    by (simp only: map_Suc_upt [symmetric] map_map comp_def)
  finally have "sessions (Suc n) s c = Some (s', next_session ?i # map (\<lambda>j. (?i + int j) mod ?m + 1) [Suc 0..<Suc n])"
    using s' newsession_spec [OF Suc.prems(1)] by simp
  then show ?case using k by (simp add: upt_conv_Cons del: upt_Suc)
qed simp

lemma digit_val_hex: "d < 16 \<Longrightarrow> digit_val 16 (hex_digit up d) = Some (int d)"
  and hex_digit_plain: "d < 16 \<Longrightarrow> \<not> isspace (hex_digit up d) \<and> hex_digit up d \<notin> {45, 43, 120, 88}"
proof -
  have T: "\<forall>d\<in>{..<16}. digit_val 16 (hex_digit True d) = Some (int d) \<and> \<not> isspace (hex_digit True d) \<and>
      hex_digit True d \<notin> {45, 43, 120, 88}" by code_simp
  have F: "\<forall>d\<in>{..<16}. digit_val 16 (hex_digit False d) = Some (int d) \<and> \<not> isspace (hex_digit False d) \<and>
      hex_digit False d \<notin> {45, 43, 120, 88}" by code_simp
  have "\<forall>d\<in>{..<16}. digit_val 16 (hex_digit up d) = Some (int d) \<and> \<not> isspace (hex_digit up d) \<and>
      hex_digit up d \<notin> {45, 43, 120, 88}" for up
    using T F by (cases up) simp_all
  then show "d < 16 \<Longrightarrow> digit_val 16 (hex_digit up d) = Some (int d)"
    "d < 16 \<Longrightarrow> \<not> isspace (hex_digit up d) \<and> hex_digit up d \<notin> {45, 43, 120, 88}" by auto
qed

text \<open>Reading back digits.\<close>

lemma strtoul16_digits:
  assumes t: "t = map (hex_digit up) ds" "\<forall>d\<in>set ds. d < 16" "ds \<noteq> []" and v: "digits_val 16 0 t < 2 ^ 64"
  shows "strtoul16 t = digits_val 16 0 t"
proof -
  obtain d ds' where d: "ds = d # ds'" using t(3) by (cases ds) auto
  have p: "\<not> isspace (hex_digit up e) \<and> hex_digit up e \<notin> {45, 43, 120, 88}" if "e \<in> set ds" for e
    using hex_digit_plain t(2) that by blast
  have "number_sign t = (False, t)" using p [of d] d by (simp add: number_sign_def t(1))
  moreover have "skip_0x t = t" using p d by (cases ds') (auto simp: skip_0x_def t(1) split: list.split)
  ultimately show ?thesis using v by (simp add: strtoul16_def)
qed

lemma digits_val_hex: "\<forall>d\<in>set ds. d < 16 \<Longrightarrow> digits_val 16 a (map (hex_digit up) ds) = foldl (\<lambda>a d. a * 16 + int d) a ds"
  by (induction ds arbitrary: a) (simp_all add: digit_val_hex)

text \<open>The digits that \<open>%x\<close> prints.\<close>

function hex_digits :: "nat \<Rightarrow> nat list" where
  "hex_digits n = (if n < 16 then [n] else hex_digits (n div 16) @ [n mod 16])"
  by pat_completeness auto
termination by (relation "measure id") auto

declare hex_digits.simps [simp del]

lemma hex_nat_digits: "hex_nat n = map (hex_digit False) (hex_digits n)"
proof (induction n rule: hex_digits.induct)
  case (1 n)
  then show ?case by (subst hex_nat.simps, subst hex_digits.simps) simp
qed

lemma hex_digits_value: "foldl (\<lambda>a d. a * 16 + int d) 0 (hex_digits n) = int n \<and> (\<forall>d\<in>set (hex_digits n). d < 16) \<and> hex_digits n \<noteq> []"
proof (induction n rule: hex_digits.induct)
  case (1 n)
  show ?case
  proof (cases "n < 16")
    case True
    then have "hex_digits n = [n]" by (subst hex_digits.simps) simp
    then show ?thesis using True by simp
  next
    case False
    have e: "hex_digits n = hex_digits (n div 16) @ [n mod 16]"
      using False by (subst hex_digits.simps) (simp only: if_False)
    show ?thesis using 1 [OF False] unfolding e by (simp add: zdiv_int zmod_int)
  qed
qed

lemma fixed_digits: "foldl (\<lambda>a d. a * 16 + int d) 0 (map (\<lambda>i. n div 16 ^ (k - 1 - i) mod 16) [0..<k]) = int (n mod 16 ^ k)"
proof (induction k arbitrary: n)
  case (Suc k)
  have "map (\<lambda>i. n div 16 ^ (k - i) mod 16) [0..<k] = map (\<lambda>i. n div 16 div 16 ^ (k - 1 - i) mod 16) [0..<k]"
  proof (rule map_cong [OF refl])
    fix i assume "i \<in> set [0..<k]"
    then have "k - i = Suc (k - 1 - i)" by auto
    then show "n div 16 ^ (k - i) mod 16 = n div 16 div 16 ^ (k - 1 - i) mod 16" by (simp add: div_mult2_eq)
  qed
  then have "foldl (\<lambda>a d. a * 16 + int d) 0 (map (\<lambda>i. n div 16 ^ (k - i) mod 16) [0..<k]) = int (n div 16 mod 16 ^ k)"
    by (simp only: Suc)
  moreover have "n mod 16 ^ Suc k = n div 16 mod 16 ^ k * 16 + n mod 16" by (simp add: mod_mult2_eq)
  ultimately show ?case by (simp add: One_nat_def)
qed simp

lemma handle_text_hex: "handle_text (58 # hex32 h) = h"
proof -
  note d = hex_digits_value [of "unat h"]
  have t: "hex32 h = map (hex_digit False) (hex_digits (unat h))" by (simp add: hex32_def hex_nat_digits)
  then have v: "digits_val 16 0 (hex32 h) = int (unat h)" using d digits_val_hex by simp
  have "int (unat h) < 2 ^ 64" using unsigned_less [where ?'a = int and w = h] by simp
  then have "strtoul16 (hex32 h) = int (unat h)" using strtoul16_digits [OF t] d v by simp
  then show ?thesis by (simp add: handle_text_def One_nat_def)
qed

lemma handle_text_id: "handle_text (id_to_hex h) = h"
proof -
  define ds where "ds = map (\<lambda>i. unat h div 16 ^ (8 - 1 - i) mod 16) [0..<8]"
  have e: "unat (drop_bit ((7 - i) * 4) h AND 0xf) = unat h div 16 ^ (8 - 1 - i) mod 16" for i
  proof -
    have "unat (drop_bit ((7 - i) * 4) h AND 0xf) = drop_bit ((7 - i) * 4) (unat h) mod 16"
      using unat_and_mask [of "drop_bit ((7 - i) * 4) h" 4] unat_drop_bit_div [of "(7 - i) * 4" h]
      by (simp add: mask_eq_exp_minus_1 drop_bit_eq_div)
    also have "\<dots> = unat h div 16 ^ (7 - i) mod 16" by (simp add: drop_bit_eq_div power_mult mult.commute [of _ 4])
    finally show ?thesis by simp
  qed
  have t: "drop 1 (id_to_hex h) = map (hex_digit True) ds"
    unfolding id_to_hex_def ds_def map_map by (simp add: e One_nat_def del: upt.simps)
  have d: "\<forall>d\<in>set ds. d < 16" "ds \<noteq> []" by (auto simp: ds_def)
  have "unat h < 16 ^ 8" using unsigned_less [where ?'a = nat and w = h] by simp
  then have "foldl (\<lambda>a d. a * 16 + int d) 0 ds = int (unat h)" using fixed_digits [of "unat h" 8] by (simp add: ds_def)
  then have v: "digits_val 16 0 (drop 1 (id_to_hex h)) = int (unat h)" unfolding t digits_val_hex [OF d(1)] .
  have "int (unat h) < 2 ^ 64" using unsigned_less [where ?'a = int and w = h] by simp
  then have "strtoul16 (drop 1 (id_to_hex h)) = int (unat h)" using strtoul16_digits [OF t d] v by simp
  then show ?thesis by (simp add: handle_text_def)
qed

section \<open>Properties\<close>

text \<open>C2: sending to a service of this node. When a service has the handle, exactly one message is
  appended to exactly its mailbox, with the source, the session that is returned (freshly allocated when
  asked for), the block itself or a copy of it that ends in NUL, and a size word from which the receiver
  gets back size and type; otherwise the result is -1, no mailbox changes and the block is freed.\<close>

theorem server_send:
  assumes "server_inv s R W N Z" "net_ok s" "room 1 s" and "send_args s ctx source ty session data sz"
    and "sz_mask sz = sz" and "destination \<noteq> 0" "\<not> remote s destination"
  shows "\<exists>s' m. skynet_send ho s ctx source destination ty session data sz =
      Some (s', if mailbox_of s destination = None then -1 else m_session m) \<and>
    m_source m = (if source = 0 then handle_of s (the ctx) else source) \<and>
    m_session m = sent_session s ctx ty session \<and>
    sz_mask (m_sz m) = sz \<and> sz_type (m_sz m) = word_of_int (ty AND 0xff) \<and>
    (if tag ty PTYPE_TAG_DONTCOPY \<or> data = 0 then m_data m = data
     else m_data m = sv_brk s \<and> sv_mem s' (m_data m) = Some (Raw (the (read_block s data sz) @ [0]))) \<and>
    (case mailbox_of s destination of
       None \<Rightarrow> mbox s' = mbox s \<and> sv_freed s' = sv_freed s @ (if m_data m = 0 then [] else [m_data m])
     | Some q \<Rightarrow> \<exists>xs. mbox s q = Some (destination, False, xs) \<and>
         mbox s' = (mbox s)(q \<mapsto> (destination, False, xs @ [m])) \<and> sv_freed s' = sv_freed s)"
proof -
  define m where "m = \<lparr>m_source = sent_source s ctx source, m_session = sent_session s ctx ty session,
      m_data = fst (sent_data s ty data sz), m_sz = sent_sz ty sz\<rparr>"
  from send_local [OF assms, of ho] obtain s' where
    s': "skynet_send ho s ctx source destination ty session data sz =
        Some (s', if mailbox_of s destination = None then -1 else m_session m)"
      "sv_mem s' = snd (sent_data s ty data sz)"
      "case mailbox_of s destination of
         None \<Rightarrow> mbox s' = mbox s \<and> sv_freed s' = sv_freed s @ (if m_data m = 0 then [] else [m_data m])
       | Some q \<Rightarrow> \<exists>xs. mbox s q = Some (destination, False, xs) \<and>
           mbox s' = (mbox s)(q \<mapsto> (destination, False, xs @ [m])) \<and> sv_freed s' = sv_freed s"
    unfolding m_def by blast
  have "m_source m = (if source = 0 then handle_of s (the ctx) else source)"
    using assms(4) by (auto simp: m_def sent_source_def send_args_def)
  moreover have "m_session m = sent_session s ctx ty session" by (simp add: m_def)
  moreover have "sz_mask (m_sz m) = sz \<and> sz_type (m_sz m) = word_of_int (ty AND 0xff)"
    using sent_sz_parts [OF assms(5)] by (simp add: m_def)
  moreover have "if tag ty PTYPE_TAG_DONTCOPY \<or> data = 0 then m_data m = data
     else m_data m = sv_brk s \<and> sv_mem s' (m_data m) = Some (Raw (the (read_block s data sz) @ [0]))"
    using s'(2) by (simp add: m_def sent_data_def)
  ultimately show ?thesis using s'(1,3) by blast
qed

definition demo_send :: "server \<Rightarrow> (server \<times> int) option" where
  "demo_send s = skynet_send demo_host s None 5 0x1000001 PTYPE_TEXT 9 0 0"

lemma server_send_witness:
  "\<exists>s' m. demo_send demo_server = Some (s', 9) \<and> m_source m = 5 \<and> m_session m = 9 \<and> m_data m = 0 \<and> sz_mask (m_sz m) = 0 \<and>
     mbox s' = (mbox demo_server)(0 \<mapsto> (0x1000001, False, [m]))"
proof -
  have g: "skynet_handle_grab (handle_of demo_server) (sv_handles demo_server) 0x1000001 = Some 0"
    by (simp add: skynet_handle_grab_def demo_server_sel slot_hash_def skynet_handle_init_def)
  have mo: "mailbox_of demo_server 0x1000001 = Some 0"
    unfolding mailbox_of_def g by (simp add: demo_server_sel demo_ctx_def)
  have ty: "\<not> tag PTYPE_TEXT PTYPE_TAG_ALLOCSESSION" by (simp add: tag_def PTYPE_TEXT_def)
  have r: "room 1 demo_server" by (rule room_mono [OF demo_server_inv(3)]) simp
  have a: "send_args demo_server None 5 PTYPE_TEXT 9 0 0" using ty by (simp add: send_args_def)
  have rm: "\<not> remote demo_server 0x1000001" by (simp add: remote_def demo_server_sel HANDLE_MASK_def)
  have z: "sz_mask 0 = 0" by (simp add: sz_mask_def)
  have d: "(0x1000001 :: u32) \<noteq> 0" by simp
  from server_send [OF demo_server_inv(1,2) r a z d rm, of demo_host] obtain s' m where
    m: "demo_send demo_server = Some (s', m_session m)" "m_source m = 5" "m_session m = 9" "sz_mask (m_sz m) = 0"
      "m_data m = 0" "mbox s' = (mbox demo_server)(0 \<mapsto> (0x1000001, False, [m]))"
    unfolding mo by (auto simp: demo_send_def sent_session_def ty demo_server_sel(2))
  then show ?thesis by (intro exI [of _ s'] exI [of _ m]) simp
qed

text \<open>C11: commands. Any of the commands but ABORT, called by running code with the parameter
  it needs, fails no assert, touches no freed memory, fits its result into the 32 bytes of the context,
  keeps every invariant of the server (references, mailboxes, handle table, names, total count), whatever
  the callbacks of the services do within their contract, and adds at most a fixed number of messages to a
  mailbox.\<close>

theorem server_commands:
  assumes "host_ok ho b" "server_inv s R W N Z" "net_ok s" "room (cmd_bound b) s" "0 < R c" "cmd_ok s cmd prm"
  shows "\<exists>s' res. skynet_command ho s c cmd prm = Some (s', res) \<and> server_inv s' R W N Z \<and> net_ok s' \<and>
    stable s s' \<and> (\<forall>p. mlen s' p \<le> mlen s p + cmd_bound b)"
  using command_step [OF assms] by (auto simp: wp_iff step_ok_def grow_def)

lemma server_commands_witness:
  "\<exists>s' res. skynet_command demo_host demo_running 0 ''TIMEOUT'' (Some (str ''100'')) = Some (s', res) \<and>
     server_inv s' ((\<lambda>_. 0)(0 := 1)) {} {} {}"
proof -
  have r: "room (cmd_bound 0) demo_running" by (rule room_mono [OF demo_running_inv(4)]) (simp add: cmd_bound_def)
  have p: "0 < ((\<lambda>_. 0)(0 := 1 :: int)) (0 :: nat)" by simp
  have ok: "cmd_ok demo_running ''TIMEOUT'' (Some (str ''100''))" by (simp add: cmd_ok_def)
  from server_commands [OF demo_host_ok demo_running_inv(2,3) r p ok] show ?thesis by blast
qed

text \<open>C7: a worker's step. A worker holds a mailbox, or none: dispatching it fails no assert (a
  service only runs when it is initialised, the mailbox is the one of the service that its handle
  finds, a dropped message has a source), keeps the invariant, and ends holding exactly the mailbox that is
  returned; with no service left, the mailbox is released and its messages are answered with errors.\<close>

theorem server_dispatch:
  assumes "host_ok ho b" "server_inv s R W N Z" "net_ok s" and "\<forall>p. mlen s p \<le> len" "room (dispatch_bound b len) s"
    and "case q of None \<Rightarrow> True | Some p \<Rightarrow> p \<in> W"
  shows "\<exists>s' sm' r. skynet_context_message_dispatch ho s sm q weight = Some (s', sm', r) \<and>
    server_inv s' R (with_queue (W - set_option q) r) N Z \<and> net_ok s' \<and> stable s s'"
proof -
  have step: "\<exists>s' sm' r. dispatch_queue ho t sm p weight = Some (s', sm', r) \<and>
      server_inv s' R (with_queue (V - {p}) r) N Z \<and> net_ok s' \<and> stable s s'"
    if k: "step_ok 0 s R V N Z t" "p \<in> V" for t p V
  proof -
    have "mlen t p \<le> len" using step_okD(4) [OF k(1)] assms(4) unfolding grow_def by (metis add_0_right le_trans)
    then have "dispatch_bound b (mlen t p) \<le> dispatch_bound b len" unfolding dispatch_bound_def by (simp add: mult_le_mono)
    moreover have "room (dispatch_bound b len) t" using step_okD(5) [OF k(1), of "dispatch_bound b len"] assms(5) by simp
    ultimately have "room (dispatch_bound b (mlen t p)) t" by (rule room_mono [rotated])
    from dispatch_queue_step [OF assms(1) step_okD(1,2) [OF k(1)] this k(2), of sm weight] show ?thesis
      using stable_trans [OF step_okD(3) [OF k(1)]] unfolding step_ok_def by blast
  qed
  show ?thesis
  proof (cases q)
    case (Some p)
    then show ?thesis using step [OF step_refl [OF assms(2,3)], of p] assms(6)
      by (simp add: skynet_context_message_dispatch_def)
  next
    case None
    obtain s1 r where s1: "pop_global s = Some (s1, r)" "step_ok 0 s R (with_queue W r) N Z s1" "\<forall>p. r = Some p \<longrightarrow> p \<notin> W \<union> N"
      using pop_global_step [OF assms(2,3)] by blast
    show ?thesis
    proof (cases r)
      case None2: None
      then show ?thesis using None s1 by (simp add: skynet_context_message_dispatch_def with_queue_def step_ok_def)
    next
      case (Some p)
      have "with_queue W r - {p} = W" using Some s1(3) by (auto simp: with_queue_def)
      then show ?thesis using step [OF s1(2), of p] Some None s1(1)
        by (simp add: skynet_context_message_dispatch_def with_queue_def)
    qed
  qed
qed

lemma server_dispatch_witness:
  "\<exists>s' sm' r. skynet_context_message_dispatch demo_host demo_server skynet_monitor_new None 0 = Some (s', sm', r) \<and>
     server_inv s' (\<lambda>_. 0) (with_queue {} r) {} {}"
proof -
  have l: "\<forall>p. mlen demo_server p \<le> 0" by (simp add: mlen_def demo_server_sel)
  have r: "room (dispatch_bound 0 0) demo_server"
    by (rule room_mono [OF demo_server_inv(3)]) (simp add: dispatch_bound_def)
  from server_dispatch [OF demo_host_ok demo_server_inv(1,2) l r, of None skynet_monitor_new 0] show ?thesis by auto
qed

text \<open>C35: session numbers. They are positive ints, and when a service asks for up to \<open>2 ^ 31 - 1\<close> of
  them in a row, also across the wrap-around of the counter, all are different.\<close>

theorem server_sessions:
  assumes "ctx_at s c = Some x" "0 \<le> c_session_id x" "c_session_id x < 2 ^ 31" "n \<le> 2 ^ 31 - 1"
  shows "\<exists>s' ks. sessions n s c = Some (s', ks) \<and> length ks = n \<and> distinct ks \<and> set ks \<subseteq> {1..<2 ^ 31}"
proof -
  let ?f = "\<lambda>j. (c_session_id x + int j) mod (2 ^ 31 - 1) + 1"
  obtain s' where s': "sessions n s c = Some (s', map ?f [0..<n])" using sessions_values [OF assms(1-3)] by blast
  have "inj_on ?f {0..<n}"
  proof (rule inj_onI)
    fix i j assume ij: "i \<in> {0..<n}" "j \<in> {0..<n}" "?f i = ?f j"
    then have "(int i - int j) mod (2 ^ 31 - 1) = 0" by (simp add: mod_eq_dvd_iff algebra_simps)
    then have d: "(2 ^ 31 - 1) dvd (int i - int j)" by (simp add: mod_eq_0_iff_dvd)
    have "\<bar>int i - int j\<bar> < 2 ^ 31 - 1" using ij(1,2) assms(4) by auto
    then have "int i - int j = 0" using zdvd_not_zless [of "\<bar>int i - int j\<bar>" "2 ^ 31 - 1"] d by fastforce
    then show "i = j" by simp
  qed
  then have "distinct (map ?f [0..<n])" by (simp add: distinct_map)
  moreover have "set (map ?f [0..<n]) \<subseteq> {1..<2 ^ 31}"
    using pos_mod_bound [of "2 ^ 31 - 1"] pos_mod_sign [of "2 ^ 31 - 1"] by (auto simp: field_simps)
  ultimately show ?thesis using s' by (intro exI [of _ s'] exI [of _ "map ?f [0..<n]"]) simp
qed

lemma server_sessions_witness:
  "\<exists>s' ks. sessions 3 demo_server 0 = Some (s', ks) \<and> length ks = 3 \<and> distinct ks"
proof -
  have "c_session_id demo_ctx = 0" by (simp add: demo_ctx_def new_context_def)
  then show ?thesis using server_sessions [OF demo_server_sel(1), of 3] by auto
qed

text \<open>the texts of a handle. Reading back a colon and the digits that \<open>LAUNCH\<close> (eight upper
  case digits) or \<open>REG\<close>, \<open>QUERY\<close> and \<open>MONITOR\<close> (\<open>%x\<close>) return gives the handle, for every
  handle and by every function that takes such an address.\<close>

theorem server_handle_text:
  "handle_text (id_to_hex h) = h \<and> handle_text (58 # hex32 h) = h \<and>
   (\<forall>t \<in> {id_to_hex h, 58 # hex32 h}.
      tohandle ho s c t = Some (s, h) \<and> skynet_queryname ho s c t = Some (s, h) \<and>
      skynet_sendname ho s (Some c) src t ty session data sz =
        (case send_source s (Some c) src of None \<Rightarrow> None
         | Some src \<Rightarrow> skynet_send ho s (Some c) src h ty session data sz))"
proof -
  have t: "char0 (id_to_hex h) = 58" "char0 (58 # hex32 h) = 58" by (simp_all add: char0_def id_to_hex_def)
  show ?thesis
    using t handle_text_id [of h] handle_text_hex [of h]
    by (auto simp: tohandle_def skynet_queryname_def skynet_sendname_def split: option.split)
qed

lemma server_handle_text_witness:
  "tohandle demo_host demo_server 0 (id_to_hex 0x1000001) = Some (demo_server, 0x1000001)"
  using server_handle_text [of "0x1000001" demo_host demo_server 0] by blast

end
