(* ===== verification/Module.thy ===== *)
theory Module
  imports CString
begin

text \<open>
  \<open>skynet-src/skynet_module.c\<close>: the table of at most 32 loaded C services. \<open>dlopen\<close> and \<open>dlsym\<close> of the system are
  arguments: which file names can be opened, and which symbols a library has. The search path is a list of patterns,
  separated by \<open>;\<close>, in which the name of the service replaces the \<open>?\<close>. The pattern is put together in a block of
  the size that the code computes; \<open>None\<close> is a write outside that block or a string that does not end in it.
\<close>

definition MAX_MODULE_TYPE :: nat where "MAX_MODULE_TYPE = 32"

text \<open>A library and a function are numbers.\<close>

record skynet_module =
  md_name :: bytes
  md_module :: nat
  md_create :: "nat option"
  md_init :: "nat option"
  md_release :: "nat option"
  md_signal :: "nat option"

text \<open>The modules with an index below \<open>count\<close>.\<close>

record modules =
  mo_path :: bytes
  mo_m :: "skynet_module list"

section \<open>The search\<close>

datatype open_result = Opened nat | Not_found | Exit

text \<open>One round of the loop: the block with the file name for the first pattern of the path.\<close>

definition file_name :: "nat \<Rightarrow> bytes \<Rightarrow> bytes \<Rightarrow> bytes option" where
  "file_name sz pattern name =
     (let i = length (takeWhile (\<lambda>c. c \<noteq> 63) pattern) in
      Option.bind (blit (replicate sz 0) 0 (take i pattern)) (\<lambda>tmp.
      Option.bind (blit tmp (int i) name) (\<lambda>tmp.
      Option.bind (blit tmp (int (i + length name)) (drop (i + 1) pattern)) (\<lambda>tmp. cstr tmp 0))))"

lemma dropWhile_two:
  assumes "dropWhile P xs \<noteq> []" "\<And>c. Q c \<longleftrightarrow> \<not> P c"
  shows "length (dropWhile Q (dropWhile P xs)) < length xs"
proof -
  obtain c cs where c: "dropWhile P xs = c # cs" using assms(1) by (cases "dropWhile P xs") auto
  have "\<not> P c" using hd_dropWhile [OF assms(1)] c by simp
  then have "length (dropWhile Q (dropWhile P xs)) \<le> length cs" using c assms(2) by (simp add: length_dropWhile_le)
  also have "length cs < length (dropWhile P xs)" using c by simp
  also have "\<dots> \<le> length xs" by (rule length_dropWhile_le)
  finally show ?thesis .
qed

function try_open_loop :: "(bytes \<Rightarrow> nat option) \<Rightarrow> nat \<Rightarrow> bytes \<Rightarrow> bytes \<Rightarrow> open_result option" where
  "try_open_loop dlopen sz name path =
     (let path = dropWhile (\<lambda>c. c = 59) path; pattern = takeWhile (\<lambda>c. c \<noteq> 59) path; l = dropWhile (\<lambda>c. c \<noteq> 59) path in
      if path = [] then Some Not_found
      else if 63 \<notin> set pattern then Some Exit
      else Option.bind (file_name sz pattern name) (\<lambda>tmp.
        case dlopen tmp of Some dl \<Rightarrow> Some (Opened dl) | None \<Rightarrow> try_open_loop dlopen sz name l))"
  by pat_completeness auto

termination
  by (relation "measure (\<lambda>(_, _, _, path). length path)") (auto intro: dropWhile_two)

declare try_open_loop.simps [simp del]

definition try_open :: "(bytes \<Rightarrow> nat option) \<Rightarrow> modules \<Rightarrow> bytes \<Rightarrow> open_result option" where
  "try_open dlopen m name = try_open_loop dlopen (length (mo_path m) + length name) name (mo_path m)"

section \<open>The table\<close>

definition module_query :: "modules \<Rightarrow> bytes \<Rightarrow> nat option" where
  "module_query m name = List.find (\<lambda>i. md_name (mo_m m ! i) = name) [0..<length (mo_m m)]"

text \<open>\<open>strrchr(tmp, '.')\<close>: the symbol is what follows the last dot of the name.\<close>

definition get_api :: "(nat \<Rightarrow> bytes \<Rightarrow> nat option) \<Rightarrow> skynet_module \<Rightarrow> bytes \<Rightarrow> nat option" where
  "get_api dlsym md api_name = dlsym (md_module md) (rev (takeWhile (\<lambda>c. c \<noteq> 46) (rev (md_name md @ api_name))))"

definition open_sym :: "(nat \<Rightarrow> bytes \<Rightarrow> nat option) \<Rightarrow> skynet_module \<Rightarrow> skynet_module \<times> bool" where
  "open_sym dlsym md =
     (let md = md\<lparr>md_create := get_api dlsym md (str ''_create''), md_init := get_api dlsym md (str ''_init''),
                  md_release := get_api dlsym md (str ''_release''), md_signal := get_api dlsym md (str ''_signal'')\<rparr>
      in (md, md_init md = None))"

text \<open>The result \<open>None\<close> inside is \<open>NULL\<close>; \<open>Inl ()\<close> is \<open>exit(1)\<close>.\<close>

definition skynet_module_query ::
  "(bytes \<Rightarrow> nat option) \<Rightarrow> (nat \<Rightarrow> bytes \<Rightarrow> nat option) \<Rightarrow> modules \<Rightarrow> bytes \<Rightarrow> (unit, modules \<times> nat option) run" where
  "skynet_module_query dlopen dlsym m name =
     (case module_query m name of
        Some i \<Rightarrow> ret (m, Some i)
      | None \<Rightarrow>
          if length (mo_m m) < MAX_MODULE_TYPE then
            (case try_open dlopen m name of
               None \<Rightarrow> None
             | Some Exit \<Rightarrow> err ()
             | Some Not_found \<Rightarrow> ret (m, None)
             | Some (Opened dl) \<Rightarrow>
                 let (md, failed) = open_sym dlsym \<lparr>md_name = name, md_module = dl, md_create = None, md_init = None,
                       md_release = None, md_signal = None\<rparr>
                 in if failed then ret (m, None) else ret (m\<lparr>mo_m := mo_m m @ [md]\<rparr>, Some (length (mo_m m))))
          else ret (m, None))"

definition skynet_module_init :: "bytes \<Rightarrow> modules" where
  "skynet_module_init path = \<lparr>mo_path = path, mo_m = []\<rparr>"

text \<open>The calls of the functions of a service are arguments. An instance is a pointer; \<open>~0\<close> stands for none.\<close>

definition skynet_module_instance_create :: "(nat \<Rightarrow> u64) \<Rightarrow> skynet_module \<Rightarrow> u64" where
  "skynet_module_instance_create call md = (case md_create md of Some f \<Rightarrow> call f | None \<Rightarrow> NOT 0)"

definition skynet_module_instance_init :: "(nat \<Rightarrow> u64 \<Rightarrow> nat \<Rightarrow> bytes \<Rightarrow> int) \<Rightarrow> skynet_module \<Rightarrow> u64 \<Rightarrow> nat \<Rightarrow> bytes \<Rightarrow> int option" where
  "skynet_module_instance_init call md inst ctx parm = map_option (\<lambda>f. call f inst ctx parm) (md_init md)"

definition skynet_module_instance_release :: "(nat \<Rightarrow> u64 \<Rightarrow> 's \<Rightarrow> 's) \<Rightarrow> skynet_module \<Rightarrow> u64 \<Rightarrow> 's \<Rightarrow> 's" where
  "skynet_module_instance_release call md inst s = (case md_release md of Some f \<Rightarrow> call f inst s | None \<Rightarrow> s)"

definition skynet_module_instance_signal :: "(nat \<Rightarrow> u64 \<Rightarrow> int \<Rightarrow> 's \<Rightarrow> 's) \<Rightarrow> skynet_module \<Rightarrow> u64 \<Rightarrow> int \<Rightarrow> 's \<Rightarrow> 's" where
  "skynet_module_instance_signal call md inst sg s = (case md_signal md of Some f \<Rightarrow> call f inst sg s | None \<Rightarrow> s)"

section \<open>The search tries the patterns in order\<close>

function patterns :: "bytes \<Rightarrow> bytes list" where
  "patterns path =
     (let path = dropWhile (\<lambda>c. c = 59) path in
      if path = [] then [] else takeWhile (\<lambda>c. c \<noteq> 59) path # patterns (dropWhile (\<lambda>c. c \<noteq> 59) path))"
  by pat_completeness auto
termination by (relation "measure length") (auto intro: dropWhile_two)

declare patterns.simps [simp del]

definition instance_of :: "bytes \<Rightarrow> bytes \<Rightarrow> bytes" where
  "instance_of name pattern = takeWhile (\<lambda>c. c \<noteq> 63) pattern @ name @ tl (dropWhile (\<lambda>c. c \<noteq> 63) pattern)"

fun first_open :: "(bytes \<Rightarrow> nat option) \<Rightarrow> bytes \<Rightarrow> bytes list \<Rightarrow> open_result" where
  "first_open dlopen name [] = Not_found"
| "first_open dlopen name (p # ps) =
     (if 63 \<notin> set p then Exit
      else case dlopen (instance_of name p) of Some dl \<Rightarrow> Opened dl | None \<Rightarrow> first_open dlopen name ps)"

lemma blit_middle:
  "length src \<le> n \<Longrightarrow> blit (pre @ replicate n x) (int (length pre)) src = Some (pre @ src @ replicate (n - length src) x)"
  by (simp add: blit_def)

lemma file_name_spec:
  assumes "63 \<in> set pattern" "0 \<notin> set pattern" "0 \<notin> set name" "length pattern + length name \<le> sz"
  shows "file_name sz pattern name = Some (instance_of name pattern)"
proof -
  define a where "a = takeWhile (\<lambda>c. c \<noteq> 63) pattern"
  obtain b where b: "dropWhile (\<lambda>c. c \<noteq> 63) pattern = 63 # b"
    using assms(1) by (cases "dropWhile (\<lambda>c. c \<noteq> 63) pattern") (auto simp: dropWhile_eq_Nil_conv dest: dropWhile_eq_Cons_conv [THEN iffD1])
  have p: "pattern = a @ 63 # b" using takeWhile_dropWhile_id [of "\<lambda>c. c \<noteq> 63" pattern] by (simp add: a_def b)
  have l: "length a + length name + length b < sz" using assms(4) by (simp add: p)
  have i: "instance_of name pattern = a @ name @ b" by (simp add: instance_of_def a_def [symmetric] b)
  have ta: "takeWhile (\<lambda>c. c \<noteq> 63) (a @ 63 # b) = a" using a_def p by simp
  have b1: "blit (replicate sz 0) 0 a = Some (a @ replicate (sz - length a) 0)"
    using blit_middle [of a sz "[]" 0] l by simp
  have b2: "blit (a @ replicate (sz - length a) 0) (int (length a)) name = Some (a @ name @ replicate (sz - length a - length name) 0)"
    using blit_middle [of name "sz - length a" a 0] l by simp
  have b3: "blit (a @ name @ replicate (sz - length a - length name) 0) (int (length a + length name)) b =
      Some (a @ name @ b @ replicate (sz - length a - length name - length b) 0)"
    using blit_middle [of b "sz - length a - length name" "a @ name" 0] l by simp
  have z: "replicate (sz - length a - length name - length b) (0 :: u8) = 0 # replicate (sz - length a - length name - length b - 1) 0"
    using l by (cases "sz - length a - length name - length b") auto
  have n0: "0 \<notin> set (a @ name @ b)" using assms(2,3) by (simp add: p)
  have "cstr (a @ name @ b @ replicate (sz - length a - length name - length b) 0) 0 = Some (a @ name @ b)"
    unfolding z using cstr_append_nul [OF n0] by simp
  then show ?thesis unfolding i file_name_def Let_def unfolding p ta using b1 b2 b3 by simp
qed

lemma set_dropWhile_subset: "set (dropWhile P xs) \<subseteq> set xs"
  by (auto dest: set_dropWhileD)

lemma try_open_loop_spec:
  assumes "0 \<notin> set path" "0 \<notin> set name" "length path + length name \<le> sz"
  shows "try_open_loop dlopen sz name path = Some (first_open dlopen name (patterns path))"
  using assms(1,3)
proof (induction path rule: patterns.induct)
  case (1 path)
  define q where "q = dropWhile (\<lambda>c. c = 59) path"
  define p where "p = takeWhile (\<lambda>c. c \<noteq> 59) q"
  define l where "l = dropWhile (\<lambda>c. c \<noteq> 59) q"
  have q: "0 \<notin> set q" "length q \<le> length path"
    using "1.prems"(1) set_dropWhile_subset [of _ path] by (auto simp: q_def length_dropWhile_le)
  have pl: "0 \<notin> set p" "0 \<notin> set l" "length p + length l = length q"
    using q(1) takeWhile_dropWhile_id [of "\<lambda>c. c \<noteq> 59" q, folded p_def l_def] by (metis Un_iff set_append, metis Un_iff set_append, metis length_append)
  have ps: "patterns path = (if q = [] then [] else p # patterns l)"
    by (subst patterns.simps) (simp add: q_def p_def l_def Let_def)
  have lo: "try_open_loop dlopen sz name path =
     (if q = [] then Some Not_found else if 63 \<notin> set p then Some Exit
      else Option.bind (file_name sz p name) (\<lambda>tmp.
        case dlopen tmp of Some dl \<Rightarrow> Some (Opened dl) | None \<Rightarrow> try_open_loop dlopen sz name l))"
    by (subst try_open_loop.simps) (simp only: q_def p_def l_def Let_def)
  have ih: "try_open_loop dlopen sz name l = Some (first_open dlopen name (patterns l))" if "q \<noteq> []"
    using "1.IH" [OF q_def] that pl q(2) "1.prems"(2) by (simp add: l_def)
  have f: "file_name sz p name = Some (instance_of name p)" if "63 \<in> set p"
    using file_name_spec [OF that pl(1) assms(2)] pl(3) q(2) "1.prems"(2) by simp
  show ?case unfolding ps lo using ih f by (auto split: option.splits)
qed

text \<open>C30: The search for a module stays inside the block for the file name and returns the library of the first pattern of the path
  that can be opened, with the name of the module in place of the question mark, and exits at a pattern without one.\<close>

theorem module_search_order:
  assumes "0 \<notin> set (mo_path m)" "0 \<notin> set name"
  shows "try_open dlopen m name = Some (first_open dlopen name (patterns (mo_path m)))"
  unfolding try_open_def using try_open_loop_spec [OF assms] by simp

theorem module_search_order_witness:
  "try_open (\<lambda>f. if f = str ''b/gate.so'' then Some 3 else None) (skynet_module_init (str ''a/?.so;;b/?.so'')) (str ''gate'') =
     Some (first_open (\<lambda>f. if f = str ''b/gate.so'' then Some 3 else None) (str ''gate'') (patterns (mo_path (skynet_module_init (str ''a/?.so;;b/?.so'')))))"
  by (rule module_search_order) (simp_all add: skynet_module_init_def str_def)

section \<open>The table keeps what it has found\<close>

definition modules_ok :: "modules \<Rightarrow> bool" where
  "modules_ok m \<longleftrightarrow> distinct (map md_name (mo_m m)) \<and> length (mo_m m) \<le> MAX_MODULE_TYPE \<and>
     (\<forall>md\<in>set (mo_m m). md_init md \<noteq> None)"

lemma module_query_Some:
  "module_query m name = Some i \<Longrightarrow> i < length (mo_m m) \<and> md_name (mo_m m ! i) = name"
  by (auto simp: module_query_def find_Some_iff)

lemma module_query_None: "module_query m name = None \<longleftrightarrow> name \<notin> md_name ` set (mo_m m)"
  unfolding module_query_def find_None_iff by (auto simp: set_conv_nth)

lemma module_query_index: "distinct (map md_name (mo_m m)) \<Longrightarrow> i < length (mo_m m) \<Longrightarrow> module_query m (md_name (mo_m m ! i)) = Some i"
proof -
  assume d: "distinct (map md_name (mo_m m))" and i: "i < length (mo_m m)"
  obtain j where j: "module_query m (md_name (mo_m m ! i)) = Some j"
    using module_query_None [of m "md_name (mo_m m ! i)"] i by (metis image_eqI not_None_eq nth_mem)
  have "i = j" using module_query_Some [OF j] d i by (metis distinct_conv_nth length_map nth_map)
  then show ?thesis using j by simp
qed

lemma open_sym_name: "open_sym dlsym md = (md', f) \<Longrightarrow> md_name md' = md_name md \<and> (f \<longleftrightarrow> md_init md' = None)"
  by (auto simp: open_sym_def Let_def)

theorem module_query_stable:
  assumes ok: "modules_ok m" and q: "skynet_module_query dlopen dlsym m name = ret (m', r)"
  shows "modules_ok m' \<and> (\<exists>ms. mo_m m' = mo_m m @ ms) \<and>
    (\<forall>i. r = Some i \<longrightarrow> i < length (mo_m m') \<and> md_name (mo_m m' ! i) = name \<and> md_init (mo_m m' ! i) \<noteq> None \<and>
       skynet_module_query dlopen' dlsym' m' name = ret (m', Some i))"
proof (cases "module_query m name")
  case (Some i)
  then have "m' = m" "r = Some i" using q by (simp_all add: skynet_module_query_def)
  then show ?thesis using ok Some module_query_Some [OF Some] by (simp add: skynet_module_query_def modules_ok_def)
next
  case None
  consider "m' = m" "r = None" | dl md where "open_sym dlsym \<lparr>md_name = name, md_module = dl, md_create = None, md_init = None,
        md_release = None, md_signal = None\<rparr> = (md, False)" "m' = m\<lparr>mo_m := mo_m m @ [md]\<rparr>" "r = Some (length (mo_m m))"
      "length (mo_m m) < MAX_MODULE_TYPE"
    using q None by (auto simp: skynet_module_query_def ret_def err_def split: if_splits option.splits open_result.splits prod.splits)
  then show ?thesis
  proof cases
    case 1
    then show ?thesis using ok by simp
  next
    case 2
    have md: "md_name md = name" "md_init md \<noteq> None" using open_sym_name [OF 2(1)] by simp_all
    have ok': "modules_ok m'" using ok None md 2(2,4) module_query_None [of m name] by (auto simp: modules_ok_def)
    have "module_query m' (md_name (mo_m m' ! length (mo_m m))) = Some (length (mo_m m))"
      using ok' 2(2) by (intro module_query_index) (auto simp: modules_ok_def)
    then have "module_query m' name = Some (length (mo_m m))" using 2(2) md by simp
    then show ?thesis using ok' md 2(2,3) by (simp add: skynet_module_query_def)
  qed
qed

theorem module_query_stable_witness:
  "modules_ok (skynet_module_init (str ''?'')\<lparr>mo_m := [\<lparr>md_name = str ''gate'', md_module = 1, md_create = None, md_init = Some 2,
     md_release = None, md_signal = None\<rparr>]\<rparr>)"
proof -
  let ?m = "skynet_module_init (str ''?'')" and ?n = "str ''gate''"
  have q: "skynet_module_query (\<lambda>_. Some 1) (\<lambda>_ f. if f = str ''gate_init'' then Some 2 else None) ?m ?n =
      ret (?m\<lparr>mo_m := [\<lparr>md_name = ?n, md_module = 1, md_create = None, md_init = Some 2, md_release = None, md_signal = None\<rparr>]\<rparr>, Some 0)"
    by code_simp
  show ?thesis using module_query_stable [OF _ q] by (simp add: modules_ok_def skynet_module_init_def)
qed

text \<open>A library without an init function is not entered, and is opened again by the next query.\<close>

lemma module_without_init:
  assumes "module_query m name = None" "length (mo_m m) < MAX_MODULE_TYPE" "try_open dlopen m name = Some (Opened dl)" "\<And>d s. dlsym d s = None"
  shows "skynet_module_query dlopen dlsym m name = ret (m, None)"
  using assms by (simp add: skynet_module_query_def open_sym_def get_api_def)

end
