(* ===== verification/Socket.thy ===== *)
theory Socket
  imports CString
begin

text \<open>
  \<open>skynet-src/socket_server.c\<close>: the sockets of the node. One thread, the socket thread, runs \<open>socket_server_poll\<close>; all
  other threads ask it for something with a request in a pipe, except that they may write to a connected socket
  directly when nothing waits to be written. A slot of the table holds a socket; its lists \<open>high\<close> and \<open>low\<close> hold what is
  to be written. Each function is one step. The answers of the system calls are the record \<open>os\<close>, one per step, and what
  the server asks of the system are events. \<open>None\<close> is a failed assert, an access outside a block, or a busy wait that
  does not end within the step.
\<close>

unbundle bit_operations_syntax

section \<open>Sockets\<close>

definition MAX_SOCKET_P :: nat where "MAX_SOCKET_P = 16"
definition MAX_SOCKET :: nat where "MAX_SOCKET = 2 ^ MAX_SOCKET_P"
definition MAX_EVENT :: nat where "MAX_EVENT = 64"
definition MIN_READ_BUFFER :: int where "MIN_READ_BUFFER = 64"
definition PROTOCOL_TCP :: u8 where "PROTOCOL_TCP = 0"
definition PROTOCOL_UDP :: u8 where "PROTOCOL_UDP = 1"
definition PROTOCOL_UDPv6 :: u8 where "PROTOCOL_UDPv6 = 2"
definition PROTOCOL_UNKNOWN :: u8 where "PROTOCOL_UNKNOWN = 255"
definition UDP_ADDRESS_SIZE :: nat where "UDP_ADDRESS_SIZE = 19"
definition WARNING_SIZE :: int where "WARNING_SIZE = 1024 * 1024"

datatype socket_type =
    SOCKET_TYPE_INVALID | SOCKET_TYPE_RESERVE | SOCKET_TYPE_PLISTEN | SOCKET_TYPE_LISTEN | SOCKET_TYPE_CONNECTING
  | SOCKET_TYPE_CONNECTED | SOCKET_TYPE_HALFCLOSE_READ | SOCKET_TYPE_HALFCLOSE_WRITE | SOCKET_TYPE_PACCEPT | SOCKET_TYPE_BIND

text \<open>A message that is given to be sent: its bytes, where they begin as seen from the address it is freed by (0, except for an
  object with an interface of its own, whose \<open>buffer\<close> may give any address), and whether it is such an object.\<close>

record send_object =
  so_bytes :: bytes
  so_off :: int
  so_user :: bool

text \<open>A buffer whose first \<open>ptr\<close> bytes have been written. Only a buffer made for UDP has room for an address.\<close>

record write_buffer =
  wb_buffer :: send_object
  wb_ptr :: nat
  wb_udp :: "bytes option"

definition wb_rest :: "write_buffer \<Rightarrow> bytes" where
  "wb_rest b = drop (wb_ptr b) (so_bytes (wb_buffer b))"

text \<open>\<open>dw\<close> is \<open>dw_buffer\<close> with \<open>dw_offset\<close>. The union \<open>p\<close> is two fields.\<close>

record socket =
  sk_opaque :: u64
  sk_high :: "write_buffer list"
  sk_low :: "write_buffer list"
  sk_wb_size :: int
  sk_rtime :: u64
  sk_wtime :: u64
  sk_read :: u64
  sk_write :: u64
  sk_sending :: u64
  sk_fd :: int
  sk_id :: int
  sk_type :: socket_type
  sk_protocol :: u8
  sk_reading :: bool
  sk_writing :: bool
  sk_closing :: bool
  sk_udpconnecting :: int
  sk_warn_size :: int
  sk_size :: int
  sk_address :: bytes
  sk_dw :: "(send_object \<times> nat) option"

record event =
  ev_s :: "nat option"
  ev_read :: bool
  ev_write :: bool
  ev_error :: bool
  ev_eof :: bool

text \<open>The requests in the pipe, by the letter of their type.\<close>

datatype request =
    Rq_resume int u64  \<comment> \<open>R: id, opaque\<close>
  | Rq_pause int u64  \<comment> \<open>S\<close>
  | Rq_bind int int u64  \<comment> \<open>B: id, fd, opaque\<close>
  | Rq_listen int int u64  \<comment> \<open>L\<close>
  | Rq_close int bool u64  \<comment> \<open>K: id, shutdown, opaque\<close>
  | Rq_open int bytes int u64  \<comment> \<open>O: id, host, port, opaque\<close>
  | Rq_exit  \<comment> \<open>X\<close>
  | Rq_write int  \<comment> \<open>W\<close>
  | Rq_send int send_object  \<comment> \<open>D\<close>
  | Rq_send_low int send_object  \<comment> \<open>P\<close>
  | Rq_send_udp int send_object bytes  \<comment> \<open>A\<close>
  | Rq_set_udp int bytes  \<comment> \<open>C\<close>
  | Rq_dial_udp int int u64 bytes  \<comment> \<open>N\<close>
  | Rq_setopt int int int  \<comment> \<open>T: id, what, value\<close>
  | Rq_udp int int bool u64  \<comment> \<open>U: id, fd, IPv6, opaque\<close>

record socket_server =
  sr_time :: u64
  sr_reserve_fd :: int
  sr_checkctrl :: bool
  sr_alloc_id :: u32
  sr_event_index :: nat
  sr_ev :: "event list"
  sr_slot :: "socket list"
  sr_pipe :: "request list"

datatype socket_event =
    Se_write int bytes
  | Se_sendto int bytes bytes  \<comment> \<open>fd, data, address\<close>
  | Se_close int
  | Se_shutdown_read int
  | Se_shutdown_write int
  | Se_poll_add int
  | Se_poll_del int
  | Se_poll_enable int bool bool
  | Se_free send_object
  | Se_setsockopt int int int
  | Se_keepalive int
  | Se_nonblocking int
  | Se_getaddrinfo bytes int
  | Se_log bytes

datatype sock_ret =
    SOCKET_DATA | SOCKET_CLOSE | SOCKET_OPEN | SOCKET_ACCEPT | SOCKET_ERR | SOCKET_EXIT | SOCKET_UDP | SOCKET_WARNING
  | SOCKET_RST | SOCKET_MORE

record server_message =
  sm_id :: int
  sm_opaque :: u64
  sm_ud :: int
  sm_data :: "bytes option"

text \<open>The result of a function: \<open>None\<close> is -1, or the type with the message that it has filled in.\<close>

type_synonym sock_answer = "(sock_ret \<times> server_message) option"

section \<open>The answers of the system\<close>

text \<open>An answer to \<open>write\<close> and \<open>sendto\<close>; a list that is used up means that the call would block. More than was asked for is never written.\<close>

datatype write_answer = Wrote nat | Write_intr | Write_again | Write_failed

datatype read_answer = Read_data bytes | Read_again | Read_failed

datatype connect_answer =
    No_socket | Refused int | In_progress int | Connected_to int "bytes option"  \<comment> \<open>fd, text of the address\<close>

text \<open>The answers to \<open>Accept_no_fds\<close> are those of the second \<open>accept\<close> and of \<open>dup\<close>.\<close>

datatype accept_answer = Accepted int "bytes option" | Accept_no_fds int int | Accept_failed

text \<open>What \<open>do_bind\<close> and \<open>listen\<close> meet: the host is found, IPv6, the descriptor, and which calls succeed.\<close>

record bind_answer =
  ba_found :: bool
  ba_ipv6 :: bool
  ba_fd :: int
  ba_reuse :: bool
  ba_bound :: bool
  ba_listens :: bool

text \<open>
  \<open>os_add\<close> and \<open>os_enable\<close>: whether the poll calls fail. \<open>os_lock\<close>: another thread holds the lock of the socket.
  \<open>os_so_error\<close>: \<open>getsockopt\<close> fails or reports an error. \<open>os_resolved\<close>: the address of a UDP host, in the form that
  \<open>gen_udp_address\<close> gives it, padded to its array; inside, \<open>None\<close> is a family other than the two of IP. \<open>os_error\<close>: the text of the
  last error.
\<close>

record os =
  os_add :: bool
  os_enable :: bool
  os_lock :: bool
  os_writes :: "write_answer list"
  os_read :: read_answer
  os_from :: bytes  \<comment> \<open>address of a datagram: protocol, port, host\<close>
  os_so_error :: bool
  os_name :: "(bytes \<times> int) option option"  \<comment> \<open>getsockname or getpeername and inet_ntop: text, port\<close>
  os_connects :: "connect_answer list option"  \<comment> \<open>None: the host is not found\<close>
  os_accept :: accept_answer
  os_bind :: bind_answer
  os_resolved :: "bytes option option"
  os_wait :: "event list option"
  os_error :: bytes

section \<open>Ids\<close>

definition HASH_ID :: "int \<Rightarrow> nat" where "HASH_ID i = nat (i mod int MAX_SOCKET)"

definition ID_TAG16 :: "int \<Rightarrow> u64" where "ID_TAG16 i = word_of_int (i div 2 ^ 16 mod 2 ^ 16)"

definition slot_at :: "socket_server \<Rightarrow> int \<Rightarrow> socket" where "slot_at ss i = sr_slot ss ! HASH_ID i"

definition put_slot :: "int \<Rightarrow> socket \<Rightarrow> socket_server \<Rightarrow> socket_server" where
  "put_slot i s ss = ss\<lparr>sr_slot := (sr_slot ss)[HASH_ID i := s]\<rparr>"

definition socket_invalid :: "socket \<Rightarrow> int \<Rightarrow> bool" where
  "socket_invalid s i \<longleftrightarrow> sk_id s \<noteq> i \<or> sk_type s = SOCKET_TYPE_INVALID"

definition next_id :: "u32 \<Rightarrow> int \<times> u32" where
  "next_id a =
     (let i = sint (a + 1) in
      if i < 0 then (uint ((a + 1) AND 0x7fffffff), (a + 1) AND 0x7fffffff) else (i, a + 1))"

fun reserve_loop :: "nat \<Rightarrow> socket_server \<Rightarrow> socket_server \<times> int" where
  "reserve_loop 0 ss = (ss, -1)"
| "reserve_loop (Suc n) ss =
     (let (i, a) = next_id (sr_alloc_id ss); ss = ss\<lparr>sr_alloc_id := a\<rparr>; s = slot_at ss i in
      if sk_type s = SOCKET_TYPE_INVALID
      then (put_slot i (s\<lparr>sk_type := SOCKET_TYPE_RESERVE, sk_id := i, sk_protocol := PROTOCOL_UNKNOWN,
              sk_udpconnecting := 0, sk_fd := -1\<rparr>) ss, i)
      else reserve_loop n ss)"

definition reserve_id :: "socket_server \<Rightarrow> socket_server \<times> int" where
  "reserve_id ss = reserve_loop MAX_SOCKET ss"

section \<open>Closing\<close>

definition free_wb_list :: "write_buffer list \<Rightarrow> socket_event list" where
  "free_wb_list bs = map (\<lambda>b. Se_free (wb_buffer b)) bs"

definition plain_message :: "socket \<Rightarrow> server_message" where
  "plain_message s = \<lparr>sm_id = sk_id s, sm_opaque = sk_opaque s, sm_ud = 0, sm_data = None\<rparr>"

definition force_close :: "socket \<Rightarrow> (socket \<times> socket_event list \<times> server_message) option" where
  "force_close s =
     (if sk_type s = SOCKET_TYPE_INVALID then Some (s, [], plain_message s)
      else if sk_type s = SOCKET_TYPE_RESERVE then None
      else Some (s\<lparr>sk_high := [], sk_low := [], sk_type := SOCKET_TYPE_INVALID, sk_dw := None\<rparr>,
        free_wb_list (sk_high s) @ free_wb_list (sk_low s) @ [Se_poll_del (sk_fd s)] @
        (if sk_type s \<noteq> SOCKET_TYPE_BIND then [Se_close (sk_fd s)] else []) @
        (case sk_dw s of None \<Rightarrow> [] | Some (so, _) \<Rightarrow> [Se_free so]), plain_message s))"

text \<open>\<open>enable_write\<close> and \<open>enable_read\<close>; the boolean tells that the call failed.\<close>

definition enable_write :: "os \<Rightarrow> socket \<Rightarrow> bool \<Rightarrow> socket \<times> socket_event list \<times> bool" where
  "enable_write os s e =
     (if sk_writing s \<noteq> e then (s\<lparr>sk_writing := e\<rparr>, [Se_poll_enable (sk_fd s) (sk_reading s) e], os_enable os) else (s, [], False))"

definition enable_read :: "os \<Rightarrow> socket \<Rightarrow> bool \<Rightarrow> socket \<times> socket_event list \<times> bool" where
  "enable_read os s e =
     (if sk_reading s \<noteq> e then (s\<lparr>sk_reading := e\<rparr>, [Se_poll_enable (sk_fd s) e (sk_writing s)], os_enable os) else (s, [], False))"

text \<open>\<open>None\<close> inside is \<open>NULL\<close>.\<close>

definition new_fd ::
  "os \<Rightarrow> socket_server \<Rightarrow> int \<Rightarrow> int \<Rightarrow> u8 \<Rightarrow> u64 \<Rightarrow> bool \<Rightarrow> (socket_server \<times> socket_event list \<times> bool) option" where
  "new_fd os ss i fd protocol opaque reading =
     (let s = slot_at ss i in
      if sk_type s \<noteq> SOCKET_TYPE_RESERVE then None
      else if os_add os then Some (put_slot i (s\<lparr>sk_type := SOCKET_TYPE_INVALID\<rparr>) ss, [Se_poll_add fd], False)
      else if sk_high s \<noteq> [] \<or> sk_low s \<noteq> [] then None
      else
        let s = s\<lparr>sk_id := i, sk_fd := fd, sk_reading := True, sk_writing := False, sk_closing := False,
              sk_sending := push_bit 16 (ID_TAG16 i), sk_protocol := protocol, sk_size := MIN_READ_BUFFER, sk_opaque := opaque,
              sk_wb_size := 0, sk_warn_size := 0, sk_dw := None, sk_rtime := 0, sk_wtime := 0, sk_read := 0, sk_write := 0\<rparr>;
            (s, ev, failed) = enable_read os s reading
        in if failed then Some (put_slot i (s\<lparr>sk_type := SOCKET_TYPE_INVALID\<rparr>) ss, Se_poll_add fd # ev, False)
           else Some (put_slot i s ss, Se_poll_add fd # ev, True))"

definition stat_read :: "u64 \<Rightarrow> int \<Rightarrow> socket \<Rightarrow> socket" where
  "stat_read now n s = s\<lparr>sk_read := sk_read s + word_of_int n, sk_rtime := now\<rparr>"

definition stat_write :: "u64 \<Rightarrow> int \<Rightarrow> socket \<Rightarrow> socket" where
  "stat_write now n s = s\<lparr>sk_write := sk_write s + word_of_int n, sk_wtime := now\<rparr>"

definition report_error :: "socket \<Rightarrow> bytes \<Rightarrow> sock_answer" where
  "report_error s e = Some (SOCKET_ERR, (plain_message s)\<lparr>sm_data := Some e\<rparr>)"

section \<open>Writing\<close>

definition close_write :: "os \<Rightarrow> socket \<Rightarrow> (socket \<times> socket_event list \<times> sock_answer) option" where
  "close_write os s =
     (if sk_closing s \<or> sk_type s = SOCKET_TYPE_HALFCLOSE_READ
      then map_option (\<lambda>(s, ev, m). (s, ev, Some (SOCKET_RST, m))) (force_close s)
      else if sk_type s = SOCKET_TYPE_HALFCLOSE_WRITE then Some (s, [], Some (SOCKET_RST, plain_message s))
      else
        let (s1, ev, _) = enable_write os (s\<lparr>sk_type := SOCKET_TYPE_HALFCLOSE_WRITE\<rparr>) False
        in Some (s1, Se_shutdown_write (sk_fd s) # ev, report_error s1 (os_error os)))"

definition get_list :: "bool \<Rightarrow> socket \<Rightarrow> write_buffer list" where
  "get_list hi s = (if hi then sk_high s else sk_low s)"

definition set_list :: "bool \<Rightarrow> write_buffer list \<Rightarrow> socket \<Rightarrow> socket" where
  "set_list hi bs s = (if hi then s\<lparr>sk_high := bs\<rparr> else s\<lparr>sk_low := bs\<rparr>)"

text \<open>Result: the socket, the events, the answers that are left, and the return value.\<close>

type_synonym list_result = "(socket \<times> socket_event list \<times> write_answer list \<times> sock_answer) option"

fun send_list_tcp :: "os \<Rightarrow> u64 \<Rightarrow> bool \<Rightarrow> socket \<Rightarrow> write_answer list \<Rightarrow> list_result" where
  "send_list_tcp os now hi s [] = Some (s, [], [], None)"
| "send_list_tcp os now hi s (w # ws) =
     (case get_list hi s of
        [] \<Rightarrow> Some (s, [], w # ws, None)
      | b # bs \<Rightarrow>
          (case w of
             Write_intr \<Rightarrow> send_list_tcp os now hi s ws
           | Write_again \<Rightarrow> Some (s, [], ws, None)
           | Write_failed \<Rightarrow> map_option (\<lambda>(s, ev, r). (s, ev, ws, r)) (close_write os s)
           | Wrote n \<Rightarrow>
               let sz = min n (length (wb_rest b));
                   s1 = (stat_write now (int sz) s)\<lparr>sk_wb_size := sk_wb_size s - int sz\<rparr>;
                   wr = Se_write (sk_fd s) (take sz (wb_rest b))
               in if sz \<noteq> length (wb_rest b)
                  then Some (set_list hi (b\<lparr>wb_ptr := wb_ptr b + sz\<rparr> # bs) s1, [wr], ws, None)
                  else map_option (\<lambda>(s, ev, ws, r). (s, wr # Se_free (wb_buffer b) # ev, ws, r))
                         (send_list_tcp os now hi (set_list hi bs s1) ws)))"

text \<open>The length of the socket address, 0 when the protocol does not match.\<close>

definition udp_socket_address :: "socket \<Rightarrow> bytes \<Rightarrow> nat option" where
  "udp_socket_address s a =
     (if length a < UDP_ADDRESS_SIZE then None
      else Some (if a ! 0 \<noteq> sk_protocol s then 0
                 else if sk_protocol s = PROTOCOL_UDP then 16 else if sk_protocol s = PROTOCOL_UDPv6 then 28 else 0))"

definition drop_udp :: "bool \<Rightarrow> write_buffer \<Rightarrow> write_buffer list \<Rightarrow> socket \<Rightarrow> socket \<times> socket_event list" where
  "drop_udp hi b bs s =
     (set_list hi bs (s\<lparr>sk_wb_size := sk_wb_size s - int (length (wb_rest b))\<rparr>), [Se_free (wb_buffer b)])"

fun send_list_udp :: "os \<Rightarrow> u64 \<Rightarrow> bool \<Rightarrow> socket \<Rightarrow> write_answer list \<Rightarrow> list_result" where
  "send_list_udp os now hi s [] = Some (s, [], [], None)"
| "send_list_udp os now hi s (w # ws) =
     (case get_list hi s of
        [] \<Rightarrow> Some (s, [], w # ws, None)
      | b # bs \<Rightarrow>
          Option.bind (wb_udp b) (\<lambda>a.
          Option.bind (udp_socket_address s a) (\<lambda>sasz.
            if sasz = 0 then
              let (s1, ev) = drop_udp hi b bs s in Some (s1, Se_log (str ''type mismatch'') # ev, w # ws, None)
            else
              (case w of
                 Write_intr \<Rightarrow> Some (s, [], ws, None)
               | Write_again \<Rightarrow> Some (s, [], ws, None)
               | Write_failed \<Rightarrow> let (s1, ev) = drop_udp hi b bs s in Some (s1, Se_log (str ''sendto error'') # ev, ws, None)
               | Wrote n \<Rightarrow>
                   let sz = int (length (wb_rest b)); s1 = (stat_write now sz s)\<lparr>sk_wb_size := sk_wb_size s - sz\<rparr>
                   in map_option (\<lambda>(s, ev, ws, r). (s, Se_sendto (sk_fd s) (wb_rest b) a # Se_free (wb_buffer b) # ev, ws, r))
                        (send_list_udp os now hi (set_list hi bs s1) ws)))))"

definition send_list :: "os \<Rightarrow> u64 \<Rightarrow> bool \<Rightarrow> socket \<Rightarrow> write_answer list \<Rightarrow> list_result" where
  "send_list os now hi s ws =
     (if sk_protocol s = PROTOCOL_TCP then send_list_tcp os now hi s ws else send_list_udp os now hi s ws)"

text \<open>\<open>wb->ptr != wb->buffer\<close>: \<open>ptr\<close> is the address of the next byte, \<open>buffer\<close> that of the message itself.\<close>

definition list_uncomplete :: "write_buffer list \<Rightarrow> bool" where
  "list_uncomplete bs = (case bs of [] \<Rightarrow> False | b # _ \<Rightarrow> so_off (wb_buffer b) + int (wb_ptr b) \<noteq> 0)"

definition raise_uncomplete :: "socket \<Rightarrow> socket option" where
  "raise_uncomplete s =
     (case sk_low s of [] \<Rightarrow> None | b # bs \<Rightarrow> if sk_high s \<noteq> [] then None else Some (s\<lparr>sk_low := bs, sk_high := [b]\<rparr>))"

definition send_buffer_empty :: "socket \<Rightarrow> bool" where
  "send_buffer_empty s \<longleftrightarrow> sk_high s = [] \<and> sk_low s = []"

type_synonym sock_result = "(socket \<times> socket_event list \<times> sock_answer) option"

definition all_sent :: "os \<Rightarrow> socket \<Rightarrow> sock_result" where
  "all_sent os s =
     (if \<not> (send_buffer_empty s \<and> sk_wb_size s = 0) then None
      else if sk_closing s then map_option (\<lambda>(s, ev, _). (s, ev, None)) (force_close s)
      else
        let (s, ev, failed) = enable_write os s False in
        if failed then Some (s, ev, report_error s (str ''disable write failed''))
        else if sk_warn_size s > 0 then Some (s\<lparr>sk_warn_size := 0\<rparr>, ev, Some (SOCKET_WARNING, plain_message s))
        else Some (s, ev, None))"

text \<open>What \<open>send_buffer_\<close> makes of the result of a list.\<close>

definition list_failed :: "sock_answer \<Rightarrow> sock_answer" where
  "list_failed r = (case r of Some (SOCKET_ERR, m) \<Rightarrow> r | _ \<Rightarrow> None)"

text \<open>The second step, and with it the fourth.\<close>

definition send_low_list :: "os \<Rightarrow> u64 \<Rightarrow> socket \<Rightarrow> write_answer list \<Rightarrow> sock_result" where
  "send_low_list os now s ws =
     Option.bind (send_list os now False s ws) (\<lambda>(s, ev, ws, r).
       if r \<noteq> None then Some (s, ev, list_failed r)
       else if list_uncomplete (sk_low s) then map_option (\<lambda>s. (s, ev, None)) (raise_uncomplete s)
       else if sk_low s \<noteq> [] then Some (s, ev, None)
       else map_option (\<lambda>(s, ev', r). (s, ev @ ev', r)) (all_sent os s))"

definition send_buffer_lists :: "os \<Rightarrow> u64 \<Rightarrow> socket \<Rightarrow> sock_result" where
  "send_buffer_lists os now s =
     (if list_uncomplete (sk_low s) then None
      else Option.bind (send_list os now True s (os_writes os)) (\<lambda>(s, ev, ws, r).
        if r \<noteq> None then Some (s, ev, list_failed r)
        else if sk_high s \<noteq> [] then Some (s, ev, None)
        else map_option (\<lambda>(s, ev', r). (s, ev @ ev', r)) (if sk_low s = [] then all_sent os s else send_low_list os now s ws)))"

definition take_dw :: "socket \<Rightarrow> socket" where
  "take_dw s =
     (case sk_dw s of
        None \<Rightarrow> s
      | Some (so, off) \<Rightarrow>
          let b = \<lparr>wb_buffer = so, wb_ptr = off, wb_udp = None\<rparr>
          in s\<lparr>sk_high := b # sk_high s, sk_wb_size := sk_wb_size s + int (length (wb_rest b)), sk_dw := None\<rparr>)"

definition send_buffer :: "os \<Rightarrow> u64 \<Rightarrow> socket \<Rightarrow> sock_result" where
  "send_buffer os now s = (if os_lock os then Some (s, [], None) else send_buffer_lists os now (take_dw s))"

definition append_sendbuffer :: "bool \<Rightarrow> send_object \<Rightarrow> bytes option \<Rightarrow> socket \<Rightarrow> socket" where
  "append_sendbuffer hi so a s =
     (set_list hi (get_list hi s @ [\<lparr>wb_buffer = so, wb_ptr = 0, wb_udp = a\<rparr>]) s)
       \<lparr>sk_wb_size := sk_wb_size s + int (length (so_bytes so))\<rparr>"

definition size_warning :: "socket \<Rightarrow> socket \<times> sock_answer" where
  "size_warning s =
     (if sk_wb_size s \<ge> WARNING_SIZE \<and> sk_wb_size s \<ge> sk_warn_size s then
        (s\<lparr>sk_warn_size := (if sk_warn_size s = 0 then WARNING_SIZE * 2 else sk_warn_size s * 2)\<rparr>,
         Some (SOCKET_WARNING, (plain_message s)\<lparr>sm_ud := to_i32
           (if sk_wb_size s mod 1024 = 0 then sk_wb_size s div 1024 else sk_wb_size s div 1024 + 1)\<rparr>))
      else (s, None))"

text \<open>After a message has been added to an empty buffer.\<close>

definition start_sending :: "os \<Rightarrow> socket \<Rightarrow> sock_result" where
  "start_sending os s =
     (let (s1, ev, failed) = enable_write os s True in
      if failed then Some (s1, ev, report_error s1 (str ''enable write failed''))
      else let (s2, r) = size_warning s1 in Some (s2, ev, r))"

text \<open>\<open>addr\<close> is the address for UDP; \<open>hi\<close> is \<open>PRIORITY_HIGH\<close>.\<close>

definition send_socket :: "os \<Rightarrow> u64 \<Rightarrow> bool \<Rightarrow> int \<Rightarrow> send_object \<Rightarrow> bytes option \<Rightarrow> socket \<Rightarrow> sock_result" where
  "send_socket os now hi i so addr s =
     (if sk_type s = SOCKET_TYPE_INVALID \<or> sk_id s \<noteq> i \<or> sk_type s = SOCKET_TYPE_HALFCLOSE_WRITE \<or>
         sk_type s = SOCKET_TYPE_PACCEPT \<or> sk_closing s
      then Some (s, [Se_free so], None)
      else if sk_type s = SOCKET_TYPE_PLISTEN \<or> sk_type s = SOCKET_TYPE_LISTEN
      then Some (s, [Se_log (str ''write to listen fd''), Se_free so], None)
      else
        let a = (case addr of None \<Rightarrow> sk_address s | Some a \<Rightarrow> a) in
        if send_buffer_empty s then
          if sk_protocol s = PROTOCOL_TCP then start_sending os (append_sendbuffer True so None s)
          else
            Option.bind (udp_socket_address s a) (\<lambda>sasz.
              if sasz = 0 then Some (s, [Se_log (str ''type mismatch''), Se_free so], None)
              else
                case os_writes os of
                  Wrote n # _ \<Rightarrow>
                    if n \<ge> length (so_bytes so)
                    then Some (stat_write now (int (length (so_bytes so))) s,
                      [Se_sendto (sk_fd s) (so_bytes so) a, Se_free so], None)
                    else start_sending os (append_sendbuffer hi so (Some a) s)
                | _ \<Rightarrow> start_sending os (append_sendbuffer hi so (Some a) s))
        else
          let (s2, r) = size_warning (append_sendbuffer hi so (if sk_protocol s = PROTOCOL_TCP then None else Some a) s)
          in Some (s2, [], r))"

definition nomore_sending_data :: "socket \<Rightarrow> bool" where
  "nomore_sending_data s \<longleftrightarrow>
     (send_buffer_empty s \<and> sk_dw s = None \<and> sk_sending s AND 0xffff = 0) \<or> sk_type s = SOCKET_TYPE_HALFCLOSE_WRITE"

end
