(* ===== verification/SocketPoll.thy ===== *)
theory SocketPoll
  imports Socket
begin

text \<open>
  The socket thread of \<open>skynet-src/socket_server.c\<close>: what it does with each request of the pipe, with what arrives on a
  socket, and the turns of \<open>socket_server_poll\<close>.
\<close>

unbundle bit_operations_syntax

section \<open>Requests\<close>

type_synonym server_result = "(socket_server \<times> socket_event list \<times> sock_answer) option"

definition message_for :: "int \<Rightarrow> u64 \<Rightarrow> server_message" where
  "message_for i opaque = \<lparr>sm_id = i, sm_opaque = opaque, sm_ud = 0, sm_data = None\<rparr>"

definition invalidate :: "int \<Rightarrow> socket_server \<Rightarrow> socket_server" where
  "invalidate i ss = put_slot i ((slot_at ss i)\<lparr>sk_type := SOCKET_TYPE_INVALID\<rparr>) ss"

text \<open>A function on a socket, on the slot of an id.\<close>

definition on_slot :: "int \<Rightarrow> socket_server \<Rightarrow> (socket \<Rightarrow> sock_result) \<Rightarrow> server_result" where
  "on_slot i ss f = map_option (\<lambda>(s, ev, r). (put_slot i s ss, ev, r)) (f (slot_at ss i))"

text \<open>The attempts to connect: the descriptor, with \<open>None\<close> for a connection in progress and otherwise the text of the address.\<close>

fun connect_loop :: "connect_answer list \<Rightarrow> socket_event list \<times> (int \<times> bytes option option) option" where
  "connect_loop [] = ([], None)"
| "connect_loop (No_socket # cs) = connect_loop cs"
| "connect_loop (Refused fd # cs) =
     (let (ev, r) = connect_loop cs in ([Se_keepalive fd, Se_nonblocking fd, Se_close fd] @ ev, r))"
| "connect_loop (In_progress fd # cs) = ([Se_keepalive fd, Se_nonblocking fd], Some (fd, None))"
| "connect_loop (Connected_to fd text # cs) = ([Se_keepalive fd, Se_nonblocking fd], Some (fd, Some text))"

definition open_failed :: "int \<Rightarrow> u64 \<Rightarrow> bytes \<Rightarrow> socket_event list \<Rightarrow> socket_server \<Rightarrow> server_result" where
  "open_failed i opaque e ev ss = Some (invalidate i ss, ev, Some (SOCKET_ERR, (message_for i opaque)\<lparr>sm_data := Some e\<rparr>))"

definition open_socket :: "os \<Rightarrow> socket_server \<Rightarrow> int \<Rightarrow> bytes \<Rightarrow> int \<Rightarrow> u64 \<Rightarrow> server_result" where
  "open_socket os ss i host port opaque =
     (case os_connects os of
        None \<Rightarrow> open_failed i opaque (os_error os) [Se_getaddrinfo host port] ss
      | Some cs \<Rightarrow>
          let (ev, r) = connect_loop cs; ev = Se_getaddrinfo host port # ev in
          (case r of
             None \<Rightarrow> open_failed i opaque (os_error os) ev ss
           | Some (fd, status) \<Rightarrow>
               Option.bind (new_fd os ss i fd PROTOCOL_TCP opaque True) (\<lambda>(ss, ev', ok).
                 if \<not> ok then open_failed i opaque (str ''reach skynet socket number limit'') (ev @ ev' @ [Se_close fd]) ss
                 else
                   (case status of
                      Some text \<Rightarrow>
                        Some (put_slot i ((slot_at ss i)\<lparr>sk_type := SOCKET_TYPE_CONNECTED\<rparr>) ss, ev @ ev',
                          Some (SOCKET_OPEN, (message_for i opaque)\<lparr>sm_data := text\<rparr>))
                    | None \<Rightarrow>
                        let (s, ev'', failed) = enable_write os (slot_at ss i) True in
                        if failed
                        then open_failed i opaque (str ''enable write failed'') (ev @ ev' @ ev'' @ [Se_close fd]) (put_slot i s ss)
                        else Some (put_slot i (s\<lparr>sk_type := SOCKET_TYPE_CONNECTING\<rparr>) ss, ev @ ev' @ ev'', None)))))"

definition trigger_write :: "os \<Rightarrow> int \<Rightarrow> socket \<Rightarrow> sock_result" where
  "trigger_write os i s =
     (if socket_invalid s i then Some (s, [], None)
      else
        let (s1, ev, failed) = enable_write os s True
        in Some (s1, ev, if failed then report_error s1 (str ''enable write failed'') else None))"

definition listen_socket :: "os \<Rightarrow> socket_server \<Rightarrow> int \<Rightarrow> int \<Rightarrow> u64 \<Rightarrow> server_result" where
  "listen_socket os ss i fd opaque =
     Option.bind (new_fd os ss i fd PROTOCOL_TCP opaque False) (\<lambda>(ss, ev, ok).
       if \<not> ok then open_failed i opaque (str ''reach skynet socket number limit'') (ev @ [Se_close fd]) ss
       else
         let ss = put_slot i ((slot_at ss i)\<lparr>sk_type := SOCKET_TYPE_PLISTEN\<rparr>) ss in
         (case os_name os of
            Some (Some (text, port)) \<Rightarrow>
              Some (ss, ev, Some (SOCKET_OPEN, (message_for i opaque)\<lparr>sm_ud := port, sm_data := Some text\<rparr>))
          | _ \<Rightarrow> Some (ss, ev, Some (SOCKET_ERR, (message_for i opaque)\<lparr>sm_data := Some (os_error os)\<rparr>))))"

definition close_read :: "os \<Rightarrow> socket \<Rightarrow> socket \<times> socket_event list \<times> server_message" where
  "close_read os s =
     (let (s1, ev, _) = enable_read os (s\<lparr>sk_type := SOCKET_TYPE_HALFCLOSE_READ\<rparr>) False
      in (s1, ev @ [Se_shutdown_read (sk_fd s)], plain_message s1))"

definition halfclose_read :: "socket \<Rightarrow> bool" where
  "halfclose_read s \<longleftrightarrow> sk_type s = SOCKET_TYPE_HALFCLOSE_READ"

definition close_socket :: "os \<Rightarrow> int \<Rightarrow> bool \<Rightarrow> socket \<Rightarrow> sock_result" where
  "close_socket os i shutdown s =
     (if socket_invalid s i then Some (s, [], None)
      else if shutdown \<or> nomore_sending_data s then
        map_option (\<lambda>(s', ev, m). (s', ev, if halfclose_read s then None else Some (SOCKET_CLOSE, m))) (force_close s)
      else
        let s1 = s\<lparr>sk_closing := True\<rparr> in
        if halfclose_read s then Some (s1, [], None)
        else let (s2, ev, m) = close_read os s1 in Some (s2, ev, Some (SOCKET_CLOSE, m)))"

definition bind_socket :: "os \<Rightarrow> socket_server \<Rightarrow> int \<Rightarrow> int \<Rightarrow> u64 \<Rightarrow> server_result" where
  "bind_socket os ss i fd opaque =
     Option.bind (new_fd os ss i fd PROTOCOL_TCP opaque True) (\<lambda>(ss, ev, ok).
       if \<not> ok
       then Some (ss, ev, Some (SOCKET_ERR, (message_for i opaque)\<lparr>sm_data := Some (str ''reach skynet socket number limit'')\<rparr>))
       else Some (put_slot i ((slot_at ss i)\<lparr>sk_type := SOCKET_TYPE_BIND\<rparr>) ss, ev @ [Se_nonblocking fd],
              Some (SOCKET_OPEN, (message_for i opaque)\<lparr>sm_data := Some (str ''binding'')\<rparr>)))"

definition resume_socket :: "os \<Rightarrow> int \<Rightarrow> u64 \<Rightarrow> socket \<Rightarrow> sock_result" where
  "resume_socket os i opaque s =
     (let reply = (\<lambda>r text. Some (r, (message_for i opaque)\<lparr>sm_data := Some (str text)\<rparr>)) in
      if socket_invalid s i then Some (s, [], reply SOCKET_ERR ''invalid socket'')
      else if halfclose_read s then Some (s, [], reply SOCKET_ERR ''socket closed'')
      else
        let (s1, ev, failed) = enable_read os s True in
        if failed then Some (s1, ev, reply SOCKET_ERR ''enable read failed'')
        else if sk_type s1 = SOCKET_TYPE_PACCEPT
        then Some (s1\<lparr>sk_type := SOCKET_TYPE_CONNECTED, sk_opaque := opaque\<rparr>, ev, reply SOCKET_OPEN ''start'')
        else if sk_type s1 = SOCKET_TYPE_PLISTEN
        then Some (s1\<lparr>sk_type := SOCKET_TYPE_LISTEN, sk_opaque := opaque\<rparr>, ev, reply SOCKET_OPEN ''start'')
        else if sk_type s1 = SOCKET_TYPE_CONNECTED
        then Some (s1\<lparr>sk_opaque := opaque\<rparr>, ev, reply SOCKET_OPEN ''transfer'')
        else Some (s1, ev, None))"

definition pause_socket :: "os \<Rightarrow> int \<Rightarrow> socket \<Rightarrow> sock_result" where
  "pause_socket os i s =
     (if socket_invalid s i then Some (s, [], None)
      else
        let (s1, ev, failed) = enable_read os s False
        in Some (s1, ev, if failed then report_error s1 (str ''enable read failed'') else None))"

definition setopt_socket :: "int \<Rightarrow> int \<Rightarrow> int \<Rightarrow> socket \<Rightarrow> sock_result" where
  "setopt_socket i opt v s = Some (s, if socket_invalid s i then [] else [Se_setsockopt (sk_fd s) opt v], None)"

definition add_udp_socket :: "os \<Rightarrow> socket_server \<Rightarrow> int \<Rightarrow> int \<Rightarrow> bool \<Rightarrow> u64 \<Rightarrow> server_result" where
  "add_udp_socket os ss i fd ipv6 opaque =
     Option.bind (new_fd os ss i fd (if ipv6 then PROTOCOL_UDPv6 else PROTOCOL_UDP) opaque True) (\<lambda>(ss, ev, ok).
       if \<not> ok then Some (invalidate i ss, ev @ [Se_close fd], None)
       else Some (put_slot i ((slot_at ss i)\<lparr>sk_type := SOCKET_TYPE_CONNECTED, sk_address := replicate UDP_ADDRESS_SIZE 0\<rparr>) ss, ev, None))"

text \<open>The bytes of an address for a protocol are copied over the ones that are there.\<close>

definition copy_address :: "u8 \<Rightarrow> bytes \<Rightarrow> bytes \<Rightarrow> bytes" where
  "copy_address p a old = (let n = (if p = PROTOCOL_UDP then 7 else 19) in take n a @ drop n old)"

definition set_udp_address :: "int \<Rightarrow> bytes \<Rightarrow> socket \<Rightarrow> sock_result" where
  "set_udp_address i a s =
     (if socket_invalid s i then Some (s, [], None)
      else if a ! 0 \<noteq> sk_protocol s then Some (s, [], report_error s (str ''protocol mismatch''))
      else Some (s\<lparr>sk_address := copy_address (a ! 0) a (sk_address s), sk_udpconnecting := sk_udpconnecting s - 1\<rparr>, [], None))"

definition dial_udp_socket :: "os \<Rightarrow> socket_server \<Rightarrow> int \<Rightarrow> int \<Rightarrow> u64 \<Rightarrow> bytes \<Rightarrow> server_result" where
  "dial_udp_socket os ss i fd opaque a =
     Option.bind (new_fd os ss i fd (a ! 0) opaque True) (\<lambda>(ss, ev, ok).
       if \<not> ok then Some (invalidate i ss, ev @ [Se_close fd], None)
       else
         let s = slot_at ss i
         in Some (put_slot i (s\<lparr>sk_address := copy_address (a ! 0) a (sk_address s), sk_type := SOCKET_TYPE_CONNECTED,
                    sk_udpconnecting := sk_udpconnecting s - 1\<rparr>) ss, ev, None))"

section \<open>The count of sends on their way\<close>

definition inc_sending_ref :: "int \<Rightarrow> socket \<Rightarrow> socket option" where
  "inc_sending_ref i s =
     (if sk_protocol s \<noteq> PROTOCOL_TCP then Some s
      else if drop_bit 16 (sk_sending s) = ID_TAG16 i then
        (if sk_sending s AND 0xffff = 0xffff then None else Some (s\<lparr>sk_sending := sk_sending s + 1\<rparr>))
      else Some s)"

definition dec_sending_ref :: "int \<Rightarrow> socket \<Rightarrow> socket option" where
  "dec_sending_ref i s =
     (if sk_id s = i \<and> sk_protocol s = PROTOCOL_TCP then
        (if sk_sending s AND 0xffff = 0 then None else Some (s\<lparr>sk_sending := sk_sending s - 1\<rparr>))
      else Some s)"

definition send_cmd :: "os \<Rightarrow> u64 \<Rightarrow> bool \<Rightarrow> int \<Rightarrow> send_object \<Rightarrow> socket \<Rightarrow> sock_result" where
  "send_cmd os now hi i so s =
     Option.bind (send_socket os now hi i so None s) (\<lambda>(s, ev, r).
       map_option (\<lambda>s. (s, ev, r)) (dec_sending_ref i s))"

definition ctrl_cmd :: "os \<Rightarrow> socket_server \<Rightarrow> request \<Rightarrow> server_result" where
  "ctrl_cmd os ss rq =
     (case rq of
        Rq_resume i opaque \<Rightarrow> on_slot i ss (resume_socket os i opaque)
      | Rq_pause i opaque \<Rightarrow> on_slot i ss (pause_socket os i)
      | Rq_bind i fd opaque \<Rightarrow> bind_socket os ss i fd opaque
      | Rq_listen i fd opaque \<Rightarrow> listen_socket os ss i fd opaque
      | Rq_close i shutdown opaque \<Rightarrow> on_slot i ss (close_socket os i shutdown)
      | Rq_open i host port opaque \<Rightarrow> open_socket os ss i host port opaque
      | Rq_exit \<Rightarrow> Some (ss, [], Some (SOCKET_EXIT, message_for 0 0))
      | Rq_write i \<Rightarrow> on_slot i ss (trigger_write os i)
      | Rq_send i so \<Rightarrow> on_slot i ss (send_cmd os (sr_time ss) True i so)
      | Rq_send_low i so \<Rightarrow> on_slot i ss (send_cmd os (sr_time ss) False i so)
      | Rq_send_udp i so a \<Rightarrow> on_slot i ss (send_socket os (sr_time ss) True i so (Some a))
      | Rq_set_udp i a \<Rightarrow> on_slot i ss (set_udp_address i a)
      | Rq_dial_udp i fd opaque a \<Rightarrow> dial_udp_socket os ss i fd opaque a
      | Rq_setopt i opt v \<Rightarrow> on_slot i ss (setopt_socket i opt v)
      | Rq_udp i fd ipv6 opaque \<Rightarrow> add_udp_socket os ss i fd ipv6 opaque)"

section \<open>What arrives\<close>

definition forward_message_tcp :: "os \<Rightarrow> u64 \<Rightarrow> socket \<Rightarrow> sock_result" where
  "forward_message_tcp os now s =
     (case os_read os of
        Read_again \<Rightarrow> Some (s, [], None)
      | Read_failed \<Rightarrow> Some (s, [], report_error s (os_error os))
      | Read_data d \<Rightarrow>
          let d = take (nat (sk_size s)) d; n = int (length d) in
          if d = [] then
            if sk_closing s then
              (if nomore_sending_data s then map_option (\<lambda>(s, ev, _). (s, ev, None)) (force_close s) else Some (s, [], None))
            else if halfclose_read s then Some (s, [], None)
            else if sk_type s = SOCKET_TYPE_HALFCLOSE_WRITE
            then map_option (\<lambda>(s, ev, m). (s, ev, Some (SOCKET_CLOSE, m))) (force_close s)
            else let (s, ev, m) = close_read os s in Some (s, ev, Some (SOCKET_CLOSE, m))
          else if halfclose_read s then Some (s, [], None)
          else
            let s1 = stat_read now n s; m = (plain_message s)\<lparr>sm_ud := n, sm_data := Some d\<rparr> in
            if n = sk_size s then
              (if sk_size s * 2 \<ge> 2 ^ 31 then None else Some (s1\<lparr>sk_size := sk_size s * 2\<rparr>, [], Some (SOCKET_MORE, m)))
            else if sk_size s > MIN_READ_BUFFER \<and> n * 2 < sk_size s
            then Some (s1\<lparr>sk_size := sk_size s div 2\<rparr>, [], Some (SOCKET_DATA, m))
            else Some (s1, [], Some (SOCKET_DATA, m)))"

definition MAX_UDP_PACKAGE :: nat where "MAX_UDP_PACKAGE = 65535"

text \<open>The message is followed by the address that it came from.\<close>

definition forward_message_udp :: "os \<Rightarrow> u64 \<Rightarrow> socket \<Rightarrow> sock_result" where
  "forward_message_udp os now s =
     (case os_read os of
        Read_again \<Rightarrow> Some (s, [], None)
      | Read_failed \<Rightarrow>
          map_option (\<lambda>(s, ev, m). (s, ev, Some (SOCKET_ERR, m\<lparr>sm_data := Some (os_error os)\<rparr>))) (force_close s)
      | Read_data d \<Rightarrow>
          let d = take MAX_UDP_PACKAGE d; n = int (length d); s1 = stat_read now n s;
              v4 = (os_from os ! 0 = PROTOCOL_UDP) in
          if sk_protocol s \<noteq> (if v4 then PROTOCOL_UDP else PROTOCOL_UDPv6) then Some (s1, [], None)
          else Some (s1, [], Some (SOCKET_UDP,
                 (plain_message s)\<lparr>sm_ud := n, sm_data := Some (d @ take (if v4 then 7 else 19) (os_from os))\<rparr>)))"

definition report_connect :: "os \<Rightarrow> socket \<Rightarrow> sock_result" where
  "report_connect os s =
     (if os_so_error os then
        map_option (\<lambda>(s, ev, m). (s, ev, Some (SOCKET_ERR, m\<lparr>sm_data := Some (os_error os)\<rparr>))) (force_close s)
      else
        let s1 = s\<lparr>sk_type := SOCKET_TYPE_CONNECTED\<rparr>;
            (s2, ev, failed) = (if nomore_sending_data s1 then enable_write os s1 False else (s1, [], False))
        in
        if failed then
          map_option (\<lambda>(s, ev', m). (s, ev @ ev', Some (SOCKET_ERR, m\<lparr>sm_data := Some (str ''disable write failed'')\<rparr>)))
            (force_close s2)
        else Some (s2, ev, Some (SOCKET_OPEN, (plain_message s2)\<lparr>sm_data :=
               (case os_name os of Some (Some (text, _)) \<Rightarrow> Some text | _ \<Rightarrow> None)\<rparr>)))"

text \<open>\<open>k\<close> is the slot of the socket that listens. The result in the code's numbers is 0 for \<open>None\<close>, -1 for \<open>SOCKET_ERR\<close>, 1 for \<open>SOCKET_ACCEPT\<close>.\<close>

definition report_accept :: "os \<Rightarrow> socket_server \<Rightarrow> nat \<Rightarrow> server_result" where
  "report_accept os ss k =
     (let s = sr_slot ss ! k in
      case os_accept os of
        Accept_failed \<Rightarrow> Some (ss, [], None)
      | Accept_no_fds fd2 dup \<Rightarrow>
          let m = Some (SOCKET_ERR, (plain_message s)\<lparr>sm_data := Some (os_error os)\<rparr>) in
          if sr_reserve_fd ss \<ge> 0 then
            Some (ss\<lparr>sr_reserve_fd := dup\<rparr>,
              Se_close (sr_reserve_fd ss) # (if fd2 \<ge> 0 then [Se_close fd2] else []), m)
          else Some (ss, [], m)
      | Accepted fd text \<Rightarrow>
          let (ss, i) = reserve_id ss in
          if i < 0 then Some (ss, [Se_close fd], None)
          else
            Option.bind (new_fd os ss i fd PROTOCOL_TCP (sk_opaque s) False) (\<lambda>(ss, ev, ok).
              let ev = [Se_keepalive fd, Se_nonblocking fd] @ ev in
              if \<not> ok then Some (ss, ev @ [Se_close fd], None)
              else
                let ss = ss\<lparr>sr_slot := (sr_slot ss)[k := stat_read (sr_time ss) 1 (sr_slot ss ! k)]\<rparr>;
                    ss = put_slot i ((slot_at ss i)\<lparr>sk_type := SOCKET_TYPE_PACCEPT\<rparr>) ss
                in Some (ss, ev, Some (SOCKET_ACCEPT, (plain_message s)\<lparr>sm_ud := i, sm_data := text\<rparr>))))"

section \<open>The turns of the poll\<close>

fun clear_event :: "socket_server \<Rightarrow> int \<Rightarrow> event list \<Rightarrow> event list" where
  "clear_event ss i [] = []"
| "clear_event ss i (e # es) =
     (case ev_s e of
        Some k \<Rightarrow>
          if socket_invalid (sr_slot ss ! k) i \<and> sk_id (sr_slot ss ! k) = i then e\<lparr>ev_s := None\<rparr> # es
          else e # clear_event ss i es
      | None \<Rightarrow> e # clear_event ss i es)"

definition clear_closed_event :: "socket_server \<Rightarrow> sock_ret \<Rightarrow> server_message \<Rightarrow> socket_server" where
  "clear_closed_event ss r m =
     (if r = SOCKET_CLOSE \<or> r = SOCKET_ERR
      then ss\<lparr>sr_ev := take (sr_event_index ss) (sr_ev ss) @ clear_event ss (sm_id m) (drop (sr_event_index ss) (sr_ev ss))\<rparr>
      else ss)"

definition on_index :: "nat \<Rightarrow> socket_server \<Rightarrow> (socket \<Rightarrow> sock_result) \<Rightarrow> server_result" where
  "on_index k ss f = map_option (\<lambda>(s, ev, r). (ss\<lparr>sr_slot := (sr_slot ss)[k := s]\<rparr>, ev, r)) (f (sr_slot ss ! k))"

text \<open>\<open>--ss->event_index\<close>, with \<open>e->read = false\<close> first.\<close>

definition event_again :: "bool \<Rightarrow> socket_server \<Rightarrow> socket_server" where
  "event_again clear ss =
     (let j = sr_event_index ss - 1
      in ss\<lparr>sr_event_index := j, sr_ev := (if clear then (sr_ev ss)[j := (sr_ev ss ! j)\<lparr>ev_read := False\<rparr>] else sr_ev ss)\<rparr>)"

definition read_event :: "os \<Rightarrow> event \<Rightarrow> nat \<Rightarrow> socket_server \<Rightarrow> server_result" where
  "read_event os e k ss =
     map_option (\<lambda>(ss, ev, r).
       case r of
         Some (SOCKET_MORE, m) \<Rightarrow> (event_again False ss, ev, Some (SOCKET_DATA, m))
       | Some (SOCKET_UDP, m) \<Rightarrow> (event_again False ss, ev, r)
       | Some (SOCKET_CLOSE, m) \<Rightarrow> (ss, ev, r)
       | Some (SOCKET_ERR, m) \<Rightarrow> (ss, ev, r)
       | _ \<Rightarrow> (if ev_write e then event_again True ss else ss, ev, r))
       (on_index k ss
         (if sk_protocol (sr_slot ss ! k) = PROTOCOL_TCP then forward_message_tcp os (sr_time ss) else forward_message_udp os (sr_time ss)))"

definition eof_event :: "socket \<Rightarrow> sock_result" where
  "eof_event s =
     map_option (\<lambda>(s', ev, m). (s', ev, if halfclose_read s then None else Some (SOCKET_CLOSE, m))) (force_close s)"

definition dispatch_event :: "os \<Rightarrow> event \<Rightarrow> nat \<Rightarrow> socket_server \<Rightarrow> server_result" where
  "dispatch_event os e k ss =
     (case sk_type (sr_slot ss ! k) of
        SOCKET_TYPE_CONNECTING \<Rightarrow> on_index k ss (report_connect os)
      | SOCKET_TYPE_LISTEN \<Rightarrow> report_accept os ss k
      | SOCKET_TYPE_INVALID \<Rightarrow> Some (ss, [Se_log (str ''socket-server: invalid socket'')], None)
      | _ \<Rightarrow>
          if ev_read e then read_event os e k ss
          else if ev_write e then on_index k ss (send_buffer os (sr_time ss))
          else if ev_error e then
            on_index k ss (\<lambda>s. Some (s, [], report_error s (if os_so_error os then os_error os else str ''Unknown error'')))
          else if ev_eof e then on_index k ss eof_event
          else Some (ss, [], None))"

text \<open>One turn of the loop; the boolean tells that \<open>*more\<close> has been cleared.\<close>

definition poll_event :: "os \<Rightarrow> socket_server \<Rightarrow> server_result" where
  "poll_event os ss =
     (let e = sr_ev ss ! sr_event_index ss; ss = ss\<lparr>sr_event_index := sr_event_index ss + 1\<rparr> in
      case ev_s e of None \<Rightarrow> Some (ss, [], None) | Some k \<Rightarrow> dispatch_event os e k ss)"

definition poll_turn :: "os \<Rightarrow> socket_server \<Rightarrow> (socket_server \<times> socket_event list \<times> sock_answer \<times> bool) option" where
  "poll_turn os ss =
     (if sr_checkctrl ss \<and> sr_pipe ss \<noteq> [] then
        map_option (\<lambda>(ss, ev, r).
          case r of None \<Rightarrow> (ss, ev, r, False) | Some (t, m) \<Rightarrow> (clear_closed_event ss t m, ev, r, False))
          (ctrl_cmd os (ss\<lparr>sr_pipe := tl (sr_pipe ss)\<rparr>) (List.hd (sr_pipe ss)))
      else
        let ss = ss\<lparr>sr_checkctrl := False\<rparr> in
        if sr_event_index ss = length (sr_ev ss) then
          (case os_wait os of
             Some (e # es) \<Rightarrow>
               map_option (\<lambda>(ss, ev, r). (ss, ev, r, True))
                 (poll_event os (ss\<lparr>sr_ev := take MAX_EVENT (e # es), sr_checkctrl := True, sr_event_index := 0\<rparr>))
           | _ \<Rightarrow> Some (ss\<lparr>sr_ev := [], sr_checkctrl := True, sr_event_index := 0\<rparr>, [Se_log (str ''socket-server: wait'')], None, True))
        else map_option (\<lambda>(ss, ev, r). (ss, ev, r, False)) (poll_event os ss))"

text \<open>The poll itself, over the answers of the turns to come. The result \<open>None\<close> tells that they are used up before a message comes.\<close>

fun socket_server_poll ::
  "os list \<Rightarrow> bool \<Rightarrow> socket_server \<Rightarrow> (socket_server \<times> socket_event list \<times> (sock_ret \<times> server_message \<times> bool) option) option" where
  "socket_server_poll [] again ss = Some (ss, [], None)"
| "socket_server_poll (os # oss) again ss =
     Option.bind (poll_turn os ss) (\<lambda>(ss, ev, r, waited).
       case r of
         Some (t, m) \<Rightarrow> Some (ss, ev, Some (t, m, again \<and> \<not> waited))
       | None \<Rightarrow> map_option (\<lambda>(ss, ev', r). (ss, ev @ ev', r)) (socket_server_poll oss (again \<and> \<not> waited) ss))"

end
