(* ===== verification/SocketApi.thy ===== *)
theory SocketApi
  imports SocketPoll
begin

text \<open>
  What the other threads call of \<open>skynet-src/socket_server.c\<close>: they put a request in the pipe, and \<open>socket_server_send\<close> and
  \<open>socket_server_udp_send\<close> try to write themselves first. Each call is one step; the check without the lock and the one with
  it are the same then.
\<close>

unbundle bit_operations_syntax

section \<open>Buffers\<close>

datatype buffer_type = SOCKET_BUFFER_MEMORY | SOCKET_BUFFER_OBJECT | SOCKET_BUFFER_RAWPOINTER

text \<open>\<open>sb_off\<close> is what \<open>soi.buffer\<close> answers for an object: where its bytes begin, as seen from the object.\<close>

record socket_sendbuffer =
  sb_id :: int
  sb_type :: buffer_type
  sb_bytes :: bytes
  sb_off :: int

definition buffer_object :: "socket_sendbuffer \<Rightarrow> send_object" where
  "buffer_object b = \<lparr>so_bytes = sb_bytes b, so_off = (if sb_type b = SOCKET_BUFFER_OBJECT then sb_off b else 0),
     so_user = (sb_type b = SOCKET_BUFFER_OBJECT)\<rparr>"

definition free_buffer :: "socket_sendbuffer \<Rightarrow> socket_event list" where
  "free_buffer b = (if sb_type b = SOCKET_BUFFER_RAWPOINTER then [] else [Se_free (buffer_object b)])"

text \<open>A raw pointer is copied, the others are handed over. The bytes are the same.\<close>

definition clone_buffer :: "socket_sendbuffer \<Rightarrow> send_object" where
  "clone_buffer b = buffer_object b"

definition send_request :: "request \<Rightarrow> socket_server \<Rightarrow> socket_server" where
  "send_request rq ss = ss\<lparr>sr_pipe := sr_pipe ss @ [rq]\<rparr>"

section \<open>Sending\<close>

definition can_direct_write :: "socket \<Rightarrow> int \<Rightarrow> bool" where
  "can_direct_write s i \<longleftrightarrow>
     sk_id s = i \<and> nomore_sending_data s \<and> sk_type s = SOCKET_TYPE_CONNECTED \<and> sk_udpconnecting s = 0"

definition send_by_pipe :: "socket_sendbuffer \<Rightarrow> (int \<Rightarrow> send_object \<Rightarrow> request) \<Rightarrow> socket_server \<Rightarrow> (socket_server \<times> socket_event list \<times> int) option" where
  "send_by_pipe buf rq ss =
     map_option (\<lambda>s. (send_request (rq (sb_id buf) (clone_buffer buf)) (put_slot (sb_id buf) s ss), [], 0))
       (inc_sending_ref (sb_id buf) (slot_at ss (sb_id buf)))"

text \<open>A \<open>write\<close> of so many bytes; an error counts as 0. A datagram is sent as a whole.\<close>

definition accepts :: "write_answer list \<Rightarrow> bool" where
  "accepts ws = (case ws of Wrote _ # _ \<Rightarrow> True | _ \<Rightarrow> False)"

definition write_result :: "write_answer list \<Rightarrow> nat \<Rightarrow> nat" where
  "write_result ws n = (case ws of Wrote k # _ \<Rightarrow> min k n | _ \<Rightarrow> 0)"

definition direct_write :: "os \<Rightarrow> socket_server \<Rightarrow> socket_sendbuffer \<Rightarrow> (socket_server \<times> socket_event list \<times> int) option" where
  "direct_write os ss buf =
     (let i = sb_id buf; s = slot_at ss i; d = sb_bytes buf; tcp = (sk_protocol s = PROTOCOL_TCP) in
      Option.bind (if tcp then Some 1 else udp_socket_address s (sk_address s)) (\<lambda>sasz.
        if sasz = 0 then Some (ss, Se_log (str ''set udp address first'') # free_buffer buf, -1)
        else
          let sent = accepts (os_writes os);
              n = (if tcp then write_result (os_writes os) (length d) else if sent then length d else 0);
              ev = (if \<not> sent then [] else [if tcp then Se_write (sk_fd s) (take n d) else Se_sendto (sk_fd s) d (sk_address s)]);
              s1 = stat_write (sr_time ss) (int n) s
          in
          if n = length d then Some (put_slot i s1 ss, ev @ free_buffer buf, 0)
          else Some (send_request (Rq_write i) (put_slot i (s1\<lparr>sk_dw := Some (clone_buffer buf, n)\<rparr>) ss), ev, 0)))"

definition socket_server_send :: "os \<Rightarrow> socket_server \<Rightarrow> socket_sendbuffer \<Rightarrow> (socket_server \<times> socket_event list \<times> int) option" where
  "socket_server_send os ss buf =
     (let i = sb_id buf; s = slot_at ss i in
      if socket_invalid s i \<or> sk_closing s then Some (ss, free_buffer buf, -1)
      else if can_direct_write s i \<and> \<not> os_lock os then direct_write os ss buf
      else send_by_pipe buf Rq_send ss)"

definition socket_server_send_lowpriority :: "socket_server \<Rightarrow> socket_sendbuffer \<Rightarrow> (socket_server \<times> socket_event list \<times> int) option" where
  "socket_server_send_lowpriority ss buf =
     (if socket_invalid (slot_at ss (sb_id buf)) (sb_id buf) then Some (ss, free_buffer buf, -1)
      else send_by_pipe buf Rq_send_low ss)"

definition pad_address :: "bytes \<Rightarrow> bytes" where
  "pad_address a = take UDP_ADDRESS_SIZE (a @ replicate UDP_ADDRESS_SIZE 0)"

definition socket_server_udp_send :: "os \<Rightarrow> socket_server \<Rightarrow> bytes \<Rightarrow> socket_sendbuffer \<Rightarrow> (socket_server \<times> socket_event list \<times> int) option" where
  "socket_server_udp_send os ss addr buf =
     (let i = sb_id buf; s = slot_at ss i;
          a = pad_address (take (if addr ! 0 = PROTOCOL_UDP then 7 else 19) addr);
          piped = Some (send_request (Rq_send_udp i (clone_buffer buf) a) ss, [], 0)
      in
      if socket_invalid s i \<or> (addr ! 0 \<noteq> PROTOCOL_UDP \<and> addr ! 0 \<noteq> PROTOCOL_UDPv6) then Some (ss, free_buffer buf, -1)
      else if can_direct_write s i \<and> \<not> os_lock os then
        Option.bind (udp_socket_address s a) (\<lambda>sasz.
          if sasz = 0 then Some (ss, free_buffer buf, -1)
          else
            case os_writes os of
              Wrote k # _ \<Rightarrow>
                Some (put_slot i (stat_write (sr_time ss) (int (length (sb_bytes buf))) s) ss,
                  Se_sendto (sk_fd s) (sb_bytes buf) a # free_buffer buf, 0)
            | _ \<Rightarrow> piped)
      else piped)"

section \<open>The other requests\<close>

text \<open>An id, or -1.\<close>

definition socket_server_connect :: "socket_server \<Rightarrow> u64 \<Rightarrow> bytes \<Rightarrow> int \<Rightarrow> socket_server \<times> socket_event list \<times> int" where
  "socket_server_connect ss opaque addr port =
     (if length addr + 24 \<ge> 256 then (ss, [Se_log (str ''socket-server : Invalid addr'')], -1)
      else
        let (ss, i) = reserve_id ss in
        if i < 0 then (ss, [], -1) else (send_request (Rq_open i addr port opaque) ss, [], i))"

definition socket_server_exit :: "socket_server \<Rightarrow> socket_server" where
  "socket_server_exit = send_request Rq_exit"

definition socket_server_close :: "u64 \<Rightarrow> int \<Rightarrow> socket_server \<Rightarrow> socket_server" where
  "socket_server_close opaque i = send_request (Rq_close i False opaque)"

definition socket_server_shutdown :: "u64 \<Rightarrow> int \<Rightarrow> socket_server \<Rightarrow> socket_server" where
  "socket_server_shutdown opaque i = send_request (Rq_close i True opaque)"

definition socket_server_start :: "u64 \<Rightarrow> int \<Rightarrow> socket_server \<Rightarrow> socket_server" where
  "socket_server_start opaque i = send_request (Rq_resume i opaque)"

definition socket_server_pause :: "u64 \<Rightarrow> int \<Rightarrow> socket_server \<Rightarrow> socket_server" where
  "socket_server_pause opaque i = send_request (Rq_pause i opaque)"

definition TCP_NODELAY :: int where "TCP_NODELAY = 1"

definition socket_server_nodelay :: "int \<Rightarrow> socket_server \<Rightarrow> socket_server" where
  "socket_server_nodelay i = send_request (Rq_setopt i TCP_NODELAY 1)"

text \<open>The descriptor, or -1, with the events.\<close>

definition do_bind :: "bind_answer \<Rightarrow> int \<times> socket_event list" where
  "do_bind a =
     (if \<not> ba_found a then (-1, [])
      else if ba_fd a < 0 then (-1, [])
      else if \<not> ba_reuse a then (-1, [Se_close (ba_fd a)])
      else if \<not> ba_bound a then (-1, [Se_close (ba_fd a)])
      else (ba_fd a, []))"

definition do_listen :: "bind_answer \<Rightarrow> int \<times> socket_event list" where
  "do_listen a =
     (let (fd, ev) = do_bind a in
      if fd < 0 then (-1, ev) else if \<not> ba_listens a then (-1, ev @ [Se_close fd]) else (fd, ev))"

text \<open>An id is reserved for a descriptor, which is closed when there is none.\<close>

definition reserve_for :: "int \<Rightarrow> socket_event list \<Rightarrow> (int \<Rightarrow> request) \<Rightarrow> socket_server \<Rightarrow> socket_server \<times> socket_event list \<times> int" where
  "reserve_for fd ev rq ss =
     (let (ss, i) = reserve_id ss in
      if i < 0 then (ss, ev @ [Se_close fd], -1) else (send_request (rq i) ss, ev, i))"

definition socket_server_listen :: "os \<Rightarrow> socket_server \<Rightarrow> u64 \<Rightarrow> socket_server \<times> socket_event list \<times> int" where
  "socket_server_listen os ss opaque =
     (let (fd, ev) = do_listen (os_bind os) in
      if fd < 0 then (ss, ev, -1) else reserve_for fd ev (\<lambda>i. Rq_listen i fd opaque) ss)"

definition socket_server_bind :: "socket_server \<Rightarrow> u64 \<Rightarrow> int \<Rightarrow> socket_server \<times> int" where
  "socket_server_bind ss opaque fd =
     (let (ss, i) = reserve_id ss in if i < 0 then (ss, -1) else (send_request (Rq_bind i fd opaque) ss, i))"

definition socket_server_udp :: "os \<Rightarrow> socket_server \<Rightarrow> u64 \<Rightarrow> bytes option \<Rightarrow> int \<Rightarrow> socket_server \<times> socket_event list \<times> int" where
  "socket_server_udp os ss opaque addr port =
     (let (fd, ev) = (if port \<noteq> 0 \<or> addr \<noteq> None then do_bind (os_bind os) else (ba_fd (os_bind os), []));
          ipv6 = ((port \<noteq> 0 \<or> addr \<noteq> None) \<and> ba_ipv6 (os_bind os))
      in
      if fd < 0 then (ss, ev, -1)
      else reserve_for fd (ev @ [Se_nonblocking fd]) (\<lambda>i. Rq_udp i fd ipv6 opaque) ss)"

definition socket_server_udp_listen :: "os \<Rightarrow> socket_server \<Rightarrow> u64 \<Rightarrow> int \<Rightarrow> socket_server \<times> socket_event list \<times> int" where
  "socket_server_udp_listen os ss opaque port =
     (if port = 0 then (ss, [], -1)
      else
        let (fd, ev) = do_bind (os_bind os) in
        if fd < 0 then (ss, ev, -1)
        else reserve_for fd (ev @ [Se_nonblocking fd]) (\<lambda>i. Rq_udp i fd (ba_ipv6 (os_bind os)) opaque) ss)"

definition socket_server_udp_dial :: "os \<Rightarrow> socket_server \<Rightarrow> u64 \<Rightarrow> socket_server \<times> socket_event list \<times> int" where
  "socket_server_udp_dial os ss opaque =
     (case os_resolved os of
        Some (Some a) \<Rightarrow>
          let fd = ba_fd (os_bind os) in
          if fd < 0 then (ss, [], -1) else reserve_for fd [Se_nonblocking fd] (\<lambda>i. Rq_dial_udp i fd opaque a) ss
      | _ \<Rightarrow> (ss, [], -1))"

definition socket_server_udp_connect :: "os \<Rightarrow> socket_server \<Rightarrow> int \<Rightarrow> socket_server \<times> int" where
  "socket_server_udp_connect os ss i =
     (let s = slot_at ss i in
      if socket_invalid s i then (ss, -1)
      else
        let ss = put_slot i (s\<lparr>sk_udpconnecting := sk_udpconnecting s + 1\<rparr>) ss in
        case os_resolved os of Some (Some a) \<Rightarrow> (send_request (Rq_set_udp i a) ss, 0) | _ \<Rightarrow> (ss, -1))"

text \<open>The address behind the data of a UDP message; \<open>None\<close> is \<open>NULL\<close>.\<close>

definition socket_server_udp_address :: "bytes \<Rightarrow> int \<Rightarrow> bytes option" where
  "socket_server_udp_address d n =
     (let a = drop (nat n) d in
      if a ! 0 = PROTOCOL_UDP then Some (take 7 a) else if a ! 0 = PROTOCOL_UDPv6 then Some (take 19 a) else None)"

section \<open>The server as a whole\<close>

definition empty_socket :: socket where
  "empty_socket = \<lparr>sk_opaque = 0, sk_high = [], sk_low = [], sk_wb_size = 0, sk_rtime = 0, sk_wtime = 0, sk_read = 0,
     sk_write = 0, sk_sending = 0, sk_fd = 0, sk_id = 0, sk_type = SOCKET_TYPE_INVALID, sk_protocol = 0, sk_reading = False,
     sk_writing = False, sk_closing = False, sk_udpconnecting = 0, sk_warn_size = 0, sk_size = 0, sk_address = [], sk_dw = None\<rparr>"

text \<open>The booleans tell whether the poll is made, the pipe is made, and the pipe is added to the poll.\<close>

definition socket_server_create :: "u64 \<Rightarrow> bool \<Rightarrow> bool \<Rightarrow> bool \<Rightarrow> int \<Rightarrow> socket_server option" where
  "socket_server_create now made pipe added dup =
     (if \<not> made then None else if \<not> pipe then None else if \<not> added then None
      else Some \<lparr>sr_time = now, sr_reserve_fd = dup, sr_checkctrl = True, sr_alloc_id = 0, sr_event_index = 0, sr_ev = [],
             sr_slot = replicate MAX_SOCKET empty_socket, sr_pipe = []\<rparr>)"

definition socket_server_updatetime :: "u64 \<Rightarrow> socket_server \<Rightarrow> socket_server" where
  "socket_server_updatetime now ss = ss\<lparr>sr_time := now\<rparr>"

fun release_slots :: "socket list \<Rightarrow> socket_event list option" where
  "release_slots [] = Some []"
| "release_slots (s # ss) =
     (if sk_type s = SOCKET_TYPE_RESERVE then release_slots ss
      else Option.bind (force_close s) (\<lambda>(_, ev, _). map_option ((@) ev) (release_slots ss)))"

definition socket_server_release :: "socket_server \<Rightarrow> socket_event list option" where
  "socket_server_release ss =
     map_option (\<lambda>ev. ev @ (if sr_reserve_fd ss \<ge> 0 then [Se_close (sr_reserve_fd ss)] else [])) (release_slots (sr_slot ss))"

datatype info_type = SOCKET_INFO_LISTEN | SOCKET_INFO_TCP | SOCKET_INFO_UDP | SOCKET_INFO_BIND | SOCKET_INFO_CLOSING

record socket_info =
  si_id :: int
  si_type :: info_type
  si_opaque :: u64
  si_read :: u64
  si_write :: u64
  si_rtime :: u64
  si_wtime :: u64
  si_wbuffer :: int
  si_reading :: bool
  si_writing :: bool

text \<open>Without the name, which the system gives.\<close>

definition query_info :: "socket \<Rightarrow> socket_info option" where
  "query_info s =
     (let info = (\<lambda>t. Some \<lparr>si_id = sk_id s, si_type = t, si_opaque = sk_opaque s, si_read = sk_read s, si_write = sk_write s,
        si_rtime = sk_rtime s, si_wtime = sk_wtime s, si_wbuffer = sk_wb_size s, si_reading = sk_reading s,
        si_writing = sk_writing s\<rparr>);
        tcp = (sk_protocol s = PROTOCOL_TCP)
      in
      case sk_type s of
        SOCKET_TYPE_BIND \<Rightarrow> info SOCKET_INFO_BIND
      | SOCKET_TYPE_LISTEN \<Rightarrow> info SOCKET_INFO_LISTEN
      | SOCKET_TYPE_HALFCLOSE_READ \<Rightarrow> info (if tcp then SOCKET_INFO_CLOSING else SOCKET_INFO_UDP)
      | SOCKET_TYPE_HALFCLOSE_WRITE \<Rightarrow> info (if tcp then SOCKET_INFO_CLOSING else SOCKET_INFO_UDP)
      | SOCKET_TYPE_CONNECTED \<Rightarrow> info (if tcp then SOCKET_INFO_TCP else SOCKET_INFO_UDP)
      | _ \<Rightarrow> None)"

text \<open>The list is built in front, so the last slot comes first.\<close>

definition socket_server_info :: "socket_server \<Rightarrow> socket_info list" where
  "socket_server_info ss = foldl (\<lambda>si s. case query_info s of None \<Rightarrow> si | Some i \<Rightarrow> i # si) [] (sr_slot ss)"

end
