(* ===== verification/SocketBridge.thy ===== *)
theory SocketBridge
  imports Server SocketApi
begin

text \<open>
  \<open>skynet-src/skynet_socket.c\<close>: what the socket server reports becomes a message of type \<open>PTYPE_SOCKET\<close> in the mailbox of
  the service that owns the socket. The other functions of the file hand their arguments, with the handle of the calling
  service, to the socket server.
\<close>

unbundle bit_operations_syntax

text \<open>
  \<open>struct skynet_socket_message\<close>: \<open>km_buffer = None\<close> is a null pointer, and \<open>km_pad\<close> is what follows the structure in its
  block. \<open>message_block\<close> is the block, with the address of the buffer.
\<close>

record skynet_socket_message =
  km_type :: int
  km_id :: int
  km_ud :: int
  km_buffer :: "bytes option"
  km_pad :: bytes

definition SOCKET_MESSAGE_SIZE :: nat where "SOCKET_MESSAGE_SIZE = 24"

definition message_block :: "skynet_socket_message \<Rightarrow> u64 \<Rightarrow> bytes" where
  "message_block m buf =
     le_bytes 4 (km_type m) @ le_bytes 4 (km_id m) @ le_bytes 4 (km_ud m) @ replicate 4 0 @ le_bytes 8 (uint buf) @ km_pad m"

text \<open>The text is a C string; its characters are the bytes in front of the first NUL.\<close>

definition socket_message_of :: "int \<Rightarrow> bool \<Rightarrow> server_message \<Rightarrow> skynet_socket_message" where
  "socket_message_of type padding result =
     \<lparr>km_type = type, km_id = sm_id result, km_ud = sm_ud result,
      km_buffer = (if padding then None else sm_data result),
      km_pad = (if padding then (case sm_data result of Some d \<Rightarrow> take 128 (takeWhile (\<lambda>c. c \<noteq> 0) d) | None \<Rightarrow> []) else [])\<rparr>"

text \<open>The data of the result is in a block of its own already; here it gets its address.\<close>

definition forward_message :: "host \<Rightarrow> server \<Rightarrow> int \<Rightarrow> bool \<Rightarrow> server_message \<Rightarrow> server option" where
  "forward_message ho s type padding result =
     (let m = socket_message_of type padding result;
          (s1, buf) = (case km_buffer m of Some d \<Rightarrow> skynet_malloc s (Raw d) | None \<Rightarrow> (s, 0));
          (s2, sm) = skynet_malloc s1 (Raw (message_block m buf));
          sz = word_of_nat (SOCKET_MESSAGE_SIZE + length (km_pad m))
      in
      Option.bind (skynet_context_push ho s2 (ucast (sm_opaque result))
        \<lparr>m_source = 0, m_session = 0, m_data = sm, m_sz = sz OR push_bit MESSAGE_TYPE_SHIFT (word_of_int PTYPE_SOCKET)\<rparr>) (\<lambda>(s3, r).
      Some (if r \<noteq> 0 then skynet_free (skynet_free s3 buf) sm else s3)))"

text \<open>The type of the message and whether its data is a text; \<open>None\<close> for an unknown type.\<close>

definition message_type :: "sock_ret \<Rightarrow> (int \<times> bool) option" where
  "message_type t =
     (case t of
        SOCKET_DATA \<Rightarrow> Some (1, False)
      | SOCKET_CLOSE \<Rightarrow> Some (3, False)
      | SOCKET_OPEN \<Rightarrow> Some (2, True)
      | SOCKET_ERR \<Rightarrow> Some (5, True)
      | SOCKET_ACCEPT \<Rightarrow> Some (4, True)
      | SOCKET_UDP \<Rightarrow> Some (6, False)
      | SOCKET_WARNING \<Rightarrow> Some (7, False)
      | _ \<Rightarrow> None)"

text \<open>The number of a type in \<open>socket_server.h\<close>.\<close>

fun sock_ret_number :: "sock_ret \<Rightarrow> int" where
  "sock_ret_number SOCKET_DATA = 0"
| "sock_ret_number SOCKET_CLOSE = 1"
| "sock_ret_number SOCKET_OPEN = 2"
| "sock_ret_number SOCKET_ACCEPT = 3"
| "sock_ret_number SOCKET_ERR = 4"
| "sock_ret_number SOCKET_EXIT = 5"
| "sock_ret_number SOCKET_UDP = 6"
| "sock_ret_number SOCKET_WARNING = 7"
| "sock_ret_number SOCKET_RST = 8"
| "sock_ret_number SOCKET_MORE = 9"

text \<open>The number is the result; there is none while the poll waits.\<close>

definition skynet_socket_poll ::
  "host \<Rightarrow> os list \<Rightarrow> server \<Rightarrow> socket_server \<Rightarrow> (server \<times> socket_server \<times> socket_event list \<times> int option) option" where
  "skynet_socket_poll ho oss s ss =
     Option.bind (socket_server_poll oss True ss) (\<lambda>(ss, ev, r).
       case r of
         None \<Rightarrow> Some (s, ss, ev, None)
       | Some (t, m, again) \<Rightarrow>
           if t = SOCKET_EXIT then Some (s, ss, ev, Some 0)
           else
             (case message_type t of
                None \<Rightarrow> map_option (\<lambda>s. (s, ss, ev, Some (-1))) 
                  (skynet_error ho s None (str ''Unknown socket message type '' @ dec (sock_ret_number t) @ [46]))
              | Some (type, padding) \<Rightarrow>
                  map_option (\<lambda>s. (s, ss, ev, Some (if again then -1 else 1))) (forward_message ho s type padding m)))"

definition skynet_socket_udp_address :: "skynet_socket_message \<Rightarrow> bytes option option" where
  "skynet_socket_udp_address m =
     (if km_type m \<noteq> 6 then Some None
      else map_option (\<lambda>d. socket_server_udp_address d (km_ud m)) (km_buffer m))"

section \<open>The calls of the services\<close>

text \<open>\<open>ctx\<close> is the context of the calling service; each call is made for its handle.\<close>

definition skynet_socket_init :: "u64 \<Rightarrow> bool \<Rightarrow> bool \<Rightarrow> bool \<Rightarrow> int \<Rightarrow> socket_server option" where
  "skynet_socket_init now made pipe added dup = socket_server_create now made pipe added dup"

definition skynet_socket_exit :: "socket_server \<Rightarrow> socket_server" where
  "skynet_socket_exit ss = socket_server_exit ss"

definition skynet_socket_free :: "socket_server \<Rightarrow> socket_event list option" where
  "skynet_socket_free ss = socket_server_release ss"

definition skynet_socket_updatetime :: "u64 \<Rightarrow> socket_server \<Rightarrow> socket_server" where
  "skynet_socket_updatetime now ss = socket_server_updatetime now ss"

definition skynet_socket_sendbuffer :: "os \<Rightarrow> socket_server \<Rightarrow> socket_sendbuffer \<Rightarrow> (socket_server \<times> socket_event list \<times> int) option" where
  "skynet_socket_sendbuffer os ss buf = socket_server_send os ss buf"

definition skynet_socket_sendbuffer_lowpriority :: "socket_server \<Rightarrow> socket_sendbuffer \<Rightarrow> (socket_server \<times> socket_event list \<times> int) option" where
  "skynet_socket_sendbuffer_lowpriority ss buf = socket_server_send_lowpriority ss buf"

definition for_context :: "server \<Rightarrow> nat \<Rightarrow> (u64 \<Rightarrow> 'r) \<Rightarrow> 'r option" where
  "for_context s ctx f = map_option (\<lambda>source. f (ucast source)) (context_handle s (Some ctx))"

definition skynet_socket_listen :: "server \<Rightarrow> nat \<Rightarrow> os \<Rightarrow> socket_server \<Rightarrow> (socket_server \<times> socket_event list \<times> int) option" where
  "skynet_socket_listen s ctx os ss = for_context s ctx (socket_server_listen os ss)"

definition skynet_socket_connect ::
  "server \<Rightarrow> nat \<Rightarrow> bytes \<Rightarrow> int \<Rightarrow> socket_server \<Rightarrow> (socket_server \<times> socket_event list \<times> int) option" where
  "skynet_socket_connect s ctx host port ss = for_context s ctx (\<lambda>source. socket_server_connect ss source host port)"

definition skynet_socket_bind :: "server \<Rightarrow> nat \<Rightarrow> int \<Rightarrow> socket_server \<Rightarrow> (socket_server \<times> int) option" where
  "skynet_socket_bind s ctx fd ss = for_context s ctx (\<lambda>source. socket_server_bind ss source fd)"

definition skynet_socket_close :: "server \<Rightarrow> nat \<Rightarrow> int \<Rightarrow> socket_server \<Rightarrow> socket_server option" where
  "skynet_socket_close s ctx i ss = for_context s ctx (\<lambda>source. socket_server_close source i ss)"

definition skynet_socket_shutdown :: "server \<Rightarrow> nat \<Rightarrow> int \<Rightarrow> socket_server \<Rightarrow> socket_server option" where
  "skynet_socket_shutdown s ctx i ss = for_context s ctx (\<lambda>source. socket_server_shutdown source i ss)"

definition skynet_socket_start :: "server \<Rightarrow> nat \<Rightarrow> int \<Rightarrow> socket_server \<Rightarrow> socket_server option" where
  "skynet_socket_start s ctx i ss = for_context s ctx (\<lambda>source. socket_server_start source i ss)"

definition skynet_socket_pause :: "server \<Rightarrow> nat \<Rightarrow> int \<Rightarrow> socket_server \<Rightarrow> socket_server option" where
  "skynet_socket_pause s ctx i ss = for_context s ctx (\<lambda>source. socket_server_pause source i ss)"

definition skynet_socket_nodelay :: "int \<Rightarrow> socket_server \<Rightarrow> socket_server" where
  "skynet_socket_nodelay i ss = socket_server_nodelay i ss"

definition skynet_socket_udp ::
  "server \<Rightarrow> nat \<Rightarrow> os \<Rightarrow> bytes option \<Rightarrow> int \<Rightarrow> socket_server \<Rightarrow> (socket_server \<times> socket_event list \<times> int) option" where
  "skynet_socket_udp s ctx os addr port ss = for_context s ctx (\<lambda>source. socket_server_udp os ss source addr port)"

definition skynet_socket_udp_dial ::
  "server \<Rightarrow> nat \<Rightarrow> os \<Rightarrow> socket_server \<Rightarrow> (socket_server \<times> socket_event list \<times> int) option" where
  "skynet_socket_udp_dial s ctx os ss = for_context s ctx (socket_server_udp_dial os ss)"

definition skynet_socket_udp_listen ::
  "server \<Rightarrow> nat \<Rightarrow> os \<Rightarrow> int \<Rightarrow> socket_server \<Rightarrow> (socket_server \<times> socket_event list \<times> int) option" where
  "skynet_socket_udp_listen s ctx os port ss = for_context s ctx (\<lambda>source. socket_server_udp_listen os ss source port)"

definition skynet_socket_udp_connect :: "os \<Rightarrow> int \<Rightarrow> socket_server \<Rightarrow> socket_server \<times> int" where
  "skynet_socket_udp_connect os i ss = socket_server_udp_connect os ss i"

definition skynet_socket_udp_sendbuffer ::
  "os \<Rightarrow> bytes \<Rightarrow> socket_sendbuffer \<Rightarrow> socket_server \<Rightarrow> (socket_server \<times> socket_event list \<times> int) option" where
  "skynet_socket_udp_sendbuffer os address buf ss = socket_server_udp_send os ss address buf"

definition skynet_socket_info :: "socket_server \<Rightarrow> socket_info list" where
  "skynet_socket_info ss = socket_server_info ss"

end
