(* ===== verification/Logger.thy ===== *)
theory Logger
  imports Encode SocketBridge
begin

text \<open>
  Log files: the service of \<open>service-src/service_logger.c\<close>, the lines of \<open>skynet-src/skynet_log.c\<close>. A file is the list of the
  bytes written to it. What the system does with a file name and the text of the local time are arguments. \<open>None\<close> is a
  write to a file that is not open, or a read behind a block.
\<close>

section \<open>The logger service\<close>

datatype logger_file = Stdout | File nat

record logger =
  lg_handle :: "logger_file option"
  lg_filename :: "bytes option"
  lg_starttime :: u32
  lg_close :: bool

datatype logger_event =
    Lg_write logger_file bytes
  | Lg_close logger_file
  | Lg_callback

definition logger_create :: logger where
  "logger_create = \<lparr>lg_handle = None, lg_filename = None, lg_starttime = 0, lg_close = False\<rparr>"

definition logger_release :: "logger \<Rightarrow> logger_event list option" where
  "logger_release inst = (if lg_close inst then map_option (\<lambda>f. [Lg_close f]) (lg_handle inst) else Some [])"

text \<open>\<open>fmt t\<close> is the text that \<open>strftime\<close> makes of the second \<open>t\<close>; the number is the hundredths of a second.\<close>

definition timestring :: "(u64 \<Rightarrow> bytes) \<Rightarrow> u64 \<Rightarrow> logger \<Rightarrow> bytes \<times> u64" where
  "timestring fmt now inst = (fmt (now div 100 + ucast (lg_starttime inst)), now mod 100)"

definition dec2 :: "u64 \<Rightarrow> bytes" where
  "dec2 n = (let t = dec_nat (unat n) in replicate (2 - length t) 48 @ t)"

text \<open>\<open>reopen\<close> is the answer of \<open>freopen\<close>.\<close>

definition logger_cb ::
  "(u64 \<Rightarrow> bytes) \<Rightarrow> u64 \<Rightarrow> nat option \<Rightarrow> logger \<Rightarrow> u64 \<Rightarrow> u32 \<Rightarrow> bytes \<Rightarrow> (logger \<times> logger_event list) option" where
  "logger_cb fmt now reopen inst type source msg =
     (if type = PTYPE_SYSTEM then
        Some (case lg_filename inst of None \<Rightarrow> inst | Some _ \<Rightarrow> inst\<lparr>lg_handle := map_option File reopen\<rparr>, [])
      else if type = 0 then
        let stamp = (case lg_filename inst of None \<Rightarrow> []
                     | Some _ \<Rightarrow> (let (tmp, csec) = timestring fmt now inst in tmp @ [46] @ dec2 csec @ [32]))
        in map_option (\<lambda>f. (inst, [Lg_write f (stamp @ str ''[:'' @ hex08 source @ str ''] '' @ msg @ [10])])) (lg_handle inst)
      else Some (inst, []))"

text \<open>\<open>fopen\<close> is the answer of the system for the file.\<close>

definition logger_init :: "nat option \<Rightarrow> bytes \<Rightarrow> logger \<Rightarrow> bytes option \<Rightarrow> logger \<times> logger_event list \<times> int" where
  "logger_init fopen st inst parm =
     (let inst = inst\<lparr>lg_starttime := (case scan_uint st of None \<Rightarrow> 0 | Some (u, _) \<Rightarrow> u)\<rparr> in
      case parm of
        Some name \<Rightarrow>
          (case fopen of
             None \<Rightarrow> (inst\<lparr>lg_handle := None\<rparr>, [], 1)
           | Some f \<Rightarrow> (inst\<lparr>lg_handle := Some (File f), lg_filename := Some name, lg_close := True\<rparr>, [Lg_callback], 0))
      | None \<Rightarrow> (inst\<lparr>lg_handle := Some Stdout\<rparr>, [Lg_callback], 0))"

text \<open>The inputs of the service: a text, or the signal to open the file again with the answer of the system.\<close>

datatype logger_input = Lg_text u64 u32 bytes | Lg_reopen "nat option"

fun logger_step :: "(u64 \<Rightarrow> bytes) \<Rightarrow> logger \<Rightarrow> logger_input \<Rightarrow> (logger \<times> logger_event list) option" where
  "logger_step fmt inst (Lg_text now source msg) = logger_cb fmt now None inst 0 source msg"
| "logger_step fmt inst (Lg_reopen f) = logger_cb fmt 0 f inst PTYPE_SYSTEM 0 []"

fun logger_run :: "(u64 \<Rightarrow> bytes) \<Rightarrow> logger \<Rightarrow> logger_input list \<Rightarrow> (logger \<times> logger_event list) option" where
  "logger_run fmt inst [] = Some (inst, [])"
| "logger_run fmt inst (x # xs) =
     Option.bind (logger_step fmt inst x) (\<lambda>(i, ev). map_option (\<lambda>(i', ev'). (i', ev @ ev')) (logger_run fmt i xs))"

text \<open>The line of each text, in order.\<close>

fun lines_of :: "(u64 \<Rightarrow> bytes) \<Rightarrow> logger \<Rightarrow> logger_input list \<Rightarrow> bytes list" where
  "lines_of fmt inst [] = []"
| "lines_of fmt inst (Lg_text now source msg # xs) =
     ((if lg_filename inst = None then []
       else fst (timestring fmt now inst) @ [46] @ dec2 (snd (timestring fmt now inst)) @ [32]) @
      str ''[:'' @ hex08 source @ str ''] '' @ msg @ [10]) # lines_of fmt inst xs"
| "lines_of fmt inst (Lg_reopen f # xs) = lines_of fmt inst xs"

definition written :: "logger_event list \<Rightarrow> bytes list" where
  "written ev = concat (map (\<lambda>e. case e of Lg_write _ b \<Rightarrow> [b] | _ \<Rightarrow> []) ev)"

lemma written_simps [simp]: "written [] = []" "written (a @ b) = written a @ written b" "written (Lg_write f x # ev) = x # written ev"
  by (simp_all add: written_def)

lemma PTYPE_SYSTEM_ne_0 [simp]: "PTYPE_SYSTEM \<noteq> 0" by (simp add: PTYPE_SYSTEM_def)

lemma lines_of_same:
  "lg_filename i = lg_filename j \<Longrightarrow> lg_starttime i = lg_starttime j \<Longrightarrow> lines_of fmt i xs = lines_of fmt j xs"
  by (induction fmt i xs rule: lines_of.induct) (auto simp: timestring_def)

lemma logger_run_lines:
  assumes "lg_handle inst \<noteq> None" "\<forall>f. Lg_reopen f \<in> set xs \<longrightarrow> f \<noteq> None"
  shows "\<exists>inst' ev. logger_run fmt inst xs = Some (inst', ev) \<and> written ev = lines_of fmt inst xs \<and> lg_handle inst' \<noteq> None"
  using assms
proof (induction xs arbitrary: inst)
  case (Cons x xs)
  show ?case
  proof (cases x)
    case (Lg_text now source msg)
    obtain f where f: "lg_handle inst = Some f" using Cons.prems(1) by auto
    obtain i' ev where "logger_run fmt inst xs = Some (i', ev)" "written ev = lines_of fmt inst xs" "lg_handle i' \<noteq> None"
      using Cons.IH [of inst] Cons.prems by auto
    then show ?thesis using Lg_text f by (auto simp: logger_cb_def Let_def split: option.splits prod.splits)
  next
    case (Lg_reopen g)
    then obtain f where f: "g = Some f" using Cons.prems(2) by auto
    define j where "j = (case lg_filename inst of None \<Rightarrow> inst | Some _ \<Rightarrow> inst\<lparr>lg_handle := Some (File f)\<rparr>)"
    have j: "lg_handle j \<noteq> None" "lines_of fmt j xs = lines_of fmt inst xs"
      using Cons.prems(1) by (auto simp: j_def split: option.split intro: lines_of_same)
    obtain i' ev where "logger_run fmt j xs = Some (i', ev)" "written ev = lines_of fmt j xs" "lg_handle i' \<noteq> None"
      using Cons.IH [of j] j(1) Cons.prems(2) by auto
    moreover have "logger_step fmt inst x = Some (j, [])"
      using Lg_reopen f by (simp add: logger_cb_def j_def split: option.split)
    ultimately show ?thesis using j Lg_reopen by (simp del: logger_step.simps)
  qed
qed simp

theorem logger_writes_lines:
  assumes "logger_init fopen st logger_create parm = (inst, ev0, 0)" "\<forall>f. Lg_reopen f \<in> set xs \<longrightarrow> f \<noteq> None"
  shows "\<exists>inst' ev. logger_run fmt inst xs = Some (inst', ev) \<and> written ev = lines_of fmt inst xs \<and> logger_release inst' \<noteq> None"
proof -
  have "lg_handle inst \<noteq> None" using assms(1) by (auto simp: logger_init_def logger_create_def Let_def split: option.splits)
  then obtain inst' ev where "logger_run fmt inst xs = Some (inst', ev)" "written ev = lines_of fmt inst xs" "lg_handle inst' \<noteq> None"
    using logger_run_lines [OF _ assms(2)] by blast
  then show ?thesis by (intro exI [of _ inst'] exI [of _ ev]) (simp add: logger_release_def)
qed

theorem logger_writes_lines_witness:
  "\<exists>inst' ev. logger_run (\<lambda>_. []) (fst (logger_init (Some 3) [49] logger_create (Some [120]))) [Lg_text 7 5 [65], Lg_reopen (Some 4), Lg_text 9 5 [66]] =
      Some (inst', ev) \<and>
    written ev = lines_of (\<lambda>_. []) (fst (logger_init (Some 3) [49] logger_create (Some [120]))) [Lg_text 7 5 [65], Lg_reopen (Some 4), Lg_text 9 5 [66]] \<and>
    logger_release inst' \<noteq> None"
  by (rule logger_writes_lines [of "Some 3" "[49]" "Some [120]" _ "[Lg_callback]"]) (auto simp: logger_init_def Let_def)

text \<open>When the file cannot be opened again, the next line is written to no file.\<close>

lemma logger_reopen_fails:
  "lg_filename inst = Some name \<Longrightarrow> logger_run fmt inst [Lg_reopen None, Lg_text now source msg] = None"
  by (simp add: logger_cb_def Let_def split: prod.splits)

section \<open>The lines of a message log\<close>

unbundle bit_operations_syntax

definition hex02 :: "u8 \<Rightarrow> bytes" where
  "hex02 b = (let t = hex_nat (unat b) in replicate (2 - length t) 48 @ t)"

definition log_blob :: "bytes \<Rightarrow> bytes" where
  "log_blob buffer = concat (map hex02 buffer)"

text \<open>
  \<open>%*s\<close> takes the length as the least width, not as a bound: the text goes up to the next NUL, which must be in the block.
\<close>

definition pad_left :: "nat \<Rightarrow> bytes \<Rightarrow> bytes" where
  "pad_left n s = replicate (n - length s) 32 @ s"

definition log_socket :: "skynet_socket_message \<Rightarrow> nat \<Rightarrow> bytes option" where
  "log_socket m sz =
     (let hdr = str ''[socket] '' @ dec (km_type m) @ [32] @ dec (km_id m) @ [32] @ dec (km_ud m) @ [32] in
      case km_buffer m of
        None \<Rightarrow>
          let n = sz - SOCKET_MESSAGE_SIZE;
              n = (if 0 \<in> set (take n (km_pad m)) then length (takeWhile (\<lambda>c. c \<noteq> 0) (take n (km_pad m))) else n)
          in map_option (\<lambda>t. hdr @ [91] @ pad_left n t @ [93] @ [10]) (cstr (km_pad m) 0)
      | Some b \<Rightarrow> map_option (\<lambda>t. hdr @ log_blob t @ [10]) (peek b 0 (km_ud m)))"

datatype log_data = Log_socket skynet_socket_message | Log_bytes bytes

definition skynet_log_output :: "u32 \<Rightarrow> u32 \<Rightarrow> int \<Rightarrow> int \<Rightarrow> log_data \<Rightarrow> nat \<Rightarrow> bytes option" where
  "skynet_log_output now source type session buffer sz =
     (case buffer of
        Log_socket m \<Rightarrow> log_socket m sz
      | Log_bytes b \<Rightarrow>
          map_option (\<lambda>t. [58] @ hex08 source @ [32] @ dec type @ [32] @ dec session @ [32] @ dec_nat (unat now) @ [32] @ log_blob t @ [10])
            (peek b 0 (int sz)))"

text \<open>The bytes of a message can be read back from its line.\<close>

lemma hex_digit_digits: "d < 16 \<Longrightarrow> hex_digit False d = hex_digits ! d"
proof -
  have "\<forall>d<16. hex_digit False d = hex_digits ! d" by code_simp
  then show "d < 16 \<Longrightarrow> ?thesis" by blast
qed

lemma hex02_digits: "hex02 b = [hex_digits ! unat (drop_bit 4 b), hex_digits ! unat (b AND 0xf)]"
proof -
  have n: "unat b < 256" using unsigned_less [where ?'a = nat and w = b] by simp
  have d: "unat (drop_bit 4 b) = unat b div 16" using unat_div [of b "2 ^ 4"] by (simp add: drop_bit_eq_div)
  have "(0xf :: u8) = mask 4" by (simp add: mask_eq_exp_minus_1)
  then have "b AND 0xf = b mod 2 ^ 4" by (simp only: take_bit_eq_mask [symmetric] take_bit_eq_mod)
  then have m: "unat (b AND 0xf) = unat b mod 16" using unat_mod [of b "2 ^ 4"] by simp
  show ?thesis
  proof (cases "unat b < 16")
    case True
    then show ?thesis unfolding d m using hex_digit_digits [of 0] hex_digit_digits [of "unat b"]
      by (simp add: hex02_def hex_nat.simps [of "unat b"] Let_def) (simp add: hex_digit_def)
  next
    case False
    moreover have "unat b div 16 < 16" using n by simp
    ultimately show ?thesis unfolding d m using hex_digit_digits [of "unat b div 16"] hex_digit_digits [of "unat b mod 16"]
      by (simp add: hex02_def hex_nat.simps [of "unat b"] hex_nat.simps [of "unat b div 16"] Let_def)
  qed
qed

theorem log_blob_roundtrip: "ltohex bs = ret (log_blob bs) \<and> lfromhex (log_blob bs) = ret bs"
proof -
  have e: "log_blob bs = concat (map (\<lambda>b. [hex_digits ! unat (drop_bit 4 b), hex_digits ! unat (b AND 0xf)]) bs)"
    using hex02_digits [abs_def] by (simp add: log_blob_def)
  have "ltohex bs = ret (log_blob bs)"
    using tohex_loop_spec [of "[]" bs "capacity (int (length bs) * 2) (SMALL_CHUNK div 2 < int (length bs))"]
    by (simp add: ltohex_def Let_def lift_def ret_def e capacity_def SMALL_CHUNK_def)
  then show ?thesis using hex_roundtrip [of bs] by auto
qed

text \<open>C39: The line that a message log writes for an opened, accepted or failed socket reads behind the block of the message: the text
  has no NUL, and the format takes the length as a width.\<close>

theorem log_socket_overread: "log_socket (socket_message_of type True result) sz = None"
proof -
  have "0 \<notin> set (take 128 (takeWhile (\<lambda>c. c \<noteq> 0) d))" for d :: bytes
    by (auto dest: in_set_takeD set_takeWhileD)
  then show ?thesis by (simp add: log_socket_def socket_message_of_def Let_def cstr_def split: option.split)
qed

end
