(* ===== verification/SocketIds.thy ===== *)
theory SocketIds
  imports SocketApi
begin

text \<open>
  Ids of sockets: \<open>reserve_id\<close> finds a free slot whenever there is one, and \<open>SOCKET_CLOSE\<close> is raised at most once for an id
  until the id is handed out again, whatever the other threads ask for in the meantime.
\<close>

unbundle bit_operations_syntax

section \<open>Slots\<close>

lemma HASH_ID_less [simp]: "HASH_ID i < MAX_SOCKET"
  by (simp add: HASH_ID_def MAX_SOCKET_def MAX_SOCKET_P_def nat_less_iff)

lemma slot_at_put_slot:
  "length (sr_slot ss) = MAX_SOCKET \<Longrightarrow> slot_at (put_slot i s ss) j = (if HASH_ID i = HASH_ID j then s else slot_at ss j)"
  by (simp add: slot_at_def put_slot_def nth_list_update)

lemma put_slot_frame [simp]:
  "length (sr_slot (put_slot i s ss)) = length (sr_slot ss)" "sr_pipe (put_slot i s ss) = sr_pipe ss"
  "sr_time (put_slot i s ss) = sr_time ss" "sr_alloc_id (put_slot i s ss) = sr_alloc_id ss" "sr_ev (put_slot i s ss) = sr_ev ss"
  "sr_event_index (put_slot i s ss) = sr_event_index ss" "sr_checkctrl (put_slot i s ss) = sr_checkctrl ss"
  by (simp_all add: put_slot_def)

lemma nth_put_slot: "sr_slot (put_slot i s ss) ! k = (if k = HASH_ID i \<and> k < length (sr_slot ss) then s else sr_slot ss ! k)"
  by (cases "HASH_ID i < length (sr_slot ss)") (auto simp: put_slot_def nth_list_update list_update_beyond)

section \<open>Ids that are handed out\<close>

lemma sint_nonneg:
  assumes "\<not> sint (w :: u32) < 0"
  shows "sint w = uint w \<and> uint w < 2 ^ 31"
proof -
  have r: "0 \<le> uint w" "uint w < 4294967296" using uint_bounded [of w] by simp_all
  have e: "sint w = (uint w + 2147483648) mod 4294967296 - 2147483648"
    by (simp add: sint_uint signed_take_bit_eq_take_bit_shift take_bit_eq_mod)
  show ?thesis
  proof (cases "uint w < 2147483648")
    case True
    then show ?thesis using e r by simp
  next
    case False
    then have "(uint w - 2147483648 + 4294967296) mod 4294967296 = uint w - 2147483648"
      using r by (subst mod_add_self2) (rule mod_pos_pos_trivial, simp_all)
    then show ?thesis using e assms r by (simp add: add.commute)
  qed
qed

lemma uint_mask31: "uint ((w :: u32) AND 0x7fffffff) = uint w mod 2 ^ 31"
proof -
  have "(0x7fffffff :: u32) = mask 31" by (simp add: mask_eq_exp_minus_1)
  then have "w AND 0x7fffffff = w mod 2 ^ 31" by (simp only: take_bit_eq_mask [symmetric] take_bit_eq_mod)
  then show ?thesis by (simp add: uint_mod)
qed

lemma next_id_spec:
  assumes "next_id a = (i, b)"
  shows "0 \<le> i \<and> i < 2 ^ 31 \<and> i = uint b \<and> uint b mod 2 ^ 16 = (uint a + 1) mod 2 ^ 16"
proof (cases "sint (a + 1) < 0")
  case True
  then have "b = (a + 1) AND 0x7fffffff" "i = uint b" using assms by (auto simp: next_id_def Let_def)
  moreover have "uint ((a + 1) AND 0x7fffffff) mod 2 ^ 16 = uint (a + 1) mod 2 ^ 16"
    unfolding uint_mask31 by (simp add: mod_mod_cancel)
  moreover have "uint ((a + 1) AND 0x7fffffff) < 2 ^ 31" unfolding uint_mask31 by simp
  ultimately show ?thesis by (simp add: uint_word_ariths mod_mod_cancel)
next
  case False
  then have "b = a + 1" "i = sint (a + 1)" using assms by (auto simp: next_id_def Let_def)
  then show ?thesis using sint_nonneg [OF False] by (simp add: uint_word_ariths mod_mod_cancel)
qed

text \<open>The slot that the \<open>m\<close>-th id after \<open>a\<close> falls on.\<close>

definition probe :: "u32 \<Rightarrow> nat \<Rightarrow> nat" where
  "probe a m = nat ((uint a + 1 + int m) mod 2 ^ 16)"

lemma probe_next:
  assumes "next_id a = (i, b)"
  shows "HASH_ID i = probe a 0" "probe b m = probe a (Suc m)"
proof -
  note n = next_id_spec [OF assms]
  show "HASH_ID i = probe a 0" using n by (simp add: HASH_ID_def probe_def MAX_SOCKET_def MAX_SOCKET_P_def)
  have "(uint b + (1 + int m)) mod 2 ^ 16 = (uint b mod 2 ^ 16 + (1 + int m)) mod 2 ^ 16" by (simp add: mod_add_left_eq)
  also have "\<dots> = (uint a + 1 + (1 + int m)) mod 2 ^ 16" using n by (simp only: mod_add_left_eq)
  finally have "(uint b + 1 + int m) mod 2 ^ 16 = (uint a + 1 + int (Suc m)) mod 2 ^ 16" by (simp add: ac_simps)
  then show "probe b m = probe a (Suc m)" by (simp only: probe_def)
qed

lemma probe_surj: "k < MAX_SOCKET \<Longrightarrow> \<exists>m<MAX_SOCKET. probe a m = k"
proof -
  assume k: "k < MAX_SOCKET"
  let ?m = "nat ((int k - uint a - 1) mod 2 ^ 16)"
  have "(uint a + 1 + (int k - uint a - 1) mod 2 ^ 16) mod 2 ^ 16 = int k mod 2 ^ 16"
    by (subst mod_add_right_eq) simp
  moreover have "int k mod 2 ^ 16 = int k" using k by (simp add: MAX_SOCKET_def MAX_SOCKET_P_def)
  ultimately have "probe a ?m = k" by (simp add: probe_def)
  moreover have "?m < MAX_SOCKET" by (simp add: MAX_SOCKET_def MAX_SOCKET_P_def nat_less_iff)
  ultimately show ?thesis by blast
qed

definition reserved :: "int \<Rightarrow> socket \<Rightarrow> socket" where
  "reserved i s = s\<lparr>sk_type := SOCKET_TYPE_RESERVE, sk_id := i, sk_protocol := PROTOCOL_UNKNOWN, sk_udpconnecting := 0, sk_fd := -1\<rparr>"

lemma slot_at_alloc [simp]: "slot_at (ss\<lparr>sr_alloc_id := a\<rparr>) i = slot_at ss i" "sr_slot (ss\<lparr>sr_alloc_id := a\<rparr>) = sr_slot ss"
  by (simp_all add: slot_at_def)

lemma reserve_loop_spec:
  assumes "reserve_loop n ss = (ss', i)"
  shows "(i = -1 \<and> (\<exists>a. ss' = ss\<lparr>sr_alloc_id := a\<rparr>) \<and> (\<forall>m<n. sk_type (sr_slot ss ! probe (sr_alloc_id ss) m) \<noteq> SOCKET_TYPE_INVALID)) \<or>
    (0 \<le> i \<and> i < 2 ^ 31 \<and> sk_type (slot_at ss i) = SOCKET_TYPE_INVALID \<and>
      (\<exists>a. ss' = put_slot i (reserved i (slot_at ss i)) (ss\<lparr>sr_alloc_id := a\<rparr>)))"
  using assms
proof (induction n arbitrary: ss)
  case 0
  then show ?case by (auto intro!: exI [of _ "sr_alloc_id ss"])
next
  case (Suc n)
  obtain j b where nx: "next_id (sr_alloc_id ss) = (j, b)" by fastforce
  let ?t = "ss\<lparr>sr_alloc_id := b\<rparr>"
  show ?case
  proof (cases "sk_type (slot_at ss j) = SOCKET_TYPE_INVALID")
    case True
    then have "i = j" "ss' = put_slot j (reserved j (slot_at ss j)) ?t" using Suc.prems nx by (auto simp: Let_def reserved_def)
    then show ?thesis using True next_id_spec [OF nx] by blast
  next
    case False
    then have "reserve_loop n ?t = (ss', i)" using Suc.prems nx by (simp add: Let_def)
    note ih = Suc.IH [OF this]
    have "sk_type (sr_slot ss ! probe (sr_alloc_id ss) 0) \<noteq> SOCKET_TYPE_INVALID"
      using False probe_next(1) [OF nx] by (simp add: slot_at_def)
    moreover have "sk_type (sr_slot ss ! probe b m) = sk_type (sr_slot ss ! probe (sr_alloc_id ss) (Suc m))" for m
      by (simp only: probe_next(2) [OF nx])
    ultimately show ?thesis using ih by (simp add: All_less_Suc2)
  qed
qed

lemma reserve_id_spec:
  assumes "reserve_id ss = (ss', i)"
  shows "(i = -1 \<and> (\<exists>a. ss' = ss\<lparr>sr_alloc_id := a\<rparr>) \<and> (\<forall>k<MAX_SOCKET. sk_type (sr_slot ss ! k) \<noteq> SOCKET_TYPE_INVALID)) \<or>
    (0 \<le> i \<and> i < 2 ^ 31 \<and> sk_type (slot_at ss i) = SOCKET_TYPE_INVALID \<and>
      (\<exists>a. ss' = put_slot i (reserved i (slot_at ss i)) (ss\<lparr>sr_alloc_id := a\<rparr>)))"
  using reserve_loop_spec [OF assms [unfolded reserve_id_def]] probe_surj by metis

text \<open>C27: \<open>reserve_id\<close> finds a free slot whenever there is one, whatever the counter of ids is, and reserves it under an id that
  is not negative, leaving the other slots alone; when all slots are taken it returns -1 and changes no slot.\<close>

theorem reserve_id_complete:
  assumes "length (sr_slot ss) = MAX_SOCKET" "reserve_id ss = (ss', i)"
  shows "if \<exists>k<MAX_SOCKET. sk_type (sr_slot ss ! k) = SOCKET_TYPE_INVALID
    then 0 \<le> i \<and> i < 2 ^ 31 \<and> sk_type (slot_at ss i) = SOCKET_TYPE_INVALID \<and> slot_at ss' i = reserved i (slot_at ss i) \<and>
      (\<forall>k. k \<noteq> HASH_ID i \<longrightarrow> sr_slot ss' ! k = sr_slot ss ! k)
    else i = -1 \<and> sr_slot ss' = sr_slot ss"
proof -
  have "sk_type (slot_at ss i) = SOCKET_TYPE_INVALID \<Longrightarrow> \<exists>k<MAX_SOCKET. sk_type (sr_slot ss ! k) = SOCKET_TYPE_INVALID"
    by (rule exI [of _ "HASH_ID i"]) (simp add: slot_at_def)
  then show ?thesis using reserve_id_spec [OF assms(2)] assms(1)
    by (elim disjE) (auto simp: slot_at_put_slot nth_put_slot)
qed

section \<open>What a function may do to a socket\<close>

text \<open>\<open>SOCKET_CLOSE\<close> is still to come for a socket that is open for reading.\<close>

definition open_read :: "socket \<Rightarrow> bool" where
  "open_read s \<longleftrightarrow> sk_type s \<noteq> SOCKET_TYPE_INVALID \<and> sk_type s \<noteq> SOCKET_TYPE_HALFCLOSE_READ"

definition plain_ret :: "sock_answer \<Rightarrow> bool" where
  "plain_ret r = (case r of Some (SOCKET_CLOSE, m) \<Rightarrow> False | Some (SOCKET_ACCEPT, m) \<Rightarrow> False | _ \<Rightarrow> True)"

definition shuts :: "socket \<Rightarrow> socket \<Rightarrow> sock_answer \<Rightarrow> bool" where
  "shuts s s' r \<longleftrightarrow> sk_id s' = sk_id s \<and> (open_read s' \<longrightarrow> open_read s) \<and>
     (sk_type s' \<noteq> SOCKET_TYPE_INVALID \<longrightarrow> sk_type s \<noteq> SOCKET_TYPE_INVALID) \<and>
     (plain_ret r \<or> (\<exists>m. r = Some (SOCKET_CLOSE, m) \<and> sm_id m = sk_id s \<and> open_read s \<and> \<not> open_read s'))"

definition same_kind :: "socket \<Rightarrow> socket \<Rightarrow> bool" where
  "same_kind s s' \<longleftrightarrow> sk_id s' = sk_id s \<and> sk_type s' = sk_type s"

named_theorems shut_rules

lemma plain_ret_simps [simp]:
  "plain_ret None" "plain_ret (Some (t, m)) \<longleftrightarrow> t \<noteq> SOCKET_CLOSE \<and> t \<noteq> SOCKET_ACCEPT" "plain_ret (report_error s e)"
  by (auto simp: plain_ret_def report_error_def split: sock_ret.split)

lemma same_kind_simps [simp]: "same_kind s s" "same_kind s (t\<lparr>sk_warn_size := n\<rparr>) = same_kind s t"
  by (simp_all add: same_kind_def)

lemma same_kind_trans: "same_kind s t \<Longrightarrow> same_kind t u \<Longrightarrow> same_kind s u" by (simp add: same_kind_def)

lemma shuts_same: "same_kind s s' \<Longrightarrow> plain_ret r \<Longrightarrow> shuts s s' r" by (simp add: shuts_def same_kind_def open_read_def)

lemma shuts_trans: "shuts s t r \<Longrightarrow> plain_ret r \<Longrightarrow> shuts t u r' \<Longrightarrow> shuts s u r'"
  unfolding shuts_def by (cases r'; auto)

lemma shuts_after_same: "same_kind s t \<Longrightarrow> shuts t u r \<Longrightarrow> shuts s u r"
  unfolding shuts_def same_kind_def open_read_def by simp

lemma shuts_then_same: "shuts s t r \<Longrightarrow> same_kind t u \<Longrightarrow> shuts s u r"
  unfolding shuts_def same_kind_def open_read_def by simp

lemma force_close_kind:
  "force_close s = Some (s', ev, m) \<Longrightarrow> sk_id s' = sk_id s \<and> sk_type s' = SOCKET_TYPE_INVALID \<and> sm_id m = sk_id s"
  by (auto simp: force_close_def plain_message_def split: if_splits)

lemma shuts_force: "force_close s = Some (s', ev, m) \<Longrightarrow> plain_ret r \<Longrightarrow> shuts s s' r"
  by (drule force_close_kind) (simp add: shuts_def open_read_def)

lemma shuts_force_close:
  "force_close s = Some (s', ev, m) \<Longrightarrow> open_read s \<Longrightarrow> shuts s s' (Some (SOCKET_CLOSE, m))"
  by (drule force_close_kind) (simp add: shuts_def open_read_def)

lemma enable_kind:
  "enable_write os s e = (s', ev, f) \<Longrightarrow> same_kind s s'" "enable_read os s e = (s', ev, f) \<Longrightarrow> same_kind s s'"
  by (auto simp: enable_write_def enable_read_def same_kind_def split: if_splits)

lemma set_list_kind [simp]:
  "sk_id (set_list hi bs s) = sk_id s" "sk_type (set_list hi bs s) = sk_type s" "sk_id (stat_write now n s) = sk_id s"
  "sk_type (stat_write now n s) = sk_type s" "sk_id (stat_read now n s) = sk_id s" "sk_type (stat_read now n s) = sk_type s"
  "sk_id (take_dw s) = sk_id s" "sk_type (take_dw s) = sk_type s" "sk_id (append_sendbuffer hi so a s) = sk_id s"
  "sk_type (append_sendbuffer hi so a s) = sk_type s"
  by (auto simp: set_list_def stat_write_def stat_read_def take_dw_def append_sendbuffer_def Let_def split: option.split)

lemma shuts_half:
  "enable_write os (s\<lparr>sk_type := SOCKET_TYPE_HALFCLOSE_WRITE\<rparr>) e = (s', ev, f) \<Longrightarrow> open_read s \<Longrightarrow> plain_ret r \<Longrightarrow> shuts s s' r"
  by (drule enable_kind) (auto simp: shuts_def same_kind_def open_read_def)

lemma shuts_close_write:
  assumes "close_write os s = Some (s', ev, r)" "sk_type s \<noteq> SOCKET_TYPE_INVALID"
  shows "shuts s s' r"
  using assms unfolding close_write_def Let_def
  by (auto split: if_splits prod.splits intro: shuts_force shuts_half simp: open_read_def shuts_same)

definition after_write :: "u64 \<Rightarrow> nat \<Rightarrow> socket \<Rightarrow> socket" where
  "after_write now n s = (stat_write now (int n) s)\<lparr>sk_wb_size := sk_wb_size s - int n\<rparr>"

lemma after_write_kind [simp]: "same_kind s (set_list hi bs (after_write now n s))"
  by (simp add: after_write_def same_kind_def)

lemma send_list_tcp_cases [consumes 1, case_names empty intr again failed part whole]:
  assumes "send_list_tcp os now hi s (w # ws) = Some (s', ev, ws', r)"
  obtains "get_list hi s = []" "s' = s" "ev = []" "r = None"
  | b bs where "get_list hi s = b # bs" "w = Write_intr" "send_list_tcp os now hi s ws = Some (s', ev, ws', r)"
  | b bs where "get_list hi s = b # bs" "w = Write_again" "s' = s" "ev = []" "r = None"
  | b bs where "get_list hi s = b # bs" "w = Write_failed" "close_write os s = Some (s', ev, r)"
  | b bs n where "get_list hi s = b # bs" "w = Wrote n" "n < length (wb_rest b)"
      "s' = set_list hi (b\<lparr>wb_ptr := wb_ptr b + n\<rparr> # bs) (after_write now n s)" "ev = [Se_write (sk_fd s) (take n (wb_rest b))]" "r = None"
  | b bs n ev' where "get_list hi s = b # bs" "w = Wrote n" "length (wb_rest b) \<le> n"
      "send_list_tcp os now hi (set_list hi bs (after_write now (length (wb_rest b)) s)) ws = Some (s', ev', ws', r)"
      "ev = Se_write (sk_fd s) (wb_rest b) # Se_free (wb_buffer b) # ev'"
proof (cases "get_list hi s")
  case Nil
  show thesis by (rule that(1) [OF Nil]) (use assms Nil in simp_all)
next
  case (Cons b bs)
  show thesis
  proof (cases w)
    case (Wrote n)
    show thesis
    proof (cases "n < length (wb_rest b)")
      case True
      then have m: "min n (length (wb_rest b)) = n" "n \<noteq> length (wb_rest b)" by simp_all
      show thesis by (rule that(5) [OF Cons Wrote True]) (use assms Cons Wrote m in \<open>simp_all add: Let_def after_write_def\<close>)
    next
      case False
      then have n: "length (wb_rest b) \<le> n" "min n (length (wb_rest b)) = length (wb_rest b)" by simp_all
      from assms Cons Wrote n(2) obtain ev' where
        e: "send_list_tcp os now hi (set_list hi bs (after_write now (length (wb_rest b)) s)) ws = Some (s', ev', ws', r)"
          "ev = Se_write (sk_fd s) (wb_rest b) # Se_free (wb_buffer b) # ev'"
        by (auto simp: Let_def after_write_def)
      show thesis by (rule that(6) [OF Cons Wrote n(1) e])
    qed
  next
    case Write_intr
    show thesis by (rule that(2) [OF Cons Write_intr]) (use assms Cons Write_intr in simp)
  next
    case Write_again
    show thesis by (rule that(3) [OF Cons Write_again]) (use assms Cons Write_again in simp_all)
  next
    case Write_failed
    show thesis by (rule that(4) [OF Cons Write_failed]) (use assms Cons Write_failed in auto)
  qed
qed

lemma close_write_ret: "close_write os s = Some (s', ev, r) \<Longrightarrow> r \<noteq> None"
  by (auto simp: close_write_def report_error_def Let_def split: if_splits prod.splits)

lemma shuts_send_list_tcp:
  "send_list_tcp os now hi s ws = Some (s', ev, ws', r) \<Longrightarrow> sk_type s \<noteq> SOCKET_TYPE_INVALID \<Longrightarrow>
    shuts s s' r \<and> (r = None \<longrightarrow> same_kind s s')"
proof (induction ws arbitrary: s ev)
  case (Cons w ws)
  from Cons.prems(1) show ?case
  proof (cases rule: send_list_tcp_cases)
    case (intr b bs)
    then show ?thesis using Cons.IH Cons.prems(2) by blast
  next
    case (failed b bs)
    then show ?thesis using shuts_close_write close_write_ret Cons.prems(2) by blast
  next
    case (whole b bs n ev')
    have "same_kind s (set_list hi bs (after_write now (length (wb_rest b)) s))" by simp
    moreover from this Cons.prems(2) have "sk_type (set_list hi bs (after_write now (length (wb_rest b)) s)) \<noteq> SOCKET_TYPE_INVALID"
      by (simp add: same_kind_def)
    ultimately show ?thesis using Cons.IH [OF whole(4)] by (blast intro: shuts_after_same same_kind_trans)
  qed (simp_all add: shuts_same)
qed (simp add: shuts_same)

lemma drop_udp_kind: "drop_udp hi b bs s = (s', ev) \<Longrightarrow> same_kind s s'"
  by (auto simp: drop_udp_def same_kind_def)

lemma send_list_udp_kind: "send_list_udp os now hi s ws = Some (s', ev, ws', r) \<Longrightarrow> same_kind s s' \<and> r = None"
proof (induction ws arbitrary: s ev)
  case (Cons w ws)
  show ?case
  proof (cases "get_list hi s")
    case Nil
    then show ?thesis using Cons.prems by simp
  next
    case (Cons b bs)
    obtain a n where a: "wb_udp b = Some a" "udp_socket_address s a = Some n"
      using Cons.prems Cons by (auto split: Option.bind_splits)
    let ?s1 = "set_list hi bs (after_write now (length (wb_rest b)) s)"
    consider (sent) m ev2 where "n \<noteq> 0" "w = Wrote m" "send_list_udp os now hi ?s1 ws = Some (s', ev2, ws', r)"
      | (stop) "n = 0 \<or> (\<forall>m. w \<noteq> Wrote m)"
    proof (cases "n \<noteq> 0 \<and> (\<exists>m. w = Wrote m)")
      case True
      then obtain m where "w = Wrote m" by blast
      with True Cons.prems Cons a show ?thesis by (auto simp: Let_def after_write_def intro: that(1))
    qed (use that(2) in blast)
    then show ?thesis
    proof cases
      case sent
      have "same_kind s ?s1" by simp
      then show ?thesis using Cons.IH [OF sent(3)] by (blast intro: same_kind_trans)
    next
      case stop
      then show ?thesis using Cons.prems Cons a
        by (auto simp: Let_def split: if_splits write_answer.splits prod.splits dest: drop_udp_kind)
    qed
  qed
qed simp

lemma shuts_send_list:
  "send_list os now hi s ws = Some (s', ev, ws', r) \<Longrightarrow> sk_type s \<noteq> SOCKET_TYPE_INVALID \<Longrightarrow>
    shuts s s' r \<and> (r = None \<longrightarrow> same_kind s s')"
  by (cases "sk_protocol s = PROTOCOL_TCP")
    (use send_list_udp_kind [of os now hi s ws s' ev ws' r] shuts_send_list_tcp [of os now hi s ws s' ev ws' r] in
      \<open>auto simp: send_list_def intro: shuts_same\<close>)

lemma list_failed_plain: "shuts s s' r \<Longrightarrow> r \<noteq> None \<Longrightarrow> plain_ret r \<Longrightarrow> shuts s s' (list_failed r)"
  by (auto simp: list_failed_def shuts_def split: option.split sock_ret.split)

lemma send_list_plain: "send_list os now hi s ws = Some (s', ev, ws', r) \<Longrightarrow> plain_ret r"
proof -
  have "send_list_tcp os now hi s ws = Some (s', ev, ws', r) \<Longrightarrow> plain_ret r" for s ev
  proof (induction ws arbitrary: s ev)
    case (Cons w ws)
    from Cons.prems show ?case
    proof (cases rule: send_list_tcp_cases)
      case (failed b bs)
      then show ?thesis by (auto simp: close_write_def report_error_def Let_def split: if_splits prod.splits)
    qed (use Cons.IH in simp_all)
  qed simp
  then show "send_list os now hi s ws = Some (s', ev, ws', r) \<Longrightarrow> plain_ret r"
    using send_list_udp_kind [of os now hi s ws s' ev ws' r] by (auto simp: send_list_def split: if_splits)
qed

lemma shuts_all_sent: "all_sent os s = Some (s', ev, r) \<Longrightarrow> shuts s s' r"
  unfolding all_sent_def Let_def
  by (auto split: if_splits prod.splits intro: shuts_force shuts_same dest!: enable_kind simp: report_error_def)

lemma raise_uncomplete_kind: "raise_uncomplete s = Some s' \<Longrightarrow> same_kind s s'"
  by (auto simp: raise_uncomplete_def same_kind_def split: list.splits if_splits)

lemma shuts_send_low_list:
  assumes "send_low_list os now s ws = Some (s', ev, r)" "sk_type s \<noteq> SOCKET_TYPE_INVALID"
  shows "shuts s s' r"
proof -
  obtain s1 ev1 ws1 r1 where l: "send_list os now False s ws = Some (s1, ev1, ws1, r1)"
    using assms(1) by (auto simp: send_low_list_def split: Option.bind_splits)
  show ?thesis using assms(1) l shuts_send_list [OF l assms(2)] send_list_plain [OF l]
    by (auto simp: send_low_list_def split: if_splits intro: list_failed_plain shuts_same shuts_after_same
      shuts_same [OF same_kind_trans] dest: shuts_all_sent raise_uncomplete_kind)
qed

lemma shuts_send_buffer_lists:
  assumes "send_buffer_lists os now s = Some (s', ev, r)" "sk_type s \<noteq> SOCKET_TYPE_INVALID"
  shows "shuts s s' r"
proof -
  obtain s1 ev1 ws r1 where l: "send_list os now True s (os_writes os) = Some (s1, ev1, ws, r1)"
    using assms(1) by (auto simp: send_buffer_lists_def split: if_splits Option.bind_splits)
  note sh = shuts_send_list [OF l assms(2)]
  have nl: "\<not> list_uncomplete (sk_low s)" using assms(1) by (auto simp: send_buffer_lists_def)
  show ?thesis
  proof (cases "r1 = None \<and> sk_high s1 = []")
    case True
    then obtain ev' where e: "(if sk_low s1 = [] then all_sent os s1 else send_low_list os now s1 ws) = Some (s', ev', r)"
      using assms(1) l nl by (auto simp: send_buffer_lists_def simp del: if_split_eq1)
    have k: "same_kind s s1" "sk_type s1 \<noteq> SOCKET_TYPE_INVALID" using sh True assms(2) by (auto simp: same_kind_def)
    have "shuts s1 s' r" using e k(2) by (auto intro: shuts_all_sent shuts_send_low_list split: if_splits)
    with k(1) show ?thesis by (rule shuts_after_same)
  next
    case False
    then show ?thesis using assms(1) l sh send_list_plain [OF l]
      by (auto simp: send_buffer_lists_def split: if_splits intro: list_failed_plain shuts_same)
  qed
qed

lemma shuts_send_buffer:
  assumes "send_buffer os now s = Some (s', ev, r)" "sk_type s \<noteq> SOCKET_TYPE_INVALID"
  shows "shuts s s' r"
proof (cases "os_lock os")
  case False
  then have "shuts (take_dw s) s' r"
    using assms by (auto simp: send_buffer_def intro!: shuts_send_buffer_lists)
  moreover have "same_kind s (take_dw s)" by (simp add: same_kind_def)
  ultimately show ?thesis by (rule shuts_after_same [rotated])
qed (use assms in \<open>auto simp: send_buffer_def shuts_same\<close>)

lemma size_warning_kind: "size_warning s = (s', r) \<Longrightarrow> same_kind s s' \<and> plain_ret r"
  by (auto simp: size_warning_def same_kind_def split: if_splits)

lemma start_sending_kind: "start_sending os s = Some (s', ev, r) \<Longrightarrow> same_kind s s' \<and> plain_ret r"
  by (auto simp: start_sending_def Let_def dest!: enable_kind size_warning_kind split: if_splits prod.splits intro: same_kind_trans)

lemma send_socket_kind:
  assumes "send_socket os now hi i so a s = Some (s', ev, r)"
  shows "same_kind s s' \<and> plain_ret r"
proof -
  have q: "same_kind s (append_sendbuffer h so x s)" for h x by (simp add: same_kind_def)
  show ?thesis using assms unfolding send_socket_def Let_def
    by (auto split: if_splits prod.splits write_answer.splits list.splits Option.bind_splits
      dest!: size_warning_kind start_sending_kind intro: same_kind_trans [OF q] simp: same_kind_def)
qed

lemma ref_kind:
  "inc_sending_ref i s = Some s' \<Longrightarrow> same_kind s s'" "dec_sending_ref i s = Some s' \<Longrightarrow> same_kind s s'"
  by (auto simp: inc_sending_ref_def dec_sending_ref_def same_kind_def split: if_splits)

section \<open>The functions of the socket thread\<close>

lemma close_read_kind:
  "close_read os s = (s', ev, m) \<Longrightarrow> sk_id s' = sk_id s \<and> sk_type s' = SOCKET_TYPE_HALFCLOSE_READ \<and> sm_id m = sk_id s"
  by (auto simp: close_read_def Let_def plain_message_def same_kind_def dest!: enable_kind split: prod.splits)

lemma shuts_close_read:
  "close_read os s = (s', ev, m) \<Longrightarrow> same_kind t s \<Longrightarrow> open_read s \<Longrightarrow> shuts t s' (Some (SOCKET_CLOSE, m))"
  by (drule close_read_kind) (auto simp: shuts_def open_read_def same_kind_def)

lemma shuts_request [shut_rules]:
  "resume_socket os i opaque s = Some (s', ev, r) \<Longrightarrow> shuts s s' r"
  "pause_socket os i s = Some (s', ev, r) \<Longrightarrow> shuts s s' r"
  "trigger_write os i s = Some (s', ev, r) \<Longrightarrow> shuts s s' r"
  "setopt_socket i opt v s = Some (s', ev, r) \<Longrightarrow> shuts s s' r"
  "set_udp_address i a s = Some (s', ev, r) \<Longrightarrow> shuts s s' r"
proof -
  show "resume_socket os i opaque s = Some (s', ev, r) \<Longrightarrow> shuts s s' r"
    by (auto simp: resume_socket_def Let_def socket_invalid_def halfclose_read_def shuts_def open_read_def same_kind_def
      dest!: enable_kind split: if_splits prod.splits)
  show "pause_socket os i s = Some (s', ev, r) \<Longrightarrow> shuts s s' r"
    by (auto simp: pause_socket_def Let_def intro: shuts_same dest!: enable_kind split: if_splits prod.splits)
  show "trigger_write os i s = Some (s', ev, r) \<Longrightarrow> shuts s s' r"
    by (auto simp: trigger_write_def Let_def intro: shuts_same dest!: enable_kind split: if_splits prod.splits)
  show "setopt_socket i opt v s = Some (s', ev, r) \<Longrightarrow> shuts s s' r" by (auto simp: setopt_socket_def shuts_same)
  show "set_udp_address i a s = Some (s', ev, r) \<Longrightarrow> shuts s s' r"
    by (auto simp: set_udp_address_def intro!: shuts_same simp: same_kind_def split: if_splits)
qed

lemma shuts_close_socket [shut_rules]: "close_socket os i sd s = Some (s', ev, r) \<Longrightarrow> shuts s s' r"
  by (auto simp: close_socket_def Let_def socket_invalid_def halfclose_read_def open_read_def same_kind_def
    intro: shuts_same shuts_force shuts_force_close shuts_close_read split: if_splits prod.splits)

lemma shuts_send [shut_rules]:
  "send_socket os now hi i so a s = Some (s', ev, r) \<Longrightarrow> shuts s s' r"
  "send_cmd os now hi i so s = Some (s', ev, r) \<Longrightarrow> shuts s s' r"
  by (auto simp: send_cmd_def split: Option.bind_splits intro: shuts_same same_kind_trans dest: ref_kind dest!: send_socket_kind)

lemma shuts_tcp:
  "forward_message_tcp os now s = Some (s', ev, r) \<Longrightarrow> sk_type s \<noteq> SOCKET_TYPE_INVALID \<Longrightarrow> shuts s s' r"
  unfolding forward_message_tcp_def Let_def
  by (auto simp: halfclose_read_def open_read_def intro: shuts_same shuts_force shuts_force_close shuts_close_read
    split: if_splits prod.splits read_answer.splits simp: same_kind_def report_error_def)

lemma shuts_udp: "forward_message_udp os now s = Some (s', ev, r) \<Longrightarrow> shuts s s' r"
  unfolding forward_message_udp_def Let_def
  by (auto intro: shuts_same shuts_force split: if_splits prod.splits read_answer.splits simp: same_kind_def)

lemma shuts_connected: "open_read s \<Longrightarrow> shuts s (s\<lparr>sk_type := SOCKET_TYPE_CONNECTED\<rparr>) None"
  by (simp add: shuts_def open_read_def)

lemma shuts_report_connect:
  assumes "report_connect os s = Some (s', ev, r)" "open_read s"
  shows "shuts s s' r"
proof (cases "os_so_error os")
  case True
  then show ?thesis using assms by (auto simp: report_connect_def intro: shuts_force)
next
  case False
  let ?s = "s\<lparr>sk_type := SOCKET_TYPE_CONNECTED\<rparr>"
  obtain s2 ev2 f where e: "(if nomore_sending_data ?s then enable_write os ?s False else (?s, [], False)) = (s2, ev2, f)"
    by (metis prod_cases3)
  then have "same_kind ?s s2" by (auto dest: enable_kind split: if_splits)
  then have "shuts s s2 None" by (rule shuts_then_same [OF shuts_connected [OF assms(2)]])
  moreover have "shuts s2 s' r"
    using assms(1) False unfolding report_connect_def Let_def e by (auto intro: shuts_force shuts_same split: if_splits)
  ultimately show ?thesis using shuts_trans [of s s2 None s' r] by simp
qed

lemma shuts_eof: "eof_event s = Some (s', ev, r) \<Longrightarrow> sk_type s \<noteq> SOCKET_TYPE_INVALID \<Longrightarrow> shuts s s' r"
  by (auto simp: eof_event_def halfclose_read_def open_read_def intro: shuts_force shuts_force_close split: if_splits)

section \<open>The server\<close>

text \<open>Each socket is in the slot of its id, and events are about slots of the table.\<close>

definition wf_server :: "socket_server \<Rightarrow> bool" where
  "wf_server ss \<longleftrightarrow> length (sr_slot ss) = MAX_SOCKET \<and>
     (\<forall>k<MAX_SOCKET. sk_type (sr_slot ss ! k) \<noteq> SOCKET_TYPE_INVALID \<longrightarrow> HASH_ID (sk_id (sr_slot ss ! k)) = k) \<and>
     (\<forall>e\<in>set (sr_ev ss). \<forall>k. ev_s e = Some k \<longrightarrow> k < MAX_SOCKET) \<and> sr_event_index ss \<le> length (sr_ev ss)"

definition may_close :: "int \<Rightarrow> socket_server \<Rightarrow> bool" where
  "may_close i ss \<longleftrightarrow> sk_id (slot_at ss i) = i \<and> open_read (slot_at ss i)"

definition closes :: "int \<Rightarrow> sock_answer \<Rightarrow> bool" where
  "closes i r = (case r of Some (SOCKET_CLOSE, m) \<Rightarrow> sm_id m = i | _ \<Rightarrow> False)"

definition server_shuts :: "int \<Rightarrow> socket_server \<Rightarrow> socket_server \<Rightarrow> sock_answer \<Rightarrow> bool" where
  "server_shuts i ss ss' r \<longleftrightarrow> wf_server ss' \<and> sr_pipe ss' = sr_pipe ss \<and> (may_close i ss' \<longrightarrow> may_close i ss) \<and>
     (closes i r \<longrightarrow> may_close i ss \<and> \<not> may_close i ss')"

lemma closes_simps [simp]: "\<not> closes i None" "closes i (Some (t, m)) \<longleftrightarrow> t = SOCKET_CLOSE \<and> sm_id m = i"
  by (auto simp: closes_def split: sock_ret.split)

lemma plain_closes: "plain_ret r \<Longrightarrow> \<not> closes i r"
  by (auto simp: closes_def plain_ret_def split: option.splits sock_ret.splits)

lemma wf_serverD:
  assumes "wf_server ss"
  shows "length (sr_slot ss) = MAX_SOCKET" "k < MAX_SOCKET \<Longrightarrow> sk_type (sr_slot ss ! k) \<noteq> SOCKET_TYPE_INVALID \<Longrightarrow> HASH_ID (sk_id (sr_slot ss ! k)) = k"
    "e \<in> set (sr_ev ss) \<Longrightarrow> ev_s e = Some k \<Longrightarrow> k < MAX_SOCKET" "sr_event_index ss \<le> length (sr_ev ss)"
  using assms by (auto simp: wf_server_def)

text \<open>A step that leaves the sockets alone.\<close>

lemma server_shuts_frame:
  "wf_server ss \<Longrightarrow> sr_slot ss' = sr_slot ss \<Longrightarrow> sr_pipe ss' = sr_pipe ss \<Longrightarrow>
   (\<And>e k. e \<in> set (sr_ev ss') \<Longrightarrow> ev_s e = Some k \<Longrightarrow> k < MAX_SOCKET) \<Longrightarrow>
   sr_event_index ss' \<le> length (sr_ev ss') \<Longrightarrow> \<not> closes i r \<Longrightarrow> server_shuts i ss ss' r"
  by (auto simp: server_shuts_def wf_server_def may_close_def slot_at_def)

lemma server_shuts_refl: "wf_server ss \<Longrightarrow> \<not> closes i r \<Longrightarrow> server_shuts i ss ss r"
  by (simp add: server_shuts_def)

lemma server_shuts_trans:
  "server_shuts i ss ss1 None \<Longrightarrow> server_shuts i ss1 ss2 r \<Longrightarrow> server_shuts i ss ss2 r"
  "server_shuts i ss ss1 r \<Longrightarrow> server_shuts i ss1 ss2 None \<Longrightarrow> server_shuts i ss ss2 r"
  by (auto simp: server_shuts_def)

text \<open>A function on one socket.\<close>

lemma server_shuts_nth:
  assumes wf: "wf_server ss" and k: "k < MAX_SOCKET" and sh: "shuts (sr_slot ss ! k) s' r"
  shows "server_shuts i ss (ss\<lparr>sr_slot := (sr_slot ss)[k := s']\<rparr>) r"
proof -
  let ?ss' = "ss\<lparr>sr_slot := (sr_slot ss)[k := s']\<rparr>"
  note len = wf_serverD(1) [OF wf]
  have "wf_server ?ss'" using wf sh k len by (simp add: wf_server_def shuts_def nth_list_update)
  moreover have m: "may_close i ?ss' \<longrightarrow> may_close i ss"
    using sh len k by (auto simp: may_close_def slot_at_def shuts_def nth_list_update)
  moreover have "may_close i ss \<and> \<not> may_close i ?ss'" if cl: "closes i r"
  proof -
    obtain m where r: "r = Some (SOCKET_CLOSE, m)" "sm_id m = i" using cl by (cases r) auto
    then have s: "sk_id (sr_slot ss ! k) = i" "open_read (sr_slot ss ! k)" "\<not> open_read s'" using sh by (auto simp: shuts_def)
    then have "HASH_ID i = k" using wf_serverD(2) [OF wf k] by (auto simp: open_read_def)
    then show ?thesis using s len k by (auto simp: may_close_def slot_at_def)
  qed
  ultimately show ?thesis by (simp add: server_shuts_def)
qed

lemma server_shuts_on_index:
  assumes "on_index k ss f = Some (ss', ev, r)" "wf_server ss" "k < MAX_SOCKET"
    "\<And>s' ev r. f (sr_slot ss ! k) = Some (s', ev, r) \<Longrightarrow> shuts (sr_slot ss ! k) s' r"
  shows "server_shuts i ss ss' r"
  using assms by (auto simp: on_index_def intro: server_shuts_nth)

lemma server_shuts_on_slot:
  assumes "on_slot j ss f = Some (ss', ev, r)" "wf_server ss" "\<And>s' ev r. f (slot_at ss j) = Some (s', ev, r) \<Longrightarrow> shuts (slot_at ss j) s' r"
  shows "server_shuts i ss ss' r"
  using assms by (auto simp: on_slot_def put_slot_def slot_at_def intro: server_shuts_nth)

text \<open>A new socket in the slot of another id.\<close>

definition opened :: "int \<Rightarrow> socket_server \<Rightarrow> socket_server \<Rightarrow> bool" where
  "opened j ss ss' \<longleftrightarrow> (\<exists>s'. ss' = put_slot j s' ss \<and> (sk_type s' = SOCKET_TYPE_INVALID \<or> sk_id s' = j))"

lemma put_slot_twice [simp]: "put_slot j s (put_slot j t ss) = put_slot j s ss"
  by (simp add: put_slot_def)

lemma server_shuts_opened:
  assumes "opened j ss ss'" "wf_server ss" "j \<noteq> i \<or> sk_type (slot_at ss' i) = SOCKET_TYPE_INVALID" "\<not> closes i r"
  shows "server_shuts i ss ss' r"
  using assms unfolding opened_def server_shuts_def wf_server_def may_close_def open_read_def
  by (auto simp: slot_at_put_slot nth_put_slot plain_closes split: if_splits)

lemma opened_new_fd: "new_fd os ss j fd p opaque rd = Some (ss', ev, ok) \<Longrightarrow>
    opened j ss ss' \<and> (\<not> ok \<longrightarrow> (\<exists>s'. ss' = put_slot j s' ss \<and> sk_type s' = SOCKET_TYPE_INVALID)) \<and>
    (ok \<longrightarrow> (\<exists>s'. ss' = put_slot j s' ss \<and> sk_id s' = j))"
  by (auto simp: new_fd_def Let_def opened_def same_kind_def dest!: enable_kind split: if_splits prod.splits)

section \<open>The steps of the socket thread\<close>

text \<open>The id that a request opens.\<close>

definition opens :: "request \<Rightarrow> int option" where
  "opens rq =
     (case rq of Rq_open j h p a \<Rightarrow> Some j | Rq_listen j fd a \<Rightarrow> Some j | Rq_bind j fd a \<Rightarrow> Some j | Rq_udp j fd v a \<Rightarrow> Some j
      | Rq_dial_udp j fd a b \<Rightarrow> Some j | _ \<Rightarrow> None)"

lemma opened_trans [intro]: "opened j ss ss1 \<Longrightarrow> opened j ss1 ss2 \<Longrightarrow> opened j ss ss2"
  by (auto simp: opened_def)

lemma opened_invalidate: "opened j ss (invalidate j ss)"
  by (auto simp: opened_def invalidate_def)

lemma put_slot_opened:
  "opened j ss (put_slot j s ss)" if "sk_type s = SOCKET_TYPE_INVALID \<or> sk_id s = j"
  using that by (auto simp: opened_def)

lemma new_fd_id:
  assumes "new_fd os ss j fd p opaque rd = Some (ss', ev, True)" "length (sr_slot ss) = MAX_SOCKET"
  shows "opened j ss ss'" "sk_id (slot_at ss' j) = j"
  using opened_new_fd [OF assms(1)] assms(2) by (auto simp: slot_at_put_slot)

lemma open_failed_opened: "open_failed j opaque e ev ss = Some (ss', ev', r) \<Longrightarrow> opened j ss ss' \<and> plain_ret r"
  by (auto simp: open_failed_def opened_invalidate)

lemma opened_length: "opened j ss ss' \<Longrightarrow> length (sr_slot ss') = length (sr_slot ss)"
  by (auto simp: opened_def)

lemma opens_opened:
  assumes len: "length (sr_slot ss) = MAX_SOCKET"
  shows
    "listen_socket os ss j fd opaque = Some (ss', ev, r) \<Longrightarrow> opened j ss ss' \<and> plain_ret r"
    "bind_socket os ss j fd opaque = Some (ss', ev, r) \<Longrightarrow> opened j ss ss' \<and> plain_ret r"
    "add_udp_socket os ss j fd v opaque = Some (ss', ev, r) \<Longrightarrow> opened j ss ss' \<and> plain_ret r"
    "dial_udp_socket os ss j fd opaque a = Some (ss', ev, r) \<Longrightarrow> opened j ss ss' \<and> plain_ret r"
    "open_socket os ss j h p opaque = Some (ss', ev, r) \<Longrightarrow> opened j ss ss' \<and> plain_ret r"
proof -
  have w: "\<exists>ss1 ev1 ok. new_fd os ss j fd p opaque rd = Some (ss1, ev1, ok) \<and> opened j ss ss1 \<and>
      (ok \<longrightarrow> sk_id (slot_at ss1 j) = j) \<and> f (ss1, ev1, ok) = Some x"
    if "Option.bind (new_fd os ss j fd p opaque rd) f = Some x" for p rd f fd opaque and x :: "socket_server \<times> socket_event list \<times> sock_answer"
    using that opened_new_fd [of os ss j fd p opaque rd] new_fd_id(2) [OF _ len, of os j fd p opaque rd]
    by (auto split: Option.bind_splits)
  show "listen_socket os ss j fd opaque = Some (ss', ev, r) \<Longrightarrow> opened j ss ss' \<and> plain_ret r"
    unfolding listen_socket_def Let_def
    by (drule w) (auto dest!: open_failed_opened split: if_splits option.splits prod.splits
      intro: opened_trans [OF _ put_slot_opened])
  show "bind_socket os ss j fd opaque = Some (ss', ev, r) \<Longrightarrow> opened j ss ss' \<and> plain_ret r"
    unfolding bind_socket_def Let_def
    by (drule w) (auto split: if_splits option.splits prod.splits intro: opened_trans [OF _ put_slot_opened])
  show "add_udp_socket os ss j fd v opaque = Some (ss', ev, r) \<Longrightarrow> opened j ss ss' \<and> plain_ret r"
    unfolding add_udp_socket_def Let_def
    by (drule w) (auto split: if_splits option.splits prod.splits intro: opened_trans [OF _ put_slot_opened] opened_trans [OF _ opened_invalidate])
  show "dial_udp_socket os ss j fd opaque a = Some (ss', ev, r) \<Longrightarrow> opened j ss ss' \<and> plain_ret r"
    unfolding dial_udp_socket_def Let_def
    by (drule w) (auto split: if_splits option.splits prod.splits intro: opened_trans [OF _ put_slot_opened] opened_trans [OF _ opened_invalidate])
  show "opened j ss ss' \<and> plain_ret r" if o: "open_socket os ss j h p opaque = Some (ss', ev, r)"
  proof (cases "os_connects os")
    case None
    then show ?thesis using o by (auto simp: open_socket_def dest!: open_failed_opened)
  next
    case (Some cs)
    obtain ev1 x where c: "connect_loop cs = (ev1, x)" by fastforce
    show ?thesis
    proof (cases x)
      case None
      then show ?thesis using o Some c by (auto simp: open_socket_def Let_def dest!: open_failed_opened)
    next
      case (Some y)
      obtain fd status where y: "y = (fd, status)" by fastforce
      show ?thesis using o unfolding open_socket_def \<open>os_connects os = Some cs\<close> option.case Let_def c prod.case Some y
        by (auto dest!: w open_failed_opened enable_kind split: if_splits option.splits prod.splits simp: same_kind_def)
          (rule opened_trans, assumption,
            (assumption | rule put_slot_opened, simp | erule opened_trans [OF put_slot_opened, rotated], simp))+
    qed
  qed
qed

lemma server_shuts_ctrl:
  assumes c: "ctrl_cmd os ss rq = Some (ss', ev, r)" and wf: "wf_server ss" and rq: "opens rq \<noteq> Some i"
  shows "server_shuts i ss ss' r"
proof -
  note len = wf_serverD(1) [OF wf]
  have o: "server_shuts i ss ss' r" if "opened j ss ss' \<and> plain_ret r" "j \<noteq> i" for j
    using server_shuts_opened [of j ss ss' i r] wf that plain_closes by blast
  note s = server_shuts_on_slot [OF _ wf]
  show ?thesis
  proof (cases rq)
    case Rq_exit
    then show ?thesis using c wf by (auto simp: ctrl_cmd_def intro!: server_shuts_frame dest: wf_serverD(3,4))
  qed (use c rq in \<open>auto simp: ctrl_cmd_def opens_def dest!: opens_opened [OF len] intro: s shut_rules o\<close>)
qed

lemma wf_event: "wf_server ss \<Longrightarrow> j \<le> length (sr_ev ss) \<Longrightarrow> wf_server (ss\<lparr>sr_event_index := j\<rparr>)" by (simp add: wf_server_def)

lemma server_shuts_again:
  assumes "wf_server ss"
  shows "server_shuts i ss (event_again c ss) None"
proof (rule server_shuts_frame [OF assms])
  fix e k assume "e \<in> set (sr_ev (event_again c ss))" "ev_s e = Some k"
  then consider "e \<in> set (sr_ev ss)" | j where "j < length (sr_ev ss)" "e = (sr_ev ss ! j)\<lparr>ev_read := False\<rparr>"
    by (cases "sr_event_index ss - 1 < length (sr_ev ss)")
      (auto simp: event_again_def Let_def list_update_beyond split: if_splits dest!: subsetD [OF set_update_subset_insert])
  then show "k < MAX_SOCKET" using \<open>ev_s e = Some k\<close> wf_serverD(3) [OF assms] by cases (auto dest: nth_mem)
next
  show "sr_event_index (event_again c ss) \<le> length (sr_ev (event_again c ss))"
    using wf_serverD(4) [OF assms] by (simp add: event_again_def Let_def)
qed (simp_all add: event_again_def Let_def)

lemma read_event_shuts:
  assumes "read_event os e k ss = Some (ss', ev, r)" "wf_server ss" "k < MAX_SOCKET" "sk_type (sr_slot ss ! k) \<noteq> SOCKET_TYPE_INVALID"
  shows "server_shuts i ss ss' r"
proof -
  let ?f = "if sk_protocol (sr_slot ss ! k) = PROTOCOL_TCP then forward_message_tcp os (sr_time ss) else forward_message_udp os (sr_time ss)"
  obtain ss1 ev1 r1 where f: "on_index k ss ?f = Some (ss1, ev1, r1)" using assms(1) by (auto simp: read_event_def)
  have s: "server_shuts i ss ss1 r1"
    by (rule server_shuts_on_index [OF f assms(2,3)])
      (use assms(4) in \<open>auto intro: shuts_tcp shuts_udp split: if_splits\<close>)
  then have a: "server_shuts i ss1 (event_again c ss1) None" for c by (intro server_shuts_again) (simp add: server_shuts_def)
  have "server_shuts i ss (event_again c ss1) r1" for c by (rule server_shuts_trans(2) [OF s a])
  moreover have "server_shuts i ss (event_again c ss1) (Some (SOCKET_DATA, m))" if "r1 = Some (SOCKET_MORE, m)" for c m
    using server_shuts_trans(2) [OF s a [of c]] that by (simp add: server_shuts_def)
  ultimately show ?thesis using assms(1) f s
    by (auto simp: read_event_def split: option.splits sock_ret.splits if_splits)
qed

lemma reserve_opened:
  assumes "reserve_id ss = (ss', j)" "0 \<le> j"
  shows "\<exists>a. opened j (ss\<lparr>sr_alloc_id := a\<rparr>) ss'"
proof -
  obtain a where "ss' = put_slot j (reserved j (slot_at ss j)) (ss\<lparr>sr_alloc_id := a\<rparr>)"
    using reserve_id_spec [OF assms(1)] assms(2) by auto
  then show ?thesis using put_slot_opened [of "reserved j (slot_at ss j)" j "ss\<lparr>sr_alloc_id := a\<rparr>"] by (auto simp: reserved_def)
qed

lemma reserve_failed:
  assumes "reserve_id ss = (ss', j)" "j < 0"
  shows "j = -1 \<and> (\<exists>a. ss' = ss\<lparr>sr_alloc_id := a\<rparr>)"
  using reserve_id_spec [OF assms(1)] assms(2) by auto

lemma server_shuts_alloc:
  "server_shuts i (ss\<lparr>sr_alloc_id := a\<rparr>) ss' r = server_shuts i ss ss' r" "wf_server (ss\<lparr>sr_alloc_id := a\<rparr>) = wf_server ss"
  by (simp_all add: server_shuts_def may_close_def wf_server_def)

lemma server_shuts_accept:
  assumes a: "report_accept os ss k = Some (ss', ev, r)" and wf: "wf_server ss" and k: "k < MAX_SOCKET"
    and i: "\<And>m. r = Some (SOCKET_ACCEPT, m) \<Longrightarrow> sm_ud m \<noteq> i"
  shows "server_shuts i ss ss' r"
proof (cases "os_accept os")
  case (Accepted fd name)
  obtain ss1 j where j: "reserve_id ss = (ss1, j)" by fastforce
  show ?thesis
  proof (cases "j < 0")
    case True
    then show ?thesis using a Accepted j reserve_failed [OF j] wf_serverD [OF wf]
      by (auto simp: report_accept_def Let_def intro!: server_shuts_frame [OF wf])
  next
    case False
    then obtain b where b: "opened j (ss\<lparr>sr_alloc_id := b\<rparr>) ss1" using reserve_opened [OF j] by auto
    have wfb: "wf_server (ss\<lparr>sr_alloc_id := b\<rparr>)" using wf by (simp add: server_shuts_alloc)
    obtain ss2 ev2 ok where n: "new_fd os ss1 j fd PROTOCOL_TCP (sk_opaque (sr_slot ss ! k)) False = Some (ss2, ev2, ok)"
      using a Accepted j False by (auto simp: report_accept_def Let_def split: Option.bind_splits)
    have o2: "opened j (ss\<lparr>sr_alloc_id := b\<rparr>) ss2" using b opened_new_fd [OF n] opened_trans by blast
    have len: "length (sr_slot ss2) = MAX_SOCKET" using opened_length [OF o2] wf_serverD(1) [OF wf] by simp
    show ?thesis
    proof (cases ok)
      case False
      then have "sk_type (slot_at ss2 j) = SOCKET_TYPE_INVALID"
        using opened_new_fd [OF n] len by (auto simp: slot_at_put_slot)
      then have "server_shuts i ss ss2 None"
        using server_shuts_opened [OF o2 wfb, of i None] by (auto simp: server_shuts_alloc)
      then show ?thesis using a Accepted j n False \<open>\<not> j < 0\<close> by (simp add: report_accept_def Let_def)
    next
      case True
      define ss3 where "ss3 = ss2\<lparr>sr_slot := (sr_slot ss2)[k := stat_read (sr_time ss2) 1 (sr_slot ss2 ! k)]\<rparr>"
      define ss4 where "ss4 = put_slot j ((slot_at ss3 j)\<lparr>sk_type := SOCKET_TYPE_PACCEPT\<rparr>) ss3"
      have r: "ss' = ss4" "\<exists>m. r = Some (SOCKET_ACCEPT, m) \<and> sm_ud m = j"
        using a Accepted j n True \<open>\<not> j < 0\<close> by (auto simp: report_accept_def Let_def ss3_def ss4_def)
      then have ji: "j \<noteq> i" using i by blast
      have s2: "server_shuts i ss ss2 None" using server_shuts_opened [OF o2 wfb, of i None] ji by (simp add: server_shuts_alloc)
      have s3: "server_shuts i ss2 ss3 None" unfolding ss3_def
        by (rule server_shuts_nth [OF _ k]) (use s2 in \<open>simp_all add: server_shuts_def shuts_same same_kind_def\<close>)
      have "sk_id (slot_at ss3 j) = j"
        using new_fd_id(2) [of os ss1 j fd _ _ _ ss2 ev2] n True b opened_length [OF b] wf_serverD(1) [OF wf] len k
        by (auto simp: ss3_def slot_at_def nth_list_update)
      then have "opened j ss3 ss4" by (simp add: ss4_def put_slot_opened)
      then have "server_shuts i ss3 ss4 r"
        using server_shuts_opened [of j ss3 ss4 i r] s3 ji r(2) by (auto simp: server_shuts_def)
      with s2 s3 show ?thesis unfolding r(1) using server_shuts_trans(1) by blast
    qed
  qed
qed (use a wf wf_serverD [OF wf] in \<open>auto simp: report_accept_def Let_def split: if_splits intro: server_shuts_refl intro!: server_shuts_frame [OF wf]\<close>)

lemma server_shuts_event:
  assumes "dispatch_event os e k ss = Some (ss', ev, r)" "wf_server ss" "k < MAX_SOCKET"
    "\<And>m. r = Some (SOCKET_ACCEPT, m) \<Longrightarrow> sm_ud m \<noteq> i"
  shows "server_shuts i ss ss' r"
proof -
  let ?s = "sr_slot ss ! k"
  note on = server_shuts_on_index [OF _ assms(2,3), of _ ss' ev r i]
  have wr: "on_index k ss (send_buffer os now) = Some (ss', ev, r) \<Longrightarrow> sk_type ?s \<noteq> SOCKET_TYPE_INVALID \<Longrightarrow> server_shuts i ss ss' r" for now
    by (erule on) (rule shuts_send_buffer)
  have er: "on_index k ss (\<lambda>s. Some (s, [], report_error s x)) = Some (ss', ev, r) \<Longrightarrow> server_shuts i ss ss' r" for x
    by (erule on) (auto intro: shuts_same)
  have eo: "on_index k ss eof_event = Some (ss', ev, r) \<Longrightarrow> sk_type ?s \<noteq> SOCKET_TYPE_INVALID \<Longrightarrow> server_shuts i ss ss' r"
    by (erule on) (rule shuts_eof)
  have co: "on_index k ss (report_connect os) = Some (ss', ev, r) \<Longrightarrow> sk_type ?s = SOCKET_TYPE_CONNECTING \<Longrightarrow> server_shuts i ss ss' r"
    by (erule on) (simp add: shuts_report_connect open_read_def)
  show ?thesis
  proof (cases "sk_type ?s")
    case SOCKET_TYPE_LISTEN
    then show ?thesis using assms by (auto simp: dispatch_event_def intro: server_shuts_accept)
  next
    case SOCKET_TYPE_INVALID
    then show ?thesis using assms by (auto simp: dispatch_event_def intro!: server_shuts_refl)
  qed (use assms in \<open>auto simp: dispatch_event_def split: if_splits intro: server_shuts_refl read_event_shuts wr er eo co\<close>)
qed

lemma server_shuts_poll_event:
  assumes "poll_event os ss = Some (ss', ev, r)" "wf_server ss" "sr_event_index ss < length (sr_ev ss)"
    "\<And>m. r = Some (SOCKET_ACCEPT, m) \<Longrightarrow> sm_ud m \<noteq> i"
  shows "server_shuts i ss ss' r"
proof -
  let ?ss = "ss\<lparr>sr_event_index := sr_event_index ss + 1\<rparr>"
  have w: "wf_server ?ss" by (rule wf_event [OF assms(2)]) (use assms(3) in simp)
  have s: "server_shuts i ss ?ss None"
    by (rule server_shuts_frame [OF assms(2)]) (use assms(3) in \<open>auto dest: wf_serverD(3) [OF assms(2)]\<close>)
  have "server_shuts i ?ss ss' r"
  proof (cases "ev_s (sr_ev ss ! sr_event_index ss)")
    case None
    then show ?thesis using assms(1) server_shuts_refl [OF w] by (auto simp: poll_event_def Let_def)
  next
    case (Some k)
    then have "k < MAX_SOCKET" using wf_serverD(3) [OF assms(2) nth_mem [OF assms(3)]] by blast
    then show ?thesis using assms(1,4) Some w by (auto simp: poll_event_def Let_def intro: server_shuts_event)
  qed
  with s show ?thesis by (rule server_shuts_trans(1))
qed

text \<open>A step of any thread: nothing that waits in the pipe opens \<open>i\<close>.\<close>

definition not_opening :: "int \<Rightarrow> socket_server \<Rightarrow> bool" where
  "not_opening i ss \<longleftrightarrow> (\<forall>rq\<in>set (sr_pipe ss). opens rq \<noteq> Some i)"

definition step_shuts :: "int \<Rightarrow> socket_server \<Rightarrow> socket_server \<Rightarrow> sock_answer \<Rightarrow> bool" where
  "step_shuts i ss ss' r \<longleftrightarrow> wf_server ss' \<and> not_opening i ss' \<and> (may_close i ss' \<longrightarrow> may_close i ss) \<and>
     (closes i r \<longrightarrow> may_close i ss \<and> \<not> may_close i ss')"

lemma step_of_server: "server_shuts i ss ss' r \<Longrightarrow> not_opening i ss \<Longrightarrow> step_shuts i ss ss' r"
  by (simp add: server_shuts_def step_shuts_def not_opening_def)

definition events_ok :: "os \<Rightarrow> bool" where
  "events_ok os \<longleftrightarrow> (\<forall>es e k. os_wait os = Some es \<and> e \<in> set es \<and> ev_s e = Some k \<longrightarrow> k < MAX_SOCKET)"

lemma clear_event_props: "length (clear_event ss i es) = length es"
  "e \<in> set (clear_event ss i es) \<Longrightarrow> ev_s e = Some k \<Longrightarrow> \<exists>e'\<in>set es. ev_s e' = Some k"
  by (induction ss i es rule: clear_event.induct) (auto split: option.splits if_splits)

lemma server_shuts_clear:
  assumes "wf_server ss"
  shows "server_shuts i ss (clear_closed_event ss t m) None"
proof (cases "t = SOCKET_CLOSE \<or> t = SOCKET_ERR")
  case True
  let ?ss' = "clear_closed_event ss t m"
  show ?thesis
  proof (rule server_shuts_frame [OF assms])
    fix e k assume e: "e \<in> set (sr_ev ?ss')" "ev_s e = Some k"
    then obtain e' where "e' \<in> set (sr_ev ss)" "ev_s e' = Some k"
      using True clear_event_props(2) [of e ss "sm_id m" "drop (sr_event_index ss) (sr_ev ss)" k]
      by (auto simp: clear_closed_event_def dest: in_set_takeD in_set_dropD)
    then show "k < MAX_SOCKET" using wf_serverD(3) [OF assms] by blast
  next
    show "sr_event_index ?ss' \<le> length (sr_ev ?ss')"
      using True wf_serverD(4) [OF assms] by (simp add: clear_closed_event_def clear_event_props(1))
  qed (use True in \<open>simp_all add: clear_closed_event_def\<close>)
qed (use assms in \<open>simp add: clear_closed_event_def server_shuts_refl\<close>)

lemma step_shuts_poll:
  assumes p: "poll_turn os ss = Some (ss', ev, r, w)" and wf: "wf_server ss" and no: "not_opening i ss" and os: "events_ok os"
    and ac: "\<And>m. r = Some (SOCKET_ACCEPT, m) \<Longrightarrow> sm_ud m \<noteq> i"
  shows "step_shuts i ss ss' r"
proof (cases "sr_checkctrl ss \<and> sr_pipe ss \<noteq> []")
  case True
  let ?ss = "ss\<lparr>sr_pipe := tl (sr_pipe ss)\<rparr>"
  have w: "wf_server ?ss" using wf by (simp add: wf_server_def)
  have no1: "not_opening i ?ss" "opens (List.hd (sr_pipe ss)) \<noteq> Some i"
    using no True by (auto simp: not_opening_def dest: list.set_sel)
  obtain ss1 ev1 where c: "ctrl_cmd os ?ss (List.hd (sr_pipe ss)) = Some (ss1, ev1, r)"
    and e: "ss' = (case r of None \<Rightarrow> ss1 | Some (t, m) \<Rightarrow> clear_closed_event ss1 t m)"
    using p True by (auto simp: poll_turn_def split: option.splits)
  have s: "server_shuts i ?ss ss1 r" by (rule server_shuts_ctrl [OF c w no1(2)])
  then have "wf_server ss1" by (simp add: server_shuts_def)
  then have "server_shuts i ss1 ss' None" unfolding e by (auto intro: server_shuts_clear server_shuts_refl split: option.split)
  with s have "server_shuts i ?ss ss' r" by (rule server_shuts_trans(2))
  then have "step_shuts i ?ss ss' r" using no1(1) by (rule step_of_server)
  then show ?thesis by (simp add: step_shuts_def may_close_def slot_at_def)
next
  case False
  define ss1 where "ss1 = ss\<lparr>sr_checkctrl := False\<rparr>"
  have f: "sr_slot ss1 = sr_slot ss" "sr_pipe ss1 = sr_pipe ss" "sr_ev ss1 = sr_ev ss" "sr_event_index ss1 = sr_event_index ss"
    by (simp_all add: ss1_def)
  have s1: "server_shuts i ss ss1 None" by (rule server_shuts_frame [OF wf]) (use f wf_serverD [OF wf] in auto)
  have w1: "wf_server ss1" using s1 by (simp add: server_shuts_def)
  have "server_shuts i ss1 ss' r"
  proof (cases "sr_event_index ss1 = length (sr_ev ss1)")
    case True
    show ?thesis
    proof (cases "\<exists>e es. os_wait os = Some (e # es)")
      case True
      then obtain e es where es: "os_wait os = Some (e # es)" by blast
      let ?ss2 = "ss1\<lparr>sr_ev := take MAX_EVENT (e # es), sr_checkctrl := True, sr_event_index := 0\<rparr>"
      have s2: "server_shuts i ss1 ?ss2 None"
      proof (rule server_shuts_frame [OF w1])
        fix d k assume "d \<in> set (sr_ev ?ss2)" "ev_s d = Some k"
        then have "d \<in> set (e # es)" using in_set_takeD [of d MAX_EVENT "e # es"] by simp
        then show "k < MAX_SOCKET" using os es \<open>ev_s d = Some k\<close> unfolding events_ok_def by blast
      qed simp_all
      have "poll_event os ?ss2 = Some (ss', ev, r)"
        using p False es \<open>sr_event_index ss1 = length (sr_ev ss1)\<close> by (auto simp: poll_turn_def ss1_def [symmetric] Let_def)
      then have "server_shuts i ?ss2 ss' r"
        by (rule server_shuts_poll_event) (use s2 ac in \<open>auto simp: server_shuts_def MAX_EVENT_def\<close>)
      with s2 show ?thesis by (rule server_shuts_trans(1))
    next
      case no_ev: False
      have "ss' = ss1\<lparr>sr_ev := [], sr_checkctrl := True, sr_event_index := 0\<rparr> \<and> r = None"
        using p False no_ev \<open>sr_event_index ss1 = length (sr_ev ss1)\<close>
        by (auto simp: poll_turn_def ss1_def [symmetric] Let_def split: option.splits list.splits)
      then show ?thesis by (auto intro!: server_shuts_frame [OF w1])
    qed
  next
    case idx: False
    then have "poll_event os ss1 = Some (ss', ev, r)"
      using p False by (auto simp: poll_turn_def ss1_def [symmetric] Let_def)
    then show ?thesis
      by (rule server_shuts_poll_event [OF _ w1]) (use idx wf_serverD(4) [OF w1] ac in auto)
  qed
  with s1 have "server_shuts i ss ss' r" by (rule server_shuts_trans(1))
  then show ?thesis using no by (rule step_of_server)
qed

section \<open>Calls of the other threads\<close>

text \<open>One constructor for each function of the interface that changes the server.\<close>

datatype call =
    C_send os socket_sendbuffer | C_send_low socket_sendbuffer | C_udp_send os bytes socket_sendbuffer | C_udp_connect os int
  | C_connect u64 bytes int | C_listen os u64 | C_bind u64 int | C_udp os u64 "bytes option" int | C_udp_listen os u64 int
  | C_udp_dial os u64 | C_close u64 int | C_shutdown u64 int | C_start u64 int | C_pause u64 int | C_nodelay int | C_exit
  | C_time u64

text \<open>The state after a call, and the id that it hands out.\<close>

definition some_id :: "socket_server \<times> socket_event list \<times> int \<Rightarrow> (socket_server \<times> int option) option" where
  "some_id r = (case r of (ss, ev, j) \<Rightarrow> Some (ss, if j < 0 then None else Some j))"

fun call_step :: "call \<Rightarrow> socket_server \<Rightarrow> (socket_server \<times> int option) option" where
  "call_step (C_send os b) ss = map_option (\<lambda>(ss, ev, n). (ss, None)) (socket_server_send os ss b)"
| "call_step (C_send_low b) ss = map_option (\<lambda>(ss, ev, n). (ss, None)) (socket_server_send_lowpriority ss b)"
| "call_step (C_udp_send os a b) ss = map_option (\<lambda>(ss, ev, n). (ss, None)) (socket_server_udp_send os ss a b)"
| "call_step (C_udp_connect os j) ss = Some (fst (socket_server_udp_connect os ss j), None)"
| "call_step (C_connect opaque addr port) ss = some_id (socket_server_connect ss opaque addr port)"
| "call_step (C_listen os opaque) ss = some_id (socket_server_listen os ss opaque)"
| "call_step (C_bind opaque fd) ss = (case socket_server_bind ss opaque fd of (ss, j) \<Rightarrow> some_id (ss, [], j))"
| "call_step (C_udp os opaque addr port) ss = some_id (socket_server_udp os ss opaque addr port)"
| "call_step (C_udp_listen os opaque port) ss = some_id (socket_server_udp_listen os ss opaque port)"
| "call_step (C_udp_dial os opaque) ss = some_id (socket_server_udp_dial os ss opaque)"
| "call_step (C_close opaque j) ss = Some (socket_server_close opaque j ss, None)"
| "call_step (C_shutdown opaque j) ss = Some (socket_server_shutdown opaque j ss, None)"
| "call_step (C_start opaque j) ss = Some (socket_server_start opaque j ss, None)"
| "call_step (C_pause opaque j) ss = Some (socket_server_pause opaque j ss, None)"
| "call_step (C_nodelay j) ss = Some (socket_server_nodelay j ss, None)"
| "call_step C_exit ss = Some (socket_server_exit ss, None)"
| "call_step (C_time now) ss = Some (socket_server_updatetime now ss, None)"

datatype step = Call call | Turn os

text \<open>What the steps report: the messages, and the ids that are handed out, by a call or with an accepted connection.\<close>

datatype outcome = Handed int | Reported sock_ret server_message

fun run_step :: "step \<Rightarrow> socket_server \<Rightarrow> (socket_server \<times> outcome list) option" where
  "run_step (Call c) ss = map_option (\<lambda>(ss, j). (ss, case j of None \<Rightarrow> [] | Some j \<Rightarrow> [Handed j])) (call_step c ss)"
| "run_step (Turn os) ss =
     map_option (\<lambda>(ss, ev, r, w). (ss, case r of None \<Rightarrow> []
       | Some (t, m) \<Rightarrow> (if t = SOCKET_ACCEPT then [Handed (sm_ud m)] else []) @ [Reported t m])) (poll_turn os ss)"

fun server_run :: "step list \<Rightarrow> socket_server \<Rightarrow> (socket_server \<times> outcome list) option" where
  "server_run [] ss = Some (ss, [])"
| "server_run (x # xs) ss =
     Option.bind (run_step x ss) (\<lambda>(ss, out). map_option (\<lambda>(ss, out'). (ss, out @ out')) (server_run xs ss))"

definition close_reports :: "int \<Rightarrow> outcome list \<Rightarrow> nat" where
  "close_reports i out = length (filter (\<lambda>x. case x of Reported t m \<Rightarrow> t = SOCKET_CLOSE \<and> sm_id m = i | _ \<Rightarrow> False) out)"

lemma step_shuts_request: "wf_server ss \<Longrightarrow> not_opening i ss \<Longrightarrow> opens rq \<noteq> Some i \<Longrightarrow> step_shuts i ss (send_request rq ss) None"
  by (auto simp: step_shuts_def not_opening_def send_request_def wf_server_def may_close_def slot_at_def)

lemma step_shuts_trans: "step_shuts i ss ss1 None \<Longrightarrow> step_shuts i ss1 ss2 r \<Longrightarrow> step_shuts i ss ss2 r"
  by (auto simp: step_shuts_def)

lemma step_shuts_slot:
  assumes "wf_server ss" "not_opening i ss" "same_kind (slot_at ss j) s"
  shows "step_shuts i ss (put_slot j s ss) None"
  using server_shuts_nth [OF assms(1) HASH_ID_less, of j s None i] assms(2,3)
  by (intro step_of_server) (simp_all add: slot_at_def put_slot_def shuts_same)

lemma step_shuts_slot_request:
  assumes "wf_server ss" "not_opening i ss" "same_kind (slot_at ss j) s" "opens rq \<noteq> Some i"
  shows "step_shuts i ss (send_request rq (put_slot j s ss)) None"
proof -
  have s: "step_shuts i ss (put_slot j s ss) None" by (rule step_shuts_slot [OF assms(1-3)])
  then have "step_shuts i (put_slot j s ss) (send_request rq (put_slot j s ss)) None"
    by (intro step_shuts_request) (use assms(4) in \<open>simp_all add: step_shuts_def\<close>)
  with s show ?thesis by (rule step_shuts_trans)
qed

lemma step_shuts_refl: "wf_server ss \<Longrightarrow> not_opening i ss \<Longrightarrow> step_shuts i ss ss None"
  by (simp add: step_shuts_def)

lemma send_by_pipe_shuts:
  assumes "send_by_pipe b rq ss = Some (ss', ev, n)" "wf_server ss" "not_opening i ss" "\<And>j so. opens (rq j so) = None"
  shows "step_shuts i ss ss' None"
  using assms by (auto simp: send_by_pipe_def dest!: ref_kind intro!: step_shuts_slot_request)

lemma send_shuts:
  assumes wf: "wf_server ss" "not_opening i ss"
  shows "socket_server_send os ss b = Some (ss', ev, n) \<Longrightarrow> step_shuts i ss ss' None"
    "socket_server_send_lowpriority ss b = Some (ss', ev, n) \<Longrightarrow> step_shuts i ss ss' None"
    "socket_server_udp_send os ss a b = Some (ss', ev, n) \<Longrightarrow> step_shuts i ss ss' None"
proof -
  have p: "send_by_pipe b rq ss = Some (ss', ev, n) \<Longrightarrow> (\<And>j so. opens (rq j so) = None) \<Longrightarrow> step_shuts i ss ss' None" for rq
    using send_by_pipe_shuts wf by blast
  have d: "direct_write os ss b = Some (ss', ev, n) \<Longrightarrow> step_shuts i ss ss' None"
    using wf by (auto simp: direct_write_def Let_def same_kind_def opens_def split: if_splits Option.bind_splits
      intro!: step_shuts_refl step_shuts_slot [OF wf] step_shuts_slot_request [OF wf])
  show "socket_server_send os ss b = Some (ss', ev, n) \<Longrightarrow> step_shuts i ss ss' None"
    using wf by (auto simp: socket_server_send_def Let_def opens_def split: if_splits intro: step_shuts_refl p d)
  show "socket_server_send_lowpriority ss b = Some (ss', ev, n) \<Longrightarrow> step_shuts i ss ss' None"
    using wf by (auto simp: socket_server_send_lowpriority_def opens_def split: if_splits intro: step_shuts_refl p)
  show "socket_server_udp_send os ss a b = Some (ss', ev, n) \<Longrightarrow> step_shuts i ss ss' None"
    using wf by (auto simp: socket_server_udp_send_def Let_def opens_def same_kind_def split: if_splits Option.bind_splits list.splits write_answer.splits
      intro!: step_shuts_refl step_shuts_slot [OF wf] step_shuts_request [OF wf])
qed

lemma reserve_shuts:
  assumes r: "reserve_id ss = (ss1, j)" and wf: "wf_server ss" "not_opening i ss" and rq: "opens rq = Some j" and j: "j \<noteq> i"
  shows "step_shuts i ss (if j < 0 then ss1 else send_request rq ss1) None"
proof (cases "j < 0")
  case True
  then show ?thesis using reserve_failed [OF r] wf
    by (auto simp: step_shuts_def wf_server_def not_opening_def may_close_def)
next
  case False
  then obtain a where a: "opened j (ss\<lparr>sr_alloc_id := a\<rparr>) ss1" using reserve_opened [OF r] by auto
  have "server_shuts i ss ss1 None"
    using server_shuts_opened [OF a, of i None] wf(1) j by (simp add: server_shuts_alloc)
  then have s: "step_shuts i ss ss1 None" using wf(2) by (rule step_of_server)
  then have "step_shuts i ss1 (send_request rq ss1) None"
    by (intro step_shuts_request) (use rq j in \<open>simp_all add: step_shuts_def\<close>)
  with s show ?thesis using False by (auto intro: step_shuts_trans)
qed

lemma reserve_for_shuts:
  assumes "reserve_for fd ev rq ss = (ss', ev', j)" "wf_server ss" "not_opening i ss" "\<And>j. opens (rq j) = Some j" "j \<noteq> i"
    and "i \<ge> 0"
  shows "step_shuts i ss ss' None"
proof -
  obtain ss1 k where r: "reserve_id ss = (ss1, k)" by fastforce
  have k: "k \<noteq> i" using assms(1,5,6) r by (auto simp: reserve_for_def Let_def split: if_splits)
  show ?thesis using reserve_shuts [OF r assms(2,3,4) k] assms(1) r by (auto simp: reserve_for_def Let_def split: if_splits)
qed

lemma call_shuts:
  assumes c: "call_step c ss = Some (ss', j)" and wf: "wf_server ss" "not_opening i ss" and j: "j \<noteq> Some i" and i: "0 \<le> i"
  shows "step_shuts i ss ss' None"
proof -
  note rf = reserve_for_shuts [OF _ wf _ _ i]
  note rq = step_shuts_request [OF wf]
  have r: "k \<noteq> i" if "some_id (s, ev, k) = Some (ss', j)" for s ev k
    using that j i by (auto simp: some_id_def split: if_splits)
  have s: "s = ss'" if "some_id (s, ev, k) = Some (ss', j)" for s ev k using that by (simp add: some_id_def)
  show ?thesis
  proof (cases c)
    case (C_connect opaque addr port)
    obtain ss1 k where k: "reserve_id ss = (ss1, k)" by fastforce
    show ?thesis
    proof (cases "length addr + 24 \<ge> 256")
      case True
      then show ?thesis using c C_connect wf by (auto simp: socket_server_connect_def some_id_def intro: step_shuts_refl)
    next
      case False
      then have e: "ss' = (if k < 0 then ss1 else send_request (Rq_open k addr port opaque) ss1)" "k \<noteq> i"
        using c C_connect k j i by (auto simp: socket_server_connect_def some_id_def split: if_splits)
      show ?thesis unfolding e(1) by (rule reserve_shuts [OF k wf _ e(2)]) (simp add: opens_def)
    qed
  next
    case (C_bind opaque fd)
    obtain ss1 k where k: "reserve_id ss = (ss1, k)" by fastforce
    have e: "ss' = (if k < 0 then ss1 else send_request (Rq_bind k fd opaque) ss1)" "k \<noteq> i"
      using c C_bind k j i by (auto simp: socket_server_bind_def some_id_def split: if_splits)
    show ?thesis unfolding e(1) by (rule reserve_shuts [OF k wf _ e(2)]) (simp add: opens_def)
  next
    case (C_listen os opaque)
    obtain s ev k where e: "socket_server_listen os ss opaque = (s, ev, k)" by (metis prod_cases3)
    then have "k \<noteq> i" "s = ss'" using c C_listen r s by auto
    then show ?thesis using e wf by (auto simp: socket_server_listen_def opens_def split: if_splits prod.splits intro: rf step_shuts_refl)
  next
    case (C_udp os opaque addr port)
    obtain s ev k where e: "socket_server_udp os ss opaque addr port = (s, ev, k)" by (metis prod_cases3)
    then have "k \<noteq> i" "s = ss'" using c C_udp r s by auto
    then show ?thesis using e wf by (auto simp: socket_server_udp_def opens_def Let_def split: if_splits prod.splits intro: rf step_shuts_refl)
  next
    case (C_udp_listen os opaque port)
    obtain s ev k where e: "socket_server_udp_listen os ss opaque port = (s, ev, k)" by (metis prod_cases3)
    then have "k \<noteq> i" "s = ss'" using c C_udp_listen r s by auto
    then show ?thesis using e wf by (auto simp: socket_server_udp_listen_def opens_def split: if_splits prod.splits intro: rf step_shuts_refl)
  next
    case (C_udp_dial os opaque)
    obtain s ev k where e: "socket_server_udp_dial os ss opaque = (s, ev, k)" by (metis prod_cases3)
    then have "k \<noteq> i" "s = ss'" using c C_udp_dial r s by auto
    then show ?thesis using e wf
      by (auto simp: socket_server_udp_dial_def opens_def Let_def split: if_splits option.splits intro: rf step_shuts_refl)
  next
    case (C_udp_connect os k)
    show ?thesis using c C_udp_connect wf
      by (auto simp: socket_server_udp_connect_def Let_def opens_def same_kind_def split: option.splits if_splits
        intro: step_shuts_refl intro!: step_shuts_slot [OF wf] step_shuts_slot_request [OF wf])
  next
    case (C_time now)
    then show ?thesis using c wf
      by (auto simp: socket_server_updatetime_def step_shuts_def wf_server_def not_opening_def may_close_def slot_at_def)
  qed (use c wf in \<open>auto simp: opens_def socket_server_close_def socket_server_shutdown_def socket_server_start_def
    socket_server_pause_def socket_server_nodelay_def socket_server_exit_def intro: rq dest: send_shuts [OF wf]\<close>)
qed

text \<open>What a run reports is bounded by what may still come.\<close>

lemma close_reports_simps [simp]:
  "close_reports i [] = 0" "close_reports i (a @ b) = close_reports i a + close_reports i b"
  "close_reports i [Handed j] = 0" "close_reports i (Handed j # out) = close_reports i out"
  "close_reports i [Reported t m] = (if t = SOCKET_CLOSE \<and> sm_id m = i then 1 else 0)"
  by (simp_all add: close_reports_def)

lemma run_step_shuts:
  assumes s: "run_step x ss = Some (ss', out)" and wf: "wf_server ss" "not_opening i ss" and h: "Handed i \<notin> set out"
    and i: "0 \<le> i" and os: "\<And>os. x = Turn os \<Longrightarrow> events_ok os"
  shows "wf_server ss' \<and> not_opening i ss' \<and>
    close_reports i out + (if may_close i ss' then 1 else 0) \<le> (if may_close i ss then 1 else 0)"
proof (cases x)
  case (Call c)
  then obtain j where j: "call_step c ss = Some (ss', j)" and o: "out = (case j of None \<Rightarrow> [] | Some j \<Rightarrow> [Handed j])"
    using s by auto
  then have "j \<noteq> Some i" using h by auto
  from call_shuts [OF j wf this i] show ?thesis by (auto simp: step_shuts_def o split: option.splits)
next
  case (Turn os)
  then obtain ev r w where p: "poll_turn os ss = Some (ss', ev, r, w)"
    and o: "out = (case r of None \<Rightarrow> [] | Some (t, m) \<Rightarrow> (if t = SOCKET_ACCEPT then [Handed (sm_ud m)] else []) @ [Reported t m])"
    using s by auto
  have "sm_ud m \<noteq> i" if "r = Some (SOCKET_ACCEPT, m)" for m using that h o by auto
  from step_shuts_poll [OF p wf os [OF Turn] this] show ?thesis
    by (auto simp: step_shuts_def o split: option.splits if_splits)
qed

lemma server_run_closes:
  assumes "server_run xs ss = Some (ss', out)" "wf_server ss" "not_opening i ss" "Handed i \<notin> set out" "0 \<le> i"
    "\<forall>os. Turn os \<in> set xs \<longrightarrow> events_ok os"
  shows "wf_server ss' \<and> close_reports i out \<le> (if may_close i ss then 1 else 0)"
  using assms
proof (induction xs arbitrary: ss out)
  case (Cons x xs)
  then obtain ss1 o1 o2 where o: "run_step x ss = Some (ss1, o1)" "server_run xs ss1 = Some (ss', o2)" "out = o1 @ o2"
    by (auto split: Option.bind_splits)
  have "wf_server ss1 \<and> not_opening i ss1 \<and> close_reports i o1 + (if may_close i ss1 then 1 else 0) \<le> (if may_close i ss then 1 else 0)"
    by (rule run_step_shuts [OF o(1)]) (use Cons.prems o in auto)
  moreover from this have "wf_server ss' \<and> close_reports i o2 \<le> (if may_close i ss1 then 1 else 0)"
    using Cons.IH [OF o(2)] Cons.prems o by auto
  ultimately show ?case using o(3) by auto
qed simp

text \<open>C6: For any sequence of calls of other threads and turns of the socket thread, \<open>SOCKET_CLOSE\<close> is reported at most once for
  an id as long as the id is not handed out again.\<close>

theorem socket_close_once:
  assumes "server_run xs ss = Some (ss', out)" "wf_server ss" "\<forall>rq\<in>set (sr_pipe ss). opens rq \<noteq> Some i" "Handed i \<notin> set out"
    "0 \<le> i" "\<forall>os. Turn os \<in> set xs \<longrightarrow> events_ok os"
  shows "close_reports i out \<le> 1"
  using server_run_closes [OF assms(1,2) _ assms(4-6)] assms(3) by (auto simp: not_opening_def split: if_splits)

text \<open>No run takes a socket out of the slot of its id, whatever ids it hands out.\<close>

text \<open>C23: Every call and every turn of the socket thread keeps the socket table well formed: each socket that is not free lies in
  the slot that its id hashes to, and the events that wait point into the table.\<close>

theorem socket_table_wf:
  assumes "server_run xs ss = Some (ss', out)" "wf_server ss" "\<forall>os. Turn os \<in> set xs \<longrightarrow> events_ok os"
  shows "wf_server ss'"
proof -
  define used where "used = {i. Handed i \<in> set out} \<union> {i. \<exists>rq\<in>set (sr_pipe ss). opens rq = Some i}"
  have "finite {i. Handed i \<in> set out}"
    by (rule finite_subset [of _ "(\<lambda>x. case x of Handed i \<Rightarrow> i | _ \<Rightarrow> 0) ` set out"]) (force intro: rev_image_eqI)+
  moreover have "finite {i. \<exists>rq\<in>set (sr_pipe ss). opens rq = Some i}"
    by (rule finite_subset [of _ "(\<lambda>rq. the (opens rq)) ` set (sr_pipe ss)"]) (force intro: rev_image_eqI)+
  ultimately have "finite used" by (simp add: used_def)
  then obtain i where i: "0 \<le> i" "i \<notin> used"
    using infinite_Ici [of "0 :: int"] by (meson atLeast_iff finite_subset subsetI)
  then have "not_opening i ss" "Handed i \<notin> set out" by (auto simp: used_def not_opening_def)
  from server_run_closes [OF assms(1,2) this i(1) assms(3)] show ?thesis by simp
qed

text \<open>A server that has just been made, and one with a single connection in slot 1.\<close>

lemma wf_server_create: "socket_server_create now made pipe added dup = Some ss \<Longrightarrow> wf_server ss \<and> sr_pipe ss = []"
  by (auto simp: socket_server_create_def wf_server_def empty_socket_def split: if_splits)

definition idle_os :: os where
  "idle_os = \<lparr>os_add = False, os_enable = False, os_lock = False, os_writes = [], os_read = Read_again, os_from = [],
     os_so_error = False, os_name = None, os_connects = None, os_accept = Accept_failed,
     os_bind = \<lparr>ba_found = False, ba_ipv6 = False, ba_fd = -1, ba_reuse = False, ba_bound = False, ba_listens = False\<rparr>,
     os_resolved = None, os_wait = None, os_error = []\<rparr>"

definition one_connection :: socket_server where
  "one_connection = \<lparr>sr_time = 0, sr_reserve_fd = 3, sr_checkctrl = True, sr_alloc_id = 1, sr_event_index = 0, sr_ev = [],
     sr_slot = (replicate MAX_SOCKET empty_socket)[1 := empty_socket\<lparr>sk_id := 1, sk_fd := 5, sk_type := SOCKET_TYPE_CONNECTED,
       sk_reading := True\<rparr>], sr_pipe = []\<rparr>"

lemma one_connection_slot: "HASH_ID 1 = 1" "length (sr_slot one_connection) = MAX_SOCKET" "1 < MAX_SOCKET" "Suc 0 < MAX_SOCKET"
  "slot_at one_connection 1 = empty_socket\<lparr>sk_id := 1, sk_fd := 5, sk_type := SOCKET_TYPE_CONNECTED, sk_reading := True\<rparr>"
  by (simp_all add: HASH_ID_def MAX_SOCKET_def MAX_SOCKET_P_def one_connection_def slot_at_def)

lemma one_connection_wf: "wf_server one_connection"
  by (auto simp: wf_server_def one_connection_def nth_list_update empty_socket_def HASH_ID_def MAX_SOCKET_def MAX_SOCKET_P_def)

lemma one_connection_run:
  "\<exists>ss'. server_run [Call (C_close 7 1), Turn idle_os, Call (C_shutdown 7 1), Turn idle_os] one_connection =
     Some (ss', [Reported SOCKET_CLOSE \<lparr>sm_id = 1, sm_opaque = 0, sm_ud = 0, sm_data = None\<rparr>])"
  using one_connection_slot
  by (simp add: socket_server_close_def socket_server_shutdown_def send_request_def poll_turn_def ctrl_cmd_def on_slot_def
    close_socket_def one_connection_def slot_at_def put_slot_def nth_list_update socket_invalid_def nomore_sending_data_def
    empty_socket_def force_close_def plain_message_def halfclose_read_def clear_closed_event_def free_wb_list_def send_buffer_empty_def)

theorem socket_close_once_witness:
  "\<exists>ss' out. server_run [Call (C_close 7 1), Turn idle_os, Call (C_shutdown 7 1), Turn idle_os] one_connection = Some (ss', out) \<and>
     close_reports 1 out \<le> 1"
proof -
  obtain ss' where r: "server_run [Call (C_close 7 1), Turn idle_os, Call (C_shutdown 7 1), Turn idle_os] one_connection =
     Some (ss', [Reported SOCKET_CLOSE \<lparr>sm_id = 1, sm_opaque = 0, sm_ud = 0, sm_data = None\<rparr>])" using one_connection_run by blast
  have "close_reports 1 [Reported SOCKET_CLOSE \<lparr>sm_id = 1, sm_opaque = 0, sm_ud = 0, sm_data = None\<rparr>] \<le> 1"
    by (rule socket_close_once [OF r one_connection_wf])
      (simp_all add: one_connection_def events_ok_def idle_os_def)
  with r show ?thesis by blast
qed

theorem socket_table_wf_witness:
  "\<exists>ss' out. server_run [Call (C_close 7 1), Turn idle_os, Call (C_shutdown 7 1), Turn idle_os] one_connection = Some (ss', out) \<and>
     wf_server ss'"
proof -
  obtain ss' where r: "server_run [Call (C_close 7 1), Turn idle_os, Call (C_shutdown 7 1), Turn idle_os] one_connection =
     Some (ss', [Reported SOCKET_CLOSE \<lparr>sm_id = 1, sm_opaque = 0, sm_ud = 0, sm_data = None\<rparr>])" using one_connection_run by blast
  have "wf_server ss'" by (rule socket_table_wf [OF r one_connection_wf]) (simp add: events_ok_def idle_os_def)
  with r show ?thesis by blast
qed

text \<open>The next id of this server is 2, in a free slot.\<close>

theorem reserve_id_complete_witness:
  "snd (reserve_id one_connection) = 2 \<and> slot_at (fst (reserve_id one_connection)) 2 = reserved 2 empty_socket"
proof -
  have h: "HASH_ID 2 = 2" "(2 :: nat) < MAX_SOCKET" by (simp_all add: HASH_ID_def MAX_SOCKET_def MAX_SOCKET_P_def)
  have s: "slot_at one_connection 2 = empty_socket" using h by (simp add: slot_at_def one_connection_def)
  obtain n where n: "MAX_SOCKET = Suc n" using h(2) by (cases MAX_SOCKET) auto
  have "next_id 1 = (2, 2)" by (simp add: next_id_def)
  then have r: "reserve_id one_connection = (put_slot 2 (reserved 2 empty_socket) (one_connection\<lparr>sr_alloc_id := 2\<rparr>), 2)"
    unfolding reserve_id_def n using s by (simp add: one_connection_def reserved_def empty_socket_def Let_def slot_at_def)
  have "\<exists>k<MAX_SOCKET. sk_type (sr_slot one_connection ! k) = SOCKET_TYPE_INVALID"
    by (rule exI [of _ 2]) (use h s in \<open>simp add: slot_at_def empty_socket_def\<close>)
  then have "slot_at (put_slot 2 (reserved 2 empty_socket) (one_connection\<lparr>sr_alloc_id := 2\<rparr>)) 2 = reserved 2 (slot_at one_connection 2)"
    using reserve_id_complete [OF one_connection_slot(2) r] by (simp del: slot_at_alloc)
  then show ?thesis using r s by simp
qed

end
