(* ===== verification/SocketFaults.thy ===== *)
theory SocketFaults
  imports SocketIds
begin

text \<open>Two ways to abort the socket thread of \<open>skynet-src/socket_server.c\<close> through its interface, and one to lose direct writes.\<close>

unbundle bit_operations_syntax

lemma low_bits_0: "push_bit 16 (x :: u64) AND 0xffff = 0"
proof -
  have "(0xffff :: u64) = mask 16" by (simp add: mask_eq_exp_minus_1)
  then have "push_bit 16 x AND 0xffff = take_bit 16 (push_bit 16 x)" by (simp only: take_bit_eq_mask)
  then show ?thesis by (simp add: take_bit_push_bit)
qed

definition same_refs :: "socket \<Rightarrow> socket \<Rightarrow> bool" where
  "same_refs s s' \<longleftrightarrow> sk_sending s' = sk_sending s \<and> sk_protocol s' = sk_protocol s \<and> sk_id s' = sk_id s"

lemma start_sending_refs: "start_sending os s = Some (s', ev, r) \<Longrightarrow> same_refs s s'"
  by (auto simp: start_sending_def Let_def enable_write_def size_warning_def same_refs_def split: if_splits prod.splits)

lemma send_socket_refs:
  assumes "send_socket os now hi i so a s = Some (s', ev, r)"
  shows "same_refs s s'"
proof -
  have q: "same_refs (append_sendbuffer h so x s) t \<longleftrightarrow> same_refs s t" "same_refs s (append_sendbuffer h so x s)" for h x t
    by (simp_all add: same_refs_def append_sendbuffer_def set_list_def)
  have w: "size_warning (append_sendbuffer h so x s) = (t, y) \<Longrightarrow> same_refs s t" for h x t y
    by (auto simp: size_warning_def same_refs_def append_sendbuffer_def set_list_def split: if_splits)
  show ?thesis using assms unfolding send_socket_def Let_def
    by (auto dest!: start_sending_refs w simp: q stat_write_def split: if_splits prod.splits write_answer.splits list.splits Option.bind_splits)
      (simp_all add: same_refs_def)
qed

text \<open>C32: A send to an id that \<open>connect\<close> has just returned, before the socket thread has handled the connection, makes an assert of
  the socket thread fail when the connection succeeds at once. The protocol of the socket is unknown at the time of the send, so
  the count of sends is not raised; when the send is handled it is a TCP socket, and the count must not be 0.\<close>

theorem early_send_aborts:
  assumes len: "length (sr_slot ss) = MAX_SOCKET" and s: "slot_at ss i = reserved i s0" "\<not> sk_closing s0" "sk_high s0 = []" "sk_low s0 = []"
    and p: "sr_pipe ss = [Rq_open i host port opaque]" "sr_checkctrl ss" and b: "sb_id buf = i"
    and os: "os_connects os = Some [Connected_to fd name]" "\<not> os_add os"
  shows "\<exists>ss1 ss2 ev m. socket_server_send os0 ss buf = Some (ss1, [], 0) \<and>
    poll_turn os ss1 = Some (ss2, ev, Some (SOCKET_OPEN, m), False) \<and> (\<forall>os2. poll_turn os2 ss2 = None)"
proof -
  let ?ss1 = "send_request (Rq_send i (clone_buffer buf)) (put_slot i (slot_at ss i) ss)"
  have send: "socket_server_send os0 ss buf = Some (?ss1, [], 0)"
    using s b by (simp add: socket_server_send_def Let_def socket_invalid_def reserved_def can_direct_write_def send_by_pipe_def
      inc_sending_ref_def PROTOCOL_UNKNOWN_def PROTOCOL_TCP_def)
  define s1 where "s1 = (slot_at ss i)\<lparr>sk_id := i, sk_fd := fd, sk_reading := True, sk_writing := False, sk_closing := False,
    sk_sending := push_bit 16 (ID_TAG16 i), sk_protocol := PROTOCOL_TCP, sk_size := MIN_READ_BUFFER, sk_opaque := opaque,
    sk_wb_size := 0, sk_warn_size := 0, sk_dw := None, sk_rtime := 0, sk_wtime := 0, sk_read := 0, sk_write := 0,
    sk_type := SOCKET_TYPE_CONNECTED\<rparr>"
  let ?ss2 = "put_slot i s1 (ss\<lparr>sr_pipe := [Rq_send i (clone_buffer buf)]\<rparr>)"
  let ?m = "(message_for i opaque)\<lparr>sm_data := name\<rparr>"
  have "open_socket os (?ss1\<lparr>sr_pipe := [Rq_send i (clone_buffer buf)]\<rparr>) i host port opaque =
      Some (?ss2, [Se_getaddrinfo host port, Se_keepalive fd, Se_nonblocking fd, Se_poll_add fd], Some (SOCKET_OPEN, ?m))"
    using s os len by (simp add: open_socket_def new_fd_def Let_def reserved_def enable_read_def s1_def slot_at_def put_slot_def
      send_request_def)
  then have turn: "poll_turn os ?ss1 = Some (?ss2, [Se_getaddrinfo host port, Se_keepalive fd, Se_nonblocking fd, Se_poll_add fd],
      Some (SOCKET_OPEN, ?m), False)"
    using p by (simp add: poll_turn_def ctrl_cmd_def send_request_def clear_closed_event_def)
  have f: "sk_sending s1 AND 0xffff = 0" "sk_id s1 = i" "sk_protocol s1 = PROTOCOL_TCP" by (simp_all add: s1_def low_bits_0)
  have "send_cmd os2 now True i so s1 = None" for os2 now so
  proof -
    have "dec_sending_ref i s' = None" if "send_socket os2 now True i so None s1 = Some (s', ev, r)" for s' ev r
      using send_socket_refs [OF that] f by (simp add: dec_sending_ref_def same_refs_def)
    then show ?thesis by (auto simp: send_cmd_def split: Option.bind_splits)
  qed
  then have "poll_turn os2 ?ss2 = None" for os2
    using p len by (simp add: poll_turn_def ctrl_cmd_def on_slot_def slot_at_def put_slot_def)
  then show ?thesis using send turn by blast
qed

definition one_reserved :: socket_server where
  "one_reserved = one_connection\<lparr>sr_slot := (replicate MAX_SOCKET empty_socket)[1 := reserved 1 empty_socket],
     sr_pipe := [Rq_open 1 [49] 80 7]\<rparr>"

theorem early_send_aborts_witness:
  "\<exists>ss1 ss2 ev m. socket_server_send idle_os one_reserved \<lparr>sb_id = 1, sb_type = SOCKET_BUFFER_MEMORY, sb_bytes = [1], sb_off = 0\<rparr> = Some (ss1, [], 0) \<and>
    poll_turn (idle_os\<lparr>os_connects := Some [Connected_to 9 None]\<rparr>) ss1 = Some (ss2, ev, Some (SOCKET_OPEN, m), False) \<and>
    (\<forall>os2. poll_turn os2 ss2 = None)"
  by (rule early_send_aborts [where i = 1 and host = "[49]" and port = 80 and opaque = 7 and fd = 9 and name = None and ?s0.0 = empty_socket])
    (use one_connection_slot(1,3,4) in \<open>simp_all add: one_reserved_def one_connection_def slot_at_def empty_socket_def idle_os_def\<close>)

text \<open>
  A datagram that cannot be written at once is kept like the rest of a TCP message. The socket thread makes a buffer for
  it that has no room for an address, and then reads the address of this buffer.
\<close>

theorem udp_direct_write_overread:
  assumes s: "s = slot_at ss i" "can_direct_write s i" "\<not> sk_closing s" "sk_protocol s = PROTOCOL_UDP" "length (sk_address s) = UDP_ADDRESS_SIZE"
      "sk_address s ! 0 = PROTOCOL_UDP"
    and len: "length (sr_slot ss) = MAX_SOCKET" and b: "sb_id buf = i" "sb_bytes buf \<noteq> []"
    and os: "\<not> os_lock os" "os_writes os = Write_again # ws"
  shows "\<exists>ss1. socket_server_send os ss buf = Some (ss1, [], 0) \<and>
    (\<forall>os2 now w ws2. os_lock os2 \<or> os_writes os2 = w # ws2 \<longrightarrow> os_lock os2 \<or> send_buffer os2 now (slot_at ss1 i) = None)"
proof -
  have a: "udp_socket_address s (sk_address s) = Some 16"
    using s by (simp add: udp_socket_address_def)
  have n: "\<not> socket_invalid s i" "send_buffer_empty s" using s(2) by (auto simp: can_direct_write_def socket_invalid_def nomore_sending_data_def)
  let ?s1 = "(stat_write (sr_time ss) 0 s)\<lparr>sk_dw := Some (clone_buffer buf, 0)\<rparr>"
  let ?ss1 = "send_request (Rq_write i) (put_slot i ?s1 ss)"
  have p: "sk_protocol s \<noteq> PROTOCOL_TCP" using s(4) by (simp add: PROTOCOL_UDP_def PROTOCOL_TCP_def)
  have "socket_server_send os ss buf = Some (?ss1, [], 0)"
    using s os b n a p by (simp add: socket_server_send_def Let_def direct_write_def accepts_def)
  moreover have "slot_at ?ss1 i = ?s1" using len by (simp add: send_request_def slot_at_def put_slot_def)
  moreover have "send_buffer os2 now ?s1 = None" if "\<not> os_lock os2" "os_writes os2 = w # ws2" for os2 now w ws2
    using that n p by (simp add: send_buffer_def take_dw_def send_buffer_lists_def send_list_def get_list_def Let_def stat_write_def
      list_uncomplete_def send_buffer_empty_def)
  ultimately show ?thesis by (intro exI [of _ ?ss1]) auto
qed

text \<open>
  \<open>dial_udp_socket\<close> lowers a count that nobody has raised. A socket that is dialled is never written to directly, until
  \<open>udp_connect\<close> is called for it too.
\<close>

theorem dialled_never_direct:
  assumes len: "length (sr_slot ss) = MAX_SOCKET" and s: "slot_at ss i = reserved i s0"
    and d: "dial_udp_socket os ss i fd opaque a = Some (ss', ev, r)"
  shows "\<not> can_direct_write (slot_at ss' i) i"
  using d len s
  by (auto simp: dial_udp_socket_def Let_def new_fd_def enable_read_def can_direct_write_def slot_at_put_slot invalidate_def reserved_def
    split: if_splits Option.bind_splits)

end
