(* ===== verification/SocketOrder.thy ===== *)
theory SocketOrder
  imports SocketFaults
begin

text \<open>
  The order of what is written to a TCP socket of \<open>skynet-src/socket_server.c\<close>. Other threads send with high or low priority,
  directly or through the pipe; the socket thread handles the requests and writes when the socket takes more. However the
  steps interleave, the bytes written are whole messages, one after the other, and the start of the one in front; the
  messages of each priority keep their order; and no assert of the socket thread fails. An object sent with low priority must
  begin where its bytes begin: the socket thread takes any other for a message written in part, and aborts.
\<close>

unbundle bit_operations_syntax

section \<open>Shuffles\<close>

lemma shuffles_snoc1: "zs \<in> shuffles xs ys \<Longrightarrow> zs @ [x] \<in> shuffles (xs @ [x]) ys"
proof (induction xs ys arbitrary: zs rule: shuffles.induct)
  case (1 ys)
  then have "zs = ys" by simp
  moreover have "ys @ [x] \<in> shuffles [x] ys" by (induction ys) (auto simp: Cons_in_shuffles_iff)
  ultimately show ?case by simp
next
  case (3 a xs b ys)
  then show ?case by (cases zs) (auto simp: Cons_in_shuffles_iff)
qed simp

lemma shuffles_snoc2: "zs \<in> shuffles xs ys \<Longrightarrow> zs @ [x] \<in> shuffles xs (ys @ [x])"
  using shuffles_snoc1 [of zs ys xs x] by (simp add: shuffles_commutes)

lemma shuffles_append2: "zs \<in> shuffles xs ys \<Longrightarrow> zs @ us \<in> shuffles xs (ys @ us)"
proof (induction us arbitrary: zs ys)
  case (Cons u us)
  from Cons.IH [OF shuffles_snoc2 [OF Cons.prems, of u]] show ?case by simp
qed simp

section \<open>What waits to be written\<close>

definition wrote :: "socket_event list \<Rightarrow> bytes" where
  "wrote ev = concat (map (\<lambda>e. case e of Se_write fd d \<Rightarrow> d | _ \<Rightarrow> []) ev)"

lemma wrote_simps [simp]:
  "wrote [] = []" "wrote (a @ b) = wrote a @ wrote b" "wrote (Se_write fd d # ev) = d @ wrote ev" "wrote (Se_free so # ev) = wrote ev"
  "wrote (Se_close fd # ev) = wrote ev" "wrote (Se_shutdown_read fd # ev) = wrote ev" "wrote (Se_shutdown_write fd # ev) = wrote ev"
  "wrote (Se_poll_del fd # ev) = wrote ev" "wrote (Se_poll_enable fd x y # ev) = wrote ev" "wrote (Se_log t # ev) = wrote ev"
  by (simp_all add: wrote_def)

lemma wrote_free [simp]: "wrote (free_wb_list bs) = []" "wrote (free_buffer b) = []"
  by (simp_all add: free_wb_list_def wrote_def free_buffer_def)

definition buf_bytes :: "write_buffer \<Rightarrow> bytes" where
  "buf_bytes b = so_bytes (wb_buffer b)"

text \<open>The messages in front, which have been written in part or are next, and how much of the first is written.\<close>

definition front :: "socket \<Rightarrow> bytes list" where
  "front s = (case sk_dw s of None \<Rightarrow> [] | Some (so, off) \<Rightarrow> [so_bytes so]) @ map buf_bytes (sk_high s)"

definition front_part :: "socket \<Rightarrow> bytes" where
  "front_part s = (case sk_dw s of
     Some (so, off) \<Rightarrow> take off (so_bytes so)
   | None \<Rightarrow> (case sk_high s of [] \<Rightarrow> [] | b # bs \<Rightarrow> take (wb_ptr b) (buf_bytes b)))"

definition rest_size :: "write_buffer list \<Rightarrow> int" where
  "rest_size bs = int (length (concat (map wb_rest bs)))"

lemma rest_size_simps [simp]:
  "rest_size [] = 0" "rest_size (b # bs) = int (length (wb_rest b)) + rest_size bs" "rest_size (as @ bs) = rest_size as + rest_size bs"
  by (simp_all add: rest_size_def)

text \<open>
  The messages sent with high priority are \<open>H\<close>, those with low priority \<open>L\<close>, of those that have left the pipe; \<open>W\<close> is what
  has been written. \<open>n\<close> sends are still in the pipe.
\<close>

definition alive :: "socket \<Rightarrow> bool" where
  "alive s \<longleftrightarrow> sk_type s = SOCKET_TYPE_CONNECTED \<or> sk_type s = SOCKET_TYPE_HALFCLOSE_READ"

definition in_order :: "bytes list \<Rightarrow> bytes list \<Rightarrow> bytes \<Rightarrow> socket \<Rightarrow> bool" where
  "in_order H L W s \<longleftrightarrow>
     (\<exists>sent L1. sent @ front s \<in> shuffles H L1 \<and> L = L1 @ map buf_bytes (sk_low s) \<and> W = concat sent @ front_part s)"

definition buffers_ok :: "socket \<Rightarrow> bool" where
  "buffers_ok s \<longleftrightarrow> (\<forall>b\<in>set (sk_low s). wb_ptr b = 0 \<and> so_off (wb_buffer b) = 0) \<and> (\<forall>b\<in>set (tl (sk_high s)). wb_ptr b = 0) \<and>
     (sk_dw s \<noteq> None \<longrightarrow> (\<forall>b\<in>set (sk_high s). wb_ptr b = 0)) \<and>
     (sk_type s \<noteq> SOCKET_TYPE_INVALID \<longrightarrow> sk_wb_size s = rest_size (sk_high s) + rest_size (sk_low s))"

definition refs_word :: "int \<Rightarrow> nat \<Rightarrow> u64" where
  "refs_word i n = push_bit 16 (ID_TAG16 i) + of_nat n"

definition sock_inv :: "int \<Rightarrow> nat \<Rightarrow> bytes list \<Rightarrow> bytes list \<Rightarrow> bytes \<Rightarrow> socket \<Rightarrow> bool" where
  "sock_inv i n H L W s \<longleftrightarrow> sk_id s = i \<and> sk_protocol s = PROTOCOL_TCP \<and> \<not> sk_closing s \<and> sk_size s \<le> 2 ^ 21 \<and>
     sk_sending s = refs_word i n \<and>
     sk_type s \<in> {SOCKET_TYPE_CONNECTED, SOCKET_TYPE_HALFCLOSE_READ, SOCKET_TYPE_HALFCLOSE_WRITE, SOCKET_TYPE_INVALID} \<and>
     buffers_ok s \<and> (alive s \<longrightarrow> in_order H L W s)"

section \<open>The count of sends in the pipe\<close>

lemma ID_TAG16_less: "ID_TAG16 i < 2 ^ 16"
proof -
  have "0 \<le> i div 2 ^ 16 mod 2 ^ 16" "i div 2 ^ 16 mod 2 ^ 16 < 2 ^ 16" by simp_all
  then show ?thesis by (simp add: ID_TAG16_def word_less_def uint_word_of_int) 
qed

lemma refs_word_parts:
  assumes "n < 2 ^ 16"
  shows "refs_word i n AND 0xffff = of_nat n" "drop_bit 16 (refs_word i n) = ID_TAG16 i"
proof -
  have t: "uint (ID_TAG16 i) < 2 ^ 16" using ID_TAG16_less [of i] by (simp add: word_less_def)
  have m: "(0xffff :: u64) = mask 16" by (simp add: mask_eq_exp_minus_1)
  have "uint (push_bit 16 (ID_TAG16 i)) = uint (ID_TAG16 i) * 2 ^ 16"
    using t by (simp add: push_bit_eq_mult uint_word_ariths)
  moreover have "uint (of_nat n :: u64) = int n" using assms by (simp add: unsigned_of_nat take_bit_eq_mod)
  ultimately have u: "uint (refs_word i n) = uint (ID_TAG16 i) * 2 ^ 16 + int n"
    using t assms by (simp add: refs_word_def uint_word_ariths)
  have "uint (refs_word i n AND 0xffff) = int n"
    unfolding m using u assms by (simp add: take_bit_eq_mask [symmetric] take_bit_eq_mod uint_mod)
  then have "uint (refs_word i n AND 0xffff) = uint (of_nat n :: u64)" using assms by (simp add: unsigned_of_nat take_bit_eq_mod)
  then show "refs_word i n AND 0xffff = of_nat n" by (simp only: word_uint_eq_iff)
  have "uint (drop_bit 16 (refs_word i n)) = uint (ID_TAG16 i)"
    using u assms by (simp add: drop_bit_eq_div uint_div)
  then show "drop_bit 16 (refs_word i n) = ID_TAG16 i" by (simp only: word_uint_eq_iff)
qed

section \<open>Writing a list\<close>

text \<open>What writing leaves alone.\<close>

definition write_core :: "socket \<Rightarrow> socket \<Rightarrow> bool" where
  "write_core s t \<longleftrightarrow> sk_id t = sk_id s \<and> sk_protocol t = sk_protocol s \<and> sk_closing t = sk_closing s \<and> sk_size t = sk_size s \<and>
     sk_sending t = sk_sending s \<and> sk_dw t = sk_dw s"

lemma write_core_refl [simp]: "write_core s s" by (simp add: write_core_def)

text \<open>\<open>whole\<close>: some messages of the list have been written. \<open>advanced\<close>: and the start of the next.\<close>

definition whole :: "bool \<Rightarrow> socket \<Rightarrow> socket \<Rightarrow> bytes \<Rightarrow> bool" where
  "whole hi s t w \<longleftrightarrow> write_core s t \<and> sk_type t = sk_type s \<and> sk_wb_size t = sk_wb_size s - int (length w) \<and>
     get_list (\<not> hi) t = get_list (\<not> hi) s \<and>
     (\<exists>sent. get_list hi s = sent @ get_list hi t \<and> w = concat (map wb_rest sent))"

definition advanced :: "bool \<Rightarrow> socket \<Rightarrow> socket \<Rightarrow> bytes \<Rightarrow> bool" where
  "advanced hi s t w \<longleftrightarrow> write_core s t \<and> sk_type t = sk_type s \<and> sk_wb_size t = sk_wb_size s - int (length w) \<and>
     get_list (\<not> hi) t = get_list (\<not> hi) s \<and>
     (\<exists>sent b bs m. get_list hi s = sent @ b # bs \<and> m < length (wb_rest b) \<and>
        get_list hi t = b\<lparr>wb_ptr := wb_ptr b + m\<rparr> # bs \<and> w = concat (map wb_rest sent) @ take m (wb_rest b))"

lemma get_set_list [simp]:
  "get_list hi (set_list hi bs s) = bs" "get_list (\<not> hi) (set_list hi bs s) = get_list (\<not> hi) s"
  by (simp_all add: get_list_def set_list_def)

lemma after_write_fields [simp]: "sk_type (after_write now n s) = sk_type s"
  "get_list h (after_write now n s) = get_list h s" "sk_wb_size (set_list h bs (after_write now n s)) = sk_wb_size s - int n"
  "write_core s (set_list h bs (after_write now n s))" "sk_type (set_list h bs (after_write now n s)) = sk_type s"
  by (simp_all add: after_write_def get_list_def set_list_def stat_write_def write_core_def)

lemma whole_refl [simp]: "whole hi s s []" by (auto simp: whole_def)

lemma whole_step:
  assumes "get_list hi s = b # bs"
  shows "whole hi (set_list hi bs (after_write now (length (wb_rest b)) s)) t w \<Longrightarrow> whole hi s t (wb_rest b @ w)"
    "advanced hi (set_list hi bs (after_write now (length (wb_rest b)) s)) t w \<Longrightarrow> advanced hi s t (wb_rest b @ w)"
proof -
  let ?u = "set_list hi bs (after_write now (length (wb_rest b)) s)"
  have c: "write_core s t" if "write_core ?u t" using that after_write_fields(4) [of s hi bs now "length (wb_rest b)"] by (simp add: write_core_def)
  show "whole hi s t (wb_rest b @ w)" if x: "whole hi ?u t w"
  proof -
    obtain sent where "bs = sent @ get_list hi t" "w = concat (map wb_rest sent)" using x by (auto simp: whole_def)
    then have "get_list hi s = (b # sent) @ get_list hi t \<and> wb_rest b @ w = concat (map wb_rest (b # sent))" using assms by simp
    then have "\<exists>sent. get_list hi s = sent @ get_list hi t \<and> wb_rest b @ w = concat (map wb_rest sent)" by blast
    then show ?thesis using x c by (auto simp: whole_def)
  qed
  show "advanced hi s t (wb_rest b @ w)" if x: "advanced hi ?u t w"
  proof -
    obtain sent d ds m where "bs = sent @ d # ds" "m < length (wb_rest d)" "get_list hi t = d\<lparr>wb_ptr := wb_ptr d + m\<rparr> # ds"
      "w = concat (map wb_rest sent) @ take m (wb_rest d)" using x by (auto simp: advanced_def)
    then have "get_list hi s = (b # sent) @ d # ds \<and> m < length (wb_rest d) \<and> get_list hi t = d\<lparr>wb_ptr := wb_ptr d + m\<rparr> # ds \<and>
      wb_rest b @ w = concat (map wb_rest (b # sent)) @ take m (wb_rest d)" using assms by simp
    then have "\<exists>sent d ds m. get_list hi s = sent @ d # ds \<and> m < length (wb_rest d) \<and> get_list hi t = d\<lparr>wb_ptr := wb_ptr d + m\<rparr> # ds \<and>
      wb_rest b @ w = concat (map wb_rest sent) @ take m (wb_rest d)" by blast
    then show ?thesis using x c by (auto simp: advanced_def)
  qed
qed

text \<open>A failed write ends in a state where nothing more is written.\<close>

definition writes_ended :: "socket \<Rightarrow> socket \<Rightarrow> bool" where
  "writes_ended s t \<longleftrightarrow> sk_id t = sk_id s \<and> sk_protocol t = sk_protocol s \<and> sk_closing t = sk_closing s \<and> sk_size t = sk_size s \<and>
     sk_sending t = sk_sending s \<and>
     ((sk_type t = SOCKET_TYPE_INVALID \<and> sk_high t = [] \<and> sk_low t = [] \<and> sk_dw t = None) \<or>
      (sk_type t = SOCKET_TYPE_HALFCLOSE_WRITE \<and> sk_high t = sk_high s \<and> sk_low t = sk_low s \<and> sk_dw t = sk_dw s \<and>
       sk_wb_size t = sk_wb_size s))"

definition open_type :: "socket \<Rightarrow> bool" where
  "open_type s \<longleftrightarrow> sk_type s = SOCKET_TYPE_CONNECTED \<or> sk_type s = SOCKET_TYPE_HALFCLOSE_READ \<or> sk_type s = SOCKET_TYPE_HALFCLOSE_WRITE"

lemma force_close_shut:
  "sk_type s \<noteq> SOCKET_TYPE_INVALID \<Longrightarrow> sk_type s \<noteq> SOCKET_TYPE_RESERVE \<Longrightarrow>
   \<exists>t ev m. force_close s = Some (t, ev, m) \<and> writes_ended s t \<and> wrote ev = []"
  by (auto simp: force_close_def writes_ended_def split: option.split)

lemma close_write_shut:
  assumes "open_type s"
  shows "\<exists>t ev r. close_write os s = Some (t, ev, r) \<and> r \<noteq> None \<and> writes_ended s t \<and> wrote ev = []"
proof (cases "sk_closing s \<or> sk_type s = SOCKET_TYPE_HALFCLOSE_READ")
  case True
  obtain t ev m where "force_close s = Some (t, ev, m)" "writes_ended s t" "wrote ev = []"
    using force_close_shut [of s] assms by (auto simp: open_type_def)
  then show ?thesis using True by (auto simp: close_write_def)
next
  case False
  then show ?thesis by (auto simp: close_write_def Let_def enable_write_def writes_ended_def report_error_def)
qed

lemma send_list_tcp_spec:
  assumes "open_type s"
  shows "\<exists>s' ev ws' r. send_list_tcp os now hi s ws = Some (s', ev, ws', r) \<and>
    (if r = None then whole hi s s' (wrote ev) \<or> advanced hi s s' (wrote ev) else \<exists>t. whole hi s t (wrote ev) \<and> writes_ended t s')"
  using assms
proof (induction ws arbitrary: s)
  case Nil
  then show ?case by simp
next
  case (Cons w ws)
  show ?case
  proof (cases "get_list hi s")
    case Nil
    then show ?thesis by simp
  next
    case q: (Cons b bs)
    show ?thesis
    proof (cases w)
      case (Wrote n)
      show ?thesis
      proof (cases "n < length (wb_rest b)")
        case True
        let ?t = "set_list hi (b\<lparr>wb_ptr := wb_ptr b + n\<rparr> # bs) (after_write now n s)"
        have m: "min n (length (wb_rest b)) = n" "n \<noteq> length (wb_rest b)" using True by simp_all
        have "get_list hi s = [] @ b # bs \<and> n < length (wb_rest b) \<and> get_list hi ?t = b\<lparr>wb_ptr := wb_ptr b + n\<rparr> # bs \<and>
            take n (wb_rest b) = concat (map wb_rest []) @ take n (wb_rest b)" using q True by simp
        then have "\<exists>sent d ds m. get_list hi s = sent @ d # ds \<and> m < length (wb_rest d) \<and>
            get_list hi ?t = d\<lparr>wb_ptr := wb_ptr d + m\<rparr> # ds \<and> take n (wb_rest b) = concat (map wb_rest sent) @ take m (wb_rest d)"
          by blast
        then have "advanced hi s ?t (take n (wb_rest b))" using True by (simp add: advanced_def)
        moreover have "send_list_tcp os now hi s (w # ws) = Some (?t, [Se_write (sk_fd s) (take n (wb_rest b))], ws, None)"
          using q Wrote m by (simp add: Let_def after_write_def)
        ultimately show ?thesis by simp
      next
        case False
        let ?t = "set_list hi bs (after_write now (length (wb_rest b)) s)"
        have m: "min n (length (wb_rest b)) = length (wb_rest b)" using False by simp
        have "open_type ?t" using Cons.prems by (simp add: open_type_def)
        from Cons.IH [OF this] obtain s' ev ws' r where i: "send_list_tcp os now hi ?t ws = Some (s', ev, ws', r)"
          "if r = None then whole hi ?t s' (wrote ev) \<or> advanced hi ?t s' (wrote ev) else \<exists>t. whole hi ?t t (wrote ev) \<and> writes_ended t s'" by blast
        have e: "send_list_tcp os now hi s (w # ws) = Some (s', Se_write (sk_fd s) (wb_rest b) # Se_free (wb_buffer b) # ev, ws', r)"
          using q Wrote m i(1) by (simp add: Let_def after_write_def)
        show ?thesis
          by (rule exI [of _ s'], rule exI [of _ "Se_write (sk_fd s) (wb_rest b) # Se_free (wb_buffer b) # ev"], rule exI [of _ ws'],
            rule exI [of _ r]) (use e i(2) whole_step [OF q] in \<open>auto split: if_splits\<close>)
      qed
    next
      case Write_failed
      obtain t ev r where "close_write os s = Some (t, ev, r)" "r \<noteq> None" "writes_ended s t" "wrote ev = []"
        using close_write_shut [OF Cons.prems] by blast
      then show ?thesis using q Write_failed by (auto intro!: exI [of _ s])
    qed (use q Cons in auto)
  qed
qed

section \<open>The invariant of a socket\<close>

definition head_part :: "write_buffer list \<Rightarrow> bytes" where
  "head_part bs = (case bs of [] \<Rightarrow> [] | b # _ \<Rightarrow> take (wb_ptr b) (buf_bytes b))"

lemma front_part_no_dw: "sk_dw s = None \<Longrightarrow> front_part s = head_part (sk_high s)" "sk_dw s = None \<Longrightarrow> front s = map buf_bytes (sk_high s)"
  by (simp_all add: front_part_def head_part_def front_def)

lemma wb_rest_0: "wb_ptr b = 0 \<Longrightarrow> wb_rest b = buf_bytes b"
  by (simp add: wb_rest_def buf_bytes_def)

lemma buf_bytes_ptr [simp]: "buf_bytes (b\<lparr>wb_ptr := n\<rparr>) = buf_bytes b"
  by (simp add: buf_bytes_def)

lemma map_rest_0: "\<forall>b\<in>set bs. wb_ptr b = 0 \<Longrightarrow> map wb_rest bs = map buf_bytes bs"
  by (simp add: wb_rest_0)

lemma head_part_0: "\<forall>b\<in>set bs. wb_ptr b = 0 \<Longrightarrow> head_part bs = []"
  by (simp add: head_part_def split: list.split)

lemma take_rest: "take k (buf_bytes b) @ take m (drop k (buf_bytes b)) = take (k + m) (buf_bytes b)"
  by (simp add: take_add)

lemma head_part_sent:
  assumes "\<forall>b\<in>set (tl (sent @ rest)). wb_ptr b = 0"
  shows "head_part (sent @ rest) @ concat (map wb_rest sent) = concat (map buf_bytes sent) @ head_part rest"
proof (cases sent)
  case (Cons b bs)
  then have z: "\<forall>b\<in>set bs. wb_ptr b = 0" "\<forall>b\<in>set rest. wb_ptr b = 0" using assms by auto
  have "head_part (sent @ rest) @ wb_rest b = buf_bytes b" using Cons by (simp add: head_part_def wb_rest_def buf_bytes_def)
  then have "(head_part (sent @ rest) @ wb_rest b) @ concat (map wb_rest bs) = buf_bytes b @ concat (map buf_bytes bs)"
    by (simp only: map_rest_0 [OF z(1)])
  then show ?thesis using Cons head_part_0 [OF z(2)] by simp
qed simp

lemma head_part_advanced:
  assumes "\<forall>b\<in>set (tl (sent @ b # bs)). wb_ptr b = 0"
  shows "head_part (sent @ b # bs) @ concat (map wb_rest sent) @ take m (wb_rest b) =
    concat (map buf_bytes sent) @ head_part (b\<lparr>wb_ptr := wb_ptr b + m\<rparr> # bs)"
proof -
  have "head_part (sent @ b # bs) @ concat (map wb_rest sent) = concat (map buf_bytes sent) @ head_part (b # bs)"
    by (rule head_part_sent [OF assms])
  then have "head_part (sent @ b # bs) @ concat (map wb_rest sent) @ take m (wb_rest b) =
      concat (map buf_bytes sent) @ head_part (b # bs) @ take m (wb_rest b)" by (simp only: append_assoc [symmetric])
  then show ?thesis by (simp add: head_part_def wb_rest_def take_rest buf_bytes_def [symmetric])
qed

lemma open_type_valid: "open_type s \<Longrightarrow> sk_type s \<noteq> SOCKET_TYPE_INVALID \<and> sk_type s \<noteq> SOCKET_TYPE_RESERVE"
  by (auto simp: open_type_def)

lemma sock_inv_open: "sock_inv i n H L W s \<Longrightarrow> sk_type s \<noteq> SOCKET_TYPE_INVALID \<Longrightarrow> open_type s"
  by (auto simp: sock_inv_def open_type_def)

lemma sock_inv_shut: "sock_inv i n H L W s \<Longrightarrow> open_type s \<Longrightarrow> writes_ended s t \<Longrightarrow> sock_inv i n H L W' t"
  unfolding writes_ended_def by (drule open_type_valid, elim conjE disjE) (simp_all add: sock_inv_def buffers_ok_def alive_def)

lemma in_set_tl: "x \<in> set (tl xs) \<Longrightarrow> x \<in> set xs"
  by (cases xs) simp_all

lemma sock_inv_whole_high:
  assumes inv: "sock_inv i n H L W s" and t: "whole True s t w" and dw: "sk_dw s = None"
  shows "sock_inv i n H L (W @ w) t"
proof -
  obtain sent where sent: "sk_high s = sent @ sk_high t" "w = concat (map wb_rest sent)" using t by (auto simp: whole_def get_list_def)
  have f: "write_core s t" "sk_type t = sk_type s" "sk_wb_size t = sk_wb_size s - int (length w)" "sk_low t = sk_low s" "sk_dw t = None"
    using t dw by (auto simp: whole_def get_list_def write_core_def)
  have q: "buffers_ok s" using inv by (simp add: sock_inv_def)
  then have tl: "\<forall>b\<in>set (tl (sent @ sk_high t)). wb_ptr b = 0" using sent by (simp add: buffers_ok_def)
  have "\<forall>b\<in>set (tl (sk_high t)). wb_ptr b = 0" using tl by (cases sent) (auto dest: in_set_tl)
  then have "buffers_ok t" using q f sent by (auto simp: buffers_ok_def rest_size_def)
  moreover have "in_order H L (W @ w) t" if al: "alive s"
  proof -
    obtain out L1 where o: "out @ map buf_bytes (sent @ sk_high t) \<in> shuffles H L1" "L = L1 @ map buf_bytes (sk_low s)"
      "W = concat out @ head_part (sent @ sk_high t)"
      using inv al sent(1) by (auto simp: sock_inv_def in_order_def front_part_no_dw [OF dw])
    have "W @ w = concat (out @ map buf_bytes sent) @ head_part (sk_high t)"
      using o(3) sent(2) head_part_sent [OF tl] by simp
    then show ?thesis unfolding in_order_def front_part_no_dw [OF f(5)] using o f(4)
      by (intro exI [of _ "out @ map buf_bytes sent"] exI [of _ L1]) simp
  qed
  ultimately show ?thesis using inv f by (simp add: sock_inv_def write_core_def alive_def)
qed

lemma sock_inv_advanced_high:
  assumes inv: "sock_inv i n H L W s" and t: "advanced True s t w" and dw: "sk_dw s = None"
  shows "sock_inv i n H L (W @ w) t"
proof -
  obtain sent b bs m where sent: "sk_high s = sent @ b # bs" "m < length (wb_rest b)" "sk_high t = b\<lparr>wb_ptr := wb_ptr b + m\<rparr> # bs"
    "w = concat (map wb_rest sent) @ take m (wb_rest b)" using t by (auto simp: advanced_def get_list_def)
  have f: "write_core s t" "sk_type t = sk_type s" "sk_wb_size t = sk_wb_size s - int (length w)" "sk_low t = sk_low s" "sk_dw t = None"
    using t dw by (auto simp: advanced_def get_list_def write_core_def)
  have q: "buffers_ok s" using inv by (simp add: sock_inv_def)
  then have tl: "\<forall>b\<in>set (tl (sent @ b # bs)). wb_ptr b = 0" using sent by (simp add: buffers_ok_def)
  then have "\<forall>b\<in>set bs. wb_ptr b = 0" by (cases sent) auto
  then have "buffers_ok t" using q f sent by (auto simp: buffers_ok_def rest_size_def wb_rest_def)
  moreover have "in_order H L (W @ w) t" if al: "alive s"
  proof -
    obtain out L1 where o: "out @ map buf_bytes (sent @ b # bs) \<in> shuffles H L1" "L = L1 @ map buf_bytes (sk_low s)"
      "W = concat out @ head_part (sent @ b # bs)"
      using inv al sent(1) by (auto simp: sock_inv_def in_order_def front_part_no_dw [OF dw])
    have "W @ w = concat (out @ map buf_bytes sent) @ head_part (sk_high t)"
      using o(3) sent(3,4) head_part_advanced [OF tl, of m] by simp
    then show ?thesis unfolding in_order_def front_part_no_dw [OF f(5)] using o f(4) sent(3)
      by (intro exI [of _ "out @ map buf_bytes sent"] exI [of _ L1]) simp
  qed
  ultimately show ?thesis using inv f by (simp add: sock_inv_def write_core_def alive_def)
qed

lemma sock_inv_whole_low:
  assumes inv: "sock_inv i n H L W s" and t: "whole False s t w" and dw: "sk_dw s = None" "sk_high s = []"
  shows "sock_inv i n H L (W @ w) t"
proof -
  obtain sent where sent: "sk_low s = sent @ sk_low t" "w = concat (map wb_rest sent)" using t by (auto simp: whole_def get_list_def)
  have f: "write_core s t" "sk_type t = sk_type s" "sk_wb_size t = sk_wb_size s - int (length w)" "sk_high t = []" "sk_dw t = None"
    using t dw by (auto simp: whole_def get_list_def write_core_def)
  have q: "buffers_ok s" using inv by (simp add: sock_inv_def)
  then have z: "map wb_rest sent = map buf_bytes sent" using sent by (intro map_rest_0) (simp add: buffers_ok_def)
  have "buffers_ok t" using q f sent dw by (auto simp: buffers_ok_def rest_size_def)
  moreover have "in_order H L (W @ w) t" if al: "alive s"
  proof -
    obtain out L1 where o: "out \<in> shuffles H L1" "L = L1 @ map buf_bytes (sent @ sk_low t)" "W = concat out"
      using inv al sent(1) dw by (auto simp: sock_inv_def in_order_def front_part_no_dw [OF dw(1)] head_part_def)
    have "out @ map buf_bytes sent \<in> shuffles H (L1 @ map buf_bytes sent)" by (rule shuffles_append2 [OF o(1)])
    then show ?thesis unfolding in_order_def front_part_no_dw [OF f(5)] using o f(4) sent(2) z
      by (intro exI [of _ "out @ map buf_bytes sent"] exI [of _ "L1 @ map buf_bytes sent"]) (simp add: head_part_def)
  qed
  ultimately show ?thesis using inv f by (simp add: sock_inv_def write_core_def alive_def)
qed

text \<open>A low message that is written in part becomes the front.\<close>

lemma sock_inv_raise:
  assumes inv: "sock_inv i n H L W s" and t: "advanced False s t w" and dw: "sk_dw s = None" "sk_high s = []"
  shows "(list_uncomplete (sk_low t) \<longrightarrow> (\<exists>u. raise_uncomplete t = Some u \<and> sock_inv i n H L (W @ w) u)) \<and>
    (\<not> list_uncomplete (sk_low t) \<longrightarrow> whole False s t w)"
proof -
  obtain sent b bs m where sent: "sk_low s = sent @ b # bs" "m < length (wb_rest b)" "sk_low t = b\<lparr>wb_ptr := wb_ptr b + m\<rparr> # bs"
    "w = concat (map wb_rest sent) @ take m (wb_rest b)" using t by (auto simp: advanced_def get_list_def)
  have f: "write_core s t" "sk_type t = sk_type s" "sk_wb_size t = sk_wb_size s - int (length w)" "sk_high t = []" "sk_dw t = None"
    using t dw by (auto simp: advanced_def get_list_def write_core_def)
  have q: "buffers_ok s" using inv by (simp add: sock_inv_def)
  then have z: "wb_ptr b = 0" "map wb_rest sent = map buf_bytes sent" "\<forall>b\<in>set bs. wb_ptr b = 0 \<and> so_off (wb_buffer b) = 0"
    "so_off (wb_buffer b) = 0" using sent(1) by (auto simp: buffers_ok_def wb_rest_0)
  have zb: "wb_rest b = buf_bytes b" by (rule wb_rest_0 [OF z(1)])
  show ?thesis
  proof (intro conjI impI)
    let ?u = "t\<lparr>sk_low := bs, sk_high := [b\<lparr>wb_ptr := m\<rparr>]\<rparr>"
    have u: "raise_uncomplete t = Some ?u" using sent(3) f(4) z(1) by (simp add: raise_uncomplete_def)
    have "buffers_ok ?u" using q f sent dw z by (auto simp: buffers_ok_def rest_size_def wb_rest_def)
    moreover have "in_order H L (W @ w) ?u" if al: "alive s"
    proof -
      obtain out L1 where o: "out \<in> shuffles H L1" "L = L1 @ map buf_bytes (sent @ b # bs)" "W = concat out"
        using inv al sent(1) dw by (auto simp: sock_inv_def in_order_def front_part_no_dw [OF dw(1)] head_part_def)
      have "out @ map buf_bytes (sent @ [b]) \<in> shuffles H (L1 @ map buf_bytes (sent @ [b]))" by (rule shuffles_append2 [OF o(1)])
      moreover have "W @ w = concat (out @ map buf_bytes sent) @ head_part [b\<lparr>wb_ptr := m\<rparr>]"
        using o(3) sent(4) z(2) zb by (simp add: head_part_def)
      ultimately show ?thesis unfolding in_order_def using o(2) f(5)
        by (intro exI [of _ "out @ map buf_bytes sent"] exI [of _ "L1 @ map buf_bytes (sent @ [b])"])
          (simp add: front_part_no_dw)
    qed
    ultimately have "sock_inv i n H L (W @ w) ?u" using inv f by (simp add: sock_inv_def write_core_def alive_def)
    with u show "\<exists>u. raise_uncomplete t = Some u \<and> sock_inv i n H L (W @ w) u" by blast
  next
    assume "\<not> list_uncomplete (sk_low t)"
    then have "m = 0" using sent(3) z by (simp add: list_uncomplete_def)
    then show "whole False s t w" using t sent by (auto simp: advanced_def whole_def get_list_def)
  qed
qed

lemma sock_inv_take_dw:
  assumes "sock_inv i n H L W s"
  shows "sock_inv i n H L W (take_dw s) \<and> sk_dw (take_dw s) = None \<and> sk_type (take_dw s) = sk_type s"
proof (cases "sk_dw s")
  case None
  then show ?thesis using assms by (simp add: take_dw_def)
next
  case (Some d)
  obtain so off where d: "d = (so, off)" by fastforce
  let ?b = "\<lparr>wb_buffer = so, wb_ptr = off, wb_udp = None\<rparr>"
  have t: "take_dw s = s\<lparr>sk_high := ?b # sk_high s, sk_wb_size := sk_wb_size s + int (length (wb_rest ?b)), sk_dw := None\<rparr>"
    using Some d by (simp add: take_dw_def Let_def)
  have "buffers_ok (take_dw s)" using assms Some d unfolding t by (auto simp: sock_inv_def buffers_ok_def)
  moreover have "front (take_dw s) = front s" "front_part (take_dw s) = front_part s"
    using Some d by (simp_all add: t front_def front_part_def buf_bytes_def)
  ultimately show ?thesis using assms by (auto simp: t sock_inv_def alive_def in_order_def)
qed

text \<open>\<open>enable_write\<close> and \<open>enable_read\<close> touch no more than their flag.\<close>

lemma front_part_flags [simp]:
  "front_part (s\<lparr>sk_writing := x\<rparr>) = front_part s" "front_part (s\<lparr>sk_reading := x\<rparr>) = front_part s" "front_part (s\<lparr>sk_warn_size := z\<rparr>) = front_part s"
  by (cases "sk_dw s"; simp add: front_part_def)+

lemma sock_inv_flags [simp]:
  "sock_inv i n H L W (s\<lparr>sk_writing := x\<rparr>) = sock_inv i n H L W s" "sock_inv i n H L W (s\<lparr>sk_reading := x\<rparr>) = sock_inv i n H L W s"
  "sock_inv i n H L W (s\<lparr>sk_warn_size := z\<rparr>) = sock_inv i n H L W s"
  by (simp_all add: sock_inv_def buffers_ok_def alive_def in_order_def front_def)

lemma enable_inv:
  "\<exists>t ev f. enable_write os s e = (t, ev, f) \<and> (sock_inv i n H L W t = sock_inv i n H L W s) \<and> wrote ev = []"
  "\<exists>t ev f. enable_read os s e = (t, ev, f) \<and> (sock_inv i n H L W t = sock_inv i n H L W s) \<and> wrote ev = []"
  by (auto simp: enable_write_def enable_read_def)

lemma all_sent_inv:
  assumes "sock_inv i n H L W s" "sk_type s \<noteq> SOCKET_TYPE_INVALID" "sk_high s = []" "sk_low s = []"
  shows "\<exists>t ev r. all_sent os s = Some (t, ev, r) \<and> sock_inv i n H L W t \<and> wrote ev = []"
proof -
  have z: "sk_wb_size s = 0" "\<not> sk_closing s" using assms by (simp_all add: sock_inv_def buffers_ok_def)
  obtain t ev f where e: "enable_write os s False = (t, ev, f)" "sock_inv i n H L W t" "wrote ev = []"
    using enable_inv(1) [of os s False i n H L W] assms(1) by blast
  then show ?thesis using assms(3,4) z by (auto simp: all_sent_def send_buffer_empty_def Let_def)
qed

section \<open>The steps of a socket\<close>

text \<open>A function on a socket that keeps the invariant, and returns.\<close>

definition sock_keeps :: "int \<Rightarrow> nat \<Rightarrow> bytes list \<Rightarrow> bytes list \<Rightarrow> bytes \<Rightarrow> sock_result \<Rightarrow> bool" where
  "sock_keeps i n H L W x \<longleftrightarrow> (\<exists>t ev r. x = Some (t, ev, r) \<and> sock_inv i n H L (W @ wrote ev) t)"

lemma sock_keepsI: "x = Some (t, ev, r) \<Longrightarrow> sock_inv i n H L (W @ wrote ev) t \<Longrightarrow> sock_keeps i n H L W x"
  by (auto simp: sock_keeps_def)

lemma send_low_list_keeps:
  assumes inv: "sock_inv i n H L W s" and ty: "sk_type s \<noteq> SOCKET_TYPE_INVALID" and dw: "sk_dw s = None" and hi: "sk_high s = []"
  shows "sock_keeps i n H L W (send_low_list os now s ws)"
proof -
  have op: "open_type s" by (rule sock_inv_open [OF inv ty])
  obtain t ev ws' r where l: "send_list os now False s ws = Some (t, ev, ws', r)"
    and c: "if r = None then whole False s t (wrote ev) \<or> advanced False s t (wrote ev) else \<exists>u. whole False s u (wrote ev) \<and> writes_ended u t"
    using send_list_tcp_spec [OF op, of os now False ws] inv by (auto simp: send_list_def sock_inv_def)
  note wl = sock_inv_whole_low [OF inv _ dw hi]
  have complete: ?thesis if w: "whole False s t (wrote ev)" "r = None" "\<not> list_uncomplete (sk_low t)"
  proof (cases "sk_low t = []")
    case True
    have ty: "sk_type t \<noteq> SOCKET_TYPE_INVALID" "sk_high t = []" using w(1) ty hi by (simp_all add: whole_def get_list_def)
    obtain u ev' r' where "all_sent os t = Some (u, ev', r')" "sock_inv i n H L (W @ wrote ev) u" "wrote ev' = []"
      using all_sent_inv [OF wl [OF w(1)] ty True] by blast
    then show ?thesis using l w True by (intro sock_keepsI [where t = u and ev = "ev @ ev'" and r = r']) (simp_all add: send_low_list_def)
  next
    case False
    then show ?thesis using l False w wl [OF w(1)] by (intro sock_keepsI [where t = t and ev = ev]) (simp_all add: send_low_list_def)
  qed
  have whole_complete: "\<not> list_uncomplete (sk_low t)" if "whole False s t w" for w
    using that inv by (cases "sk_low t") (auto simp: whole_def get_list_def list_uncomplete_def sock_inv_def buffers_ok_def)
  consider (failed) u where "r \<noteq> None" "whole False s u (wrote ev)" "writes_ended u t"
    | (all) "r = None" "whole False s t (wrote ev)" | (front_part) "r = None" "advanced False s t (wrote ev)"
    using c by (auto split: if_splits)
  then show ?thesis
  proof cases
    case failed
    have "open_type u" using failed(2) op by (simp add: whole_def open_type_def)
    from sock_inv_shut [OF wl [OF failed(2)] this failed(3), of "W @ wrote ev"]
    show ?thesis using l failed(1) by (intro sock_keepsI [where t = t and ev = ev]) (simp_all add: send_low_list_def)
  next
    case all
    then show ?thesis using complete whole_complete by blast
  next
    case front_part
    note r = sock_inv_raise [OF inv front_part(2) dw hi]
    show ?thesis
    proof (cases "list_uncomplete (sk_low t)")
      case True
      then obtain u where "raise_uncomplete t = Some u" "sock_inv i n H L (W @ wrote ev) u" using r by blast
      then show ?thesis using l front_part(1) True by (intro sock_keepsI [where t = u and ev = ev]) (simp_all add: send_low_list_def)
    next
      case False
      then show ?thesis using complete r front_part(1) by blast
    qed
  qed
qed

lemma sock_keeps_after:
  assumes "sock_keeps i n H L (W @ wrote ev) x"
  shows "sock_keeps i n H L W (map_option (\<lambda>(s, ev', r). (s, ev @ ev', r)) x)"
  using assms by (auto simp: sock_keeps_def)

lemma send_buffer_lists_keeps:
  assumes inv: "sock_inv i n H L W s" and dw: "sk_dw s = None" and ty: "sk_type s \<noteq> SOCKET_TYPE_INVALID"
  shows "sock_keeps i n H L W (send_buffer_lists os now s)"
proof -
  have op: "open_type s" by (rule sock_inv_open [OF inv ty])
  have lu: "\<not> list_uncomplete (sk_low s)"
    using inv by (cases "sk_low s") (auto simp: sock_inv_def buffers_ok_def list_uncomplete_def)
  obtain s1 ev ws r where l: "send_list os now True s (os_writes os) = Some (s1, ev, ws, r)"
    and c: "if r = None then whole True s s1 (wrote ev) \<or> advanced True s s1 (wrote ev) else \<exists>t. whole True s t (wrote ev) \<and> writes_ended t s1"
    using send_list_tcp_spec [OF op, of os now True "os_writes os"] inv by (auto simp: send_list_def sock_inv_def)
  show ?thesis
  proof (cases r)
    case (Some x)
    then obtain t where t: "whole True s t (wrote ev)" "writes_ended t s1" using c by auto
    have "open_type t" using t(1) op by (simp add: whole_def open_type_def)
    from sock_inv_shut [OF sock_inv_whole_high [OF inv t(1) dw] this t(2), of "W @ wrote ev"]
    show ?thesis using l lu Some by (intro sock_keepsI [where t = s1 and ev = ev]) (simp_all add: send_buffer_lists_def)
  next
    case None
    have i1: "sock_inv i n H L (W @ wrote ev) s1"
      using c None sock_inv_whole_high [OF inv _ dw] sock_inv_advanced_high [OF inv _ dw] by auto
    have f1: "sk_dw s1 = None" "sk_type s1 \<noteq> SOCKET_TYPE_INVALID" using c None dw ty by (auto simp: whole_def advanced_def write_core_def)
    show ?thesis
    proof (cases "sk_high s1 = []")
      case False
      then show ?thesis using l lu None i1 by (intro sock_keepsI [where t = s1 and ev = ev]) (simp_all add: send_buffer_lists_def)
    next
      case True
      have "sock_keeps i n H L (W @ wrote ev) (if sk_low s1 = [] then all_sent os s1 else send_low_list os now s1 ws)"
        using all_sent_inv [OF i1 f1(2) True, of os] send_low_list_keeps [OF i1 f1(2,1) True, of os now ws]
        by (cases "sk_low s1 = []") (auto simp: sock_keeps_def)
      from sock_keeps_after [OF this] show ?thesis using l lu None True by (simp add: send_buffer_lists_def)
    qed
  qed
qed

lemma send_buffer_keeps:
  "sock_inv i n H L W s \<Longrightarrow> sk_type s \<noteq> SOCKET_TYPE_INVALID \<Longrightarrow> sock_keeps i n H L W (send_buffer os now s)"
  using sock_inv_take_dw [of i n H L W s] send_buffer_lists_keeps [of i n H L W "take_dw s" os now]
  by (auto simp: send_buffer_def sock_keeps_def)

text \<open>A message that has left the pipe.\<close>

lemma dec_ref_inv:
  assumes "sock_inv i (Suc n) H L W s" "Suc n < 2 ^ 16"
  shows "\<exists>t. dec_sending_ref i s = Some t \<and> sock_inv i n H L W t"
proof -
  have "refs_word i (Suc n) AND 0xffff \<noteq> 0"
  proof
    assume "refs_word i (Suc n) AND 0xffff = 0"
    then have "unat (of_nat (Suc n) :: u64) = 0" using refs_word_parts(1) [OF assms(2)] by simp
    then show False using assms(2) by (simp add: unsigned_of_nat take_bit_nat_eq_self del: of_nat_Suc)
  qed
  moreover have "refs_word i (Suc n) - 1 = refs_word i n" by (simp add: refs_word_def)
  ultimately have d: "dec_sending_ref i s = Some (s\<lparr>sk_sending := refs_word i n\<rparr>)"
    using assms(1) by (simp add: dec_sending_ref_def sock_inv_def)
  have "front_part (s\<lparr>sk_sending := x\<rparr>) = front_part s" for x by (cases "sk_dw s") (simp_all add: front_part_def)
  then have "sock_inv i n H L W (s\<lparr>sk_sending := refs_word i n\<rparr>)"
    using assms(1) by (simp add: sock_inv_def buffers_ok_def alive_def in_order_def front_def)
  with d show ?thesis by blast
qed

lemma append_fields:
  "sk_dw (append_sendbuffer hi so a s) = sk_dw s" "alive (append_sendbuffer hi so a s) = alive s"
  "sk_high (append_sendbuffer hi so a s) = (if hi then sk_high s @ [\<lparr>wb_buffer = so, wb_ptr = 0, wb_udp = a\<rparr>] else sk_high s)"
  "sk_low (append_sendbuffer hi so a s) = (if hi then sk_low s else sk_low s @ [\<lparr>wb_buffer = so, wb_ptr = 0, wb_udp = a\<rparr>])"
  "sk_wb_size (append_sendbuffer hi so a s) = sk_wb_size s + int (length (so_bytes so))"
  "write_core s (append_sendbuffer hi so a s)"
  by (simp_all add: append_sendbuffer_def set_list_def get_list_def alive_def write_core_def)

lemma append_part [simp]: "front_part (append_sendbuffer hi so a s) = front_part s"
proof (cases "sk_dw s")
  case None
  then show ?thesis by (cases "sk_high s") (simp_all add: front_part_def append_fields)
qed (simp add: front_part_def append_fields)

lemma append_front: "front (append_sendbuffer hi so a s) = (if hi then front s @ [so_bytes so] else front s)"
  by (simp add: front_def append_fields buf_bytes_def)

lemma append_queue: "buffers_ok s \<Longrightarrow> hi \<or> so_off so = 0 \<Longrightarrow> buffers_ok (append_sendbuffer hi so a s)"
  by (cases "sk_high s") (auto simp: buffers_ok_def append_fields wb_rest_def)

lemma append_inv:
  assumes inv: "sock_inv i n H L W s"
  shows "sock_inv i n (H @ [so_bytes so]) L W (append_sendbuffer True so a s)"
    "so_off so = 0 \<Longrightarrow> sock_inv i n H (L @ [so_bytes so]) W (append_sendbuffer False so a s)"
    "sk_low s = [] \<Longrightarrow> sock_inv i n H (L @ [so_bytes so]) W (append_sendbuffer True so a s)"
proof -
  have base: "sock_inv i n H' L' W (append_sendbuffer hi so a s)"
    if "alive s \<Longrightarrow> in_order H' L' W (append_sendbuffer hi so a s)" "hi \<or> so_off so = 0" for H' L' hi
    using inv that append_queue [of s hi so a] append_fields(6) [of s hi so a]
    by (simp add: sock_inv_def write_core_def append_fields(2))
  have o: "\<exists>sent L1. sent @ front s \<in> shuffles H L1 \<and> L = L1 @ map buf_bytes (sk_low s) \<and> W = concat sent @ front_part s" if "alive s"
    using inv that by (auto simp: sock_inv_def in_order_def)
  show "sock_inv i n (H @ [so_bytes so]) L W (append_sendbuffer True so a s)"
  proof (rule base)
    assume "alive s"
    then obtain sent L1 where s: "sent @ front s \<in> shuffles H L1" "L = L1 @ map buf_bytes (sk_low s)" "W = concat sent @ front_part s" using o by blast
    from shuffles_snoc1 [OF s(1), of "so_bytes so"] s(2,3) show "in_order (H @ [so_bytes so]) L W (append_sendbuffer True so a s)"
      unfolding in_order_def by (intro exI [of _ sent] exI [of _ L1]) (simp add: append_front append_fields)
  qed simp
  show "sock_inv i n H (L @ [so_bytes so]) W (append_sendbuffer False so a s)" if off: "so_off so = 0"
  proof (rule base)
    assume "alive s"
    then obtain sent L1 where s: "sent @ front s \<in> shuffles H L1" "L = L1 @ map buf_bytes (sk_low s)" "W = concat sent @ front_part s" using o by blast
    then show "in_order H (L @ [so_bytes so]) W (append_sendbuffer False so a s)"
      unfolding in_order_def by (intro exI [of _ sent] exI [of _ L1]) (simp add: append_front append_fields buf_bytes_def)
  qed (simp add: off)
  show "sock_inv i n H (L @ [so_bytes so]) W (append_sendbuffer True so a s)" if low: "sk_low s = []"
  proof (rule base)
    assume "alive s"
    then obtain sent L1 where s: "sent @ front s \<in> shuffles H L1" "L = L1" "W = concat sent @ front_part s" using o low by auto
    from shuffles_snoc2 [OF s(1), of "so_bytes so"] s(2,3) low show "in_order H (L @ [so_bytes so]) W (append_sendbuffer True so a s)"
      unfolding in_order_def by (intro exI [of _ sent] exI [of _ "L1 @ [so_bytes so]"]) (simp add: append_front append_fields)
  qed simp
qed

lemma size_warning_inv: "sock_inv i n H L W s \<Longrightarrow> \<exists>t r. size_warning s = (t, r) \<and> sock_inv i n H L W t"
  by (simp add: size_warning_def)

lemma start_sending_keeps: "sock_inv i n H L W s \<Longrightarrow> sock_keeps i n H L W (start_sending os s)"
proof -
  assume a: "sock_inv i n H L W s"
  then obtain t ev f where e: "enable_write os s True = (t, ev, f)" "sock_inv i n H L W t" "wrote ev = []"
    using enable_inv(1) [of os s True i n H L W] by auto
  then show ?thesis using size_warning_inv [OF e(2)] by (auto simp: sock_keeps_def start_sending_def)
qed

lemma dead_inv: "sock_inv i n H L W s \<Longrightarrow> \<not> alive s \<Longrightarrow> sock_inv i n H' L' W' s"
  by (simp add: sock_inv_def)

lemma send_socket_keeps:
  assumes inv: "sock_inv i n H L W s" and off: "hi \<or> so_off so = 0"
  shows "sock_keeps i n (if hi then H @ [so_bytes so] else H) (if hi then L else L @ [so_bytes so]) W (send_socket os now hi i so None s)"
    (is "sock_keeps i n ?H ?L W _")
proof (cases "alive s")
  case False
  then have "sk_type s = SOCKET_TYPE_INVALID \<or> sk_type s = SOCKET_TYPE_HALFCLOSE_WRITE" using inv by (auto simp: sock_inv_def alive_def)
  then have "send_socket os now hi i so None s = Some (s, [Se_free so], None)" by (auto simp: send_socket_def)
  then show ?thesis by (rule sock_keepsI) (rule dead_inv [OF inv False])
next
  case True
  have f: "sk_id s = i" "\<not> sk_closing s" "sk_protocol s = PROTOCOL_TCP" using inv by (simp_all add: sock_inv_def)
  have ty: "\<not> (sk_type s = SOCKET_TYPE_INVALID \<or> sk_type s = SOCKET_TYPE_HALFCLOSE_WRITE \<or> sk_type s = SOCKET_TYPE_PACCEPT)"
    "\<not> (sk_type s = SOCKET_TYPE_PLISTEN \<or> sk_type s = SOCKET_TYPE_LISTEN)" using True by (auto simp: alive_def)
  show ?thesis
  proof (cases "send_buffer_empty s")
    case e: True
    then have "sock_inv i n ?H ?L W (append_sendbuffer True so None s)"
      using append_inv [OF inv] by (auto simp: send_buffer_empty_def)
    from start_sending_keeps [OF this, of os] e f ty show ?thesis by (simp add: send_socket_def Let_def)
  next
    case e: False
    have "sock_inv i n ?H ?L W (append_sendbuffer hi so None s)" using append_inv [OF inv] off by auto
    from size_warning_inv [OF this] e f ty show ?thesis by (auto simp: send_socket_def Let_def sock_keeps_def)
  qed
qed

lemma send_cmd_keeps:
  assumes inv: "sock_inv i (Suc n) H L W s" and n: "Suc n < 2 ^ 16" and off: "hi \<or> so_off so = 0"
  shows "sock_keeps i n (if hi then H @ [so_bytes so] else H) (if hi then L else L @ [so_bytes so]) W (send_cmd os now hi i so s)"
proof -
  obtain t ev r where t: "send_socket os now hi i so None s = Some (t, ev, r)"
    "sock_inv i (Suc n) (if hi then H @ [so_bytes so] else H) (if hi then L else L @ [so_bytes so]) (W @ wrote ev) t"
    using send_socket_keeps [OF inv off, of os now] by (auto simp: sock_keeps_def)
  from dec_ref_inv [OF t(2) n] t(1) show ?thesis by (auto simp: send_cmd_def sock_keeps_def)
qed

text \<open>The other steps of the socket thread.\<close>

lemma front_part_other [simp]:
  "front_part (s\<lparr>sk_size := z\<rparr>) = front_part s" "front_part (s\<lparr>sk_type := y\<rparr>) = front_part s" "front_part (stat_read now k s) = front_part s"
  "front_part (stat_write now k s) = front_part s"
  by (cases "sk_dw s"; simp add: front_part_def stat_read_def stat_write_def)+

lemma sock_inv_other:
  "sock_inv i n H L W s \<Longrightarrow> sock_inv i n H L W (stat_read now k s)" "sock_inv i n H L W s \<Longrightarrow> sock_inv i n H L W (stat_write now k s)"
  "sock_inv i n H L W s \<Longrightarrow> z \<le> 2 ^ 21 \<Longrightarrow> sock_inv i n H L W (s\<lparr>sk_size := z\<rparr>)"
  "sock_inv i n H L W s \<Longrightarrow> sk_type s = SOCKET_TYPE_CONNECTED \<Longrightarrow> sock_inv i n H L W (s\<lparr>sk_type := SOCKET_TYPE_HALFCLOSE_READ\<rparr>)"
  by (simp_all add: sock_inv_def buffers_ok_def alive_def in_order_def front_def) (simp_all add: stat_read_def stat_write_def)

lemma trigger_write_keeps: "sock_inv i n H L W s \<Longrightarrow> sock_keeps i n H L W (trigger_write os i s)"
  using enable_inv(1) [of os s True i n H L W] by (auto simp: trigger_write_def sock_keeps_def Let_def)

lemma force_close_keeps:
  assumes "sock_inv i n H L W s" "sk_type s \<noteq> SOCKET_TYPE_INVALID"
  shows "\<exists>t ev m. force_close s = Some (t, ev, m) \<and> sock_inv i n H L (W @ wrote ev) t"
proof -
  have o: "open_type s" by (rule sock_inv_open [OF assms])
  obtain t ev m where t: "force_close s = Some (t, ev, m)" "writes_ended s t" using force_close_shut [of s] open_type_valid [OF o] by blast
  from t(1) sock_inv_shut [OF assms(1) o t(2), of "W @ wrote ev"] show ?thesis by blast
qed

lemma close_read_keeps:
  assumes "sock_inv i n H L W s" "sk_type s = SOCKET_TYPE_CONNECTED"
  shows "\<exists>t ev m. close_read os s = (t, ev, m) \<and> sock_inv i n H L (W @ wrote ev) t"
proof -
  obtain t ev f where "enable_read os (s\<lparr>sk_type := SOCKET_TYPE_HALFCLOSE_READ\<rparr>) False = (t, ev, f)" "wrote ev = []"
    "sock_inv i n H L W t = sock_inv i n H L W (s\<lparr>sk_type := SOCKET_TYPE_HALFCLOSE_READ\<rparr>)"
    using enable_inv(2) [of os "s\<lparr>sk_type := SOCKET_TYPE_HALFCLOSE_READ\<rparr>" False i n H L W] by blast
  then show ?thesis using sock_inv_other(4) [OF assms] by (simp add: close_read_def)
qed

lemma map_keeps:
  assumes "\<exists>t ev m. x = Some (t, ev, m) \<and> sock_inv i n H L (W @ wrote ev) t"
  shows "sock_keeps i n H L W (map_option (\<lambda>(t, ev, m). (t, ev, f m)) x)"
  using assms by (auto simp: sock_keeps_def)

lemma keeps_same: "sock_inv i n H L W s \<Longrightarrow> sock_keeps i n H L W (Some (s, [], r))"
  by (simp add: sock_keeps_def)

definition small_read :: "os \<Rightarrow> bool" where
  "small_read os = (case os_read os of Read_data d \<Rightarrow> length d \<le> 2 ^ 20 | _ \<Rightarrow> True)"

lemma forward_tcp_keeps:
  assumes inv: "sock_inv i n H L W s" and ty: "sk_type s \<noteq> SOCKET_TYPE_INVALID" and sm: "small_read os"
  shows "sock_keeps i n H L W (forward_message_tcp os now s)"
proof (cases "os_read os")
  case (Read_data d)
  let ?d = "take (nat (sk_size s)) d"
  have cl: "\<not> sk_closing s" "sk_size s \<le> 2 ^ 21" using inv by (simp_all add: sock_inv_def)
  have len: "length d \<le> 2 ^ 20" using sm Read_data by (simp add: small_read_def)
  have con: "sk_type s = SOCKET_TYPE_CONNECTED" if "\<not> halfclose_read s" "sk_type s \<noteq> SOCKET_TYPE_HALFCLOSE_WRITE"
    using that ty inv by (auto simp: sock_inv_def halfclose_read_def)
  show ?thesis
  proof (cases "?d = []")
    case e: True
    consider (half) "halfclose_read s" | (wr) "\<not> halfclose_read s" "sk_type s = SOCKET_TYPE_HALFCLOSE_WRITE"
      | (open_both) "\<not> halfclose_read s" "sk_type s \<noteq> SOCKET_TYPE_HALFCLOSE_WRITE" by blast
    then show ?thesis
    proof cases
      case half
      then show ?thesis using e cl Read_data keeps_same [OF inv] by (simp add: forward_message_tcp_def Let_def)
    next
      case wr
      then show ?thesis using e cl Read_data map_keeps [OF force_close_keeps [OF inv ty], of "\<lambda>m. Some (SOCKET_CLOSE, m)"]
        by (simp add: forward_message_tcp_def Let_def)
    next
      case open_both
      then show ?thesis using e cl Read_data close_read_keeps [OF inv con [OF open_both], of os]
        by (auto simp: forward_message_tcp_def Let_def sock_keeps_def)
    qed
  next
    case ne: False
    note st = sock_inv_other(1) [OF inv, of now "int (length ?d)"]
    have half: "sock_keeps i n H L W (Some (s, [], None))" by (rule keeps_same [OF inv])
    have a: "sock_keeps i n H L W (Some ((stat_read now (int (length ?d)) s)\<lparr>sk_size := z\<rparr>, [], r))" if "z \<le> 2 ^ 21" for z r
      by (rule keeps_same [OF sock_inv_other(3) [OF st that]])
    have b: "sock_keeps i n H L W (Some (stat_read now (int (length ?d)) s, [], r))" for r by (rule keeps_same [OF st])
    have dbl: "sk_size s * 2 \<le> 2 ^ 21" if "int (length ?d) = sk_size s" using that len by simp
    have div: "sk_size s div 2 \<le> 2 ^ 21" using cl(2) by simp
    show ?thesis
      unfolding forward_message_tcp_def Read_data read_answer.case Let_def
      using ne half b a [OF div] a [OF dbl] dbl by (simp only: if_False if_True simp_thms) (auto)
  qed
qed (use keeps_same [OF inv] in \<open>simp_all add: forward_message_tcp_def\<close>)

lemma eof_keeps: "sock_inv i n H L W s \<Longrightarrow> sk_type s \<noteq> SOCKET_TYPE_INVALID \<Longrightarrow> sock_keeps i n H L W (eof_event s)"
  unfolding eof_event_def by (rule map_keeps [OF force_close_keeps])

section \<open>The sends of other threads\<close>

lemma inc_ref_inv:
  assumes inv: "sock_inv i n H L W s" and n: "Suc n < 2 ^ 16"
  shows "\<exists>t. inc_sending_ref i s = Some t \<and> sock_inv i (Suc n) H L W t \<and> alive t = alive s"
proof -
  have p: "refs_word i n AND 0xffff = of_nat n" "drop_bit 16 (refs_word i n) = ID_TAG16 i" using refs_word_parts [of n i] n by simp_all
  have "refs_word i n AND 0xffff \<noteq> 0xffff"
  proof
    assume "refs_word i n AND 0xffff = 0xffff"
    then have "unat (of_nat n :: u64) = unat (0xffff :: u64)" using p(1) by simp
    then show False using n by (simp add: unsigned_of_nat take_bit_nat_eq_self)
  qed
  moreover have "refs_word i n + 1 = refs_word i (Suc n)" by (simp add: refs_word_def)
  ultimately have e: "inc_sending_ref i s = Some (s\<lparr>sk_sending := refs_word i (Suc n)\<rparr>)"
    using inv p(2) by (simp add: inc_sending_ref_def sock_inv_def)
  have "front_part (s\<lparr>sk_sending := x\<rparr>) = front_part s" for x by (cases "sk_dw s") (simp_all add: front_part_def)
  then have "sock_inv i (Suc n) H L W (s\<lparr>sk_sending := refs_word i (Suc n)\<rparr>)"
    using inv by (simp add: sock_inv_def buffers_ok_def alive_def in_order_def front_def)
  with e show ?thesis by (auto simp: alive_def)
qed

text \<open>A direct write happens only when nothing waits, in the buffers or in the pipe.\<close>

lemma direct_idle:
  assumes "can_direct_write s i" "sock_inv i n H L W s" "n < 2 ^ 16"
  shows "n = 0" "alive s" "front s = []" "front_part s = []" "sk_low s = []" "sk_high s = []" "sk_dw s = None"
proof -
  have c: "send_buffer_empty s" "sk_dw s = None" "sk_sending s AND 0xffff = 0" "sk_type s = SOCKET_TYPE_CONNECTED"
    using assms(1) by (auto simp: can_direct_write_def nomore_sending_data_def)
  have "refs_word i n AND 0xffff = of_nat n" using refs_word_parts(1) [OF assms(3)] .
  then have "(of_nat n :: u64) = 0" using c(3) assms(2) by (simp add: sock_inv_def)
  then have "unat (of_nat n :: u64) = 0" by simp
  then show "n = 0" using assms(3) by (simp add: unsigned_of_nat take_bit_nat_eq_self)
  show "alive s" "sk_low s = []" "sk_high s = []" "sk_dw s = None" using c by (simp_all add: alive_def send_buffer_empty_def)
  then show "front s = []" "front_part s = []" by (simp_all add: front_def front_part_def)
qed

lemma direct_inv:
  assumes inv: "sock_inv i n H L W s" and d: "can_direct_write s i" and n: "n < 2 ^ 16" and k: "k \<le> length (so_bytes so)"
  shows "k = length (so_bytes so) \<Longrightarrow> sock_inv i n (H @ [so_bytes so]) L (W @ so_bytes so) (stat_write now z s)"
    "k < length (so_bytes so) \<Longrightarrow> sock_inv i n (H @ [so_bytes so]) L (W @ take k (so_bytes so)) ((stat_write now z s)\<lparr>sk_dw := Some (so, k)\<rparr>)"
proof -
  note idle = direct_idle [OF d inv n]
  obtain out L1 where o: "out \<in> shuffles H L1" "L = L1" "W = concat out"
    using inv idle by (auto simp: sock_inv_def in_order_def)
  have x: "out @ [so_bytes so] \<in> shuffles (H @ [so_bytes so]) L1" by (rule shuffles_snoc1 [OF o(1)])
  have f: "sk_high (stat_write now z s) = []" "sk_low (stat_write now z s) = []" "sk_dw (stat_write now z s) = None" "front (stat_write now z s) = []"
    using idle by (simp_all add: stat_write_def front_def)
  have "in_order (H @ [so_bytes so]) L (W @ so_bytes so) (stat_write now z s)"
    unfolding in_order_def using o x f idle(4) by (intro exI [of _ "out @ [so_bytes so]"] exI [of _ L1]) simp
  then show "sock_inv i n (H @ [so_bytes so]) L (W @ so_bytes so) (stat_write now z s)"
    using inv by (simp add: sock_inv_def buffers_ok_def stat_write_def alive_def)
  let ?t = "(stat_write now z s)\<lparr>sk_dw := Some (so, k)\<rparr>"
  have "front ?t = [so_bytes so]" "front_part ?t = take k (so_bytes so)" "sk_low ?t = []"
    using f by (simp_all add: front_def front_part_def)
  then have "in_order (H @ [so_bytes so]) L (W @ take k (so_bytes so)) ?t"
    unfolding in_order_def using o x by (intro exI [of _ out] exI [of _ L1]) simp
  then show "sock_inv i n (H @ [so_bytes so]) L (W @ take k (so_bytes so)) ?t"
    using inv f by (simp add: sock_inv_def buffers_ok_def stat_write_def alive_def)
qed

section \<open>The server\<close>

text \<open>What other threads and the socket thread do with one connection.\<close>

datatype io = Io_send bool os socket_sendbuffer | Io_turn os

fun io_step :: "io \<Rightarrow> socket_server \<Rightarrow> (socket_server \<times> socket_event list) option" where
  "io_step (Io_send hi os b) ss =
     map_option (\<lambda>(ss, ev, n). (ss, ev)) (if hi then socket_server_send os ss b else socket_server_send_lowpriority ss b)"
| "io_step (Io_turn os) ss = map_option (\<lambda>(ss, ev, r, w). (ss, ev)) (poll_turn os ss)"

fun io_run :: "io list \<Rightarrow> socket_server \<Rightarrow> (socket_server \<times> socket_event list) option" where
  "io_run [] ss = Some (ss, [])"
| "io_run (x # xs) ss = Option.bind (io_step x ss) (\<lambda>(ss, ev). map_option (\<lambda>(ss, ev'). (ss, ev @ ev')) (io_run xs ss))"

text \<open>The bytes of the sends of a run, by priority, and of the sends in the pipe.\<close>

definition sends :: "bool \<Rightarrow> io list \<Rightarrow> bytes list" where
  "sends hi xs = concat (map (\<lambda>x. case x of Io_send h os b \<Rightarrow> if h = hi then [sb_bytes b] else [] | _ \<Rightarrow> []) xs)"

definition in_pipe :: "bool \<Rightarrow> request list \<Rightarrow> bytes list" where
  "in_pipe hi rqs = concat (map (\<lambda>rq. case rq of Rq_send j so \<Rightarrow> if hi then [so_bytes so] else []
     | Rq_send_low j so \<Rightarrow> if hi then [] else [so_bytes so] | _ \<Rightarrow> []) rqs)"

definition pipe_refs :: "request list \<Rightarrow> nat" where
  "pipe_refs rqs = length (in_pipe True rqs) + length (in_pipe False rqs)"

text \<open>Steps, requests and events that concern the socket \<open>i\<close> only.\<close>

definition request_of :: "int \<Rightarrow> request \<Rightarrow> bool" where
  "request_of i rq = (case rq of Rq_send j so \<Rightarrow> j = i | Rq_send_low j so \<Rightarrow> j = i \<and> so_off so = 0 | Rq_write j \<Rightarrow> j = i | _ \<Rightarrow> False)"

definition event_of :: "int \<Rightarrow> event \<Rightarrow> bool" where
  "event_of i e \<longleftrightarrow> ev_s e = None \<or> ev_s e = Some (HASH_ID i)"

definition io_of :: "int \<Rightarrow> io \<Rightarrow> bool" where
  "io_of i x = (case x of Io_send hi os b \<Rightarrow> sb_id b = i
     | Io_turn os \<Rightarrow> (case os_wait os of None \<Rightarrow> True | Some es \<Rightarrow> list_all (event_of i) es) \<and> small_read os)"

text \<open>A low-priority send whose bytes begin at the address of the message.\<close>

definition in_place :: "bool \<Rightarrow> socket_sendbuffer \<Rightarrow> bool" where
  "in_place hi b \<longleftrightarrow> hi \<or> so_off (buffer_object b) = 0"

definition low_in_place :: "io \<Rightarrow> bool" where
  "low_in_place x = (case x of Io_send hi os b \<Rightarrow> in_place hi b | Io_turn os \<Rightarrow> True)"

definition conn_inv :: "int \<Rightarrow> bytes list \<Rightarrow> bytes list \<Rightarrow> bytes \<Rightarrow> socket_server \<Rightarrow> bool" where
  "conn_inv i H L W ss \<longleftrightarrow> length (sr_slot ss) = MAX_SOCKET \<and> list_all (request_of i) (sr_pipe ss) \<and> list_all (event_of i) (sr_ev ss) \<and>
     sr_event_index ss \<le> length (sr_ev ss) \<and>
     (\<exists>H1 L1. sock_inv i (pipe_refs (sr_pipe ss)) H1 L1 W (slot_at ss i) \<and>
        (alive (slot_at ss i) \<longrightarrow> H = H1 @ in_pipe True (sr_pipe ss) \<and> L = L1 @ in_pipe False (sr_pipe ss)))"

lemma conn_invI:
  assumes "length (sr_slot ss) = MAX_SOCKET" "list_all (request_of i) (sr_pipe ss)" "list_all (event_of i) (sr_ev ss)"
    "sr_event_index ss \<le> length (sr_ev ss)" "sock_inv i (pipe_refs (sr_pipe ss)) H1 L1 W (slot_at ss i)"
    "alive (slot_at ss i) \<Longrightarrow> H = H1 @ in_pipe True (sr_pipe ss)" "alive (slot_at ss i) \<Longrightarrow> L = L1 @ in_pipe False (sr_pipe ss)"
  shows "conn_inv i H L W ss"
  using assms unfolding conn_inv_def by blast

lemma in_pipe_append [simp]:
  "in_pipe hi [] = []" "in_pipe hi (rqs @ rqs') = in_pipe hi rqs @ in_pipe hi rqs'"
  "in_pipe hi (Rq_send j so # rqs) = (if hi then [so_bytes so] else []) @ in_pipe hi rqs"
  "in_pipe hi (Rq_send_low j so # rqs) = (if hi then [] else [so_bytes so]) @ in_pipe hi rqs"
  "in_pipe hi (Rq_write j # rqs) = in_pipe hi rqs"
  by (simp_all add: in_pipe_def)

lemma clone_bytes [simp]: "so_bytes (clone_buffer b) = sb_bytes b" "so_off (clone_buffer b) = so_off (buffer_object b)"
  by (simp_all add: clone_buffer_def buffer_object_def)

lemma send_by_pipe_inv:
  assumes inv: "conn_inv i H L W ss" and b: "sb_id b = i" and n: "Suc (pipe_refs (sr_pipe ss)) < 2 ^ 16"
    and rq: "rq = (if hi then Rq_send else Rq_send_low)" and off: "in_place hi b"
  shows "\<exists>ss'. send_by_pipe b rq ss = Some (ss', [], 0) \<and>
    conn_inv i (if hi then H @ [sb_bytes b] else H) (if hi then L else L @ [sb_bytes b]) W ss' \<and>
    pipe_refs (sr_pipe ss') = Suc (pipe_refs (sr_pipe ss))"
proof -
  obtain H1 L1 where s: "sock_inv i (pipe_refs (sr_pipe ss)) H1 L1 W (slot_at ss i)"
    "alive (slot_at ss i) \<longrightarrow> H = H1 @ in_pipe True (sr_pipe ss) \<and> L = L1 @ in_pipe False (sr_pipe ss)"
    using inv by (auto simp: conn_inv_def)
  obtain t where t: "inc_sending_ref i (slot_at ss i) = Some t" "sock_inv i (Suc (pipe_refs (sr_pipe ss))) H1 L1 W t"
    "alive t = alive (slot_at ss i)" using inc_ref_inv [OF s(1) n] by blast
  let ?ss' = "send_request (rq i (clone_buffer b)) (put_slot i t ss)"
  have len: "length (sr_slot ss) = MAX_SOCKET" using inv by (simp add: conn_inv_def)
  have sl: "slot_at ?ss' i = t" using len by (simp add: send_request_def slot_at_def put_slot_def)
  have pr: "pipe_refs (sr_pipe ?ss') = Suc (pipe_refs (sr_pipe ss))"
    using rq by (simp add: send_request_def pipe_refs_def)
  have "conn_inv i (if hi then H @ [sb_bytes b] else H) (if hi then L else L @ [sb_bytes b]) W ?ss'"
    by (rule conn_invI [where ?H1.0 = H1 and ?L1.0 = L1], unfold sl pr)
      (use inv t s(2) rq off in \<open>auto simp: conn_inv_def send_request_def request_of_def in_place_def\<close>)
  then show ?thesis using t(1) b pr by (auto simp: send_by_pipe_def)
qed

lemma direct_write_inv:
  assumes inv: "conn_inv i H L W ss" and b: "sb_id b = i" and n: "pipe_refs (sr_pipe ss) < 2 ^ 16"
    and d: "can_direct_write (slot_at ss i) i"
  shows "\<exists>ss' ev. direct_write os ss b = Some (ss', ev, 0) \<and> conn_inv i (H @ [sb_bytes b]) L (W @ wrote ev) ss' \<and>
    pipe_refs (sr_pipe ss') = pipe_refs (sr_pipe ss)"
proof -
  let ?s = "slot_at ss i" and ?d = "sb_bytes b"
  let ?k = "write_result (os_writes os) (length ?d)"
  obtain H1 L1 where s: "sock_inv i (pipe_refs (sr_pipe ss)) H1 L1 W ?s"
    "alive ?s \<longrightarrow> H = H1 @ in_pipe True (sr_pipe ss) \<and> L = L1 @ in_pipe False (sr_pipe ss)"
    using inv by (auto simp: conn_inv_def)
  note idle = direct_idle [OF d s(1) n]
  have "pipe_refs (sr_pipe ss) = 0" by (rule idle(1))
  then have e: "H = H1" "L = L1" "in_pipe True (sr_pipe ss) = []" "in_pipe False (sr_pipe ss) = []"
    using s(2) idle(2) by (simp_all add: pipe_refs_def)
  have k: "?k \<le> length (so_bytes (clone_buffer b))" by (simp add: write_result_def split: list.split write_answer.split)
  note dv = direct_inv [OF s(1) d n k]
  have len: "length (sr_slot ss) = MAX_SOCKET" using inv by (simp add: conn_inv_def)
  have tcp: "sk_protocol ?s = PROTOCOL_TCP" using s(1) by (simp add: sock_inv_def)
  define ev where "ev = (if \<not> accepts (os_writes os) then [] else [Se_write (sk_fd ?s) (take ?k ?d)])"
  have w: "wrote ev = take ?k ?d" by (auto simp: ev_def accepts_def write_result_def split: list.split write_answer.split)
  let ?t = "stat_write (sr_time ss) (int ?k) ?s"
  show ?thesis
  proof (cases "?k = length ?d")
    case True
    let ?ss' = "put_slot i ?t ss"
    have "conn_inv i (H @ [?d]) L (W @ ?d) ?ss'"
      by (rule conn_invI [where ?H1.0 = "H1 @ [?d]" and ?L1.0 = L1])
        (use inv len dv(1) True e in \<open>auto simp: conn_inv_def slot_at_put_slot\<close>)
    then have "conn_inv i (H @ [?d]) L (W @ wrote (ev @ free_buffer b)) ?ss'" using w True by simp
    moreover have "direct_write os ss b = Some (?ss', ev @ free_buffer b, 0)"
      using b tcp True by (simp add: direct_write_def Let_def ev_def)
    ultimately show ?thesis by (intro exI [of _ ?ss'] exI [of _ "ev @ free_buffer b"]) simp
  next
    case False
    let ?u = "?t\<lparr>sk_dw := Some (clone_buffer b, ?k)\<rparr>"
    let ?ss' = "send_request (Rq_write i) (put_slot i ?u ss)"
    have sl: "slot_at ?ss' i = ?u" using len by (simp add: send_request_def slot_at_def put_slot_def)
    have lt: "?k < length (so_bytes (clone_buffer b))" using k False by simp
    have pr: "pipe_refs (sr_pipe ?ss') = pipe_refs (sr_pipe ss)" by (simp add: send_request_def pipe_refs_def)
    have "conn_inv i (H @ [?d]) L (W @ wrote ev) ?ss'"
      by (rule conn_invI [where ?H1.0 = "H1 @ [?d]" and ?L1.0 = L1], unfold sl pr w)
        (use inv dv(2) [OF lt] e in \<open>auto simp: conn_inv_def send_request_def request_of_def\<close>)
    moreover have "direct_write os ss b = Some (?ss', ev, 0)"
      using b tcp False by (simp add: direct_write_def Let_def ev_def)
    ultimately show ?thesis using pr by (intro exI [of _ ?ss'] exI [of _ ev]) simp
  qed
qed

lemma conn_inv_dead: "conn_inv i H L W ss \<Longrightarrow> \<not> alive (slot_at ss i) \<Longrightarrow> conn_inv i H' L' W' ss"
  using dead_inv by (fastforce simp: conn_inv_def)

lemma io_send_inv:
  assumes inv: "conn_inv i H L W ss" and b: "sb_id b = i" and n: "Suc (pipe_refs (sr_pipe ss)) < 2 ^ 16" and off: "in_place hi b"
  shows "\<exists>ss' ev. io_step (Io_send hi os b) ss = Some (ss', ev) \<and>
    conn_inv i (if hi then H @ [sb_bytes b] else H) (if hi then L else L @ [sb_bytes b]) (W @ wrote ev) ss' \<and>
    pipe_refs (sr_pipe ss') \<le> Suc (pipe_refs (sr_pipe ss))"
proof -
  let ?s = "slot_at ss i"
  have f: "sk_id ?s = i" "\<not> sk_closing ?s" using inv by (auto simp: conn_inv_def sock_inv_def)
  show ?thesis
  proof (cases "sk_type ?s = SOCKET_TYPE_INVALID")
    case True
    then have "io_step (Io_send hi os b) ss = Some (ss, free_buffer b)"
      using b by (simp add: socket_server_send_def socket_server_send_lowpriority_def socket_invalid_def Let_def)
    moreover have "\<not> alive ?s" using True by (simp add: alive_def)
    ultimately show ?thesis using conn_inv_dead [OF inv] by (intro exI [of _ ss] exI [of _ "free_buffer b"]) simp
  next
    case False
    then have v: "\<not> socket_invalid ?s i" using f by (simp add: socket_invalid_def)
    show ?thesis
    proof (cases "hi \<and> can_direct_write ?s i \<and> \<not> os_lock os")
      case True
      then show ?thesis using direct_write_inv [OF inv b, of os] n b v f by (auto simp: socket_server_send_def Let_def)
    next
      case False
      have "\<exists>ss'. send_by_pipe b (if hi then Rq_send else Rq_send_low) ss = Some (ss', [], 0) \<and>
        conn_inv i (if hi then H @ [sb_bytes b] else H) (if hi then L else L @ [sb_bytes b]) W ss' \<and>
        pipe_refs (sr_pipe ss') = Suc (pipe_refs (sr_pipe ss))" by (rule send_by_pipe_inv [OF inv b n refl off])
      moreover have "io_step (Io_send hi os b) ss = map_option (\<lambda>(ss, ev, n). (ss, ev)) (send_by_pipe b (if hi then Rq_send else Rq_send_low) ss)"
        using False b v f by (auto simp: socket_server_send_def socket_server_send_lowpriority_def Let_def)
      ultimately show ?thesis by (auto simp del: io_step.simps)
    qed
  qed
qed

text \<open>A socket that is dead stays dead: what is written determines how much has been sent.\<close>

lemma shuffles_bytes: "zs \<in> shuffles xs ys \<Longrightarrow> length (concat zs) = length (concat xs) + length (concat ys)"
proof (induction xs ys arbitrary: zs rule: shuffles.induct)
  case (3 x xs y ys)
  from "3.prems" consider (l) us where "zs = x # us" "us \<in> shuffles xs (y # ys)" | (r) us where "zs = y # us" "us \<in> shuffles (x # xs) ys"
    by auto
  then show ?case using "3.IH" by cases auto
qed simp_all

lemma in_order_once: "in_order H L W s \<Longrightarrow> \<not> in_order ([0] # H) L W s"
proof
  assume a: "in_order H L W s" "in_order ([0] # H) L W s"
  then obtain sent sent' L1 where o: "sent @ front s \<in> shuffles H L1" "sent' @ front s \<in> shuffles ([0] # H) L1"
    "W = concat sent @ front_part s" "W = concat sent' @ front_part s" by (auto simp: in_order_def)
  from shuffles_bytes [OF o(1)] shuffles_bytes [OF o(2)] have "length (concat sent') = length (concat sent) + 1" by simp
  moreover have "concat sent' = concat sent" using o(3,4) by simp
  ultimately show False by simp
qed

lemma turn_slot:
  assumes b: "length (sr_slot ss) = MAX_SOCKET" "list_all (request_of i) (sr_pipe ss)" "list_all (event_of i) (sr_ev ss)"
      "sr_event_index ss \<le> length (sr_ev ss)"
    and s: "sock_inv i n H1 L1 W (slot_at ss i)"
    and keeps: "\<And>H1 L1. sock_inv i n H1 L1 W (slot_at ss i) \<Longrightarrow>
      sock_keeps i (pipe_refs (sr_pipe ss)) (H1 @ hs) (L1 @ ls) W (f (slot_at ss i))"
    and eq: "alive (slot_at ss i) \<Longrightarrow> H = (H1 @ hs) @ in_pipe True (sr_pipe ss)"
      "alive (slot_at ss i) \<Longrightarrow> L = (L1 @ ls) @ in_pipe False (sr_pipe ss)"
  shows "\<exists>t ev r. on_slot i ss f = Some (put_slot i t ss, ev, r) \<and> conn_inv i H L (W @ wrote ev) (put_slot i t ss)"
proof -
  obtain t ev r where t: "f (slot_at ss i) = Some (t, ev, r)" "sock_inv i (pipe_refs (sr_pipe ss)) (H1 @ hs) (L1 @ ls) (W @ wrote ev) t"
    using keeps [OF s] by (auto simp: sock_keeps_def)
  have al: "alive (slot_at ss i)" if at: "alive t"
  proof (rule ccontr)
    assume "\<not> alive (slot_at ss i)"
    then have "sock_inv i n ([0] # H1) L1 W (slot_at ss i)" by (rule dead_inv [OF s])
    from keeps [OF this] t(1) have "sock_inv i (pipe_refs (sr_pipe ss)) ([0] # H1 @ hs) (L1 @ ls) (W @ wrote ev) t"
      by (simp add: sock_keeps_def)
    then show False using t(2) at in_order_once by (auto simp: sock_inv_def)
  qed
  have "conn_inv i H L (W @ wrote ev) (put_slot i t ss)"
    by (rule conn_invI [where ?H1.0 = "H1 @ hs" and ?L1.0 = "L1 @ ls"])
      (use b t(2) eq al in \<open>auto simp: slot_at_put_slot\<close>)
  with t(1) show ?thesis by (auto simp: on_slot_def)
qed

lemma conn_inv_events:
  assumes "conn_inv i H L W ss" "list_all (event_of i) es" "j \<le> length es"
  shows "conn_inv i H L W (ss\<lparr>sr_ev := es, sr_event_index := j, sr_checkctrl := c\<rparr>)"
  using assms by (simp add: conn_inv_def slot_at_def)

lemma conn_inv_ev_only:
  assumes "conn_inv i H L W ss" "sr_slot ss' = sr_slot ss" "sr_pipe ss' = sr_pipe ss" "list_all (event_of i) (sr_ev ss')"
    "sr_event_index ss' \<le> length (sr_ev ss')"
  shows "conn_inv i H L W ss'"
  using assms by (simp add: conn_inv_def slot_at_def)

lemma clear_event_of: "list_all (event_of i) es \<Longrightarrow> list_all (event_of i) (clear_event ss j es)"
  by (induction ss j es rule: clear_event.induct) (auto simp: event_of_def split: option.split)

lemma clear_closed_inv:
  assumes "conn_inv i H L W ss"
  shows "conn_inv i H L W (clear_closed_event ss t m)"
proof -
  have e: "list_all (event_of i) (sr_ev ss)" "sr_event_index ss \<le> length (sr_ev ss)" using assms by (simp_all add: conn_inv_def)
  then have "list_all (event_of i) (take j (sr_ev ss))" "list_all (event_of i) (drop j (sr_ev ss))" for j
    by (auto simp: list_all_iff dest: in_set_takeD in_set_dropD)
  then show ?thesis using e clear_event_of
    by (intro conn_inv_ev_only [OF assms]) (simp_all add: clear_closed_event_def clear_event_props(1))
qed

lemma event_again_inv:
  assumes "conn_inv i H L W ss"
  shows "conn_inv i H L W (event_again c ss)"
proof (rule conn_inv_ev_only [OF assms])
  have e: "list_all (event_of i) (sr_ev ss)" "sr_event_index ss \<le> length (sr_ev ss)" using assms by (simp_all add: conn_inv_def)
  let ?j = "sr_event_index ss - 1"
  have "list_all (event_of i) ((sr_ev ss)[?j := (sr_ev ss ! ?j)\<lparr>ev_read := False\<rparr>])"
  proof (cases "?j < length (sr_ev ss)")
    case True
    then have "event_of i (sr_ev ss ! ?j)" using e(1) by (simp add: list_all_length)
    then show ?thesis using e(1) True by (auto simp: list_all_length nth_list_update event_of_def)
  next
    case False
    then have "(sr_ev ss)[?j := x] = sr_ev ss" for x by (intro list_update_beyond) simp
    then show ?thesis using e(1) by (simp only:)
  qed
  then show "list_all (event_of i) (sr_ev (event_again c ss))" using e by (simp add: event_again_def Let_def)
  show "sr_event_index (event_again c ss) \<le> length (sr_ev (event_again c ss))" using e by (simp add: event_again_def Let_def)
qed (simp_all add: event_again_def Let_def)

lemma on_index_slot: "on_index (HASH_ID i) ss f = on_slot i ss f"
  by (simp add: on_index_def on_slot_def slot_at_def put_slot_def)

lemma turn_request:
  assumes inv: "conn_inv i H L W ss" and p: "sr_pipe ss = rq # rqs" and n: "pipe_refs (rq # rqs) < 2 ^ 16"
  shows "\<exists>ss' ev r. ctrl_cmd os (ss\<lparr>sr_pipe := rqs\<rparr>) rq = Some (ss', ev, r) \<and> conn_inv i H L (W @ wrote ev) ss' \<and> sr_pipe ss' = rqs"
proof -
  let ?ss = "ss\<lparr>sr_pipe := rqs\<rparr>"
  obtain H1 L1 where s: "sock_inv i (pipe_refs (rq # rqs)) H1 L1 W (slot_at ss i)"
    "alive (slot_at ss i) \<longrightarrow> H = H1 @ in_pipe True (rq # rqs) \<and> L = L1 @ in_pipe False (rq # rqs)"
    using inv p by (auto simp: conn_inv_def)
  have b: "length (sr_slot ?ss) = MAX_SOCKET" "list_all (request_of i) (sr_pipe ?ss)" "list_all (event_of i) (sr_ev ?ss)"
    "sr_event_index ?ss \<le> length (sr_ev ?ss)" "request_of i rq" using inv p by (auto simp: conn_inv_def)
  have sl: "slot_at ?ss i = slot_at ss i" by (simp add: slot_at_def)
  note step = turn_slot [OF b(1-4), of "pipe_refs (rq # rqs)" H1 L1 W, unfolded sl, OF s(1)]
  consider (hi) so where "rq = Rq_send i so" | (lo) so where "rq = Rq_send_low i so" "so_off so = 0" | (wr) "rq = Rq_write i"
    using b(5) by (cases rq) (auto simp: request_of_def)
  then show ?thesis
  proof cases
    case hi
    have r: "pipe_refs (rq # rqs) = Suc (pipe_refs rqs)" using hi by (simp add: pipe_refs_def)
    have "\<exists>t ev r. on_slot i ?ss (send_cmd os (sr_time ?ss) True i so) = Some (put_slot i t ?ss, ev, r) \<and>
        conn_inv i H L (W @ wrote ev) (put_slot i t ?ss)"
      by (rule step [where hs = "[so_bytes so]" and ls = "[]"])
        (use s(2) hi n r send_cmd_keeps [where hi = True] in \<open>auto simp: r\<close>)
    then show ?thesis using hi by (auto simp: ctrl_cmd_def)
  next
    case lo
    have r: "pipe_refs (rq # rqs) = Suc (pipe_refs rqs)" using lo by (simp add: pipe_refs_def)
    have "\<exists>t ev r. on_slot i ?ss (send_cmd os (sr_time ?ss) False i so) = Some (put_slot i t ?ss, ev, r) \<and>
        conn_inv i H L (W @ wrote ev) (put_slot i t ?ss)"
      by (rule step [where hs = "[]" and ls = "[so_bytes so]"])
        (use s(2) lo n r send_cmd_keeps [where hi = False] in \<open>auto simp: r\<close>)
    then show ?thesis using lo by (auto simp: ctrl_cmd_def)
  next
    case wr
    have r: "pipe_refs (rq # rqs) = pipe_refs rqs" using wr by (simp add: pipe_refs_def)
    have "\<exists>t ev r. on_slot i ?ss (trigger_write os i) = Some (put_slot i t ?ss, ev, r) \<and> conn_inv i H L (W @ wrote ev) (put_slot i t ?ss)"
      by (rule step [where hs = "[]" and ls = "[]"]) (use s(2) wr r trigger_write_keeps in \<open>auto simp: r\<close>)
    then show ?thesis using wr by (auto simp: ctrl_cmd_def)
  qed
qed

lemma slot_step:
  assumes inv: "conn_inv i H L W ss" and ty: "sk_type (slot_at ss i) \<noteq> SOCKET_TYPE_INVALID"
    and f: "\<And>n H L. sock_inv i n H L W (slot_at ss i) \<Longrightarrow> sock_keeps i n H L W (f (slot_at ss i))"
  shows "\<exists>t ev r. on_slot i ss f = Some (put_slot i t ss, ev, r) \<and> conn_inv i H L (W @ wrote ev) (put_slot i t ss)"
proof -
  obtain H1 L1 where s: "sock_inv i (pipe_refs (sr_pipe ss)) H1 L1 W (slot_at ss i)"
    "alive (slot_at ss i) \<longrightarrow> H = H1 @ in_pipe True (sr_pipe ss) \<and> L = L1 @ in_pipe False (sr_pipe ss)"
    using inv by (auto simp: conn_inv_def)
  show ?thesis
    by (rule turn_slot [where hs = "[]" and ls = "[]", OF _ _ _ _ s(1)]) (use inv s(2) f in \<open>auto simp: conn_inv_def\<close>)
qed

lemma turn_event:
  assumes inv: "conn_inv i H L W ss" and sm: "small_read os"
  shows "\<exists>ss' ev r. dispatch_event os e (HASH_ID i) ss = Some (ss', ev, r) \<and> conn_inv i H L (W @ wrote ev) ss' \<and> sr_pipe ss' = sr_pipe ss"
proof -
  let ?s = "slot_at ss i"
  have s: "sr_slot ss ! HASH_ID i = ?s" by (simp add: slot_at_def)
  have ty: "sk_type ?s \<in> {SOCKET_TYPE_CONNECTED, SOCKET_TYPE_HALFCLOSE_READ, SOCKET_TYPE_HALFCLOSE_WRITE, SOCKET_TYPE_INVALID}"
    and tcp: "sk_protocol ?s = PROTOCOL_TCP" using inv by (auto simp: conn_inv_def sock_inv_def)
  show ?thesis
  proof (cases "sk_type ?s = SOCKET_TYPE_INVALID")
    case True
    then show ?thesis using inv s by (simp add: dispatch_event_def)
  next
    case v: False
    note step = slot_step [OF inv v]
    have rd: "\<exists>ss' ev r. read_event os e (HASH_ID i) ss = Some (ss', ev, r) \<and> conn_inv i H L (W @ wrote ev) ss' \<and> sr_pipe ss' = sr_pipe ss"
    proof -
      have "\<exists>t ev r. on_slot i ss (forward_message_tcp os (sr_time ss)) = Some (put_slot i t ss, ev, r) \<and>
          conn_inv i H L (W @ wrote ev) (put_slot i t ss)" by (rule step) (rule forward_tcp_keeps [OF _ v sm])
      then obtain t ev r where t: "on_slot i ss (forward_message_tcp os (sr_time ss)) = Some (put_slot i t ss, ev, r)"
        "conn_inv i H L (W @ wrote ev) (put_slot i t ss)" by blast
      have p: "sr_pipe (event_again c x) = sr_pipe x" for c x by (simp add: event_again_def Let_def)
      note a = t(2) event_again_inv [OF t(2)] p
      show ?thesis unfolding read_event_def s tcp on_index_slot using t(1) a
        by (auto split: option.split sock_ret.split)
    qed
    have wr: "\<exists>t ev r. on_slot i ss (send_buffer os (sr_time ss)) = Some (put_slot i t ss, ev, r) \<and> conn_inv i H L (W @ wrote ev) (put_slot i t ss)"
      by (rule step) (rule send_buffer_keeps [OF _ v])
    have er: "on_slot i ss (\<lambda>s. Some (s, [], report_error s x)) = Some (ss, [], report_error ?s x)" for x
      by (simp add: on_slot_def slot_at_def put_slot_def)
    have eo: "\<exists>t ev r. on_slot i ss eof_event = Some (put_slot i t ss, ev, r) \<and> conn_inv i H L (W @ wrote ev) (put_slot i t ss)"
      by (rule step) (rule eof_keeps [OF _ v])
    have "dispatch_event os e (HASH_ID i) ss =
        (if ev_read e then read_event os e (HASH_ID i) ss
         else if ev_write e then on_slot i ss (send_buffer os (sr_time ss))
         else if ev_error e then on_slot i ss (\<lambda>s. Some (s, [], report_error s (if os_so_error os then os_error os else str ''Unknown error'')))
         else if ev_eof e then on_slot i ss eof_event else Some (ss, [], None))"
      using ty v s by (auto simp: dispatch_event_def on_index_slot)
    then show ?thesis using rd wr eo inv by (auto simp: er)
  qed
qed

lemma poll_event_inv:
  assumes inv: "conn_inv i H L W ss" and sm: "small_read os" and j: "sr_event_index ss < length (sr_ev ss)"
  shows "\<exists>ss' ev r. poll_event os ss = Some (ss', ev, r) \<and> conn_inv i H L (W @ wrote ev) ss' \<and> sr_pipe ss' = sr_pipe ss"
proof -
  let ?ss = "ss\<lparr>sr_event_index := sr_event_index ss + 1\<rparr>"
  have i1: "conn_inv i H L W ?ss" by (rule conn_inv_ev_only [OF inv]) (use inv j in \<open>simp_all add: conn_inv_def\<close>)
  have "event_of i (sr_ev ss ! sr_event_index ss)" using inv j by (simp add: conn_inv_def list_all_length)
  then show ?thesis using i1 turn_event [OF i1 sm, of "sr_ev ss ! sr_event_index ss"]
    by (auto simp: event_of_def poll_event_def Let_def)
qed

lemma io_turn_inv:
  assumes inv: "conn_inv i H L W ss" and x: "io_of i (Io_turn os)" and n: "pipe_refs (sr_pipe ss) < 2 ^ 16"
  shows "\<exists>ss' ev. io_step (Io_turn os) ss = Some (ss', ev) \<and> conn_inv i H L (W @ wrote ev) ss' \<and>
    pipe_refs (sr_pipe ss') \<le> pipe_refs (sr_pipe ss)"
proof (cases "sr_checkctrl ss \<and> sr_pipe ss \<noteq> []")
  case True
  then obtain rq rqs where p: "sr_pipe ss = rq # rqs" by (cases "sr_pipe ss") auto
  obtain ss1 ev r where c: "ctrl_cmd os (ss\<lparr>sr_pipe := rqs\<rparr>) rq = Some (ss1, ev, r)" "conn_inv i H L (W @ wrote ev) ss1" "sr_pipe ss1 = rqs"
    using turn_request [OF inv p, of os] n p by auto
  have "\<exists>ss'. poll_turn os ss = Some (ss', ev, r, False) \<and> conn_inv i H L (W @ wrote ev) ss' \<and> sr_pipe ss' = rqs"
    using c True p clear_closed_inv [OF c(2)] by (cases r) (auto simp: poll_turn_def clear_closed_event_def)
  moreover have "pipe_refs rqs \<le> pipe_refs (rq # rqs)" by (cases rq) (simp_all add: pipe_refs_def in_pipe_def)
  ultimately show ?thesis using p by auto
next
  case False
  define ss1 where "ss1 = ss\<lparr>sr_checkctrl := False\<rparr>"
  have f: "sr_slot ss1 = sr_slot ss" "sr_pipe ss1 = sr_pipe ss" "sr_ev ss1 = sr_ev ss" "sr_event_index ss1 = sr_event_index ss"
    by (simp_all add: ss1_def)
  have i1: "conn_inv i H L W ss1" by (rule conn_inv_ev_only [OF inv]) (use inv f in \<open>simp_all add: conn_inv_def\<close>)
  have sm: "small_read os" using x by (simp add: io_of_def)
  show ?thesis
  proof (cases "sr_event_index ss1 = length (sr_ev ss1)")
    case idx: True
    show ?thesis
    proof (cases "\<exists>e es. os_wait os = Some (e # es)")
      case True
      then obtain e es where es: "os_wait os = Some (e # es)" by blast
      let ?ss2 = "ss1\<lparr>sr_ev := take MAX_EVENT (e # es), sr_checkctrl := True, sr_event_index := 0\<rparr>"
      have "list_all (event_of i) (e # es)" using x es by (simp add: io_of_def)
      then have "list_all (event_of i) (take MAX_EVENT (e # es))" unfolding list_all_iff using in_set_takeD by fast
      then have "conn_inv i H L W ?ss2" by (intro conn_inv_ev_only [OF i1]) simp_all
      from poll_event_inv [OF this sm] obtain ss' ev r where "poll_event os ?ss2 = Some (ss', ev, r)"
        "conn_inv i H L (W @ wrote ev) ss'" "sr_pipe ss' = sr_pipe ss" using f by (auto simp: MAX_EVENT_def)
      moreover from this have "poll_turn os ss = Some (ss', ev, r, True)"
        using False es idx by (auto simp: poll_turn_def ss1_def [symmetric] Let_def)
      ultimately show ?thesis by simp
    next
      case no_ev: False
      let ?ss2 = "ss1\<lparr>sr_ev := [], sr_checkctrl := True, sr_event_index := 0\<rparr>"
      have "poll_turn os ss = Some (?ss2, [Se_log (str ''socket-server: wait'')], None, True)"
        using False no_ev idx by (auto simp: poll_turn_def ss1_def [symmetric] Let_def split: option.splits list.splits)
      moreover have "conn_inv i H L W ?ss2" by (rule conn_inv_ev_only [OF i1]) simp_all
      ultimately show ?thesis using f by simp
    qed
  next
    case idx: False
    then have "sr_event_index ss1 < length (sr_ev ss1)" using i1 by (simp add: conn_inv_def)
    from poll_event_inv [OF i1 sm this] obtain ss' ev r where "poll_event os ss1 = Some (ss', ev, r)"
      "conn_inv i H L (W @ wrote ev) ss'" "sr_pipe ss' = sr_pipe ss" using f by auto
    moreover from this have "poll_turn os ss = Some (ss', ev, r, False)"
      using False idx by (auto simp: poll_turn_def ss1_def [symmetric] Let_def)
    ultimately show ?thesis by simp
  qed
qed

lemma sends_simps [simp]:
  "sends hi [] = []" "sends hi (Io_turn os # xs) = sends hi xs"
  "sends hi (Io_send h os b # xs) = (if h = hi then [sb_bytes b] else []) @ sends hi xs"
  by (simp_all add: sends_def)

lemma io_run_inv:
  assumes "conn_inv i H L W ss" "list_all (io_of i) xs" "list_all low_in_place xs" "pipe_refs (sr_pipe ss) + length (sends True xs) + length (sends False xs) < 2 ^ 16"
  shows "\<exists>ss' ev. io_run xs ss = Some (ss', ev) \<and> conn_inv i (H @ sends True xs) (L @ sends False xs) (W @ wrote ev) ss'"
  using assms
proof (induction xs arbitrary: H L W ss)
  case (Cons x xs)
  obtain ss1 ev H1 L1 where s: "io_step x ss = Some (ss1, ev)" "conn_inv i H1 L1 (W @ wrote ev) ss1"
    "H @ sends True (x # xs) = H1 @ sends True xs" "L @ sends False (x # xs) = L1 @ sends False xs"
    "pipe_refs (sr_pipe ss1) + length (sends True xs) + length (sends False xs) < 2 ^ 16"
  proof (cases x)
    case (Io_turn os)
    then show ?thesis using io_turn_inv [OF Cons.prems(1), of os] Cons.prems(2,4) by (auto intro: that)
  next
    case (Io_send hi os b)
    then have b: "sb_id b = i" "Suc (pipe_refs (sr_pipe ss)) < 2 ^ 16" "in_place hi b"
      using Cons.prems(2-4) by (auto simp: io_of_def low_in_place_def split: if_splits)
    obtain ss1 ev where e: "io_step (Io_send hi os b) ss = Some (ss1, ev)"
      "conn_inv i (if hi then H @ [sb_bytes b] else H) (if hi then L else L @ [sb_bytes b]) (W @ wrote ev) ss1"
      "pipe_refs (sr_pipe ss1) \<le> Suc (pipe_refs (sr_pipe ss))" using io_send_inv [OF Cons.prems(1) b] by blast
    have r: "pipe_refs (sr_pipe ss1) + length (sends True xs) + length (sends False xs) < 2 ^ 16"
      using e(3) Cons.prems(4) Io_send by (cases hi) auto
    show ?thesis by (rule that [OF e(1) [folded Io_send] e(2) _ _ r]) (use Io_send in \<open>cases hi; simp\<close>)+
  qed
  obtain ss' ev' where "io_run xs ss1 = Some (ss', ev')"
    "conn_inv i (H1 @ sends True xs) (L1 @ sends False xs) ((W @ wrote ev) @ wrote ev') ss'"
    using Cons.IH [OF s(2) _ _ s(5)] Cons.prems(2,3) by auto
  then show ?case using s by (intro exI [of _ ss'] exI [of _ "ev @ ev'"]) (simp del: sends_simps)
qed simp

text \<open>A connection to which nothing has been sent.\<close>

definition fresh_socket :: "int \<Rightarrow> socket \<Rightarrow> bool" where
  "fresh_socket i s \<longleftrightarrow> sk_id s = i \<and> sk_type s = SOCKET_TYPE_CONNECTED \<and> sk_protocol s = PROTOCOL_TCP \<and> \<not> sk_closing s \<and>
     sk_size s \<le> 2 ^ 21 \<and> sk_sending s = push_bit 16 (ID_TAG16 i) \<and> sk_high s = [] \<and> sk_low s = [] \<and> sk_dw s = None \<and> sk_wb_size s = 0"

text \<open>C4: Whatever the system answers to the writes and in whatever order direct writes, requests in the pipe and turns of the
  socket thread mix, as long as the bytes of every object sent with low priority begin at the object itself (an object sent with
  high priority may have them anywhere), no step fails an assert, and what has been written to a connection is a sequence of whole messages and the
  start of the next: a merge of the messages of high and of low priority, each in the order in which they were sent. What is not
  written yet is in the buffers or in the pipe.\<close>

theorem socket_send_order:
  assumes "length (sr_slot ss) = MAX_SOCKET" "fresh_socket i (slot_at ss i)" "sr_pipe ss = []" "sr_ev ss = []" "sr_event_index ss = 0"
    and "list_all (io_of i) xs" "list_all low_in_place xs" "length (sends True xs) + length (sends False xs) < 2 ^ 16"
  shows "\<exists>ss' ev. io_run xs ss = Some (ss', ev) \<and>
    (let s = slot_at ss' i in alive s \<longrightarrow>
      (\<exists>sent H L. sent @ front s \<in> shuffles H L \<and> wrote ev = concat sent @ front_part s \<and>
        sends True xs = H @ in_pipe True (sr_pipe ss') \<and>
        sends False xs = L @ map buf_bytes (sk_low s) @ in_pipe False (sr_pipe ss')))"
proof -
  have "in_order [] [] [] (slot_at ss i)" using assms(2)
    by (simp add: fresh_socket_def in_order_def front_def front_part_def)
  then have "sock_inv i 0 [] [] [] (slot_at ss i)"
    using assms(2) by (simp add: fresh_socket_def sock_inv_def buffers_ok_def refs_word_def)
  then have "conn_inv i [] [] [] ss"
    by (intro conn_invI [where ?H1.0 = "[]" and ?L1.0 = "[]"]) (use assms in \<open>simp_all add: pipe_refs_def\<close>)
  from io_run_inv [OF this assms(6,7)] assms(3,8) obtain ss' ev where
    e: "io_run xs ss = Some (ss', ev)" "conn_inv i (sends True xs) (sends False xs) (wrote ev) ss'" by (auto simp: pipe_refs_def)
  then show ?thesis by (auto simp: conn_inv_def sock_inv_def in_order_def Let_def)
qed

definition send_steps :: "io list" where
  "send_steps =
     [Io_send True (idle_os\<lparr>os_writes := [Wrote 1]\<rparr>) \<lparr>sb_id = 1, sb_type = SOCKET_BUFFER_MEMORY, sb_bytes = [1, 2, 3], sb_off = 0\<rparr>,
      Io_send False idle_os \<lparr>sb_id = 1, sb_type = SOCKET_BUFFER_OBJECT, sb_bytes = [4, 5], sb_off = 0\<rparr>,
      Io_send True idle_os \<lparr>sb_id = 1, sb_type = SOCKET_BUFFER_OBJECT, sb_bytes = [6], sb_off = 16\<rparr>,
      Io_turn idle_os, Io_turn idle_os, Io_turn idle_os,
      Io_turn (idle_os\<lparr>os_writes := [Wrote 9, Write_intr, Wrote 9], os_wait := Some [\<lparr>ev_s = Some 1, ev_read = False, ev_write = True,
        ev_error = False, ev_eof = False\<rparr>]\<rparr>)]"

theorem socket_send_order_witness:
  "\<exists>ss' ev. io_run send_steps one_connection = Some (ss', ev) \<and>
    (let s = slot_at ss' 1 in alive s \<longrightarrow>
      (\<exists>sent H L. sent @ front s \<in> shuffles H L \<and> wrote ev = concat sent @ front_part s \<and>
        sends True send_steps = H @ in_pipe True (sr_pipe ss') \<and>
        sends False send_steps = L @ map buf_bytes (sk_low s) @ in_pipe False (sr_pipe ss')))"
proof (rule socket_send_order)
  show "fresh_socket 1 (slot_at one_connection 1)"
    unfolding one_connection_slot by (simp add: fresh_socket_def empty_socket_def PROTOCOL_TCP_def ID_TAG16_def)
  show "list_all (io_of 1) send_steps"
    by (simp add: send_steps_def io_of_def event_of_def small_read_def idle_os_def one_connection_slot)
  show "list_all low_in_place send_steps" by (simp add: send_steps_def low_in_place_def in_place_def buffer_object_def)
  show "length (sends True send_steps) + length (sends False send_steps) < 2 ^ 16" by (simp add: send_steps_def)
qed (simp_all add: one_connection_slot(2), simp_all add: one_connection_def)

text \<open>
  Without that condition: once an object whose bytes begin elsewhere is queued with low priority behind another message, every
  later attempt to write to the socket fails the assert that the head of this list has not been written to.
\<close>

theorem low_object_aborts:
  assumes "alive s" "sk_protocol s = PROTOCOL_TCP" "sk_id s = i" "\<not> sk_closing s" "sk_high s \<noteq> []" "sk_low s = []"
    and "so_off so \<noteq> 0"
  shows "\<exists>t r. send_socket os now False i so None s = Some (t, [], r) \<and>
    (\<forall>os2 now2. \<not> os_lock os2 \<longrightarrow> send_buffer os2 now2 t = None)"
proof -
  let ?a = "append_sendbuffer False so None s"
  obtain t r where w: "size_warning ?a = (t, r)" by fastforce
  then have lt: "sk_low t = sk_low ?a" by (auto simp: size_warning_def split: if_splits)
  have low: "list_uncomplete (sk_low (take_dw t))"
    using lt assms(6,7) by (simp add: take_dw_def append_fields list_uncomplete_def Let_def split: option.split)
  have "send_socket os now False i so None s = Some (t, [], r)"
    using assms w by (auto simp: send_socket_def send_buffer_empty_def alive_def Let_def)
  moreover have "send_buffer os2 now2 t = None" if "\<not> os_lock os2" for os2 now2
    using that low by (simp add: send_buffer_def send_buffer_lists_def)
  ultimately show ?thesis by blast
qed

end
