(* ===== verification/SocketDeliver.thy ===== *)
theory SocketDeliver
  imports SocketBridge ServerProps
begin

text \<open>
  The socket server and the services together: what the socket server reports reaches the mailbox of the service that owns
  the socket, as one message at the end of the queue; when the service is gone, the blocks of the message are freed.
\<close>

unbundle bit_operations_syntax

definition buffer_address :: "server \<Rightarrow> skynet_socket_message \<Rightarrow> u64" where
  "buffer_address s m = (if km_buffer m = None then 0 else sv_brk s)"

definition message_address :: "server \<Rightarrow> skynet_socket_message \<Rightarrow> u64" where
  "message_address s m = (if km_buffer m = None then sv_brk s else sv_brk s + 1)"

definition socket_message_sz :: "skynet_socket_message \<Rightarrow> u64" where
  "socket_message_sz m = word_of_nat (SOCKET_MESSAGE_SIZE + length (km_pad m)) OR push_bit MESSAGE_TYPE_SHIFT (word_of_int PTYPE_SOCKET)"

text \<open>C15: What the socket server reports is appended, as one message of type \<open>PTYPE_SOCKET\<close> with its header and text or buffer
  in memory, to exactly the mailbox of the service that owns the socket; when the service is gone, both blocks are freed.\<close>

theorem socket_message_delivered:
  assumes inv: "server_inv s R W N Z" and rm: "room 1 s"
  shows "let m = socket_message_of type padding result; h = ucast (sm_opaque result); sm = message_address s m; buf = buffer_address s m in
    \<exists>s'. forward_message ho s type padding result = Some s' \<and> server_inv s' R W N Z \<and>
      sv_mem s' sm = Some (Raw (message_block m buf)) \<and> (\<forall>d. km_buffer m = Some d \<longrightarrow> sv_mem s' buf = Some (Raw d)) \<and>
      (case mailbox_of s h of
         None \<Rightarrow> mbox s' = mbox s \<and> sv_freed s' = sv_freed s @ filter (\<lambda>a. a \<noteq> 0) [buf, sm]
       | Some q \<Rightarrow> sv_freed s' = sv_freed s \<and> (\<exists>xs. mbox s q = Some (h, False, xs) \<and>
           mbox s' = (mbox s)(q \<mapsto> (h, False, xs @ [\<lparr>m_source = 0, m_session = 0, m_data = sm, m_sz = socket_message_sz m\<rparr>]))))"
proof -
  define m where "m = socket_message_of type padding result"
  define h :: u32 where "h = ucast (sm_opaque result)"
  define buf where "buf = buffer_address s m"
  define sm where "sm = message_address s m"
  define s1 where "s1 = (case km_buffer m of Some d \<Rightarrow> fst (skynet_malloc s (Raw d)) | None \<Rightarrow> s)"
  define s2 where "s2 = fst (skynet_malloc s1 (Raw (message_block m buf)))"
  define msg where "msg = \<lparr>m_source = 0, m_session = 0, m_data = sm, m_sz = socket_message_sz m\<rparr>"
  have a: "(case km_buffer m of Some d \<Rightarrow> skynet_malloc s (Raw d) | None \<Rightarrow> (s, 0)) = (s1, buf)"
    by (auto simp: s1_def buf_def buffer_address_def skynet_malloc_def split: option.split)
  have b: "skynet_malloc s1 (Raw (message_block m buf)) = (s2, sm)"
    by (auto simp: s2_def s1_def sm_def message_address_def skynet_malloc_def split: option.split)
  have f: "same_frame s s2" "sv_mq s2 = sv_mq s" "sv_freed s2 = sv_freed s"
    by (auto simp: s2_def s1_def skynet_malloc_def same_frame_def split: option.split)
  have mem: "sv_mem s2 sm = Some (Raw (message_block m buf))" "\<forall>d. km_buffer m = Some d \<longrightarrow> sv_mem s2 buf = Some (Raw d)"
    by (auto simp: s2_def s1_def sm_def buf_def message_address_def buffer_address_def skynet_malloc_def split: option.split)
  have i2: "server_inv s2 R W N Z" by (rule server_inv_quiet [OF inv f(1,2)])
  have r2: "room 1 s2" using rm room_frame [of s2 s] f(2) by simp
  have mo: "mailbox_of s2 h = mailbox_of s h" by (rule mailbox_of_frame [OF f(1)])
  obtain s3 where p: "skynet_context_push ho s2 h msg = Some (s3, if mailbox_of s h = None then -1 else 0)"
    "push_result s2 h msg s3" "server_inv s3 R W N Z"
    using push_context_spec [OF i2 r2, of ho h msg] mo by auto
  define s' where "s' = (if mailbox_of s h = None then skynet_free (skynet_free s3 buf) sm else s3)"
  have "forward_message ho s type padding result = Some s'"
    using p(1) a b unfolding forward_message_def Let_def m_def [symmetric] h_def [symmetric]
    by (simp add: s'_def msg_def socket_message_sz_def)
  moreover have "server_inv s' R W N Z"
  proof -
    have "same_frame s3 s'" "sv_mq s' = sv_mq s3" by (simp_all add: s'_def)
    then show ?thesis by (rule server_inv_quiet [OF p(3)])
  qed
  moreover have "sv_mem s' = sv_mem s2"
    using p(2) mo by (auto simp: s'_def push_result_def skynet_free_def split: option.splits)
  moreover have "case mailbox_of s h of
      None \<Rightarrow> mbox s' = mbox s \<and> sv_freed s' = sv_freed s @ filter (\<lambda>a. a \<noteq> 0) [buf, sm]
    | Some q \<Rightarrow> sv_freed s' = sv_freed s \<and> (\<exists>xs. mbox s q = Some (h, False, xs) \<and> mbox s' = (mbox s)(q \<mapsto> (h, False, xs @ [msg])))"
    using p(2) mo f(2,3) by (auto simp: s'_def push_result_def skynet_free_def split: option.splits)
  ultimately show ?thesis using mem
    unfolding Let_def m_def [symmetric] h_def [symmetric] buf_def [symmetric] sm_def [symmetric] msg_def [symmetric] by auto
qed

theorem socket_message_delivered_witness:
  "\<exists>s' m. forward_message demo_host demo_server 1 False \<lparr>sm_id = 3, sm_opaque = 0x1000001, sm_ud = 2, sm_data = Some [7, 8]\<rparr> = Some s' \<and>
     mbox s' 0 = Some (0x1000001, False, [m]) \<and> m_source m = 0"
proof -
  have g: "skynet_handle_grab (handle_of demo_server) (sv_handles demo_server) 0x1000001 = Some 0"
    by (simp add: skynet_handle_grab_def demo_server_sel slot_hash_def skynet_handle_init_def)
  have mo: "mailbox_of demo_server 0x1000001 = Some 0"
    unfolding mailbox_of_def g by (simp add: demo_server_sel demo_ctx_def)
  have r: "room 1 demo_server" by (rule room_mono [OF demo_server_inv(3)]) simp
  have u: "ucast (0x1000001 :: u64) = (0x1000001 :: u32)" by simp
  from socket_message_delivered [OF demo_server_inv(1) r, of 1 False "\<lparr>sm_id = 3, sm_opaque = 0x1000001, sm_ud = 2, sm_data = Some [7, 8]\<rparr>" demo_host]
  show ?thesis by (auto simp: Let_def u mo demo_server_sel)
qed

end
