(* ===== verification/LuaSocket.thy ===== *)
theory LuaSocket
  imports SocketBridge
begin

text \<open>
  \<open>lualib-src/lua-socket.c\<close>: what a service in Lua uses to read from its sockets and to call the socket server. The blocks
  that arrive for a socket are chained in a buffer, from which bytes are taken by number or up to a separator. The nodes of
  the chain come from a pool that all buffers of a service share. A result is \<open>Inl\<close> for an error of Lua and \<open>None\<close> for an
  access outside a block and for a sum of \<open>int\<close> that leaves its range. Arguments of the wrong Lua type are not modelled,
  except for the null pointers that the code checks itself. An integer of Lua, of 64 bits, that the code stores in an \<open>int\<close>
  is cut to 32 bits by \<open>to_i32\<close>.
\<close>

section \<open>Buffers\<close>

text \<open>A node is known by its number in the pool.\<close>

record buffer_node =
  bn_id :: nat
  bn_msg :: bytes
  bn_sz :: int

text \<open>The table \<open>pool\<close>: the sizes of its chunks, and the chain of free nodes.\<close>

record buffer_pool =
  bp_chunks :: "nat list"
  bp_free :: "nat list"

text \<open>\<open>head\<close> up to \<open>tail\<close> is a list.\<close>

record socket_buffer =
  sb_size :: int
  sb_offset :: int
  sb_nodes :: "buffer_node list"

text \<open>What is freed, and the text in the log.\<close>

datatype buffer_event = Sb_free bytes | Sb_log bytes

type_synonym buffers = "buffer_pool \<times> socket_buffer \<times> buffer_event list"

definition LARGE_PAGE_NODE :: nat where "LARGE_PAGE_NODE = 12"
definition POOL_SIZE_WARNING :: nat where "POOL_SIZE_WARNING = 32"

definition lnewbuffer :: socket_buffer where
  "lnewbuffer = \<lparr>sb_size = 0, sb_offset = 0, sb_nodes = []\<rparr>"

text \<open>The nodes of a new chunk are chained in the order of their addresses.\<close>

definition lnewpool :: "nat \<Rightarrow> buffer_pool \<Rightarrow> nat list" where
  "lnewpool sz pool = [sum_list (bp_chunks pool)..<sum_list (bp_chunks pool) + sz]"

definition lfreepool :: "buffer_node list \<Rightarrow> buffer_event list" where
  "lfreepool nodes = map (\<lambda>b. Sb_free (bn_msg b)) nodes"

text \<open>The first entry of the table is the chain of free nodes, so the table has one entry more than there are chunks.\<close>

definition take_node :: "buffer_pool \<Rightarrow> nat \<times> buffer_pool \<times> buffer_event list" where
  "take_node pool =
     (case bp_free pool of
        f # fs \<Rightarrow> (f, pool\<lparr>bp_free := fs\<rparr>, [])
      | [] \<Rightarrow>
          let tsz = (if bp_chunks pool = [] then 1 else 1 + length (bp_chunks pool));
              size = 8 * 2 ^ (if tsz \<le> LARGE_PAGE_NODE - 3 then tsz else LARGE_PAGE_NODE - 3);
              chain = lnewpool size pool
          in (List.hd chain, \<lparr>bp_chunks = bp_chunks pool @ [size], bp_free = tl chain\<rparr>,
              if tsz > POOL_SIZE_WARNING then [Sb_log (str ''Too many socket pool ('' @ dec (int tsz) @ str '')'')] else []))"

definition lpushbuffer :: "socket_buffer option \<Rightarrow> buffer_pool \<Rightarrow> bytes option \<Rightarrow> int \<Rightarrow> (string, buffers \<times> int) run" where
  "lpushbuffer buf pool block sz =
     (case buf of None \<Rightarrow> err ''need buffer object at param 1'' | Some sb \<Rightarrow>
      case block of None \<Rightarrow> err ''need message block at param 3'' | Some msg \<Rightarrow>
        let sz = to_i32 sz;
            (i, pool, ev) = take_node pool;
            sb = sb\<lparr>sb_nodes := sb_nodes sb @ [\<lparr>bn_id = i, bn_msg = msg, bn_sz = sz\<rparr>], sb_size := sb_size sb + sz\<rparr>
        in if is_i32 (sb_size sb) then ret ((pool, sb, ev), sb_size sb) else None)"

definition return_free_node :: "buffer_node \<Rightarrow> buffer_node list \<Rightarrow> buffers \<Rightarrow> buffers" where
  "return_free_node b bs st =
     (case st of (pool, sb, ev) \<Rightarrow>
        (pool\<lparr>bp_free := bn_id b # bp_free pool\<rparr>, sb\<lparr>sb_offset := 0, sb_nodes := bs\<rparr>, ev @ [Sb_free (bn_msg b)]))"

function pop_nodes :: "int \<Rightarrow> int \<Rightarrow> buffers \<Rightarrow> (bytes \<times> buffers) option" where
  "pop_nodes sz skip (pool, sb, ev) =
     (case sb_nodes sb of
        [] \<Rightarrow> None
      | b # bs \<Rightarrow>
          let n = bn_sz b - sb_offset sb; st = return_free_node b bs (pool, sb, ev) in
          if n \<ge> sz then
            Option.bind (if sz > skip then peek (bn_msg b) (sb_offset sb) (sz - skip) else Some []) (\<lambda>t.
              Some (t, if n = sz then st else (pool, sb\<lparr>sb_offset := sb_offset sb + sz\<rparr>, ev)))
          else
            Option.bind (if sz - skip > 0 then peek (bn_msg b) (sb_offset sb) (min (sz - skip) n) else Some []) (\<lambda>t.
              if sz - n = 0 then Some (t, st) else map_option (\<lambda>(u, st). (t @ u, st)) (pop_nodes (sz - n) skip st)))"
  by pat_completeness auto

termination
  by (relation "measure (\<lambda>(sz, skip, (pool, sb, ev)). length (sb_nodes sb))") (auto simp: return_free_node_def)

declare pop_nodes.simps [simp del]

definition pop_lstring :: "int \<Rightarrow> int \<Rightarrow> buffers \<Rightarrow> (bytes \<times> buffers) option" where
  "pop_lstring sz skip st =
     (case st of (pool, sb, ev) \<Rightarrow>
      case sb_nodes sb of
        [] \<Rightarrow> None
      | b # bs \<Rightarrow>
          let n = bn_sz b - sb_offset sb in
          if sz < n then map_option (\<lambda>t. (t, (pool, sb\<lparr>sb_offset := sb_offset sb + sz\<rparr>, ev))) (peek (bn_msg b) (sb_offset sb) (sz - skip))
          else if sz = n then map_option (\<lambda>t. (t, return_free_node b bs st)) (peek (bn_msg b) (sb_offset sb) (sz - skip))
          else pop_nodes sz skip st)"

definition resize :: "int \<Rightarrow> buffers \<Rightarrow> buffers" where
  "resize n st = (case st of (pool, sb, ev) \<Rightarrow> (pool, sb\<lparr>sb_size := n\<rparr>, ev))"

definition lpopbuffer :: "socket_buffer option \<Rightarrow> buffer_pool \<Rightarrow> int \<Rightarrow> (string, buffers \<times> bytes option \<times> int) run" where
  "lpopbuffer buf pool sz =
     (case buf of None \<Rightarrow> err ''Need buffer object at param 1'' | Some sb \<Rightarrow>
      let sz = to_i32 sz in
      if sb_size sb < sz \<or> sz = 0 then ret ((pool, sb, []), None, sb_size sb)
      else lift (map_option (\<lambda>(t, st). (resize (sb_size sb - sz) st, Some t, sb_size sb - sz)) (pop_lstring sz 0 (pool, sb, []))))"

fun clear_nodes :: "buffer_node list \<Rightarrow> buffers \<Rightarrow> buffers" where
  "clear_nodes [] st = st"
| "clear_nodes (b # bs) st = clear_nodes bs (return_free_node b bs st)"

text \<open>\<open>None\<close> is \<open>nil\<close> here.\<close>

definition lclearbuffer :: "socket_buffer option \<Rightarrow> buffer_pool \<Rightarrow> buffers option" where
  "lclearbuffer buf pool = map_option (\<lambda>sb. resize 0 (clear_nodes (sb_nodes sb) (pool, sb, []))) buf"

fun readall_loop :: "buffer_node list \<Rightarrow> buffers \<Rightarrow> (bytes \<times> buffers) option" where
  "readall_loop [] st = Some ([], st)"
| "readall_loop (b # bs) st =
     (case st of (pool, sb, ev) \<Rightarrow>
      Option.bind (peek (bn_msg b) (sb_offset sb) (bn_sz b - sb_offset sb)) (\<lambda>t.
      map_option (\<lambda>(u, st). (t @ u, st)) (readall_loop bs (return_free_node b bs st))))"

definition lreadall :: "socket_buffer option \<Rightarrow> buffer_pool \<Rightarrow> (string, buffers \<times> bytes) run" where
  "lreadall buf pool =
     (case buf of None \<Rightarrow> err ''Need buffer object at param 1'' | Some sb \<Rightarrow>
      lift (map_option (\<lambda>(t, st). (resize 0 st, t)) (readall_loop (sb_nodes sb) (pool, sb, []))))"

fun check_sep :: "buffer_node list \<Rightarrow> int \<Rightarrow> bytes \<Rightarrow> bool option" where
  "check_sep [] from sep = None"
| "check_sep (b # bs) from sep =
     (let sz = bn_sz b - from in
      if sz \<ge> int (length sep) then map_option (\<lambda>x. x = sep) (peek (bn_msg b) from (int (length sep)))
      else if sz < 0 then None
      else if sz > 0 then
        Option.bind (peek (bn_msg b) from sz) (\<lambda>x. if x \<noteq> take (nat sz) sep then Some False else check_sep bs 0 (drop (nat sz) sep))
      else check_sep bs 0 sep)"

text \<open>At most \<open>n\<close> rounds from the index \<open>i\<close>; the result is the index of the separator.\<close>

fun readline_loop :: "nat \<Rightarrow> int \<Rightarrow> buffer_node list \<Rightarrow> int \<Rightarrow> int \<Rightarrow> bytes \<Rightarrow> int option option" where
  "readline_loop 0 i nodes from bytes sep = Some None"
| "readline_loop (Suc n) i nodes from bytes sep =
     Option.bind (check_sep nodes from sep) (\<lambda>found.
       if found then Some (Some i)
       else if bytes - 1 = 0 then
         (case tl nodes of [] \<Rightarrow> Some None | b # bs \<Rightarrow> readline_loop n (i + 1) (tl nodes) 0 (bn_sz b) sep)
       else readline_loop n (i + 1) nodes (from + 1) (bytes - 1) sep)"

datatype line_result = No_line | Has_line | Line bytes

text \<open>Without a pool the line is only looked for. The length of the separator is an \<open>int\<close> in the search; a negative one
  reaches \<open>memcmp\<close> as a huge length.\<close>

definition lreadline :: "socket_buffer option \<Rightarrow> buffer_pool \<Rightarrow> bool \<Rightarrow> bytes \<Rightarrow> (string, buffers \<times> line_result) run" where
  "lreadline buf pool check sep =
     (case buf of None \<Rightarrow> err ''Need buffer object at param 1'' | Some sb \<Rightarrow>
      case sb_nodes sb of
        [] \<Rightarrow> ret ((pool, sb, []), No_line)
      | b # bs \<Rightarrow>
          let seplen = to_i32 (int (length sep)); sep = take (nat seplen) sep in
          if seplen < 0 then None
          else lift (Option.bind
            (readline_loop (nat (sb_size sb - seplen + 1)) 0 (sb_nodes sb) (sb_offset sb) (bn_sz b - sb_offset sb) sep) (\<lambda>r.
            case r of
              None \<Rightarrow> Some ((pool, sb, []), No_line)
            | Some i \<Rightarrow>
                if check then Some ((pool, sb, []), Has_line)
                else map_option (\<lambda>(t, st). (resize (sb_size sb - (i + seplen)) st, Line t))
                       (pop_lstring (i + seplen) seplen (pool, sb, [])))))"

text \<open>\<open>Sb_free\<close> node_frees the block; \<open>lstr2p\<close> makes one.\<close>

definition ldrop :: "bytes \<Rightarrow> buffer_event list" where "ldrop msg = [Sb_free msg]"

definition lstr2p :: "bytes \<Rightarrow> bytes \<times> int" where "lstr2p s = (s, to_i32 (int (length s)))"

text \<open>A number in one to four bytes, the first the highest.\<close>

definition lheader :: "bytes \<Rightarrow> (string, int) run" where
  "lheader s = (if length s > 4 \<or> length s < 1 then err ''Invalid read'' else ret (foldl (\<lambda>sz b. sz * 256 + uint b) 0 s))"

section \<open>Calls of the socket server\<close>

text \<open>
  The host and the port of an address; \<open>port\<close> is the argument of that name. The host in brackets is copied into a block of
  the size of the address; a bracket that is closed in front of the one that opens gives a negative length.
\<close>

definition strchr :: "bytes \<Rightarrow> u8 \<Rightarrow> nat option" where
  "strchr s c = (if c \<in> set s then Some (length (takeWhile (\<lambda>x. x \<noteq> c) s)) else None)"

definition port_of :: "bytes \<Rightarrow> int" where
  "port_of s = to_i32 (let (neg, t) = number_sign s; v = digits_val 10 0 t in
     if v \<ge> 2 ^ 64 then 2 ^ 64 - 1 else if neg then (- v) mod 2 ^ 64 else v)"

definition address_port :: "bytes \<Rightarrow> int option \<Rightarrow> (string, bytes \<times> int) run" where
  "address_port addr port =
     (case port of Some p \<Rightarrow> ret (addr, to_i32 p) | None \<Rightarrow>
      case strchr addr 91 of
        Some open_at \<Rightarrow>
          (case strchr addr 93 of
             None \<Rightarrow> err ''Invalid address''
           | Some close_at \<Rightarrow>
               run_bind (lift (peek addr (int open_at + 1) (int close_at - (int open_at + 1)))) (\<lambda>host.
                 case strchr (drop (close_at + 1) addr) 58 of
                   None \<Rightarrow> err ''Invalid address''
                 | Some k \<Rightarrow> ret (host, port_of (drop (close_at + 1 + k + 1) addr))))
      | None \<Rightarrow>
          (case strchr addr 58 of
             None \<Rightarrow> err ''Invalid address''
           | Some k \<Rightarrow> ret (take k addr, port_of (drop (k + 1) addr))))"

text \<open>What Lua passes to be sent: a userdata, a pointer, a table of strings, or a string. The size is optional; a pointer
  without one is an object, whose bytes begin where its interface says (the second argument, as seen from the object).\<close>

datatype send_arg = Userdata bytes "int option" | Pointer bytes int "int option" | Strings "bytes list" | String bytes

definition count_size :: "bytes list \<Rightarrow> nat" where "count_size xs = sum_list (map length xs)"

fun concat_table :: "bytes list \<Rightarrow> nat \<Rightarrow> (string, bytes) run" where
  "concat_table [] tlen = (if tlen \<noteq> 0 then err ''Invalid strings table'' else ret [])"
| "concat_table (x # xs) tlen =
     (if tlen < length x then err ''Invalid strings table''
      else run_bind (concat_table xs (tlen - length x)) (\<lambda>r. ret (x @ r)))"

definition get_send_buffer :: "int \<Rightarrow> send_arg \<Rightarrow> (string, socket_sendbuffer) run" where
  "get_send_buffer i a =
     (let mk = (\<lambda>t b. \<lparr>sb_id = i, sb_type = t, sb_bytes = b, sb_off = 0\<rparr>);
         object = (\<lambda>b off. \<lparr>sb_id = i, sb_type = SOCKET_BUFFER_OBJECT, sb_bytes = b, sb_off = off\<rparr>) in
      case a of
        Userdata b sz \<Rightarrow> (case sz of None \<Rightarrow> ret (mk SOCKET_BUFFER_RAWPOINTER b) | Some n \<Rightarrow> lift (map_option (mk SOCKET_BUFFER_RAWPOINTER) (peek b 0 n)))
      | Pointer b off sz \<Rightarrow>
          (case sz of
             None \<Rightarrow> ret (object b off)
           | Some n \<Rightarrow>
               if to_i32 n < 0 then ret (object b off) else lift (map_option (mk SOCKET_BUFFER_MEMORY) (peek b 0 (to_i32 n))))
      | Strings xs \<Rightarrow> run_bind (concat_table xs (count_size xs)) (\<lambda>b. ret (mk SOCKET_BUFFER_MEMORY b))
      | String b \<Rightarrow> ret (mk SOCKET_BUFFER_RAWPOINTER b))"

text \<open>The text of a message is the rest of its block; the address of a UDP message comes as a fifth value.\<close>

definition lunpack :: "skynet_socket_message \<Rightarrow> int \<Rightarrow> (int \<times> int \<times> int \<times> bytes \<times> bytes option) option" where
  "lunpack m n =
     Option.bind (case km_buffer m of None \<Rightarrow> peek (km_pad m) 0 (to_i32 n - int SOCKET_MESSAGE_SIZE) | Some d \<Rightarrow> Some d) (\<lambda>t.
     map_option (\<lambda>a. (km_type m, km_id m, km_ud m, t, a)) (skynet_socket_udp_address m))"

definition lsocket_send :: "os \<Rightarrow> int \<Rightarrow> send_arg \<Rightarrow> socket_server \<Rightarrow> (string, socket_server \<times> socket_event list \<times> bool) run" where
  "lsocket_send os i a ss = run_bind (get_send_buffer (to_i32 i) a) (\<lambda>buf. lift (map_option (\<lambda>(ss, ev, n). (ss, ev, n = 0)) (skynet_socket_sendbuffer os ss buf)))"

definition lsendlow :: "int \<Rightarrow> send_arg \<Rightarrow> socket_server \<Rightarrow> (string, socket_server \<times> socket_event list \<times> bool) run" where
  "lsendlow i a ss = run_bind (get_send_buffer (to_i32 i) a) (\<lambda>buf. lift (map_option (\<lambda>(ss, ev, n). (ss, ev, n = 0)) (skynet_socket_sendbuffer_lowpriority ss buf)))"

definition ludp_send :: "os \<Rightarrow> int \<Rightarrow> bytes \<Rightarrow> send_arg \<Rightarrow> socket_server \<Rightarrow> (string, socket_server \<times> socket_event list \<times> bool) run" where
  "ludp_send os i address a ss =
     run_bind (get_send_buffer (to_i32 i) a) (\<lambda>buf. lift (map_option (\<lambda>(ss, ev, n). (ss, ev, n = 0)) (skynet_socket_udp_sendbuffer os address buf ss)))"

definition lsocket_connect :: "server \<Rightarrow> nat \<Rightarrow> bytes \<Rightarrow> int option \<Rightarrow> socket_server \<Rightarrow> (string, socket_server \<times> socket_event list \<times> int) run" where
  "lsocket_connect s ctx addr port ss =
     run_bind (address_port addr port) (\<lambda>(host, p).
       if p = 0 then err ''Invalid port'' else lift (skynet_socket_connect s ctx host p ss))"

text \<open>The result of a call that gives an id, which is an error of Lua when it is negative.\<close>

definition id_or_error :: "string \<Rightarrow> (socket_server \<times> socket_event list \<times> int) option \<Rightarrow> (string, socket_server \<times> socket_event list \<times> int) run" where
  "id_or_error text r = run_bind (lift r) (\<lambda>(ss, ev, i). if i < 0 then err text else ret (ss, ev, i))"

definition llisten :: "server \<Rightarrow> nat \<Rightarrow> os \<Rightarrow> socket_server \<Rightarrow> (string, socket_server \<times> socket_event list \<times> int) run" where
  "llisten s ctx os ss = id_or_error ''Listen error'' (skynet_socket_listen s ctx os ss)"

definition lsocket_close :: "server \<Rightarrow> nat \<Rightarrow> int \<Rightarrow> socket_server \<Rightarrow> socket_server option" where
  "lsocket_close s ctx i ss = skynet_socket_close s ctx (to_i32 i) ss"

definition lsocket_shutdown :: "server \<Rightarrow> nat \<Rightarrow> int \<Rightarrow> socket_server \<Rightarrow> socket_server option" where
  "lsocket_shutdown s ctx i ss = skynet_socket_shutdown s ctx (to_i32 i) ss"

definition lbind :: "server \<Rightarrow> nat \<Rightarrow> int \<Rightarrow> socket_server \<Rightarrow> (socket_server \<times> int) option" where
  "lbind s ctx fd ss = skynet_socket_bind s ctx (to_i32 fd) ss"

definition lstart :: "server \<Rightarrow> nat \<Rightarrow> int \<Rightarrow> socket_server \<Rightarrow> socket_server option" where
  "lstart s ctx i ss = skynet_socket_start s ctx (to_i32 i) ss"

definition lpause :: "server \<Rightarrow> nat \<Rightarrow> int \<Rightarrow> socket_server \<Rightarrow> socket_server option" where
  "lpause s ctx i ss = skynet_socket_pause s ctx (to_i32 i) ss"

definition lnodelay :: "int \<Rightarrow> socket_server \<Rightarrow> socket_server" where
  "lnodelay i ss = skynet_socket_nodelay (to_i32 i) ss"

definition ludp ::
  "server \<Rightarrow> nat \<Rightarrow> os \<Rightarrow> bytes option \<Rightarrow> int option \<Rightarrow> socket_server \<Rightarrow> (string, socket_server \<times> socket_event list \<times> int) run" where
  "ludp s ctx os addr port ss =
     (case addr of
        None \<Rightarrow> id_or_error ''udp init failed'' (skynet_socket_udp s ctx os None 0 ss)
      | Some a \<Rightarrow> run_bind (address_port a port) (\<lambda>(host, p). id_or_error ''udp init failed'' (skynet_socket_udp s ctx os (Some host) p ss)))"

definition ludp_connect :: "os \<Rightarrow> int \<Rightarrow> bytes \<Rightarrow> int option \<Rightarrow> socket_server \<Rightarrow> (string, socket_server) run" where
  "ludp_connect os i addr port ss =
     run_bind (address_port addr port) (\<lambda>_.
       let (ss, r) = skynet_socket_udp_connect os (to_i32 i) ss in if r \<noteq> 0 then err ''udp connect failed'' else ret ss)"

definition ludp_dial ::
  "server \<Rightarrow> nat \<Rightarrow> os \<Rightarrow> bytes \<Rightarrow> int option \<Rightarrow> socket_server \<Rightarrow> (string, socket_server \<times> socket_event list \<times> int) run" where
  "ludp_dial s ctx os addr port ss =
     run_bind (address_port addr port) (\<lambda>_. id_or_error ''udp dial host failed'' (skynet_socket_udp_dial s ctx os ss))"

definition ludp_listen ::
  "server \<Rightarrow> nat \<Rightarrow> os \<Rightarrow> bytes \<Rightarrow> int option \<Rightarrow> socket_server \<Rightarrow> (string, socket_server \<times> socket_event list \<times> int) run" where
  "ludp_listen s ctx os addr port ss =
     run_bind (address_port addr port) (\<lambda>(_, p). id_or_error ''udp listen host failed'' (skynet_socket_udp_listen s ctx os p ss))"

end
