(* ===== verification/LuaSocketProps.thy ===== *)
theory LuaSocketProps
  imports LuaSocket "HOL-Library.Multiset"
begin

text \<open>
  What is read from the buffers of \<open>LuaSocket\<close>: the bytes that were pushed, in order, however they were cut into blocks. No
  block is lost or freed twice, and the buffers of a service share the nodes of their pool without mixing them up.
\<close>

section \<open>The bytes of a buffer\<close>

definition node_fits :: "buffer_node \<Rightarrow> bool" where
  "node_fits b \<longleftrightarrow> 0 < bn_sz b \<and> bn_sz b \<le> int (length (bn_msg b))"

definition node_bytes :: "buffer_node \<Rightarrow> bytes" where
  "node_bytes b = take (nat (bn_sz b)) (bn_msg b)"

definition byte_stream :: "int \<Rightarrow> buffer_node list \<Rightarrow> bytes" where
  "byte_stream off bs = drop (nat off) (concat (map node_bytes bs))"

definition chain_ok :: "int \<Rightarrow> buffer_node list \<Rightarrow> bool" where
  "chain_ok off bs \<longleftrightarrow> list_all node_fits bs \<and> 0 \<le> off \<and> (case bs of [] \<Rightarrow> off = 0 | b # _ \<Rightarrow> off < bn_sz b)"

definition content :: "socket_buffer \<Rightarrow> bytes" where "content sb = byte_stream (sb_offset sb) (sb_nodes sb)"

definition sb_ok :: "socket_buffer \<Rightarrow> bool" where
  "sb_ok sb \<longleftrightarrow> chain_ok (sb_offset sb) (sb_nodes sb) \<and> sb_size sb = int (length (content sb))"

lemma length_node_bytes: "node_fits b \<Longrightarrow> int (length (node_bytes b)) = bn_sz b"
  by (auto simp: node_fits_def node_bytes_def min_def)

lemma byte_stream_simps: "byte_stream off [] = []" "byte_stream 0 bs = concat (map node_bytes bs)"
  by (simp_all add: byte_stream_def)

lemma byte_stream_Cons:
  assumes "node_fits b" "0 \<le> off" "off \<le> bn_sz b"
  shows "byte_stream off (b # bs) = drop (nat off) (node_bytes b) @ byte_stream 0 bs"
  using assms length_node_bytes [OF assms(1)] by (simp add: byte_stream_def)

lemma chain_ok_Cons: "chain_ok off (b # bs) \<longleftrightarrow> node_fits b \<and> list_all node_fits bs \<and> 0 \<le> off \<and> off < bn_sz b"
  by (auto simp: chain_ok_def)

lemma chain_ok_0: "list_all node_fits bs \<Longrightarrow> chain_ok 0 bs"
  by (auto simp: chain_ok_def node_fits_def split: list.split)

lemma peek_node:
  assumes "node_fits b" "0 \<le> off" "0 \<le> n" "off + n \<le> bn_sz b"
  shows "peek (bn_msg b) off n = Some (take (nat n) (drop (nat off) (node_bytes b)))"
proof -
  have "take (nat n) (drop (nat off) (node_bytes b)) = take (nat n) (drop (nat off) (bn_msg b))"
    using assms by (simp add: node_bytes_def drop_take min_def nat_diff_distrib [symmetric] flip: nat_add_distrib)
  then show ?thesis using assms by (simp add: peek_def node_fits_def)
qed

section \<open>Taking bytes\<close>

text \<open>The first \<open>k\<close> nodes go back to the pool, and their blocks are freed.\<close>

definition node_frees :: "buffer_node list \<Rightarrow> buffer_event list" where
  "node_frees bs = map (\<lambda>b. Sb_free (bn_msg b)) bs"

definition pops :: "buffers \<Rightarrow> buffers \<Rightarrow> bool" where
  "pops st st' \<longleftrightarrow>
     (case (st, st') of ((pool, sb, ev), (pool', sb', ev')) \<Rightarrow>
        \<exists>k. pool' = pool\<lparr>bp_free := rev (map bn_id (take k (sb_nodes sb))) @ bp_free pool\<rparr> \<and>
          sb_nodes sb' = drop k (sb_nodes sb) \<and> ev' = ev @ node_frees (take k (sb_nodes sb)) \<and> sb_size sb' = sb_size sb)"

lemma pops_refl: "sb_nodes sb' = sb_nodes sb \<Longrightarrow> sb_size sb' = sb_size sb \<Longrightarrow> pops (pool, sb, ev) (pool, sb', ev)"
  by (auto simp: pops_def node_frees_def intro!: exI [of _ 0])

lemma pops_node: "sb_nodes sb = b # bs \<Longrightarrow> pops (pool, sb, ev) (return_free_node b bs (pool, sb, ev))"
  by (auto simp: pops_def return_free_node_def node_frees_def intro!: exI [of _ 1])

lemma pops_trans: "pops a b \<Longrightarrow> pops b c \<Longrightarrow> pops a c"
proof -
  assume a: "pops a b" and b: "pops b c"
  obtain p1 s1 e1 p2 s2 e2 p3 s3 e3 where st: "a = (p1, s1, e1)" "b = (p2, s2, e2)" "c = (p3, s3, e3)" by (metis prod_cases3)
  obtain k l where k: "p2 = p1\<lparr>bp_free := rev (map bn_id (take k (sb_nodes s1))) @ bp_free p1\<rparr>" "sb_nodes s2 = drop k (sb_nodes s1)"
      "e2 = e1 @ node_frees (take k (sb_nodes s1))" "sb_size s2 = sb_size s1"
    and l: "p3 = p2\<lparr>bp_free := rev (map bn_id (take l (sb_nodes s2))) @ bp_free p2\<rparr>" "sb_nodes s3 = drop l (sb_nodes s2)"
      "e3 = e2 @ node_frees (take l (sb_nodes s2))" "sb_size s3 = sb_size s2"
    using a b by (auto simp: pops_def st)
  show ?thesis unfolding st pops_def prod.case
    by (rule exI [of _ "k + l"]) (use k l in \<open>simp add: take_add node_frees_def add.commute\<close>)
qed

definition taken :: "bytes \<Rightarrow> int \<Rightarrow> buffers \<Rightarrow> buffers \<Rightarrow> bool" where
  "taken s n st st' \<longleftrightarrow> pops st st' \<and> (case st' of (pool, sb, ev) \<Rightarrow> chain_ok (sb_offset sb) (sb_nodes sb) \<and> content sb = drop (nat n) s)"

lemma take_node_part:
  assumes "node_fits b" "0 \<le> off" "off + n \<le> bn_sz b" "m \<le> n"
  shows "(if m > 0 then peek (bn_msg b) off m else Some []) = Some (take (nat m) (drop (nat off) (node_bytes b)))"
  using peek_node [OF assms(1,2), of m] assms by auto

lemma taken_part:
  assumes "chain_ok (sb_offset sb) (sb_nodes sb)" "sb_nodes sb = b # bs" "0 \<le> n" "n < bn_sz b - sb_offset sb"
  shows "taken (content sb) n (pool, sb, ev) (pool, sb\<lparr>sb_offset := sb_offset sb + n\<rparr>, ev)"
proof -
  have "drop (nat n) (byte_stream (sb_offset sb) (b # bs)) = byte_stream (sb_offset sb + n) (b # bs)"
    using assms unfolding byte_stream_def drop_drop by (simp add: chain_ok_Cons nat_add_distrib add.commute del: drop_append)
  then show ?thesis using assms by (simp add: taken_def content_def chain_ok_Cons pops_refl)
qed

lemma taken_node:
  assumes "chain_ok (sb_offset sb) (sb_nodes sb)" "sb_nodes sb = b # bs" "n = bn_sz b - sb_offset sb"
  shows "taken (content sb) n (pool, sb, ev) (return_free_node b bs (pool, sb, ev))"
proof -
  have ok: "node_fits b" "list_all node_fits bs" "0 \<le> sb_offset sb" "sb_offset sb < bn_sz b" using assms(1,2) by (auto simp: chain_ok_Cons)
  have "content sb = drop (nat (sb_offset sb)) (node_bytes b) @ byte_stream 0 bs"
    using byte_stream_Cons [OF ok(1,3)] ok assms(2) by (simp add: content_def)
  moreover have "length (drop (nat (sb_offset sb)) (node_bytes b)) = nat n" using length_node_bytes [OF ok(1)] ok assms(3) by simp
  ultimately have "drop (nat n) (content sb) = byte_stream 0 bs" by simp
  then show ?thesis using pops_node [OF assms(2)] chain_ok_0 [OF ok(2)]
    by (simp add: taken_def return_free_node_def content_def)
qed

lemma taken_trans:
  assumes "taken s n st (pool, sb, ev)" "taken (content sb) m (pool, sb, ev) st'" "0 \<le> n" "0 \<le> m"
  shows "taken s (n + m) st st'"
  using assms by (auto simp: taken_def nat_add_distrib add.commute intro: pops_trans)

lemma pop_nodes_spec:
  "chain_ok (sb_offset sb) (sb_nodes sb) \<Longrightarrow> 0 < sz \<Longrightarrow> sz \<le> int (length (content sb)) \<Longrightarrow> 0 \<le> skip \<Longrightarrow>
    \<exists>st'. pop_nodes sz skip (pool, sb, ev) = Some (take (nat (sz - skip)) (content sb), st') \<and> taken (content sb) sz (pool, sb, ev) st'"
proof (induction "sb_nodes sb" arbitrary: sb sz pool ev)
  case Nil
  then show ?case by (simp add: content_def byte_stream_def)
next
  case (Cons b bs)
  note nodes = Cons.hyps(2) [symmetric]
  have ok: "node_fits b" "list_all node_fits bs" "0 \<le> sb_offset sb" "sb_offset sb < bn_sz b" using Cons.prems(1) nodes by (auto simp: chain_ok_Cons)
  define n where "n = bn_sz b - sb_offset sb"
  define d where "d = drop (nat (sb_offset sb)) (node_bytes b)"
  have c: "content sb = d @ byte_stream 0 bs" using byte_stream_Cons [OF ok(1,3)] ok nodes by (simp add: content_def d_def)
  have d: "length d = nat n" using length_node_bytes [OF ok(1)] ok by (simp add: d_def n_def)
  have n: "0 < n" using ok by (simp add: n_def)
  show ?case
  proof (cases "n \<ge> sz")
    case True
    have t: "(if sz > skip then peek (bn_msg b) (sb_offset sb) (sz - skip) else Some []) = Some (take (nat (sz - skip)) d)"
      using take_node_part [OF ok(1,3), of n "sz - skip"] True Cons.prems n by (simp add: n_def d_def)
    have e: "take (nat (sz - skip)) (content sb) = take (nat (sz - skip)) d"
      using True Cons.prems c d by (simp add: nat_le_iff)
    have "pop_nodes sz skip (pool, sb, ev) = Some (take (nat (sz - skip)) (content sb),
        if n = sz then return_free_node b bs (pool, sb, ev) else (pool, sb\<lparr>sb_offset := sb_offset sb + sz\<rparr>, ev))"
      using t True unfolding e by (subst pop_nodes.simps) (simp add: nodes Let_def n_def)
    moreover have "taken (content sb) sz (pool, sb, ev)
        (if n = sz then return_free_node b bs (pool, sb, ev) else (pool, sb\<lparr>sb_offset := sb_offset sb + sz\<rparr>, ev))"
      using taken_node [OF Cons.prems(1) nodes] taken_part [OF Cons.prems(1) nodes, of sz] True Cons.prems by (auto simp: n_def)
    ultimately show ?thesis by blast
  next
    case False
    obtain p1 s1 e1 where st: "return_free_node b bs (pool, sb, ev) = (p1, s1, e1)" by (metis prod_cases3)
    have s1: "sb_nodes s1 = bs" "content s1 = byte_stream 0 bs" using st by (auto simp: return_free_node_def content_def)
    have tk: "taken (content sb) n (pool, sb, ev) (p1, s1, e1)" using taken_node [OF Cons.prems(1) nodes n_def, of pool ev] unfolding st .
    have "chain_ok (sb_offset s1) (sb_nodes s1)" using tk by (simp add: taken_def)
    then obtain st' where st': "pop_nodes (sz - n) skip (p1, s1, e1) = Some (take (nat (sz - n - skip)) (content s1), st')"
      "taken (content s1) (sz - n) (p1, s1, e1) st'"
      using Cons.hyps(1) [of s1 "sz - n" p1 e1] False Cons.prems c d s1 n by auto
    have t: "(if sz - skip > 0 then peek (bn_msg b) (sb_offset sb) (min (sz - skip) n) else Some []) = Some (take (nat (sz - skip)) d)"
    proof -
      have "(if min (sz - skip) n > 0 then peek (bn_msg b) (sb_offset sb) (min (sz - skip) n) else Some []) =
          Some (take (nat (min (sz - skip) n)) d)"
        using take_node_part [OF ok(1,3), of n "min (sz - skip) n"] by (simp add: n_def d_def)
      moreover have "take (nat (min (sz - skip) n)) d = take (nat (sz - skip)) d" using d by (auto simp: min_def)
      ultimately show ?thesis using n by (auto split: if_splits)
    qed
    have e: "take (nat (sz - skip)) (content sb) = take (nat (sz - skip)) d @ take (nat (sz - n - skip)) (content s1)"
    proof -
      have "nat (sz - skip) - nat n = nat (sz - n - skip)" using n by arith
      then show ?thesis using c d s1 by simp
    qed
    have "pop_nodes sz skip (pool, sb, ev) = Some (take (nat (sz - skip)) (content sb), st')"
      using t st' False unfolding e by (subst pop_nodes.simps) (simp add: nodes Let_def st n_def [symmetric])
    moreover have "taken (content sb) sz (pool, sb, ev) st'"
      using taken_trans [OF tk st'(2)] n False by simp
    ultimately show ?thesis by blast
  qed
qed

lemma pop_lstring_spec:
  assumes "chain_ok (sb_offset sb) (sb_nodes sb)" "sb_nodes sb \<noteq> []" "0 \<le> skip" "skip \<le> sz" "sz \<le> int (length (content sb))"
  shows "\<exists>st'. pop_lstring sz skip (pool, sb, ev) = Some (take (nat (sz - skip)) (content sb), st') \<and> taken (content sb) sz (pool, sb, ev) st'"
proof -
  obtain b bs where nodes: "sb_nodes sb = b # bs" using assms(2) by (cases "sb_nodes sb") auto
  have ok: "node_fits b" "0 \<le> sb_offset sb" "sb_offset sb < bn_sz b" using assms(1) nodes by (auto simp: chain_ok_Cons)
  define n where "n = bn_sz b - sb_offset sb"
  define d where "d = drop (nat (sb_offset sb)) (node_bytes b)"
  have c: "content sb = d @ byte_stream 0 bs" using byte_stream_Cons [OF ok(1,2)] ok nodes by (simp add: content_def d_def)
  have d: "length d = nat n" using length_node_bytes [OF ok(1)] ok by (simp add: d_def n_def)
  have p: "peek (bn_msg b) (sb_offset sb) (sz - skip) = Some (take (nat (sz - skip)) (content sb))" if "sz \<le> n"
    using peek_node [OF ok(1,2), of "sz - skip"] assms that c d by (simp add: n_def d_def nat_le_iff)
  consider "sz < n" | "sz = n" | "n < sz" by linarith
  then show ?thesis
  proof cases
    case 1
    then show ?thesis using p taken_part [OF assms(1) nodes, of sz] assms by (simp add: pop_lstring_def nodes n_def)
  next
    case 2
    then show ?thesis using p taken_node [OF assms(1) nodes, of sz] by (simp add: pop_lstring_def nodes n_def)
  next
    case 3
    moreover have "0 < n" using ok by (simp add: n_def)
    ultimately show ?thesis using pop_nodes_spec [OF assms(1) _ assms(5,3)] by (simp add: pop_lstring_def nodes n_def)
  qed
qed

section \<open>Looking for a separator\<close>

definition first_sep :: "bytes \<Rightarrow> nat \<Rightarrow> bytes \<Rightarrow> nat option" where
  "first_sep sep n s = List.find (\<lambda>k. take (length sep) (drop k s) = sep) [0..<n]"

lemma find_map_Suc: "List.find P (map f xs) = map_option f (List.find (P \<circ> f) xs)"
  by (induction xs) auto

lemma first_sep_simps:
  "first_sep sep 0 s = None"
  "first_sep sep (Suc n) s = (if take (length sep) s = sep then Some 0 else map_option Suc (first_sep sep n (drop 1 s)))"
  by (simp_all add: first_sep_def upt_conv_Cons map_Suc_upt [symmetric] find_map_Suc comp_def del: upt_Suc)

lemma check_sep_spec:
  "list_all node_fits bs \<Longrightarrow> bs \<noteq> [] \<Longrightarrow> 0 \<le> from \<Longrightarrow> from < bn_sz (List.hd bs) \<Longrightarrow> length sep \<le> length (byte_stream from bs) \<Longrightarrow>
    check_sep bs from sep = Some (take (length sep) (byte_stream from bs) = sep)"
proof (induction bs arbitrary: "from" sep)
  case (Cons b bs)
  have ok: "node_fits b" "list_all node_fits bs" "0 \<le> from" "from < bn_sz b" using Cons.prems by auto
  define n where "n = bn_sz b - from"
  define d where "d = drop (nat from) (node_bytes b)"
  have c: "byte_stream from (b # bs) = d @ byte_stream 0 bs" using byte_stream_Cons [OF ok(1,3)] ok by (simp add: d_def)
  have d: "length d = nat n" using length_node_bytes [OF ok(1)] ok by (simp add: d_def n_def)
  have n: "0 < n" using ok by (simp add: n_def)
  show ?case
  proof (cases "n \<ge> int (length sep)")
    case True
    then have "peek (bn_msg b) from (int (length sep)) = Some (take (length sep) (byte_stream from (b # bs)))"
      using peek_node [OF ok(1,3), of "int (length sep)"] c d by (simp add: n_def d_def)
    then show ?thesis using True by (simp add: n_def)
  next
    case False
    have p: "peek (bn_msg b) from n = Some d" using peek_node [OF ok(1,3), of n] n d by (simp add: n_def d_def)
    have l: "length sep \<le> nat n + length (byte_stream 0 bs)" using Cons.prems(5) c d by simp
    then have "bs \<noteq> []" using False n by (auto simp: byte_stream_def)
    moreover from this have "0 < bn_sz (List.hd bs)" using ok(2) by (cases bs) (auto simp: node_fits_def)
    ultimately have ih: "check_sep bs 0 (drop (nat n) sep) = Some (take (length (drop (nat n) sep)) (byte_stream 0 bs) = drop (nat n) sep)"
      using Cons.IH [of 0 "drop (nat n) sep"] ok l by auto
    have "take (length sep) (d @ byte_stream 0 bs) = sep \<longleftrightarrow> d = take (nat n) sep \<and> take (length sep - nat n) (byte_stream 0 bs) = drop (nat n) sep"
    proof -
      have "take (length sep) (d @ byte_stream 0 bs) = d @ take (length sep - nat n) (byte_stream 0 bs)" using False n d by simp
      moreover have "sep = take (nat n) sep @ drop (nat n) sep" by simp
      moreover have "length d = length (take (nat n) sep)" using False n d by auto
      ultimately show ?thesis by (metis append_eq_append_conv)
    qed
    moreover have "check_sep (b # bs) from sep = (if d \<noteq> take (nat n) sep then Some False else check_sep bs 0 (drop (nat n) sep))"
      using p False n by (simp add: n_def [symmetric])
    ultimately show ?thesis using ih c by simp
  qed
qed simp

lemma readline_loop_spec:
  "list_all node_fits bs \<Longrightarrow> bs \<noteq> [] \<Longrightarrow> 0 \<le> from \<Longrightarrow> from < bn_sz (List.hd bs) \<Longrightarrow> n + length sep \<le> length (byte_stream from bs) + 1 \<Longrightarrow>
    readline_loop n i bs from (bn_sz (List.hd bs) - from) sep = Some (map_option (\<lambda>k. i + int k) (first_sep sep n (byte_stream from bs)))"
proof (induction n arbitrary: i bs "from")
  case (Suc n)
  obtain b bs' where bs: "bs = b # bs'" using Suc.prems(2) by (cases bs) auto
  have ok: "node_fits b" "list_all node_fits bs'" "0 \<le> from" "from < bn_sz b" using Suc.prems by (auto simp: bs)
  have ck: "check_sep bs from sep = Some (take (length sep) (byte_stream from bs) = sep)"
    by (rule check_sep_spec) (use Suc.prems in auto)
  show ?case
  proof (cases "take (length sep) (byte_stream from bs) = sep")
    case True
    then show ?thesis using ck by (simp add: first_sep_simps)
  next
    case False
    have sep: "sep \<noteq> []" using False by auto
    have next_char: "drop 1 (byte_stream from bs) = byte_stream (from + 1) bs" using ok(3) by (simp add: byte_stream_def nat_add_distrib)
    have next_Cons: "drop (Suc 0) (byte_stream from (b # bs')) = byte_stream (from + 1) (b # bs')" using next_char by (simp add: bs)
    have next_length: "length (byte_stream (from + 1) bs) = length (byte_stream from bs) - 1" unfolding next_char [symmetric] by simp
    have add: "map_option (\<lambda>k. i + 1 + int k) x = map_option (\<lambda>k. i + int k) (map_option Suc x)" for x
      by (cases x) auto
    show ?thesis
    proof (cases "bn_sz b - from - 1 = 0")
      case False
      then have "readline_loop n (i + 1) bs (from + 1) (bn_sz (List.hd bs) - (from + 1)) sep =
          Some (map_option (\<lambda>k. i + 1 + int k) (first_sep sep n (byte_stream (from + 1) bs)))"
        by (intro Suc.IH) (use Suc.prems ok next_length in \<open>auto simp: bs\<close>)
      then show ?thesis using ck \<open>take (length sep) (byte_stream from bs) \<noteq> sep\<close> False
        by (simp add: first_sep_simps next_Cons bs add diff_diff_eq)
    next
      case True
      have e: "byte_stream (from + 1) bs = byte_stream 0 bs'"
        using byte_stream_Cons [OF ok(1), of "from + 1" bs'] length_node_bytes [OF ok(1)] True ok by (simp add: bs)
      show ?thesis
      proof (cases bs')
        case Nil
        then have "length (byte_stream from bs) = 1"
          using byte_stream_Cons [OF ok(1,3), of bs'] length_node_bytes [OF ok(1)] True ok by (simp add: bs byte_stream_def)
        moreover have "0 < length sep" using sep by simp
        ultimately have "n = 0" using Suc.prems(5) by linarith
        then show ?thesis using ck \<open>take (length sep) (byte_stream from bs) \<noteq> sep\<close> by (cases "bn_sz b - from - 1 = 0") (simp_all add: first_sep_simps bs Nil)
      next
        case (Cons b2 bs2)
        have "0 < bn_sz b2" using ok(2) Cons by (simp add: node_fits_def)
        then have "readline_loop n (i + 1) bs' 0 (bn_sz (List.hd bs') - 0) sep =
            Some (map_option (\<lambda>k. i + 1 + int k) (first_sep sep n (byte_stream 0 bs')))"
          by (intro Suc.IH) (use Suc.prems ok e next_length Cons in auto)
        then show ?thesis using ck \<open>take (length sep) (byte_stream from bs) \<noteq> sep\<close> True
          by (simp add: first_sep_simps next_Cons [unfolded Cons] e [unfolded bs Cons] bs add Cons)
      qed
    qed
  qed
qed (simp add: first_sep_simps)

section \<open>One operation on one buffer\<close>

datatype buf_op = Push bytes | Pop int | Readline bytes | Check bytes | Readall | Clear

datatype buf_result = R_size int | R_pop "bytes option" int | R_line line_result | R_bytes bytes | R_none

definition lua_result :: "('a \<Rightarrow> 'b) \<Rightarrow> (string, 'a) run \<Rightarrow> 'b option" where
  "lua_result f r = (case r of Some (Inr x) \<Rightarrow> Some (f x) | _ \<Rightarrow> None)"

lemma lua_result_simps [simp]: "lua_result f (ret x) = Some (f x)" "lua_result f (lift (Some x)) = Some (f x)"
  by (simp_all add: lua_result_def ret_def lift_def)

fun buf_step :: "buf_op \<Rightarrow> buffer_pool \<Rightarrow> socket_buffer \<Rightarrow> (buffers \<times> buf_result) option" where
  "buf_step (Push msg) pool sb = lua_result (\<lambda>(st, n). (st, R_size n)) (lpushbuffer (Some sb) pool (Some msg) (int (length msg)))"
| "buf_step (Pop n) pool sb = lua_result (\<lambda>(st, t, k). (st, R_pop t k)) (lpopbuffer (Some sb) pool n)"
| "buf_step (Readline sep) pool sb = lua_result (\<lambda>(st, r). (st, R_line r)) (lreadline (Some sb) pool False sep)"
| "buf_step (Check sep) pool sb = lua_result (\<lambda>(st, r). (st, R_line r)) (lreadline (Some sb) pool True sep)"
| "buf_step Readall pool sb = lua_result (\<lambda>(st, t). (st, R_bytes t)) (lreadall (Some sb) pool)"
| "buf_step Clear pool sb = map_option (\<lambda>st. (st, R_none)) (lclearbuffer (Some sb) pool)"

text \<open>The same on the bytes that are waiting.\<close>

definition sep_at :: "bytes \<Rightarrow> bytes \<Rightarrow> nat option" where
  "sep_at sep s = (if s = [] then None else first_sep sep (length s + 1 - length sep) s)"

fun ref_step :: "buf_op \<Rightarrow> bytes \<Rightarrow> bytes \<times> buf_result" where
  "ref_step (Push msg) s = (s @ msg, R_size (int (length (s @ msg))))"
| "ref_step (Pop n) s =
     (if n = 0 \<or> int (length s) < n then (s, R_pop None (int (length s)))
      else (drop (nat n) s, R_pop (Some (take (nat n) s)) (int (length s) - n)))"
| "ref_step (Readline sep) s =
     (case sep_at sep s of None \<Rightarrow> (s, R_line No_line) | Some k \<Rightarrow> (drop (k + length sep) s, R_line (Line (take k s))))"
| "ref_step (Check sep) s = (s, R_line (if sep_at sep s = None then No_line else Has_line))"
| "ref_step Readall s = ([], R_bytes s)"
| "ref_step Clear s = ([], R_none)"

definition op_valid :: "buf_op \<Rightarrow> bool" where
  "op_valid x \<longleftrightarrow> (case x of Push msg \<Rightarrow> msg \<noteq> [] | Pop n \<Rightarrow> 0 \<le> n \<and> n < 2 ^ 31
     | Readline sep \<Rightarrow> length sep < 2 ^ 31 | Check sep \<Rightarrow> length sep < 2 ^ 31 | _ \<Rightarrow> True)"

text \<open>The bytes that wait in a buffer after an operation are fewer than 2 GB.\<close>

definition waiting_ok :: "bytes \<Rightarrow> bool" where "waiting_ok s \<longleftrightarrow> length s < 2 ^ 31"

lemma to_i32_length: "length s < 2 ^ 31 \<Longrightarrow> to_i32 (int (length s)) = int (length s)"
  by (rule to_i32_id) (simp add: is_i32_def)

definition pushed :: "buf_op \<Rightarrow> bytes list" where
  "pushed x = (case x of Push msg \<Rightarrow> [msg] | _ \<Rightarrow> [])"

definition freed :: "buffer_event list \<Rightarrow> bytes list" where
  "freed ev = concat (map (\<lambda>e. case e of Sb_free b \<Rightarrow> [b] | _ \<Rightarrow> []) ev)"

lemma freed_simps [simp]: "freed [] = []" "freed (a @ b) = freed a @ freed b" "freed (node_frees bs) = map bn_msg bs" "freed [Sb_log t] = []"
  by (induction bs) (simp_all add: freed_def node_frees_def)

definition buf_ids :: "socket_buffer \<Rightarrow> nat list" where "buf_ids sb = map bn_id (sb_nodes sb)"

definition pool_nodes :: "buffer_pool \<Rightarrow> nat" where "pool_nodes pool = sum_list (bp_chunks pool)"

text \<open>The nodes of the pool and of the buffer are those that were there and those of new chunks.\<close>

definition pool_keeps :: "buffer_pool \<Rightarrow> socket_buffer \<Rightarrow> bytes list \<Rightarrow> buffers \<Rightarrow> bool" where
  "pool_keeps pool sb new st' \<longleftrightarrow>
     (case st' of (pool', sb', ev) \<Rightarrow>
        pool_nodes pool \<le> pool_nodes pool' \<and>
        mset (bp_free pool') + mset (buf_ids sb') = mset (bp_free pool) + mset (buf_ids sb) + mset [pool_nodes pool..<pool_nodes pool'] \<and>
        freed ev @ map bn_msg (sb_nodes sb') = map bn_msg (sb_nodes sb) @ new)"

lemma pool_keeps_refl: "sb_nodes sb' = sb_nodes sb \<Longrightarrow> pool_keeps pool sb [] (pool, sb', [])"
  by (simp add: pool_keeps_def buf_ids_def)

lemma pops_keeps:
  assumes "pops (pool, sb, []) (pool', sb', ev)"
  shows "pool_keeps pool sb [] (pool', sb', ev)"
proof -
  obtain k where k: "pool' = pool\<lparr>bp_free := rev (map bn_id (take k (sb_nodes sb))) @ bp_free pool\<rparr>" "sb_nodes sb' = drop k (sb_nodes sb)"
    "ev = node_frees (take k (sb_nodes sb))" using assms by (auto simp: pops_def)
  have "mset (map bn_id (sb_nodes sb)) = mset (map bn_id (take k (sb_nodes sb))) + mset (map bn_id (drop k (sb_nodes sb)))"
    by (metis append_take_drop_id map_append mset_append)
  moreover have "map bn_msg (take k (sb_nodes sb)) @ map bn_msg (drop k (sb_nodes sb)) = map bn_msg (sb_nodes sb)"
    by (metis append_take_drop_id map_append)
  ultimately show ?thesis using k by (simp add: pool_keeps_def pool_nodes_def buf_ids_def del: mset_map)
qed

lemma pool_keeps_resize: "pool_keeps pool sb new (resize n st) \<longleftrightarrow> pool_keeps pool sb new st"
  by (simp add: pool_keeps_def resize_def buf_ids_def split: prod.splits)

definition op_sound :: "buffer_pool \<Rightarrow> socket_buffer \<Rightarrow> buf_op \<Rightarrow> bool" where
  "op_sound pool sb x \<longleftrightarrow>
     (\<exists>pool' sb' ev. buf_step x pool sb = Some ((pool', sb', ev), snd (ref_step x (content sb))) \<and>
        pool_keeps pool sb (pushed x) (pool', sb', ev) \<and> sb_ok sb' \<and> content sb' = fst (ref_step x (content sb)))"

lemma op_soundI:
  "buf_step x pool sb = Some ((pool', sb', ev), r) \<Longrightarrow> r = snd (ref_step x (content sb)) \<Longrightarrow>
    pool_keeps pool sb (pushed x) (pool', sb', ev) \<Longrightarrow> sb_ok sb' \<Longrightarrow> content sb' = fst (ref_step x (content sb)) \<Longrightarrow> op_sound pool sb x"
  by (auto simp: op_sound_def)

lemma taken_resize:
  assumes "taken (content sb) n (pool, sb, []) st'" "0 \<le> n" "n \<le> int (length (content sb))"
  obtains pool' sb' ev where "resize (int (length (content sb)) - n) st' = (pool', sb', ev)" "pool_keeps pool sb [] (pool', sb', ev)"
    "sb_ok sb'" "content sb' = drop (nat n) (content sb)"
proof -
  obtain p1 s1 e1 where st: "st' = (p1, s1, e1)" by (metis prod_cases3)
  have "pool_keeps pool sb [] (resize (int (length (content sb)) - n) st')"
    using pops_keeps assms(1) by (simp add: pool_keeps_resize st taken_def)
  then show thesis
    by (intro that) (use assms in \<open>auto simp: st resize_def taken_def sb_ok_def content_def\<close>)
qed

lemma take_node_spec:
  assumes "take_node pool = (i, pool', ev)"
  shows "pool_nodes pool \<le> pool_nodes pool' \<and> freed ev = [] \<and>
    add_mset i (mset (bp_free pool')) = mset (bp_free pool) + mset [pool_nodes pool..<pool_nodes pool']"
proof (cases "bp_free pool")
  case Nil
  define tsz where "tsz = (if bp_chunks pool = [] then 1 else 1 + length (bp_chunks pool))"
  define n :: nat where "n = 8 * 2 ^ (if tsz \<le> LARGE_PAGE_NODE - 3 then tsz else LARGE_PAGE_NODE - 3)"
  have n: "0 < n" by (simp add: n_def)
  have e: "i = pool_nodes pool" "bp_free pool' = [pool_nodes pool + 1..<pool_nodes pool + n]" "bp_chunks pool' = bp_chunks pool @ [n]" "freed ev = []"
    using assms n by (auto simp: take_node_def Nil Let_def lnewpool_def pool_nodes_def n_def [symmetric] tsz_def [symmetric] upt_conv_Cons split: if_splits)
  have "[pool_nodes pool..<pool_nodes pool + n] = pool_nodes pool # [pool_nodes pool + 1..<pool_nodes pool + n]"
    using n by (simp add: upt_conv_Cons)
  then show ?thesis using e by (simp add: Nil pool_nodes_def)
qed (use assms in \<open>auto simp: take_node_def pool_nodes_def\<close>)

lemma sb_ok_nodes: "sb_ok sb \<Longrightarrow> sb_nodes sb = [] \<longleftrightarrow> content sb = []"
  by (cases "sb_nodes sb") (auto simp: sb_ok_def content_def byte_stream_simps byte_stream_Cons chain_ok_Cons dest: length_node_bytes)

lemma push_ok:
  assumes ok: "sb_ok sb" and msg: "msg \<noteq> []" and fits: "waiting_ok (content sb @ msg)"
  shows "op_sound pool sb (Push msg)"
proof -
  obtain i pool' ev where t: "take_node pool = (i, pool', ev)" by (metis prod_cases3)
  let ?b = "\<lparr>bn_id = i, bn_msg = msg, bn_sz = int (length msg)\<rparr>"
  have b: "node_fits ?b" "node_bytes ?b = msg" using msg by (simp_all add: node_fits_def node_bytes_def)
  let ?sb = "sb\<lparr>sb_nodes := sb_nodes sb @ [?b], sb_size := sb_size sb + int (length msg)\<rparr>"
  have "nat (sb_offset sb) \<le> length (concat (map node_bytes (sb_nodes sb)))"
    using ok length_node_bytes by (cases "sb_nodes sb") (force simp: sb_ok_def chain_ok_def)+
  then have c: "content ?sb = content sb @ msg" by (simp add: content_def byte_stream_def b)
  have "chain_ok (sb_offset sb) (sb_nodes sb @ [?b])"
    using ok b(1) msg by (cases "sb_nodes sb") (auto simp: sb_ok_def chain_ok_def)
  then have "sb_ok ?sb" using ok c by (simp add: sb_ok_def)
  moreover have "to_i32 (int (length msg)) = int (length msg)" "is_i32 (sb_size sb + int (length msg))"
    using fits ok to_i32_length [of msg] by (auto simp: waiting_ok_def sb_ok_def is_i32_def)
  moreover have "pool_keeps pool sb [msg] (pool', ?sb, ev)"
    using take_node_spec [OF t] by (simp add: pool_keeps_def buf_ids_def)
  ultimately show ?thesis
    by (intro op_soundI [where pool' = pool' and sb' = ?sb and ev = ev])
      (use c ok in \<open>simp_all add: lpushbuffer_def Let_def t pushed_def sb_ok_def\<close>)
qed

lemma pop_ok:
  assumes ok: "sb_ok sb" and n: "0 \<le> n" and small: "n < 2 ^ 31"
  shows "op_sound pool sb (Pop n)"
proof -
  have i: "to_i32 n = n" using n small by (intro to_i32_id) (simp add: is_i32_def)
  show ?thesis
proof (cases "n = 0 \<or> int (length (content sb)) < n")
  case True
  then show ?thesis
    by (intro op_soundI [where pool' = pool and sb' = sb and ev = "[]"])
      (use ok in \<open>auto simp: lpopbuffer_def i sb_ok_def pushed_def pool_keeps_refl\<close>)
next
  case False
  have sz: "chain_ok (sb_offset sb) (sb_nodes sb)" "sb_size sb = int (length (content sb))" "sb_nodes sb \<noteq> []"
    using ok False n sb_ok_nodes [OF ok] by (auto simp: sb_ok_def)
  obtain st' where st': "pop_lstring n 0 (pool, sb, []) = Some (take (nat n) (content sb), st')" "taken (content sb) n (pool, sb, []) st'"
    using pop_lstring_spec [OF sz(1,3), of 0 n pool "[]"] n False by auto
  obtain pool' sb' ev where r: "resize (int (length (content sb)) - n) st' = (pool', sb', ev)" "pool_keeps pool sb [] (pool', sb', ev)"
    "sb_ok sb'" "content sb' = drop (nat n) (content sb)" using taken_resize [OF st'(2) n] False by auto
  then show ?thesis
    by (intro op_soundI [where pool' = pool' and sb' = sb' and ev = ev]) (use False sz st'(1) in \<open>auto simp: lpopbuffer_def i pushed_def\<close>)
qed
qed

lemma sep_result:
  assumes ok: "sb_ok sb" and ne: "sb_nodes sb = b # bs"
  shows "readline_loop (nat (sb_size sb - int (length sep) + 1)) 0 (b # bs) (sb_offset sb) (bn_sz b - sb_offset sb) sep =
    Some (map_option int (sep_at sep (content sb)))"
proof -
  have c: "content sb \<noteq> []" using sb_ok_nodes [OF ok] ne by simp
  have n: "nat (sb_size sb - int (length sep) + 1) = length (content sb) + 1 - length sep" using ok by (simp add: sb_ok_def)
  have ch: "node_fits b" "list_all node_fits bs" "0 \<le> sb_offset sb" "sb_offset sb < bn_sz b"
    using ok ne by (auto simp: sb_ok_def chain_ok_Cons)
  show ?thesis
  proof (cases "length sep \<le> length (content sb) + 1")
    case True
    then show ?thesis using readline_loop_spec [of "b # bs" "sb_offset sb" "length (content sb) + 1 - length sep" sep 0] ch c
      by (simp add: n sep_at_def content_def ne)
  next
    case False
    then show ?thesis by (simp add: n sep_at_def first_sep_simps)
  qed
qed

lemma first_sep_bound: "first_sep sep n s = Some k \<Longrightarrow> k < n"
  by (auto simp: first_sep_def find_Some_iff)

lemma readline_ok:
  assumes ok: "sb_ok sb" and small: "length sep < 2 ^ 31"
  shows "op_sound pool sb (Readline sep)" "op_sound pool sb (Check sep)"
proof -
  have quiet: "op_sound pool sb x" if "buf_step x pool sb = Some ((pool, sb, []), snd (ref_step x (content sb)))" "pushed x = []"
      "fst (ref_step x (content sb)) = content sb" for x
    by (rule op_soundI [OF that(1)]) (use that ok in \<open>auto simp: pool_keeps_refl\<close>)
  note i = to_i32_length [OF small]
  have both: "op_sound pool sb (Readline sep) \<and> op_sound pool sb (Check sep)"
  proof (cases "sb_nodes sb")
    case Nil
    then have "content sb = []" using sb_ok_nodes [OF ok] by simp
    then show ?thesis using Nil by (auto intro!: quiet simp: lreadline_def sep_at_def pushed_def)
  next
    case (Cons b bs)
    note r = sep_result [OF ok Cons, of sep]
    have c: "op_sound pool sb (Check sep)"
      by (rule quiet) (use r Cons in \<open>auto simp: lreadline_def i pushed_def Let_def split: option.split\<close>)
    show ?thesis
    proof (cases "sep_at sep (content sb)")
      case None
      then show ?thesis using r Cons c by (auto intro!: quiet simp: lreadline_def i pushed_def Let_def)
    next
      case (Some k)
      define n where "n = int k + int (length sep)"
      have k: "k + length sep \<le> length (content sb)"
        using first_sep_bound [of sep _ "content sb" k] Some by (force simp: sep_at_def split: if_splits)
      have sz: "chain_ok (sb_offset sb) (sb_nodes sb)" "sb_size sb = int (length (content sb))" "sb_nodes sb \<noteq> []"
        using ok Cons by (auto simp: sb_ok_def)
      have n: "int (length sep) \<le> n" "n \<le> int (length (content sb))" "0 \<le> n" "nat (n - int (length sep)) = k" "nat n = k + length sep"
        using k by (simp_all add: n_def)
      obtain st' where st': "pop_lstring n (int (length sep)) (pool, sb, []) = Some (take k (content sb), st')"
          "taken (content sb) n (pool, sb, []) st'"
        using pop_lstring_spec [OF sz(1,3), of "int (length sep)" n pool "[]"] n by auto
      obtain pool' sb' ev where e: "resize (int (length (content sb)) - n) st' = (pool', sb', ev)" "pool_keeps pool sb [] (pool', sb', ev)"
        "sb_ok sb'" "content sb' = drop (nat n) (content sb)" using taken_resize [OF st'(2) n(3,2)] by auto
      have "op_sound pool sb (Readline sep)"
        by (intro op_soundI [where pool' = pool' and sb' = sb' and ev = ev])
          (use Some Cons r sz st'(1) e n in \<open>auto simp: lreadline_def i pushed_def Let_def n_def [symmetric]\<close>)
      then show ?thesis using c by simp
    qed
  qed
  then show "op_sound pool sb (Readline sep)" "op_sound pool sb (Check sep)" by simp_all
qed

lemma readall_loop_spec:
  "chain_ok (sb_offset sb) bs \<Longrightarrow> sb_nodes sb = bs \<Longrightarrow>
    \<exists>pool' sb' ev'. readall_loop bs (pool, sb, ev) = Some (content sb, (pool', sb', ev')) \<and> clear_nodes bs (pool, sb, ev) = (pool', sb', ev') \<and>
      pops (pool, sb, ev) (pool', sb', ev') \<and> sb_nodes sb' = [] \<and> sb_offset sb' = 0"
proof (induction bs arbitrary: pool sb ev)
  case Nil
  then show ?case by (auto simp: content_def byte_stream_simps chain_ok_def pops_refl)
next
  case (Cons b bs)
  have ok: "node_fits b" "list_all node_fits bs" "0 \<le> sb_offset sb" "sb_offset sb < bn_sz b" using Cons.prems by (auto simp: chain_ok_Cons)
  obtain p1 s1 e1 where st: "return_free_node b bs (pool, sb, ev) = (p1, s1, e1)" by (metis prod_cases3)
  have s1: "sb_offset s1 = 0" "sb_nodes s1 = bs" using st by (auto simp: return_free_node_def)
  obtain pool' sb' ev' where ih: "readall_loop bs (p1, s1, e1) = Some (content s1, (pool', sb', ev'))" "clear_nodes bs (p1, s1, e1) = (pool', sb', ev')"
      "pops (p1, s1, e1) (pool', sb', ev')" "sb_nodes sb' = []" "sb_offset sb' = 0"
    using Cons.IH [of s1 p1 e1] s1 chain_ok_0 [OF ok(2)] by auto
  have "peek (bn_msg b) (sb_offset sb) (bn_sz b - sb_offset sb) = Some (drop (nat (sb_offset sb)) (node_bytes b))"
    using peek_node [OF ok(1,3), of "bn_sz b - sb_offset sb"] ok length_node_bytes [OF ok(1)] by simp
  moreover have "content sb = drop (nat (sb_offset sb)) (node_bytes b) @ content s1"
    using byte_stream_Cons [OF ok(1,3)] ok Cons.prems(2) s1 by (simp add: content_def)
  moreover have "pops (pool, sb, ev) (pool', sb', ev')"
    using pops_trans [OF pops_node [OF Cons.prems(2)] ih(3) [folded st]] .
  ultimately show ?case using ih by (auto simp: st)
qed

lemma readall_ok:
  assumes ok: "sb_ok sb"
  shows "op_sound pool sb Readall" "op_sound pool sb Clear"
proof -
  obtain pool' sb' ev where e: "readall_loop (sb_nodes sb) (pool, sb, []) = Some (content sb, (pool', sb', ev))"
      "clear_nodes (sb_nodes sb) (pool, sb, []) = (pool', sb', ev)" "pops (pool, sb, []) (pool', sb', ev)" "sb_nodes sb' = []" "sb_offset sb' = 0"
    using readall_loop_spec [of sb "sb_nodes sb" pool "[]"] ok by (auto simp: sb_ok_def)
  have k: "pool_keeps pool sb [] (pool', sb'\<lparr>sb_size := 0\<rparr>, ev)" using pops_keeps [OF e(3)] pool_keeps_resize [of pool sb "[]" 0 "(pool', sb', ev)"]
    by (simp add: resize_def)
  have o: "sb_ok (sb'\<lparr>sb_size := 0\<rparr>)" "content (sb'\<lparr>sb_size := 0\<rparr>) = []" using e(4,5) by (simp_all add: sb_ok_def content_def byte_stream_simps chain_ok_def)
  show "op_sound pool sb Readall" by (rule op_soundI [OF _ _ _ o(1)]) (use e k o in \<open>auto simp: lreadall_def resize_def pushed_def\<close>)
  show "op_sound pool sb Clear" by (rule op_soundI [OF _ _ _ o(1)]) (use e k o in \<open>auto simp: lclearbuffer_def resize_def pushed_def\<close>)
qed

lemma buf_step_ok: "sb_ok sb \<Longrightarrow> op_valid x \<Longrightarrow> waiting_ok (fst (ref_step x (content sb))) \<Longrightarrow> op_sound pool sb x"
  by (cases x) (auto simp: op_valid_def intro: push_ok pop_ok readline_ok readall_ok)

section \<open>The buffers of a service\<close>

text \<open>Each operation is on the buffer of one socket; the pool is shared. The events are those of each operation.\<close>

type_synonym service = "buffer_pool \<times> socket_buffer list"

fun service_run :: "(nat \<times> buf_op) list \<Rightarrow> service \<Rightarrow> (service \<times> (nat \<times> buffer_event list) list \<times> buf_result list) option" where
  "service_run [] s = Some (s, [], [])"
| "service_run ((i, x) # xs) (pool, sbs) =
     Option.bind (buf_step x pool (sbs ! i)) (\<lambda>((pool, sb, ev), r).
     map_option (\<lambda>(s, evs, rs). (s, (i, ev) # evs, r # rs)) (service_run xs (pool, sbs[i := sb])))"

fun ref_run :: "(nat \<times> buf_op) list \<Rightarrow> bytes list \<Rightarrow> bytes list \<times> buf_result list" where
  "ref_run [] ss = (ss, [])"
| "ref_run ((i, x) # xs) ss =
     (let (s, r) = ref_step x (ss ! i); (ss', rs) = ref_run xs (ss[i := s]) in (ss', r # rs))"

text \<open>No buffer of the run ever holds 2 GB.\<close>

fun small_waits :: "(nat \<times> buf_op) list \<Rightarrow> bytes list \<Rightarrow> bool" where
  "small_waits [] ss = True"
| "small_waits ((i, x) # xs) ss =
     (let s = fst (ref_step x (ss ! i)) in waiting_ok s \<and> small_waits xs (ss[i := s]))"

text \<open>That is so when no more than that is pushed in all.\<close>

lemma ref_step_length: "length (fst (ref_step x s)) \<le> length s + length (concat (pushed x))"
  by (cases x) (auto simp: pushed_def split: option.split)

lemma small_waits_total:
  "\<forall>s\<in>set ss. length s + length (concat (concat (map (\<lambda>(i, x). pushed x) xs))) < 2 ^ 31 \<Longrightarrow>
    list_all (\<lambda>(i, x). i < length ss) xs \<Longrightarrow> small_waits xs ss"
proof (induction xs ss rule: small_waits.induct)
  case (2 i x xs ss)
  let ?s = "fst (ref_step x (ss ! i))" and ?rest = "length (concat (concat (map (\<lambda>(i, x). pushed x) xs)))"
  have i: "ss ! i \<in> set ss" using 2(3) by simp
  have s: "length ?s + ?rest < 2 ^ 31" using 2(2) i ref_step_length [of x "ss ! i"] by fastforce
  have "\<forall>t\<in>set (ss[i := ?s]). length t + ?rest < 2 ^ 31"
    using 2(2) s set_update_subset_insert [of ss i ?s] by fastforce
  then show ?case using 2 s by (simp add: waiting_ok_def Let_def)
qed simp

definition freed_of :: "nat \<Rightarrow> (nat \<times> buffer_event list) list \<Rightarrow> bytes list" where
  "freed_of i evs = concat (map (\<lambda>(j, ev). if j = i then freed ev else []) evs)"

definition pushed_of :: "nat \<Rightarrow> (nat \<times> buf_op) list \<Rightarrow> bytes list" where
  "pushed_of i xs = concat (map (\<lambda>(j, x). if j = i then pushed x else []) xs)"

definition all_ids :: "service \<Rightarrow> nat multiset" where
  "all_ids s = mset (bp_free (fst s)) + mset (concat (map buf_ids (snd s)))"

lemma concat_update:
  "i < length xs \<Longrightarrow> mset (concat (map f (xs[i := x]))) + mset (f (xs ! i)) = mset (concat (map f xs)) + mset (f x)"
proof (induction xs arbitrary: i)
  case (Cons y xs)
  show ?case
  proof (cases i)
    case (Suc j)
    then have "mset (concat (map f (xs[j := x]))) + mset (f (xs ! j)) = mset (concat (map f xs)) + mset (f x)"
      using Cons by simp
    then show ?thesis using Suc by (simp add: add.assoc)
  qed (simp add: ac_simps)
qed simp

lemma all_ids_step:
  assumes "pool_keeps pool (sbs ! i) new (pool', sb', ev)" "i < length sbs" "all_ids (pool, sbs) = mset [0..<pool_nodes pool]"
  shows "all_ids (pool', sbs[i := sb']) = mset [0..<pool_nodes pool']"
proof -
  have k: "pool_nodes pool \<le> pool_nodes pool'"
    "mset (bp_free pool') + mset (buf_ids sb') = mset (bp_free pool) + mset (buf_ids (sbs ! i)) + mset [pool_nodes pool..<pool_nodes pool']"
    using assms(1) by (simp_all add: pool_keeps_def)
  let ?A = "mset (concat (map buf_ids (sbs[i := sb'])))"
  have "mset (bp_free pool') + ?A + mset (buf_ids (sbs ! i)) = mset (bp_free pool') + (mset (concat (map buf_ids sbs)) + mset (buf_ids sb'))"
    using concat_update [OF assms(2), of buf_ids sb'] by (simp only: add.assoc)
  also have "\<dots> = all_ids (pool, sbs) + mset [pool_nodes pool..<pool_nodes pool'] + mset (buf_ids (sbs ! i))"
    using k(2) by (simp add: all_ids_def ac_simps del: mset_upt mset_map)
  finally have "mset (bp_free pool') + ?A = mset [0..<pool_nodes pool] + mset [pool_nodes pool..<pool_nodes pool']"
    using assms(3) by (metis add_right_cancel)
  also have "\<dots> = mset [0..<pool_nodes pool']" using upt_add_eq_append [of 0 "pool_nodes pool" "pool_nodes pool' - pool_nodes pool"] k(1)
    by (simp only: mset_append [symmetric]) simp
  finally show ?thesis by (simp add: all_ids_def)
qed

lemma service_run_spec:
  assumes "\<forall>(i, x)\<in>set xs. i < length sbs \<and> op_valid x" "small_waits xs (map content sbs)" "list_all sb_ok sbs" "all_ids (pool, sbs) = mset [0..<pool_nodes pool]"
  shows "\<exists>pool' sbs' evs. service_run xs (pool, sbs) = Some ((pool', sbs'), evs, snd (ref_run xs (map content sbs))) \<and>
    map content sbs' = fst (ref_run xs (map content sbs)) \<and> all_ids (pool', sbs') = mset [0..<pool_nodes pool'] \<and> length sbs' = length sbs \<and>
    (\<forall>i<length sbs. freed_of i evs @ map bn_msg (sb_nodes (sbs' ! i)) = map bn_msg (sb_nodes (sbs ! i)) @ pushed_of i xs)"
  using assms
proof (induction xs arbitrary: pool sbs)
  case Nil
  then show ?case by (simp add: freed_of_def pushed_of_def)
next
  case (Cons a xs)
  obtain i x where a: "a = (i, x)" by (cases a)
  have i: "i < length sbs" "op_valid x" "sb_ok (sbs ! i)" "waiting_ok (fst (ref_step x (content (sbs ! i))))" using Cons.prems by (auto simp: a list_all_length Let_def)
  obtain p1 s1 ev where s: "buf_step x pool (sbs ! i) = Some ((p1, s1, ev), snd (ref_step x (content (sbs ! i))))"
      "pool_keeps pool (sbs ! i) (pushed x) (p1, s1, ev)" "sb_ok s1" "content s1 = fst (ref_step x (content (sbs ! i)))"
    using buf_step_ok [OF i(3,2,4), of pool] by (auto simp: op_sound_def)
  let ?sbs = "sbs[i := s1]"
  have m: "map content ?sbs = (map content sbs)[i := fst (ref_step x (content (sbs ! i)))]" using s(4) by (simp add: map_update)
  have sw: "small_waits xs (map content ?sbs)" using Cons.prems(2) i(1) by (simp add: a m Let_def)
  have "list_all sb_ok ?sbs" using Cons.prems(3) s(3) i(1) by (auto simp: list_all_length nth_list_update)
  from Cons.IH [OF _ sw this all_ids_step [OF s(2) i(1) Cons.prems(4)]] Cons.prems(1) obtain pool' sbs' evs where
    r: "service_run xs (p1, ?sbs) = Some ((pool', sbs'), evs, snd (ref_run xs (map content ?sbs)))"
      "map content sbs' = fst (ref_run xs (map content ?sbs))" "all_ids (pool', sbs') = mset [0..<pool_nodes pool']" "length sbs' = length sbs"
      "\<forall>j<length sbs. freed_of j evs @ map bn_msg (sb_nodes (sbs' ! j)) = map bn_msg (sb_nodes (?sbs ! j)) @ pushed_of j xs" by auto
  have f: "freed_of j ((i, ev) # evs) @ map bn_msg (sb_nodes (sbs' ! j)) = map bn_msg (sb_nodes (sbs ! j)) @ pushed_of j ((i, x) # xs)"
    if "j < length sbs" for j
    using r(5) that s(2) i(1) by (cases "j = i") (auto simp: freed_of_def pushed_of_def pool_keeps_def)
  show ?case unfolding a
    by (intro exI [of _ pool'] exI [of _ sbs'] exI [of _ "(i, ev) # evs"]) (use r s f i(1) in \<open>simp add: m Let_def split: prod.splits\<close>)
qed

text \<open>C16: For any sequence of pushes, reads by length, reads up to a separator, checks for one, reads of all and clears, on any
  number of sockets that share a pool, each operation returns exactly what it would return on the bytes that were pushed to its
  socket and not read yet, however they were cut into blocks; every block is freed once, in order, when its last byte has been read;
  and the nodes of the pool and of the buffers stay apart. Blocks are not empty, a length that is asked for is at least 0 and, like
  the length of a separator, below \<open>2 ^ 31\<close>, and no socket ever has \<open>2 ^ 31\<close> bytes waiting: these are \<open>int\<close> in the code.\<close>

theorem lua_socket_streams:
  assumes "\<forall>(i, x)\<in>set xs. i < n \<and> op_valid x" "small_waits xs (replicate n [])"
  shows "\<exists>pool sbs evs. service_run xs (\<lparr>bp_chunks = [], bp_free = []\<rparr>, replicate n lnewbuffer) =
      Some ((pool, sbs), evs, snd (ref_run xs (replicate n []))) \<and>
    map content sbs = fst (ref_run xs (replicate n [])) \<and> distinct (bp_free pool @ concat (map buf_ids sbs)) \<and>
    (\<forall>i<n. freed_of i evs @ map bn_msg (sb_nodes (sbs ! i)) = pushed_of i xs)"
proof -
  have new: "content lnewbuffer = []" "sb_ok lnewbuffer" "buf_ids lnewbuffer = []"
    by (simp_all add: lnewbuffer_def content_def byte_stream_simps sb_ok_def chain_ok_def buf_ids_def)
  have "all_ids (\<lparr>bp_chunks = [], bp_free = []\<rparr>, replicate n lnewbuffer) = mset [0..<pool_nodes \<lparr>bp_chunks = [], bp_free = []\<rparr>]"
    by (simp add: all_ids_def pool_nodes_def new)
  from service_run_spec [OF _ _ _ this, of xs] have "\<exists>pool sbs evs.
      service_run xs (\<lparr>bp_chunks = [], bp_free = []\<rparr>, replicate n lnewbuffer) = Some ((pool, sbs), evs, snd (ref_run xs (map content (replicate n lnewbuffer)))) \<and>
      map content sbs = fst (ref_run xs (map content (replicate n lnewbuffer))) \<and> all_ids (pool, sbs) = mset [0..<pool_nodes pool] \<and>
      (\<forall>i<n. freed_of i evs @ map bn_msg (sb_nodes (sbs ! i)) = map bn_msg (sb_nodes (replicate n lnewbuffer ! i)) @ pushed_of i xs)"
    using assms new(1,2) by (auto simp: list_all_iff)
  then obtain pool sbs evs where
    r: "service_run xs (\<lparr>bp_chunks = [], bp_free = []\<rparr>, replicate n lnewbuffer) = Some ((pool, sbs), evs, snd (ref_run xs (replicate n [])))"
      "map content sbs = fst (ref_run xs (replicate n []))" "all_ids (pool, sbs) = mset [0..<pool_nodes pool]"
      "\<forall>i<n. freed_of i evs @ map bn_msg (sb_nodes (sbs ! i)) = pushed_of i xs"
    unfolding map_replicate new(1) by (auto simp: lnewbuffer_def)
  have "distinct (bp_free pool @ concat (map buf_ids sbs))"
    using r(3) mset_eq_imp_distinct_iff [of "bp_free pool @ concat (map buf_ids sbs)" "[0..<pool_nodes pool]"] by (simp add: all_ids_def)
  then show ?thesis using r by blast
qed

definition socket_ops :: "(nat \<times> buf_op) list" where
  "socket_ops = [(0, Push [1, 13]), (1, Push [9]), (0, Push [10, 2, 3]), (0, Readline [13, 10]), (1, Readline [13]), (0, Pop 1), (0, Check [4]),
     (1, Readall), (0, Clear)]"

theorem lua_socket_streams_witness:
  "\<exists>pool sbs evs. service_run socket_ops (\<lparr>bp_chunks = [], bp_free = []\<rparr>, replicate 2 lnewbuffer) =
      Some ((pool, sbs), evs, [R_size 2, R_size 1, R_size 5, R_line (Line [1]), R_line No_line, R_pop (Some [2]) 1, R_line No_line, R_bytes [9], R_none])"
proof -
  have "snd (ref_run socket_ops (replicate 2 [])) =
      [R_size 2, R_size 1, R_size 5, R_line (Line [1]), R_line No_line, R_pop (Some [2]) 1, R_line No_line, R_bytes [9], R_none]"
    by code_simp
  moreover have "small_waits socket_ops (replicate 2 [])"
    by (rule small_waits_total) (simp_all add: socket_ops_def pushed_def)
  moreover have "\<forall>(i, x)\<in>set socket_ops. i < 2 \<and> op_valid x" by (simp add: socket_ops_def op_valid_def)
  ultimately show ?thesis using lua_socket_streams [of socket_ops 2] by metis
qed

section \<open>Faults\<close>

text \<open>C0: An address with a closing bracket in front of the opening one makes the copy of the host start with a negative length.\<close>

theorem address_port_fault:
  assumes "93 \<notin> set a" "91 \<notin> set a" "91 \<notin> set b"
  shows "address_port (a @ [93] @ b @ [91] @ c) None = None"
proof -
  have "strchr (a @ [93] @ b @ [91] @ c) 91 = Some (length a + 1 + length b)" "strchr (a @ [93] @ b @ [91] @ c) 93 = Some (length a)"
    using assms by (auto simp: strchr_def takeWhile_append)
  then show ?thesis by (simp add: address_port_def peek_def lift_def)
qed

text \<open>A negative number of bytes is asked for, and taken as a very large one.\<close>

lemma lpopbuffer_negative:
  assumes "sb_ok sb" "sb_nodes sb \<noteq> []" "to_i32 sz < 0"
  shows "lpopbuffer (Some sb) pool sz = None"
proof -
  obtain b bs where n: "sb_nodes sb = b # bs" using assms(2) by (cases "sb_nodes sb") auto
  have "to_i32 sz < bn_sz b - sb_offset sb" "0 \<le> sb_size sb" using assms n by (auto simp: sb_ok_def chain_ok_Cons)
  then show ?thesis using assms n by (simp add: lpopbuffer_def Let_def pop_lstring_def peek_def lift_def)
qed

lemma lpopbuffer_wraps: "lpopbuffer (Some sb) pool (2 ^ 32 + n) = lpopbuffer (Some sb) pool n"
proof -
  have "2 ^ 32 + n + 2 ^ 31 = (n + 2 ^ 31) + 2 ^ 32" by simp
  then have "to_i32 (2 ^ 32 + n) = to_i32 n" unfolding to_i32_def by (simp only: mod_add_self2)
  then show ?thesis by (simp add: lpopbuffer_def)
qed

end
