(* ===== verification/HarborBlocks.thy ===== *)
theory HarborBlocks
  imports HarborProps
begin

text \<open>
  No message block of \<open>service-src/service_harbor.c\<close> is lost or freed twice, in any step of the service: also when data
  of a socket completes messages, ends a handshake and flushes what has waited for it, or makes the service close the connection.
\<close>

section \<open>The state of a slave\<close>

text \<open>What is known of a slave in any state: where it is in a header or a content, and that it has a socket just while it is connected.\<close>

definition slave_ok :: "slave \<Rightarrow> bool" where
  "slave_ok s \<longleftrightarrow> length (sl_size s) = 4 \<and> (sl_fd s = 0 \<longleftrightarrow> sl_status s = STATUS_WAIT \<or> sl_status s = STATUS_DOWN) \<and>
     (if sl_status s = STATUS_CONTENT then sl_size s ! 0 = 0 \<and> sl_length s = be_len (sl_size s) \<and>
        length (sl_recv_buffer s) = sl_length s \<and> sl_read s < sl_length s
      else sl_read s < 4)"

definition slaves_ok :: "harbor \<Rightarrow> bool" where
  "slaves_ok h \<longleftrightarrow> (\<forall>s\<in>set (hb_s h). slave_ok s)"

definition harbor_wf :: "harbor \<Rightarrow> bool" where
  "harbor_wf h \<longleftrightarrow> harbor_ok h \<and> slaves_ok h"

lemma slave_ok_queue [simp]: "slave_ok (s\<lparr>sl_queue := q\<rparr>) = slave_ok s"
  by (simp add: slave_ok_def)

lemma slaves_ok_at: "slaves_ok h \<Longrightarrow> i < length (hb_s h) \<Longrightarrow> slave_ok (slave_at h i)"
  by (simp add: slaves_ok_def slave_at_def)

lemma slaves_ok_set_slave: "slaves_ok h \<Longrightarrow> slave_ok s \<Longrightarrow> slaves_ok (set_slave i s h)"
  unfolding slaves_ok_def set_slave_def using set_update_subset_insert by fastforce

lemma slaves_ok_other [simp]: "slaves_ok (set_node p kv h) = slaves_ok h" "find_node h name = (h1, p) \<Longrightarrow> slaves_ok h1 = slaves_ok h"
  by (auto simp: slaves_ok_def set_node_def find_node_def split: option.splits prod.splits)

lemma slaves_ok_send_handle:
  assumes "slaves_ok h" "length (hb_s h) = REMOTE_MAX" "remote_send_handle h source dest type session msg = Some (h', ev, t)"
  shows "slaves_ok h'"
proof -
  have i: "unat (drop_bit HANDLE_REMOTE_SHIFT dest) < length (hb_s h)" using node_index assms(2) by (simp add: HANDLE_REMOTE_SHIFT_def)
  show ?thesis using assms(1,3) slaves_ok_at [OF assms(1) i]
    by (auto simp: remote_send_handle_def Let_def intro!: slaves_ok_set_slave split: if_splits)
qed

lemma slaves_ok_send_name:
  assumes "slaves_ok h" "length (hb_s h) = REMOTE_MAX" "remote_send_name h source name type session msg = Some (h', ev, t)"
  shows "slaves_ok h'"
proof -
  obtain h1 p where f: "find_node h name = (h1, p)" by (meson surj_pair)
  then have "slaves_ok h1" "length (hb_s h1) = REMOTE_MAX" using assms(1,2) by (auto simp: find_node_def split: option.splits prod.splits)
  then show ?thesis using assms(3) slaves_ok_send_handle [of h1]
    by (auto simp: remote_send_name_def f Let_def split: if_splits)
qed

lemma slaves_ok_dispatch_name:
  assumes "slaves_ok h" "length (hb_s h) = REMOTE_MAX" "dispatch_name_queue h p = Some (h', ev)"
  shows "slaves_ok h'"
proof -
  have i: "unat (drop_bit HANDLE_REMOTE_SHIFT d) < length (hb_s h)" for d :: u32 using node_index assms(2) by (simp add: HANDLE_REMOTE_SHIFT_def)
  have s: "slave_ok ((slave_at h (unat (drop_bit HANDLE_REMOTE_SHIFT d)))\<lparr>sl_queue := q\<rparr>)" for d :: u32 and q
    using slaves_ok_at [OF assms(1) i] by simp
  show ?thesis using assms(1,3)
    by (auto simp: dispatch_name_queue_def Let_def intro!: slaves_ok_set_slave s split: if_splits Option.bind_splits option.splits)
qed

lemma slaves_ok_update_name:
  assumes "slaves_ok h" "length (hb_s h) = REMOTE_MAX" "update_name h name handle = Some (h', ev)"
  shows "slaves_ok h'"
proof -
  obtain h1 p where f: "find_node h name = (h1, p)" by (meson surj_pair)
  define h2 where "h2 = set_node p ((node_at h1 p)\<lparr>kv_value := handle\<rparr>) h1"
  have h2: "slaves_ok h2" "length (hb_s h2) = REMOTE_MAX"
    using f assms(1,2) by (auto simp: h2_def find_node_def set_node_def slaves_ok_def split: option.splits prod.splits)
  show ?thesis using assms(3) h2 slaves_ok_dispatch_name [OF h2, of p]
    by (auto simp: update_name_def f Let_def h2_def [symmetric] after_def split: if_splits Option.bind_splits)
qed

lemma slaves_ok_command:
  assumes "harbor_wf h" "harbor_command h msg source = Some (h', ev)"
  shows "slaves_ok h'"
proof -
  have ok: "slaves_ok h" "length (hb_s h) = REMOTE_MAX" "harbor_ok h" using assms(1) by (simp_all add: harbor_wf_def harbor_ok_def)
  consider "char0 msg = 78" | "char0 msg \<noteq> 78" "char0 msg = 83 \<or> char0 msg = 65" | "char0 msg \<noteq> 78" "\<not> (char0 msg = 83 \<or> char0 msg = 65)" by blast
  then show ?thesis
  proof cases
    case 1
    then show ?thesis using assms(2) ok slaves_ok_update_name [OF ok(1,2)] by (auto simp: harbor_command_def Let_def split: if_splits)
  next
    case 3
    then show ?thesis using assms(2) ok by (auto simp: harbor_command_def Let_def split: if_splits)
  next
    case 2
    define b where "b = takeWhile (\<lambda>c. c \<noteq> 0) (drop 2 msg)"
    obtain fd j where fj: "scan_pair b = (fd, j)" by (cases "scan_pair b") auto
    show ?thesis
    proof (cases "int (length msg) - 2 < 0 \<or> (fd = 0 \<or> j \<le> 0 \<or> j \<ge> int REMOTE_MAX) \<or> sl_fd (slave_at h (nat j)) \<noteq> 0")
      case True
      then show ?thesis using assms(2) 2 ok(1) by (auto simp: harbor_command_def Let_def b_def [symmetric] fj split: if_splits)
    next
      case False
      define st where "st = (if char0 msg = 83 then STATUS_HANDSHAKE else STATUS_HEADER)"
      define s where "s = (slave_at h (nat j))\<lparr>sl_fd := fd, sl_status := st\<rparr>"
      define h2 where "h2 = set_slave (nat j) s h"
      have j: "nat j < length (hb_s h)" using False ok(2) by (auto simp: nat_less_iff)
      have s: "slave_ok s" using slaves_ok_at [OF ok(1) j] False by (auto simp: s_def st_def slave_ok_def)
      have s2: "slaves_ok h2" "slave_at h2 (nat j) = s" using slaves_ok_set_slave [OF ok(1) s] j by (simp_all add: h2_def)
      have "slaves_ok h3" if "dispatch_slave_queue h2 (nat j) = Some (h3, ev3)" for h3 ev3
        using that s2 s by (auto simp: dispatch_slave_queue_def Let_def intro!: slaves_ok_set_slave split: if_splits Option.bind_splits option.splits)
      then show ?thesis using assms(2) 2 False s2 j
        by (auto simp: harbor_command_def Let_def b_def [symmetric] fj h2_def s_def st_def split: if_splits)
    qed
  qed
qed

section \<open>What arrives\<close>

text \<open>
  The contents that a stream of bytes completes, up to the first header of 16 MB or more, for which the connection is closed. A
  service gets the content without the cookie at its end.
\<close>

definition received_packets :: "bytes \<Rightarrow> bytes list" where
  "received_packets r = takeWhile (\<lambda>p. length p < 2 ^ 24) (fst (rx_frames r))"

definition arrived :: "bytes \<Rightarrow> bytes multiset" where
  "arrived r = mset (map (\<lambda>p. take (length p - HEADER_COOKIE_LENGTH) p) (received_packets r))"

text \<open>Each has room for its cookie.\<close>

definition honest :: "bytes \<Rightarrow> bool" where
  "honest r \<longleftrightarrow> (\<forall>p\<in>set (received_packets r). HEADER_COOKIE_LENGTH \<le> length p)"

text \<open>The stream that data for a slave continues; none if the data is not read.\<close>

definition slave_stream :: "harbor \<Rightarrow> nat \<Rightarrow> bytes \<Rightarrow> bytes" where
  "slave_stream h i data =
     (let s = slave_at h i in
      case sl_status s of
        STATUS_HANDSHAKE \<Rightarrow>
          (case data of [] \<Rightarrow> [] | b # rest \<Rightarrow> if uint b = int i then rx_pending s @ rest else [])
      | STATUS_HEADER \<Rightarrow> rx_pending s @ data
      | STATUS_CONTENT \<Rightarrow> rx_pending s @ data
      | _ \<Rightarrow> [])"

lemma received_short: "length r < 4 \<Longrightarrow> received_packets r = []"
  by (simp add: received_packets_def frames_short)

lemma be_len_first:
  assumes "b ! 0 \<noteq> 0"
  shows "2 ^ 24 \<le> be_len b"
proof -
  have "uint (b ! 0) \<noteq> 0" using assms by (simp add: uint_0_iff)
  then have "1 \<le> uint (b ! 0)" using uint_ge_0 [of "b ! 0"] by linarith
  then have "2 ^ 24 \<le> uint (b ! 0) * 2 ^ 24" by simp
  moreover have "0 \<le> uint (b ! 1) * 2 ^ 16" "0 \<le> uint (b ! 2) * 2 ^ 8" "0 \<le> uint (b ! 3)" by simp_all
  ultimately have "2 ^ 24 \<le> uint (b ! 0) * 2 ^ 24 + uint (b ! 1) * 2 ^ 16 + uint (b ! 2) * 2 ^ 8 + uint (b ! 3)" by linarith
  then show ?thesis by (simp add: be_len_def le_nat_iff)
qed

lemma be_len_small: "b ! 0 = 0 \<Longrightarrow> be_len b < 2 ^ 24" "b ! 0 = 0 \<Longrightarrow> be_len b = nat (uint (b ! 1) * 2 ^ 16 + uint (b ! 2) * 2 ^ 8 + uint (b ! 3))"
proof -
  have "uint (b ! k) < 2 ^ 8" for k using uint_bounded [of "b ! k"] by simp
  from this [of 1] this [of 2] this [of 3]
  have "uint (b ! 1) * 2 ^ 16 + uint (b ! 2) * 2 ^ 8 + uint (b ! 3) < 2 ^ 24" by simp
  then show "b ! 0 = 0 \<Longrightarrow> be_len b < 2 ^ 24" by (simp add: be_len_def nat_less_iff)
  show "b ! 0 = 0 \<Longrightarrow> be_len b = nat (uint (b ! 1) * 2 ^ 16 + uint (b ! 2) * 2 ^ 8 + uint (b ! 3))" by (simp add: be_len_def)
qed

lemma received_too_long:
  assumes "length hdr = 4" "hdr ! 0 \<noteq> 0"
  shows "received_packets (hdr @ r) = []"
proof (cases "length r < be_len hdr")
  case True
  then show ?thesis using frames_wait [of 4 "hdr @ r" be_len] assms(1) by (simp add: received_packets_def)
next
  case False
  have l: "length (take (be_len hdr) r) = be_len hdr" using False by simp
  have "fst (rx_frames (hdr @ take (be_len hdr) r @ drop (be_len hdr) r)) = take (be_len hdr) r # fst (rx_frames (drop (be_len hdr) r))"
    using frames_packet [of 4 hdr "take (be_len hdr) r" be_len "drop (be_len hdr) r"] assms(1) l by simp
  then show ?thesis using be_len_first [OF assms(2)] l by (simp add: received_packets_def)
qed

lemma received_wait: "length hdr = 4 \<Longrightarrow> length r < be_len hdr \<Longrightarrow> received_packets (hdr @ r) = []"
  using frames_wait [of 4 "hdr @ r" be_len] by (simp add: received_packets_def)

lemma received_packet:
  assumes "length hdr = 4" "hdr ! 0 = 0" "length p = be_len hdr"
  shows "received_packets (hdr @ p @ r) = p # received_packets r"
  using frames_packet [of 4 hdr p be_len r] assms be_len_small(1) [OF assms(2)] by (simp add: received_packets_def)

lemma arrived_packet:
  "length hdr = 4 \<Longrightarrow> hdr ! 0 = 0 \<Longrightarrow> length p = be_len hdr \<Longrightarrow>
    arrived (hdr @ p @ r) = add_mset (take (length p - HEADER_COOKIE_LENGTH) p) (arrived r) \<and>
    (honest (hdr @ p @ r) \<longleftrightarrow> HEADER_COOKIE_LENGTH \<le> length p \<and> honest r)"
  by (simp add: arrived_def honest_def received_packet)

lemma arrived_none: "received_packets r = [] \<Longrightarrow> arrived r = {#}"
  by (simp add: arrived_def)

lemma given_deliver: "HEADER_COOKIE_LENGTH \<le> length p \<Longrightarrow> given (deliver alive h p) = {#take (length p - HEADER_COOKIE_LENGTH) p#}"
  using forward_deliver [of p alive h]
  by (auto simp: forward_local_messsage_def HEADER_COOKIE_LENGTH_def peek_def Let_def PTYPE_ERROR_def PTYPE_TAG_DONTCOPY_def simp del: tag_dontcopy
      dest!: sym [of "_ # _"]) (simp_all add: PTYPE_TAG_DONTCOPY_def [symmetric])

section \<open>One turn of the loop\<close>

definition turn_keeps :: "nat \<Rightarrow> harbor \<Rightarrow> bytes \<Rightarrow> nat \<Rightarrow> data_result \<Rightarrow> bool" where
  "turn_keeps i h r n res \<longleftrightarrow>
     (\<exists>h' ev rest. res = Some (h', ev, rest) \<and> harbor_wf h' \<and>
        (case rest of
           None \<Rightarrow> owned h' + given ev = owned h + arrived r
         | Some b \<Rightarrow> length b < n \<and> sl_status (slave_at h' i) = STATUS_HEADER \<and> honest (slave_stream h' i b) \<and>
             owned h' + given ev + arrived (slave_stream h' i b) = owned h + arrived r))"

lemma turn_keeps_done:
  "res = Some (h', ev, None) \<Longrightarrow> harbor_wf h' \<Longrightarrow> owned h' + given ev = owned h + arrived r \<Longrightarrow> turn_keeps i h r n res"
  by (simp add: turn_keeps_def)

lemma turn_keeps_more:
  "res = Some (h', ev, Some b) \<Longrightarrow> harbor_wf h' \<Longrightarrow> length b < n \<Longrightarrow> sl_status (slave_at h' i) = STATUS_HEADER \<Longrightarrow>
    honest (slave_stream h' i b) \<Longrightarrow> owned h' + given ev + arrived (slave_stream h' i b) = owned h + arrived r \<Longrightarrow> turn_keeps i h r n res"
  by (simp add: turn_keeps_def)

lemma turn_keeps_mono: "turn_keeps i h r n res \<Longrightarrow> n \<le> n' \<Longrightarrow> turn_keeps i h r n' res"
  unfolding turn_keeps_def by (fastforce split: option.splits)

lemma turn_keeps_from: "owned h' = owned h \<Longrightarrow> turn_keeps i h' r n res = turn_keeps i h r n res"
  unfolding turn_keeps_def by (erule ssubst) (rule refl)

text \<open>A slave that is changed but for its queue.\<close>

lemma harbor_wf_slave:
  assumes "harbor_wf h" "i < REMOTE_MAX" "slave_ok s" "sl_queue s = sl_queue (slave_at h i)"
  shows "harbor_wf (set_slave i s h)" "owned (set_slave i s h) = owned h" "slave_at (set_slave i s h) i = s"
proof -
  have ok: "harbor_ok h" "slaves_ok h" using assms(1) by (simp_all add: harbor_wf_def)
  have l: "q_ok (sl_queue (slave_at h i))" "i < length (hb_s h)" using harbor_ok_slave [OF ok(1) assms(2)] by auto
  show "harbor_wf (set_slave i s h)"
    using harbor_ok_set_slave [OF ok(1), of s i] slaves_ok_set_slave [OF ok(2) assms(3), of i] l assms(4) by (simp add: harbor_wf_def)
  show "owned (set_slave i s h) = owned h" using owned_set_slave [OF l(2), of s] assms(4) by simp
  show "slave_at (set_slave i s h) i = s" using l(2) by simp
qed

lemma harbor_wf_at:
  assumes "harbor_wf h" "i < REMOTE_MAX"
  shows "slave_ok (slave_at h i)" "q_ok (sl_queue (slave_at h i))" "i < length (hb_s h)"
  using assms slaves_ok_at harbor_ok_slave by (auto simp: harbor_wf_def)

lemma close_keeps:
  assumes wf: "harbor_wf h" and i: "i < REMOTE_MAX" and rd: "sl_read (slave_at h i) < 4"
  shows "\<exists>h' ev. close_harbor h i = Some (h', ev) \<and> harbor_wf h' \<and> owned h' + given ev = owned h"
proof -
  define s where "s = slave_at h i"
  note a = harbor_wf_at [OF wf i]
  let ?s = "s\<lparr>sl_status := STATUS_DOWN, sl_fd := 0, sl_queue := None\<rparr>"
  have "slave_ok ?s" using a(1) rd by (simp add: slave_ok_def s_def split: if_splits)
  then have "harbor_wf (set_slave i ?s h)"
    using wf slaves_ok_set_slave [of h ?s i] harbor_ok_set_slave [of h ?s i] by (simp add: harbor_wf_def)
  moreover have "owned (set_slave i ?s h) + blk (sl_queue s) = owned h"
    using owned_set_slave [OF a(3), of ?s] by (simp add: s_def)
  moreover have "close_harbor h i = Some (set_slave i ?s h, (if sl_fd s \<noteq> 0 then [Hb_close (sl_fd s)] else []) @ frees (q_items (sl_queue s)))"
    using a(2) by (simp add: close_harbor_def s_def Let_def)
  ultimately show ?thesis by (auto simp: given_frees blk_def)
qed

lemma on_content_keeps:
  assumes wf: "harbor_wf h" and i: "i < REMOTE_MAX" and st: "sl_status (slave_at h i) = STATUS_CONTENT"
    and hon: "honest (rx_pending (slave_at h i) @ buffer)"
  shows "turn_keeps i h (rx_pending (slave_at h i) @ buffer) (length buffer) (on_content alive i h buffer)"
proof -
  define s where "s = slave_at h i"
  define n where "n = sl_length s - sl_read s"
  have s: "length (sl_size s) = 4" "sl_size s ! 0 = 0" "sl_length s = be_len (sl_size s)" "length (sl_recv_buffer s) = sl_length s"
      "sl_read s < sl_length s" "sl_fd s \<noteq> 0" "sl_status s = STATUS_CONTENT"
    using harbor_wf_at(1) [OF wf i] st by (auto simp: slave_ok_def s_def)
  have r: "rx_pending s @ buffer = sl_size s @ take (sl_read s) (sl_recv_buffer s) @ buffer" using s(7) by (simp add: rx_pending_def)
  have need: "int (sl_length s) - int (sl_read s) = int n" "0 < n" using s(5) by (simp_all add: n_def)
  show ?thesis
  proof (cases "length buffer < n")
    case True
    define rb where "rb = take (sl_read s) (sl_recv_buffer s) @ buffer @ drop (sl_read s + length buffer) (sl_recv_buffer s)"
    let ?s = "s\<lparr>sl_recv_buffer := rb, sl_read := sl_read s + length buffer\<rparr>"
    have "blit (sl_recv_buffer s) (int (sl_read s)) buffer = Some rb" using True s by (simp add: blit_def n_def rb_def)
    then have e: "on_content alive i h buffer = Some (set_slave i ?s h, [], None)"
      using True need by (simp add: on_content_def s_def [symmetric] Let_def)
    have "slave_ok ?s" using s True by (simp add: slave_ok_def n_def rb_def)
    note w = harbor_wf_slave [OF wf i this]
    have "received_packets (rx_pending s @ buffer) = []"
      unfolding r using received_wait [of "sl_size s" "take (sl_read s) (sl_recv_buffer s) @ buffer"] s True by (simp add: n_def)
    then show ?thesis unfolding s_def [symmetric] using w by (intro turn_keeps_done [OF e]) (simp_all add: s_def arrived_none)
  next
    case False
    define p where "p = take (sl_read s) (sl_recv_buffer s) @ take n buffer"
    have p: "length p = be_len (sl_size s)" using s False by (simp add: p_def n_def)
    have r': "rx_pending s @ buffer = sl_size s @ p @ drop n buffer" unfolding r p_def by simp
    have f: "HEADER_COOKIE_LENGTH \<le> length p" "honest (drop n buffer)"
        "arrived (rx_pending s @ buffer) = add_mset (take (length p - HEADER_COOKIE_LENGTH) p) (arrived (drop n buffer))"
      using arrived_packet [OF s(1,2) p, of "drop n buffer"] hon [folded s_def, unfolded r'] by (simp_all add: r')
    let ?s = "s\<lparr>sl_length := 0, sl_read := 0, sl_recv_buffer := [], sl_status := STATUS_HEADER\<rparr>"
    have b: "blit (sl_recv_buffer s) (int (sl_read s)) (take n buffer) = Some p" using False s by (simp add: blit_def n_def p_def)
    have fw: "forward_local_messsage alive h p (sl_length s) = Some (deliver alive h p)"
      using forward_deliver [of p alive h] f(1) p s(3) by (simp add: HEADER_COOKIE_LENGTH_def)
    have eq: "on_content alive i h buffer = Some (set_slave i ?s h, deliver alive h p,
        if length buffer = n then None else Some (drop n buffer))"
      using False need b fw by (simp add: on_content_def s_def [symmetric] Let_def peek_def)
    have "slave_ok ?s" using s by (simp add: slave_ok_def)
    note w = harbor_wf_slave [OF wf i this]
    have st': "slave_stream (set_slave i ?s h) i x = x" for x using w(3) by (simp add: slave_stream_def rx_pending_def s_def)
    show ?thesis
    proof (cases "length buffer = n")
      case True
      then show ?thesis unfolding s_def [symmetric] using eq w f given_deliver [OF f(1)]
        by (intro turn_keeps_done [where h' = "set_slave i ?s h" and ev = "deliver alive h p"])
          (simp_all add: s_def arrived_none received_short)
    next
      case ne: False
      then have "length (drop n buffer) < length buffer" using need False by simp
      then show ?thesis unfolding s_def [symmetric] using ne eq w f given_deliver [OF f(1)]
        by (intro turn_keeps_more [where h' = "set_slave i ?s h" and ev = "deliver alive h p" and b = "drop n buffer"])
          (simp_all add: s_def st' [unfolded s_def])
    qed
  qed
qed

lemma on_header_keeps:
  assumes wf: "harbor_wf h" and i: "i < REMOTE_MAX" and st: "sl_status (slave_at h i) = STATUS_HEADER"
    and hon: "honest (rx_pending (slave_at h i) @ buffer)"
  shows "turn_keeps i h (rx_pending (slave_at h i) @ buffer) (length buffer) (on_header alive i h buffer)"
proof -
  define s where "s = slave_at h i"
  define n where "n = 4 - sl_read s"
  have s: "length (sl_size s) = 4" "sl_read s < 4" "sl_fd s \<noteq> 0" "sl_status s = STATUS_HEADER"
    using harbor_wf_at(1) [OF wf i] st by (auto simp: slave_ok_def s_def)
  have r: "rx_pending s @ buffer = take (sl_read s) (sl_size s) @ buffer" using s(4) by (simp add: rx_pending_def)
  have need: "4 - int (sl_read s) = int n" "0 < n" using s(2) by (simp_all add: n_def)
  show ?thesis
  proof (cases "length buffer < n")
    case True
    define sz where "sz = take (sl_read s) (sl_size s) @ buffer @ drop (sl_read s + length buffer) (sl_size s)"
    let ?s = "s\<lparr>sl_size := sz, sl_read := sl_read s + length buffer\<rparr>"
    have "blit (sl_size s) (int (sl_read s)) buffer = Some sz" using True s by (simp add: blit_def n_def sz_def)
    then have e: "on_header alive i h buffer = Some (set_slave i ?s h, [], None)"
      using True need by (simp add: on_header_def s_def [symmetric] Let_def)
    have "slave_ok ?s" using s True by (simp add: slave_ok_def n_def sz_def)
    note w = harbor_wf_slave [OF wf i this]
    have "received_packets (rx_pending s @ buffer) = []" unfolding r by (rule received_short) (use s True in \<open>simp add: n_def\<close>)
    then show ?thesis unfolding s_def [symmetric] using w by (intro turn_keeps_done [OF e]) (simp_all add: s_def arrived_none)
  next
    case False
    define hdr where "hdr = take (sl_read s) (sl_size s) @ take n buffer"
    have l: "length hdr = 4" using s False by (simp add: hdr_def n_def)
    have r': "rx_pending s @ buffer = hdr @ drop n buffer" unfolding r hdr_def by simp
    have b: "blit (sl_size s) (int (sl_read s)) (take n buffer) = Some hdr" using False s by (simp add: blit_def n_def hdr_def)
    note step = on_header_def Let_def s_def [symmetric] need(1) peek_def
    show ?thesis
    proof (cases "hdr ! 0 = 0")
      case z: False
      let ?h = "set_slave i (s\<lparr>sl_size := hdr\<rparr>) h"
      have "slave_ok (s\<lparr>sl_size := hdr\<rparr>)" using s l by (simp add: slave_ok_def)
      note w = harbor_wf_slave [OF wf i this]
      obtain h' ev where c: "close_harbor ?h i = Some (h', ev)" "harbor_wf h'" "owned h' + given ev = owned h"
        using close_keeps [OF w(1) i] w(2,3) s(2) by (auto simp: s_def)
      have "on_header alive i h buffer = Some (h', Hb_log (L_too_long (int i)) # ev, None)"
        unfolding step using False b z c(1) by simp
      then show ?thesis unfolding s_def [symmetric] r' using c received_too_long [OF l z]
        by (intro turn_keeps_done [where h' = h' and ev = "Hb_log (L_too_long (int i)) # ev"]) (simp_all add: arrived_none)
    next
      case z: True
      have len: "nat (uint (hdr ! 1) * 2 ^ 16 + uint (hdr ! 2) * 2 ^ 8 + uint (hdr ! 3)) = be_len hdr" using be_len_small(2) [OF z] by simp
      have pos: "0 < be_len hdr"
      proof (rule ccontr)
        assume "\<not> 0 < be_len hdr"
        then have "honest (hdr @ [] @ drop n buffer) \<longleftrightarrow> HEADER_COOKIE_LENGTH \<le> length ([] :: bytes) \<and> honest (drop n buffer)"
          by (intro conjunct2 [OF arrived_packet]) (use l z in auto)
        then show False using hon [folded s_def, unfolded r'] by (simp add: HEADER_COOKIE_LENGTH_def)
      qed
      let ?s = "s\<lparr>sl_size := hdr, sl_length := be_len hdr, sl_read := 0, sl_recv_buffer := replicate (be_len hdr) 0,
        sl_status := STATUS_CONTENT\<rparr>"
      have eq: "on_header alive i h buffer =
          (if drop n buffer = [] then Some (set_slave i ?s h, [], None) else on_content alive i (set_slave i ?s h) (drop n buffer))"
        unfolding step len [symmetric] using False b z by simp
      have "slave_ok ?s" using l z pos s(3) by (simp add: slave_ok_def)
      note w = harbor_wf_slave [OF wf i this]
      have w2: "harbor_wf (set_slave i ?s h)" "owned (set_slave i ?s h) = owned h" "slave_at (set_slave i ?s h) i = ?s"
        using w by (simp_all add: s_def)
      have p: "rx_pending ?s = hdr" by (simp add: rx_pending_def)
      show ?thesis
      proof (cases "drop n buffer = []")
        case True
        then have "received_packets (rx_pending s @ buffer) = []" unfolding r' using received_wait [OF l, of "[]"] pos by simp
        then show ?thesis unfolding s_def [symmetric] using eq True w2
          by (intro turn_keeps_done [where h' = "set_slave i ?s h" and ev = "[]"]) (simp_all add: arrived_none)
      next
        case ne: False
        have "turn_keeps i (set_slave i ?s h) (hdr @ drop n buffer) (length (drop n buffer)) (on_content alive i (set_slave i ?s h) (drop n buffer))"
          using on_content_keeps [OF w2(1) i, of "drop n buffer" alive] w2(3) p hon [folded s_def, unfolded r'] by simp
        then show ?thesis unfolding s_def [symmetric] r' eq using ne turn_keeps_mono by (simp add: turn_keeps_from [OF w2(2)])
      qed
    qed
  qed
qed

lemma on_handshake_keeps:
  assumes wf: "harbor_wf h" and i: "i < REMOTE_MAX" and st: "sl_status (slave_at h i) = STATUS_HANDSHAKE"
    and data: "data \<noteq> []" and hon: "honest (slave_stream h i data)"
  shows "turn_keeps i h (slave_stream h i data) (length data) (on_handshake alive i fd h data)"
proof -
  define s where "s = slave_at h i"
  obtain b rest where d: "data = b # rest" using data by (cases data) auto
  have s: "slave_ok s" "sl_read s < 4" "sl_fd s \<noteq> 0" "sl_status s = STATUS_HANDSHAKE"
    using harbor_wf_at(1) [OF wf i] st by (auto simp: slave_ok_def s_def)
  show ?thesis
  proof (cases "uint b = int i")
    case False
    obtain h' ev where c: "close_harbor h i = Some (h', ev)" "harbor_wf h'" "owned h' + given ev = owned h"
      using close_keeps [OF wf i] s(2) by (auto simp: s_def)
    have e: "on_handshake alive i fd h data = Some (h', Hb_log (L_invalid_handshake (int i) fd b) # ev, None)"
      using False c(1) by (simp add: on_handshake_def d)
    have "arrived (slave_stream h i data) = {#}" using st False by (simp add: slave_stream_def d arrived_none received_short)
    then show ?thesis using c by (intro turn_keeps_done [OF e]) simp_all
  next
    case True
    let ?t = "s\<lparr>sl_status := STATUS_HEADER\<rparr>"
    let ?h = "set_slave i (?t\<lparr>sl_queue := None\<rparr>) h" and ?ev = "concat (map (flushed (sl_fd s)) (q_items (sl_queue s)))"
    have "slave_ok ?t" using s by (simp add: slave_ok_def)
    note w = harbor_wf_slave [OF wf i this, unfolded s_def [symmetric], simplified]
    note a = harbor_wf_at [OF w(1) i]
    have fl: "dispatch_slave_queue (set_slave i ?t h) i = Some (?h, ?ev)"
      using flush_queue [of "set_slave i ?t h" i] s(3) a(2) w(3) by simp
    have wh: "harbor_wf ?h"
      using w(1) slaves_ok_set_slave [of "set_slave i ?t h" "?t\<lparr>sl_queue := None\<rparr>" i] harbor_ok_set_slave [of "set_slave i ?t h" "?t\<lparr>sl_queue := None\<rparr>" i] a(1) w(3)
      by (simp add: harbor_wf_def)
    have own: "owned ?h + given ?ev = owned h"
      using owned_set_slave [OF a(3), of "?t\<lparr>sl_queue := None\<rparr>"] w(2,3) by (simp add: given_flushed blk_def)
    have at: "slave_at ?h i = ?t\<lparr>sl_queue := None\<rparr>" using harbor_wf_at(3) [OF wf i] by simp
    have stream: "slave_stream h i data = rx_pending (slave_at ?h i) @ rest"
      using st True by (simp add: slave_stream_def d at rx_pending_def Let_def s_def [symmetric])
    have same: "slave_stream ?h i rest = rx_pending (slave_at ?h i) @ rest" by (simp add: slave_stream_def at)
    show ?thesis
    proof (cases "rest = []")
      case r: True
      have e: "on_handshake alive i fd h data = Some (?h, ?ev, Some [])"
        unfolding on_handshake_def d using True r fl by (simp add: s_def)
      have "slave_stream ?h i [] = slave_stream h i data" unfolding stream using same r by simp
      then show ?thesis using e wh own hon by (intro turn_keeps_more [OF e]) (simp_all add: d at)
    next
      case r: False
      have "turn_keeps i ?h (slave_stream h i data) (length rest) (on_header alive i ?h rest)"
        unfolding stream by (rule on_header_keeps [OF wh i]) (use at hon stream in simp_all)
      then obtain h' ev rest' where t: "on_header alive i ?h rest = Some (h', ev, rest')" "harbor_wf h'"
        "case rest' of None \<Rightarrow> owned h' + given ev = owned ?h + arrived (slave_stream h i data)
         | Some b \<Rightarrow> length b < length rest \<and> sl_status (slave_at h' i) = STATUS_HEADER \<and> honest (slave_stream h' i b) \<and>
             owned h' + given ev + arrived (slave_stream h' i b) = owned ?h + arrived (slave_stream h i data)"
        unfolding turn_keeps_def by blast
      have e: "on_handshake alive i fd h data = Some (h', ?ev @ ev, rest')"
        unfolding on_handshake_def d using True r fl t(1) by (simp add: s_def)
      have o: "owned h + x = owned ?h + x + given ?ev" for x unfolding own [symmetric] by (simp only: ac_simps)
      show ?thesis using t(2,3) unfolding turn_keeps_def e o
        by (intro exI [of _ h'] exI [of _ "?ev @ ev"] exI [of _ rest']) (auto simp: d ac_simps split: option.splits)
    qed
  qed
qed

lemma on_data_keeps:
  assumes "harbor_wf h" "i < REMOTE_MAX" "sl_status (slave_at h i) = STATUS_HANDSHAKE \<Longrightarrow> data \<noteq> []" "honest (slave_stream h i data)"
  shows "turn_keeps i h (slave_stream h i data) (length data) (on_data alive i fd h data)"
proof (cases "sl_status (slave_at h i)")
  case STATUS_HANDSHAKE
  then show ?thesis using on_handshake_keeps [OF assms(1,2) _ _ assms(4)] assms(3) by (simp add: on_data_def)
next
  case STATUS_HEADER
  then show ?thesis using on_header_keeps [OF assms(1,2), of data] assms(4) by (simp add: on_data_def slave_stream_def)
next
  case STATUS_CONTENT
  then show ?thesis using on_content_keeps [OF assms(1,2), of data] assms(4) by (simp add: on_data_def slave_stream_def)
qed (use assms(1) in \<open>simp_all add: on_data_def turn_keeps_def slave_stream_def arrived_none received_short\<close>)

lemma data_loop_keeps:
  assumes "harbor_wf h" "i < REMOTE_MAX" "sl_status (slave_at h i) = STATUS_HANDSHAKE \<Longrightarrow> data \<noteq> []" "honest (slave_stream h i data)"
  shows "\<exists>h' ev. data_loop alive i fd h data = Some (h', ev) \<and> harbor_wf h' \<and> owned h' + given ev = owned h + arrived (slave_stream h i data)"
  using assms
proof (induction "length data" arbitrary: data h rule: less_induct)
  case less
  from on_data_keeps [OF less.prems, where alive = alive and fd = fd] obtain h1 ev1 rest where t: "on_data alive i fd h data = Some (h1, ev1, rest)" "harbor_wf h1"
    "case rest of None \<Rightarrow> owned h1 + given ev1 = owned h + arrived (slave_stream h i data)
     | Some b \<Rightarrow> length b < length data \<and> sl_status (slave_at h1 i) = STATUS_HEADER \<and> honest (slave_stream h1 i b) \<and>
         owned h1 + given ev1 + arrived (slave_stream h1 i b) = owned h + arrived (slave_stream h i data)"
    unfolding turn_keeps_def by blast
  show ?case
  proof (cases rest)
    case None
    then show ?thesis using t by (subst data_loop.simps) auto
  next
    case (Some b)
    then obtain h' ev where r: "data_loop alive i fd h1 b = Some (h', ev)" "harbor_wf h'" "owned h' + given ev = owned h1 + arrived (slave_stream h1 i b)"
      using less.hyps [of b h1] t(2,3) less.prems(2) by auto
    have "owned h' + given (ev1 @ ev) = (owned h' + given ev) + given ev1" by (simp add: ac_simps)
    also have "\<dots> = owned h + arrived (slave_stream h i data)" unfolding r(3) using t(3) Some by (simp add: ac_simps)
    finally show ?thesis using t(1) r(1,2) Some by (subst data_loop.simps) auto
  qed
qed

section \<open>Properties\<close>

text \<open>
  What comes in. The data of a socket is not empty, as long as its message says, and every content it completes has room for a
  cookie. A text is not empty, and a command has the two characters in front of its argument.
\<close>

definition is_command :: "u8 \<Rightarrow> bool" where
  "is_command c \<longleftrightarrow> c = 78 \<or> c = 83 \<or> c = 65"

definition input_fits :: "harbor \<Rightarrow> harbor_input \<Rightarrow> bool" where
  "input_fits h x =
     (case x of
        In_socket_msg type sid ud buffer \<Rightarrow>
          type = SKYNET_SOCKET_TYPE_DATA \<longrightarrow> buffer \<noteq> [] \<and> ud = int (length buffer) \<and>
            (harbor_id h sid \<noteq> 0 \<longrightarrow> honest (slave_stream h (harbor_id h sid) buffer))
      | In_harbor msg _ \<Rightarrow> msg \<noteq> [] \<and> (is_command (msg ! 0) \<longrightarrow> 2 \<le> length msg)
      | _ \<Rightarrow> True)"

text \<open>
  The blocks an input brings: the message itself, or the data of a socket and, for each content it completes, the block in which
  it has been collected.
\<close>

definition brings :: "harbor \<Rightarrow> harbor_input \<Rightarrow> bytes multiset" where
  "brings h x =
     (case x of
        In_remote _ _ msg _ _ _ \<Rightarrow> {#msg#}
      | In_socket_msg type sid ud buffer \<Rightarrow>
          if type = SKYNET_SOCKET_TYPE_DATA
          then {#buffer#} + (if harbor_id h sid = 0 then {#} else arrived (slave_stream h (harbor_id h sid) buffer))
          else {#}
      | _ \<Rightarrow> {#})"

lemma keeps_text:
  assumes "harbor_ok h" "size (owned h) \<le> hq_limit" "msg \<noteq> []" "is_command (msg ! 0) \<longrightarrow> 2 \<le> length msg"
  shows "keeps {#} h (harbor_command h msg source)"
proof (cases "is_command (msg ! 0)")
  case True
  then show ?thesis using keeps_command [OF assms(1,2)] assms(4) by blast
next
  case False
  then have "char0 msg \<noteq> 78" "\<not> (char0 msg = 83 \<or> char0 msg = 65)" using assms(3) by (cases msg; simp add: is_command_def char0_def)+
  moreover have "cstr (msg @ [0]) 0 \<noteq> None" by (simp add: cstr_def)
  ultimately show ?thesis using assms(1) by (auto simp: harbor_command_def Let_def keeps_def)
qed

lemma data_step_keeps:
  assumes wf: "harbor_wf h" and fits: "input_fits h (In_socket_msg SKYNET_SOCKET_TYPE_DATA sid ud buffer)"
  shows "\<exists>h' ev. harbor_mainloop alive h (In_socket_msg SKYNET_SOCKET_TYPE_DATA sid ud buffer) = Some (h', ev) \<and> harbor_wf h' \<and>
    owned h' + given ev = owned h + brings h (In_socket_msg SKYNET_SOCKET_TYPE_DATA sid ud buffer)"
proof (cases "harbor_id h sid = 0")
  case True
  then show ?thesis using wf by (simp add: harbor_mainloop_def harbor_socket_def push_socket_data_def brings_def)
next
  case False
  have f: "buffer \<noteq> []" "nat ud = length buffer" "honest (slave_stream h (harbor_id h sid) buffer)"
    using fits False by (auto simp: input_fits_def)
  obtain h' ev where "data_loop alive (harbor_id h sid) sid h buffer = Some (h', ev)" "harbor_wf h'"
    "owned h' + given ev = owned h + arrived (slave_stream h (harbor_id h sid) buffer)"
    using data_loop_keeps [OF wf harbor_id_less _ f(3)] f(1) by blast
  then show ?thesis using False f(2) by (simp add: harbor_mainloop_def harbor_socket_def push_socket_data_def brings_def add.assoc [symmetric])
qed

lemma keeps_wf:
  assumes "keeps inc h (map_option f res)" "\<And>h' ev t. res = Some (h', ev, t) \<Longrightarrow> slaves_ok h'"
    "\<And>h' ev t. fst (f (h', ev, t)) = h'"
  shows "\<exists>h' ev. map_option f res = Some (h', ev) \<and> harbor_wf h' \<and> owned h' + given ev = owned h + inc"
proof -
  obtain h' ev where r: "map_option f res = Some (h', ev)" "harbor_ok h'" "owned h' + given ev = owned h + inc"
    using assms(1) by (auto simp: keeps_def)
  then obtain h2 ev2 t where "res = Some (h2, ev2, t)" "f (h2, ev2, t) = (h', ev)" by (auto simp: map_option_eq_Some)
  then have "slaves_ok h'" using assms(2) assms(3) [of h2 ev2 t] by simp
  then show ?thesis unfolding harbor_wf_def using r by blast
qed

text \<open>C18: No message block is lost or freed twice. Every step keeps the state well formed, never faults, and the blocks in the
  queues together with those that it frees or hands to a local service are the blocks that were in the queues together with those
  that came in: a message, or the data of a socket with the contents it completes. That holds for messages, texts, all events of a
  socket, and for data that ends a handshake, is cut anywhere, or makes the service close the connection, if what the other node
  sends has room for a cookie in every message, and a command has the two characters in front of its argument.\<close>

theorem harbor_keeps_blocks:
  assumes "harbor_wf h" "input_fits h x" "size (owned h) < hq_limit"
  shows "\<exists>h' ev. harbor_mainloop alive h x = Some (h', ev) \<and> harbor_wf h' \<and> owned h' + given ev = owned h + brings h x"
proof (cases x)
  case (In_socket_msg ty sid ud b)
  show ?thesis
  proof (cases "ty = SKYNET_SOCKET_TYPE_DATA")
    case True
    then show ?thesis using data_step_keeps [OF assms(1), of sid ud b] assms(2) In_socket_msg by simp
  next
    case False
    then show ?thesis using assms(1) In_socket_msg
      by (auto simp: harbor_mainloop_def harbor_socket_def brings_def Let_def report_harbor_down_def PTYPE_TEXT_def)
  qed
next
  case (In_harbor msg src)
  have ok: "harbor_ok h" "size (owned h) \<le> hq_limit" using assms(1,3) by (simp_all add: harbor_wf_def)
  show ?thesis using keeps_text [OF ok, of msg src] slaves_ok_command [OF assms(1), of msg src] assms(2) In_harbor
    by (auto simp: harbor_mainloop_def input_fits_def brings_def keeps_def harbor_wf_def)
next
  case (In_remote name handle msg ty session src)
  have ok: "harbor_ok h" "slaves_ok h" "length (hb_s h) = REMOTE_MAX" using assms(1) by (simp_all add: harbor_wf_def harbor_ok_def)
  show ?thesis
    using keeps_wf [OF keeps_send_handle [OF ok(1) assms(3)] slaves_ok_send_handle [OF ok(2,3)], of src handle ty session msg]
      keeps_wf [OF keeps_send_name [OF ok(1) assms(3)] slaves_ok_send_name [OF ok(2,3)], of src name ty session msg] In_remote
    by (simp add: harbor_mainloop_def brings_def)
next
  case (In_wrong ty session src)
  then show ?thesis using assms(1) by (simp add: harbor_mainloop_def brings_def PTYPE_ERROR_def PTYPE_TAG_DONTCOPY_def)
qed

text \<open>The service starts well formed.\<close>

lemma harbor_create_wf: "harbor_wf harbor_create" "owned harbor_create = {#}"
  by (simp_all add: harbor_wf_def harbor_ok_def slaves_ok_def slave_ok_def harbor_create_def zero_slave_def hash_new_def owned_def)

text \<open>A command of one character is read past its end, or fails an assert.\<close>

lemma harbor_short_command:
  assumes "is_command c"
  shows "harbor_command h [c] source = None"
  using assms by (auto simp: is_command_def harbor_command_def char0_def cstr_def Let_def)

section \<open>Examples\<close>

text \<open>Node 2 has sent the end of the handshake and a message of two bytes in one piece; one message waits for it.\<close>

definition waiting_queue :: harbor_msg_queue where
  "waiting_queue = new_harbor_queue\<lparr>hq_data := (replicate HARBOR_QUEUE_SIZE zero_msg)[0 := zero_msg\<lparr>hm_buffer := [9]\<rparr>], hq_tail := 1\<rparr>"

definition waiting_slave :: slave where
  "waiting_slave = zero_slave\<lparr>sl_fd := 7, sl_status := STATUS_HANDSHAKE, sl_queue := Some waiting_queue\<rparr>"

definition waiting_harbor :: harbor where
  "waiting_harbor = set_slave 2 waiting_slave (demo_harbor 1)"

definition waiting_data :: bytes where
  "waiting_data = 2 # [0, 0, 0, 14] @ ([65, 66] @ replicate 12 0) @ []"

lemma waiting_queue_items: "hq_ok waiting_queue" "hq_items waiting_queue = [zero_msg\<lparr>hm_buffer := [9]\<rparr>]"
  using exI [of "\<lambda>k. (2::nat) ^ k = 1024" 10]
  by (simp_all add: waiting_queue_def new_harbor_queue_def hq_ok_def hq_items_def hq_count_def ring_list_def HARBOR_QUEUE_SIZE_def)

lemma waiting_harbor_wf: "harbor_wf waiting_harbor"
proof -
  have "slaves_ok (demo_harbor 1)"
    by (simp add: slaves_ok_def slave_ok_def demo_harbor_def harbor_create_def zero_slave_def)
  moreover have "slave_ok waiting_slave" by (simp add: slave_ok_def waiting_slave_def zero_slave_def)
  ultimately have "slaves_ok waiting_harbor" unfolding waiting_harbor_def by (rule slaves_ok_set_slave)
  moreover have "harbor_ok waiting_harbor"
    unfolding waiting_harbor_def by (rule harbor_ok_set_slave) (simp_all add: demo_harbor_ok waiting_slave_def waiting_queue_items)
  ultimately show ?thesis by (simp add: harbor_wf_def)
qed

lemma waiting_harbor_owned: "owned waiting_harbor = {#[9]#}"
  using owned_set_slave [of 2 "demo_harbor 1" waiting_slave]
  by (simp add: waiting_harbor_def demo_harbor_ok REMOTE_MAX_def zero_slave_def blk_def waiting_slave_def waiting_queue_items)

lemma waiting_stream: "slave_stream waiting_harbor 2 waiting_data = [0, 0, 0, 14] @ ([65, 66] @ replicate 12 0) @ []"
  by (simp add: slave_stream_def waiting_harbor_def waiting_slave_def zero_slave_def waiting_data_def rx_pending_def REMOTE_MAX_def Let_def)

lemma waiting_id: "harbor_id waiting_harbor 7 = 2"
  unfolding waiting_harbor_def
  by (rule harbor_id_unique) (simp_all add: REMOTE_MAX_def waiting_slave_def set_slave_def slave_at_def demo_harbor_def harbor_create_def zero_slave_def)

lemma waiting_arrived: "arrived (slave_stream waiting_harbor 2 waiting_data) = {#[65, 66]#}" "honest (slave_stream waiting_harbor 2 waiting_data)"
  unfolding waiting_stream using arrived_packet [of "[0, 0, 0, 14]" "[65, 66] @ replicate 12 0" "[]"]
  by (simp_all add: be_len_def HEADER_COOKIE_LENGTH_def received_short arrived_none honest_def)

theorem harbor_keeps_blocks_witness:
  "\<exists>h' ev. harbor_mainloop (\<lambda>_. True) waiting_harbor (In_socket_msg SKYNET_SOCKET_TYPE_DATA 7 19 waiting_data) = Some (h', ev) \<and>
    harbor_wf h' \<and> owned h' + given ev = {#waiting_data, [65, 66], [9]#}"
proof -
  have "input_fits waiting_harbor (In_socket_msg SKYNET_SOCKET_TYPE_DATA 7 19 waiting_data)"
    using waiting_arrived(2) by (simp add: input_fits_def waiting_id) (simp add: waiting_data_def)
  then show ?thesis
    using harbor_keeps_blocks [OF waiting_harbor_wf, of "In_socket_msg SKYNET_SOCKET_TYPE_DATA 7 19 waiting_data" "\<lambda>_. True"]
    by (simp add: waiting_harbor_owned hq_limit_def brings_def waiting_id waiting_arrived ac_simps)
qed

end
