(* ===== verification/Spec2Isabelle.thy ===== *)
theory Spec2Isabelle
  imports Prelude Client HarborProps Des Sha1 Digest Dh Encode HashId DataBuffer Locks Mq Timer Handle Netpack Seri SeriStack Cluster CString Gate Mailbox Server
    ServerInv Services Commands Dispatch ServerProps Module Logger Socket SocketPoll SocketApi SocketBridge SocketIds SocketOrder SocketFaults
    SocketDeliver LuaSocket LuaSocketProps HarborBlocks
begin

text \<open>
  The repository is a game server on skynet, an actor framework in C (\<open>src/3rd/skynet\<close>). The Lua code of
  the game runs in services; the C code carries the messages between them, drives their timers, and
  turns the byte streams of the network into messages. This library models that C code and proves
  what makes each part correct.

  \<^bold>\<open>How the parts interact.\<close> A service is a context (\<open>skynet_server.c\<close>) with a mailbox (\<open>skynet_mq.c\<close>) and
  an entry in the handle table (\<open>skynet_handle.c\<close>). A send looks the destination up in the table and
  pushes into its mailbox; a mailbox that becomes non-empty enters the global queue, from which the worker
  threads take mailboxes and hand their messages to the callback of the context. The timer thread
  (\<open>skynet_timer.c\<close>) sends a message for each timeout that is due. The socket thread (\<open>socket_server.c\<close>) owns all
  sockets; the other threads put requests into its pipe, and what it reports becomes a message for the service that
  owns the socket (\<open>skynet_socket.c\<close>). The gate (\<open>service_gate.c\<close>) is a service
  that collects the bytes of each connection (\<open>databuffer.h\<close>), finds the connection by its socket id
  (\<open>hashid.h\<close>), and forwards whole packets. The C modules for Lua split packets (\<open>lua-netpack.c\<close>), write
  and read message arguments (\<open>lua-seri.c\<close>), build the packages between nodes (\<open>lua-cluster.c\<close>), and
  encrypt and sign what clients send (\<open>lua-crypt.c\<close>).

  \<^bold>\<open>Theories and source files.\<close> Files of \<open>skynet-src\<close>:
  \<^item> \<open>Locks\<close>: \<open>rwlock.h\<close> and \<open>spinlock.h\<close>. Each lock is a transition system of atomic operations of any number of
    threads; mutual exclusion by an inductive invariant, and the absence of deadlock.
  \<^item> \<open>Mq\<close>: \<open>skynet_mq.c\<close>. The functions on one mailbox and on the global queue, and then the system of all of
    them, where the atomic steps are the sections under the spin locks. The assertions of the code never fail
    and a mailbox with messages is always scheduled. \<open>Mailbox\<close> states the interface that contexts use.
  \<^item> \<open>Timer\<close>: \<open>skynet_timer.c\<close>. The five-level wheel refines a plain list of deadlines, and a timeout fires at
    exactly its tick.
  \<^item> \<open>Handle\<close>: \<open>skynet_handle.c\<close>. The slot table and the sorted name table; \<open>None\<close> is a failed assert or a loop
    that never ends.
  \<^item> \<open>Server\<close>: \<open>skynet_server.c\<close>, and the small files it leans on (\<open>skynet_error.c\<close>, \<open>skynet_harbor.c\<close>,
    \<open>skynet_env.c\<close>, \<open>skynet_monitor.c\<close>). \<open>ServerInv\<close> holds the invariant of the whole node and what each
    operation does to it, \<open>Services\<close> launching and retiring, \<open>Commands\<close> the commands, \<open>Dispatch\<close> the work of a
    worker thread, \<open>ServerProps\<close> the properties.
  \<^item> \<open>Module\<close>: \<open>skynet_module.c\<close>, the search of the path for a service and the table of those that are loaded.
  \<^item> \<open>Socket\<close>: \<open>socket_server.c\<close>, its data, the ids, and the writing of a socket's buffers. \<open>SocketPoll\<close> has the requests
    of the pipe, the events and the loop of the socket thread, \<open>SocketApi\<close> what the other threads call. \<open>SocketIds\<close> shows
    what holds of any sequence of calls and turns of the loop: the table stays well formed, an id is closed at most once.
    \<open>SocketOrder\<close> shows that the bytes written to a connection are those of the messages, in order. \<open>SocketFaults\<close> has the
    ways to abort the thread that were found.
  \<^item> \<open>SocketBridge\<close>: \<open>skynet_socket.c\<close>, on the node of \<open>Server\<close>; \<open>SocketDeliver\<close> shows where its messages arrive.
  \<^item> \<open>CString\<close>: the C library functions on strings that the services use.

  Files of \<open>service-src\<close>: \<open>HashId\<close> is \<open>hashid.h\<close>, \<open>DataBuffer\<close> is \<open>databuffer.h\<close>, \<open>Gate\<close> is \<open>service_gate.c\<close>,
  \<open>Harbor\<close> is \<open>service_harbor.c\<close>, the service that carries messages between nodes, with its properties in \<open>HarborProps\<close>: what one
  node sends the other delivers, in any pieces; waiting messages keep their order. \<open>HarborBlocks\<close>
  shows that no step loses a message block or frees it twice.
  \<open>Logger\<close> is \<open>service_logger.c\<close> with the lines of \<open>skynet_log.c\<close>.
  Files of \<open>lualib-src\<close>: \<open>Netpack\<close> is \<open>lua-netpack.c\<close>, \<open>Seri\<close> is \<open>lua-seri.c\<close> (\<open>SeriStack\<close> its reader with a C
  stack of bounded depth), \<open>Cluster\<close> is
  \<open>lua-cluster.c\<close>; \<open>Bytes\<close> holds the byte blocks and the error results they share. The cryptography of
  \<open>lua-crypt.c\<close> is in \<open>Des\<close> (DES and its padding), \<open>Encode\<close> (hexadecimal, base 64, xor), \<open>Dh\<close> (the key exchange)
  and \<open>Digest\<close> (the hashes on MD5); \<open>lsha1.c\<close> is \<open>Sha1\<close>; \<open>Words\<close> has the four-byte words they all use. \<open>LuaSocket\<close> is \<open>lua-socket.c\<close>:
  the read buffers of a service's sockets, and its calls of the socket server; \<open>LuaSocketProps\<close> shows that reads see a plain stream of bytes. The
  \<open>Client\<close> is \<open>lua-client.c\<close> of \<open>src/common/luaclib_src\<close>, the socket of the test client. The
  ciphers and encodings are shown to be undone by their inverses, the digests to be those of the standards.

  \<^bold>\<open>How C is read.\<close> A struct is a record, an unsigned integer a machine word, an \<open>int\<close> an integer whose
  range the theorems bound where it matters. An object that the code shares by pointer is a cell of a list
  or a map, addressed by its index; a freed cell is \<open>None\<close>. A function returns \<open>None\<close> for a failed
  assert, an access outside a block or to a freed cell, and for a loop that does not end. So a theorem that
  gives a result \<open>Some r\<close> also says that the code keeps its assertions, stays within its memory, and returns.
  A loop that need not end is a \<open>partial_function\<close>; the others are recursive functions with their
  termination proved. Only the reader of serialised values (\<open>Seri\<close>) has fuel, three times the number of bytes
  and 3, which is shown to be enough for every input. The C stack is taken to be deep enough, but for this reader, whose depth the
  input decides: \<open>SeriStack\<close> gives it a limit \<open>d\<close> of nested calls. An \<open>int\<close> that comes from Lua is cut to 32 bits (\<open>to_i32\<close>), as in
  \<open>LuaSocket\<close>. A \<open>memcmp\<close> may read all of both blocks, but what it gives is taken to depend on their first difference
  only (\<open>CString\<close>, where \<open>memcmp_strict\<close> is the stricter reading and the commands of the gate for which the two differ are named).

  \<^bold>\<open>Interfaces.\<close> \<open>invariant_system\<close> (Prelude) gives reachable states their invariant and is interpreted on
  both locks, the message queues and the gate. \<open>fifo_queue\<close> (Fifo) relates any sequence of operations of a
  ring buffer to the same operations on a list, and is interpreted on the mailbox, on the packet
  queue of netpack and on the client's queue of lines. \<open>byte_queue\<close> is the interface of the connection buffer, \<open>id_table\<close> that of the id table, and
  \<open>mailboxes\<close> that of all mailboxes of a node, \<open>padding_scheme\<close> that of a padding mode of DES; each is interpreted on the functions of the code. \<open>Framing\<close>
  defines what the packets of a byte stream are, once for the gate and netpack.

  \<^bold>\<open>The server.\<close> The clock, and what a service does in \<open>init\<close>, \<open>release\<close>, \<open>signal\<close> and its callback, are
  the record \<open>host\<close>: functions on the whole state of the node. \<open>host_ok ho b\<close> asks of them what the code
  relies on: they keep the node's invariant, change references only through the API, and send at most \<open>b\<close>
  messages to one mailbox. The bounds \<open>cmd_bound\<close> and \<open>dispatch_bound\<close> say by how many messages a command
  or a batch of dispatched messages can then let a mailbox grow; the properties ask for that much room
  below \<open>mq_limit\<close>, 2^30 - 1 messages, from where the ring buffer's capacity would overflow an \<open>int\<close>.
  The result of a dispatch is the invariant again, so the properties chain.

  \<^bold>\<open>The socket server.\<close> Each call of another thread and each turn of the loop in \<open>socket_server_poll\<close> is one step. The
  record \<open>os\<close> holds the answers of the system in that step (how much a \<open>write\<close> takes, what \<open>read\<close>, \<open>accept\<close> and
  \<open>connect\<close> give, which events wait, and whether another thread holds the lock of direct writes), so a theorem about all
  steps is one about every behaviour of the system. What the server asks of the system are events. The properties of
  runs ask that at most 2^16 - 1 sends wait, because \<open>inc_sending_ref\<close> is a busy wait from there.

  \<^bold>\<open>Granularity.\<close> \<open>Locks\<close> and \<open>Mq\<close> interleave the atomic steps of all threads. \<open>Handle\<close> also states a
  race between a registration and a retirement. \<open>Server\<close>, \<open>Socket\<close> and \<open>Gate\<close> run a function as one step.

  \<^bold>\<open>Not modelled.\<close>
  \<^item> The start of the threads (\<open>skynet_start.c\<close>, \<open>skynet_main.c\<close>, \<open>skynet_daemon.c\<close>), the wrapper of the allocator
    (\<open>malloc_hook.c\<close>) and those of the polls (\<open>socket_epoll.h\<close>, \<open>socket_kqueue.h\<close>): nearly every line is a call of the
    system or of a vendored library.
  \<^item> Of \<open>socket_server.c\<close> the layout of a request in the pipe (requests are a datatype), the addresses in the system's
    structures, and the names in \<open>socket_server_info\<close>.
  \<^item> The service \<open>service_snlua.c\<close> and the other C modules for Lua (bson, sproto, shared tables): they work on the
    state of the vendored Lua interpreter.
  \<^item> The Lua code of the game and the vendored libraries under \<open>3rd\<close>.
\<close>

end
